(* ===== verification/Prelude.thy ===== *)
theory Prelude
  imports Complex_Main "HOL-Library.Word" "HOL-Library.Multiset" "HOL-Library.AList"
begin

text \<open>
  Shared ground of the development: the Go integer types, the result type of code that may
  panic, and the generic facts on machine words, lists and association lists that the
  component theories use.

  \<^item> \<open>uint64\<close> is \<open>64 word\<close> (arithmetic wraps); Go's \<open>int\<close> is \<open>int\<close>: every \<open>int\<close>
    of the program counts entries in memory or events since the last compaction, so it stays
    far below \<open>2\<^sup>6\<^sup>3\<close>; conversions \<open>uint64(n)\<close> are written out as \<open>word_of_int\<close>.
  \<^item> A Go string or byte slice is a \<open>string\<close>, one \<open>char\<close> per byte.
  \<^item> Code that may panic returns \<open>'a res\<close>: \<open>Inl\<close> for a panic, \<open>Inr\<close> for a result. A loop that may not
    end is a \<open>partial_function\<close> in the option type; \<open>of_loop\<close> turns its \<open>None\<close> into \<open>Inl Diverges\<close>.
  \<^item> A pointer is an address \<open>nat\<close>, \<open>nil\<close> is \<open>None\<close>.
  \<^item> \<open>var zero V\<close> of the generic value type is the constant \<open>0\<close> of the class \<open>zero\<close>.
\<close>

type_synonym u64 = "64 word"
type_synonym addr = nat

datatype go_panic = NilDeref | Panic string | Diverges

type_synonym 'a res = "go_panic + 'a"

definition bindr :: "'a res \<Rightarrow> ('a \<Rightarrow> 'b res) \<Rightarrow> 'b res" where
  "bindr m f = (case m of Inl p \<Rightarrow> Inl p | Inr x \<Rightarrow> f x)"

definition require :: "bool \<Rightarrow> string \<Rightarrow> unit res" where
  "require b msg = (if b then Inr () else Inl (Panic msg))"

definition of_loop :: "'a res option \<Rightarrow> 'a res" where
  "of_loop m = (case m of None \<Rightarrow> Inl Diverges | Some r \<Rightarrow> r)"

lemma of_loop_simps [simp]: "of_loop None = Inl Diverges" "of_loop (Some r) = r"
  by (simp_all add: of_loop_def)

named_theorems u64_simps \<open>reading wrapping arithmetic through unat\<close>

lemma bindr_simps [simp]:
  "bindr (Inl p) f = Inl p"
  "bindr (Inr x) f = f x"
  by (simp_all add: bindr_def)

lemma require_bind [simp]: "bindr (require b msg) f = (if b then f () else Inl (Panic msg))"
  by (simp add: require_def)

lemma require_Inr [simp]: "require b msg = Inr u \<longleftrightarrow> b"
  by (simp add: require_def)

subsection \<open>Machine words\<close>

lemma unat_lt_u64: "unat (x :: u64) < 2 ^ 64"
  using unsigned_less [of x] by simp

lemma unat_add_u64 [u64_simps]:
  "unat (x :: u64) + unat y < 2 ^ 64 \<Longrightarrow> unat (x + y) = unat x + unat y"
  by (simp add: unat_word_ariths)

lemma unat_sub_u64 [u64_simps]:
  "unat (y :: u64) \<le> unat x \<Longrightarrow> unat (x - y) = unat x - unat y"
  by (simp add: unat_sub word_le_nat_alt)

lemma unat_inc_u64:
  "unat (x :: u64) + 1 < 2 ^ 64 \<Longrightarrow> unat (x + 1) = Suc (unat x)"
  using unat_add_u64 [of x 1] by simp

lemma unat_inc_le: "unat (x :: u64) \<le> m \<Longrightarrow> m < 2 ^ 64 - 1 \<Longrightarrow> unat (x + 1) = Suc (unat x)"
  by (rule unat_inc_u64) simp

lemma unat_word_of_int_u64:
  "0 \<le> n \<Longrightarrow> n < 2 ^ 64 \<Longrightarrow> unat (word_of_int n :: u64) = nat n"
  by (simp add: unat_eq_nat_uint uint_word_of_int)

lemma unat_word_of_int_le: "0 \<le> n \<Longrightarrow> unat (word_of_int n :: u64) \<le> nat n"
  by (simp add: unat_eq_nat_uint uint_word_of_int nat_mod_as_int flip: nat_mod_distrib)
    (metis mod_less_eq_dividend nat_mono zmod_le_nonneg_dividend)

subsection \<open>Sums of word-sized weights\<close>

definition weight_sum :: "u64 list \<Rightarrow> nat" where
  "weight_sum ws = sum_list (map unat ws)"

lemma weight_sum_simps [simp]:
  "weight_sum [] = 0"
  "weight_sum (w # ws) = unat w + weight_sum ws"
  "weight_sum (xs @ ys) = weight_sum xs + weight_sum ys"
  by (simp_all add: weight_sum_def)

lemma weight_sum_mem: "w \<in> set ws \<Longrightarrow> unat w \<le> weight_sum ws"
  by (simp add: weight_sum_def member_le_sum_list)

lemma weight_sum_remove1:
  "w \<in> set ws \<Longrightarrow> weight_sum (remove1 w ws) = weight_sum ws - unat w"
proof (induction ws)
  case (Cons a ws)
  then show ?case using weight_sum_mem [of w ws] by (cases "w = a") auto
qed simp

lemma length_le_weight_sum:
  "length ws \<le> weight_sum ws + count_list ws 0"
proof (induction ws)
  case Nil
  then show ?case by simp
next
  case (Cons w ws)
  have "w \<noteq> 0 \<Longrightarrow> 1 \<le> unat w"
    by (simp add: Suc_leI unat_gt_0)
  then show ?case using Cons by (cases "w = 0") auto
qed

subsection \<open>Lists\<close>

lemma butlast_eq_remove1_last: "xs \<noteq> [] \<Longrightarrow> distinct xs \<Longrightarrow> remove1 (last xs) xs = butlast xs"
  by (induction xs) (auto split: if_splits dest: in_set_butlastD)

lemma remove1_split: "a \<notin> set xs \<Longrightarrow> remove1 a (xs @ a # ys) = xs @ ys"
  by (simp add: remove1_append)

lemma split_of_member: "distinct xs \<Longrightarrow> a \<in> set xs \<Longrightarrow> \<exists>ys zs. xs = ys @ a # zs \<and> a \<notin> set ys \<and> a \<notin> set zs"
  by (metis distinct.simps(2) distinct_append not_distinct_conv_prefix split_list)

lemma count_list_eq_length_filter_map:
  "count_list (map f xs) y = length (filter (\<lambda>x. f x = y) xs)"
  by (induction xs) auto

lemma count_list_le_length: "count_list xs y \<le> length xs"
  by (induction xs) auto

lemma map_upd_notin: "a \<notin> set xs \<Longrightarrow> map (f(a := v)) xs = map f xs"
  by (induction xs) auto

end
