(* ===== verification/Prefix.thy ===== *)
theory Prefix
  imports Prelude
begin

text \<open>
  The string helpers of the radix backends (\<^verbatim>\<open>pressure.go\<close>, \<open>init\<close> to \<open>longestCommonPrefix\<close>):
  cloning and concatenating edge labels through preallocated digit tables, and the longest
  common prefix, eight bytes at a time. Each optimised routine equals its plain counterpart:
  the identity, list append, and the length of the common prefix.
\<close>

unbundle bit_operations_syntax

abbreviation byte :: "char \<Rightarrow> 8 word" where
  "byte c \<equiv> of_char c"

definition digit_char :: "nat \<Rightarrow> char" where
  \<comment> \<open>\<open>byte('0' + d)\<close>\<close>
  "digit_char d = char_of (48 + d)"

definition byteStrings :: "string list" where
  "byteStrings = map (\<lambda>i. [char_of i]) [0..<256]"

definition twoDigitStrings :: "string list" where
  "twoDigitStrings = map (\<lambda>i. [digit_char (i div 10), digit_char (i mod 10)]) [0..<100]"

definition threeDigitStrings :: "string list" where
  "threeDigitStrings = map (\<lambda>i. [digit_char (i div 100), digit_char ((i div 10) mod 10),
     digit_char (i mod 10)]) [0..<1000]"

definition fourDigitsAll :: string where
  "fourDigitsAll = concat (map (\<lambda>i. [digit_char (i div 1000), digit_char ((i div 100) mod 10),
     digit_char ((i div 10) mod 10), digit_char (i mod 10)]) [0..<10000])"

definition substr :: "string \<Rightarrow> nat \<Rightarrow> nat \<Rightarrow> string" where
  \<comment> \<open>\<open>s[i:j]\<close>\<close>
  "substr s i j = take (j - i) (drop i s)"

definition parseTwoASCIIDigits :: "char \<Rightarrow> char \<Rightarrow> nat option" where
  "parseTwoASCIIDigits c0 c1 = (let d0 = byte c0 - 48; d1 = byte c1 - 48 in
     if d0 < 10 \<and> d1 < 10 then Some (unat d0 * 10 + unat d1) else None)"

definition parseThreeASCIIDigits :: "char \<Rightarrow> char \<Rightarrow> char \<Rightarrow> nat option" where
  "parseThreeASCIIDigits c0 c1 c2 = (let d0 = byte c0 - 48; d1 = byte c1 - 48; d2 = byte c2 - 48 in
     if d0 < 10 \<and> d1 < 10 \<and> d2 < 10 then Some (unat d0 * 100 + unat d1 * 10 + unat d2) else None)"

definition parseFourASCIIDigits :: "char \<Rightarrow> char \<Rightarrow> char \<Rightarrow> char \<Rightarrow> nat option" where
  "parseFourASCIIDigits c0 c1 c2 c3 =
    (let d0 = byte c0 - 48; d1 = byte c1 - 48; d2 = byte c2 - 48; d3 = byte c3 - 48 in
     if d0 < 10 \<and> d1 < 10 \<and> d2 < 10 \<and> d3 < 10
     then Some (unat d0 * 1000 + unat d1 * 100 + unat d2 * 10 + unat d3) else None)"

definition cloneMultiBytePrefix :: "string \<Rightarrow> string" where
  "cloneMultiBytePrefix s =
    (if length s = 2 then
       (case parseTwoASCIIDigits (s ! 0) (s ! 1) of
          Some idx \<Rightarrow> twoDigitStrings ! idx | None \<Rightarrow> s)
     else if length s = 3 then
       (case parseThreeASCIIDigits (s ! 0) (s ! 1) (s ! 2) of
          Some idx \<Rightarrow> threeDigitStrings ! idx | None \<Rightarrow> s)
     else if length s = 4 then
       (case parseFourASCIIDigits (s ! 0) (s ! 1) (s ! 2) (s ! 3) of
          Some idx \<Rightarrow> substr fourDigitsAll (idx * 4) (idx * 4 + 4) | None \<Rightarrow> s)
     else s)"

definition clonePrefix :: "string \<Rightarrow> string" where
  "clonePrefix s =
    (if length s = 0 then ''''
     else if length s = 1 then byteStrings ! unat (byte (s ! 0))
     else cloneMultiBytePrefix s)"

definition concatFourDigitPrefix :: "string \<Rightarrow> string \<Rightarrow> string option" where
  "concatFourDigitPrefix a b = (let (c0, c1, c2, c3) =
      (if length a = 1 then (a ! 0, b ! 0, b ! 1, b ! 2)
       else if length a = 2 then (a ! 0, a ! 1, b ! 0, b ! 1)
       else (a ! 0, a ! 1, a ! 2, b ! 0))
    in case parseFourASCIIDigits c0 c1 c2 c3 of
         Some idx \<Rightarrow> Some (substr fourDigitsAll (idx * 4) (idx * 4 + 4)) | None \<Rightarrow> None)"

definition concatPrefix :: "string \<Rightarrow> string \<Rightarrow> string" where
  "concatPrefix a b = (let n = length a + length b in
     if n = 2 \<and> length a = 1 then
       (case parseTwoASCIIDigits (a ! 0) (b ! 0) of
          Some idx \<Rightarrow> twoDigitStrings ! idx | None \<Rightarrow> a @ b)
     else if n = 3 \<and> 0 < length a \<and> 0 < length b then
       (let c1 = (if length a = 2 then a ! 1 else b ! 0) in
        case parseThreeASCIIDigits (a ! 0) c1 (b ! (length b - 1)) of
          Some idx \<Rightarrow> threeDigitStrings ! idx | None \<Rightarrow> a @ b)
     else if n = 4 \<and> 0 < length a \<and> 0 < length b then
       (case concatFourDigitPrefix a b of Some s \<Rightarrow> s | None \<Rightarrow> a @ b)
     else a @ b)"

fun le_bytes :: "char list \<Rightarrow> u64" where
  \<comment> \<open>\<open>b[0] | b[1]<<8 | ...\<close>\<close>
  "le_bytes [] = 0"
| "le_bytes (c # cs) = ucast (byte c) OR push_bit 8 (le_bytes cs)"

definition LittleEndian_Uint64 :: "char list \<Rightarrow> u64" where
  "LittleEndian_Uint64 cs = le_bytes (take 8 cs)"

definition TrailingZeros64 :: "u64 \<Rightarrow> nat" where
  "TrailingZeros64 w = length (takeWhile (\<lambda>n. \<not> bit w n) [0..<64])"

function lcp_words :: "string \<Rightarrow> string \<Rightarrow> nat \<Rightarrow> nat \<Rightarrow> nat + nat" where
  \<comment> \<open>the eight-byte loop: \<open>Inr\<close> the function's result, \<open>Inl\<close> the index the byte loop starts at\<close>
  "lcp_words a b n i =
    (if i + 8 \<le> n then
       (let diff = LittleEndian_Uint64 (drop i a) XOR LittleEndian_Uint64 (drop i b) in
        if diff \<noteq> 0 then Inr (i + TrailingZeros64 diff div 8) else lcp_words a b n (i + 8))
     else Inl i)"
  by pat_completeness auto
termination
  by (relation "measure (\<lambda>(a, b, n, i). n - i)") auto

function lcp_bytes :: "string \<Rightarrow> string \<Rightarrow> nat \<Rightarrow> nat \<Rightarrow> nat" where
  "lcp_bytes a b n i =
    (if i < n then (if a ! i \<noteq> b ! i then i else lcp_bytes a b n (i + 1)) else n)"
  by pat_completeness auto
termination
  by (relation "measure (\<lambda>(a, b, n, i). n - i)") auto

declare lcp_words.simps [simp del] lcp_bytes.simps [simp del]

definition longestCommonPrefix :: "string \<Rightarrow> string \<Rightarrow> nat" where
  "longestCommonPrefix a b = (let n = min (length a) (length b) in
     if 8 \<le> n then
       (case lcp_words (take n a) (take n b) n 0 of Inr r \<Rightarrow> r | Inl i \<Rightarrow> lcp_bytes a b n i)
     else lcp_bytes a b n 0)"

subsection \<open>Digit tables\<close>

lemma unat_byte: "unat (byte c) = of_char c"
proof -
  have "unat (of_nat (of_char c) :: 8 word) = of_char c"
    by (simp add: unat_of_nat nat_of_char_less_256 del: of_nat_of_char)
  then show ?thesis by (simp only: of_nat_of_char)
qed

lemma digit_char_byte:
  assumes "byte c - 48 < 10"
  shows "digit_char (unat (byte c - 48)) = c"
proof -
  have "unat (byte c - 48) < 10" using assms by (simp add: word_less_nat_alt)
  moreover have "unat (48 + w) = 48 + unat w" if "unat w < 10" for w :: "8 word"
    using that by (simp add: unat_word_ariths)
  ultimately have "unat (48 + (byte c - 48)) = 48 + unat (byte c - 48)" by blast
  then have "48 + unat (byte c - 48) = unat (byte c)" by simp
  also have "\<dots> = of_char c" by (rule unat_byte)
  finally show ?thesis by (simp add: digit_char_def)
qed

lemma decimal_digits:
  fixes a b c d :: nat
  assumes "b < 10" "c < 10" "d < 10"
  shows "(a * 1000 + b * 100 + c * 10 + d) div 1000 = a"
    "(a * 1000 + b * 100 + c * 10 + d) div 100 mod 10 = b"
    "(a * 1000 + b * 100 + c * 10 + d) div 10 mod 10 = c"
    "(a * 1000 + b * 100 + c * 10 + d) mod 10 = d"
proof -
  show "(a * 1000 + b * 100 + c * 10 + d) div 1000 = a"
    by (rule div_nat_eqI) (use assms in auto)
  have "(a * 1000 + b * 100 + c * 10 + d) div 100 = a * 10 + b"
    by (rule div_nat_eqI) (use assms in auto)
  then show "(a * 1000 + b * 100 + c * 10 + d) div 100 mod 10 = b" using assms by simp
  have "(a * 1000 + b * 100 + c * 10 + d) div 10 = a * 100 + b * 10 + c"
    by (rule div_nat_eqI) (use assms in auto)
  moreover have "a * 100 + b * 10 + c = c + 10 * (a * 10 + b)" by simp
  ultimately show "(a * 1000 + b * 100 + c * 10 + d) div 10 mod 10 = c"
    using assms by (metis mod_less mod_mult_self2)
  have "a * 1000 + b * 100 + c * 10 + d = d + 10 * (a * 100 + b * 10 + c)" by simp
  then show "(a * 1000 + b * 100 + c * 10 + d) mod 10 = d"
    using assms by (metis mod_less mod_mult_self2)
qed

lemma parseTwo_table:
  assumes "parseTwoASCIIDigits c0 c1 = Some idx"
  shows "idx < 100" "twoDigitStrings ! idx = [c0, c1]"
proof -
  have d: "unat (byte c0 - 48) < 10" "unat (byte c1 - 48) < 10"
    and idx: "idx = unat (byte c0 - 48) * 10 + unat (byte c1 - 48)"
    and c: "byte c0 - 48 < 10" "byte c1 - 48 < 10"
    using assms by (auto simp: parseTwoASCIIDigits_def Let_def word_less_nat_alt split: if_splits)
  then show i: "idx < 100" by simp
  have "idx div 10 = unat (byte c0 - 48)" "idx mod 10 = unat (byte c1 - 48)" using d idx by simp_all
  with i c show "twoDigitStrings ! idx = [c0, c1]"
    by (simp add: twoDigitStrings_def digit_char_byte)
qed

lemma parseThree_table:
  assumes "parseThreeASCIIDigits c0 c1 c2 = Some idx"
  shows "idx < 1000" "threeDigitStrings ! idx = [c0, c1, c2]"
proof -
  have d: "unat (byte c0 - 48) < 10" "unat (byte c1 - 48) < 10" "unat (byte c2 - 48) < 10"
    and idx: "idx = unat (byte c0 - 48) * 100 + unat (byte c1 - 48) * 10 + unat (byte c2 - 48)"
    and c: "byte c0 - 48 < 10" "byte c1 - 48 < 10" "byte c2 - 48 < 10"
    using assms by (auto simp: parseThreeASCIIDigits_def Let_def word_less_nat_alt split: if_splits)
  then show i: "idx < 1000" by simp
  have "idx div 100 = unat (byte c0 - 48)" "idx div 10 mod 10 = unat (byte c1 - 48)"
    "idx mod 10 = unat (byte c2 - 48)"
    using decimal_digits [where a = 0, OF d] d(1) by (simp_all add: idx)
  with i c show "threeDigitStrings ! idx = [c0, c1, c2]"
    by (simp add: threeDigitStrings_def digit_char_byte)
qed

lemma concat_chunk:
  assumes "\<And>j. length (f j) = k" "i < m"
  shows "take k (drop (i * k) (concat (map f [0..<m]))) = f i"
proof -
  have len: "length (concat (map f [0..<i])) = i * k" for i
    using assms(1) by (induction i) (simp_all add: add.commute)
  have "[0..<m] = [0..<i] @ i # [Suc i..<m]"
    using assms(2) upt_add_eq_append [of 0 i "m - i"] by (simp add: upt_conv_Cons)
  then have "concat (map f [0..<m]) = concat (map f [0..<i]) @ f i @ concat (map f [Suc i..<m])"
    by simp
  with len [of i] assms(1) [of i] show ?thesis by simp
qed

lemma parseFour_table:
  assumes "parseFourASCIIDigits c0 c1 c2 c3 = Some idx"
  shows "idx < 10000" "substr fourDigitsAll (idx * 4) (idx * 4 + 4) = [c0, c1, c2, c3]"
proof -
  have d: "unat (byte c0 - 48) < 10" "unat (byte c1 - 48) < 10" "unat (byte c2 - 48) < 10"
      "unat (byte c3 - 48) < 10"
    and idx: "idx = unat (byte c0 - 48) * 1000 + unat (byte c1 - 48) * 100
      + unat (byte c2 - 48) * 10 + unat (byte c3 - 48)"
    and c: "byte c0 - 48 < 10" "byte c1 - 48 < 10" "byte c2 - 48 < 10" "byte c3 - 48 < 10"
    using assms by (auto simp: parseFourASCIIDigits_def Let_def word_less_nat_alt split: if_splits)
  then show i: "idx < 10000" by simp
  have "idx div 1000 = unat (byte c0 - 48)" "idx div 100 mod 10 = unat (byte c1 - 48)"
    "idx div 10 mod 10 = unat (byte c2 - 48)" "idx mod 10 = unat (byte c3 - 48)"
    unfolding idx using decimal_digits [OF d(2-4)] by simp_all
  with c show "substr fourDigitsAll (idx * 4) (idx * 4 + 4) = [c0, c1, c2, c3]"
    unfolding substr_def fourDigitsAll_def
    by (simp add: concat_chunk [OF _ i, of _ 4] digit_char_byte)
qed


lemma list_of_length:
  "length s = 1 \<Longrightarrow> s = [s ! 0]"
  "length s = 2 \<Longrightarrow> s = [s ! 0, s ! 1]"
  "length s = 3 \<Longrightarrow> s = [s ! 0, s ! 1, s ! 2]"
  "length s = 4 \<Longrightarrow> s = [s ! 0, s ! 1, s ! 2, s ! 3]"
  by (auto simp: numeral_eq_Suc length_Suc_conv)

text \<open>
  The string helpers are exact: \<open>clonePrefix\<close> copies its argument and \<open>concatPrefix\<close> appends,
  whichever of the preallocated tables they take the result from.
\<close>

lemma clonePrefix_id: "clonePrefix s = s"
proof -
  have multi: "cloneMultiBytePrefix s = s"
    using parseTwo_table [of "s ! 0" "s ! 1"] parseThree_table [of "s ! 0" "s ! 1" "s ! 2"]
      parseFour_table [of "s ! 0" "s ! 1" "s ! 2" "s ! 3"] list_of_length [of s]
    by (auto simp: cloneMultiBytePrefix_def split: option.splits)
  have "byteStrings ! unat (byte c) = [c]" for c
    by (simp add: byteStrings_def unat_byte nat_of_char_less_256)
  then have "length s = 1 \<Longrightarrow> byteStrings ! unat (byte (s ! 0)) = s"
    by (auto simp: length_Suc_conv)
  with multi show ?thesis by (simp add: clonePrefix_def)
qed

lemma concatFour_append:
  assumes "concatFourDigitPrefix a b = Some s" "length a + length b = 4" "a \<noteq> []" "b \<noteq> []"
  shows "s = a @ b"
proof -
  have sub: "t = [c0, c1, c2, c3]"
    if "(case parseFourASCIIDigits c0 c1 c2 c3 of
      Some idx \<Rightarrow> Some (substr fourDigitsAll (idx * 4) (idx * 4 + 4)) | None \<Rightarrow> None) = Some t"
    for c0 c1 c2 c3 t
    using that parseFour_table(2) [of c0 c1 c2 c3] by (auto split: option.splits)
  from assms(2-4) consider "length a = 1" "length b = 3" | "length a = 2" "length b = 2"
    | "length a = 3" "length b = 1"
    unfolding length_greater_0_conv [symmetric] by linarith
  then show ?thesis
  proof cases
    case 1
    then have "a = [a ! 0]" "b = [b ! 0, b ! 1, b ! 2]" using list_of_length by blast+
    then have "a @ b = [a ! 0, b ! 0, b ! 1, b ! 2]" by simp
    with assms(1) 1 show ?thesis by (auto simp: concatFourDigitPrefix_def dest!: sub)
  next
    case 2
    then have "a = [a ! 0, a ! 1]" "b = [b ! 0, b ! 1]" using list_of_length by blast+
    then have "a @ b = [a ! 0, a ! 1, b ! 0, b ! 1]" by simp
    with assms(1) 2 show ?thesis by (auto simp: concatFourDigitPrefix_def dest!: sub)
  next
    case 3
    then have "a = [a ! 0, a ! 1, a ! 2]" "b = [b ! 0]" using list_of_length by blast+
    then have "a @ b = [a ! 0, a ! 1, a ! 2, b ! 0]" by simp
    with assms(1) 3 show ?thesis by (auto simp: concatFourDigitPrefix_def dest!: sub)
  qed
qed

lemma concatPrefix_append: "concatPrefix a b = a @ b"
proof (cases "length a + length b = 3 \<and> 0 < length a \<and> 0 < length b")
  case True
  then consider "length a = 1" "length b = 2" | "length a = 2" "length b = 1" by linarith
  then show ?thesis
  proof cases
    case 1
    then have "a = [a ! 0]" "b = [b ! 0, b ! 1]" using list_of_length by blast+
    then have "a @ b = [a ! 0, b ! 0, b ! 1]" by simp
    with 1 show ?thesis
      by (auto simp: concatPrefix_def Let_def dest: parseThree_table(2) split: option.splits)
  next
    case 2
    then have "a = [a ! 0, a ! 1]" "b = [b ! 0]" using list_of_length by blast+
    then have "a @ b = [a ! 0, a ! 1, b ! 0]" by simp
    with 2 show ?thesis
      by (auto simp: concatPrefix_def Let_def dest: parseThree_table(2) split: option.splits)
  qed
next
  case not3: False
  show ?thesis
  proof (cases "length a + length b = 2 \<and> length a = 1")
    case True
    then show ?thesis
      by (auto simp: concatPrefix_def Let_def length_Suc_conv parseTwo_table(2) split: option.splits)
  next
    case False
    with not3 show ?thesis
      by (auto simp: concatPrefix_def Let_def dest: concatFour_append split: option.splits)
  qed
qed


subsection \<open>The longest common prefix\<close>

fun common_prefix_length :: "string \<Rightarrow> string \<Rightarrow> nat" where
  \<comment> \<open>the reference: compare byte by byte\<close>
  "common_prefix_length (x # xs) (y # ys) = (if x = y then Suc (common_prefix_length xs ys) else 0)"
| "common_prefix_length _ _ = 0"

lemma bit_le_bytes:
  "bit (le_bytes cs) n \<longleftrightarrow> n < 64 \<and> n div 8 < length cs \<and> bit (byte (cs ! (n div 8))) (n mod 8)"
proof (induction cs arbitrary: n)
  case (Cons c cs)
  show ?case
  proof (cases "n < 8")
    case True
    then show ?thesis by (simp add: bit_simps)
  next
    case False
    then have "bit (ucast (byte c) :: u64) n = False"
      by (auto simp: bit_simps dest: bit_imp_le_length)
    moreover have "n div 8 = Suc ((n - 8) div 8)" "n mod 8 = (n - 8) mod 8"
      using False by (simp_all add: le_div_geq le_mod_geq)
    ultimately show ?thesis using False by (auto simp: bit_simps Cons.IH)
  qed
qed simp

lemma le_bytes_eq_iff:
  assumes "length xs = 8" "length ys = 8" "i < 8"
  shows "xs ! i = ys ! i \<longleftrightarrow> (\<forall>n. n div 8 = i \<longrightarrow> bit (le_bytes xs) n = bit (le_bytes ys) n)"
proof
  assume *: "\<forall>n. n div 8 = i \<longrightarrow> bit (le_bytes xs) n = bit (le_bytes ys) n"
  have "bit (byte (xs ! i)) m = bit (byte (ys ! i)) m" if "m < 8" for m
    using * [rule_format, of "8 * i + m"] that assms by (simp add: bit_le_bytes)
  then have "byte (xs ! i) = byte (ys ! i)"
    by (intro bit_eqI) (use bit_imp_le_length in fastforce)
  then show "xs ! i = ys ! i" by (metis char_of_char unat_byte)
qed (use assms in \<open>auto simp: bit_le_bytes\<close>)

lemma TrailingZeros64_least:
  assumes "w \<noteq> 0"
  shows "TrailingZeros64 w < 64" "bit w (TrailingZeros64 w)" "\<And>n. n < TrailingZeros64 w \<Longrightarrow> \<not> bit w n"
proof -
  obtain m where m: "bit w m" "m < 64"
    using assms bit_word_eqI [of w 0] by auto
  show 1: "TrailingZeros64 w < 64"
  proof (rule ccontr)
    assume "\<not> TrailingZeros64 w < 64"
    then have "length (takeWhile (\<lambda>n. \<not> bit w n) [0..<64]) = length [0..<64]"
      using length_takeWhile_le [of "\<lambda>n. \<not> bit w n" "[0..<64]"] by (simp add: TrailingZeros64_def)
    then have "takeWhile (\<lambda>n. \<not> bit w n) [0..<64] = [0..<64]"
      by (metis takeWhile_eq_take take_all order_refl)
    then have "\<forall>n\<in>set [0..<64]. \<not> bit w n" unfolding takeWhile_eq_all_conv .
    with m show False by simp
  qed
  show "bit w (TrailingZeros64 w)"
    using nth_length_takeWhile [of "\<lambda>n. \<not> bit w n" "[0..<64]"] 1 by (simp add: TrailingZeros64_def)
  show "\<not> bit w n" if "n < TrailingZeros64 w" for n
    using that 1 takeWhile_nth [of n "\<lambda>n. \<not> bit w n" "[0..<64]"]
      set_takeWhileD [of n "\<lambda>n. \<not> bit w n" "[0..<64]"]
    by (metis TrailingZeros64_def add_0 less_trans nth_mem nth_upt)
qed


lemma common_prefix_length_eqI:
  assumes "r \<le> length a" "r \<le> length b" "\<And>j. j < r \<Longrightarrow> a ! j = b ! j"
    "r < length a \<Longrightarrow> r < length b \<Longrightarrow> a ! r \<noteq> b ! r"
  shows "common_prefix_length a b = r"
  using assms
proof (induction a b arbitrary: r rule: common_prefix_length.induct)
  case (1 x xs y ys)
  show ?case
  proof (cases r)
    case 0
    with "1.prems"(4) show ?thesis by auto
  next
    case (Suc r')
    then have "x = y" using "1.prems"(3) [of 0] by simp
    moreover have "common_prefix_length xs ys = r'"
    proof (rule "1.IH" [OF \<open>x = y\<close>])
      show "xs ! j = ys ! j" if "j < r'" for j using "1.prems"(3) [of "Suc j"] that Suc by simp
    qed (use "1.prems" Suc in auto)
    ultimately show ?thesis using Suc by simp
  qed
qed auto

lemma first_word_mismatch:
  assumes xy: "length xs = 8" "length ys = 8" and d: "le_bytes xs XOR le_bytes ys \<noteq> 0"
  defines "r \<equiv> TrailingZeros64 (le_bytes xs XOR le_bytes ys) div 8"
  shows "r < 8" "xs ! r \<noteq> ys ! r" "\<And>j. j < r \<Longrightarrow> xs ! j = ys ! j"
proof -
  let ?t = "TrailingZeros64 (le_bytes xs XOR le_bytes ys)"
  note t = TrailingZeros64_least [OF d]
  show r: "r < 8" using t(1) by (simp add: r_def)
  show "xs ! r \<noteq> ys ! r"
    using le_bytes_eq_iff [OF xy r] t(2) by (auto simp: r_def bit_xor_iff)
  show "xs ! j = ys ! j" if "j < r" for j
  proof (subst le_bytes_eq_iff [OF xy])
    show "j < 8" using that r by simp
    have "n < ?t" if "n div 8 = j" for n
      using that \<open>j < r\<close> unfolding r_def by (metis div_le_mono linorder_not_less)
    then show "\<forall>n. n div 8 = j \<longrightarrow> bit (le_bytes xs) n = bit (le_bytes ys) n"
      using t(3) by (auto simp: bit_xor_iff)
  qed
qed

lemma le_bytes_xor_zero:
  assumes "length xs = 8" "length ys = 8" "le_bytes xs XOR le_bytes ys = 0" "i < 8"
  shows "xs ! i = ys ! i"
proof -
  have "bit (le_bytes xs XOR le_bytes ys) n = False" for n using assms(3) by simp
  then have "le_bytes xs = le_bytes ys" by (intro bit_word_eqI) (simp add: bit_xor_iff)
  then show ?thesis using le_bytes_eq_iff [OF assms(1,2,4)] by simp
qed

lemma nth_take_drop: "j < k \<Longrightarrow> i + k \<le> length xs \<Longrightarrow> take k (drop i xs) ! j = xs ! (i + j)"
  by simp

lemma lcp_words_spec:
  assumes "length a = n" "length b = n" "\<And>j. j < i \<Longrightarrow> a ! j = b ! j" "i \<le> n"
  shows "case lcp_words a b n i of
      Inr r \<Rightarrow> r < n \<and> (\<forall>j<r. a ! j = b ! j) \<and> a ! r \<noteq> b ! r
    | Inl k \<Rightarrow> k \<le> n \<and> (\<forall>j<k. a ! j = b ! j)"
  using assms
proof (induction a b n i rule: lcp_words.induct)
  case (1 a b n i)
  let ?x = "take 8 (drop i a)" and ?y = "take 8 (drop i b)"
  note len_a = "1.prems"(1) and len_b = "1.prems"(2) and eq_below = "1.prems"(3) and i_n = "1.prems"(4)
  show ?case
  proof (cases "i + 8 \<le> n")
    case False
    then have "lcp_words a b n i = Inl i" by (subst lcp_words.simps) simp
    with eq_below i_n show ?thesis by simp
  next
    case True
    then have len: "length ?x = 8" "length ?y = 8" using len_a len_b by auto
    have nth: "?x ! (j - i) = a ! j" "?y ! (j - i) = b ! j" if "i \<le> j" "j < i + 8" for j
      using that True len_a len_b by simp_all
    show ?thesis
    proof (cases "le_bytes ?x XOR le_bytes ?y = 0")
      case eq: True
      have below: "a ! j = b ! j" if "j < i + 8" for j
      proof (cases "j < i")
        case True
        then show ?thesis by (rule eq_below)
      next
        case False
        then have "?x ! (j - i) = ?y ! (j - i)"
          using that by (intro le_bytes_xor_zero [OF len eq]) simp
        with nth [of j] that False show ?thesis by simp
      qed
      have "lcp_words a b n i = lcp_words a b n (i + 8)"
        using True eq by (subst lcp_words.simps) (simp add: LittleEndian_Uint64_def)
      moreover have "\<not> LittleEndian_Uint64 (drop i a) XOR LittleEndian_Uint64 (drop i b) \<noteq> 0"
        using eq by (simp add: LittleEndian_Uint64_def)
      note "1.IH" [OF True refl this len_a len_b below True]
      ultimately show ?thesis by simp
    next
      case ne: False
      define r where "r = TrailingZeros64 (le_bytes ?x XOR le_bytes ?y) div 8"
      note m = first_word_mismatch [OF len ne, folded r_def]
      have below: "a ! j = b ! j" if "j < i + r" for j
      proof (cases "j < i")
        case True
        then show ?thesis by (rule eq_below)
      next
        case False
        then have "?x ! (j - i) = ?y ! (j - i)" using that by (intro m(3)) simp
        with nth [of j] that False m(1) show ?thesis by simp
      qed
      have "a ! (i + r) \<noteq> b ! (i + r)" using m(1,2) nth [of "i + r"] by simp
      moreover have "lcp_words a b n i = Inr (i + r)"
        using True ne by (subst lcp_words.simps) (simp add: LittleEndian_Uint64_def Let_def r_def)
      ultimately show ?thesis using True m(1) below by simp
    qed
  qed
qed

lemma lcp_bytes_spec:
  assumes "n = min (length a) (length b)" "\<And>j. j < i \<Longrightarrow> a ! j = b ! j" "i \<le> n"
  shows "lcp_bytes a b n i = common_prefix_length a b"
  using assms
proof (induction a b n i rule: lcp_bytes.induct)
  case (1 a b n i)
  show ?case
  proof (cases "i < n \<and> a ! i = b ! i")
    case True
    have "a ! j = b ! j" if "j < i + 1" for j
      using that "1.prems"(2) [of j] True by (cases "j = i") auto
    with "1.IH" True "1.prems" have "lcp_bytes a b n (i + 1) = common_prefix_length a b" by simp
    with True show ?thesis by (subst lcp_bytes.simps) simp
  next
    case False
    have "common_prefix_length a b = i"
      using "1.prems" False by (intro common_prefix_length_eqI) auto
    moreover have "lcp_bytes a b n i = i" using False "1.prems"(3) by (subst lcp_bytes.simps) auto
    ultimately show ?thesis by simp
  qed
qed

lemma longestCommonPrefix_reference: "longestCommonPrefix a b = common_prefix_length a b"
proof -
  define n where "n = min (length a) (length b)"
  have 0: "lcp_bytes a b n 0 = common_prefix_length a b"
    by (rule lcp_bytes_spec) (auto simp: n_def)
  have spec: "case lcp_words (take n a) (take n b) n 0 of
      Inr r \<Rightarrow> r < n \<and> (\<forall>j<r. take n a ! j = take n b ! j) \<and> take n a ! r \<noteq> take n b ! r
    | Inl k \<Rightarrow> k \<le> n \<and> (\<forall>j<k. take n a ! j = take n b ! j)"
    by (rule lcp_words_spec) (auto simp: n_def)
  show ?thesis
  proof (cases "lcp_words (take n a) (take n b) n 0")
    case (Inl k)
    with spec have "lcp_bytes a b n k = common_prefix_length a b"
      by (intro lcp_bytes_spec) (auto simp: n_def)
    with Inl 0 show ?thesis by (simp add: longestCommonPrefix_def n_def [symmetric])
  next
    case (Inr r)
    with spec have "common_prefix_length a b = r"
      by (intro common_prefix_length_eqI) (auto simp: n_def)
    with Inr 0 show ?thesis by (simp add: longestCommonPrefix_def n_def [symmetric])
  qed
qed

end
