(* ===== verification/GoFloat.thy ===== *)
theory GoFloat
  imports Prelude
begin

text \<open>
  Go's \<open>float64\<close>: NaN, the two infinities and the finite values, as exact rationals, with
  IEEE-754 binary64 round-to-nearest-even (\<open>round64\<close>) after each arithmetic operation and
  conversion. The sign of zero is not kept: the code only compares zeros, and \<open>-0 = 0\<close>.
  The facts the caches rely on are that rounding is monotone and leaves a rounded value
  alone.
\<close>

datatype float64 = NaN | PInf | NInf | Fin rat

fun flt :: "float64 \<Rightarrow> float64 \<Rightarrow> bool" where
  "flt NaN _ = False"
| "flt _ NaN = False"
| "flt PInf _ = False"
| "flt _ NInf = False"
| "flt NInf _ = True"
| "flt _ PInf = True"
| "flt (Fin a) (Fin b) = (a < b)"

fun feq :: "float64 \<Rightarrow> float64 \<Rightarrow> bool" where
  "feq NaN _ = False"
| "feq _ NaN = False"
| "feq a b = (a = b)"

definition fle :: "float64 \<Rightarrow> float64 \<Rightarrow> bool" where
  "fle a b = (flt a b \<or> feq a b)"

definition fge :: "float64 \<Rightarrow> float64 \<Rightarrow> bool" where
  "fge a b = fle b a"

subsection \<open>Rounding to binary64\<close>

fun nlog2 :: "nat \<Rightarrow> nat" where
  "nlog2 n = (if n \<le> 1 then 0 else Suc (nlog2 (n div 2)))"

declare nlog2.simps [simp del]

definition rexp :: "rat \<Rightarrow> int" where
  \<comment> \<open>the binary exponent of a positive rational: \<open>2 ^ rexp x \<le> x < 2 ^ (rexp x + 1)\<close>\<close>
  "rexp x = (if 1 \<le> x then int (nlog2 (nat \<lfloor>x\<rfloor>))
             else let m = nat \<lceil>1 / x\<rceil> in - int (nlog2 (m - 1)) - 1)"

definition rne :: "rat \<Rightarrow> int" where
  \<comment> \<open>round half to even\<close>
  "rne x = (let f = \<lfloor>x\<rfloor>; r = x - of_int f in
     if r < 1 / 2 then f else if 1 / 2 < r then f + 1 else if even f then f else f + 1)"

definition ulp_exp :: "rat \<Rightarrow> int" where
  "ulp_exp x = max (rexp x - 52) (- 1074)"

definition round_pos :: "rat \<Rightarrow> rat" where
  "round_pos x = (if x \<le> 0 then 0 else of_int (rne (x / 2 powi ulp_exp x)) * 2 powi ulp_exp x)"

definition max_float64 :: rat where
  "max_float64 = (2 ^ 53 - 1) * 2 ^ 971"

definition smallest_float64 :: rat where
  "smallest_float64 = 1 / 2 ^ 1074"

definition round64 :: "rat \<Rightarrow> float64" where
  "round64 x = (if 0 \<le> x
     then (let y = round_pos x in if max_float64 < y then PInf else Fin y)
     else (let y = round_pos (- x) in if max_float64 < y then NInf else Fin (- y)))"

fun fmul :: "float64 \<Rightarrow> float64 \<Rightarrow> float64" where
  "fmul (Fin a) (Fin b) = round64 (a * b)"
| "fmul NaN _ = NaN"
| "fmul _ NaN = NaN"
| "fmul PInf (Fin b) = (if b = 0 then NaN else if 0 < b then PInf else NInf)"
| "fmul NInf (Fin b) = (if b = 0 then NaN else if 0 < b then NInf else PInf)"
| "fmul (Fin a) PInf = (if a = 0 then NaN else if 0 < a then PInf else NInf)"
| "fmul (Fin a) NInf = (if a = 0 then NaN else if 0 < a then NInf else PInf)"
| "fmul PInf PInf = PInf"
| "fmul NInf NInf = PInf"
| "fmul _ _ = NInf"

fun fadd :: "float64 \<Rightarrow> float64 \<Rightarrow> float64" where
  "fadd (Fin a) (Fin b) = round64 (a + b)"
| "fadd NaN _ = NaN"
| "fadd _ NaN = NaN"
| "fadd PInf NInf = NaN"
| "fadd NInf PInf = NaN"
| "fadd PInf _ = PInf"
| "fadd _ PInf = PInf"
| "fadd NInf _ = NInf"
| "fadd _ NInf = NInf"

fun fdiv :: "float64 \<Rightarrow> float64 \<Rightarrow> float64" where
  "fdiv (Fin a) (Fin b) =
     (if b = 0 then (if a = 0 then NaN else if 0 < a then PInf else NInf) else round64 (a / b))"
| "fdiv NaN _ = NaN"
| "fdiv _ NaN = NaN"
| "fdiv (Fin a) _ = Fin 0"
| "fdiv PInf (Fin b) = (if b < 0 then NInf else PInf)"
| "fdiv NInf (Fin b) = (if b < 0 then PInf else NInf)"
| "fdiv _ _ = NaN"

definition is_f64 :: "float64 \<Rightarrow> bool" where
  \<comment> \<open>the finite values a \<open>float64\<close> can hold are those rounding leaves alone\<close>
  "is_f64 x = (case x of Fin a \<Rightarrow> round64 a = Fin a | _ \<Rightarrow> True)"

definition float_of_u64 :: "u64 \<Rightarrow> float64" where
  "float_of_u64 w = round64 (of_nat (unat w))"

definition float_of_int :: "int \<Rightarrow> float64" where
  "float_of_int n = round64 (of_int n)"

fun float_trunc :: "float64 \<Rightarrow> int" where
  \<comment> \<open>conversion of a finite in-range value to an integer type; the code converts no other value\<close>
  "float_trunc (Fin a) = (if 0 \<le> a then \<lfloor>a\<rfloor> else \<lceil>a\<rceil>)"
| "float_trunc _ = 0"

definition next_up :: "rat \<Rightarrow> rat" where
  \<comment> \<open>\<open>math.Nextafter(x, y)\<close> for a positive finite \<open>x < y\<close>\<close>
  "next_up x = x + 2 powi ulp_exp x"

definition next_down :: "rat \<Rightarrow> rat" where
  \<comment> \<open>\<open>math.Nextafter(x, 0)\<close> for a positive finite \<open>x\<close>: half a step below a power of two\<close>
  "next_down x = (if x = 2 powi rexp x \<and> - 1022 < rexp x
     then x - 2 powi (ulp_exp x - 1) else x - 2 powi ulp_exp x)"

subsection \<open>Order\<close>

lemma flt_irrefl [simp]: "\<not> flt a a"
  by (cases a) auto

lemma flt_not_fge: "flt a b \<Longrightarrow> \<not> fge a b"
  by (cases a; cases b) (auto simp: fge_def fle_def)

lemma fge_iff_not_flt: "a \<noteq> NaN \<Longrightarrow> b \<noteq> NaN \<Longrightarrow> fge a b \<longleftrightarrow> \<not> flt a b"
  by (cases a; cases b) (auto simp: fge_def fle_def)

lemma fge_Fin [simp]: "fge (Fin a) (Fin b) \<longleftrightarrow> b \<le> a"
  by (auto simp: fge_def fle_def)

lemma fle_Fin [simp]: "fle (Fin a) (Fin b) \<longleftrightarrow> a \<le> b"
  by (auto simp: fle_def)

subsection \<open>Exponents\<close>

lemma nlog2_bounds: "0 < n \<Longrightarrow> 2 ^ nlog2 n \<le> n \<and> n < 2 ^ Suc (nlog2 n)"
proof (induction n rule: nlog2.induct)
  case (1 n)
  show ?case
  proof (cases "n \<le> 1")
    case True
    with "1.prems" show ?thesis by (simp add: nlog2.simps [of n])
  next
    case False
    with "1.IH" have "2 ^ nlog2 (n div 2) \<le> n div 2" "n div 2 < 2 ^ Suc (nlog2 (n div 2))"
      by auto
    with False show ?thesis by (auto simp: nlog2.simps [of n])
  qed
qed


lemma rexp_bounds:
  assumes "0 < x"
  shows "2 powi rexp x \<le> x" and "x < 2 powi (rexp x + 1)"
proof -
  have "2 powi rexp x \<le> x \<and> x < 2 powi (rexp x + 1)"
  proof (cases "1 \<le> x")
    case True
    define n where "n = nat \<lfloor>x\<rfloor>"
    from True have n: "0 < n" and fl: "of_nat n \<le> x" "x < of_nat (Suc n)"
      by (auto simp: n_def of_nat_nat) linarith
    from nlog2_bounds [OF n] have "2 ^ nlog2 n \<le> n" "Suc n \<le> 2 ^ Suc (nlog2 n)" by auto
    then have "(2::rat) ^ nlog2 n \<le> of_nat n" "of_nat (Suc n) \<le> (2::rat) ^ Suc (nlog2 n)"
      by (metis of_nat_le_iff of_nat_numeral of_nat_power)+
    with fl have "(2::rat) ^ nlog2 n \<le> x" "x < (2::rat) ^ Suc (nlog2 n)" by linarith+
    moreover have "rexp x = int (nlog2 n)" using True by (simp add: rexp_def n_def)
    ultimately show ?thesis by (simp add: power_int_add_1)
  next
    case False
    define m where "m = nat \<lceil>1 / x\<rceil>"
    have y: "1 < 1 / x" using False assms by (simp add: field_simps)
    then have c: "1 < \<lceil>1 / x\<rceil>" by (metis less_ceiling_iff of_int_1)
    then have m: "2 \<le> m" and hi: "1 / x \<le> of_nat m" and lo: "of_nat (m - 1) < 1 / x"
      by (auto simp: m_def of_nat_diff of_nat_nat) linarith+
    define j where "j = nlog2 (m - 1)"
    from nlog2_bounds [of "m - 1"] m have "2 ^ j \<le> m - 1" "m \<le> 2 ^ Suc j"
      by (auto simp: j_def)
    then have "(2::rat) ^ j \<le> of_nat (m - 1)" "of_nat m \<le> (2::rat) ^ Suc j"
      by (metis of_nat_le_iff of_nat_numeral of_nat_power)+
    with hi lo have 1: "(2::rat) ^ j < 1 / x" "1 / x \<le> (2::rat) ^ Suc j" by linarith+
    then have 2: "x < 1 / 2 ^ j" "1 / 2 ^ Suc j \<le> x"
      using assms by (auto simp: field_simps)
    have "rexp x = - int (Suc j)" using False
      by (simp add: rexp_def m_def [symmetric] j_def)
    moreover have "(2::rat) powi (- int (Suc j)) = 1 / 2 ^ Suc j"
      by (simp only: power_int_minus power_int_of_nat inverse_eq_divide)
    moreover have "(2::rat) powi (- int (Suc j) + 1) = 1 / 2 ^ j"
    proof -
      have "- int (Suc j) + 1 = - int j" by simp
      then show ?thesis by (simp only: power_int_minus power_int_of_nat inverse_eq_divide)
    qed
    ultimately show ?thesis using 2 by simp
  qed
  then show "2 powi rexp x \<le> x" and "x < 2 powi (rexp x + 1)" by auto
qed

lemma powi_less_imp: "(2::rat) powi a < 2 powi b \<Longrightarrow> a < b"
  by (metis linorder_not_less one_le_numeral power_int_increasing)

lemma powi_mono: "a \<le> b \<Longrightarrow> (2::rat) powi a \<le> 2 powi b"
  by (simp add: power_int_increasing)

lemma powi_pos [simp]: "(0::rat) < 2 powi a"
  by simp

lemma powi_int_multiple:
  assumes "b \<le> a"
  shows "(2::rat) powi a / 2 powi b = of_int (2 ^ nat (a - b))"
proof -
  have "(2::rat) powi a / 2 powi b = 2 powi (a - b)" by (simp add: power_int_diff)
  with assms show ?thesis by (simp add: power_int_def)
qed

lemma rexp_mono: "0 < x \<Longrightarrow> x \<le> y \<Longrightarrow> rexp x \<le> rexp y"
  using rexp_bounds [of x] rexp_bounds [of y] powi_less_imp [of "rexp x" "rexp y + 1"] by linarith

lemma ulp_exp_mono: "0 < x \<Longrightarrow> x \<le> y \<Longrightarrow> ulp_exp x \<le> ulp_exp y"
  using rexp_mono by (fastforce simp: ulp_exp_def)

subsection \<open>Rounding is monotone and idempotent\<close>

lemma rne_of_int [simp]: "rne (of_int n) = n"
  by (simp add: rne_def)

lemma rne_mono: "x \<le> y \<Longrightarrow> rne x \<le> rne y"
proof -
  assume "x \<le> y"
  then have "\<lfloor>x\<rfloor> \<le> \<lfloor>y\<rfloor>" by (rule floor_mono)
  then consider "\<lfloor>x\<rfloor> = \<lfloor>y\<rfloor>" | "\<lfloor>x\<rfloor> + 1 \<le> \<lfloor>y\<rfloor>" by linarith
  then show ?thesis
    using \<open>x \<le> y\<close> by cases (auto simp: rne_def Let_def)
qed

lemma rne_small: "0 \<le> z \<Longrightarrow> z < 1 / 2 \<Longrightarrow> rne z = 0"
proof -
  assume z: "0 \<le> z" "z < 1 / 2"
  then have "\<lfloor>z\<rfloor> = 0" by (simp add: floor_eq_iff)
  with z show ?thesis by (simp add: rne_def)
qed

lemma rne_le_int: "x \<le> of_int n \<Longrightarrow> rne x \<le> n"
  using rne_mono [of x "of_int n"] by simp

lemma rne_ge_int: "of_int n \<le> x \<Longrightarrow> n \<le> rne x"
  using rne_mono [of "of_int n" x] by simp

lemma round_pos_le_power:
  assumes "0 < x" "x \<le> 2 powi e" "ulp_exp x \<le> e"
  shows "round_pos x \<le> 2 powi e"
proof -
  have "x / 2 powi ulp_exp x \<le> of_int (2 ^ nat (e - ulp_exp x))"
    unfolding powi_int_multiple [OF assms(3), symmetric] using assms(2) by (simp add: divide_right_mono)
  then have "of_int (rne (x / 2 powi ulp_exp x)) \<le> (of_int (2 ^ nat (e - ulp_exp x)) :: rat)"
    by (metis rne_le_int of_int_le_iff)
  then show ?thesis
    unfolding powi_int_multiple [OF assms(3), symmetric]
    using assms by (simp add: round_pos_def pos_le_divide_eq)
qed

lemma round_pos_ge_power:
  assumes "2 powi e \<le> x" "ulp_exp x \<le> e"
  shows "2 powi e \<le> round_pos x"
proof -
  have pos: "0 < x" using assms(1) by (rule less_le_trans [OF powi_pos])
  have "of_int (2 ^ nat (e - ulp_exp x)) \<le> x / 2 powi ulp_exp x"
    unfolding powi_int_multiple [OF assms(2), symmetric] using assms(1) by (simp add: divide_right_mono)
  then have "(of_int (2 ^ nat (e - ulp_exp x)) :: rat) \<le> of_int (rne (x / 2 powi ulp_exp x))"
    by (metis rne_ge_int of_int_le_iff)
  then show ?thesis
    unfolding powi_int_multiple [OF assms(2), symmetric]
    using pos assms by (simp add: round_pos_def pos_divide_le_eq)
qed

lemma round_pos_nonneg [simp]: "0 \<le> round_pos x"
  by (auto simp: round_pos_def intro!: mult_nonneg_nonneg rne_ge_int)

lemma round_pos_mono:
  assumes "x \<le> y"
  shows "round_pos x \<le> round_pos y"
proof (cases "x \<le> 0")
  case True
  then show ?thesis by (simp add: round_pos_def [of x])
next
  case False
  then have x: "0 < x" and y: "0 < y" using assms by auto
  from ulp_exp_mono [OF x assms] consider
    "ulp_exp x = ulp_exp y" | "ulp_exp x < ulp_exp y" by linarith
  then show ?thesis
  proof cases
    case 1
    then show ?thesis using x y assms
      by (simp add: round_pos_def mult_right_mono rne_mono divide_right_mono)
  next
    case 2
    then have r: "rexp x < rexp y" and q: "ulp_exp y \<le> rexp y" by (auto simp: ulp_exp_def)
    have "x \<le> 2 powi rexp y"
      using rexp_bounds(2) [OF x] powi_mono [of "rexp x + 1" "rexp y"] r by linarith
    then have "round_pos x \<le> 2 powi rexp y"
      using 2 q x by (intro round_pos_le_power) auto
    also have "\<dots> \<le> round_pos y"
      using rexp_bounds(1) [OF y] q by (rule round_pos_ge_power)
    finally show ?thesis .
  qed
qed

lemma round_pos_int_multiple:
  assumes "0 < y" "y = of_int m * 2 powi ulp_exp y"
  shows "round_pos y = y"
proof -
  have "y / 2 powi ulp_exp y = of_int m" using assms(2) by (metis nonzero_mult_div_cancel_right powi_pos less_irrefl)
  then show ?thesis using assms by (simp add: round_pos_def)
qed

lemma round_pos_idem: "round_pos (round_pos x) = round_pos x"
proof (cases "0 < round_pos x")
  case False
  then have "round_pos x = 0" using round_pos_nonneg [of x] by linarith
  then show ?thesis by (simp add: round_pos_def [of 0])
next
  case pos: True
  define y where "y = round_pos x"
  define q where "q = ulp_exp x"
  have x: "0 < x" using pos by (auto simp: round_pos_def split: if_splits)
  define m where "m = rne (x / 2 powi q)"
  have y: "y = of_int m * 2 powi q" using x by (simp add: y_def round_pos_def q_def m_def)
  have m: "1 \<le> m" using pos y powi_pos [of q] by (auto simp: y_def [symmetric] zero_less_mult_iff)
  then have ylow: "2 powi q \<le> y" by (simp add: y)
  have q0: "q \<le> ulp_exp y \<or> ulp_exp y \<le> q" by auto
  show ?thesis
  proof (cases "ulp_exp y \<le> q")
    case True
    have "y = of_int (m * 2 ^ nat (q - ulp_exp y)) * 2 powi ulp_exp y"
      using powi_int_multiple [OF True] by (simp add: y field_simps)
    then show ?thesis using pos round_pos_int_multiple y_def by metis
  next
    case False
    then have r: "rexp x < rexp y" by (auto simp: ulp_exp_def q_def)
    have q': "q \<le> rexp x + 1"
    proof (rule ccontr)
      assume "\<not> q \<le> rexp x + 1"
      then have "x < 2 powi (q - 1)" and "q - 1 < q"
        using rexp_bounds(2) [OF x] powi_mono [of "rexp x + 1" "q - 1"] by linarith+
      then have "x / 2 powi q < 1 / 2" by (simp add: power_int_diff field_simps)
      moreover have "0 < x / 2 powi q" using x by simp
      ultimately have "m = 0" unfolding m_def by (intro rne_small) auto
      with m show False by simp
    qed
    have "y \<le> 2 powi (rexp x + 1)"
      unfolding y_def using x rexp_bounds(2) [OF x] q' by (intro round_pos_le_power) (auto simp: q_def)
    moreover have "2 powi (rexp x + 1) \<le> y"
      using rexp_bounds(1) [of y] pos powi_mono [of "rexp x + 1" "rexp y"] r by (simp add: y_def)
    ultimately have e: "y = 2 powi (rexp x + 1)" by simp
    then have "rexp y = rexp x + 1"
      using rexp_bounds(1) [of y] powi_less_imp r pos
      by (metis linorder_not_less one_less_numeral_iff power_int_strict_increasing semiring_norm(76) y_def
          antisym_conv zless_imp_add1_zle)
    then have "ulp_exp y \<le> rexp x + 1" using q' by (auto simp: ulp_exp_def q_def)
    from powi_int_multiple [OF this] e
    have "y = of_int (2 ^ nat (rexp x + 1 - ulp_exp y)) * 2 powi ulp_exp y" by (simp add: field_simps)
    then show ?thesis using pos round_pos_int_multiple y_def by metis
  qed
qed


subsection \<open>Rounded values\<close>

lemma round64_nonneg: "0 \<le> x \<Longrightarrow> round64 x = (if max_float64 < round_pos x then PInf else Fin (round_pos x))"
  by (simp add: round64_def Let_def)

lemma round64_finite: "0 \<le> x \<Longrightarrow> round_pos x \<le> max_float64 \<Longrightarrow> round64 x = Fin (round_pos x)"
  by (simp add: round64_nonneg)

lemma round64_cases:
  assumes "0 \<le> x"
  obtains "round64 x = PInf" | "round64 x = Fin (round_pos x)"
  using round64_nonneg [OF assms] by (auto split: if_splits)

lemma is_f64_Fin_pos:
  "0 \<le> a \<Longrightarrow> is_f64 (Fin a) \<longleftrightarrow> round_pos a = a \<and> a \<le> max_float64"
  by (auto simp: is_f64_def round64_nonneg not_less)

lemma is_f64_round64: "0 \<le> x \<Longrightarrow> is_f64 (round64 x)"
  by (auto simp: round64_nonneg is_f64_def round_pos_idem)

lemma smallest_float64_powi: "smallest_float64 = 2 powi (- 1074)"
  by (simp add: smallest_float64_def power_int_def power_divide)

lemma smallest_float64_pos [simp]: "0 < smallest_float64"
  unfolding smallest_float64_powi by (rule powi_pos)

lemma smallest_le_f64:
  assumes "0 < a" "is_f64 (Fin a)"
  shows "smallest_float64 \<le> a"
proof -
  from assms have a: "a = of_int (rne (a / 2 powi ulp_exp a)) * 2 powi ulp_exp a"
    by (simp add: is_f64_Fin_pos round_pos_def split: if_splits)
  with assms(1) have "0 < of_int (rne (a / 2 powi ulp_exp a)) * (2::rat) powi ulp_exp a" by simp
  then have "1 \<le> rne (a / 2 powi ulp_exp a)"
    using powi_pos [of "ulp_exp a"] by (auto simp: zero_less_mult_iff)
  then have "2 powi ulp_exp a \<le> a"
    by (subst (2) a) (simp add: mult_left_mono)
  moreover have "smallest_float64 \<le> 2 powi ulp_exp a"
    unfolding smallest_float64_powi by (intro powi_mono) (simp add: ulp_exp_def)
  ultimately show ?thesis by linarith
qed

lemma next_up_greater: "x < next_up x"
  by (simp add: next_up_def)

lemma next_down_less: "next_down x < x"
  by (simp add: next_down_def)

lemma next_down_pos:
  assumes "smallest_float64 < x"
  shows "0 < next_down x"
proof -
  have x: "0 < x" using assms by (simp add: smallest_float64_powi less_trans [OF powi_pos])
  have "2 powi ulp_exp x < x \<or> (x = 2 powi rexp x \<and> - 1022 < rexp x)"
  proof (cases "rexp x - 52 \<le> - 1074")
    case True
    then have "ulp_exp x = - 1074" by (simp add: ulp_exp_def)
    then show ?thesis using assms by (simp add: smallest_float64_powi)
  next
    case False
    then have "2 powi ulp_exp x < (2::rat) powi rexp x"
      by (simp add: ulp_exp_def power_int_strict_increasing)
    then show ?thesis using rexp_bounds(1) [OF x] by linarith
  qed
  moreover have "x = 2 powi rexp x \<Longrightarrow> - 1022 < rexp x \<Longrightarrow> 2 powi (ulp_exp x - 1) < x"
  proof -
    assume "x = 2 powi rexp x" "- 1022 < rexp x"
    moreover from this(2) have "(2::rat) powi (ulp_exp x - 1) < 2 powi rexp x"
      by (intro power_int_strict_increasing) (auto simp: ulp_exp_def)
    ultimately show ?thesis by linarith
  qed
  ultimately show ?thesis by (auto simp: next_down_def)
qed

lemma round_pos_u64_le: "round_pos (of_nat (unat (w :: u64))) \<le> 2 ^ 64"
proof -
  have le: "(of_nat (unat w) :: rat) \<le> 2 ^ 64"
    using unat_lt_u64 [of w] by (metis less_imp_le of_nat_le_iff of_nat_numeral of_nat_power)
  show ?thesis
  proof (cases "w = 0")
    case True
    then show ?thesis by (simp add: round_pos_def)
  next
    case False
    then have pos: "(0 :: rat) < of_nat (unat w)" by (simp add: unat_gt_0 del: of_nat_unat)
    have "(2 :: rat) powi rexp (of_nat (unat w)) < 2 powi 65"
      using rexp_bounds(1) [OF pos] le by simp
    then have "rexp (of_nat (unat w)) < 65" by (rule powi_less_imp)
    then show ?thesis
      using round_pos_le_power [OF pos, of 64] le by (simp add: ulp_exp_def)
  qed
qed

lemma float_of_u64_Fin: "float_of_u64 w = Fin (round_pos (of_nat (unat w)))"
proof -
  have "(2 :: rat) ^ 64 \<le> max_float64" by (simp add: max_float64_def)
  with round_pos_u64_le [of w] show ?thesis
    unfolding float_of_u64_def by (intro round64_finite) (simp_all del: of_nat_unat)
qed


lemma rexp_le_zero: "0 < x \<Longrightarrow> x \<le> 1 \<Longrightarrow> rexp x \<le> 0"
  using rexp_bounds(1) [of x] powi_less_imp [of "rexp x" 1] by fastforce

lemma round64_unit:
  assumes "0 < x" "x \<le> 1"
  shows "round64 x = Fin (round_pos x)" and "round_pos x \<le> 1"
proof -
  show 1: "round_pos x \<le> 1"
    using round_pos_le_power [of x 0] assms rexp_le_zero [of x] by (simp add: ulp_exp_def)
  have "1 \<le> max_float64" by (simp add: max_float64_def)
  with 1 assms show "round64 x = Fin (round_pos x)" by (intro round64_finite) auto
qed

lemma round_pos_pos:
  assumes "1 / 2 \<le> x" "x \<le> 1"
  shows "1 / 2 \<le> round_pos x"
  using round_pos_ge_power [of "- 1" x] assms rexp_le_zero [of x] by (simp add: ulp_exp_def)

end
