(* ===== verification/Options.thy ===== *)
theory Options
  imports GoFloat
begin

text \<open>
  The configuration of a cache (\<^verbatim>\<open>options.go\<close>): eviction reasons and backends with their
  names, the \<open>Options\<close> struct, the functional options, and \<open>ApplyOptions\<close>, which folds them
  over the defaults and reconciles the result.

  An \<open>Option\<close> is any function on \<open>Options\<close> (a user can write one), \<open>None\<close> is a nil option.
  A field of Go type \<open>any\<close> that holds a callback is an \<open>anyFunc\<close>: which dynamic type the
  interface value has and whether the function inside is nil. Eviction callbacks are user code,
  so only their presence is kept (\<open>unit\<close>); what they are called with is in the theory of the
  callback queue. \<open>Float64bits\<close> of a threshold is the threshold itself.
\<close>

datatype EvictionReason =
  EvictionReasonCapacity | EvictionReasonPressure | EvictionReasonDeleted | EvictionReasonReplaced
| EvictionReasonOther "8 word"

fun EvictionReason_String :: "EvictionReason \<Rightarrow> string" where
  "EvictionReason_String EvictionReasonCapacity = ''Capacity''"
| "EvictionReason_String EvictionReasonPressure = ''Pressure''"
| "EvictionReason_String EvictionReasonDeleted = ''Deleted''"
| "EvictionReason_String EvictionReasonReplaced = ''Replaced''"
| "EvictionReason_String (EvictionReasonOther _) = ''UnknownEvictionReason''"

datatype Backend = BackendMap | BackendRadix | BackendArenaRadix | BackendOther "8 word"

fun Backend_String :: "Backend \<Rightarrow> string" where
  "Backend_String BackendMap = ''MapCache''"
| "Backend_String BackendRadix = ''RadixCache''"
| "Backend_String BackendArenaRadix = ''ArenaRadixCache''"
| "Backend_String (BackendOther _) = ''UnknownBackend''"

definition DefaultCompactionThreshold :: float64 where
  "DefaultCompactionThreshold = round64 (75 / 100)"

definition DefaultEvictionThreshold :: float64 where
  "DefaultEvictionThreshold = round64 (90 / 100)"

definition DefaultEvictionRetentionRatio :: float64 where
  "DefaultEvictionRetentionRatio = round64 (50 / 100)"

datatype 'f anyFunc =
  NilIface
| TypedFunc "'f option"      \<comment> \<open>\<open>func(..., V, ...)\<close>\<close>
| NamedFunc "'f option"      \<comment> \<open>the named type \<open>Weigher[V]\<close>, \<open>OnEvictValue[V]\<close>, \<open>OnEvictEntry[V]\<close>\<close>
| ErasedFunc "'f option"     \<comment> \<open>\<open>func(..., any, ...)\<close>, applied to a boxed value\<close>
| ErasedNamed "'f option"    \<comment> \<open>the named type at \<open>any\<close>\<close>
| OtherFunc bool             \<comment> \<open>any other dynamic type; whether it is a nil function\<close>

datatype pressureFunc = CustomProbe | RuntimeProbe u64

record 'v Options =
  oBackend :: Backend
  oWeigher :: "(string \<Rightarrow> 'v \<Rightarrow> u64) anyFunc"
  oOnEvictValue :: "unit anyFunc"
  oOnEvictEntry :: "unit anyFunc"
  EnableInvariantChecking :: bool
  PressureFunc :: "pressureFunc option"
  hasCustomPressureFunc :: bool
  MemoryBudget :: u64
  CompactionThreshold :: float64
  hasCustomCompactionThreshold :: bool
  customCompactionBits :: float64
  EvictionThreshold :: float64
  hasCustomEvictionThreshold :: bool
  customEvictionBits :: float64
  EvictionRetentionRatio :: float64
  Shards :: int
  hasCustomShards :: bool
  customShardsZero :: bool
  hasShardTier2Target :: bool
  oShardFunc :: "(string \<Rightarrow> int \<Rightarrow> int) option"
  sharedPressure :: bool   \<comment> \<open>whether the pointer to a shared coordinator is set\<close>
  shardTier2Target :: u64

type_synonym 'v goOption = "('v Options \<Rightarrow> 'v Options) option"

definition shouldShard :: "'v Options \<Rightarrow> bool" where
  "shouldShard o1 = (hasCustomShards o1 \<or> Shards o1 \<noteq> 0)"

definition WithBackend :: "Backend \<Rightarrow> 'v goOption" where
  "WithBackend b = Some (\<lambda>o1. o1\<lparr>oBackend := b\<rparr>)"

definition WithWeigher :: "(string \<Rightarrow> 'v \<Rightarrow> u64) option \<Rightarrow> 'v goOption" where
  "WithWeigher fn = Some (\<lambda>o1. case fn of None \<Rightarrow> o1\<lparr>oWeigher := NilIface\<rparr>
     | Some f \<Rightarrow> o1\<lparr>oWeigher := TypedFunc (Some f)\<rparr>)"

fun isNilFunc :: "'f anyFunc \<Rightarrow> bool" where
  "isNilFunc NilIface = True"
| "isNilFunc (TypedFunc f) = (f = None)"
| "isNilFunc (NamedFunc f) = (f = None)"
| "isNilFunc (ErasedFunc f) = (f = None)"
| "isNilFunc (ErasedNamed f) = (f = None)"
| "isNilFunc (OtherFunc nil) = nil"

fun resolveWeigher :: "(string \<Rightarrow> 'v \<Rightarrow> u64) anyFunc \<Rightarrow> (string \<Rightarrow> 'v \<Rightarrow> u64) option res" where
  "resolveWeigher NilIface = Inr None"
| "resolveWeigher (TypedFunc f) = Inr f"
| "resolveWeigher (NamedFunc f) = Inr f"
| "resolveWeigher (ErasedFunc f) = (case f of None \<Rightarrow> Inr None | Some g \<Rightarrow> Inr (Some (\<lambda>k v. g k v)))"
| "resolveWeigher (ErasedNamed f) = (case f of None \<Rightarrow> Inr None | Some g \<Rightarrow> Inr (Some (\<lambda>k v. g k v)))"
| "resolveWeigher (OtherFunc nil) =
     (if isNilFunc (OtherFunc nil :: (string \<Rightarrow> 'v \<Rightarrow> u64) anyFunc) then Inr None
      else Inl (Panic ''lru: WithWeigher function type does not match cache value type''))"

definition WithOnEvictValue :: "unit option \<Rightarrow> 'v goOption" where
  "WithOnEvictValue fn = Some (\<lambda>o1. case fn of None \<Rightarrow> o1\<lparr>oOnEvictValue := NilIface\<rparr>
     | Some f \<Rightarrow> o1\<lparr>oOnEvictValue := TypedFunc (Some f)\<rparr>)"

fun resolveOnEvictValue :: "unit anyFunc \<Rightarrow> unit option res" where
  "resolveOnEvictValue NilIface = Inr None"
| "resolveOnEvictValue (TypedFunc f) = Inr f"
| "resolveOnEvictValue (NamedFunc f) = Inr f"
| "resolveOnEvictValue (ErasedFunc f) = (case f of None \<Rightarrow> Inr None | Some g \<Rightarrow> Inr (Some g))"
| "resolveOnEvictValue (ErasedNamed f) = (case f of None \<Rightarrow> Inr None | Some g \<Rightarrow> Inr (Some g))"
| "resolveOnEvictValue (OtherFunc nil) =
     (if isNilFunc (OtherFunc nil :: unit anyFunc) then Inr None
      else Inl (Panic ''lru: WithOnEvictValue function type does not match cache value type''))"

definition WithOnEvictEntry :: "unit option \<Rightarrow> 'v goOption" where
  "WithOnEvictEntry fn = Some (\<lambda>o1. case fn of None \<Rightarrow> o1\<lparr>oOnEvictEntry := NilIface\<rparr>
     | Some f \<Rightarrow> o1\<lparr>oOnEvictEntry := TypedFunc (Some f)\<rparr>)"

fun resolveOnEvictEntry :: "unit anyFunc \<Rightarrow> unit option res" where
  "resolveOnEvictEntry NilIface = Inr None"
| "resolveOnEvictEntry (TypedFunc f) = Inr f"
| "resolveOnEvictEntry (NamedFunc f) = Inr f"
| "resolveOnEvictEntry (ErasedFunc f) = (case f of None \<Rightarrow> Inr None | Some g \<Rightarrow> Inr (Some g))"
| "resolveOnEvictEntry (ErasedNamed f) = (case f of None \<Rightarrow> Inr None | Some g \<Rightarrow> Inr (Some g))"
| "resolveOnEvictEntry (OtherFunc nil) =
     (if isNilFunc (OtherFunc nil :: unit anyFunc) then Inr None
      else Inl (Panic ''lru: WithOnEvictEntry function type does not match cache value type''))"

definition WithInvariantChecking :: "bool \<Rightarrow> 'v goOption" where
  "WithInvariantChecking enabled = Some (\<lambda>o1. o1\<lparr>EnableInvariantChecking := enabled\<rparr>)"

definition WithPressureFunc :: "pressureFunc option \<Rightarrow> 'v goOption" where
  "WithPressureFunc fn = Some (\<lambda>o1. o1\<lparr>PressureFunc := fn, hasCustomPressureFunc := (fn \<noteq> None)\<rparr>)"

definition WithMemoryBudget :: "u64 \<Rightarrow> 'v goOption" where
  "WithMemoryBudget n = Some (\<lambda>o1. o1\<lparr>MemoryBudget := n\<rparr>)"

definition isValidPositiveThreshold :: "float64 \<Rightarrow> bool" where
  "isValidPositiveThreshold v = (v \<noteq> NaN \<and> \<not> (v = PInf \<or> v = NInf) \<and> flt (Fin 0) v)"

definition WithCompactionThreshold :: "float64 \<Rightarrow> 'v goOption" where
  "WithCompactionThreshold t = Some (\<lambda>o1.
     if \<not> isValidPositiveThreshold t
     then o1\<lparr>CompactionThreshold := DefaultCompactionThreshold,
             hasCustomCompactionThreshold := False, customCompactionBits := Fin 0\<rparr>
     else o1\<lparr>CompactionThreshold := t,
             hasCustomCompactionThreshold := True, customCompactionBits := t\<rparr>)"

definition WithEvictionThreshold :: "float64 \<Rightarrow> 'v goOption" where
  "WithEvictionThreshold t = Some (\<lambda>o1.
     if \<not> isValidPositiveThreshold t
     then o1\<lparr>EvictionThreshold := DefaultEvictionThreshold,
             hasCustomEvictionThreshold := False, customEvictionBits := Fin 0\<rparr>
     else o1\<lparr>EvictionThreshold := t,
             hasCustomEvictionThreshold := True, customEvictionBits := t\<rparr>)"

definition WithEvictionRetentionRatio :: "float64 \<Rightarrow> 'v goOption" where
  "WithEvictionRetentionRatio r = Some (\<lambda>o1. o1\<lparr>EvictionRetentionRatio := r\<rparr>)"

definition WithShards :: "int \<Rightarrow> 'v goOption" where
  "WithShards n = Some (\<lambda>o1. o1\<lparr>Shards := n, hasCustomShards := True, customShardsZero := (n = 0)\<rparr>)"

definition WithShardFunc :: "(string \<Rightarrow> int \<Rightarrow> int) option \<Rightarrow> 'v goOption" where
  "WithShardFunc fn = Some (\<lambda>o1. o1\<lparr>oShardFunc := fn\<rparr>)"

record runtime_metrics =
  gomemlimit :: u64
  totalBytes :: u64
  releasedBytes :: u64
  heapFreeBytes :: u64
  heapObjectsBytes :: u64

definition DefaultRuntimePressureFunc :: "u64 \<Rightarrow> runtime_metrics \<Rightarrow> float64" where
  "DefaultRuntimePressureFunc memoryBudget m =
    (if memoryBudget = 0 \<and> (gomemlimit m = 0 \<or> 2 ^ 63 - 1 \<le> gomemlimit m) then Fin 0
     else
       let limitBytes = (if memoryBudget = 0 then gomemlimit m else memoryBudget);
           reclaimedOrFree = releasedBytes m + heapFreeBytes m;
           usedBytes = (if reclaimedOrFree < totalBytes m then totalBytes m - reclaimedOrFree
                        else heapObjectsBytes m)
       in fdiv (float_of_u64 usedBytes) (float_of_u64 limitBytes))"

definition sanitizeThresholds :: "'v Options \<Rightarrow> 'v Options" where
  "sanitizeThresholds o0 = (let
     o1 = (if hasCustomCompactionThreshold o0 \<and> CompactionThreshold o0 \<noteq> customCompactionBits o0
           then o0\<lparr>hasCustomCompactionThreshold := False\<rparr> else o0);
     o2 = (if hasCustomEvictionThreshold o1 \<and> EvictionThreshold o1 \<noteq> customEvictionBits o1
           then o1\<lparr>hasCustomEvictionThreshold := False\<rparr> else o1);
     o3 = (if \<not> isValidPositiveThreshold (CompactionThreshold o2)
           then o2\<lparr>CompactionThreshold := DefaultCompactionThreshold,
                   hasCustomCompactionThreshold := False\<rparr> else o2)
     in if \<not> isValidPositiveThreshold (EvictionThreshold o3)
        then o3\<lparr>EvictionThreshold := DefaultEvictionThreshold,
                hasCustomEvictionThreshold := False\<rparr> else o3)"

fun nextafter_up :: "float64 \<Rightarrow> float64" where
  "nextafter_up (Fin a) = Fin (next_up a)"
| "nextafter_up x = x"

fun nextafter_down :: "float64 \<Rightarrow> float64" where
  "nextafter_down (Fin a) = Fin (next_down a)"
| "nextafter_down x = x"

definition advanceEvictionThreshold :: "float64 \<Rightarrow> float64" where
  "advanceEvictionThreshold compaction = (let
     eviction0 = fadd compaction (round64 (90 / 100 - 75 / 100));
     eviction = (if eviction0 = PInf then Fin max_float64 else eviction0)
     in if fle compaction (Fin 1) \<and> flt (Fin 1) eviction then Fin 1
        else if fle eviction compaction
        then (if flt compaction (Fin max_float64) then nextafter_up compaction else compaction)
        else eviction)"

definition scaleCompactionThreshold :: "float64 \<Rightarrow> float64" where
  "scaleCompactionThreshold eviction = (let
     compaction0 = fmul eviction (round64 ((75 / 100) / (90 / 100)));
     compaction = (if feq compaction0 (Fin 0) then Fin smallest_float64 else compaction0)
     in if fge compaction eviction \<and> flt (Fin smallest_float64) eviction
        then nextafter_down eviction else compaction)"

definition reconcileThresholdWindow :: "'v Options \<Rightarrow> 'v Options" where
  "reconcileThresholdWindow o1 =
    (if flt (CompactionThreshold o1) (EvictionThreshold o1) then o1
     else if feq (CompactionThreshold o1) (EvictionThreshold o1)
          \<and> hasCustomCompactionThreshold o1 = hasCustomEvictionThreshold o1 then o1
     else if hasCustomCompactionThreshold o1 \<and> \<not> hasCustomEvictionThreshold o1
          \<and> feq (EvictionThreshold o1) DefaultEvictionThreshold
     then o1\<lparr>EvictionThreshold := advanceEvictionThreshold (CompactionThreshold o1)\<rparr>
     else o1\<lparr>CompactionThreshold := scaleCompactionThreshold (EvictionThreshold o1)\<rparr>)"

definition normalizeRetentionRatio :: "float64 \<Rightarrow> float64" where
  "normalizeRetentionRatio ratio =
    (if ratio = NaN \<or> ratio = NInf \<or> flt ratio (Fin 0) then DefaultEvictionRetentionRatio
     else if ratio = PInf \<or> flt (Fin 1) ratio then Fin 1
     else if feq ratio (Fin 0) then Fin 0
     else ratio)"

definition normalizeCallbacks :: "(string \<Rightarrow> int \<Rightarrow> int) \<Rightarrow> 'v Options \<Rightarrow> 'v Options" where
  \<comment> \<open>the first argument is \<open>DefaultShardFunc\<close>, whose hash seed is random per process\<close>
  "normalizeCallbacks dsf o0 = (let
     o1 = (if isNilFunc (oWeigher o0) then o0\<lparr>oWeigher := NilIface\<rparr> else o0);
     o2 = (if isNilFunc (oOnEvictValue o1) then o1\<lparr>oOnEvictValue := NilIface\<rparr> else o1);
     o3 = (if isNilFunc (oOnEvictEntry o2) then o2\<lparr>oOnEvictEntry := NilIface\<rparr> else o2);
     o4 = (if PressureFunc o3 = None
           then o3\<lparr>PressureFunc := Some (RuntimeProbe (MemoryBudget o3)), hasCustomPressureFunc := False\<rparr>
           else o3\<lparr>hasCustomPressureFunc := True\<rparr>)
     in if oShardFunc o4 = None then o4\<lparr>oShardFunc := Some dsf\<rparr> else o4)"

definition applySingleOption :: "'v Options \<Rightarrow> 'v goOption \<Rightarrow> 'v Options" where
  "applySingleOption o0 opt = (case opt of None \<Rightarrow> o0 | Some f \<Rightarrow>
     (let o1 = f o0 in
      if Shards o1 \<noteq> 0 then o1\<lparr>hasCustomShards := True, customShardsZero := False\<rparr> else o1))"

definition reconcileShards :: "'v Options \<Rightarrow> 'v Options" where
  "reconcileShards o1 =
    (if hasCustomShards o1 \<and> Shards o1 = 0 \<and> \<not> customShardsZero o1
     then o1\<lparr>hasCustomShards := False\<rparr> else o1)"

definition defaultOptions :: "'v Options" where
  "defaultOptions = \<lparr> oBackend = BackendMap, oWeigher = NilIface, oOnEvictValue = NilIface,
     oOnEvictEntry = NilIface, EnableInvariantChecking = False, PressureFunc = None,
     hasCustomPressureFunc = False, MemoryBudget = 0,
     CompactionThreshold = DefaultCompactionThreshold,
     hasCustomCompactionThreshold = False, customCompactionBits = Fin 0,
     EvictionThreshold = DefaultEvictionThreshold,
     hasCustomEvictionThreshold = False, customEvictionBits = Fin 0,
     EvictionRetentionRatio = DefaultEvictionRetentionRatio,
     Shards = 0, hasCustomShards = False, customShardsZero = False,
     hasShardTier2Target = False, oShardFunc = None, sharedPressure = False,
     shardTier2Target = 0 \<rparr>"

definition normalizeBackend :: "'v Options \<Rightarrow> 'v Options" where
  "normalizeBackend o1 =
    (if oBackend o1 \<noteq> BackendMap \<and> oBackend o1 \<noteq> BackendRadix \<and> oBackend o1 \<noteq> BackendArenaRadix
     then o1\<lparr>oBackend := BackendMap\<rparr> else o1)"

definition ApplyOptions :: "(string \<Rightarrow> int \<Rightarrow> int) \<Rightarrow> 'v goOption list \<Rightarrow> 'v Options" where
  "ApplyOptions dsf opts = (let
     o1 = foldl applySingleOption defaultOptions opts;
     o2 = reconcileThresholdWindow (sanitizeThresholds (reconcileShards (normalizeBackend o1)));
     o3 = o2\<lparr>EvictionRetentionRatio := normalizeRetentionRatio (EvictionRetentionRatio o2)\<rparr>
     in normalizeCallbacks dsf o3)"


subsection \<open>Thresholds and ratios are in range whatever the options\<close>

definition valid_threshold :: "float64 \<Rightarrow> bool" where
  "valid_threshold t = (case t of Fin a \<Rightarrow> 0 < a \<and> is_f64 t | _ \<Rightarrow> False)"

lemma valid_threshold_iff: "valid_threshold t \<longleftrightarrow> isValidPositiveThreshold t \<and> is_f64 t"
  by (cases t) (auto simp: valid_threshold_def isValidPositiveThreshold_def)

lemma default_thresholds_valid:
  "valid_threshold DefaultCompactionThreshold" "valid_threshold DefaultEvictionThreshold"
  using round64_unit [of "75 / 100"] round_pos_pos [of "75 / 100"] is_f64_round64 [of "75 / 100"]
    round64_unit [of "90 / 100"] round_pos_pos [of "90 / 100"] is_f64_round64 [of "90 / 100"]
  by (auto simp: valid_threshold_def DefaultCompactionThreshold_def DefaultEvictionThreshold_def)

lemma advanceEvictionThreshold_ge:
  assumes "valid_threshold (Fin c)"
  shows "\<exists>e. advanceEvictionThreshold (Fin c) = Fin e \<and> c \<le> e"
proof -
  have c: "0 < c" "c \<le> max_float64"
    using assms by (auto simp: valid_threshold_def is_f64_Fin_pos)
  obtain d where d: "round64 (90 / 100 - 75 / 100) = Fin d" "0 \<le> d"
    using round64_unit(1) [of "90 / 100 - 75 / 100"] by simp
  then have sum: "fadd (Fin c) (round64 (90 / 100 - 75 / 100)) = round64 (c + d)" by simp
  have "0 \<le> c + d" using c d by simp
  then show ?thesis
  proof (cases rule: round64_cases)
    case 1
    with sum c next_up_greater [of c] show ?thesis
      by (auto simp: advanceEvictionThreshold_def Let_def not_less less_imp_le)
  next
    case 2
    with sum c next_up_greater [of c] show ?thesis
      by (auto simp: advanceEvictionThreshold_def Let_def not_less not_le less_imp_le)
  qed
qed

lemma scaleCompactionThreshold_le:
  assumes "valid_threshold (Fin e)"
  shows "\<exists>c. scaleCompactionThreshold (Fin e) = Fin c \<and> 0 < c \<and> c \<le> e"
proof -
  have e: "0 < e" "is_f64 (Fin e)" and e': "round_pos e = e" "e \<le> max_float64"
    using assms by (auto simp: valid_threshold_def is_f64_Fin_pos)
  obtain d where d: "round64 ((75 / 100) / (90 / 100)) = Fin d" "0 \<le> d" "d \<le> 1"
    using round64_unit [of "(75 / 100) / (90 / 100)"] by simp
  have le: "round_pos (e * d) \<le> e"
    using round_pos_mono [of "e * d" e] d e e' by (simp add: mult_left_le)
  then have "fmul (Fin e) (round64 ((75 / 100) / (90 / 100))) = Fin (round_pos (e * d))"
    using d e e' by (simp add: round64_finite)
  then show ?thesis
    using le e smallest_le_f64 [OF e] next_down_less [of e] next_down_pos [of e]
    by (cases "round_pos (e * d) = 0")
      (auto simp: less_le [of 0 "round_pos (e * d)"] scaleCompactionThreshold_def Let_def not_less)
qed

lemma sanitizeThresholds_valid:
  assumes "is_f64 (CompactionThreshold o1)" "is_f64 (EvictionThreshold o1)"
  shows "valid_threshold (CompactionThreshold (sanitizeThresholds o1))"
    and "valid_threshold (EvictionThreshold (sanitizeThresholds o1))"
  using assms default_thresholds_valid
  by (auto simp: sanitizeThresholds_def Let_def valid_threshold_iff)

lemma reconcileThresholdWindow_ordered:
  assumes "valid_threshold (CompactionThreshold o1)" "valid_threshold (EvictionThreshold o1)"
  shows "\<exists>c e. CompactionThreshold (reconcileThresholdWindow o1) = Fin c
     \<and> EvictionThreshold (reconcileThresholdWindow o1) = Fin e \<and> 0 < c \<and> c \<le> e"
proof -
  obtain c e where ce: "CompactionThreshold o1 = Fin c" "EvictionThreshold o1 = Fin e" "0 < c" "0 < e"
    using assms by (auto simp: valid_threshold_def split: float64.splits)
  obtain e' where "advanceEvictionThreshold (Fin c) = Fin e'" "c \<le> e'"
    using advanceEvictionThreshold_ge assms(1) ce by auto
  moreover obtain c' where "scaleCompactionThreshold (Fin e) = Fin c'" "0 < c'" "c' \<le> e"
    using scaleCompactionThreshold_le assms(2) ce by auto
  ultimately show ?thesis using ce by (auto simp: reconcileThresholdWindow_def)
qed

lemma normalizeRetentionRatio_unit:
  "\<exists>r. normalizeRetentionRatio x = Fin r \<and> 0 \<le> r \<and> r \<le> 1"
proof (cases x)
  case (Fin a)
  then show ?thesis
    using round64_unit [of "50 / 100"] round_pos_pos [of "50 / 100"]
    by (auto simp: normalizeRetentionRatio_def DefaultEvictionRetentionRatio_def)
qed (use round64_unit [of "50 / 100"] round_pos_pos [of "50 / 100"] in
  \<open>auto simp: normalizeRetentionRatio_def DefaultEvictionRetentionRatio_def\<close>)

end
