(* ===== verification/Pressure.thy ===== *)
theory Pressure
  imports Options
begin

text \<open>
  The state every backend embeds (\<^verbatim>\<open>pressure.go\<close>, \<open>pressureState\<close>) and the decisions taken
  from it under the cache's lock: watermark bookkeeping, when to compact, when to reclaim, the
  targets of a shed, the zero-weight caps, telemetry counters and the telemetry invariants.

  Go's struct embedding is record extension here: an operation on
  \<open>('v, 'm) pressureState_scheme\<close> applies to a cache record that extends \<open>pressureState\<close>.

  The coordinator of a sharded cache is another \<open>pressureState\<close>, that of an unsharded cache is the
  cache's own. The fields that only a coordinator uses form the record \<open>coordState\<close>, held in the
  field \<open>coord\<close>: an unsharded cache owns it, a shard works on the shared one while it runs.
  \<open>reclaimEpoch\<close> and \<open>externalReclaimEpoch\<close> exist per shard as well (\<open>shardReclaimEpoch\<close>,
  \<open>shardExtReclaimEpoch\<close>).

  Which goroutine runs, and whether it descends from a pressure callback, is found by inspecting
  goroutine stacks; the answers for the calling goroutine are the inputs \<open>samplerActive\<close>
  (\<open>hasActiveSampler\<close>) and \<open>inSampler\<close> (\<open>checkSamplingGoroutine\<close>) of the coordinator state, and no
  fact below depends on their values.
\<close>

record coordState =
  reclaimEpoch :: u64
  externalReclaimEpoch :: u64
  pressureInvokeSeq :: u64
  lastSampledSeq :: u64
  lastSampledEpoch :: u64
  lastSampledPressure :: float64
  belowTier1Epoch :: u64
  belowTier2Epoch :: u64
  pressureInitialized :: bool
  pressureNeedsRefresh :: bool
  cachedPublishSeq :: u64
  cachedPressure :: float64
  cachedPressureEpoch :: u64
  cachedBelowTier1Epoch :: u64
  cachedBelowTier2Epoch :: u64
  cachedPressureSeq :: u64
  samplerActive :: bool
  inSampler :: bool

record 'v pressureState =
  options :: "'v Options"
  coord :: coordState
  shardReclaimEpoch :: u64
  shardExtReclaimEpoch :: u64
  peakEntryLen :: int
  deletedSinceCompact :: int
  zeroSizeCount :: int
  lastReclaimedZeroCount :: int
  lastReclaimedLen :: int
  hasValidSample :: bool
  getHits :: u64
  getMisses :: u64
  evictionsCapacity :: u64
  evictionsPressure :: u64
  evictionsDeleted :: u64
  evictionsReplaced :: u64
  evictedWeightCapacity :: u64
  evictedWeightPressure :: u64
  evictedWeightDeleted :: u64
  evictedWeightReplaced :: u64
  putInserted :: u64
  putUpdated :: u64
  replaceUpdated :: u64
  replaceNotFound :: u64
  replaceSelfEvicted :: u64
  deleteDeleted :: u64
  deleteNotFound :: u64
  deletePrefixExecuted :: u64
  compactionsExplicit :: u64
  compactionsPressureTier1 :: u64
  compactionsPressureTier2 :: u64
  compactionsAutoSlack :: u64
  pressureShedsInline :: u64
  pressureShedsExplicit :: u64
  peekHits :: u64
  peekMisses :: u64
  putRejectedOversized :: u64
  arenaHashFallbacks :: u64
  zeroWatermarkTier2Epoch :: u64
  zeroWatermarkSeq :: u64
  sampledBelowTier1Epoch :: u64
  sampledBelowTier2Epoch :: u64
  sampledCoordEpoch :: u64
  sampledPressureSeq :: u64
  localWriteSeq :: u64
  cachedAppliedPubSeq :: u64
  cachedAppliedSampleSeq :: u64
  cachedAppliedPressure :: float64
  windowSampleDue :: bool

definition minPeakSlackEntries :: int where "minPeakSlackEntries = 8"
definition minChurnCompactDeletes :: int where "minChurnCompactDeletes = 64"
definition slackQuarterMultiplier :: u64 where "slackQuarterMultiplier = 4"

definition computeTargetSize :: "u64 \<Rightarrow> float64 \<Rightarrow> u64" where
  "computeTargetSize maxSize retention =
    (if fle retention (Fin 0) then 0
     else if fge retention (Fin 1) then maxSize
     else let f = fmul (float_of_u64 maxSize) retention in
       if fge f (float_of_u64 maxSize) \<or> fge f (float_of_u64 (- 1)) then maxSize
       else let target = (word_of_int (float_trunc f) :: u64) in
         if target = 0 \<and> 0 < maxSize then 1 else target)"

definition ownReclaimEpoch :: "('v, 'm) pressureState_scheme \<Rightarrow> u64" where
  \<comment> \<open>\<open>p.reclaimEpoch.Load()\<close>: the shard's own epoch, the coordinator's when it is its own\<close>
  "ownReclaimEpoch p =
    (if sharedPressure (options p) then shardReclaimEpoch p else reclaimEpoch (coord p))"

definition tier2TargetSize :: "('v, 'm) pressureState_scheme \<Rightarrow> u64 \<Rightarrow> u64" where
  "tier2TargetSize p maxSize =
    (if hasShardTier2Target (options p) then shardTier2Target (options p)
     else computeTargetSize maxSize (EvictionRetentionRatio (options p)))"

definition isSamplingGoroutine :: "('v, 'm) pressureState_scheme \<Rightarrow> bool" where
  "isSamplingGoroutine p =
    (hasCustomPressureFunc (options p) \<and> samplerActive (coord p) \<and> inSampler (coord p))"

definition invalidateCachedFieldsOnReclaimLocked :: "coordState \<Rightarrow> coordState" where
  "invalidateCachedFieldsOnReclaimLocked c =
    c\<lparr>cachedPublishSeq := (if even (cachedPublishSeq c) then cachedPublishSeq c + 1 else cachedPublishSeq c),
      pressureNeedsRefresh := True, pressureInitialized := False, cachedPressure := Fin 0\<rparr>"

definition markReclaimedLocked :: "('v, 'm) pressureState_scheme \<Rightarrow> ('v, 'm) pressureState_scheme" where
  \<comment> \<open>\<open>p.coord().markReclaimedFromShard(p)\<close>\<close>
  "markReclaimedLocked p = (let
     sampling = isSamplingGoroutine p;
     ext = (if sampling then 0 else 1);
     c = invalidateCachedFieldsOnReclaimLocked (coord p);
     c' = c\<lparr>reclaimEpoch := reclaimEpoch c + 1, externalReclaimEpoch := externalReclaimEpoch c + ext\<rparr>
     in if sharedPressure (options p)
        then p\<lparr>coord := c', shardReclaimEpoch := shardReclaimEpoch p + 1,
               shardExtReclaimEpoch := shardExtReclaimEpoch p + ext\<rparr>
        else p\<lparr>coord := c'\<rparr>)"

definition hasElevatedPressureToInvalidate :: "('v, 'm) pressureState_scheme \<Rightarrow> float64 \<Rightarrow> bool" where
  "hasElevatedPressureToInvalidate p pressure = (let thresh = CompactionThreshold (options p) in
     if fge pressure thresh \<or> fge (cachedPressure (coord p)) thresh \<or> pressureNeedsRefresh (coord p)
     then True
     else if \<not> samplerActive (coord p) then False
     else \<not> isSamplingGoroutine p)"

definition shouldInvalidatePressureOnReclaim :: "('v, 'm) pressureState_scheme \<Rightarrow> float64 \<Rightarrow> bool" where
  "shouldInvalidatePressureOnReclaim p pressure = (let thresh = CompactionThreshold (options p) in
     fge pressure thresh \<or> fge (cachedPressure (coord p)) thresh
     \<or> pressureNeedsRefresh (coord p) \<or> samplerActive (coord p))"

subsection \<open>Watermarks\<close>

definition onEntryPut :: "int \<Rightarrow> u64 \<Rightarrow> ('v, 'm) pressureState_scheme \<Rightarrow> ('v, 'm) pressureState_scheme" where
  "onEntryPut newLen sz p =
    p\<lparr>peakEntryLen := (if peakEntryLen p < newLen then newLen else peakEntryLen p),
      zeroSizeCount := (if sz = 0 then zeroSizeCount p + 1 else zeroSizeCount p)\<rparr>"

definition onEntrySizeUpdated :: "u64 \<Rightarrow> u64 \<Rightarrow> ('v, 'm) pressureState_scheme \<Rightarrow> ('v, 'm) pressureState_scheme" where
  "onEntrySizeUpdated oldSize newSize p =
    (if oldSize = 0 \<and> 0 < newSize \<and> 0 < zeroSizeCount p then
       p\<lparr>zeroSizeCount := zeroSizeCount p - 1,
         lastReclaimedZeroCount := (if zeroSizeCount p - 1 < lastReclaimedZeroCount p
           then zeroSizeCount p - 1 else lastReclaimedZeroCount p)\<rparr>
     else if 0 < oldSize \<and> newSize = 0 then
       p\<lparr>zeroSizeCount := zeroSizeCount p + 1, lastReclaimedLen := 0\<rparr>
     else p)"

definition onEntryDeleted :: "u64 \<Rightarrow> ('v, 'm) pressureState_scheme \<Rightarrow> ('v, 'm) pressureState_scheme" where
  "onEntryDeleted sz p0 = (let p = p0\<lparr>deletedSinceCompact := deletedSinceCompact p0 + 1\<rparr> in
     if sz = 0 \<and> 0 < zeroSizeCount p then
       p\<lparr>zeroSizeCount := zeroSizeCount p - 1,
         lastReclaimedZeroCount := (if zeroSizeCount p - 1 < lastReclaimedZeroCount p
           then zeroSizeCount p - 1 else lastReclaimedZeroCount p)\<rparr>
     else if 0 < sz then p\<lparr>lastReclaimedLen := 0\<rparr>
     else p)"

definition resetWatermarks :: "('v, 'm) pressureState_scheme \<Rightarrow> ('v, 'm) pressureState_scheme" where
  "resetWatermarks p = p\<lparr>peakEntryLen := 0, deletedSinceCompact := 0, zeroSizeCount := 0,
     lastReclaimedZeroCount := 0, lastReclaimedLen := 0\<rparr>"

definition onCompacted :: "int \<Rightarrow> ('v, 'm) pressureState_scheme \<Rightarrow> ('v, 'm) pressureState_scheme" where
  "onCompacted newLen p =
    p\<lparr>deletedSinceCompact := 0, peakEntryLen := newLen,
      lastReclaimedZeroCount := (if zeroSizeCount p < lastReclaimedZeroCount p
        then zeroSizeCount p else lastReclaimedZeroCount p),
      lastReclaimedLen := (if newLen < lastReclaimedLen p then newLen else lastReclaimedLen p)\<rparr>"

subsection \<open>Compaction and reclamation decisions\<close>

definition shouldAutoCompactEntryCounts :: "('v, 'm) pressureState_scheme \<Rightarrow> bool \<Rightarrow> bool \<Rightarrow> int \<Rightarrow> bool" where
  "shouldAutoCompactEntryCounts p isDirty isBackground currentLen =
    (if isBackground then isDirty
     else if \<not> isDirty then False
     else if minPeakSlackEntries < peakEntryLen p \<and> currentLen < peakEntryLen p
          \<and> 2 \<le> peakEntryLen p - currentLen
          \<and> (word_of_int (peakEntryLen p) :: u64) \<le> word_of_int (peakEntryLen p - currentLen) * slackQuarterMultiplier
     then True
     else minChurnCompactDeletes \<le> deletedSinceCompact p \<and> currentLen \<le> deletedSinceCompact p)"

definition shouldAutoCompactMap :: "('v, 'm) pressureState_scheme \<Rightarrow> bool \<Rightarrow> bool \<Rightarrow> int \<Rightarrow> bool" where
  "shouldAutoCompactMap p dirty isBackground currentLen =
     shouldAutoCompactEntryCounts p
       (dirty \<and> (currentLen < peakEntryLen p \<or> minChurnCompactDeletes \<le> deletedSinceCompact p))
       isBackground currentLen"

definition needsMutationReclaim :: "('v, 'm) pressureState_scheme \<Rightarrow> bool \<Rightarrow> u64 \<Rightarrow> u64 \<Rightarrow> float64 \<Rightarrow> bool" where
  "needsMutationReclaim p reclaimedPre currentSize sizeBefore pressure =
     (reclaimedPre \<or> currentSize < sizeBefore \<or> fge pressure (CompactionThreshold (options p))
      \<or> fge pressure (EvictionThreshold (options p)))"

definition hasEmptyDeleteSlack :: "('v, 'm) pressureState_scheme \<Rightarrow> bool \<Rightarrow> bool" where
  "hasEmptyDeleteSlack p extraSlack =
     (extraSlack \<or> minPeakSlackEntries < peakEntryLen p \<or> minChurnCompactDeletes \<le> deletedSinceCompact p)"

definition shouldReclaimSingleSurvivorOnDelete :: "('v, 'm) pressureState_scheme \<Rightarrow> int \<Rightarrow> bool \<Rightarrow> bool \<Rightarrow> bool" where
  "shouldReclaimSingleSurvivorOnDelete p currentLen isDirty extraChurn =
     (currentLen = 1 \<and> isDirty \<and> (extraChurn \<or> minChurnCompactDeletes \<le> peakEntryLen p
        \<or> minChurnCompactDeletes \<le> deletedSinceCompact p))"

definition shouldReclaimEmptyPrePutSlow ::
  "('v, 'm) pressureState_scheme \<Rightarrow> bool \<Rightarrow> bool \<Rightarrow> u64 \<Rightarrow> u64 \<Rightarrow> float64 \<Rightarrow> bool" where
  "shouldReclaimEmptyPrePutSlow p extraChurn evictedPre newSize sizeBefore pressure =
     (extraChurn \<or> minChurnCompactDeletes \<le> peakEntryLen p \<or> minChurnCompactDeletes \<le> deletedSinceCompact p
      \<or> (evictedPre \<and> newSize < sizeBefore \<and> hasElevatedPressureToInvalidate p pressure))"

definition shouldReclaimEmptyPrePut ::
  "('v, 'm) pressureState_scheme \<Rightarrow> int \<Rightarrow> bool \<Rightarrow> bool \<Rightarrow> u64 \<Rightarrow> u64 \<Rightarrow> float64 \<Rightarrow> bool" where
  "shouldReclaimEmptyPrePut p currentLen extraChurn evictedPre newSize sizeBefore pressure =
     (if currentLen = 0 then shouldReclaimEmptyPrePutSlow p extraChurn evictedPre newSize sizeBefore pressure
      else False)"

definition shouldReclaimSingleSurvivorSlow ::
  "('v, 'm) pressureState_scheme \<Rightarrow> int \<Rightarrow> bool \<Rightarrow> bool \<Rightarrow> u64 \<Rightarrow> u64 \<Rightarrow> float64 \<Rightarrow> bool" where
  "shouldReclaimSingleSurvivorSlow p currentLen extraChurn evictedPre postSize sizeBefore pressure =
     (if currentLen \<noteq> 1 \<and> (\<not> evictedPre \<or> 1 < currentLen - zeroSizeCount p) then False
      else extraChurn \<or> minChurnCompactDeletes \<le> peakEntryLen p \<or> minChurnCompactDeletes \<le> deletedSinceCompact p
        \<or> (currentLen = 1 \<and> postSize < sizeBefore \<and> hasElevatedPressureToInvalidate p pressure))"

definition shouldReclaimSingleSurvivorOnMutation ::
  "('v, 'm) pressureState_scheme \<Rightarrow> int \<Rightarrow> bool \<Rightarrow> bool \<Rightarrow> bool \<Rightarrow> u64 \<Rightarrow> u64 \<Rightarrow> float64 \<Rightarrow> bool" where
  "shouldReclaimSingleSurvivorOnMutation p currentLen isDirty extraChurn evictedPre postSize sizeBefore pressure =
     (if isDirty \<and> (currentLen \<le> 1 \<or> 0 < zeroSizeCount p)
      then shouldReclaimSingleSurvivorSlow p currentLen extraChurn evictedPre postSize sizeBefore pressure
      else False)"

definition shouldCompactAfterMutation ::
  "('v, 'm) pressureState_scheme \<Rightarrow> bool \<Rightarrow> bool \<Rightarrow> bool \<Rightarrow> float64 \<Rightarrow> bool" where
  "shouldCompactAfterMutation p reclaimedPre netByteReduced isDirty pressure =
     (isDirty \<and> (reclaimedPre \<or> (netByteReduced \<and> fge pressure (CompactionThreshold (options p))
        \<and> (word_of_int (peakEntryLen p) :: u64) \<le> word_of_int (deletedSinceCompact p) * slackQuarterMultiplier)))"

definition shouldMarkReclaimedAfterMutation ::
  "('v, 'm) pressureState_scheme \<Rightarrow> bool \<Rightarrow> bool \<Rightarrow> u64 \<Rightarrow> float64 \<Rightarrow> bool" where
  "shouldMarkReclaimedAfterMutation p reclaimedPre netByteReduced sampledEpoch pressure =
     ((reclaimedPre \<or> netByteReduced) \<and> shouldInvalidatePressureOnReclaim p pressure
      \<and> ownReclaimEpoch p = sampledEpoch)"

subsection \<open>Shedding\<close>

definition computeZeroShedTargets :: "('v, 'm) pressureState_scheme \<Rightarrow> float64 \<Rightarrow> bool \<Rightarrow> u64 \<Rightarrow> int \<times> int" where
  \<comment> \<open>\<open>(targetZeroCount, unprotectedZeroTarget)\<close>\<close>
  "computeZeroShedTargets p retention hasProtected protectedSize =
    (if zeroSizeCount p \<le> 0 then (0, 0)
     else let unprotectedZeroTarget =
            max (float_trunc (fmul (float_of_int (zeroSizeCount p)) retention)) (lastReclaimedZeroCount p)
       in (if hasProtected \<and> protectedSize = 0 \<and> unprotectedZeroTarget < 1 then 1 else unprotectedZeroTarget,
           unprotectedZeroTarget))"

definition computeShedTargets ::
  "('v, 'm) pressureState_scheme \<Rightarrow> u64 \<Rightarrow> float64 \<Rightarrow> int \<Rightarrow> bool \<Rightarrow> u64 \<Rightarrow> u64 \<times> int \<times> int \<times> int" where
  \<comment> \<open>\<open>(effectiveTarget, targetLen, targetZeroCount, unprotectedZeroTarget)\<close>\<close>
  "computeShedTargets p targetSize retention currentLen hasProtected protectedSize =
    (if fle retention (Fin 0) then (targetSize, 0, 0, 0)
     else let
       effectiveTarget = (if hasProtected \<and> targetSize < protectedSize then protectedSize else targetSize)
       in if 0 < zeroSizeCount p then
            let targetLen0 = (if 0 < currentLen then float_trunc (fmul (float_of_int currentLen) retention) else 0);
                targetLen = (if 0 < currentLen \<and> (\<not> hasProtected \<or> protectedSize \<le> targetSize)
                               \<and> targetLen0 < lastReclaimedLen p
                             then lastReclaimedLen p else targetLen0);
                (targetZeroCount, unprotectedZeroTarget) = computeZeroShedTargets p retention hasProtected protectedSize
            in (effectiveTarget, targetLen, targetZeroCount, unprotectedZeroTarget)
          else (effectiveTarget, 0, 0, 0))"

definition updateZeroWatermarkAfterShed ::
  "float64 \<Rightarrow> int \<Rightarrow> bool \<Rightarrow> int \<Rightarrow> int \<Rightarrow> ('v, 'm) pressureState_scheme \<Rightarrow> ('v, 'm) pressureState_scheme" where
  "updateZeroWatermarkAfterShed retention currentLen unprotectedLenAllowed unprotectedZeroTarget targetLen p =
    (if flt (Fin 0) retention \<and> 0 < zeroSizeCount p then
       p\<lparr>lastReclaimedZeroCount := min (zeroSizeCount p) unprotectedZeroTarget,
         lastReclaimedLen := (if unprotectedLenAllowed \<and> zeroSizeCount p < currentLen
                              then min currentLen targetLen else 0),
         zeroWatermarkTier2Epoch := sampledBelowTier2Epoch p,
         zeroWatermarkSeq := sampledPressureSeq p\<rparr>
     else p\<lparr>lastReclaimedZeroCount := 0, lastReclaimedLen := 0\<rparr>)"

definition shouldContinueShedding ::
  "('v, 'm) pressureState_scheme \<Rightarrow> u64 \<Rightarrow> u64 \<Rightarrow> bool \<Rightarrow> int \<Rightarrow> int \<Rightarrow> int \<Rightarrow> bool \<times> bool" where
  \<comment> \<open>\<open>(needByteShed, needZeroShed)\<close>\<close>
  "shouldContinueShedding p currentSize effectiveTarget needFullFlush targetZeroCount currentLen targetLen =
     (effectiveTarget < currentSize \<or> needFullFlush,
      \<not> needFullFlush \<and> targetZeroCount < zeroSizeCount p \<and> targetLen < currentLen)"

definition shouldEvictShedVictim :: "('v, 'm) pressureState_scheme \<Rightarrow> bool \<Rightarrow> u64 \<Rightarrow> bool \<Rightarrow> bool \<Rightarrow> int \<Rightarrow> bool" where
  "shouldEvictShedVictim p isProtected sz needFullFlush needByteShed targetZeroCount =
    (if isProtected then False
     else if needFullFlush \<or> (needByteShed \<and> targetZeroCount < zeroSizeCount p) then True
     else if needByteShed then 0 < sz
     else sz = 0)"

definition recordPressureShed :: "bool \<Rightarrow> ('v, 'm) pressureState_scheme \<Rightarrow> ('v, 'm) pressureState_scheme" where
  "recordPressureShed isBackground p =
    (if isBackground then p\<lparr>pressureShedsExplicit := pressureShedsExplicit p + 1\<rparr>
     else p\<lparr>pressureShedsInline := pressureShedsInline p + 1\<rparr>)"

subsection \<open>Zero-weight caps\<close>

definition shouldEvictZeroWeightOnInsert :: "('v, 'm) pressureState_scheme \<Rightarrow> u64 \<Rightarrow> u64 \<Rightarrow> u64 \<Rightarrow> int \<Rightarrow> bool" where
  "shouldEvictZeroWeightOnInsert p valueSize maxSize currentSize currentLen =
    (if currentLen \<le> 0 then False
     else if valueSize = 0 then
       (maxSize \<le> currentSize \<and> maxSize \<le> word_of_int currentLen) \<or> maxSize \<le> word_of_int (zeroSizeCount p)
     else maxSize < word_of_int (zeroSizeCount p)
       \<and> maxSize - currentSize - valueSize < word_of_int (zeroSizeCount p) - maxSize)"

definition shouldEvictPreInsertOnPut :: "('v, 'm) pressureState_scheme \<Rightarrow> u64 \<Rightarrow> u64 \<Rightarrow> u64 \<Rightarrow> int \<Rightarrow> bool \<Rightarrow> bool" where
  "shouldEvictPreInsertOnPut p valueSize maxSize currentSize currentLen evictedPrePut =
    (if maxSize - currentSize < valueSize then True
     else if valueSize = 0 \<and> evictedPrePut then False
     else shouldEvictZeroWeightOnInsert p valueSize maxSize currentSize currentLen)"

definition shouldEvictOnZeroWeightShrink :: "('v, 'm) pressureState_scheme \<Rightarrow> u64 \<Rightarrow> u64 \<Rightarrow> u64 \<Rightarrow> bool" where
  "shouldEvictOnZeroWeightShrink p oldSize newSize maxSize =
     (0 < oldSize \<and> newSize = 0 \<and> maxSize \<le> word_of_int (zeroSizeCount p))"

subsection \<open>Marking and telemetry\<close>

definition recordEviction :: "EvictionReason \<Rightarrow> u64 \<Rightarrow> ('v, 'm) pressureState_scheme \<Rightarrow> ('v, 'm) pressureState_scheme" where
  "recordEviction reason weight p = (case reason of
     EvictionReasonCapacity \<Rightarrow> p\<lparr>evictionsCapacity := evictionsCapacity p + 1,
       evictedWeightCapacity := evictedWeightCapacity p + weight\<rparr>
   | EvictionReasonPressure \<Rightarrow> p\<lparr>evictionsPressure := evictionsPressure p + 1,
       evictedWeightPressure := evictedWeightPressure p + weight\<rparr>
   | EvictionReasonDeleted \<Rightarrow> p\<lparr>evictionsDeleted := evictionsDeleted p + 1,
       evictedWeightDeleted := evictedWeightDeleted p + weight\<rparr>
   | EvictionReasonReplaced \<Rightarrow> p\<lparr>evictionsReplaced := evictionsReplaced p + 1,
       evictedWeightReplaced := evictedWeightReplaced p + weight\<rparr>
   | EvictionReasonOther _ \<Rightarrow> p)"

definition recordCompactionByPressure :: "float64 \<Rightarrow> ('v, 'm) pressureState_scheme \<Rightarrow> ('v, 'm) pressureState_scheme" where
  "recordCompactionByPressure pressure p =
    (if fge pressure (EvictionThreshold (options p))
     then p\<lparr>compactionsPressureTier2 := compactionsPressureTier2 p + 1\<rparr>
     else if fge pressure (CompactionThreshold (options p))
     then p\<lparr>compactionsPressureTier1 := compactionsPressureTier1 p + 1\<rparr>
     else p\<lparr>compactionsAutoSlack := compactionsAutoSlack p + 1\<rparr>)"

definition maybeMarkReclaimed :: "bool \<Rightarrow> u64 \<Rightarrow> float64 \<Rightarrow> ('v, 'm) pressureState_scheme \<Rightarrow> ('v, 'm) pressureState_scheme" where
  "maybeMarkReclaimed reclaimedOrReduced sampledEpoch pressure p =
    (if reclaimedOrReduced \<and> shouldInvalidatePressureOnReclaim p pressure \<and> ownReclaimEpoch p = sampledEpoch
     then markReclaimedLocked p else p)"

definition finishClearAllLocked ::
  "bool \<Rightarrow> bool \<Rightarrow> u64 \<Rightarrow> float64 \<Rightarrow> ('v, 'm) pressureState_scheme \<Rightarrow> ('v, 'm) pressureState_scheme" where
  "finishClearAllLocked hadCompactionSlack hadReclaimable sampledEpoch pressure p =
     maybeMarkReclaimed (hadCompactionSlack \<or> hadReclaimable) sampledEpoch pressure
       (if hadCompactionSlack then recordCompactionByPressure pressure p else p)"

definition resetZeroWatermarkBelowTier2Slow :: "float64 \<Rightarrow> ('v, 'm) pressureState_scheme \<Rightarrow> ('v, 'm) pressureState_scheme" where
  "resetZeroWatermarkBelowTier2Slow pressure p =
    (if PressureFunc (options p) = None
        \<or> (hasValidSample p \<and> flt pressure (EvictionThreshold (options p))
           \<and> zeroWatermarkSeq p \<le> sampledPressureSeq p \<and> \<not> isSamplingGoroutine p)
     then p\<lparr>lastReclaimedZeroCount := 0, lastReclaimedLen := 0\<rparr> else p)"

definition resetZeroWatermarkBelowTier2 :: "float64 \<Rightarrow> ('v, 'm) pressureState_scheme \<Rightarrow> ('v, 'm) pressureState_scheme" where
  "resetZeroWatermarkBelowTier2 pressure p =
    (if lastReclaimedZeroCount p \<noteq> 0 \<or> lastReclaimedLen p \<noteq> 0
     then resetZeroWatermarkBelowTier2Slow pressure p else p)"

definition checkWatermarkInvariants :: "('v, 'm) pressureState_scheme \<Rightarrow> int \<Rightarrow> unit res" where
  "checkWatermarkInvariants p currentLen =
     bindr (require (\<not> (zeroSizeCount p < 0 \<or> currentLen < zeroSizeCount p)) ''invalid zeroSizeCount'') (\<lambda>_.
     bindr (require (\<not> deletedSinceCompact p < 0) ''negative deletedSinceCompact'') (\<lambda>_.
     bindr (require (\<not> peakEntryLen p < 0) ''negative peakEntryLen'') (\<lambda>_.
     bindr (require (\<not> (0 < putInserted p \<and> peakEntryLen p < currentLen)) ''currentLen exceeds peakEntryLen'') (\<lambda>_.
     require (\<not> (lastSampledPressure (coord p) = NaN
              \<or> (lastSampledPressure (coord p) = PInf \<or> lastSampledPressure (coord p) = NInf)
              \<or> flt (lastSampledPressure (coord p)) (Fin 0))) ''invalid lastSampledPressure''))))"

definition checkCounterInvariants :: "('v, 'm) pressureState_scheme \<Rightarrow> int \<Rightarrow> unit res" where
  "checkCounterInvariants p currentLen =
    (let totalRemovals = evictionsCapacity p + evictionsPressure p + evictionsDeleted p in
     bindr (require (\<not> evictionsDeleted p < deleteDeleted p) ''deleteDeleted exceeds evictionsDeleted'') (\<lambda>_.
     bindr (require (\<not> evictionsCapacity p < replaceSelfEvicted p) ''replaceSelfEvicted exceeds evictionsCapacity'') (\<lambda>_.
     bindr (require (putUpdated p + replaceUpdated p = evictionsReplaced p) ''putUpdated + replaceUpdated != evictionsReplaced'') (\<lambda>_.
     bindr (require (\<not> evictionsPressure p < pressureShedsInline p + pressureShedsExplicit p) ''pressureSheds exceeds evictionsPressure'') (\<lambda>_.
     require (\<not> (0 < putInserted p \<and> word_of_int currentLen + totalRemovals \<noteq> putInserted p))
       ''currentLen + totalRemovals != putInserted'')))))"

definition checkTelemetryInvariants :: "('v, 'm) pressureState_scheme \<Rightarrow> int \<Rightarrow> unit res" where
  "checkTelemetryInvariants p currentLen =
     bindr (checkWatermarkInvariants p currentLen) (\<lambda>_. checkCounterInvariants p currentLen)"

definition appendEvicted :: "'a list \<Rightarrow> 'a list \<Rightarrow> 'a list" where
  "appendEvicted base extra =
    (if length base = 0 then extra else if 0 < length extra then base @ extra else base)"

lemma appendEvicted_append [simp]: "appendEvicted xs ys = xs @ ys"
  by (auto simp: appendEvicted_def)

end
