(* ===== verification/Sampling.thy ===== *)
theory Sampling
  imports Pressure
begin

text \<open>
  Pressure sampling (\<^verbatim>\<open>pressure.go\<close>): reading the probe, publishing the reading on the
  coordinator, deciding whether a reading is stale, and \<open>lockWithPressure\<close>, which every mutating
  operation starts with.

  One goroutine runs at a time and the probe does not call back into the cache: between the loads
  made before a probe and the store made after it, nothing else writes the coordinator. So a lock
  is no state here, and the two loads of a seqlock read agree. What the code needs to know of other
  goroutines is the input \<open>samplingEnv\<close>: the reading of the \<open>n\<close>-th probe invocation, and the answers
  of \<open>isSoleReentrantReclaimerLocked\<close> for the coordinator and for the shard. A shard has the
  options of its coordinator (\<^verbatim>\<open>newShardedCacheWithOptions\<close> copies them), so \<open>coord.options\<close> is
  \<open>options p\<close>.
\<close>

record samplingEnv =
  probe :: "u64 \<Rightarrow> float64"
  soleReentrant :: bool
  shardSoleReentrant :: bool

record pressureSample =
  s_epoch :: u64
  s_shardEpoch :: u64
  s_shardExtEpoch :: u64
  s_extEpoch :: u64
  s_invokeSeq :: u64
  s_belowTier1 :: u64
  s_belowTier2 :: u64
  s_val :: float64
  s_valid :: bool

record shardSample =
  h_hasSample :: bool
  h_valid :: bool
  h_pressure :: float64
  h_coordEpoch :: u64
  h_belowTier1 :: u64
  h_belowTier2 :: u64
  h_seq :: u64

definition emptyShardSample :: shardSample where
  "emptyShardSample = \<lparr>h_hasSample = False, h_valid = False, h_pressure = Fin 0, h_coordEpoch = 0,
     h_belowTier1 = 0, h_belowTier2 = 0, h_seq = 0\<rparr>"

definition advanceSelfReclaim :: "u64 \<Rightarrow> u64 \<Rightarrow> shardSample \<Rightarrow> shardSample" where
  "advanceSelfReclaim postShardEpoch preShardEpoch s =
    (if h_hasSample s \<and> h_valid s \<and> preShardEpoch < postShardEpoch
     then s\<lparr>h_coordEpoch := h_coordEpoch s + (postShardEpoch - preShardEpoch)\<rparr> else s)"

definition ownExternalReclaimEpoch :: "('v, 'm) pressureState_scheme \<Rightarrow> u64" where
  \<comment> \<open>\<open>p.externalReclaimEpoch.Load()\<close>\<close>
  "ownExternalReclaimEpoch p =
    (if sharedPressure (options p) then shardExtReclaimEpoch p else externalReclaimEpoch (coord p))"

subsection \<open>The published sample\<close>

definition beginCachedPublishLocked :: "coordState \<Rightarrow> coordState \<times> u64" where
  "beginCachedPublishLocked c = (let seq = cachedPublishSeq c in
     if even seq then (c\<lparr>cachedPublishSeq := seq + 1\<rparr>, seq + 1) else (c, seq))"

definition publishCachedPressureLocked ::
  "u64 \<Rightarrow> u64 \<Rightarrow> u64 \<Rightarrow> u64 \<Rightarrow> u64 \<Rightarrow> float64 \<Rightarrow> bool \<Rightarrow> coordState \<Rightarrow> coordState" where
  "publishCachedPressureLocked seq0 epoch belowTier1 belowTier2 invokeSeq val needsRefresh c0 = (let
     (c, seq) = (if even seq0 then beginCachedPublishLocked c0 else (c0, seq0))
     in c\<lparr>cachedPressureEpoch := epoch, cachedBelowTier1Epoch := belowTier1,
          cachedBelowTier2Epoch := belowTier2, cachedPressureSeq := invokeSeq,
          cachedPressure := val, pressureInitialized := True,
          pressureNeedsRefresh := needsRefresh, cachedPublishSeq := seq + 1\<rparr>)"

definition invalidateCachedPressureLocked :: "coordState \<Rightarrow> coordState" where
  "invalidateCachedPressureLocked c0 = (let (c, seq) = beginCachedPublishLocked c0
     in c\<lparr>pressureNeedsRefresh := True, cachedPublishSeq := seq + 1\<rparr>)"

definition republishCachedRecoveryEpochsLocked :: "u64 \<Rightarrow> u64 \<Rightarrow> coordState \<Rightarrow> coordState" where
  "republishCachedRecoveryEpochsLocked belowTier1 belowTier2 c0 = (let
     oldTier1 = cachedBelowTier1Epoch c0; oldTier2 = cachedBelowTier2Epoch c0
     in if belowTier1 \<le> oldTier1 \<and> belowTier2 \<le> oldTier2 then c0
        else let (c, seq) = beginCachedPublishLocked c0
          in c\<lparr>cachedBelowTier1Epoch := (if oldTier1 < belowTier1 then belowTier1 else oldTier1),
               cachedBelowTier2Epoch := (if oldTier2 < belowTier2 then belowTier2 else oldTier2),
               cachedPublishSeq := seq + 1\<rparr>)"

definition syncCachedRecoveryEpochsLocked :: "'v Options \<Rightarrow> u64 \<Rightarrow> u64 \<Rightarrow> coordState \<Rightarrow> coordState" where
  "syncCachedRecoveryEpochsLocked opts belowTier1 belowTier2 c =
    (if \<not> pressureInitialized c \<or> pressureNeedsRefresh c then c
     else if (cachedBelowTier2Epoch c < belowTier2 \<and> fge (cachedPressure c) (EvictionThreshold opts))
          \<or> (cachedBelowTier1Epoch c < belowTier1 \<and> fge (cachedPressure c) (CompactionThreshold opts))
     then invalidateCachedPressureLocked c
     else republishCachedRecoveryEpochsLocked belowTier1 belowTier2 c)"

definition isCachedSampleStillValid :: "coordState \<Rightarrow> u64 \<Rightarrow> bool" where
  "isCachedSampleStillValid c epoch =
    (pressureInitialized c \<and> \<not> pressureNeedsRefresh c \<and> cachedPressureEpoch c = epoch \<and> reclaimEpoch c = epoch)"

definition readValidCachedSampleWithPubSeq ::
  "coordState \<Rightarrow> u64 \<Rightarrow> (float64 \<times> u64 \<times> u64 \<times> u64 \<times> u64) option" where
  \<comment> \<open>\<open>(pressure, belowTier1, belowTier2, sampleSeq, pubSeq)\<close>\<close>
  "readValidCachedSampleWithPubSeq c epoch = (let seq1 = cachedPublishSeq c in
     if seq1 = 0 \<or> odd seq1 \<or> \<not> pressureInitialized c \<or> pressureNeedsRefresh c then None
     else if cachedPressureEpoch c \<noteq> epoch then None
     else if cachedPublishSeq c \<noteq> seq1 \<or> \<not> isCachedSampleStillValid c epoch then None
     else Some (cachedPressure c, cachedBelowTier1Epoch c, cachedBelowTier2Epoch c, cachedPressureSeq c, seq1))"

subsection \<open>Recovery epochs and staleness\<close>

definition advanceRecoveryEpochsForValLocked ::
  "'v Options \<Rightarrow> float64 \<Rightarrow> u64 \<Rightarrow> u64 \<Rightarrow> coordState \<Rightarrow> coordState \<times> u64 \<times> u64" where
  "advanceRecoveryEpochsForValLocked opts val preBelowTier1 preBelowTier2 c0 = (let
     below1 = flt val (CompactionThreshold opts);
     c1 = (if below1 then c0\<lparr>belowTier1Epoch := belowTier1Epoch c0 + 1\<rparr> else c0);
     below2 = flt val (EvictionThreshold opts);
     c2 = (if below2 then c1\<lparr>belowTier2Epoch := belowTier2Epoch c1 + 1\<rparr> else c1)
     in (c2, if below1 then belowTier1Epoch c1 else preBelowTier1,
             if below2 then belowTier2Epoch c2 else preBelowTier2))"

definition isPreSampleElevatedCausallyStaleLocked :: "'v Options \<Rightarrow> coordState \<Rightarrow> float64 \<Rightarrow> u64 \<Rightarrow> u64 \<Rightarrow> bool" where
  "isPreSampleElevatedCausallyStaleLocked opts c val preBelowTier1 preBelowTier2 =
    (if fge val (EvictionThreshold opts) then preBelowTier2 < belowTier2Epoch c
     else if fge val (CompactionThreshold opts) then preBelowTier1 < belowTier1Epoch c
     else False)"

definition recordAcceptedFallbackSample ::
  "'v Options \<Rightarrow> u64 \<Rightarrow> u64 \<Rightarrow> u64 \<Rightarrow> u64 \<Rightarrow> float64 \<Rightarrow> coordState \<Rightarrow> coordState \<times> u64 \<times> u64" where
  "recordAcceptedFallbackSample opts sampleEpoch invokeSeq preBelowTier1 preBelowTier2 val c =
    (if isPreSampleElevatedCausallyStaleLocked opts c val preBelowTier1 preBelowTier2
     then (c, preBelowTier1, preBelowTier2)
     else if invokeSeq \<noteq> 0 then
       (if lastSampledSeq c < invokeSeq then
          let c1 = c\<lparr>lastSampledSeq := invokeSeq, lastSampledEpoch := sampleEpoch, lastSampledPressure := val\<rparr>;
              (c2, belowTier1, belowTier2) = advanceRecoveryEpochsForValLocked opts val preBelowTier1 preBelowTier2 c1
          in (syncCachedRecoveryEpochsLocked opts belowTier1 belowTier2 c2, belowTier1, belowTier2)
        else if invokeSeq = lastSampledSeq c
        then (syncCachedRecoveryEpochsLocked opts preBelowTier1 preBelowTier2 c, preBelowTier1, preBelowTier2)
        else (c, preBelowTier1, preBelowTier2))
     else (c, preBelowTier1, preBelowTier2))"

definition isSampleRecoveryStale :: "('v, 'm) pressureState_scheme \<Rightarrow> float64 \<Rightarrow> u64 \<Rightarrow> u64 \<Rightarrow> bool" where
  "isSampleRecoveryStale p val belowTier1 belowTier2 =
    (if fge val (EvictionThreshold (options p)) then belowTier2 < belowTier2Epoch (coord p)
     else if fge val (CompactionThreshold (options p)) then belowTier1 < belowTier1Epoch (coord p)
     else False)"

definition isSampleCausallyStaleLocked :: "('v, 'm) pressureState_scheme \<Rightarrow> float64 \<Rightarrow> u64 \<Rightarrow> u64 \<Rightarrow> u64 \<Rightarrow> bool" where
  "isSampleCausallyStaleLocked p val belowTier1 belowTier2 sampleSeq =
    (if sampleSeq \<noteq> 0 \<and> (sampleSeq < sampledPressureSeq p \<or> sampleSeq < lastSampledSeq (coord p)
          \<or> sampleSeq < cachedPressureSeq (coord p))
     then True else isSampleRecoveryStale p val belowTier1 belowTier2)"

definition isElevatedSampleStaleLocked :: "('v, 'm) pressureState_scheme \<Rightarrow> float64 \<Rightarrow> u64 \<Rightarrow> u64 \<Rightarrow> u64 \<Rightarrow> bool" where
  "isElevatedSampleStaleLocked p val belowTier1 belowTier2 sampleSeq =
     isSampleCausallyStaleLocked p val belowTier1 belowTier2 sampleSeq"

definition adoptNewerCachedSampleLocked ::
  "('v, 'm) pressureState_scheme \<Rightarrow> u64 \<Rightarrow> (float64 \<times> u64 \<times> u64 \<times> u64) option" where
  "adoptNewerCachedSampleLocked p minSeq =
    (case readValidCachedSampleWithPubSeq (coord p) (reclaimEpoch (coord p)) of None \<Rightarrow> None
     | Some (val, belowTier1, belowTier2, seq, _) \<Rightarrow>
         if seq \<le> minSeq \<or> seq < sampledPressureSeq p then None
         else if isSampleRecoveryStale p val belowTier1 belowTier2 then None
         else Some (val, belowTier1, belowTier2, seq))"

definition canAdoptPostRetryCachedSampleLocked ::
  "('v, 'm) pressureState_scheme \<Rightarrow> u64 \<Rightarrow> bool \<Rightarrow> u64 \<Rightarrow> (float64 \<times> u64 \<times> u64 \<times> u64) option" where
  "canAdoptPostRetryCachedSampleLocked p currentEpoch shardUnreclaimed minSeq =
    (case readValidCachedSampleWithPubSeq (coord p) currentEpoch of None \<Rightarrow> None
     | Some (val, belowTier1, belowTier2, seq, _) \<Rightarrow>
         if (shardUnreclaimed \<and> seq < minSeq) \<or> seq < sampledPressureSeq p then None
         else if isSampleRecoveryStale p val belowTier1 belowTier2 then None
         else Some (val, belowTier1, belowTier2, seq))"

definition canAcceptUnreclaimedShardFallbackLocked ::
  "('v, 'm) pressureState_scheme \<Rightarrow> pressureSample \<Rightarrow> u64 \<Rightarrow> bool \<Rightarrow> bool" where
  "canAcceptUnreclaimedShardFallbackLocked p s currentEpoch shardUnreclaimed =
    (shardUnreclaimed \<and> s_epoch s \<noteq> currentEpoch \<and> sampledPressureSeq p \<le> s_invokeSeq s
     \<and> \<not> isSampleRecoveryStale p (s_val s) (s_belowTier1 s) (s_belowTier2 s))"

definition syncZeroWatermarkLocked ::
  "u64 \<Rightarrow> u64 \<Rightarrow> u64 \<Rightarrow> float64 \<Rightarrow> ('v, 'm) pressureState_scheme \<Rightarrow> ('v, 'm) pressureState_scheme" where
  "syncZeroWatermarkLocked belowTier1 belowTier2 sampleSeq pressure p0 = (let
     p = p0\<lparr>cachedAppliedPubSeq := 0\<rparr>
     in if \<not> hasValidSample p \<or> isSamplingGoroutine p then p
        else if sampleSeq \<noteq> 0 \<and> sampleSeq < sampledPressureSeq p then p\<lparr>hasValidSample := False\<rparr>
        else let
          p1 = p\<lparr>sampledBelowTier1Epoch := max (sampledBelowTier1Epoch p) belowTier1,
                 sampledBelowTier2Epoch := max (sampledBelowTier2Epoch p) belowTier2,
                 sampledPressureSeq := sampleSeq\<rparr>;
          p2 = (if (lastReclaimedZeroCount p1 \<noteq> 0 \<or> lastReclaimedLen p1 \<noteq> 0)
                   \<and> zeroWatermarkTier2Epoch p1 < belowTier2
                then p1\<lparr>zeroWatermarkTier2Epoch := belowTier2, lastReclaimedZeroCount := 0, lastReclaimedLen := 0\<rparr>
                else p1)
          in resetZeroWatermarkBelowTier2 pressure p2)"

definition resolvePostRetryPressureLocked ::
  "pressureSample \<Rightarrow> ('v, 'm) pressureState_scheme \<Rightarrow> ('v, 'm) pressureState_scheme \<times> u64 \<times> float64" where
  "resolvePostRetryPressureLocked s p =
    (if \<not> s_valid s \<and> isSamplingGoroutine p
     then (p\<lparr>hasValidSample := False, cachedAppliedPubSeq := 0\<rparr>, ownReclaimEpoch p, Fin 0)
     else let
       currentEpoch = reclaimEpoch (coord p);
       shardUnreclaimed = (s_valid s \<and> ownReclaimEpoch p = s_shardEpoch s);
       (p1, acceptedCoordEpoch, belowTier1, belowTier2, sampleSeq, resolvedPressure) =
         (if s_valid s \<and> s_epoch s = currentEpoch
             \<and> \<not> isElevatedSampleStaleLocked p (s_val s) (s_belowTier1 s) (s_belowTier2 s) (s_invokeSeq s)
          then (p\<lparr>hasValidSample := True\<rparr>, currentEpoch, s_belowTier1 s, s_belowTier2 s, s_invokeSeq s, s_val s)
          else case canAdoptPostRetryCachedSampleLocked p currentEpoch shardUnreclaimed (s_invokeSeq s) of
            Some (cachedVal, cachedBelowTier1, cachedBelowTier2, cachedSeq) \<Rightarrow>
              (p\<lparr>hasValidSample := True\<rparr>, currentEpoch, cachedBelowTier1, cachedBelowTier2, cachedSeq, cachedVal)
          | None \<Rightarrow>
              if canAcceptUnreclaimedShardFallbackLocked p s currentEpoch shardUnreclaimed
              then let (c, b1, b2) = recordAcceptedFallbackSample (options p) (s_epoch s) (s_invokeSeq s)
                         (s_belowTier1 s) (s_belowTier2 s) (s_val s) (coord p)
                in (p\<lparr>hasValidSample := True, coord := c\<rparr>, s_epoch s, b1, b2, s_invokeSeq s, s_val s)
              else (p\<lparr>hasValidSample := False, cachedAppliedPubSeq := 0\<rparr>, currentEpoch,
                    s_belowTier1 s, s_belowTier2 s, s_invokeSeq s, Fin 0));
       p2 = syncZeroWatermarkLocked belowTier1 belowTier2 sampleSeq resolvedPressure
              (p1\<lparr>sampledCoordEpoch := acceptedCoordEpoch\<rparr>)
       in (p2, ownReclaimEpoch p2, resolvedPressure))"

definition canFastForwardLowPressureEpochLocked :: "'v Options \<Rightarrow> coordState \<Rightarrow> float64 \<Rightarrow> bool" where
  "canFastForwardLowPressureEpochLocked opts c val =
    (if fge val (CompactionThreshold opts) then False
     else \<not> pressureInitialized c \<or> cachedPressureEpoch c \<noteq> reclaimEpoch c
       \<or> flt (cachedPressure c) (CompactionThreshold opts))"

definition tryFastForwardSampledEpochLocked ::
  "('v, 'm) pressureState_scheme \<Rightarrow> pressureSample \<Rightarrow> pressureSample" where
  "tryFastForwardSampledEpochLocked p s =
    (if \<not> s_valid s \<or> \<not> hasCustomPressureFunc (options p) then s
     else let c = coord p;
       coordCanFF = (externalReclaimEpoch c = s_extEpoch s);
       shardNeedsFF = (sharedPressure (options p) \<and> ownReclaimEpoch p \<noteq> s_shardEpoch s
                       \<and> ownExternalReclaimEpoch p = s_shardExtEpoch s)
       in if \<not> coordCanFF \<and> \<not> shardNeedsFF then s
          else if canFastForwardLowPressureEpochLocked (options p) c (s_val s) then
            (if externalReclaimEpoch c = s_extEpoch s
             then s\<lparr>s_epoch := reclaimEpoch c, s_shardEpoch := ownReclaimEpoch p\<rparr>
             else if sharedPressure (options p) \<and> ownExternalReclaimEpoch p = s_shardExtEpoch s
             then s\<lparr>s_shardEpoch := ownReclaimEpoch p\<rparr>
             else s)
          else s)"

subsection \<open>Storing a reading\<close>

definition recordLastSampledTelemetryLocked ::
  "u64 \<Rightarrow> u64 \<Rightarrow> u64 \<Rightarrow> float64 \<Rightarrow> bool \<Rightarrow> bool \<Rightarrow> coordState \<Rightarrow> coordState \<times> bool" where
  "recordLastSampledTelemetryLocked originalEpoch epoch invokeSeq val willStore elevatedStale c =
    (if elevatedStale then (c, False)
     else if \<not> willStore \<and> reclaimEpoch c \<noteq> epoch then (c, False)
     else if \<not> willStore \<and> pressureInitialized c \<and> cachedPressureEpoch c = reclaimEpoch c then (c, False)
     else let lastSeq = lastSampledSeq c in
       if lastSeq \<le> invokeSeq \<or> (willStore \<and> lastSampledEpoch c < originalEpoch)
       then (c\<lparr>lastSampledSeq := (if lastSeq < invokeSeq then invokeSeq else lastSeq),
               lastSampledEpoch := epoch, lastSampledPressure := val\<rparr>, True)
       else (c, False))"

definition resolveTargetShardEpochLocked ::
  "samplingEnv \<Rightarrow> ('v, 'm) pressureState_scheme \<Rightarrow> u64 \<Rightarrow> u64 \<Rightarrow> float64 \<Rightarrow> u64" where
  "resolveTargetShardEpochLocked env p shardEpoch shardExtEpoch val =
    (if \<not> sharedPressure (options p) \<or> ownReclaimEpoch p = shardEpoch \<or> ownExternalReclaimEpoch p \<noteq> shardExtEpoch
     then shardEpoch
     else if shardSoleReentrant env \<or> canFastForwardLowPressureEpochLocked (options p) (coord p) val
     then ownReclaimEpoch p
     else shardEpoch)"

definition resolveSampleEpochsLocked ::
  "samplingEnv \<Rightarrow> ('v, 'm) pressureState_scheme \<Rightarrow> u64 \<Rightarrow> u64 \<Rightarrow> u64 \<Rightarrow> u64 \<Rightarrow> float64 \<Rightarrow> u64 \<times> u64 \<times> bool" where
  "resolveSampleEpochsLocked env p shardEpoch shardExtEpoch epoch extEpoch val = (let
     curEpoch = reclaimEpoch (coord p);
     allowStore = (curEpoch = epoch)
     in if \<not> hasCustomPressureFunc (options p) then (epoch, shardEpoch, allowStore)
        else let
          (epoch1, shardEpoch1, allowStore1) =
            (if \<not> allowStore \<and> externalReclaimEpoch (coord p) = extEpoch then
               (if soleReentrant env then (curEpoch, ownReclaimEpoch p, True)
                else if canFastForwardLowPressureEpochLocked (options p) (coord p) val
                then (curEpoch, ownReclaimEpoch p, allowStore)
                else (epoch, shardEpoch, allowStore))
             else (epoch, shardEpoch, allowStore))
          in (epoch1, resolveTargetShardEpochLocked env p shardEpoch1 shardExtEpoch val, allowStore1))"

datatype sampleStoreMode = sampleStoreNormal | sampleStoreAdoptedCached | sampleStoreAdoptedLast

definition decideOlderInvokeSeqLocked ::
  "u64 \<Rightarrow> u64 \<Rightarrow> u64 \<Rightarrow> float64 \<Rightarrow> bool \<Rightarrow> coordState \<Rightarrow> coordState \<times> u64 \<times> float64 \<times> bool \<times> sampleStoreMode" where
  "decideOlderInvokeSeqLocked originalEpoch epoch invokeSeq val hasCachedAtEpoch c =
    (if lastSampledEpoch c = epoch then
       (if \<not> hasCachedAtEpoch then c\<lparr>pressureNeedsRefresh := True\<rparr> else c,
        lastSampledSeq c, lastSampledPressure c, False, sampleStoreAdoptedLast)
     else if originalEpoch < epoch \<and> lastSampledEpoch c < epoch then
       (c\<lparr>pressureInvokeSeq := pressureInvokeSeq c + 1\<rparr>, pressureInvokeSeq c + 1, val, True, sampleStoreNormal)
     else if originalEpoch \<le> lastSampledEpoch c then
       (if \<not> hasCachedAtEpoch then c\<lparr>pressureNeedsRefresh := True\<rparr> else c,
        invokeSeq, val, False, sampleStoreNormal)
     else (c, invokeSeq, val, True, sampleStoreNormal))"

definition decideSampleStoreLocked ::
  "u64 \<Rightarrow> u64 \<Rightarrow> u64 \<Rightarrow> u64 \<Rightarrow> float64 \<Rightarrow> bool \<Rightarrow> coordState
   \<Rightarrow> coordState \<times> u64 \<times> float64 \<times> bool \<times> sampleStoreMode" where
  "decideSampleStoreLocked originalEpoch epoch curEpoch invokeSeq val allowStore c =
    (if \<not> allowStore then
       (if \<not> pressureInitialized c \<or> cachedPressureEpoch c \<noteq> curEpoch then c\<lparr>pressureNeedsRefresh := True\<rparr> else c,
        invokeSeq, val, False, sampleStoreNormal)
     else let
       hasCachedAtEpoch = (pressureInitialized c \<and> \<not> pressureNeedsRefresh c \<and> cachedPressureEpoch c = epoch)
       in if hasCachedAtEpoch \<and> invokeSeq \<noteq> 0 \<and> invokeSeq < cachedPressureSeq c
          then (c, cachedPressureSeq c, cachedPressure c, False, sampleStoreAdoptedCached)
          else if invokeSeq \<noteq> 0 \<and> invokeSeq < lastSampledSeq c
          then decideOlderInvokeSeqLocked originalEpoch epoch invokeSeq val hasCachedAtEpoch c
          else (c, invokeSeq, val, True, sampleStoreNormal))"

definition storeSampledPressureWithSeq ::
  "samplingEnv \<Rightarrow> u64 \<Rightarrow> u64 \<Rightarrow> u64 \<Rightarrow> u64 \<Rightarrow> u64 \<Rightarrow> u64 \<Rightarrow> u64 \<Rightarrow> float64 \<Rightarrow> ('v, 'm) pressureState_scheme
   \<Rightarrow> ('v, 'm) pressureState_scheme \<times> u64 \<times> u64 \<times> u64 \<times> u64 \<times> u64 \<times> float64" where
  \<comment> \<open>\<open>(epoch, shardEpoch, belowTier1, belowTier2, invokeSeq, val)\<close>\<close>
  "storeSampledPressureWithSeq env shardEpoch0 shardExtEpoch epoch0 extEpoch preBelowTier1 preBelowTier2 invokeSeq0 val0 p = (let
     originalEpoch = epoch0;
     curEpoch = reclaimEpoch (coord p);
     elevatedStale = isPreSampleElevatedCausallyStaleLocked (options p) (coord p) val0 preBelowTier1 preBelowTier2;
     (epoch, shardEpoch, allowStore) = resolveSampleEpochsLocked env p shardEpoch0 shardExtEpoch epoch0 extEpoch val0;
     (c1, invokeSeq, val, willStore, storeMode) =
       decideSampleStoreLocked originalEpoch epoch curEpoch invokeSeq0 val0 allowStore (coord p);
     (c2, pubSeq) = (if willStore then beginCachedPublishLocked c1 else (c1, 0));
     (c3, belowTier1, belowTier2) =
       (case storeMode of
          sampleStoreAdoptedCached \<Rightarrow> (c2, cachedBelowTier1Epoch c2, cachedBelowTier2Epoch c2)
        | sampleStoreAdoptedLast \<Rightarrow> (c2, belowTier1Epoch c2, belowTier2Epoch c2)
        | sampleStoreNormal \<Rightarrow>
            (let (c, recorded) = recordLastSampledTelemetryLocked originalEpoch epoch invokeSeq val willStore elevatedStale c2
             in if recorded then advanceRecoveryEpochsForValLocked (options p) val preBelowTier1 preBelowTier2 c
                else (c, preBelowTier1, preBelowTier2)));
     c4 = (if willStore
           then publishCachedPressureLocked pubSeq epoch belowTier1 belowTier2 invokeSeq val elevatedStale c3
           else c3)
     in (p\<lparr>coord := c4\<rparr>, epoch, shardEpoch, belowTier1, belowTier2, invokeSeq, val))"

definition fmax :: "float64 \<Rightarrow> float64 \<Rightarrow> float64" where
  \<comment> \<open>the builtin \<open>max\<close> on floats\<close>
  "fmax x y = (if x = NaN \<or> y = NaN then NaN else if flt x y then y else x)"

definition sanitizePressureValue :: "'v Options \<Rightarrow> float64 \<Rightarrow> float64" where
  "sanitizePressureValue opts val =
    (if val = NaN \<or> flt val (Fin 0) then Fin 0
     else if val = PInf then fmax (fmax (Fin 1) (CompactionThreshold opts)) (EvictionThreshold opts)
     else val)"

definition invokeAndStorePressure ::
  "samplingEnv \<Rightarrow> ('v, 'm) pressureState_scheme \<Rightarrow> ('v, 'm) pressureState_scheme \<times> pressureSample" where
  "invokeAndStorePressure env p0 = (let
     shardExtEpoch = ownExternalReclaimEpoch p0;
     shardEpoch = ownReclaimEpoch p0;
     extEpoch = externalReclaimEpoch (coord p0);
     epoch = reclaimEpoch (coord p0);
     preBelowTier1 = belowTier1Epoch (coord p0);
     preBelowTier2 = belowTier2Epoch (coord p0);
     invokeSeq = pressureInvokeSeq (coord p0) + 1;
     p = p0\<lparr>coord := (coord p0)\<lparr>pressureInvokeSeq := invokeSeq\<rparr>\<rparr>;
     val = sanitizePressureValue (options p) (probe env invokeSeq);
     (p', epoch', shardEpoch', belowTier1, belowTier2, invokeSeq', val') =
       storeSampledPressureWithSeq env shardEpoch shardExtEpoch epoch extEpoch preBelowTier1 preBelowTier2 invokeSeq val p
     in (p', \<lparr>s_epoch = epoch', s_shardEpoch = shardEpoch', s_shardExtEpoch = shardExtEpoch,
              s_extEpoch = extEpoch, s_invokeSeq = invokeSeq', s_belowTier1 = belowTier1,
              s_belowTier2 = belowTier2, s_val = val', s_valid = True\<rparr>))"

definition reentrantFallbackPressureSample :: "('v, 'm) pressureState_scheme \<Rightarrow> pressureSample" where
  "reentrantFallbackPressureSample p =
     \<lparr>s_epoch = reclaimEpoch (coord p), s_shardEpoch = ownReclaimEpoch p, s_shardExtEpoch = 0,
      s_extEpoch = 0, s_invokeSeq = 0, s_belowTier1 = belowTier1Epoch (coord p),
      s_belowTier2 = belowTier2Epoch (coord p), s_val = Fin 0, s_valid = False\<rparr>"

definition samplePressureFreshOnCoord ::
  "samplingEnv \<Rightarrow> ('v, 'm) pressureState_scheme \<Rightarrow> ('v, 'm) pressureState_scheme \<times> pressureSample" where
  \<comment> \<open>the primary, fallback and overflow slots all end in \<open>invokeAndStorePressure\<close>\<close>
  "samplePressureFreshOnCoord env p =
    (if PressureFunc (options p) = None then
       (p, \<lparr>s_epoch = reclaimEpoch (coord p), s_shardEpoch = ownReclaimEpoch p, s_shardExtEpoch = 0,
            s_extEpoch = externalReclaimEpoch (coord p), s_invokeSeq = 0,
            s_belowTier1 = belowTier1Epoch (coord p), s_belowTier2 = belowTier2Epoch (coord p),
            s_val = Fin 0, s_valid = True\<rparr>)
     else if isSamplingGoroutine p then (p, reentrantFallbackPressureSample p)
     else invokeAndStorePressure env p)"

subsection \<open>Locking with a sample\<close>

definition advanceLockRetryBudgetLocked ::
  "('v, 'm) pressureState_scheme \<Rightarrow> u64 \<Rightarrow> int \<Rightarrow> int \<Rightarrow> bool \<times> int \<times> int" where
  "advanceLockRetryBudgetLocked p sampledShardEpoch sameShardRetries crossShardRetries = (let
     same = (if ownReclaimEpoch p \<noteq> sampledShardEpoch then sameShardRetries + 1 else sameShardRetries);
     cross = (if ownReclaimEpoch p \<noteq> sampledShardEpoch then crossShardRetries else crossShardRetries + 1)
     in (same \<le> 2 \<and> cross \<le> 4, same, cross))"

definition resolveLockLoopStepLocked ::
  "('v, 'm) pressureState_scheme \<Rightarrow> pressureSample \<Rightarrow> int \<Rightarrow> int \<Rightarrow> pressureSample \<times> bool \<times> int \<times> int" where
  "resolveLockLoopStepLocked p s0 same cross = (let
     s = (if s_epoch s0 \<noteq> reclaimEpoch (coord p) then tryFastForwardSampledEpochLocked p s0 else s0);
     budget = (let (retry, same', cross') = advanceLockRetryBudgetLocked p (s_shardEpoch s) same cross
               in (s, retry, same', cross'))
     in if s_epoch s = reclaimEpoch (coord p) then
          (if \<not> s_valid s \<or> \<not> isElevatedSampleStaleLocked p (s_val s) (s_belowTier1 s) (s_belowTier2 s) (s_invokeSeq s)
           then (s, False, same, cross)
           else case adoptNewerCachedSampleLocked p (s_invokeSeq s) of
             Some (val, belowTier1, belowTier2, seq) \<Rightarrow>
               (s\<lparr>s_val := val, s_belowTier1 := belowTier1, s_belowTier2 := belowTier2, s_invokeSeq := seq\<rparr>,
                False, same, cross)
           | None \<Rightarrow> budget)
        else budget)"

function lockRetryLoop ::
  "samplingEnv \<Rightarrow> ('v, 'm) pressureState_scheme \<Rightarrow> pressureSample \<Rightarrow> int \<Rightarrow> int
   \<Rightarrow> ('v, 'm) pressureState_scheme \<times> pressureSample" where
  "lockRetryLoop env p s same cross =
    (case resolveLockLoopStepLocked p s same cross of (s', retry, same', cross') \<Rightarrow>
       if \<not> retry then (p, s')
       else (case samplePressureFreshOnCoord env p of (p', s'') \<Rightarrow> lockRetryLoop env p' s'' same' cross'))"
  by pat_completeness auto

lemma resolveLockLoopStep_budget:
  assumes "resolveLockLoopStepLocked p s same cross = (s', True, same', cross')"
  shows "same' \<le> 2 \<and> cross' \<le> 4
    \<and> ((same' = same + 1 \<and> cross' = cross) \<or> (same' = same \<and> cross' = cross + 1))"
proof -
  define s1 where "s1 = (if s_epoch s \<noteq> reclaimEpoch (coord p) then tryFastForwardSampledEpochLocked p s else s)"
  have "advanceLockRetryBudgetLocked p (s_shardEpoch s1) same cross = (True, same', cross')"
    using assms unfolding resolveLockLoopStepLocked_def s1_def [symmetric]
    by (simp only: Let_def split: if_splits option.splits prod.splits) simp_all
  then show ?thesis
    by (simp add: advanceLockRetryBudgetLocked_def Let_def split: if_splits)
qed

termination lockRetryLoop
proof (relation "measure (\<lambda>(_, _, _, same, cross). nat (2 - same) + nat (4 - cross))", goal_cases)
  case (2 env p s same cross)
  then show ?case by (auto dest!: sym [THEN resolveLockLoopStep_budget])
qed simp

definition lockWithPressureSlow ::
  "samplingEnv \<Rightarrow> ('v, 'm) pressureState_scheme \<Rightarrow> ('v, 'm) pressureState_scheme \<times> u64 \<times> float64" where
  "lockWithPressureSlow env p0 = (let (p, s) = samplePressureFreshOnCoord env p0 in
     if s_valid s \<and> s_epoch s = reclaimEpoch (coord p)
        \<and> \<not> isElevatedSampleStaleLocked p (s_val s) (s_belowTier1 s) (s_belowTier2 s) (s_invokeSeq s)
     then let p1 = syncZeroWatermarkLocked (s_belowTier1 s) (s_belowTier2 s) (s_invokeSeq s) (s_val s)
                     (p\<lparr>hasValidSample := True, sampledCoordEpoch := s_epoch s\<rparr>)
       in (p1, ownReclaimEpoch p1, s_val s)
     else let (p1, s1) = lockRetryLoop env p s 0 0 in resolvePostRetryPressureLocked s1 p1)"

definition recordAppliedLowPressureSampleLocked ::
  "u64 \<Rightarrow> u64 \<Rightarrow> float64 \<Rightarrow> ('v, 'm) pressureState_scheme \<Rightarrow> ('v, 'm) pressureState_scheme" where
  "recordAppliedLowPressureSampleLocked pubSeq sampleSeq pressure p =
    (if hasValidSample p \<and> pubSeq \<noteq> 0 \<and> even pubSeq \<and> flt pressure (CompactionThreshold (options p))
     then p\<lparr>cachedAppliedPubSeq := pubSeq, cachedAppliedSampleSeq := sampleSeq, cachedAppliedPressure := pressure\<rparr>
     else p\<lparr>cachedAppliedPubSeq := 0\<rparr>)"

definition canReuseAppliedLowPressureLocked :: "('v, 'm) pressureState_scheme \<Rightarrow> bool" where
  "canReuseAppliedLowPressureLocked p = (let pubSeq = cachedAppliedPubSeq p in
     pubSeq \<noteq> 0 \<and> hasValidSample p \<and> sampledPressureSeq p = cachedAppliedSampleSeq p
     \<and> reclaimEpoch (coord p) = sampledCoordEpoch p \<and> lastSampledSeq (coord p) \<le> sampledPressureSeq p
     \<and> cachedPublishSeq (coord p) = pubSeq)"

definition adoptCoordCachedSampleLocked ::
  "('v, 'm) pressureState_scheme \<Rightarrow> (('v, 'm) pressureState_scheme \<times> u64 \<times> float64) option" where
  \<comment> \<open>the second read, under the coordinator's mutex, sees what the first saw\<close>
  "adoptCoordCachedSampleLocked p = (let epoch = reclaimEpoch (coord p) in
     case readValidCachedSampleWithPubSeq (coord p) epoch of None \<Rightarrow> None
     | Some (pressure, belowTier1, belowTier2, sampleSeq, pubSeq) \<Rightarrow>
         if isElevatedSampleStaleLocked p pressure belowTier1 belowTier2 sampleSeq then None
         else let p1 = p\<lparr>hasValidSample := True, sampledCoordEpoch := epoch\<rparr>;
                  p2 = syncZeroWatermarkLocked belowTier1 belowTier2 sampleSeq pressure p1;
                  p3 = recordAppliedLowPressureSampleLocked pubSeq sampleSeq pressure p2
           in Some (p3, if \<not> sharedPressure (options p3) then epoch else ownReclaimEpoch p3, pressure))"

definition tryCacheFreshSamplePubSeqLocked ::
  "u64 \<Rightarrow> u64 \<Rightarrow> float64 \<Rightarrow> ('v, 'm) pressureState_scheme \<Rightarrow> ('v, 'm) pressureState_scheme" where
  "tryCacheFreshSamplePubSeqLocked invokeSeq epoch val p =
    (if \<not> hasValidSample p \<or> fge val (CompactionThreshold (options p)) then p\<lparr>cachedAppliedPubSeq := 0\<rparr>
     else let pubSeq = cachedPublishSeq (coord p) in
       if pubSeq \<noteq> 0 \<and> even pubSeq \<and> cachedPressureSeq (coord p) = invokeSeq
          \<and> cachedPressureEpoch (coord p) = epoch \<and> \<not> pressureNeedsRefresh (coord p)
          \<and> cachedPublishSeq (coord p) = pubSeq
       then p\<lparr>cachedAppliedPubSeq := pubSeq, cachedAppliedSampleSeq := invokeSeq, cachedAppliedPressure := val\<rparr>
       else p\<lparr>cachedAppliedPubSeq := 0\<rparr>)"

definition advanceLocalWriteSeqLocked :: "('v, 'm) pressureState_scheme \<Rightarrow> ('v, 'm) pressureState_scheme" where
  "advanceLocalWriteSeqLocked p0 = (let p = p0\<lparr>localWriteSeq := localWriteSeq p0 + 1\<rparr> in
     if take_bit 8 (localWriteSeq p) = 0 then p\<lparr>windowSampleDue := True\<rparr> else p)"

definition lockWithPressureFastMiss ::
  "samplingEnv \<Rightarrow> ('v, 'm) pressureState_scheme \<Rightarrow> ('v, 'm) pressureState_scheme \<times> u64 \<times> float64" where
  "lockWithPressureFastMiss env p0 = (let
     (p1, s) = samplePressureFreshOnCoord env (p0\<lparr>windowSampleDue := False\<rparr>);
     p = advanceLocalWriteSeqLocked (p1\<lparr>windowSampleDue := False\<rparr>)
     in if s_epoch s = reclaimEpoch (coord p)
           \<and> \<not> (s_valid s \<and> isElevatedSampleStaleLocked p (s_val s) (s_belowTier1 s) (s_belowTier2 s) (s_invokeSeq s))
        then (if \<not> s_valid s \<and> isSamplingGoroutine p
              then (p\<lparr>hasValidSample := False, cachedAppliedPubSeq := 0\<rparr>, ownReclaimEpoch p, Fin 0)
              else let
                p2 = syncZeroWatermarkLocked (s_belowTier1 s) (s_belowTier2 s) (s_invokeSeq s) (s_val s)
                       (p\<lparr>hasValidSample := s_valid s, sampledCoordEpoch := s_epoch s\<rparr>);
                p3 = tryCacheFreshSamplePubSeqLocked (s_invokeSeq s) (s_epoch s) (s_val s) p2
                in (p3, if \<not> sharedPressure (options p3) then s_epoch s else ownReclaimEpoch p3, s_val s))
        else case adoptCoordCachedSampleLocked p of
          Some r \<Rightarrow> r
        | None \<Rightarrow> lockWithPressureSlow env (p\<lparr>cachedAppliedPubSeq := 0\<rparr>))"

definition lockWithPressure ::
  "samplingEnv \<Rightarrow> bool \<Rightarrow> ('v, 'm) pressureState_scheme \<Rightarrow> ('v, 'm) pressureState_scheme \<times> u64 \<times> float64" where
  "lockWithPressure env fresh p =
    (if \<not> fresh \<and> \<not> hasCustomPressureFunc (options p) then
       (if pressureInitialized (coord p) \<and> \<not> pressureNeedsRefresh (coord p) \<and> \<not> windowSampleDue p then
          (if canReuseAppliedLowPressureLocked p then
             let p1 = resetZeroWatermarkBelowTier2 (cachedAppliedPressure p) (advanceLocalWriteSeqLocked p)
             in (p1, if \<not> sharedPressure (options p1) then sampledCoordEpoch p1 else ownReclaimEpoch p1,
                 cachedAppliedPressure p1)
           else case adoptCoordCachedSampleLocked p of
             Some (p1, sampledEpoch, pressure) \<Rightarrow> (advanceLocalWriteSeqLocked p1, sampledEpoch, pressure)
           | None \<Rightarrow> lockWithPressureFastMiss env p)
        else lockWithPressureFastMiss env
          (if pressureInitialized (coord p) \<and> \<not> pressureNeedsRefresh (coord p) then p\<lparr>windowSampleDue := False\<rparr> else p))
     else lockWithPressureSlow env p)"

definition canReuseShardSample :: "('v, 'm) pressureState_scheme \<Rightarrow> bool \<Rightarrow> bool" where
  "canReuseShardSample p validSample = (validSample \<or> isSamplingGoroutine p)"

definition adoptCachedShardSampleLocked ::
  "u64 \<Rightarrow> ('v, 'm) pressureState_scheme \<Rightarrow> (('v, 'm) pressureState_scheme \<times> shardSample) option" where
  "adoptCachedShardSampleLocked minSeq p = (let curCoordEpoch = reclaimEpoch (coord p) in
     case readValidCachedSampleWithPubSeq (coord p) curCoordEpoch of None \<Rightarrow> None
     | Some (val, belowTier1, belowTier2, seq, _) \<Rightarrow>
         if seq < minSeq \<or> seq < sampledPressureSeq p then None
         else if isSampleRecoveryStale p val belowTier1 belowTier2 then None
         else Some (syncZeroWatermarkLocked belowTier1 belowTier2 seq val
                      (p\<lparr>hasValidSample := True, sampledCoordEpoch := curCoordEpoch\<rparr>),
                    \<lparr>h_hasSample = True, h_valid = True, h_pressure = val, h_coordEpoch = curCoordEpoch,
                     h_belowTier1 = belowTier1, h_belowTier2 = belowTier2, h_seq = seq\<rparr>))"

definition tryApplyShardSampleLocked ::
  "bool \<Rightarrow> shardSample \<Rightarrow> ('v, 'm) pressureState_scheme \<Rightarrow> (('v, 'm) pressureState_scheme \<times> shardSample) option" where
  "tryApplyShardSampleLocked fresh sample p =
    (if \<not> h_hasSample sample then None
     else if \<not> h_valid sample then
       (if \<not> isSamplingGoroutine p then None
        else Some (p\<lparr>hasValidSample := False, cachedAppliedPubSeq := 0\<rparr>, sample))
     else let
       epochMismatch = (reclaimEpoch (coord p) \<noteq> h_coordEpoch sample);
       causallyStale = isSampleCausallyStaleLocked p (h_pressure sample) (h_belowTier1 sample) (h_belowTier2 sample) (h_seq sample)
       in if epochMismatch \<or> causallyStale then
            (if \<not> fresh \<or> \<not> epochMismatch
             then adoptCachedShardSampleLocked (if \<not> epochMismatch then h_seq sample + 1 else h_seq sample) p
             else None)
          else Some (syncZeroWatermarkLocked (h_belowTier1 sample) (h_belowTier2 sample) (h_seq sample) (h_pressure sample)
                       (p\<lparr>hasValidSample := True, sampledCoordEpoch := h_coordEpoch sample\<rparr>), sample))"

definition lockShardWithSample ::
  "samplingEnv \<Rightarrow> bool \<Rightarrow> shardSample \<Rightarrow> ('v, 'm) pressureState_scheme
   \<Rightarrow> ('v, 'm) pressureState_scheme \<times> u64 \<times> shardSample" where
  "lockShardWithSample env fresh sample p = (case tryApplyShardSampleLocked fresh sample p of
     Some (p1, sample1) \<Rightarrow> (p1, ownReclaimEpoch p1, sample1)
   | None \<Rightarrow> (let (p1, sampledEpoch, resolvedPressure) = lockWithPressure env fresh p; valid = hasValidSample p1 in
       (p1, sampledEpoch,
        \<lparr>h_hasSample = canReuseShardSample p1 valid, h_valid = valid, h_pressure = resolvedPressure,
         h_coordEpoch = (if valid then sampledCoordEpoch p1 else 0),
         h_belowTier1 = (if valid then sampledBelowTier1Epoch p1 else 0),
         h_belowTier2 = (if valid then sampledBelowTier2Epoch p1 else 0),
         h_seq = (if valid then sampledPressureSeq p1 else 0)\<rparr>)))"

declare lockRetryLoop.simps [simp del]

subsection \<open>Sampling keeps the books\<close>

definition books where
  \<comment> \<open>what sampling never writes: configuration, entry counts and telemetry counters\<close>
  "books p = (options p, (peakEntryLen p, deletedSinceCompact p, zeroSizeCount p),
     (getHits p, getMisses p, peekHits p, peekMisses p),
     (evictionsCapacity p, evictionsPressure p, evictionsDeleted p, evictionsReplaced p),
     (evictedWeightCapacity p, evictedWeightPressure p, evictedWeightDeleted p, evictedWeightReplaced p),
     (putInserted p, putUpdated p, putRejectedOversized p, replaceUpdated p, replaceNotFound p, replaceSelfEvicted p),
     (deleteDeleted p, deleteNotFound p, deletePrefixExecuted p),
     (compactionsExplicit p, compactionsPressureTier1 p, compactionsPressureTier2 p, compactionsAutoSlack p),
     (pressureShedsInline p, pressureShedsExplicit p, arenaHashFallbacks p))"

definition valid_pressure :: "float64 \<Rightarrow> bool" where
  "valid_pressure x = (case x of Fin a \<Rightarrow> 0 \<le> a | _ \<Rightarrow> False)"

definition thresholds_ok :: "'v Options \<Rightarrow> bool" where
  "thresholds_ok opts = (\<exists>c e. CompactionThreshold opts = Fin c \<and> EvictionThreshold opts = Fin e \<and> 0 < c \<and> c \<le> e)"

definition coord_ok :: "coordState \<Rightarrow> bool" where
  "coord_ok c = (valid_pressure (lastSampledPressure c) \<and> valid_pressure (cachedPressure c))"

definition sampling_ok :: "('v, 'm) pressureState_scheme \<Rightarrow> bool" where
  "sampling_ok p = (thresholds_ok (options p) \<and> coord_ok (coord p) \<and> valid_pressure (cachedAppliedPressure p))"

definition sampled :: "('v, 'm) pressureState_scheme \<Rightarrow> ('v, 'm) pressureState_scheme \<Rightarrow> bool" where
  "sampled p p' = (books p' = books p \<and> (sampling_ok p \<longrightarrow> sampling_ok p'))"

lemma valid_pressure_0 [simp]: "valid_pressure (Fin 0)"
  by (simp add: valid_pressure_def)

lemma books_update [simp]:
  "books (p\<lparr>hasValidSample := x0\<rparr>) = books p"
  "books (p\<lparr>lastReclaimedZeroCount := x1\<rparr>) = books p"
  "books (p\<lparr>lastReclaimedLen := x2\<rparr>) = books p"
  "books (p\<lparr>zeroWatermarkTier2Epoch := x3\<rparr>) = books p"
  "books (p\<lparr>zeroWatermarkSeq := x4\<rparr>) = books p"
  "books (p\<lparr>sampledBelowTier1Epoch := x5\<rparr>) = books p"
  "books (p\<lparr>sampledBelowTier2Epoch := x6\<rparr>) = books p"
  "books (p\<lparr>sampledCoordEpoch := x7\<rparr>) = books p"
  "books (p\<lparr>sampledPressureSeq := x8\<rparr>) = books p"
  "books (p\<lparr>localWriteSeq := x9\<rparr>) = books p"
  "books (p\<lparr>cachedAppliedPubSeq := x10\<rparr>) = books p"
  "books (p\<lparr>cachedAppliedSampleSeq := x11\<rparr>) = books p"
  "books (p\<lparr>windowSampleDue := x12\<rparr>) = books p"
  "books (p\<lparr>coord := x13\<rparr>) = books p"
  "books (p\<lparr>shardReclaimEpoch := x15\<rparr>) = books p"
  "books (p\<lparr>shardExtReclaimEpoch := x16\<rparr>) = books p"
  "books (p\<lparr>cachedAppliedPressure := x14\<rparr>) = books p"
  by (simp_all add: books_def)

lemma sampling_ok_update [simp]:
  "sampling_ok (p\<lparr>hasValidSample := x0\<rparr>) = sampling_ok p"
  "sampling_ok (p\<lparr>lastReclaimedZeroCount := x1\<rparr>) = sampling_ok p"
  "sampling_ok (p\<lparr>lastReclaimedLen := x2\<rparr>) = sampling_ok p"
  "sampling_ok (p\<lparr>zeroWatermarkTier2Epoch := x3\<rparr>) = sampling_ok p"
  "sampling_ok (p\<lparr>zeroWatermarkSeq := x4\<rparr>) = sampling_ok p"
  "sampling_ok (p\<lparr>sampledBelowTier1Epoch := x5\<rparr>) = sampling_ok p"
  "sampling_ok (p\<lparr>sampledBelowTier2Epoch := x6\<rparr>) = sampling_ok p"
  "sampling_ok (p\<lparr>sampledCoordEpoch := x7\<rparr>) = sampling_ok p"
  "sampling_ok (p\<lparr>sampledPressureSeq := x8\<rparr>) = sampling_ok p"
  "sampling_ok (p\<lparr>localWriteSeq := x9\<rparr>) = sampling_ok p"
  "sampling_ok (p\<lparr>cachedAppliedPubSeq := x10\<rparr>) = sampling_ok p"
  "sampling_ok (p\<lparr>cachedAppliedSampleSeq := x11\<rparr>) = sampling_ok p"
  "sampling_ok (p\<lparr>windowSampleDue := x12\<rparr>) = sampling_ok p"
  "sampling_ok (p\<lparr>shardReclaimEpoch := x15\<rparr>) = sampling_ok p"
  "sampling_ok (p\<lparr>shardExtReclaimEpoch := x16\<rparr>) = sampling_ok p"
  by (simp_all add: sampling_ok_def)

lemma sampling_ok_coord:
  "sampling_ok (p\<lparr>coord := c\<rparr>) \<longleftrightarrow>
     thresholds_ok (options p) \<and> coord_ok c \<and> valid_pressure (cachedAppliedPressure p)"
  by (simp add: sampling_ok_def)

lemma sampled_refl [simp]: "sampled p p"
  by (simp add: sampled_def)

lemma sampled_trans: "sampled p q \<Longrightarrow> sampled q r \<Longrightarrow> sampled p r"
  by (simp add: sampled_def)

lemma sampled_options: "sampled p q \<Longrightarrow> options q = options p"
  by (simp add: sampled_def books_def)

lemma sampled_coordI:
  "(thresholds_ok (options p) \<Longrightarrow> coord_ok (coord p) \<Longrightarrow> coord_ok c) \<Longrightarrow> sampled p (p\<lparr>coord := c\<rparr>)"
  by (simp add: sampled_def sampling_ok_def)

lemma resetZeroWatermark_keeps [simp]:
  "books (resetZeroWatermarkBelowTier2 x p) = books p"
  "sampling_ok (resetZeroWatermarkBelowTier2 x p) = sampling_ok p"
  by (simp_all add: resetZeroWatermarkBelowTier2_def resetZeroWatermarkBelowTier2Slow_def)

lemma syncZeroWatermark_keeps [simp]:
  "books (syncZeroWatermarkLocked a b n x p) = books p"
  "sampling_ok (syncZeroWatermarkLocked a b n x p) = sampling_ok p"
  by (simp_all add: syncZeroWatermarkLocked_def Let_def)

subsection \<open>Every pressure that is stored or returned is finite and not negative\<close>

lemma beginCachedPublish_keeps [simp]:
  "coord_ok (fst (beginCachedPublishLocked c)) = coord_ok c"
  by (simp add: beginCachedPublishLocked_def Let_def coord_ok_def)

lemma publishCached_ok:
  "coord_ok c \<Longrightarrow> valid_pressure v \<Longrightarrow> coord_ok (publishCachedPressureLocked q e a b n v r c)"
  by (auto simp: publishCachedPressureLocked_def beginCachedPublishLocked_def Let_def coord_ok_def)

lemma syncCachedRecovery_ok [simp]:
  "coord_ok (syncCachedRecoveryEpochsLocked opts a b c) = coord_ok c"
  by (simp add: syncCachedRecoveryEpochsLocked_def invalidateCachedPressureLocked_def
      republishCachedRecoveryEpochsLocked_def beginCachedPublishLocked_def Let_def coord_ok_def)

lemma advanceRecovery_ok [simp]:
  "coord_ok (fst (advanceRecoveryEpochsForValLocked opts v a b c)) = coord_ok c"
  by (simp add: advanceRecoveryEpochsForValLocked_def Let_def coord_ok_def)

lemma recordAcceptedFallback_ok:
  "coord_ok c \<Longrightarrow> valid_pressure v \<Longrightarrow> coord_ok (fst (recordAcceptedFallbackSample opts e n a b v c))"
  using advanceRecovery_ok [of opts v a b "c\<lparr>lastSampledSeq := n, lastSampledEpoch := e, lastSampledPressure := v\<rparr>"]
  by (auto simp: recordAcceptedFallbackSample_def Let_def case_prod_unfold)
    (simp add: coord_ok_def)

lemma sanitizePressure_valid: "thresholds_ok opts \<Longrightarrow> valid_pressure (sanitizePressureValue opts v)"
  by (cases v) (auto simp: thresholds_ok_def sanitizePressureValue_def fmax_def valid_pressure_def)

lemma readValidCached_ok:
  "coord_ok c \<Longrightarrow> readValidCachedSampleWithPubSeq c e = Some (v, r) \<Longrightarrow> valid_pressure v"
  by (auto simp: readValidCachedSampleWithPubSeq_def Let_def coord_ok_def split: if_splits)

lemma decideSampleStore_ok:
  assumes "coord_ok c" "valid_pressure v"
    and "decideSampleStoreLocked o1 e u n v b c = (c', n', v', w, m)"
  shows "coord_ok c' \<and> valid_pressure v'"
  using assms
  by (auto simp: decideSampleStoreLocked_def decideOlderInvokeSeqLocked_def Let_def coord_ok_def split: if_splits)

lemma recordLastSampled_ok:
  "coord_ok c \<Longrightarrow> valid_pressure v \<Longrightarrow> coord_ok (fst (recordLastSampledTelemetryLocked o1 e n v w s c))"
  by (simp add: recordLastSampledTelemetryLocked_def Let_def coord_ok_def)

lemma storeSampledPressure_ok:
  assumes st: "storeSampledPressureWithSeq env se sx e x a b n v p = (p', e', se', a', b', n', v')"
    and ok: "sampling_ok p" "valid_pressure v"
  shows "sampled p p' \<and> valid_pressure v'"
proof -
  define es where "es = isPreSampleElevatedCausallyStaleLocked (options p) (coord p) v a b"
  obtain e1 se1 al where r: "resolveSampleEpochsLocked env p se sx e x v = (e1, se1, al)"
    by (metis prod_cases3)
  obtain c1 n1 v1 w m where d:
    "decideSampleStoreLocked e e1 (reclaimEpoch (coord p)) n v al (coord p) = (c1, n1, v1, w, m)"
    by (metis prod_cases5)
  have c1: "coord_ok c1" and v1: "valid_pressure v1"
    using decideSampleStore_ok [OF _ ok(2) d] ok(1) by (auto simp: sampling_ok_def)
  obtain c2 q where cq: "(if w then beginCachedPublishLocked c1 else (c1, 0)) = (c2, q)"
    by (metis surj_pair)
  have c2: "coord_ok c2" using c1 cq by (metis beginCachedPublish_keeps fst_conv)
  obtain cr rec where rr: "recordLastSampledTelemetryLocked e e1 n1 v1 w es c2 = (cr, rec)"
    by (metis surj_pair)
  have cr: "coord_ok cr" using recordLastSampled_ok [OF c2 v1, of e e1 n1 w es] rr by simp
  obtain c3 b1 b2 where c3b: "(case m of
       sampleStoreNormal \<Rightarrow> if rec then advanceRecoveryEpochsForValLocked (options p) v1 a b cr else (cr, a, b)
     | sampleStoreAdoptedCached \<Rightarrow> (c2, cachedBelowTier1Epoch c2, cachedBelowTier2Epoch c2)
     | sampleStoreAdoptedLast \<Rightarrow> (c2, belowTier1Epoch c2, belowTier2Epoch c2)) = (c3, b1, b2)"
    by (metis prod_cases3)
  have c3: "coord_ok c3"
    using c3b c2 cr
    by (cases m; cases rec) (auto, metis advanceRecovery_ok fst_conv)
  have "p' = p\<lparr>coord := (if w then publishCachedPressureLocked q e1 b1 b2 n1 v1 es c3 else c3)\<rparr> \<and> v' = v1"
    using st unfolding storeSampledPressureWithSeq_def
    by (simp only: Let_def prod.case r d cq rr c3b es_def [symmetric]) blast
  then show ?thesis
    using c3 v1 publishCached_ok [OF c3 v1] ok by (auto intro!: sampled_coordI)
qed

lemma invokeAndStorePressure_ok:
  assumes "invokeAndStorePressure env p = (p', s)" "sampling_ok p"
  shows "sampled p p' \<and> valid_pressure (s_val s)"
proof -
  let ?n = "pressureInvokeSeq (coord p) + 1"
  let ?p = "p\<lparr>coord := (coord p)\<lparr>pressureInvokeSeq := ?n\<rparr>\<rparr>"
  let ?v = "sanitizePressureValue (options p) (probe env ?n)"
  obtain e1 se1 a1 b1 n1 v1 where st: "storeSampledPressureWithSeq env (ownReclaimEpoch p)
      (ownExternalReclaimEpoch p) (reclaimEpoch (coord p)) (externalReclaimEpoch (coord p))
      (belowTier1Epoch (coord p)) (belowTier2Epoch (coord p)) ?n ?v ?p = (p', e1, se1, a1, b1, n1, v1)"
    and v1: "s_val s = v1"
    using assms(1) by (auto simp: invokeAndStorePressure_def Let_def split: prod.splits)
  have "sampling_ok ?p" using assms(2) by (simp add: sampling_ok_def coord_ok_def)
  moreover have "valid_pressure ?v"
    using assms(2) by (simp add: sampling_ok_def sanitizePressure_valid)
  ultimately have "sampled ?p p' \<and> valid_pressure v1" by (rule storeSampledPressure_ok [OF st])
  moreover have "sampled p ?p" by (rule sampled_coordI) (simp add: coord_ok_def)
  ultimately show ?thesis using v1 sampled_trans by blast
qed

lemma samplePressureFresh_ok:
  assumes "samplePressureFreshOnCoord env p = (p', s)" "sampling_ok p"
  shows "sampled p p' \<and> valid_pressure (s_val s)"
  using assms invokeAndStorePressure_ok [of env p p' s]
  by (auto simp: samplePressureFreshOnCoord_def reentrantFallbackPressureSample_def split: if_splits)

lemma tryFastForward_val [simp]: "s_val (tryFastForwardSampledEpochLocked p s) = s_val s"
  by (simp add: tryFastForwardSampledEpochLocked_def Let_def)

lemma resolveLockLoopStep_val:
  assumes "resolveLockLoopStepLocked p s same cross = (s', r)" "sampling_ok p" "valid_pressure (s_val s)"
  shows "valid_pressure (s_val s')"
proof -
  define s1 where "s1 = (if s_epoch s \<noteq> reclaimEpoch (coord p) then tryFastForwardSampledEpochLocked p s else s)"
  have "valid_pressure (s_val s1)" using assms(3) by (simp add: s1_def)
  moreover have "valid_pressure v" if "adoptNewerCachedSampleLocked p n = Some (v, t)" for n v t
    using that assms(2) readValidCached_ok
    by (auto simp: adoptNewerCachedSampleLocked_def sampling_ok_def split: option.splits if_splits)
  ultimately show ?thesis
    using assms(1) unfolding resolveLockLoopStepLocked_def s1_def [symmetric] Let_def
    by (auto split: if_splits option.splits prod.splits)
qed

lemma lockRetryLoop_ok:
  assumes "lockRetryLoop env p s same cross = (p', s')" "sampling_ok p" "valid_pressure (s_val s)"
  shows "sampled p p' \<and> valid_pressure (s_val s')"
  using assms
proof (induction env p s same cross rule: lockRetryLoop.induct)
  case (1 env p s same cross)
  obtain s1 retry same1 cross1 where st: "resolveLockLoopStepLocked p s same cross = (s1, retry, same1, cross1)"
    by (metis prod_cases4)
  have v1: "valid_pressure (s_val s1)" using resolveLockLoopStep_val [OF st] 1 by simp
  obtain p2 s2 where f: "samplePressureFreshOnCoord env p = (p2, s2)" by (metis surj_pair)
  have p2: "sampled p p2" "valid_pressure (s_val s2)" "sampling_ok p2"
    using samplePressureFresh_ok [OF f] 1 by (auto simp: sampled_def)
  show ?case
  proof (cases retry)
    case True
    then have "lockRetryLoop env p2 s2 same1 cross1 = (p', s')"
      using "1.prems"(1) st f by (simp add: lockRetryLoop.simps [of env p])
    then have "sampled p2 p' \<and> valid_pressure (s_val s')"
      using "1.IH" [OF st [symmetric] refl refl _ f [symmetric]] True p2 by simp
    then show ?thesis using p2 sampled_trans by blast
  next
    case False
    then show ?thesis using "1.prems"(1) st v1 by (simp add: lockRetryLoop.simps [of env p])
  qed
qed

lemma resolvePostRetry_ok:
  assumes "resolvePostRetryPressureLocked s p = (p', e, v)" "sampling_ok p" "valid_pressure (s_val s)"
  shows "sampled p p' \<and> valid_pressure v"
proof -
  have "valid_pressure w" if "canAdoptPostRetryCachedSampleLocked p a b n = Some (w, t)" for a b n w t
    using that assms(2) readValidCached_ok
    by (auto simp: canAdoptPostRetryCachedSampleLocked_def sampling_ok_def split: option.splits if_splits)
  moreover have "coord_ok (fst (recordAcceptedFallbackSample (options p) a b c d (s_val s) (coord p)))" for a b c d
    using assms by (intro recordAcceptedFallback_ok) (auto simp: sampling_ok_def)
  ultimately show ?thesis
    using assms unfolding resolvePostRetryPressureLocked_def Let_def
    by (auto simp: sampled_def sampling_ok_coord case_prod_unfold sampling_ok_def [of p]
        split: if_splits option.splits)
qed

lemma lockWithPressureSlow_ok:
  assumes "lockWithPressureSlow env p = (p', e, v)" "sampling_ok p"
  shows "sampled p p' \<and> valid_pressure v"
proof -
  obtain p1 s where f: "samplePressureFreshOnCoord env p = (p1, s)" by (metis surj_pair)
  have p1: "sampled p p1" "valid_pressure (s_val s)" "sampling_ok p1"
    using samplePressureFresh_ok [OF f] assms(2) by (auto simp: sampled_def)
  obtain p2 s2 where l: "lockRetryLoop env p1 s 0 0 = (p2, s2)" by (metis surj_pair)
  have p2: "sampled p p2" "valid_pressure (s_val s2)" "sampling_ok p2"
    using lockRetryLoop_ok [OF l] p1 by (auto simp: sampled_def)
  show ?thesis
    using assms(1) p1 p2 resolvePostRetry_ok [of s2 p2 p' e v]
    unfolding lockWithPressureSlow_def f l prod.case Let_def
    by (auto simp: sampled_def split: if_splits)
qed

lemma adoptCoordCached_ok:
  assumes "adoptCoordCachedSampleLocked p = Some (p', e, v)" "sampling_ok p"
  shows "sampled p p' \<and> valid_pressure v"
proof -
  have "valid_pressure w" if "readValidCachedSampleWithPubSeq (coord p) n = Some (w, t)" for n w t
    using that assms(2) readValidCached_ok [of "coord p" n w t] by (simp add: sampling_ok_def)
  moreover have "books (recordAppliedLowPressureSampleLocked a n w q) = books q"
    "sampling_ok q \<Longrightarrow> valid_pressure w \<Longrightarrow> sampling_ok (recordAppliedLowPressureSampleLocked a n w q)"
    for a n w and q :: "('a, 'b) pressureState_scheme"
    by (simp_all add: recordAppliedLowPressureSampleLocked_def) (simp add: sampling_ok_def)
  ultimately show ?thesis
    using assms unfolding adoptCoordCachedSampleLocked_def Let_def
    by (auto simp: sampled_def split: if_splits option.splits)
qed

lemma tryCacheFresh_keeps:
  "books (tryCacheFreshSamplePubSeqLocked n e v p) = books p"
  "sampling_ok p \<Longrightarrow> valid_pressure v \<Longrightarrow> sampling_ok (tryCacheFreshSamplePubSeqLocked n e v p)"
  by (simp_all add: tryCacheFreshSamplePubSeqLocked_def Let_def) (simp add: sampling_ok_def)

lemma advanceLocalWriteSeq_keeps [simp]:
  "books (advanceLocalWriteSeqLocked p) = books p"
  "sampling_ok (advanceLocalWriteSeqLocked p) = sampling_ok p"
  "cachedAppliedPressure (advanceLocalWriteSeqLocked p) = cachedAppliedPressure p"
  by (simp_all add: advanceLocalWriteSeqLocked_def Let_def)

lemma lockWithPressureFastMiss_ok:
  assumes "lockWithPressureFastMiss env p = (p', e, v)" "sampling_ok p"
  shows "sampled p p' \<and> valid_pressure v"
proof -
  obtain p1 s where f: "samplePressureFreshOnCoord env (p\<lparr>windowSampleDue := False\<rparr>) = (p1, s)"
    by (metis surj_pair)
  have p1: "books p1 = books p" "valid_pressure (s_val s)" "sampling_ok p1"
    using samplePressureFresh_ok [OF f] assms(2) by (auto simp: sampled_def)
  define q where "q = advanceLocalWriteSeqLocked (p1\<lparr>windowSampleDue := False\<rparr>)"
  have q: "books q = books p" "sampling_ok q" using p1 by (simp_all add: q_def)
  show ?thesis
    using assms(1) p1 q adoptCoordCached_ok [of q p' e v]
      lockWithPressureSlow_ok [of env "q\<lparr>cachedAppliedPubSeq := 0\<rparr>" p' e v]
    unfolding lockWithPressureFastMiss_def f prod.case q_def [symmetric] Let_def
    by (auto simp: sampled_def tryCacheFresh_keeps split: if_splits option.splits)
qed

lemma lockWithPressure_ok:
  assumes "lockWithPressure env fresh p = (p', e, v)" "sampling_ok p"
  shows "sampled p p' \<and> valid_pressure v"
proof -
  have reset: "cachedAppliedPressure (resetZeroWatermarkBelowTier2 x q) = cachedAppliedPressure q"
    for x and q :: "('a, 'b) pressureState_scheme"
    by (simp add: resetZeroWatermarkBelowTier2_def resetZeroWatermarkBelowTier2Slow_def)
  have va: "valid_pressure (cachedAppliedPressure p)" using assms(2) by (simp add: sampling_ok_def)
  have ad: "sampled p q \<and> valid_pressure w" if "adoptCoordCachedSampleLocked p = Some (q, x, w)" for q x w
    using adoptCoordCached_ok that assms(2) by blast
  show ?thesis
    using assms va reset ad lockWithPressureFastMiss_ok [of env p p' e v]
      lockWithPressureFastMiss_ok [of env "p\<lparr>windowSampleDue := False\<rparr>" p' e v]
      lockWithPressureSlow_ok [of env p p' e v]
    unfolding lockWithPressure_def Let_def
    by (auto simp: sampled_def split: if_splits option.splits prod.splits)
qed

lemma tryApplyShardSample_ok:
  assumes "tryApplyShardSampleLocked fresh h p = Some (p', h')" "sampling_ok p" "valid_pressure (h_pressure h)"
  shows "sampled p p' \<and> valid_pressure (h_pressure h')"
proof -
  have "valid_pressure w" if "readValidCachedSampleWithPubSeq (coord p) n = Some (w, t)" for n w t
    using that assms(2) readValidCached_ok [of "coord p" n w t] by (simp add: sampling_ok_def)
  then show ?thesis
    using assms unfolding tryApplyShardSampleLocked_def adoptCachedShardSampleLocked_def Let_def
    by (auto simp: sampled_def split: if_splits option.splits)
qed

lemma lockShardWithSample_ok:
  assumes "lockShardWithSample env fresh h p = (p', e, h')" "sampling_ok p" "valid_pressure (h_pressure h)"
  shows "sampled p p' \<and> valid_pressure (h_pressure h')"
proof (cases "tryApplyShardSampleLocked fresh h p")
  case None
  obtain p1 e1 v1 where l: "lockWithPressure env fresh p = (p1, e1, v1)" by (metis prod_cases3)
  show ?thesis
    using assms None lockWithPressure_ok [OF l] by (auto simp: lockShardWithSample_def l Let_def)
next
  case (Some r)
  then show ?thesis
    using assms tryApplyShardSample_ok [of fresh h p p' h'] by (cases r) (auto simp: lockShardWithSample_def)
qed

subsection \<open>A fresh reading is the one that is used\<close>

definition seq_ok :: "('v, 'm) pressureState_scheme \<Rightarrow> bool" where
  "seq_ok p = (lastSampledSeq (coord p) \<le> pressureInvokeSeq (coord p)
     \<and> cachedPressureSeq (coord p) \<le> pressureInvokeSeq (coord p)
     \<and> sampledPressureSeq p \<le> pressureInvokeSeq (coord p))"

lemma le_less_succ: "(x :: u64) \<le> y \<Longrightarrow> y \<noteq> - 1 \<Longrightarrow> x < y + 1"
proof -
  assume "x \<le> y" "y \<noteq> - 1"
  then have "1 + y \<noteq> 0" by (metis add_eq_0_iff)
  then have "unat (y + 1) = Suc (unat y)" by (metis unatSuc add.commute)
  with \<open>x \<le> y\<close> show "x < y + 1" by (simp add: word_less_nat_alt word_le_nat_alt)
qed

definition publishedCoord :: "'v Options \<Rightarrow> u64 \<Rightarrow> float64 \<Rightarrow> coordState \<Rightarrow> coordState" where
  \<comment> \<open>the coordinator once reading number \<open>n\<close> with value \<open>v\<close> has been published\<close>
  "publishedCoord opts n v c = (let
     tier1 = belowTier1Epoch c + (if flt v (CompactionThreshold opts) then 1 else 0);
     tier2 = belowTier2Epoch c + (if flt v (EvictionThreshold opts) then 1 else 0)
     in c\<lparr>pressureInvokeSeq := n, lastSampledSeq := n, lastSampledEpoch := reclaimEpoch c, lastSampledPressure := v,
          belowTier1Epoch := tier1, belowTier2Epoch := tier2,
          cachedPressureEpoch := reclaimEpoch c, cachedBelowTier1Epoch := tier1, cachedBelowTier2Epoch := tier2,
          cachedPressureSeq := n, cachedPressure := v, pressureInitialized := True, pressureNeedsRefresh := False,
          cachedPublishSeq := cachedPublishSeq c + (if even (cachedPublishSeq c) then 2 else 1)\<rparr>)"

lemma publishedCoord_simps [simp]:
  "lastSampledSeq (publishedCoord opts n v c) = n" "cachedPressureSeq (publishedCoord opts n v c) = n"
  "pressureInvokeSeq (publishedCoord opts n v c) = n" "reclaimEpoch (publishedCoord opts n v c) = reclaimEpoch c"
  "samplerActive (publishedCoord opts n v c) = samplerActive c" "inSampler (publishedCoord opts n v c) = inSampler c"
  by (simp_all add: publishedCoord_def Let_def)

lemma advanceRecovery_tiers:
  "advanceRecoveryEpochsForValLocked opts v (belowTier1Epoch c) (belowTier2Epoch c) c = (let
     tier1 = belowTier1Epoch c + (if flt v (CompactionThreshold opts) then 1 else 0);
     tier2 = belowTier2Epoch c + (if flt v (EvictionThreshold opts) then 1 else 0)
     in (c\<lparr>belowTier1Epoch := tier1, belowTier2Epoch := tier2\<rparr>, tier1, tier2))"
  by (simp add: advanceRecoveryEpochsForValLocked_def Let_def)

lemma beginCachedPublish_eq:
  "beginCachedPublishLocked c = (c\<lparr>cachedPublishSeq := cachedPublishSeq c + (if even (cachedPublishSeq c) then 1 else 0)\<rparr>,
     cachedPublishSeq c + (if even (cachedPublishSeq c) then 1 else 0))"
  by (simp add: beginCachedPublishLocked_def Let_def)

lemma invokeAndStorePressure_fresh:
  fixes p :: "('v, 'm) pressureState_scheme"
  assumes seq: "seq_ok p" "pressureInvokeSeq (coord p) \<noteq> - 1"
    and inv: "invokeAndStorePressure env p = (p', s)"
  defines "n \<equiv> pressureInvokeSeq (coord p) + 1"
  defines "v \<equiv> sanitizePressureValue (options p) (probe env n)"
  defines "c \<equiv> publishedCoord (options p) n v (coord p)"
  shows "p' = p\<lparr>coord := c\<rparr> \<and> s_valid s \<and> s_val s = v \<and> s_invokeSeq s = n \<and> s_epoch s = reclaimEpoch c
    \<and> s_belowTier1 s = belowTier1Epoch c \<and> s_belowTier2 s = belowTier2Epoch c"
proof -
  let ?c = "(coord p)\<lparr>pressureInvokeSeq := n\<rparr>"
  let ?q = "p\<lparr>coord := ?c\<rparr>"
  have lt: "lastSampledSeq (coord p) < n" "cachedPressureSeq (coord p) < n"
    using seq le_less_succ by (auto simp: seq_ok_def n_def)
  have es: "\<not> isPreSampleElevatedCausallyStaleLocked (options p) ?c v
      (belowTier1Epoch (coord p)) (belowTier2Epoch (coord p))"
    by (simp add: isPreSampleElevatedCausallyStaleLocked_def)
  have "\<exists>se. resolveSampleEpochsLocked env ?q (ownReclaimEpoch p) (ownExternalReclaimEpoch p)
      (reclaimEpoch (coord p)) (externalReclaimEpoch (coord p)) v = (reclaimEpoch (coord p), se, True)"
    by (simp add: resolveSampleEpochsLocked_def Let_def)
  then obtain se where r: "resolveSampleEpochsLocked env ?q (ownReclaimEpoch p) (ownExternalReclaimEpoch p)
      (reclaimEpoch (coord p)) (externalReclaimEpoch (coord p)) v = (reclaimEpoch (coord p), se, True)" ..
  have d: "decideSampleStoreLocked e (reclaimEpoch (coord p)) e' n v True ?c = (?c, n, v, True, sampleStoreNormal)" for e e'
    using lt by (auto simp: decideSampleStoreLocked_def Let_def)
  define q where "q = cachedPublishSeq (coord p) + (if even (cachedPublishSeq (coord p)) then 1 else 0)"
  have cq: "beginCachedPublishLocked ?c = (?c\<lparr>cachedPublishSeq := q\<rparr>, q)" and odd: "odd q"
    by (simp_all add: beginCachedPublish_eq q_def)
  define cr where "cr = ?c\<lparr>cachedPublishSeq := q, lastSampledSeq := n, lastSampledEpoch := reclaimEpoch (coord p), lastSampledPressure := v\<rparr>"
  have rr: "recordLastSampledTelemetryLocked e (reclaimEpoch (coord p)) n v True False (?c\<lparr>cachedPublishSeq := q\<rparr>) = (cr, True)" for e
    using lt by (auto simp: recordLastSampledTelemetryLocked_def Let_def cr_def less_imp_le)
  define c3 where "c3 = cr\<lparr>belowTier1Epoch := belowTier1Epoch c, belowTier2Epoch := belowTier2Epoch c\<rparr>"
  have "belowTier1Epoch cr = belowTier1Epoch (coord p)" "belowTier2Epoch cr = belowTier2Epoch (coord p)" by (simp_all add: cr_def)
  then have adv: "advanceRecoveryEpochsForValLocked (options p) v (belowTier1Epoch (coord p)) (belowTier2Epoch (coord p)) cr
      = (c3, belowTier1Epoch c, belowTier2Epoch c)"
    using advanceRecovery_tiers [of "options p" v cr] by (simp add: c3_def c_def publishedCoord_def Let_def)
  have pub: "publishCachedPressureLocked q (reclaimEpoch (coord p)) (belowTier1Epoch c) (belowTier2Epoch c) n v False c3 = c"
    using odd by (simp add: publishCachedPressureLocked_def c3_def cr_def c_def publishedCoord_def Let_def q_def)
  have "storeSampledPressureWithSeq env (ownReclaimEpoch p) (ownExternalReclaimEpoch p)
      (reclaimEpoch (coord p)) (externalReclaimEpoch (coord p)) (belowTier1Epoch (coord p))
      (belowTier2Epoch (coord p)) n v ?q
    = (p\<lparr>coord := c\<rparr>, reclaimEpoch (coord p), se, belowTier1Epoch c, belowTier2Epoch c, n, v)"
    unfolding storeSampledPressureWithSeq_def Let_def r by (simp add: es d cq rr adv pub)
  then show ?thesis
    using inv unfolding invokeAndStorePressure_def Let_def n_def [symmetric] v_def by (auto simp: c_def)
qed

lemma syncZeroWatermark_fresh:
  assumes "hasValidSample p" "\<not> isSamplingGoroutine p" "sampledPressureSeq p \<le> n"
  shows "hasValidSample (syncZeroWatermarkLocked a b n x p)
    \<and> sampledPressureSeq (syncZeroWatermarkLocked a b n x p) = n
    \<and> coord (syncZeroWatermarkLocked a b n x p) = coord p
    \<and> lastReclaimedZeroCount (syncZeroWatermarkLocked a b n x p) \<in> {0, lastReclaimedZeroCount p}
    \<and> lastReclaimedLen (syncZeroWatermarkLocked a b n x p) \<in> {0, lastReclaimedLen p}"
  using assms
  by (auto simp: syncZeroWatermarkLocked_def Let_def isSamplingGoroutine_def not_less
      resetZeroWatermarkBelowTier2_def resetZeroWatermarkBelowTier2Slow_def)

lemma lockWithPressureSlow_fresh:
  fixes env :: samplingEnv and p :: "('v, 'm) pressureState_scheme"
  assumes seq: "seq_ok p" "pressureInvokeSeq (coord p) \<noteq> - 1"
    and probe: "PressureFunc (options p) \<noteq> None" "\<not> isSamplingGoroutine p"
  defines "n \<equiv> pressureInvokeSeq (coord p) + 1"
  defines "v \<equiv> sanitizePressureValue (options p) (probe env n)"
  shows "\<exists>p'. lockWithPressureSlow env p = (p', ownReclaimEpoch p', v)
    \<and> hasValidSample p' \<and> sampledPressureSeq p' = n \<and> coord p' = publishedCoord (options p) n v (coord p) \<and> seq_ok p'
    \<and> lastReclaimedZeroCount p' \<in> {0, lastReclaimedZeroCount p} \<and> lastReclaimedLen p' \<in> {0, lastReclaimedLen p}"
proof -
  define c where "c = publishedCoord (options p) n v (coord p)"
  obtain p1 s where f: "invokeAndStorePressure env p = (p1, s)" by (metis surj_pair)
  have c: "p1 = p\<lparr>coord := c\<rparr>" "s_valid s" "s_val s = v" "s_invokeSeq s = n" "s_epoch s = reclaimEpoch c"
    "s_belowTier1 s = belowTier1Epoch c" "s_belowTier2 s = belowTier2Epoch c"
    using invokeAndStorePressure_fresh [OF seq f] unfolding n_def v_def c_def by blast+
  have fr: "samplePressureFreshOnCoord env p = (p1, s)"
    using f probe by (auto simp: samplePressureFreshOnCoord_def)
  have lt: "sampledPressureSeq p < n"
    using seq le_less_succ by (auto simp: seq_ok_def n_def)
  have cs: "lastSampledSeq c = n" "cachedPressureSeq c = n" "pressureInvokeSeq c = n"
    "samplerActive c = samplerActive (coord p)" "inSampler c = inSampler (coord p)" by (simp_all add: c_def)
  have "\<not> isElevatedSampleStaleLocked p1 (s_val s) (s_belowTier1 s) (s_belowTier2 s) (s_invokeSeq s)"
    using c cs lt by (auto simp: isElevatedSampleStaleLocked_def isSampleCausallyStaleLocked_def isSampleRecoveryStale_def)
  then have "lockWithPressureSlow env p = (let p2 = syncZeroWatermarkLocked (s_belowTier1 s) (s_belowTier2 s) n v
      (p1\<lparr>hasValidSample := True, sampledCoordEpoch := s_epoch s\<rparr>) in (p2, ownReclaimEpoch p2, v))"
    using fr c unfolding lockWithPressureSlow_def fr by simp
  moreover have "\<not> isSamplingGoroutine (p1\<lparr>hasValidSample := True, sampledCoordEpoch := s_epoch s\<rparr>)"
    using probe(2) c cs by (simp add: isSamplingGoroutine_def)
  ultimately show ?thesis
    unfolding c_def [symmetric]
    using syncZeroWatermark_fresh [of "p1\<lparr>hasValidSample := True, sampledCoordEpoch := s_epoch s\<rparr>" n] c cs lt
    by (auto simp: Let_def seq_ok_def less_imp_le)
qed

lemma publishedCoord_published:
  "pressureInitialized (publishedCoord opts n v c)" "\<not> pressureNeedsRefresh (publishedCoord opts n v c)"
  "cachedPressure (publishedCoord opts n v c) = v" "lastSampledPressure (publishedCoord opts n v c) = v"
  by (simp_all add: publishedCoord_def Let_def)

lemma publishedCoord_read:
  assumes "cachedPublishSeq c \<noteq> - 1" "cachedPublishSeq c \<noteq> - 2"
  shows "readValidCachedSampleWithPubSeq (publishedCoord opts n v c) (reclaimEpoch c)
    = Some (v, belowTier1Epoch (publishedCoord opts n v c), belowTier2Epoch (publishedCoord opts n v c), n,
        cachedPublishSeq (publishedCoord opts n v c))"
proof -
  have "cachedPublishSeq c + 1 \<noteq> 0" "cachedPublishSeq c + 2 \<noteq> 0"
    using assms by (auto simp: add_eq_0_iff2)
  then show ?thesis
    by (simp add: readValidCachedSampleWithPubSeq_def isCachedSampleStillValid_def publishedCoord_def Let_def)
qed

end
