(* ===== verification/EvictQueue.thy ===== *)
theory EvictQueue
  imports Options
begin

text \<open>
  The queue of eviction events (\<^verbatim>\<open>pressure.go\<close>, \<open>evictCallbackQueue\<close>): a mutation buffers
  its events, the first two inline and the rest in a slice, and the user's callbacks run after the
  cache's lock is released. A delivery is modelled by the calls it makes, in order; for each event the
  value callback runs before the entry callback.
\<close>

record 'v evictEvent =
  ev_key :: string
  ev_value :: 'v
  ev_reason :: EvictionReason

record 'v evictCallbackQueue =
  q_buf :: "'v evictEvent list"        \<comment> \<open>an array of two events\<close>
  q_overflow :: "'v evictEvent list"
  q_n :: int
  q_exactSnap :: bool

datatype 'v callback = CallValue 'v EvictionReason | CallEntry string 'v EvictionReason

definition zeroEvent :: "('v :: zero) evictEvent" where
  "zeroEvent = \<lparr>ev_key = '''', ev_value = 0, ev_reason = EvictionReasonCapacity\<rparr>"

definition newEvictQueue :: "bool \<Rightarrow> ('v :: zero) evictCallbackQueue" where
  "newEvictQueue exactSnap = \<lparr>q_buf = [zeroEvent, zeroEvent], q_overflow = [], q_n = 0, q_exactSnap = exactSnap\<rparr>"

definition enqueue ::
  "string \<Rightarrow> 'v \<Rightarrow> EvictionReason \<Rightarrow> 'v evictCallbackQueue \<Rightarrow> 'v evictCallbackQueue" where
  "enqueue key value reason q = (let ev = \<lparr>ev_key = key, ev_value = value, ev_reason = reason\<rparr> in
     if q_n q < int (length (q_buf q))
     then q\<lparr>q_buf := (q_buf q)[nat (q_n q) := ev], q_n := q_n q + 1\<rparr>
     else q\<lparr>q_overflow := q_overflow q @ [ev], q_n := q_n q + 1\<rparr>)"

definition evictQueue_reset :: "('v :: zero) evictCallbackQueue \<Rightarrow> 'v evictCallbackQueue" where
  "evictQueue_reset q =
    (if 0 < q_n q then q\<lparr>q_buf := [zeroEvent, zeroEvent], q_overflow := [], q_n := 0\<rparr> else q)"

definition takeEvents :: "('v :: zero) evictCallbackQueue \<Rightarrow> 'v evictCallbackQueue \<times> 'v evictEvent list" where
  "takeEvents q = (let inlineCount = nat (min (q_n q) (int (length (q_buf q)))) in
     (evictQueue_reset q, take inlineCount (q_buf q) @ q_overflow q))"

definition callbacksFor :: "unit option \<Rightarrow> unit option \<Rightarrow> 'v evictEvent \<Rightarrow> 'v callback list" where
  "callbacksFor onVal onEntry ev =
     (if onVal \<noteq> None then [CallValue (ev_value ev) (ev_reason ev)] else [])
     @ (if onEntry \<noteq> None then [CallEntry (ev_key ev) (ev_value ev) (ev_reason ev)] else [])"

definition deliverMultiCallbacks ::
  "unit option \<Rightarrow> unit option \<Rightarrow> ('v :: zero) evictCallbackQueue \<Rightarrow> 'v evictCallbackQueue \<times> 'v callback list" where
  "deliverMultiCallbacks onVal onEntry q = (let inlineCount = nat (min (q_n q) (int (length (q_buf q)))) in
     (evictQueue_reset (q\<lparr>q_buf := replicate inlineCount zeroEvent @ drop inlineCount (q_buf q),
                          q_overflow := [], q_n := 0\<rparr>),
      concat (map (callbacksFor onVal onEntry) (take inlineCount (q_buf q)))
      @ concat (map (callbacksFor onVal onEntry) (q_overflow q))))"

definition deliverCallbacks ::
  "unit option \<Rightarrow> unit option \<Rightarrow> ('v :: zero) evictCallbackQueue \<Rightarrow> 'v evictCallbackQueue \<times> 'v callback list" where
  "deliverCallbacks onVal onEntry q =
    (if q_n q = 1
     then (q\<lparr>q_buf := (q_buf q)[0 := zeroEvent], q_n := 0\<rparr>, callbacksFor onVal onEntry (q_buf q ! 0))
     else deliverMultiCallbacks onVal onEntry q)"

definition evictQueue_invoke ::
  "unit option \<Rightarrow> unit option \<Rightarrow> ('v :: zero) evictCallbackQueue \<Rightarrow> 'v callback list" where
  \<comment> \<open>uncontended: the holder of the callback mutex delivers its own queue\<close>
  "evictQueue_invoke onVal onEntry q = (if q_n q \<noteq> 0 then snd (deliverCallbacks onVal onEntry q) else [])"

subsection \<open>The queue is a list of events\<close>

definition queue_wf :: "'v evictCallbackQueue \<Rightarrow> bool" where
  "queue_wf q = (length (q_buf q) = 2 \<and> 0 \<le> q_n q
     \<and> (if q_n q \<le> 2 then q_overflow q = [] else q_n q = 2 + int (length (q_overflow q))))"

definition queue_events :: "'v evictCallbackQueue \<Rightarrow> (string \<times> 'v \<times> EvictionReason) list" where
  "queue_events q = map (\<lambda>ev. (ev_key ev, ev_value ev, ev_reason ev)) (take (nat (q_n q)) (q_buf q) @ q_overflow q)"

definition deliveries ::
  "unit option \<Rightarrow> unit option \<Rightarrow> (string \<times> 'v \<times> EvictionReason) list \<Rightarrow> 'v callback list" where
  "deliveries onVal onEntry evs = concat (map (\<lambda>(k, v, r).
     (if onVal \<noteq> None then [CallValue v r] else []) @ (if onEntry \<noteq> None then [CallEntry k v r] else [])) evs)"

text \<open>
  What a mutation relies on: events come out in the order they went in, and a delivery makes
  exactly the calls of the events that are in the queue.
\<close>

locale event_queue =
  fixes wf :: "'q \<Rightarrow> bool"
    and events :: "'q \<Rightarrow> (string \<times> 'v \<times> EvictionReason) list"
    and empty :: 'q
    and enq :: "string \<Rightarrow> 'v \<Rightarrow> EvictionReason \<Rightarrow> 'q \<Rightarrow> 'q"
    and deliver :: "unit option \<Rightarrow> unit option \<Rightarrow> 'q \<Rightarrow> 'v callback list"
  assumes wf_empty: "wf empty"
    and events_empty: "events empty = []"
    and wf_enq: "wf q \<Longrightarrow> wf (enq k v r q)"
    and events_enq: "wf q \<Longrightarrow> events (enq k v r q) = events q @ [(k, v, r)]"
    and deliver_events: "wf q \<Longrightarrow> deliver onVal onEntry q = deliveries onVal onEntry (events q)"
begin

definition enq_all :: "(string \<times> 'v \<times> EvictionReason) list \<Rightarrow> 'q \<Rightarrow> 'q" where
  "enq_all evs q = fold (\<lambda>(k, v, r). enq k v r) evs q"

lemma enq_all_events: "wf q \<Longrightarrow> wf (enq_all evs q) \<and> events (enq_all evs q) = events q @ evs"
  by (induction evs arbitrary: q) (auto simp: enq_all_def wf_enq events_enq)

lemma deliver_in_order: "deliver onVal onEntry (enq_all evs empty) = deliveries onVal onEntry evs"
  using enq_all_events [OF wf_empty, of evs] deliver_events [of "enq_all evs empty"] events_empty by simp

end

lemma queue_wf_new [simp]: "queue_wf (newEvictQueue b)"
  by (simp add: queue_wf_def newEvictQueue_def)

lemma queue_events_new [simp]: "queue_events (newEvictQueue b) = []"
  by (simp add: queue_events_def newEvictQueue_def)

lemma queue_wf_enqueue [simp]: "queue_wf q \<Longrightarrow> queue_wf (enqueue k v r q)"
  by (auto simp: queue_wf_def enqueue_def Let_def split: if_splits)

lemma queue_events_enqueue [simp]:
  assumes "queue_wf q"
  shows "queue_events (enqueue k v r q) = queue_events q @ [(k, v, r)]"
proof -
  consider "q_n q = 0" | "q_n q = 1" | "2 \<le> q_n q"
    using assms unfolding queue_wf_def by linarith
  then show ?thesis
    using assms
    by cases (auto simp: queue_wf_def queue_events_def enqueue_def Let_def length_Suc_conv numeral_2_eq_2
        split: if_splits)
qed

lemma deliveries_append: "deliveries onVal onEntry (xs @ ys) = deliveries onVal onEntry xs @ deliveries onVal onEntry ys"
  by (simp add: deliveries_def)

lemma callbacksFor_deliveries:
  "concat (map (callbacksFor onVal onEntry) evs)
   = deliveries onVal onEntry (map (\<lambda>ev. (ev_key ev, ev_value ev, ev_reason ev)) evs)"
  by (induction evs) (auto simp: deliveries_def callbacksFor_def)

lemma take_inline:
  assumes "queue_wf q"
  shows "take (nat (min (q_n q) (int (length (q_buf q))))) (q_buf q) = take (nat (q_n q)) (q_buf q)"
  using assms by (auto simp: queue_wf_def min_def)

lemma deliverCallbacks_events:
  assumes "queue_wf q"
  shows "snd (deliverCallbacks onVal onEntry q) = deliveries onVal onEntry (queue_events q)"
proof (cases "q_n q = 1")
  case True
  then obtain x y where "q_buf q = [x, y]" "q_overflow q = []"
    using assms by (auto simp: queue_wf_def length_Suc_conv numeral_2_eq_2)
  then show ?thesis
    using True callbacksFor_deliveries [of onVal onEntry "[x]"]
    by (simp add: deliverCallbacks_def queue_events_def)
next
  case False
  then show ?thesis
    using take_inline [OF assms]
    by (simp add: deliverCallbacks_def deliverMultiCallbacks_def Let_def queue_events_def
        callbacksFor_deliveries deliveries_append)
qed

lemma evictQueue_invoke_events:
  "queue_wf q \<Longrightarrow> evictQueue_invoke onVal onEntry q = deliveries onVal onEntry (queue_events q)"
  by (simp add: evictQueue_invoke_def deliverCallbacks_events)
    (auto simp: queue_wf_def queue_events_def deliveries_def)

lemma takeEvents_events:
  "queue_wf q \<Longrightarrow> map (\<lambda>ev. (ev_key ev, ev_value ev, ev_reason ev)) (snd (takeEvents q)) = queue_events q"
  using take_inline [of q] by (simp add: takeEvents_def Let_def queue_events_def)

interpretation evq: event_queue queue_wf queue_events "newEvictQueue b :: ('v :: zero) evictCallbackQueue"
  enqueue evictQueue_invoke
  by unfold_locales (simp_all add: evictQueue_invoke_events)

end
