(* ===== verification/EntryList.thy ===== *)
theory EntryList
  imports Prelude
begin

text \<open>
  The intrusive doubly-linked recency list of the map backend (\<^verbatim>\<open>map_lru.go\<close>, \<open>entry\<close> and
  \<open>entryList\<close>). Entries live in a heap, a function from addresses; the list operations follow and
  update the \<open>prev\<close> and \<open>next\<close> pointers stored there.

  \<open>dll h l as\<close> says that the list \<open>l\<close> in heap \<open>h\<close> consists of the entries at the distinct addresses
  \<open>as\<close>, most recent first. The locale \<open>recency_list\<close> is what a cache relies on; its interpretation
  discharges the laws for the pointer code.
\<close>

record 'v entry =
  ekey :: string
  prev :: "addr option"
  "next" :: "addr option"
  esize :: u64
  evalue :: 'v

record entryList =
  head :: "addr option"
  tail :: "addr option"
  len :: int

type_synonym 'v heap = "addr \<Rightarrow> 'v entry"

definition emptyList :: entryList where
  "emptyList = \<lparr>head = None, tail = None, len = 0\<rparr>"

definition entryList_Len :: "entryList \<Rightarrow> int" where "entryList_Len l = len l"
definition entryList_Front :: "entryList \<Rightarrow> addr option" where "entryList_Front l = head l"
definition entryList_Back :: "entryList \<Rightarrow> addr option" where "entryList_Back l = tail l"

definition entryList_Init :: "entryList \<Rightarrow> entryList" where
  "entryList_Init l = l\<lparr>head := None, tail := None, len := 0\<rparr>"

definition setPrev :: "addr \<Rightarrow> addr option \<Rightarrow> 'v heap \<Rightarrow> 'v heap" where
  "setPrev a p h = h(a := (h a)\<lparr>prev := p\<rparr>)"

definition setNext :: "addr \<Rightarrow> addr option \<Rightarrow> 'v heap \<Rightarrow> 'v heap" where
  "setNext a n h = h(a := (h a)\<lparr>next := n\<rparr>)"

definition PushFront :: "addr \<Rightarrow> 'v heap \<times> entryList \<Rightarrow> 'v heap \<times> entryList" where
  "PushFront e s = (let (h0, l0) = s;
     h1 = setNext e (head l0) (setPrev e None h0);
     (h2, l2) = (case head l0 of
        Some x \<Rightarrow> (setPrev x (Some e) h1, l0)
      | None \<Rightarrow> (h1, l0\<lparr>tail := Some e\<rparr>))
     in (h2, l2\<lparr>head := Some e, len := len l2 + 1\<rparr>))"

definition MoveToFront :: "addr \<Rightarrow> 'v heap \<times> entryList \<Rightarrow> 'v heap \<times> entryList" where
  "MoveToFront e s = (let (h0, l0) = s in
     if head l0 = Some e then (h0, l0)
     else let
       h1 = (case prev (h0 e) of Some p \<Rightarrow> setNext p (next (h0 e)) h0 | None \<Rightarrow> h0);
       (h2, l2) = (case next (h1 e) of
          Some n \<Rightarrow> (setPrev n (prev (h1 e)) h1, l0)
        | None \<Rightarrow> (h1, l0\<lparr>tail := prev (h1 e)\<rparr>));
       h3 = setNext e (head l2) (setPrev e None h2);
       (h4, l4) = (case head l2 of
          Some x \<Rightarrow> (setPrev x (Some e) h3, l2)
        | None \<Rightarrow> (h3, l2\<lparr>tail := Some e\<rparr>))
       in (h4, l4\<lparr>head := Some e\<rparr>))"

definition Remove :: "addr \<Rightarrow> 'v heap \<times> entryList \<Rightarrow> 'v heap \<times> entryList" where
  "Remove e s = (let (h0, l0) = s;
     (h1, l1) = (case prev (h0 e) of
        Some p \<Rightarrow> (setNext p (next (h0 e)) h0, l0)
      | None \<Rightarrow> (h0, if head l0 = Some e then l0\<lparr>head := next (h0 e)\<rparr> else l0));
     (h2, l2) = (case next (h1 e) of
        Some n \<Rightarrow> (setPrev n (prev (h1 e)) h1, l1)
      | None \<Rightarrow> (h1, if tail l1 = Some e then l1\<lparr>tail := prev (h1 e)\<rparr> else l1))
     in (setNext e None (setPrev e None h2), l2\<lparr>len := len l2 - 1\<rparr>))"

subsection \<open>The list a heap holds\<close>

definition first :: "'a list \<Rightarrow> 'a option \<Rightarrow> 'a option" where
  "first as q = (case as of [] \<Rightarrow> q | a # _ \<Rightarrow> Some a)"

definition final :: "'a option \<Rightarrow> 'a list \<Rightarrow> 'a option" where
  "final p as = (if as = [] then p else Some (List.last as))"

fun lseg :: "'v heap \<Rightarrow> addr option \<Rightarrow> addr list \<Rightarrow> addr option \<Rightarrow> bool" where
  "lseg h p [] q = True"
| "lseg h p (a # as) q = (prev (h a) = p \<and> next (h a) = first as q \<and> lseg h (Some a) as q)"

definition dll :: "'v heap \<times> entryList \<Rightarrow> addr list \<Rightarrow> bool" where
  "dll s as = (case s of (h, l) \<Rightarrow> lseg h None as None \<and> distinct as
     \<and> head l = first as None \<and> tail l = final None as \<and> len l = int (length as))"

definition payload :: "'v entry \<Rightarrow> string \<times> u64 \<times> 'v" where
  "payload e = (ekey e, esize e, evalue e)"

lemma first_simps [simp]:
  "first [] q = q" "first (a # as) q = Some a"
  "first (xs @ ys) q = first xs (first ys q)"
  by (auto simp: first_def split: list.splits)

lemma final_simps [simp]:
  "final p [] = p" "final p (xs @ [a]) = Some a" "final p (a # as) = final (Some a) as"
  "final p (xs @ ys) = final (final p xs) ys"
  by (auto simp: final_def)

lemma first_eq_Some: "first as None = Some a \<longleftrightarrow> (\<exists>bs. as = a # bs)"
  by (auto simp: first_def split: list.splits)

lemma first_eq_None [simp]: "first as None = None \<longleftrightarrow> as = []"
  by (auto simp: first_def split: list.splits)

lemma final_eq_None [simp]: "final None as = None \<longleftrightarrow> as = []"
  by (auto simp: final_def)

lemma final_mem: "final None as = Some a \<Longrightarrow> a \<in> set as"
  by (auto simp: final_def split: if_splits)

lemma first_mem: "first as None = Some a \<Longrightarrow> a \<in> set as"
  by (auto simp: first_eq_Some)

lemma final_Some: "final (Some a) as \<noteq> None"
  by (simp add: final_def)

lemma lseg_append: "lseg h p (xs @ ys) q \<longleftrightarrow> lseg h p xs (first ys q) \<and> lseg h (final p xs) ys q"
  by (induction xs arbitrary: p) auto

lemma lseg_cong:
  "(\<And>a. a \<in> set as \<Longrightarrow> prev (h' a) = prev (h a) \<and> next (h' a) = next (h a)) \<Longrightarrow> lseg h' p as q = lseg h p as q"
  by (induction as arbitrary: p) auto

lemma set_links [simp]:
  "prev (setPrev a p h b) = (if b = a then p else prev (h b))"
  "next (setPrev a p h b) = next (h b)"
  "prev (setNext a p h b) = prev (h b)"
  "next (setNext a p h b) = (if b = a then p else next (h b))"
  "payload (setPrev a p h b) = payload (h b)"
  "payload (setNext a p h b) = payload (h b)"
  by (auto simp: setPrev_def setNext_def payload_def)

lemma lseg_setPrev_out [simp]: "a \<notin> set as \<Longrightarrow> lseg (setPrev a x h) p as q = lseg h p as q"
  by (rule lseg_cong) auto

lemma lseg_setNext_out [simp]: "a \<notin> set as \<Longrightarrow> lseg (setNext a x h) p as q = lseg h p as q"
  by (rule lseg_cong) auto

lemma lseg_setPrev_first:
  "a \<notin> set as \<Longrightarrow> lseg (setPrev a x h) p' (a # as) q \<longleftrightarrow> p' = x \<and> next (h a) = first as q \<and> lseg h (Some a) as q"
  by auto

lemma lseg_setNext_last:
  "a \<notin> set as \<Longrightarrow> lseg (setNext a x h) p (as @ [a]) q' \<longleftrightarrow>
     q' = x \<and> lseg h p as (Some a) \<and> prev (h a) = final p as"
  by (auto simp: lseg_append)

lemma PushFront_payload [simp]: "payload (fst (PushFront e s) a) = payload (fst s a)"
  by (simp add: PushFront_def Let_def split: prod.splits option.splits)

lemma MoveToFront_payload [simp]: "payload (fst (MoveToFront e s) a) = payload (fst s a)"
  by (simp add: MoveToFront_def Let_def split: prod.splits option.splits)

lemma Remove_payload [simp]: "payload (fst (Remove e s) a) = payload (fst s a)"
  by (cases s) (auto simp: Remove_def Let_def split: option.splits)

lemma dll_PushFront:
  assumes "dll s as" "e \<notin> set as"
  shows "dll (PushFront e s) (e # as)"
proof (cases as)
  case Nil
  then show ?thesis using assms by (auto simp: dll_def PushFront_def Let_def split: prod.splits)
next
  case (Cons b bs)
  then show ?thesis using assms
    by (auto simp: dll_def PushFront_def Let_def split: prod.splits)
qed

lemma dll_Remove:
  assumes "dll s (xs @ e # ys)"
  shows "dll (Remove e s) (xs @ ys)"
proof (cases s)
  case (Pair h l)
  show ?thesis
    using assms Pair
    by (cases xs rule: rev_cases; cases ys)
      (auto simp: dll_def Remove_def Let_def lseg_append)
qed

lemma dll_MoveToFront:
  assumes "dll s (xs @ e # ys)"
  shows "dll (MoveToFront e s) (e # xs @ ys)"
proof (cases s)
  case (Pair h l)
  show ?thesis
  proof (cases xs)
    case Nil
    then show ?thesis using assms Pair by (simp add: dll_def MoveToFront_def)
  next
    case (Cons x xs')
    then show ?thesis
      using assms Pair
      by (cases xs' rule: rev_cases; cases ys)
        (auto simp: dll_def MoveToFront_def Let_def lseg_append)
  qed
qed

lemma dll_Back: "dll s as \<Longrightarrow> entryList_Back (snd s) = final None as"
  by (auto simp: dll_def entryList_Back_def split: prod.splits)

lemma dll_Front: "dll s as \<Longrightarrow> entryList_Front (snd s) = first as None"
  by (auto simp: dll_def entryList_Front_def split: prod.splits)

lemma dll_Len: "dll s as \<Longrightarrow> entryList_Len (snd s) = int (length as)"
  by (auto simp: dll_def entryList_Len_def split: prod.splits)

lemma dll_distinct: "dll s as \<Longrightarrow> distinct as"
  by (auto simp: dll_def)

text \<open>A list of addresses ordered by recency, and the moves a cache makes on it.\<close>

locale recency_list =
  fixes repr :: "'s \<Rightarrow> addr list \<Rightarrow> bool"
    and push :: "addr \<Rightarrow> 's \<Rightarrow> 's"
    and move :: "addr \<Rightarrow> 's \<Rightarrow> 's"
    and remove :: "addr \<Rightarrow> 's \<Rightarrow> 's"
    and lru :: "'s \<Rightarrow> addr option"
  assumes repr_distinct: "repr s as \<Longrightarrow> distinct as"
    and repr_push: "repr s as \<Longrightarrow> e \<notin> set as \<Longrightarrow> repr (push e s) (e # as)"
    and repr_move: "repr s (xs @ e # ys) \<Longrightarrow> repr (move e s) (e # xs @ ys)"
    and repr_remove: "repr s (xs @ e # ys) \<Longrightarrow> repr (remove e s) (xs @ ys)"
    and repr_back: "repr s as \<Longrightarrow> lru s = (if as = [] then None else Some (List.last as))"
begin

lemma remove_repr:
  assumes "repr s as" "e \<in> set as"
  shows "repr (remove e s) (remove1 e as)"
proof -
  obtain xs ys where as: "as = xs @ e # ys" "e \<notin> set xs"
    using split_of_member [OF repr_distinct [OF assms(1)] assms(2)] by blast
  then show ?thesis using repr_remove assms(1) by (simp add: remove1_split)
qed

lemma move_repr:
  assumes "repr s as" "e \<in> set as"
  shows "repr (move e s) (e # remove1 e as)"
proof -
  obtain xs ys where as: "as = xs @ e # ys" "e \<notin> set xs"
    using split_of_member [OF repr_distinct [OF assms(1)] assms(2)] by blast
  then show ?thesis using repr_move assms(1) by (simp add: remove1_split)
qed

lemma evict_repr:
  assumes "repr s as" "lru s = Some e"
  shows "as \<noteq> [] \<and> e = List.last as \<and> repr (remove e s) (butlast as)"
proof -
  have "as \<noteq> []" "e = List.last as" using repr_back [OF assms(1)] assms(2) by (auto split: if_splits)
  then show ?thesis
    using remove_repr [OF assms(1), of e] butlast_eq_remove1_last [of as] repr_distinct [OF assms(1)] by auto
qed

lemma move_push:
  assumes "repr s as" "e \<notin> set as" "f \<in> set as"
  shows "repr (move f (push e s)) (f # e # remove1 f as)"
  using move_repr [OF repr_push [OF assms(1,2)], of f] assms by (auto split: if_splits)

end

interpretation elist: recency_list dll PushFront MoveToFront Remove "\<lambda>s. entryList_Back (snd s)"
  by unfold_locales
    (auto simp: dll_distinct dll_PushFront dll_MoveToFront dll_Remove dll_Back final_def)

end
