(* ===== verification/Stats.thy ===== *)
theory Stats
  imports Pressure
begin

text \<open>
  Telemetry snapshots (\<^verbatim>\<open>cache.go\<close>, \<open>Stats\<close>; \<^verbatim>\<open>pressure.go\<close>, \<open>snapshotBaseStats\<close>;
  \<^verbatim>\<open>sharded_lru.go\<close>, the aggregation of the shards' snapshots).
\<close>

record Stats =
  st_Backend :: Backend
  GetHits :: u64
  GetMisses :: u64
  PeekHits :: u64
  PeekMisses :: u64
  EvictionsCapacity :: u64
  EvictionsPressure :: u64
  EvictionsDeleted :: u64
  EvictionsReplaced :: u64
  EvictedWeightCapacity :: u64
  EvictedWeightPressure :: u64
  EvictedWeightDeleted :: u64
  EvictedWeightReplaced :: u64
  CurrentSize :: u64
  MaxSize :: u64
  Len :: int
  ZeroSizeCount :: int
  PutInserted :: u64
  PutUpdated :: u64
  PutRejectedOversized :: u64
  ReplaceUpdated :: u64
  ReplaceNotFound :: u64
  ReplaceSelfEvicted :: u64
  DeleteDeleted :: u64
  DeleteNotFound :: u64
  DeletePrefixExecuted :: u64
  MemoryPressure :: float64
  CompactionsExplicit :: u64
  CompactionsPressureTier1 :: u64
  CompactionsPressureTier2 :: u64
  CompactionsAutoSlack :: u64
  PressureShedsInline :: u64
  PressureShedsExplicit :: u64
  ReclaimEpoch :: u64
  DeletedSinceCompact :: int
  PeakEntryLen :: int
  ArenaLiveNodes :: int
  ArenaFreeNodes :: int
  ArenaUnallocatedCap :: int
  ArenaHashFallbacks :: u64

fun Stats_Evictions :: "Stats \<Rightarrow> EvictionReason \<Rightarrow> u64" where
  "Stats_Evictions s EvictionReasonCapacity = EvictionsCapacity s"
| "Stats_Evictions s EvictionReasonPressure = EvictionsPressure s"
| "Stats_Evictions s EvictionReasonDeleted = EvictionsDeleted s"
| "Stats_Evictions s EvictionReasonReplaced = EvictionsReplaced s"
| "Stats_Evictions s (EvictionReasonOther _) = 0"

fun Stats_EvictedWeight :: "Stats \<Rightarrow> EvictionReason \<Rightarrow> u64" where
  "Stats_EvictedWeight s EvictionReasonCapacity = EvictedWeightCapacity s"
| "Stats_EvictedWeight s EvictionReasonPressure = EvictedWeightPressure s"
| "Stats_EvictedWeight s EvictionReasonDeleted = EvictedWeightDeleted s"
| "Stats_EvictedWeight s EvictionReasonReplaced = EvictedWeightReplaced s"
| "Stats_EvictedWeight s (EvictionReasonOther _) = 0"

definition snapshotBaseStats :: "('v, 'm) pressureState_scheme \<Rightarrow> Backend \<Rightarrow> u64 \<Rightarrow> u64 \<Rightarrow> int \<Rightarrow> Stats" where
  "snapshotBaseStats p backend currentSz maxSz entryLen = \<lparr>
     st_Backend = backend,
     GetHits = getHits p, GetMisses = getMisses p, PeekHits = peekHits p, PeekMisses = peekMisses p,
     EvictionsCapacity = evictionsCapacity p, EvictionsPressure = evictionsPressure p,
     EvictionsDeleted = evictionsDeleted p, EvictionsReplaced = evictionsReplaced p,
     EvictedWeightCapacity = evictedWeightCapacity p, EvictedWeightPressure = evictedWeightPressure p,
     EvictedWeightDeleted = evictedWeightDeleted p, EvictedWeightReplaced = evictedWeightReplaced p,
     CurrentSize = currentSz, MaxSize = maxSz, Len = entryLen, ZeroSizeCount = zeroSizeCount p,
     PutInserted = putInserted p, PutUpdated = putUpdated p, PutRejectedOversized = putRejectedOversized p,
     ReplaceUpdated = replaceUpdated p, ReplaceNotFound = replaceNotFound p,
     ReplaceSelfEvicted = replaceSelfEvicted p, DeleteDeleted = deleteDeleted p,
     DeleteNotFound = deleteNotFound p, DeletePrefixExecuted = deletePrefixExecuted p,
     MemoryPressure = lastSampledPressure (coord p),
     CompactionsExplicit = compactionsExplicit p, CompactionsPressureTier1 = compactionsPressureTier1 p,
     CompactionsPressureTier2 = compactionsPressureTier2 p, CompactionsAutoSlack = compactionsAutoSlack p,
     PressureShedsInline = pressureShedsInline p, PressureShedsExplicit = pressureShedsExplicit p,
     ReclaimEpoch = reclaimEpoch (coord p),
     DeletedSinceCompact = deletedSinceCompact p, PeakEntryLen = peakEntryLen p,
     ArenaLiveNodes = 0, ArenaFreeNodes = 0, ArenaUnallocatedCap = 0, ArenaHashFallbacks = 0 \<rparr>"

end
