(* ===== verification/MapCache.thy ===== *)
theory MapCache
  imports Prefix Sampling EvictQueue EntryList Stats
begin

text \<open>
  The map backend (\<^verbatim>\<open>map_lru.go\<close>): a hash index from keys to entries of the intrusive recency
  list, with every operation of the cache.

  The entries live in the heap \<open>m_heap\<close>; \<open>m_nextAddr\<close> is the allocator. The Go map is an association
  list with distinct keys; the order in which \<open>range\<close> visits it is the argument \<open>rng\<close> of the
  operation that iterates. The embedded \<open>pressureState\<close> is the field \<open>m_ps\<close>. Internal operations
  thread the cache and the queue of eviction events; a public operation returns the new cache, its
  results and the user callbacks it ran, or the panic that ended it.
\<close>

datatype lruError = ErrInvalidEntrySize | ErrEntryNotExist

record 'v mapCache =
  m_maxSize :: u64
  m_currentSize :: u64
  m_heap :: "'v heap"
  m_nextAddr :: addr
  m_entries :: entryList
  m_index :: "(string \<times> addr) list"
  m_dirtyIndex :: bool
  m_weigher :: "(string \<Rightarrow> 'v \<Rightarrow> u64) option"
  m_onEvictValue :: "unit option"
  m_onEvictEntry :: "unit option"
  m_ps :: "'v pressureState"

type_synonym 'v mapState = "'v mapCache \<times> 'v evictCallbackQueue"

definition zeroCoord :: coordState where
  "zeroCoord = \<lparr>reclaimEpoch = 0, externalReclaimEpoch = 0, pressureInvokeSeq = 0, lastSampledSeq = 0,
     lastSampledEpoch = 0, lastSampledPressure = Fin 0, belowTier1Epoch = 0, belowTier2Epoch = 0,
     pressureInitialized = False, pressureNeedsRefresh = False, cachedPublishSeq = 0, cachedPressure = Fin 0,
     cachedPressureEpoch = 0, cachedBelowTier1Epoch = 0, cachedBelowTier2Epoch = 0, cachedPressureSeq = 0,
     samplerActive = False, inSampler = False\<rparr>"

definition newPressureState :: "'v Options \<Rightarrow> 'v pressureState" where
  "newPressureState opts = \<lparr>options = opts, coord = zeroCoord, shardReclaimEpoch = 0, shardExtReclaimEpoch = 0,
     peakEntryLen = 0, deletedSinceCompact = 0, zeroSizeCount = 0, lastReclaimedZeroCount = 0,
     lastReclaimedLen = 0, hasValidSample = False, getHits = 0, getMisses = 0, evictionsCapacity = 0,
     evictionsPressure = 0, evictionsDeleted = 0, evictionsReplaced = 0, evictedWeightCapacity = 0,
     evictedWeightPressure = 0, evictedWeightDeleted = 0, evictedWeightReplaced = 0, putInserted = 0,
     putUpdated = 0, replaceUpdated = 0, replaceNotFound = 0, replaceSelfEvicted = 0, deleteDeleted = 0,
     deleteNotFound = 0, deletePrefixExecuted = 0, compactionsExplicit = 0, compactionsPressureTier1 = 0,
     compactionsPressureTier2 = 0, compactionsAutoSlack = 0, pressureShedsInline = 0,
     pressureShedsExplicit = 0, peekHits = 0, peekMisses = 0, putRejectedOversized = 0,
     arenaHashFallbacks = 0, zeroWatermarkTier2Epoch = 0, zeroWatermarkSeq = 0, sampledBelowTier1Epoch = 0,
     sampledBelowTier2Epoch = 0, sampledCoordEpoch = 0, sampledPressureSeq = 0, localWriteSeq = 0,
     cachedAppliedPubSeq = 0, cachedAppliedSampleSeq = 0, cachedAppliedPressure = Fin 0,
     windowSampleDue = False\<rparr>"

definition zeroEntry :: "('v :: zero) entry" where
  "zeroEntry = \<lparr>ekey = '''', prev = None, next = None, esize = 0, evalue = 0\<rparr>"

definition onPs :: "('v pressureState \<Rightarrow> 'v pressureState) \<Rightarrow> 'v mapCache \<Rightarrow> 'v mapCache" where
  "onPs f c = c\<lparr>m_ps := f (m_ps c)\<rparr>"

definition onEntries ::
  "('v heap \<times> entryList \<Rightarrow> 'v heap \<times> entryList) \<Rightarrow> 'v mapCache \<Rightarrow> 'v mapCache" where
  "onEntries f c = c\<lparr>m_heap := fst (f (m_heap c, m_entries c)), m_entries := snd (f (m_heap c, m_entries c))\<rparr>"

definition mapLen :: "'v mapCache \<Rightarrow> int" where "mapLen c = entryList_Len (m_entries c)"

definition mapCache_weigh :: "'v mapCache \<Rightarrow> string \<Rightarrow> 'v \<Rightarrow> u64" where
  "mapCache_weigh c key value = (case m_weigher c of Some w \<Rightarrow> w key value | None \<Rightarrow> 1)"

definition hasEvictCB :: "'v mapCache \<Rightarrow> bool" where
  "hasEvictCB c = (m_onEvictValue c \<noteq> None \<or> m_onEvictEntry c \<noteq> None)"

definition mapCache_notifyEvict :: "string \<Rightarrow> 'v \<Rightarrow> u64 \<Rightarrow> EvictionReason \<Rightarrow> 'v mapState \<Rightarrow> 'v mapState" where
  "mapCache_notifyEvict key value sz reason st = (let (c, q) = st in
     (onPs (recordEviction reason sz) c, if hasEvictCB c then enqueue key value reason q else q))"

definition mapCache_notifyReplaced :: "string \<Rightarrow> 'v \<Rightarrow> u64 \<Rightarrow> 'v mapState \<Rightarrow> 'v mapState" where
  "mapCache_notifyReplaced key oldValue oldSize st = (let (c, q) = st in
     (onPs (\<lambda>p. p\<lparr>evictionsReplaced := evictionsReplaced p + 1,
                  evictedWeightReplaced := evictedWeightReplaced p + oldSize\<rparr>) c,
      if hasEvictCB c then enqueue key oldValue EvictionReasonReplaced q else q))"

definition mapCache_hasSlackLocked :: "'v mapCache \<Rightarrow> bool" where
  "mapCache_hasSlackLocked c = (m_dirtyIndex c
     \<and> (int (length (m_index c)) < peakEntryLen (m_ps c) \<or> minChurnCompactDeletes \<le> deletedSinceCompact (m_ps c)))"

subsection \<open>Invariant checking\<close>

partial_function (option) checkListLoop ::
  "'v mapCache \<Rightarrow> addr option \<Rightarrow> addr option \<Rightarrow> u64 \<Rightarrow> int \<Rightarrow> int \<Rightarrow> (u64 \<times> int \<times> int) res option" where
  "checkListLoop c e prevElem sumSize lruCount zeroCount = (case e of
     None \<Rightarrow> Some (Inr (sumSize, lruCount, zeroCount))
   | Some a \<Rightarrow> let en = m_heap c a in
       if prev en \<noteq> prevElem then Some (Inl (Panic ''corrupt prev pointer in LRU list''))
       else if prevElem = None \<and> entryList_Front (m_entries c) \<noteq> Some a
       then Some (Inl (Panic ''head mismatch in LRU list''))
       else if prevElem \<noteq> None \<and> next (m_heap c (the prevElem)) \<noteq> Some a
       then Some (Inl (Panic ''corrupt next pointer in LRU list''))
       else if next en = None \<and> entryList_Back (m_entries c) \<noteq> Some a
       then Some (Inl (Panic ''tail mismatch in LRU list''))
       else if map_of (m_index c) (ekey en) \<noteq> Some a then Some (Inl (Panic ''Mismatch for key''))
       else if - 1 - sumSize < esize en then Some (Inl (Panic ''sumSize uint64 overflow''))
       else checkListLoop c (next en) (Some a) (sumSize + esize en) (lruCount + 1)
              (if esize en = 0 then zeroCount + 1 else zeroCount))"

definition mapCache_checkListAndIndexInvariants :: "'v mapCache \<Rightarrow> unit res" where
  "mapCache_checkListAndIndexInvariants c =
     bindr (of_loop (checkListLoop c (entryList_Front (m_entries c)) None 0 0 0)) (\<lambda>(sumSize, lruCount, zeroCount).
     bindr (require (lruCount = mapLen c) ''LRU list count does not match entries.Len()'') (\<lambda>_.
     bindr (require (zeroCount = zeroSizeCount (m_ps c)) ''zeroSizeCount does not match live zero-size entries'') (\<lambda>_.
     require (sumSize = m_currentSize c) ''Size sum mismatch'')))"

definition mapCache_checkInvariants :: "'v mapCache \<Rightarrow> unit res" where
  "mapCache_checkInvariants c =
     bindr (require (m_maxSize c \<noteq> 0) ''Invalid maxSize'') (\<lambda>_.
     bindr (require (m_currentSize c \<le> m_maxSize c) ''CurrentSize over maxSize'') (\<lambda>_.
     bindr (require (mapLen c = int (length (m_index c))) ''Length mismatch'') (\<lambda>_.
     bindr (if mapLen c = 0
            then require (entryList_Front (m_entries c) = None \<and> entryList_Back (m_entries c) = None)
              ''Front or Back is non-nil when entries.Len() == 0''
            else require (entryList_Front (m_entries c) \<noteq> None \<and> entryList_Back (m_entries c) \<noteq> None)
              ''Front or Back is nil when entries.Len() > 0'') (\<lambda>_.
     bindr (mapCache_checkListAndIndexInvariants c) (\<lambda>_.
     checkTelemetryInvariants (m_ps c) (mapLen c))))))"

definition mapCache_unlock :: "'v mapCache \<Rightarrow> unit res" where
  \<comment> \<open>\<open>unlock\<close>, \<open>rUnlock\<close>: a violated invariant panics\<close>
  "mapCache_unlock c =
    (if EnableInvariantChecking (options (m_ps c)) then mapCache_checkInvariants c else Inr ())"

definition newMapCacheWithOptions :: "u64 \<Rightarrow> 'v Options \<Rightarrow> ('v :: zero) mapCache res" where
  "newMapCacheWithOptions maxSz opts0 = (let
     opts = (if \<not> hasShardTier2Target opts0
             then opts0\<lparr>hasShardTier2Target := True,
                        shardTier2Target := computeTargetSize maxSz (EvictionRetentionRatio opts0)\<rparr>
             else opts0) in
     bindr (resolveWeigher (oWeigher opts)) (\<lambda>w.
     bindr (resolveOnEvictValue (oOnEvictValue opts)) (\<lambda>onVal.
     bindr (resolveOnEvictEntry (oOnEvictEntry opts)) (\<lambda>onEntry.
     let c = \<lparr>m_maxSize = maxSz, m_currentSize = 0, m_heap = (\<lambda>_. zeroEntry), m_nextAddr = 0,
              m_entries = emptyList, m_index = [], m_dirtyIndex = False, m_weigher = w,
              m_onEvictValue = onVal, m_onEvictEntry = onEntry, m_ps = newPressureState opts\<rparr>
     in bindr (mapCache_unlock c) (\<lambda>_. Inr c)))))"

subsection \<open>Removing entries\<close>

definition mapCache_eraseEntryLocked ::
  "addr \<Rightarrow> EvictionReason \<Rightarrow> ('v :: zero) mapState \<Rightarrow> 'v mapState \<times> 'v" where
  "mapCache_eraseEntryLocked e reason st = (let (c, q) = st;
     evictedKey = ekey (m_heap c e);
     deletedEntry = evalue (m_heap c e);
     evictedSize = esize (m_heap c e);
     c1 = onPs (onEntryDeleted evictedSize) c;
     c2 = c1\<lparr>m_currentSize := m_currentSize c1 - evictedSize,
             m_index := AList.delete evictedKey (m_index c1), m_dirtyIndex := True\<rparr>;
     c3 = onEntries (Remove e) c2;
     c4 = c3\<lparr>m_heap := (m_heap c3)(e := (m_heap c3 e)\<lparr>ekey := '''', evalue := 0, esize := 0\<rparr>)\<rparr>
     in (mapCache_notifyEvict evictedKey deletedEntry evictedSize reason (c4, q), deletedEntry))"

definition mapCache_evictOne :: "('v :: zero) mapState \<Rightarrow> 'v mapState \<times> 'v \<times> bool" where
  "mapCache_evictOne st = (case entryList_Back (m_entries (fst st)) of
     None \<Rightarrow> (st, 0, False)
   | Some e \<Rightarrow> (let (st', v) = mapCache_eraseEntryLocked e EvictionReasonCapacity st in (st', v, True)))"

definition mapCache_eraseInternal ::
  "string \<Rightarrow> EvictionReason \<Rightarrow> ('v :: zero) mapState \<Rightarrow> 'v mapState \<times> 'v \<times> bool" where
  "mapCache_eraseInternal key reason st = (case map_of (m_index (fst st)) key of
     None \<Rightarrow> (st, 0, False)
   | Some e \<Rightarrow> (let (st', v) = mapCache_eraseEntryLocked e reason st in (st', v, True)))"

definition mapCache_clearEmptyIndexStateLocked :: "'v mapCache \<Rightarrow> 'v mapCache" where
  \<comment> \<open>a new map or the cleared old one: an empty index either way\<close>
  "mapCache_clearEmptyIndexStateLocked c = onPs resetWatermarks (c\<lparr>m_index := [], m_dirtyIndex := False\<rparr>)"

definition mapCache_resetEmptyIndexLocked :: "'v mapCache \<Rightarrow> 'v mapCache" where
  "mapCache_resetEmptyIndexLocked c = onPs markReclaimedLocked (mapCache_clearEmptyIndexStateLocked c)"

subsection \<open>Compaction and shedding\<close>

definition mapCache_compactDataStructuresLocked :: "'v mapCache \<Rightarrow> 'v mapCache \<times> bool" where
  \<comment> \<open>\<open>maps.Copy\<close> into a new map: the same bindings\<close>
  "mapCache_compactDataStructuresLocked c =
    (if \<not> mapCache_hasSlackLocked c then (c, False)
     else (onPs (onCompacted (int (length (m_index c)))) (c\<lparr>m_dirtyIndex := False\<rparr>), True))"

definition mapCache_compactLocked :: "'v mapCache \<Rightarrow> 'v mapCache" where
  "mapCache_compactLocked c = (let (c', compacted) = mapCache_compactDataStructuresLocked c in
     if compacted
     then onPs markReclaimedLocked (onPs (\<lambda>p. p\<lparr>compactionsExplicit := compactionsExplicit p + 1\<rparr>) c')
     else c')"

definition recordTier2Compaction :: "'v pressureState \<Rightarrow> 'v pressureState" where
  "recordTier2Compaction p = p\<lparr>compactionsPressureTier2 := compactionsPressureTier2 p + 1\<rparr>"

definition mapCache_completeShedAndCompactLocked ::
  "int \<Rightarrow> float64 \<Rightarrow> bool \<Rightarrow> int \<Rightarrow> int \<Rightarrow> bool \<Rightarrow> 'v mapCache \<Rightarrow> 'v mapCache" where
  "mapCache_completeShedAndCompactLocked evictedCount retention unadjusted unprotectedZeroTarget targetLen isBackground c0 = (let
     c1 = (if 0 < evictedCount then onPs (recordPressureShed isBackground) c0 else c0)
     in if 0 < evictedCount \<and> mapLen c1 = 0 then
          mapCache_resetEmptyIndexLocked
            (if shouldAutoCompactEntryCounts (m_ps c1) True isBackground 0 then onPs recordTier2Compaction c1 else c1)
        else let
          c2 = (if 0 < evictedCount
                then onPs (updateZeroWatermarkAfterShed retention (mapLen c1) unadjusted unprotectedZeroTarget targetLen) c1
                else c1);
          (c3, compacted) =
            (if shouldAutoCompactMap (m_ps c2) (m_dirtyIndex c2) isBackground (mapLen c2)
             then let (c', done) = mapCache_compactDataStructuresLocked c2
               in (if done then onPs recordTier2Compaction c' else c', done)
             else (c2, False))
          in if 0 < evictedCount \<or> compacted then onPs markReclaimedLocked c3 else c3)"

partial_function (option) shedLoop ::
  "u64 \<Rightarrow> bool \<Rightarrow> int \<Rightarrow> int \<Rightarrow> addr option \<Rightarrow> addr option \<Rightarrow> 'v list \<Rightarrow> ('v :: zero) mapState
   \<Rightarrow> ('v mapState \<times> 'v list) option" where
  "shedLoop effectiveTarget needFullFlush targetZeroCount targetLen protectedElem victim evicted st =
    (case victim of None \<Rightarrow> Some (st, evicted)
     | Some v \<Rightarrow> (case shouldContinueShedding (m_ps (fst st)) (m_currentSize (fst st)) effectiveTarget needFullFlush
                      targetZeroCount (mapLen (fst st)) targetLen of (needByteShed, needZeroShed) \<Rightarrow>
         if \<not> needByteShed \<and> \<not> needZeroShed then Some (st, evicted)
         else let nextVictim = prev (m_heap (fst st) v) in
           if shouldEvictShedVictim (m_ps (fst st)) (protectedElem = Some v) (esize (m_heap (fst st) v))
                needFullFlush needByteShed targetZeroCount
           then (case mapCache_eraseEntryLocked v EvictionReasonPressure st of (st', x) \<Rightarrow>
                   shedLoop effectiveTarget needFullFlush targetZeroCount targetLen protectedElem nextVictim
                     (evicted @ [x]) st')
           else shedLoop effectiveTarget needFullFlush targetZeroCount targetLen protectedElem nextVictim evicted st))"

definition mapCache_shedAndCompactLocked ::
  "u64 \<Rightarrow> float64 \<Rightarrow> addr option \<Rightarrow> bool \<Rightarrow> ('v :: zero) mapState \<Rightarrow> ('v mapState \<times> 'v list) res" where
  "mapCache_shedAndCompactLocked targetSize retention protectedElem isBackground st = (let
     c = fst st;
     hasProtected = (protectedElem \<noteq> None);
     protectedSize = (case protectedElem of Some e \<Rightarrow> esize (m_heap c e) | None \<Rightarrow> 0);
     (effectiveTarget, targetLen, targetZeroCount, unprotectedZeroTarget) =
       computeShedTargets (m_ps c) targetSize retention (mapLen c) hasProtected protectedSize;
     needFullFlush = feq retention (Fin 0) in
     bindr (of_loop (map_option Inr (shedLoop effectiveTarget needFullFlush targetZeroCount targetLen protectedElem
              (entryList_Back (m_entries c)) [] st))) (\<lambda>((c', q'), evicted).
     Inr ((mapCache_completeShedAndCompactLocked (int (length evicted)) retention
             (\<not> hasProtected \<or> effectiveTarget \<le> targetSize) unprotectedZeroTarget targetLen isBackground c', q'),
          evicted)))"

definition mapCache_maybeReclaimUnderPressureLocked ::
  "float64 \<Rightarrow> addr option \<Rightarrow> bool \<Rightarrow> ('v :: zero) mapState \<Rightarrow> ('v mapState \<times> 'v list) res" where
  "mapCache_maybeReclaimUnderPressureLocked pressure protectedElem isBackground st = (let (c, q) = st in
     if fge pressure (EvictionThreshold (options (m_ps c))) then
       (if isSamplingGoroutine (m_ps c) then Inr (st, [])
        else mapCache_shedAndCompactLocked (tier2TargetSize (m_ps c) (m_maxSize c))
               (EvictionRetentionRatio (options (m_ps c))) protectedElem isBackground st)
     else let c1 = onPs (resetZeroWatermarkBelowTier2 pressure) c in
       if fge pressure (CompactionThreshold (options (m_ps c1)))
          \<and> shouldAutoCompactMap (m_ps c1) (m_dirtyIndex c1) isBackground (mapLen c1)
          \<and> \<not> isSamplingGoroutine (m_ps c1)
       then let (c2, compacted) = mapCache_compactDataStructuresLocked c1 in
         Inr ((if compacted
               then onPs markReclaimedLocked
                      (onPs (\<lambda>p. p\<lparr>compactionsPressureTier1 := compactionsPressureTier1 p + 1\<rparr>) c2)
               else c2, q), [])
       else Inr ((c1, q), []))"

definition mapCache_finishDeleteReclaimLocked ::
  "u64 \<Rightarrow> u64 \<Rightarrow> float64 \<Rightarrow> ('v :: zero) mapState \<Rightarrow> 'v mapState res" where
  "mapCache_finishDeleteReclaimLocked sizeBefore sampledEpoch pressure st = (let (c, q) = st in
     if mapLen c = 0 then
       let hadSlack = hasEmptyDeleteSlack (m_ps c) False;
           c1 = (if hadSlack then onPs (recordCompactionByPressure pressure) c else c);
           c2 = mapCache_clearEmptyIndexStateLocked c1
       in Inr (onPs (maybeMarkReclaimed (hadSlack \<or> 0 < sizeBefore) sampledEpoch pressure) c2, q)
     else let
       reclaimedSingleSurvivor = shouldReclaimSingleSurvivorOnDelete (m_ps c) (mapLen c) (mapCache_hasSlackLocked c) False;
       c1 = (if reclaimedSingleSurvivor
             then let (c', compacted) = mapCache_compactDataStructuresLocked c
               in if compacted then onPs (recordCompactionByPressure pressure) c' else c'
             else c) in
       bindr (if fge pressure (CompactionThreshold (options (m_ps c1))) \<or> fge pressure (EvictionThreshold (options (m_ps c1)))
              then mapCache_maybeReclaimUnderPressureLocked pressure None False (c1, q)
              else Inr ((onPs (resetZeroWatermarkBelowTier2 pressure) c1, q), [])) (\<lambda>((c2, q2), _).
       Inr (onPs (maybeMarkReclaimed (reclaimedSingleSurvivor \<or> m_currentSize c2 < sizeBefore) sampledEpoch pressure) c2, q2)))"

definition mapCache_finishMutationReclaimLocked ::
  "'v list \<Rightarrow> addr option \<Rightarrow> bool \<Rightarrow> bool \<Rightarrow> u64 \<Rightarrow> u64 \<Rightarrow> float64 \<Rightarrow> ('v :: zero) mapState \<Rightarrow> ('v mapState \<times> 'v list) res" where
  "mapCache_finishMutationReclaimLocked evictedValues protectedElem reclaimedPre compactedPre sizeBefore sampledEpoch pressure st =
     bindr (mapCache_maybeReclaimUnderPressureLocked pressure protectedElem False st) (\<lambda>((c, q), evictedByPressure).
     let netByteReduced = (m_currentSize c < sizeBefore);
         c1 = (if shouldCompactAfterMutation (m_ps c) reclaimedPre netByteReduced (mapCache_hasSlackLocked c) pressure
               then let (c', compacted) = mapCache_compactDataStructuresLocked c
                 in if compacted \<and> \<not> compactedPre then onPs (recordCompactionByPressure pressure) c' else c'
               else c);
         c2 = (if shouldMarkReclaimedAfterMutation (m_ps c1) reclaimedPre netByteReduced sampledEpoch pressure
               then onPs markReclaimedLocked c1 else c1)
     in Inr ((c2, q), appendEvicted evictedValues evictedByPressure))"

subsection \<open>Put\<close>

partial_function (option) updateEvictLoop ::
  "u64 \<Rightarrow> bool \<Rightarrow> bool \<Rightarrow> 'v list \<Rightarrow> ('v :: zero) mapState \<Rightarrow> ('v mapState \<times> 'v list \<times> bool) option" where
  "updateEvictLoop valueSize hadZeroCap evictedPrePut evictedValues st =
    (if (m_maxSize (fst st) - m_currentSize (fst st) < valueSize \<or> (hadZeroCap \<and> \<not> evictedPrePut))
        \<and> 1 < mapLen (fst st)
     then (case mapCache_evictOne st of (st', evicted, evictedOK) \<Rightarrow>
             if evictedOK then updateEvictLoop valueSize hadZeroCap True (evictedValues @ [evicted]) st'
             else updateEvictLoop valueSize hadZeroCap evictedPrePut evictedValues st')
     else Some (st, evictedValues, evictedPrePut))"

definition mapCache_updateExistingOnPutLocked ::
  "addr \<Rightarrow> 'v \<Rightarrow> u64 \<Rightarrow> u64 \<Rightarrow> float64 \<Rightarrow> ('v :: zero) mapState \<Rightarrow> ('v mapState \<times> 'v list \<times> bool) res" where
  "mapCache_updateExistingOnPutLocked e value valueSize sizeBefore pressure st = (let (c, q) = st;
     oldValue = evalue (m_heap c e);
     oldSize = esize (m_heap c e);
     hadZeroCap = shouldEvictOnZeroWeightShrink (m_ps c) oldSize valueSize (m_maxSize c);
     c1 = onEntries (MoveToFront e) (onPs (onEntrySizeUpdated oldSize valueSize) c);
     c2 = c1\<lparr>m_currentSize := m_currentSize c1 - oldSize\<rparr> in
     bindr (of_loop (map_option Inr (updateEvictLoop valueSize hadZeroCap False [] (c2, q))))
       (\<lambda>((c3, q3), evictedValues, evictedPrePut).
     let c4 = c3\<lparr>m_heap := (m_heap c3)(e := (m_heap c3 e)\<lparr>evalue := value, esize := valueSize\<rparr>),
                 m_currentSize := m_currentSize c3 + valueSize\<rparr>;
         c5 = onPs (\<lambda>p. p\<lparr>putUpdated := putUpdated p + 1\<rparr>) c4;
         (c6, q6) = mapCache_notifyReplaced (ekey (m_heap c5 e)) oldValue oldSize (c5, q3)
     in Inr ((c6, q6), evictedValues,
             shouldReclaimSingleSurvivorOnMutation (m_ps c6) (mapLen c6) (mapCache_hasSlackLocked c6) False evictedPrePut
               (m_currentSize c6) sizeBefore pressure)))"

definition allocOrRecycleEntry ::
  "addr option \<Rightarrow> string \<Rightarrow> 'v \<Rightarrow> u64 \<Rightarrow> 'v mapCache \<Rightarrow> 'v mapCache \<times> addr" where
  "allocOrRecycleEntry recycledEntry key value valueSize c = (case recycledEntry of
     Some a \<Rightarrow> (c\<lparr>m_heap := (m_heap c)(a := (m_heap c a)\<lparr>ekey := key, evalue := value, esize := valueSize\<rparr>)\<rparr>, a)
   | None \<Rightarrow> (let a = m_nextAddr c in
       (c\<lparr>m_heap := (m_heap c)(a := \<lparr>ekey = key, prev = None, next = None, esize = valueSize, evalue = value\<rparr>),
          m_nextAddr := a + 1\<rparr>, a)))"

partial_function (option) insertEvictLoop ::
  "u64 \<Rightarrow> bool \<Rightarrow> addr option \<Rightarrow> 'v list \<Rightarrow> ('v :: zero) mapState
   \<Rightarrow> ('v mapState \<times> addr option \<times> 'v list \<times> bool) res option" where
  "insertEvictLoop valueSize evictedPrePut recycledEntry evictedValues st =
    (if shouldEvictPreInsertOnPut (m_ps (fst st)) valueSize (m_maxSize (fst st)) (m_currentSize (fst st))
          (mapLen (fst st)) evictedPrePut \<and> 0 < mapLen (fst st)
     then (case entryList_Back (m_entries (fst st)) of
             None \<Rightarrow> Some (Inl NilDeref)
           | Some victim \<Rightarrow> (case mapCache_eraseEntryLocked victim EvictionReasonCapacity st of (st', evicted) \<Rightarrow>
               insertEvictLoop valueSize True (if recycledEntry = None then Some victim else recycledEntry)
                 (evictedValues @ [evicted]) st'))
     else Some (Inr (st, recycledEntry, evictedValues, evictedPrePut)))"

definition mapCache_insertOnPutLocked ::
  "string \<Rightarrow> 'v \<Rightarrow> u64 \<Rightarrow> u64 \<Rightarrow> float64 \<Rightarrow> ('v :: zero) mapState
   \<Rightarrow> ('v mapState \<times> addr \<times> 'v list \<times> bool \<times> bool) res" where
  \<comment> \<open>the else branch of \<open>Put\<close>: \<open>(e, evictedValues, reclaimedPrePut, compactedPrePut)\<close>\<close>
  "mapCache_insertOnPutLocked key value valueSize sizeBefore pressure st =
     bindr (of_loop (insertEvictLoop valueSize False None [] st)) (\<lambda>((c, q), recycledEntry, evictedValues, evictedPrePut).
     let reclaimEmpty = shouldReclaimEmptyPrePut (m_ps c) (mapLen c) False evictedPrePut valueSize sizeBefore pressure;
         c1 = (if reclaimEmpty
               then mapCache_clearEmptyIndexStateLocked (onPs (recordCompactionByPressure pressure) c) else c);
         reclaimedPrePut = (reclaimEmpty \<or> shouldReclaimSingleSurvivorOnMutation (m_ps c) (mapLen c)
           (mapCache_hasSlackLocked c) False evictedPrePut (m_currentSize c + valueSize) sizeBefore pressure);
         clonedKey = clonePrefix key;
         (c2, e) = allocOrRecycleEntry recycledEntry clonedKey value valueSize c1;
         c3 = onEntries (PushFront e) c2;
         c4 = c3\<lparr>m_index := AList.update clonedKey e (m_index c3)\<rparr>;
         c5 = onPs (\<lambda>p. p\<lparr>putInserted := putInserted p + 1\<rparr>) c4;
         c6 = onPs (onEntryPut (mapLen c5) valueSize) c5;
         c7 = c6\<lparr>m_currentSize := m_currentSize c6 + valueSize\<rparr>
     in Inr ((c7, q), e, evictedValues, reclaimedPrePut, reclaimEmpty))"

definition lockMapCache :: "samplingEnv \<Rightarrow> bool \<Rightarrow> 'v mapCache \<Rightarrow> 'v mapCache \<times> u64 \<times> float64" where
  \<comment> \<open>\<open>c.lockWithPressure(&c.mu, fresh)\<close>\<close>
  "lockMapCache env fresh c = (let (p, sampledEpoch, pressure) = lockWithPressure env fresh (m_ps c)
     in (c\<lparr>m_ps := p\<rparr>, sampledEpoch, pressure))"

definition invokeCallbacks :: "('v :: zero) mapCache \<Rightarrow> 'v evictCallbackQueue \<Rightarrow> 'v callback list" where
  "invokeCallbacks c q = evictQueue_invoke (m_onEvictValue c) (m_onEvictEntry c) q"

definition mapCache_Put ::
  "samplingEnv \<Rightarrow> string \<Rightarrow> 'v \<Rightarrow> ('v :: zero) mapCache
   \<Rightarrow> ('v mapCache \<times> 'v list \<times> lruError option \<times> 'v callback list) res" where
  "mapCache_Put env key value c0 = (let valueSize = mapCache_weigh c0 key value in
     if m_maxSize c0 < valueSize
     then Inr (onPs (\<lambda>p. p\<lparr>putRejectedOversized := putRejectedOversized p + 1\<rparr>) c0, [], Some ErrInvalidEntrySize, [])
     else let
       (c, sampledEpoch, pressure) = lockMapCache env False c0;
       evictQ = newEvictQueue False;
       sizeBefore = m_currentSize c in
       bindr (case map_of (m_index c) key of
           Some e \<Rightarrow>
             bindr (mapCache_updateExistingOnPutLocked e value valueSize sizeBefore pressure (c, evictQ))
               (\<lambda>(st, evictedValues, reclaimedPrePut). Inr (st, e, evictedValues, reclaimedPrePut, False))
         | None \<Rightarrow> mapCache_insertOnPutLocked key value valueSize sizeBefore pressure (c, evictQ))
         (\<lambda>((c1, q1), e, evictedValues, reclaimedPrePut, compactedPrePut).
       bindr (if needsMutationReclaim (m_ps c1) reclaimedPrePut (m_currentSize c1) sizeBefore pressure
              then mapCache_finishMutationReclaimLocked evictedValues (Some e) reclaimedPrePut compactedPrePut
                     sizeBefore sampledEpoch pressure (c1, q1)
              else Inr ((c1, q1), evictedValues)) (\<lambda>((c2, q2), evictedValues2).
       bindr (mapCache_unlock c2) (\<lambda>_.
       Inr (c2, evictedValues2, None, invokeCallbacks c2 q2)))))"

subsection \<open>Delete, Get and Peek\<close>

definition mapCache_Delete ::
  "samplingEnv \<Rightarrow> string \<Rightarrow> ('v :: zero) mapCache \<Rightarrow> ('v mapCache \<times> 'v \<times> bool \<times> 'v callback list) res" where
  "mapCache_Delete env key c0 = (let
     (c, sampledEpoch, pressure) = lockMapCache env False c0;
     evictQ = newEvictQueue True;
     sizeBefore = m_currentSize c;
     ((c1, q1), deleted, ok) = mapCache_eraseInternal key EvictionReasonDeleted (c, evictQ) in
     if \<not> ok then
       let c2 = onPs (\<lambda>p. p\<lparr>deleteNotFound := deleteNotFound p + 1\<rparr>) c1
       in bindr (mapCache_unlock c2) (\<lambda>_. Inr (c2, deleted, False, []))
     else
       let c2 = onPs (\<lambda>p. p\<lparr>deleteDeleted := deleteDeleted p + 1\<rparr>) c1 in
       bindr (mapCache_finishDeleteReclaimLocked sizeBefore sampledEpoch pressure (c2, q1)) (\<lambda>(c3, q3).
       bindr (mapCache_unlock c3) (\<lambda>_. Inr (c3, deleted, True, invokeCallbacks c3 q3))))"

definition mapCache_Get :: "string \<Rightarrow> ('v :: zero) mapCache \<Rightarrow> ('v mapCache \<times> 'v \<times> bool) res" where
  "mapCache_Get key c = (case map_of (m_index c) key of
     Some e \<Rightarrow> (let c1 = onEntries (MoveToFront e) (onPs (\<lambda>p. p\<lparr>getHits := getHits p + 1\<rparr>) c)
                in bindr (mapCache_unlock c1) (\<lambda>_. Inr (c1, evalue (m_heap c1 e), True)))
   | None \<Rightarrow> (let c1 = onPs (\<lambda>p. p\<lparr>getMisses := getMisses p + 1\<rparr>) c
              in bindr (mapCache_unlock c1) (\<lambda>_. Inr (c1, 0, False))))"

definition mapCache_Peek :: "string \<Rightarrow> ('v :: zero) mapCache \<Rightarrow> ('v mapCache \<times> 'v \<times> bool) res" where
  "mapCache_Peek key c = (case map_of (m_index c) key of
     Some e \<Rightarrow> (let c1 = onPs (\<lambda>p. p\<lparr>peekHits := peekHits p + 1\<rparr>) c
                in bindr (mapCache_unlock c1) (\<lambda>_. Inr (c1, evalue (m_heap c1 e), True)))
   | None \<Rightarrow> (let c1 = onPs (\<lambda>p. p\<lparr>peekMisses := peekMisses p + 1\<rparr>) c
              in bindr (mapCache_unlock c1) (\<lambda>_. Inr (c1, 0, False))))"

subsection \<open>Replace\<close>

partial_function (option) canFitLoop ::
  "'v heap \<Rightarrow> addr \<Rightarrow> u64 \<Rightarrow> u64 \<Rightarrow> u64 \<Rightarrow> u64 \<Rightarrow> addr option \<Rightarrow> addr option \<Rightarrow> bool res option" where
  "canFitLoop h e maxNewer sizeDelta newerSize avail headCurr tailCurr =
    (if headCurr = Some e then Some (Inr True)
     else case headCurr of None \<Rightarrow> Some (Inl NilDeref)
     | Some hc \<Rightarrow> let newerSize' = newerSize + esize (h hc) in
         if maxNewer < newerSize' then Some (Inr False)
         else if tailCurr = Some e then Some (Inr False)
         else case tailCurr of None \<Rightarrow> Some (Inl NilDeref)
         | Some tc \<Rightarrow> let avail' = avail + esize (h tc) in
             if sizeDelta \<le> avail' then Some (Inr True)
             else canFitLoop h e maxNewer sizeDelta newerSize' avail' (next (h hc)) (prev (h tc)))"

definition mapCache_canFitGrowthLocked :: "'v mapCache \<Rightarrow> addr \<Rightarrow> u64 \<Rightarrow> u64 \<Rightarrow> u64 \<Rightarrow> bool res" where
  "mapCache_canFitGrowthLocked c e maxNewer sizeDelta avail =
    (if sizeDelta \<le> avail then Inr True
     else of_loop (canFitLoop (m_heap c) e maxNewer sizeDelta 0 avail (head (m_entries c)) (tail (m_entries c))))"

partial_function (option) growEvictLoop ::
  "addr \<Rightarrow> u64 \<Rightarrow> bool \<Rightarrow> ('v :: zero) mapState \<Rightarrow> ('v mapState \<times> bool) option" where
  "growEvictLoop e sizeDelta evictedAny st =
    (if m_maxSize (fst st) - m_currentSize (fst st) < sizeDelta \<and> 0 < mapLen (fst st)
        \<and> entryList_Back (m_entries (fst st)) \<noteq> Some e
     then (case mapCache_evictOne st of (st', _, _) \<Rightarrow> growEvictLoop e sizeDelta True st')
     else Some (st, evictedAny))"

definition mapCache_replaceResizeOrEvictLocked ::
  "addr \<Rightarrow> u64 \<Rightarrow> u64 \<Rightarrow> u64 \<Rightarrow> u64 \<Rightarrow> float64 \<Rightarrow> ('v :: zero) mapState \<Rightarrow> ('v mapState \<times> bool \<times> bool) res" where
  \<comment> \<open>\<open>(evictedAny, selfEvicted)\<close>\<close>
  "mapCache_replaceResizeOrEvictLocked e oldSize newSize sizeBefore sampledEpoch pressure st = (let (c, q) = st in
     if oldSize < newSize then
       let sizeDelta = newSize - oldSize in
       bindr (if m_maxSize c < newSize then Inr False
              else mapCache_canFitGrowthLocked c e (m_maxSize c - newSize) sizeDelta (m_maxSize c - m_currentSize c))
         (\<lambda>fits.
       if \<not> fits then
         let c1 = onPs (\<lambda>p. p\<lparr>replaceSelfEvicted := replaceSelfEvicted p + 1\<rparr>) c;
             (st2, _) = mapCache_eraseEntryLocked e EvictionReasonCapacity (c1, q) in
         bindr (mapCache_finishDeleteReclaimLocked sizeBefore sampledEpoch pressure st2) (\<lambda>st3.
         Inr (st3, False, True))
       else
         bindr (of_loop (map_option Inr (growEvictLoop e sizeDelta False st))) (\<lambda>((c1, q1), evictedAny).
         let c2 = onPs (onEntrySizeUpdated oldSize newSize) c1
         in Inr ((c2\<lparr>m_currentSize := m_currentSize c2 + sizeDelta\<rparr>, q1), evictedAny, False)))
     else let
       shrink = (shouldEvictOnZeroWeightShrink (m_ps c) oldSize newSize (m_maxSize c)
                 \<and> entryList_Back (m_entries c) \<noteq> Some e);
       (c1, q1) = (if shrink then fst (mapCache_evictOne st) else st);
       c2 = onPs (onEntrySizeUpdated oldSize newSize) c1
       in Inr ((c2\<lparr>m_currentSize := m_currentSize c2 - (oldSize - newSize)\<rparr>, q1), shrink, False))"

definition mapCache_Replace ::
  "samplingEnv \<Rightarrow> string \<Rightarrow> 'v \<Rightarrow> ('v :: zero) mapCache
   \<Rightarrow> ('v mapCache \<times> lruError option \<times> 'v callback list) res" where
  "mapCache_Replace env key value c0 = (let
     newSize = mapCache_weigh c0 key value;
     (c, sampledEpoch, pressure) = lockMapCache env False c0;
     evictQ = newEvictQueue False in
     case map_of (m_index c) key of
       None \<Rightarrow> (let c1 = onPs (\<lambda>p. p\<lparr>replaceNotFound := replaceNotFound p + 1\<rparr>) c
                in bindr (mapCache_unlock c1) (\<lambda>_. Inr (c1, Some ErrEntryNotExist, [])))
     | Some e \<Rightarrow> (let
         oldSize = esize (m_heap c e);
         oldValue = evalue (m_heap c e);
         sizeBefore = m_currentSize c in
         bindr (if newSize \<noteq> oldSize
                then mapCache_replaceResizeOrEvictLocked e oldSize newSize sizeBefore sampledEpoch pressure (c, evictQ)
                else Inr ((c, evictQ), False, False)) (\<lambda>((c1, q1), evictedAny, selfEvicted).
         if selfEvicted then bindr (mapCache_unlock c1) (\<lambda>_. Inr (c1, None, invokeCallbacks c1 q1))
         else let
           c2 = c1\<lparr>m_heap := (m_heap c1)(e := (m_heap c1 e)\<lparr>evalue := value, esize := newSize\<rparr>)\<rparr>;
           c3 = onPs (\<lambda>p. p\<lparr>replaceUpdated := replaceUpdated p + 1\<rparr>) c2;
           (c4, q4) = mapCache_notifyReplaced (ekey (m_heap c3 e)) oldValue oldSize (c3, q1);
           reclaimedPreUpdate = shouldReclaimSingleSurvivorOnMutation (m_ps c4) (mapLen c4) (m_dirtyIndex c4) False
             evictedAny (m_currentSize c4) sizeBefore pressure in
           bindr (if needsMutationReclaim (m_ps c4) reclaimedPreUpdate (m_currentSize c4) sizeBefore pressure
                  then bindr (mapCache_finishMutationReclaimLocked [] (Some e) reclaimedPreUpdate False sizeBefore
                                sampledEpoch pressure (c4, q4)) (\<lambda>(st, _). Inr st)
                  else Inr (c4, q4)) (\<lambda>(c5, q5).
           bindr (mapCache_unlock c5) (\<lambda>_. Inr (c5, None, invokeCallbacks c5 q5))))))"

subsection \<open>DeletePrefix\<close>

definition mapCache_isCleanEmptyLocked :: "'v mapCache \<Rightarrow> bool" where
  "mapCache_isCleanEmptyLocked c = (let
     hadEntries = (0 < mapLen c);
     hadDirtySlack = (m_dirtyIndex c \<or> minPeakSlackEntries < peakEntryLen (m_ps c) \<or> 0 < deletedSinceCompact (m_ps c))
     in \<not> hadEntries \<and> \<not> hadDirtySlack \<and> peakEntryLen (m_ps c) = 0)"

partial_function (option) deleteAllLoop ::
  "bool \<Rightarrow> addr option \<Rightarrow> ('v :: zero) heap \<Rightarrow> 'v evictCallbackQueue \<Rightarrow> ('v heap \<times> 'v evictCallbackQueue) option" where
  "deleteAllLoop hasCB e h q = (case e of None \<Rightarrow> Some (h, q)
   | Some a \<Rightarrow> let nxt = next (h a) in
       deleteAllLoop hasCB nxt
         (h(a := (h a)\<lparr>ekey := '''', evalue := 0, esize := 0, prev := None, next := None\<rparr>))
         (if hasCB then enqueue (ekey (h a)) (evalue (h a)) EvictionReasonDeleted q else q))"

definition mapCache_deleteAllPrefixLocked ::
  "u64 \<Rightarrow> float64 \<Rightarrow> ('v :: zero) mapState \<Rightarrow> 'v mapState res" where
  "mapCache_deleteAllPrefixLocked sampledEpoch pressure st = (let (c0, q) = st;
     c = onPs (\<lambda>p. p\<lparr>deletePrefixExecuted := deletePrefixExecuted p + 1\<rparr>) c0 in
     if mapCache_isCleanEmptyLocked c then Inr (c, q)
     else let
       hadDirtySlack = (m_dirtyIndex c \<or> minPeakSlackEntries < peakEntryLen (m_ps c) \<or> 0 < deletedSinceCompact (m_ps c));
       hadReclaimable = (0 < m_currentSize c \<or> hadDirtySlack);
       c1 = onPs (\<lambda>p. p\<lparr>deletedSinceCompact := deletedSinceCompact p + mapLen c\<rparr>) c;
       hadCompactionSlack = hasEmptyDeleteSlack (m_ps c1) False;
       c2 = onPs (\<lambda>p. p\<lparr>evictionsDeleted := evictionsDeleted p + word_of_int (mapLen c1),
                        evictedWeightDeleted := evictedWeightDeleted p + m_currentSize c1\<rparr>) c1 in
       bindr (of_loop (map_option Inr (deleteAllLoop (hasEvictCB c2) (entryList_Front (m_entries c2)) (m_heap c2) q)))
         (\<lambda>(h, q').
       let c3 = c2\<lparr>m_heap := h, m_entries := entryList_Init (m_entries c2), m_currentSize := 0\<rparr>
       in Inr (onPs (finishClearAllLocked hadCompactionSlack hadReclaimable sampledEpoch pressure)
                 (mapCache_clearEmptyIndexStateLocked c3), q')))"

fun erasePrefixLoop :: "string \<Rightarrow> string list \<Rightarrow> ('v :: zero) mapState \<Rightarrow> bool \<Rightarrow> 'v mapState \<times> bool" where
  "erasePrefixLoop pre [] st erasedAny = (st, erasedAny)"
| "erasePrefixLoop pre (key # ks) st erasedAny = (case map_of (m_index (fst st)) key of
     Some e \<Rightarrow>
       if take (length pre) key = pre   \<comment> \<open>\<open>strings.HasPrefix\<close>\<close>
       then erasePrefixLoop pre ks (fst (mapCache_eraseEntryLocked e EvictionReasonDeleted st)) True
       else erasePrefixLoop pre ks st erasedAny
   | None \<Rightarrow> erasePrefixLoop pre ks st erasedAny)"

definition mapCache_deleteNonEmptyPrefixLocked ::
  "(string list \<Rightarrow> string list) \<Rightarrow> string \<Rightarrow> u64 \<Rightarrow> float64 \<Rightarrow> ('v :: zero) mapState \<Rightarrow> 'v mapState res" where
  \<comment> \<open>\<open>rng\<close> is the order in which \<open>range\<close> visits the keys of the map\<close>
  "mapCache_deleteNonEmptyPrefixLocked rng pre sampledEpoch pressure st = (let (c0, q) = st;
     c = onPs (\<lambda>p. p\<lparr>deletePrefixExecuted := deletePrefixExecuted p + 1\<rparr>) c0;
     sizeBefore = m_currentSize c;
     (st1, erasedAny) = erasePrefixLoop pre (rng (map fst (m_index c))) (c, q) False
     in if \<not> erasedAny then Inr st1
        else mapCache_finishDeleteReclaimLocked sizeBefore sampledEpoch pressure st1)"

definition mapCache_deletePrefixShard ::
  "samplingEnv \<Rightarrow> (string list \<Rightarrow> string list) \<Rightarrow> string \<Rightarrow> shardSample \<Rightarrow> ('v :: zero) mapState
   \<Rightarrow> ('v mapState \<times> shardSample \<times> bool) res" where
  "mapCache_deletePrefixShard env rng pre sample st = (let (c, q) = st in
     if pre = '''' then
       (if mapCache_isCleanEmptyLocked c then
          let c1 = onPs (\<lambda>p. p\<lparr>deletePrefixExecuted := deletePrefixExecuted p + 1\<rparr>) c
          in bindr (mapCache_unlock c1) (\<lambda>_. Inr ((c1, q), sample, h_hasSample sample))
        else case (if h_hasSample sample then tryApplyShardSampleLocked False sample (m_ps c) else None) of
          Some (p1, sample1) \<Rightarrow> (let preEpoch = ownReclaimEpoch p1 in
            bindr (mapCache_deleteAllPrefixLocked preEpoch (h_pressure sample1) (c\<lparr>m_ps := p1\<rparr>, q)) (\<lambda>(c2, q2).
            bindr (mapCache_unlock c2) (\<lambda>_.
            Inr ((c2, q2), advanceSelfReclaim (ownReclaimEpoch (m_ps c2)) preEpoch sample1, True))))
        | None \<Rightarrow> (let (p1, sampledEpoch, out) = lockShardWithSample env False sample (m_ps c) in
            bindr (mapCache_deleteAllPrefixLocked sampledEpoch (h_pressure out) (c\<lparr>m_ps := p1\<rparr>, q)) (\<lambda>(c2, q2).
            bindr (mapCache_unlock c2) (\<lambda>_.
            Inr ((c2, q2), advanceSelfReclaim (ownReclaimEpoch (m_ps c2)) sampledEpoch out, True)))))
     else let (p1, sampledEpoch, out) = lockShardWithSample env False sample (m_ps c) in
       bindr (mapCache_deleteNonEmptyPrefixLocked rng pre sampledEpoch (h_pressure out) (c\<lparr>m_ps := p1\<rparr>, q)) (\<lambda>(c2, q2).
       bindr (mapCache_unlock c2) (\<lambda>_.
       Inr ((c2, q2), advanceSelfReclaim (ownReclaimEpoch (m_ps c2)) sampledEpoch out, True))))"

definition mapCache_DeletePrefix ::
  "samplingEnv \<Rightarrow> (string list \<Rightarrow> string list) \<Rightarrow> string \<Rightarrow> ('v :: zero) mapCache
   \<Rightarrow> ('v mapCache \<times> 'v callback list) res" where
  "mapCache_DeletePrefix env rng pre c0 =
     bindr (mapCache_deletePrefixShard env rng pre emptyShardSample (c0, newEvictQueue True)) (\<lambda>((c, q), _, _).
     Inr (c, invokeCallbacks c q))"

subsection \<open>Iteration, statistics and explicit reclamation\<close>

partial_function (option) iterateLoop ::
  "'v heap \<Rightarrow> ((string \<times> 'v) list \<Rightarrow> bool) \<Rightarrow> addr option \<Rightarrow> (string \<times> 'v) list \<Rightarrow> ((string \<times> 'v) list \<times> bool) option" where
  \<comment> \<open>\<open>yield\<close> decides from everything it has been given, the current pair last\<close>
  "iterateLoop h yield e yielded = (case e of None \<Rightarrow> Some (yielded, True)
   | Some a \<Rightarrow> let yielded' = yielded @ [(ekey (h a), evalue (h a))] in
       if \<not> yield yielded' then Some (yielded', False)
       else iterateLoop h yield (next (h a)) yielded')"

definition mapCache_iterateAll ::
  "((string \<times> 'v) list \<Rightarrow> bool) \<Rightarrow> 'v mapCache \<Rightarrow> ((string \<times> 'v) list \<times> bool) res" where
  "mapCache_iterateAll yield c =
     bindr (of_loop (map_option Inr (iterateLoop (m_heap c) yield (entryList_Front (m_entries c)) []))) (\<lambda>r.
     bindr (mapCache_unlock c) (\<lambda>_. Inr r))"

definition mapCache_iterateKeys :: "(string list \<Rightarrow> bool) \<Rightarrow> 'v mapCache \<Rightarrow> (string list \<times> bool) res" where
  "mapCache_iterateKeys yield c =
     bindr (mapCache_iterateAll (\<lambda>kvs. yield (map fst kvs)) c) (\<lambda>(kvs, b). Inr (map fst kvs, b))"

definition mapCache_iterateValues :: "('v list \<Rightarrow> bool) \<Rightarrow> 'v mapCache \<Rightarrow> ('v list \<times> bool) res" where
  "mapCache_iterateValues yield c =
     bindr (mapCache_iterateAll (\<lambda>kvs. yield (map snd kvs)) c) (\<lambda>(kvs, b). Inr (map snd kvs, b))"

definition mapCache_Stats :: "'v mapCache \<Rightarrow> Stats res" where
  "mapCache_Stats c =
     bindr (mapCache_unlock c) (\<lambda>_.
     Inr (snapshotBaseStats (m_ps c) BackendMap (m_currentSize c) (m_maxSize c) (mapLen c)))"

definition mapCache_Compact :: "'v mapCache \<Rightarrow> 'v mapCache res" where
  "mapCache_Compact c = (let c1 = mapCache_compactLocked c in bindr (mapCache_unlock c1) (\<lambda>_. Inr c1))"

definition mapCache_evaluateShardPressure ::
  "samplingEnv \<Rightarrow> shardSample \<Rightarrow> ('v :: zero) mapState \<Rightarrow> ('v mapState \<times> 'v list \<times> shardSample) res" where
  "mapCache_evaluateShardPressure env sample st = (let (c, q) = st;
     (p1, sampledEpoch, out) = lockShardWithSample env True sample (m_ps c) in
     bindr (mapCache_maybeReclaimUnderPressureLocked (h_pressure out) None True (c\<lparr>m_ps := p1\<rparr>, q)) (\<lambda>((c2, q2), evicted).
     bindr (mapCache_unlock c2) (\<lambda>_.
     Inr ((c2, q2), evicted, advanceSelfReclaim (ownReclaimEpoch (m_ps c2)) sampledEpoch out))))"

definition mapCache_EvaluateMemoryPressure ::
  "samplingEnv \<Rightarrow> ('v :: zero) mapCache \<Rightarrow> ('v mapCache \<times> 'v list \<times> 'v callback list) res" where
  "mapCache_EvaluateMemoryPressure env c0 =
     bindr (mapCache_evaluateShardPressure env emptyShardSample (c0, newEvictQueue True)) (\<lambda>((c, q), evicted, _).
     Inr (c, evicted, invokeCallbacks c q))"

end
