(* ===== verification/Telemetry.thy ===== *)
theory Telemetry
  imports Sampling
begin

text \<open>
  What the checks of \<open>checkTelemetryInvariants\<close> need, as an invariant of the embedded
  \<open>pressureState\<close>, and that every bookkeeping operation keeps it.

  \<open>books_ok p n z dd rr ss\<close> relates the counters to a cache with \<open>n\<close> entries, \<open>z\<close> of them of weight 0.
  The counters are read as natural numbers: with \<open>n\<close> plus the removals equal to \<open>putInserted\<close>, no
  removal counter can wrap before \<open>putInserted\<close> does. In the middle of an operation some counters run
  ahead of others; \<open>dd\<close>, \<open>rr\<close> and \<open>ss\<close> are the credits of \<open>evictionsDeleted\<close> over \<open>deleteDeleted\<close>, of
  \<open>evictionsCapacity\<close> over \<open>replaceSelfEvicted\<close> and of \<open>evictionsPressure\<close> over the shed counters.
\<close>

definition ledger where
  \<comment> \<open>the fields that the telemetry checks read, less the sampled pressure\<close>
  "ledger p = (options p, peakEntryLen p, deletedSinceCompact p, zeroSizeCount p,
     (evictionsCapacity p, evictionsPressure p, evictionsDeleted p, evictionsReplaced p),
     (putInserted p, putUpdated p, replaceUpdated p, replaceSelfEvicted p, deleteDeleted p),
     (pressureShedsInline p, pressureShedsExplicit p))"

definition books_ok :: "('v, 'm) pressureState_scheme \<Rightarrow> nat \<Rightarrow> nat \<Rightarrow> int \<Rightarrow> int \<Rightarrow> int \<Rightarrow> bool" where
  "books_ok p n z dd rr ss =
    (zeroSizeCount p = int z \<and> z \<le> n \<and> 0 \<le> deletedSinceCompact p \<and> int n \<le> peakEntryLen p
     \<and> int (unat (deleteDeleted p)) + dd \<le> int (unat (evictionsDeleted p))
     \<and> int (unat (replaceSelfEvicted p)) + rr \<le> int (unat (evictionsCapacity p))
     \<and> int (unat (pressureShedsInline p)) + int (unat (pressureShedsExplicit p)) + ss \<le> int (unat (evictionsPressure p))
     \<and> putUpdated p + replaceUpdated p = evictionsReplaced p
     \<and> n + unat (evictionsCapacity p) + unat (evictionsPressure p) + unat (evictionsDeleted p) = unat (putInserted p))"

definition ps_ok :: "('v, 'm) pressureState_scheme \<Rightarrow> nat \<Rightarrow> nat \<Rightarrow> int \<Rightarrow> int \<Rightarrow> int \<Rightarrow> bool" where
  "ps_ok p n z dd rr ss = (books_ok p n z dd rr ss \<and> sampling_ok p)"

lemma books_ok_ledger: "ledger p' = ledger p \<Longrightarrow> books_ok p' n z dd rr ss = books_ok p n z dd rr ss"
  by (simp add: ledger_def books_ok_def)

lemma ps_ok_ledger:
  "ledger p' = ledger p \<Longrightarrow> (sampling_ok p \<Longrightarrow> sampling_ok p') \<Longrightarrow> ps_ok p n z dd rr ss \<Longrightarrow> ps_ok p' n z dd rr ss"
  using books_ok_ledger [of p' p] by (simp add: ps_ok_def)

lemma ledger_books: "books p' = books p \<Longrightarrow> ledger p' = ledger p"
  by (simp add: books_def ledger_def)

lemma ledger_options: "ledger p' = ledger p \<Longrightarrow> options p' = options p"
  by (simp add: ledger_def)

lemma ps_ok_sampled: "sampled p p' \<Longrightarrow> ps_ok p n z dd rr ss \<Longrightarrow> ps_ok p' n z dd rr ss"
  using ps_ok_ledger [OF ledger_books, of p' p] by (simp add: sampled_def)

lemma ps_ok_weaken:
  "ps_ok p n z dd rr ss \<Longrightarrow> dd' \<le> dd \<Longrightarrow> rr' \<le> rr \<Longrightarrow> ss' \<le> ss \<Longrightarrow> ps_ok p n z dd' rr' ss'"
  by (simp add: ps_ok_def books_ok_def)

lemma ledger_update [simp]:
  "ledger (p\<lparr>coord := x0\<rparr>) = ledger p"
  "ledger (p\<lparr>shardReclaimEpoch := x1\<rparr>) = ledger p"
  "ledger (p\<lparr>shardExtReclaimEpoch := x2\<rparr>) = ledger p"
  "ledger (p\<lparr>lastReclaimedZeroCount := x3\<rparr>) = ledger p"
  "ledger (p\<lparr>lastReclaimedLen := x4\<rparr>) = ledger p"
  "ledger (p\<lparr>hasValidSample := x5\<rparr>) = ledger p"
  "ledger (p\<lparr>getHits := x6\<rparr>) = ledger p"
  "ledger (p\<lparr>getMisses := x7\<rparr>) = ledger p"
  "ledger (p\<lparr>evictedWeightCapacity := x8\<rparr>) = ledger p"
  "ledger (p\<lparr>evictedWeightPressure := x9\<rparr>) = ledger p"
  "ledger (p\<lparr>evictedWeightDeleted := x10\<rparr>) = ledger p"
  "ledger (p\<lparr>evictedWeightReplaced := x11\<rparr>) = ledger p"
  "ledger (p\<lparr>replaceNotFound := x12\<rparr>) = ledger p"
  "ledger (p\<lparr>deleteNotFound := x13\<rparr>) = ledger p"
  "ledger (p\<lparr>deletePrefixExecuted := x14\<rparr>) = ledger p"
  "ledger (p\<lparr>compactionsExplicit := x15\<rparr>) = ledger p"
  "ledger (p\<lparr>compactionsPressureTier1 := x16\<rparr>) = ledger p"
  "ledger (p\<lparr>compactionsPressureTier2 := x17\<rparr>) = ledger p"
  "ledger (p\<lparr>compactionsAutoSlack := x18\<rparr>) = ledger p"
  "ledger (p\<lparr>peekHits := x19\<rparr>) = ledger p"
  "ledger (p\<lparr>peekMisses := x20\<rparr>) = ledger p"
  "ledger (p\<lparr>putRejectedOversized := x21\<rparr>) = ledger p"
  "ledger (p\<lparr>arenaHashFallbacks := x22\<rparr>) = ledger p"
  "ledger (p\<lparr>zeroWatermarkTier2Epoch := x23\<rparr>) = ledger p"
  "ledger (p\<lparr>zeroWatermarkSeq := x24\<rparr>) = ledger p"
  by (simp_all add: ledger_def)

lemma sampling_ok_counters [simp]:
  "sampling_ok (p\<lparr>peakEntryLen := x0\<rparr>) = sampling_ok p"
  "sampling_ok (p\<lparr>deletedSinceCompact := x1\<rparr>) = sampling_ok p"
  "sampling_ok (p\<lparr>zeroSizeCount := x2\<rparr>) = sampling_ok p"
  "sampling_ok (p\<lparr>getHits := x3\<rparr>) = sampling_ok p"
  "sampling_ok (p\<lparr>getMisses := x4\<rparr>) = sampling_ok p"
  "sampling_ok (p\<lparr>evictionsCapacity := x5\<rparr>) = sampling_ok p"
  "sampling_ok (p\<lparr>evictionsPressure := x6\<rparr>) = sampling_ok p"
  "sampling_ok (p\<lparr>evictionsDeleted := x7\<rparr>) = sampling_ok p"
  "sampling_ok (p\<lparr>evictionsReplaced := x8\<rparr>) = sampling_ok p"
  "sampling_ok (p\<lparr>evictedWeightCapacity := x9\<rparr>) = sampling_ok p"
  "sampling_ok (p\<lparr>evictedWeightPressure := x10\<rparr>) = sampling_ok p"
  "sampling_ok (p\<lparr>evictedWeightDeleted := x11\<rparr>) = sampling_ok p"
  "sampling_ok (p\<lparr>evictedWeightReplaced := x12\<rparr>) = sampling_ok p"
  "sampling_ok (p\<lparr>putInserted := x13\<rparr>) = sampling_ok p"
  "sampling_ok (p\<lparr>putUpdated := x14\<rparr>) = sampling_ok p"
  "sampling_ok (p\<lparr>replaceUpdated := x15\<rparr>) = sampling_ok p"
  "sampling_ok (p\<lparr>replaceNotFound := x16\<rparr>) = sampling_ok p"
  "sampling_ok (p\<lparr>replaceSelfEvicted := x17\<rparr>) = sampling_ok p"
  "sampling_ok (p\<lparr>deleteDeleted := x18\<rparr>) = sampling_ok p"
  "sampling_ok (p\<lparr>deleteNotFound := x19\<rparr>) = sampling_ok p"
  "sampling_ok (p\<lparr>deletePrefixExecuted := x20\<rparr>) = sampling_ok p"
  "sampling_ok (p\<lparr>compactionsExplicit := x21\<rparr>) = sampling_ok p"
  "sampling_ok (p\<lparr>compactionsPressureTier1 := x22\<rparr>) = sampling_ok p"
  "sampling_ok (p\<lparr>compactionsPressureTier2 := x23\<rparr>) = sampling_ok p"
  "sampling_ok (p\<lparr>compactionsAutoSlack := x24\<rparr>) = sampling_ok p"
  "sampling_ok (p\<lparr>pressureShedsInline := x25\<rparr>) = sampling_ok p"
  "sampling_ok (p\<lparr>pressureShedsExplicit := x26\<rparr>) = sampling_ok p"
  "sampling_ok (p\<lparr>peekHits := x27\<rparr>) = sampling_ok p"
  "sampling_ok (p\<lparr>peekMisses := x28\<rparr>) = sampling_ok p"
  "sampling_ok (p\<lparr>putRejectedOversized := x29\<rparr>) = sampling_ok p"
  "sampling_ok (p\<lparr>arenaHashFallbacks := x30\<rparr>) = sampling_ok p"
  by (simp_all add: sampling_ok_def)

subsection \<open>Operations that leave the ledger alone\<close>

lemma markReclaimed_ledger [simp]: "ledger (markReclaimedLocked p) = ledger p"
  by (simp add: markReclaimedLocked_def Let_def)

lemma markReclaimed_sampling: "sampling_ok p \<Longrightarrow> sampling_ok (markReclaimedLocked p)"
  by (simp add: markReclaimedLocked_def Let_def)
    (simp add: sampling_ok_def coord_ok_def invalidateCachedFieldsOnReclaimLocked_def)

lemma recordCompaction_keeps [simp]:
  "ledger (recordCompactionByPressure x p) = ledger p"
  "sampling_ok (recordCompactionByPressure x p) = sampling_ok p"
  by (simp_all add: recordCompactionByPressure_def)

lemma maybeMarkReclaimed_ledger [simp]: "ledger (maybeMarkReclaimed b e x p) = ledger p"
  by (simp add: maybeMarkReclaimed_def)

lemma maybeMarkReclaimed_sampling: "sampling_ok p \<Longrightarrow> sampling_ok (maybeMarkReclaimed b e x p)"
  by (simp add: maybeMarkReclaimed_def markReclaimed_sampling)

lemma finishClearAll_ledger [simp]: "ledger (finishClearAllLocked a b e x p) = ledger p"
  by (simp add: finishClearAllLocked_def)

lemma finishClearAll_sampling: "sampling_ok p \<Longrightarrow> sampling_ok (finishClearAllLocked a b e x p)"
  by (simp add: finishClearAllLocked_def maybeMarkReclaimed_sampling)

lemma resetZeroWatermark_ledger [simp]: "ledger (resetZeroWatermarkBelowTier2 x p) = ledger p"
  by (rule ledger_books) simp

lemma updateZeroWatermark_keeps [simp]:
  "ledger (updateZeroWatermarkAfterShed a b d e f p) = ledger p"
  "sampling_ok (updateZeroWatermarkAfterShed a b d e f p) = sampling_ok p"
  by (simp_all add: updateZeroWatermarkAfterShed_def)

lemmas ps_ok_keep = ps_ok_ledger [OF _ markReclaimed_sampling, OF markReclaimed_ledger]
  ps_ok_ledger [OF _ maybeMarkReclaimed_sampling, OF maybeMarkReclaimed_ledger]
  ps_ok_ledger [OF _ finishClearAll_sampling, OF finishClearAll_ledger]

subsection \<open>Operations that move the ledger\<close>

definition evicting :: "EvictionReason \<Rightarrow> bool" where
  "evicting r = (r \<in> {EvictionReasonCapacity, EvictionReasonPressure, EvictionReasonDeleted})"

lemma ps_ok_erase:
  assumes "ps_ok p (Suc n) (if sz = 0 then Suc z else z) dd rr ss" "z \<le> n" "evicting r"
  shows "ps_ok (recordEviction r sz (onEntryDeleted sz p)) n z
    (if r = EvictionReasonDeleted then dd + 1 else dd)
    (if r = EvictionReasonCapacity then rr + 1 else rr)
    (if r = EvictionReasonPressure then ss + 1 else ss)"
proof -
  have "Suc n + unat (evictionsCapacity p) + unat (evictionsPressure p) + unat (evictionsDeleted p) < 2 ^ 64"
    using assms(1) unat_lt_u64 [of "putInserted p"] by (simp add: ps_ok_def books_ok_def)
  then have inc: "unat (evictionsCapacity p + 1) = Suc (unat (evictionsCapacity p))"
    "unat (evictionsPressure p + 1) = Suc (unat (evictionsPressure p))"
    "unat (evictionsDeleted p + 1) = Suc (unat (evictionsDeleted p))"
    by (auto intro!: unat_inc_u64)
  have sok: "sampling_ok (recordEviction r sz (onEntryDeleted sz p))"
    using assms(1) by (simp add: ps_ok_def recordEviction_def onEntryDeleted_def Let_def split: EvictionReason.splits)
  have p1: "zeroSizeCount (onEntryDeleted sz p) = int z" "deletedSinceCompact (onEntryDeleted sz p) = deletedSinceCompact p + 1"
    "peakEntryLen (onEntryDeleted sz p) = peakEntryLen p" "deleteDeleted (onEntryDeleted sz p) = deleteDeleted p"
    "evictionsDeleted (onEntryDeleted sz p) = evictionsDeleted p" "evictionsCapacity (onEntryDeleted sz p) = evictionsCapacity p"
    "evictionsPressure (onEntryDeleted sz p) = evictionsPressure p" "replaceSelfEvicted (onEntryDeleted sz p) = replaceSelfEvicted p"
    "pressureShedsInline (onEntryDeleted sz p) = pressureShedsInline p"
    "pressureShedsExplicit (onEntryDeleted sz p) = pressureShedsExplicit p"
    "putUpdated (onEntryDeleted sz p) = putUpdated p" "replaceUpdated (onEntryDeleted sz p) = replaceUpdated p"
    "evictionsReplaced (onEntryDeleted sz p) = evictionsReplaced p" "putInserted (onEntryDeleted sz p) = putInserted p"
    using assms(1) by (auto simp: onEntryDeleted_def Let_def ps_ok_def books_ok_def)
  show ?thesis
    using assms inc sok unfolding ps_ok_def books_ok_def evicting_def
    by (auto simp: recordEviction_def p1 simp del: of_nat_unat)
qed

lemma ps_ok_shed:
  assumes "ps_ok p n z dd rr ss" "1 \<le> ss"
  shows "ps_ok (recordPressureShed b p) n z dd rr (ss - 1)"
proof -
  have "unat (pressureShedsInline p) + unat (pressureShedsExplicit p) + 1 < 2 ^ 64"
    using assms unat_lt_u64 [of "evictionsPressure p"] by (simp add: ps_ok_def books_ok_def del: of_nat_unat)
  then have "unat (pressureShedsInline p + 1) = Suc (unat (pressureShedsInline p))"
    "unat (pressureShedsExplicit p + 1) = Suc (unat (pressureShedsExplicit p))"
    by (auto intro!: unat_inc_u64)
  then show ?thesis using assms by (auto simp: ps_ok_def books_ok_def recordPressureShed_def simp del: of_nat_unat)
qed

lemma ps_ok_deleteDeleted:
  assumes "ps_ok p n z dd rr ss" "1 \<le> dd"
  shows "ps_ok (p\<lparr>deleteDeleted := deleteDeleted p + 1\<rparr>) n z (dd - 1) rr ss"
proof -
  have "unat (deleteDeleted p) + 1 < 2 ^ 64"
    using assms unat_lt_u64 [of "evictionsDeleted p"] by (simp add: ps_ok_def books_ok_def del: of_nat_unat)
  then have "unat (deleteDeleted p + 1) = Suc (unat (deleteDeleted p))" by (auto intro!: unat_inc_u64)
  then show ?thesis using assms by (auto simp: ps_ok_def books_ok_def simp del: of_nat_unat)
qed

lemma ps_ok_selfEvicted:
  assumes "ps_ok p (Suc n) z dd rr ss" "0 \<le> rr"
  shows "ps_ok (p\<lparr>replaceSelfEvicted := replaceSelfEvicted p + 1\<rparr>) (Suc n) z dd (rr - 1) ss"
proof -
  have "unat (replaceSelfEvicted p) + 1 < 2 ^ 64"
    using assms unat_lt_u64 [of "putInserted p"] by (simp add: ps_ok_def books_ok_def del: of_nat_unat)
  then have "unat (replaceSelfEvicted p + 1) = Suc (unat (replaceSelfEvicted p))" by (auto intro!: unat_inc_u64)
  then show ?thesis using assms by (auto simp: ps_ok_def books_ok_def simp del: of_nat_unat)
qed

lemma ps_ok_insert:
  assumes "ps_ok p n z dd rr ss" "putInserted p \<noteq> - 1"
  shows "ps_ok (onEntryPut (int (Suc n)) sz (p\<lparr>putInserted := putInserted p + 1\<rparr>)) (Suc n)
    (if sz = 0 then Suc z else z) dd rr ss"
proof -
  have "1 + putInserted p \<noteq> 0" using assms(2) by (metis add_eq_0_iff)
  then have "unat (putInserted p + 1) = Suc (unat (putInserted p))" by (metis unatSuc add.commute)
  then show ?thesis using assms by (auto simp: ps_ok_def books_ok_def onEntryPut_def)
qed

lemma ps_ok_resized:
  assumes "ps_ok p n (if old = 0 then Suc z else z) dd rr ss" "z < n"
  shows "ps_ok (onEntrySizeUpdated old new p) n (if new = 0 then Suc z else z) dd rr ss"
  using assms by (auto simp: ps_ok_def books_ok_def onEntrySizeUpdated_def word_neq_0_conv)

lemma ps_ok_updated:
  assumes "ps_ok p n z dd rr ss"
  shows "ps_ok (p\<lparr>putUpdated := putUpdated p + 1, evictionsReplaced := evictionsReplaced p + 1,
      evictedWeightReplaced := w\<rparr>) n z dd rr ss"
    and "ps_ok (p\<lparr>replaceUpdated := replaceUpdated p + 1, evictionsReplaced := evictionsReplaced p + 1,
      evictedWeightReplaced := w\<rparr>) n z dd rr ss"
  using assms by (auto simp: ps_ok_def books_ok_def ac_simps)

lemma ps_ok_compacted: "ps_ok p n z dd rr ss \<Longrightarrow> ps_ok (onCompacted (int n) p) n z dd rr ss"
  by (auto simp: ps_ok_def books_ok_def onCompacted_def)

lemma ps_ok_reset: "ps_ok p 0 z dd rr ss \<Longrightarrow> ps_ok (resetWatermarks p) 0 0 dd rr ss"
  by (auto simp: ps_ok_def books_ok_def resetWatermarks_def)

lemma ps_ok_clearAll:
  assumes "ps_ok p n z dd rr ss"
  shows "ps_ok (resetWatermarks (p\<lparr>deletedSinceCompact := d,
      evictionsDeleted := evictionsDeleted p + word_of_int (int n), evictedWeightDeleted := w\<rparr>)) 0 0 (dd + int n) rr ss"
proof -
  have n: "n + unat (evictionsDeleted p) < 2 ^ 64"
    using assms unat_lt_u64 [of "putInserted p"] by (simp add: ps_ok_def books_ok_def)
  then have "unat (word_of_int (int n) :: u64) = n" using unat_word_of_int_u64 [of "int n"] by simp
  with n have "unat (evictionsDeleted p + word_of_int (int n)) = unat (evictionsDeleted p) + n"
    by (subst unat_add_u64) auto
  then show ?thesis using assms by (auto simp: ps_ok_def books_ok_def resetWatermarks_def simp del: of_nat_unat)
qed

subsection \<open>The checks pass\<close>

lemma ps_ok_checkTelemetry:
  assumes "ps_ok p n z 0 0 0"
  shows "checkTelemetryInvariants p (int n) = Inr ()"
proof -
  have b: "books_ok p n z 0 0 0" and v: "valid_pressure (lastSampledPressure (coord p))"
    using assms by (auto simp: ps_ok_def sampling_ok_def coord_ok_def)
  have "checkWatermarkInvariants p (int n) = Inr ()"
    using b v by (cases "lastSampledPressure (coord p)")
      (auto simp: books_ok_def checkWatermarkInvariants_def valid_pressure_def)
  moreover have "word_of_int (int n) + (evictionsCapacity p + evictionsPressure p + evictionsDeleted p) = putInserted p"
  proof -
    have "of_nat (n + unat (evictionsCapacity p) + unat (evictionsPressure p) + unat (evictionsDeleted p))
      = (of_nat (unat (putInserted p)) :: u64)"
      using b by (simp only: books_ok_def)
    then show ?thesis by (simp add: ac_simps)
  qed
  moreover have "unat (pressureShedsInline p + pressureShedsExplicit p)
      \<le> unat (pressureShedsInline p) + unat (pressureShedsExplicit p)"
    by (simp add: unat_word_ariths)
  ultimately show ?thesis
    using b by (auto simp: checkTelemetryInvariants_def checkCounterInvariants_def books_ok_def
        Let_def word_less_nat_alt not_less simp del: of_nat_unat)
qed

lemma ps_ok_len_bound: "ps_ok p n z dd rr ss \<Longrightarrow> n < 2 ^ 64"
  using unat_lt_u64 [of "putInserted p"] by (simp add: ps_ok_def books_ok_def)

end
