(* ===== verification/MapInv.thy ===== *)
theory MapInv
  imports MapCache Telemetry
begin

text \<open>
  The invariant of the map backend and the effect of its internal operations.

  \<open>addrs c\<close> are the entries of the recency list, found by following \<open>next\<close>; \<open>lru c\<close> is what they hold,
  most recent first. \<open>map_inv\<close> says that the list is well linked, that the index binds exactly the keys
  of the list to their entries, that \<open>currentSize\<close> is the sum of the weights and at most \<open>maxSize\<close>, and
  that the books agree. In the middle of an operation the weight that is accounted for an entry can
  differ from the one stored in it; \<open>mid W d dd rr ss c as\<close> is the invariant with the accounted weights
  \<open>W\<close>, of which \<open>d\<close> is not yet part of \<open>currentSize\<close>.

  \<open>sheds\<close> describes every internal operation that removes entries: which ones and why, that the others
  stay in order and unchanged, and that one event per removed entry was queued.
\<close>

subsection \<open>The entries of a cache\<close>

fun walk :: "nat \<Rightarrow> 'v heap \<Rightarrow> addr option \<Rightarrow> addr list" where
  "walk 0 h e = []"
| "walk (Suc n) h None = []"
| "walk (Suc n) h (Some a) = a # walk n h (next (h a))"

definition addrs :: "'v mapCache \<Rightarrow> addr list" where
  "addrs c = walk (nat (mapLen c)) (m_heap c) (entryList_Front (m_entries c))"

definition lru :: "'v mapCache \<Rightarrow> (string \<times> u64 \<times> 'v) list" where
  "lru c = map (\<lambda>a. payload (m_heap c a)) (addrs c)"

lemma walk_lseg: "lseg h p as None \<Longrightarrow> walk (length as) h (first as None) = as"
  by (induction as arbitrary: p) auto

lemma addrs_dll: "dll (m_heap c, m_entries c) as \<Longrightarrow> addrs c = as"
  using walk_lseg [of "m_heap c" None as]
  by (auto simp: addrs_def dll_def mapLen_def entryList_Len_def entryList_Front_def)

lemma dll_upd_out:
  assumes "a \<notin> set as"
  shows "dll (h(a := x), l) as = dll (h, l) as"
proof -
  have "lseg (h(a := x)) None as None = lseg h None as None"
    by (rule lseg_cong) (use assms in auto)
  then show ?thesis by (simp add: dll_def)
qed

lemma dll_upd_same:
  assumes "prev x = prev (h a)" "next x = next (h a)"
  shows "dll (h(a := x), l) as = dll (h, l) as"
proof -
  have "lseg (h(a := x)) None as None = lseg h None as None"
    by (rule lseg_cong) (use assms in auto)
  then show ?thesis by (simp add: dll_def)
qed

definition index_ok :: "(string \<times> addr) list \<Rightarrow> 'v heap \<Rightarrow> addr list \<Rightarrow> bool" where
  "index_ok idx h as = (distinct (map fst idx) \<and> set idx = (\<lambda>a. (ekey (h a), a)) ` set as)"

lemma index_ok_lookup:
  "index_ok idx h as \<Longrightarrow> map_of idx k = Some a \<longleftrightarrow> a \<in> set as \<and> ekey (h a) = k"
  by (auto simp: index_ok_def map_of_eq_Some_iff)

lemma index_ok_None:
  "index_ok idx h as \<Longrightarrow> map_of idx k = None \<longleftrightarrow> (\<forall>a\<in>set as. ekey (h a) \<noteq> k)"
  by (metis index_ok_lookup not_None_eq)

lemma index_ok_keys:
  "index_ok idx h as \<Longrightarrow> a \<in> set as \<Longrightarrow> b \<in> set as \<Longrightarrow> ekey (h a) = ekey (h b) \<Longrightarrow> a = b"
  by (metis index_ok_lookup option.inject)

lemma index_ok_length:
  assumes "index_ok idx h as" "distinct as"
  shows "length idx = length as"
proof -
  have "length idx = card (set idx)"
    using assms(1) by (metis index_ok_def distinct_card distinct_map)
  also have "\<dots> = card (set as)"
    using assms(1) by (auto simp: index_ok_def card_image inj_on_def)
  finally show ?thesis using assms(2) by (simp add: distinct_card)
qed

lemma index_ok_cong:
  "(\<And>a. a \<in> set as \<Longrightarrow> ekey (h' a) = ekey (h a)) \<Longrightarrow> set as' = set as \<Longrightarrow> index_ok idx h' as' = index_ok idx h as"
  by (simp add: index_ok_def cong: image_cong)

lemma index_ok_delete:
  assumes ok: "index_ok idx h as" and a: "a \<in> set as" "distinct as"
    and h': "\<And>b. b \<in> set as \<Longrightarrow> b \<noteq> a \<Longrightarrow> ekey (h' b) = ekey (h b)"
  shows "index_ok (AList.delete (ekey (h a)) idx) h' (remove1 a as)"
proof -
  have "set (AList.delete (ekey (h a)) idx) = {p \<in> set idx. fst p \<noteq> ekey (h a)}"
    by (auto simp: AList.delete_eq)
  also have "\<dots> = (\<lambda>b. (ekey (h b), b)) ` (set as - {a})"
    using ok index_ok_keys [OF ok _ a(1)] a by (auto simp: index_ok_def)
  also have "\<dots> = (\<lambda>b. (ekey (h' b), b)) ` set (remove1 a as)"
    using h' a by (auto simp: image_iff)
  finally show ?thesis
    using ok by (simp add: index_ok_def AList.distinct_delete)
qed

lemma alist_update_new: "k \<notin> fst ` set xs \<Longrightarrow> AList.update k v xs = xs @ [(k, v)]"
  by (induction xs) auto

lemma index_ok_insert:
  assumes ok: "index_ok idx h as" and k: "map_of idx k = None"
    and h': "\<And>b. b \<in> set as \<Longrightarrow> ekey (h' b) = ekey (h b)" "ekey (h' a) = k"
  shows "index_ok (AList.update k a idx) h' (a # as)"
proof -
  have "k \<notin> fst ` set idx" using k by (simp add: map_of_eq_None_iff)
  then show ?thesis
    using ok h' by (auto simp: index_ok_def alist_update_new image_iff)
qed

subsection \<open>The invariant\<close>

definition map_repr :: "'v mapCache \<Rightarrow> addr list \<Rightarrow> bool" where
  "map_repr c as = (dll (m_heap c, m_entries c) as \<and> index_ok (m_index c) (m_heap c) as
     \<and> (\<forall>a\<in>set as. a < m_nextAddr c))"

definition weights :: "'v heap \<Rightarrow> addr \<Rightarrow> u64" where
  "weights h a = esize (h a)"

definition mid ::
  "(addr \<Rightarrow> u64) \<Rightarrow> nat \<Rightarrow> int \<Rightarrow> int \<Rightarrow> int \<Rightarrow> 'v mapCache \<Rightarrow> addr list \<Rightarrow> bool" where
  "mid W d dd rr ss c as = (map_repr c as
     \<and> unat (m_currentSize c) + d = weight_sum (map W as)
     \<and> m_currentSize c \<le> m_maxSize c \<and> m_maxSize c \<noteq> 0
     \<and> ps_ok (m_ps c) (length as) (count_list (map W as) 0) dd rr ss)"

definition map_inv :: "'v mapCache \<Rightarrow> bool" where
  "map_inv c = mid (weights (m_heap c)) 0 0 0 0 c (addrs c)"

definition cfg where
  \<comment> \<open>what no operation changes\<close>
  "cfg c = (m_maxSize c, m_weigher c, m_onEvictValue c, m_onEvictEntry c, options (m_ps c))"

definition sheds ::
  "'v mapState \<Rightarrow> addr list \<Rightarrow> (addr \<times> EvictionReason) list \<Rightarrow> 'v mapState \<Rightarrow> addr list \<Rightarrow> bool" where
  "sheds st as gone st' as' = (case (st, st') of ((c, q), (c', q')) \<Rightarrow>
     cfg c' = cfg c \<and> m_nextAddr c' = m_nextAddr c
     \<and> fst ` set gone \<subseteq> set as \<and> distinct (map fst gone)
     \<and> as' = filter (\<lambda>a. a \<notin> fst ` set gone) as
     \<and> (\<forall>a\<in>set as'. payload (m_heap c' a) = payload (m_heap c a))
     \<and> (queue_wf q \<longrightarrow> queue_wf q' \<and> queue_events q' = queue_events q
        @ (if hasEvictCB c then map (\<lambda>(a, r). (ekey (m_heap c a), evalue (m_heap c a), r)) gone else [])))"

lemma mid_addrs: "mid W d dd rr ss c as \<Longrightarrow> addrs c = as"
  by (auto simp: mid_def map_repr_def addrs_dll)

lemma mid_distinct: "mid W d dd rr ss c as \<Longrightarrow> distinct as"
  by (auto simp: mid_def map_repr_def dest: dll_distinct)

lemma mid_len: "mid W d dd rr ss c as \<Longrightarrow> mapLen c = int (length as)"
  using dll_Len [of "(m_heap c, m_entries c)"] by (auto simp: mid_def map_repr_def mapLen_def)

lemma mid_Back: "mid W d dd rr ss c as \<Longrightarrow> entryList_Back (m_entries c) = final None as"
  using dll_Back [of "(m_heap c, m_entries c)"] by (auto simp: mid_def map_repr_def)

lemma mid_Front: "mid W d dd rr ss c as \<Longrightarrow> entryList_Front (m_entries c) = first as None"
  using dll_Front [of "(m_heap c, m_entries c)"] by (auto simp: mid_def map_repr_def)

lemma mid_lookup: "mid W d dd rr ss c as \<Longrightarrow> map_of (m_index c) k = Some a \<longleftrightarrow> a \<in> set as \<and> ekey (m_heap c a) = k"
  by (auto simp: mid_def map_repr_def index_ok_lookup)

lemma mid_index_length: "mid W d dd rr ss c as \<Longrightarrow> length (m_index c) = length as"
  by (metis mid_distinct mid_def map_repr_def index_ok_length)

lemma mid_weaken:
  "mid W d dd rr ss c as \<Longrightarrow> dd' \<le> dd \<Longrightarrow> rr' \<le> rr \<Longrightarrow> ss' \<le> ss \<Longrightarrow> mid W d dd' rr' ss' c as"
  using ps_ok_weaken by (fastforce simp: mid_def)

lemma mid_W_cong: "(\<And>a. a \<in> set as \<Longrightarrow> W a = W' a) \<Longrightarrow> mid W d dd rr ss c as = mid W' d dd rr ss c as"
  by (simp add: mid_def cong: map_cong)

lemma map_invI:
  assumes "mid W 0 dd rr ss c as" "\<And>a. a \<in> set as \<Longrightarrow> W a = esize (m_heap c a)"
    and "0 \<le> dd" "0 \<le> rr" "0 \<le> ss"
  shows "map_inv c"
proof -
  have "mid (weights (m_heap c)) 0 0 0 0 c as = mid W 0 0 0 0 c as"
    by (rule mid_W_cong) (simp add: assms(2) weights_def)
  then show ?thesis
    using mid_weaken [OF assms(1,3-5)] mid_addrs [OF assms(1)] by (simp add: map_inv_def)
qed

lemma cfg_simps:
  "cfg c' = cfg c \<Longrightarrow> m_maxSize c' = m_maxSize c \<and> m_weigher c' = m_weigher c
    \<and> m_onEvictValue c' = m_onEvictValue c \<and> m_onEvictEntry c' = m_onEvictEntry c
    \<and> options (m_ps c') = options (m_ps c) \<and> hasEvictCB c' = hasEvictCB c"
  by (simp add: cfg_def hasEvictCB_def)

lemma payload_simps:
  "payload x = payload y \<longleftrightarrow> ekey x = ekey y \<and> esize x = esize y \<and> evalue x = evalue y"
  by (simp add: payload_def)

subsection \<open>Operations on the books only\<close>

lemma onPs_simps [simp]:
  "m_maxSize (onPs f c) = m_maxSize c" "m_currentSize (onPs f c) = m_currentSize c"
  "m_heap (onPs f c) = m_heap c" "m_nextAddr (onPs f c) = m_nextAddr c"
  "m_entries (onPs f c) = m_entries c" "m_index (onPs f c) = m_index c"
  "m_dirtyIndex (onPs f c) = m_dirtyIndex c" "m_weigher (onPs f c) = m_weigher c"
  "m_onEvictValue (onPs f c) = m_onEvictValue c" "m_onEvictEntry (onPs f c) = m_onEvictEntry c"
  "m_ps (onPs f c) = f (m_ps c)" "mapLen (onPs f c) = mapLen c" "hasEvictCB (onPs f c) = hasEvictCB c"
  by (simp_all add: onPs_def mapLen_def hasEvictCB_def)

lemma mid_onPs:
  "mid W d dd rr ss c as \<Longrightarrow>
   (\<And>n z. ps_ok (m_ps c) n z dd rr ss \<Longrightarrow> n = length as \<Longrightarrow> ps_ok (f (m_ps c)) n z dd' rr' ss') \<Longrightarrow>
   mid W d dd' rr' ss' (onPs f c) as"
  by (simp add: mid_def map_repr_def)

lemma mid_keep:
  "mid W d dd rr ss c as \<Longrightarrow> ledger (f (m_ps c)) = ledger (m_ps c) \<Longrightarrow>
   (sampling_ok (m_ps c) \<Longrightarrow> sampling_ok (f (m_ps c))) \<Longrightarrow> mid W d dd rr ss (onPs f c) as"
  using ps_ok_ledger by (blast intro: mid_onPs)

lemma mid_dirty [simp]: "mid W d dd rr ss (c\<lparr>m_dirtyIndex := b\<rparr>) as = mid W d dd rr ss c as"
  by (simp add: mid_def map_repr_def)

lemma sheds_refl:
  assumes "cfg c' = cfg c" "m_nextAddr c' = m_nextAddr c" "m_heap c' = m_heap c"
  shows "sheds (c, q) as [] (c', q) as"
  using assms by (simp add: sheds_def)

lemma sheds_onPs:
  assumes "sheds st as gone (c, q) as'" "options (f (m_ps c)) = options (m_ps c)"
  shows "sheds st as gone (onPs f c, q) as'"
  using assms by (auto simp: sheds_def cfg_def split: prod.splits)

lemma sheds_dirty:
  "sheds st as gone (c\<lparr>m_dirtyIndex := b\<rparr>, q) as' = sheds st as gone (c, q) as'"
  by (auto simp: sheds_def cfg_def split: prod.splits)

lemma sheds_trans:
  assumes "sheds st as g1 st1 as1" "sheds st1 as1 g2 st2 as2"
  shows "sheds st as (g1 @ g2) st2 as2"
proof -
  obtain c q c1 q1 c2 q2 where st: "st = (c, q)" "st1 = (c1, q1)" "st2 = (c2, q2)"
    by (metis surj_pair)
  have cfg: "cfg c2 = cfg c" "hasEvictCB c1 = hasEvictCB c" "m_nextAddr c2 = m_nextAddr c"
    using assms cfg_simps by (auto simp: sheds_def st)
  have as1: "as1 = filter (\<lambda>a. a \<notin> fst ` set g1) as" and as2: "as2 = filter (\<lambda>a. a \<notin> fst ` set g2) as1"
    using assms by (auto simp: sheds_def st)
  have g2: "fst ` set g2 \<subseteq> set as1" using assms by (auto simp: sheds_def st)
  have pay: "payload (m_heap c1 a) = payload (m_heap c a)" if "a \<in> set as1" for a
    using assms that by (auto simp: sheds_def st)
  have ev: "map (\<lambda>(a, r). (ekey (m_heap c1 a), evalue (m_heap c1 a), r)) g2
      = map (\<lambda>(a, r). (ekey (m_heap c a), evalue (m_heap c a), r)) g2"
    using pay g2 by (force simp: payload_simps)
  have f: "as2 = filter (\<lambda>a. a \<notin> fst ` set (g1 @ g2)) as"
    using as1 as2 by (auto intro: filter_cong)
  have d: "distinct (map fst (g1 @ g2))" "fst ` set (g1 @ g2) \<subseteq> set as"
    using assms g2 as1 by (auto simp: sheds_def st)
  have p: "\<forall>a\<in>set as2. payload (m_heap c2 a) = payload (m_heap c a)"
    using assms(2) pay as2 by (auto simp: sheds_def st)
  have q: "queue_wf q \<longrightarrow> queue_wf q2 \<and> queue_events q2 = queue_events q
      @ (if hasEvictCB c then map (\<lambda>(a, r). (ekey (m_heap c a), evalue (m_heap c a), r)) (g1 @ g2) else [])"
    using assms ev cfg(2) by (simp add: sheds_def st)
  show ?thesis
    unfolding sheds_def st prod.case using f d p q cfg(1,3) by blast
qed

subsection \<open>Erasing an entry\<close>

lemma weight_sum_remove:
  "distinct as \<Longrightarrow> a \<in> set as \<Longrightarrow> weight_sum (map W as) = unat (W a) + weight_sum (map W (remove1 a as))"
  using split_of_member [of as a] by (auto simp: remove1_split)

lemma count_remove:
  "distinct as \<Longrightarrow> a \<in> set as \<Longrightarrow> count_list (map W as) 0 =
    (if W a = 0 then Suc (count_list (map W (remove1 a as)) 0) else count_list (map W (remove1 a as)) 0)"
  using split_of_member [of as a] by (auto simp: remove1_split)

lemma length_remove: "distinct as \<Longrightarrow> a \<in> set as \<Longrightarrow> length as = Suc (length (remove1 a as))"
  using split_of_member [of as a] by (auto simp: remove1_split)

lemma zeros_le_length: "count_list (map W as) x \<le> length as"
  using count_list_le_length [of "map W as" x] by simp

lemma filter_remove1: "distinct as \<Longrightarrow> filter (\<lambda>b. b \<noteq> a) as = remove1 a as"
  by (induction as) (auto simp: filter_id_conv)

lemma erase_mid:
  fixes c :: "('v :: zero) mapCache"
  assumes m: "mid W d dd rr ss c as" and a: "a \<in> set as" and W: "W a = esize (m_heap c a)"
    and d: "unat (W a) + d \<le> weight_sum (map W as)" and r: "evicting r"
    and er: "mapCache_eraseEntryLocked a r (c, q) = ((c', q'), v)"
  shows "mid W d (if r = EvictionReasonDeleted then dd + 1 else dd)
      (if r = EvictionReasonCapacity then rr + 1 else rr)
      (if r = EvictionReasonPressure then ss + 1 else ss) c' (remove1 a as)"
    and "sheds (c, q) as [(a, r)] (c', q') (remove1 a as)"
    and "v = evalue (m_heap c a)" and "m_currentSize c' = m_currentSize c - W a"
    and "m_dirtyIndex c'"
    and "\<And>b. b \<in> set as \<Longrightarrow> b \<noteq> a \<Longrightarrow> payload (m_heap c' b) = payload (m_heap c b)"
    and "\<And>xs ys b. as = xs @ a # ys \<Longrightarrow> b \<in> set xs \<Longrightarrow> prev (m_heap c' b) = prev (m_heap c b)"
proof -
  have dist: "distinct as" using m by (rule mid_distinct)
  let ?s = "Remove a (m_heap c, m_entries c)"
  have heap': "m_heap c' = (fst ?s)(a := (fst ?s a)\<lparr>ekey := '''', evalue := 0, esize := 0\<rparr>)"
    and ent': "m_entries c' = snd ?s" and idx': "m_index c' = AList.delete (ekey (m_heap c a)) (m_index c)"
    and cur': "m_currentSize c' = m_currentSize c - esize (m_heap c a)"
    and ps': "m_ps c' = recordEviction r (esize (m_heap c a)) (onEntryDeleted (esize (m_heap c a)) (m_ps c))"
    and oth: "m_maxSize c' = m_maxSize c" "m_nextAddr c' = m_nextAddr c" "m_weigher c' = m_weigher c"
      "m_onEvictValue c' = m_onEvictValue c" "m_onEvictEntry c' = m_onEvictEntry c"
    and q': "q' = (if hasEvictCB c then enqueue (ekey (m_heap c a)) (evalue (m_heap c a)) r q else q)"
    using er by (auto simp: mapCache_eraseEntryLocked_def mapCache_notifyEvict_def Let_def onEntries_def hasEvictCB_def)
  show v: "v = evalue (m_heap c a)" and "m_dirtyIndex c'" "m_currentSize c' = m_currentSize c - W a"
    using er W by (auto simp: mapCache_eraseEntryLocked_def mapCache_notifyEvict_def Let_def onEntries_def)
  show pay: "payload (m_heap c' b) = payload (m_heap c b)" if "b \<in> set as" "b \<noteq> a" for b
    using that Remove_payload [of a "(m_heap c, m_entries c)" b] by (simp add: heap')
  have dll: "dll (m_heap c, m_entries c) as" and ix: "index_ok (m_index c) (m_heap c) as"
    using m by (auto simp: mid_def map_repr_def)
  have "dll ?s (remove1 a as)" using elist.remove_repr [OF dll a] .
  then have "dll (m_heap c', m_entries c') (remove1 a as)"
    using dist by (simp add: heap' ent' dll_upd_out)
  moreover have "index_ok (m_index c') (m_heap c') (remove1 a as)"
    unfolding idx' using pay by (intro index_ok_delete [OF ix a dist]) (simp add: payload_simps)
  ultimately have rep: "map_repr c' (remove1 a as)"
    using m oth by (auto simp: map_repr_def mid_def dest: notin_set_remove1)
  have sz: "unat (W a) \<le> unat (m_currentSize c)" using m d by (simp add: mid_def)
  have cur: "unat (m_currentSize c') + d = weight_sum (map W (remove1 a as))"
    using m weight_sum_remove [OF dist a, of W] sz unat_sub_u64 [OF sz] W by (simp add: mid_def cur')
  have "m_currentSize c' \<le> m_currentSize c"
    using sz unat_sub_u64 [OF sz] W by (simp add: word_le_nat_alt cur')
  then have le: "m_currentSize c' \<le> m_maxSize c'" using m oth by (auto simp: mid_def)
  have "ps_ok (m_ps c') (length (remove1 a as)) (count_list (map W (remove1 a as)) 0)
     (if r = EvictionReasonDeleted then dd + 1 else dd) (if r = EvictionReasonCapacity then rr + 1 else rr)
     (if r = EvictionReasonPressure then ss + 1 else ss)"
    unfolding ps' W [symmetric]
    using m length_remove [OF dist a] count_remove [OF dist a, of W] zeros_le_length r
    by (intro ps_ok_erase) (auto simp: mid_def)
  then show "mid W d (if r = EvictionReasonDeleted then dd + 1 else dd)
      (if r = EvictionReasonCapacity then rr + 1 else rr)
      (if r = EvictionReasonPressure then ss + 1 else ss) c' (remove1 a as)"
    using rep cur le m oth by (simp add: mid_def)
  have "options (m_ps c') = options (m_ps c)"
    unfolding ps' by (simp add: recordEviction_def onEntryDeleted_def Let_def split: EvictionReason.splits)
  then show "sheds (c, q) as [(a, r)] (c', q') (remove1 a as)"
    using a dist pay oth by (auto simp: sheds_def cfg_def filter_remove1 q')
  show "prev (m_heap c' b) = prev (m_heap c b)" if as: "as = xs @ a # ys" and b: "b \<in> set xs" for xs ys b
  proof -
    obtain us vs where xs: "xs = us @ b # vs" using b by (metis split_list)
    have "prev (m_heap c b) = final None us" using dll as xs by (simp add: dll_def lseg_append)
    moreover have "remove1 a as = us @ b # vs @ ys" using as xs dist by (simp add: remove1_append)
    then have "prev (m_heap c' b) = final None us"
      using \<open>dll (m_heap c', m_entries c') (remove1 a as)\<close> by (simp add: dll_def lseg_append)
    ultimately show ?thesis by simp
  qed
qed

subsection \<open>Evicting from the back\<close>

definition tail_evicted ::
  "'v mapState \<Rightarrow> addr list \<Rightarrow> addr list \<Rightarrow> 'v mapState \<Rightarrow> addr list \<Rightarrow> bool" where
  "tail_evicted st as gs st' as' = (as = as' @ rev gs
     \<and> sheds st as (map (\<lambda>a. (a, EvictionReasonCapacity)) gs) st' as')"

lemma tail_evicted_refl [simp]: "tail_evicted st as [] st as"
  by (cases st) (simp add: tail_evicted_def sheds_refl)

lemma tail_evicted_step:
  assumes "sheds st (as @ [a]) [(a, EvictionReasonCapacity)] st1 as" "tail_evicted st1 as gs st' as'"
  shows "tail_evicted st (as @ [a]) (a # gs) st' as'"
proof -
  have "sheds st1 as (map (\<lambda>a. (a, EvictionReasonCapacity)) gs) st' as'" "as = as' @ rev gs"
    using assms(2) by (auto simp: tail_evicted_def)
  then show ?thesis
    using sheds_trans [OF assms(1)] by (auto simp: tail_evicted_def)
qed

lemma tail_evicted_payload:
  "tail_evicted (c, q) as gs (c', q') as' \<Longrightarrow> a \<in> set as' \<Longrightarrow> payload (m_heap c' a) = payload (m_heap c a)"
  unfolding tail_evicted_def sheds_def prod.case by blast

lemma erase_back:
  fixes c :: "('v :: zero) mapCache"
  assumes m: "mid W d dd rr ss c (as @ [a])" and W: "W a = esize (m_heap c a)"
    and d: "d \<le> weight_sum (map W as)"
  obtains c' q' where "mapCache_eraseEntryLocked a EvictionReasonCapacity (c, q) = ((c', q'), evalue (m_heap c a))"
    "mid W d dd rr ss c' as" "sheds (c, q) (as @ [a]) [(a, EvictionReasonCapacity)] (c', q') as"
    "\<And>b. b \<in> set as \<Longrightarrow> payload (m_heap c' b) = payload (m_heap c b)"
    "m_maxSize c' = m_maxSize c"
proof -
  obtain c' q' v where er: "mapCache_eraseEntryLocked a EvictionReasonCapacity (c, q) = ((c', q'), v)"
    by (metis surj_pair)
  have a: "a \<notin> set as" "remove1 a (as @ [a]) = as"
    using mid_distinct [OF m] by (auto simp: remove1_append)
  have d': "unat (W a) + d \<le> weight_sum (map W (as @ [a]))" using d by simp
  note e = erase_mid [OF m _ W d' _ er, unfolded a(2)]
  show thesis
  proof (rule that [of c' q'])
    show "mid W d dd rr ss c' as"
      using e(1) by (intro mid_weaken [where dd' = dd]) (auto simp: evicting_def)
    show s: "sheds (c, q) (as @ [a]) [(a, EvictionReasonCapacity)] (c', q') as" using e(2) by (auto simp: evicting_def)
    show "m_maxSize c' = m_maxSize c" using s cfg_simps by (auto simp: sheds_def)
  qed (use er e(3,6) a in \<open>auto simp: evicting_def\<close>)
qed

lemma evictOne_back:
  "mid W d dd rr ss c (as @ [a]) \<Longrightarrow>
   mapCache_evictOne (c, q) = (let (st', v) = mapCache_eraseEntryLocked a EvictionReasonCapacity (c, q) in (st', v, True))"
  using mid_Back [of W d dd rr ss c "as @ [a]"] by (simp add: mapCache_evictOne_def)

lemma full_not_fit:
  assumes "mid W 0 dd rr ss c as" "m_maxSize c - m_currentSize c < w"
  shows "unat (m_maxSize c) < weight_sum (map W as) + unat w"
proof -
  have "unat (m_currentSize c) \<le> unat (m_maxSize c)" using assms(1) by (simp add: mid_def word_le_nat_alt)
  then show ?thesis
    using assms unat_sub_u64 [of "m_currentSize c" "m_maxSize c"] by (simp add: mid_def word_less_nat_alt)
qed

lemma insertEvictLoop_spec:
  fixes c :: "('v :: zero) mapCache"
  assumes "mid W 0 dd rr ss c as" "\<And>a. a \<in> set as \<Longrightarrow> W a = esize (m_heap c a)"
  shows "\<exists>c' q' as' gs. insertEvictLoop w ev rc acc (c, q)
      = Some (Inr ((c', q'), if rc = None then first gs None else rc, acc @ map (\<lambda>a. evalue (m_heap c a)) gs, ev \<or> gs \<noteq> []))
    \<and> mid W 0 dd rr ss c' as' \<and> tail_evicted (c, q) as gs (c', q') as'
    \<and> (as' = [] \<or> \<not> shouldEvictPreInsertOnPut (m_ps c') w (m_maxSize c') (m_currentSize c') (mapLen c') (ev \<or> gs \<noteq> []))
    \<and> (gs \<noteq> [] \<longrightarrow> 0 \<notin> W ` set as \<longrightarrow> w \<noteq> 0 \<longrightarrow> unat (m_maxSize c) < weight_sum (map W (as' @ [List.last gs])) + unat w)"
  using assms
proof (induction as arbitrary: c q ev rc acc rule: rev_induct)
  case Nil
  then show ?case
    using mid_len [OF Nil(1)] by - (rule exI [of _ c], rule exI [of _ q], rule exI [of _ "[]"], rule exI [of _ "[]"],
        simp add: insertEvictLoop.simps)
next
  case (snoc a as)
  let ?cond = "shouldEvictPreInsertOnPut (m_ps c) w (m_maxSize c) (m_currentSize c) (mapLen c) ev"
  show ?case
  proof (cases ?cond)
    case False
    then show ?thesis
      using snoc.prems by - (rule exI [of _ c], rule exI [of _ q], rule exI [of _ "as @ [a]"], rule exI [of _ "[]"],
        simp add: insertEvictLoop.simps)
  next
    case True
    obtain c1 q1 where e: "mapCache_eraseEntryLocked a EvictionReasonCapacity (c, q) = ((c1, q1), evalue (m_heap c a))"
      "mid W 0 dd rr ss c1 as" "sheds (c, q) (as @ [a]) [(a, EvictionReasonCapacity)] (c1, q1) as"
      "\<And>b. b \<in> set as \<Longrightarrow> payload (m_heap c1 b) = payload (m_heap c b)" "m_maxSize c1 = m_maxSize c"
      by (rule erase_back [OF snoc.prems(1)]) (use snoc.prems(2) in auto)
    have step: "insertEvictLoop w ev rc acc (c, q)
        = insertEvictLoop w True (if rc = None then Some a else rc) (acc @ [evalue (m_heap c a)]) (c1, q1)"
      using True e(1) mid_len [OF snoc.prems(1)] mid_Back [OF snoc.prems(1)]
      by (subst insertEvictLoop.simps) simp
    have W: "W b = esize (m_heap c1 b)" if "b \<in> set as" for b
      using snoc.prems(2) [of b] e(4) [OF that] that by (simp add: payload_simps)
    obtain c' q' as' gs where ih: "insertEvictLoop w True (if rc = None then Some a else rc) (acc @ [evalue (m_heap c a)]) (c1, q1)
      = Some (Inr ((c', q'), if (if rc = None then Some a else rc) = None then first gs None else (if rc = None then Some a else rc),
          (acc @ [evalue (m_heap c a)]) @ map (\<lambda>a. evalue (m_heap c1 a)) gs, True \<or> gs \<noteq> []))"
      "mid W 0 dd rr ss c' as'" "tail_evicted (c1, q1) as gs (c', q') as'"
      "as' = [] \<or> \<not> shouldEvictPreInsertOnPut (m_ps c') w (m_maxSize c') (m_currentSize c') (mapLen c') (True \<or> gs \<noteq> [])"
      "gs \<noteq> [] \<longrightarrow> 0 \<notin> W ` set as \<longrightarrow> w \<noteq> 0 \<longrightarrow> unat (m_maxSize c1) < weight_sum (map W (as' @ [List.last gs])) + unat w"
      using snoc.IH [OF e(2) W, where ev = True and rc = "if rc = None then Some a else rc"
          and acc = "acc @ [evalue (m_heap c a)]" and q = q1] by blast
    have vals: "map (\<lambda>a. evalue (m_heap c1 a)) gs = map (\<lambda>a. evalue (m_heap c a)) gs"
      using e(4) ih(3) by (auto simp: tail_evicted_def payload_simps)
    have "unat (m_maxSize c) < weight_sum (map W (as @ [a])) + unat w" if "0 \<notin> W ` set (as @ [a])" "w \<noteq> 0"
    proof (rule full_not_fit [OF snoc.prems(1)])
      have "zeroSizeCount (m_ps c) = 0"
        using snoc.prems(1) that by (auto simp: mid_def ps_ok_def books_ok_def count_list_0_iff image_iff)
      then show "m_maxSize c - m_currentSize c < w"
        using True that snoc.prems(1)
        by (auto simp: shouldEvictPreInsertOnPut_def shouldEvictZeroWeightOnInsert_def mid_def split: if_splits)
    qed
    then have "0 \<notin> W ` set (as @ [a]) \<longrightarrow> w \<noteq> 0 \<longrightarrow>
        unat (m_maxSize c) < weight_sum (map W (as' @ [List.last (a # gs)])) + unat w"
      using ih(3,5) e(5) by (cases gs rule: rev_cases) (auto simp: tail_evicted_def)
    then show ?thesis
      using ih step vals tail_evicted_step [OF e(3) ih(3)]
      by - (rule exI [of _ c'], rule exI [of _ q'], rule exI [of _ as'], rule exI [of _ "a # gs"],
        simp)
  qed
qed

lemma updateEvictLoop_spec:
  fixes c :: "('v :: zero) mapCache"
  assumes "mid W (unat (W e)) dd rr ss c (e # as)" "\<And>a. a \<in> set as \<Longrightarrow> W a = esize (m_heap c a)" "W e = w"
  shows "\<exists>c' q' as' gs. updateEvictLoop w hz ev acc (c, q)
      = Some ((c', q'), acc @ map (\<lambda>a. evalue (m_heap c a)) gs, ev \<or> gs \<noteq> [])
    \<and> mid W (unat (W e)) dd rr ss c' (e # as') \<and> tail_evicted (c, q) (e # as) gs (c', q') (e # as')
    \<and> (as' = [] \<or> \<not> (m_maxSize c' - m_currentSize c' < w \<or> (hz \<and> \<not> (ev \<or> gs \<noteq> []))))
    \<and> (gs \<noteq> [] \<longrightarrow> \<not> hz \<longrightarrow> unat (m_maxSize c) < weight_sum (map W (e # as' @ [List.last gs])))"
  using assms
proof (induction as arbitrary: c q ev acc rule: rev_induct)
  case Nil
  then show ?case
    using mid_len [OF Nil(1)] by - (rule exI [of _ c], rule exI [of _ q], rule exI [of _ "[]"], rule exI [of _ "[]"],
        simp add: updateEvictLoop.simps)
next
  case (snoc a as)
  let ?cond = "m_maxSize c - m_currentSize c < w \<or> (hz \<and> \<not> ev)"
  show ?case
  proof (cases ?cond)
    case False
    then show ?thesis
      using snoc.prems by - (rule exI [of _ c], rule exI [of _ q], rule exI [of _ "as @ [a]"], rule exI [of _ "[]"],
        auto simp: updateEvictLoop.simps [of w hz ev acc "(c, q)"])
  next
    case True
    have m: "mid W (unat (W e)) dd rr ss c ((e # as) @ [a])" using snoc.prems(1) by simp
    obtain c1 q1 where er: "mapCache_eraseEntryLocked a EvictionReasonCapacity (c, q) = ((c1, q1), evalue (m_heap c a))"
      "mid W (unat (W e)) dd rr ss c1 (e # as)"
      "sheds (c, q) ((e # as) @ [a]) [(a, EvictionReasonCapacity)] (c1, q1) (e # as)"
      "\<And>b. b \<in> set (e # as) \<Longrightarrow> payload (m_heap c1 b) = payload (m_heap c b)" "m_maxSize c1 = m_maxSize c"
      by (rule erase_back [OF m]) (use snoc.prems(2) in auto)
    have step: "updateEvictLoop w hz ev acc (c, q) = updateEvictLoop w hz True (acc @ [evalue (m_heap c a)]) (c1, q1)"
      using True er(1) mid_len [OF m] evictOne_back [OF m, of q]
      by (subst updateEvictLoop.simps) (simp add: Let_def)
    have W: "W b = esize (m_heap c1 b)" if "b \<in> set as" for b
      using snoc.prems(2) [of b] er(4) [of b] that by (simp add: payload_simps)
    obtain c' q' as' gs where ih: "updateEvictLoop w hz True (acc @ [evalue (m_heap c a)]) (c1, q1)
      = Some ((c', q'), (acc @ [evalue (m_heap c a)]) @ map (\<lambda>a. evalue (m_heap c1 a)) gs, True \<or> gs \<noteq> [])"
      "mid W (unat (W e)) dd rr ss c' (e # as')" "tail_evicted (c1, q1) (e # as) gs (c', q') (e # as')"
      "as' = [] \<or> \<not> (m_maxSize c' - m_currentSize c' < w \<or> (hz \<and> \<not> (True \<or> gs \<noteq> [])))"
      "gs \<noteq> [] \<longrightarrow> \<not> hz \<longrightarrow> unat (m_maxSize c1) < weight_sum (map W (e # as' @ [List.last gs]))"
      using snoc.IH [OF er(2) W snoc.prems(3), where ev = True and acc = "acc @ [evalue (m_heap c a)]" and q = q1] by blast
    have vals: "map (\<lambda>a. evalue (m_heap c1 a)) gs = map (\<lambda>a. evalue (m_heap c a)) gs"
      using er(4) ih(3) by (auto simp: tail_evicted_def payload_simps)
    have "unat (m_currentSize c) \<le> unat (m_maxSize c)" using m by (simp add: mid_def word_le_nat_alt)
    then have "unat (m_maxSize c) < weight_sum (map W ((e # as) @ [a]))" if "\<not> hz"
      using True that m snoc.prems(3) unat_sub_u64 [of "m_currentSize c" "m_maxSize c"]
      by (auto simp: mid_def word_less_nat_alt)
    then have "\<not> hz \<longrightarrow> unat (m_maxSize c) < weight_sum (map W (e # as' @ [List.last (a # gs)]))"
      using ih(3,5) er(5) by (cases gs rule: rev_cases) (auto simp: tail_evicted_def)
    then show ?thesis
      using ih step vals tail_evicted_step [OF er(3) ih(3)]
      by - (rule exI [of _ c'], rule exI [of _ q'], rule exI [of _ as'], rule exI [of _ "a # gs"],
        simp)
  qed
qed

lemma growEvictLoop_spec:
  fixes c :: "('v :: zero) mapCache"
  assumes "mid W 0 dd rr ss c (xs @ e # ys)" "\<And>a. a \<in> set ys \<Longrightarrow> W a = esize (m_heap c a)"
    and "weight_sum (map W (xs @ [e])) + unat dl \<le> unat (m_maxSize c)"
  shows "\<exists>c' q' ys' gs. growEvictLoop e dl ev (c, q) = Some ((c', q'), ev \<or> gs \<noteq> [])
    \<and> mid W 0 dd rr ss c' (xs @ e # ys') \<and> tail_evicted (c, q) (xs @ e # ys) gs (c', q') (xs @ e # ys')
    \<and> \<not> m_maxSize c' - m_currentSize c' < dl
    \<and> (gs \<noteq> [] \<longrightarrow> unat (m_maxSize c) < weight_sum (map W (xs @ e # ys' @ [List.last gs])) + unat dl)"
  using assms
proof (induction ys arbitrary: c q ev rule: rev_induct)
  case Nil
  have "unat (m_currentSize c) \<le> unat (m_maxSize c)" using Nil(1) by (simp add: mid_def word_le_nat_alt)
  then have "\<not> m_maxSize c - m_currentSize c < dl"
    using Nil unat_sub_u64 [of "m_currentSize c" "m_maxSize c"] by (simp add: mid_def word_less_nat_alt)
  then show ?case
    using Nil(1) by - (rule exI [of _ c], rule exI [of _ q], rule exI [of _ "[]"], rule exI [of _ "[]"],
        simp add: growEvictLoop.simps)
next
  case (snoc a ys)
  let ?as = "xs @ e # ys"
  show ?case
  proof (cases "m_maxSize c - m_currentSize c < dl")
    case False
    then show ?thesis
      using snoc.prems by - (rule exI [of _ c], rule exI [of _ q], rule exI [of _ "ys @ [a]"], rule exI [of _ "[]"],
        simp add: growEvictLoop.simps)
  next
    case True
    have m: "mid W 0 dd rr ss c (?as @ [a])" using snoc.prems(1) by simp
    obtain c1 q1 where er: "mapCache_eraseEntryLocked a EvictionReasonCapacity (c, q) = ((c1, q1), evalue (m_heap c a))"
      "mid W 0 dd rr ss c1 ?as" "sheds (c, q) (?as @ [a]) [(a, EvictionReasonCapacity)] (c1, q1) ?as"
      "\<And>b. b \<in> set ?as \<Longrightarrow> payload (m_heap c1 b) = payload (m_heap c b)" "m_maxSize c1 = m_maxSize c"
      by (rule erase_back [OF m]) (use snoc.prems(2) in auto)
    have "e \<noteq> a" using mid_distinct [OF m] by auto
    then have step: "growEvictLoop e dl ev (c, q) = growEvictLoop e dl True (c1, q1)"
      using True er(1) mid_len [OF m] mid_Back [OF m] evictOne_back [OF m, of q]
      by (subst growEvictLoop.simps) (simp add: Let_def)
    have W: "W b = esize (m_heap c1 b)" if "b \<in> set ys" for b
      using snoc.prems(2) [of b] er(4) [of b] that by (simp add: payload_simps)
    obtain c' q' ys' gs where ih: "growEvictLoop e dl True (c1, q1) = Some ((c', q'), True \<or> gs \<noteq> [])"
      "mid W 0 dd rr ss c' (xs @ e # ys')" "tail_evicted (c1, q1) ?as gs (c', q') (xs @ e # ys')"
      "\<not> m_maxSize c' - m_currentSize c' < dl"
      "gs \<noteq> [] \<longrightarrow> unat (m_maxSize c1) < weight_sum (map W (xs @ e # ys' @ [List.last gs])) + unat dl"
      using snoc.IH [OF er(2) W, where ev = True and q = q1] snoc.prems(3) er(5) by (auto simp del: weight_sum_simps)
    have "unat (m_maxSize c) < weight_sum (map W (?as @ [a])) + unat dl"
      by (rule full_not_fit [OF m True])
    then have "unat (m_maxSize c) < weight_sum (map W (xs @ e # ys' @ [List.last (a # gs)])) + unat dl"
      using ih(3,5) er(5) by (cases gs rule: rev_cases) (auto simp: tail_evicted_def)
    then show ?thesis
      using ih step tail_evicted_step [OF er(3) ih(3)]
      by - (rule exI [of _ c'], rule exI [of _ q'], rule exI [of _ ys'], rule exI [of _ "a # gs"],
        simp)
  qed
qed


subsection \<open>Whether a grown entry fits\<close>

lemma canFitLoop_spec:
  assumes "lseg h None ((pre @ hs) @ e # ts @ suf) None" "distinct ((pre @ hs) @ e # ts @ suf)"
    and "w = (\<lambda>a. esize (h a))" "T = weight_sum (map w ((pre @ hs) @ e # ts @ suf))" "T \<le> M" "M < 2 ^ 64"
    and "unat newer = weight_sum (map w pre)" "unat newer \<le> unat maxNewer"
    and "unat avail + T = M + weight_sum (map w suf)" "avail < dl"
    and eq: "weight_sum (map w (pre @ hs)) \<le> unat maxNewer \<longleftrightarrow> unat dl + T \<le> M + weight_sum (map w (ts @ suf))"
  shows "canFitLoop h e maxNewer dl newer avail (first (hs @ [e]) None) (final (Some e) ts)
    = Some (Inr (weight_sum (map w (pre @ hs)) \<le> unat maxNewer))"
  using assms
proof (induction hs arbitrary: pre newer ts suf avail)
  case Nil
  then show ?case by (simp add: canFitLoop.simps)
next
  case (Cons x hs)
  have xe: "x \<noteq> e" using Cons.prems(2) by auto
  have nx: "next (h x) = first (hs @ [e]) None" using Cons.prems(1) by (simp add: lseg_append)
  have "weight_sum (map w pre) + unat (w x) \<le> T" using Cons.prems(4) by simp
  then have newer': "unat (newer + w x) = weight_sum (map w (pre @ [x]))"
    using Cons.prems(5-7) unat_add_u64 [of newer "w x"] by simp
  show ?case
  proof (cases "maxNewer < newer + w x")
    case True
    then have "\<not> weight_sum (map w (pre @ x # hs)) \<le> unat maxNewer"
      using newer' by (simp add: word_less_nat_alt)
    then show ?thesis
      using True xe Cons.prems(3) by (subst canFitLoop.simps) (auto simp: Let_def)
  next
    case False
    show ?thesis
    proof (cases ts rule: rev_cases)
      case Nil
      then have "\<not> weight_sum (map w (pre @ x # hs)) \<le> unat maxNewer"
        using Cons.prems(9,10) eq Cons.prems(11) by (auto simp: word_less_nat_alt)
      then show ?thesis
        using False xe Nil Cons.prems(3) by (subst canFitLoop.simps) (auto simp: Let_def)
    next
      case (snoc ts' y)
      have ye: "y \<noteq> e" using Cons.prems(2) snoc by auto
      have py: "prev (h y) = final (Some e) ts'"
        using Cons.prems(1) snoc by (simp add: lseg_append)
      have "weight_sum (map w suf) + unat (w y) \<le> T" using Cons.prems(4) snoc by simp
      then have av: "unat (avail + w y) = unat avail + unat (w y)"
        using Cons.prems(5,6,9) unat_add_u64 [of avail "w y"] by simp
      show ?thesis
      proof (cases "dl \<le> avail + w y")
        case True
        then have "weight_sum (map w (pre @ x # hs)) \<le> unat maxNewer"
          using av Cons.prems(9,11) snoc by (auto simp: word_le_nat_alt)
        then show ?thesis
          using False True xe ye snoc Cons.prems(3) by (subst canFitLoop.simps) (auto simp: Let_def)
      next
        case nf: False
        have "canFitLoop h e maxNewer dl (newer + w x) (avail + w y) (first (hs @ [e]) None) (final (Some e) ts')
          = Some (Inr (weight_sum (map w ((pre @ [x]) @ hs)) \<le> unat maxNewer))"
        proof (rule Cons.IH)
          show "unat (avail + w y) + T = M + weight_sum (map w ([y] @ suf))" using av Cons.prems(9) by simp
          show "avail + w y < dl" using nf by simp
          show "unat (newer + w x) \<le> unat maxNewer" using False by (simp add: not_less word_le_nat_alt)
        qed (use Cons.prems snoc newer' in auto)
        then show ?thesis
          using False nf xe ye snoc nx py Cons.prems(3) by (subst canFitLoop.simps) (auto simp: Let_def)
      qed
    qed
  qed
qed

lemma canFitGrowth_spec:
  assumes m: "mid (weights (m_heap c)) 0 dd rr ss c (xs @ e # ys)"
    and new: "esize (m_heap c e) < new" "new \<le> m_maxSize c"
  shows "mapCache_canFitGrowthLocked c e (m_maxSize c - new) (new - esize (m_heap c e)) (m_maxSize c - m_currentSize c)
    = Inr (weight_sum (map (weights (m_heap c)) xs) + unat new \<le> unat (m_maxSize c))"
proof -
  let ?w = "weights (m_heap c)" and ?M = "unat (m_maxSize c)"
  have w: "?w = (\<lambda>a. esize (m_heap c a))" by (simp add: weights_def fun_eq_iff)
  have cur: "unat (m_currentSize c) = weight_sum (map ?w (xs @ e # ys))" "unat (m_currentSize c) \<le> ?M"
    using m by (auto simp: mid_def word_le_nat_alt)
  have n: "unat new \<le> ?M" "unat (?w e) < unat new"
    using new by (simp_all add: word_le_nat_alt word_less_nat_alt weights_def)
  have u: "unat (m_maxSize c - new) = ?M - unat new" "unat (m_maxSize c - m_currentSize c) = ?M - unat (m_currentSize c)"
    "unat (new - esize (m_heap c e)) = unat new - unat (?w e)"
    using unat_sub_u64 [OF n(1)] unat_sub_u64 [OF cur(2)] unat_sub_u64 [of "?w e" new] n(2)
    by (simp_all add: weights_def)
  show ?thesis
  proof (cases "new - esize (m_heap c e) \<le> m_maxSize c - m_currentSize c")
    case True
    then have "weight_sum (map ?w xs) + unat new \<le> ?M"
      using u n cur by (simp add: word_le_nat_alt)
    then show ?thesis using True by (simp add: mapCache_canFitGrowthLocked_def)
  next
    case False
    have dll: "dll (m_heap c, m_entries c) (xs @ e # ys)" using m by (simp add: mid_def map_repr_def)
    have "canFitLoop (m_heap c) e (m_maxSize c - new) (new - esize (m_heap c e)) 0 (m_maxSize c - m_currentSize c)
        (first (xs @ [e]) None) (final (Some e) ys) = Some (Inr (weight_sum (map ?w ([] @ xs)) \<le> unat (m_maxSize c - new)))"
    proof (rule canFitLoop_spec [where suf = "[]" and M = ?M and T = "unat (m_currentSize c)"])
      show "(weight_sum (map ?w ([] @ xs)) \<le> unat (m_maxSize c - new)) =
        (unat (new - esize (m_heap c e)) + unat (m_currentSize c) \<le> ?M + weight_sum (map ?w (ys @ [])))"
        unfolding u cur(1) using n by (simp add: le_diff_conv2) linarith
      show "lseg (m_heap c) None (([] @ xs) @ e # ys @ []) None" "distinct (([] @ xs) @ e # ys @ [])"
        using dll by (auto simp: dll_def)
      show "unat (m_maxSize c - m_currentSize c) + unat (m_currentSize c) = ?M + weight_sum (map ?w [])"
        using u cur(2) by simp
    qed (use False cur w unat_lt_u64 [of "m_maxSize c"] in simp_all)
    moreover have "head (m_entries c) = first (xs @ [e]) None" "tail (m_entries c) = final (Some e) ys"
      using dll by (simp_all add: dll_def)
    ultimately show ?thesis
      using False u n by (simp add: mapCache_canFitGrowthLocked_def le_diff_conv2)
  qed
qed


subsection \<open>Shedding under pressure\<close>

lemma sheds_gone:
  assumes "sheds (c, q) as (map (\<lambda>a. (a, r)) gs) (c', q') as'"
  shows "set gs \<subseteq> set as" "distinct gs" "as' = filter (\<lambda>a. a \<notin> set gs) as"
proof -
  have "fst ` set (map (\<lambda>a. (a, r)) gs) = set gs" "map fst (map (\<lambda>a. (a, r)) gs) = gs"
    by (simp_all add: image_image comp_def)
  then show "set gs \<subseteq> set as" "distinct gs" "as' = filter (\<lambda>a. a \<notin> set gs) as"
    using assms unfolding sheds_def prod.case by metis+
qed

lemma weight_sum_only:
  assumes "distinct as" "\<And>a. a \<in> set as \<Longrightarrow> W a = 0 \<or> prot = Some a" "\<And>e. prot = Some e \<Longrightarrow> unat (W e) \<le> n"
  shows "weight_sum (map W as) \<le> n"
  using assms
proof (induction as)
  case (Cons a as)
  show ?case
  proof (cases "W a = 0")
    case False
    then have "prot = Some a" using Cons.prems(2) by auto
    then have "W b = 0" if "b \<in> set as" for b
      using Cons.prems(1,2) that by fastforce
    then have "map W as = map (\<lambda>_. 0) as" by simp
    then have "weight_sum (map W as) = 0" by (simp add: weight_sum_def)
    then show ?thesis using Cons.prems(3) \<open>prot = Some a\<close> by simp
  qed (use Cons in auto)
qed simp

definition shedDone :: "('a \<Rightarrow> u64) \<Rightarrow> nat \<Rightarrow> int \<Rightarrow> int \<Rightarrow> 'a list \<Rightarrow> bool" where
  \<comment> \<open>within the target: few enough bytes, and few enough weightless entries or entries\<close>
  "shedDone w bytes zeros cnt xs = (weight_sum (map w xs) \<le> bytes
     \<and> (int (count_list (map w xs) 0) \<le> zeros \<or> int (length xs) \<le> cnt))"

definition shedPick :: "('a \<Rightarrow> u64) \<Rightarrow> nat \<Rightarrow> int \<Rightarrow> 'a list \<Rightarrow> 'a \<Rightarrow> bool" where
  \<comment> \<open>shedding \<open>x\<close> helps: over the bytes, every entry does while there are too many weightless ones\<close>
  "shedPick w bytes zeros xs x =
     (if bytes < weight_sum (map w xs) then zeros < int (count_list (map w xs) 0) \<or> w x \<noteq> 0 else w x = 0)"

fun shedFrom :: "('a \<Rightarrow> u64) \<Rightarrow> nat \<Rightarrow> int \<Rightarrow> int \<Rightarrow> 'a list \<Rightarrow> 'a list \<Rightarrow> 'a list" where
  \<comment> \<open>the entries shed, from the least recently used on; \<open>kept\<close> are those passed over\<close>
  "shedFrom w bytes zeros cnt kept [] = []"
| "shedFrom w bytes zeros cnt kept (x # xs) =
    (if shedDone w bytes zeros cnt (kept @ x # xs) then []
     else if shedPick w bytes zeros (kept @ x # xs) x then x # shedFrom w bytes zeros cnt kept xs
     else shedFrom w bytes zeros cnt (kept @ [x]) xs)"

lemma shedFrom_map:
  "shedFrom w bytes zeros cnt (map f kept) (map f xs) = map f (shedFrom (\<lambda>x. w (f x)) bytes zeros cnt kept xs)"
proof (induction xs arbitrary: kept)
  case (Cons x xs)
  have "shedDone w bytes zeros cnt (map f kept @ f x # map f xs) = shedDone (\<lambda>x. w (f x)) bytes zeros cnt (kept @ x # xs)"
    "shedPick w bytes zeros (map f kept @ f x # map f xs) (f x) = shedPick (\<lambda>x. w (f x)) bytes zeros (kept @ x # xs) x"
    by (simp_all add: shedDone_def shedPick_def comp_def)
  then show ?case using Cons.IH [of kept] Cons.IH [of "kept @ [x]"] by simp
qed simp

lemma weight_sum_rev: "weight_sum (map w (rev xs)) = weight_sum (map w xs)"
  by (simp add: weight_sum_def rev_map [symmetric])

lemma count_rev: "count_list (map w (rev xs)) x = count_list (map w xs) x"
  by (simp add: rev_map [symmetric])

lemma shedDone_rev: "shedDone w bytes zeros cnt (rev xs) = shedDone w bytes zeros cnt xs"
  by (simp add: shedDone_def weight_sum_rev count_rev)

lemma shedFrom_needed:
  assumes "shedFrom w bytes zeros cnt kept xs = ys @ y # zs" "distinct (kept @ xs)"
  shows "\<not> shedDone w bytes zeros cnt (filter (\<lambda>x. x \<notin> set ys) (kept @ xs))"
  using assms
proof (induction xs arbitrary: kept ys)
  case (Cons x xs)
  let ?all = "kept @ x # xs"
  have nd: "\<not> shedDone w bytes zeros cnt ?all" using Cons.prems(1) by (auto split: if_splits)
  show ?case
  proof (cases "shedPick w bytes zeros ?all x")
    case False
    then show ?thesis using Cons.IH [of "kept @ [x]" ys] Cons.prems nd by (simp split: if_splits)
  next
    case True
    show ?thesis
    proof (cases ys)
      case Nil
      then show ?thesis using nd by simp
    next
      case (Cons y' ys')
      then have y: "y' = x" and eq: "shedFrom w bytes zeros cnt kept xs = ys' @ y # zs"
        using Cons.prems(1) True nd by simp_all
      have "filter (\<lambda>z. z \<notin> set ys) ?all = filter (\<lambda>z. z \<notin> set ys') (kept @ xs)"
        using Cons.prems(2) by (simp add: Cons y) (intro arg_cong2 [where f = "(@)"] filter_cong; auto)
      then show ?thesis using Cons.IH [OF eq] Cons.prems(2) by simp
    qed
  qed
qed simp

lemma shedLoop_plan:
  fixes c :: "('v :: zero) mapCache"
  assumes "mid W 0 dd rr ss c (pre @ suf)" "\<And>a. a \<in> set (pre @ suf) \<Longrightarrow> W a = esize (m_heap c a)"
  shows "\<exists>c' q' as' gs. shedLoop et nf tz tln prot (final None pre) acc (c, q)
      = Some ((c', q'), acc @ map (\<lambda>a. evalue (m_heap c a)) gs)
    \<and> mid W 0 dd rr (ss + int (length gs)) c' as'
    \<and> sheds (c, q) (pre @ suf) (map (\<lambda>a. (a, EvictionReasonPressure)) gs) (c', q') as'
    \<and> prot \<notin> Some ` set gs
    \<and> (m_currentSize c \<le> et \<or> (\<forall>a\<in>set suf. W a = 0 \<or> prot = Some a) \<longrightarrow>
       (\<forall>e. prot = Some e \<longrightarrow> W e \<le> et) \<longrightarrow> m_currentSize c' \<le> et)
    \<and> (nf \<longrightarrow> (\<forall>a\<in>set suf. prot = Some a) \<longrightarrow> (\<forall>a\<in>set as'. prot = Some a))
    \<and> (prot = None \<longrightarrow> gs = (if nf then rev pre else shedFrom W (unat et) tz tln (rev suf) (rev pre)))"
  using assms
proof (induction pre arbitrary: c q suf acc ss rule: rev_induct)
  case Nil
  have "m_currentSize c \<le> et" if "\<forall>a\<in>set suf. W a = 0 \<or> prot = Some a" "\<forall>e. prot = Some e \<longrightarrow> W e \<le> et"
  proof -
    have "weight_sum (map W suf) \<le> unat et"
    proof (cases prot)
      case None
      then show ?thesis using weight_sum_only [of suf W None] that mid_distinct [OF Nil(1)] by auto
    next
      case (Some e)
      then show ?thesis
        using weight_sum_only [of suf W prot "unat et"] that mid_distinct [OF Nil(1)] by (auto simp: word_le_nat_alt)
    qed
    then show ?thesis using Nil(1) by (simp add: mid_def word_le_nat_alt)
  qed
  then show ?case
    using Nil by - (rule exI [of _ c], rule exI [of _ q], rule exI [of _ suf], rule exI [of _ "[]"],
        auto simp: shedLoop.simps sheds_refl)
next
  case (snoc v pre)
  let ?as = "pre @ v # suf"
  have m: "mid W 0 dd rr ss c ?as" and W: "\<And>a. a \<in> set ?as \<Longrightarrow> W a = esize (m_heap c a)"
    using snoc.prems by auto
  obtain nb nz where nbz: "shouldContinueShedding (m_ps c) (m_currentSize c) et nf tz (mapLen c) tln = (nb, nz)"
    by (metis surj_pair)
  have nb: "nb = (et < m_currentSize c \<or> nf)" using nbz by (simp add: shouldContinueShedding_def)
  have pv: "prev (m_heap c v) = final None pre"
    using m by (simp add: mid_def map_repr_def dll_def lseg_append)
  let ?ev = "shouldEvictShedVictim (m_ps c) (prot = Some v) (esize (m_heap c v)) nf nb tz"
  let ?rs = "rev suf @ v # rev pre"
  have rs: "weight_sum (map W ?rs) = weight_sum (map W ?as)" "count_list (map W ?rs) 0 = count_list (map W ?as) 0"
      "length ?rs = length ?as"
    using weight_sum_rev [of W ?as] count_rev [of W ?as] by (simp_all del: weight_sum_simps count_list.simps)
  have counts: "unat (m_currentSize c) = weight_sum (map W ?rs)" "zeroSizeCount (m_ps c) = int (count_list (map W ?rs) 0)"
    "mapLen c = int (length ?rs)"
    using m mid_len [OF m] unfolding rs by (simp_all add: mid_def ps_ok_def books_ok_def)
  have dn: "shedDone W (unat et) tz tln ?rs \<longleftrightarrow> \<not> nb \<and> \<not> nz" if "\<not> nf"
    using nbz that unfolding shouldContinueShedding_def counts(2,3) word_less_nat_alt counts(1) by (auto simp: shedDone_def not_less)
  have pick: "shedPick W (unat et) tz ?rs v \<longleftrightarrow> ?ev" if "\<not> nf" "prot = None"
    using nb that W [of v] unfolding shouldEvictShedVictim_def counts(2) word_less_nat_alt counts(1) by (auto simp: shedPick_def unat_gt_0)
  have none: "shedFrom W (unat et) tz tln (rev suf) (rev (pre @ [v])) = []" if "\<not> nb \<and> \<not> nz" "\<not> nf"
    using dn that by simp
  have one: "shedFrom W (unat et) tz tln (rev suf) (rev (pre @ [v]))
      = (if ?ev then v # shedFrom W (unat et) tz tln (rev suf) (rev pre) else shedFrom W (unat et) tz tln (rev (v # suf)) (rev pre))"
    if "nb \<or> nz" "\<not> nf" "prot = None"
    using dn [OF that(2)] pick [OF that(2,3)] that(1) by auto
  consider (stop) "\<not> nb \<and> \<not> nz" | (evict) "nb \<or> nz" ?ev | (skip) "nb \<or> nz" "\<not> ?ev" by blast
  then show ?case
  proof cases
    case stop
    then have "shedLoop et nf tz tln prot (final None (pre @ [v])) acc (c, q) = Some ((c, q), acc)"
      using nbz by (subst shedLoop.simps) auto
    moreover have nf: "\<not> nf" using stop nb by simp
    have "prot = None \<longrightarrow> [] = (if nf then rev (pre @ [v]) else shedFrom W (unat et) tz tln (rev suf) (rev (pre @ [v])))"
      by (simp only: nf if_False none [OF stop nf] simp_thms)
    moreover have "m_currentSize c \<le> et" using nb stop by (simp add: not_less)
    ultimately show ?thesis
      using m nf by (intro exI [of _ c] exI [of _ q] exI [of _ ?as] exI [of _ "[]"]) (simp del: shedFrom.simps rev_append add: sheds_refl)
  next
    case skip
    have step: "shedLoop et nf tz tln prot (final None (pre @ [v])) acc (c, q)
        = shedLoop et nf tz tln prot (final None pre) acc (c, q)"
      using skip nbz pv by (subst shedLoop.simps) (auto simp: Let_def)
    have v: "W v = 0 \<or> prot = Some v \<or> m_currentSize c \<le> et" "nf \<longrightarrow> prot = Some v"
      using skip nb W [of v] by (auto simp: shouldEvictShedVictim_def word_neq_0_conv not_less split: if_splits)
    obtain c' q' as' gs where ih:
      "shedLoop et nf tz tln prot (final None pre) acc (c, q) = Some ((c', q'), acc @ map (\<lambda>a. evalue (m_heap c a)) gs)"
      "mid W 0 dd rr (ss + int (length gs)) c' as'"
      "sheds (c, q) ?as (map (\<lambda>a. (a, EvictionReasonPressure)) gs) (c', q') as'" "prot \<notin> Some ` set gs"
      "m_currentSize c \<le> et \<or> (\<forall>a\<in>set (v # suf). W a = 0 \<or> prot = Some a) \<longrightarrow>
       (\<forall>e. prot = Some e \<longrightarrow> W e \<le> et) \<longrightarrow> m_currentSize c' \<le> et"
      "nf \<longrightarrow> (\<forall>a\<in>set (v # suf). prot = Some a) \<longrightarrow> (\<forall>a\<in>set as'. prot = Some a)"
      "prot = None \<longrightarrow> gs = (if nf then rev pre else shedFrom W (unat et) tz tln (rev (v # suf)) (rev pre))"
      using snoc.IH [OF m W, where acc = acc and q = q] by blast
    show ?thesis
      unfolding step
    proof (intro exI conjI)
      show "m_currentSize c \<le> et \<or> (\<forall>a\<in>set suf. W a = 0 \<or> prot = Some a) \<longrightarrow>
       (\<forall>e. prot = Some e \<longrightarrow> W e \<le> et) \<longrightarrow> m_currentSize c' \<le> et" using ih(5) v(1) by auto
      show "nf \<longrightarrow> (\<forall>a\<in>set suf. prot = Some a) \<longrightarrow> (\<forall>a\<in>set as'. prot = Some a)" using ih(6) v(2) by auto
      show "prot = None \<longrightarrow> gs = (if nf then rev (pre @ [v]) else shedFrom W (unat et) tz tln (rev suf) (rev (pre @ [v])))"
        using ih(7) v(2) one [OF skip(1)] skip(2) by (cases prot; cases nf) (simp_all del: shedFrom.simps)
    qed (use ih in simp_all)
  next
    case evict
    obtain c1 q1 x where er: "mapCache_eraseEntryLocked v EvictionReasonPressure (c, q) = ((c1, q1), x)"
      by (metis surj_pair)
    have vm: "v \<in> set ?as" and d0: "unat (W v) + 0 \<le> weight_sum (map W ?as)" by simp_all
    have rm: "remove1 v ?as = pre @ suf"
      using mid_distinct [OF m] by (simp add: remove1_append)
    note e = erase_mid [OF m vm W [OF vm] d0 _ er, unfolded rm]
    have step: "shedLoop et nf tz tln prot (final None (pre @ [v])) acc (c, q)
        = shedLoop et nf tz tln prot (final None pre) (acc @ [evalue (m_heap c v)]) (c1, q1)"
      using evict nbz pv er e(3) by (subst shedLoop.simps) (auto simp: Let_def evicting_def)
    have m1: "mid W 0 dd rr (ss + 1) c1 (pre @ suf)" using e(1) by (simp add: evicting_def)
    have pay: "payload (m_heap c1 b) = payload (m_heap c b)" if "b \<in> set (pre @ suf)" for b
      using e(6) [of b] that mid_distinct [OF m] by (auto simp: evicting_def)
    have W1: "W a = esize (m_heap c1 a)" if "a \<in> set (pre @ suf)" for a
      using W [of a] pay [OF that] that by (auto simp: payload_simps)
    obtain c' q' as' gs where ih:
      "shedLoop et nf tz tln prot (final None pre) (acc @ [evalue (m_heap c v)]) (c1, q1)
        = Some ((c', q'), (acc @ [evalue (m_heap c v)]) @ map (\<lambda>a. evalue (m_heap c1 a)) gs)"
      "mid W 0 dd rr (ss + 1 + int (length gs)) c' as'"
      "sheds (c1, q1) (pre @ suf) (map (\<lambda>a. (a, EvictionReasonPressure)) gs) (c', q') as'"
      "prot \<notin> Some ` set gs"
      "m_currentSize c1 \<le> et \<or> (\<forall>a\<in>set suf. W a = 0 \<or> prot = Some a) \<longrightarrow>
       (\<forall>e. prot = Some e \<longrightarrow> W e \<le> et) \<longrightarrow> m_currentSize c' \<le> et"
      "nf \<longrightarrow> (\<forall>a\<in>set suf. prot = Some a) \<longrightarrow> (\<forall>a\<in>set as'. prot = Some a)"
      "prot = None \<longrightarrow> gs = (if nf then rev pre else shedFrom W (unat et) tz tln (rev suf) (rev pre))"
      using snoc.IH [OF m1 W1, where acc = "acc @ [evalue (m_heap c v)]" and q = q1] by blast
    have vals: "map (\<lambda>a. evalue (m_heap c1 a)) gs = map (\<lambda>a. evalue (m_heap c a)) gs"
    proof (rule map_cong [OF refl])
      fix b assume "b \<in> set gs"
      then have "b \<in> set (pre @ suf)" using sheds_gone [OF ih(3)] by blast
      then show "evalue (m_heap c1 b) = evalue (m_heap c b)" using pay by (simp add: payload_simps)
    qed
    have "unat (W v) \<le> unat (m_currentSize c)" using m by (simp add: mid_def)
    then have le: "m_currentSize c1 \<le> m_currentSize c"
      using e(4) unat_sub_u64 [of "W v" "m_currentSize c"] by (simp add: evicting_def word_le_nat_alt)
    have sh: "sheds (c, q) ?as (map (\<lambda>a. (a, EvictionReasonPressure)) (v # gs)) (c', q') as'"
      using sheds_trans [OF e(2) ih(3)] by (simp add: evicting_def)
    have pr: "prot \<noteq> Some v" using evict by (auto simp: shouldEvictShedVictim_def)
    show ?thesis
      unfolding step
    proof (intro exI conjI)
      show "shedLoop et nf tz tln prot (final None pre) (acc @ [evalue (m_heap c v)]) (c1, q1)
        = Some ((c', q'), acc @ map (\<lambda>a. evalue (m_heap c a)) (v # gs))" using ih(1) vals by simp
      show "mid W 0 dd rr (ss + int (length (v # gs))) c' as'" using ih(2) by (simp add: ac_simps)
      show "sheds (c, q) ((pre @ [v]) @ suf) (map (\<lambda>a. (a, EvictionReasonPressure)) (v # gs)) (c', q') as'"
        using sh by simp
      show "prot \<notin> Some ` set (v # gs)" using ih(4) pr by auto
      show "m_currentSize c \<le> et \<or> (\<forall>a\<in>set suf. W a = 0 \<or> prot = Some a) \<longrightarrow>
       (\<forall>e. prot = Some e \<longrightarrow> W e \<le> et) \<longrightarrow> m_currentSize c' \<le> et" using ih(5) le by auto
      show "nf \<longrightarrow> (\<forall>a\<in>set suf. prot = Some a) \<longrightarrow> (\<forall>a\<in>set as'. prot = Some a)" by (fact ih(6))
      show "prot = None \<longrightarrow> v # gs = (if nf then rev (pre @ [v]) else shedFrom W (unat et) tz tln (rev suf) (rev (pre @ [v])))"
        using ih(7) one [OF evict(1)] evict(2) by (cases prot; cases nf) (simp_all del: shedFrom.simps)
    qed
  qed
qed

lemma shedLoop_spec:
  fixes c :: "('v :: zero) mapCache"
  assumes "mid W 0 dd rr ss c (pre @ suf)" "\<And>a. a \<in> set (pre @ suf) \<Longrightarrow> W a = esize (m_heap c a)"
  shows "\<exists>c' q' as' gs. shedLoop et nf tz tln prot (final None pre) acc (c, q)
      = Some ((c', q'), acc @ map (\<lambda>a. evalue (m_heap c a)) gs)
    \<and> mid W 0 dd rr (ss + int (length gs)) c' as'
    \<and> sheds (c, q) (pre @ suf) (map (\<lambda>a. (a, EvictionReasonPressure)) gs) (c', q') as'
    \<and> prot \<notin> Some ` set gs
    \<and> (m_currentSize c \<le> et \<or> (\<forall>a\<in>set suf. W a = 0 \<or> prot = Some a) \<longrightarrow>
       (\<forall>e. prot = Some e \<longrightarrow> W e \<le> et) \<longrightarrow> m_currentSize c' \<le> et)
    \<and> (nf \<longrightarrow> (\<forall>a\<in>set suf. prot = Some a) \<longrightarrow> (\<forall>a\<in>set as'. prot = Some a))"
  using shedLoop_plan [OF assms(1), where et = et and nf = nf and tz = tz and tln = tln and prot = prot and acc = acc and q = q]
  by - (drule meta_mp, erule assms(2), elim exE conjE, intro exI conjI; assumption)

end
