(* ===== verification/MapReclaim.thy ===== *)
theory MapReclaim
  imports MapInv
begin

text \<open>
  Compaction and reclamation of the map backend: lossless compaction touches no entry (\<open>quiet\<close>), and
  the operations that run under pressure shed entries as \<open>reclaims\<close> describes and keep the invariant.
\<close>

subsection \<open>Compaction\<close>

definition quiet :: "'v mapCache \<Rightarrow> 'v mapCache \<Rightarrow> bool" where
  \<comment> \<open>no entry was touched\<close>
  "quiet c c' = (cfg c' = cfg c \<and> m_heap c' = m_heap c \<and> m_nextAddr c' = m_nextAddr c
     \<and> m_entries c' = m_entries c \<and> m_currentSize c' = m_currentSize c)"

lemma quiet_refl [simp]: "quiet c c"
  by (simp add: quiet_def)

lemma quiet_trans: "quiet a b \<Longrightarrow> quiet b c \<Longrightarrow> quiet a c"
  by (simp add: quiet_def)

lemma quiet_onPs: "options (f (m_ps c')) = options (m_ps c') \<Longrightarrow> quiet c (onPs f c') = quiet c c'"
  by (simp add: quiet_def cfg_def)

lemma quiet_dirty: "quiet c (c'\<lparr>m_dirtyIndex := b\<rparr>) = quiet c c'"
  by (simp add: quiet_def cfg_def)

lemma quiet_index: "quiet c (c'\<lparr>m_index := b\<rparr>) = quiet c c'"
  by (simp add: quiet_def cfg_def)

lemma quiet_sheds: "quiet c c' \<Longrightarrow> sheds st as gone (c, q) as' \<Longrightarrow> sheds st as gone (c', q) as'"
  by (auto simp: sheds_def quiet_def split: prod.splits)

lemma options_keep [simp]:
  "options (onCompacted n p) = options p" "options (resetWatermarks p) = options p"
  "options (recordPressureShed b p) = options p" "options (recordTier2Compaction q) = options q"
  "options (onEntryPut n sz p) = options p" "options (onEntrySizeUpdated old new p) = options p"
  by (simp_all add: onCompacted_def resetWatermarks_def recordPressureShed_def recordTier2Compaction_def
      onEntryPut_def onEntrySizeUpdated_def)

lemma options_ledger [simp]:
  "options (markReclaimedLocked p) = options p" "options (recordCompactionByPressure x p) = options p"
  "options (maybeMarkReclaimed b e x p) = options p" "options (finishClearAllLocked b1 b2 e x p) = options p"
  "options (resetZeroWatermarkBelowTier2 x p) = options p" "options (updateZeroWatermarkAfterShed a1 a2 a3 a4 a5 p) = options p"
  by (rule ledger_options, simp)+

lemma recordTier2_keeps [simp]:
  "ledger (recordTier2Compaction p) = ledger p" "sampling_ok (recordTier2Compaction p) = sampling_ok p"
  by (simp_all add: recordTier2Compaction_def)

lemma compact_spec:
  assumes "mid W d dd rr ss c as" "mapCache_compactDataStructuresLocked c = (c', b)"
  shows "mid W d dd rr ss c' as \<and> quiet c c'"
  using assms mid_index_length [OF assms(1)]
  by (auto simp: mapCache_compactDataStructuresLocked_def quiet_onPs quiet_dirty split: if_splits
      intro!: mid_onPs ps_ok_compacted)

lemma clearEmpty_spec:
  assumes "mid W d dd rr ss c []"
  shows "mid W d dd rr ss (mapCache_clearEmptyIndexStateLocked c) [] \<and> quiet c (mapCache_clearEmptyIndexStateLocked c)"
  using assms ps_ok_reset [of "m_ps c" 0 dd rr ss]
  by (auto simp: mapCache_clearEmptyIndexStateLocked_def quiet_onPs quiet_dirty quiet_index
      mid_def map_repr_def index_ok_def)

lemma resetEmpty_spec:
  assumes "mid W d dd rr ss c []"
  shows "mid W d dd rr ss (mapCache_resetEmptyIndexLocked c) [] \<and> quiet c (mapCache_resetEmptyIndexLocked c)"
  using clearEmpty_spec [OF assms]
  by (auto simp: mapCache_resetEmptyIndexLocked_def quiet_onPs intro!: mid_keep markReclaimed_sampling)

lemma compactLocked_spec:
  assumes "mid W d dd rr ss c as"
  shows "mid W d dd rr ss (mapCache_compactLocked c) as \<and> quiet c (mapCache_compactLocked c)"
  using assms compact_spec [OF assms]
  by (auto simp: mapCache_compactLocked_def Let_def quiet_onPs split: prod.splits
      intro!: mid_keep markReclaimed_sampling)

lemma completeShed_spec:
  assumes m: "mid W 0 0 0 ss c as" and n: "0 < n \<longrightarrow> 1 \<le> ss" "0 \<le> ss"
  shows "mid W 0 0 0 0 (mapCache_completeShedAndCompactLocked n ret un uz tln bg c) as
    \<and> quiet c (mapCache_completeShedAndCompactLocked n ret un uz tln bg c)"
proof -
  define c1 where "c1 = (if 0 < n then onPs (recordPressureShed bg) c else c)"
  have "mid W 0 0 0 (ss - 1) (onPs (recordPressureShed bg) c) as" if "0 < n"
    by (rule mid_onPs [OF m]) (rule ps_ok_shed, use n that in auto)
  then have "mid W 0 0 0 (if 0 < n then ss - 1 else ss) c1 as"
    using m by (simp add: c1_def)
  then have m1: "mid W 0 0 0 0 c1 as" by (rule mid_weaken) (use n in auto)
  have q1: "quiet c c1" by (simp add: c1_def quiet_onPs)
  show ?thesis
  proof (cases "0 < n \<and> mapLen c1 = 0")
    case True
    then have as: "as = []" using mid_len [OF m1] by simp
    define c2 where "c2 = (if shouldAutoCompactEntryCounts (m_ps c1) True bg 0 then onPs recordTier2Compaction c1 else c1)"
    have "mid W 0 0 0 0 c2 []" using m1 by (auto simp: c2_def as intro!: mid_keep)
    moreover have "quiet c c2" using q1 by (simp add: c2_def quiet_onPs)
    moreover have "mapCache_completeShedAndCompactLocked n ret un uz tln bg c = mapCache_resetEmptyIndexLocked c2"
      unfolding mapCache_completeShedAndCompactLocked_def Let_def c1_def [symmetric]
      by (simp only: if_P [OF True] c2_def [symmetric])
    ultimately show ?thesis
      using resetEmpty_spec [of W 0 0 0 0 c2] quiet_trans [of c c2] as by simp
  next
    case False
    define c2 where "c2 = (if 0 < n then onPs (updateZeroWatermarkAfterShed ret (mapLen c1) un uz tln) c1 else c1)"
    have m2: "mid W 0 0 0 0 c2 as" using m1 by (auto simp: c2_def intro!: mid_keep)
    have q2: "quiet c c2" using q1 by (simp add: c2_def quiet_onPs)
    obtain c3 b where c3: "(if shouldAutoCompactMap (m_ps c2) (m_dirtyIndex c2) bg (mapLen c2)
             then case mapCache_compactDataStructuresLocked c2 of (c', done) \<Rightarrow>
               (if done then onPs recordTier2Compaction c' else c', done)
             else (c2, False)) = (c3, b)"
      by (rule prod.exhaust)
    have "mid W 0 0 0 0 c3 as \<and> quiet c c3"
    proof (cases "shouldAutoCompactMap (m_ps c2) (m_dirtyIndex c2) bg (mapLen c2)")
      case True
      obtain c' dn where cd: "mapCache_compactDataStructuresLocked c2 = (c', dn)" by (metis surj_pair)
      then have "mid W 0 0 0 0 c' as" "quiet c c'" using compact_spec [OF m2 cd] q2 quiet_trans by blast+
      moreover have "c3 = (if dn then onPs recordTier2Compaction c' else c')" using c3 True cd by auto
      ultimately show ?thesis by (auto simp: quiet_onPs intro!: mid_keep)
    next
      case False
      then show ?thesis using c3 m2 q2 by simp
    qed
    moreover have "mapCache_completeShedAndCompactLocked n ret un uz tln bg c
        = (if 0 < n \<or> b then onPs markReclaimedLocked c3 else c3)"
      unfolding mapCache_completeShedAndCompactLocked_def Let_def c1_def [symmetric]
      by (simp only: if_not_P [OF False] c2_def [symmetric] c3 prod.case)
    moreover have "mid W 0 0 0 0 (onPs markReclaimedLocked c3) as" if "mid W 0 0 0 0 c3 as"
      by (rule mid_keep [OF that]) (simp_all add: markReclaimed_sampling)
    ultimately show ?thesis by (simp add: quiet_onPs)
  qed
qed


lemma computeShedTargets_protects:
  assumes "computeShedTargets p t ret n hp ps = (et, x)" "flt (Fin 0) ret" "hp"
  shows "ps \<le> et"
  using assms flt_not_fge by (auto simp: computeShedTargets_def Let_def fle_def fge_def not_less split: if_splits prod.splits)

definition zerosKept :: "('a \<Rightarrow> u64) \<Rightarrow> ('v, 'm) pressureState_scheme \<Rightarrow> float64 \<Rightarrow> 'a list \<Rightarrow> int" where
  \<comment> \<open>how many weightless entries may stay: the retained share, at least what the last shed left\<close>
  "zerosKept w p retention xs = (let n = count_list (map w xs) 0 in
     if n = 0 then 0 else max (float_trunc (fmul (float_of_int (int n)) retention)) (lastReclaimedZeroCount p))"

definition lenKept :: "('a \<Rightarrow> u64) \<Rightarrow> ('v, 'm) pressureState_scheme \<Rightarrow> float64 \<Rightarrow> 'a list \<Rightarrow> int" where
  \<comment> \<open>the same for the number of entries, where there are weightless ones\<close>
  "lenKept w p retention xs = (if count_list (map w xs) 0 = 0 then 0
     else max (float_trunc (fmul (float_of_int (int (length xs))) retention)) (lastReclaimedLen p))"

definition shedPlan :: "('a \<Rightarrow> u64) \<Rightarrow> ('v, 'm) pressureState_scheme \<Rightarrow> u64 \<Rightarrow> float64 \<Rightarrow> 'a list \<Rightarrow> 'a list" where
  \<comment> \<open>what a shed without a protected entry takes out of the recency list \<open>xs\<close>, in that order\<close>
  "shedPlan w p bytes retention xs = (if feq retention (Fin 0) then rev xs
     else shedFrom w (unat bytes) (zerosKept w p retention xs) (lenKept w p retention xs) [] (rev xs))"

lemma shedPlan_map: "shedPlan w p bytes retention (map f xs) = map f (shedPlan (\<lambda>x. w (f x)) p bytes retention xs)"
proof -
  have "zerosKept w p retention (map f xs) = zerosKept (\<lambda>x. w (f x)) p retention xs"
    "lenKept w p retention (map f xs) = lenKept (\<lambda>x. w (f x)) p retention xs"
    by (simp_all add: zerosKept_def lenKept_def comp_def)
  then show ?thesis
    using shedFrom_map [of w "unat bytes" "zerosKept w p retention (map f xs)" "lenKept w p retention (map f xs)" f "[]" "rev xs"]
    by (simp add: shedPlan_def rev_map)
qed

lemma shedPlan_needed:
  assumes "shedPlan w p bytes retention xs = ys @ y # zs" "distinct xs" "\<not> feq retention (Fin 0)"
  shows "\<not> shedDone w (unat bytes) (zerosKept w p retention xs) (lenKept w p retention xs) (filter (\<lambda>x. x \<notin> set ys) xs)"
proof -
  have "shedFrom w (unat bytes) (zerosKept w p retention xs) (lenKept w p retention xs) [] (rev xs) = ys @ y # zs"
    using assms(1,3) by (simp add: shedPlan_def)
  then have "\<not> shedDone w (unat bytes) (zerosKept w p retention xs) (lenKept w p retention xs) (filter (\<lambda>x. x \<notin> set ys) (rev xs))"
    using shedFrom_needed assms(2) by fastforce
  then show ?thesis by (simp add: rev_filter [symmetric] shedDone_rev)
qed

lemma computeShedTargets_kept:
  assumes "computeShedTargets p t ret n False ps = (et, tln, tz, uz)" "flt (Fin 0) ret"
    and "zeroSizeCount p = int (count_list (map w xs) 0)" "n = int (length xs)"
  shows "et = t" "tz = zerosKept w p ret xs" "tln = lenKept w p ret xs"
proof -
  have r: "\<not> fle ret (Fin 0)" using flt_not_fge [OF assms(2)] by (simp add: fle_def fge_def)
  have pos: "0 < length xs" if "count_list (map w xs) 0 \<noteq> 0" using that by (cases xs) auto
  show "et = t" "tz = zerosKept w p ret xs" "tln = lenKept w p ret xs"
    using assms(1) r pos
    by (auto simp: computeShedTargets_def computeZeroShedTargets_def zerosKept_def lenKept_def assms(3,4) Let_def max_def
        split: if_splits)
qed

lemma shedAndCompact_spec:
  fixes c :: "('v :: zero) mapCache"
  assumes m: "mid W 0 0 0 0 c as" and W: "\<And>a. a \<in> set as \<Longrightarrow> W a = esize (m_heap c a)"
  shows "\<exists>c' q' as' gs. mapCache_shedAndCompactLocked t ret prot bg (c, q)
      = Inr ((c', q'), map (\<lambda>a. evalue (m_heap c a)) gs)
    \<and> mid W 0 0 0 0 c' as' \<and> sheds (c, q) as (map (\<lambda>a. (a, EvictionReasonPressure)) gs) (c', q') as'
    \<and> prot \<notin> Some ` set gs
    \<and> (flt (Fin 0) ret \<longrightarrow> set_option prot \<subseteq> set as \<longrightarrow>
        m_currentSize c' \<le> max t (case prot of Some e \<Rightarrow> W e | None \<Rightarrow> 0))
    \<and> (feq ret (Fin 0) \<longrightarrow> (\<forall>a\<in>set as'. prot = Some a))
    \<and> (prot = None \<longrightarrow> fle (Fin 0) ret \<longrightarrow> gs = shedPlan W (m_ps c) t ret as)"
proof -
  let ?ps = "case prot of Some e \<Rightarrow> esize (m_heap c e) | None \<Rightarrow> 0"
  obtain et tln tz uz where ct: "computeShedTargets (m_ps c) t ret (mapLen c) (prot \<noteq> None) ?ps = (et, tln, tz, uz)"
    by (metis prod_cases4)
  obtain c1 q1 as' gs where sl:
    "shedLoop et (feq ret (Fin 0)) tz tln prot (final None as) [] (c, q) = Some ((c1, q1), map (\<lambda>a. evalue (m_heap c a)) gs)"
    "mid W 0 0 0 (int (length gs)) c1 as'"
    "sheds (c, q) as (map (\<lambda>a. (a, EvictionReasonPressure)) gs) (c1, q1) as'" "prot \<notin> Some ` set gs"
    "(\<forall>e. prot = Some e \<longrightarrow> W e \<le> et) \<longrightarrow> m_currentSize c1 \<le> et"
    "feq ret (Fin 0) \<longrightarrow> (\<forall>a\<in>set as'. prot = Some a)"
    "prot = None \<longrightarrow> gs = (if feq ret (Fin 0) then rev as else shedFrom W (unat et) tz tln (rev []) (rev as))"
    using shedLoop_plan [where pre = as and suf = "[]" and acc = "[]" and ss = 0, simplified, OF m W,
        where et = et and nf = "feq ret (Fin 0)" and tz = tz and tln = tln and prot = prot and q = q] by blast
  define c2 where "c2 = mapCache_completeShedAndCompactLocked (int (length (map (\<lambda>a. evalue (m_heap c a)) gs))) ret
     (\<not> (prot \<noteq> None) \<or> et \<le> t) uz tln bg c1"
  have c2: "mid W 0 0 0 0 c2 as' \<and> quiet c1 c2"
    unfolding c2_def by (rule completeShed_spec [OF sl(2)]) (auto simp: Suc_le_eq)
  have res: "mapCache_shedAndCompactLocked t ret prot bg (c, q) = Inr ((c2, q1), map (\<lambda>a. evalue (m_heap c a)) gs)"
    using sl(1) mid_Back [OF m]
    unfolding mapCache_shedAndCompactLocked_def Let_def fst_conv ct prod.case c2_def by simp
  have tgt: "m_currentSize c2 \<le> max t (case prot of Some e \<Rightarrow> W e | None \<Rightarrow> 0)"
    if ret: "flt (Fin 0) ret" and pr: "set_option prot \<subseteq> set as"
  proof -
    have W': "?ps = (case prot of Some e \<Rightarrow> W e | None \<Rightarrow> 0)" using pr W by (auto split: option.splits)
    have "prot = Some e \<Longrightarrow> W e \<le> et" for e
      using computeShedTargets_protects [OF ct ret] W' by auto
    then have "m_currentSize c2 \<le> et" using sl(5) c2 by (auto simp: quiet_def)
    moreover have "et \<le> max t ?ps"
      using ct ret flt_not_fge by (auto simp: computeShedTargets_def Let_def fle_def fge_def split: if_splits prod.splits)
    ultimately show ?thesis using W' by auto
  qed
  have "gs = shedPlan W (m_ps c) t ret as" if pr: "prot = None" and ret: "fle (Fin 0) ret"
  proof (cases "feq ret (Fin 0)")
    case False
    then have pos: "flt (Fin 0) ret" using ret by (cases ret) (auto simp: fle_def)
    have z: "zeroSizeCount (m_ps c) = int (count_list (map W as) 0)" using m by (simp add: mid_def ps_ok_def books_ok_def)
    show ?thesis
      using computeShedTargets_kept [OF ct [unfolded pr, simplified] pos z mid_len [OF m]] sl(7) pr False by (simp add: shedPlan_def)
  qed (use sl(7) pr in \<open>simp add: shedPlan_def\<close>)
  then show ?thesis
    using res c2 sl(4,6) tgt quiet_sheds [OF _ sl(3)] by blast
qed

definition reclaims ::
  "float64 \<Rightarrow> addr option \<Rightarrow> ('v :: zero) mapState \<Rightarrow> addr list \<Rightarrow> addr list \<Rightarrow> 'v mapState \<Rightarrow> addr list \<Rightarrow> bool" where
  \<comment> \<open>what reclamation under pressure may do: shed entries \<open>gs\<close>, never the protected one, and none
    below the eviction threshold\<close>
  "reclaims pressure prot st as gs st' as' =
     (sheds st as (map (\<lambda>a. (a, EvictionReasonPressure)) gs) st' as' \<and> prot \<notin> Some ` set gs
      \<and> (\<not> fge pressure (EvictionThreshold (options (m_ps (fst st)))) \<longrightarrow> gs = []))"

lemma reclaims_quiet:
  "reclaims x prot st as gs (c, q) as' \<Longrightarrow> quiet c c' \<Longrightarrow> reclaims x prot st as gs (c', q) as'"
  using quiet_sheds [of c c' st as _ q as'] by (auto simp: reclaims_def)

lemma reclaims_refl: "quiet c c' \<Longrightarrow> reclaims x prot (c, q) as [] (c', q) as"
  by (auto simp: reclaims_def quiet_def intro!: sheds_refl)

lemma mid_mark: "mid W d dd rr ss c as \<Longrightarrow> mid W d dd rr ss (onPs markReclaimedLocked c) as"
  by (rule mid_keep) (simp_all add: markReclaimed_sampling)

lemma mid_maybeMark: "mid W d dd rr ss c as \<Longrightarrow> mid W d dd rr ss (onPs (maybeMarkReclaimed b e x) c) as"
  by (rule mid_keep) (simp_all add: maybeMarkReclaimed_sampling)

lemma mid_recordCompaction: "mid W d dd rr ss c as \<Longrightarrow> mid W d dd rr ss (onPs (recordCompactionByPressure x) c) as"
  by (rule mid_keep) simp_all

lemma mid_resetWatermark: "mid W d dd rr ss c as \<Longrightarrow> mid W d dd rr ss (onPs (resetZeroWatermarkBelowTier2 x) c) as"
  by (rule mid_keep) simp_all

lemmas mid_intros = mid_mark mid_maybeMark mid_recordCompaction mid_resetWatermark

lemma maybeReclaim_spec:
  fixes c :: "('v :: zero) mapCache"
  assumes m: "mid W 0 0 0 0 c as" and W: "\<And>a. a \<in> set as \<Longrightarrow> W a = esize (m_heap c a)"
  shows "\<exists>c' q' as' gs. mapCache_maybeReclaimUnderPressureLocked x prot bg (c, q)
      = Inr ((c', q'), map (\<lambda>a. evalue (m_heap c a)) gs)
    \<and> mid W 0 0 0 0 c' as' \<and> reclaims x prot (c, q) as gs (c', q') as'
    \<and> (prot = None \<longrightarrow> fle (Fin 0) (EvictionRetentionRatio (options (m_ps c))) \<longrightarrow>
       gs = (if fge x (EvictionThreshold (options (m_ps c))) \<and> \<not> isSamplingGoroutine (m_ps c)
             then shedPlan W (m_ps c) (tier2TargetSize (m_ps c) (m_maxSize c)) (EvictionRetentionRatio (options (m_ps c))) as else []))"
proof (cases "fge x (EvictionThreshold (options (m_ps c)))")
  case True
  show ?thesis
  proof (cases "isSamplingGoroutine (m_ps c)")
    case s: True
    have "mapCache_maybeReclaimUnderPressureLocked x prot bg (c, q) = Inr ((c, q), map (\<lambda>a. evalue (m_heap c a)) [])"
      using True s by (simp add: mapCache_maybeReclaimUnderPressureLocked_def)
    then show ?thesis
      using m s reclaims_refl [OF quiet_refl [of c]] by (intro exI [of _ c] exI [of _ q] exI [of _ as] exI [of _ "[]"]) simp
  next
    case False
    then have "mapCache_maybeReclaimUnderPressureLocked x prot bg (c, q)
        = mapCache_shedAndCompactLocked (tier2TargetSize (m_ps c) (m_maxSize c))
            (EvictionRetentionRatio (options (m_ps c))) prot bg (c, q)"
      using True by (simp add: mapCache_maybeReclaimUnderPressureLocked_def)
    then have eq: "mapCache_maybeReclaimUnderPressureLocked x prot bg (c, q)
        = mapCache_shedAndCompactLocked (tier2TargetSize (m_ps c) (m_maxSize c))
            (EvictionRetentionRatio (options (m_ps c))) prot bg (c, q)" .
    obtain c' q' as' gs where s: "mapCache_shedAndCompactLocked (tier2TargetSize (m_ps c) (m_maxSize c))
            (EvictionRetentionRatio (options (m_ps c))) prot bg (c, q) = Inr ((c', q'), map (\<lambda>a. evalue (m_heap c a)) gs)"
      "mid W 0 0 0 0 c' as'" "sheds (c, q) as (map (\<lambda>a. (a, EvictionReasonPressure)) gs) (c', q') as'" "prot \<notin> Some ` set gs"
      "prot = None \<longrightarrow> fle (Fin 0) (EvictionRetentionRatio (options (m_ps c))) \<longrightarrow>
        gs = shedPlan W (m_ps c) (tier2TargetSize (m_ps c) (m_maxSize c)) (EvictionRetentionRatio (options (m_ps c))) as"
      using shedAndCompact_spec [OF m W, where t = "tier2TargetSize (m_ps c) (m_maxSize c)" and ret = "EvictionRetentionRatio (options (m_ps c))"
          and prot = prot and bg = bg and q = q] by blast
    show ?thesis
      unfolding eq using s True False by (intro exI [of _ c'] exI [of _ q'] exI [of _ as'] exI [of _ gs]) (simp add: reclaims_def)
  qed
next
  case False
  define c1 where "c1 = onPs (resetZeroWatermarkBelowTier2 x) c"
  have m1: "mid W 0 0 0 0 c1 as" and q1: "quiet c c1"
    using m by (simp_all add: c1_def mid_resetWatermark quiet_onPs)
  obtain c2 b where cd: "mapCache_compactDataStructuresLocked c1 = (c2, b)" by (rule prod.exhaust)
  have c2: "mid W 0 0 0 0 c2 as" "quiet c c2" using compact_spec [OF m1 cd] q1 quiet_trans by blast+
  define c3 where "c3 = (if fge x (CompactionThreshold (options (m_ps c1)))
      \<and> shouldAutoCompactMap (m_ps c1) (m_dirtyIndex c1) bg (mapLen c1) \<and> \<not> isSamplingGoroutine (m_ps c1)
    then (if b then onPs markReclaimedLocked
                 (onPs (\<lambda>p. p\<lparr>compactionsPressureTier1 := compactionsPressureTier1 p + 1\<rparr>) c2) else c2)
    else c1)"
  have "mid W 0 0 0 0 (onPs (\<lambda>p. p\<lparr>compactionsPressureTier1 := compactionsPressureTier1 p + 1\<rparr>) c2) as"
    by (rule mid_keep [OF c2(1)]) simp_all
  then have "mid W 0 0 0 0 c3 as" "quiet c c3"
    using m1 q1 c2 by (simp_all add: c3_def mid_mark quiet_onPs)
  moreover have "mapCache_maybeReclaimUnderPressureLocked x prot bg (c, q) = Inr ((c3, q), map (\<lambda>a. evalue (m_heap c a)) [])"
    unfolding mapCache_maybeReclaimUnderPressureLocked_def Let_def prod.case c1_def [symmetric] cd c3_def
    using False by simp
  ultimately show ?thesis
    using reclaims_refl [of c c3 x prot q as] False
    by (intro exI [of _ c3] exI [of _ q] exI [of _ as] exI [of _ "[]"]) simp
qed

lemma finishMutation_spec:
  fixes c :: "('v :: zero) mapCache"
  assumes m: "mid W 0 0 0 0 c as" and W: "\<And>a. a \<in> set as \<Longrightarrow> W a = esize (m_heap c a)"
  shows "\<exists>c' q' as' gs. mapCache_finishMutationReclaimLocked evs prot rp cp sb se x (c, q)
      = Inr ((c', q'), evs @ map (\<lambda>a. evalue (m_heap c a)) gs)
    \<and> mid W 0 0 0 0 c' as' \<and> reclaims x prot (c, q) as gs (c', q') as'"
proof -
  obtain c1 q1 as' gs where r: "mapCache_maybeReclaimUnderPressureLocked x prot False (c, q)
      = Inr ((c1, q1), map (\<lambda>a. evalue (m_heap c a)) gs)" "mid W 0 0 0 0 c1 as'"
    "reclaims x prot (c, q) as gs (c1, q1) as'"
    using maybeReclaim_spec [OF m W] by blast
  obtain c2 b where cd: "mapCache_compactDataStructuresLocked c1 = (c2, b)" by (rule prod.exhaust)
  have c2: "mid W 0 0 0 0 c2 as'" "quiet c1 c2" using compact_spec [OF r(2) cd] by blast+
  define c3 where "c3 = (if shouldCompactAfterMutation (m_ps c1) rp (m_currentSize c1 < sb) (mapCache_hasSlackLocked c1) x
     then (if b \<and> \<not> cp then onPs (recordCompactionByPressure x) c2 else c2) else c1)"
  have c3: "mid W 0 0 0 0 c3 as'" "quiet c1 c3"
    using r(2) c2 by (simp_all add: c3_def mid_recordCompaction quiet_onPs)
  define c4 where "c4 = (if shouldMarkReclaimedAfterMutation (m_ps c3) rp (m_currentSize c1 < sb) se x
     then onPs markReclaimedLocked c3 else c3)"
  have "mid W 0 0 0 0 c4 as'" "quiet c1 c4"
    using c3 by (simp_all add: c4_def mid_mark quiet_onPs)
  moreover have "mapCache_finishMutationReclaimLocked evs prot rp cp sb se x (c, q)
      = Inr ((c4, q1), evs @ map (\<lambda>a. evalue (m_heap c a)) gs)"
    unfolding mapCache_finishMutationReclaimLocked_def r(1) bindr_simps prod.case Let_def cd
      c3_def [symmetric] c4_def [symmetric] by simp
  ultimately show ?thesis using reclaims_quiet [OF r(3)] by blast
qed

lemma finishDelete_spec:
  fixes c :: "('v :: zero) mapCache"
  assumes m: "mid W 0 0 0 0 c as" and W: "\<And>a. a \<in> set as \<Longrightarrow> W a = esize (m_heap c a)"
  shows "\<exists>c' q' as' gs. mapCache_finishDeleteReclaimLocked sb se x (c, q) = Inr (c', q')
    \<and> mid W 0 0 0 0 c' as' \<and> reclaims x None (c, q) as gs (c', q') as'"
proof (cases "mapLen c = 0")
  case True
  then have as: "as = []" using mid_len [OF m] by simp
  define c1 where "c1 = (if hasEmptyDeleteSlack (m_ps c) False then onPs (recordCompactionByPressure x) c else c)"
  have c1: "mid W 0 0 0 0 c1 []" "quiet c c1"
    using m by (simp_all add: c1_def as mid_recordCompaction quiet_onPs)
  define c2 where "c2 = onPs (maybeMarkReclaimed (hasEmptyDeleteSlack (m_ps c) False \<or> 0 < sb) se x)
     (mapCache_clearEmptyIndexStateLocked c1)"
  have "mid W 0 0 0 0 c2 []" "quiet c c2"
    using clearEmpty_spec [OF c1(1)] quiet_trans [OF c1(2)] by (simp_all add: c2_def mid_maybeMark quiet_onPs)
  moreover have "mapCache_finishDeleteReclaimLocked sb se x (c, q) = Inr (c2, q)"
    using True by (simp add: mapCache_finishDeleteReclaimLocked_def Let_def c1_def [symmetric] c2_def)
  ultimately show ?thesis using reclaims_refl as by blast
next
  case False
  define rs where "rs = shouldReclaimSingleSurvivorOnDelete (m_ps c) (mapLen c) (mapCache_hasSlackLocked c) False"
  obtain c0 b where cd: "mapCache_compactDataStructuresLocked c = (c0, b)" by (rule prod.exhaust)
  have c0: "mid W 0 0 0 0 c0 as" "quiet c c0" using compact_spec [OF m cd] by blast+
  define c1 where "c1 = (if rs then (if b then onPs (recordCompactionByPressure x) c0 else c0) else c)"
  have c1: "mid W 0 0 0 0 c1 as" "quiet c c1"
    using m c0 by (simp_all add: c1_def mid_recordCompaction quiet_onPs)
  have W1: "\<And>a. a \<in> set as \<Longrightarrow> W a = esize (m_heap c1 a)" and o1: "options (m_ps c1) = options (m_ps c)"
    using W c1(2) cfg_simps by (auto simp: quiet_def)
  let ?p = "fge x (CompactionThreshold (options (m_ps c1))) \<or> fge x (EvictionThreshold (options (m_ps c1)))"
  define r where "r = (if ?p then mapCache_maybeReclaimUnderPressureLocked x None False (c1, q)
      else Inr ((onPs (resetZeroWatermarkBelowTier2 x) c1, q), []))"
  have "\<exists>c2 q2 as' gs vs. r = Inr ((c2, q2), vs) \<and> mid W 0 0 0 0 c2 as' \<and> reclaims x None (c1, q) as gs (c2, q2) as'"
  proof (cases ?p)
    case True
    then show ?thesis
      using maybeReclaim_spec [OF c1(1) W1, where x = x and prot = None and bg = False and q = q] unfolding r_def by auto
  next
    case False
    have "quiet c1 (onPs (resetZeroWatermarkBelowTier2 x) c1)" by (simp add: quiet_onPs)
    then have "reclaims x None (c1, q) as [] (onPs (resetZeroWatermarkBelowTier2 x) c1, q) as" by (rule reclaims_refl)
    moreover have "r = Inr ((onPs (resetZeroWatermarkBelowTier2 x) c1, q), [])" using False by (simp add: r_def)
    ultimately show ?thesis using mid_resetWatermark [OF c1(1)] by blast
  qed
  then obtain c2 q2 as' gs vs where r: "r = Inr ((c2, q2), vs)" "mid W 0 0 0 0 c2 as'"
    "reclaims x None (c1, q) as gs (c2, q2) as'"
    by blast
  have "reclaims x None (c, q) as gs (c2, q2) as'"
    using r(3) c1(2) sheds_trans [OF sheds_refl, of c1 c q as] o1
    by (auto simp: reclaims_def quiet_def)
  moreover have "mapCache_finishDeleteReclaimLocked sb se x (c, q)
      = Inr (onPs (maybeMarkReclaimed (rs \<or> m_currentSize c2 < sb) se x) c2, q2)"
    using False r(1) unfolding mapCache_finishDeleteReclaimLocked_def Let_def prod.case rs_def [symmetric] cd
      c1_def [symmetric] r_def [symmetric] by simp
  moreover have "quiet c2 (onPs (maybeMarkReclaimed (rs \<or> m_currentSize c2 < sb) se x) c2)" by (simp add: quiet_onPs)
  ultimately show ?thesis
    using mid_maybeMark [OF r(2)] reclaims_quiet by blast
qed

end
