(* ===== verification/MapSpec.thy ===== *)
theory MapSpec
  imports MapReclaim
begin

subsection \<open>The run-time checks pass\<close>

lemma checkListLoop_spec:
  assumes m: "mid (weights (m_heap c)) 0 dd rr ss c (pre @ as)"
    and "unat s = weight_sum (map (weights (m_heap c)) pre)"
  shows "checkListLoop c (first as None) (final None pre) s n z
    = Some (Inr (m_currentSize c, n + int (length as), z + int (count_list (map (weights (m_heap c)) as) 0)))"
  using assms
proof (induction as arbitrary: pre s n z)
  case Nil
  then have "s = m_currentSize c" by (simp add: mid_def word_unat_eq_iff)
  then show ?case by (simp add: checkListLoop.simps)
next
  case (Cons a as)
  let ?w = "weights (m_heap c)"
  have dll: "dll (m_heap c, m_entries c) (pre @ a # as)"
    using Cons.prems(1) by (simp add: mid_def map_repr_def)
  have prev: "prev (m_heap c a) = final None pre" and nxt: "next (m_heap c a) = first as None"
    using dll by (auto simp: dll_def lseg_append)
  have hd: "entryList_Front (m_entries c) = Some a" if "final None pre = None"
    using dll_Front [OF dll] that by simp
  have np: "next (m_heap c (the (final None pre))) = Some a" if ne: "final None pre \<noteq> None"
  proof -
    obtain us p where "pre = us @ [p]" using ne by (cases pre rule: rev_cases) auto
    then show ?thesis using dll by (simp add: dll_def lseg_append)
  qed
  have bk: "entryList_Back (m_entries c) = Some a" if "first as None = None"
    using dll_Back [OF dll] that by simp
  have ix: "map_of (m_index c) (ekey (m_heap c a)) = Some a"
    using mid_lookup [OF Cons.prems(1)] by simp
  have "unat s + unat (?w a) < 2 ^ 64"
    using Cons.prems unat_lt_u64 [of "m_currentSize c"] by (simp add: mid_def)
  then have lt: "unat s + unat (esize (m_heap c a)) < 2 ^ 64" by (simp add: weights_def)
  have ov: "\<not> - 1 - s < esize (m_heap c a)"
  proof -
    have "unat (- 1 :: u64) = 2 ^ 64 - 1" by (simp add: unsigned_minus_1_eq_mask mask_eq_exp_minus_1)
    then have "unat (- 1 - s) = 2 ^ 64 - 1 - unat s"
      using unat_sub_u64 [of s "- 1"] unat_lt_u64 [of s] by simp
    then show ?thesis using lt by (simp add: word_less_nat_alt)
  qed
  have wa: "?w a = esize (m_heap c a)" by (simp add: weights_def)
  have "unat (s + esize (m_heap c a)) = weight_sum (map ?w (pre @ [a]))"
    using unat_add_u64 [OF lt] Cons.prems(2) by (simp add: wa)
  then have "checkListLoop c (first as None) (final None (pre @ [a])) (s + esize (m_heap c a)) (n + 1)
      (if esize (m_heap c a) = 0 then z + 1 else z)
    = Some (Inr (m_currentSize c, n + 1 + int (length as),
        (if esize (m_heap c a) = 0 then z + 1 else z) + int (count_list (map ?w as) 0)))"
    using Cons.IH [of "pre @ [a]"] Cons.prems(1) by simp
  then show ?case
    using prev nxt hd np bk ix ov
    by (subst checkListLoop.simps) (auto simp: Let_def wa)
qed

lemma checkInvariants_ok:
  assumes "map_inv c"
  shows "mapCache_checkInvariants c = Inr ()"
proof -
  let ?w = "weights (m_heap c)" and ?as = "addrs c"
  have m: "mid ?w 0 0 0 0 c ?as" using assms by (simp add: map_inv_def)
  have "checkListLoop c (first ?as None) None 0 0 0
      = Some (Inr (m_currentSize c, int (length ?as), int (count_list (map ?w ?as) 0)))"
    using checkListLoop_spec [of c 0 0 0 "[]" ?as 0 0 0] m by simp
  moreover have "zeroSizeCount (m_ps c) = int (count_list (map ?w ?as) 0)"
    using m by (simp add: mid_def ps_ok_def books_ok_def)
  ultimately have l: "mapCache_checkListAndIndexInvariants c = Inr ()"
    using mid_Front [OF m] mid_len [OF m] by (simp add: mapCache_checkListAndIndexInvariants_def)
  have t: "checkTelemetryInvariants (m_ps c) (int (length ?as)) = Inr ()"
    using m ps_ok_checkTelemetry by (auto simp: mid_def)
  show ?thesis
    using m l t mid_Front [OF m] mid_Back [OF m] mid_len [OF m] mid_index_length [OF m]
    by (simp add: mapCache_checkInvariants_def mid_def)
qed

lemma unlock_ok: "map_inv c \<Longrightarrow> mapCache_unlock c = Inr ()"
  by (simp add: mapCache_unlock_def checkInvariants_ok)

subsection \<open>Locking\<close>

lemma lockMapCache_spec:
  assumes l: "lockMapCache env fresh c = (c', e, x)" and m: "mid W 0 0 0 0 c as"
  shows "mid W 0 0 0 0 c' as \<and> quiet c c' \<and> m_index c' = m_index c \<and> putInserted (m_ps c') = putInserted (m_ps c)
    \<and> valid_pressure x"
proof -
  obtain p where p: "lockWithPressure env fresh (m_ps c) = (p, e, x)" "c' = c\<lparr>m_ps := p\<rparr>"
    using l by (auto simp: lockMapCache_def Let_def split: prod.splits)
  have s: "sampling_ok (m_ps c)" using m by (simp add: mid_def ps_ok_def)
  have sp: "sampled (m_ps c) p" "valid_pressure x" using lockWithPressure_ok [OF p(1) s] by auto
  have "mid W 0 0 0 0 (onPs (\<lambda>_. p) c) as"
    by (rule mid_onPs [OF m]) (use ps_ok_sampled [OF sp(1)] in blast)
  moreover have "onPs (\<lambda>_. p) c = c'" by (simp add: onPs_def p)
  moreover have "putInserted p = putInserted (m_ps c)" using sp(1) by (simp add: sampled_def books_def)
  ultimately show ?thesis
    using sp(2) sampled_options [OF sp(1)] by (auto simp: quiet_def cfg_def p)
qed


subsection \<open>Put on an existing key\<close>

lemma onEntries_simps [simp]:
  "m_maxSize (onEntries f c) = m_maxSize c" "m_currentSize (onEntries f c) = m_currentSize c"
  "m_nextAddr (onEntries f c) = m_nextAddr c" "m_index (onEntries f c) = m_index c"
  "m_dirtyIndex (onEntries f c) = m_dirtyIndex c" "m_ps (onEntries f c) = m_ps c"
  "m_weigher (onEntries f c) = m_weigher c" "m_onEvictValue (onEntries f c) = m_onEvictValue c"
  "m_onEvictEntry (onEntries f c) = m_onEvictEntry c"
  "m_heap (onEntries f c) = fst (f (m_heap c, m_entries c))"
  "m_entries (onEntries f c) = snd (f (m_heap c, m_entries c))"
  by (simp_all add: onEntries_def)

lemma payload_ekey: "payload x = payload y \<Longrightarrow> ekey x = ekey y"
  by (simp add: payload_simps)

lemma map_repr_move:
  assumes "map_repr c as" "e \<in> set as"
  shows "map_repr (onEntries (MoveToFront e) c) (e # remove1 e as)"
proof -
  have "dll (MoveToFront e (m_heap c, m_entries c)) (e # remove1 e as)"
    using assms elist.move_repr by (auto simp: map_repr_def)
  moreover have "distinct as" using assms(1) by (auto simp: map_repr_def dest: dll_distinct)
  moreover have "index_ok (m_index c) (fst (MoveToFront e (m_heap c, m_entries c))) (e # remove1 e as)
      = index_ok (m_index c) (m_heap c) as"
    by (rule index_ok_cong) (use assms(2) \<open>distinct as\<close> in \<open>auto intro: payload_ekey\<close>)
  ultimately show ?thesis
    using assms by (auto simp: map_repr_def dest: notin_set_remove1)
qed

lemma mid_get:
  assumes "mid W d dd rr ss c as" "e \<in> set as"
  shows "mid W d dd rr ss (onEntries (MoveToFront e) c) (e # remove1 e as)"
  using assms map_repr_move weight_sum_remove [OF mid_distinct [OF assms(1)] assms(2), of W]
    count_remove [OF mid_distinct [OF assms(1)] assms(2), of W] length_remove [OF mid_distinct [OF assms(1)] assms(2)]
  by (auto simp: mid_def)

lemma mid_resize:
  assumes m: "mid W 0 0 0 0 c (e # as)" and w: "w \<le> m_maxSize c"
  shows "mid (W(e := w)) (unat w) 0 0 0
    ((onPs (onEntrySizeUpdated (W e) w) c)\<lparr>m_currentSize := m_currentSize c - W e\<rparr>) (e # as)"
proof -
  have e: "e \<notin> set as" using mid_distinct [OF m] by simp
  then have W: "map (W(e := w)) as = map W as" by (rule map_upd_notin)
  have le: "unat (W e) \<le> unat (m_currentSize c)" using m by (simp add: mid_def)
  then have cur: "unat (m_currentSize c - W e) = weight_sum (map W as)"
    using m unat_sub_u64 [OF le] by (simp add: mid_def)
  have "ps_ok (onEntrySizeUpdated (W e) w (m_ps c)) (Suc (length as))
      (if w = 0 then Suc (count_list (map W as) 0) else count_list (map W as) 0) 0 0 0"
    using m zeros_le_length [of W as 0] by (intro ps_ok_resized) (auto simp: mid_def less_Suc_eq_le)
  moreover have "m_currentSize c - W e \<le> m_maxSize c"
    using cur m le by (simp add: mid_def word_le_nat_alt)
  ultimately show ?thesis
    using m cur unfolding mid_def list.map fun_upd_same W by (cases "w = 0") (simp_all add: map_repr_def)
qed

lemma mid_write:
  assumes m: "mid W d dd rr ss c as" and x: "ekey x = ekey (m_heap c e)" "prev x = prev (m_heap c e)" "next x = next (m_heap c e)"
    and cur: "unat cur + d' = unat (m_currentSize c) + d" "cur \<le> m_maxSize c"
  shows "mid W d' dd rr ss (c\<lparr>m_heap := (m_heap c)(e := x), m_currentSize := cur\<rparr>) as"
proof -
  have "index_ok (m_index c) ((m_heap c)(e := x)) as = index_ok (m_index c) (m_heap c) as"
    by (rule index_ok_cong) (auto simp: x)
  then show ?thesis
    using m cur x by (auto simp: mid_def map_repr_def dll_upd_same)
qed

lemma notifyReplaced_spec:
  assumes "mapCache_notifyReplaced k v w (c, q) = (c', q')" "queue_wf q"
  shows "c' = onPs (\<lambda>p. p\<lparr>evictionsReplaced := evictionsReplaced p + 1, evictedWeightReplaced := evictedWeightReplaced p + w\<rparr>) c
    \<and> queue_wf q' \<and> queue_events q' = queue_events q @ (if hasEvictCB c then [(k, v, EvictionReasonReplaced)] else [])"
  using assms by (auto simp: mapCache_notifyReplaced_def Let_def)

definition entry_event :: "'v heap \<Rightarrow> EvictionReason \<Rightarrow> addr \<Rightarrow> string \<times> 'v \<times> EvictionReason" where
  "entry_event h r a = (ekey (h a), evalue (h a), r)"

lemma sheds_events:
  assumes "sheds (c, q) as (map (\<lambda>a. (a, r)) gs) (c', q') as'" "queue_wf q"
  shows "queue_wf q' \<and> queue_events q' = queue_events q @ (if hasEvictCB c then map (entry_event (m_heap c) r) gs else [])"
  using assms by (auto simp: sheds_def entry_event_def comp_def)

lemma updateExisting_spec:
  fixes c :: "('v :: zero) mapCache"
  assumes m: "mid (weights (m_heap c)) 0 0 0 0 c as" and e: "e \<in> set as" and w: "w \<le> m_maxSize c" and q: "queue_wf q"
  shows "\<exists>c' q' as' gs b. mapCache_updateExistingOnPutLocked e v w sb x (c, q)
      = Inr ((c', q'), map (\<lambda>a. evalue (m_heap c a)) gs, b)
    \<and> mid (weights (m_heap c')) 0 0 0 0 c' (e # as') \<and> remove1 e as = as' @ rev gs
    \<and> payload (m_heap c' e) = (ekey (m_heap c e), w, v)
    \<and> (\<forall>a\<in>set as'. payload (m_heap c' a) = payload (m_heap c a)) \<and> cfg c' = cfg c
    \<and> queue_wf q' \<and> queue_events q' = queue_events q @ (if hasEvictCB c then
        map (entry_event (m_heap c) EvictionReasonCapacity) gs @ [entry_event (m_heap c) EvictionReasonReplaced e] else [])
    \<and> (gs \<noteq> [] \<longrightarrow> w \<noteq> 0 \<longrightarrow> unat (m_maxSize c)
        < unat w + weight_sum (map (weights (m_heap c)) (as' @ [List.last gs])))"
proof -
  let ?W = "weights (m_heap c)" and ?old = "esize (m_heap c e)"
  define hz where "hz = shouldEvictOnZeroWeightShrink (m_ps c) ?old w (m_maxSize c)"
  define c1 where "c1 = onEntries (MoveToFront e) (onPs (onEntrySizeUpdated ?old w) c)"
  define c2 where "c2 = c1\<lparr>m_currentSize := m_currentSize c1 - ?old\<rparr>"
  define W' where "W' = ?W(e := w)"
  have dist: "distinct (e # remove1 e as)" using mid_distinct [OF m] by simp
  have "c2 = (onPs (onEntrySizeUpdated ?old w) (onEntries (MoveToFront e) c))
      \<lparr>m_currentSize := m_currentSize (onEntries (MoveToFront e) c) - ?old\<rparr>"
    by (simp add: c2_def c1_def onEntries_def onPs_def)
  then have m2: "mid W' (unat (W' e)) 0 0 0 c2 (e # remove1 e as)"
    using mid_resize [OF mid_get [OF m e]] w by (simp add: W'_def weights_def)
  have h2: "payload (m_heap c2 a) = payload (m_heap c a)" for a by (simp add: c2_def c1_def)
  have W': "W' a = esize (m_heap c2 a)" if "a \<in> set (remove1 e as)" for a
    using that dist h2 [of a] by (auto simp: W'_def weights_def payload_simps)
  have cfg2: "cfg c2 = cfg c" by (simp add: c2_def c1_def cfg_def)
  have W'e: "W' e = w" by (simp add: W'_def)
  obtain c3 q3 as' gs where lp: "updateEvictLoop w hz False [] (c2, q)
      = Some ((c3, q3), [] @ map (\<lambda>a. evalue (m_heap c2 a)) gs, False \<or> gs \<noteq> [])"
    "mid W' (unat (W' e)) 0 0 0 c3 (e # as')" "tail_evicted (c2, q) (e # remove1 e as) gs (c3, q3) (e # as')"
    "as' = [] \<or> \<not> (m_maxSize c3 - m_currentSize c3 < w \<or> (hz \<and> \<not> (False \<or> gs \<noteq> [])))"
    "gs \<noteq> [] \<longrightarrow> \<not> hz \<longrightarrow> unat (m_maxSize c2) < weight_sum (map W' (e # as' @ [List.last gs]))"
    using updateEvictLoop_spec [OF m2 W' W'e, where hz = hz and ev = False and acc = "[]" and q = q] by blast
  have rm: "remove1 e as = as' @ rev gs" using lp(3) by (simp add: tail_evicted_def)
  have sh: "sheds (c2, q) (e # remove1 e as) (map (\<lambda>a. (a, EvictionReasonCapacity)) gs) (c3, q3) (e # as')"
    using lp(3) unfolding tail_evicted_def by blast
  have cfg3: "cfg c3 = cfg c" using sh cfg2 by (simp add: sheds_def)
  have h3: "payload (m_heap c3 a) = payload (m_heap c a)" if "a \<in> set (e # as')" for a
    using tail_evicted_payload [OF lp(3) that] h2 by simp
  have fit: "unat (m_currentSize c3) + unat w \<le> unat (m_maxSize c3)"
  proof (cases "as' = []")
    case True
    then have "unat (m_currentSize c3) = 0" using lp(2) by (simp add: mid_def)
    then show ?thesis using w cfg_simps [OF cfg3] by (simp add: word_le_nat_alt)
  next
    case False
    have "m_currentSize c3 \<le> m_maxSize c3" using lp(2) by (simp add: mid_def)
    then show ?thesis
      using False lp(4) unat_sub_u64 [of "m_currentSize c3" "m_maxSize c3"]
      by (auto simp: word_less_nat_alt word_le_nat_alt)
  qed
  then have add: "unat (m_currentSize c3 + w) = unat (m_currentSize c3) + unat w"
    using unat_lt_u64 [of "m_maxSize c3"] by (intro unat_add_u64) simp
  define c4 where "c4 = c3\<lparr>m_heap := (m_heap c3)(e := (m_heap c3 e)\<lparr>evalue := v, esize := w\<rparr>),
      m_currentSize := m_currentSize c3 + w\<rparr>"
  have m4: "mid W' 0 0 0 0 c4 (e # as')"
    unfolding c4_def by (rule mid_write [OF lp(2)]) (use add fit in \<open>auto simp: W'_def word_le_nat_alt\<close>)
  define c5 where "c5 = onPs (\<lambda>p. p\<lparr>putUpdated := putUpdated p + 1\<rparr>) c4"
  obtain c6 q6 where nr: "mapCache_notifyReplaced (ekey (m_heap c5 e)) (evalue (m_heap c e)) ?old (c5, q3) = (c6, q6)"
    by (rule prod.exhaust)
  have q3: "queue_wf q3 \<and> queue_events q3 = queue_events q @ (if hasEvictCB c then map (entry_event (m_heap c) EvictionReasonCapacity) gs else [])"
    using sheds_events [OF sh q] h2 cfg_simps [OF cfg2] by (simp add: entry_event_def payload_simps)
  note c6 = notifyReplaced_spec [OF nr] q3
  have k3: "ekey (m_heap c5 e) = ekey (m_heap c3 e)" by (simp add: c5_def c4_def)
  have k: "ekey (m_heap c5 e) = ekey (m_heap c e)" using h3 [of e] by (simp add: c5_def c4_def payload_simps)
  have c6_eq: "c6 = onPs (\<lambda>p. p\<lparr>putUpdated := putUpdated p + 1, evictionsReplaced := evictionsReplaced p + 1,
      evictedWeightReplaced := evictedWeightReplaced p + ?old\<rparr>) c4"
    using c6 by (simp add: c5_def onPs_def)
  have m6: "mid W' 0 0 0 0 c6 (e # as')"
    unfolding c6_eq by (rule mid_onPs [OF m4]) (rule ps_ok_updated(1))
  have h6: "m_heap c6 = (m_heap c3)(e := (m_heap c3 e)\<lparr>evalue := v, esize := w\<rparr>)" by (simp add: c6_eq c4_def)
  have eas: "e \<notin> set as'" using mid_distinct [OF m6] by simp
  have W6: "W' a = weights (m_heap c6) a" if "a \<in> set (e # as')" for a
    using that eas rm W' [of a] h2 [of a] h3 [of a] by (auto simp: h6 weights_def W'_def payload_simps)
  have cfg6: "cfg c6 = cfg c" using cfg3 by (simp add: c6_eq c4_def cfg_def)
  have hz0: "\<not> hz" if "w \<noteq> 0" using that by (simp add: hz_def shouldEvictOnZeroWeightShrink_def)
  have gse: "weight_sum (map W' (e # as' @ [List.last gs])) = unat w + weight_sum (map ?W (as' @ [List.last gs]))"
    if "gs \<noteq> []"
  proof -
    have "e \<notin> set (as' @ [List.last gs])" using that dist rm eas by auto
    then have "map W' (as' @ [List.last gs]) = map ?W (as' @ [List.last gs])"
      unfolding W'_def by (rule map_upd_notin)
    then show ?thesis using W'e by (metis list.simps(9) weight_sum_simps(2))
  qed
  show ?thesis
  proof (intro exI conjI)
    show "mapCache_updateExistingOnPutLocked e v w sb x (c, q) = Inr ((c6, q6), map (\<lambda>a. evalue (m_heap c a)) gs,
        shouldReclaimSingleSurvivorOnMutation (m_ps c6) (mapLen c6) (mapCache_hasSlackLocked c6) False (gs \<noteq> []) (m_currentSize c6) sb x)"
      using lp(1) h2 nr [unfolded k3]
      unfolding mapCache_updateExistingOnPutLocked_def Let_def prod.case hz_def [symmetric] c1_def [symmetric] c2_def [symmetric]
      by (simp add: c4_def [symmetric] c5_def [symmetric] payload_simps)
    show "mid (weights (m_heap c6)) 0 0 0 0 c6 (e # as')" 
      using mid_W_cong [of "e # as'" W' "weights (m_heap c6)"] W6 m6 by blast
    show "payload (m_heap c6 e) = (ekey (m_heap c e), w, v)"
      using h3 [of e] by (simp add: h6 payload_def)
    show "\<forall>a\<in>set as'. payload (m_heap c6 a) = payload (m_heap c a)" using h3 eas by (auto simp: h6)
    show "queue_events q6 = queue_events q @ (if hasEvictCB c then
        map (entry_event (m_heap c) EvictionReasonCapacity) gs @ [entry_event (m_heap c) EvictionReasonReplaced e] else [])"
      using c6 k cfg_simps [OF cfg3] by (auto simp: entry_event_def c5_def c4_def hasEvictCB_def)
    show "gs \<noteq> [] \<longrightarrow> w \<noteq> 0 \<longrightarrow> unat (m_maxSize c) < unat w + weight_sum (map ?W (as' @ [List.last gs]))"
      using lp(5) hz0 gse cfg_simps [OF cfg2] by simp
  qed (use rm cfg6 c6 in auto)
qed

subsection \<open>Put on a new key\<close>

lemma mid_insert:
  assumes m: "mid W 0 0 0 0 c as" and a: "a \<notin> set as" "a < n" "m_nextAddr c \<le> n"
    and k: "map_of (m_index c) k = None" and h: "payload (h a) = (k, w, v)" "\<And>b. b \<in> set as \<Longrightarrow> h b = m_heap c b"
    and fit: "unat (m_currentSize c) + unat w \<le> unat (m_maxSize c)" and room: "putInserted (m_ps c) \<noteq> - 1"
  defines "c1 \<equiv> onEntries (PushFront a) (c\<lparr>m_heap := h, m_nextAddr := n\<rparr>)"
  defines "c2 \<equiv> onPs (\<lambda>p. p\<lparr>putInserted := putInserted p + 1\<rparr>) (c1\<lparr>m_index := AList.update k a (m_index c1)\<rparr>)"
  defines "c3 \<equiv> (onPs (onEntryPut (mapLen c2) w) c2)\<lparr>m_currentSize := m_currentSize c + w\<rparr>"
  shows "mid (W(a := w)) 0 0 0 0 c3 (a # as)"
    and "\<And>b. payload (m_heap c3 b) = payload (h b)" and "cfg c3 = cfg c"
proof -
  have dll: "dll (m_heap c, m_entries c) as" and ix: "index_ok (m_index c) (m_heap c) as"
    using m by (auto simp: mid_def map_repr_def)
  have "lseg h None as None = lseg (m_heap c) None as None" by (rule lseg_cong) (simp add: h)
  then have "dll (h, m_entries c) as" using dll by (simp add: dll_def)
  then have dll3: "dll (PushFront a (h, m_entries c)) (a # as)" using a(1) by (rule dll_PushFront)
  have heap: "m_heap c3 = fst (PushFront a (h, m_entries c))" "m_entries c3 = snd (PushFront a (h, m_entries c))"
    by (simp_all add: c3_def c2_def c1_def)
  show pay: "payload (m_heap c3 b) = payload (h b)" for b by (simp add: heap)
  have "ekey (m_heap c3 b) = ekey (m_heap c b)" if "b \<in> set as" for b
    using pay [of b] h(2) [OF that] by (simp add: payload_simps)
  moreover have "ekey (m_heap c3 a) = k" using pay [of a] h(1) by (simp add: payload_def)
  ultimately have ix3: "index_ok (AList.update k a (m_index c)) (fst (PushFront a (h, m_entries c))) (a # as)"
    by (intro index_ok_insert [OF ix k]) (auto simp: heap)
  have idx: "m_index c3 = AList.update k a (m_index c)" "m_nextAddr c3 = n"
    by (simp_all add: c3_def c2_def c1_def)
  have rep: "map_repr c3 (a # as)"
    using dll3 ix3 a m by (auto simp: map_repr_def idx heap mid_def)
  have len: "mapLen c2 = int (Suc (length as))"
    using dll_Len [OF dll3] by (simp add: mapLen_def c2_def c1_def)
  have W: "map (W(a := w)) as = map W as" by (rule map_upd_notin [OF a(1)])
  have "unat (m_currentSize c + w) = unat (m_currentSize c) + unat w"
    using fit unat_lt_u64 [of "m_maxSize c"] by (intro unat_add_u64) simp
  moreover have "ps_ok (m_ps c3) (Suc (length as)) (if w = 0 then Suc (count_list (map W as) 0) else count_list (map W as) 0) 0 0 0"
  proof -
    have "m_ps c2 = (m_ps c)\<lparr>putInserted := putInserted (m_ps c) + 1\<rparr>" by (simp add: c2_def c1_def)
    then have "m_ps c3 = onEntryPut (int (Suc (length as))) w ((m_ps c)\<lparr>putInserted := putInserted (m_ps c) + 1\<rparr>)"
      unfolding c3_def len by simp
    moreover have "ps_ok (m_ps c) (length as) (count_list (map W as) 0) 0 0 0" using m by (simp add: mid_def)
    ultimately show ?thesis using ps_ok_insert [OF _ room] by simp
  qed
  moreover have "m_maxSize c3 = m_maxSize c" "m_currentSize c3 = m_currentSize c + w"
    by (simp_all add: c3_def c2_def c1_def)
  ultimately show "mid (W(a := w)) 0 0 0 0 c3 (a # as)"
    using m fit rep unfolding mid_def list.map fun_upd_same W
    by (cases "w = 0") (simp_all add: word_le_nat_alt)
  show "cfg c3 = cfg c" by (simp add: c3_def c2_def c1_def cfg_def)
qed

lemma erase_putInserted:
  "mapCache_eraseEntryLocked a r st = (st', v) \<Longrightarrow> putInserted (m_ps (fst st')) = putInserted (m_ps (fst st))"
  by (cases st) (auto simp: mapCache_eraseEntryLocked_def mapCache_notifyEvict_def Let_def recordEviction_def
      onEntryDeleted_def split: EvictionReason.splits)

lemma insertEvictLoop_putInserted:
  "insertEvictLoop w ev rc acc st = Some (Inr (st', t)) \<Longrightarrow> putInserted (m_ps (fst st')) = putInserted (m_ps (fst st))"
proof -
  assume "insertEvictLoop w ev rc acc st = Some (Inr (st', t))"
  moreover have "(\<lambda>w ev rc acc st r. \<forall>st' t. r = Inr (st', t) \<longrightarrow> putInserted (m_ps (fst st')) = putInserted (m_ps (fst st))) w ev rc acc st y"
    if "insertEvictLoop w ev rc acc st = Some y" for y
    using that
    by (rule insertEvictLoop.raw_induct [rotated])
      (auto split: if_splits option.splits prod.splits dest: erase_putInserted)
  ultimately show ?thesis by blast
qed

lemma insert_spec:
  fixes c :: "('v :: zero) mapCache"
  assumes m: "mid (weights (m_heap c)) 0 0 0 0 c as" and k: "map_of (m_index c) k = None"
    and w: "w \<le> m_maxSize c" and q: "queue_wf q" and room: "putInserted (m_ps c) \<noteq> - 1"
  shows "\<exists>c' q' as' gs e b1 b2. mapCache_insertOnPutLocked k v w sb x (c, q)
      = Inr ((c', q'), e, map (\<lambda>a. evalue (m_heap c a)) gs, b1, b2)
    \<and> mid (weights (m_heap c')) 0 0 0 0 c' (e # as') \<and> as = as' @ rev gs
    \<and> payload (m_heap c' e) = (k, w, v)
    \<and> (\<forall>a\<in>set as'. payload (m_heap c' a) = payload (m_heap c a)) \<and> cfg c' = cfg c
    \<and> queue_wf q' \<and> queue_events q' = queue_events q @ (if hasEvictCB c then
        map (entry_event (m_heap c) EvictionReasonCapacity) gs else [])
    \<and> (gs \<noteq> [] \<longrightarrow> 0 \<notin> weights (m_heap c) ` set as \<longrightarrow> w \<noteq> 0 \<longrightarrow> unat (m_maxSize c)
        < weight_sum (map (weights (m_heap c)) (as' @ [List.last gs])) + unat w)"
proof -
  let ?W = "weights (m_heap c)"
  have W: "\<And>a. a \<in> set as \<Longrightarrow> ?W a = esize (m_heap c a)" by (simp add: weights_def)
  obtain c1 q1 as' gs where lp: "insertEvictLoop w False None [] (c, q)
      = Some (Inr ((c1, q1), if None = (None :: addr option) then first gs None else None,
          [] @ map (\<lambda>a. evalue (m_heap c a)) gs, False \<or> gs \<noteq> []))"
    "mid ?W 0 0 0 0 c1 as'" "tail_evicted (c, q) as gs (c1, q1) as'"
    "as' = [] \<or> \<not> shouldEvictPreInsertOnPut (m_ps c1) w (m_maxSize c1) (m_currentSize c1) (mapLen c1) (False \<or> gs \<noteq> [])"
    "gs \<noteq> [] \<longrightarrow> 0 \<notin> ?W ` set as \<longrightarrow> w \<noteq> 0 \<longrightarrow> unat (m_maxSize c) < weight_sum (map ?W (as' @ [List.last gs])) + unat w"
    using insertEvictLoop_spec [OF m W, where w = w and ev = False and rc = None and acc = "[]" and q = q] by blast
  have as: "as = as' @ rev gs" and sh: "sheds (c, q) as (map (\<lambda>a. (a, EvictionReasonCapacity)) gs) (c1, q1) as'"
    using lp(3) unfolding tail_evicted_def by blast+
  have cfg1: "cfg c1 = cfg c" and na: "m_nextAddr c1 = m_nextAddr c" using sh by (simp_all add: sheds_def)
  have pay1: "payload (m_heap c1 a) = payload (m_heap c a)" if "a \<in> set as'" for a
    by (rule tail_evicted_payload [OF lp(3) that])
  define re where "re = shouldReclaimEmptyPrePut (m_ps c1) (mapLen c1) False (gs \<noteq> []) w sb x"
  define c2 where "c2 = (if re then mapCache_clearEmptyIndexStateLocked (onPs (recordCompactionByPressure x) c1) else c1)"
  have re0: "as' = []" if re
    using that mid_len [OF lp(2)] by (auto simp: re_def shouldReclaimEmptyPrePut_def split: if_splits)
  have c2: "mid ?W 0 0 0 0 c2 as' \<and> quiet c1 c2"
  proof (cases re)
    case True
    then have "mid ?W 0 0 0 0 (onPs (recordCompactionByPressure x) c1) []"
      using lp(2) re0 mid_recordCompaction by blast
    then show ?thesis
      using clearEmpty_spec [of ?W 0 0 0 0 "onPs (recordCompactionByPressure x) c1"] True re0
        quiet_trans [of c1 "onPs (recordCompactionByPressure x) c1"]
      by (simp add: c2_def quiet_onPs)
  next
    case False
    then show ?thesis using lp(2) by (simp add: c2_def)
  qed
  define e where "e = (case first gs None of Some a \<Rightarrow> a | None \<Rightarrow> m_nextAddr c2)"
  obtain c3 where al: "allocOrRecycleEntry (first gs None) k v w c2 = (c3, e)"
    by (cases "first gs None") (auto simp: allocOrRecycleEntry_def e_def Let_def)
  have c3: "c3 = c2\<lparr>m_heap := m_heap c3, m_nextAddr := m_nextAddr c3\<rparr>" "payload (m_heap c3 e) = (k, w, v)"
    "\<And>b. b \<noteq> e \<Longrightarrow> m_heap c3 b = m_heap c2 b" "m_nextAddr c2 \<le> m_nextAddr c3"
    using al by (auto simp: allocOrRecycleEntry_def Let_def payload_def split: option.splits)
  have na2: "m_nextAddr c2 = m_nextAddr c" using c2 na by (simp add: quiet_def)
  have small: "a < m_nextAddr c" if "a \<in> set as" for a using m that by (simp add: mid_def map_repr_def)
  have e: "e \<notin> set as'" "e < m_nextAddr c3"
  proof -
    have dist: "distinct as" by (rule mid_distinct [OF m])
    show "e \<notin> set as'"
    proof (cases gs)
      case Nil
      then have "e = m_nextAddr c" by (simp add: e_def na2)
      then show ?thesis using small as by auto
    next
      case (Cons g gs')
      then show ?thesis using dist as by (auto simp: e_def)
    qed
    show "e < m_nextAddr c3"
    proof (cases gs)
      case Nil
      then show ?thesis using al by (auto simp: e_def allocOrRecycleEntry_def Let_def)
    next
      case (Cons g gs')
      then have "e \<in> set as" using as by (simp add: e_def)
      then show ?thesis using small [of e] c3(4) na2 by simp
    qed
  qed
  have k2: "map_of (m_index c2) k = None"
  proof -
    have "ekey (m_heap c2 a) \<noteq> k" if "a \<in> set as'" for a
      using pay1 [OF that] that as mid_lookup [OF m, of k a] k c2 by (auto simp: payload_simps quiet_def)
    moreover have "index_ok (m_index c2) (m_heap c2) as'" using c2 by (simp add: mid_def map_repr_def)
    ultimately show ?thesis using index_ok_None by blast
  qed
  have max1: "m_maxSize c1 = m_maxSize c" using cfg_simps [OF cfg1] by simp
  have cur2: "m_currentSize c2 = m_currentSize c1" "m_maxSize c2 = m_maxSize c"
    using c2 cfg_simps [of c2 c1] max1 by (auto simp: quiet_def)
  have fit: "unat (m_currentSize c2) + unat w \<le> unat (m_maxSize c2)"
  proof (cases "as' = []")
    case True
    then have "unat (m_currentSize c1) = 0" using lp(2) by (simp add: mid_def)
    then show ?thesis using w cur2 by (simp add: word_le_nat_alt)
  next
    case False
    then have "\<not> m_maxSize c1 - m_currentSize c1 < w"
      using lp(4) by (auto simp: shouldEvictPreInsertOnPut_def)
    moreover have "m_currentSize c1 \<le> m_maxSize c1" using lp(2) by (simp add: mid_def)
    ultimately show ?thesis
      using unat_sub_u64 [of "m_currentSize c1" "m_maxSize c1"] cur2 max1 by (simp add: word_less_nat_alt word_le_nat_alt)
  qed
  have room2: "putInserted (m_ps c2) \<noteq> - 1"
    using room insertEvictLoop_putInserted [OF lp(1)]
    by (simp add: c2_def mapCache_clearEmptyIndexStateLocked_def resetWatermarks_def recordCompactionByPressure_def)
  have heq: "m_heap c3 b = m_heap c2 b" if "b \<in> set as'" for b
    using c3(3) [of b] that e(1) by blast
  note ins = mid_insert [OF conjunct1 [OF c2] e(1) e(2) c3(4) k2 c3(2) heq fit room2]
  define c4 where "c4 = onEntries (PushFront e) c3"
  define c5 where "c5 = onPs (\<lambda>p. p\<lparr>putInserted := putInserted p + 1\<rparr>) (c4\<lparr>m_index := AList.update k e (m_index c4)\<rparr>)"
  define c6 where "c6 = (onPs (onEntryPut (mapLen c5) w) c5)\<lparr>m_currentSize := m_currentSize c2 + w\<rparr>"
  have c6: "mid (?W(e := w)) 0 0 0 0 c6 (e # as')" "\<And>b. payload (m_heap c6 b) = payload (m_heap c3 b)" "cfg c6 = cfg c2"
    using ins unfolding c6_def c5_def c4_def c3(1) [symmetric] by blast+
  have pay: "payload (m_heap c6 a) = payload (m_heap c a)" if "a \<in> set as'" for a
    using c6(2) [of a] heq [OF that] pay1 [OF that] c2 by (simp add: quiet_def)
  have W6: "(?W(e := w)) a = weights (m_heap c6) a" if "a \<in> set (e # as')" for a
    using that pay [of a] c6(2) [of e] c3(2) by (auto simp: weights_def payload_def)
  have cur6: "c6 = (onPs (onEntryPut (mapLen c5) w) c5)\<lparr>m_currentSize := m_currentSize (onPs (onEntryPut (mapLen c5) w) c5) + w\<rparr>"
  proof -
    have "m_currentSize c3 = m_currentSize c2" using c3(1) by (metis (no_types, lifting) mapCache.select_convs(2) mapCache.surjective mapCache.update_convs(3,4))
    then show ?thesis by (simp add: c6_def c5_def c4_def)
  qed
  show ?thesis
  proof (intro exI conjI)
    show "mapCache_insertOnPutLocked k v w sb x (c, q) = Inr ((c6, q1), e, map (\<lambda>a. evalue (m_heap c a)) gs,
       re \<or> shouldReclaimSingleSurvivorOnMutation (m_ps c1) (mapLen c1) (mapCache_hasSlackLocked c1) False (gs \<noteq> [])
         (m_currentSize c1 + w) sb x, re)"
      unfolding cur6 mapCache_insertOnPutLocked_def lp(1) of_loop_simps bindr_simps prod.case Let_def clonePrefix_id
      by (simp add: re_def [symmetric] c2_def [symmetric] al, simp add: c5_def c4_def)
    show "mid (weights (m_heap c6)) 0 0 0 0 c6 (e # as')"
      using mid_W_cong [of "e # as'" "?W(e := w)" "weights (m_heap c6)"] W6 c6(1) by blast
    show "payload (m_heap c6 e) = (k, w, v)" using c6(2) c3(2) by simp
    show "cfg c6 = cfg c" using c6(3) c2 cfg1 by (simp add: quiet_def)
    show "queue_wf q1" "queue_events q1 = queue_events q @ (if hasEvictCB c then
        map (entry_event (m_heap c) EvictionReasonCapacity) gs else [])"
      using sheds_events [OF sh q] by auto
  qed (use as pay lp(5) in auto)
qed

end
