(* ===== verification/OptionsSpec.thy ===== *)
theory OptionsSpec
  imports Sampling
begin

text \<open>
  What \<open>ApplyOptions\<close> guarantees: the thresholds, the ratio, the backend and the callbacks of the
  configuration it builds are usable whatever options it was given.
\<close>

lemma normalizeCallbacks_simps [simp]:
  "CompactionThreshold (normalizeCallbacks dsf x) = CompactionThreshold x"
  "EvictionThreshold (normalizeCallbacks dsf x) = EvictionThreshold x"
  "EvictionRetentionRatio (normalizeCallbacks dsf x) = EvictionRetentionRatio x"
  "oBackend (normalizeCallbacks dsf x) = oBackend x"
  by (simp_all add: normalizeCallbacks_def Let_def)

lemma normalizeCallbacks_set:
  "PressureFunc (normalizeCallbacks dsf x) \<noteq> None" "oShardFunc (normalizeCallbacks dsf x) \<noteq> None"
  by (auto simp: normalizeCallbacks_def Let_def)

lemma reconcile_backend [simp]:
  "oBackend (reconcileThresholdWindow x) = oBackend x" "oBackend (sanitizeThresholds x) = oBackend x"
  "oBackend (reconcileShards x) = oBackend x"
  by (simp_all add: reconcileThresholdWindow_def sanitizeThresholds_def reconcileShards_def Let_def)

lemma reconcile_callbacks [simp]:
  "oWeigher (reconcileThresholdWindow x) = oWeigher x" "oOnEvictValue (reconcileThresholdWindow x) = oOnEvictValue x"
  "oOnEvictEntry (reconcileThresholdWindow x) = oOnEvictEntry x"
  "oWeigher (sanitizeThresholds x) = oWeigher x" "oOnEvictValue (sanitizeThresholds x) = oOnEvictValue x"
  "oOnEvictEntry (sanitizeThresholds x) = oOnEvictEntry x"
  "oWeigher (reconcileShards (normalizeBackend x)) = oWeigher x"
  "oOnEvictValue (reconcileShards (normalizeBackend x)) = oOnEvictValue x"
  "oOnEvictEntry (reconcileShards (normalizeBackend x)) = oOnEvictEntry x"
  by (simp_all add: reconcileThresholdWindow_def sanitizeThresholds_def reconcileShards_def normalizeBackend_def Let_def)

lemma normalizeCallbacks_nil:
  "oWeigher (normalizeCallbacks dsf x) = (if isNilFunc (oWeigher x) then NilIface else oWeigher x)"
  "oOnEvictValue (normalizeCallbacks dsf x) = (if isNilFunc (oOnEvictValue x) then NilIface else oOnEvictValue x)"
  "oOnEvictEntry (normalizeCallbacks dsf x) = (if isNilFunc (oOnEvictEntry x) then NilIface else oOnEvictEntry x)"
  by (simp_all add: normalizeCallbacks_def Let_def)

lemma backend_thresholds [simp]:
  "CompactionThreshold (reconcileShards (normalizeBackend x)) = CompactionThreshold x"
  "EvictionThreshold (reconcileShards (normalizeBackend x)) = EvictionThreshold x"
  by (simp_all add: reconcileShards_def normalizeBackend_def)

lemma reconciled_thresholds:
  assumes "is_f64 (CompactionThreshold o0)" "is_f64 (EvictionThreshold o0)"
  shows "\<exists>c e. CompactionThreshold (reconcileThresholdWindow (sanitizeThresholds (reconcileShards (normalizeBackend o0)))) = Fin c
     \<and> EvictionThreshold (reconcileThresholdWindow (sanitizeThresholds (reconcileShards (normalizeBackend o0)))) = Fin e
     \<and> 0 < c \<and> c \<le> e"
  by (intro reconcileThresholdWindow_ordered sanitizeThresholds_valid) (simp_all add: assms)

text \<open>
  C12. Whatever options a caller passes, in whatever order (nil options included), the configuration
  that reaches a cache has finite thresholds with 0 < compaction <= eviction, a retention ratio
  between 0 and 1, one of the three backends, a pressure probe and a shard function. The hypothesis
  says only that the two thresholds the options leave behind are float64 values.
\<close>
theorem ApplyOptions_ok:
  fixes opts :: "'v goOption list"
  assumes "is_f64 (CompactionThreshold (foldl applySingleOption defaultOptions opts))"
    and "is_f64 (EvictionThreshold (foldl applySingleOption defaultOptions opts))"
  shows "\<exists>c e r. CompactionThreshold (ApplyOptions dsf opts) = Fin c \<and> EvictionThreshold (ApplyOptions dsf opts) = Fin e
    \<and> 0 < c \<and> c \<le> e \<and> EvictionRetentionRatio (ApplyOptions dsf opts) = Fin r \<and> 0 \<le> r \<and> r \<le> 1
    \<and> oBackend (ApplyOptions dsf opts) \<in> {BackendMap, BackendRadix, BackendArenaRadix}
    \<and> PressureFunc (ApplyOptions dsf opts) \<noteq> None \<and> oShardFunc (ApplyOptions dsf opts) \<noteq> None"
proof -
  define o1 where "o1 = sanitizeThresholds (reconcileShards (normalizeBackend (foldl applySingleOption defaultOptions opts)))"
  have "\<exists>c e. CompactionThreshold (reconcileThresholdWindow o1) = Fin c
     \<and> EvictionThreshold (reconcileThresholdWindow o1) = Fin e \<and> 0 < c \<and> c \<le> e"
    unfolding o1_def by (rule reconciled_thresholds [OF assms])
  moreover have "oBackend o1 \<in> {BackendMap, BackendRadix, BackendArenaRadix}"
    by (simp add: o1_def normalizeBackend_def)
  ultimately show ?thesis
    using normalizeRetentionRatio_unit [of "EvictionRetentionRatio (reconcileThresholdWindow o1)"]
    by (auto simp: ApplyOptions_def Let_def o1_def [symmetric] normalizeCallbacks_set)
qed

text \<open>Without options a cache gets the defaults; with a bad threshold it gets the default threshold.\<close>
theorem ApplyOptions_ok_witness:
  "\<exists>c e r. CompactionThreshold (ApplyOptions (\<lambda>_ _. 0) [None, WithEvictionThreshold NaN, WithBackend (BackendOther 7)] :: nat Options) = Fin c
    \<and> EvictionThreshold (ApplyOptions (\<lambda>_ _. 0) [None, WithEvictionThreshold NaN, WithBackend (BackendOther 7)] :: nat Options) = Fin e
    \<and> 0 < c \<and> c \<le> e
    \<and> EvictionRetentionRatio (ApplyOptions (\<lambda>_ _. 0) [None, WithEvictionThreshold NaN, WithBackend (BackendOther 7)] :: nat Options) = Fin r
    \<and> 0 \<le> r \<and> r \<le> 1"
proof -
  let ?opts = "[None, WithEvictionThreshold NaN, WithBackend (BackendOther 7)] :: nat goOption list"
  have "is_f64 (CompactionThreshold (foldl applySingleOption defaultOptions ?opts))"
    "is_f64 (EvictionThreshold (foldl applySingleOption defaultOptions ?opts))"
    using default_thresholds_valid
    by (simp_all add: applySingleOption_def defaultOptions_def WithEvictionThreshold_def WithBackend_def
        isValidPositiveThreshold_def valid_threshold_iff Let_def)
  from ApplyOptions_ok [OF this, of "\<lambda>_ _. 0"] show ?thesis by blast
qed

lemma ApplyOptions_thresholds:
  assumes "is_f64 (CompactionThreshold (foldl applySingleOption defaultOptions opts))"
    and "is_f64 (EvictionThreshold (foldl applySingleOption defaultOptions opts))"
  shows "thresholds_ok (ApplyOptions dsf opts)"
  using reconciled_thresholds [OF assms] by (simp add: ApplyOptions_def Let_def thresholds_ok_def)

end
