(* ===== verification/MapOps.thy ===== *)
theory MapOps
  imports MapSpec OptionsSpec
begin

text \<open>
  The operations of the map backend against their contract: a cache is the list of its entries, most
  recently used first, and every operation is described by what it does to that list, by the values it
  returns and by the callbacks it makes.
\<close>

subsection \<open>The abstract view\<close>

type_synonym 'v item = "string \<times> u64 \<times> 'v"

abbreviation entry_key :: "'v item \<Rightarrow> string" where "entry_key x \<equiv> fst x"
abbreviation entry_weight :: "'v item \<Rightarrow> u64" where "entry_weight x \<equiv> fst (snd x)"
abbreviation entry_value :: "'v item \<Rightarrow> 'v" where "entry_value x \<equiv> snd (snd x)"

definition ents :: "'v heap \<Rightarrow> addr list \<Rightarrow> 'v item list" where
  "ents h as = map (\<lambda>a. payload (h a)) as"

definition others :: "string \<Rightarrow> 'v item list \<Rightarrow> 'v item list" where
  "others k xs = filter (\<lambda>x. entry_key x \<noteq> k) xs"

definition event_of :: "EvictionReason \<Rightarrow> 'v item \<Rightarrow> string \<times> 'v \<times> EvictionReason" where
  "event_of r x = (entry_key x, entry_value x, r)"

definition calls :: "'v mapCache \<Rightarrow> (string \<times> 'v \<times> EvictionReason) list \<Rightarrow> 'v callback list" where
  "calls c evs = deliveries (m_onEvictValue c) (m_onEvictEntry c) evs"

definition hot :: "float64 \<Rightarrow> 'v mapCache \<Rightarrow> bool" where
  \<comment> \<open>the reading is at or over the eviction threshold\<close>
  "hot pressure c = fge pressure (EvictionThreshold (options (m_ps c)))"

definition reclaimed :: "bool \<Rightarrow> 'v item list \<Rightarrow> 'v item list \<Rightarrow> 'v item list \<Rightarrow> bool" where
  \<comment> \<open>the entries \<open>gone\<close> leave \<open>xs\<close> and the rest stays in order; nothing leaves when not hot\<close>
  "reclaimed over xs gone ys = (set gone \<subseteq> set xs \<and> distinct gone \<and> ys = filter (\<lambda>x. x \<notin> set gone) xs
     \<and> (\<not> over \<longrightarrow> gone = []))"

lemma lru_ents: "mid W d dd rr ss c as \<Longrightarrow> lru c = ents (m_heap c) as"
  by (simp add: lru_def ents_def mid_addrs)

lemma map_inv_mid: "map_inv c \<Longrightarrow> mid (weights (m_heap c)) 0 0 0 0 c (addrs c)"
  by (simp add: map_inv_def)

lemma ents_simps [simp]:
  "ents h [] = []" "ents h (a # as) = payload (h a) # ents h as" "ents h (as @ bs) = ents h as @ ents h bs"
  "ents h (rev as) = rev (ents h as)" "set (ents h as) = (\<lambda>a. payload (h a)) ` set as"
  by (simp_all add: ents_def rev_map)

lemma payload_proj [simp]: "fst (payload x) = ekey x" "fst (snd (payload x)) = esize x" "snd (snd (payload x)) = evalue x"
  by (simp_all add: payload_def)

lemma ents_value [simp]: "map (\<lambda>x. entry_value x) (ents h as) = map (\<lambda>a. evalue (h a)) as"
  by (simp add: ents_def comp_def)

lemma ents_weight [simp]: "map (\<lambda>x. entry_weight x) (ents h as) = map (weights h) as"
  by (simp add: ents_def comp_def weights_def)

lemma last_ents: "as \<noteq> [] \<Longrightarrow> List.last (ents h as) = payload (h (List.last as))"
  by (simp add: ents_def last_map)

lemma weights_last: "esize (h a) = weights h a"
  by (simp add: weights_def)

lemma ents_key [simp]: "map (\<lambda>x. entry_key x) (ents h as) = map (\<lambda>a. ekey (h a)) as"
  by (simp add: ents_def comp_def)

lemma ents_event [simp]: "map (event_of r) (ents h as) = map (entry_event h r) as"
  by (simp add: ents_def comp_def event_of_def entry_event_def)

lemma ents_cong: "(\<And>a. a \<in> set as \<Longrightarrow> payload (h' a) = payload (h a)) \<Longrightarrow> ents h' as = ents h as"
  by (simp add: ents_def)

lemma keys_inj: "mid W d dd rr ss c as \<Longrightarrow> inj_on (\<lambda>a. ekey (m_heap c a)) (set as)"
  by (rule inj_onI) (metis mid_lookup option.inject)

lemma payload_inj: "mid W d dd rr ss c as \<Longrightarrow> inj_on (\<lambda>a. payload (m_heap c a)) (set as)"
  using keys_inj by (fastforce simp: inj_on_def payload_simps)

lemma others_ents:
  assumes m: "mid W d dd rr ss c as" and e: "e \<in> set as"
  shows "others (ekey (m_heap c e)) (ents (m_heap c) as) = ents (m_heap c) (remove1 e as)"
    and "filter (\<lambda>x. entry_key x = ekey (m_heap c e)) (ents (m_heap c) as) = [payload (m_heap c e)]"
proof -
  have k: "ekey (m_heap c a) = ekey (m_heap c e) \<longleftrightarrow> a = e" if "a \<in> set as" for a
    using keys_inj [OF m] e that by (auto simp: inj_on_def)
  have "filter (\<lambda>a. ekey (m_heap c a) \<noteq> ekey (m_heap c e)) as = filter (\<lambda>a. a \<noteq> e) as"
    by (rule filter_cong) (use k in auto)
  then show "others (ekey (m_heap c e)) (ents (m_heap c) as) = ents (m_heap c) (remove1 e as)"
    using filter_remove1 [OF mid_distinct [OF m], of e] by (simp add: others_def ents_def filter_map comp_def)
  have "filter (\<lambda>a. ekey (m_heap c a) = ekey (m_heap c e)) as = filter (\<lambda>a. a = e) as"
    by (rule filter_cong) (use k in auto)
  also have "\<dots> = [e]" using e mid_distinct [OF m] by (induction as) (auto simp: filter_empty_conv)
  finally show "filter (\<lambda>x. entry_key x = ekey (m_heap c e)) (ents (m_heap c) as) = [payload (m_heap c e)]"
    by (simp add: ents_def filter_map comp_def)
qed

lemma others_absent:
  assumes "mid W d dd rr ss c as" "map_of (m_index c) k = None"
  shows "others k (ents (m_heap c) as) = ents (m_heap c) as"
    and "filter (\<lambda>x. entry_key x = k) (ents (m_heap c) as) = []"
proof -
  have "\<forall>a\<in>set as. ekey (m_heap c a) \<noteq> k" using mid_lookup [OF assms(1), of k] assms(2) by auto
  then show "others k (ents (m_heap c) as) = ents (m_heap c) as"
    "filter (\<lambda>x. entry_key x = k) (ents (m_heap c) as) = []"
    by (auto simp: others_def filter_id_conv filter_empty_conv)
qed

lemma sheds_ents:
  assumes m: "mid W d dd rr ss c as" and s: "sheds (c, q) as (map (\<lambda>a. (a, r)) gs) (c', q') as'"
  shows "ents (m_heap c') as' = filter (\<lambda>x. x \<notin> set (ents (m_heap c) gs)) (ents (m_heap c) as)"
    and "set (ents (m_heap c) gs) \<subseteq> set (ents (m_heap c) as)" and "distinct (ents (m_heap c) gs)"
proof -
  have sub: "set gs \<subseteq> set as" and dist: "distinct gs" and as': "as' = filter (\<lambda>a. a \<notin> set gs) as"
    and pay: "\<forall>a\<in>set as'. payload (m_heap c' a) = payload (m_heap c a)"
    using s by (auto simp: sheds_def image_image comp_def)
  have "payload (m_heap c a) \<in> set (ents (m_heap c) gs) \<longleftrightarrow> a \<in> set gs" if "a \<in> set as" for a
    using payload_inj [OF m] sub that by (auto simp: inj_on_def)
  then have "filter (\<lambda>a. payload (m_heap c a) \<notin> set (ents (m_heap c) gs)) as = as'"
    unfolding as' by (intro filter_cong) auto
  then have "filter (\<lambda>x. x \<notin> set (ents (m_heap c) gs)) (ents (m_heap c) as) = ents (m_heap c) as'"
    by (simp add: ents_def filter_map comp_def)
  then show "ents (m_heap c') as' = filter (\<lambda>x. x \<notin> set (ents (m_heap c) gs)) (ents (m_heap c) as)"
    using pay ents_cong by metis
  show "set (ents (m_heap c) gs) \<subseteq> set (ents (m_heap c) as)" using sub by auto
  show "distinct (ents (m_heap c) gs)"
    using dist sub payload_inj [OF m] by (auto simp: ents_def distinct_map intro: inj_on_subset)
qed

lemma invoke_calls:
  assumes "queue_wf q" "queue_events q = (if hasEvictCB c then evs else [])" "cfg c' = cfg c"
  shows "invokeCallbacks c' q = calls c evs"
  using assms cfg_simps [OF assms(3)]
  by (auto simp: invokeCallbacks_def evictQueue_invoke_events calls_def deliveries_def hasEvictCB_def)


subsection \<open>Put\<close>

lemma mutation_reclaim:
  fixes c :: "('v :: zero) mapCache"
  assumes m: "mid (weights (m_heap c)) 0 0 0 0 c as" and q: "queue_wf q" and e: "e \<in> set as"
  shows "\<exists>c' q' gp. (if b then mapCache_finishMutationReclaimLocked evs (Some e) rp cp sb se x (c, q)
        else Inr ((c, q), evs)) = Inr ((c', q'), evs @ map (\<lambda>y. entry_value y) gp)
    \<and> map_inv c' \<and> cfg c' = cfg c \<and> payload (m_heap c e) \<notin> set gp
    \<and> reclaimed (hot x c) (ents (m_heap c) as) gp (lru c')
    \<and> queue_wf q' \<and> queue_events q' = queue_events q @ (if hasEvictCB c then map (event_of EvictionReasonPressure) gp else [])"
proof -
  let ?W = "weights (m_heap c)"
  have W: "\<And>a. a \<in> set as \<Longrightarrow> ?W a = esize (m_heap c a)" by (simp add: weights_def)
  obtain c' q' as' gs where r: "(if b then mapCache_finishMutationReclaimLocked evs (Some e) rp cp sb se x (c, q)
        else Inr ((c, q), evs)) = Inr ((c', q'), evs @ map (\<lambda>a. evalue (m_heap c a)) gs)"
    "mid ?W 0 0 0 0 c' as'" "reclaims x (Some e) (c, q) as gs (c', q') as'"
  proof (cases b)
    case True
    obtain c' q' as' gs where "mapCache_finishMutationReclaimLocked evs (Some e) rp cp sb se x (c, q)
        = Inr ((c', q'), evs @ map (\<lambda>a. evalue (m_heap c a)) gs)"
      "mid ?W 0 0 0 0 c' as'" "reclaims x (Some e) (c, q) as gs (c', q') as'"
      using finishMutation_spec [OF m W] by blast
    then show thesis using that True by simp
  next
    case False
    show thesis by (rule that [of c q "[]" as]) (use False m reclaims_refl [OF quiet_refl] in auto)
  qed
  have sh: "sheds (c, q) as (map (\<lambda>a. (a, EvictionReasonPressure)) gs) (c', q') as'"
    and ne: "e \<notin> set gs" and cold: "\<not> hot x c \<longrightarrow> gs = []"
    using r(3) by (auto simp: reclaims_def hot_def)
  note g = sheds_gone [OF sh] and en = sheds_ents [OF m sh]
  have pay: "\<And>a. a \<in> set as' \<Longrightarrow> payload (m_heap c' a) = payload (m_heap c a)" and cfg: "cfg c' = cfg c"
    using sh by (auto simp: sheds_def)
  have inv: "map_inv c'"
    by (rule map_invI [OF r(2)]) (use pay g(3) in \<open>auto simp: weights_def payload_simps\<close>)
  have pe: "payload (m_heap c e) \<notin> set (ents (m_heap c) gs)"
    using payload_inj [OF m] e ne g(1) by (auto simp: inj_on_def)
  have "reclaimed (hot x c) (ents (m_heap c) as) (ents (m_heap c) gs) (lru c')"
    using en cold lru_ents [OF r(2)] by (auto simp: reclaimed_def)
  then show ?thesis
    using r(1) inv cfg pe sheds_events [OF sh q]
    by - (rule exI [of _ c'], rule exI [of _ q'], rule exI [of _ "ents (m_heap c) gs"], simp del: if_split)
qed

lemma mutation_tail:
  fixes c :: "('v :: zero) mapCache"
  assumes m: "mid (weights (m_heap c)) 0 0 0 0 c (e # as)" and q: "queue_wf q"
  shows "\<exists>c' q' gp keep. (if b then mapCache_finishMutationReclaimLocked evs (Some e) rp cp sb se x (c, q)
        else Inr ((c, q), evs)) = Inr ((c', q'), evs @ map (\<lambda>y. entry_value y) gp)
    \<and> map_inv c' \<and> cfg c' = cfg c \<and> lru c' = payload (m_heap c e) # keep
    \<and> reclaimed (hot x c) (ents (m_heap c) as) gp keep
    \<and> queue_wf q' \<and> queue_events q' = queue_events q @ (if hasEvictCB c then map (event_of EvictionReasonPressure) gp else [])"
proof -
  obtain c' q' gp where r: "(if b then mapCache_finishMutationReclaimLocked evs (Some e) rp cp sb se x (c, q)
        else Inr ((c, q), evs)) = Inr ((c', q'), evs @ map (\<lambda>y. entry_value y) gp)"
    "map_inv c'" "cfg c' = cfg c" "payload (m_heap c e) \<notin> set gp"
    "reclaimed (hot x c) (ents (m_heap c) (e # as)) gp (lru c')"
    "queue_wf q'" "queue_events q' = queue_events q @ (if hasEvictCB c then map (event_of EvictionReasonPressure) gp else [])"
    using mutation_reclaim [OF m q list.set_intros(1)] by blast
  have "lru c' = payload (m_heap c e) # filter (\<lambda>y. y \<notin> set gp) (ents (m_heap c) as)"
    "reclaimed (hot x c) (ents (m_heap c) as) gp (filter (\<lambda>y. y \<notin> set gp) (ents (m_heap c) as))"
    using r(4,5) by (auto simp: reclaimed_def)
  then show ?thesis using r by blast
qed

lemma lock_props:
  assumes "map_inv c" "lockMapCache env fresh c = (c', se, x)"
  shows "mid (weights (m_heap c')) 0 0 0 0 c' (addrs c)" "lru c' = lru c" "cfg c' = cfg c" "m_index c' = m_index c"
    "putInserted (m_ps c') = putInserted (m_ps c)" "m_heap c' = m_heap c" "m_currentSize c' = m_currentSize c"
proof -
  note l = lockMapCache_spec [OF assms(2) map_inv_mid [OF assms(1)]]
  then show "mid (weights (m_heap c')) 0 0 0 0 c' (addrs c)" "lru c' = lru c" "cfg c' = cfg c" "m_index c' = m_index c"
    "putInserted (m_ps c') = putInserted (m_ps c)" "m_heap c' = m_heap c" "m_currentSize c' = m_currentSize c"
    using lru_ents [of _ 0 0 0 0 c'] lru_ents [OF map_inv_mid [OF assms(1)]] by (auto simp: quiet_def)
qed

lemma Put_stage:
  fixes c :: "('v :: zero) mapCache"
  assumes m: "mid (weights (m_heap c)) 0 0 0 0 c as" and w: "w \<le> m_maxSize c" and q: "queue_wf q"
    and room: "putInserted (m_ps c) \<noteq> - 1"
  shows "\<exists>c' q' as' e gs b1 b2. (case map_of (m_index c) k of
        Some e \<Rightarrow> bindr (mapCache_updateExistingOnPutLocked e v w sb x (c, q))
          (\<lambda>(st, evictedValues, reclaimedPrePut). Inr (st, e, evictedValues, reclaimedPrePut, False))
      | None \<Rightarrow> mapCache_insertOnPutLocked k v w sb x (c, q))
      = Inr ((c', q'), e, map (\<lambda>a. evalue (m_heap c a)) gs, b1, b2)
    \<and> mid (weights (m_heap c')) 0 0 0 0 c' (e # as') \<and> others k (ents (m_heap c) as) = ents (m_heap c) (as' @ rev gs)
    \<and> payload (m_heap c' e) = (k, w, v) \<and> ents (m_heap c') as' = ents (m_heap c) as' \<and> cfg c' = cfg c
    \<and> queue_wf q' \<and> queue_events q' = queue_events q @ (if hasEvictCB c then
        map (entry_event (m_heap c) EvictionReasonCapacity) gs
        @ map (event_of EvictionReasonReplaced) (filter (\<lambda>y. entry_key y = k) (ents (m_heap c) as)) else [])
    \<and> (gs \<noteq> [] \<longrightarrow> 0 \<notin> weights (m_heap c) ` set as \<longrightarrow> w \<noteq> 0 \<longrightarrow> unat (m_maxSize c)
        < unat w + weight_sum (map (weights (m_heap c)) (as' @ [List.last gs])))"
proof (cases "map_of (m_index c) k")
  case None
  obtain c' q' as' gs e b1 b2 where i: "mapCache_insertOnPutLocked k v w sb x (c, q)
      = Inr ((c', q'), e, map (\<lambda>a. evalue (m_heap c a)) gs, b1, b2)"
    "mid (weights (m_heap c')) 0 0 0 0 c' (e # as')" "as = as' @ rev gs" "payload (m_heap c' e) = (k, w, v)"
    "\<forall>a\<in>set as'. payload (m_heap c' a) = payload (m_heap c a)" "cfg c' = cfg c"
    "queue_wf q'" "queue_events q' = queue_events q @ (if hasEvictCB c then
        map (entry_event (m_heap c) EvictionReasonCapacity) gs else [])"
    "gs \<noteq> [] \<longrightarrow> 0 \<notin> weights (m_heap c) ` set as \<longrightarrow> w \<noteq> 0 \<longrightarrow> unat (m_maxSize c)
        < weight_sum (map (weights (m_heap c)) (as' @ [List.last gs])) + unat w"
    using insert_spec [OF m None w q room] by blast
  show ?thesis
    using None i others_absent [OF m None] ents_cong [of as' "m_heap c'" "m_heap c"]
    by (intro exI [of _ c'] exI [of _ q'] exI [of _ as'] exI [of _ e] exI [of _ gs] exI [of _ b1] exI [of _ b2] conjI)
      (simp_all add: add.commute)
next
  case (Some e)
  then have e: "e \<in> set as" and k: "k = ekey (m_heap c e)" using mid_lookup [OF m] by auto
  obtain c' q' as' gs b where i: "mapCache_updateExistingOnPutLocked e v w sb x (c, q)
      = Inr ((c', q'), map (\<lambda>a. evalue (m_heap c a)) gs, b)"
    "mid (weights (m_heap c')) 0 0 0 0 c' (e # as')" "remove1 e as = as' @ rev gs"
    "payload (m_heap c' e) = (ekey (m_heap c e), w, v)"
    "\<forall>a\<in>set as'. payload (m_heap c' a) = payload (m_heap c a)" "cfg c' = cfg c"
    "queue_wf q'" "queue_events q' = queue_events q @ (if hasEvictCB c then
        map (entry_event (m_heap c) EvictionReasonCapacity) gs @ [entry_event (m_heap c) EvictionReasonReplaced e] else [])"
    "gs \<noteq> [] \<longrightarrow> w \<noteq> 0 \<longrightarrow> unat (m_maxSize c)
        < unat w + weight_sum (map (weights (m_heap c)) (as' @ [List.last gs]))"
    using updateExisting_spec [OF m e w q] by blast
  show ?thesis
    using Some i others_ents [OF m e] k ents_cong [of as' "m_heap c'" "m_heap c"]
    by (intro exI [of _ c'] exI [of _ q'] exI [of _ as'] exI [of _ e] exI [of _ gs] exI [of _ b] exI [of _ False] conjI)
      (simp_all add: event_of_def entry_event_def)
qed

definition lockPressure :: "samplingEnv \<Rightarrow> bool \<Rightarrow> 'v mapCache \<Rightarrow> float64" where
  \<comment> \<open>the pressure reading an operation works with\<close>
  "lockPressure env fresh c = snd (snd (lockMapCache env fresh c))"

lemma Put_spec:
  fixes c :: "('v :: zero) mapCache"
  assumes inv: "map_inv c" and w: "mapCache_weigh c k v \<le> m_maxSize c" and room: "putInserted (m_ps c) \<noteq> - 1"
  shows "\<exists>c' rest gc gp keep. mapCache_Put env k v c = Inr (c', map (\<lambda>x. entry_value x) (gc @ gp), None,
        calls c (map (event_of EvictionReasonCapacity) gc
          @ map (event_of EvictionReasonReplaced) (filter (\<lambda>x. entry_key x = k) (lru c))
          @ map (event_of EvictionReasonPressure) gp))
    \<and> map_inv c' \<and> cfg c' = cfg c
    \<and> others k (lru c) = rest @ rev gc
    \<and> reclaimed (hot (lockPressure env False c) c) rest gp keep
    \<and> lru c' = (k, mapCache_weigh c k v, v) # keep
    \<and> (gc \<noteq> [] \<longrightarrow> (\<forall>x\<in>set (lru c). entry_weight x \<noteq> 0) \<longrightarrow> mapCache_weigh c k v \<noteq> 0 \<longrightarrow>
        unat (m_maxSize c) < unat (mapCache_weigh c k v) + weight_sum (map (\<lambda>x. entry_weight x) (rest @ [List.last gc])))"
proof -
  let ?w = "mapCache_weigh c k v"
  obtain c0 se x where lk: "lockMapCache env False c = (c0, se, x)" by (metis prod_cases3)
  note l = lock_props [OF inv lk]
  have max0: "m_maxSize c0 = m_maxSize c" and cb0: "hasEvictCB c0 = hasEvictCB c" using cfg_simps [OF l(3)] by auto
  have w0: "?w \<le> m_maxSize c0" and room0: "putInserted (m_ps c0) \<noteq> - 1" using w room l(5) max0 by simp_all
  obtain c1 q1 as1 e gs b1 b2 where s: "(case map_of (m_index c0) k of
        Some e \<Rightarrow> bindr (mapCache_updateExistingOnPutLocked e v ?w (m_currentSize c0) x (c0, newEvictQueue False))
          (\<lambda>(st, evictedValues, reclaimedPrePut). Inr (st, e, evictedValues, reclaimedPrePut, False))
      | None \<Rightarrow> mapCache_insertOnPutLocked k v ?w (m_currentSize c0) x (c0, newEvictQueue False))
      = Inr ((c1, q1), e, map (\<lambda>a. evalue (m_heap c0 a)) gs, b1, b2)"
    "mid (weights (m_heap c1)) 0 0 0 0 c1 (e # as1)"
    "others k (ents (m_heap c0) (addrs c)) = ents (m_heap c0) (as1 @ rev gs)"
    "payload (m_heap c1 e) = (k, ?w, v)" "ents (m_heap c1) as1 = ents (m_heap c0) as1" "cfg c1 = cfg c0"
    "queue_wf q1" "queue_events q1 = queue_events (newEvictQueue False) @ (if hasEvictCB c0 then
        map (entry_event (m_heap c0) EvictionReasonCapacity) gs
        @ map (event_of EvictionReasonReplaced) (filter (\<lambda>y. entry_key y = k) (ents (m_heap c0) (addrs c))) else [])"
    "gs \<noteq> [] \<longrightarrow> 0 \<notin> weights (m_heap c0) ` set (addrs c) \<longrightarrow> ?w \<noteq> 0 \<longrightarrow> unat (m_maxSize c0)
        < unat ?w + weight_sum (map (weights (m_heap c0)) (as1 @ [List.last gs]))"
    using Put_stage [OF l(1) w0 queue_wf_new room0] by blast
  obtain c2 q2 gp keep where t: "(if needsMutationReclaim (m_ps c1) b1 (m_currentSize c1) (m_currentSize c0) x
      then mapCache_finishMutationReclaimLocked (map (\<lambda>a. evalue (m_heap c0 a)) gs) (Some e) b1 b2 (m_currentSize c0) se x (c1, q1)
        else Inr ((c1, q1), map (\<lambda>a. evalue (m_heap c0 a)) gs))
      = Inr ((c2, q2), map (\<lambda>a. evalue (m_heap c0 a)) gs @ map (\<lambda>y. entry_value y) gp)"
    "map_inv c2" "cfg c2 = cfg c1" "lru c2 = payload (m_heap c1 e) # keep"
    "reclaimed (hot x c1) (ents (m_heap c1) as1) gp keep"
    "queue_wf q2" "queue_events q2 = queue_events q1 @ (if hasEvictCB c1 then map (event_of EvictionReasonPressure) gp else [])"
    using mutation_tail [OF s(2) s(7)] by blast
  have cfg2: "cfg c2 = cfg c" using t(3) s(6) l(3) by simp
  have hx: "hot x c1 = hot (lockPressure env False c) c"
    using lk cfg_simps [OF l(3)] cfg_simps [OF s(6)] by (simp add: hot_def lockPressure_def)
  have lru0: "ents (m_heap c0) (addrs c) = lru c" using lru_ents [OF l(1)] l(2) by simp
  have cb1: "hasEvictCB c1 = hasEvictCB c" using cfg_simps [OF s(6)] cb0 by simp
  have ev: "queue_events q2 = (if hasEvictCB c then map (event_of EvictionReasonCapacity) (ents (m_heap c0) gs)
          @ map (event_of EvictionReasonReplaced) (filter (\<lambda>x. entry_key x = k) (lru c))
          @ map (event_of EvictionReasonPressure) gp else [])"
    using t(7) s(8) by (simp add: cb0 cb1 lru0)
  have nz: "0 \<notin> weights (m_heap c0) ` set (addrs c)" if "\<forall>y\<in>set (lru c). entry_weight y \<noteq> 0"
    using that unfolding lru0 [symmetric] by (auto simp: weights_def)
  show ?thesis
  proof (intro exI conjI)
    show "mapCache_Put env k v c = Inr (c2, map (\<lambda>x. entry_value x) (ents (m_heap c0) gs @ gp), None,
        calls c (map (event_of EvictionReasonCapacity) (ents (m_heap c0) gs)
          @ map (event_of EvictionReasonReplaced) (filter (\<lambda>x. entry_key x = k) (lru c))
          @ map (event_of EvictionReasonPressure) gp))"
      using w invoke_calls [OF t(6) ev cfg2] unlock_ok [OF t(2)]
      unfolding mapCache_Put_def Let_def lk prod.case s(1) bindr_simps t(1) by (simp add: not_less)
    show "others k (lru c) = ents (m_heap c0) as1 @ rev (ents (m_heap c0) gs)" using s(3) lru0 by simp
    show "reclaimed (hot (lockPressure env False c) c) (ents (m_heap c0) as1) gp keep" using t(5) s(5) hx by simp
    show "lru c2 = (k, ?w, v) # keep" using t(4) s(4) by simp
    show "ents (m_heap c0) gs \<noteq> [] \<longrightarrow> (\<forall>x\<in>set (lru c). entry_weight x \<noteq> 0) \<longrightarrow> ?w \<noteq> 0 \<longrightarrow>
        unat (m_maxSize c) < unat ?w + weight_sum (map (\<lambda>x. entry_weight x) (ents (m_heap c0) as1 @ [List.last (ents (m_heap c0) gs)]))"
      using s(9) nz max0 by (cases "gs = []") (auto simp: last_ents weights_last)
  qed (use t(2) cfg2 in auto)
qed

text \<open>
  C1. \<open>Put\<close> of an entry that can fit succeeds and keeps the invariant. The key becomes the most recently
  used entry with its new weight and value. Of the other entries a suffix \<open>gc\<close> of the recency list is
  evicted for capacity, oldest first, and \<open>gp\<close> is shed when the pressure reading is over the eviction
  threshold; the rest keep their order. The evicted values are returned, and the callbacks are those of
  the capacity evictions, of the replaced value and of the shed entries, in that order. When every weight
  is positive, the last entry evicted for capacity did not fit beside the new one.
\<close>
theorem mapCache_Put_ok:
  fixes c :: "('v :: zero) mapCache"
  assumes inv: "map_inv c" and w: "mapCache_weigh c k v \<le> m_maxSize c" and room: "putInserted (m_ps c) \<noteq> - 1"
  shows "\<exists>c' rest gc gp keep. mapCache_Put env k v c = Inr (c', map (\<lambda>x. entry_value x) (gc @ gp), None,
        calls c (map (event_of EvictionReasonCapacity) gc
          @ map (event_of EvictionReasonReplaced) (filter (\<lambda>x. entry_key x = k) (lru c))
          @ map (event_of EvictionReasonPressure) gp))
    \<and> map_inv c' \<and> cfg c' = cfg c
    \<and> others k (lru c) = rest @ rev gc
    \<and> reclaimed (hot (lockPressure env False c) c) rest gp keep
    \<and> lru c' = (k, mapCache_weigh c k v, v) # keep
    \<and> (gc \<noteq> [] \<longrightarrow> (\<forall>x\<in>set (lru c). entry_weight x \<noteq> 0) \<longrightarrow> mapCache_weigh c k v \<noteq> 0 \<longrightarrow>
        unat (m_maxSize c) < unat (mapCache_weigh c k v) + weight_sum (map (\<lambda>x. entry_weight x) (rest @ [List.last gc])))"
  by (rule Put_spec [OF assms])

subsection \<open>A new cache\<close>

lemma newPressureState_ok:
  "thresholds_ok opts \<Longrightarrow> ps_ok (newPressureState opts) 0 0 0 0 0"
  by (simp add: ps_ok_def books_ok_def newPressureState_def sampling_ok_def coord_ok_def zeroCoord_def)

definition callbackMismatch :: "'f anyFunc \<Rightarrow> bool" where
  \<comment> \<open>a non-nil function of a type the cache cannot call\<close>
  "callbackMismatch f = (f = OtherFunc False)"

lemma resolve_total:
  "\<not> callbackMismatch w \<Longrightarrow> \<exists>f. resolveWeigher w = Inr f"
  "\<not> callbackMismatch v \<Longrightarrow> \<exists>f. resolveOnEvictValue v = Inr f"
  "\<not> callbackMismatch v \<Longrightarrow> \<exists>f. resolveOnEvictEntry v = Inr f"
  by (cases w; auto simp: callbackMismatch_def split: option.splits;
      cases v; auto simp: callbackMismatch_def split: option.splits)+

lemma newMapCache_inv:
  fixes opts :: "('v :: zero) Options"
  assumes "thresholds_ok opts" "maxSz \<noteq> 0"
    and "\<not> callbackMismatch (oWeigher opts)" "\<not> callbackMismatch (oOnEvictValue opts)"
    "\<not> callbackMismatch (oOnEvictEntry opts)"
  shows "\<exists>c. newMapCacheWithOptions maxSz opts = Inr c \<and> map_inv c \<and> lru c = [] \<and> m_maxSize c = maxSz
    \<and> resolveWeigher (oWeigher opts) = Inr (m_weigher c) \<and> putInserted (m_ps c) = 0
    \<and> EvictionRetentionRatio (options (m_ps c)) = EvictionRetentionRatio opts"
proof -
  define o1 where "o1 = (if \<not> hasShardTier2Target opts
             then opts\<lparr>hasShardTier2Target := True,
                        shardTier2Target := computeTargetSize maxSz (EvictionRetentionRatio opts)\<rparr>
             else opts)"
  have o1: "oWeigher o1 = oWeigher opts" "oOnEvictValue o1 = oOnEvictValue opts" "oOnEvictEntry o1 = oOnEvictEntry opts"
    by (simp_all add: o1_def)
  obtain w onVal onEntry where r: "resolveWeigher (oWeigher opts) = Inr w"
    "resolveOnEvictValue (oOnEvictValue opts) = Inr onVal" "resolveOnEvictEntry (oOnEvictEntry opts) = Inr onEntry"
    using assms(3-5) resolve_total by metis
  define c where "c = \<lparr>m_maxSize = maxSz, m_currentSize = 0, m_heap = (\<lambda>_. zeroEntry), m_nextAddr = 0,
              m_entries = emptyList, m_index = [], m_dirtyIndex = False, m_weigher = w,
              m_onEvictValue = onVal, m_onEvictEntry = onEntry, m_ps = newPressureState o1\<rparr>"
  have "thresholds_ok o1" using assms(1) by (simp add: o1_def thresholds_ok_def)
  then have "mid (weights (m_heap c)) 0 0 0 0 c []"
    using newPressureState_ok assms(2)
    by (simp add: c_def mid_def map_repr_def index_ok_def dll_def emptyList_def)
  then have "map_inv c" "lru c = []" using mid_addrs [of _ 0 0 0 0 c "[]"] by (auto simp: map_inv_def lru_def)
  moreover have "newMapCacheWithOptions maxSz opts = Inr c"
    using unlock_ok [OF \<open>map_inv c\<close>] r
    unfolding newMapCacheWithOptions_def Let_def o1_def [symmetric] by (simp add: o1 c_def [symmetric])
  ultimately show ?thesis using r by (auto simp: c_def newPressureState_def o1_def)
qed

subsection \<open>A concrete cache\<close>

definition sampleOpts :: "nat Options" where
  \<comment> \<open>a value weighs itself\<close>
  "sampleOpts = ApplyOptions (\<lambda>_ _. 0) [WithWeigher (Some (\<lambda>_ v. word_of_nat v))]"

definition sampleEnv :: samplingEnv where
  \<comment> \<open>a probe that always reads zero\<close>
  "sampleEnv = \<lparr>probe = (\<lambda>_. Fin 0), soleReentrant = False, shardSoleReentrant = False\<rparr>"

definition sampleCache :: "nat mapCache" where
  "sampleCache = projr (newMapCacheWithOptions 3 sampleOpts)"

definition sampleOne :: "nat mapCache" where
  "sampleOne = fst (projr (mapCache_Put sampleEnv ''a'' 2 sampleCache))"

lemma sampleOpts_ok:
  "oWeigher sampleOpts = TypedFunc (Some (\<lambda>_ v. word_of_nat v))" "oOnEvictValue sampleOpts = NilIface"
  "oOnEvictEntry sampleOpts = NilIface" "thresholds_ok sampleOpts" "fle (Fin 0) (EvictionRetentionRatio sampleOpts)"
proof -
  let ?o = "foldl applySingleOption defaultOptions [WithWeigher (Some (\<lambda>_ v. word_of_nat v))] :: nat Options"
  have o: "oWeigher ?o = TypedFunc (Some (\<lambda>_ v. word_of_nat v))" "oOnEvictValue ?o = NilIface" "oOnEvictEntry ?o = NilIface"
    "CompactionThreshold ?o = DefaultCompactionThreshold" "EvictionThreshold ?o = DefaultEvictionThreshold"
    by (simp_all add: applySingleOption_def WithWeigher_def Let_def defaultOptions_def)
  show "oWeigher sampleOpts = TypedFunc (Some (\<lambda>_ v. word_of_nat v))" "oOnEvictValue sampleOpts = NilIface"
    "oOnEvictEntry sampleOpts = NilIface"
    unfolding sampleOpts_def ApplyOptions_def Let_def normalizeCallbacks_nil using o by simp_all
  show "thresholds_ok sampleOpts"
    unfolding sampleOpts_def
    by (rule ApplyOptions_thresholds) (use o default_thresholds_valid in \<open>simp_all add: valid_threshold_iff\<close>)
  show "fle (Fin 0) (EvictionRetentionRatio sampleOpts)"
    using normalizeRetentionRatio_unit [of "EvictionRetentionRatio (reconcileThresholdWindow (sanitizeThresholds (reconcileShards (normalizeBackend ?o))))"]
    by (auto simp: sampleOpts_def ApplyOptions_def Let_def fle_def)
qed

lemma sampleCache_new: "newMapCacheWithOptions 3 sampleOpts = Inr sampleCache"
  and sampleCache_ok: "map_inv sampleCache" "lru sampleCache = []" "m_maxSize sampleCache = 3"
  "mapCache_weigh sampleCache k v = word_of_nat v" "putInserted (m_ps sampleCache) = 0"
  and sampleCache_ratio: "fle (Fin 0) (EvictionRetentionRatio (options (m_ps sampleCache)))"
proof -
  obtain c where c: "newMapCacheWithOptions 3 sampleOpts = Inr c" "map_inv c" "lru c = []" "m_maxSize c = 3"
    "resolveWeigher (oWeigher sampleOpts) = Inr (m_weigher c)" "putInserted (m_ps c) = 0"
    "EvictionRetentionRatio (options (m_ps c)) = EvictionRetentionRatio sampleOpts"
    using newMapCache_inv [OF sampleOpts_ok(4), of 3] sampleOpts_ok(1-3) by (auto simp: callbackMismatch_def)
  have s: "sampleCache = c" by (simp add: sampleCache_def c(1))
  show "newMapCacheWithOptions 3 sampleOpts = Inr sampleCache" using s c by simp
  show "fle (Fin 0) (EvictionRetentionRatio (options (m_ps sampleCache)))" using s c(7) sampleOpts_ok(5) by simp
  show "map_inv sampleCache" "lru sampleCache = []" "m_maxSize sampleCache = 3"
    "mapCache_weigh sampleCache k v = word_of_nat v" "putInserted (m_ps sampleCache) = 0"
    using s c sampleOpts_ok(1) by (auto simp: mapCache_weigh_def dest: sym)
qed

lemma sampleOne_ok:
  "map_inv sampleOne" "lru sampleOne = [(''a'', 2, 2)]" "m_maxSize sampleOne = 3" "mapCache_weigh sampleOne k v = word_of_nat v"
  and sampleOne_ratio: "fle (Fin 0) (EvictionRetentionRatio (options (m_ps sampleOne)))"
proof -
  have w: "mapCache_weigh sampleCache ''a'' 2 \<le> m_maxSize sampleCache" by (simp add: sampleCache_ok)
  have room: "putInserted (m_ps sampleCache) \<noteq> - 1" by (simp add: sampleCache_ok)
  obtain c r rest gc gp keep where p: "mapCache_Put sampleEnv ''a'' 2 sampleCache = Inr (c, r)" "map_inv c" "cfg c = cfg sampleCache"
    "others ''a'' (lru sampleCache) = rest @ rev gc"
    "reclaimed (hot (lockPressure sampleEnv False sampleCache) sampleCache) rest gp keep"
    "lru c = (''a'', mapCache_weigh sampleCache ''a'' 2, 2) # keep"
    using Put_spec [OF sampleCache_ok(1) w room, of sampleEnv] by blast
  have s: "sampleOne = c" by (simp add: sampleOne_def p(1))
  show "fle (Fin 0) (EvictionRetentionRatio (options (m_ps sampleOne)))"
    using sampleCache_ratio cfg_simps [OF p(3)] s by simp
  show "map_inv sampleOne" "lru sampleOne = [(''a'', 2, 2)]" "m_maxSize sampleOne = 3" "mapCache_weigh sampleOne k v = word_of_nat v"
    using p cfg_simps [OF p(3)] sampleCache_ok
    by (auto simp: s others_def reclaimed_def mapCache_weigh_def split: option.splits)
qed

theorem mapCache_Put_ok_witness:
  "\<exists>c' cbs. mapCache_Put sampleEnv ''a'' 2 sampleCache = Inr (c', [], None, cbs) \<and> map_inv c' \<and> lru c' = [(''a'', 2, 2)]"
proof -
  have "mapCache_weigh sampleCache ''a'' 2 \<le> m_maxSize sampleCache" "putInserted (m_ps sampleCache) \<noteq> - 1"
    by (simp_all add: sampleCache_ok)
  from mapCache_Put_ok [OF sampleCache_ok(1) this, of sampleEnv] show ?thesis
    by (auto simp: sampleCache_ok others_def reclaimed_def)
qed

end
