(* ===== verification/MapLookup.thy ===== *)
theory MapLookup
  imports MapOps
begin

text \<open>
  The operations of the map backend that add nothing: lookups, deletions, iteration, compaction and
  explicit reclamation.
\<close>

subsection \<open>Lookups\<close>

lemma lookup_item:
  assumes "map_inv c"
  shows "map_of (m_index c) k = Some e \<Longrightarrow> map_of (lru c) k = Some (esize (m_heap c e), evalue (m_heap c e)) \<and> e \<in> set (addrs c)"
    and "map_of (m_index c) k = None \<Longrightarrow> map_of (lru c) k = None"
proof -
  note m = map_inv_mid [OF assms]
  have dk: "distinct (map fst (lru c))"
    using keys_inj [OF m] mid_distinct [OF m] by (simp add: lru_def comp_def distinct_map)
  show "map_of (lru c) k = Some (esize (m_heap c e), evalue (m_heap c e)) \<and> e \<in> set (addrs c)" if "map_of (m_index c) k = Some e"
    using mid_lookup [OF m] that dk
    by (auto simp: map_of_eq_Some_iff lru_def payload_def intro!: image_eqI [where x = e])
  show "map_of (lru c) k = None" if "map_of (m_index c) k = None"
  proof -
    have "\<forall>a\<in>set (addrs c). ekey (m_heap c a) \<noteq> k" using mid_lookup [OF m, of k] that by auto
    then show ?thesis by (auto simp: map_of_eq_None_iff lru_def)
  qed
qed

lemma inv_onPs:
  assumes "map_inv c" "ledger (f (m_ps c)) = ledger (m_ps c)" "sampling_ok (m_ps c) \<Longrightarrow> sampling_ok (f (m_ps c))"
  shows "map_inv (onPs f c) \<and> lru (onPs f c) = lru c"
proof -
  have "mid (weights (m_heap c)) 0 0 0 0 (onPs f c) (addrs c)"
    by (rule mid_keep [OF map_inv_mid [OF assms(1)]]) (use assms in auto)
  then show ?thesis
    using mid_addrs [of _ 0 0 0 0 "onPs f c"] by (auto simp: map_inv_def lru_def)
qed

lemma Get_spec:
  fixes c :: "('v :: zero) mapCache"
  assumes "map_inv c"
  shows "\<exists>c'. mapCache_Get k c = Inr (c', case map_of (lru c) k of Some (w, v) \<Rightarrow> v | None \<Rightarrow> 0, map_of (lru c) k \<noteq> None)
    \<and> map_inv c' \<and> cfg c' = cfg c
    \<and> lru c' = (case map_of (lru c) k of Some (w, v) \<Rightarrow> (k, w, v) # others k (lru c) | None \<Rightarrow> lru c)"
proof (cases "map_of (m_index c) k")
  case None
  define c1 where "c1 = onPs (\<lambda>p. p\<lparr>getMisses := getMisses p + 1\<rparr>) c"
  have "map_inv c1 \<and> lru c1 = lru c" unfolding c1_def by (rule inv_onPs [OF assms]) simp_all
  moreover have "cfg c1 = cfg c" by (simp add: c1_def cfg_def)
  ultimately show ?thesis
    using None lookup_item(2) [OF assms None] by (simp add: mapCache_Get_def c1_def [symmetric] unlock_ok)
next
  case (Some e)
  note m = map_inv_mid [OF assms] and le = lookup_item(1) [OF assms Some]
  define c0 where "c0 = onPs (\<lambda>p. p\<lparr>getHits := getHits p + 1\<rparr>) c"
  define c1 where "c1 = onEntries (MoveToFront e) c0"
  have c0: "mid (weights (m_heap c)) 0 0 0 0 c0 (addrs c)" "m_heap c0 = m_heap c"
    unfolding c0_def by (rule mid_keep [OF m]) simp_all
  have m1: "mid (weights (m_heap c)) 0 0 0 0 c1 (e # remove1 e (addrs c))"
    unfolding c1_def by (rule mid_get [OF c0(1)]) (use le in simp)
  have pay: "payload (m_heap c1 a) = payload (m_heap c a)" for a by (simp add: c1_def c0(2))
  have inv: "map_inv c1"
    by (rule map_invI [OF m1]) (use pay in \<open>auto simp: weights_def payload_simps\<close>)
  have k: "ekey (m_heap c e) = k" using mid_lookup [OF m] Some by simp
  have "lru c1 = (k, esize (m_heap c e), evalue (m_heap c e)) # others k (lru c)"
    using lru_ents [OF m1] lru_ents [OF m] others_ents(1) [OF m, of e] le k ents_cong [of _ "m_heap c1" "m_heap c"] pay
    by (simp add: payload_def)
  moreover have "cfg c1 = cfg c" by (simp add: c1_def c0_def cfg_def)
  moreover have "evalue (m_heap c1 e) = evalue (m_heap c e)" using pay [of e] by (simp add: payload_simps)
  ultimately show ?thesis
    using Some le inv unlock_ok [OF inv] by (simp add: mapCache_Get_def c0_def [symmetric] c1_def [symmetric])
qed

text \<open>
  C9. \<open>Get\<close> returns the value stored under a key and makes its entry the most recently used one; a miss
  returns the zero value and leaves the order alone. Either way the invariant holds afterwards and
  nothing else changes.
\<close>
theorem mapCache_Get_ok:
  fixes c :: "('v :: zero) mapCache"
  assumes "map_inv c"
  shows "\<exists>c'. mapCache_Get k c = Inr (c', case map_of (lru c) k of Some (w, v) \<Rightarrow> v | None \<Rightarrow> 0, map_of (lru c) k \<noteq> None)
    \<and> map_inv c' \<and> cfg c' = cfg c
    \<and> lru c' = (case map_of (lru c) k of Some (w, v) \<Rightarrow> (k, w, v) # others k (lru c) | None \<Rightarrow> lru c)"
  by (rule Get_spec [OF assms])

lemma Peek_spec:
  fixes c :: "('v :: zero) mapCache"
  assumes "map_inv c"
  shows "\<exists>c'. mapCache_Peek k c = Inr (c', case map_of (lru c) k of Some (w, v) \<Rightarrow> v | None \<Rightarrow> 0, map_of (lru c) k \<noteq> None)
    \<and> map_inv c' \<and> cfg c' = cfg c \<and> lru c' = lru c"
proof (cases "map_of (m_index c) k")
  case None
  define c1 where "c1 = onPs (\<lambda>p. p\<lparr>peekMisses := peekMisses p + 1\<rparr>) c"
  have "map_inv c1 \<and> lru c1 = lru c" unfolding c1_def by (rule inv_onPs [OF assms]) simp_all
  then show ?thesis
    using None lookup_item(2) [OF assms None]
    by (simp add: mapCache_Peek_def c1_def [symmetric] unlock_ok) (simp add: c1_def cfg_def)
next
  case (Some e)
  define c1 where "c1 = onPs (\<lambda>p. p\<lparr>peekHits := peekHits p + 1\<rparr>) c"
  have "map_inv c1 \<and> lru c1 = lru c" unfolding c1_def by (rule inv_onPs [OF assms]) simp_all
  then show ?thesis
    using Some lookup_item(1) [OF assms Some]
    by (simp add: mapCache_Peek_def c1_def [symmetric] unlock_ok) (simp add: c1_def cfg_def)
qed

text \<open>
  \<open>Peek\<close> returns what \<open>Get\<close> would, without touching the recency order.
\<close>
theorem mapCache_Peek_ok:
  fixes c :: "('v :: zero) mapCache"
  assumes "map_inv c"
  shows "\<exists>c'. mapCache_Peek k c = Inr (c', case map_of (lru c) k of Some (w, v) \<Rightarrow> v | None \<Rightarrow> 0, map_of (lru c) k \<noteq> None)
    \<and> map_inv c' \<and> cfg c' = cfg c \<and> lru c' = lru c"
  by (rule Peek_spec [OF assms])


subsection \<open>Delete\<close>

lemma reclaim_result:
  fixes c :: "('v :: zero) mapCache"
  assumes m: "mid W 0 0 0 0 c as" and W: "\<And>a. a \<in> set as \<Longrightarrow> W a = esize (m_heap c a)" and q: "queue_wf q"
    and r: "reclaims x None (c, q) as gs (c', q') as'" and m': "mid W 0 0 0 0 c' as'"
  shows "map_inv c'" "cfg c' = cfg c" "reclaimed (hot x c) (ents (m_heap c) as) (ents (m_heap c) gs) (lru c')"
    "queue_wf q'" "queue_events q' = queue_events q @ (if hasEvictCB c then map (event_of EvictionReasonPressure) (ents (m_heap c) gs) else [])"
proof -
  have sh: "sheds (c, q) as (map (\<lambda>a. (a, EvictionReasonPressure)) gs) (c', q') as'"
    and cold: "\<not> hot x c \<longrightarrow> gs = []"
    using r by (auto simp: reclaims_def hot_def)
  have sub: "as' = filter (\<lambda>a. a \<notin> set gs) as"
    and pay: "\<And>a. a \<in> set as' \<Longrightarrow> payload (m_heap c' a) = payload (m_heap c a)" and cfg: "cfg c' = cfg c"
    using sh by (auto simp: sheds_def image_image comp_def)
  show "cfg c' = cfg c" by (rule cfg)
  show "map_inv c'"
    by (rule map_invI [OF m']) (use pay sub W in \<open>auto simp: payload_simps\<close>)
  show "reclaimed (hot x c) (ents (m_heap c) as) (ents (m_heap c) gs) (lru c')"
    using sheds_ents [OF m sh] cold lru_ents [OF m'] by (auto simp: reclaimed_def)
  show "queue_wf q'" "queue_events q' = queue_events q @ (if hasEvictCB c then map (event_of EvictionReasonPressure) (ents (m_heap c) gs) else [])"
    using sheds_events [OF sh q] by simp_all
qed

lemma delete_tail:
  fixes c :: "('v :: zero) mapCache"
  assumes m: "mid W 0 0 0 0 c as" and W: "\<And>a. a \<in> set as \<Longrightarrow> W a = esize (m_heap c a)" and q: "queue_wf q"
  shows "\<exists>c' q' gp. mapCache_finishDeleteReclaimLocked sb se x (c, q) = Inr (c', q')
    \<and> map_inv c' \<and> cfg c' = cfg c \<and> reclaimed (hot x c) (ents (m_heap c) as) gp (lru c')
    \<and> queue_wf q' \<and> queue_events q' = queue_events q @ (if hasEvictCB c then map (event_of EvictionReasonPressure) gp else [])"
proof -
  obtain c' q' as' gs where f: "mapCache_finishDeleteReclaimLocked sb se x (c, q) = Inr (c', q')"
    "mid W 0 0 0 0 c' as'" "reclaims x None (c, q) as gs (c', q') as'"
    using finishDelete_spec [OF m W] by blast
  show ?thesis using f(1) reclaim_result [OF m W q f(3,2)] by blast
qed

lemma mid_deleteDeleted:
  assumes "mid W d (dd + 1) rr ss c as" "0 \<le> dd"
  shows "mid W d dd rr ss (onPs (\<lambda>p. p\<lparr>deleteDeleted := deleteDeleted p + 1\<rparr>) c) as"
proof (rule mid_onPs [OF assms(1)])
  fix n z
  assume "ps_ok (m_ps c) n z (dd + 1) rr ss"
  then show "ps_ok ((m_ps c)\<lparr>deleteDeleted := deleteDeleted (m_ps c) + 1\<rparr>) n z dd rr ss"
    using ps_ok_deleteDeleted [of "m_ps c" n z "dd + 1" rr ss] assms(2) by simp
qed

lemma Delete_spec:
  fixes c :: "('v :: zero) mapCache"
  assumes inv: "map_inv c"
  shows "\<exists>c' gp. mapCache_Delete env k c = Inr (c', case map_of (lru c) k of Some (w, v) \<Rightarrow> v | None \<Rightarrow> 0,
        map_of (lru c) k \<noteq> None,
        calls c (map (event_of EvictionReasonDeleted) (filter (\<lambda>x. entry_key x = k) (lru c))
          @ map (event_of EvictionReasonPressure) gp))
    \<and> map_inv c' \<and> cfg c' = cfg c
    \<and> reclaimed (hot (lockPressure env False c) c \<and> map_of (lru c) k \<noteq> None) (others k (lru c)) gp (lru c')"
proof -
  obtain c0 se x where lk: "lockMapCache env False c = (c0, se, x)" by (metis prod_cases3)
  note l = lock_props [OF inv lk]
  let ?W = "weights (m_heap c0)" and ?as = "addrs c" and ?q = "newEvictQueue True :: 'v evictCallbackQueue"
  have lru0: "ents (m_heap c0) ?as = lru c" using lru_ents [OF l(1)] l(2) by simp
  have inv0: "map_inv c0" using l(1) mid_addrs [OF l(1)] by (simp add: map_inv_def)
  have cfg0: "hasEvictCB c0 = hasEvictCB c" "hot x c0 = hot (lockPressure env False c) c"
    using cfg_simps [OF l(3)] lk by (auto simp: hot_def lockPressure_def)
  show ?thesis
  proof (cases "map_of (m_index c) k")
    case None
    define c1 where "c1 = onPs (\<lambda>p. p\<lparr>deleteNotFound := deleteNotFound p + 1\<rparr>) c0"
    have c1: "map_inv c1 \<and> lru c1 = lru c0" unfolding c1_def by (rule inv_onPs [OF inv0]) simp_all
    have cfg1: "cfg c1 = cfg c" using l(3) by (simp add: c1_def cfg_def)
    have k: "others k (lru c) = lru c" "filter (\<lambda>x. entry_key x = k) (lru c) = []"
      using others_absent [OF l(1)] None l(4) lru0 by auto
    have "mapCache_Delete env k c = Inr (c1, 0, False, [])"
      using None l(4) c1 unlock_ok [of c1]
      by (simp add: mapCache_Delete_def lk mapCache_eraseInternal_def c1_def [symmetric])
    then show ?thesis
      using c1 cfg1 k l(2) lookup_item(2) [OF inv None]
      by (intro exI [of _ c1] exI [of _ "[]"]) (simp add: calls_def deliveries_def reclaimed_def)
  next
    case (Some e)
    then have e: "e \<in> set ?as" and k: "ekey (m_heap c0 e) = k" using mid_lookup [OF l(1)] l(4) by auto
    obtain c1 q1 v where er: "mapCache_eraseEntryLocked e EvictionReasonDeleted (c0, ?q) = ((c1, q1), v)"
      by (metis prod_cases3 surj_pair)
    note em = erase_mid [OF l(1) e _ _ _ er]
    define c2 where "c2 = onPs (\<lambda>p. p\<lparr>deleteDeleted := deleteDeleted p + 1\<rparr>) c1"
    have We: "?W e = esize (m_heap c0 e)" by (simp add: weights_def)
    have le: "unat (?W e) + 0 \<le> weight_sum (map ?W ?as)"
      using weight_sum_remove [OF mid_distinct [OF l(1)] e, of ?W] by simp
    have ev: "evicting EvictionReasonDeleted" by (simp add: evicting_def)
    note em = em [OF We le ev]
    have m1: "mid ?W 0 1 0 0 c1 (remove1 e ?as)" and v: "v = evalue (m_heap c0 e)"
      and sh: "sheds (c0, ?q) ?as (map (\<lambda>a. (a, EvictionReasonDeleted)) [e]) (c1, q1) (remove1 e ?as)"
      using em(1-3) by simp_all
    have m2: "mid ?W 0 0 0 0 c2 (remove1 e ?as)" unfolding c2_def by (rule mid_deleteDeleted) (use m1 in auto)
    have pay: "payload (m_heap c2 a) = payload (m_heap c0 a)" if "a \<in> set (remove1 e ?as)" for a
      using em(6) [of a] that mid_distinct [OF l(1)] by (simp add: c2_def)
    have W2: "?W a = esize (m_heap c2 a)" if "a \<in> set (remove1 e ?as)" for a
      using pay [OF that] by (simp add: weights_def payload_simps)
    have q1: "queue_wf q1" "queue_events q1 = (if hasEvictCB c0 then [event_of EvictionReasonDeleted (payload (m_heap c0 e))] else [])"
      using sheds_events [OF sh] by (simp_all add: entry_event_def event_of_def)
    have cfg2: "cfg c2 = cfg c" using sh l(3) by (simp add: c2_def sheds_def cfg_def)
    obtain c3 q3 gp where t: "mapCache_finishDeleteReclaimLocked (m_currentSize c0) se x (c2, q1) = Inr (c3, q3)"
      "map_inv c3" "cfg c3 = cfg c2" "reclaimed (hot x c2) (ents (m_heap c2) (remove1 e ?as)) gp (lru c3)"
      "queue_wf q3" "queue_events q3 = queue_events q1 @ (if hasEvictCB c2 then map (event_of EvictionReasonPressure) gp else [])"
      using delete_tail [OF m2 W2 q1(1)] by blast
    have hx: "hot x c2 = hot (lockPressure env False c) c" "hasEvictCB c2 = hasEvictCB c"
      using cfg_simps [OF cfg2] lk by (auto simp: hot_def lockPressure_def)
    have oth: "ents (m_heap c2) (remove1 e ?as) = others k (lru c)"
      "filter (\<lambda>x. entry_key x = k) (lru c) = [payload (m_heap c0 e)]"
      using others_ents [OF l(1) e] ents_cong [OF pay] lru0 k by simp_all
    have "invokeCallbacks c3 q3 = calls c (map (event_of EvictionReasonDeleted) (filter (\<lambda>x. entry_key x = k) (lru c))
          @ map (event_of EvictionReasonPressure) gp)"
      by (rule invoke_calls [OF t(5)]) (use t(3,6) q1(2) cfg0 hx cfg2 oth in auto)
    moreover have "mapCache_Delete env k c = Inr (c3, v, True, invokeCallbacks c3 q3)"
      using Some l(4) er t(1) unlock_ok [OF t(2)]
      by (simp add: mapCache_Delete_def lk mapCache_eraseInternal_def c2_def [symmetric])
    ultimately show ?thesis
      using t(2,3,4) cfg2 hx oth v lookup_item(1) [OF inv Some] l(6)
      by (intro exI [of _ c3] exI [of _ gp]) simp
  qed
qed

text \<open>
  C8. \<open>Delete\<close> of a key that is present removes exactly its entry, returns its value and reports it to
  the callbacks as deleted; what remains may be shed only when the pressure reading is over the eviction
  threshold. \<open>Delete\<close> of an absent key changes nothing.
\<close>
theorem mapCache_Delete_ok:
  fixes c :: "('v :: zero) mapCache"
  assumes inv: "map_inv c"
  shows "\<exists>c' gp. mapCache_Delete env k c = Inr (c', case map_of (lru c) k of Some (w, v) \<Rightarrow> v | None \<Rightarrow> 0,
        map_of (lru c) k \<noteq> None,
        calls c (map (event_of EvictionReasonDeleted) (filter (\<lambda>x. entry_key x = k) (lru c))
          @ map (event_of EvictionReasonPressure) gp))
    \<and> map_inv c' \<and> cfg c' = cfg c
    \<and> reclaimed (hot (lockPressure env False c) c \<and> map_of (lru c) k \<noteq> None) (others k (lru c)) gp (lru c')"
  by (rule Delete_spec [OF assms])

theorem mapCache_Get_ok_witness:
  "\<exists>c'. mapCache_Get ''a'' sampleOne = Inr (c', 2, True) \<and> lru c' = [(''a'', 2, 2)]"
  using mapCache_Get_ok [OF sampleOne_ok(1), of "''a''"] by (auto simp: sampleOne_ok others_def)

theorem mapCache_Peek_ok_witness:
  "\<exists>c'. mapCache_Peek ''b'' sampleOne = Inr (c', 0, False) \<and> lru c' = [(''a'', 2, 2)]"
  using mapCache_Peek_ok [OF sampleOne_ok(1), of "''b''"] by (auto simp: sampleOne_ok)

theorem mapCache_Delete_ok_witness:
  "\<exists>c' cbs. mapCache_Delete sampleEnv ''a'' sampleOne = Inr (c', 2, True, cbs) \<and> map_inv c' \<and> lru c' = []"
  using mapCache_Delete_ok [OF sampleOne_ok(1), of sampleEnv "''a''"]
  by (auto simp: sampleOne_ok others_def reclaimed_def)

end
