(* ===== verification/MapIter.thy ===== *)
theory MapIter
  imports MapLookup
begin

text \<open>
  Iteration, statistics, compaction and the explicit evaluation of memory pressure on the map backend.
\<close>

subsection \<open>Iteration\<close>

lemma iterateLoop_spec:
  assumes "lseg h p as None"
  shows "\<exists>n b. iterateLoop h yld (first as None) acc = Some (acc @ take n (map (\<lambda>a. (ekey (h a), evalue (h a))) as), b)
    \<and> n \<le> length as
    \<and> (\<forall>i. 0 < i \<longrightarrow> i < n \<longrightarrow> yld (acc @ take i (map (\<lambda>a. (ekey (h a), evalue (h a))) as)))
    \<and> (if b then n = length as \<and> (0 < n \<longrightarrow> yld (acc @ take n (map (\<lambda>a. (ekey (h a), evalue (h a))) as)))
       else 0 < n \<and> \<not> yld (acc @ take n (map (\<lambda>a. (ekey (h a), evalue (h a))) as)))"
  using assms
proof (induction as arbitrary: p acc)
  case Nil
  show ?case by (intro exI [of _ 0] exI [of _ True]) (simp add: iterateLoop.simps)
next
  case (Cons a as)
  let ?f = "\<lambda>a. (ekey (h a), evalue (h a))"
  have nx: "next (h a) = first as None" and ls: "lseg h (Some a) as None" using Cons.prems by simp_all
  show ?case
  proof (cases "yld (acc @ [?f a])")
    case False
    then show ?thesis
      by (intro exI [of _ 1] exI [of _ False]) (simp add: iterateLoop.simps [of h yld "Some a"] Let_def)
  next
    case True
    obtain n b where ih: "iterateLoop h yld (first as None) (acc @ [?f a]) = Some ((acc @ [?f a]) @ take n (map ?f as), b)"
      "n \<le> length as" "\<forall>i. 0 < i \<longrightarrow> i < n \<longrightarrow> yld ((acc @ [?f a]) @ take i (map ?f as))"
      "if b then n = length as \<and> (0 < n \<longrightarrow> yld ((acc @ [?f a]) @ take n (map ?f as)))
       else 0 < n \<and> \<not> yld ((acc @ [?f a]) @ take n (map ?f as))"
      using Cons.IH [OF ls, of "acc @ [?f a]"] by blast
    have "yld (acc @ take i (map ?f (a # as)))" if "0 < i" "i < Suc n" for i
      using ih(3) True that by (cases "i - 1") (auto simp: take_Cons')
    moreover have "iterateLoop h yld (first (a # as) None) acc = Some (acc @ take (Suc n) (map ?f (a # as)), b)"
      using True ih(1) by (simp add: iterateLoop.simps [of h yld "Some a"] Let_def nx)
    ultimately show ?thesis
      using ih(2,4) True by (intro exI [of _ "Suc n"] exI [of _ b]) (auto split: if_splits)
  qed
qed

abbreviation pairs :: "'v item list \<Rightarrow> (string \<times> 'v) list" where
  "pairs xs \<equiv> map (\<lambda>x. (entry_key x, entry_value x)) xs"

lemma iterateAll_spec:
  fixes c :: "('v :: zero) mapCache"
  assumes "map_inv c"
  shows "\<exists>n b. mapCache_iterateAll yld c = Inr (take n (pairs (lru c)), b) \<and> n \<le> length (lru c)
    \<and> (\<forall>i. 0 < i \<longrightarrow> i < n \<longrightarrow> yld (take i (pairs (lru c))))
    \<and> (if b then n = length (lru c) \<and> (0 < n \<longrightarrow> yld (pairs (lru c))) else 0 < n \<and> \<not> yld (take n (pairs (lru c))))"
proof -
  note m = map_inv_mid [OF assms]
  have ls: "lseg (m_heap c) None (addrs c) None" using m by (simp add: mid_def map_repr_def dll_def)
  have p: "map (\<lambda>a. (ekey (m_heap c a), evalue (m_heap c a))) (addrs c) = pairs (lru c)"
    by (simp add: lru_def comp_def)
  have len: "length (addrs c) = length (lru c)" by (simp add: lru_def)
  obtain n b where it: "iterateLoop (m_heap c) yld (first (addrs c) None) [] = Some (take n (pairs (lru c)), b)"
    "n \<le> length (lru c)" "\<forall>i. 0 < i \<longrightarrow> i < n \<longrightarrow> yld (take i (pairs (lru c)))"
    "if b then n = length (lru c) \<and> (0 < n \<longrightarrow> yld (take n (pairs (lru c)))) else 0 < n \<and> \<not> yld (take n (pairs (lru c)))"
    using iterateLoop_spec [OF ls, where yld = yld and acc = "[]"] unfolding p len append_Nil by blast
  have "mapCache_iterateAll yld c = Inr (take n (pairs (lru c)), b)"
    using it(1) unlock_ok [OF assms] mid_Front [OF m] by (simp add: mapCache_iterateAll_def)
  then show ?thesis using it(2-4) by (intro exI [of _ n] exI [of _ b]) (auto split: if_splits)
qed

text \<open>
  C10. Iteration over a cache hands the entries to the consumer from the most to the least recently used,
  stops right after the first one the consumer refuses, and reports whether it reached the end. It
  terminates, and it changes nothing.
\<close>
theorem mapCache_iterateAll_ok:
  fixes c :: "('v :: zero) mapCache"
  assumes "map_inv c"
  shows "\<exists>n b. mapCache_iterateAll yld c = Inr (take n (pairs (lru c)), b) \<and> n \<le> length (lru c)
    \<and> (\<forall>i. 0 < i \<longrightarrow> i < n \<longrightarrow> yld (take i (pairs (lru c))))
    \<and> (if b then n = length (lru c) \<and> (0 < n \<longrightarrow> yld (pairs (lru c))) else 0 < n \<and> \<not> yld (take n (pairs (lru c))))"
  by (rule iterateAll_spec [OF assms])

lemma iterateAll_full:
  fixes c :: "('v :: zero) mapCache"
  assumes "map_inv c"
  shows "mapCache_iterateAll (\<lambda>_. True) c = Inr (pairs (lru c), True)"
  using iterateLoop_spec [of "m_heap c" None "addrs c" "\<lambda>_. True" "[]"] map_inv_mid [OF assms] unlock_ok [OF assms]
    mid_Front [OF map_inv_mid [OF assms]]
  by (auto simp: mapCache_iterateAll_def mid_def map_repr_def dll_def lru_def comp_def split: if_splits)

subsection \<open>Compaction\<close>

lemma Compact_spec:
  fixes c :: "('v :: zero) mapCache"
  assumes "map_inv c"
  shows "\<exists>c'. mapCache_Compact c = Inr c' \<and> map_inv c' \<and> lru c' = lru c \<and> cfg c' = cfg c
    \<and> m_currentSize c' = m_currentSize c"
proof -
  define c' where "c' = mapCache_compactLocked c"
  have m: "mid (weights (m_heap c)) 0 0 0 0 c' (addrs c)" and q: "quiet c c'"
    using compactLocked_spec [OF map_inv_mid [OF assms]] by (simp_all add: c'_def)
  have h: "m_heap c' = m_heap c" "addrs c' = addrs c"
    using q mid_addrs [OF m] by (simp_all add: quiet_def)
  then have inv: "map_inv c'" "lru c' = lru c" using m by (simp_all add: map_inv_def lru_def)
  then show ?thesis
    using q unlock_ok [OF inv(1)] by (simp add: mapCache_Compact_def c'_def [symmetric] quiet_def)
qed

text \<open>
  \<open>Compact\<close> releases memory only: it keeps every entry, its weight, value and place in the recency
  order, the size and the configuration, and it always succeeds.
\<close>
theorem mapCache_Compact_ok:
  fixes c :: "('v :: zero) mapCache"
  assumes "map_inv c"
  shows "\<exists>c'. mapCache_Compact c = Inr c' \<and> map_inv c' \<and> lru c' = lru c \<and> cfg c' = cfg c
    \<and> m_currentSize c' = m_currentSize c"
  by (rule Compact_spec [OF assms])

subsection \<open>Evaluating memory pressure\<close>

definition shardPressure :: "samplingEnv \<Rightarrow> bool \<Rightarrow> shardSample \<Rightarrow> 'v mapCache \<Rightarrow> float64" where
  "shardPressure env fresh sample c = h_pressure (snd (snd (lockShardWithSample env fresh sample (m_ps c))))"

lemma maybeReclaim_target:
  fixes c :: "('v :: zero) mapCache"
  assumes m: "mid (weights (m_heap c)) 0 0 0 0 c as"
    and r: "mapCache_maybeReclaimUnderPressureLocked x None bg (c, q) = Inr ((c', q'), vs)"
    and h: "hot x c" "\<not> isSamplingGoroutine (m_ps c)" and ret: "fle (Fin 0) (EvictionRetentionRatio (options (m_ps c)))"
  shows "m_currentSize c' \<le> tier2TargetSize (m_ps c) (m_maxSize c)"
proof -
  let ?ret = "EvictionRetentionRatio (options (m_ps c))" and ?t = "tier2TargetSize (m_ps c) (m_maxSize c)"
  have W: "\<And>a. a \<in> set as \<Longrightarrow> weights (m_heap c) a = esize (m_heap c a)" by (simp add: weights_def)
  have eq: "mapCache_shedAndCompactLocked ?t ?ret None bg (c, q) = Inr ((c', q'), vs)"
    using r h by (simp add: mapCache_maybeReclaimUnderPressureLocked_def hot_def)
  obtain as' where s: "mid (weights (m_heap c)) 0 0 0 0 c' as'"
    "flt (Fin 0) ?ret \<longrightarrow> m_currentSize c' \<le> max ?t 0" "feq ?ret (Fin 0) \<longrightarrow> as' = []"
    using shedAndCompact_spec [OF m W, where t = ?t and ret = ?ret and prot = None and bg = bg and q = q] eq by auto
  show ?thesis
  proof (cases "flt (Fin 0) ?ret")
    case True
    then show ?thesis using s(2) by (simp add: max_def)
  next
    case False
    then have "feq ?ret (Fin 0)" using ret by (cases ?ret) (auto simp: fle_def)
    then show ?thesis using s(1,3) by (simp add: mid_def unat_eq_0)
  qed
qed

lemma lockShard_props:
  fixes c :: "'v mapCache"
  assumes inv: "map_inv c" and lk: "lockShardWithSample env fresh h (m_ps c) = (p, se, out)" and v: "valid_pressure (h_pressure h)"
  defines "c' \<equiv> c\<lparr>m_ps := p\<rparr>"
  shows "mid (weights (m_heap c')) 0 0 0 0 c' (addrs c)" "lru c' = lru c" "cfg c' = cfg c" "m_heap c' = m_heap c"
    "options p = options (m_ps c)" "valid_pressure (h_pressure out)"
proof -
  have m: "mid (weights (m_heap c)) 0 0 0 0 c (addrs c)" by (rule map_inv_mid [OF inv])
  then have s: "sampling_ok (m_ps c)" by (simp add: mid_def ps_ok_def)
  have sp: "sampled (m_ps c) p" using lockShardWithSample_ok [OF lk s v] by simp
  show "valid_pressure (h_pressure out)" using lockShardWithSample_ok [OF lk s v] by simp
  have o: "onPs (\<lambda>_. p) c = c'" by (simp add: onPs_def c'_def)
  have "mid (weights (m_heap c)) 0 0 0 0 (onPs (\<lambda>_. p) c) (addrs c)"
    by (rule mid_onPs [OF m]) (use ps_ok_sampled [OF sp] in blast)
  then show m': "mid (weights (m_heap c')) 0 0 0 0 c' (addrs c)" unfolding o by (simp add: c'_def)
  show "m_heap c' = m_heap c" by (simp add: c'_def)
  then show "lru c' = lru c" using lru_ents [OF m'] lru_ents [OF m] by simp
  show "options p = options (m_ps c)" by (rule sampled_options [OF sp])
  then show "cfg c' = cfg c" by (simp add: c'_def cfg_def)
qed

lemma advanceSelf_pressure [simp]: "h_pressure (advanceSelfReclaim a b h) = h_pressure h"
  by (simp add: advanceSelfReclaim_def)

lemma evaluateShard_spec:
  fixes c :: "('v :: zero) mapCache" and env :: samplingEnv
  assumes inv: "map_inv c" and v: "valid_pressure (h_pressure h)" and q: "queue_wf q"
  defines "x \<equiv> shardPressure env True h c"
  shows "\<exists>c' q' gp out. mapCache_evaluateShardPressure env h (c, q) = Inr ((c', q'), map (\<lambda>y. entry_value y) gp, out)
    \<and> map_inv c' \<and> cfg c' = cfg c \<and> reclaimed (hot x c) (lru c) gp (lru c') \<and> queue_wf q'
    \<and> valid_pressure (h_pressure out)
    \<and> queue_events q' = queue_events q @ (if hasEvictCB c then map (event_of EvictionReasonPressure) gp else [])
    \<and> (hot x c \<longrightarrow> \<not> isSamplingGoroutine (fst (lockShardWithSample env True h (m_ps c)))
        \<longrightarrow> fle (Fin 0) (EvictionRetentionRatio (options (m_ps c)))
        \<longrightarrow> m_currentSize c' \<le> tier2TargetSize (m_ps c) (m_maxSize c))
    \<and> (fle (Fin 0) (EvictionRetentionRatio (options (m_ps c))) \<longrightarrow> gp = (if hot x c \<and> \<not> isSamplingGoroutine (fst (lockShardWithSample env True h (m_ps c)))
             then shedPlan (\<lambda>y. entry_weight y) (fst (lockShardWithSample env True h (m_ps c)))
                    (tier2TargetSize (m_ps c) (m_maxSize c)) (EvictionRetentionRatio (options (m_ps c))) (lru c) else []))"
proof -
  obtain p se out where lk: "lockShardWithSample env True h (m_ps c) = (p, se, out)" by (metis prod_cases3)
  define c1 where "c1 = c\<lparr>m_ps := p\<rparr>"
  note l = lockShard_props [OF inv lk v, folded c1_def]
  have x: "x = h_pressure out" by (simp add: x_def shardPressure_def lk)
  have W: "\<And>a. a \<in> set (addrs c) \<Longrightarrow> weights (m_heap c1) a = esize (m_heap c1 a)" by (simp add: weights_def)
  obtain c2 q2 as2 gs where r: "mapCache_maybeReclaimUnderPressureLocked x None True (c1, q)
      = Inr ((c2, q2), map (\<lambda>a. evalue (m_heap c1 a)) gs)" "mid (weights (m_heap c1)) 0 0 0 0 c2 as2"
      "reclaims x None (c1, q) (addrs c) gs (c2, q2) as2"
      "None = None \<longrightarrow> fle (Fin 0) (EvictionRetentionRatio (options (m_ps c1))) \<longrightarrow>
       gs = (if fge x (EvictionThreshold (options (m_ps c1))) \<and> \<not> isSamplingGoroutine (m_ps c1)
             then shedPlan (weights (m_heap c1)) (m_ps c1) (tier2TargetSize (m_ps c1) (m_maxSize c1))
                    (EvictionRetentionRatio (options (m_ps c1))) (addrs c) else [])"
    using maybeReclaim_spec [OF l(1) W] by blast
  note rr = reclaim_result [OF l(1) W q r(3,2)]
  have c1: "hot x c1 = hot x c" "hasEvictCB c1 = hasEvictCB c" "tier2TargetSize (m_ps c1) (m_maxSize c1) = tier2TargetSize (m_ps c) (m_maxSize c)"
    "EvictionRetentionRatio (options (m_ps c1)) = EvictionRetentionRatio (options (m_ps c))"
    using cfg_simps [OF l(3)] by (auto simp: hot_def tier2TargetSize_def)
  have p1: "isSamplingGoroutine (m_ps c1) = isSamplingGoroutine (fst (lockShardWithSample env True h (m_ps c)))"
    by (simp add: c1_def lk)
  have "mapCache_evaluateShardPressure env h (c, q)
      = Inr ((c2, q2), map (\<lambda>y. entry_value y) (ents (m_heap c1) gs), advanceSelfReclaim (ownReclaimEpoch (m_ps c2)) se out)"
    using r(1) unlock_ok [OF rr(1)] by (simp add: mapCache_evaluateShardPressure_def lk c1_def [symmetric] x)
  moreover have en: "ents (m_heap c1) (addrs c) = lru c" using lru_ents [OF l(1)] l(2) by simp
  moreover have w: "weights (m_heap c1) = (\<lambda>a. entry_weight (payload (m_heap c1 a)))" by (simp add: weights_def fun_eq_iff)
  have "ents (m_heap c1) (shedPlan (weights (m_heap c1)) p t r (addrs c)) = shedPlan (\<lambda>y. entry_weight y) p t r (lru c)" for p t r
    unfolding en [symmetric] ents_def by (simp only: shedPlan_map w)
  then have "fle (Fin 0) (EvictionRetentionRatio (options (m_ps c))) \<longrightarrow> ents (m_heap c1) gs = (if hot x c \<and> \<not> isSamplingGoroutine p
      then shedPlan (\<lambda>y. entry_weight y) p (tier2TargetSize (m_ps c) (m_maxSize c)) (EvictionRetentionRatio (options (m_ps c))) (lru c) else [])"
    using r(4) c1(3,4) l(5) by (auto simp: c1_def hot_def)
  then have "fle (Fin 0) (EvictionRetentionRatio (options (m_ps c))) \<longrightarrow> ents (m_heap c1) gs = (if hot x c \<and> \<not> isSamplingGoroutine (fst (lockShardWithSample env True h (m_ps c)))
             then shedPlan (\<lambda>y. entry_weight y) (fst (lockShardWithSample env True h (m_ps c)))
                    (tier2TargetSize (m_ps c) (m_maxSize c)) (EvictionRetentionRatio (options (m_ps c))) (lru c) else [])"
    by (simp only: lk fst_conv)
  ultimately show ?thesis
    using rr l(3,6) c1 p1 maybeReclaim_target [OF l(1) r(1)]
    by (intro exI [of _ c2] exI [of _ q2] exI [of _ "ents (m_heap c1) gs"]
      exI [of _ "advanceSelfReclaim (ownReclaimEpoch (m_ps c2)) se out"] conjI impI) (simp_all del: if_split)
qed

lemma EvaluateMemoryPressure_spec:
  fixes c :: "('v :: zero) mapCache"
  assumes inv: "map_inv c" and ret: "fle (Fin 0) (EvictionRetentionRatio (options (m_ps c)))"
  shows "\<exists>c' gp. mapCache_EvaluateMemoryPressure env c
      = Inr (c', map (\<lambda>y. entry_value y) gp, calls c (map (event_of EvictionReasonPressure) gp))
    \<and> map_inv c' \<and> cfg c' = cfg c
    \<and> reclaimed (hot (shardPressure env True emptyShardSample c) c) (lru c) gp (lru c')
    \<and> (hot (shardPressure env True emptyShardSample c) c
        \<longrightarrow> \<not> isSamplingGoroutine (fst (lockShardWithSample env True emptyShardSample (m_ps c)))
        \<longrightarrow> m_currentSize c' \<le> tier2TargetSize (m_ps c) (m_maxSize c))
    \<and> gp = (if hot (shardPressure env True emptyShardSample c) c \<and> \<not> isSamplingGoroutine (fst (lockShardWithSample env True emptyShardSample (m_ps c)))
             then shedPlan (\<lambda>y. entry_weight y) (fst (lockShardWithSample env True emptyShardSample (m_ps c)))
                    (tier2TargetSize (m_ps c) (m_maxSize c)) (EvictionRetentionRatio (options (m_ps c))) (lru c) else [])"
proof -
  obtain c' q' gp out where e: "mapCache_evaluateShardPressure env emptyShardSample (c, newEvictQueue True)
      = Inr ((c', q'), map (\<lambda>y. entry_value y) gp, out)"
    "map_inv c'" "cfg c' = cfg c" "reclaimed (hot (shardPressure env True emptyShardSample c) c) (lru c) gp (lru c')"
    "queue_wf q'" "queue_events q' = queue_events (newEvictQueue True) @ (if hasEvictCB c then map (event_of EvictionReasonPressure) gp else [])"
    "hot (shardPressure env True emptyShardSample c) c
        \<longrightarrow> \<not> isSamplingGoroutine (fst (lockShardWithSample env True emptyShardSample (m_ps c)))
        \<longrightarrow> m_currentSize c' \<le> tier2TargetSize (m_ps c) (m_maxSize c)"
    "fle (Fin 0) (EvictionRetentionRatio (options (m_ps c))) \<longrightarrow> gp = (if hot (shardPressure env True emptyShardSample c) c \<and> \<not> isSamplingGoroutine (fst (lockShardWithSample env True emptyShardSample (m_ps c)))
             then shedPlan (\<lambda>y. entry_weight y) (fst (lockShardWithSample env True emptyShardSample (m_ps c)))
                    (tier2TargetSize (m_ps c) (m_maxSize c)) (EvictionRetentionRatio (options (m_ps c))) (lru c) else [])"
    using evaluateShard_spec [OF inv, of emptyShardSample "newEvictQueue True" env] ret
    by (auto simp: emptyShardSample_def)
  have "invokeCallbacks c' q' = calls c (map (event_of EvictionReasonPressure) gp)"
    by (rule invoke_calls [OF e(5) _ e(3)]) (use e(6) in simp)
  then show ?thesis
    using e ret by (intro exI [of _ c'] exI [of _ gp]) (simp add: mapCache_EvaluateMemoryPressure_def del: if_split)
qed

lemma lru_distinct:
  assumes "map_inv c"
  shows "distinct (lru c)"
  using payload_inj [OF map_inv_mid [OF assms]] mid_distinct [OF map_inv_mid [OF assms]] by (simp add: lru_def distinct_map)

text \<open>
  C6. \<open>EvaluateMemoryPressure\<close> takes a fresh reading and sheds nothing below the eviction threshold, nor when
  the caller is itself the running pressure probe. Over the threshold it sheds exactly the entries of
  \<open>shedPlan\<close>: the whole cache when the retention ratio is zero; otherwise, going from the least recently used
  entry on, those that help towards the target, and no entry once the target is met, that is, once the
  weights are within the target size and the weightless entries, or all entries, are within the retained
  share (or what the last shed left). The values of the shed entries are returned in that order and
  reported to the callbacks, the survivors keep their order, their weights are within the target size, and
  the invariant holds.
\<close>
theorem mapCache_EvaluateMemoryPressure_ok:
  fixes c :: "('v :: zero) mapCache"
  assumes inv: "map_inv c" and ret: "fle (Fin 0) (EvictionRetentionRatio (options (m_ps c)))"
  shows "\<exists>c' gp p. p = fst (lockShardWithSample env True emptyShardSample (m_ps c))
    \<and> mapCache_EvaluateMemoryPressure env c
      = Inr (c', map (\<lambda>y. entry_value y) gp, calls c (map (event_of EvictionReasonPressure) gp))
    \<and> map_inv c' \<and> cfg c' = cfg c
    \<and> reclaimed (hot (shardPressure env True emptyShardSample c) c) (lru c) gp (lru c')
    \<and> gp = (if hot (shardPressure env True emptyShardSample c) c \<and> \<not> isSamplingGoroutine p
            then shedPlan (\<lambda>y. entry_weight y) p (tier2TargetSize (m_ps c) (m_maxSize c))
                   (EvictionRetentionRatio (options (m_ps c))) (lru c) else [])
    \<and> (\<forall>ys y zs. gp = ys @ y # zs \<longrightarrow> \<not> feq (EvictionRetentionRatio (options (m_ps c))) (Fin 0) \<longrightarrow>
        \<not> shedDone (\<lambda>y. entry_weight y) (unat (tier2TargetSize (m_ps c) (m_maxSize c)))
            (zerosKept (\<lambda>y. entry_weight y) p (EvictionRetentionRatio (options (m_ps c))) (lru c))
            (lenKept (\<lambda>y. entry_weight y) p (EvictionRetentionRatio (options (m_ps c))) (lru c))
            (filter (\<lambda>x. x \<notin> set ys) (lru c)))
    \<and> (hot (shardPressure env True emptyShardSample c) c \<longrightarrow> \<not> isSamplingGoroutine p
        \<longrightarrow> m_currentSize c' \<le> tier2TargetSize (m_ps c) (m_maxSize c))"
proof -
  let ?p = "fst (lockShardWithSample env True emptyShardSample (m_ps c))"
  let ?t = "tier2TargetSize (m_ps c) (m_maxSize c)" and ?r = "EvictionRetentionRatio (options (m_ps c))"
  obtain c' gp where e: "mapCache_EvaluateMemoryPressure env c
      = Inr (c', map (\<lambda>y. entry_value y) gp, calls c (map (event_of EvictionReasonPressure) gp))"
    "map_inv c'" "cfg c' = cfg c" "reclaimed (hot (shardPressure env True emptyShardSample c) c) (lru c) gp (lru c')"
    "hot (shardPressure env True emptyShardSample c) c \<longrightarrow> \<not> isSamplingGoroutine ?p \<longrightarrow> m_currentSize c' \<le> ?t"
    "gp = (if hot (shardPressure env True emptyShardSample c) c \<and> \<not> isSamplingGoroutine ?p
           then shedPlan (\<lambda>y. entry_weight y) ?p ?t ?r (lru c) else [])"
    using EvaluateMemoryPressure_spec [OF assms, where env = env] by blast
  have "\<not> shedDone (\<lambda>y. entry_weight y) (unat ?t) (zerosKept (\<lambda>y. entry_weight y) ?p ?r (lru c))
      (lenKept (\<lambda>y. entry_weight y) ?p ?r (lru c)) (filter (\<lambda>x. x \<notin> set ys) (lru c))"
    if "gp = ys @ y # zs" "\<not> feq ?r (Fin 0)" for ys y zs
    by (rule shedPlan_needed [OF _ lru_distinct [OF inv] that(2), of _ _ _ _ y zs]) (use e(6) that(1) in \<open>simp split: if_splits\<close>)
  then show ?thesis using e by (intro exI [of _ c'] exI [of _ gp] exI [of _ ?p]) blast
qed

lemma round_grid:
  assumes "0 < x" "ulp_exp x = - int n" "x * 2 ^ n = of_int k" "x \<le> max_float64"
  shows "round64 x = Fin x"
proof -
  have "(2 :: rat) powi ulp_exp x = 1 / 2 ^ n" by (simp add: assms(2) power_int_minus divide_inverse)
  moreover have "rne (of_int k) = k" by (simp add: rne_def Let_def)
  moreover have "of_int k / 2 ^ n = x" using assms(3) by (simp add: field_simps)
  ultimately have "round_pos x = x" using assms(1,3) by (simp add: round_pos_def)
  then show ?thesis using assms(1,4) by (simp add: round64_def)
qed

lemma round_small: "round64 1 = Fin 1" "round64 3 = Fin 3" "round64 (1 / 2) = Fin (1 / 2)" "round64 (3 / 2) = Fin (3 / 2)"
proof -
  have m: "3 \<le> max_float64" by (simp add: max_float64_def)
  have f: "\<lfloor>3 / 2 :: rat\<rfloor> = 1" by (simp add: floor_eq_iff)
  have r: "rexp 1 = 0" "rexp 3 = 1" "rexp (1 / 2) = - 1" "rexp (3 / 2) = 0"
    by (simp_all add: rexp_def nlog2.simps f)
  show "round64 1 = Fin 1" by (rule round_grid [where n = 52 and k = "2 ^ 52"]) (use m in \<open>simp_all add: ulp_exp_def r\<close>)
  show "round64 3 = Fin 3" by (rule round_grid [where n = 51 and k = "3 * 2 ^ 51"]) (use m in \<open>simp_all add: ulp_exp_def r\<close>)
  show "round64 (1 / 2) = Fin (1 / 2)" by (rule round_grid [where n = 53 and k = "2 ^ 52"]) (use m in \<open>simp_all add: ulp_exp_def r\<close>)
  show "round64 (3 / 2) = Fin (3 / 2)" by (rule round_grid [where n = 52 and k = "3 * 2 ^ 51"]) (use m in \<open>simp_all add: ulp_exp_def r\<close>)
qed

subsection \<open>A cache under pressure\<close>

definition hotEnv :: samplingEnv where
  \<comment> \<open>a probe that always reads one\<close>
  "hotEnv = \<lparr>probe = (\<lambda>_. Fin 1), soleReentrant = False, shardSoleReentrant = False\<rparr>"

definition hotOpts :: "nat Options" where
  \<comment> \<open>those of a shard that is to shrink to one byte\<close>
  "hotOpts = sampleOpts\<lparr>CompactionThreshold := Fin (1 / 2), EvictionThreshold := Fin (3 / 4), EvictionRetentionRatio := Fin (1 / 2),
     hasShardTier2Target := True, shardTier2Target := 1\<rparr>"

definition hotCache :: "nat mapCache" where
  \<comment> \<open>three entries, most recently used first: \<^verbatim>\<open>c\<close> of weight one, \<^verbatim>\<open>b\<close> without weight, \<^verbatim>\<open>a\<close> of weight one\<close>
  "hotCache = \<lparr>m_maxSize = 3, m_currentSize = 2,
     m_heap = (\<lambda>_. zeroEntry)(
       2 := \<lparr>ekey = ''c'', prev = None, next = Some 1, esize = 1, evalue = 30\<rparr>,
       1 := \<lparr>ekey = ''b'', prev = Some 2, next = Some 0, esize = 0, evalue = 20\<rparr>,
       0 := \<lparr>ekey = ''a'', prev = Some 1, next = None, esize = 1, evalue = 10\<rparr>),
     m_nextAddr = 3, m_entries = \<lparr>head = Some 2, tail = Some 0, len = 3\<rparr>,
     m_index = [(''a'', 0), (''b'', 1), (''c'', 2)], m_dirtyIndex = False, m_weigher = None,
     m_onEvictValue = None, m_onEvictEntry = None,
     m_ps = (newPressureState hotOpts)\<lparr>zeroSizeCount := 1, peakEntryLen := 3, putInserted := 3\<rparr>\<rparr>"

lemma hotCache_mid: "mid (weights (m_heap hotCache)) 0 0 0 0 hotCache [2, 1, 0]"
proof -
  have "thresholds_ok hotOpts"
    unfolding thresholds_ok_def by (intro exI [of _ "1 / 2"] exI [of _ "3 / 4"]) (simp add: hotOpts_def)
  then show ?thesis
    by (simp add: mid_def map_repr_def dll_def index_ok_def hotCache_def weights_def ps_ok_def books_ok_def newPressureState_def
        sampling_ok_def coord_ok_def zeroCoord_def insert_commute)
qed

lemma hotCache_ok: "map_inv hotCache" "lru hotCache = [(''c'', 1, 30), (''b'', 0, 20), (''a'', 1, 10)]"
proof -
  have a: "addrs hotCache = [2, 1, 0]" by (rule mid_addrs [OF hotCache_mid])
  then show "map_inv hotCache" using hotCache_mid by (simp add: map_inv_def)
  show "lru hotCache = [(''c'', 1, 30), (''b'', 0, 20), (''a'', 1, 10)]"
    unfolding lru_def a by (simp add: hotCache_def payload_def)
qed

lemma hotCache_reading:
  defines "p \<equiv> fst (lockShardWithSample hotEnv True emptyShardSample (m_ps hotCache))"
  shows "shardPressure hotEnv True emptyShardSample hotCache = Fin 1" "\<not> isSamplingGoroutine p"
    "lastReclaimedZeroCount p = 0" "lastReclaimedLen p = 0"
proof -
  let ?p = "m_ps hotCache"
  have f: "PressureFunc (options ?p) \<noteq> None"
  proof -
    have "PressureFunc sampleOpts \<noteq> None" unfolding sampleOpts_def ApplyOptions_def Let_def by (rule normalizeCallbacks_set)
    then show ?thesis by (simp add: hotCache_def newPressureState_def hotOpts_def)
  qed
  have s: "seq_ok ?p" "pressureInvokeSeq (coord ?p) \<noteq> - 1" "\<not> isSamplingGoroutine ?p" "\<not> samplerActive (coord ?p)"
    by (simp_all add: hotCache_def newPressureState_def zeroCoord_def seq_ok_def isSamplingGoroutine_def)
  obtain p' where l: "lockWithPressureSlow hotEnv ?p = (p', ownReclaimEpoch p', Fin 1)"
    "samplerActive (coord p') = samplerActive (coord ?p)" "lastReclaimedZeroCount p' \<in> {0, lastReclaimedZeroCount ?p}"
    "lastReclaimedLen p' \<in> {0, lastReclaimedLen ?p}"
    using lockWithPressureSlow_fresh [OF s(1,2) f s(3), of hotEnv] by (auto simp: hotEnv_def sanitizePressureValue_def)
  have "lockShardWithSample hotEnv True emptyShardSample ?p = (p', ownReclaimEpoch p',
      snd (snd (lockShardWithSample hotEnv True emptyShardSample ?p)))"
    and x: "h_pressure (snd (snd (lockShardWithSample hotEnv True emptyShardSample ?p))) = Fin 1"
    using l(1) by (simp_all add: lockShardWithSample_def tryApplyShardSampleLocked_def emptyShardSample_def lockWithPressure_def Let_def)
  then have p: "p = p'" unfolding p_def by (metis fst_conv)
  then show "lastReclaimedZeroCount p = 0" "lastReclaimedLen p = 0"
    using l(3,4) by (simp_all add: hotCache_def newPressureState_def)
  show "\<not> isSamplingGoroutine p" using l(2) s(4) p by (simp add: isSamplingGoroutine_def)
  show "shardPressure hotEnv True emptyShardSample hotCache = Fin 1" by (simp add: shardPressure_def x)
qed

theorem mapCache_iterateAll_ok_witness:
  "\<exists>n b. mapCache_iterateAll (\<lambda>_. False) sampleOne = Inr (take n [(''a'', 2)], b) \<and> 0 < n \<and> \<not> b"
  using mapCache_iterateAll_ok [OF sampleOne_ok(1), of "\<lambda>_. False"] by (auto simp: sampleOne_ok split: if_splits)

theorem mapCache_Compact_ok_witness:
  "\<exists>c'. mapCache_Compact sampleOne = Inr c' \<and> lru c' = [(''a'', 2, 2)]"
  using mapCache_Compact_ok [OF sampleOne_ok(1)] by (auto simp: sampleOne_ok)

theorem mapCache_EvaluateMemoryPressure_ok_witness:
  "\<exists>c' cbs. mapCache_EvaluateMemoryPressure hotEnv hotCache = Inr (c', [10, 20], cbs)
    \<and> map_inv c' \<and> lru c' = [(''c'', 1, 30)]"
proof -
  have o: "EvictionRetentionRatio (options (m_ps hotCache)) = Fin (1 / 2)" "EvictionThreshold (options (m_ps hotCache)) = Fin (3 / 4)"
    "tier2TargetSize (m_ps hotCache) 3 = 1" "m_maxSize hotCache = 3"
    by (simp_all add: hotCache_def newPressureState_def hotOpts_def tier2TargetSize_def)
  have hot: "hot (Fin 1) hotCache" by (simp add: hot_def o fge_def fle_def)
  have ret: "fle (Fin 0) (EvictionRetentionRatio (options (m_ps hotCache)))" by (simp add: o fle_def)
  have plan: "shedPlan (\<lambda>y. entry_weight y) p 1 (Fin (1 / 2)) [(''c'', 1, 30), (''b'', 0, 20), (''a'', 1, 10)] = [(''a'', 1, 10), (''b'', 0, 20)]"
    if "lastReclaimedZeroCount p = 0" "lastReclaimedLen p = 0" for p :: "nat pressureState"
    using that by (simp add: shedPlan_def zerosKept_def lenKept_def Let_def float_of_int_def round_small floor_eq_iff
        shedDone_def shedPick_def)
  show ?thesis
    using mapCache_EvaluateMemoryPressure_ok [OF hotCache_ok(1) ret, of hotEnv]
    by (auto simp: o hot hotCache_reading plan reclaimed_def hotCache_ok(2))
qed

end
