(* ===== verification/MapPrefix.thy ===== *)
theory MapPrefix
  imports MapIter
begin

text \<open>
  \<open>DeletePrefix\<close> on the map backend: the empty prefix clears the list in one pass, any other prefix
  visits the keys of the index in the order Go's \<open>range\<close> gives them. That order is a parameter \<open>rng\<close>
  of the model; all that is known of it is that it visits every key once.
\<close>

abbreviation hasPrefix :: "string \<Rightarrow> string \<Rightarrow> bool" where
  "hasPrefix pre k \<equiv> take (length pre) k = pre"

lemma erasePrefixLoop_spec:
  fixes c :: "('v :: zero) mapCache"
  assumes "mid W 0 dd 0 0 c as" "\<And>a. a \<in> set as \<Longrightarrow> W a = esize (m_heap c a)" "distinct ks" "0 \<le> dd"
  shows "\<exists>c' q' gs as'. erasePrefixLoop pre ks (c, q) b = ((c', q'), b \<or> gs \<noteq> [])
    \<and> mid W 0 (dd + int (length gs)) 0 0 c' as'
    \<and> sheds (c, q) as (map (\<lambda>a. (a, EvictionReasonDeleted)) gs) (c', q') as'
    \<and> map (\<lambda>a. ekey (m_heap c a)) gs = filter (\<lambda>k. hasPrefix pre k \<and> map_of (m_index c) k \<noteq> None) ks"
  using assms
proof (induction ks arbitrary: c q as b dd)
  case Nil
  then show ?case
    by (intro exI [of _ c] exI [of _ q] exI [of _ "[]"] exI [of _ as]) (simp add: sheds_refl)
next
  case (Cons k ks)
  show ?case
  proof (cases "hasPrefix pre k \<and> map_of (m_index c) k \<noteq> None")
    case False
    then have eq: "erasePrefixLoop pre (k # ks) (c, q) b = erasePrefixLoop pre ks (c, q) b"
      by (auto split: option.splits)
    have f: "filter (\<lambda>k. hasPrefix pre k \<and> map_of (m_index c) k \<noteq> None) (k # ks)
        = filter (\<lambda>k. hasPrefix pre k \<and> map_of (m_index c) k \<noteq> None) ks"
      using False by simp
    have "distinct ks" using Cons.prems(3) by simp
    then show ?thesis unfolding eq f using Cons.IH [OF Cons.prems(1,2) _ Cons.prems(4)] by blast
  next
    case True
    then obtain e where look: "map_of (m_index c) k = Some e" and pk: "hasPrefix pre k" by blast
    note m = Cons.prems(1)
    have e: "e \<in> set as" "ekey (m_heap c e) = k" using mid_lookup [OF m] look by auto
    obtain c1 q1 v where er: "mapCache_eraseEntryLocked e EvictionReasonDeleted (c, q) = ((c1, q1), v)"
      by (metis prod_cases3 surj_pair)
    have le: "unat (W e) + 0 \<le> weight_sum (map W as)"
      using weight_sum_remove [OF mid_distinct [OF m] e(1), of W] by simp
    have ev: "evicting EvictionReasonDeleted" by (simp add: evicting_def)
    note em = erase_mid [OF m e(1) Cons.prems(2) [OF e(1)] le ev er]
    have m1: "mid W 0 (dd + 1) 0 0 c1 (remove1 e as)" using em(1) by simp
    have in1: "a \<in> set (remove1 e as) \<longleftrightarrow> a \<in> set as \<and> a \<noteq> e" for a
      using mid_distinct [OF m] by simp
    have pay: "payload (m_heap c1 a) = payload (m_heap c a)" if "a \<in> set (remove1 e as)" for a
      using em(6) that in1 by blast
    have W1: "W a = esize (m_heap c1 a)" if "a \<in> set (remove1 e as)" for a
      using pay [OF that] Cons.prems(2) [of a] that in1 by (simp add: payload_simps)
    have ix: "map_of (m_index c1) k' \<noteq> None \<longleftrightarrow> map_of (m_index c) k' \<noteq> None" if "k' \<in> set ks" for k'
    proof -
      have "k' \<noteq> k" using that Cons.prems(3) by auto
      then show ?thesis
        using mid_lookup [OF m, of k'] mid_lookup [OF m1, of k'] pay in1 e(2)
        by (metis not_None_eq payload_ekey)
    qed
    obtain c2 q2 gs as' where ih: "erasePrefixLoop pre ks (c1, q1) True = ((c2, q2), True \<or> gs \<noteq> [])"
      "mid W 0 (dd + 1 + int (length gs)) 0 0 c2 as'"
      "sheds (c1, q1) (remove1 e as) (map (\<lambda>a. (a, EvictionReasonDeleted)) gs) (c2, q2) as'"
      "map (\<lambda>a. ekey (m_heap c1 a)) gs = filter (\<lambda>k. hasPrefix pre k \<and> map_of (m_index c1) k \<noteq> None) ks"
      using Cons.IH [OF m1 W1, of q1 True] Cons.prems(3,4) by auto
    have gs: "set gs \<subseteq> set (remove1 e as)" using sheds_gone(1) [OF ih(3)] .
    have "map (\<lambda>a. ekey (m_heap c a)) gs = map (\<lambda>a. ekey (m_heap c1 a)) gs"
      using pay gs by (auto simp: payload_simps)
    also have "\<dots> = filter (\<lambda>k. hasPrefix pre k \<and> map_of (m_index c) k \<noteq> None) ks"
      unfolding ih(4) by (rule filter_cong) (use ix in auto)
    finally have keys: "map (\<lambda>a. ekey (m_heap c a)) (e # gs) = filter (\<lambda>k. hasPrefix pre k \<and> map_of (m_index c) k \<noteq> None) (k # ks)"
      using True e(2) by simp
    have "sheds (c, q) as (map (\<lambda>a. (a, EvictionReasonDeleted)) (e # gs)) (c2, q2) as'"
      using sheds_trans [OF em(2) ih(3)] by simp
    moreover have "erasePrefixLoop pre (k # ks) (c, q) b = ((c2, q2), b \<or> e # gs \<noteq> [])"
      using look pk er ih(1) by simp
    moreover have "mid W 0 (dd + int (length (e # gs))) 0 0 c2 as'" using ih(2) by (simp add: algebra_simps)
    ultimately show ?thesis using keys by blast
  qed
qed

lemma deleteAllLoop_spec:
  fixes h :: "('v :: zero) heap"
  assumes "lseg h p as None" "distinct as" "queue_wf q"
  shows "\<exists>h' q'. deleteAllLoop cb (first as None) h q = Some (h', q') \<and> queue_wf q'
    \<and> queue_events q' = queue_events q @ (if cb then map (entry_event h EvictionReasonDeleted) as else [])"
  using assms
proof (induction as arbitrary: p h q)
  case Nil
  then show ?case by (simp add: deleteAllLoop.simps)
next
  case (Cons a as)
  define h1 where "h1 = h(a := (h a)\<lparr>ekey := '''', evalue := 0, esize := 0, prev := None, next := None\<rparr>)"
  define q1 where "q1 = (if cb then enqueue (ekey (h a)) (evalue (h a)) EvictionReasonDeleted q else q)"
  have nx: "next (h a) = first as None" and ls: "lseg h (Some a) as None" and a: "a \<notin> set as" "distinct as"
    using Cons.prems by simp_all
  have "lseg h1 (Some a) as None = lseg h (Some a) as None"
    by (rule lseg_cong) (use a in \<open>auto simp: h1_def\<close>)
  then have ls1: "lseg h1 (Some a) as None" using ls by simp
  have q1: "queue_wf q1" "queue_events q1 = queue_events q @ (if cb then [entry_event h EvictionReasonDeleted a] else [])"
    using Cons.prems(3) by (auto simp: q1_def entry_event_def)
  obtain h' q' where ih: "deleteAllLoop cb (first as None) h1 q1 = Some (h', q')" "queue_wf q'"
    "queue_events q' = queue_events q1 @ (if cb then map (entry_event h1 EvictionReasonDeleted) as else [])"
    using Cons.IH [OF ls1 a(2) q1(1)] by blast
  have "map (entry_event h1 EvictionReasonDeleted) as = map (entry_event h EvictionReasonDeleted) as"
    using a(1) by (auto simp: entry_event_def h1_def)
  then show ?case
    using ih q1 nx by (simp add: deleteAllLoop.simps [of cb "Some a"] Let_def h1_def [symmetric] q1_def [symmetric])
qed


lemma mid_executed:
  "mid W d dd rr ss c as \<Longrightarrow> mid W d dd rr ss (onPs (\<lambda>p. p\<lparr>deletePrefixExecuted := deletePrefixExecuted p + 1\<rparr>) c) as"
  by (rule mid_keep) simp_all

lemma deleteAllPrefix_spec:
  fixes c0 :: "('v :: zero) mapCache"
  assumes m0: "mid (weights (m_heap c0)) 0 0 0 0 c0 as" and q: "queue_wf q"
  shows "\<exists>c' q'. mapCache_deleteAllPrefixLocked se x (c0, q) = Inr (c', q') \<and> map_inv c' \<and> lru c' = [] \<and> cfg c' = cfg c0
    \<and> queue_wf q' \<and> queue_events q' = queue_events q @ (if hasEvictCB c0 then map (entry_event (m_heap c0) EvictionReasonDeleted) as else [])"
proof -
  define c where "c = onPs (\<lambda>p. p\<lparr>deletePrefixExecuted := deletePrefixExecuted p + 1\<rparr>) c0"
  have m: "mid (weights (m_heap c)) 0 0 0 0 c as" using mid_executed [OF m0] by (simp add: c_def)
  have cfg: "cfg c = cfg c0" and h: "m_heap c = m_heap c0" by (simp_all add: c_def cfg_def)
  show ?thesis
  proof (cases "mapCache_isCleanEmptyLocked c")
    case True
    then have "as = []" using mid_len [OF m] by (simp add: mapCache_isCleanEmptyLocked_def Let_def)
    moreover have "mapCache_deleteAllPrefixLocked se x (c0, q) = Inr (c, q)"
      using True by (simp add: mapCache_deleteAllPrefixLocked_def c_def [symmetric])
    ultimately show ?thesis using m mid_addrs [OF m] cfg q by (simp add: map_inv_def lru_def)
  next
    case False
    define c2 where "c2 = onPs (\<lambda>p. p\<lparr>deletedSinceCompact := deletedSinceCompact p + mapLen c,
        evictionsDeleted := evictionsDeleted p + word_of_int (mapLen c),
        evictedWeightDeleted := evictedWeightDeleted p + m_currentSize c\<rparr>) c"
    have ls: "lseg (m_heap c2) None as None" using m by (simp add: c2_def mid_def map_repr_def dll_def)
    obtain h' q' where lp: "deleteAllLoop (hasEvictCB c2) (first as None) (m_heap c2) q = Some (h', q')" "queue_wf q'"
      "queue_events q' = queue_events q @ (if hasEvictCB c2 then map (entry_event (m_heap c2) EvictionReasonDeleted) as else [])"
      using deleteAllLoop_spec [OF ls mid_distinct [OF m] q] by blast
    define c3 where "c3 = c2\<lparr>m_heap := h', m_entries := entryList_Init (m_entries c2), m_currentSize := 0\<rparr>"
    define b1 where "b1 = hasEmptyDeleteSlack (m_ps (onPs (\<lambda>p. p\<lparr>deletedSinceCompact := deletedSinceCompact p + mapLen c\<rparr>) c)) False"
    define b2 where "b2 = (0 < m_currentSize c \<or> (m_dirtyIndex c \<or> minPeakSlackEntries < peakEntryLen (m_ps c) \<or> 0 < deletedSinceCompact (m_ps c)))"
    define c4 where "c4 = onPs (finishClearAllLocked b1 b2 se x) (mapCache_clearEmptyIndexStateLocked c3)"
    have fr: "entryList_Front (m_entries c2) = first as None" using mid_Front [OF m] by (simp add: c2_def)
    have res: "mapCache_deleteAllPrefixLocked se x (c0, q) = Inr (c4, q')"
    proof -
      have "onPs (\<lambda>p. p\<lparr>evictionsDeleted := evictionsDeleted p + word_of_int (mapLen c), evictedWeightDeleted := evictedWeightDeleted p + m_currentSize c\<rparr>)
          (onPs (\<lambda>p. p\<lparr>deletedSinceCompact := deletedSinceCompact p + mapLen c\<rparr>) c) = c2"
        by (simp add: c2_def onPs_def)
      then show ?thesis
        using False lp(1) fr unfolding mapCache_deleteAllPrefixLocked_def Let_def prod.case c_def [symmetric]
        by (simp add: b1_def b2_def c3_def c4_def)
    qed
    have ps: "ps_ok (m_ps c) (length as) (count_list (map (weights (m_heap c)) as) 0) 0 0 0" "m_maxSize c \<noteq> 0"
      using m by (simp_all add: mid_def)
    have "ps_ok (m_ps (mapCache_clearEmptyIndexStateLocked c3)) 0 0 (0 + int (length as)) 0 0"
      using ps_ok_clearAll [OF ps(1)]
      by (simp add: mapCache_clearEmptyIndexStateLocked_def c3_def c2_def mid_len [OF m])
    then have "ps_ok (m_ps c4) 0 0 (int (length as)) 0 0"
      unfolding c4_def by simp (rule ps_ok_keep)
    then have "mid (weights (m_heap c4)) 0 (int (length as)) 0 0 c4 []"
      using ps(2) by (simp add: mid_def map_repr_def index_ok_def c4_def mapCache_clearEmptyIndexStateLocked_def c3_def c2_def
          dll_def entryList_Init_def)
    then have "map_inv c4" "lru c4 = []"
      using map_invI [of _ "int (length as)" 0 0 c4 "[]"] lru_ents [of _ 0 _ 0 0 c4 "[]"] by auto
    moreover have "cfg c4 = cfg c0"
      using cfg by (simp add: c4_def mapCache_clearEmptyIndexStateLocked_def c3_def c2_def cfg_def)
    ultimately show ?thesis using res lp(2,3) cfg_simps [OF cfg] h by (auto simp: c2_def)
  qed
qed

lemma deleteNonEmpty_spec:
  fixes c0 :: "('v :: zero) mapCache"
  assumes m0: "mid (weights (m_heap c0)) 0 0 0 0 c0 as" and q: "queue_wf q" and rng: "\<And>ks. mset (rng ks) = mset ks"
  shows "\<exists>c' q' gd gp. mapCache_deleteNonEmptyPrefixLocked rng pre se x (c0, q) = Inr (c', q') \<and> map_inv c' \<and> cfg c' = cfg c0
    \<and> mset gd = mset (filter (\<lambda>y. hasPrefix pre (entry_key y)) (ents (m_heap c0) as))
    \<and> reclaimed (hot x c0) (filter (\<lambda>y. \<not> hasPrefix pre (entry_key y)) (ents (m_heap c0) as)) gp (lru c')
    \<and> queue_wf q' \<and> queue_events q' = queue_events q @ (if hasEvictCB c0 then
        map (event_of EvictionReasonDeleted) gd @ map (event_of EvictionReasonPressure) gp else [])"
proof -
  define c where "c = onPs (\<lambda>p. p\<lparr>deletePrefixExecuted := deletePrefixExecuted p + 1\<rparr>) c0"
  let ?W = "weights (m_heap c)" and ?ks = "rng (map fst (m_index c))"
  have m: "mid ?W 0 0 0 0 c as" using mid_executed [OF m0] by (simp add: c_def)
  have cfg: "cfg c = cfg c0" and h: "m_heap c = m_heap c0" by (simp_all add: c_def cfg_def)
  have W: "\<And>a. a \<in> set as \<Longrightarrow> ?W a = esize (m_heap c a)" by (simp add: weights_def)
  have ks: "set ?ks = fst ` set (m_index c)" using mset_eq_setD [OF rng] by simp
  have "distinct (map fst (m_index c))" using m by (simp add: mid_def map_repr_def index_ok_def)
  then have dks: "distinct ?ks" using mset_eq_imp_distinct_iff [OF rng] by blast
  obtain c1 q1 gs as1 where lp: "erasePrefixLoop pre ?ks (c, q) False = ((c1, q1), False \<or> gs \<noteq> [])"
    "mid ?W 0 (0 + int (length gs)) 0 0 c1 as1"
    "sheds (c, q) as (map (\<lambda>a. (a, EvictionReasonDeleted)) gs) (c1, q1) as1"
    "map (\<lambda>a. ekey (m_heap c a)) gs = filter (\<lambda>k. hasPrefix pre k \<and> map_of (m_index c) k \<noteq> None) ?ks"
    using erasePrefixLoop_spec [OF m W dks order_refl] by blast
  note g = sheds_gone [OF lp(3)]
  have mem: "a \<in> set gs \<longleftrightarrow> a \<in> set as \<and> hasPrefix pre (ekey (m_heap c a))" for a
  proof -
    have "set (map (\<lambda>a. ekey (m_heap c a)) gs) = {k. hasPrefix pre k \<and> map_of (m_index c) k \<noteq> None}"
      unfolding lp(4) using ks by (auto simp: map_of_eq_None_iff)
    then have "ekey (m_heap c a) \<in> (\<lambda>a. ekey (m_heap c a)) ` set gs \<longleftrightarrow> hasPrefix pre (ekey (m_heap c a))" if "a \<in> set as"
      using mid_lookup [OF m] that by fastforce
    then show ?thesis using g(1) keys_inj [OF m] by (auto simp: inj_on_def)
  qed
  have as1: "as1 = filter (\<lambda>a. \<not> hasPrefix pre (ekey (m_heap c a))) as"
    unfolding g(3) by (rule filter_cong) (use mem in auto)
  have "mset gs = mset (filter (\<lambda>a. hasPrefix pre (ekey (m_heap c a))) as)"
    using g(2) mid_distinct [OF m] mem by (intro set_eq_iff_mset_eq_distinct [THEN iffD1]) auto
  then have gd: "mset (ents (m_heap c) gs) = mset (filter (\<lambda>y. hasPrefix pre (entry_key y)) (ents (m_heap c) as))"
    unfolding ents_def filter_map comp_def by (simp only: mset_map payload_proj)
  have pay: "payload (m_heap c1 a) = payload (m_heap c a)" if "a \<in> set as1" for a
    using lp(3) that by (simp add: sheds_def)
  have rest: "ents (m_heap c1) as1 = filter (\<lambda>y. \<not> hasPrefix pre (entry_key y)) (ents (m_heap c) as)"
    using ents_cong [of as1 "m_heap c1" "m_heap c"] pay by (simp add: as1 ents_def filter_map comp_def)
  have m1: "mid ?W 0 0 0 0 c1 as1" by (rule mid_weaken [OF lp(2)]) auto
  have W1: "?W a = esize (m_heap c1 a)" if "a \<in> set as1" for a
    using pay [OF that] by (simp add: weights_def payload_simps)
  have q1: "queue_wf q1" "queue_events q1 = queue_events q @ (if hasEvictCB c then map (event_of EvictionReasonDeleted) (ents (m_heap c) gs) else [])"
    using sheds_events [OF lp(3) q] by simp_all
  have cfg1: "cfg c1 = cfg c0" using lp(3) cfg by (simp add: sheds_def)
  have cb: "hasEvictCB c = hasEvictCB c0" "hasEvictCB c1 = hasEvictCB c0" "hot x c1 = hot x c0"
    using cfg_simps [OF cfg] cfg_simps [OF cfg1] by (auto simp: hot_def)
  show ?thesis
  proof (cases "gs = []")
    case True
    have "map_inv c1" by (rule map_invI [OF m1]) (use W1 in auto)
    moreover have "mapCache_deleteNonEmptyPrefixLocked rng pre se x (c0, q) = Inr (c1, q1)"
      using lp(1) True unfolding mapCache_deleteNonEmptyPrefixLocked_def Let_def prod.case c_def [symmetric] by simp
    ultimately show ?thesis
      using True gd rest cfg1 q1 h lru_ents [OF m1]
      by (intro exI [of _ c1] exI [of _ q1] exI [of _ "[]"]) (simp add: reclaimed_def)
  next
    case False
    obtain c2 q2 gp where t: "mapCache_finishDeleteReclaimLocked (m_currentSize c) se x (c1, q1) = Inr (c2, q2)"
      "map_inv c2" "cfg c2 = cfg c1" "reclaimed (hot x c1) (ents (m_heap c1) as1) gp (lru c2)"
      "queue_wf q2" "queue_events q2 = queue_events q1 @ (if hasEvictCB c1 then map (event_of EvictionReasonPressure) gp else [])"
      using delete_tail [OF m1 W1 q1(1)] by blast
    have "mapCache_deleteNonEmptyPrefixLocked rng pre se x (c0, q) = Inr (c2, q2)"
      using lp(1) t(1) False unfolding mapCache_deleteNonEmptyPrefixLocked_def Let_def prod.case c_def [symmetric] by simp
    then show ?thesis
      using t gd rest cfg1 q1 h cb
      by (intro exI [of _ c2] exI [of _ q2] exI [of _ "ents (m_heap c) gs"] exI [of _ gp] conjI) (simp_all del: ents_event)
  qed
qed


lemma deletePrefixShard_spec:
  fixes c :: "('v :: zero) mapCache" and env :: samplingEnv
  assumes inv: "map_inv c" and v: "valid_pressure (h_pressure h)" and q: "queue_wf q"
    and rng: "\<And>ks. mset (rng ks) = mset ks"
  shows "\<exists>c' q' gd gp out b. mapCache_deletePrefixShard env rng pre h (c, q) = Inr ((c', q'), out, b)
    \<and> map_inv c' \<and> cfg c' = cfg c \<and> valid_pressure (h_pressure out)
    \<and> mset gd = mset (filter (\<lambda>y. hasPrefix pre (entry_key y)) (lru c)) \<and> (pre = [] \<longrightarrow> gd = lru c)
    \<and> reclaimed (hot (shardPressure env False h c) c \<and> pre \<noteq> []) (filter (\<lambda>y. \<not> hasPrefix pre (entry_key y)) (lru c)) gp (lru c')
    \<and> queue_wf q' \<and> queue_events q' = queue_events q @ (if hasEvictCB c then
        map (event_of EvictionReasonDeleted) gd @ map (event_of EvictionReasonPressure) gp else [])"
proof (cases "pre = []")
  case True
  show ?thesis
  proof (cases "mapCache_isCleanEmptyLocked c")
    case clean: True
    define c1 where "c1 = onPs (\<lambda>p. p\<lparr>deletePrefixExecuted := deletePrefixExecuted p + 1\<rparr>) c"
    have c1: "map_inv c1 \<and> lru c1 = lru c" unfolding c1_def by (rule inv_onPs [OF inv]) simp_all
    have "lru c = []"
      using clean mid_len [OF map_inv_mid [OF inv]] by (simp add: mapCache_isCleanEmptyLocked_def Let_def lru_def)
    then show ?thesis
      using True clean c1 unlock_ok [of c1] q v
      by - (rule exI [of _ c1], rule exI [of _ q], rule exI [of _ "[]"], rule exI [of _ "[]"],
        simp add: mapCache_deletePrefixShard_def c1_def [symmetric] reclaimed_def, simp add: c1_def cfg_def)
  next
    case False
    have step: "\<exists>c' q'. mapCache_deleteAllPrefixLocked se x (c\<lparr>m_ps := p\<rparr>, q) = Inr (c', q') \<and> map_inv c' \<and> lru c' = []
        \<and> cfg c' = cfg c \<and> queue_wf q' \<and> queue_events q' = queue_events q @ (if hasEvictCB c then map (event_of EvictionReasonDeleted) (lru c) else [])"
      if s: "sampled (m_ps c) p" for p se x
    proof -
      define c1 where "c1 = c\<lparr>m_ps := p\<rparr>"
      have o: "onPs (\<lambda>_. p) c = c1" by (simp add: onPs_def c1_def)
      have "mid (weights (m_heap c)) 0 0 0 0 (onPs (\<lambda>_. p) c) (addrs c)"
        by (rule mid_onPs [OF map_inv_mid [OF inv]]) (use ps_ok_sampled [OF s] in blast)
      then have m1: "mid (weights (m_heap c1)) 0 0 0 0 c1 (addrs c)" unfolding o by (simp add: c1_def)
      have cfg1: "cfg c1 = cfg c" "m_heap c1 = m_heap c" using sampled_options [OF s] by (simp_all add: c1_def cfg_def)
      show ?thesis
        using deleteAllPrefix_spec [OF m1 q, of se x] cfg1 cfg_simps [OF cfg1(1)] lru_ents [OF map_inv_mid [OF inv]]
        unfolding c1_def [symmetric] by auto
    qed
    have fin: ?thesis
      if "mapCache_deletePrefixShard env rng pre h (c, q) = Inr ((c', q'), out, b)" "valid_pressure (h_pressure out)"
        "map_inv c'" "lru c' = []" "cfg c' = cfg c" "queue_wf q'"
        "queue_events q' = queue_events q @ (if hasEvictCB c then map (event_of EvictionReasonDeleted) (lru c) else [])"
      for c' q' out b
      using that True
      by - (rule exI [of _ c'], rule exI [of _ q'], rule exI [of _ "lru c"], rule exI [of _ "[]"], simp add: reclaimed_def)
    have so: "sampling_ok (m_ps c)" using map_inv_mid [OF inv] by (simp add: mid_def ps_ok_def)
    show ?thesis
    proof (cases "if h_hasSample h then tryApplyShardSampleLocked False h (m_ps c) else None")
      case None
      obtain p se out where lk: "lockShardWithSample env False h (m_ps c) = (p, se, out)" by (metis prod_cases3)
      have "sampled (m_ps c) p" and vo: "valid_pressure (h_pressure out)" using lockShardWithSample_ok [OF lk so v] by simp_all
      then obtain c' q' where r: "mapCache_deleteAllPrefixLocked se (h_pressure out) (c\<lparr>m_ps := p\<rparr>, q) = Inr (c', q')"
        "map_inv c'" "lru c' = []" "cfg c' = cfg c" "queue_wf q'"
        "queue_events q' = queue_events q @ (if hasEvictCB c then map (event_of EvictionReasonDeleted) (lru c) else [])"
        using step by blast
      have "mapCache_deletePrefixShard env rng pre h (c, q)
          = Inr ((c', q'), advanceSelfReclaim (ownReclaimEpoch (m_ps c')) se out, True)"
        using True False r(1) unlock_ok [OF r(2)]
        unfolding mapCache_deletePrefixShard_def Let_def prod.case None lk by simp
      from fin [OF this _ r(2-)] vo show ?thesis by simp
    next
      case (Some r1)
      obtain p out where r1: "r1 = (p, out)" by (rule prod.exhaust)
      have ta: "tryApplyShardSampleLocked False h (m_ps c) = Some (p, out)" using Some r1 by (simp split: if_splits)
      have "sampled (m_ps c) p" and vo: "valid_pressure (h_pressure out)" using tryApplyShardSample_ok [OF ta so v] by simp_all
      then obtain c' q' where r: "mapCache_deleteAllPrefixLocked (ownReclaimEpoch p) (h_pressure out) (c\<lparr>m_ps := p\<rparr>, q) = Inr (c', q')"
        "map_inv c'" "lru c' = []" "cfg c' = cfg c" "queue_wf q'"
        "queue_events q' = queue_events q @ (if hasEvictCB c then map (event_of EvictionReasonDeleted) (lru c) else [])"
        using step by blast
      have "mapCache_deletePrefixShard env rng pre h (c, q)
          = Inr ((c', q'), advanceSelfReclaim (ownReclaimEpoch (m_ps c')) (ownReclaimEpoch p) out, True)"
        using True False r(1) unlock_ok [OF r(2)]
        unfolding mapCache_deletePrefixShard_def Let_def prod.case Some r1 by simp
      from fin [OF this _ r(2-)] vo show ?thesis by simp
    qed
  qed
next
  case False
  obtain p se out where lk: "lockShardWithSample env False h (m_ps c) = (p, se, out)" by (metis prod_cases3)
  define c1 where "c1 = c\<lparr>m_ps := p\<rparr>"
  note l = lockShard_props [OF inv lk v, folded c1_def]
  have x: "shardPressure env False h c = h_pressure out" by (simp add: shardPressure_def lk)
  have lru1: "ents (m_heap c1) (addrs c) = lru c" using lru_ents [OF l(1)] l(2) by simp
  have c1: "hasEvictCB c1 = hasEvictCB c" "hot y c1 = hot y c" for y using cfg_simps [OF l(3)] by (auto simp: hot_def)
  obtain c2 q2 gd gp where d: "mapCache_deleteNonEmptyPrefixLocked rng pre se (h_pressure out) (c1, q) = Inr (c2, q2)"
    "map_inv c2" "cfg c2 = cfg c1" "mset gd = mset (filter (\<lambda>y. hasPrefix pre (entry_key y)) (lru c))"
    "reclaimed (hot (h_pressure out) c1) (filter (\<lambda>y. \<not> hasPrefix pre (entry_key y)) (lru c)) gp (lru c2)"
    "queue_wf q2" "queue_events q2 = queue_events q @ (if hasEvictCB c1 then
        map (event_of EvictionReasonDeleted) gd @ map (event_of EvictionReasonPressure) gp else [])"
    using deleteNonEmpty_spec [OF l(1) q rng, where pre = pre and se = se and x = "h_pressure out"] unfolding lru1 by blast
  have eq: "mapCache_deletePrefixShard env rng pre h (c, q)
      = Inr ((c2, q2), advanceSelfReclaim (ownReclaimEpoch (m_ps c2)) se out, True)"
    using False d(1) unlock_ok [OF d(2)] by (simp add: mapCache_deletePrefixShard_def lk c1_def [symmetric])
  show ?thesis
    by (rule exI [of _ c2], rule exI [of _ q2], rule exI [of _ gd], rule exI [of _ gp],
      rule exI [of _ "advanceSelfReclaim (ownReclaimEpoch (m_ps c2)) se out"], rule exI [of _ True])
      (use False eq d l(3,6) c1 x in simp)
qed

lemma DeletePrefix_spec:
  fixes c :: "('v :: zero) mapCache" and env :: samplingEnv
  assumes inv: "map_inv c" and rng: "\<And>ks. mset (rng ks) = mset ks"
  shows "\<exists>c' gd gp. mapCache_DeletePrefix env rng pre c
      = Inr (c', calls c (map (event_of EvictionReasonDeleted) gd @ map (event_of EvictionReasonPressure) gp))
    \<and> map_inv c' \<and> cfg c' = cfg c
    \<and> mset gd = mset (filter (\<lambda>y. hasPrefix pre (entry_key y)) (lru c)) \<and> (pre = [] \<longrightarrow> gd = lru c)
    \<and> reclaimed (hot (shardPressure env False emptyShardSample c) c \<and> pre \<noteq> [])
        (filter (\<lambda>y. \<not> hasPrefix pre (entry_key y)) (lru c)) gp (lru c')"
proof -
  have v: "valid_pressure (h_pressure emptyShardSample)" by (simp add: emptyShardSample_def)
  obtain c' q' gd gp out b where d: "mapCache_deletePrefixShard env rng pre emptyShardSample (c, newEvictQueue True) = Inr ((c', q'), out, b)"
    "map_inv c'" "cfg c' = cfg c" "mset gd = mset (filter (\<lambda>y. hasPrefix pre (entry_key y)) (lru c))" "pre = [] \<longrightarrow> gd = lru c"
    "reclaimed (hot (shardPressure env False emptyShardSample c) c \<and> pre \<noteq> []) (filter (\<lambda>y. \<not> hasPrefix pre (entry_key y)) (lru c)) gp (lru c')"
    "queue_wf q'" "queue_events q' = queue_events (newEvictQueue True) @ (if hasEvictCB c then
        map (event_of EvictionReasonDeleted) gd @ map (event_of EvictionReasonPressure) gp else [])"
    using deletePrefixShard_spec [OF inv v queue_wf_new rng, where env = env and pre = pre] by blast
  have "invokeCallbacks c' q' = calls c (map (event_of EvictionReasonDeleted) gd @ map (event_of EvictionReasonPressure) gp)"
    by (rule invoke_calls [OF d(7) _ d(3)]) (use d(8) in simp)
  then show ?thesis
    using d(1-6) by - (rule exI [of _ c'], rule exI [of _ gd], rule exI [of _ gp], simp add: mapCache_DeletePrefix_def)
qed

text \<open>
  C7. \<open>DeletePrefix\<close> removes exactly the entries whose keys start with the prefix and reports each of
  them once as deleted, in recency order when the prefix is empty; entries that do not match survive in
  their order, except those shed when a non-empty prefix is deleted under pressure. The hypothesis on
  \<open>rng\<close> is what Go guarantees of \<open>range\<close> over a map: every key is visited exactly once, in some order.
\<close>
theorem mapCache_DeletePrefix_ok:
  fixes c :: "('v :: zero) mapCache" and env :: samplingEnv
  assumes inv: "map_inv c" and rng: "\<And>ks. mset (rng ks) = mset ks"
  shows "\<exists>c' gd gp. mapCache_DeletePrefix env rng pre c
      = Inr (c', calls c (map (event_of EvictionReasonDeleted) gd @ map (event_of EvictionReasonPressure) gp))
    \<and> map_inv c' \<and> cfg c' = cfg c
    \<and> mset gd = mset (filter (\<lambda>y. hasPrefix pre (entry_key y)) (lru c)) \<and> (pre = [] \<longrightarrow> gd = lru c)
    \<and> reclaimed (hot (shardPressure env False emptyShardSample c) c \<and> pre \<noteq> [])
        (filter (\<lambda>y. \<not> hasPrefix pre (entry_key y)) (lru c)) gp (lru c')"
  by (rule DeletePrefix_spec [OF assms])

theorem mapCache_DeletePrefix_ok_witness:
  "\<exists>c' cbs. mapCache_DeletePrefix sampleEnv rev ''a'' sampleOne = Inr (c', cbs) \<and> map_inv c' \<and> lru c' = []"
proof -
  have "\<And>ks :: string list. mset (rev ks) = mset ks" by simp
  from mapCache_DeletePrefix_ok [OF sampleOne_ok(1) this, of sampleEnv "''a''"] show ?thesis
    by (auto simp: sampleOne_ok reclaimed_def)
qed

end
