(* ===== verification/MapReplace.thy ===== *)
theory MapReplace
  imports MapPrefix
begin

text \<open>
  \<open>Replace\<close> on the map backend: the entry keeps its place in the recency order, so growth is paid for
  by older entries only, and an entry that does not fit beside the newer ones is itself evicted.
\<close>

lemma mid_resize_at:
  assumes m: "mid W 0 0 0 0 c (xs @ e # ys)" and cur: "unat cur + unat (W e) = unat (m_currentSize c) + unat w" "cur \<le> m_maxSize c"
  shows "mid (W(e := w)) 0 0 0 0 ((onPs (onEntrySizeUpdated (W e) w) c)\<lparr>m_currentSize := cur\<rparr>) (xs @ e # ys)"
proof -
  have e: "e \<notin> set (xs @ ys)" using mid_distinct [OF m] by auto
  have W: "map (W(e := w)) xs = map W xs" "map (W(e := w)) ys = map W ys" using e by auto
  let ?z = "count_list (map W (xs @ ys)) 0"
  have z: "?z < length (xs @ e # ys)" using zeros_le_length [of W "xs @ ys" 0] by (simp add: less_Suc_eq_le)
  have "ps_ok (m_ps c) (length (xs @ e # ys)) (if W e = 0 then Suc ?z else ?z) 0 0 0"
    using m by (simp add: mid_def split: if_splits)
  note ps = ps_ok_resized [OF this z, of w]
  show ?thesis
    using m ps cur unfolding mid_def map_append list.map W fun_upd_same by (auto simp: map_repr_def)
qed

lemma tail_evicted_cong:
  assumes "tail_evicted st as gs (c1, q) as'" "cfg c2 = cfg c1" "m_heap c2 = m_heap c1" "m_nextAddr c2 = m_nextAddr c1"
  shows "tail_evicted st as gs (c2, q) as'"
proof -
  obtain c q0 where st: "st = (c, q0)" by (rule prod.exhaust)
  show ?thesis using assms(1) unfolding tail_evicted_def sheds_def st prod.case assms(2,3,4) .
qed

lemma evictOne_last:
  fixes c :: "('v :: zero) mapCache"
  assumes m: "mid (weights (m_heap c)) 0 0 0 0 c (as @ [a])"
  shows "\<exists>c' q'. fst (mapCache_evictOne (c, q)) = (c', q') \<and> mid (weights (m_heap c)) 0 0 0 0 c' as
    \<and> tail_evicted (c, q) (as @ [a]) [a] (c', q') as"
proof -
  have W: "weights (m_heap c) a = esize (m_heap c a)" by (simp add: weights_def)
  obtain c' q' where e: "mapCache_eraseEntryLocked a EvictionReasonCapacity (c, q) = ((c', q'), evalue (m_heap c a))"
    "mid (weights (m_heap c)) 0 0 0 0 c' as" "sheds (c, q) (as @ [a]) [(a, EvictionReasonCapacity)] (c', q') as"
    by (rule erase_back [OF m W, of q]) simp_all
  then show ?thesis using evictOne_back [OF m, of q] by (simp add: tail_evicted_def)
qed

lemma resize_grow:
  fixes c :: "('v :: zero) mapCache"
  assumes m: "mid (weights (m_heap c)) 0 0 0 0 c (xs @ e # ys)" and w: "esize (m_heap c e) < w"
    and fit: "weight_sum (map (weights (m_heap c)) xs) + unat w \<le> unat (m_maxSize c)"
  shows "\<exists>c' q' ys' gs ev. mapCache_replaceResizeOrEvictLocked e (esize (m_heap c e)) w sb se x (c, q) = Inr ((c', q'), ev, False)
    \<and> mid ((weights (m_heap c))(e := w)) 0 0 0 0 c' (xs @ e # ys') \<and> tail_evicted (c, q) (xs @ e # ys) gs (c', q') (xs @ e # ys')
    \<and> (gs \<noteq> [] \<longrightarrow> w \<noteq> 0 \<longrightarrow> unat (m_maxSize c) < weight_sum (map (weights (m_heap c)) (xs @ ys' @ [List.last gs])) + unat w)"
proof -
  let ?W = "weights (m_heap c)" and ?old = "esize (m_heap c e)"
  have We: "?W e = ?old" by (simp add: weights_def)
  have wm: "w \<le> m_maxSize c" using fit by (simp add: word_le_nat_alt)
  have dl: "unat (w - ?old) = unat w - unat ?old" "unat ?old < unat w"
    using w unat_sub_u64 [of ?old w] by (simp_all add: word_less_nat_alt)
  have "weight_sum (map ?W (xs @ [e])) + unat (w - ?old) \<le> unat (m_maxSize c)" using fit dl We by simp
  then obtain c1 q1 ys' gs where g: "growEvictLoop e (w - ?old) False (c, q) = Some ((c1, q1), False \<or> gs \<noteq> [])"
    "mid ?W 0 0 0 0 c1 (xs @ e # ys')" "tail_evicted (c, q) (xs @ e # ys) gs (c1, q1) (xs @ e # ys')"
    "\<not> m_maxSize c1 - m_currentSize c1 < w - ?old"
    "gs \<noteq> [] \<longrightarrow> unat (m_maxSize c) < weight_sum (map ?W (xs @ e # ys' @ [List.last gs])) + unat (w - ?old)"
    using growEvictLoop_spec [OF m, of "w - ?old" False q] by (auto simp: weights_def)
  have cur: "unat (m_currentSize c1) \<le> unat (m_maxSize c1)" using g(2) by (simp add: mid_def word_le_nat_alt)
  then have fit1: "unat (m_currentSize c1) + unat (w - ?old) \<le> unat (m_maxSize c1)"
    using g(4) unat_sub_u64 [OF cur] by (simp add: word_less_nat_alt)
  then have add: "unat (m_currentSize c1 + (w - ?old)) = unat (m_currentSize c1) + unat (w - ?old)"
    using unat_lt_u64 [of "m_maxSize c1"] by (intro unat_add_u64) simp
  define c2 where "c2 = (onPs (onEntrySizeUpdated ?old w) c1)\<lparr>m_currentSize := m_currentSize c1 + (w - ?old)\<rparr>"
  have m2: "mid (?W(e := w)) 0 0 0 0 c2 (xs @ e # ys')"
    using mid_resize_at [OF g(2), of "m_currentSize c1 + (w - ?old)" w] add dl fit1 We
    by (simp add: c2_def word_le_nat_alt)
  have t2: "tail_evicted (c, q) (xs @ e # ys) gs (c2, q1) (xs @ e # ys')"
    by (rule tail_evicted_cong [OF g(3)]) (simp_all add: c2_def cfg_def)
  have "mapCache_replaceResizeOrEvictLocked e ?old w sb se x (c, q) = Inr ((c2, q1), gs \<noteq> [], False)"
    using w leD [OF wm] canFitGrowth_spec [OF m w wm] fit g(1)
    by (simp add: mapCache_replaceResizeOrEvictLocked_def Let_def c2_def)
  moreover have "gs \<noteq> [] \<longrightarrow> unat (m_maxSize c) < weight_sum (map ?W (xs @ ys' @ [List.last gs])) + unat w"
    using g(5) dl We by (simp add: add.assoc)
  ultimately show ?thesis using m2 t2 by blast
qed

lemma resize_shrink:
  fixes c :: "('v :: zero) mapCache"
  assumes m: "mid (weights (m_heap c)) 0 0 0 0 c (xs @ e # ys)" and w: "w < esize (m_heap c e)"
  shows "\<exists>c' q' ys' gs ev. mapCache_replaceResizeOrEvictLocked e (esize (m_heap c e)) w sb se x (c, q) = Inr ((c', q'), ev, False)
    \<and> mid ((weights (m_heap c))(e := w)) 0 0 0 0 c' (xs @ e # ys') \<and> tail_evicted (c, q) (xs @ e # ys) gs (c', q') (xs @ e # ys')
    \<and> (gs \<noteq> [] \<longrightarrow> w = 0)"
proof -
  let ?W = "weights (m_heap c)" and ?old = "esize (m_heap c e)"
  have We: "?W e = ?old" by (simp add: weights_def)
  define sk where "sk = (shouldEvictOnZeroWeightShrink (m_ps c) ?old w (m_maxSize c) \<and> entryList_Back (m_entries c) \<noteq> Some e)"
  obtain c1 q1 ys' gs where s: "(if sk then fst (mapCache_evictOne (c, q)) else (c, q)) = (c1, q1)"
    "mid ?W 0 0 0 0 c1 (xs @ e # ys')" "tail_evicted (c, q) (xs @ e # ys) gs (c1, q1) (xs @ e # ys')" "gs \<noteq> [] \<longrightarrow> w = 0"
  proof (cases sk)
    case False
    show thesis by (rule that [of c q ys "[]"]) (use False m in auto)
  next
    case True
    have "ys \<noteq> []" using True mid_Back [OF m] by (auto simp: sk_def)
    then obtain zs a where ys: "ys = zs @ [a]" by (cases ys rule: rev_cases) auto
    have ma: "mid ?W 0 0 0 0 c ((xs @ e # zs) @ [a])" using m ys by simp
    obtain c' q' where e1: "fst (mapCache_evictOne (c, q)) = (c', q')" "mid ?W 0 0 0 0 c' (xs @ e # zs)"
      "tail_evicted (c, q) ((xs @ e # zs) @ [a]) [a] (c', q') (xs @ e # zs)"
      using evictOne_last [OF ma, of q] by blast
    have "w = 0" using True by (simp add: sk_def shouldEvictOnZeroWeightShrink_def)
    then show thesis by - (rule that [of c' q' zs "[a]"], use True e1 ys in auto)
  qed
  have le: "unat ?old \<le> unat (m_currentSize c1)" using s(2) We by (simp add: mid_def)
  have dl: "unat (?old - w) = unat ?old - unat w" "unat w < unat ?old"
    using w unat_sub_u64 [of w ?old] by (simp_all add: word_less_nat_alt)
  have sub: "unat (m_currentSize c1 - (?old - w)) = unat (m_currentSize c1) - unat (?old - w)"
    by (rule unat_sub_u64) (use le dl in simp)
  define c2 where "c2 = (onPs (onEntrySizeUpdated ?old w) c1)\<lparr>m_currentSize := m_currentSize c1 - (?old - w)\<rparr>"
  have "unat (m_currentSize c1) \<le> unat (m_maxSize c1)" using s(2) by (simp add: mid_def word_le_nat_alt)
  then have m2: "mid (?W(e := w)) 0 0 0 0 c2 (xs @ e # ys')"
    using mid_resize_at [OF s(2), of "m_currentSize c1 - (?old - w)" w] sub dl le We
    by (simp add: c2_def word_le_nat_alt)
  have t2: "tail_evicted (c, q) (xs @ e # ys) gs (c2, q1) (xs @ e # ys')"
    by (rule tail_evicted_cong [OF s(3)]) (simp_all add: c2_def cfg_def)
  have "mapCache_replaceResizeOrEvictLocked e ?old w sb se x (c, q) = Inr ((c2, q1), sk, False)"
    using less_not_sym [OF w] s(1) unfolding mapCache_replaceResizeOrEvictLocked_def Let_def prod.case sk_def [symmetric]
    by (simp add: c2_def)
  then show ?thesis using m2 t2 s(4) by blast
qed

lemma resize_self:
  fixes c :: "('v :: zero) mapCache"
  assumes m: "mid (weights (m_heap c)) 0 0 0 0 c (xs @ e # ys)" and q: "queue_wf q"
    and fit: "unat (m_maxSize c) < weight_sum (map (weights (m_heap c)) xs) + unat w"
  shows "\<exists>c' q' gp. mapCache_replaceResizeOrEvictLocked e (esize (m_heap c e)) w sb se x (c, q) = Inr ((c', q'), False, True)
    \<and> map_inv c' \<and> cfg c' = cfg c \<and> reclaimed (hot x c) (ents (m_heap c) (xs @ ys)) gp (lru c')
    \<and> queue_wf q' \<and> queue_events q' = queue_events q @ (if hasEvictCB c then
        entry_event (m_heap c) EvictionReasonCapacity e # map (event_of EvictionReasonPressure) gp else [])"
proof -
  let ?W = "weights (m_heap c)" and ?old = "esize (m_heap c e)"
  have "unat (m_currentSize c) = weight_sum (map ?W xs) + unat (?W e) + weight_sum (map ?W ys)"
    "unat (m_currentSize c) \<le> unat (m_maxSize c)"
    using m by (simp_all add: mid_def word_le_nat_alt)
  then have grow: "?old < w" using fit by (simp add: weights_def word_less_nat_alt)
  have fits: "(if m_maxSize c < w then Inr False
      else mapCache_canFitGrowthLocked c e (m_maxSize c - w) (w - ?old) (m_maxSize c - m_currentSize c)) = Inr False"
    using canFitGrowth_spec [OF m grow] fit by (simp add: not_less)
  define c1 where "c1 = onPs (\<lambda>p. p\<lparr>replaceSelfEvicted := replaceSelfEvicted p + 1\<rparr>) c"
  have m1: "mid ?W 0 0 (- 1) 0 c1 (xs @ e # ys)"
    unfolding c1_def
  proof (rule mid_onPs [OF m])
    fix n z assume "ps_ok (m_ps c) n z 0 0 0" "n = length (xs @ e # ys)"
    then show "ps_ok ((m_ps c)\<lparr>replaceSelfEvicted := replaceSelfEvicted (m_ps c) + 1\<rparr>) n z 0 (- 1) 0"
      using ps_ok_selfEvicted [of "m_ps c" "length (xs @ ys)" z 0 0 0] by simp
  qed
  have h1: "m_heap c1 = m_heap c" and cfg1: "cfg c1 = cfg c" by (simp_all add: c1_def cfg_def)
  obtain c2 q2 v where er: "mapCache_eraseEntryLocked e EvictionReasonCapacity (c1, q) = ((c2, q2), v)"
    by (metis prod_cases3 surj_pair)
  have We: "?W e = esize (m_heap c1 e)" by (simp add: weights_def h1)
  have ev: "evicting EvictionReasonCapacity" by (simp add: evicting_def)
  have e: "e \<in> set (xs @ e # ys)" by simp
  have le: "unat (?W e) + 0 \<le> weight_sum (map ?W (xs @ e # ys))" by simp
  have rm: "remove1 e (xs @ e # ys) = xs @ ys" using mid_distinct [OF m] by (simp add: remove1_append)
  note em = erase_mid [OF m1 e We le ev er, unfolded rm]
  have m2: "mid ?W 0 0 0 0 c2 (xs @ ys)" using em(1) by simp
  have ee: "e \<notin> set (xs @ ys)" using mid_distinct [OF m] by auto
  have pay: "payload (m_heap c2 a) = payload (m_heap c a)" if "a \<in> set (xs @ ys)" for a
    using em(6) [of a] that ee h1 by auto
  have W2: "?W a = esize (m_heap c2 a)" if "a \<in> set (xs @ ys)" for a
    using pay [OF that] by (simp add: weights_def payload_simps)
  have sh: "sheds (c1, q) (xs @ e # ys) (map (\<lambda>a. (a, EvictionReasonCapacity)) [e]) (c2, q2) (xs @ ys)" using em(2) by simp
  note q2 = sheds_events [OF sh q]
  have cfg2: "cfg c2 = cfg c" using sh cfg1 by (simp add: sheds_def)
  obtain c3 q3 gp where t: "mapCache_finishDeleteReclaimLocked sb se x (c2, q2) = Inr (c3, q3)"
    "map_inv c3" "cfg c3 = cfg c2" "reclaimed (hot x c2) (ents (m_heap c2) (xs @ ys)) gp (lru c3)" "queue_wf q3"
    "queue_events q3 = queue_events q2 @ (if hasEvictCB c2 then map (event_of EvictionReasonPressure) gp else [])"
    using delete_tail [OF m2 W2 conjunct1 [OF q2]] by blast
  have "mapCache_replaceResizeOrEvictLocked e ?old w sb se x (c, q) = Inr ((c3, q3), False, True)"
    using grow t(1) er unfolding mapCache_replaceResizeOrEvictLocked_def Let_def prod.case fits bindr_simps c1_def [symmetric]
    by simp
  moreover have "hot x c2 = hot x c" "hasEvictCB c2 = hasEvictCB c" "hasEvictCB c1 = hasEvictCB c"
    using cfg_simps [OF cfg2] cfg_simps [OF cfg1] by (auto simp: hot_def)
  ultimately show ?thesis
    using t q2 cfg2 ents_cong [OF pay] h1
    by - (rule exI [of _ c3], rule exI [of _ q3], rule exI [of _ gp], simp add: entry_event_def)
qed


lemma Replace_stage:
  fixes c :: "('v :: zero) mapCache"
  assumes m: "mid (weights (m_heap c)) 0 0 0 0 c (xs @ e # ys)"
    and fit: "weight_sum (map (weights (m_heap c)) xs) + unat w \<le> unat (m_maxSize c)"
  shows "\<exists>c' q' ys' gs ev. (if w \<noteq> esize (m_heap c e)
        then mapCache_replaceResizeOrEvictLocked e (esize (m_heap c e)) w sb se x (c, q) else Inr ((c, q), False, False))
      = Inr ((c', q'), ev, False)
    \<and> mid ((weights (m_heap c))(e := w)) 0 0 0 0 c' (xs @ e # ys') \<and> tail_evicted (c, q) (xs @ e # ys) gs (c', q') (xs @ e # ys')
    \<and> (gs \<noteq> [] \<longrightarrow> w \<noteq> 0 \<longrightarrow> unat (m_maxSize c) < weight_sum (map (weights (m_heap c)) (xs @ ys' @ [List.last gs])) + unat w)"
proof -
  consider "w = esize (m_heap c e)" | "esize (m_heap c e) < w" | "w < esize (m_heap c e)" by (rule linorder_cases) auto
  then show ?thesis
  proof cases
    case 1
    have "(weights (m_heap c))(e := w) = weights (m_heap c)" by (rule fun_upd_idem) (simp add: weights_def 1)
    then show ?thesis
      using 1 m by - (rule exI [of _ c], rule exI [of _ q], rule exI [of _ ys], rule exI [of _ "[]"], rule exI [of _ False], simp)
  next
    case 2
    then have "w \<noteq> esize (m_heap c e)" by auto
    then show ?thesis using resize_grow [OF m 2 fit, of sb se x q] by simp
  next
    case 3
    then have "w \<noteq> esize (m_heap c e)" by auto
    then show ?thesis using resize_shrink [OF m 3, of sb se x q] by auto
  qed
qed

lemma Replace_lookup:
  assumes inv: "map_inv c" and lru: "lru c = newer @ (k, w0, v0) # older"
  obtains e xs ys where "addrs c = xs @ e # ys" "map_of (m_index c) k = Some e"
    "payload (m_heap c e) = (k, w0, v0)" "ents (m_heap c) xs = newer" "ents (m_heap c) ys = older"
proof -
  have "map (\<lambda>a. payload (m_heap c a)) (addrs c) = newer @ (k, w0, v0) # older" using lru by (simp add: lru_def)
  then obtain xs e ys where a: "addrs c = xs @ e # ys" "payload (m_heap c e) = (k, w0, v0)"
    "ents (m_heap c) xs = newer" "ents (m_heap c) ys = older"
    by (auto simp: map_eq_append_conv map_eq_Cons_conv ents_def)
  moreover have "map_of (m_index c) k = Some e"
    using mid_lookup [OF map_inv_mid [OF inv], of k e] a by (simp add: payload_def)
  ultimately show thesis using that by blast
qed

lemma Replace_fits_spec:
  fixes c :: "('v :: zero) mapCache"
  assumes inv: "map_inv c" and lru: "lru c = newer @ (k, w0, v0) # older"
    and fit: "weight_sum (map (\<lambda>y. entry_weight y) newer) + unat (mapCache_weigh c k v) \<le> unat (m_maxSize c)"
  shows "\<exists>c' kept gc gp. mapCache_Replace env k v c = Inr (c', None,
        calls c (map (event_of EvictionReasonCapacity) gc @ [event_of EvictionReasonReplaced (k, w0, v0)]
          @ map (event_of EvictionReasonPressure) gp))
    \<and> map_inv c' \<and> cfg c' = cfg c \<and> older = kept @ rev gc
    \<and> reclaimed (hot (lockPressure env False c) c) (newer @ (k, mapCache_weigh c k v, v) # kept) gp (lru c')
    \<and> (k, mapCache_weigh c k v, v) \<in> set (lru c')
    \<and> (gc \<noteq> [] \<longrightarrow> mapCache_weigh c k v \<noteq> 0 \<longrightarrow>
        unat (m_maxSize c) < weight_sum (map (\<lambda>y. entry_weight y) (newer @ kept @ [List.last gc])) + unat (mapCache_weigh c k v))"
proof -
  let ?w = "mapCache_weigh c k v"
  obtain c0 se x where lk: "lockMapCache env False c = (c0, se, x)" by (metis prod_cases3)
  note l = lock_props [OF inv lk]
  obtain e xs ys where a: "addrs c = xs @ e # ys" "map_of (m_index c) k = Some e"
    "payload (m_heap c e) = (k, w0, v0)" "ents (m_heap c) xs = newer" "ents (m_heap c) ys = older"
    by (rule Replace_lookup [OF inv lru])
  let ?W = "weights (m_heap c0)"
  have m0: "mid ?W 0 0 0 0 c0 (xs @ e # ys)" using l(1) a(1) by simp
  have p0: "ekey (m_heap c0 e) = k" "esize (m_heap c0 e) = w0" "evalue (m_heap c0 e) = v0"
    using a(3) l(6) by (simp_all add: payload_def)
  have max0: "m_maxSize c0 = m_maxSize c" and cb0: "hasEvictCB c0 = hasEvictCB c" using cfg_simps [OF l(3)] by auto
  have fit0: "weight_sum (map ?W xs) + unat ?w \<le> unat (m_maxSize c0)"
    using fit a(4) ents_weight [of "m_heap c" xs] l(6) max0 by simp
  obtain c1 q1 ys' gs ev where s: "(if ?w \<noteq> esize (m_heap c0 e)
        then mapCache_replaceResizeOrEvictLocked e (esize (m_heap c0 e)) ?w (m_currentSize c0) se x (c0, newEvictQueue False)
        else Inr ((c0, newEvictQueue False), False, False)) = Inr ((c1, q1), ev, False)"
    "mid (?W(e := ?w)) 0 0 0 0 c1 (xs @ e # ys')"
    "tail_evicted (c0, newEvictQueue False) (xs @ e # ys) gs (c1, q1) (xs @ e # ys')"
    "gs \<noteq> [] \<longrightarrow> ?w \<noteq> 0 \<longrightarrow> unat (m_maxSize c0) < weight_sum (map ?W (xs @ ys' @ [List.last gs])) + unat ?w"
    using Replace_stage [OF m0 fit0, of "m_currentSize c0" se x "newEvictQueue False"] by blast
  have ys: "ys = ys' @ rev gs" and sh: "sheds (c0, newEvictQueue False) (xs @ e # ys) (map (\<lambda>a. (a, EvictionReasonCapacity)) gs) (c1, q1) (xs @ e # ys')"
    using s(3) unfolding tail_evicted_def by (simp, blast)
  have pay1: "payload (m_heap c1 b) = payload (m_heap c0 b)" if "b \<in> set (xs @ e # ys')" for b
    by (rule tail_evicted_payload [OF s(3) that])
  have q1: "queue_wf q1" "queue_events q1 = (if hasEvictCB c0 then map (entry_event (m_heap c0) EvictionReasonCapacity) gs else [])"
    using sheds_events [OF sh] by simp_all
  have cfg1: "cfg c1 = cfg c0" using sh by (simp add: sheds_def)
  define c2 where "c2 = c1\<lparr>m_heap := (m_heap c1)(e := (m_heap c1 e)\<lparr>evalue := v, esize := ?w\<rparr>)\<rparr>"
  define c3 where "c3 = onPs (\<lambda>p. p\<lparr>replaceUpdated := replaceUpdated p + 1\<rparr>) c2"
  obtain c4 q4 where nr: "mapCache_notifyReplaced (ekey (m_heap c3 e)) v0 w0 (c3, q1) = (c4, q4)" by (rule prod.exhaust)
  have k3: "ekey (m_heap c3 e) = k" using pay1 [of e] p0 by (simp add: c3_def c2_def payload_simps)
  note n4 = notifyReplaced_spec [OF nr q1(1)]
  have m2: "mid (?W(e := ?w)) 0 0 0 0 c2 (xs @ e # ys')"
    using mid_write [OF s(2), of "(m_heap c1 e)\<lparr>evalue := v, esize := ?w\<rparr>" e "m_currentSize c1" 0] s(2)
    by (simp add: c2_def mid_def)
  have c4: "c4 = onPs (\<lambda>p. p\<lparr>replaceUpdated := replaceUpdated p + 1, evictionsReplaced := evictionsReplaced p + 1,
      evictedWeightReplaced := evictedWeightReplaced p + w0\<rparr>) c2"
    using n4 by (simp add: c3_def onPs_def)
  have m4: "mid (?W(e := ?w)) 0 0 0 0 c4 (xs @ e # ys')"
    unfolding c4 by (rule mid_onPs [OF m2]) (rule ps_ok_updated(2))
  have h4: "m_heap c4 = (m_heap c1)(e := (m_heap c1 e)\<lparr>evalue := v, esize := ?w\<rparr>)" by (simp add: c4 c2_def)
  have dist: "e \<notin> set (xs @ ys')" using mid_distinct [OF m4] by auto
  have W4: "(?W(e := ?w)) b = weights (m_heap c4) b" if "b \<in> set (xs @ e # ys')" for b
    using that pay1 [of b] by (auto simp: h4 weights_def payload_simps)
  have m4': "mid (weights (m_heap c4)) 0 0 0 0 c4 (xs @ e # ys')"
    using mid_W_cong [of "xs @ e # ys'" "?W(e := ?w)" "weights (m_heap c4)"] W4 m4 by blast
  have cfg4: "cfg c4 = cfg c" using cfg1 l(3) by (simp add: c4 c2_def cfg_def)
  have e4: "payload (m_heap c4 e) = (k, ?w, v)" using k3 by (simp add: h4 c3_def c2_def payload_def)
  have "ents (m_heap c4) xs = ents (m_heap c0) xs" "ents (m_heap c4) ys' = ents (m_heap c0) ys'"
    using pay1 dist by (auto intro!: ents_cong simp: h4)
  then have en4: "ents (m_heap c4) (xs @ e # ys') = newer @ (k, ?w, v) # ents (m_heap c0) ys'"
    using e4 a(4) l(6) by simp
  have e4in: "e \<in> set (xs @ e # ys')" by simp
  define rp where "rp = shouldReclaimSingleSurvivorOnMutation (m_ps c4) (mapLen c4) (m_dirtyIndex c4) False ev (m_currentSize c4) (m_currentSize c0) x"
  obtain c5 q5 gp where t: "(if needsMutationReclaim (m_ps c4) rp (m_currentSize c4) (m_currentSize c0) x
       then mapCache_finishMutationReclaimLocked [] (Some e) rp False (m_currentSize c0) se x (c4, q4)
       else Inr ((c4, q4), [])) = Inr ((c5, q5), [] @ map (\<lambda>y. entry_value y) gp)"
    "map_inv c5" "cfg c5 = cfg c4" "payload (m_heap c4 e) \<notin> set gp"
    "reclaimed (hot x c4) (ents (m_heap c4) (xs @ e # ys')) gp (lru c5)" "queue_wf q5"
    "queue_events q5 = queue_events q4 @ (if hasEvictCB c4 then map (event_of EvictionReasonPressure) gp else [])"
    using mutation_reclaim [OF m4' conjunct1 [OF conjunct2 [OF n4]] e4in] by blast
  have cfg5: "cfg c5 = cfg c" using t(3) cfg4 by simp
  have hc: "hot x c4 = hot (lockPressure env False c) c" "hasEvictCB c4 = hasEvictCB c"
    "hasEvictCB c3 = hasEvictCB c"
    using lk cfg_simps [OF cfg4] cfg_simps [OF cfg1] cb0
    by (auto simp: hot_def lockPressure_def c3_def c2_def hasEvictCB_def)
  have ev5: "queue_events q5 = (if hasEvictCB c then map (event_of EvictionReasonCapacity) (ents (m_heap c0) gs)
      @ [event_of EvictionReasonReplaced (k, w0, v0)] @ map (event_of EvictionReasonPressure) gp else [])"
    using t(7) n4 q1(2) hc cb0 k3 by (simp add: event_of_def)
  have tail: "(if needsMutationReclaim (m_ps c4) rp (m_currentSize c4) (m_currentSize c0) x
       then bindr (mapCache_finishMutationReclaimLocked [] (Some e) rp False (m_currentSize c0) se x (c4, q4)) (\<lambda>(st, _). Inr st)
       else Inr (c4, q4)) = Inr (c5, q5)"
    using t(1) by (auto split: if_splits)
  have res: "mapCache_Replace env k v c = Inr (c5, None, invokeCallbacks c5 q5)"
  proof -
    have k0: "map_of (m_index c0) k = Some e" using a(2) l(4) by simp
    have nr0: "mapCache_notifyReplaced (ekey (m_heap c3 e)) (evalue (m_heap c0 e)) (esize (m_heap c0 e)) (c3, q1) = (c4, q4)"
      using nr p0 by simp
    show ?thesis
      unfolding mapCache_Replace_def Let_def lk prod.case k0 option.case s(1) bindr_simps if_False
        c2_def [symmetric] c3_def [symmetric] nr0 rp_def [symmetric] tail unlock_ok [OF t(2)] ..
  qed
  have mini: "gs \<noteq> [] \<longrightarrow> ?w \<noteq> 0 \<longrightarrow> unat (m_maxSize c)
      < weight_sum (map (\<lambda>y. entry_weight y) (newer @ ents (m_heap c0) ys' @ [List.last (ents (m_heap c0) gs)])) + unat ?w"
    using s(4) max0 a(4) ents_weight [of "m_heap c0" xs] l(6) by (cases "gs = []") (auto simp: last_ents weights_last)
  have mem: "(k, ?w, v) \<in> set (lru c5)" using t(4,5) e4 en4 by (auto simp: reclaimed_def)
  have old: "older = ents (m_heap c0) ys' @ rev (ents (m_heap c0) gs)" using a(5) ys l(6) by simp
  have rec: "reclaimed (hot (lockPressure env False c) c) (newer @ (k, ?w, v) # ents (m_heap c0) ys') gp (lru c5)"
    using t(5) unfolding en4 hc(1) .
  show ?thesis
    using res [unfolded invoke_calls [OF t(6) ev5 cfg5]] t(2) cfg5 old rec mem mini
    by - (rule exI [of _ c5], rule exI [of _ "ents (m_heap c0) ys'"], rule exI [of _ "ents (m_heap c0) gs"],
        rule exI [of _ gp], simp add: ents_def)
qed

text \<open>
  C4. \<open>Replace\<close> of a key that is present and whose new value fits beside the entries more recent than it
  gives the key the new weight and value in its old place. A suffix of the older entries is evicted for
  capacity, minimal unless the new weight is zero; under pressure further entries may be shed but never
  the replaced one. The callbacks are those of the capacity evictions, of the old value and of the shed
  entries, in that order.
\<close>
theorem mapCache_Replace_fits:
  fixes c :: "('v :: zero) mapCache"
  assumes inv: "map_inv c" and lru: "lru c = newer @ (k, w0, v0) # older"
    and fit: "weight_sum (map (\<lambda>y. entry_weight y) newer) + unat (mapCache_weigh c k v) \<le> unat (m_maxSize c)"
  shows "\<exists>c' kept gc gp. mapCache_Replace env k v c = Inr (c', None,
        calls c (map (event_of EvictionReasonCapacity) gc @ [event_of EvictionReasonReplaced (k, w0, v0)]
          @ map (event_of EvictionReasonPressure) gp))
    \<and> map_inv c' \<and> cfg c' = cfg c \<and> older = kept @ rev gc
    \<and> reclaimed (hot (lockPressure env False c) c) (newer @ (k, mapCache_weigh c k v, v) # kept) gp (lru c')
    \<and> (k, mapCache_weigh c k v, v) \<in> set (lru c')
    \<and> (gc \<noteq> [] \<longrightarrow> mapCache_weigh c k v \<noteq> 0 \<longrightarrow>
        unat (m_maxSize c) < weight_sum (map (\<lambda>y. entry_weight y) (newer @ kept @ [List.last gc])) + unat (mapCache_weigh c k v))"
  by (rule Replace_fits_spec [OF assms])

lemma Replace_self_evicts_spec:
  fixes c :: "('v :: zero) mapCache"
  assumes inv: "map_inv c" and lru: "lru c = newer @ (k, w0, v0) # older"
    and fit: "unat (m_maxSize c) < weight_sum (map (\<lambda>y. entry_weight y) newer) + unat (mapCache_weigh c k v)"
  shows "\<exists>c' gp. mapCache_Replace env k v c = Inr (c', None,
        calls c (event_of EvictionReasonCapacity (k, w0, v0) # map (event_of EvictionReasonPressure) gp))
    \<and> map_inv c' \<and> cfg c' = cfg c \<and> reclaimed (hot (lockPressure env False c) c) (newer @ older) gp (lru c')"
proof -
  let ?w = "mapCache_weigh c k v"
  obtain c0 se x where lk: "lockMapCache env False c = (c0, se, x)" by (metis prod_cases3)
  note l = lock_props [OF inv lk]
  obtain e xs ys where a: "addrs c = xs @ e # ys" "map_of (m_index c) k = Some e"
    "payload (m_heap c e) = (k, w0, v0)" "ents (m_heap c) xs = newer" "ents (m_heap c) ys = older"
    by (rule Replace_lookup [OF inv lru])
  have m0: "mid (weights (m_heap c0)) 0 0 0 0 c0 (xs @ e # ys)" using l(1) a(1) by simp
  have cfg0: "m_maxSize c0 = m_maxSize c" "hasEvictCB c0 = hasEvictCB c" "hot x c0 = hot (lockPressure env False c) c"
    using cfg_simps [OF l(3)] lk by (auto simp: hot_def lockPressure_def)
  have fit0: "unat (m_maxSize c0) < weight_sum (map (weights (m_heap c0)) xs) + unat ?w"
    using fit a(4) ents_weight [of "m_heap c" xs] l(6) cfg0 by simp
  obtain c1 q1 gp where r: "mapCache_replaceResizeOrEvictLocked e (esize (m_heap c0 e)) ?w (m_currentSize c0) se x (c0, newEvictQueue False)
      = Inr ((c1, q1), False, True)"
    "map_inv c1" "cfg c1 = cfg c0" "reclaimed (hot x c0) (ents (m_heap c0) (xs @ ys)) gp (lru c1)"
    "queue_wf q1" "queue_events q1 = queue_events (newEvictQueue False) @ (if hasEvictCB c0 then
        entry_event (m_heap c0) EvictionReasonCapacity e # map (event_of EvictionReasonPressure) gp else [])"
    using resize_self [OF m0 queue_wf_new fit0] by blast
  have ne: "(?w \<noteq> esize (m_heap c0 e)) = True"
  proof -
    have "unat (m_currentSize c0) = weight_sum (map (weights (m_heap c0)) (xs @ e # ys))"
      "unat (m_currentSize c0) \<le> unat (m_maxSize c0)"
      using m0 by (simp_all add: mid_def word_le_nat_alt)
    then show ?thesis using fit0 by (auto simp: weights_def)
  qed
  have k0: "map_of (m_index c0) k = Some e" using a(2) l(4) by simp
  have cfg1: "cfg c1 = cfg c" using r(3) l(3) by simp
  have ev: "queue_events q1 = (if hasEvictCB c then event_of EvictionReasonCapacity (k, w0, v0) # map (event_of EvictionReasonPressure) gp else [])"
    using r(6) cfg0 a(3) l(6) by (simp add: entry_event_def event_of_def payload_def)
  have res: "mapCache_Replace env k v c = Inr (c1, None, invokeCallbacks c1 q1)"
    unfolding mapCache_Replace_def Let_def lk prod.case k0 option.case ne if_True r(1) bindr_simps
      unlock_ok [OF r(2)] ..
  show ?thesis
    using res [unfolded invoke_calls [OF r(5) ev cfg1]] r(2) cfg1 r(4) cfg0(3) a(4,5) l(6)
    by - (rule exI [of _ c1], rule exI [of _ gp], simp)
qed

text \<open>
  C5. \<open>Replace\<close> with a value that does not fit beside the entries more recent than the key evicts the
  entry itself, and no other entry for capacity: the old value is reported as a capacity eviction, the
  remaining entries keep their order and only pressure can shed more of them.
\<close>
theorem mapCache_Replace_self_evicts:
  fixes c :: "('v :: zero) mapCache"
  assumes inv: "map_inv c" and lru: "lru c = newer @ (k, w0, v0) # older"
    and fit: "unat (m_maxSize c) < weight_sum (map (\<lambda>y. entry_weight y) newer) + unat (mapCache_weigh c k v)"
  shows "\<exists>c' gp. mapCache_Replace env k v c = Inr (c', None,
        calls c (event_of EvictionReasonCapacity (k, w0, v0) # map (event_of EvictionReasonPressure) gp))
    \<and> map_inv c' \<and> cfg c' = cfg c \<and> reclaimed (hot (lockPressure env False c) c) (newer @ older) gp (lru c')"
  by (rule Replace_self_evicts_spec [OF assms])

lemma Replace_absent_spec:
  fixes c :: "('v :: zero) mapCache"
  assumes inv: "map_inv c" and none: "map_of (lru c) k = None"
  shows "\<exists>c'. mapCache_Replace env k v c = Inr (c', Some ErrEntryNotExist, []) \<and> map_inv c' \<and> lru c' = lru c \<and> cfg c' = cfg c"
proof -
  obtain c0 se x where lk: "lockMapCache env False c = (c0, se, x)" by (metis prod_cases3)
  note l = lock_props [OF inv lk]
  have inv0: "map_inv c0" using l(1) mid_addrs [OF l(1)] by (simp add: map_inv_def)
  define c1 where "c1 = onPs (\<lambda>p. p\<lparr>replaceNotFound := replaceNotFound p + 1\<rparr>) c0"
  have c1: "map_inv c1 \<and> lru c1 = lru c0" unfolding c1_def by (rule inv_onPs [OF inv0]) simp_all
  have k0: "map_of (m_index c0) k = None"
    using lookup_item(1) [OF inv, of k] none l(4) by (cases "map_of (m_index c) k") auto
  have "mapCache_Replace env k v c = Inr (c1, Some ErrEntryNotExist, [])"
    unfolding mapCache_Replace_def Let_def lk prod.case k0 option.case c1_def [symmetric]
      unlock_ok [OF conjunct1 [OF c1]] bindr_simps ..
  then show ?thesis using c1 l(2,3) by (auto simp: c1_def cfg_def)
qed

text \<open>
  \<open>Replace\<close> of an absent key fails with \<open>ErrEntryNotExist\<close>, calls nothing and changes no entry.
\<close>
theorem mapCache_Replace_absent:
  fixes c :: "('v :: zero) mapCache"
  assumes inv: "map_inv c" and none: "map_of (lru c) k = None"
  shows "\<exists>c'. mapCache_Replace env k v c = Inr (c', Some ErrEntryNotExist, []) \<and> map_inv c' \<and> lru c' = lru c \<and> cfg c' = cfg c"
  by (rule Replace_absent_spec [OF assms])

lemma Put_oversized_spec:
  fixes c :: "('v :: zero) mapCache"
  assumes inv: "map_inv c" and w: "m_maxSize c < mapCache_weigh c k v"
  shows "\<exists>c'. mapCache_Put env k v c = Inr (c', [], Some ErrInvalidEntrySize, []) \<and> map_inv c' \<and> lru c' = lru c \<and> cfg c' = cfg c"
proof -
  define c1 where "c1 = onPs (\<lambda>p. p\<lparr>putRejectedOversized := putRejectedOversized p + 1\<rparr>) c"
  have c1: "map_inv c1 \<and> lru c1 = lru c" unfolding c1_def by (rule inv_onPs [OF inv]) simp_all
  then show ?thesis using w by (simp add: mapCache_Put_def c1_def [symmetric]) (simp add: c1_def cfg_def)
qed

text \<open>
  \<open>Put\<close> of an entry heavier than the whole cache fails with \<open>ErrInvalidEntrySize\<close>, evicts nothing,
  calls nothing and changes no entry.
\<close>
theorem mapCache_Put_oversized:
  fixes c :: "('v :: zero) mapCache"
  assumes inv: "map_inv c" and w: "m_maxSize c < mapCache_weigh c k v"
  shows "\<exists>c'. mapCache_Put env k v c = Inr (c', [], Some ErrInvalidEntrySize, []) \<and> map_inv c' \<and> lru c' = lru c \<and> cfg c' = cfg c"
  by (rule Put_oversized_spec [OF assms])

theorem mapCache_Replace_fits_witness:
  "\<exists>c' cbs. mapCache_Replace sampleEnv ''a'' 3 sampleOne = Inr (c', None, cbs) \<and> map_inv c' \<and> (''a'', 3, 3) \<in> set (lru c')"
  using mapCache_Replace_fits [OF sampleOne_ok(1), of "[]" "''a''" 2 2 "[]" 3 sampleEnv]
  by (auto simp: sampleOne_ok)

theorem mapCache_Replace_self_evicts_witness:
  "\<exists>c' cbs. mapCache_Replace sampleEnv ''a'' 4 sampleOne = Inr (c', None, cbs) \<and> map_inv c' \<and> lru c' = []"
  using mapCache_Replace_self_evicts [OF sampleOne_ok(1), of "[]" "''a''" 2 2 "[]" 4 sampleEnv]
  by (auto simp: sampleOne_ok reclaimed_def)

theorem mapCache_Replace_absent_witness:
  "\<exists>c'. mapCache_Replace sampleEnv ''b'' 1 sampleOne = Inr (c', Some ErrEntryNotExist, []) \<and> lru c' = [(''a'', 2, 2)]"
  using mapCache_Replace_absent [OF sampleOne_ok(1), of "''b''" sampleEnv 1] by (auto simp: sampleOne_ok)

theorem mapCache_Put_oversized_witness:
  "\<exists>c'. mapCache_Put sampleEnv ''b'' 4 sampleOne = Inr (c', [], Some ErrInvalidEntrySize, []) \<and> lru c' = [(''a'', 2, 2)]"
proof -
  have "m_maxSize sampleOne < mapCache_weigh sampleOne ''b'' 4" by (simp add: sampleOne_ok)
  from mapCache_Put_oversized [OF sampleOne_ok(1) this, of sampleEnv] show ?thesis by (auto simp: sampleOne_ok)
qed

end
