(* ===== verification/Engine.thy ===== *)
theory Engine
  imports Prelude "HOL-Library.Sublist"
begin

text \<open>
  What a client of a cache engine relies on (\<^verbatim>\<open>cache.go\<close>, the \<open>Cache\<close> interface), whichever backend
  implements it: the entries are a list without duplicate keys, most recently used first; a successful
  \<open>Put\<close> makes its entry the first one and can only drop others; lookups answer from the list.
  The laws are proved for a backend by an interpretation of the locale.
\<close>

lemma subseq_mem: "subseq xs ys \<Longrightarrow> set xs \<subseteq> set ys"
  by (induction rule: list_emb.induct) auto

locale lru_engine =
  fixes inv :: "'c \<Rightarrow> bool"
    and items :: "'c \<Rightarrow> (string \<times> u64 \<times> 'v) list"
    and accepts :: "'c \<Rightarrow> string \<Rightarrow> 'v \<Rightarrow> bool"
    and put :: "'e \<Rightarrow> string \<Rightarrow> 'v \<Rightarrow> 'c \<Rightarrow> ('c \<times> 'p) res"
    and get :: "string \<Rightarrow> 'c \<Rightarrow> ('c \<times> 'v \<times> bool) res"
    and peek :: "string \<Rightarrow> 'c \<Rightarrow> ('c \<times> 'v \<times> bool) res"
    and del :: "'e \<Rightarrow> string \<Rightarrow> 'c \<Rightarrow> ('c \<times> 'v \<times> bool \<times> 'd) res"
    and dflt :: 'v
  assumes distinct_keys: "inv c \<Longrightarrow> distinct (map fst (items c))"
    and put_law: "inv c \<Longrightarrow> accepts c k v \<Longrightarrow> \<exists>c' r w keep. put e k v c = Inr (c', r) \<and> inv c'
      \<and> items c' = (k, w, v) # keep \<and> subseq keep (filter (\<lambda>x. fst x \<noteq> k) (items c))"
    and get_law: "inv c \<Longrightarrow> \<exists>c'. get k c = Inr (c', case map_of (items c) k of Some (w, v) \<Rightarrow> v | None \<Rightarrow> dflt, map_of (items c) k \<noteq> None)
      \<and> inv c' \<and> items c' = (case map_of (items c) k of Some (w, v) \<Rightarrow> (k, w, v) # filter (\<lambda>x. fst x \<noteq> k) (items c) | None \<Rightarrow> items c)"
    and peek_law: "inv c \<Longrightarrow> \<exists>c'. peek k c = Inr (c', case map_of (items c) k of Some (w, v) \<Rightarrow> v | None \<Rightarrow> dflt, map_of (items c) k \<noteq> None)
      \<and> inv c' \<and> items c' = items c"
    and del_law: "inv c \<Longrightarrow> \<exists>c' r. del e k c = Inr (c', r) \<and> inv c' \<and> subseq (items c') (filter (\<lambda>x. fst x \<noteq> k) (items c))"
begin

definition answer :: "string \<Rightarrow> 'c \<Rightarrow> 'v option" where
  \<comment> \<open>what a lookup finds\<close>
  "answer k c = map_option snd (map_of (items c) k)"

lemma get_answer:
  assumes "inv c"
  shows "\<exists>c'. get k c = Inr (c', case answer k c of Some v \<Rightarrow> v | None \<Rightarrow> dflt, answer k c \<noteq> None) \<and> inv c'
    \<and> (\<forall>k'. answer k' c' = answer k' c)"
proof -
  obtain c' where c': "get k c = Inr (c', case map_of (items c) k of Some (w, v) \<Rightarrow> v | None \<Rightarrow> dflt, map_of (items c) k \<noteq> None)"
    "inv c'" "items c' = (case map_of (items c) k of Some (w, v) \<Rightarrow> (k, w, v) # filter (\<lambda>x. fst x \<noteq> k) (items c) | None \<Rightarrow> items c)"
    using get_law [OF assms] by blast
  have "map_of (filter (\<lambda>x. fst x \<noteq> k) xs) k' = map_of xs k'" if "k' \<noteq> k" for k' and xs :: "(string \<times> u64 \<times> 'v) list"
    using that by (induction xs) auto
  then have "answer k' c' = answer k' c" for k'
    using c'(3) by (cases "k' = k") (auto simp: answer_def split: option.splits)
  then show ?thesis using c'(1,2) by (auto simp: answer_def split: option.splits)
qed

lemma peek_get:
  assumes "inv c"
  shows "\<exists>c1 c2 v b. peek k c = Inr (c1, v, b) \<and> get k c = Inr (c2, v, b)"
  using peek_law [OF assms, of k] get_law [OF assms, of k] by blast

lemma put_get:
  assumes "inv c" "accepts c k v"
  shows "\<exists>c1 r c2. put e k v c = Inr (c1, r) \<and> get k c1 = Inr (c2, v, True)"
proof -
  obtain c1 r w keep where p: "put e k v c = Inr (c1, r)" "inv c1" "items c1 = (k, w, v) # keep"
    using put_law [OF assms] by blast
  then show ?thesis using get_law [OF p(2), of k] by auto
qed

lemma put_other:
  assumes "inv c" "accepts c k v" "k' \<noteq> k"
  shows "\<exists>c1 r. put e k v c = Inr (c1, r) \<and> inv c1 \<and> answer k' c1 \<in> {answer k' c, None}"
proof -
  obtain c1 r w keep where p: "put e k v c = Inr (c1, r)" "inv c1" "items c1 = (k, w, v) # keep"
    "subseq keep (filter (\<lambda>x. fst x \<noteq> k) (items c))"
    using put_law [OF assms(1,2)] by blast
  have "set keep \<subseteq> set (items c)" using p(4) by (auto dest: subseq_mem [THEN subsetD])
  then have "map_of (items c) k' = Some y" if "map_of keep k' = Some y" for y
    using that distinct_keys [OF assms(1)] by (auto dest!: map_of_SomeD simp: map_of_eq_Some_iff)
  then show ?thesis using p assms(3) by (cases "map_of keep k'") (auto simp: answer_def)
qed

lemma del_get:
  assumes "inv c"
  shows "\<exists>c1 r c2. del e k c = Inr (c1, r) \<and> get k c1 = Inr (c2, dflt, False)"
proof -
  obtain c1 r where d: "del e k c = Inr (c1, r)" "inv c1" "subseq (items c1) (filter (\<lambda>x. fst x \<noteq> k) (items c))"
    using del_law [OF assms] by blast
  have "set (items c1) \<subseteq> {x. fst x \<noteq> k}" using d(3) by (auto dest: subseq_mem [THEN subsetD])
  then have "map_of (items c1) k = None" by (auto simp: map_of_eq_None_iff)
  moreover obtain c2 where "get k c1 = Inr (c2, case map_of (items c1) k of Some (w, v) \<Rightarrow> v | None \<Rightarrow> dflt, map_of (items c1) k \<noteq> None)"
    using get_law [OF d(2)] by blast
  ultimately show ?thesis using d(1) by (cases r) auto
qed

end

end
