(* ===== verification/MapTrace.thy ===== *)
theory MapTrace
  imports MapReplace Engine
begin

text \<open>
  The map backend as a whole: it is an \<open>lru_engine\<close>, and every state its operations can reach from a
  new cache satisfies the invariant, so that no sequence of calls panics.
\<close>

subsection \<open>The map backend is a cache engine\<close>

definition put_accepts :: "'v mapCache \<Rightarrow> string \<Rightarrow> 'v \<Rightarrow> bool" where
  \<comment> \<open>the entry is not heavier than the cache, and fewer than \<open>2 ^ 64 - 1\<close> keys were ever inserted\<close>
  "put_accepts c k v = (mapCache_weigh c k v \<le> m_maxSize c \<and> putInserted (m_ps c) \<noteq> - 1)"

lemma map_inv_distinct: "map_inv c \<Longrightarrow> distinct (map fst (lru c))"
  using keys_inj [OF map_inv_mid, of c] mid_distinct [OF map_inv_mid, of c] by (simp add: lru_def comp_def distinct_map)

lemma reclaimed_subseq: "reclaimed b xs gp ys \<Longrightarrow> subseq ys xs"
  by (auto simp: reclaimed_def)

interpretation map_engine: lru_engine map_inv lru put_accepts mapCache_Put mapCache_Get mapCache_Peek mapCache_Delete
  "0 :: 'v :: zero"
proof unfold_locales
  fix c :: "'v mapCache" and k v and e :: samplingEnv
  assume inv: "map_inv c"
  show "distinct (map fst (lru c))" by (rule map_inv_distinct [OF inv])
  show "\<exists>c' r w keep. mapCache_Put e k v c = Inr (c', r) \<and> map_inv c' \<and> lru c' = (k, w, v) # keep
      \<and> subseq keep (filter (\<lambda>x. fst x \<noteq> k) (lru c))" if acc: "put_accepts c k v"
  proof -
    have ok: "mapCache_weigh c k v \<le> m_maxSize c" "putInserted (m_ps c) \<noteq> - 1" using acc by (simp_all add: put_accepts_def)
    obtain c' rest gc gp keep r where p: "mapCache_Put e k v c = Inr (c', r)" "map_inv c'" "others k (lru c) = rest @ rev gc"
      "reclaimed (hot (lockPressure e False c) c) rest gp keep" "lru c' = (k, mapCache_weigh c k v, v) # keep"
      using Put_spec [OF inv ok, of e] by blast
    have "subseq keep (others k (lru c))" unfolding p(3) using reclaimed_subseq [OF p(4)] by (rule subseq_rev_drop_many)
    then show ?thesis using p(1,2,5) unfolding others_def by blast
  qed
  show "\<exists>c' r. mapCache_Delete e k c = Inr (c', r) \<and> map_inv c' \<and> subseq (lru c') (filter (\<lambda>x. fst x \<noteq> k) (lru c))"
  proof -
    obtain c' r b gp where "mapCache_Delete e k c = Inr (c', r)" "map_inv c'" "reclaimed b (others k (lru c)) gp (lru c')"
      using Delete_spec [OF inv, of e k] by blast
    then show ?thesis using reclaimed_subseq unfolding others_def by blast
  qed
  show "\<exists>c'. mapCache_Get k c = Inr (c', case map_of (lru c) k of Some (w, v) \<Rightarrow> v | None \<Rightarrow> 0, map_of (lru c) k \<noteq> None)
      \<and> map_inv c' \<and> lru c' = (case map_of (lru c) k of Some (w, v) \<Rightarrow> (k, w, v) # filter (\<lambda>x. fst x \<noteq> k) (lru c) | None \<Rightarrow> lru c)"
    using Get_spec [OF inv, of k] unfolding others_def by blast
  show "\<exists>c'. mapCache_Peek k c = Inr (c', case map_of (lru c) k of Some (w, v) \<Rightarrow> v | None \<Rightarrow> 0, map_of (lru c) k \<noteq> None)
      \<and> map_inv c' \<and> lru c' = lru c"
    using Peek_spec [OF inv, of k] by blast
qed


subsection \<open>Reachable states\<close>

datatype 'v mapOp =
  OpPut string 'v
| OpGet string
| OpPeek string
| OpDelete string
| OpReplace string 'v
| OpDeletePrefix string
| OpIterate "(string \<times> 'v) list \<Rightarrow> bool"
| OpCompact
| OpEvaluate
| OpStats

fun runOp :: "samplingEnv \<Rightarrow> (string list \<Rightarrow> string list) \<Rightarrow> 'v mapOp \<Rightarrow> ('v :: zero) mapCache \<Rightarrow> 'v mapCache res" where
  "runOp env rng (OpPut k v) c = bindr (mapCache_Put env k v c) (\<lambda>(c', _). Inr c')"
| "runOp env rng (OpGet k) c = bindr (mapCache_Get k c) (\<lambda>(c', _). Inr c')"
| "runOp env rng (OpPeek k) c = bindr (mapCache_Peek k c) (\<lambda>(c', _). Inr c')"
| "runOp env rng (OpDelete k) c = bindr (mapCache_Delete env k c) (\<lambda>(c', _). Inr c')"
| "runOp env rng (OpReplace k v) c = bindr (mapCache_Replace env k v c) (\<lambda>(c', _). Inr c')"
| "runOp env rng (OpDeletePrefix pre) c = bindr (mapCache_DeletePrefix env rng pre c) (\<lambda>(c', _). Inr c')"
| "runOp env rng (OpIterate yld) c = bindr (mapCache_iterateAll yld c) (\<lambda>_. Inr c)"
| "runOp env rng OpCompact c = mapCache_Compact c"
| "runOp env rng OpEvaluate c = bindr (mapCache_EvaluateMemoryPressure env c) (\<lambda>(c', _). Inr c')"
| "runOp env rng OpStats c = bindr (mapCache_Stats c) (\<lambda>_. Inr c)"

inductive mapReachable :: "u64 \<Rightarrow> 'v Options \<Rightarrow> ('v :: zero) mapCache \<Rightarrow> bool" for maxSz opts where
  start: "newMapCacheWithOptions maxSz opts = Inr c \<Longrightarrow> mapReachable maxSz opts c"
| step: "mapReachable maxSz opts c \<Longrightarrow> (\<And>ks. mset (rng ks) = mset ks) \<Longrightarrow> putInserted (m_ps c) \<noteq> - 1 \<Longrightarrow>
    runOp env rng opn c = Inr c' \<Longrightarrow> mapReachable maxSz opts c'"

lemma Replace_keeps:
  fixes c :: "('v :: zero) mapCache"
  assumes inv: "map_inv c"
  shows "\<exists>c' r. mapCache_Replace env k v c = Inr (c', r) \<and> map_inv c' \<and> cfg c' = cfg c"
proof (cases "map_of (lru c) k")
  case None
  show ?thesis using Replace_absent_spec [OF inv None, of env v] by blast
next
  case (Some y)
  obtain w0 v0 where "y = (w0, v0)" by (rule prod.exhaust)
  then have "(k, w0, v0) \<in> set (lru c)" using Some by (simp add: map_of_SomeD)
  then obtain newer older where lru: "lru c = newer @ (k, w0, v0) # older" by (metis split_list)
  show ?thesis
  proof (cases "weight_sum (map (\<lambda>y. entry_weight y) newer) + unat (mapCache_weigh c k v) \<le> unat (m_maxSize c)")
    case True
    show ?thesis using Replace_fits_spec [OF inv lru True, of env] by blast
  next
    case False
    then have "unat (m_maxSize c) < weight_sum (map (\<lambda>y. entry_weight y) newer) + unat (mapCache_weigh c k v)" by simp
    from Replace_self_evicts_spec [OF inv lru this, of env] show ?thesis by blast
  qed
qed

lemma Put_keeps:
  fixes c :: "('v :: zero) mapCache"
  assumes inv: "map_inv c" and room: "putInserted (m_ps c) \<noteq> - 1"
  shows "\<exists>c' r. mapCache_Put env k v c = Inr (c', r) \<and> map_inv c' \<and> cfg c' = cfg c"
proof (cases "mapCache_weigh c k v \<le> m_maxSize c")
  case True
  show ?thesis using Put_spec [OF inv True room, of env] by blast
next
  case False
  then have "m_maxSize c < mapCache_weigh c k v" by simp
  from Put_oversized_spec [OF inv this, of env] show ?thesis by blast
qed

lemma Stats_total: "map_inv c \<Longrightarrow> \<exists>s. mapCache_Stats c = Inr s"
  by (simp add: mapCache_Stats_def unlock_ok)

lemma Evaluate_keeps:
  fixes c :: "('v :: zero) mapCache"
  assumes "map_inv c"
  shows "\<exists>c' r. mapCache_EvaluateMemoryPressure env c = Inr (c', r) \<and> map_inv c' \<and> cfg c' = cfg c"
proof -
  have "valid_pressure (h_pressure emptyShardSample)" by (simp add: emptyShardSample_def)
  then obtain c' q' vs out where "mapCache_evaluateShardPressure env emptyShardSample (c, newEvictQueue True) = Inr ((c', q'), vs, out)"
    "map_inv c'" "cfg c' = cfg c"
    using evaluateShard_spec [OF assms, where h = emptyShardSample and env = env and q = "newEvictQueue True"] queue_wf_new by blast
  then show ?thesis by (simp add: mapCache_EvaluateMemoryPressure_def)
qed

lemma runOp_keeps:
  fixes c :: "('v :: zero) mapCache"
  assumes inv: "map_inv c" and room: "putInserted (m_ps c) \<noteq> - 1" and rng: "\<And>ks. mset (rng ks) = mset ks"
  shows "\<exists>c'. runOp env rng opn c = Inr c' \<and> map_inv c' \<and> cfg c' = cfg c"
proof (cases opn)
  case (OpPut k v)
  then show ?thesis using Put_keeps [OF inv room, of env k v] by auto
next
  case (OpGet k)
  then show ?thesis using Get_spec [OF inv, of k] by auto
next
  case (OpPeek k)
  then show ?thesis using Peek_spec [OF inv, of k] by auto
next
  case (OpDelete k)
  then show ?thesis using Delete_spec [OF inv, of env k] by auto
next
  case (OpReplace k v)
  then show ?thesis using Replace_keeps [OF inv, of env k v] by auto
next
  case (OpDeletePrefix pre)
  then show ?thesis using DeletePrefix_spec [OF inv rng, where env = env and pre = pre] by auto
next
  case (OpIterate yld)
  then show ?thesis using iterateAll_spec [OF inv, of yld] inv by auto
next
  case OpCompact
  then show ?thesis using Compact_spec [OF inv] by auto
next
  case OpEvaluate
  then show ?thesis using Evaluate_keeps [OF inv, of env] by auto
next
  case OpStats
  then show ?thesis using Stats_total [OF inv] inv by auto
qed

lemma new_inv:
  assumes "newMapCacheWithOptions maxSz opts = Inr c" "thresholds_ok opts" "maxSz \<noteq> 0"
  shows "map_inv c \<and> m_maxSize c = maxSz"
proof -
  have "\<not> callbackMismatch (oWeigher opts)" "\<not> callbackMismatch (oOnEvictValue opts)" "\<not> callbackMismatch (oOnEvictEntry opts)"
    using assms(1) by (auto simp: newMapCacheWithOptions_def callbackMismatch_def Let_def bindr_def split: sum.splits if_splits)
  then show ?thesis using newMapCache_inv [OF assms(2,3)] assms(1) by auto
qed

lemma reachable_inv:
  assumes "mapReachable maxSz opts c" "thresholds_ok opts" "maxSz \<noteq> 0"
  shows "map_inv c \<and> m_maxSize c = maxSz"
  using assms(1)
proof induction
  case (start c)
  then show ?case using new_inv assms(2,3) by blast
next
  case (step c rng env opn c')
  then show ?case using runOp_keeps [of c rng env opn] cfg_simps [of c' c] by auto
qed

subsection \<open>What callers can rely on\<close>

text \<open>
  C2. Every state a sequence of calls can reach from a new cache is consistent: the size counter is the
  sum of the weights of the entries and never exceeds the capacity, no key occurs twice, a key is in the
  index exactly when it is in the recency list, and the run-time invariant checks of the code pass.
\<close>
theorem mapReachable_consistent:
  fixes c :: "('v :: zero) mapCache"
  assumes r: "mapReachable maxSz opts c" and t: "thresholds_ok opts" and m: "maxSz \<noteq> 0"
  shows "unat (m_currentSize c) = weight_sum (map (\<lambda>x. entry_weight x) (lru c)) \<and> m_currentSize c \<le> maxSz
    \<and> distinct (map (\<lambda>x. entry_key x) (lru c)) \<and> set (map fst (m_index c)) = set (map (\<lambda>x. entry_key x) (lru c))
    \<and> mapCache_checkInvariants c = Inr ()"
proof -
  have inv: "map_inv c" and mx: "m_maxSize c = maxSz" using reachable_inv [OF r t m] by auto
  note md = map_inv_mid [OF inv]
  have "index_ok (m_index c) (m_heap c) (addrs c)" using md by (simp add: mid_def map_repr_def)
  then have "fst ` set (m_index c) = (\<lambda>a. ekey (m_heap c a)) ` set (addrs c)"
    by (auto simp: index_ok_def image_image)
  then show ?thesis
    using md mx map_inv_distinct [OF inv] checkInvariants_ok [OF inv] ents_weight [of "m_heap c" "addrs c"]
    by (simp add: mid_def lru_ents [OF md] image_image)
qed

text \<open>
  C3. No call on a reachable cache panics, dereferences nil or runs forever: each operation returns a state,
  and it is again reachable (the insertion counter must not have reached its last value, and \<open>range\<close>
  visits each key once).
\<close>
theorem mapReachable_no_panic:
  fixes c :: "('v :: zero) mapCache"
  assumes r: "mapReachable maxSz opts c" and t: "thresholds_ok opts" and m: "maxSz \<noteq> 0"
    and room: "putInserted (m_ps c) \<noteq> - 1" and rng: "\<And>ks. mset (rng ks) = mset ks"
  shows "\<exists>c'. runOp env rng opn c = Inr c' \<and> mapReachable maxSz opts c'"
proof -
  have "map_inv c" using reachable_inv [OF r t m] by blast
  then obtain c' where "runOp env rng opn c = Inr c'" using runOp_keeps [OF _ room rng] by blast
  then show ?thesis using mapReachable.step [OF r rng room] by blast
qed

text \<open>
  A snapshot of a reachable cache is truthful: it reports the number of entries, how many of them weigh
  nothing, and the size; and every key ever inserted is either still there or was counted once as evicted
  for capacity, shed under pressure or deleted.
\<close>
theorem mapReachable_Stats:
  fixes c :: "('v :: zero) mapCache"
  assumes r: "mapReachable maxSz opts c" and t: "thresholds_ok opts" and m: "maxSz \<noteq> 0"
  shows "\<exists>s. mapCache_Stats c = Inr s \<and> Len s = int (length (lru c)) \<and> MaxSize s = maxSz
    \<and> ZeroSizeCount s = int (length (filter (\<lambda>x. entry_weight x = 0) (lru c)))
    \<and> unat (CurrentSize s) = weight_sum (map (\<lambda>x. entry_weight x) (lru c))
    \<and> length (lru c) + unat (Stats_Evictions s EvictionReasonCapacity) + unat (Stats_Evictions s EvictionReasonPressure)
        + unat (Stats_Evictions s EvictionReasonDeleted) = unat (PutInserted s)
    \<and> Stats_Evictions s EvictionReasonReplaced = PutUpdated s + ReplaceUpdated s"
proof -
  have inv: "map_inv c" and mx: "m_maxSize c = maxSz" using reachable_inv [OF r t m] by auto
  note md = map_inv_mid [OF inv]
  have z: "count_list (map W xs) 0 = length (filter (\<lambda>a. W a = 0) xs)" for W :: "addr \<Rightarrow> u64" and xs
    by (induction xs) auto
  have ew: "map (\<lambda>x. entry_weight x) (lru c) = map (weights (m_heap c)) (addrs c)" and ln: "length (lru c) = length (addrs c)"
    by (simp_all add: lru_ents [OF md] ents_weight) (simp add: ents_def)
  have "length (filter (\<lambda>x. entry_weight x = 0) (lru c)) = length (filter (\<lambda>a. weights (m_heap c) a = 0) (addrs c))"
    by (simp add: lru_def filter_map comp_def weights_def)
  moreover have "ps_ok (m_ps c) (length (addrs c)) (count_list (map (weights (m_heap c)) (addrs c)) 0) 0 0 0"
    "unat (m_currentSize c) = weight_sum (map (weights (m_heap c)) (addrs c))"
    using md by (simp_all add: mid_def)
  ultimately show ?thesis
    using mx unlock_ok [OF inv] mid_len [OF md] ew ln
    by (auto simp: mapCache_Stats_def snapshotBaseStats_def ps_ok_def books_ok_def z)
qed

text \<open>
  C11. What is put is found: a \<open>Get\<close> right after a \<open>Put\<close> that the cache accepts returns the value just put,
  whatever had to be evicted for it.
\<close>
theorem mapCache_Put_Get:
  fixes c :: "('v :: zero) mapCache"
  assumes "map_inv c" "put_accepts c k v"
  shows "\<exists>c1 r c2. mapCache_Put env k v c = Inr (c1, r) \<and> mapCache_Get k c1 = Inr (c2, v, True)"
  by (rule map_engine.put_get [OF assms])

text \<open>
  A \<open>Put\<close> of one key never changes the value found under another: that key still has its value, or it
  was evicted and is not found at all.
\<close>
theorem mapCache_Put_other:
  fixes c :: "('v :: zero) mapCache"
  assumes "map_inv c" "put_accepts c k v" "k' \<noteq> k"
  shows "\<exists>c1 r. mapCache_Put env k v c = Inr (c1, r) \<and> map_inv c1
    \<and> map_option snd (map_of (lru c1) k') \<in> {map_option snd (map_of (lru c) k'), None}"
  using map_engine.put_other [OF assms, of env] by (simp only: map_engine.answer_def)

text \<open>
  What is deleted is gone: a \<open>Get\<close> right after a \<open>Delete\<close> of the same key misses.
\<close>
theorem mapCache_Delete_Get:
  fixes c :: "('v :: zero) mapCache"
  assumes "map_inv c"
  shows "\<exists>c1 r c2. mapCache_Delete env k c = Inr (c1, r) \<and> mapCache_Get k c1 = Inr (c2, 0, False)"
  by (rule map_engine.del_get [OF assms])

subsection \<open>Witnesses\<close>

lemma sample_reachable: "mapReachable 3 sampleOpts sampleCache"
  by (rule mapReachable.start [OF sampleCache_new])

theorem mapReachable_consistent_witness:
  "unat (m_currentSize sampleCache) = 0 \<and> mapCache_checkInvariants sampleCache = Inr ()"
  using mapReachable_consistent [OF sample_reachable sampleOpts_ok(4)] by (simp add: sampleCache_ok)

theorem mapReachable_no_panic_witness:
  "\<exists>c'. runOp sampleEnv rev (OpPut ''a'' 5) sampleCache = Inr c'"
  using mapReachable_no_panic [OF sample_reachable sampleOpts_ok(4), of rev sampleEnv "OpPut ''a'' 5"]
  by (auto simp: sampleCache_ok simp del: runOp.simps)

theorem mapReachable_Stats_witness:
  "\<exists>s. mapCache_Stats sampleCache = Inr s \<and> Len s = 0 \<and> MaxSize s = 3"
  using mapReachable_Stats [OF sample_reachable sampleOpts_ok(4)] by (auto simp: sampleCache_ok)

lemma sample_accepts: "put_accepts sampleCache ''a'' 2"
  by (simp add: put_accepts_def sampleCache_ok)

theorem mapCache_Put_Get_witness:
  "\<exists>c1 r c2. mapCache_Put sampleEnv ''a'' 2 sampleCache = Inr (c1, r) \<and> mapCache_Get ''a'' c1 = Inr (c2, 2, True)"
  by (rule mapCache_Put_Get [OF sampleCache_ok(1) sample_accepts])

theorem mapCache_Put_other_witness:
  "\<exists>c1 r. mapCache_Put sampleEnv ''a'' 2 sampleCache = Inr (c1, r) \<and> map_of (lru c1) ''b'' = None"
  using mapCache_Put_other [OF sampleCache_ok(1) sample_accepts, of "''b''" sampleEnv] by (auto simp: sampleCache_ok)

theorem mapCache_Delete_Get_witness:
  "\<exists>c1 r c2. mapCache_Delete sampleEnv ''a'' sampleOne = Inr (c1, r) \<and> mapCache_Get ''a'' c1 = Inr (c2, 0, False)"
  by (rule mapCache_Delete_Get [OF sampleOne_ok(1)])

end
