(* ===== verification/Sharded.thy ===== *)
theory Sharded
  imports MapTrace
begin

text \<open>
  The sharded cache (\<^verbatim>\<open>sharded_lru.go\<close>): keys are routed by a shard function to one of \<open>n\<close>
  independent engines that share a pressure coordinator.

  Go's interface \<open>shardEngine\<close> is a record of operations here, and a sharded cache works on any
  instance of it. A cache of arena backends with the default shard function hashes a key once, for the
  routing and for the backend; that fast path is taken when \<open>sc_arenaShards\<close> holds the hash function,
  and the shards then provide the hashed variants of the operations. The coordinator is one object in Go; here it is the field \<open>sc_coord\<close>, which an
  operation hands to the shard it runs on and takes back afterwards. The default shard function
  hashes with a seed chosen at random per process, so the hash is an argument.
\<close>

unbundle bit_operations_syntax

subsection \<open>Routing\<close>

definition shardIndexFromHash :: "u64 \<Rightarrow> int \<Rightarrow> int" where
  "shardIndexFromHash h numShards =
    (if numShards AND (numShards - 1) = 0 then sint (h AND word_of_int (numShards - 1))
     else sint (h mod word_of_int numShards))"

definition DefaultShardFunc :: "(string \<Rightarrow> u64) \<Rightarrow> string \<Rightarrow> int \<Rightarrow> int res" where
  "DefaultShardFunc hash key numShards =
    (if numShards \<le> 0 then Inl (Panic ''numShards must be greater than zero'')
     else if numShards = 1 then Inr 0
     else Inr (shardIndexFromHash (hash key) numShards))"

definition validateShards :: "u64 \<Rightarrow> int \<Rightarrow> unit res" where
  "validateShards maxSz shards =
    (if shards \<le> 0 then Inl (Panic ''shards must be greater than zero'')
     else if maxSz < word_of_int shards then Inl (Panic ''shards must not exceed maxSize'')
     else Inr ())"

subsection \<open>Engines and the sharded cache\<close>

record ('c, 'v) shardEngine =
  en_new :: "u64 \<Rightarrow> 'v Options \<Rightarrow> 'c res"
  en_coord :: "'c \<Rightarrow> coordState"
  en_setCoord :: "coordState \<Rightarrow> 'c \<Rightarrow> 'c"
  en_Put :: "samplingEnv \<Rightarrow> string \<Rightarrow> 'v \<Rightarrow> 'c \<Rightarrow> ('c \<times> 'v list \<times> lruError option \<times> 'v callback list) res"
  en_Delete :: "samplingEnv \<Rightarrow> string \<Rightarrow> 'c \<Rightarrow> ('c \<times> 'v \<times> bool \<times> 'v callback list) res"
  en_Get :: "string \<Rightarrow> 'c \<Rightarrow> ('c \<times> 'v \<times> bool) res"
  en_Peek :: "string \<Rightarrow> 'c \<Rightarrow> ('c \<times> 'v \<times> bool) res"
  en_Replace :: "samplingEnv \<Rightarrow> string \<Rightarrow> 'v \<Rightarrow> 'c \<Rightarrow> ('c \<times> lruError option \<times> 'v callback list) res"
  en_putWithHash :: "samplingEnv \<Rightarrow> string \<Rightarrow> u64 \<Rightarrow> 'v \<Rightarrow> 'c \<Rightarrow> ('c \<times> 'v list \<times> lruError option \<times> 'v callback list) res"
  en_deleteWithHash :: "samplingEnv \<Rightarrow> string \<Rightarrow> u64 \<Rightarrow> 'c \<Rightarrow> ('c \<times> 'v \<times> bool \<times> 'v callback list) res"
  en_getWithHash :: "string \<Rightarrow> u64 \<Rightarrow> 'c \<Rightarrow> ('c \<times> 'v \<times> bool) res"
  en_peekWithHash :: "string \<Rightarrow> u64 \<Rightarrow> 'c \<Rightarrow> ('c \<times> 'v \<times> bool) res"
  en_replaceWithHash :: "samplingEnv \<Rightarrow> string \<Rightarrow> u64 \<Rightarrow> 'v \<Rightarrow> 'c \<Rightarrow> ('c \<times> lruError option \<times> 'v callback list) res"
  en_iterateAll :: "((string \<times> 'v) list \<Rightarrow> bool) \<Rightarrow> 'c \<Rightarrow> ((string \<times> 'v) list \<times> bool) res"
  en_iterateKeys :: "(string list \<Rightarrow> bool) \<Rightarrow> 'c \<Rightarrow> (string list \<times> bool) res"
  en_iterateValues :: "('v list \<Rightarrow> bool) \<Rightarrow> 'c \<Rightarrow> ('v list \<times> bool) res"
  en_Stats :: "'c \<Rightarrow> Stats res"
  en_Compact :: "'c \<Rightarrow> 'c res"
  en_deletePrefixShard :: "samplingEnv \<Rightarrow> (string list \<Rightarrow> string list) \<Rightarrow> string \<Rightarrow> shardSample
    \<Rightarrow> 'c \<times> 'v evictCallbackQueue \<Rightarrow> (('c \<times> 'v evictCallbackQueue) \<times> shardSample \<times> bool) res"
  en_evaluateShardPressure :: "samplingEnv \<Rightarrow> shardSample
    \<Rightarrow> 'c \<times> 'v evictCallbackQueue \<Rightarrow> (('c \<times> 'v evictCallbackQueue) \<times> 'v list \<times> shardSample) res"

record ('c, 'v) shardedCache =
  sc_shards :: "'c list"
  sc_arenaShards :: "(string \<Rightarrow> u64) option" \<comment> \<open>not nil: the shards again, hashed by \<open>defaultShardSeed\<close>\<close>
  sc_shardFn :: "string \<Rightarrow> int \<Rightarrow> int"
  sc_onEvictValue :: "unit option"
  sc_onEvictEntry :: "unit option"
  sc_maxSize :: u64
  sc_backend :: Backend
  sc_enableInvariantChecking :: bool
  sc_deletePrefixExecuted :: u64
  sc_coord :: coordState

subsection \<open>Statistics\<close>

definition addShardStats :: "Stats \<Rightarrow> Stats \<Rightarrow> Stats" where
  "addShardStats dst src = dst\<lparr>
     GetHits := GetHits dst + GetHits src, GetMisses := GetMisses dst + GetMisses src,
     PeekHits := PeekHits dst + PeekHits src, PeekMisses := PeekMisses dst + PeekMisses src,
     EvictionsCapacity := EvictionsCapacity dst + EvictionsCapacity src,
     EvictionsPressure := EvictionsPressure dst + EvictionsPressure src,
     EvictionsDeleted := EvictionsDeleted dst + EvictionsDeleted src,
     EvictionsReplaced := EvictionsReplaced dst + EvictionsReplaced src,
     EvictedWeightCapacity := EvictedWeightCapacity dst + EvictedWeightCapacity src,
     EvictedWeightPressure := EvictedWeightPressure dst + EvictedWeightPressure src,
     EvictedWeightDeleted := EvictedWeightDeleted dst + EvictedWeightDeleted src,
     EvictedWeightReplaced := EvictedWeightReplaced dst + EvictedWeightReplaced src,
     CurrentSize := CurrentSize dst + CurrentSize src, MaxSize := MaxSize dst + MaxSize src,
     Len := Len dst + Len src, ZeroSizeCount := ZeroSizeCount dst + ZeroSizeCount src,
     PutInserted := PutInserted dst + PutInserted src, PutUpdated := PutUpdated dst + PutUpdated src,
     PutRejectedOversized := PutRejectedOversized dst + PutRejectedOversized src,
     ReplaceUpdated := ReplaceUpdated dst + ReplaceUpdated src,
     ReplaceNotFound := ReplaceNotFound dst + ReplaceNotFound src,
     ReplaceSelfEvicted := ReplaceSelfEvicted dst + ReplaceSelfEvicted src,
     DeleteDeleted := DeleteDeleted dst + DeleteDeleted src,
     DeleteNotFound := DeleteNotFound dst + DeleteNotFound src,
     CompactionsExplicit := CompactionsExplicit dst + CompactionsExplicit src,
     CompactionsPressureTier1 := CompactionsPressureTier1 dst + CompactionsPressureTier1 src,
     CompactionsPressureTier2 := CompactionsPressureTier2 dst + CompactionsPressureTier2 src,
     CompactionsAutoSlack := CompactionsAutoSlack dst + CompactionsAutoSlack src,
     PressureShedsInline := PressureShedsInline dst + PressureShedsInline src,
     PressureShedsExplicit := PressureShedsExplicit dst + PressureShedsExplicit src,
     DeletedSinceCompact := DeletedSinceCompact dst + DeletedSinceCompact src,
     PeakEntryLen := PeakEntryLen dst + PeakEntryLen src,
     ArenaLiveNodes := ArenaLiveNodes dst + ArenaLiveNodes src,
     ArenaFreeNodes := ArenaFreeNodes dst + ArenaFreeNodes src,
     ArenaUnallocatedCap := ArenaUnallocatedCap dst + ArenaUnallocatedCap src,
     ArenaHashFallbacks := ArenaHashFallbacks dst + ArenaHashFallbacks src\<rparr>"

definition zeroStats :: Stats where
  "zeroStats = \<lparr>st_Backend = BackendMap, GetHits = 0, GetMisses = 0, PeekHits = 0, PeekMisses = 0,
     EvictionsCapacity = 0, EvictionsPressure = 0, EvictionsDeleted = 0, EvictionsReplaced = 0,
     EvictedWeightCapacity = 0, EvictedWeightPressure = 0, EvictedWeightDeleted = 0, EvictedWeightReplaced = 0,
     CurrentSize = 0, MaxSize = 0, Len = 0, ZeroSizeCount = 0, PutInserted = 0, PutUpdated = 0,
     PutRejectedOversized = 0, ReplaceUpdated = 0, ReplaceNotFound = 0, ReplaceSelfEvicted = 0,
     DeleteDeleted = 0, DeleteNotFound = 0, DeletePrefixExecuted = 0, MemoryPressure = Fin 0,
     CompactionsExplicit = 0, CompactionsPressureTier1 = 0, CompactionsPressureTier2 = 0,
     CompactionsAutoSlack = 0, PressureShedsInline = 0, PressureShedsExplicit = 0, ReclaimEpoch = 0,
     DeletedSinceCompact = 0, PeakEntryLen = 0, ArenaLiveNodes = 0, ArenaFreeNodes = 0,
     ArenaUnallocatedCap = 0, ArenaHashFallbacks = 0\<rparr>"

definition checkCapacityAndWatermarkInvariants :: "u64 \<Rightarrow> Stats \<Rightarrow> unit res" where
  "checkCapacityAndWatermarkInvariants maxSz st =
     bindr (require (MaxSize st = maxSz) ''shardedCache invariant violation: aggregate MaxSize'') (\<lambda>_.
     bindr (require (\<not> MaxSize st < CurrentSize st) ''shardedCache invariant violation: aggregate CurrentSize'') (\<lambda>_.
     bindr (require (\<not> (ZeroSizeCount st < 0 \<or> Len st < ZeroSizeCount st)) ''shardedCache invariant violation: invalid ZeroSizeCount'') (\<lambda>_.
     bindr (require (\<not> (DeletedSinceCompact st < 0 \<or> PeakEntryLen st < 0)) ''shardedCache invariant violation: negative watermark'') (\<lambda>_.
     require (\<not> (MemoryPressure st = NaN \<or> (MemoryPressure st = PInf \<or> MemoryPressure st = NInf) \<or> flt (MemoryPressure st) (Fin 0)))
       ''shardedCache invariant violation: invalid MemoryPressure''))))"

definition checkCounterConservationInvariants :: "Stats \<Rightarrow> unit res" where
  "checkCounterConservationInvariants st = (let
     totalRemovals = EvictionsCapacity st + EvictionsPressure st + EvictionsDeleted st in
     bindr (require (PutUpdated st + ReplaceUpdated st = EvictionsReplaced st) ''shardedCache invariant violation: EvictionsReplaced'') (\<lambda>_.
     bindr (require (word_of_int (Len st) + totalRemovals = PutInserted st) ''shardedCache invariant violation: PutInserted'') (\<lambda>_.
     bindr (require (\<not> EvictionsDeleted st < DeleteDeleted st) ''shardedCache invariant violation: DeleteDeleted'') (\<lambda>_.
     bindr (require (\<not> EvictionsCapacity st < ReplaceSelfEvicted st) ''shardedCache invariant violation: ReplaceSelfEvicted'') (\<lambda>_.
     require (\<not> EvictionsPressure st < PressureShedsInline st + PressureShedsExplicit st)
       ''shardedCache invariant violation: PressureSheds'')))))"

definition checkAggregateStatsInvariants :: "u64 \<Rightarrow> Stats \<Rightarrow> unit res" where
  "checkAggregateStatsInvariants maxSz st =
     bindr (checkCapacityAndWatermarkInvariants maxSz st) (\<lambda>_. checkCounterConservationInvariants st)"

fun sumShardStats :: "('c, 'v) shardEngine \<Rightarrow> 'c list \<Rightarrow> Stats \<Rightarrow> Stats res" where
  "sumShardStats eng [] st = Inr st"
| "sumShardStats eng (s # ss) st = bindr (en_Stats eng s) (\<lambda>sst. sumShardStats eng ss (addShardStats st sst))"

definition shardedCache_Stats :: "('c, 'v) shardEngine \<Rightarrow> ('c, 'v) shardedCache \<Rightarrow> Stats res" where
  "shardedCache_Stats eng c =
     bindr (sumShardStats eng (map (en_setCoord eng (sc_coord c)) (sc_shards c))
       (zeroStats\<lparr>st_Backend := sc_backend c, DeletePrefixExecuted := sc_deletePrefixExecuted c\<rparr>)) (\<lambda>st0.
     let st = st0\<lparr>MemoryPressure := lastSampledPressure (sc_coord c), ReclaimEpoch := reclaimEpoch (sc_coord c)\<rparr> in
     bindr (if sc_enableInvariantChecking c then checkAggregateStatsInvariants (sc_maxSize c) st else Inr ()) (\<lambda>_.
     Inr st))"

definition shardedCache_checkInvariants :: "('c, 'v) shardEngine \<Rightarrow> ('c, 'v) shardedCache \<Rightarrow> unit res" where
  \<comment> \<open>a shard function in HOL is never nil\<close>
  "shardedCache_checkInvariants eng c =
     bindr (require (\<not> (length (sc_shards c) = 0 \<or> sc_maxSize c < word_of_nat (length (sc_shards c))))
       ''shardedCache invariant violation: invalid shard count'') (\<lambda>_.
     bindr (shardedCache_Stats eng c) (\<lambda>_. Inr ()))"

subsection \<open>Construction\<close>

definition shardShare :: "u64 \<Rightarrow> int \<Rightarrow> nat \<Rightarrow> u64" where
  \<comment> \<open>\<open>base := whole / uint64(shards)\<close>, one more for the first \<open>whole % uint64(shards)\<close> shards\<close>
  "shardShare whole shards i = (let base = whole div word_of_int shards; rem = whole mod word_of_int shards
     in if word_of_nat i < rem then base + 1 else base)"

fun newShards :: "('c, 'v) shardEngine \<Rightarrow> u64 \<Rightarrow> u64 \<Rightarrow> int \<Rightarrow> 'v Options \<Rightarrow> nat list \<Rightarrow> 'c list res" where
  "newShards eng maxSz globalTarget shards shardOpts [] = Inr []"
| "newShards eng maxSz globalTarget shards shardOpts (i # is) =
     bindr (en_new eng (shardShare maxSz shards i) (shardOpts\<lparr>shardTier2Target := shardShare globalTarget shards i\<rparr>)) (\<lambda>s.
     bindr (newShards eng maxSz globalTarget shards shardOpts is) (\<lambda>ss. Inr (s # ss)))"

definition newShardedCacheWithOptions ::
  "('c, 'v) shardEngine \<Rightarrow> (string \<Rightarrow> u64) \<Rightarrow> (string \<Rightarrow> int \<Rightarrow> int) \<Rightarrow> bool \<Rightarrow> u64 \<Rightarrow> int \<Rightarrow> 'v Options
   \<Rightarrow> ('c, 'v) shardedCache res" where
  \<comment> \<open>\<open>hash\<close> is \<open>maphash.String(defaultShardSeed, _)\<close>, \<open>dsf\<close> is \<open>DefaultShardFunc\<close>, and \<open>isDefault\<close> the answer of
     \<open>isDefaultShardFunc\<close>, which compares code pointers\<close>
  "newShardedCacheWithOptions eng hash dsf isDefault maxSz shards opts =
     bindr (validateShards maxSz shards) (\<lambda>_.
     let shardFn = (case oShardFunc opts of None \<Rightarrow> dsf | Some f \<Rightarrow> f);
         coordOpts = opts\<lparr>Shards := 0, hasCustomShards := False, sharedPressure := False,
                          hasShardTier2Target := False, shardTier2Target := 0\<rparr> in
     bindr (resolveOnEvictValue (oOnEvictValue opts)) (\<lambda>onVal.
     bindr (resolveOnEvictEntry (oOnEvictEntry opts)) (\<lambda>onEntry.
     let arena = (if isDefault \<and> oBackend opts = BackendArenaRadix then Some hash else None);
         shardOpts = coordOpts\<lparr>sharedPressure := True, hasShardTier2Target := True\<rparr>;
         globalTarget = computeTargetSize maxSz (EvictionRetentionRatio opts) in
     bindr (newShards eng maxSz globalTarget shards shardOpts [0..<nat shards]) (\<lambda>ss.
     let c = \<lparr>sc_shards = ss, sc_arenaShards = arena, sc_shardFn = shardFn, sc_onEvictValue = onVal, sc_onEvictEntry = onEntry,
              sc_maxSize = maxSz, sc_backend = oBackend opts,
              sc_enableInvariantChecking = EnableInvariantChecking opts, sc_deletePrefixExecuted = 0,
              sc_coord = zeroCoord\<rparr> in
     bindr (if sc_enableInvariantChecking c then shardedCache_checkInvariants eng c else Inr ()) (\<lambda>_. Inr c)))))"

definition NewShardedCache ::
  "('c, 'v) shardEngine \<Rightarrow> (string \<Rightarrow> u64) \<Rightarrow> (string \<Rightarrow> int \<Rightarrow> int) \<Rightarrow> bool \<Rightarrow> u64 \<Rightarrow> int \<Rightarrow> (string \<Rightarrow> int \<Rightarrow> int) option \<Rightarrow> 'v goOption list
   \<Rightarrow> ('c, 'v) shardedCache res" where
  "NewShardedCache eng hash dsf isDefault maxSz shards shardFn opts =
    (if maxSz = 0 then Inl (Panic ''maxSize must be greater than zero'')
     else bindr (validateShards maxSz shards) (\<lambda>_.
       let o1 = (ApplyOptions dsf opts)\<lparr>Shards := shards, hasCustomShards := True\<rparr>;
           o2 = (case shardFn of None \<Rightarrow> o1 | Some f \<Rightarrow> o1\<lparr>oShardFunc := Some f\<rparr>)
       in newShardedCacheWithOptions eng hash dsf isDefault maxSz shards o2))"


subsection \<open>Operations on one shard\<close>

definition shardFor :: "('c, 'v) shardedCache \<Rightarrow> string \<Rightarrow> nat res" where
  "shardFor c key = (let idx = sc_shardFn c key (int (length (sc_shards c))) in
     if idx < 0 \<or> int (length (sc_shards c)) \<le> idx
     then Inl (Panic ''lru: ShardFunc returned shard index out of range'') else Inr (nat idx))"

definition arenaShardAndHash :: "(string \<Rightarrow> u64) \<Rightarrow> ('c, 'v) shardedCache \<Rightarrow> string \<Rightarrow> nat \<times> u64" where
  "arenaShardAndHash hash c key = (let h = hash key in
     if length (sc_shards c) = 1 then (0, h) else (nat (shardIndexFromHash h (int (length (sc_shards c)))), h))"

definition onShard ::
  "('c, 'v) shardEngine \<Rightarrow> nat \<Rightarrow> ('c \<Rightarrow> ('c \<times> 'r) res) \<Rightarrow> ('c, 'v) shardedCache
   \<Rightarrow> (('c, 'v) shardedCache \<times> 'r) res" where
  \<comment> \<open>runs \<open>f\<close> on shard \<open>i\<close> with the shared coordinator\<close>
  "onShard eng i f c = bindr (f (en_setCoord eng (sc_coord c) (sc_shards c ! i))) (\<lambda>(s, r).
     Inr (c\<lparr>sc_shards := (sc_shards c)[i := s], sc_coord := en_coord eng s\<rparr>, r))"

definition shardedCache_Put ::
  "('c, 'v) shardEngine \<Rightarrow> samplingEnv \<Rightarrow> string \<Rightarrow> 'v \<Rightarrow> ('c, 'v) shardedCache
   \<Rightarrow> (('c, 'v) shardedCache \<times> 'v list \<times> lruError option \<times> 'v callback list) res" where
  "shardedCache_Put eng env key value c = (case sc_arenaShards c of
       Some hash \<Rightarrow> (case arenaShardAndHash hash c key of (i, h) \<Rightarrow> onShard eng i (en_putWithHash eng env key h value) c)
     | None \<Rightarrow> bindr (shardFor c key) (\<lambda>i. onShard eng i (en_Put eng env key value) c))"

definition shardedCache_Delete ::
  "('c, 'v) shardEngine \<Rightarrow> samplingEnv \<Rightarrow> string \<Rightarrow> ('c, 'v) shardedCache
   \<Rightarrow> (('c, 'v) shardedCache \<times> 'v \<times> bool \<times> 'v callback list) res" where
  "shardedCache_Delete eng env key c = (case sc_arenaShards c of
       Some hash \<Rightarrow> (case arenaShardAndHash hash c key of (i, h) \<Rightarrow> onShard eng i (en_deleteWithHash eng env key h) c)
     | None \<Rightarrow> bindr (shardFor c key) (\<lambda>i. onShard eng i (en_Delete eng env key) c))"

definition shardedCache_Get ::
  "('c, 'v) shardEngine \<Rightarrow> string \<Rightarrow> ('c, 'v) shardedCache \<Rightarrow> (('c, 'v) shardedCache \<times> 'v \<times> bool) res" where
  "shardedCache_Get eng key c = (case sc_arenaShards c of
       Some hash \<Rightarrow> (case arenaShardAndHash hash c key of (i, h) \<Rightarrow> onShard eng i (en_getWithHash eng key h) c)
     | None \<Rightarrow> bindr (shardFor c key) (\<lambda>i. onShard eng i (en_Get eng key) c))"

definition shardedCache_Peek ::
  "('c, 'v) shardEngine \<Rightarrow> string \<Rightarrow> ('c, 'v) shardedCache \<Rightarrow> (('c, 'v) shardedCache \<times> 'v \<times> bool) res" where
  "shardedCache_Peek eng key c = (case sc_arenaShards c of
       Some hash \<Rightarrow> (case arenaShardAndHash hash c key of (i, h) \<Rightarrow> onShard eng i (en_peekWithHash eng key h) c)
     | None \<Rightarrow> bindr (shardFor c key) (\<lambda>i. onShard eng i (en_Peek eng key) c))"

definition shardedCache_Replace ::
  "('c, 'v) shardEngine \<Rightarrow> samplingEnv \<Rightarrow> string \<Rightarrow> 'v \<Rightarrow> ('c, 'v) shardedCache
   \<Rightarrow> (('c, 'v) shardedCache \<times> lruError option \<times> 'v callback list) res" where
  "shardedCache_Replace eng env key value c = (case sc_arenaShards c of
       Some hash \<Rightarrow> (case arenaShardAndHash hash c key of (i, h) \<Rightarrow> onShard eng i (en_replaceWithHash eng env key h value) c)
     | None \<Rightarrow> bindr (shardFor c key) (\<lambda>i. onShard eng i (en_Replace eng env key value) c))"

subsection \<open>Operations on every shard\<close>

fun deletePrefixShards ::
  "('c, 'v) shardEngine \<Rightarrow> samplingEnv \<Rightarrow> (string list \<Rightarrow> string list) \<Rightarrow> string \<Rightarrow> nat list \<Rightarrow> shardSample
   \<Rightarrow> ('c, 'v) shardedCache \<times> 'v evictCallbackQueue \<Rightarrow> (('c, 'v) shardedCache \<times> 'v evictCallbackQueue) res" where
  "deletePrefixShards eng env rng pre [] sample st = Inr st"
| "deletePrefixShards eng env rng pre (i # is) sample (c, q) =
     bindr (onShard eng i (\<lambda>s. bindr (en_deletePrefixShard eng env rng pre sample (s, q)) (\<lambda>((s', q'), r). Inr (s', q', r))) c)
       (\<lambda>(c', q', sample', _). deletePrefixShards eng env rng pre is sample' (c', q'))"

definition shardedCache_DeletePrefix ::
  "('c, 'v) shardEngine \<Rightarrow> samplingEnv \<Rightarrow> (string list \<Rightarrow> string list) \<Rightarrow> string \<Rightarrow> ('c, 'v :: zero) shardedCache
   \<Rightarrow> (('c, 'v) shardedCache \<times> 'v callback list) res" where
  \<comment> \<open>\<open>executed\<close> is true after the loop; a panic in it ends the program here\<close>
  "shardedCache_DeletePrefix eng env rng pre c0 =
     bindr (deletePrefixShards eng env rng pre [0..<length (sc_shards c0)] emptyShardSample (c0, newEvictQueue True)) (\<lambda>(c, q).
     Inr (c\<lparr>sc_deletePrefixExecuted := sc_deletePrefixExecuted c + 1\<rparr>,
          evictQueue_invoke (sc_onEvictValue c) (sc_onEvictEntry c) q))"

fun iterateShards :: "('y list \<Rightarrow> 'c \<Rightarrow> ('y list \<times> bool) res) \<Rightarrow> 'c list \<Rightarrow> 'y list \<Rightarrow> 'y list res" where
  \<comment> \<open>the first argument iterates over one shard, given what was yielded before it\<close>
  "iterateShards it [] acc = Inr acc"
| "iterateShards it (s # ss) acc = bindr (it acc s) (\<lambda>(ys, ok).
     if \<not> ok then Inr (acc @ ys) else iterateShards it ss (acc @ ys))"

definition shardedCache_all ::
  "('c, 'v) shardEngine \<Rightarrow> ((string \<times> 'v) list \<Rightarrow> bool) \<Rightarrow> ('c, 'v) shardedCache \<Rightarrow> (string \<times> 'v) list res" where
  "shardedCache_all eng yield c = iterateShards (\<lambda>acc s. en_iterateAll eng (\<lambda>ys. yield (acc @ ys)) s)
     (map (en_setCoord eng (sc_coord c)) (sc_shards c)) []"

definition shardedCache_keys ::
  "('c, 'v) shardEngine \<Rightarrow> (string list \<Rightarrow> bool) \<Rightarrow> ('c, 'v) shardedCache \<Rightarrow> string list res" where
  "shardedCache_keys eng yield c = iterateShards (\<lambda>acc s. en_iterateKeys eng (\<lambda>ys. yield (acc @ ys)) s)
     (map (en_setCoord eng (sc_coord c)) (sc_shards c)) []"

definition shardedCache_values ::
  "('c, 'v) shardEngine \<Rightarrow> ('v list \<Rightarrow> bool) \<Rightarrow> ('c, 'v) shardedCache \<Rightarrow> 'v list res" where
  "shardedCache_values eng yield c = iterateShards (\<lambda>acc s. en_iterateValues eng (\<lambda>ys. yield (acc @ ys)) s)
     (map (en_setCoord eng (sc_coord c)) (sc_shards c)) []"

fun compactShards :: "('c, 'v) shardEngine \<Rightarrow> nat list \<Rightarrow> ('c, 'v) shardedCache \<Rightarrow> ('c, 'v) shardedCache res" where
  "compactShards eng [] c = Inr c"
| "compactShards eng (i # is) c =
     bindr (onShard eng i (\<lambda>s. bindr (en_Compact eng s) (\<lambda>s'. Inr (s', ()))) c) (\<lambda>(c', _). compactShards eng is c')"

definition shardedCache_Compact :: "('c, 'v) shardEngine \<Rightarrow> ('c, 'v) shardedCache \<Rightarrow> ('c, 'v) shardedCache res" where
  "shardedCache_Compact eng c = compactShards eng [0..<length (sc_shards c)] c"

fun evaluateShards ::
  "('c, 'v) shardEngine \<Rightarrow> samplingEnv \<Rightarrow> nat list \<Rightarrow> shardSample \<Rightarrow> 'v list
   \<Rightarrow> ('c, 'v) shardedCache \<times> 'v evictCallbackQueue
   \<Rightarrow> ((('c, 'v) shardedCache \<times> 'v evictCallbackQueue) \<times> 'v list) res" where
  "evaluateShards eng env [] sample evicted st = Inr (st, evicted)"
| "evaluateShards eng env (i # is) sample evicted (c, q) =
     bindr (onShard eng i (\<lambda>s. bindr (en_evaluateShardPressure eng env sample (s, q)) (\<lambda>((s', q'), r). Inr (s', q', r))) c)
       (\<lambda>(c', q', shardEvicted, sample'). evaluateShards eng env is sample' (appendEvicted evicted shardEvicted) (c', q'))"

definition shardedCache_EvaluateMemoryPressure ::
  "('c, 'v) shardEngine \<Rightarrow> samplingEnv \<Rightarrow> ('c, 'v :: zero) shardedCache
   \<Rightarrow> (('c, 'v) shardedCache \<times> 'v list \<times> 'v callback list) res" where
  "shardedCache_EvaluateMemoryPressure eng env c0 =
     bindr (evaluateShards eng env [0..<length (sc_shards c0)] emptyShardSample [] (c0, newEvictQueue True)) (\<lambda>((c, q), evicted).
     Inr (c, evicted, evictQueue_invoke (sc_onEvictValue c) (sc_onEvictEntry c) q))"

subsection \<open>The map backend as an engine\<close>

definition setCoord :: "coordState \<Rightarrow> 'v mapCache \<Rightarrow> 'v mapCache" where
  "setCoord co c = onPs (\<lambda>p. p\<lparr>coord := co\<rparr>) c"

abbreviation notArena :: "'a res" where
  \<comment> \<open>the failing assertion \<open>s.(*arenaRadix[V])\<close>\<close>
  "notArena \<equiv> Inl (Panic ''interface conversion'')"

definition mapEngine :: "('v mapCache, 'v :: zero) shardEngine" where
  "mapEngine = \<lparr>en_new = newMapCacheWithOptions, en_coord = (\<lambda>c. coord (m_ps c)), en_setCoord = setCoord,
     en_Put = mapCache_Put, en_Delete = mapCache_Delete, en_Get = mapCache_Get, en_Peek = mapCache_Peek,
     en_Replace = mapCache_Replace,
     en_putWithHash = (\<lambda>_ _ _ _ _. notArena), en_deleteWithHash = (\<lambda>_ _ _ _. notArena), en_getWithHash = (\<lambda>_ _ _. notArena),
     en_peekWithHash = (\<lambda>_ _ _. notArena), en_replaceWithHash = (\<lambda>_ _ _ _ _. notArena),
     en_iterateAll = mapCache_iterateAll, en_iterateKeys = mapCache_iterateKeys,
     en_iterateValues = mapCache_iterateValues, en_Stats = mapCache_Stats, en_Compact = mapCache_Compact,
     en_deletePrefixShard = mapCache_deletePrefixShard, en_evaluateShardPressure = mapCache_evaluateShardPressure\<rparr>"


subsection \<open>The constructor of the map backend\<close>

datatype 'v mapBacked = OneMap "'v mapCache" | ShardedMaps "('v mapCache, 'v) shardedCache"

definition NewMapCache ::
  "(string \<Rightarrow> u64) \<Rightarrow> (string \<Rightarrow> int \<Rightarrow> int) \<Rightarrow> bool \<Rightarrow> u64 \<Rightarrow> 'v goOption list \<Rightarrow> ('v :: zero) mapBacked res" where
  "NewMapCache hash dsf isDefault maxSz opts =
    (if maxSz = 0 then Inl (Panic ''maxSize must be greater than zero'')
     else let o1 = (ApplyOptions dsf opts)\<lparr>oBackend := BackendMap\<rparr> in
       if shouldShard o1
       then bindr (newShardedCacheWithOptions mapEngine hash dsf isDefault maxSz (Shards o1) o1) (\<lambda>c. Inr (ShardedMaps c))
       else bindr (newMapCacheWithOptions maxSz o1) (\<lambda>c. Inr (OneMap c)))"

end
