(* ===== verification/ShardIndex.thy ===== *)
theory ShardIndex
  imports Sharded
begin

text \<open>
  Arithmetic of the sharded cache: where a hash is routed, and how capacity and pressure targets are
  divided among the shards.
\<close>

unbundle bit_operations_syntax

subsection \<open>The routing mask\<close>

lemma and_pred_power_of_two:
  fixes n :: int
  assumes "0 < n" "n AND (n - 1) = 0"
  shows "\<exists>k. n = 2 ^ k"
  using assms
proof (induction "nat n" arbitrary: n rule: less_induct)
  case less
  show ?case
  proof (cases "even n")
    case True
    then obtain m where m: "n = 2 * m" by blast
    have "(2 * m - 1) div 2 = m - 1" by presburger
    then have "(2 * m) AND (2 * m - 1) = 2 * (m AND (m - 1))"
      by (subst and_rec) simp
    then have "m AND (m - 1) = 0" using less.prems(2) m by simp
    moreover have "0 < m" "nat m < nat n" using less.prems(1) m by simp_all
    ultimately obtain k where "m = 2 ^ k" using less.hyps by blast
    then have "n = 2 ^ Suc k" using m by simp
    then show ?thesis by blast
  next
    case False
    then obtain m where m: "n = 2 * m + 1" by (metis oddE)
    have "(2 * m + 1) AND (2 * m) = 2 * m"
      by (subst and_rec) simp
    then have "n = 2 ^ 0" using less.prems(2) m by simp
    then show ?thesis by blast
  qed
qed


lemma sint_small:
  fixes w :: u64
  assumes "unat w < 2 ^ 63"
  shows "sint w = int (unat w)"
proof -
  have "uint w = int (unat w)" by simp
  moreover have "signed_take_bit 63 (uint w) = uint w"
  proof (rule signed_take_bit_int_eq_self)
    show "- (2 ^ 63) \<le> uint w" using uint_ge_0 [of w] by (rule order_trans [rotated]) simp
    show "uint w < 2 ^ 63" using assms unfolding calculation by (metis of_nat_less_iff of_nat_numeral of_nat_power)
  qed
  ultimately show ?thesis by (simp add: sint_uint)
qed

lemma shardIndex_mod:
  assumes "0 < n" "n < 2 ^ 63"
  shows "shardIndexFromHash h n = int (unat h) mod n"
proof -
  have small: "int (unat h) mod n < 2 ^ 63" using assms pos_mod_bound [of n "int (unat h)"] by linarith
  show ?thesis
  proof (cases "n AND (n - 1) = 0")
    case True
    then obtain k where k: "n = 2 ^ k" using and_pred_power_of_two assms(1) by blast
    have "word_of_int (n - 1) = (mask k :: u64)" unfolding k mask_eq_exp_minus_1 by simp
    then have "h AND word_of_int (n - 1) = take_bit k h" by (simp add: take_bit_eq_mask)
    moreover have "unat (take_bit k h) = unat h mod 2 ^ k"
      unfolding unsigned_take_bit_eq by (rule take_bit_eq_mod)
    moreover have i: "int (unat h mod 2 ^ k) = int (unat h) mod n" by (simp add: k zmod_int)
    moreover have "unat h mod 2 ^ k < 2 ^ 63" using small i by (metis of_nat_less_iff of_nat_numeral of_nat_power)
    ultimately show ?thesis
      unfolding shardIndexFromHash_def if_P [OF True] by (simp only: sint_small)
  next
    case False
    have u: "unat (word_of_int n :: u64) = nat n" using assms unat_word_of_int_u64 [of n] by simp
    then have "unat (h mod word_of_int n) = unat h mod nat n" by (simp add: unat_mod_distrib)
    moreover have "int (unat h mod nat n) = int (unat h) mod n" using assms(1) by (simp add: zmod_int)
    ultimately show ?thesis using False small by (simp add: shardIndexFromHash_def sint_small)
  qed
qed

subsection \<open>Shares\<close>

lemma shardShare_value:
  assumes "0 < n" "n < 2 ^ 63" "i < nat n"
  shows "unat (shardShare w n i) = unat w div nat n + (if i < unat w mod nat n then 1 else 0)"
proof -
  have n: "unat (word_of_int n :: u64) = nat n" using assms unat_word_of_int_u64 [of n] by simp
  have i: "unat (word_of_nat i :: u64) = i" using assms by (simp add: unsigned_of_nat take_bit_nat_eq_self_iff)
  have d: "unat (w div word_of_int n) = unat w div nat n" "unat (w mod word_of_int n) = unat w mod nat n"
    by (simp_all add: unat_div_distrib unat_mod_distrib n)
  show ?thesis
  proof (cases "i < unat w mod nat n")
    case True
    then have "unat w mod nat n > 0" by simp
    then have "0 < unat w" by (cases "unat w = 0") auto
    moreover have "nat n \<noteq> 1" using \<open>unat w mod nat n > 0\<close> by auto
    ultimately have "unat w div nat n < unat w" using assms(1) by (intro div_less_dividend) auto
    then have "unat (w div word_of_int n + 1) = Suc (unat w div nat n)"
      using d(1) unat_lt_u64 [of w] by (subst unat_inc_u64) auto
    then show ?thesis using True i d by (simp add: shardShare_def Let_def word_less_nat_alt)
  next
    case False
    then show ?thesis using i d by (simp add: shardShare_def Let_def word_less_nat_alt)
  qed
qed

lemma sum_shares: "(\<Sum>i<n. w div n + (if i < w mod n then 1 else 0)) = w" if "0 < (n :: nat)"
proof -
  have "i < n" if "i < w mod n" for i using that mod_less_divisor [OF \<open>0 < n\<close>, of w] by simp
  then have "{i. i < n \<and> i < w mod n} = {..<w mod n}" by auto
  then have "(\<Sum>i<n. if i < w mod n then 1 else 0 :: nat) = w mod n"
    by (simp add: sum.If_cases lessThan_def Collect_conj_eq [symmetric])
  then show ?thesis by (simp add: sum.distrib)
qed

end
