(* ===== verification/ShardedSpec.thy ===== *)
theory ShardedSpec
  imports ShardIndex
begin

text \<open>
  The sharded cache over any engine that keeps its contract (\<open>shard_engine\<close>), and the interpretation
  of that contract on the map backend.
\<close>

definition shard_stats :: "nat \<Rightarrow> Stats \<Rightarrow> bool" where
  \<comment> \<open>the snapshot of a shard with \<open>n\<close> entries\<close>
  "shard_stats n st = (Len st = int n \<and> CurrentSize st \<le> MaxSize st \<and> 0 \<le> ZeroSizeCount st \<and> ZeroSizeCount st \<le> Len st
     \<and> 0 \<le> DeletedSinceCompact st \<and> 0 \<le> PeakEntryLen st
     \<and> PutUpdated st + ReplaceUpdated st = EvictionsReplaced st
     \<and> n + unat (EvictionsCapacity st) + unat (EvictionsPressure st) + unat (EvictionsDeleted st) = unat (PutInserted st)
     \<and> DeleteDeleted st \<le> EvictionsDeleted st \<and> ReplaceSelfEvicted st \<le> EvictionsCapacity st
     \<and> unat (PressureShedsInline st) + unat (PressureShedsExplicit st) \<le> unat (EvictionsPressure st))"

definition shards_ok ::
  "('c \<Rightarrow> bool) \<Rightarrow> ('c \<Rightarrow> 'v item list) \<Rightarrow> ('c, 'v) shardEngine \<Rightarrow> ('c, 'v) shardedCache \<Rightarrow> bool" where
  \<comment> \<open>the shards are not reached by the arena fast path, and every shard is well formed under the shared coordinator and holds only keys routed to it\<close>
  "shards_ok good items eng c = (sc_shards c \<noteq> [] \<and> sc_arenaShards c = None \<and> coord_ok (sc_coord c)
     \<and> (\<forall>i<length (sc_shards c). good (en_setCoord eng (sc_coord c) (sc_shards c ! i))
        \<and> (\<forall>x\<in>set (items (sc_shards c ! i)). sc_shardFn c (fst x) (int (length (sc_shards c))) = int i)))"

definition shard_items :: "('c \<Rightarrow> 'v item list) \<Rightarrow> ('c, 'v) shardedCache \<Rightarrow> 'v item list" where
  "shard_items items c = concat (map items (sc_shards c))"

definition routable :: "('c, 'v) shardedCache \<Rightarrow> string \<Rightarrow> bool" where
  \<comment> \<open>the shard function answers in range, as its contract demands\<close>
  "routable c k = (let i = sc_shardFn c k (int (length (sc_shards c))) in 0 \<le> i \<and> i < int (length (sc_shards c)))"

definition shardOf :: "('c, 'v) shardedCache \<Rightarrow> string \<Rightarrow> nat" where
  "shardOf c k = nat (sc_shardFn c k (int (length (sc_shards c))))"

definition same_frame :: "('c \<Rightarrow> 'f) \<Rightarrow> ('c, 'v) shardedCache \<Rightarrow> ('c, 'v) shardedCache \<Rightarrow> bool" where
  \<comment> \<open>what no operation changes: the configuration of the cache and, by \<open>frame\<close>, of each shard\<close>
  "same_frame frame c c' = (sc_shardFn c' = sc_shardFn c \<and> sc_onEvictValue c' = sc_onEvictValue c
     \<and> sc_onEvictEntry c' = sc_onEvictEntry c \<and> sc_maxSize c' = sc_maxSize c \<and> sc_backend c' = sc_backend c
     \<and> sc_enableInvariantChecking c' = sc_enableInvariantChecking c
     \<and> map frame (sc_shards c') = map frame (sc_shards c))"

lemma same_frame_refl [simp]: "same_frame frame c c"
  by (simp add: same_frame_def)

lemma same_frame_trans: "same_frame frame a b \<Longrightarrow> same_frame frame b c \<Longrightarrow> same_frame frame a c"
  by (simp add: same_frame_def)

lemma same_frame_length: "same_frame frame a b \<Longrightarrow> length (sc_shards b) = length (sc_shards a)"
  unfolding same_frame_def by (metis length_map)

lemma shardFor_routable: "routable c k \<Longrightarrow> shardFor c k = Inr (shardOf c k) \<and> shardOf c k < length (sc_shards c)"
  by (auto simp: routable_def shardFor_def shardOf_def Let_def)

lemma shardFor_panics: "\<not> routable c k \<Longrightarrow> \<exists>msg. shardFor c k = Inl (Panic msg)"
  by (auto simp: routable_def shardFor_def Let_def)

lemma distinct_concat_map:
  assumes "\<And>i. i < length xss \<Longrightarrow> distinct (xss ! i)"
    and "\<And>i j x. i < length xss \<Longrightarrow> j < length xss \<Longrightarrow> x \<in> set (xss ! i) \<Longrightarrow> x \<in> set (xss ! j) \<Longrightarrow> i = j"
  shows "distinct (concat xss)"
  using assms
proof (induction xss)
  case (Cons xs xss)
  have "distinct (concat xss)"
  proof (rule Cons.IH)
    show "distinct (xss ! i)" if "i < length xss" for i using Cons.prems(1) [of "Suc i"] that by simp
    show "i = j" if "i < length xss" "j < length xss" "x \<in> set (xss ! i)" "x \<in> set (xss ! j)" for i j x
      using Cons.prems(2) [of "Suc i" "Suc j" x] that by simp
  qed
  moreover have "distinct xs" using Cons.prems(1) [of 0] by simp
  moreover have "x \<notin> set (concat xss)" if "x \<in> set xs" for x
  proof
    assume "x \<in> set (concat xss)"
    then obtain ys where "ys \<in> set xss" "x \<in> set ys" by auto
    then obtain j where "j < length xss" "x \<in> set (xss ! j)" by (metis in_set_conv_nth)
    then show False using Cons.prems(2) [of 0 "Suc j" x] that by simp
  qed
  ultimately show ?case by auto
qed simp

lemma subseq_concat:
  assumes "length xss = length yss" "\<And>i. i < length yss \<Longrightarrow> subseq (xss ! i) (yss ! i)"
  shows "subseq (concat xss) (concat yss)"
  using assms
proof (induction xss yss rule: list_induct2)
  case (Cons x xs y ys)
  have "subseq x y" using Cons.prems [of 0] by simp
  moreover have "subseq (concat xs) (concat ys)" using Cons.prems [of "Suc _"] by (intro Cons.IH) simp
  ultimately show ?case by (simp add: list_emb_append_mono)
qed simp

fun upto_refusal :: "('y list \<Rightarrow> bool) \<Rightarrow> 'y list \<Rightarrow> 'y list \<Rightarrow> 'y list \<times> bool" where
  \<comment> \<open>what a consumer that may stop the loop has seen at its end, and whether it saw everything\<close>
  "upto_refusal yld acc [] = (acc, True)"
| "upto_refusal yld acc (x # xs) = (if yld (acc @ [x]) then upto_refusal yld (acc @ [x]) xs else (acc @ [x], False))"

lemma upto_refusal_append:
  "upto_refusal yld acc (xs @ ys)
    = (case upto_refusal yld acc xs of (zs, b) \<Rightarrow> if b then upto_refusal yld zs ys else (zs, False))"
  by (induction xs arbitrary: acc) auto

lemma upto_refusal_shift:
  "upto_refusal yld (acc @ zs) xs = (case upto_refusal (\<lambda>ys. yld (acc @ ys)) zs xs of (ys, b) \<Rightarrow> (acc @ ys, b))"
  by (induction xs arbitrary: zs) auto

lemma upto_refusal_all: "upto_refusal (\<lambda>_. True) acc xs = (acc @ xs, True)"
  by (induction xs arbitrary: acc) auto

locale shard_engine = lru_engine inv items accepts "en_Put eng" "en_Get eng" "en_Peek eng" "en_Delete eng" dflt
  for inv :: "'c \<Rightarrow> bool" and items :: "'c \<Rightarrow> ('v :: zero) item list" and accepts :: "'c \<Rightarrow> string \<Rightarrow> 'v \<Rightarrow> bool"
    and eng :: "('c, 'v) shardEngine" and dflt :: 'v +
  fixes frame :: "'c \<Rightarrow> u64 \<times> 'f" and inserted :: "'c \<Rightarrow> u64"
  assumes coord_set: "en_coord eng (en_setCoord eng co s) = co"
    and set_set: "en_setCoord eng co (en_setCoord eng co' s) = en_setCoord eng co s"
    and set_coord: "en_setCoord eng (en_coord eng s) s = s"
    and items_set: "items (en_setCoord eng co s) = items s"
    and inv_coord: "inv s \<Longrightarrow> coord_ok (en_coord eng s)"
    and inv_set: "inv s \<Longrightarrow> coord_ok co \<Longrightarrow> inv (en_setCoord eng co s)"
    and frame_set: "frame (en_setCoord eng co s) = frame s"
    and inserted_set: "inserted (en_setCoord eng co s) = inserted s"
    and put_total: "inv s \<Longrightarrow> inserted s \<noteq> - 1 \<Longrightarrow> \<exists>s' r. en_Put eng env k v s = Inr (s', r) \<and> inv s' \<and> frame s' = frame s
      \<and> fst ` set (items s') \<subseteq> insert k (fst ` set (items s))"
    and accepts_inserted: "accepts s k v \<Longrightarrow> inserted s \<noteq> - 1"
    and get_frame: "inv s \<Longrightarrow> en_Get eng k s = Inr (s', a) \<Longrightarrow> frame s' = frame s"
    and peek_frame: "inv s \<Longrightarrow> en_Peek eng k s = Inr (s', a) \<Longrightarrow> frame s' = frame s"
    and delete_frame: "inv s \<Longrightarrow> en_Delete eng env k s = Inr (s', d) \<Longrightarrow> frame s' = frame s"
    and stats_law: "inv s \<Longrightarrow> \<exists>st. en_Stats eng s = Inr st \<and> shard_stats (length (items s)) st \<and> MaxSize st = fst (frame s)
      \<and> PutInserted st = inserted s \<and> unat (CurrentSize st) = weight_sum (map (\<lambda>x. entry_weight x) (items s))"
    and replace_law: "inv s \<Longrightarrow> \<exists>s' r. en_Replace eng env k v s = Inr (s', r) \<and> inv s' \<and> frame s' = frame s
      \<and> fst ` set (items s') \<subseteq> fst ` set (items s)"
    and compact_law: "inv s \<Longrightarrow> \<exists>s'. en_Compact eng s = Inr s' \<and> inv s' \<and> frame s' = frame s \<and> items s' = items s"
    and iterate_law: "inv s \<Longrightarrow> en_iterateAll eng yld s = Inr (upto_refusal yld [] (pairs (items s)))"
    and delete_prefix_law: "inv s \<Longrightarrow> queue_wf q \<Longrightarrow> valid_pressure (h_pressure h) \<Longrightarrow> (\<And>ks. mset (rng ks) = mset ks) \<Longrightarrow>
      \<exists>s' q' out b. en_deletePrefixShard eng env rng pre h (s, q) = Inr ((s', q'), out, b) \<and> inv s' \<and> frame s' = frame s \<and> queue_wf q'
        \<and> valid_pressure (h_pressure out) \<and> subseq (items s') (filter (\<lambda>x. \<not> hasPrefix pre (fst x)) (items s))"
    and evaluate_law: "inv s \<Longrightarrow> queue_wf q \<Longrightarrow> valid_pressure (h_pressure h) \<Longrightarrow>
      \<exists>s' q' vs out. en_evaluateShardPressure eng env h (s, q) = Inr ((s', q'), vs, out) \<and> inv s' \<and> frame s' = frame s \<and> queue_wf q'
        \<and> valid_pressure (h_pressure out) \<and> subseq (items s') (items s)"
begin

abbreviation ok :: "('c, 'v) shardedCache \<Rightarrow> bool" where "ok \<equiv> shards_ok inv items eng"

abbreviation frame_kept :: "('c, 'v) shardedCache \<Rightarrow> ('c, 'v) shardedCache \<Rightarrow> bool" where "frame_kept \<equiv> same_frame frame"

lemma frame_update: "i < length ss \<Longrightarrow> frame s' = frame (ss ! i) \<Longrightarrow> map frame (ss[i := s']) = map frame ss"
  by (metis list_update_id map_update)

lemma onShard_ok:
  assumes c: "ok c" and i: "i < length (sc_shards c)"
    and s: "f (en_setCoord eng (sc_coord c) (sc_shards c ! i)) = Inr (s', r)" "inv s'" "frame s' = frame (sc_shards c ! i)"
      "\<forall>x\<in>set (items s'). sc_shardFn c (fst x) (int (length (sc_shards c))) = int i"
  shows "\<exists>c'. onShard eng i f c = Inr (c', r) \<and> ok c' \<and> frame_kept c c'
    \<and> sc_shards c' = (sc_shards c)[i := s'] \<and> sc_deletePrefixExecuted c' = sc_deletePrefixExecuted c"
proof -
  define c' where "c' = c\<lparr>sc_shards := (sc_shards c)[i := s'], sc_coord := en_coord eng s'\<rparr>"
  have co: "coord_ok (en_coord eng s')" by (rule inv_coord [OF s(2)])
  have "inv (en_setCoord eng (en_coord eng s') ((sc_shards c)[i := s'] ! j))
      \<and> (\<forall>x\<in>set (items ((sc_shards c)[i := s'] ! j)). sc_shardFn c (fst x) (int (length (sc_shards c))) = int j)"
    if j: "j < length (sc_shards c)" for j
  proof (cases "j = i")
    case True
    then show ?thesis using s i by (simp add: set_coord)
  next
    case False
    have "inv (en_setCoord eng (sc_coord c) (sc_shards c ! j))" using c j by (simp add: shards_ok_def)
    then have "inv (en_setCoord eng (en_coord eng s') (en_setCoord eng (sc_coord c) (sc_shards c ! j)))"
      by (rule inv_set [OF _ co])
    then show ?thesis using False c j by (simp add: set_set shards_ok_def)
  qed
  then have "ok c'" using c co by (simp add: shards_ok_def c'_def)
  moreover have "onShard eng i f c = Inr (c', r)" using s(1) by (simp add: onShard_def c'_def)
  ultimately show ?thesis using s frame_update [OF i s(3)] by (auto simp: c'_def same_frame_def)
qed

lemma no_arena: "ok c \<Longrightarrow> sc_arenaShards c = None"
  by (simp add: shards_ok_def)

lemma shard_inv: "ok c \<Longrightarrow> i < length (sc_shards c) \<Longrightarrow> inv (en_setCoord eng (sc_coord c) (sc_shards c ! i))"
  by (simp add: shards_ok_def)

lemma shard_keys:
  "ok c \<Longrightarrow> i < length (sc_shards c) \<Longrightarrow> x \<in> set (items (sc_shards c ! i)) \<Longrightarrow>
   sc_shardFn c (fst x) (int (length (sc_shards c))) = int i"
  by (simp add: shards_ok_def)

lemma keys_distinct: "ok c \<Longrightarrow> distinct (map fst (shard_items items c))"
proof -
  assume c: "ok c"
  have d: "distinct (map fst (items (sc_shards c ! i)))" if "i < length (sc_shards c)" for i
    using distinct_keys [OF shard_inv [OF c that]] by (simp add: items_set)
  have "distinct (concat (map (\<lambda>s. map fst (items s)) (sc_shards c)))"
  proof (rule distinct_concat_map)
    fix i j k
    assume i: "i < length (map (\<lambda>s. map fst (items s)) (sc_shards c))"
      and j: "j < length (map (\<lambda>s. map fst (items s)) (sc_shards c))"
      and "k \<in> set (map (\<lambda>s. map fst (items s)) (sc_shards c) ! i)" "k \<in> set (map (\<lambda>s. map fst (items s)) (sc_shards c) ! j)"
    then obtain x y where "x \<in> set (items (sc_shards c ! i))" "y \<in> set (items (sc_shards c ! j))" "fst x = k" "fst y = k"
      by auto
    then have "int i = int j" using shard_keys [OF c, of i x] shard_keys [OF c, of j y] i j by simp
    then show "i = j" by simp
  qed (use d in simp)
  then show ?thesis by (simp add: shard_items_def map_concat comp_def)
qed

lemma sub_route:
  assumes "ok c" "i < length (sc_shards c)" "fst ` set (items s') \<subseteq> insert k (fst ` set (items (sc_shards c ! i)))"
    and "sc_shardFn c k (int (length (sc_shards c))) = int i"
  shows "\<forall>x\<in>set (items s'). sc_shardFn c (fst x) (int (length (sc_shards c))) = int i"
proof
  fix x assume "x \<in> set (items s')"
  then have "fst x \<in> insert k (fst ` set (items (sc_shards c ! i)))" using assms(3) by blast
  then show "sc_shardFn c (fst x) (int (length (sc_shards c))) = int i"
    using assms(4) shard_keys [OF assms(1,2)] by auto
qed

lemma routed: "routable c k \<Longrightarrow> sc_shardFn c k (int (length (sc_shards c))) = int (shardOf c k)"
  by (auto simp: routable_def shardOf_def Let_def)

lemma put_ok:
  assumes c: "ok c" and r: "routable c k" and a: "accepts (en_setCoord eng (sc_coord c) (sc_shards c ! shardOf c k)) k v"
  shows "\<exists>c' p s' w keep. shardedCache_Put eng env k v c = Inr (c', p) \<and> ok c' \<and> frame_kept c c'
    \<and> sc_shards c' = (sc_shards c)[shardOf c k := s'] \<and> items s' = (k, w, v) # keep
    \<and> subseq keep (filter (\<lambda>x. fst x \<noteq> k) (items (sc_shards c ! shardOf c k)))"
proof -
  let ?i = "shardOf c k" and ?s = "en_setCoord eng (sc_coord c) (sc_shards c ! shardOf c k)"
  have i: "?i < length (sc_shards c)" "shardFor c k = Inr ?i" using shardFor_routable [OF r] by auto
  obtain s' p w keep where p: "en_Put eng env k v ?s = Inr (s', p)" "inv s'" "items s' = (k, w, v) # keep"
    "subseq keep (filter (\<lambda>x. fst x \<noteq> k) (items ?s))"
    using put_law [OF shard_inv [OF c i(1)] a] by blast
  have "fst ` set (items s') \<subseteq> insert k (fst ` set (items (sc_shards c ! ?i)))"
    using subseq_mem [OF p(4)] p(3) by (auto simp: items_set)
  have "frame s' = frame (sc_shards c ! ?i)"
    using put_total [OF shard_inv [OF c i(1)] accepts_inserted [OF a], of env k v] p(1) by (auto simp: frame_set)
  note keys = \<open>fst ` set (items s') \<subseteq> _\<close>
  from onShard_ok [where f = "en_Put eng env k v", OF c i(1) p(1,2) \<open>frame s' = _\<close> sub_route [OF c i(1) keys routed [OF r]]]
  obtain c' where "onShard eng ?i (en_Put eng env k v) c = Inr (c', p)" "ok c'" "frame_kept c c'" "sc_shards c' = (sc_shards c)[?i := s']"
    by blast
  then show ?thesis
    using p(3,4) unfolding shardedCache_Put_def no_arena [OF c] option.case i(2) bindr_simps items_set by blast
qed

lemma get_ok:
  assumes c: "ok c" and r: "routable c k"
  shows "\<exists>c' s'. shardedCache_Get eng k c = Inr (c', case map_of (items (sc_shards c ! shardOf c k)) k of Some (w, v) \<Rightarrow> v | None \<Rightarrow> dflt,
      map_of (items (sc_shards c ! shardOf c k)) k \<noteq> None) \<and> ok c' \<and> frame_kept c c'
    \<and> sc_shards c' = (sc_shards c)[shardOf c k := s'] \<and> set (items s') = set (items (sc_shards c ! shardOf c k))"
proof -
  let ?i = "shardOf c k" and ?s = "en_setCoord eng (sc_coord c) (sc_shards c ! shardOf c k)"
  have i: "?i < length (sc_shards c)" "shardFor c k = Inr ?i" using shardFor_routable [OF r] by auto
  let ?a = "map_of (items (sc_shards c ! ?i)) k"
  obtain s' where p: "en_Get eng k ?s = Inr (s', case ?a of Some (w, v) \<Rightarrow> v | None \<Rightarrow> dflt, ?a \<noteq> None)" "inv s'"
    "items s' = (case ?a of Some (w, v) \<Rightarrow> (k, w, v) # filter (\<lambda>x. fst x \<noteq> k) (items (sc_shards c ! ?i)) | None \<Rightarrow> items (sc_shards c ! ?i))"
    using get_law [OF shard_inv [OF c i(1)], of k] unfolding items_set by blast
  have d: "distinct (map fst (items (sc_shards c ! ?i)))" using distinct_keys [OF shard_inv [OF c i(1)]] by (simp add: items_set)
  have set: "set (items s') = set (items (sc_shards c ! ?i))"
    using p(3) d by (cases ?a) (auto simp: map_of_eq_Some_iff dest: map_of_SomeD eq_key_imp_eq_value)
  then have "\<forall>x\<in>set (items s'). sc_shardFn c (fst x) (int (length (sc_shards c))) = int ?i"
    using shard_keys [OF c i(1)] by simp
  have "frame s' = frame (sc_shards c ! ?i)" using get_frame [OF shard_inv [OF c i(1)] p(1)] by (simp add: frame_set)
  from onShard_ok [where f = "en_Get eng k", OF c i(1) p(1,2) this \<open>\<forall>x\<in>set (items s'). _\<close>] show ?thesis
    using set unfolding shardedCache_Get_def no_arena [OF c] option.case i(2) bindr_simps by blast
qed

lemma put_get_sharded:
  assumes c: "ok c" and r: "routable c k" and a: "accepts (en_setCoord eng (sc_coord c) (sc_shards c ! shardOf c k)) k v"
  shows "\<exists>c1 p c2. shardedCache_Put eng env k v c = Inr (c1, p) \<and> shardedCache_Get eng k c1 = Inr (c2, v, True)"
proof -
  obtain c1 p s' w keep where p: "shardedCache_Put eng env k v c = Inr (c1, p)" "ok c1" "frame_kept c c1"
    "sc_shards c1 = (sc_shards c)[shardOf c k := s']" "items s' = (k, w, v) # keep"
    using put_ok [OF c r a] by blast
  have f: "routable c1 k" "shardOf c1 k = shardOf c k" using p(3) same_frame_length [OF p(3)] r by (simp_all add: same_frame_def routable_def shardOf_def)
  have "items (sc_shards c1 ! shardOf c1 k) = (k, w, v) # keep" using p(4,5) f(2) shardFor_routable [OF r] by simp
  then show ?thesis using p(1) get_ok [OF p(2) f(1)] by (cases p) auto
qed

lemma shrink_route:
  assumes "ok c" "i < length (sc_shards c)" "fst ` set (items s') \<subseteq> fst ` set (items (sc_shards c ! i))"
  shows "\<forall>x\<in>set (items s'). sc_shardFn c (fst x) (int (length (sc_shards c))) = int i"
proof
  fix x assume "x \<in> set (items s')"
  then have "fst x \<in> fst ` set (items (sc_shards c ! i))" using assms(3) by blast
  then show "sc_shardFn c (fst x) (int (length (sc_shards c))) = int i" using shard_keys [OF assms(1,2)] by auto
qed

lemma delete_ok:
  assumes c: "ok c" and r: "routable c k"
  shows "\<exists>c' p s'. shardedCache_Delete eng env k c = Inr (c', p) \<and> ok c' \<and> frame_kept c c'
    \<and> sc_shards c' = (sc_shards c)[shardOf c k := s']
    \<and> subseq (items s') (filter (\<lambda>x. fst x \<noteq> k) (items (sc_shards c ! shardOf c k)))"
proof -
  let ?i = "shardOf c k" and ?s = "en_setCoord eng (sc_coord c) (sc_shards c ! shardOf c k)"
  have i: "?i < length (sc_shards c)" "shardFor c k = Inr ?i" using shardFor_routable [OF r] by auto
  obtain s' p where p: "en_Delete eng env k ?s = Inr (s', p)" "inv s'" "subseq (items s') (filter (\<lambda>x. fst x \<noteq> k) (items (sc_shards c ! ?i)))"
    using del_law [OF shard_inv [OF c i(1)], of env k] unfolding items_set by blast
  have "fst ` set (items s') \<subseteq> fst ` set (items (sc_shards c ! ?i))" using subseq_mem [OF p(3)] by auto
  note keys = this
  have "frame s' = frame (sc_shards c ! ?i)" using delete_frame [OF shard_inv [OF c i(1)] p(1)] by (simp add: frame_set)
  from onShard_ok [where f = "en_Delete eng env k", OF c i(1) p(1,2) this shrink_route [OF c i(1) keys]] show ?thesis
    using p(3) unfolding shardedCache_Delete_def no_arena [OF c] option.case i(2) bindr_simps by blast
qed

lemma replace_ok:
  assumes c: "ok c" and r: "routable c k"
  shows "\<exists>c' p s'. shardedCache_Replace eng env k v c = Inr (c', p) \<and> ok c' \<and> frame_kept c c'
    \<and> sc_shards c' = (sc_shards c)[shardOf c k := s']"
proof -
  let ?i = "shardOf c k" and ?s = "en_setCoord eng (sc_coord c) (sc_shards c ! shardOf c k)"
  have i: "?i < length (sc_shards c)" "shardFor c k = Inr ?i" using shardFor_routable [OF r] by auto
  obtain s' p where p: "en_Replace eng env k v ?s = Inr (s', p)" "inv s'" "fst ` set (items s') \<subseteq> fst ` set (items (sc_shards c ! ?i))"
    "frame s' = frame (sc_shards c ! ?i)"
    using replace_law [OF shard_inv [OF c i(1)], of env k v] unfolding items_set frame_set by blast
  from onShard_ok [where f = "en_Replace eng env k v", OF c i(1) p(1,2,4) shrink_route [OF c i(1) p(3)]] show ?thesis
    unfolding shardedCache_Replace_def no_arena [OF c] option.case i(2) bindr_simps by blast
qed

lemma peek_ok:
  assumes c: "ok c" and r: "routable c k"
  shows "\<exists>c'. shardedCache_Peek eng k c = Inr (c', case map_of (items (sc_shards c ! shardOf c k)) k of Some (w, v) \<Rightarrow> v | None \<Rightarrow> dflt,
      map_of (items (sc_shards c ! shardOf c k)) k \<noteq> None) \<and> ok c' \<and> frame_kept c c' \<and> shard_items items c' = shard_items items c"
proof -
  let ?i = "shardOf c k" and ?s = "en_setCoord eng (sc_coord c) (sc_shards c ! shardOf c k)"
  have i: "?i < length (sc_shards c)" "shardFor c k = Inr ?i" using shardFor_routable [OF r] by auto
  let ?a = "map_of (items (sc_shards c ! ?i)) k"
  obtain s' where p: "en_Peek eng k ?s = Inr (s', case ?a of Some (w, v) \<Rightarrow> v | None \<Rightarrow> dflt, ?a \<noteq> None)" "inv s'"
    "items s' = items (sc_shards c ! ?i)"
    using peek_law [OF shard_inv [OF c i(1)], of k] unfolding items_set by blast
  have "\<forall>x\<in>set (items s'). sc_shardFn c (fst x) (int (length (sc_shards c))) = int ?i"
    using p(3) shard_keys [OF c i(1)] by simp
  have "frame s' = frame (sc_shards c ! ?i)" using peek_frame [OF shard_inv [OF c i(1)] p(1)] by (simp add: frame_set)
  from onShard_ok [where f = "en_Peek eng k", OF c i(1) p(1,2) this \<open>\<forall>x\<in>set (items s'). _\<close>] obtain c' where
    c': "onShard eng ?i (en_Peek eng k) c = Inr (c', case ?a of Some (w, v) \<Rightarrow> v | None \<Rightarrow> dflt, ?a \<noteq> None)" "ok c'" "frame_kept c c'"
    "sc_shards c' = (sc_shards c)[?i := s']" by blast
  have "map items ((sc_shards c)[?i := s']) = map items (sc_shards c)"
    using p(3) i(1) by (simp add: map_update list_update_same_conv)
  then show ?thesis using c' unfolding shardedCache_Peek_def no_arena [OF c] option.case i(2) bindr_simps shard_items_def by auto
qed

subsection \<open>Operations on every shard\<close>

lemma deletePrefixShards_ok:
  assumes "ok c" "queue_wf q" "valid_pressure (h_pressure h)" "set is \<subseteq> {..<length (sc_shards c)}" "\<And>ks. mset (rng ks) = mset ks"
  shows "\<exists>c' q'. deletePrefixShards eng env rng pre is h (c, q) = Inr (c', q') \<and> ok c' \<and> frame_kept c c' \<and> queue_wf q'
    \<and> sc_deletePrefixExecuted c' = sc_deletePrefixExecuted c
    \<and> (\<forall>j<length (sc_shards c). subseq (items (sc_shards c' ! j)) (items (sc_shards c ! j)))
    \<and> (\<forall>j\<in>set is. \<forall>x\<in>set (items (sc_shards c' ! j)). \<not> hasPrefix pre (fst x))"
  using assms(1-4)
proof (induction "is" arbitrary: c q h)
  case Nil
  then show ?case by simp
next
  case (Cons i "is")
  let ?s = "en_setCoord eng (sc_coord c) (sc_shards c ! i)"
  let ?f = "\<lambda>s. bindr (en_deletePrefixShard eng env rng pre h (s, q)) (\<lambda>((s', q'), r). Inr (s', q', r))"
  have i: "i < length (sc_shards c)" using Cons.prems(4) by simp
  obtain s' q' out b where d: "en_deletePrefixShard eng env rng pre h (?s, q) = Inr ((s', q'), out, b)" "inv s'" "queue_wf q'"
    "valid_pressure (h_pressure out)" "subseq (items s') (filter (\<lambda>x. \<not> hasPrefix pre (fst x)) (items (sc_shards c ! i)))"
    "frame s' = frame (sc_shards c ! i)"
    using delete_prefix_law [OF shard_inv [OF Cons.prems(1) i] Cons.prems(2,3) assms(5)] unfolding items_set frame_set by blast
  have sub: "subseq (items s') (items (sc_shards c ! i))" using d(5) subseq_filter_left subseq_order.trans by blast
  then have k: "fst ` set (items s') \<subseteq> fst ` set (items (sc_shards c ! i))" using subseq_mem by auto
  have "?f ?s = Inr (s', q', out, b)" using d(1) by simp
  from onShard_ok [where f = ?f, OF Cons.prems(1) i this d(2,6) shrink_route [OF Cons.prems(1) i k]]
  obtain c1 where c1: "onShard eng i ?f c = Inr (c1, q', out, b)" "ok c1" "frame_kept c c1" "sc_shards c1 = (sc_shards c)[i := s']"
    "sc_deletePrefixExecuted c1 = sc_deletePrefixExecuted c" by blast
  have n1: "set is \<subseteq> {..<length (sc_shards c1)}" "length (sc_shards c1) = length (sc_shards c)" using Cons.prems(4) c1(4) by simp_all
  obtain c' q'' where ih: "deletePrefixShards eng env rng pre is out (c1, q') = Inr (c', q'')" "ok c'" "frame_kept c1 c'" "queue_wf q''"
    "sc_deletePrefixExecuted c' = sc_deletePrefixExecuted c1"
    "\<forall>j<length (sc_shards c1). subseq (items (sc_shards c' ! j)) (items (sc_shards c1 ! j))"
    "\<forall>j\<in>set is. \<forall>x\<in>set (items (sc_shards c' ! j)). \<not> hasPrefix pre (fst x)"
    using Cons.IH [OF c1(2) d(3,4) n1(1)] by blast
  have s1: "subseq (items (sc_shards c1 ! j)) (items (sc_shards c ! j))" if "j < length (sc_shards c)" for j
    using sub c1(4) that by (cases "j = i") auto
  have "subseq (items (sc_shards c' ! j)) (items (sc_shards c ! j))" if "j < length (sc_shards c)" for j
    using ih(6) s1 [OF that] that n1(2) subseq_order.trans by metis
  moreover have "\<not> hasPrefix pre (fst x)" if "x \<in> set (items (sc_shards c' ! i))" for x
  proof -
    have "x \<in> set (items s')" using ih(6) subseq_mem that i n1(2) c1(4) by fastforce
    then show ?thesis using subseq_mem [OF d(5)] by auto
  qed
  ultimately show ?case
    using c1 ih same_frame_trans [OF c1(3) ih(3)] by auto
qed

lemma deletePrefix_ok:
  assumes c: "ok c" and rng: "\<And>ks. mset (rng ks) = mset ks"
  shows "\<exists>c' cbs. shardedCache_DeletePrefix eng env rng pre c = Inr (c', cbs) \<and> ok c' \<and> frame_kept c c'
    \<and> sc_deletePrefixExecuted c' = sc_deletePrefixExecuted c + 1
    \<and> subseq (shard_items items c') (filter (\<lambda>x. \<not> hasPrefix pre (fst x)) (shard_items items c))"
proof -
  have v: "valid_pressure (h_pressure emptyShardSample)" by (simp add: emptyShardSample_def)
  have sub: "set [0..<length (sc_shards c)] \<subseteq> {..<length (sc_shards c)}" by auto
  obtain c1 q where d: "deletePrefixShards eng env rng pre [0..<length (sc_shards c)] emptyShardSample (c, newEvictQueue True) = Inr (c1, q)"
    "ok c1" "frame_kept c c1" "sc_deletePrefixExecuted c1 = sc_deletePrefixExecuted c"
    "\<forall>j<length (sc_shards c). subseq (items (sc_shards c1 ! j)) (items (sc_shards c ! j))"
    "\<forall>j\<in>set [0..<length (sc_shards c)]. \<forall>x\<in>set (items (sc_shards c1 ! j)). \<not> hasPrefix pre (fst x)"
    using deletePrefixShards_ok [OF c queue_wf_new v sub rng] by blast
  have len: "length (sc_shards c1) = length (sc_shards c)" using same_frame_length [OF d(3)] .
  have "filter (\<lambda>x. \<not> hasPrefix pre (fst x)) (shard_items items c1) = shard_items items c1"
    unfolding filter_id_conv
  proof
    fix x assume "x \<in> set (shard_items items c1)"
    then obtain j where "j < length (sc_shards c1)" "x \<in> set (items (sc_shards c1 ! j))"
      by (auto simp: shard_items_def in_set_conv_nth [of _ "sc_shards c1"])
    then show "\<not> hasPrefix pre (fst x)" using d(6) len by auto
  qed
  moreover have "subseq (shard_items items c1) (shard_items items c)"
    unfolding shard_items_def using d(5) len by (intro subseq_concat) simp_all
  ultimately have "subseq (shard_items items c1) (filter (\<lambda>x. \<not> hasPrefix pre (fst x)) (shard_items items c))"
    by (metis subseq_filter)
  moreover define c2 where "c2 = c1\<lparr>sc_deletePrefixExecuted := sc_deletePrefixExecuted c1 + 1\<rparr>"
  moreover have "ok c2" "frame_kept c c2" "shard_items items c2 = shard_items items c1"
    using d(2,3) by (simp_all add: c2_def shards_ok_def same_frame_def shard_items_def)
  ultimately show ?thesis using d(1,4) by (auto simp: shardedCache_DeletePrefix_def)
qed

lemma iterateShards_ok:
  "(\<And>s. s \<in> set ss \<Longrightarrow> inv s) \<Longrightarrow>
   iterateShards (\<lambda>acc s. en_iterateAll eng (\<lambda>ys. yld (acc @ ys)) s) ss acc
     = Inr (fst (upto_refusal yld acc (concat (map (\<lambda>s. pairs (items s)) ss))))"
proof (induction ss arbitrary: acc)
  case (Cons s ss)
  obtain ys b where u: "upto_refusal (\<lambda>ys. yld (acc @ ys)) [] (pairs (items s)) = (ys, b)" by (cases "upto_refusal (\<lambda>ys. yld (acc @ ys)) [] (pairs (items s))")
  then have "upto_refusal yld acc (pairs (items s)) = (acc @ ys, b)" using upto_refusal_shift [of yld acc "[]"] by simp
  then show ?case using Cons u by (simp add: iterate_law upto_refusal_append)
qed simp

lemma iterate_ok:
  assumes "ok c"
  shows "shardedCache_all eng yld c = Inr (fst (upto_refusal yld [] (pairs (shard_items items c))))"
proof -
  have "inv s" if "s \<in> set (map (en_setCoord eng (sc_coord c)) (sc_shards c))" for s
    using that shard_inv [OF assms] by (auto simp: in_set_conv_nth)
  from iterateShards_ok [where yld = yld and acc = "[]" and ss = "map (en_setCoord eng (sc_coord c)) (sc_shards c)", OF this] show ?thesis
    unfolding shardedCache_all_def shard_items_def by (simp add: comp_def items_set map_concat)
qed

lemma put_keeps:
  assumes c: "ok c" and r: "routable c k" and n: "\<forall>s\<in>set (sc_shards c). inserted s \<noteq> - 1"
  shows "\<exists>c' p. shardedCache_Put eng env k v c = Inr (c', p) \<and> ok c' \<and> frame_kept c c'"
proof -
  let ?i = "shardOf c k" and ?s = "en_setCoord eng (sc_coord c) (sc_shards c ! shardOf c k)"
  have i: "?i < length (sc_shards c)" "shardFor c k = Inr ?i" using shardFor_routable [OF r] by auto
  have "inserted ?s \<noteq> - 1" using n i(1) by (simp add: inserted_set)
  from put_total [OF shard_inv [OF c i(1)] this] obtain s' p where p: "en_Put eng env k v ?s = Inr (s', p)" "inv s'"
    "frame s' = frame (sc_shards c ! ?i)" "fst ` set (items s') \<subseteq> insert k (fst ` set (items (sc_shards c ! ?i)))"
    unfolding items_set frame_set by blast
  from onShard_ok [where f = "en_Put eng env k v", OF c i(1) p(1-3) sub_route [OF c i(1) p(4) routed [OF r]]]
  show ?thesis unfolding shardedCache_Put_def no_arena [OF c] option.case i(2) bindr_simps by blast
qed

lemma compactShards_ok:
  assumes "ok c" "set is \<subseteq> {..<length (sc_shards c)}"
  shows "\<exists>c'. compactShards eng is c = Inr c' \<and> ok c' \<and> frame_kept c c' \<and> shard_items items c' = shard_items items c"
  using assms
proof (induction "is" arbitrary: c)
  case (Cons i "is")
  let ?s = "en_setCoord eng (sc_coord c) (sc_shards c ! i)"
  let ?f = "\<lambda>s. bindr (en_Compact eng s) (\<lambda>s'. Inr (s', ()))"
  have i: "i < length (sc_shards c)" using Cons.prems(2) by simp
  obtain s' where d: "en_Compact eng ?s = Inr s'" "inv s'" "frame s' = frame (sc_shards c ! i)" "items s' = items (sc_shards c ! i)"
    using compact_law [OF shard_inv [OF Cons.prems(1) i]] unfolding items_set frame_set by blast
  have "?f ?s = Inr (s', ())" using d(1) by simp
  moreover have "fst ` set (items s') \<subseteq> fst ` set (items (sc_shards c ! i))" using d(4) by simp
  ultimately obtain c1 where c1: "onShard eng i ?f c = Inr (c1, ())" "ok c1" "frame_kept c c1" "sc_shards c1 = (sc_shards c)[i := s']"
    using onShard_ok [where f = ?f, OF Cons.prems(1) i _ d(2,3) shrink_route [OF Cons.prems(1) i]] by blast
  have n1: "set is \<subseteq> {..<length (sc_shards c1)}" using Cons.prems(2) c1(4) by simp
  obtain c' where ih: "compactShards eng is c1 = Inr c'" "ok c'" "frame_kept c1 c'" "shard_items items c' = shard_items items c1"
    using Cons.IH [OF c1(2) n1] by blast
  have "map items (sc_shards c1) = map items (sc_shards c)"
    using d(4) i c1(4) by (simp add: map_update list_update_same_conv)
  then show ?case using c1(1) ih same_frame_trans [OF c1(3) ih(3)] by (auto simp: shard_items_def)
qed simp

lemma compact_ok:
  assumes "ok c"
  shows "\<exists>c'. shardedCache_Compact eng c = Inr c' \<and> ok c' \<and> frame_kept c c' \<and> shard_items items c' = shard_items items c"
proof -
  have "set [0..<length (sc_shards c)] \<subseteq> {..<length (sc_shards c)}" by auto
  then show ?thesis unfolding shardedCache_Compact_def by (rule compactShards_ok [OF assms])
qed

lemma evaluateShards_ok:
  assumes "ok c" "queue_wf q" "valid_pressure (h_pressure h)" "set is \<subseteq> {..<length (sc_shards c)}"
  shows "\<exists>c' q' ev'. evaluateShards eng env is h ev (c, q) = Inr ((c', q'), ev') \<and> ok c' \<and> frame_kept c c' \<and> queue_wf q'
    \<and> (\<forall>j<length (sc_shards c). subseq (items (sc_shards c' ! j)) (items (sc_shards c ! j)))"
  using assms
proof (induction "is" arbitrary: c q h ev)
  case (Cons i "is")
  let ?s = "en_setCoord eng (sc_coord c) (sc_shards c ! i)"
  let ?f = "\<lambda>s. bindr (en_evaluateShardPressure eng env h (s, q)) (\<lambda>((s', q'), r). Inr (s', q', r))"
  have i: "i < length (sc_shards c)" using Cons.prems(4) by simp
  obtain s' q' vs out where d: "en_evaluateShardPressure eng env h (?s, q) = Inr ((s', q'), vs, out)" "inv s'" "queue_wf q'"
    "valid_pressure (h_pressure out)" "subseq (items s') (items (sc_shards c ! i))" "frame s' = frame (sc_shards c ! i)"
    using evaluate_law [OF shard_inv [OF Cons.prems(1) i] Cons.prems(2,3)] unfolding items_set frame_set by blast
  have "?f ?s = Inr (s', q', vs, out)" using d(1) by simp
  moreover have "fst ` set (items s') \<subseteq> fst ` set (items (sc_shards c ! i))" using subseq_mem [OF d(5)] by auto
  ultimately obtain c1 where c1: "onShard eng i ?f c = Inr (c1, q', vs, out)" "ok c1" "frame_kept c c1" "sc_shards c1 = (sc_shards c)[i := s']"
    using onShard_ok [where f = ?f, OF Cons.prems(1) i _ d(2,6) shrink_route [OF Cons.prems(1) i]] by blast
  have n1: "set is \<subseteq> {..<length (sc_shards c1)}" "length (sc_shards c1) = length (sc_shards c)" using Cons.prems(4) c1(4) by simp_all
  obtain c' q'' ev' where ih: "evaluateShards eng env is out (appendEvicted ev vs) (c1, q') = Inr ((c', q''), ev')" "ok c'" "frame_kept c1 c'" "queue_wf q''"
    "\<forall>j<length (sc_shards c1). subseq (items (sc_shards c' ! j)) (items (sc_shards c1 ! j))"
    using Cons.IH [OF c1(2) d(3,4) n1(1)] by blast
  have s1: "subseq (items (sc_shards c1 ! j)) (items (sc_shards c ! j))" if "j < length (sc_shards c)" for j
    using d(5) c1(4) that by (cases "j = i") auto
  have "subseq (items (sc_shards c' ! j)) (items (sc_shards c ! j))" if "j < length (sc_shards c)" for j
    using ih(5) s1 [OF that] that n1(2) subseq_order.trans by metis
  then show ?case using c1(1) ih same_frame_trans [OF c1(3) ih(3)] by auto
qed simp

lemma evaluate_ok:
  assumes c: "ok c"
  shows "\<exists>c' ev cbs. shardedCache_EvaluateMemoryPressure eng env c = Inr (c', ev, cbs) \<and> ok c' \<and> frame_kept c c'
    \<and> subseq (shard_items items c') (shard_items items c)"
proof -
  have v: "valid_pressure (h_pressure emptyShardSample)" by (simp add: emptyShardSample_def)
  have sub: "set [0..<length (sc_shards c)] \<subseteq> {..<length (sc_shards c)}" by auto
  obtain c1 q ev where d: "evaluateShards eng env [0..<length (sc_shards c)] emptyShardSample [] (c, newEvictQueue True) = Inr ((c1, q), ev)"
    "ok c1" "frame_kept c c1" "\<forall>j<length (sc_shards c). subseq (items (sc_shards c1 ! j)) (items (sc_shards c ! j))"
    using evaluateShards_ok [OF c queue_wf_new v sub] by blast
  have "subseq (shard_items items c1) (shard_items items c)"
    unfolding shard_items_def using d(4) same_frame_length [OF d(3)] by (intro subseq_concat) simp_all
  then show ?thesis using d by (simp add: shardedCache_EvaluateMemoryPressure_def)
qed

end

end
