(* ===== verification/ShardStats.thy ===== *)
theory ShardStats
  imports ShardedSpec
begin

text \<open>
  The sums of the shards' counters: under the laws of a shard engine the aggregate snapshot is truthful and
  passes the checks of \<^verbatim>\<open>checkAggregateStatsInvariants\<close>.
\<close>

subsection \<open>Aggregated statistics\<close>

lemma unat_sum_list_u64:
  fixes ws :: "u64 list"
  assumes "sum_list (map unat ws) < 2 ^ 64"
  shows "unat (sum_list ws) = sum_list (map unat ws)"
  using assms by (induction ws) (simp_all add: unat_add_lem [THEN iffD1])

lemma sum_list_concat_map: "sum_list (concat xss) = sum_list (map sum_list xss)"
  by (induction xss) simp_all

lemma sum_list_map_int: "sum_list (map int ns) = int (sum_list ns)"
  by (induction ns) simp_all

lemma addShardStats_record:
  "foldl addShardStats st sts = st\<lparr>
     GetHits := GetHits st + sum_list (map GetHits sts), GetMisses := GetMisses st + sum_list (map GetMisses sts),
     PeekHits := PeekHits st + sum_list (map PeekHits sts), PeekMisses := PeekMisses st + sum_list (map PeekMisses sts),
     EvictionsCapacity := EvictionsCapacity st + sum_list (map EvictionsCapacity sts), EvictionsPressure := EvictionsPressure st + sum_list (map EvictionsPressure sts),
     EvictionsDeleted := EvictionsDeleted st + sum_list (map EvictionsDeleted sts), EvictionsReplaced := EvictionsReplaced st + sum_list (map EvictionsReplaced sts),
     EvictedWeightCapacity := EvictedWeightCapacity st + sum_list (map EvictedWeightCapacity sts), EvictedWeightPressure := EvictedWeightPressure st + sum_list (map EvictedWeightPressure sts),
     EvictedWeightDeleted := EvictedWeightDeleted st + sum_list (map EvictedWeightDeleted sts), EvictedWeightReplaced := EvictedWeightReplaced st + sum_list (map EvictedWeightReplaced sts),
     CurrentSize := CurrentSize st + sum_list (map CurrentSize sts), MaxSize := MaxSize st + sum_list (map MaxSize sts),
     Len := Len st + sum_list (map Len sts), ZeroSizeCount := ZeroSizeCount st + sum_list (map ZeroSizeCount sts),
     PutInserted := PutInserted st + sum_list (map PutInserted sts), PutUpdated := PutUpdated st + sum_list (map PutUpdated sts),
     PutRejectedOversized := PutRejectedOversized st + sum_list (map PutRejectedOversized sts), ReplaceUpdated := ReplaceUpdated st + sum_list (map ReplaceUpdated sts),
     ReplaceNotFound := ReplaceNotFound st + sum_list (map ReplaceNotFound sts), ReplaceSelfEvicted := ReplaceSelfEvicted st + sum_list (map ReplaceSelfEvicted sts),
     DeleteDeleted := DeleteDeleted st + sum_list (map DeleteDeleted sts), DeleteNotFound := DeleteNotFound st + sum_list (map DeleteNotFound sts),
     CompactionsExplicit := CompactionsExplicit st + sum_list (map CompactionsExplicit sts), CompactionsPressureTier1 := CompactionsPressureTier1 st + sum_list (map CompactionsPressureTier1 sts),
     CompactionsPressureTier2 := CompactionsPressureTier2 st + sum_list (map CompactionsPressureTier2 sts), CompactionsAutoSlack := CompactionsAutoSlack st + sum_list (map CompactionsAutoSlack sts),
     PressureShedsInline := PressureShedsInline st + sum_list (map PressureShedsInline sts), PressureShedsExplicit := PressureShedsExplicit st + sum_list (map PressureShedsExplicit sts),
     DeletedSinceCompact := DeletedSinceCompact st + sum_list (map DeletedSinceCompact sts), PeakEntryLen := PeakEntryLen st + sum_list (map PeakEntryLen sts),
     ArenaLiveNodes := ArenaLiveNodes st + sum_list (map ArenaLiveNodes sts), ArenaFreeNodes := ArenaFreeNodes st + sum_list (map ArenaFreeNodes sts),
     ArenaUnallocatedCap := ArenaUnallocatedCap st + sum_list (map ArenaUnallocatedCap sts), ArenaHashFallbacks := ArenaHashFallbacks st + sum_list (map ArenaHashFallbacks sts)\<rparr>"
  by (induction sts arbitrary: st) (simp_all add: addShardStats_def add.assoc)

lemma addShardStats_fold:
  "MaxSize (foldl addShardStats st sts) = MaxSize st + sum_list (map MaxSize sts)"
  "CurrentSize (foldl addShardStats st sts) = CurrentSize st + sum_list (map CurrentSize sts)"
  "Len (foldl addShardStats st sts) = Len st + sum_list (map Len sts)"
  "ZeroSizeCount (foldl addShardStats st sts) = ZeroSizeCount st + sum_list (map ZeroSizeCount sts)"
  "DeletedSinceCompact (foldl addShardStats st sts) = DeletedSinceCompact st + sum_list (map DeletedSinceCompact sts)"
  "PeakEntryLen (foldl addShardStats st sts) = PeakEntryLen st + sum_list (map PeakEntryLen sts)"
  "PutInserted (foldl addShardStats st sts) = PutInserted st + sum_list (map PutInserted sts)"
  "PutUpdated (foldl addShardStats st sts) = PutUpdated st + sum_list (map PutUpdated sts)"
  "ReplaceUpdated (foldl addShardStats st sts) = ReplaceUpdated st + sum_list (map ReplaceUpdated sts)"
  "ReplaceSelfEvicted (foldl addShardStats st sts) = ReplaceSelfEvicted st + sum_list (map ReplaceSelfEvicted sts)"
  "DeleteDeleted (foldl addShardStats st sts) = DeleteDeleted st + sum_list (map DeleteDeleted sts)"
  "EvictionsCapacity (foldl addShardStats st sts) = EvictionsCapacity st + sum_list (map EvictionsCapacity sts)"
  "EvictionsPressure (foldl addShardStats st sts) = EvictionsPressure st + sum_list (map EvictionsPressure sts)"
  "EvictionsDeleted (foldl addShardStats st sts) = EvictionsDeleted st + sum_list (map EvictionsDeleted sts)"
  "EvictionsReplaced (foldl addShardStats st sts) = EvictionsReplaced st + sum_list (map EvictionsReplaced sts)"
  "PressureShedsInline (foldl addShardStats st sts) = PressureShedsInline st + sum_list (map PressureShedsInline sts)"
  "PressureShedsExplicit (foldl addShardStats st sts) = PressureShedsExplicit st + sum_list (map PressureShedsExplicit sts)"
  by (simp_all add: addShardStats_record)

lemma aggregate_checks:
  fixes ns :: "nat list"
  assumes st: "\<And>i. i < length sts \<Longrightarrow> shard_stats (ns ! i) (sts ! i)" and len: "length ns = length sts"
    and cap: "sum_list (map (\<lambda>s. unat (MaxSize s)) sts) = unat maxSz"
    and ins: "sum_list (map (\<lambda>s. unat (PutInserted s)) sts) < 2 ^ 64"
    and tot: "tot = (foldl addShardStats (zeroStats\<lparr>st_Backend := b, DeletePrefixExecuted := e\<rparr>) sts)
      \<lparr>MemoryPressure := mp, ReclaimEpoch := re\<rparr>" and mp: "valid_pressure mp"
  shows "checkAggregateStatsInvariants maxSz tot = Inr () \<and> MaxSize tot = maxSz \<and> Len tot = int (sum_list ns)
    \<and> unat (CurrentSize tot) = sum_list (map (\<lambda>s. unat (CurrentSize s)) sts)
    \<and> unat (PutInserted tot) = sum_list (map (\<lambda>s. unat (PutInserted s)) sts)"
proof -
  have all: "\<exists>n. shard_stats n s" if "s \<in> set sts" for s using st that by (metis in_set_conv_nth)
  have each: "0 \<le> ZeroSizeCount s" "0 \<le> DeletedSinceCompact s" "0 \<le> PeakEntryLen s" "ZeroSizeCount s \<le> Len s"
    if "s \<in> set sts" for s using all [OF that] by (auto simp: shard_stats_def)
  note u = unat_sum_list_u64 [where ws = "map _ sts", unfolded map_map comp_def]
  have le: "sum_list (map (\<lambda>s. unat (F s)) sts) < 2 ^ 64"
    if "\<And>s n. shard_stats n s \<Longrightarrow> unat (F s) \<le> unat (PutInserted s)" for F :: "Stats \<Rightarrow> u64"
  proof -
    have "sum_list (map (\<lambda>s. unat (F s)) sts) \<le> sum_list (map (\<lambda>s. unat (PutInserted s)) sts)"
      using all that by (intro sum_list_mono) blast
    then show ?thesis using ins by simp
  qed
  have mono: "sum_list (map (\<lambda>s. unat (F s)) sts) \<le> sum_list (map (\<lambda>s. unat (G s)) sts)"
    if "\<And>s n. shard_stats n s \<Longrightarrow> unat (F s) \<le> unat (G s)" for F G :: "Stats \<Rightarrow> u64"
    using all that by (intro sum_list_mono) blast
  have leI: "sum_list (map F sts) \<le> sum_list (map G sts)" if "\<And>s n. shard_stats n s \<Longrightarrow> unat (F s) \<le> unat (G s)"
      "sum_list (map (\<lambda>s. unat (G s)) sts) < 2 ^ 64" for F G :: "Stats \<Rightarrow> u64"
    using mono [of F G] that by (simp add: word_le_nat_alt u)
  have mx: "sum_list (map MaxSize sts) = maxSz" using u [of MaxSize] cap unat_lt_u64 [of maxSz] by (simp add: word_unat_eq_iff)
  have cur: "sum_list (map CurrentSize sts) \<le> maxSz"
    unfolding mx [symmetric] by (rule leI) (use unat_lt_u64 [of maxSz] in \<open>auto simp: shard_stats_def word_le_nat_alt cap\<close>)
  have del: "sum_list (map DeleteDeleted sts) \<le> sum_list (map EvictionsDeleted sts)"
    by (rule leI [OF _ le]) (auto simp: shard_stats_def word_le_nat_alt)
  have self: "sum_list (map ReplaceSelfEvicted sts) \<le> sum_list (map EvictionsCapacity sts)"
    by (rule leI [OF _ le]) (auto simp: shard_stats_def word_le_nat_alt)
  have inl: "unat (PressureShedsInline s + PressureShedsExplicit s) \<le> unat (EvictionsPressure s)" if "shard_stats n s" for n s
  proof -
    have "unat (PressureShedsInline s) + unat (PressureShedsExplicit s) < 2 ^ 64"
      using that unat_lt_u64 [of "EvictionsPressure s"] unfolding shard_stats_def by linarith
    then show ?thesis using that by (simp add: shard_stats_def unat_add_lem [THEN iffD1])
  qed
  have shed: "sum_list (map PressureShedsInline sts) + sum_list (map PressureShedsExplicit sts) \<le> sum_list (map EvictionsPressure sts)"
    unfolding sum_list_addf [symmetric] by (rule leI [OF inl le]) (auto simp: shard_stats_def)
  have upd: "sum_list (map PutUpdated sts) + sum_list (map ReplaceUpdated sts) = sum_list (map EvictionsReplaced sts)"
    unfolding sum_list_addf [symmetric] using all by (intro arg_cong [where f = sum_list] map_cong) (auto simp: shard_stats_def)
  have word: "word_of_int (Len s) + EvictionsCapacity s + EvictionsPressure s + EvictionsDeleted s = PutInserted s"
    if "shard_stats n s" for n s
  proof -
    have "word_of_nat (n + unat (EvictionsCapacity s) + unat (EvictionsPressure s) + unat (EvictionsDeleted s))
        = (word_of_nat (unat (PutInserted s)) :: u64)" using that by (simp only: shard_stats_def)
    then show ?thesis using that by (simp add: shard_stats_def)
  qed
  have ints: "word_of_int (sum_list (map Len xs)) = (sum_list (map (\<lambda>s. word_of_int (Len s)) xs) :: u64)" for xs
    by (induction xs) simp_all
  have ledger: "word_of_int (sum_list (map Len sts)) + (sum_list (map EvictionsCapacity sts) + sum_list (map EvictionsPressure sts)
      + sum_list (map EvictionsDeleted sts)) = sum_list (map PutInserted sts)"
    unfolding ints add.assoc [symmetric] sum_list_addf [symmetric]
    using all word by (intro arg_cong [where f = sum_list] map_cong) auto
  have nonneg: "0 \<le> sum_list (map ZeroSizeCount sts)" "0 \<le> sum_list (map DeletedSinceCompact sts)" "0 \<le> sum_list (map PeakEntryLen sts)"
    using each by (auto intro!: sum_list_nonneg)
  have zero: "sum_list (map ZeroSizeCount sts) \<le> sum_list (map Len sts)"
    using each by (intro sum_list_mono) auto
  have "map Len sts = map int ns" using st len by (intro nth_equalityI) (auto simp: shard_stats_def)
  then have lens: "sum_list (map Len sts) = int (sum_list ns)" by (simp add: sum_list_map_int)
  have tots: "sum_list (map (\<lambda>s. unat (CurrentSize s)) sts) < 2 ^ 64"
    using mono [of CurrentSize MaxSize] cap unat_lt_u64 [of maxSz] by (auto simp: shard_stats_def word_le_nat_alt)
  have "checkCapacityAndWatermarkInvariants maxSz tot = Inr ()"
    using mx cur nonneg zero mp
    by (simp add: tot checkCapacityAndWatermarkInvariants_def addShardStats_fold zeroStats_def valid_pressure_def require_def
        split: float64.splits)
  moreover have "checkCounterConservationInvariants tot = Inr ()"
    using upd ledger del self shed
    by (simp add: tot checkCounterConservationInvariants_def addShardStats_fold zeroStats_def require_def not_less)
  ultimately show ?thesis
    using mx lens u [of CurrentSize, OF tots] u [of PutInserted, OF ins]
    by (simp add: checkAggregateStatsInvariants_def) (simp add: tot addShardStats_fold zeroStats_def)
qed

context shard_engine
begin

definition snap :: "'c \<Rightarrow> Stats" where
  "snap s = projr (en_Stats eng s)"

lemma snap_law:
  assumes "inv s"
  shows "en_Stats eng s = Inr (snap s)" "shard_stats (length (items s)) (snap s)" "MaxSize (snap s) = fst (frame s)"
    "PutInserted (snap s) = inserted s" "unat (CurrentSize (snap s)) = weight_sum (map (\<lambda>x. entry_weight x) (items s))"
  using stats_law [OF assms] by (auto simp: snap_def)

lemma sumShardStats_fold:
  "(\<And>s. s \<in> set ss \<Longrightarrow> inv s) \<Longrightarrow> sumShardStats eng ss st = Inr (foldl addShardStats st (map snap ss))"
  by (induction ss arbitrary: st) (simp_all add: snap_law)

lemma stats_ok:
  assumes c: "ok c" and cap: "sum_list (map (\<lambda>s. unat (fst (frame s))) (sc_shards c)) = unat (sc_maxSize c)"
    and ins: "sum_list (map (\<lambda>s. unat (inserted s)) (sc_shards c)) < 2 ^ 64"
  shows "\<exists>st. shardedCache_Stats eng c = Inr st
    \<and> st = (foldl addShardStats (zeroStats\<lparr>st_Backend := sc_backend c, DeletePrefixExecuted := sc_deletePrefixExecuted c\<rparr>)
          (map (\<lambda>s. snap (en_setCoord eng (sc_coord c) s)) (sc_shards c)))
        \<lparr>MemoryPressure := lastSampledPressure (sc_coord c), ReclaimEpoch := reclaimEpoch (sc_coord c)\<rparr>
    \<and> checkAggregateStatsInvariants (sc_maxSize c) st = Inr () \<and> MaxSize st = sc_maxSize c \<and> Len st = int (length (shard_items items c))
    \<and> unat (CurrentSize st) = weight_sum (map (\<lambda>x. entry_weight x) (shard_items items c))
    \<and> unat (PutInserted st) = sum_list (map (\<lambda>s. unat (inserted s)) (sc_shards c))"
proof -
  define ss where "ss = map (en_setCoord eng (sc_coord c)) (sc_shards c)"
  have inv: "inv s" if "s \<in> set ss" for s using that shard_inv [OF c] by (auto simp: ss_def in_set_conv_nth)
  have ss_map: "map snap ss = map (\<lambda>s. snap (en_setCoord eng (sc_coord c) s)) (sc_shards c)" by (simp add: ss_def)
  define tot where "tot = (foldl addShardStats (zeroStats\<lparr>st_Backend := sc_backend c, DeletePrefixExecuted := sc_deletePrefixExecuted c\<rparr>) (map snap ss))
    \<lparr>MemoryPressure := lastSampledPressure (sc_coord c), ReclaimEpoch := reclaimEpoch (sc_coord c)\<rparr>"
  have sums: "sum_list (map (\<lambda>s. unat (MaxSize s)) (map snap ss)) = unat (sc_maxSize c)"
    "sum_list (map (\<lambda>s. unat (PutInserted s)) (map snap ss)) = sum_list (map (\<lambda>s. unat (inserted s)) (sc_shards c))"
    "sum_list (map (\<lambda>s. unat (CurrentSize s)) (map snap ss)) = weight_sum (map (\<lambda>x. entry_weight x) (shard_items items c))"
    using inv cap by (simp_all add: ss_def snap_law comp_def frame_set inserted_set items_set shard_items_def map_concat
        weight_sum_def sum_list_concat_map cong: map_cong)
  have lens: "sum_list (map (\<lambda>s. length (items s)) ss) = length (shard_items items c)"
    by (simp add: ss_def comp_def items_set shard_items_def length_concat)
  have mp: "valid_pressure (lastSampledPressure (sc_coord c))" using c by (simp add: shards_ok_def coord_ok_def)
  have "checkAggregateStatsInvariants (sc_maxSize c) tot = Inr () \<and> MaxSize tot = sc_maxSize c
      \<and> Len tot = int (sum_list (map (\<lambda>s. length (items s)) ss))
      \<and> unat (CurrentSize tot) = sum_list (map (\<lambda>s. unat (CurrentSize s)) (map snap ss))
      \<and> unat (PutInserted tot) = sum_list (map (\<lambda>s. unat (PutInserted s)) (map snap ss))"
    by (rule aggregate_checks [OF _ _ sums(1) _ tot_def mp]) (use inv snap_law(2) ins sums(2) in auto)
  moreover have "sumShardStats eng ss st = Inr (foldl addShardStats st (map snap ss))" for st
    using inv by (rule sumShardStats_fold)
  ultimately show ?thesis
    unfolding shardedCache_Stats_def ss_def [symmetric] sums lens
    by (intro exI [of _ tot]) (simp add: tot_def [symmetric] ss_map [symmetric] Let_def)
qed

end

end
