(* ===== verification/ShardedMap.thy ===== *)
theory ShardedMap
  imports ShardStats
begin

text \<open>
  The sharded cache over the map backend: the map backend keeps the contract of a shard engine, so that
  the lemmas of \<^verbatim>\<open>ShardedSpec\<close> hold for it; construction, and the states a program can reach.
\<close>

subsection \<open>The map backend is a shard engine\<close>

lemma iterateAll_upto:
  fixes c :: "('v :: zero) mapCache"
  assumes "map_inv c"
  shows "mapCache_iterateAll yld c = Inr (upto_refusal yld [] (pairs (lru c)))"
proof -
  have it: "iterateLoop h yld (first as None) acc = Some (upto_refusal yld acc (map (\<lambda>a. (ekey (h a), evalue (h a))) as))"
    if "lseg h p as None" for h :: "addr \<Rightarrow> 'v entry" and p as acc
    using that
  proof (induction as arbitrary: p acc)
    case Nil
    then show ?case by (simp add: iterateLoop.simps)
  next
    case (Cons a as)
    have "iterateLoop h yld (first as None) z = Some (upto_refusal yld z (map (\<lambda>a. (ekey (h a), evalue (h a))) as))" for z
      using Cons.IH [of "Some a" z] Cons.prems by simp
    then show ?case using Cons.prems by (simp add: iterateLoop.simps [of h yld "Some a"] Let_def)
  qed
  note m = map_inv_mid [OF assms]
  have ls: "lseg (m_heap c) None (addrs c) None" using m by (simp add: mid_def map_repr_def dll_def)
  have "map (\<lambda>a. (ekey (m_heap c a), evalue (m_heap c a))) (addrs c) = pairs (lru c)" by (simp add: lru_def comp_def)
  then show ?thesis
    using it [OF ls, of "[]"] unlock_ok [OF assms] mid_Front [OF m]
    by (cases "upto_refusal yld [] (pairs (lru c))") (simp add: mapCache_iterateAll_def)
qed

lemma setCoord_inv: "map_inv s \<Longrightarrow> coord_ok co \<Longrightarrow> map_inv (setCoord co s)"
  unfolding setCoord_def by (rule conjunct1 [OF inv_onPs]) (simp_all add: sampling_ok_def)

lemma setCoord_simps [simp]:
  "lru (setCoord co s) = lru s" "cfg (setCoord co s) = cfg s" "putInserted (m_ps (setCoord co s)) = putInserted (m_ps s)"
  "coord (m_ps (setCoord co s)) = co" "setCoord co (setCoord co' s) = setCoord co s" "setCoord (coord (m_ps s)) s = s"
  by (simp_all add: setCoord_def onPs_def lru_def addrs_def cfg_def mapLen_def)

lemma Replace_keys:
  fixes c :: "('v :: zero) mapCache"
  assumes inv: "map_inv c"
  shows "\<exists>c' r. mapCache_Replace env k v c = Inr (c', r) \<and> map_inv c' \<and> cfg c' = cfg c
    \<and> fst ` set (lru c') \<subseteq> fst ` set (lru c)"
proof (cases "map_of (lru c) k")
  case None
  show ?thesis using Replace_absent_spec [OF inv None, of env v] by (metis order_refl)
next
  case (Some y)
  obtain w0 v0 where "y = (w0, v0)" by (rule prod.exhaust)
  then have "(k, w0, v0) \<in> set (lru c)" using Some by (simp add: map_of_SomeD)
  then obtain newer older where lru: "lru c = newer @ (k, w0, v0) # older" by (metis split_list)
  show ?thesis
  proof (cases "weight_sum (map (\<lambda>y. entry_weight y) newer) + unat (mapCache_weigh c k v) \<le> unat (m_maxSize c)")
    case True
    obtain c' r kept gc b gp where p: "mapCache_Replace env k v c = Inr (c', r)" "map_inv c'" "cfg c' = cfg c" "older = kept @ rev gc"
      "reclaimed b (newer @ (k, mapCache_weigh c k v, v) # kept) gp (lru c')"
      using Replace_fits_spec [OF inv lru True, of env] by blast
    have "fst ` set (newer @ (k, mapCache_weigh c k v, v) # kept) \<subseteq> fst ` set (lru c)" unfolding lru p(4) by auto
    then have "fst ` set (lru c') \<subseteq> fst ` set (lru c)"
      using image_mono [OF subseq_mem [OF reclaimed_subseq [OF p(5)]], of fst] by blast
    then show ?thesis using p(1-3) by blast
  next
    case False
    then have "unat (m_maxSize c) < weight_sum (map (\<lambda>y. entry_weight y) newer) + unat (mapCache_weigh c k v)" by simp
    from Replace_self_evicts_spec [OF inv lru this, of env] obtain c' r b gp where
      p: "mapCache_Replace env k v c = Inr (c', r)" "map_inv c'" "cfg c' = cfg c" "reclaimed b (newer @ older) gp (lru c')" by blast
    have "fst ` set (newer @ older) \<subseteq> fst ` set (lru c)" unfolding lru by auto
    then have "fst ` set (lru c') \<subseteq> fst ` set (lru c)"
      using image_mono [OF subseq_mem [OF reclaimed_subseq [OF p(4)]], of fst] by blast
    then show ?thesis using p(1-3) by blast
  qed
qed

lemma Put_keys:
  fixes c :: "('v :: zero) mapCache"
  assumes inv: "map_inv c" and room: "putInserted (m_ps c) \<noteq> - 1"
  shows "\<exists>c' r. mapCache_Put env k v c = Inr (c', r) \<and> map_inv c' \<and> cfg c' = cfg c
    \<and> fst ` set (lru c') \<subseteq> insert k (fst ` set (lru c))"
proof (cases "mapCache_weigh c k v \<le> m_maxSize c")
  case True
  obtain c' r rest gc b gp keep where p: "mapCache_Put env k v c = Inr (c', r)" "map_inv c'" "cfg c' = cfg c"
    "others k (lru c) = rest @ rev gc" "reclaimed b rest gp keep" "lru c' = (k, mapCache_weigh c k v, v) # keep"
    using Put_spec [OF inv True room, of env] by blast
  have "set keep \<subseteq> set (others k (lru c))" using subseq_mem [OF reclaimed_subseq [OF p(5)]] p(4) by auto
  then have "fst ` set (lru c') \<subseteq> insert k (fst ` set (lru c))" using p(6) by (auto simp: others_def)
  then show ?thesis using p(1-3) by blast
next
  case False
  then have "m_maxSize c < mapCache_weigh c k v" by simp
  from Put_oversized_spec [OF inv this, of env] show ?thesis by (metis subset_insertI)
qed

lemma map_shard_stats:
  fixes c :: "('v :: zero) mapCache"
  assumes inv: "map_inv c"
  shows "\<exists>st. mapCache_Stats c = Inr st \<and> shard_stats (length (lru c)) st \<and> MaxSize st = m_maxSize c
    \<and> PutInserted st = putInserted (m_ps c) \<and> unat (CurrentSize st) = weight_sum (map (\<lambda>x. entry_weight x) (lru c))"
proof -
  note md = map_inv_mid [OF inv]
  have ew: "map (\<lambda>x. entry_weight x) (lru c) = map (weights (m_heap c)) (addrs c)" and ln: "length (lru c) = length (addrs c)"
    by (simp_all add: lru_ents [OF md] ents_weight) (simp add: ents_def)
  have "ps_ok (m_ps c) (length (addrs c)) (count_list (map (weights (m_heap c)) (addrs c)) 0) 0 0 0"
    "unat (m_currentSize c) = weight_sum (map (weights (m_heap c)) (addrs c))" "m_currentSize c \<le> m_maxSize c"
    using md by (simp_all add: mid_def)
  moreover from this(1) have "unat (deleteDeleted (m_ps c)) \<le> unat (evictionsDeleted (m_ps c))"
    "unat (replaceSelfEvicted (m_ps c)) \<le> unat (evictionsCapacity (m_ps c))"
    "unat (pressureShedsInline (m_ps c)) + unat (pressureShedsExplicit (m_ps c)) \<le> unat (evictionsPressure (m_ps c))"
    unfolding ps_ok_def books_ok_def by linarith+
  ultimately show ?thesis
    using unlock_ok [OF inv] mid_len [OF md] ew ln
    by (auto simp: mapCache_Stats_def snapshotBaseStats_def ps_ok_def books_ok_def shard_stats_def word_le_nat_alt)
qed

lemma mapEngine_simps [simp]:
  "en_new mapEngine = newMapCacheWithOptions" "en_coord mapEngine = (\<lambda>c. coord (m_ps c))" "en_setCoord mapEngine = setCoord"
  "en_Put mapEngine = mapCache_Put" "en_Delete mapEngine = mapCache_Delete" "en_Get mapEngine = mapCache_Get"
  "en_Peek mapEngine = mapCache_Peek" "en_Replace mapEngine = mapCache_Replace" "en_iterateAll mapEngine = mapCache_iterateAll"
  "en_Stats mapEngine = mapCache_Stats" "en_Compact mapEngine = mapCache_Compact"
  "en_deletePrefixShard mapEngine = mapCache_deletePrefixShard"
  "en_evaluateShardPressure mapEngine = mapCache_evaluateShardPressure"
  by (simp_all add: mapEngine_def)

lemma lookup_frame:
  fixes s :: "('v :: zero) mapCache"
  assumes "map_inv s"
  shows "mapCache_Get k s = Inr (s', a) \<Longrightarrow> cfg s' = cfg s"
    and "mapCache_Peek k s = Inr (s', b) \<Longrightarrow> cfg s' = cfg s"
    and "mapCache_Delete env k s = Inr (s', d) \<Longrightarrow> cfg s' = cfg s"
  using Get_spec [OF assms, of k] Peek_spec [OF assms, of k] Delete_spec [OF assms, of env k] by auto

interpretation map_sharded: shard_engine map_inv lru put_accepts "mapEngine :: ('v mapCache, 'v :: zero) shardEngine" 0
  cfg "\<lambda>c. putInserted (m_ps c)"
proof (intro shard_engine.intro shard_engine_axioms.intro, goal_cases)
  case 1
  show ?case unfolding mapEngine_simps by (rule map_engine.lru_engine_axioms)
next
  case (6 s)
  then show ?case using map_inv_mid [OF 6] by (simp add: mid_def ps_ok_def sampling_ok_def)
next
  case (7 s co)
  then show ?case by (simp add: setCoord_inv)
next
  case (10 s env k v)
  then show ?case using Put_keys [OF 10, of env k v] by simp
next
  case (11 s k v)
  then show ?case by (simp add: put_accepts_def)
next
  case (12 s k s' a)
  then show ?case unfolding mapEngine_simps using lookup_frame(1) by blast
next
  case (13 s k s' a)
  then show ?case unfolding mapEngine_simps using lookup_frame(2) by blast
next
  case (14 s env k s' d)
  then show ?case unfolding mapEngine_simps using lookup_frame(3) by blast
next
  case (15 s)
  then show ?case using map_shard_stats [OF 15] by (simp add: cfg_def)
next
  case (16 s env k v)
  then show ?case using Replace_keys [OF 16, of env k v] by simp
next
  case (17 s)
  then show ?case using Compact_spec [OF 17] by auto
next
  case (18 s yld)
  then show ?case using iterateAll_upto [OF 18] by simp
next
  case (19 s q h rng env pre)
  then show ?case using deletePrefixShard_spec [OF 19(1,3,2,4), of env pre] reclaimed_subseq unfolding mapEngine_simps by blast
next
  case (20 s q h env)
  then show ?case using evaluateShard_spec [OF 20(1,3,2), of env] reclaimed_subseq unfolding mapEngine_simps by blast
qed simp_all


subsection \<open>Construction\<close>

lemma share_pos:
  assumes "0 < n" "n < 2 ^ 63" "i < nat n" "\<not> maxSz < word_of_int n"
  shows "shardShare maxSz n i \<noteq> 0"
proof -
  have "unat (word_of_int n :: u64) = nat n" using assms unat_word_of_int_u64 [of n] by simp
  then have "nat n \<le> unat maxSz" using assms(4) by (simp add: not_less word_le_nat_alt)
  then have "0 < unat maxSz div nat n" using assms(1) by (simp add: div_greater_zero_iff)
  then have "unat (shardShare maxSz n i) \<noteq> 0" using shardShare_value [OF assms(1-3), of maxSz] by simp
  then show ?thesis by auto
qed

lemma newShards_map:
  fixes opts :: "('v :: zero) Options"
  assumes "thresholds_ok opts" "0 < n" "n < 2 ^ 63" "\<not> maxSz < word_of_int n" "set is \<subseteq> {..<nat n}"
    and "\<not> callbackMismatch (oWeigher opts)" "\<not> callbackMismatch (oOnEvictValue opts)" "\<not> callbackMismatch (oOnEvictEntry opts)"
  shows "\<exists>ss. newShards mapEngine maxSz target n opts is = Inr ss
    \<and> list_all2 (\<lambda>i s. map_inv s \<and> lru s = [] \<and> m_maxSize s = shardShare maxSz n i \<and> putInserted (m_ps s) = 0
        \<and> resolveWeigher (oWeigher opts) = Inr (m_weigher s)) is ss"
  using assms(5)
proof (induction "is")
  case (Cons i "is")
  have "i < nat n" using Cons.prems by simp
  from share_pos [OF assms(2,3) this assms(4)] obtain s where
    "newMapCacheWithOptions (shardShare maxSz n i) (opts\<lparr>shardTier2Target := shardShare target n i\<rparr>) = Inr s"
    "map_inv s" "lru s = []" "m_maxSize s = shardShare maxSz n i" "putInserted (m_ps s) = 0"
    "resolveWeigher (oWeigher opts) = Inr (m_weigher s)"
    using newMapCache_inv [of "opts\<lparr>shardTier2Target := shardShare target n i\<rparr>" "shardShare maxSz n i"] assms(1,6-8)
    by (auto simp: thresholds_ok_def)
  then show ?case using Cons.IH Cons.prems by auto
qed simp

definition sharded_inv :: "u64 \<Rightarrow> ('v mapCache, 'v :: zero) shardedCache \<Rightarrow> bool" where
  \<comment> \<open>well-formed shards whose capacities add up to the configured one\<close>
  "sharded_inv maxSz c = (shards_ok map_inv lru mapEngine c \<and> sc_maxSize c = maxSz
     \<and> sum_list (map (\<lambda>s. unat (m_maxSize s)) (sc_shards c)) = unat maxSz)"

abbreviation shardedLru :: "('v mapCache, 'v :: zero) shardedCache \<Rightarrow> 'v item list" where
  "shardedLru \<equiv> shard_items lru"

abbreviation insertions :: "('v mapCache, 'v :: zero) shardedCache \<Rightarrow> nat" where
  "insertions c \<equiv> sum_list (map (\<lambda>s. unat (putInserted (m_ps s))) (sc_shards c))"

abbreviation counted :: "('v pressureState \<Rightarrow> 'a :: monoid_add) \<Rightarrow> ('v mapCache, 'v) shardedCache \<Rightarrow> 'a" where
  \<comment> \<open>a counter, summed over the shards in its own type\<close>
  "counted f c \<equiv> sum_list (map (\<lambda>s. f (m_ps s)) (sc_shards c))"

definition shardTotals :: "('v mapCache, 'v) shardedCache \<Rightarrow> Stats" where
  \<comment> \<open>the snapshot there should be: the shards' own counters added up, and what the coordinator counts\<close>
  "shardTotals c = \<lparr>
     st_Backend = sc_backend c, GetHits = counted getHits c, GetMisses = counted getMisses c,
     PeekHits = counted peekHits c, PeekMisses = counted peekMisses c,
     EvictionsCapacity = counted evictionsCapacity c, EvictionsPressure = counted evictionsPressure c,
     EvictionsDeleted = counted evictionsDeleted c, EvictionsReplaced = counted evictionsReplaced c,
     EvictedWeightCapacity = counted evictedWeightCapacity c,
     EvictedWeightPressure = counted evictedWeightPressure c,
     EvictedWeightDeleted = counted evictedWeightDeleted c,
     EvictedWeightReplaced = counted evictedWeightReplaced c,
     CurrentSize = sum_list (map m_currentSize (sc_shards c)),
     MaxSize = sum_list (map m_maxSize (sc_shards c)), Len = sum_list (map mapLen (sc_shards c)),
     ZeroSizeCount = counted zeroSizeCount c, PutInserted = counted putInserted c,
     PutUpdated = counted putUpdated c, PutRejectedOversized = counted putRejectedOversized c,
     ReplaceUpdated = counted replaceUpdated c, ReplaceNotFound = counted replaceNotFound c,
     ReplaceSelfEvicted = counted replaceSelfEvicted c, DeleteDeleted = counted deleteDeleted c,
     DeleteNotFound = counted deleteNotFound c, DeletePrefixExecuted = sc_deletePrefixExecuted c,
     MemoryPressure = lastSampledPressure (sc_coord c),
     CompactionsExplicit = counted compactionsExplicit c,
     CompactionsPressureTier1 = counted compactionsPressureTier1 c,
     CompactionsPressureTier2 = counted compactionsPressureTier2 c,
     CompactionsAutoSlack = counted compactionsAutoSlack c,
     PressureShedsInline = counted pressureShedsInline c,
     PressureShedsExplicit = counted pressureShedsExplicit c, ReclaimEpoch = reclaimEpoch (sc_coord c),
     DeletedSinceCompact = counted deletedSinceCompact c, PeakEntryLen = counted peakEntryLen c,
     ArenaLiveNodes = 0, ArenaFreeNodes = 0, ArenaUnallocatedCap = 0, ArenaHashFallbacks = 0 \<rparr>"

lemma map_snapshot:
  assumes "map_inv s"
  shows "mapCache_Stats s = Inr (snapshotBaseStats (m_ps s) BackendMap (m_currentSize s) (m_maxSize s) (mapLen s))"
  using unlock_ok [OF assms] by (simp add: mapCache_Stats_def)

lemma setCoord_counters:
  "mapLen (setCoord co s) = mapLen s" "m_currentSize (setCoord co s) = m_currentSize s" "m_maxSize (setCoord co s) = m_maxSize s"
  "m_ps (setCoord co s) = (m_ps s)\<lparr>coord := co\<rparr>"
  by (simp_all add: setCoord_def)

lemma totals_fold:
  fixes c :: "('v mapCache, 'v :: zero) shardedCache"
  assumes "shards_ok map_inv lru mapEngine c"
  shows "(foldl addShardStats (zeroStats\<lparr>st_Backend := sc_backend c, DeletePrefixExecuted := sc_deletePrefixExecuted c\<rparr>)
      (map (\<lambda>s. map_sharded.snap (en_setCoord mapEngine (sc_coord c) s)) (sc_shards c)))
        \<lparr>MemoryPressure := lastSampledPressure (sc_coord c), ReclaimEpoch := reclaimEpoch (sc_coord c)\<rparr> = shardTotals c"
proof -
  have "map_inv (setCoord (sc_coord c) s)" if "s \<in> set (sc_shards c)" for s
    using map_sharded.shard_inv [OF assms] that by (auto simp: in_set_conv_nth)
  then have eq: "map (\<lambda>s. map_sharded.snap (en_setCoord mapEngine (sc_coord c) s)) (sc_shards c)
      = map (\<lambda>s. snapshotBaseStats ((m_ps s)\<lparr>coord := sc_coord c\<rparr>) BackendMap (m_currentSize s) (m_maxSize s) (mapLen s)) (sc_shards c)"
    by (intro map_cong [OF refl]) (simp add: map_sharded.snap_def map_snapshot setCoord_counters)
  show ?thesis
    unfolding eq by (simp add: addShardStats_record shardTotals_def zeroStats_def snapshotBaseStats_def comp_def)
qed

lemma sharded_stats:
  assumes "sharded_inv maxSz c" "insertions c < 2 ^ 64"
  shows "shardedCache_Stats mapEngine c = Inr (shardTotals c) \<and> checkAggregateStatsInvariants maxSz (shardTotals c) = Inr ()
    \<and> MaxSize (shardTotals c) = maxSz \<and> Len (shardTotals c) = int (length (shardedLru c))
    \<and> unat (CurrentSize (shardTotals c)) = weight_sum (map (\<lambda>x. entry_weight x) (shardedLru c))
    \<and> unat (PutInserted (shardTotals c)) = insertions c"
proof -
  have ok: "shards_ok map_inv lru mapEngine c" and cap: "sum_list (map (\<lambda>s. unat (m_maxSize s)) (sc_shards c)) = unat (sc_maxSize c)"
    and mx: "sc_maxSize c = maxSz" using assms(1) by (auto simp: sharded_inv_def)
  have cap': "sum_list (map (\<lambda>s. unat (fst (cfg s))) (sc_shards c)) = unat (sc_maxSize c)" using cap by (simp add: cfg_def)
  show ?thesis
    using map_sharded.stats_ok [OF ok cap' assms(2)] unfolding totals_fold [OF ok] mx by blast
qed

lemma newSharded_ok:
  fixes opts :: "('v :: zero) Options"
  assumes t: "thresholds_ok opts" "oBackend opts = BackendMap" and n: "0 < n" "n < 2 ^ 63" "\<not> maxSz < word_of_int n"
    and cb: "\<not> callbackMismatch (oWeigher opts)" "\<not> callbackMismatch (oOnEvictValue opts)" "\<not> callbackMismatch (oOnEvictEntry opts)"
  shows "\<exists>c. newShardedCacheWithOptions mapEngine hash dsf isDefault maxSz n opts = Inr c \<and> sharded_inv maxSz c \<and> shardedLru c = []
    \<and> map m_maxSize (sc_shards c) = map (shardShare maxSz n) [0..<nat n] \<and> length (sc_shards c) = nat n \<and> insertions c = 0
    \<and> sc_shardFn c = (case oShardFunc opts of None \<Rightarrow> dsf | Some f \<Rightarrow> f)
    \<and> (\<forall>s\<in>set (sc_shards c). resolveWeigher (oWeigher opts) = Inr (m_weigher s))"
proof -
  let ?so = "opts\<lparr>Shards := 0, hasCustomShards := False, shardTier2Target := 0, sharedPressure := True, hasShardTier2Target := True\<rparr>"
  have so: "thresholds_ok ?so" using t(1) by (simp add: thresholds_ok_def)
  have cb': "\<not> callbackMismatch (oWeigher ?so)" "\<not> callbackMismatch (oOnEvictValue ?so)" "\<not> callbackMismatch (oOnEvictEntry ?so)"
    using cb by simp_all
  have sub: "set [0..<nat n] \<subseteq> {..<nat n}" by auto
  obtain ss where ss: "newShards mapEngine maxSz (computeTargetSize maxSz (EvictionRetentionRatio opts)) n ?so [0..<nat n] = Inr ss"
    "list_all2 (\<lambda>i s. map_inv s \<and> lru s = [] \<and> m_maxSize s = shardShare maxSz n i \<and> putInserted (m_ps s) = 0
      \<and> resolveWeigher (oWeigher ?so) = Inr (m_weigher s)) [0..<nat n] ss"
    using newShards_map [OF so n sub cb'] by blast
  have len: "length ss = nat n" using ss(2) list_all2_lengthD by fastforce
  have nth: "map_inv (ss ! i)" "lru (ss ! i) = []" "m_maxSize (ss ! i) = shardShare maxSz n i" "putInserted (m_ps (ss ! i)) = 0"
    "resolveWeigher (oWeigher opts) = Inr (m_weigher (ss ! i))" if "i < length ss" for i
    using list_all2_nthD2 [OF ss(2) that] that len by simp_all
  obtain onVal onEntry where r: "resolveOnEvictValue (oOnEvictValue opts) = Inr onVal" "resolveOnEvictEntry (oOnEvictEntry opts) = Inr onEntry"
    using cb resolve_total by metis
  define c where "c = \<lparr>sc_shards = ss, sc_arenaShards = None, sc_shardFn = (case oShardFunc opts of None \<Rightarrow> dsf | Some f \<Rightarrow> f), sc_onEvictValue = onVal,
    sc_onEvictEntry = onEntry, sc_maxSize = maxSz, sc_backend = oBackend opts,
    sc_enableInvariantChecking = EnableInvariantChecking opts, sc_deletePrefixExecuted = 0, sc_coord = zeroCoord\<rparr>"
  have caps: "map m_maxSize ss = map (shardShare maxSz n) [0..<nat n]" using nth len by (intro nth_equalityI) simp_all
  have "sum_list (map (\<lambda>s. unat (m_maxSize s)) ss) = sum_list (map (\<lambda>i. unat (shardShare maxSz n i)) [0..<nat n])"
    using arg_cong [OF caps, of "\<lambda>xs. sum_list (map unat xs)"] by (simp add: comp_def)
  also have "\<dots> = (\<Sum>i<nat n. unat maxSz div nat n + (if i < unat maxSz mod nat n then 1 else 0))"
    using shardShare_value [OF n(1,2)] by (simp add: interv_sum_list_conv_sum_set_nat atLeast0LessThan)
  also have "\<dots> = unat maxSz" using sum_shares n(1) by simp
  finally have sum: "sum_list (map (\<lambda>s. unat (m_maxSize s)) ss) = unat maxSz" .
  have zero: "coord_ok zeroCoord" by (simp add: coord_ok_def zeroCoord_def)
  have inv: "sharded_inv maxSz c"
    using nth sum len n(1) zero setCoord_inv [OF nth(1) zero] by (auto simp: sharded_inv_def shards_ok_def c_def)
  have empty: "shardedLru c = []" "insertions c = 0"
    using nth by (auto simp: shard_items_def c_def in_set_conv_nth)
  have f: "sc_shards c = ss" "sc_maxSize c = maxSz" by (simp_all add: c_def)
  have "insertions c < 2 ^ 64" unfolding empty(2) by simp
  then obtain st where "shardedCache_Stats mapEngine c = Inr st" using sharded_stats [OF inv] by blast
  then have "shardedCache_checkInvariants mapEngine c = Inr ()"
    using n len f by (simp add: shardedCache_checkInvariants_def require_def)
  then have "newShardedCacheWithOptions mapEngine hash dsf isDefault maxSz n opts = Inr c"
    using n r ss(1) t(2) unfolding newShardedCacheWithOptions_def validateShards_def by (cases "EnableInvariantChecking opts") (simp_all add: Let_def c_def)
  moreover have "\<forall>s\<in>set ss. resolveWeigher (oWeigher opts) = Inr (m_weigher s)" using nth(5) by (auto simp: in_set_conv_nth)
  ultimately show ?thesis using inv empty caps len by (simp add: c_def)
qed


subsection \<open>Reachable states\<close>

fun runShardedOp ::
  "('c, 'v) shardEngine \<Rightarrow> samplingEnv \<Rightarrow> (string list \<Rightarrow> string list) \<Rightarrow> 'v mapOp \<Rightarrow> ('c, 'v :: zero) shardedCache
   \<Rightarrow> ('c, 'v) shardedCache res" where
  "runShardedOp eng env rng (OpPut k v) c = bindr (shardedCache_Put eng env k v c) (\<lambda>(c', _). Inr c')"
| "runShardedOp eng env rng (OpGet k) c = bindr (shardedCache_Get eng k c) (\<lambda>(c', _). Inr c')"
| "runShardedOp eng env rng (OpPeek k) c = bindr (shardedCache_Peek eng k c) (\<lambda>(c', _). Inr c')"
| "runShardedOp eng env rng (OpDelete k) c = bindr (shardedCache_Delete eng env k c) (\<lambda>(c', _). Inr c')"
| "runShardedOp eng env rng (OpReplace k v) c = bindr (shardedCache_Replace eng env k v c) (\<lambda>(c', _). Inr c')"
| "runShardedOp eng env rng (OpDeletePrefix pre) c = bindr (shardedCache_DeletePrefix eng env rng pre c) (\<lambda>(c', _). Inr c')"
| "runShardedOp eng env rng (OpIterate yld) c = bindr (shardedCache_all eng yld c) (\<lambda>_. Inr c)"
| "runShardedOp eng env rng OpCompact c = shardedCache_Compact eng c"
| "runShardedOp eng env rng OpEvaluate c = bindr (shardedCache_EvaluateMemoryPressure eng env c) (\<lambda>(c', _). Inr c')"
| "runShardedOp eng env rng OpStats c = bindr (shardedCache_Stats eng c) (\<lambda>_. Inr c)"

fun opKey :: "'v mapOp \<Rightarrow> string option" where
  "opKey (OpPut k v) = Some k"
| "opKey (OpGet k) = Some k"
| "opKey (OpPeek k) = Some k"
| "opKey (OpDelete k) = Some k"
| "opKey (OpReplace k v) = Some k"
| "opKey _ = None"

inductive shardedReachable ::
  "u64 \<Rightarrow> int \<Rightarrow> 'v Options \<Rightarrow> ('v mapCache, 'v :: zero) shardedCache \<Rightarrow> bool" for maxSz n opts where
  start: "newShardedCacheWithOptions mapEngine hash dsf isDefault maxSz n opts = Inr c \<Longrightarrow> shardedReachable maxSz n opts c"
| step: "shardedReachable maxSz n opts c \<Longrightarrow> (\<And>ks. mset (rng ks) = mset ks) \<Longrightarrow> insertions c < 2 ^ 64 - 1 \<Longrightarrow>
    runShardedOp mapEngine env rng opn c = Inr c' \<Longrightarrow> shardedReachable maxSz n opts c'"

lemma insertions_room:
  assumes "insertions c < 2 ^ 64 - 1" "s \<in> set (sc_shards c)"
  shows "putInserted (m_ps s) \<noteq> - 1"
proof
  assume "putInserted (m_ps s) = - 1"
  then have "unat (putInserted (m_ps s)) = 2 ^ 64 - 1" by (simp add: unsigned_minus_1_eq_mask mask_eq_exp_minus_1)
  moreover have "unat (putInserted (m_ps s)) \<le> insertions c"
    using assms(2) by (auto intro: member_le_sum_list)
  ultimately show False using assms(1) by simp
qed

lemma frame_inv: "sharded_inv maxSz c \<Longrightarrow> shards_ok map_inv lru mapEngine c' \<Longrightarrow> same_frame cfg c c' \<Longrightarrow> sharded_inv maxSz c'"
proof -
  assume a: "sharded_inv maxSz c" "shards_ok map_inv lru mapEngine c'" "same_frame cfg c c'"
  then have "map (unat \<circ> fst) (map cfg (sc_shards c')) = map (unat \<circ> fst) (map cfg (sc_shards c))" by (simp add: same_frame_def)
  then have "map (\<lambda>s. unat (m_maxSize s)) (sc_shards c') = map (\<lambda>s. unat (m_maxSize s)) (sc_shards c)"
    by (simp add: cfg_def comp_def)
  then show ?thesis using a by (simp add: sharded_inv_def same_frame_def)
qed

lemma runShardedOp_keeps:
  fixes c :: "('v mapCache, 'v :: zero) shardedCache"
  assumes inv: "sharded_inv maxSz c" and room: "insertions c < 2 ^ 64 - 1" and rng: "\<And>ks. mset (rng ks) = mset ks"
    and key: "\<And>k. opKey opn = Some k \<Longrightarrow> routable c k"
  shows "\<exists>c'. runShardedOp mapEngine env rng opn c = Inr c' \<and> sharded_inv maxSz c' \<and> same_frame cfg c c'"
proof -
  have ok: "shards_ok map_inv lru mapEngine c" using inv by (simp add: sharded_inv_def)
  have "\<exists>c'. runShardedOp mapEngine env rng opn c = Inr c' \<and> shards_ok map_inv lru mapEngine c' \<and> same_frame cfg c c'"
  proof (cases opn)
    case (OpPut k v)
    then show ?thesis using map_sharded.put_keeps [OF ok, of k env v] key insertions_room [OF room] by auto
  next
    case (OpGet k)
    then show ?thesis using map_sharded.get_ok [OF ok, of k] key by auto
  next
    case (OpPeek k)
    then show ?thesis using map_sharded.peek_ok [OF ok, of k] key by auto
  next
    case (OpDelete k)
    then show ?thesis using map_sharded.delete_ok [OF ok, of k env] key by auto
  next
    case (OpReplace k v)
    then show ?thesis using map_sharded.replace_ok [OF ok, of k env v] key by auto
  next
    case (OpDeletePrefix pre)
    then show ?thesis using map_sharded.deletePrefix_ok [OF ok rng, of env pre] by auto
  next
    case (OpIterate yld)
    then show ?thesis using map_sharded.iterate_ok [OF ok, of yld] ok by simp
  next
    case OpCompact
    then show ?thesis using map_sharded.compact_ok [OF ok] by auto
  next
    case OpEvaluate
    then show ?thesis using map_sharded.evaluate_ok [OF ok, of env] by auto
  next
    case OpStats
    have "insertions c < 2 ^ 64" using room by simp
    then show ?thesis using sharded_stats [OF inv] ok OpStats by auto
  qed
  then show ?thesis using frame_inv [OF inv] by blast
qed

lemma unroutable_stops:
  "opKey opn = Some k \<Longrightarrow> sc_arenaShards c = None \<Longrightarrow> \<not> routable c k \<Longrightarrow> \<exists>msg. runShardedOp eng env rng opn c = Inl (Panic msg)"
  using shardFor_panics [of c k]
  by (cases opn) (auto simp: shardedCache_Put_def shardedCache_Get_def shardedCache_Peek_def shardedCache_Delete_def
      shardedCache_Replace_def)

lemma sharded_reachable_inv:
  fixes c :: "('v mapCache, 'v :: zero) shardedCache"
  assumes "shardedReachable maxSz n opts c" "thresholds_ok opts" "oBackend opts = BackendMap" "n < 2 ^ 63"
  shows "sharded_inv maxSz c \<and> int (length (sc_shards c)) = n"
  using assms(1)
proof induction
  case (start hash dsf isDefault c)
  have n: "0 < n" "\<not> maxSz < word_of_int n"
    using start by (auto simp: newShardedCacheWithOptions_def validateShards_def split: if_splits)
  have cb: "\<not> callbackMismatch (oOnEvictValue opts)" "\<not> callbackMismatch (oOnEvictEntry opts)"
    using start by (auto simp: newShardedCacheWithOptions_def callbackMismatch_def bindr_def Let_def split: sum.splits if_splits)
  have "\<not> callbackMismatch (oWeigher opts)"
  proof
    assume w: "callbackMismatch (oWeigher opts)"
    have "newMapCacheWithOptions m o' \<noteq> Inr x" if "oWeigher o' = oWeigher opts" for m o' and x :: "'v mapCache"
      using w that by (auto simp: newMapCacheWithOptions_def callbackMismatch_def Let_def)
    moreover have "[0..<nat n] = 0 # [1..<nat n]" using n(1) by (simp add: upt_conv_Cons)
    ultimately show False using start
      by (auto simp: newShardedCacheWithOptions_def Let_def bindr_def split: sum.splits if_splits)
  qed
  with newSharded_ok [OF assms(2,3) n(1) assms(4) n(2) this cb, of hash dsf isDefault] start show ?case
    using n(1) by auto
next
  case (step c rng env opn c')
  have "routable c k" if "opKey opn = Some k" for k
    using unroutable_stops [OF that, of c mapEngine env rng] step.hyps(4) step.IH
    by (cases "routable c k") (auto simp: sharded_inv_def shards_ok_def)
  then obtain c'' where "runShardedOp mapEngine env rng opn c = Inr c''" "sharded_inv maxSz c''" "same_frame cfg c c''"
    using runShardedOp_keeps [OF _ step.hyps(3,2)] step.IH by blast
  then show ?case using step.hyps(4) step.IH same_frame_length [of cfg c c''] by (auto simp: same_frame_def)
qed

end
