(* ===== verification/ShardedClaims.thy ===== *)
theory ShardedClaims
  imports ShardedMap
begin

text \<open>
  What callers of a sharded cache over the map backend rely on.
\<close>

subsection \<open>Routing and shares\<close>

text \<open>
  C18. The masked fast path for powers of two and the general path route a hash to the same shard, its
  remainder by the number of shards, which is therefore always in range.
\<close>
theorem shardIndexFromHash_mod:
  assumes "0 < n" "n < 2 ^ 63"
  shows "shardIndexFromHash h n = int (unat h) mod n \<and> 0 \<le> shardIndexFromHash h n \<and> shardIndexFromHash h n < n"
  using assms by (simp add: shardIndex_mod)

theorem shardIndexFromHash_mod_witness: "shardIndexFromHash 13 8 = 5"
  using shardIndexFromHash_mod [of 8 13] by simp

text \<open>
  C17. A sharded cache over the map backend is built for every shard count between one and the capacity: the
  capacity is divided without remainder among the shards: every shard gets the quotient, the first ones one
  more each until the remainder is used up, so that no two of them differ by more than one; each has room for
  something, and the new cache is empty.
\<close>
theorem newShardedCache_partition:
  fixes opts :: "('v :: zero) Options"
  assumes "thresholds_ok opts" "oBackend opts = BackendMap" "0 < n" "n < 2 ^ 63" "\<not> maxSz < word_of_int n"
    and "\<not> callbackMismatch (oWeigher opts)" "\<not> callbackMismatch (oOnEvictValue opts)" "\<not> callbackMismatch (oOnEvictEntry opts)"
  shows "\<exists>c. newShardedCacheWithOptions mapEngine hash dsf isDefault maxSz n opts = Inr c \<and> length (sc_shards c) = nat n \<and> shardedLru c = []
    \<and> sum_list (map (\<lambda>s. unat (m_maxSize s)) (sc_shards c)) = unat maxSz
    \<and> (\<forall>i<nat n. unat (m_maxSize (sc_shards c ! i)) = unat maxSz div nat n + (if i < unat maxSz mod nat n then 1 else 0)
        \<and> m_maxSize (sc_shards c ! i) \<noteq> 0)
    \<and> (\<forall>s\<in>set (sc_shards c). \<forall>t\<in>set (sc_shards c). unat (m_maxSize s) \<le> unat (m_maxSize t) + 1)"
proof -
  obtain c where c: "newShardedCacheWithOptions mapEngine hash dsf isDefault maxSz n opts = Inr c" "sharded_inv maxSz c" "shardedLru c = []"
    "map m_maxSize (sc_shards c) = map (shardShare maxSz n) [0..<nat n]" "length (sc_shards c) = nat n"
    using newSharded_ok [OF assms, of hash dsf isDefault] by blast
  have share: "m_maxSize (sc_shards c ! i) = shardShare maxSz n i" if "i < nat n" for i
    using arg_cong [OF c(4), of "\<lambda>xs. xs ! i"] that c(5) by simp
  have each: "unat (m_maxSize (sc_shards c ! i)) = unat maxSz div nat n + (if i < unat maxSz mod nat n then 1 else 0)
      \<and> m_maxSize (sc_shards c ! i) \<noteq> 0" if "i < nat n" for i
    using share [OF that] share_pos [OF assms(3,4) that assms(5)] shardShare_value [OF assms(3,4) that, of maxSz] by simp
  have "unat (m_maxSize s) \<le> unat (m_maxSize t) + 1" if "s \<in> set (sc_shards c)" "t \<in> set (sc_shards c)" for s t
    using that each unfolding in_set_conv_nth c(5) by auto
  then show ?thesis using c each by (intro exI [of _ c]) (auto simp: sharded_inv_def)
qed

text \<open>
  \<open>NewMapCache\<close> succeeds for every list of options whose callbacks have the cache's value type and whose
  shard count, if one is configured, is between one and the capacity; the cache it returns is empty and
  satisfies the invariant that all theorems about operations start from. A capacity of zero panics.
\<close>
theorem NewMapCache_ok:
  fixes opts :: "('v :: zero) goOption list"
  assumes "o1 = (ApplyOptions dsf opts)\<lparr>oBackend := BackendMap\<rparr>" "maxSz \<noteq> 0"
    and "\<not> callbackMismatch (oWeigher o1)" "\<not> callbackMismatch (oOnEvictValue o1)" "\<not> callbackMismatch (oOnEvictEntry o1)"
    and "shouldShard o1 \<longrightarrow> 0 < Shards o1 \<and> Shards o1 < 2 ^ 63 \<and> \<not> maxSz < word_of_int (Shards o1)"
    and "is_f64 (CompactionThreshold (foldl applySingleOption defaultOptions opts))"
    and "is_f64 (EvictionThreshold (foldl applySingleOption defaultOptions opts))"
  shows "(\<exists>c. NewMapCache hash dsf isDefault maxSz opts = Inr (if shouldShard o1 then ShardedMaps (fst c) else OneMap (snd c))
      \<and> (if shouldShard o1 then sharded_inv maxSz (fst c) \<and> shardedLru (fst c) = [] \<and> int (length (sc_shards (fst c))) = Shards o1
         else map_inv (snd c) \<and> lru (snd c) = [] \<and> m_maxSize (snd c) = maxSz))
    \<and> (\<exists>msg. NewMapCache hash dsf isDefault 0 opts = Inl (Panic msg))"
proof -
  have t: "thresholds_ok o1" and b: "oBackend o1 = BackendMap"
    using ApplyOptions_thresholds [OF assms(7,8), of dsf] by (simp_all add: assms(1) thresholds_ok_def)
  have zero: "\<exists>msg. NewMapCache hash dsf isDefault 0 opts = Inl (Panic msg)" by (simp add: NewMapCache_def)
  show ?thesis
  proof (cases "shouldShard o1")
    case True
    then obtain c where "newShardedCacheWithOptions mapEngine hash dsf isDefault maxSz (Shards o1) o1 = Inr c"
      "sharded_inv maxSz c" "shardedLru c = []" "length (sc_shards c) = nat (Shards o1)"
      using newSharded_ok [OF t b, of "Shards o1" maxSz hash dsf isDefault] assms(3-6) by blast
    then show ?thesis
      using True assms(2,6) zero unfolding NewMapCache_def assms(1) [symmetric]
      by (intro conjI exI [of _ "(c, _)"]) (simp_all add: Let_def)
  next
    case False
    obtain c where "newMapCacheWithOptions maxSz o1 = Inr c" "map_inv c" "lru c = []" "m_maxSize c = maxSz"
      using newMapCache_inv [OF t assms(2-5)] by blast
    then show ?thesis
      using False assms(2) zero unfolding NewMapCache_def assms(1) [symmetric]
      by (intro conjI exI [of _ "(_, c)"]) (simp_all add: Let_def)
  qed
qed

subsection \<open>Reachable states\<close>

lemma concat_map_member: "x \<in> set (concat (map f ys)) \<Longrightarrow> \<exists>i<length ys. x \<in> set (f (ys ! i))"
  by (auto simp: in_set_conv_nth [of _ ys])

text \<open>
  C13. In every state a sequence of calls can reach, no key is in two shards, each entry is in the shard its
  key is routed to, the capacities of the shards add up to the configured one, the whole cache never
  holds more than it, and every shard passes its own run-time checks.
\<close>
theorem shardedReachable_consistent:
  fixes c :: "('v mapCache, 'v :: zero) shardedCache"
  assumes "shardedReachable maxSz n opts c" "thresholds_ok opts" "oBackend opts = BackendMap" "n < 2 ^ 63"
  shows "distinct (map (\<lambda>x. entry_key x) (shardedLru c))
    \<and> (\<forall>x\<in>set (shardedLru c). \<exists>i. shardFor c (entry_key x) = Inr i \<and> x \<in> set (lru (sc_shards c ! i)))
    \<and> sum_list (map (\<lambda>s. unat (m_maxSize s)) (sc_shards c)) = unat maxSz
    \<and> weight_sum (map (\<lambda>x. entry_weight x) (shardedLru c)) \<le> unat maxSz
    \<and> (\<forall>s\<in>set (sc_shards c). mapCache_checkInvariants (setCoord (sc_coord c) s) = Inr ())"
proof -
  have inv: "sharded_inv maxSz c" using sharded_reachable_inv [OF assms] by blast
  then have ok: "shards_ok map_inv lru mapEngine c" by (simp add: sharded_inv_def)
  have s: "map_inv (setCoord (sc_coord c) s)" if "s \<in> set (sc_shards c)" for s
    using ok that by (auto simp: shards_ok_def in_set_conv_nth)
  have route: "\<exists>i. shardFor c (entry_key x) = Inr i \<and> x \<in> set (lru (sc_shards c ! i))" if x: "x \<in> set (shardedLru c)" for x
  proof -
    obtain i where i: "i < length (sc_shards c)" "x \<in> set (lru (sc_shards c ! i))"
      using concat_map_member [OF x [unfolded shard_items_def]] by blast
    then have "sc_shardFn c (entry_key x) (int (length (sc_shards c))) = int i" using ok by (simp add: shards_ok_def)
    then have "shardFor c (entry_key x) = Inr i" using i(1) by (simp add: shardFor_def)
    then show ?thesis using i(2) by blast
  qed
  have le: "weight_sum (map (\<lambda>x. entry_weight x) (lru s)) \<le> unat (m_maxSize s)" if sc: "s \<in> set (sc_shards c)" for s
  proof -
    obtain st where "shard_stats (length (lru s)) st" "MaxSize st = m_maxSize s"
      "unat (CurrentSize st) = weight_sum (map (\<lambda>x. entry_weight x) (lru s))"
      using map_shard_stats [OF s [OF sc]] cfg_simps [OF setCoord_simps(2), of "sc_coord c" s] by auto
    then show ?thesis by (metis shard_stats_def word_le_nat_alt)
  qed
  have "weight_sum (map (\<lambda>x. entry_weight x) (shardedLru c))
      = sum_list (map (\<lambda>s. weight_sum (map (\<lambda>x. entry_weight x) (lru s))) (sc_shards c))"
    by (simp add: shard_items_def weight_sum_def map_concat sum_list_concat_map comp_def)
  also have "\<dots> \<le> sum_list (map (\<lambda>s. unat (m_maxSize s)) (sc_shards c))" using le by (intro sum_list_mono) blast
  finally show ?thesis
    using map_sharded.keys_distinct [OF ok] route inv checkInvariants_ok [OF s] by (auto simp: sharded_inv_def)
qed

text \<open>
  C14. No call on a reachable sharded cache panics or runs forever as long as the shard function answers in
  range and fewer than \<open>2 ^ 64 - 1\<close> keys were ever inserted; the state after it is again reachable.
\<close>
theorem shardedReachable_no_panic:
  fixes c :: "('v mapCache, 'v :: zero) shardedCache"
  assumes r: "shardedReachable maxSz n opts c" and t: "thresholds_ok opts" "oBackend opts = BackendMap" and n: "n < 2 ^ 63"
    and room: "insertions c < 2 ^ 64 - 1" and rng: "\<And>ks. mset (rng ks) = mset ks" and fn: "\<And>k. routable c k"
  shows "\<exists>c'. runShardedOp mapEngine env rng opn c = Inr c' \<and> shardedReachable maxSz n opts c'"
proof -
  have "sharded_inv maxSz c" using sharded_reachable_inv [OF r t n] by blast
  then obtain c' where "runShardedOp mapEngine env rng opn c = Inr c'" using runShardedOp_keeps [OF _ room rng fn] by blast
  then show ?thesis using shardedReachable.step [OF r rng room] by blast
qed

text \<open>
  C15. A snapshot of a reachable sharded cache is truthful: every counter in it is the sum of that counter over
  the shards (in the counter's own type, so 64-bit counters wrap), and the pressure, the epoch and the number
  of prefix deletions are the coordinator's. It passes the aggregate checks, whether or not they are enabled,
  and it reports the configured capacity, the number of entries of all shards, their total weight, and all
  insertions.
\<close>
theorem shardedReachable_Stats:
  fixes c :: "('v mapCache, 'v :: zero) shardedCache"
  assumes "shardedReachable maxSz n opts c" "thresholds_ok opts" "oBackend opts = BackendMap" "n < 2 ^ 63" "insertions c < 2 ^ 64"
  shows "\<exists>st. shardedCache_Stats mapEngine c = Inr st \<and> st = shardTotals c \<and> checkAggregateStatsInvariants maxSz st = Inr ()
    \<and> MaxSize st = maxSz \<and> Len st = int (length (shardedLru c))
    \<and> unat (CurrentSize st) = weight_sum (map (\<lambda>x. entry_weight x) (shardedLru c)) \<and> unat (PutInserted st) = insertions c"
  using sharded_stats sharded_reachable_inv [OF assms(1-4)] assms(5) by blast

subsection \<open>Operations\<close>

text \<open>
  C16. \<open>Put\<close> touches only the shard of its key: every other shard keeps its entries, and a \<open>Get\<close> of the key
  right after it returns the value put.
\<close>
theorem shardedCache_Put_Get:
  fixes c :: "('v mapCache, 'v :: zero) shardedCache"
  assumes inv: "sharded_inv maxSz c" and r: "routable c k"
    and acc: "put_accepts (setCoord (sc_coord c) (sc_shards c ! shardOf c k)) k v"
  shows "\<exists>c1 p c2. shardedCache_Put mapEngine env k v c = Inr (c1, p) \<and> sharded_inv maxSz c1
    \<and> (\<forall>j<length (sc_shards c). j \<noteq> shardOf c k \<longrightarrow> sc_shards c1 ! j = sc_shards c ! j)
    \<and> shardedCache_Get mapEngine k c1 = Inr (c2, v, True)"
proof -
  have ok: "shards_ok map_inv lru mapEngine c" using inv by (simp add: sharded_inv_def)
  have acc': "put_accepts (en_setCoord mapEngine (sc_coord c) (sc_shards c ! shardOf c k)) k v" using acc by simp
  obtain c1 p s' where p: "shardedCache_Put mapEngine env k v c = Inr (c1, p)" "shards_ok map_inv lru mapEngine c1"
    "same_frame cfg c c1" "sc_shards c1 = (sc_shards c)[shardOf c k := s']"
    using map_sharded.put_ok [OF ok r acc', of env] by blast
  moreover obtain c2 where "shardedCache_Get mapEngine k c1 = Inr (c2, v, True)"
    using map_sharded.put_get_sharded [OF ok r acc', of env] p(1) by auto
  moreover have "\<forall>j<length (sc_shards c). j \<noteq> shardOf c k \<longrightarrow> sc_shards c1 ! j = sc_shards c ! j" using p(4) by simp
  ultimately show ?thesis using frame_inv [OF inv p(2,3)] by blast
qed

text \<open>
  \<open>DeletePrefix\<close> on a sharded cache visits every shard: no entry with the prefix is left, the others
  keep their order, nothing appears, and the call is counted once.
\<close>
theorem shardedCache_DeletePrefix_ok:
  fixes c :: "('v mapCache, 'v :: zero) shardedCache"
  assumes inv: "sharded_inv maxSz c" and rng: "\<And>ks. mset (rng ks) = mset ks"
  shows "\<exists>c' cbs. shardedCache_DeletePrefix mapEngine env rng pre c = Inr (c', cbs) \<and> sharded_inv maxSz c'
    \<and> sc_deletePrefixExecuted c' = sc_deletePrefixExecuted c + 1
    \<and> subseq (shardedLru c') (filter (\<lambda>x. \<not> hasPrefix pre (entry_key x)) (shardedLru c))"
proof -
  have "shards_ok map_inv lru mapEngine c" using inv by (simp add: sharded_inv_def)
  from map_sharded.deletePrefix_ok [OF this rng] show ?thesis using frame_inv [OF inv] by blast
qed

text \<open>
  Iteration over a sharded cache visits the shards in order and each from its most to its least recently
  used entry; it stops right after the first entry the consumer refuses, in whichever shard that is.
\<close>
theorem shardedCache_all_ok:
  fixes c :: "('v mapCache, 'v :: zero) shardedCache"
  assumes "sharded_inv maxSz c"
  shows "shardedCache_all mapEngine yld c = Inr (fst (upto_refusal yld [] (pairs (shardedLru c))))"
  using assms by (intro map_sharded.iterate_ok) (simp add: sharded_inv_def)

text \<open>
  C19. A shard function that answers outside the range stops the call with a panic before any shard is touched.
\<close>
theorem shardedOp_unroutable:
  assumes "opKey opn = Some k" "sc_arenaShards c = None" "\<not> routable c k"
  shows "\<exists>msg. runShardedOp eng env rng opn c = Inl (Panic msg)"
  by (rule unroutable_stops [OF assms])

subsection \<open>Witnesses\<close>

definition twoShards :: "(nat mapCache, nat) shardedCache" where
  \<comment> \<open>keys are routed by their length\<close>
  "twoShards = projr (newShardedCacheWithOptions mapEngine (\<lambda>_. 0) (\<lambda>_ _. 0) True 5 2
     (sampleOpts\<lparr>oShardFunc := Some (\<lambda>k n. int (length k) mod n)\<rparr>))"

lemma sampleOpts_backend: "oBackend sampleOpts = BackendMap"
  by (simp add: sampleOpts_def ApplyOptions_def Let_def normalizeBackend_def WithWeigher_def applySingleOption_def defaultOptions_def)

lemma twoShards_ok:
  "newShardedCacheWithOptions mapEngine (\<lambda>_. 0) (\<lambda>_ _. 0) True 5 2 (sampleOpts\<lparr>oShardFunc := Some (\<lambda>k n. int (length k) mod n)\<rparr>) = Inr twoShards"
  "sharded_inv 5 twoShards" "shardedLru twoShards = []" "length (sc_shards twoShards) = 2" "insertions twoShards = 0"
  "sc_shardFn twoShards = (\<lambda>k n. int (length k) mod n)"
  and twoShards_weigher: "s \<in> set (sc_shards twoShards) \<Longrightarrow> m_weigher s = (Some (\<lambda>_ v. word_of_nat v))"
  and twoShards_opts: "thresholds_ok (sampleOpts\<lparr>oShardFunc := Some (\<lambda>k n. int (length k) mod n)\<rparr>)"
proof -
  let ?o = "sampleOpts\<lparr>oShardFunc := Some (\<lambda>k n. int (length k) mod n)\<rparr>"
  show t: "thresholds_ok ?o" using sampleOpts_ok(4) by (simp add: thresholds_ok_def)
  have b: "oBackend ?o = BackendMap" by (simp add: sampleOpts_backend)
  obtain c where c: "newShardedCacheWithOptions mapEngine (\<lambda>_. 0) (\<lambda>_ _. 0) True 5 2 ?o = Inr c" "sharded_inv 5 c" "shardedLru c = []"
    "length (sc_shards c) = nat 2" "insertions c = 0" "sc_shardFn c = (\<lambda>k n. int (length k) mod n)"
    "\<forall>s\<in>set (sc_shards c). resolveWeigher (oWeigher ?o) = Inr (m_weigher s)"
    using newSharded_ok [OF t b, of 2 5 "\<lambda>_. 0" "\<lambda>_ _. 0" True] sampleOpts_ok(1-3) by (auto simp: callbackMismatch_def)
  have "twoShards = c" by (simp add: twoShards_def c(1))
  then show "newShardedCacheWithOptions mapEngine (\<lambda>_. 0) (\<lambda>_ _. 0) True 5 2 ?o = Inr twoShards" "sharded_inv 5 twoShards"
    "shardedLru twoShards = []" "length (sc_shards twoShards) = 2" "insertions twoShards = 0"
    "sc_shardFn twoShards = (\<lambda>k n. int (length k) mod n)"
    "s \<in> set (sc_shards twoShards) \<Longrightarrow> m_weigher s = (Some (\<lambda>_ v. word_of_nat v))"
    using c sampleOpts_ok(1) by auto
qed

lemma twoShards_routable: "routable twoShards k"
  by (simp add: routable_def Let_def twoShards_ok)

lemma twoShards_reachable:
  "shardedReachable 5 2 (sampleOpts\<lparr>oShardFunc := Some (\<lambda>k n. int (length k) mod n)\<rparr>) twoShards"
  by (rule shardedReachable.start [OF twoShards_ok(1)])

lemma twoShards_accepts: "put_accepts (setCoord (sc_coord twoShards) (sc_shards twoShards ! shardOf twoShards k)) k (1 :: nat)"
proof -
  let ?s = "sc_shards twoShards ! shardOf twoShards k"
  have i: "shardOf twoShards k < length (sc_shards twoShards)" using shardFor_routable [OF twoShards_routable] by blast
  then have m: "?s \<in> set (sc_shards twoShards)" by simp
  have "map_inv (setCoord (sc_coord twoShards) ?s)" using twoShards_ok(2) i by (simp add: sharded_inv_def shards_ok_def)
  then have "m_maxSize (setCoord (sc_coord twoShards) ?s) \<noteq> 0" using map_inv_mid by (auto simp: mid_def)
  moreover have "putInserted (m_ps ?s) = 0" using twoShards_ok(5) m by (simp add: unat_eq_zero)
  ultimately show ?thesis
    using twoShards_weigher [OF m] cfg_simps [OF setCoord_simps(2), of "sc_coord twoShards" ?s]
    by (simp add: put_accepts_def mapCache_weigh_def word_le_nat_alt Suc_le_eq word_neq_0_conv [symmetric] unat_gt_0)
qed

theorem newShardedCache_partition_witness:
  "\<exists>c. newShardedCacheWithOptions mapEngine (\<lambda>_. 0) (\<lambda>_ _. 0) True 3 2 sampleOpts = Inr c \<and> length (sc_shards c) = 2
    \<and> sum_list (map (\<lambda>s. unat (m_maxSize s)) (sc_shards c)) = 3"
  using newShardedCache_partition [OF sampleOpts_ok(4) sampleOpts_backend, of 2 3 "\<lambda>_. 0" "\<lambda>_ _. 0" True] sampleOpts_ok(1-3) by (auto simp: callbackMismatch_def)

lemma sample_unsharded: "\<not> shouldShard (sampleOpts\<lparr>oBackend := BackendMap\<rparr>)"
proof -
  have keep: "shouldShard (normalizeCallbacks dsf x) = shouldShard x" "shouldShard (reconcileThresholdWindow x) = shouldShard x"
    "shouldShard (sanitizeThresholds x) = shouldShard x" "shouldShard (x\<lparr>EvictionRetentionRatio := r\<rparr>) = shouldShard x"
    "shouldShard (x\<lparr>oBackend := b\<rparr>) = shouldShard x"
    for dsf b r and x :: "nat Options"
    by (simp_all add: shouldShard_def normalizeCallbacks_def reconcileThresholdWindow_def sanitizeThresholds_def Let_def)
  show ?thesis
    unfolding sampleOpts_def ApplyOptions_def Let_def keep
    by (simp add: shouldShard_def normalizeBackend_def WithWeigher_def applySingleOption_def defaultOptions_def reconcileShards_def)
qed

theorem NewMapCache_ok_witness:
  "\<exists>c. NewMapCache (\<lambda>_. 0) (\<lambda>_ _. 0) True 3 [WithWeigher (Some (\<lambda>_ v. word_of_nat v))] = Inr (OneMap c) \<and> lru (c :: nat mapCache) = []"
proof -
  let ?opts = "[WithWeigher (Some (\<lambda>_ v. word_of_nat v))] :: nat goOption list"
  have f: "is_f64 (CompactionThreshold (foldl applySingleOption defaultOptions ?opts))"
    "is_f64 (EvictionThreshold (foldl applySingleOption defaultOptions ?opts))"
    using default_thresholds_valid
    by (simp_all add: applySingleOption_def WithWeigher_def Let_def defaultOptions_def valid_threshold_iff)
  have o: "sampleOpts\<lparr>oBackend := BackendMap\<rparr> = (ApplyOptions (\<lambda>_ _. 0) ?opts)\<lparr>oBackend := BackendMap\<rparr>"
    by (simp add: sampleOpts_def)
  show ?thesis
    using NewMapCache_ok [OF o _ _ _ _ _ f, of 3 "\<lambda>_. 0" True] sampleOpts_ok(1-3) sample_unsharded
    by (auto simp: callbackMismatch_def)
qed

theorem shardedReachable_consistent_witness:
  "sum_list (map (\<lambda>s. unat (m_maxSize s)) (sc_shards twoShards)) = 5"
  using shardedReachable_consistent [OF twoShards_reachable twoShards_opts] sampleOpts_backend by simp

theorem shardedReachable_no_panic_witness:
  "\<exists>c'. runShardedOp mapEngine sampleEnv rev (OpPut ''ab'' 9) twoShards = Inr c'"
  using shardedReachable_no_panic [OF twoShards_reachable twoShards_opts _ _ _ _ twoShards_routable, of rev sampleEnv "OpPut ''ab'' 9"]
  unfolding twoShards_ok(5) by (simp add: sampleOpts_backend del: runShardedOp.simps) blast

theorem shardedReachable_Stats_witness:
  "\<exists>st. shardedCache_Stats mapEngine twoShards = Inr st \<and> MaxSize st = 5 \<and> Len st = 0 \<and> GetHits st = counted getHits twoShards"
  using shardedReachable_Stats [OF twoShards_reachable twoShards_opts] sampleOpts_backend unfolding twoShards_ok(3,5) by (simp add: shardTotals_def)

theorem shardedCache_Put_Get_witness:
  "\<exists>c1 p c2. shardedCache_Put mapEngine sampleEnv ''ab'' 1 twoShards = Inr (c1, p)
    \<and> shardedCache_Get mapEngine ''ab'' c1 = Inr (c2, 1, True)"
  using shardedCache_Put_Get [OF twoShards_ok(2) twoShards_routable twoShards_accepts, of sampleEnv] by blast

theorem shardedCache_DeletePrefix_ok_witness:
  "\<exists>c' cbs. shardedCache_DeletePrefix mapEngine sampleEnv rev ''a'' twoShards = Inr (c', cbs) \<and> shardedLru c' = []"
  using shardedCache_DeletePrefix_ok [OF twoShards_ok(2), of rev sampleEnv "''a''"] by (auto simp: twoShards_ok)

theorem shardedCache_all_ok_witness: "shardedCache_all mapEngine (\<lambda>_. True) twoShards = Inr []"
  using shardedCache_all_ok [OF twoShards_ok(2), of "\<lambda>_. True"] by (simp add: twoShards_ok)

theorem shardedOp_unroutable_witness:
  "\<exists>msg. runShardedOp mapEngine sampleEnv rev (OpGet ''a'') (twoShards\<lparr>sc_shardFn := \<lambda>_ _. 7\<rparr>) = Inl (Panic msg)"
  by (rule shardedOp_unroutable [of _ "''a''"]) (use twoShards_ok(2) in \<open>simp_all add: routable_def Let_def twoShards_ok sharded_inv_def shards_ok_def\<close>)

end
