(* ===== verification/RadixTree.thy ===== *)
theory RadixTree
  imports MapCache "HOL-Library.Char_ord"
begin

text \<open>
  The nodes of the radix backend (\<^verbatim>\<open>radix_lru.go\<close>): a compressed prefix tree in left-child
  right-sibling form whose nodes are also the links of the recency list.

  Nodes live in a heap. A Go pointer to a pointer, as in \<open>pcurr := &n.child\<close>, is a \<open>slot\<close>: the child
  field or the sibling field of a node. Reading \<open>prefix[0]\<close> of an empty prefix panics.
\<close>

record 'v radixNode =
  rn_prefix :: string
  rn_size :: u64
  rn_parent :: "addr option"
  rn_child :: "addr option"
  rn_sibling :: "addr option"
  rn_prev :: "addr option"
  rn_next :: "addr option"
  rn_hasValue :: bool
  rn_value :: 'v

type_synonym 'v radixHeap = "addr \<Rightarrow> 'v radixNode"

definition zeroNode :: "('v :: zero) radixNode" where
  "zeroNode = \<lparr>rn_prefix = '''', rn_size = 0, rn_parent = None, rn_child = None, rn_sibling = None,
     rn_prev = None, rn_next = None, rn_hasValue = False, rn_value = 0\<rparr>"

datatype slot = ChildSlot addr | SiblingSlot addr

fun slotGet :: "'v radixHeap \<Rightarrow> slot \<Rightarrow> addr option" where
  "slotGet h (ChildSlot n) = rn_child (h n)"
| "slotGet h (SiblingSlot n) = rn_sibling (h n)"

fun slotSet :: "slot \<Rightarrow> addr option \<Rightarrow> 'v radixHeap \<Rightarrow> 'v radixHeap" where
  "slotSet (ChildSlot n) x h = h(n := (h n)\<lparr>rn_child := x\<rparr>)"
| "slotSet (SiblingSlot n) x h = h(n := (h n)\<lparr>rn_sibling := x\<rparr>)"

abbreviation indexPanic :: go_panic where "indexPanic \<equiv> Panic ''index out of range''"

definition prefixByte :: "'v radixHeap \<Rightarrow> addr \<Rightarrow> char res" where
  \<comment> \<open>\<open>n.prefix[0]\<close>\<close>
  "prefixByte h n = (case rn_prefix (h n) of [] \<Rightarrow> Inl indexPanic | x # _ \<Rightarrow> Inr x)"

subsection \<open>Children\<close>

partial_function (option) getChildLoop :: "'v radixHeap \<Rightarrow> char \<Rightarrow> addr option \<Rightarrow> addr option res option" where
  "getChildLoop h b cur = (case cur of None \<Rightarrow> Some (Inr None)
   | Some a \<Rightarrow> (case prefixByte h a of Inl p \<Rightarrow> Some (Inl p)
     | Inr x \<Rightarrow> if x = b then Some (Inr (Some a))
               else if b < x then Some (Inr None)
               else getChildLoop h b (rn_sibling (h a))))"

definition getChild :: "'v radixHeap \<Rightarrow> addr \<Rightarrow> char \<Rightarrow> addr option res" where
  "getChild h n b = of_loop (getChildLoop h b (rn_child (h n)))"

partial_function (option) addChildLoop :: "'v radixHeap \<Rightarrow> addr \<Rightarrow> slot \<Rightarrow> slot res option" where
  "addChildLoop h newChild pcur = (case slotGet h pcur of None \<Rightarrow> Some (Inr pcur)
   | Some a \<Rightarrow> (case prefixByte h a of Inl p \<Rightarrow> Some (Inl p)
     | Inr x \<Rightarrow> (case prefixByte h newChild of Inl p \<Rightarrow> Some (Inl p)
       | Inr b \<Rightarrow> if x < b then addChildLoop h newChild (SiblingSlot a) else Some (Inr pcur))))"

definition addChild :: "addr \<Rightarrow> addr \<Rightarrow> 'v radixHeap \<Rightarrow> 'v radixHeap res" where
  "addChild n newChild h0 = (let h = h0(newChild := (h0 newChild)\<lparr>rn_parent := Some n\<rparr>) in
     bindr (of_loop (addChildLoop h newChild (ChildSlot n))) (\<lambda>pcur.
     let h1 = h(newChild := (h newChild)\<lparr>rn_sibling := slotGet h pcur\<rparr>)
     in Inr (slotSet pcur (Some newChild) h1)))"

partial_function (option) findSlotLoop :: "'v radixHeap \<Rightarrow> addr \<Rightarrow> slot \<Rightarrow> slot option option" where
  \<comment> \<open>the loop shared by \<open>removeChild\<close> and \<open>replaceChild\<close>: the slot that holds the child\<close>
  "findSlotLoop h child pcur = (case slotGet h pcur of None \<Rightarrow> Some None
   | Some a \<Rightarrow> if a = child then Some (Some pcur) else findSlotLoop h child (SiblingSlot a))"

definition removeChild :: "addr \<Rightarrow> addr \<Rightarrow> 'v radixHeap \<Rightarrow> 'v radixHeap res" where
  "removeChild n childToRemove h =
     bindr (of_loop (map_option Inr (findSlotLoop h childToRemove (ChildSlot n)))) (\<lambda>found. case found of
       None \<Rightarrow> Inl (Panic ''removeChild: requested child not found in sibling list'')
     | Some pcur \<Rightarrow> let h1 = slotSet pcur (rn_sibling (h childToRemove)) h
         in Inr (h1(childToRemove := (h1 childToRemove)\<lparr>rn_sibling := None, rn_parent := None\<rparr>)))"

definition replaceChild :: "addr \<Rightarrow> addr \<Rightarrow> addr \<Rightarrow> 'v radixHeap \<Rightarrow> 'v radixHeap res" where
  "replaceChild n oldChild newChild h =
     bindr (of_loop (map_option Inr (findSlotLoop h oldChild (ChildSlot n)))) (\<lambda>found. case found of
       None \<Rightarrow> Inl (Panic ''replaceChild: requested child not found in sibling list'')
     | Some pcur \<Rightarrow> let
         h1 = h(newChild := (h newChild)\<lparr>rn_parent := Some n, rn_sibling := rn_sibling (h oldChild)\<rparr>);
         h2 = slotSet pcur (Some newChild) h1
         in Inr (h2(oldChild := (h2 oldChild)\<lparr>rn_sibling := None, rn_parent := None\<rparr>)))"

subsection \<open>Lookup and key reconstruction\<close>

abbreviation startsWith :: "string \<Rightarrow> string \<Rightarrow> bool" where
  \<comment> \<open>\<open>strings.HasPrefix(s, p)\<close>\<close>
  "startsWith s p \<equiv> take (length p) s = p"

partial_function (option) getNodeLoop :: "'v radixHeap \<Rightarrow> addr \<Rightarrow> string \<Rightarrow> addr option res option" where
  "getNodeLoop h node search = (case search of
     [] \<Rightarrow> Some (Inr (if rn_hasValue (h node) then Some node else None))
   | b # _ \<Rightarrow> (case getChild h node b of Inl p \<Rightarrow> Some (Inl p)
     | Inr None \<Rightarrow> Some (Inr None)
     | Inr (Some child) \<Rightarrow>
         if startsWith search (rn_prefix (h child))
         then getNodeLoop h child (drop (length (rn_prefix (h child))) search)
         else Some (Inr None)))"

partial_function (option) reconstructLoop :: "'v radixHeap \<Rightarrow> addr \<Rightarrow> addr option \<Rightarrow> string \<Rightarrow> string option" where
  \<comment> \<open>the buffer is filled from its end: \<open>acc\<close> is what has been copied\<close>
  "reconstructLoop h rt cur acc = (case cur of None \<Rightarrow> Some acc
   | Some a \<Rightarrow> if a = rt then Some acc
       else reconstructLoop h rt (rn_parent (h a)) (rn_prefix (h a) @ acc))"

definition reconstructKey :: "'v radixHeap \<Rightarrow> addr \<Rightarrow> addr option \<Rightarrow> string res" where
  "reconstructKey h rt node = (case node of None \<Rightarrow> Inr ''''
   | Some n \<Rightarrow> if n = rt then Inr ''''
       else if rn_parent (h n) = Some rt then Inr (rn_prefix (h n))
       else of_loop (map_option Inr (reconstructLoop h rt node '''')))"

subsection \<open>The recency list\<close>

record radixEnds =
  r_head :: "addr option"
  r_tail :: "addr option"
  r_len :: int

definition moveToFront :: "addr \<Rightarrow> 'v radixHeap \<times> radixEnds \<Rightarrow> 'v radixHeap \<times> radixEnds" where
  "moveToFront node s = (let (h, l) = s in
     if r_head l = Some node then s
     else let
       h1 = (case rn_prev (h node) of Some p \<Rightarrow> h(p := (h p)\<lparr>rn_next := rn_next (h node)\<rparr>) | None \<Rightarrow> h);
       h2 = (case rn_next (h1 node) of Some n \<Rightarrow> h1(n := (h1 n)\<lparr>rn_prev := rn_prev (h1 node)\<rparr>) | None \<Rightarrow> h1);
       l1 = (if r_tail l = Some node then l\<lparr>r_tail := rn_prev (h2 node)\<rparr> else l);
       h3 = h2(node := (h2 node)\<lparr>rn_prev := None, rn_next := r_head l1\<rparr>);
       h4 = (case r_head l1 of Some f \<Rightarrow> h3(f := (h3 f)\<lparr>rn_prev := Some node\<rparr>) | None \<Rightarrow> h3)
       in (h4, l1\<lparr>r_head := Some node\<rparr>))"

definition pushFront :: "addr \<Rightarrow> 'v radixHeap \<times> radixEnds \<Rightarrow> 'v radixHeap \<times> radixEnds" where
  "pushFront node s = (let (h, l) = s;
     h1 = h(node := (h node)\<lparr>rn_prev := None, rn_next := r_head l\<rparr>);
     h2 = (case r_head l of Some f \<Rightarrow> h1(f := (h1 f)\<lparr>rn_prev := Some node\<rparr>) | None \<Rightarrow> h1);
     l1 = l\<lparr>r_head := Some node\<rparr>;
     l2 = (if r_tail l1 = None then l1\<lparr>r_tail := Some node\<rparr> else l1)
     in (h2, l2\<lparr>r_len := r_len l2 + 1\<rparr>))"

definition unlinkNode :: "addr \<Rightarrow> 'v radixHeap \<times> radixEnds \<Rightarrow> 'v radixHeap \<times> radixEnds" where
  \<comment> \<open>\<open>remove\<close>\<close>
  "unlinkNode node s = (let (h, l) = s in
     if r_head l \<noteq> Some node \<and> rn_prev (h node) = None then s
     else let
       (h1, l1) = (case rn_prev (h node) of
          Some p \<Rightarrow> (h(p := (h p)\<lparr>rn_next := rn_next (h node)\<rparr>), l)
        | None \<Rightarrow> (h, l\<lparr>r_head := rn_next (h node)\<rparr>));
       (h2, l2) = (case rn_next (h1 node) of
          Some n \<Rightarrow> (h1(n := (h1 n)\<lparr>rn_prev := rn_prev (h1 node)\<rparr>), l1)
        | None \<Rightarrow> (h1, l1\<lparr>r_tail := rn_prev (h1 node)\<rparr>))
       in (h2(node := (h2 node)\<lparr>rn_prev := None, rn_next := None\<rparr>), l2\<lparr>r_len := r_len l2 - 1\<rparr>))"

end
