(* ===== verification/RadixForest.thy ===== *)
theory RadixForest
  imports RadixTree
begin

text \<open>
  The tree that a heap of radix nodes holds, as a datatype: a \<open>forest\<close> is a list of sibling nodes in
  left-child right-sibling form, so that it mirrors the pointers and one induction covers a level and
  everything below it. \<open>repr h p F\<close> says that the heap holds the forest \<open>F\<close> below the node \<open>p\<close>.

  Updates happen at one place of the tree. A \<open>ctx\<close> is a forest with a hole; its hole is a \<open>slot\<close> of
  the code, and \<open>plug\<close> fills it. What a tree operation does is stated as a change of what fills the hole,
  and keys, order and compactness of a plugged forest split into those of the two parts.
\<close>

datatype forest = Tip | Branch addr string forest forest

fun fhead :: "forest \<Rightarrow> addr option" where
  "fhead Tip = None"
| "fhead (Branch a s ch sb) = Some a"

fun faddrs :: "forest \<Rightarrow> addr list" where
  "faddrs Tip = []"
| "faddrs (Branch a s ch sb) = a # faddrs ch @ faddrs sb"

fun keyed :: "string \<Rightarrow> forest \<Rightarrow> (addr \<times> string) list" where
  \<comment> \<open>every node with the key it stands for, in the order of a traversal\<close>
  "keyed pre Tip = []"
| "keyed pre (Branch a s ch sb) = (a, pre @ s) # keyed (pre @ s) ch @ keyed pre sb"

fun firsts :: "forest \<Rightarrow> char set" where
  "firsts Tip = {}"
| "firsts (Branch a s ch sb) = insert (hd s) (firsts sb)"

fun tops :: "forest \<Rightarrow> nat" where
  "tops Tip = 0"
| "tops (Branch a s ch sb) = Suc (tops sb)"

fun ordered :: "forest \<Rightarrow> bool" where
  \<comment> \<open>no empty prefix, siblings sorted by their first byte\<close>
  "ordered Tip = True"
| "ordered (Branch a s ch sb) = (s \<noteq> [] \<and> (\<forall>b\<in>firsts sb. hd s < b) \<and> ordered ch \<and> ordered sb)"

fun fcompact :: "addr set \<Rightarrow> forest \<Rightarrow> bool" where
  \<comment> \<open>a node without a value branches\<close>
  "fcompact V Tip = True"
| "fcompact V (Branch a s ch sb) = ((a \<in> V \<or> 2 \<le> tops ch) \<and> fcompact V ch \<and> fcompact V sb)"

definition links :: "'v radixNode \<Rightarrow> string \<times> addr option \<times> addr option \<times> addr option" where
  "links n = (rn_prefix n, rn_parent n, rn_child n, rn_sibling n)"

fun repr :: "'v radixHeap \<Rightarrow> addr \<Rightarrow> forest \<Rightarrow> bool" where
  "repr h p Tip = True"
| "repr h p (Branch a s ch sb) = (links (h a) = (s, Some p, fhead ch, fhead sb) \<and> repr h a ch \<and> repr h p sb)"

lemma repr_cong: "(\<And>a. a \<in> set (faddrs F) \<Longrightarrow> links (h' a) = links (h a)) \<Longrightarrow> repr h' p F = repr h p F"
  by (induction F arbitrary: p) auto

lemma keyed_addrs: "map fst (keyed pre F) = faddrs F"
  by (induction F arbitrary: pre) auto

lemma keyed_prefix: "(a, k) \<in> set (keyed pre F) \<Longrightarrow> \<exists>t. k = pre @ t"
  by (induction F arbitrary: pre) (auto, metis append_assoc)

lemma tops_zero [simp]: "tops F = 0 \<longleftrightarrow> F = Tip"
  by (cases F) auto

lemma fhead_None [simp]: "fhead F = None \<longleftrightarrow> F = Tip"
  by (cases F) auto

lemma fhead_mem: "fhead F = Some a \<Longrightarrow> a \<in> set (faddrs F)"
  by (cases F) auto

lemma compact_mono: "fcompact V F \<Longrightarrow> V \<inter> set (faddrs F) \<subseteq> V' \<Longrightarrow> fcompact V' F"
  by (induction F) (auto simp: subset_iff)

subsection \<open>Keys of an ordered forest\<close>

lemma keyed_first:
  assumes "(a, k) \<in> set (keyed pre F)" "ordered F"
  shows "\<exists>b t. b \<in> firsts F \<and> k = pre @ b # t"
  using assms
proof (induction F arbitrary: pre)
  case (Branch x s ch sb)
  then obtain b t where s: "s = b # t" by (cases s) auto
  consider "a = x" "k = pre @ s" | "(a, k) \<in> set (keyed (pre @ s) ch)" | "(a, k) \<in> set (keyed pre sb)"
    using Branch.prems(1) by auto
  then show ?case
  proof cases
    case 2
    then obtain u where "k = (pre @ s) @ u" using keyed_prefix by blast
    then show ?thesis using s by auto
  next
    case 3
    then have "\<exists>b t. b \<in> firsts sb \<and> k = pre @ b # t" using Branch.IH(2) Branch.prems(2) by simp
    then show ?thesis by auto
  qed (use s in auto)
qed simp

lemma keyed_distinct: "ordered F \<Longrightarrow> distinct (map snd (keyed pre F))"
proof (induction F arbitrary: pre)
  case (Branch x s ch sb)
  have s: "s \<noteq> []" using Branch.prems by simp
  have ch: "\<exists>t. t \<noteq> [] \<and> k = pre @ s @ t" if "(a, k) \<in> set (keyed (pre @ s) ch)" for a k
    using keyed_first [OF that] Branch.prems by auto
  have sb: "\<exists>b t. hd s < b \<and> k = pre @ b # t" if "(a, k) \<in> set (keyed pre sb)" for a k
    using keyed_first [OF that] Branch.prems by auto
  have 1: "pre @ s \<notin> snd ` set (keyed (pre @ s) ch)" using ch by force
  have no: False if "pre @ s @ t = pre @ b # u" "hd s < b" for b t u
    using that s by (cases s) auto
  have 2: "pre @ s \<notin> snd ` set (keyed pre sb)" using sb no [of "[]"] by force
  have 3: "snd ` set (keyed (pre @ s) ch) \<inter> snd ` set (keyed pre sb) = {}"
    using ch sb no by (fastforce simp: image_iff)
  show ?case using Branch 1 2 3 by auto
qed simp

lemma keyed_unique: "ordered F \<Longrightarrow> (a, k) \<in> set (keyed pre F) \<Longrightarrow> (b, k) \<in> set (keyed pre F) \<Longrightarrow> a = b"
  using keyed_distinct [of F pre] by (metis eq_key_imp_eq_value distinct_map inj_onD prod.inject snd_conv)

subsection \<open>A forest with a hole\<close>

datatype ctx = Top | InChild addr string forest ctx | InSib addr string forest ctx

fun plug :: "ctx \<Rightarrow> forest \<Rightarrow> forest" where
  "plug Top H = H"
| "plug (InChild a s sb C) H = plug C (Branch a s H sb)"
| "plug (InSib a s ch C) H = plug C (Branch a s ch H)"

fun par :: "addr \<Rightarrow> ctx \<Rightarrow> addr" where
  "par r Top = r"
| "par r (InChild a s sb C) = a"
| "par r (InSib a s ch C) = par r C"

fun hole :: "addr \<Rightarrow> ctx \<Rightarrow> slot" where
  "hole r Top = ChildSlot r"
| "hole r (InChild a s sb C) = ChildSlot a"
| "hole r (InSib a s ch C) = SiblingSlot a"

fun path :: "ctx \<Rightarrow> string" where
  "path Top = []"
| "path (InChild a s sb C) = path C @ s"
| "path (InSib a s ch C) = path C"

fun caddrs :: "ctx \<Rightarrow> addr list" where
  "caddrs Top = []"
| "caddrs (InChild a s sb C) = a # faddrs sb @ caddrs C"
| "caddrs (InSib a s ch C) = a # faddrs ch @ caddrs C"

fun ckeyed :: "ctx \<Rightarrow> (addr \<times> string) list" where
  "ckeyed Top = []"
| "ckeyed (InChild a s sb C) = (a, path C @ s) # keyed (path C) sb @ ckeyed C"
| "ckeyed (InSib a s ch C) = (a, path C @ s) # keyed (path C @ s) ch @ ckeyed C"

fun lefts :: "ctx \<Rightarrow> char set" where
  \<comment> \<open>first bytes of the siblings before the hole\<close>
  "lefts Top = {}"
| "lefts (InChild a s sb C) = {}"
| "lefts (InSib a s ch C) = insert (hd s) (lefts C)"

fun cordered :: "ctx \<Rightarrow> char set \<Rightarrow> bool" where
  "cordered Top X = True"
| "cordered (InChild a s sb C) X = (s \<noteq> [] \<and> (\<forall>b\<in>firsts sb. hd s < b) \<and> ordered sb \<and> cordered C (insert (hd s) (firsts sb)))"
| "cordered (InSib a s ch C) X = (s \<noteq> [] \<and> (\<forall>b\<in>X. hd s < b) \<and> ordered ch \<and> cordered C (insert (hd s) X))"

fun ccompact :: "addr set \<Rightarrow> ctx \<Rightarrow> nat \<Rightarrow> bool" where
  "ccompact V Top n = True"
| "ccompact V (InChild a s sb C) n = ((a \<in> V \<or> 2 \<le> n) \<and> fcompact V sb \<and> ccompact V C (Suc (tops sb)))"
| "ccompact V (InSib a s ch C) n = ((a \<in> V \<or> 2 \<le> tops ch) \<and> fcompact V ch \<and> ccompact V C (Suc n))"

fun crepr :: "'v radixHeap \<Rightarrow> addr \<Rightarrow> ctx \<Rightarrow> addr option \<Rightarrow> bool" where
  "crepr h r Top x = (rn_child (h r) = x)"
| "crepr h r (InChild a s sb C) x = (links (h a) = (s, Some (par r C), x, fhead sb) \<and> repr h (par r C) sb \<and> crepr h r C (Some a))"
| "crepr h r (InSib a s ch C) x = (links (h a) = (s, Some (par r C), fhead ch, x) \<and> repr h a ch \<and> crepr h r C (Some a))"

definition tree :: "'v radixHeap \<Rightarrow> addr \<Rightarrow> forest \<Rightarrow> bool" where
  "tree h r F = (crepr h r Top (fhead F) \<and> repr h r F)"

lemma tree_plug: "tree h r (plug C H) = (crepr h r C (fhead H) \<and> repr h (par r C) H)"
  unfolding tree_def by (induction C arbitrary: H) auto

lemma plug_keyed: "mset (keyed [] (plug C H)) = mset (ckeyed C) + mset (keyed (path C) H)"
  by (induction C arbitrary: H) (auto simp: ac_simps)

lemma plug_addrs: "mset (faddrs (plug C H)) = mset (caddrs C) + mset (faddrs H)"
  by (induction C arbitrary: H) (auto simp: ac_simps)

lemma plug_keyed_set: "set (keyed [] (plug C H)) = set (ckeyed C) \<union> set (keyed (path C) H)"
  using arg_cong [OF plug_keyed, of set_mset] by simp

lemma plug_addrs_set: "set (faddrs (plug C H)) = set (caddrs C) \<union> set (faddrs H)"
  using arg_cong [OF plug_addrs, of set_mset] by simp

lemma plug_distinct:
  "distinct (faddrs (plug C H)) \<longleftrightarrow> distinct (caddrs C) \<and> distinct (faddrs H) \<and> set (caddrs C) \<inter> set (faddrs H) = {}"
proof -
  have "mset (faddrs (plug C H)) = mset (caddrs C @ faddrs H)" by (simp add: plug_addrs)
  then have "distinct (faddrs (plug C H)) = distinct (caddrs C @ faddrs H)" by (rule mset_eq_imp_distinct_iff)
  then show ?thesis by simp
qed

lemma plug_ordered: "ordered (plug C H) \<longleftrightarrow> ordered H \<and> cordered C (firsts H)"
  by (induction C arbitrary: H) auto

lemma plug_compact: "fcompact V (plug C H) \<longleftrightarrow> fcompact V H \<and> ccompact V C (tops H)"
  by (induction C arbitrary: H) auto

lemma cordered_mono: "cordered C X \<Longrightarrow> Y \<subseteq> X \<Longrightarrow> cordered C Y"
  by (induction C arbitrary: X Y) (auto, meson insert_mono)

lemma cordered_lefts: "cordered C X \<Longrightarrow> b \<in> X \<Longrightarrow> l \<in> lefts C \<Longrightarrow> l < b"
  by (induction C arbitrary: X b) auto

lemma cordered_insert: "cordered C X \<Longrightarrow> (\<And>l. l \<in> lefts C \<Longrightarrow> l < b) \<Longrightarrow> cordered C (insert b X)"
proof (induction C arbitrary: X)
  case (InSib a s ch C)
  then have "cordered C (insert b (insert (hd s) X))" by simp
  then show ?case using InSib.prems by (simp add: insert_commute)
qed auto

lemma ccompact_mono: "ccompact V C m \<Longrightarrow> m \<le> n \<Longrightarrow> ccompact V C n"
proof (induction C arbitrary: m n)
  case (InSib a s ch C)
  then show ?case using InSib.IH [of "Suc m" "Suc n"] by simp
qed auto

lemma ccompact_V: "ccompact V C n \<Longrightarrow> V \<inter> set (caddrs C) \<subseteq> V' \<Longrightarrow> ccompact V' C n"
proof (induction C arbitrary: n)
  case (InChild a s sb C)
  then have "fcompact V' sb" "ccompact V' C (Suc (tops sb))" using compact_mono [of V sb V'] by auto
  then show ?case using InChild.prems by auto
next
  case (InSib a s ch C)
  then have "fcompact V' ch" "ccompact V' C (Suc n)" using compact_mono [of V ch V'] by auto
  then show ?case using InSib.prems by auto
qed simp

lemma at_addr: "a \<in> set (faddrs F) \<Longrightarrow> \<exists>C s ch sb. F = plug C (Branch a s ch sb)"
proof -
  have "a \<in> set (faddrs H) \<Longrightarrow> \<exists>C' s ch sb. plug C H = plug C' (Branch a s ch sb)" for C H
  proof (induction H arbitrary: C)
    case (Branch x s ch sb)
    show ?case
    proof (cases "a = x")
      case False
      then have "a \<in> set (faddrs ch) \<or> a \<in> set (faddrs sb)" using Branch.prems by simp
      then show ?thesis
        using Branch.IH(1) [of "InChild x s sb C"] Branch.IH(2) [of "InSib x s ch C"] by auto
    qed auto
  qed simp
  from this [of F Top] show "a \<in> set (faddrs F) \<Longrightarrow> ?thesis" by simp
qed

lemma par_mem: "par r C \<in> insert r (set (caddrs C))"
  by (induction C) auto

subsection \<open>Changing the hole\<close>

lemma crepr_cong:
  "(\<And>a. a \<in> insert r (set (caddrs C)) \<Longrightarrow> links (h' a) = links (h a)) \<Longrightarrow> crepr h' r C x = crepr h r C x"
proof (induction C arbitrary: x)
  case Top
  then show ?case by (auto simp: links_def)
next
  case (InChild a s sb C)
  have "repr h' (par r C) sb = repr h (par r C) sb" by (rule repr_cong) (use InChild.prems in auto)
  then show ?case using InChild by auto
next
  case (InSib a s ch C)
  have "repr h' a ch = repr h a ch" by (rule repr_cong) (use InSib.prems in auto)
  then show ?case using InSib by auto
qed

lemma slotSet_links:
  "links (slotSet (ChildSlot n) y h a) = (if a = n then (rn_prefix (h n), rn_parent (h n), y, rn_sibling (h n)) else links (h a))"
  "links (slotSet (SiblingSlot n) y h a) = (if a = n then (rn_prefix (h n), rn_parent (h n), rn_child (h n), y) else links (h a))"
  by (auto simp: links_def)

lemma crepr_slotSet:
  assumes "crepr h r C x" "distinct (r # caddrs C)"
  shows "crepr (slotSet (hole r C) y h) r C y"
proof (cases C)
  case (InChild a s sb C')
  let ?h = "slotSet (ChildSlot a) y h"
  have "repr ?h (par r C') sb = repr h (par r C') sb" by (rule repr_cong) (use assms InChild in \<open>auto simp: slotSet_links\<close>)
  moreover have "crepr ?h r C' (Some a) = crepr h r C' (Some a)"
    by (rule crepr_cong) (use assms InChild in \<open>auto simp: slotSet_links\<close>)
  ultimately show ?thesis using assms InChild by (auto simp: links_def)
next
  case (InSib a s ch C')
  let ?h = "slotSet (SiblingSlot a) y h"
  have "repr ?h a ch = repr h a ch" by (rule repr_cong) (use assms InSib in \<open>auto simp: slotSet_links\<close>)
  moreover have "crepr ?h r C' (Some a) = crepr h r C' (Some a)"
    by (rule crepr_cong) (use assms InSib in \<open>auto simp: slotSet_links\<close>)
  ultimately show ?thesis using assms InSib by (auto simp: links_def)
qed (use assms in auto)

lemma crepr_slotGet: "crepr h r C x \<Longrightarrow> slotGet h (hole r C) = x"
  by (cases C) (auto simp: links_def)

lemma hole_links:
  "a \<notin> insert r (set (caddrs C)) \<Longrightarrow> links (slotSet (hole r C) y h a) = links (h a)"
  by (cases C) (auto simp: links_def)

end
