(* ===== verification/RadixHeap.thy ===== *)
theory RadixHeap
  imports RadixForest
begin

text \<open>
  What the operations on radix nodes do to the tree in the heap: lookup finds the node that stands for a
  key, a key is reconstructed from a node, and linking, unlinking and replacing a child change exactly
  what fills one hole.
\<close>

subsection \<open>Lookup\<close>

fun fsub :: "char \<Rightarrow> forest \<Rightarrow> (addr \<times> string \<times> forest) option" where
  "fsub b Tip = None"
| "fsub b (Branch a s ch sb) = (if hd s = b then Some (a, s, ch) else fsub b sb)"

fun fget :: "string \<Rightarrow> forest \<Rightarrow> addr option" where
  "fget k Tip = None"
| "fget k (Branch a s ch sb) = (if startsWith k s
     then if length k = length s then Some a else fget (drop (length s) k) ch else fget k sb)"

lemma fsub_None: "fsub b H = None \<longleftrightarrow> b \<notin> firsts H"
  by (induction H) auto

lemma fsub_Some:
  assumes "fsub b H = Some (a, s, ch)" "repr h p H" "ordered H"
  shows "rn_prefix (h a) = s" "rn_parent (h a) = Some p" "rn_child (h a) = fhead ch" "repr h a ch" "ordered ch"
    "s \<noteq> []" "hd s = b" "set (faddrs ch) \<subseteq> set (faddrs H)" "a \<in> set (faddrs H)"
  using assms by (induction H) (auto simp: links_def split: if_splits)

lemma fsub_plug:
  assumes "fsub b H = Some (a, s, ch)"
  shows "\<exists>C' sb. plug C H = plug C' (Branch a s ch sb) \<and> par r C' = par r C \<and> path C' = path C"
  using assms
proof (induction H arbitrary: C)
  case (Branch x t dh sb)
  show ?case
  proof (cases "hd t = b")
    case True
    then have "plug C (Branch x t dh sb) = plug C (Branch a s ch sb)" using Branch.prems by simp
    then show ?thesis by blast
  next
    case False
    then obtain C' sb' where "plug (InSib x t dh C) sb = plug C' (Branch a s ch sb')"
      "par r C' = par r (InSib x t dh C)" "path C' = path (InSib x t dh C)"
      using Branch.IH(2) [of "InSib x t dh C"] Branch.prems by auto
    then show ?thesis by auto
  qed
qed simp

lemma getChildLoop_spec:
  assumes "repr h p H" "ordered H"
  shows "getChildLoop h b (fhead H) = Some (Inr (map_option fst (fsub b H)))"
  using assms
proof (induction H)
  case Tip
  then show ?case by (subst getChildLoop.simps) simp
next
  case (Branch a s ch sb)
  then have pb: "prefixByte h a = Inr (hd s)" "rn_sibling (h a) = fhead sb"
    by (auto simp: prefixByte_def links_def split: list.splits)
  have "fsub b sb = None" if "b < hd s" using that Branch.prems(2) by (auto simp: fsub_None)
  then show ?case
    using Branch pb by (subst getChildLoop.simps) auto
qed

lemma getChild_spec:
  "rn_child (h p) = fhead H \<Longrightarrow> repr h p H \<Longrightarrow> ordered H \<Longrightarrow> getChild h p b = Inr (map_option fst (fsub b H))"
  by (simp add: getChild_def getChildLoop_spec)

lemma fget_short: "(\<And>b. b \<in> firsts F \<Longrightarrow> b \<noteq> hd k) \<Longrightarrow> ordered F \<Longrightarrow> fget k F = None"
proof (induction F)
  case (Branch a s ch sb)
  then have "\<not> startsWith k s" by (cases k; cases s) auto
  then show ?case using Branch by auto
qed simp

lemma fget_fsub:
  assumes "ordered H"
  shows "fget k H = (case fsub (hd k) H of None \<Rightarrow> None
    | Some (a, s, ch) \<Rightarrow> if startsWith k s then if length k = length s then Some a else fget (drop (length s) k) ch else None)"
  using assms
proof (induction H)
  case (Branch a s ch sb)
  have "\<not> startsWith k s" if "hd s \<noteq> hd k" using that Branch.prems by (cases k; cases s) auto
  moreover have "fget k sb = None" if "hd s = hd k" using that Branch.prems by (intro fget_short) auto
  ultimately show ?case using Branch by auto
qed simp

lemma fget_keyed: "ordered F \<Longrightarrow> fget k F = Some a \<longleftrightarrow> (a, pre @ k) \<in> set (keyed pre F)"
proof (induction F arbitrary: k pre)
  case (Branch x s ch sb)
  have s: "s \<noteq> []" "ordered ch" "ordered sb" "\<forall>b\<in>firsts sb. hd s < b" using Branch.prems by auto
  have ch: "(a, pre @ k) \<in> set (keyed (pre @ s) ch) \<longleftrightarrow> startsWith k s \<and> fget (drop (length s) k) ch = Some a"
  proof
    assume m: "(a, pre @ k) \<in> set (keyed (pre @ s) ch)"
    then obtain t where t: "pre @ k = (pre @ s) @ t" using keyed_prefix by blast
    then have "k = s @ t" by simp
    then show "startsWith k s \<and> fget (drop (length s) k) ch = Some a"
      using m Branch.IH(1) [OF s(2), of t "pre @ s"] by simp
  next
    assume l: "startsWith k s \<and> fget (drop (length s) k) ch = Some a"
    then have "s @ drop (length s) k = k" using append_take_drop_id [of "length s" k] by simp
    then have "(pre @ s) @ drop (length s) k = pre @ k" by simp
    then show "(a, pre @ k) \<in> set (keyed (pre @ s) ch)"
      using Branch.IH(1) [OF s(2), of "drop (length s) k" "pre @ s"] l by simp
  qed
  have tip: "fget [] ch \<noteq> Some a"
    using Branch.IH(1) [OF s(2), of "[]" "[]"] keyed_first [OF _ s(2), of a "[]" "[]"] by auto
  have sb: "\<not> startsWith k s" if "(a, pre @ k) \<in> set (keyed pre sb)"
    using keyed_first [OF that s(3)] s(1,4) by (cases s) auto
  have k: "pre @ k = pre @ s \<longleftrightarrow> startsWith k s \<and> length k = length s" by auto
  show ?case
  proof (cases "startsWith k s")
    case True
    then show ?thesis using ch sb k tip by auto
  next
    case False
    then show ?thesis using ch k Branch.IH(2) [OF s(3), of k pre] by auto
  qed
qed simp

lemma getNodeLoop_spec:
  assumes "rn_child (h p) = fhead H" "repr h p H" "ordered H"
  shows "getNodeLoop h p k = Some (Inr (if k = [] then if rn_hasValue (h p) then Some p else None
    else case fget k H of None \<Rightarrow> None | Some a \<Rightarrow> if rn_hasValue (h a) then Some a else None))"
  using assms
proof (induction "length k" arbitrary: k p H rule: less_induct)
  case less
  show ?case
  proof (cases k)
    case Nil
    then show ?thesis by (subst getNodeLoop.simps) simp
  next
    case (Cons b t)
    note gc = getChild_spec [OF less.prems, of b] and ff = fget_fsub [OF less.prems(3), of k]
    show ?thesis
    proof (cases "fsub b H")
      case None
      then show ?thesis using gc ff Cons by (subst getNodeLoop.simps) simp
    next
      case (Some q)
      obtain a s ch where q: "q = (a, s, ch)" by (metis prod_cases3)
      note sub = fsub_Some [OF Some [unfolded q] less.prems(2,3)]
      show ?thesis
      proof (cases "startsWith k s")
        case False
        then show ?thesis using gc ff Cons Some q sub by (subst getNodeLoop.simps) simp
      next
        case True
        have "length (drop (length s) k) < length k" using Cons sub(6) by simp
        note ih = less.hyps [OF this sub(3,4,5)]
        have "length k = length s \<longleftrightarrow> drop (length s) k = []" using True by (metis append_Nil2 append_take_drop_id le_refl length_append length_take drop_all min.cobounded1 nle_le)
        then show ?thesis using True gc ff Cons Some q sub ih by (subst getNodeLoop.simps) simp
      qed
    qed
  qed
qed

subsection \<open>The key of a node\<close>

lemma reconstructLoop_step:
  assumes "repr h p F" "(a, k) \<in> set (keyed pre F)" "r \<notin> set (faddrs F)"
  shows "\<exists>t. k = pre @ t \<and> (\<forall>acc. reconstructLoop h r (Some a) acc = reconstructLoop h r (Some p) (t @ acc))"
  using assms
proof (induction F arbitrary: p pre)
  case (Branch x s ch sb)
  have x: "x \<noteq> r" "rn_prefix (h x) = s" "rn_parent (h x) = Some p" using Branch.prems by (auto simp: links_def)
  then have step: "reconstructLoop h r (Some x) acc = reconstructLoop h r (Some p) (s @ acc)" for acc
    by (subst reconstructLoop.simps) simp
  consider "a = x" "k = pre @ s" | "(a, k) \<in> set (keyed (pre @ s) ch)" | "(a, k) \<in> set (keyed pre sb)"
    using Branch.prems(2) by auto
  then show ?case
  proof cases
    case 1
    then show ?thesis using step by blast
  next
    case 2
    then obtain t where "k = (pre @ s) @ t" "\<forall>acc. reconstructLoop h r (Some a) acc = reconstructLoop h r (Some x) (t @ acc)"
      using Branch.IH(1) [of x "pre @ s"] Branch.prems by auto
    then show ?thesis using step by (intro exI [of _ "s @ t"]) simp
  next
    case 3
    then show ?thesis using Branch.IH(2) [of p pre] Branch.prems by auto
  qed
qed simp

lemma reconstructKey_spec:
  assumes "repr h r F" "(a, k) \<in> set (keyed [] F)" "r \<notin> set (faddrs F)"
  shows "reconstructKey h r (Some a) = Inr k"
proof -
  have a: "a \<in> set (faddrs F)" using assms(2) keyed_addrs [of "[]" F] by (metis fst_conv image_eqI list.set_map)
  then have ar: "a \<noteq> r" using assms(3) by blast
  have rs: "reconstructLoop h r (Some r) acc = Some acc" for acc by (subst reconstructLoop.simps) simp
  obtain t where t: "k = t" "\<And>acc. reconstructLoop h r (Some a) acc = reconstructLoop h r (Some r) (t @ acc)"
    using reconstructLoop_step [OF assms] by auto
  have "reconstructLoop h r (Some a) [] = Some k" using t rs by simp
  moreover have "reconstructLoop h r (Some a) [] = Some (rn_prefix (h a))" if "rn_parent (h a) = Some r"
    using that ar rs by (subst reconstructLoop.simps) simp
  ultimately show ?thesis using ar by (auto simp: reconstructKey_def)
qed

lemma reconstructKey_root: "reconstructKey h r (Some r) = Inr []"
  by (simp add: reconstructKey_def)


subsection \<open>Linking and unlinking children\<close>

definition body :: "'v radixNode \<Rightarrow> u64 \<times> addr option \<times> addr option \<times> bool \<times> 'v" where
  \<comment> \<open>what the tree operations leave alone\<close>
  "body n = (rn_size n, rn_prev n, rn_next n, rn_hasValue n, rn_value n)"

lemma body_tree [simp]:
  "body (n\<lparr>rn_prefix := s\<rparr>) = body n" "body (n\<lparr>rn_parent := p\<rparr>) = body n"
  "body (n\<lparr>rn_child := p\<rparr>) = body n" "body (n\<lparr>rn_sibling := p\<rparr>) = body n"
  by (simp_all add: body_def)

lemma body_slotSet [simp]: "body (slotSet sl y h x) = body (h x)"
  by (cases sl) (auto simp: body_def)

lemma slotSet_out: "x \<notin> insert r (set (caddrs C)) \<Longrightarrow> slotSet (hole r C) y h x = h x"
  by (cases C) auto

definition rootlinks :: "'v radixNode \<Rightarrow> string \<times> addr option \<times> addr option" where
  "rootlinks n = (rn_prefix n, rn_parent n, rn_sibling n)"

lemma slotSet_root [simp]: "r \<notin> set (caddrs C) \<Longrightarrow> rootlinks (slotSet (hole r C) y h r) = rootlinks (h r)"
  by (cases C) (auto simp: rootlinks_def)

lemma findSlot_left:
  "crepr h r C x \<Longrightarrow> a \<notin> set (caddrs C) \<Longrightarrow> findSlotLoop h a (ChildSlot (par r C)) = findSlotLoop h a (hole r C)"
proof (induction C arbitrary: x)
  case (InSib b s ch C)
  then have "findSlotLoop h a (ChildSlot (par r C)) = findSlotLoop h a (hole r C)" "slotGet h (hole r C) = Some b"
    using crepr_slotGet by auto
  moreover then have "findSlotLoop h a (hole r C) = findSlotLoop h a (SiblingSlot b)"
    using InSib.prems(2) by (subst findSlotLoop.simps) auto
  ultimately show ?case by simp
qed auto

lemma findSlot_spec:
  assumes "crepr h r C (Some a)" "a \<notin> set (caddrs C)"
  shows "findSlotLoop h a (ChildSlot (par r C)) = Some (Some (hole r C))"
  using findSlot_left [OF assms] crepr_slotGet [OF assms(1)] by (subst (asm) (2) findSlotLoop.simps) simp

lemma crepr_changed:
  \<comment> \<open>the hole is filled and nodes outside the context change\<close>
  assumes "crepr h r C x" "distinct (r # caddrs C)"
    and "\<And>a. a \<in> insert r (set (caddrs C)) \<Longrightarrow> links (h' a) = links (slotSet (hole r C) y h a)"
  shows "crepr h' r C y"
  using crepr_cong [of r C h' "slotSet (hole r C) y h", OF assms(3)] crepr_slotSet [OF assms(1,2)] by blast

lemma removeChild_spec:
  assumes t: "tree h r (plug C (Branch a s ch sb))" and d: "distinct (r # faddrs (plug C (Branch a s ch sb)))"
  shows "\<exists>h'. removeChild (par r C) a h = Inr h' \<and> tree h' r (plug C sb)
    \<and> links (h' a) = (s, None, fhead ch, None) \<and> repr h' a ch
    \<and> (\<forall>x. body (h' x) = body (h x)) \<and> (\<forall>x. x \<notin> insert r (set (faddrs (plug C (Branch a s ch sb)))) \<longrightarrow> h' x = h x)
    \<and> (\<forall>x. rn_prefix (h' x) = rn_prefix (h x) \<and> (x \<noteq> a \<longrightarrow> rn_parent (h' x) = rn_parent (h x)))
    \<and> rootlinks (h' r) = rootlinks (h r)"
proof -
  have dd: "r \<notin> set (caddrs C)" "r \<noteq> a" "r \<notin> set (faddrs ch)" "r \<notin> set (faddrs sb)" "distinct (caddrs C)" "a \<notin> set (caddrs C)"
    "a \<notin> set (faddrs ch)" "a \<notin> set (faddrs sb)" "set (caddrs C) \<inter> set (faddrs sb) = {}" "set (caddrs C) \<inter> set (faddrs ch) = {}"
    using d by (auto simp: plug_distinct plug_addrs_set)
  have c: "crepr h r C (Some a)" and la: "links (h a) = (s, Some (par r C), fhead ch, fhead sb)"
    and rp: "repr h a ch" "repr h (par r C) sb"
    using t by (auto simp: tree_plug)
  define h1 where "h1 = slotSet (hole r C) (rn_sibling (h a)) h"
  define h' where "h' = h1(a := (h1 a)\<lparr>rn_sibling := None, rn_parent := None\<rparr>)"
  have fs: "findSlotLoop h a (ChildSlot (par r C)) = Some (Some (hole r C))" using findSlot_spec [OF c dd(6)] .
  have h1a: "h1 x = h x" if "x \<notin> insert r (set (caddrs C))" for x using that slotSet_out by (simp add: h1_def)
  have out: "links (h' x) = links (h x)" if "x \<notin> insert r (set (caddrs C))" "x \<noteq> a" for x
    using h1a [OF that(1)] that(2) by (simp add: h'_def)
  have sbl: "rn_sibling (h a) = fhead sb" using la by (simp add: links_def)
  have "crepr h' r C (fhead sb)"
    by (rule crepr_changed [OF c]) (use dd sbl in \<open>auto simp: h'_def h1_def\<close>)
  moreover have "repr h' (par r C) sb = repr h (par r C) sb" by (rule repr_cong, rule out) (use dd in auto)
  moreover have "repr h' a ch = repr h a ch" by (rule repr_cong, rule out) (use dd in auto)
  moreover have "links (h' a) = (s, None, fhead ch, None)"
    using h1a [of a] dd la by (simp add: h'_def links_def)
  moreover have "h' x = h x" if "x \<notin> insert r (set (faddrs (plug C (Branch a s ch sb))))" for x
    using that h1a [of x] by (auto simp: h'_def plug_addrs_set)
  moreover have "body (h' x) = body (h x)" for x by (simp add: h'_def h1_def)
  moreover have "rn_prefix (h' x) = rn_prefix (h x) \<and> (x \<noteq> a \<longrightarrow> rn_parent (h' x) = rn_parent (h x))" for x
    by (cases "hole r C") (auto simp: h'_def h1_def)
  moreover have "rootlinks (h' r) = rootlinks (h r)" using dd by (simp add: h'_def h1_def)
  moreover have "removeChild (par r C) a h = Inr h'"
    by (simp add: removeChild_def fs h'_def h1_def Let_def)
  ultimately show ?thesis using rp by (auto simp: tree_plug)
qed

lemma replaceChild_spec:
  assumes c: "crepr h r C (Some a)" and la: "links (h a) = (s, q, ac, fhead sb)" and rsb: "repr h (par r C) sb"
    and ln: "rn_prefix (h n) = t" "rn_child (h n) = fhead nc" "repr h n nc"
    and d: "distinct (r # caddrs C)" "a \<noteq> n" "{a, n} \<inter> insert r (set (caddrs C) \<union> set (faddrs sb) \<union> set (faddrs nc)) = {}"
      "insert r (set (caddrs C)) \<inter> (set (faddrs sb) \<union> set (faddrs nc)) = {}"
  shows "\<exists>h'. replaceChild (par r C) a n h = Inr h' \<and> tree h' r (plug C (Branch n t nc sb))
    \<and> links (h' a) = (s, None, ac, None) \<and> (\<forall>x. body (h' x) = body (h x))
    \<and> (\<forall>x. x \<notin> {a, n, r} \<union> set (caddrs C) \<longrightarrow> h' x = h x) \<and> rootlinks (h' r) = rootlinks (h r)"
proof -
  define h1 where "h1 = h(n := (h n)\<lparr>rn_parent := Some (par r C), rn_sibling := rn_sibling (h a)\<rparr>)"
  define h2 where "h2 = slotSet (hole r C) (Some n) h1"
  define h' where "h' = h2(a := (h2 a)\<lparr>rn_sibling := None, rn_parent := None\<rparr>)"
  have fs: "findSlotLoop h a (ChildSlot (par r C)) = Some (Some (hole r C))" using findSlot_spec [OF c] d by auto
  have h2a: "h2 x = h1 x" if "x \<notin> insert r (set (caddrs C))" for x using that slotSet_out by (simp add: h2_def)
  have out: "h' x = h x" if "x \<notin> {a, n, r} \<union> set (caddrs C)" for x
    using h2a [of x] that by (auto simp: h'_def h1_def)
  have "crepr h1 r C (Some a) = crepr h r C (Some a)" by (rule crepr_cong) (use d in \<open>auto simp: h1_def\<close>)
  then have c1: "crepr h1 r C (Some a)" using c by simp
  have "crepr h' r C (Some n)"
    by (rule crepr_changed [OF c1]) (use d in \<open>auto simp: h'_def h2_def\<close>)
  moreover have "repr h' (par r C) sb = repr h (par r C) sb" by (rule repr_cong, subst out) (use d in auto)
  moreover have "repr h' n nc = repr h n nc" by (rule repr_cong, subst out) (use d in auto)
  moreover have "links (h' n) = (t, Some (par r C), fhead nc, fhead sb)"
    using h2a [of n] d ln la by (auto simp: h'_def h1_def links_def)
  moreover have "links (h' a) = (s, None, ac, None)"
    using h2a [of a] d la by (auto simp: h'_def h1_def links_def)
  moreover have "body (h' x) = body (h x)" for x by (simp add: h'_def h2_def h1_def)
  moreover have "rootlinks (h' r) = rootlinks (h r)" using d by (auto simp: h'_def h2_def h1_def)
  moreover have "replaceChild (par r C) a n h = Inr h'"
    by (simp add: replaceChild_def fs h'_def h2_def h1_def Let_def)
  ultimately show ?thesis using rsb ln(3) out by (auto simp: tree_plug)
qed

lemma addChildLoop_left:
  assumes "crepr h r C x" "cordered C X" "prefixByte h n = Inr b" "\<And>l. l \<in> lefts C \<Longrightarrow> l < b"
  shows "addChildLoop h n (ChildSlot (par r C)) = addChildLoop h n (hole r C)"
  using assms
proof (induction C arbitrary: x X)
  case (InSib y s ch C)
  then have "addChildLoop h n (ChildSlot (par r C)) = addChildLoop h n (hole r C)" "slotGet h (hole r C) = Some y"
    using crepr_slotGet by auto
  moreover have "prefixByte h y = Inr (hd s)" using InSib.prems by (auto simp: prefixByte_def links_def split: list.splits)
  moreover from calculation have "addChildLoop h n (hole r C) = addChildLoop h n (SiblingSlot y)"
    using InSib.prems(3,4) by (subst addChildLoop.simps) auto
  ultimately show ?case by simp
qed auto

lemma addChildLoop_spec:
  assumes "crepr h r C (fhead H)" "repr h (par r C) H" "ordered H" "prefixByte h n = Inr b" "b \<notin> firsts H"
    "\<And>l. l \<in> lefts C \<Longrightarrow> l < b"
  shows "\<exists>C' H'. addChildLoop h n (hole r C) = Some (Inr (hole r C')) \<and> plug C H = plug C' H'
    \<and> par r C' = par r C \<and> path C' = path C \<and> (\<forall>l\<in>lefts C'. l < b) \<and> (\<forall>l\<in>firsts H'. b < l)
    \<and> (H = Tip \<longrightarrow> C' = C \<and> H' = Tip)
    \<and> (\<forall>V m. fcompact V H \<and> ccompact V C (m + tops H) \<longrightarrow> fcompact V H' \<and> ccompact V C' (m + tops H'))"
  using assms
proof (induction H arbitrary: C)
  case Tip
  have "addChildLoop h n (hole r C) = Some (Inr (hole r C))"
    using crepr_slotGet [OF Tip(1)] by (subst addChildLoop.simps) simp
  then show ?case using Tip(6) by (intro exI [of _ C] exI [of _ Tip]) simp
next
  case (Branch a s ch sb)
  have sg: "slotGet h (hole r C) = Some a" using Branch.prems(1) crepr_slotGet by fastforce
  have pb: "prefixByte h a = Inr (hd s)" using Branch.prems by (auto simp: prefixByte_def links_def split: list.splits)
  show ?case
  proof (cases "hd s < b")
    case True
    have "\<exists>C' H'. addChildLoop h n (hole r (InSib a s ch C)) = Some (Inr (hole r C')) \<and> plug (InSib a s ch C) sb = plug C' H'
      \<and> par r C' = par r (InSib a s ch C) \<and> path C' = path (InSib a s ch C) \<and> (\<forall>l\<in>lefts C'. l < b) \<and> (\<forall>l\<in>firsts H'. b < l)
      \<and> (sb = Tip \<longrightarrow> C' = InSib a s ch C \<and> H' = Tip)
      \<and> (\<forall>V m. fcompact V sb \<and> ccompact V (InSib a s ch C) (m + tops sb) \<longrightarrow> fcompact V H' \<and> ccompact V C' (m + tops H'))"
      by (rule Branch.IH(2)) (use Branch.prems True in auto)
    moreover have "addChildLoop h n (hole r C) = addChildLoop h n (hole r (InSib a s ch C))"
      using True sg pb Branch.prems(4) by (subst addChildLoop.simps) simp
    ultimately show ?thesis by (simp add: add.commute) blast
  next
    case False
    then have "b < hd s" using Branch.prems(5) by auto
    then have "\<forall>l\<in>firsts (Branch a s ch sb). b < l" using Branch.prems(3) by auto
    moreover have "addChildLoop h n (hole r C) = Some (Inr (hole r C))"
      using False sg pb Branch.prems(4) by (subst addChildLoop.simps) auto
    ultimately show ?thesis using Branch.prems(6) by (intro exI [of _ C] exI [of _ "Branch a s ch sb"]) simp
  qed
qed

lemma addChild_spec:
  assumes t: "tree h r (plug C H)" and C: "hole r C = ChildSlot (par r C)" and o: "ordered (plug C H)"
    and ln: "rn_prefix (h n) = s" "rn_child (h n) = fhead nc" "repr h n nc" "s \<noteq> []" "ordered nc" "hd s \<notin> firsts H"
    and d: "distinct (r # faddrs (plug C H) @ n # faddrs nc)"
  shows "\<exists>h' C' H'. addChild (par r C) n h = Inr h' \<and> plug C H = plug C' H' \<and> path C' = path C
    \<and> tree h' r (plug C' (Branch n s nc H')) \<and> ordered (plug C' (Branch n s nc H'))
    \<and> (H = Tip \<longrightarrow> C' = C \<and> H' = Tip)
    \<and> (\<forall>V m. fcompact V H \<and> ccompact V C (m + tops H) \<longrightarrow> fcompact V H' \<and> ccompact V C' (m + tops H'))
    \<and> (\<forall>x. body (h' x) = body (h x)) \<and> (\<forall>x. x \<notin> insert r (insert n (set (faddrs (plug C H)))) \<longrightarrow> h' x = h x)
    \<and> rootlinks (h' r) = rootlinks (h r)"
proof -
  have c: "crepr h r C (fhead H)" and rp: "repr h (par r C) H" using t by (simp_all add: tree_plug)
  have oH: "ordered H" "cordered C (firsts H)" using o by (simp_all add: plug_ordered)
  have l0: "lefts C = {}" using C by (cases C) auto
  define h0 where "h0 = h(n := (h n)\<lparr>rn_parent := Some (par r C)\<rparr>)"
  have n: "n \<notin> insert r (set (caddrs C) \<union> set (faddrs H) \<union> set (faddrs nc))" "distinct (r # caddrs C)"
    using d by (auto simp: plug_addrs_set plug_distinct)
  have c0: "crepr h0 r C (fhead H)" using c n by (subst crepr_cong [where h = h]) (auto simp: h0_def)
  have r0: "repr h0 (par r C) H" using rp n by (subst repr_cong [where h = h]) (auto simp: h0_def)
  have pb: "prefixByte h0 n = Inr (hd s)" using ln by (auto simp: h0_def prefixByte_def split: list.splits)
  obtain C' H' where lp: "addChildLoop h0 n (hole r C) = Some (Inr (hole r C'))" "plug C H = plug C' H'"
    "par r C' = par r C" "path C' = path C" "\<forall>l\<in>lefts C'. l < hd s" "\<forall>l\<in>firsts H'. hd s < l"
    "H = Tip \<longrightarrow> C' = C \<and> H' = Tip"
    "(\<forall>V m. fcompact V H \<and> ccompact V C (m + tops H) \<longrightarrow> fcompact V H' \<and> ccompact V C' (m + tops H'))"
    using addChildLoop_spec [OF c0 r0 oH(1) pb ln(6)] l0 by blast
  have t0: "tree h0 r (plug C' H')" using c0 r0 lp(2) by (metis tree_plug)
  then have c0': "crepr h0 r C' (fhead H')" and r0': "repr h0 (par r C') H'" by (simp_all add: tree_plug)
  have n': "n \<notin> insert r (set (caddrs C') \<union> set (faddrs H') \<union> set (faddrs nc))" "distinct (r # caddrs C')"
    "insert r (set (caddrs C')) \<inter> (set (faddrs H') \<union> set (faddrs nc)) = {}"
    using d unfolding lp(2) by (auto simp: plug_addrs_set plug_distinct)
  define h1 where "h1 = h0(n := (h0 n)\<lparr>rn_sibling := slotGet h0 (hole r C')\<rparr>)"
  define h' where "h' = slotSet (hole r C') (Some n) h1"
  have sg: "slotGet h0 (hole r C') = fhead H'" using crepr_slotGet [OF c0'] .
  have out: "h' x = h x" if "x \<notin> insert r (insert n (set (caddrs C')))" for x
    using that slotSet_out [of x r C' "Some n" h1] by (auto simp: h'_def h1_def h0_def)
  have c1: "crepr h1 r C' (fhead H')" using c0' n' by (subst crepr_cong [where h = h0]) (auto simp: h1_def)
  have "crepr h' r C' (Some n)" unfolding h'_def by (rule crepr_slotSet [OF c1 n'(2)])
  moreover have "repr h' (par r C') H' = repr h0 (par r C') H'"
    by (rule repr_cong, subst out) (use n' in \<open>auto simp: h0_def\<close>)
  moreover have "repr h' n nc = repr h n nc" by (rule repr_cong, subst out) (use n' in auto)
  moreover have "links (h' n) = (s, Some (par r C'), fhead nc, fhead H')"
    using slotSet_out [of n r C' "Some n" h1] n' ln lp(3) sg by (auto simp: h'_def h1_def h0_def links_def)
  ultimately have t': "tree h' r (plug C' (Branch n s nc H'))" using ln(3) r0' by (simp add: tree_plug)
  have oC': "ordered H'" "cordered C' (firsts H')" using o unfolding lp(2) plug_ordered by simp_all
  then have "ordered (plug C' (Branch n s nc H'))" using ln(4,5) lp(5,6) by (auto simp: plug_ordered intro!: cordered_insert)
  moreover have "addChild (par r C) n h = Inr h'"
    using lp(1) C by (simp add: addChild_def h0_def [symmetric] Let_def h1_def h'_def)
  moreover have "body (h' x) = body (h x)" for x by (simp add: h'_def h1_def h0_def)
  moreover have "rootlinks (h' r) = rootlinks (h r)" using n' by (auto simp: h'_def h1_def h0_def)
  ultimately show ?thesis
    using t' lp(2,4,7,8) out by (intro exI [of _ h'] exI [of _ C'] exI [of _ H']) (auto simp: plug_addrs_set)
qed

end
