(* ===== verification/RadixCache.thy ===== *)
theory RadixCache
  imports RadixTree MapCache
begin

text \<open>
  The radix backend (\<^verbatim>\<open>radix_lru.go\<close>). The fields \<open>head\<close>, \<open>tail\<close> and \<open>len\<close> of the Go struct are the record
  \<open>rc_ends\<close>. The root is allocated by the constructor and never assigned \<open>nil\<close>, so it is an address.
  Internal operations thread the cache and the queue of eviction events; the tree operations panic on
  a corrupted tree, and their loops follow pointers, so every operation returns a result that may be a panic.
\<close>

record 'v radixCache =
  rc_maxSize :: u64
  rc_currentSize :: u64
  rc_heap :: "'v radixHeap"
  rc_nextAddr :: addr
  rc_root :: addr
  rc_ends :: radixEnds
  rc_weigher :: "(string \<Rightarrow> 'v \<Rightarrow> u64) option"
  rc_onEvictValue :: "unit option"
  rc_onEvictEntry :: "unit option"
  rc_recycleNodes :: "addr list"  \<comment> \<open>the first \<open>recycleLen\<close> slots of the array\<close>
  rc_recyclingForPut :: bool
  rc_ps :: "'v pressureState"

type_synonym 'v radixState = "'v radixCache \<times> 'v evictCallbackQueue"

definition onRps :: "('v pressureState \<Rightarrow> 'v pressureState) \<Rightarrow> 'v radixCache \<Rightarrow> 'v radixCache" where
  "onRps f c = c\<lparr>rc_ps := f (rc_ps c)\<rparr>"

definition onHeap :: "('v radixHeap \<Rightarrow> 'v radixHeap res) \<Rightarrow> 'v radixCache \<Rightarrow> 'v radixCache res" where
  "onHeap f c = bindr (f (rc_heap c)) (\<lambda>h. Inr (c\<lparr>rc_heap := h\<rparr>))"

definition setNode :: "addr \<Rightarrow> ('v radixNode \<Rightarrow> 'v radixNode) \<Rightarrow> 'v radixCache \<Rightarrow> 'v radixCache" where
  "setNode a f c = c\<lparr>rc_heap := (rc_heap c)(a := f (rc_heap c a))\<rparr>"

definition onList ::
  "('v radixHeap \<times> radixEnds \<Rightarrow> 'v radixHeap \<times> radixEnds) \<Rightarrow> 'v radixCache \<Rightarrow> 'v radixCache" where
  "onList f c = (case f (rc_heap c, rc_ends c) of (h, l) \<Rightarrow> c\<lparr>rc_heap := h, rc_ends := l\<rparr>)"

definition radixLen :: "'v radixCache \<Rightarrow> int" where "radixLen c = r_len (rc_ends c)"

definition radixCache_weigh :: "'v radixCache \<Rightarrow> string \<Rightarrow> 'v \<Rightarrow> u64" where
  "radixCache_weigh c key value = (case rc_weigher c of Some w \<Rightarrow> w key value | None \<Rightarrow> 1)"

definition radixHasCB :: "'v radixCache \<Rightarrow> bool" where
  "radixHasCB c = (rc_onEvictValue c \<noteq> None \<or> rc_onEvictEntry c \<noteq> None)"

definition radixCache_notifyEvict :: "string \<Rightarrow> 'v \<Rightarrow> u64 \<Rightarrow> EvictionReason \<Rightarrow> 'v radixState \<Rightarrow> 'v radixState" where
  "radixCache_notifyEvict key value sz reason st = (let (c, q) = st in
     (onRps (recordEviction reason sz) c, if radixHasCB c then enqueue key value reason q else q))"

definition radixCache_notifyReplaced :: "string \<Rightarrow> 'v \<Rightarrow> u64 \<Rightarrow> 'v radixState \<Rightarrow> 'v radixState" where
  "radixCache_notifyReplaced key oldValue oldSize st = (let (c, q) = st in
     (onRps (\<lambda>p. p\<lparr>evictionsReplaced := evictionsReplaced p + 1,
                  evictedWeightReplaced := evictedWeightReplaced p + oldSize\<rparr>) c,
      if radixHasCB c then enqueue key oldValue EvictionReasonReplaced q else q))"

definition radixCache_reconstructKey :: "'v radixCache \<Rightarrow> addr option \<Rightarrow> string res" where
  "radixCache_reconstructKey c node = reconstructKey (rc_heap c) (rc_root c) node"

subsection \<open>Invariant checking\<close>

definition radixCache_checkLRUNodeLinkInvariants :: "'v radixCache \<Rightarrow> addr \<Rightarrow> addr option \<Rightarrow> unit res" where
  "radixCache_checkLRUNodeLinkInvariants c cur prevNode = (let n = rc_heap c cur in
     bindr (require (rn_hasValue n) ''unexpected hasValue=false in LRU list'') (\<lambda>_.
     bindr (require (rn_prev n = prevNode) ''corrupt prev pointer in LRU list'') (\<lambda>_.
     bindr (case prevNode of
         None \<Rightarrow> require (r_head (rc_ends c) = Some cur) ''head mismatch in LRU list''
       | Some p \<Rightarrow> require (rn_next (rc_heap c p) = Some cur) ''corrupt next pointer in LRU list'') (\<lambda>_.
     require (\<not> (rn_next n = None \<and> r_tail (rc_ends c) \<noteq> Some cur)) ''tail mismatch in LRU list''))))"

definition radixCache_checkLRUEndpointsInvariants :: "'v radixCache \<Rightarrow> unit res" where
  "radixCache_checkLRUEndpointsInvariants c = (if radixLen c = 0
     then require (r_head (rc_ends c) = None \<and> r_tail (rc_ends c) = None) ''head or tail is non-nil when len is 0''
     else require (r_head (rc_ends c) \<noteq> None \<and> r_tail (rc_ends c) \<noteq> None) ''head or tail is nil when len > 0'')"

partial_function (option) checkRadixListLoop ::
  "'v radixCache \<Rightarrow> addr option \<Rightarrow> addr option \<Rightarrow> u64 \<Rightarrow> int \<Rightarrow> int \<Rightarrow> (u64 \<times> int \<times> int) res option" where
  "checkRadixListLoop c cur prevNode sumSize lruCount zeroCount = (case cur of
     None \<Rightarrow> Some (Inr (sumSize, lruCount, zeroCount))
   | Some a \<Rightarrow> let n = rc_heap c a in
       if - 1 - sumSize < rn_size n then Some (Inl (Panic ''sumSize uint64 overflow''))
       else case radixCache_checkLRUNodeLinkInvariants c a prevNode of Inl p \<Rightarrow> Some (Inl p)
       | Inr _ \<Rightarrow> checkRadixListLoop c (rn_next n) (Some a) (sumSize + rn_size n) (lruCount + 1)
                   (if rn_size n = 0 then zeroCount + 1 else zeroCount))"

definition radixCache_checkLRUListInvariants :: "'v radixCache \<Rightarrow> unit res" where
  "radixCache_checkLRUListInvariants c =
     bindr (of_loop (checkRadixListLoop c (r_head (rc_ends c)) None 0 0 0)) (\<lambda>(sumSize, lruCount, zeroCount).
     bindr (require (lruCount = radixLen c) ''LRU list count does not match tracked len'') (\<lambda>_.
     bindr (require (zeroCount = zeroSizeCount (rc_ps c)) ''zeroSizeCount does not match live zero-size entries'') (\<lambda>_.
     bindr (require (sumSize = rc_currentSize c) ''currentSize drift'') (\<lambda>_.
     radixCache_checkLRUEndpointsInvariants c))))"

definition radixCache_checkRootInvariants :: "'v radixCache \<Rightarrow> unit res" where
  "radixCache_checkRootInvariants c = (let r = rc_heap c (rc_root c) in
     bindr (require (rn_prefix r = '''') ''root node must have empty prefix'') (\<lambda>_.
     bindr (require (rn_parent r = None) ''root node must not have a parent'') (\<lambda>_.
     require (rn_sibling r = None) ''root node must not have siblings'')))"

definition radixCache_checkTreeNodeInvariants :: "('v :: zero) radixCache \<Rightarrow> addr \<Rightarrow> unit res" where
  "radixCache_checkTreeNodeInvariants c cur = (let n = rc_heap c cur; l = rc_ends c in
     if rn_hasValue n then
       require ((r_head l = Some cur \<and> rn_prev n = None)
                \<or> (case rn_prev n of None \<Rightarrow> False | Some p \<Rightarrow> rn_next (rc_heap c p) = Some cur))
         ''node has value but is missing from LRU list''
     else
       bindr (require (rn_size n = 0) ''routing node has non-zero size'') (\<lambda>_.
       bindr (require (\<not> (rn_prev n \<noteq> None \<or> rn_next n \<noteq> None \<or> r_head l = Some cur \<or> r_tail l = Some cur))
         ''routing node has non-nil LRU pointers'') (\<lambda>_.
       require (rn_value n = 0) ''routing node retains non-zero value'')))"

partial_function (option) checkChildrenLoop ::
  "'v radixHeap \<Rightarrow> addr \<Rightarrow> addr option \<Rightarrow> addr option \<Rightarrow> unit res option" where
  "checkChildrenLoop h cur ch prevSibling = (case ch of None \<Rightarrow> Some (Inr ())
   | Some a \<Rightarrow>
       if rn_parent (h a) \<noteq> Some cur then Some (Inl (Panic ''child has incorrect parent pointer''))
       else if rn_prefix (h a) = [] then Some (Inl (Panic ''non-root child node has empty prefix''))
       else case (case prevSibling of None \<Rightarrow> Inr ()
          | Some s \<Rightarrow> bindr (prefixByte h s) (\<lambda>x. bindr (prefixByte h a) (\<lambda>y.
              require (x < y) ''siblings not sorted lexicographically''))) of
         Inl p \<Rightarrow> Some (Inl p)
       | Inr _ \<Rightarrow> checkChildrenLoop h cur (rn_sibling (h a)) (Some a))"

definition radixCache_checkChildrenAndCompactness :: "'v radixCache \<Rightarrow> addr \<Rightarrow> unit res" where
  "radixCache_checkChildrenAndCompactness c cur = (let h = rc_heap c in
     bindr (of_loop (checkChildrenLoop h cur (rn_child (h cur)) None)) (\<lambda>_.
     require (\<not> (cur \<noteq> rc_root c \<and> \<not> rn_hasValue (h cur)
         \<and> (case rn_child (h cur) of None \<Rightarrow> True | Some ch \<Rightarrow> rn_sibling (h ch) = None)))
       ''intermediate routing node has fewer than 2 children''))"

partial_function (option) backtrackLoop :: "'v radixHeap \<Rightarrow> addr \<Rightarrow> addr \<Rightarrow> addr res option" where
  \<comment> \<open>\<open>for curr != stop && curr.sibling == nil { curr = curr.parent }\<close>\<close>
  "backtrackLoop h stop cur = (if cur \<noteq> stop \<and> rn_sibling (h cur) = None
     then (case rn_parent (h cur) of None \<Rightarrow> Some (Inl NilDeref) | Some p \<Rightarrow> backtrackLoop h stop p)
     else Some (Inr cur))"

partial_function (option) checkTreeLoop ::
  "('v :: zero) radixCache \<Rightarrow> addr \<Rightarrow> int \<Rightarrow> u64 \<Rightarrow> (int \<times> u64) res option" where
  "checkTreeLoop c cur treeCount treeSumSize = (let n = rc_heap c cur in
     if rn_hasValue n \<and> - 1 - treeSumSize < rn_size n then Some (Inl (Panic ''treeSumSize uint64 overflow''))
     else let
       cnt = (if rn_hasValue n then treeCount + 1 else treeCount);
       sm = (if rn_hasValue n then treeSumSize + rn_size n else treeSumSize) in
       case bindr (radixCache_checkTreeNodeInvariants c cur) (\<lambda>_. radixCache_checkChildrenAndCompactness c cur) of
         Inl p \<Rightarrow> Some (Inl p)
       | Inr _ \<Rightarrow> (case rn_child n of
           Some ch \<Rightarrow> checkTreeLoop c ch cnt sm
         | None \<Rightarrow> (case backtrackLoop (rc_heap c) (rc_root c) cur of
             None \<Rightarrow> None
           | Some (Inl p) \<Rightarrow> Some (Inl p)
           | Some (Inr b) \<Rightarrow> if b = rc_root c then Some (Inr (cnt, sm))
               else (case rn_sibling (rc_heap c b) of None \<Rightarrow> Some (Inr (cnt, sm))
                     | Some s \<Rightarrow> checkTreeLoop c s cnt sm))))"

definition radixCache_checkTreeInvariants :: "('v :: zero) radixCache \<Rightarrow> unit res" where
  "radixCache_checkTreeInvariants c =
     bindr (of_loop (checkTreeLoop c (rc_root c) 0 0)) (\<lambda>(treeCount, treeSumSize).
     bindr (require (treeCount = radixLen c) ''tree value count does not match LRU length'') (\<lambda>_.
     require (treeSumSize = rc_currentSize c) ''currentSize drift in tree''))"

definition radixCache_checkInvariants :: "('v :: zero) radixCache \<Rightarrow> unit res" where
  "radixCache_checkInvariants c =
     bindr (require (rc_maxSize c \<noteq> 0) ''maxSize must be greater than 0'') (\<lambda>_.
     bindr (require (rc_currentSize c \<le> rc_maxSize c) ''currentSize exceeds maxSize'') (\<lambda>_.
     bindr (radixCache_checkLRUListInvariants c) (\<lambda>_.
     bindr (radixCache_checkRootInvariants c) (\<lambda>_.
     bindr (radixCache_checkTreeInvariants c) (\<lambda>_.
     checkTelemetryInvariants (rc_ps c) (radixLen c))))))"

definition radixCache_unlock :: "('v :: zero) radixCache \<Rightarrow> unit res" where
  \<comment> \<open>\<open>unlock\<close>, \<open>rUnlock\<close>: a violated invariant panics\<close>
  "radixCache_unlock c =
    (if EnableInvariantChecking (options (rc_ps c)) then radixCache_checkInvariants c else Inr ())"

definition newRadixCacheWithOptions :: "u64 \<Rightarrow> 'v Options \<Rightarrow> ('v :: zero) radixCache res" where
  "newRadixCacheWithOptions maxSz opts0 = (let
     opts = (if \<not> hasShardTier2Target opts0
             then opts0\<lparr>hasShardTier2Target := True,
                        shardTier2Target := computeTargetSize maxSz (EvictionRetentionRatio opts0)\<rparr>
             else opts0) in
     bindr (resolveWeigher (oWeigher opts)) (\<lambda>w.
     bindr (resolveOnEvictValue (oOnEvictValue opts)) (\<lambda>onVal.
     bindr (resolveOnEvictEntry (oOnEvictEntry opts)) (\<lambda>onEntry.
     let c = \<lparr>rc_maxSize = maxSz, rc_currentSize = 0, rc_heap = (\<lambda>_. zeroNode), rc_nextAddr = 1, rc_root = 0,
              rc_ends = \<lparr>r_head = None, r_tail = None, r_len = 0\<rparr>, rc_weigher = w,
              rc_onEvictValue = onVal, rc_onEvictEntry = onEntry, rc_recycleNodes = [], rc_recyclingForPut = False,
              rc_ps = newPressureState opts\<rparr>
     in bindr (radixCache_unlock c) (\<lambda>_. Inr c)))))"

subsection \<open>Changing the tree\<close>

definition allocNode :: "('v :: zero) radixCache \<Rightarrow> 'v radixCache \<times> addr" where
  "allocNode c = (if rc_recycleNodes c \<noteq> []
     then (c\<lparr>rc_recycleNodes := butlast (rc_recycleNodes c)\<rparr>, List.last (rc_recycleNodes c))
     else (c\<lparr>rc_heap := (rc_heap c)(rc_nextAddr c := zeroNode), rc_nextAddr := rc_nextAddr c + 1\<rparr>, rc_nextAddr c))"

definition freeNode :: "addr \<Rightarrow> 'v radixCache \<Rightarrow> 'v radixCache" where
  "freeNode n c = (let c1 = setNode n (\<lambda>x. x\<lparr>rn_prefix := ''''\<rparr>) c in
     if rc_recyclingForPut c1 \<and> length (rc_recycleNodes c1) < 2
     then c1\<lparr>rc_recycleNodes := rc_recycleNodes c1 @ [n]\<rparr> else c1)"

definition newLeafUnder :: "addr \<Rightarrow> string \<Rightarrow> 'v \<Rightarrow> ('v :: zero) radixCache \<Rightarrow> ('v radixCache \<times> addr) res" where
  \<comment> \<open>allocate a leaf and add it as a child\<close>
  "newLeafUnder node rest value c = (let
     (c1, newLeaf) = allocNode c;
     c2 = setNode newLeaf (\<lambda>x. x\<lparr>rn_prefix := clonePrefix rest, rn_value := value, rn_hasValue := True\<rparr>) c1 in
     bindr (onHeap (addChild node newLeaf) c2) (\<lambda>c3. Inr (c3, newLeaf)))"

definition splitChild :: "addr \<Rightarrow> addr \<Rightarrow> nat \<Rightarrow> ('v :: zero) radixCache \<Rightarrow> ('v radixCache \<times> addr) res" where
  \<comment> \<open>put a new node with the first \<open>lcp\<close> bytes of the child's prefix between the child and its parent\<close>
  "splitChild node child lcp c = (let
     oldPrefix = rn_prefix (rc_heap c child);
     (c1, splitNode) = allocNode c;
     c2 = setNode splitNode (\<lambda>x. x\<lparr>rn_prefix := clonePrefix (take lcp oldPrefix), rn_parent := Some node\<rparr>) c1 in
     bindr (onHeap (replaceChild node child splitNode) c2) (\<lambda>c3.
     let c4 = setNode child (\<lambda>x. x\<lparr>rn_prefix := clonePrefix (drop lcp oldPrefix), rn_sibling := None\<rparr>) c3 in
     bindr (onHeap (addChild splitNode child) c4) (\<lambda>c5. Inr (c5, splitNode))))"

partial_function (option) insertLoop ::
  "'v \<Rightarrow> addr \<Rightarrow> string \<Rightarrow> ('v :: zero) radixCache \<Rightarrow> ('v radixCache \<times> addr) res option" where
  "insertLoop value node search c = (case search of
     [] \<Rightarrow> Some (Inr (setNode node (\<lambda>x. x\<lparr>rn_value := value, rn_hasValue := True\<rparr>) c, node))
   | b # _ \<Rightarrow> (case getChild (rc_heap c) node b of
       Inl p \<Rightarrow> Some (Inl p)
     | Inr None \<Rightarrow> Some (newLeafUnder node search value c)
     | Inr (Some child) \<Rightarrow> (let lcp = longestCommonPrefix search (rn_prefix (rc_heap c child)) in
         if lcp = length (rn_prefix (rc_heap c child)) then insertLoop value child (drop lcp search) c
         else Some (bindr (splitChild node child lcp c) (\<lambda>(c1, splitNode).
           if lcp = length search
           then Inr (setNode splitNode (\<lambda>x. x\<lparr>rn_value := value, rn_hasValue := True\<rparr>) c1, splitNode)
           else newLeafUnder splitNode (drop lcp search) value c1)))))"

definition radixCache_insertNode :: "string \<Rightarrow> 'v \<Rightarrow> ('v :: zero) radixCache \<Rightarrow> ('v radixCache \<times> addr) res" where
  "radixCache_insertNode key value c = of_loop (insertLoop value (rc_root c) key c)"

definition radixCache_getNode :: "'v radixCache \<Rightarrow> string \<Rightarrow> addr option res" where
  "radixCache_getNode c key = of_loop (getNodeLoop (rc_heap c) (rc_root c) key)"

partial_function (option) compressLoop :: "addr option \<Rightarrow> 'v radixCache \<Rightarrow> 'v radixCache res option" where
  "compressLoop cur c = (case cur of None \<Rightarrow> Some (Inr c)
   | Some a \<Rightarrow> if a = rc_root c \<or> rn_hasValue (rc_heap c a) then Some (Inr c)
       else (case rn_child (rc_heap c a) of
         None \<Rightarrow> (case rn_parent (rc_heap c a) of None \<Rightarrow> Some (Inl NilDeref)
           | Some p \<Rightarrow> (case onHeap (removeChild p a) c of Inl e \<Rightarrow> Some (Inl e)
             | Inr c1 \<Rightarrow> compressLoop (Some p) (freeNode a c1)))
       | Some onlyChild \<Rightarrow>
           if rn_sibling (rc_heap c onlyChild) = None then
             (let c1 = setNode onlyChild (\<lambda>x. x\<lparr>rn_prefix := concatPrefix (rn_prefix (rc_heap c a)) (rn_prefix x),
                                               rn_parent := rn_parent (rc_heap c a)\<rparr>) c in
              case rn_parent (rc_heap c1 a) of None \<Rightarrow> Some (Inl NilDeref)
              | Some p \<Rightarrow> Some (bindr (onHeap (replaceChild p a onlyChild) c1) (\<lambda>c2.
                  Inr (freeNode a (setNode a (\<lambda>x. x\<lparr>rn_child := None\<rparr>) c2)))))
           else Some (Inr c)))"

definition radixCache_compressPathUpwards :: "addr option \<Rightarrow> 'v radixCache \<Rightarrow> 'v radixCache res" where
  "radixCache_compressPathUpwards cur c = of_loop (compressLoop cur c)"

subsection \<open>Removing entries\<close>

definition radixCache_eraseInternalWithKey ::
  "addr \<Rightarrow> string \<Rightarrow> EvictionReason \<Rightarrow> ('v :: zero) radixState \<Rightarrow> ('v radixState \<times> 'v \<times> bool) res" where
  \<comment> \<open>no caller passes \<open>nil\<close>\<close>
  "radixCache_eraseInternalWithKey node key reason st = (let (c, q) = st in
     if \<not> rn_hasValue (rc_heap c node) then Inr (st, 0, False)
     else let
       deletedEntry = rn_value (rc_heap c node);
       evictedSize = rn_size (rc_heap c node);
       c1 = onRps (onEntryDeleted evictedSize) c;
       c2 = c1\<lparr>rc_currentSize := rc_currentSize c1 - evictedSize\<rparr>;
       c3 = setNode node (\<lambda>x. x\<lparr>rn_size := 0\<rparr>) c2;
       c4 = onList (unlinkNode node) c3;
       c5 = setNode node (\<lambda>x. x\<lparr>rn_value := 0, rn_hasValue := False\<rparr>) c4 in
       bindr (radixCache_compressPathUpwards (Some node) c5) (\<lambda>c6.
       Inr (radixCache_notifyEvict key deletedEntry evictedSize reason (c6, q), deletedEntry, True)))"

definition radixCache_eraseInternal ::
  "addr \<Rightarrow> EvictionReason \<Rightarrow> ('v :: zero) radixState \<Rightarrow> ('v radixState \<times> 'v \<times> bool) res" where
  "radixCache_eraseInternal node reason st = (let (c, q) = st in
     if \<not> rn_hasValue (rc_heap c node) then Inr (st, 0, False)
     else bindr (if rc_onEvictEntry c \<noteq> None then radixCache_reconstructKey c (Some node) else Inr '''') (\<lambda>key.
       radixCache_eraseInternalWithKey node key reason st))"

definition radixCache_clearEmptyTreeStateLocked :: "'v radixCache \<Rightarrow> 'v radixCache" where
  "radixCache_clearEmptyTreeStateLocked c = onRps resetWatermarks c"

definition radixCache_resetEmptyTreeLocked :: "'v radixCache \<Rightarrow> 'v radixCache" where
  "radixCache_resetEmptyTreeLocked c = onRps markReclaimedLocked (radixCache_clearEmptyTreeStateLocked c)"

definition radixCache_evictOne :: "('v :: zero) radixState \<Rightarrow> ('v radixState \<times> 'v \<times> bool) res" where
  "radixCache_evictOne st = (case r_tail (rc_ends (fst st)) of
     None \<Rightarrow> Inr (st, 0, False)
   | Some node \<Rightarrow> radixCache_eraseInternal node EvictionReasonCapacity st)"

partial_function (option) sweepUnwindLoop :: "addr \<Rightarrow> addr \<Rightarrow> 'v radixHeap \<Rightarrow> ('v radixHeap \<times> addr) res option" where
  "sweepUnwindLoop node cur h = (if cur \<noteq> node \<and> rn_sibling (h cur) = None
     then (case rn_parent (h cur) of
         None \<Rightarrow> Some (Inl NilDeref)  \<comment> \<open>\<open>curr\<close> becomes \<open>nil\<close> and its sibling is read\<close>
       | Some p \<Rightarrow> sweepUnwindLoop node p (h(cur := (h cur)\<lparr>rn_prefix := '''', rn_parent := None, rn_child := None\<rparr>)))
     else Some (Inr (h, cur)))"

definition sweepVisit :: "addr \<Rightarrow> ('v :: zero) radixState \<Rightarrow> 'v radixState res" where
  \<comment> \<open>the work of \<open>sweepAndUnlink\<close> on one node\<close>
  "sweepVisit cur st = (let (c, q) = st in
     if rn_hasValue (rc_heap c cur) then
       bindr (if rc_onEvictEntry c \<noteq> None then radixCache_reconstructKey c (Some cur) else Inr '''') (\<lambda>key.
       let evictedVal = rn_value (rc_heap c cur);
           evictedSize = rn_size (rc_heap c cur);
           c1 = onRps (onEntryDeleted evictedSize) c;
           c2 = c1\<lparr>rc_currentSize := rc_currentSize c1 - evictedSize\<rparr>;
           c3 = setNode cur (\<lambda>x. x\<lparr>rn_size := 0\<rparr>) c2;
           c4 = onList (unlinkNode cur) c3;
           c5 = setNode cur (\<lambda>x. x\<lparr>rn_value := 0, rn_hasValue := False\<rparr>) c4
       in Inr (radixCache_notifyEvict key evictedVal evictedSize EvictionReasonDeleted (c5, q)))
     else Inr st)"

partial_function (option) sweepLoop :: "addr \<Rightarrow> addr option \<Rightarrow> ('v :: zero) radixState \<Rightarrow> 'v radixState res option" where
  "sweepLoop node cur st = (case cur of None \<Rightarrow> Some (Inr st)
   | Some a \<Rightarrow> (case sweepVisit a st of Inl p \<Rightarrow> Some (Inl p)
     | Inr st1 \<Rightarrow> (case rn_child (rc_heap (fst st1) a) of
         Some ch \<Rightarrow> sweepLoop node (Some ch) st1
       | None \<Rightarrow> (case sweepUnwindLoop node a (rc_heap (fst st1)) of None \<Rightarrow> None
         | Some (Inl p) \<Rightarrow> Some (Inl p)
         | Some (Inr (h, b)) \<Rightarrow> (let
             nxt = rn_sibling (h b);
             h1 = h(b := (h b)\<lparr>rn_prefix := '''', rn_parent := None, rn_child := None, rn_sibling := None\<rparr>);
             st2 = ((fst st1)\<lparr>rc_heap := h1\<rparr>, snd st1)
             in if b = node then Some (Inr st2) else sweepLoop node nxt st2)))))"

definition radixCache_sweepAndUnlink :: "addr \<Rightarrow> ('v :: zero) radixState \<Rightarrow> 'v radixState res" where
  "radixCache_sweepAndUnlink node st = of_loop (sweepLoop node (Some node) st)"

subsection \<open>Compaction and shedding\<close>

definition radixCache_compactDataStructuresLocked :: "'v radixCache \<Rightarrow> 'v radixCache \<times> bool" where
  "radixCache_compactDataStructuresLocked c = (onRps (onCompacted (radixLen c)) c, False)"

definition radixCache_compactLocked :: "'v radixCache \<Rightarrow> 'v radixCache" where
  "radixCache_compactLocked c = (let (c', compacted) = radixCache_compactDataStructuresLocked c in
     if compacted
     then onRps markReclaimedLocked (onRps (\<lambda>p. p\<lparr>compactionsExplicit := compactionsExplicit p + 1\<rparr>) c')
     else c')"

definition radixCache_shouldAutoCompactLocked :: "'v radixCache \<Rightarrow> bool \<Rightarrow> bool" where
  "radixCache_shouldAutoCompactLocked c isBackground =
     shouldAutoCompactEntryCounts (rc_ps c) (0 < deletedSinceCompact (rc_ps c)) isBackground (radixLen c)"

definition radixCache_completeShedAndCompactLocked ::
  "int \<Rightarrow> float64 \<Rightarrow> bool \<Rightarrow> int \<Rightarrow> int \<Rightarrow> bool \<Rightarrow> 'v radixCache \<Rightarrow> 'v radixCache" where
  "radixCache_completeShedAndCompactLocked evictedCount retention unadjusted unprotectedZeroTarget targetLen isBackground c0 = (let
     c1 = (if 0 < evictedCount then onRps (recordPressureShed isBackground) c0 else c0)
     in if 0 < evictedCount \<and> radixLen c1 = 0 then
          radixCache_resetEmptyTreeLocked
            (if shouldAutoCompactEntryCounts (rc_ps c1) True isBackground 0 then onRps recordTier2Compaction c1 else c1)
        else let
          c2 = (if 0 < evictedCount
                then onRps (updateZeroWatermarkAfterShed retention (radixLen c1) unadjusted unprotectedZeroTarget targetLen) c1
                else c1);
          (c3, compacted) =
            (if radixCache_shouldAutoCompactLocked c2 isBackground
             then let (c', done) = radixCache_compactDataStructuresLocked c2
               in (if done then onRps recordTier2Compaction c' else c', done)
             else (c2, False))
          in if 0 < evictedCount \<or> compacted then onRps markReclaimedLocked c3 else c3)"

partial_function (option) radixShedLoop ::
  "u64 \<Rightarrow> bool \<Rightarrow> int \<Rightarrow> int \<Rightarrow> addr option \<Rightarrow> addr option \<Rightarrow> 'v list \<Rightarrow> ('v :: zero) radixState
   \<Rightarrow> ('v radixState \<times> 'v list) res option" where
  "radixShedLoop effectiveTarget needFullFlush targetZeroCount targetLen protectedNode victim evicted st =
    (case victim of None \<Rightarrow> Some (Inr (st, evicted))
     | Some v \<Rightarrow> (case shouldContinueShedding (rc_ps (fst st)) (rc_currentSize (fst st)) effectiveTarget needFullFlush
                      targetZeroCount (radixLen (fst st)) targetLen of (needByteShed, needZeroShed) \<Rightarrow>
         if \<not> needByteShed \<and> \<not> needZeroShed then Some (Inr (st, evicted))
         else let nextVictim = rn_prev (rc_heap (fst st) v) in
           if shouldEvictShedVictim (rc_ps (fst st)) (protectedNode = Some v) (rn_size (rc_heap (fst st) v))
                needFullFlush needByteShed targetZeroCount
           then (case radixCache_eraseInternal v EvictionReasonPressure st of
                   Inl p \<Rightarrow> Some (Inl p)
                 | Inr (st', val, ok) \<Rightarrow>
                     radixShedLoop effectiveTarget needFullFlush targetZeroCount targetLen protectedNode nextVictim
                       (if ok then evicted @ [val] else evicted) st')
           else radixShedLoop effectiveTarget needFullFlush targetZeroCount targetLen protectedNode nextVictim evicted st))"

definition radixCache_shedAndCompactLocked ::
  "u64 \<Rightarrow> float64 \<Rightarrow> addr option \<Rightarrow> bool \<Rightarrow> ('v :: zero) radixState \<Rightarrow> ('v radixState \<times> 'v list) res" where
  "radixCache_shedAndCompactLocked targetSize retention protectedNode0 isBackground st = (let
     c = fst st;
     protectedNode = (case protectedNode0 of None \<Rightarrow> None
       | Some n \<Rightarrow> if \<not> rn_hasValue (rc_heap c n) then None else Some n);
     hasProtected = (protectedNode \<noteq> None);
     protectedSize = (case protectedNode of Some e \<Rightarrow> rn_size (rc_heap c e) | None \<Rightarrow> 0);
     (effectiveTarget, targetLen, targetZeroCount, unprotectedZeroTarget) =
       computeShedTargets (rc_ps c) targetSize retention (radixLen c) hasProtected protectedSize;
     needFullFlush = feq retention (Fin 0) in
     bindr (of_loop (radixShedLoop effectiveTarget needFullFlush targetZeroCount targetLen protectedNode
              (r_tail (rc_ends c)) [] st)) (\<lambda>((c', q'), evicted).
     Inr ((radixCache_completeShedAndCompactLocked (int (length evicted)) retention
             (\<not> hasProtected \<or> effectiveTarget \<le> targetSize) unprotectedZeroTarget targetLen isBackground c', q'),
          evicted)))"

definition radixCache_maybeReclaimUnderPressureLocked ::
  "float64 \<Rightarrow> addr option \<Rightarrow> bool \<Rightarrow> ('v :: zero) radixState \<Rightarrow> ('v radixState \<times> 'v list) res" where
  "radixCache_maybeReclaimUnderPressureLocked pressure protectedNode isBackground st = (let (c, q) = st in
     if fge pressure (EvictionThreshold (options (rc_ps c))) then
       (if isSamplingGoroutine (rc_ps c) then Inr (st, [])
        else radixCache_shedAndCompactLocked (tier2TargetSize (rc_ps c) (rc_maxSize c))
               (EvictionRetentionRatio (options (rc_ps c))) protectedNode isBackground st)
     else let c1 = onRps (resetZeroWatermarkBelowTier2 pressure) c in
       if fge pressure (CompactionThreshold (options (rc_ps c1)))
          \<and> radixCache_shouldAutoCompactLocked c1 isBackground
          \<and> \<not> isSamplingGoroutine (rc_ps c1)
       then let (c2, compacted) = radixCache_compactDataStructuresLocked c1 in
         Inr ((if compacted
               then onRps markReclaimedLocked
                      (onRps (\<lambda>p. p\<lparr>compactionsPressureTier1 := compactionsPressureTier1 p + 1\<rparr>) c2)
               else c2, q), [])
       else Inr ((c1, q), []))"

definition radixCache_finishDeleteReclaimLocked ::
  "u64 \<Rightarrow> u64 \<Rightarrow> float64 \<Rightarrow> ('v :: zero) radixState \<Rightarrow> 'v radixState res" where
  "radixCache_finishDeleteReclaimLocked sizeBefore sampledEpoch pressure st = (let (c, q) = st in
     if radixLen c = 0 then
       let hadSlack = hasEmptyDeleteSlack (rc_ps c) False;
           c1 = (if hadSlack then onRps (recordCompactionByPressure pressure) c else c);
           c2 = radixCache_clearEmptyTreeStateLocked c1
       in Inr (onRps (maybeMarkReclaimed (hadSlack \<or> 0 < sizeBefore) sampledEpoch pressure) c2, q)
     else let
       reclaimedSingleSurvivor = shouldReclaimSingleSurvivorOnDelete (rc_ps c) (radixLen c) (0 < deletedSinceCompact (rc_ps c)) False;
       c1 = (if reclaimedSingleSurvivor
             then let (c', compacted) = radixCache_compactDataStructuresLocked c
               in if compacted then onRps (recordCompactionByPressure pressure) c' else c'
             else c) in
       bindr (if fge pressure (CompactionThreshold (options (rc_ps c1))) \<or> fge pressure (EvictionThreshold (options (rc_ps c1)))
              then radixCache_maybeReclaimUnderPressureLocked pressure None False (c1, q)
              else Inr ((onRps (resetZeroWatermarkBelowTier2 pressure) c1, q), [])) (\<lambda>((c2, q2), _).
       Inr (onRps (maybeMarkReclaimed (reclaimedSingleSurvivor \<or> rc_currentSize c2 < sizeBefore) sampledEpoch pressure) c2, q2)))"

definition radixCache_finishMutationReclaimLocked ::
  "'v list \<Rightarrow> addr option \<Rightarrow> bool \<Rightarrow> bool \<Rightarrow> u64 \<Rightarrow> u64 \<Rightarrow> float64 \<Rightarrow> ('v :: zero) radixState \<Rightarrow> ('v radixState \<times> 'v list) res" where
  "radixCache_finishMutationReclaimLocked evictedValues protectedNode reclaimedPre compactedPre sizeBefore sampledEpoch pressure st =
     bindr (radixCache_maybeReclaimUnderPressureLocked pressure protectedNode False st) (\<lambda>((c, q), evictedByPressure).
     let netByteReduced = (rc_currentSize c < sizeBefore);
         c1 = (if shouldCompactAfterMutation (rc_ps c) reclaimedPre netByteReduced (0 < deletedSinceCompact (rc_ps c)) pressure
               then let (c', compacted) = radixCache_compactDataStructuresLocked c
                 in if compacted \<and> \<not> compactedPre then onRps (recordCompactionByPressure pressure) c' else c'
               else c);
         c2 = (if shouldMarkReclaimedAfterMutation (rc_ps c1) reclaimedPre netByteReduced sampledEpoch pressure
               then onRps markReclaimedLocked c1 else c1)
     in Inr ((c2, q), appendEvicted evictedValues evictedByPressure))"

subsection \<open>Put\<close>

partial_function (option) radixUpdateEvictLoop ::
  "addr \<Rightarrow> u64 \<Rightarrow> bool \<Rightarrow> bool \<Rightarrow> 'v list \<Rightarrow> ('v :: zero) radixState \<Rightarrow> ('v radixState \<times> 'v list \<times> bool) res option" where
  "radixUpdateEvictLoop node valueSize hadZeroCap evictedPrePut evictedValues st =
    (if (rc_maxSize (fst st) - rc_currentSize (fst st) < valueSize \<or> (hadZeroCap \<and> \<not> evictedPrePut))
        \<and> r_tail (rc_ends (fst st)) \<noteq> None \<and> r_tail (rc_ends (fst st)) \<noteq> Some node
     then (case radixCache_evictOne st of
         Inl p \<Rightarrow> Some (Inl p)
       | Inr (st', evicted, ok) \<Rightarrow>
           radixUpdateEvictLoop node valueSize hadZeroCap (ok \<or> evictedPrePut)
             (if ok then evictedValues @ [evicted] else evictedValues) st')
     else Some (Inr (st, evictedValues, evictedPrePut)))"

definition radixCache_updateExistingOnPutLocked ::
  "addr \<Rightarrow> string \<Rightarrow> 'v \<Rightarrow> u64 \<Rightarrow> u64 \<Rightarrow> float64 \<Rightarrow> ('v :: zero) radixState \<Rightarrow> ('v radixState \<times> 'v list \<times> bool) res" where
  "radixCache_updateExistingOnPutLocked node key value valueSize sizeBefore pressure st = (let (c, q) = st;
     oldValue = rn_value (rc_heap c node);
     oldSize = rn_size (rc_heap c node);
     hadZeroCap = shouldEvictOnZeroWeightShrink (rc_ps c) oldSize valueSize (rc_maxSize c);
     c1 = onList (moveToFront node) (onRps (onEntrySizeUpdated oldSize valueSize) c);
     c2 = c1\<lparr>rc_currentSize := rc_currentSize c1 - oldSize\<rparr> in
     bindr (of_loop (radixUpdateEvictLoop node valueSize hadZeroCap False [] (c2, q)))
       (\<lambda>((c3, q3), evictedValues, evictedPrePut).
     let c4 = (setNode node (\<lambda>x. x\<lparr>rn_value := value, rn_hasValue := True, rn_size := valueSize\<rparr>) c3)
                \<lparr>rc_currentSize := rc_currentSize c3 + valueSize\<rparr>;
         c5 = onRps (\<lambda>p. p\<lparr>putUpdated := putUpdated p + 1\<rparr>) c4;
         (c6, q6) = radixCache_notifyReplaced key oldValue oldSize (c5, q3)
     in Inr ((c6, q6), evictedValues,
             shouldReclaimSingleSurvivorOnMutation (rc_ps c6) (radixLen c6) (0 < deletedSinceCompact (rc_ps c6)) False
               evictedPrePut (rc_currentSize c6) sizeBefore pressure)))"

partial_function (option) radixInsertEvictLoop ::
  "u64 \<Rightarrow> bool \<Rightarrow> 'v list \<Rightarrow> ('v :: zero) radixState \<Rightarrow> ('v radixState \<times> 'v list \<times> bool) res option" where
  "radixInsertEvictLoop valueSize evictedPrePut evictedValues st =
    (if shouldEvictPreInsertOnPut (rc_ps (fst st)) valueSize (rc_maxSize (fst st)) (rc_currentSize (fst st))
          (radixLen (fst st)) evictedPrePut \<and> r_tail (rc_ends (fst st)) \<noteq> None
     then (case radixCache_evictOne st of
         Inl p \<Rightarrow> Some (Inl p)
       | Inr (st', evicted, ok) \<Rightarrow>
           radixInsertEvictLoop valueSize (ok \<or> evictedPrePut) (if ok then evictedValues @ [evicted] else evictedValues) st')
     else Some (Inr (st, evictedValues, evictedPrePut)))"

definition radixCache_insertOnPutLocked ::
  "string \<Rightarrow> 'v \<Rightarrow> u64 \<Rightarrow> u64 \<Rightarrow> float64 \<Rightarrow> ('v :: zero) radixState
   \<Rightarrow> ('v radixState \<times> addr \<times> 'v list \<times> bool \<times> bool) res" where
  \<comment> \<open>the else branch of \<open>Put\<close>: \<open>(node, evictedValues, reclaimedPrePut, compactedPrePut)\<close>\<close>
  "radixCache_insertOnPutLocked key value valueSize sizeBefore pressure st0 =
     bindr (of_loop (radixInsertEvictLoop valueSize False [] ((fst st0)\<lparr>rc_recyclingForPut := True\<rparr>, snd st0)))
       (\<lambda>((c0, q), evictedValues, evictedPrePut).
     let c = c0\<lparr>rc_recyclingForPut := False\<rparr>;
         reclaimEmpty = shouldReclaimEmptyPrePut (rc_ps c) (radixLen c) False evictedPrePut valueSize sizeBefore pressure;
         c1 = (if reclaimEmpty
               then radixCache_clearEmptyTreeStateLocked (onRps (recordCompactionByPressure pressure) c) else c);
         reclaimedPrePut = (reclaimEmpty \<or> shouldReclaimSingleSurvivorOnMutation (rc_ps c) (radixLen c)
           (0 < deletedSinceCompact (rc_ps c)) False evictedPrePut (rc_currentSize c + valueSize) sizeBefore pressure) in
     bindr (radixCache_insertNode key value c1) (\<lambda>(c2, node).
     let c3 = c2\<lparr>rc_recycleNodes := []\<rparr>;  \<comment> \<open>\<open>clearRecycleNodes\<close>\<close>
         c4 = setNode node (\<lambda>x. x\<lparr>rn_size := valueSize\<rparr>) c3;
         c5 = onList (pushFront node) c4;
         c6 = onRps (\<lambda>p. p\<lparr>putInserted := putInserted p + 1\<rparr>) c5;
         c7 = onRps (onEntryPut (radixLen c6) valueSize) c6;
         c8 = c7\<lparr>rc_currentSize := rc_currentSize c7 + valueSize\<rparr>
     in Inr ((c8, q), node, evictedValues, reclaimedPrePut, reclaimEmpty)))"

definition lockRadixCache :: "samplingEnv \<Rightarrow> bool \<Rightarrow> 'v radixCache \<Rightarrow> 'v radixCache \<times> u64 \<times> float64" where
  "lockRadixCache env fresh c = (let (p, sampledEpoch, pressure) = lockWithPressure env fresh (rc_ps c)
     in (c\<lparr>rc_ps := p\<rparr>, sampledEpoch, pressure))"

definition radixCallbacks :: "('v :: zero) radixCache \<Rightarrow> 'v evictCallbackQueue \<Rightarrow> 'v callback list" where
  "radixCallbacks c q = evictQueue_invoke (rc_onEvictValue c) (rc_onEvictEntry c) q"

definition radixCache_Put ::
  "samplingEnv \<Rightarrow> string \<Rightarrow> 'v \<Rightarrow> ('v :: zero) radixCache
   \<Rightarrow> ('v radixCache \<times> 'v list \<times> lruError option \<times> 'v callback list) res" where
  "radixCache_Put env key value c0 = (let valueSize = radixCache_weigh c0 key value in
     if rc_maxSize c0 < valueSize
     then Inr (onRps (\<lambda>p. p\<lparr>putRejectedOversized := putRejectedOversized p + 1\<rparr>) c0, [], Some ErrInvalidEntrySize, [])
     else let
       (c, sampledEpoch, pressure) = lockRadixCache env False c0;
       evictQ = newEvictQueue False;
       sizeBefore = rc_currentSize c in
       bindr (radixCache_getNode c key) (\<lambda>found.
       bindr (case found of
           Some e \<Rightarrow>
             bindr (radixCache_updateExistingOnPutLocked e key value valueSize sizeBefore pressure (c, evictQ))
               (\<lambda>(st, evictedValues, reclaimedPrePut). Inr (st, e, evictedValues, reclaimedPrePut, False))
         | None \<Rightarrow> radixCache_insertOnPutLocked key value valueSize sizeBefore pressure (c, evictQ))
         (\<lambda>((c1, q1), e, evictedValues, reclaimedPrePut, compactedPrePut).
       bindr (if needsMutationReclaim (rc_ps c1) reclaimedPrePut (rc_currentSize c1) sizeBefore pressure
              then radixCache_finishMutationReclaimLocked evictedValues (Some e) reclaimedPrePut compactedPrePut
                     sizeBefore sampledEpoch pressure (c1, q1)
              else Inr ((c1, q1), evictedValues)) (\<lambda>((c2, q2), evictedValues2).
       bindr (radixCache_unlock c2) (\<lambda>_.
       Inr (c2, evictedValues2, None, radixCallbacks c2 q2))))))"

subsection \<open>Delete, Get and Peek\<close>

definition radixCache_Delete ::
  "samplingEnv \<Rightarrow> string \<Rightarrow> ('v :: zero) radixCache \<Rightarrow> ('v radixCache \<times> 'v \<times> bool \<times> 'v callback list) res" where
  "radixCache_Delete env key c0 = (let
     (c, sampledEpoch, pressure) = lockRadixCache env False c0;
     evictQ = newEvictQueue True;
     missed = (\<lambda>c. let c2 = onRps (\<lambda>p. p\<lparr>deleteNotFound := deleteNotFound p + 1\<rparr>) c
       in bindr (radixCache_unlock c2) (\<lambda>_. Inr (c2, 0, False, []))) in
     bindr (radixCache_getNode c key) (\<lambda>found. case found of
       None \<Rightarrow> missed c
     | Some node \<Rightarrow> (let sizeBefore = rc_currentSize c in
         bindr (radixCache_eraseInternalWithKey node key EvictionReasonDeleted (c, evictQ)) (\<lambda>((c1, q1), deleted, erased).
         if \<not> erased then missed c1
         else let c2 = onRps (\<lambda>p. p\<lparr>deleteDeleted := deleteDeleted p + 1\<rparr>) c1 in
           bindr (radixCache_finishDeleteReclaimLocked sizeBefore sampledEpoch pressure (c2, q1)) (\<lambda>(c3, q3).
           bindr (radixCache_unlock c3) (\<lambda>_. Inr (c3, deleted, True, radixCallbacks c3 q3)))))))"

definition radixCache_Get :: "string \<Rightarrow> ('v :: zero) radixCache \<Rightarrow> ('v radixCache \<times> 'v \<times> bool) res" where
  "radixCache_Get key c = bindr (radixCache_getNode c key) (\<lambda>found. case found of
     Some node \<Rightarrow> (let c1 = onList (moveToFront node) (onRps (\<lambda>p. p\<lparr>getHits := getHits p + 1\<rparr>) c)
       in bindr (radixCache_unlock c1) (\<lambda>_. Inr (c1, rn_value (rc_heap c1 node), True)))
   | None \<Rightarrow> (let c1 = onRps (\<lambda>p. p\<lparr>getMisses := getMisses p + 1\<rparr>) c
       in bindr (radixCache_unlock c1) (\<lambda>_. Inr (c1, 0, False))))"

definition radixCache_Peek :: "string \<Rightarrow> ('v :: zero) radixCache \<Rightarrow> ('v radixCache \<times> 'v \<times> bool) res" where
  "radixCache_Peek key c = bindr (radixCache_getNode c key) (\<lambda>found. case found of
     Some node \<Rightarrow> (let c1 = onRps (\<lambda>p. p\<lparr>peekHits := peekHits p + 1\<rparr>) c
       in bindr (radixCache_unlock c1) (\<lambda>_. Inr (c1, rn_value (rc_heap c1 node), True)))
   | None \<Rightarrow> (let c1 = onRps (\<lambda>p. p\<lparr>peekMisses := peekMisses p + 1\<rparr>) c
       in bindr (radixCache_unlock c1) (\<lambda>_. Inr (c1, 0, False))))"

subsection \<open>Replace\<close>

partial_function (option) radixCanFitLoop ::
  "'v radixHeap \<Rightarrow> addr \<Rightarrow> u64 \<Rightarrow> u64 \<Rightarrow> u64 \<Rightarrow> u64 \<Rightarrow> addr option \<Rightarrow> addr option \<Rightarrow> bool res option" where
  "radixCanFitLoop h e maxNewer sizeDelta newerSize avail headCurr tailCurr =
    (if headCurr = Some e then Some (Inr True)
     else case headCurr of None \<Rightarrow> Some (Inl NilDeref)
     | Some hc \<Rightarrow> let newerSize' = newerSize + rn_size (h hc) in
         if maxNewer < newerSize' then Some (Inr False)
         else if tailCurr = Some e then Some (Inr False)
         else case tailCurr of None \<Rightarrow> Some (Inl NilDeref)
         | Some tc \<Rightarrow> let avail' = avail + rn_size (h tc) in
             if sizeDelta \<le> avail' then Some (Inr True)
             else radixCanFitLoop h e maxNewer sizeDelta newerSize' avail' (rn_next (h hc)) (rn_prev (h tc)))"

definition radixCache_canFitGrowthLocked :: "'v radixCache \<Rightarrow> addr \<Rightarrow> u64 \<Rightarrow> u64 \<Rightarrow> u64 \<Rightarrow> bool res" where
  "radixCache_canFitGrowthLocked c e maxNewer sizeDelta avail =
    (if sizeDelta \<le> avail then Inr True
     else of_loop (radixCanFitLoop (rc_heap c) e maxNewer sizeDelta 0 avail (r_head (rc_ends c)) (r_tail (rc_ends c))))"

partial_function (option) radixGrowEvictLoop ::
  "addr \<Rightarrow> u64 \<Rightarrow> bool \<Rightarrow> ('v :: zero) radixState \<Rightarrow> ('v radixState \<times> bool) res option" where
  "radixGrowEvictLoop e sizeDelta evictedAny st =
    (if rc_maxSize (fst st) - rc_currentSize (fst st) < sizeDelta
        \<and> r_tail (rc_ends (fst st)) \<noteq> None \<and> r_tail (rc_ends (fst st)) \<noteq> Some e
     then (case radixCache_evictOne st of Inl p \<Rightarrow> Some (Inl p)
       | Inr (st', _, _) \<Rightarrow> radixGrowEvictLoop e sizeDelta True st')
     else Some (Inr (st, evictedAny)))"

definition radixCache_replaceResizeOrEvictLocked ::
  "addr \<Rightarrow> string \<Rightarrow> u64 \<Rightarrow> u64 \<Rightarrow> u64 \<Rightarrow> u64 \<Rightarrow> float64 \<Rightarrow> ('v :: zero) radixState \<Rightarrow> ('v radixState \<times> bool \<times> bool) res" where
  \<comment> \<open>\<open>(evictedAny, selfEvicted)\<close>\<close>
  "radixCache_replaceResizeOrEvictLocked e key oldSize newSize sizeBefore sampledEpoch pressure st = (let (c, q) = st in
     if oldSize < newSize then
       let sizeDelta = newSize - oldSize in
       bindr (if rc_maxSize c < newSize then Inr False
              else radixCache_canFitGrowthLocked c e (rc_maxSize c - newSize) sizeDelta (rc_maxSize c - rc_currentSize c))
         (\<lambda>fits.
       if \<not> fits then
         let c1 = onRps (\<lambda>p. p\<lparr>replaceSelfEvicted := replaceSelfEvicted p + 1\<rparr>) c in
         bindr (radixCache_eraseInternalWithKey e key EvictionReasonCapacity (c1, q)) (\<lambda>(st2, _, _).
         bindr (radixCache_finishDeleteReclaimLocked sizeBefore sampledEpoch pressure st2) (\<lambda>st3.
         Inr (st3, False, True)))
       else
         bindr (of_loop (radixGrowEvictLoop e sizeDelta False st)) (\<lambda>((c1, q1), evictedAny).
         let c2 = onRps (onEntrySizeUpdated oldSize newSize) c1
         in Inr ((c2\<lparr>rc_currentSize := rc_currentSize c2 + sizeDelta\<rparr>, q1), evictedAny, False)))
     else let
       shrink = (shouldEvictOnZeroWeightShrink (rc_ps c) oldSize newSize (rc_maxSize c)
                 \<and> r_tail (rc_ends c) \<noteq> None \<and> r_tail (rc_ends c) \<noteq> Some e) in
       bindr (if shrink then bindr (radixCache_evictOne st) (\<lambda>(st', _, _). Inr st') else Inr st) (\<lambda>(c1, q1).
       let c2 = onRps (onEntrySizeUpdated oldSize newSize) c1
       in Inr ((c2\<lparr>rc_currentSize := rc_currentSize c2 - (oldSize - newSize)\<rparr>, q1), shrink, False)))"

definition radixCache_Replace ::
  "samplingEnv \<Rightarrow> string \<Rightarrow> 'v \<Rightarrow> ('v :: zero) radixCache
   \<Rightarrow> ('v radixCache \<times> lruError option \<times> 'v callback list) res" where
  "radixCache_Replace env key value c0 = (let
     newSize = radixCache_weigh c0 key value;
     (c, sampledEpoch, pressure) = lockRadixCache env False c0;
     evictQ = newEvictQueue False in
     bindr (radixCache_getNode c key) (\<lambda>found. case found of
       None \<Rightarrow> (let c1 = onRps (\<lambda>p. p\<lparr>replaceNotFound := replaceNotFound p + 1\<rparr>) c
                in bindr (radixCache_unlock c1) (\<lambda>_. Inr (c1, Some ErrEntryNotExist, [])))
     | Some e \<Rightarrow> (let
         oldSize = rn_size (rc_heap c e);
         oldValue = rn_value (rc_heap c e);
         sizeBefore = rc_currentSize c in
         bindr (if newSize \<noteq> oldSize
                then radixCache_replaceResizeOrEvictLocked e key oldSize newSize sizeBefore sampledEpoch pressure (c, evictQ)
                else Inr ((c, evictQ), False, False)) (\<lambda>((c1, q1), evictedAny, selfEvicted).
         if selfEvicted then bindr (radixCache_unlock c1) (\<lambda>_. Inr (c1, None, radixCallbacks c1 q1))
         else let
           c2 = setNode e (\<lambda>x. x\<lparr>rn_value := value, rn_hasValue := True, rn_size := newSize\<rparr>) c1;
           c3 = onRps (\<lambda>p. p\<lparr>replaceUpdated := replaceUpdated p + 1\<rparr>) c2;
           (c4, q4) = radixCache_notifyReplaced key oldValue oldSize (c3, q1);
           reclaimedPreUpdate = shouldReclaimSingleSurvivorOnMutation (rc_ps c4) (radixLen c4)
             (0 < deletedSinceCompact (rc_ps c4)) False evictedAny (rc_currentSize c4) sizeBefore pressure in
           bindr (if needsMutationReclaim (rc_ps c4) reclaimedPreUpdate (rc_currentSize c4) sizeBefore pressure
                  then bindr (radixCache_finishMutationReclaimLocked [] (Some e) reclaimedPreUpdate False sizeBefore
                                sampledEpoch pressure (c4, q4)) (\<lambda>(st, _). Inr st)
                  else Inr (c4, q4)) (\<lambda>(c5, q5).
           bindr (radixCache_unlock c5) (\<lambda>_. Inr (c5, None, radixCallbacks c5 q5)))))))"

subsection \<open>DeletePrefix\<close>

partial_function (option) clearQuietLoop :: "addr option \<Rightarrow> ('v :: zero) radixCache \<Rightarrow> 'v radixCache option" where
  \<comment> \<open>the loop of \<open>evictAllForClearLocked\<close> without callbacks\<close>
  "clearQuietLoop cur c = (case cur of None \<Rightarrow> Some c
   | Some a \<Rightarrow> let nxt = rn_next (rc_heap c a);
       c1 = onRps (onEntryDeleted (rn_size (rc_heap c a))) c
     in clearQuietLoop nxt
       (setNode a (\<lambda>x. x\<lparr>rn_size := 0, rn_value := 0, rn_hasValue := False, rn_prev := None, rn_next := None\<rparr>) c1))"

partial_function (option) clearNotifyLoop :: "addr option \<Rightarrow> ('v :: zero) radixState \<Rightarrow> 'v radixState res option" where
  "clearNotifyLoop cur st = (case cur of None \<Rightarrow> Some (Inr st)
   | Some a \<Rightarrow> let c = fst st; nxt = rn_next (rc_heap c a) in
       (case (if rc_onEvictEntry c \<noteq> None then radixCache_reconstructKey c (Some a) else Inr '''') of
         Inl p \<Rightarrow> Some (Inl p)
       | Inr key \<Rightarrow> let
           evictedVal = rn_value (rc_heap c a);
           evictedSize = rn_size (rc_heap c a);
           c1 = onRps (onEntryDeleted evictedSize) c;
           c2 = c1\<lparr>rc_currentSize := rc_currentSize c1 - evictedSize\<rparr>;
           c3 = onList (unlinkNode a) c2;
           c4 = setNode a (\<lambda>x. x\<lparr>rn_value := 0, rn_hasValue := False, rn_size := 0\<rparr>) c3
         in clearNotifyLoop nxt (radixCache_notifyEvict key evictedVal evictedSize EvictionReasonDeleted (c4, snd st))))"

definition radixCache_evictAllForClearLocked :: "('v :: zero) radixState \<Rightarrow> 'v radixState res" where
  "radixCache_evictAllForClearLocked st = (let (c, q) = st in
     if radixLen c = 0 then Inr st
     else if \<not> radixHasCB c then
       let c1 = onRps (\<lambda>p. p\<lparr>evictionsDeleted := evictionsDeleted p + word_of_int (radixLen c),
                             evictedWeightDeleted := evictedWeightDeleted p + rc_currentSize c\<rparr>) c
       in bindr (of_loop (map_option Inr (clearQuietLoop (r_head (rc_ends c1)) c1))) (\<lambda>c2. Inr (c2, q))
     else of_loop (clearNotifyLoop (r_head (rc_ends c)) st))"

definition radixCache_isCleanEmptyLocked :: "'v radixCache \<Rightarrow> bool" where
  "radixCache_isCleanEmptyLocked c = (let
     hadEntries = (0 < radixLen c \<or> rn_hasValue (rc_heap c (rc_root c)) \<or> rn_child (rc_heap c (rc_root c)) \<noteq> None);
     hadDirtySlack = (0 < deletedSinceCompact (rc_ps c) \<or> minPeakSlackEntries < peakEntryLen (rc_ps c))
     in \<not> hadEntries \<and> \<not> hadDirtySlack \<and> peakEntryLen (rc_ps c) = 0)"

definition radixCache_deleteAllPrefixLocked ::
  "u64 \<Rightarrow> float64 \<Rightarrow> ('v :: zero) radixState \<Rightarrow> 'v radixState res" where
  "radixCache_deleteAllPrefixLocked sampledEpoch pressure st = (let (c0, q) = st;
     c = onRps (\<lambda>p. p\<lparr>deletePrefixExecuted := deletePrefixExecuted p + 1\<rparr>) c0 in
     if radixCache_isCleanEmptyLocked c then Inr (c, q)
     else let
       hadDirtySlack = (0 < deletedSinceCompact (rc_ps c) \<or> minPeakSlackEntries < peakEntryLen (rc_ps c));
       hadReclaimable = (0 < rc_currentSize c \<or> hadDirtySlack) in
       bindr (radixCache_evictAllForClearLocked (c, q)) (\<lambda>st1.
       bindr (radixCache_sweepAndUnlink (rc_root (fst st1)) st1) (\<lambda>(c2, q2).
       let c3 = c2\<lparr>rc_ends := \<lparr>r_head = None, r_tail = None, r_len = 0\<rparr>, rc_currentSize := 0\<rparr>;
           hadCompactionSlack = hasEmptyDeleteSlack (rc_ps c3) False
       in Inr (onRps (finishClearAllLocked hadCompactionSlack hadReclaimable sampledEpoch pressure)
                 (radixCache_clearEmptyTreeStateLocked c3), q2))))"

partial_function (option) deletePrefixLoop ::
  "u64 \<Rightarrow> float64 \<Rightarrow> addr \<Rightarrow> string \<Rightarrow> ('v :: zero) radixState \<Rightarrow> 'v radixState res option" where
  "deletePrefixLoop sampledEpoch pressure node search st = (case search of [] \<Rightarrow> Some (Inr st)
   | b # _ \<Rightarrow> (case getChild (rc_heap (fst st)) node b of Inl p \<Rightarrow> Some (Inl p)
     | Inr None \<Rightarrow> Some (Inr st)
     | Inr (Some child) \<Rightarrow> (let lcp = longestCommonPrefix search (rn_prefix (rc_heap (fst st) child)) in
         if lcp = length search then
           Some (let sizeBefore = rc_currentSize (fst st) in
             bindr (onHeap (removeChild node child) (fst st)) (\<lambda>c1.
             let c2 = setNode child (\<lambda>x. x\<lparr>rn_parent := Some node\<rparr>) c1 in
             bindr (radixCache_sweepAndUnlink child (c2, snd st)) (\<lambda>(c3, q3).
             bindr (radixCache_compressPathUpwards (Some node) c3) (\<lambda>c4.
             radixCache_finishDeleteReclaimLocked sizeBefore sampledEpoch pressure (c4, q3)))))
         else if lcp = length (rn_prefix (rc_heap (fst st) child))
         then deletePrefixLoop sampledEpoch pressure child (drop (length (rn_prefix (rc_heap (fst st) child))) search) st
         else Some (Inr st))))"

definition radixCache_deleteNonEmptyPrefixLocked ::
  "string \<Rightarrow> u64 \<Rightarrow> float64 \<Rightarrow> ('v :: zero) radixState \<Rightarrow> 'v radixState res" where
  "radixCache_deleteNonEmptyPrefixLocked pre sampledEpoch pressure st = (let (c0, q) = st;
     c = onRps (\<lambda>p. p\<lparr>deletePrefixExecuted := deletePrefixExecuted p + 1\<rparr>) c0
     in of_loop (deletePrefixLoop sampledEpoch pressure (rc_root c) pre (c, q)))"

definition radixCache_deletePrefixShard ::
  "samplingEnv \<Rightarrow> string \<Rightarrow> shardSample \<Rightarrow> ('v :: zero) radixState \<Rightarrow> ('v radixState \<times> shardSample \<times> bool) res" where
  "radixCache_deletePrefixShard env pre sample st = (let (c, q) = st in
     if pre = '''' then
       (if radixCache_isCleanEmptyLocked c then
          let c1 = onRps (\<lambda>p. p\<lparr>deletePrefixExecuted := deletePrefixExecuted p + 1\<rparr>) c
          in bindr (radixCache_unlock c1) (\<lambda>_. Inr ((c1, q), sample, h_hasSample sample))
        else case (if h_hasSample sample then tryApplyShardSampleLocked False sample (rc_ps c) else None) of
          Some (p1, sample1) \<Rightarrow> (let preEpoch = ownReclaimEpoch p1 in
            bindr (radixCache_deleteAllPrefixLocked preEpoch (h_pressure sample1) (c\<lparr>rc_ps := p1\<rparr>, q)) (\<lambda>(c2, q2).
            bindr (radixCache_unlock c2) (\<lambda>_.
            Inr ((c2, q2), advanceSelfReclaim (ownReclaimEpoch (rc_ps c2)) preEpoch sample1, True))))
        | None \<Rightarrow> (let (p1, sampledEpoch, out) = lockShardWithSample env False sample (rc_ps c) in
            bindr (radixCache_deleteAllPrefixLocked sampledEpoch (h_pressure out) (c\<lparr>rc_ps := p1\<rparr>, q)) (\<lambda>(c2, q2).
            bindr (radixCache_unlock c2) (\<lambda>_.
            Inr ((c2, q2), advanceSelfReclaim (ownReclaimEpoch (rc_ps c2)) sampledEpoch out, True)))))
     else let (p1, sampledEpoch, out) = lockShardWithSample env False sample (rc_ps c) in
       bindr (radixCache_deleteNonEmptyPrefixLocked pre sampledEpoch (h_pressure out) (c\<lparr>rc_ps := p1\<rparr>, q)) (\<lambda>(c2, q2).
       bindr (radixCache_unlock c2) (\<lambda>_.
       Inr ((c2, q2), advanceSelfReclaim (ownReclaimEpoch (rc_ps c2)) sampledEpoch out, True))))"

definition radixCache_DeletePrefix ::
  "samplingEnv \<Rightarrow> string \<Rightarrow> ('v :: zero) radixCache \<Rightarrow> ('v radixCache \<times> 'v callback list) res" where
  "radixCache_DeletePrefix env pre c0 =
     bindr (radixCache_deletePrefixShard env pre emptyShardSample (c0, newEvictQueue True)) (\<lambda>((c, q), _, _).
     Inr (c, radixCallbacks c q))"

subsection \<open>Iteration, statistics and explicit reclamation\<close>

partial_function (option) radixIterateLoop ::
  "'v radixCache \<Rightarrow> ((string \<times> 'v) list \<Rightarrow> bool) \<Rightarrow> addr option \<Rightarrow> (string \<times> 'v) list
   \<Rightarrow> ((string \<times> 'v) list \<times> bool) res option" where
  "radixIterateLoop c yield e yielded = (case e of None \<Rightarrow> Some (Inr (yielded, True))
   | Some a \<Rightarrow> (case radixCache_reconstructKey c (Some a) of Inl p \<Rightarrow> Some (Inl p)
     | Inr key \<Rightarrow> let yielded' = yielded @ [(key, rn_value (rc_heap c a))] in
         if \<not> yield yielded' then Some (Inr (yielded', False))
         else radixIterateLoop c yield (rn_next (rc_heap c a)) yielded'))"

definition radixCache_iterateAll ::
  "((string \<times> 'v) list \<Rightarrow> bool) \<Rightarrow> ('v :: zero) radixCache \<Rightarrow> ((string \<times> 'v) list \<times> bool) res" where
  "radixCache_iterateAll yield c =
     bindr (of_loop (radixIterateLoop c yield (r_head (rc_ends c)) [])) (\<lambda>r.
     bindr (radixCache_unlock c) (\<lambda>_. Inr r))"

definition radixCache_iterateKeys :: "(string list \<Rightarrow> bool) \<Rightarrow> ('v :: zero) radixCache \<Rightarrow> (string list \<times> bool) res" where
  "radixCache_iterateKeys yield c =
     bindr (radixCache_iterateAll (\<lambda>kvs. yield (map fst kvs)) c) (\<lambda>(kvs, b). Inr (map fst kvs, b))"

partial_function (option) radixValuesLoop ::
  "'v radixHeap \<Rightarrow> ('v list \<Rightarrow> bool) \<Rightarrow> addr option \<Rightarrow> 'v list \<Rightarrow> ('v list \<times> bool) option" where
  \<comment> \<open>no key is reconstructed\<close>
  "radixValuesLoop h yield e yielded = (case e of None \<Rightarrow> Some (yielded, True)
   | Some a \<Rightarrow> let yielded' = yielded @ [rn_value (h a)] in
       if \<not> yield yielded' then Some (yielded', False)
       else radixValuesLoop h yield (rn_next (h a)) yielded')"

definition radixCache_iterateValues :: "('v list \<Rightarrow> bool) \<Rightarrow> ('v :: zero) radixCache \<Rightarrow> ('v list \<times> bool) res" where
  "radixCache_iterateValues yield c =
     bindr (of_loop (map_option Inr (radixValuesLoop (rc_heap c) yield (r_head (rc_ends c)) []))) (\<lambda>r.
     bindr (radixCache_unlock c) (\<lambda>_. Inr r))"

definition radixCache_Stats :: "('v :: zero) radixCache \<Rightarrow> Stats res" where
  "radixCache_Stats c =
     bindr (radixCache_unlock c) (\<lambda>_.
     Inr (snapshotBaseStats (rc_ps c) BackendRadix (rc_currentSize c) (rc_maxSize c) (radixLen c)))"

definition radixCache_Compact :: "('v :: zero) radixCache \<Rightarrow> 'v radixCache res" where
  "radixCache_Compact c = (let c1 = radixCache_compactLocked c in bindr (radixCache_unlock c1) (\<lambda>_. Inr c1))"

definition radixCache_evaluateShardPressure ::
  "samplingEnv \<Rightarrow> shardSample \<Rightarrow> ('v :: zero) radixState \<Rightarrow> ('v radixState \<times> 'v list \<times> shardSample) res" where
  "radixCache_evaluateShardPressure env sample st = (let (c, q) = st;
     (p1, sampledEpoch, out) = lockShardWithSample env True sample (rc_ps c) in
     bindr (radixCache_maybeReclaimUnderPressureLocked (h_pressure out) None True (c\<lparr>rc_ps := p1\<rparr>, q)) (\<lambda>((c2, q2), evicted).
     bindr (radixCache_unlock c2) (\<lambda>_.
     Inr ((c2, q2), evicted, advanceSelfReclaim (ownReclaimEpoch (rc_ps c2)) sampledEpoch out))))"

definition radixCache_EvaluateMemoryPressure ::
  "samplingEnv \<Rightarrow> ('v :: zero) radixCache \<Rightarrow> ('v radixCache \<times> 'v list \<times> 'v callback list) res" where
  "radixCache_EvaluateMemoryPressure env c0 =
     bindr (radixCache_evaluateShardPressure env emptyShardSample (c0, newEvictQueue True)) (\<lambda>((c, q), evicted, _).
     Inr (c, evicted, radixCallbacks c q))"

end
