(* ===== verification/RadixOps.thy ===== *)
theory RadixOps
  imports RadixHeap RadixCache
begin

text \<open>
  The tree of a radix cache: its invariant \<open>tree_inv\<close>, the keys \<open>vkeys\<close> it binds to value-bearing nodes,
  and what \<open>getNode\<close>, \<open>insertNode\<close>, \<open>compressPathUpwards\<close> and \<open>reconstructKey\<close> do to them. None of
  these operations touches the values or the recency links of existing nodes (\<open>same_bodies\<close>).
\<close>

definition zeroBody :: "u64 \<times> addr option \<times> addr option \<times> bool \<times> ('v :: zero)" where
  "zeroBody = (0, None, None, False, 0)"

definition tree_inv :: "('v :: zero) radixCache \<Rightarrow> forest \<Rightarrow> bool" where
  "tree_inv c F = (let h = rc_heap c; r = rc_root c in
     tree h r F \<and> distinct (r # faddrs F) \<and> ordered F
     \<and> rootlinks (h r) = ([], None, None)
     \<and> (\<forall>a\<in>set (r # faddrs F). a < rc_nextAddr c \<and> (\<not> rn_hasValue (h a) \<longrightarrow> body (h a) = zeroBody))
     \<and> distinct (rc_recycleNodes c) \<and> set (rc_recycleNodes c) \<inter> set (r # faddrs F) = {}
     \<and> (\<forall>a\<in>set (rc_recycleNodes c). a < rc_nextAddr c \<and> h a = zeroNode))"

definition bearing :: "'v radixHeap \<Rightarrow> addr set" where
  "bearing h = {a. rn_hasValue (h a)}"

definition allkeyed :: "addr \<Rightarrow> forest \<Rightarrow> (addr \<times> string) list" where
  "allkeyed r F = (r, []) # keyed [] F"

definition vkeys :: "'v radixCache \<Rightarrow> forest \<Rightarrow> (addr \<times> string) set" where
  "vkeys c F = {(a, k) \<in> set (allkeyed (rc_root c) F). a \<in> bearing (rc_heap c)}"

definition same_bodies :: "'v radixCache \<Rightarrow> 'v radixCache \<Rightarrow> bool" where
  "same_bodies c c' = (c' = c\<lparr>rc_heap := rc_heap c', rc_recycleNodes := rc_recycleNodes c'\<rparr>
     \<and> (\<forall>a. body (rc_heap c' a) = body (rc_heap c a)))"

lemma same_bodies_refl [simp]: "same_bodies c c"
  by (simp add: same_bodies_def)

lemma same_bodies_trans: "same_bodies a b \<Longrightarrow> same_bodies b c \<Longrightarrow> same_bodies a c"
  by (cases a; cases b; cases c) (simp add: same_bodies_def)

lemma body_hasValue: "body x = body y \<Longrightarrow> rn_hasValue x = rn_hasValue y"
  by (simp add: body_def)

lemma same_bodies_bearing: "same_bodies c c' \<Longrightarrow> bearing (rc_heap c') = bearing (rc_heap c)"
  using body_hasValue by (auto simp: same_bodies_def bearing_def)

lemma same_bodies_fields:
  "same_bodies c c' \<Longrightarrow> rc_root c' = rc_root c \<and> rc_nextAddr c' = rc_nextAddr c \<and> rc_ends c' = rc_ends c
    \<and> rc_currentSize c' = rc_currentSize c \<and> rc_maxSize c' = rc_maxSize c \<and> rc_ps c' = rc_ps c
    \<and> rc_weigher c' = rc_weigher c \<and> rc_onEvictValue c' = rc_onEvictValue c \<and> rc_onEvictEntry c' = rc_onEvictEntry c
    \<and> rc_recyclingForPut c' = rc_recyclingForPut c"
  by (cases c; cases c') (simp add: same_bodies_def)

lemma zeroNode_eq: "links n = ([], None, None, None) \<Longrightarrow> body n = zeroBody \<Longrightarrow> n = zeroNode"
  by (cases n) (simp add: links_def body_def zeroBody_def zeroNode_def)

lemma tree_invD:
  assumes "tree_inv c F"
  shows "tree (rc_heap c) (rc_root c) F" "distinct (rc_root c # faddrs F)" "ordered F"
    "rn_child (rc_heap c (rc_root c)) = fhead F" "repr (rc_heap c) (rc_root c) F"
  using assms by (auto simp: tree_inv_def Let_def tree_def)

lemma allkeyed_mem: "(a, k) \<in> set (allkeyed r F) \<Longrightarrow> a \<in> set (r # faddrs F)"
  using keyed_addrs [of "[]" F] by (auto simp: allkeyed_def) (metis fst_conv image_eqI list.set_map)

lemma allkeyed_distinct:
  assumes "ordered F" shows "distinct (map snd (allkeyed r F))"
proof -
  have "[] \<notin> snd ` set (keyed [] F)" using keyed_first [OF _ assms] by force
  then show ?thesis using keyed_distinct [OF assms] by (simp add: allkeyed_def)
qed

lemma vkeys_unique: "tree_inv c F \<Longrightarrow> (a, k) \<in> vkeys c F \<Longrightarrow> (b, k) \<in> vkeys c F \<Longrightarrow> a = b"
proof -
  assume t: "tree_inv c F" and v: "(a, k) \<in> vkeys c F" "(b, k) \<in> vkeys c F"
  have "inj_on snd (set (allkeyed (rc_root c) F))"
    using allkeyed_distinct [OF tree_invD(3) [OF t], of "rc_root c"] by (simp add: distinct_map)
  then show "a = b" using v inj_onD [of snd _ "(a, k)" "(b, k)"] by (auto simp: vkeys_def)
qed

lemma vkeys_functional: "tree_inv c F \<Longrightarrow> (a, k) \<in> vkeys c F \<Longrightarrow> (a, k') \<in> vkeys c F \<Longrightarrow> k = k'"
proof -
  assume t: "tree_inv c F" and v: "(a, k) \<in> vkeys c F" "(a, k') \<in> vkeys c F"
  have "distinct (map fst (allkeyed (rc_root c) F))"
    using tree_invD(2) [OF t] by (simp add: allkeyed_def keyed_addrs)
  then show "k = k'" using v by (auto simp: vkeys_def intro: eq_key_imp_eq_value)
qed

lemma getNode_spec:
  assumes "tree_inv c F"
  shows "\<exists>x. radixCache_getNode c k = Inr x \<and> (\<forall>a. x = Some a \<longleftrightarrow> (a, k) \<in> vkeys c F)"
proof -
  note t = tree_invD [OF assms]
  have k0: "(a, []) \<notin> set (keyed [] F)" for a using keyed_first [OF _ t(3), of a "[]" "[]"] by auto
  have kf: "(a, k) \<in> set (keyed [] F) \<longleftrightarrow> fget k F = Some a" for a using fget_keyed [OF t(3), of k a "[]"] by simp
  show ?thesis
    using k0 getNodeLoop_spec [OF t(4,5,3), of k] kf
    by (cases "fget k F") (auto simp: radixCache_getNode_def vkeys_def allkeyed_def bearing_def)
qed

lemma reconstructKey_vkeys:
  assumes "tree_inv c F" "(a, k) \<in> set (allkeyed (rc_root c) F)"
  shows "radixCache_reconstructKey c (Some a) = Inr k"
  using assms tree_invD [OF assms(1)] reconstructKey_spec [of "rc_heap c" "rc_root c" F a k]
  by (auto simp: radixCache_reconstructKey_def allkeyed_def reconstructKey_root)

subsection \<open>Compression\<close>

lemma compact_except:
  assumes "fcompact (insert a V) (plug C (Branch a s ch sb))" "distinct (faddrs (plug C (Branch a s ch sb)))" "a \<in> V \<or> 2 \<le> tops ch"
  shows "fcompact V (plug C (Branch a s ch sb))"
proof -
  have "a \<notin> set (caddrs C)" "a \<notin> set (faddrs ch)" "a \<notin> set (faddrs sb)"
    using assms(2) by (auto simp: plug_distinct)
  then show ?thesis
    using assms(1,3) by (auto simp: plug_compact elim!: compact_mono ccompact_V)
qed

lemma ccompact_par: "ccompact V C (Suc n) \<Longrightarrow> ccompact (insert (par r C) V) C n"
proof (induction C arbitrary: n)
  case (InChild a s sb C)
  have "fcompact (insert a V) sb" "ccompact (insert a V) C (Suc (tops sb))"
    using InChild.prems by (auto elim!: compact_mono ccompact_V)
  then show ?case by simp
next
  case (InSib a s ch C)
  have "fcompact (insert (par r C) V) ch" using InSib.prems by (auto elim!: compact_mono)
  then show ?case using InSib by auto
qed simp

lemma tree_inv_free:
  \<comment> \<open>a node taken out of the tree is recycled or left to the garbage collector\<close>
  assumes F: "tree_inv c F" and h': "tree h' (rc_root c) F'" "ordered F'" "\<And>x. body (h' x) = body (rc_heap c x)"
    and a: "a \<notin> set (rc_root c # faddrs F')" "a \<in> set (faddrs F)" "\<not> rn_hasValue (rc_heap c a)"
      "rn_parent (h' a) = None" "rn_child (h' a) = None" "rn_sibling (h' a) = None"
    and F': "mset (faddrs F) = add_mset a (mset (faddrs F'))"
    and out: "\<And>x. x \<notin> set (rc_root c # faddrs F) \<Longrightarrow> h' x = rc_heap c x"
    and r: "rootlinks (h' (rc_root c)) = rootlinks (rc_heap c (rc_root c))"
  shows "tree_inv (freeNode a (c\<lparr>rc_heap := h'\<rparr>)) F'" "same_bodies c (freeNode a (c\<lparr>rc_heap := h'\<rparr>))"
proof -
  let ?c = "freeNode a (c\<lparr>rc_heap := h'\<rparr>)" and ?r = "rc_root c"
  define h2 where "h2 = h'(a := (h' a)\<lparr>rn_prefix := ''''\<rparr>)"
  define rec where "rec = (if rc_recyclingForPut c \<and> length (rc_recycleNodes c) < 2 then rc_recycleNodes c @ [a] else rc_recycleNodes c)"
  have rec: "?c = c\<lparr>rc_heap := h2, rc_recycleNodes := rec\<rparr>" "rec = rc_recycleNodes c \<or> rec = rc_recycleNodes c @ [a]"
    by (cases c; auto simp: freeNode_def setNode_def h2_def Let_def rec_def)+
  have sub: "set (faddrs F) = insert a (set (faddrs F'))" "distinct (faddrs F')"
  proof -
    show "set (faddrs F) = insert a (set (faddrs F'))" using arg_cong [OF F', of set_mset] by simp
    have "mset (faddrs F) = mset (a # faddrs F')" using F' by simp
    then have "distinct (a # faddrs F')" using mset_eq_imp_distinct_iff tree_invD(2) [OF F] by (metis distinct.simps(2))
    then show "distinct (faddrs F')" by simp
  qed
  have b2: "body (h2 x) = body (rc_heap c x)" for x using h'(3) by (simp add: h2_def)
  then show "same_bodies c ?c" by (simp add: same_bodies_def rec)
  have "crepr h2 ?r Top (fhead F') = crepr h' ?r Top (fhead F')" by (rule crepr_cong) (use a in \<open>auto simp: h2_def\<close>)
  moreover have "repr h2 ?r F' = repr h' ?r F'" by (rule repr_cong) (use a in \<open>auto simp: h2_def\<close>)
  ultimately have t2: "tree h2 ?r F'" using h'(1) by (simp add: tree_def)
  have za: "h2 a = zeroNode"
    using a b2 [of a] F by (intro zeroNode_eq) (auto simp: h2_def links_def tree_inv_def Let_def)
  have hv: "rn_hasValue (h2 x) = rn_hasValue (rc_heap c x)" for x using b2 body_hasValue by blast
  have out2: "h2 x = rc_heap c x" if "x \<in> set (rc_recycleNodes c)" for x
    using F that out [of x] a(2) by (auto simp: tree_inv_def Let_def h2_def)
  have nodes: "a < rc_nextAddr c \<and> (\<not> rn_hasValue (rc_heap c a) \<longrightarrow> body (rc_heap c a) = zeroBody)" if "a \<in> set (?r # faddrs F)" for a
    using F that unfolding tree_inv_def Let_def by blast
  have rcy: "distinct (rc_recycleNodes c)" "set (rc_recycleNodes c) \<inter> set (?r # faddrs F) = {}"
    "\<And>x. x \<in> set (rc_recycleNodes c) \<Longrightarrow> x < rc_nextAddr c \<and> rc_heap c x = zeroNode" "rootlinks (rc_heap c ?r) = ([], None, None)"
    using F unfolding tree_inv_def Let_def by blast+
  have "rootlinks (h2 ?r) = ([], None, None)" using r rcy(4) a(1) by (simp add: h2_def)
  moreover have "distinct (?r # faddrs F')" using sub tree_invD(2) [OF F] by auto
  moreover have "x < rc_nextAddr c \<and> (\<not> rn_hasValue (h2 x) \<longrightarrow> body (h2 x) = zeroBody)" if "x \<in> set (?r # faddrs F')" for x
    using nodes [of x] that sub hv b2 by auto
  moreover have "distinct rec" using rec(2) rcy(1,2) a(2) by auto
  moreover have "set rec \<inter> set (?r # faddrs F') = {}" using rec(2) rcy(2) a(1) sub by auto
  moreover have "x < rc_nextAddr c \<and> h2 x = zeroNode" if "x \<in> set rec" for x
    using that rec(2) rcy(3) out2 za nodes [of a] a(2) by auto
  ultimately show "tree_inv ?c F'"
    unfolding tree_inv_def Let_def rec(1) using t2 h'(2) by simp
qed

lemma compressLoop_spec:
  assumes "tree_inv c F" "a \<in> set (rc_root c # faddrs F)" "fcompact (insert a (bearing (rc_heap c))) F"
  shows "\<exists>c' F'. compressLoop (Some a) c = Some (Inr c') \<and> tree_inv c' F' \<and> fcompact (bearing (rc_heap c)) F'
    \<and> vkeys c' F' = vkeys c F \<and> same_bodies c c'"
  using assms
proof (induction "length (faddrs F)" arbitrary: F a c rule: less_induct)
  case less
  let ?r = "rc_root c" and ?h = "rc_heap c" and ?V = "bearing (rc_heap c)"
  note t = tree_invD [OF less.prems(1)]
  show ?case
  proof (cases "a = ?r \<or> rn_hasValue (?h a)")
    case True
    then have "compressLoop (Some a) c = Some (Inr c)" by (subst compressLoop.simps) auto
    moreover have "fcompact ?V F"
      using less.prems(3) True t(2) by (elim compact_mono) (auto simp: bearing_def)
    ultimately show ?thesis using less.prems(1) same_bodies_refl by blast
  next
    case False
    then obtain C s ch sb where F: "F = plug C (Branch a s ch sb)" using less.prems(2) at_addr by fastforce
    let ?p = "par ?r C"
    have c: "crepr ?h ?r C (Some a)" and la: "links (?h a) = (s, Some ?p, fhead ch, fhead sb)"
      and rp: "repr ?h a ch" "repr ?h ?p sb"
      using t(1) by (auto simp: F tree_plug)
    have d: "distinct (?r # caddrs C)" "a \<notin> insert ?r (set (caddrs C) \<union> set (faddrs ch) \<union> set (faddrs sb))"
      "insert ?r (set (caddrs C)) \<inter> (set (faddrs sb) \<union> set (faddrs ch)) = {}" "set (faddrs ch) \<inter> set (faddrs sb) = {}"
      using t(2) by (auto simp: F plug_distinct plug_addrs_set)
    have lf: "rn_parent (?h a) = Some ?p" "rn_child (?h a) = fhead ch" "rn_prefix (?h a) = s" using la by (simp_all add: links_def)
    have aV: "a \<notin> ?V" using False by (simp add: bearing_def)
    have oC: "s \<noteq> []" "ordered ch" "ordered sb" "cordered C (firsts (Branch a s ch sb))" "\<forall>b\<in>firsts sb. hd s < b"
      using t(3) unfolding F plug_ordered by auto
    have pC: "fcompact (insert a ?V) ch" "fcompact (insert a ?V) sb" "ccompact (insert a ?V) C (Suc (tops sb))"
      using less.prems(3) unfolding F plug_compact by auto
    have aC: "fcompact ?V ch" "fcompact ?V sb" "ccompact ?V C (Suc (tops sb))"
      using pC d by (auto elim!: compact_mono ccompact_V)
    show ?thesis
    proof (cases ch)
      case Tip
      obtain h' where h': "removeChild ?p a ?h = Inr h'" "tree h' ?r (plug C sb)" "links (h' a) = (s, None, fhead ch, None)"
        "\<And>x. body (h' x) = body (?h x)" "\<And>x. x \<notin> insert ?r (set (faddrs F)) \<Longrightarrow> h' x = ?h x"
        "rootlinks (h' ?r) = rootlinks (?h ?r)"
        using removeChild_spec [of ?h ?r C a s ch sb] t(1,2) unfolding F by blast
      define c1 where "c1 = freeNode a (c\<lparr>rc_heap := h'\<rparr>)"
      have o1: "ordered (plug C sb)"
        using oC cordered_mono [of C _ "firsts sb"] unfolding plug_ordered by auto
      have ms: "mset (faddrs F) = add_mset a (mset (faddrs (plug C sb)))" by (simp add: F plug_addrs Tip)
      have c1: "tree_inv c1 (plug C sb)" "same_bodies c c1"
        unfolding c1_def
        using tree_inv_free [OF less.prems(1) h'(2) o1 h'(4) _ _ _ _ _ _ ms h'(5)] False less.prems(2) h'(3,6) d Tip
        by (auto simp: links_def plug_addrs_set)
      have V1: "bearing (rc_heap c1) = ?V" "rc_root c1 = ?r"
        using same_bodies_bearing [OF c1(2)] same_bodies_fields [OF c1(2)] by auto
      have "compressLoop (Some a) c = compressLoop (Some ?p) c1"
        using False lf h'(1) Tip by (subst compressLoop.simps) (simp add: onHeap_def c1_def)
      moreover have "\<exists>c' F'. compressLoop (Some ?p) c1 = Some (Inr c') \<and> tree_inv c' F' \<and> fcompact (bearing (rc_heap c1)) F'
        \<and> vkeys c' F' = vkeys c1 (plug C sb) \<and> same_bodies c1 c'"
      proof (rule less.hyps [OF _ c1(1)])
        show "length (faddrs (plug C sb)) < length (faddrs F)" using arg_cong [OF ms, of size] by simp
        show "?p \<in> set (rc_root c1 # faddrs (plug C sb))" using par_mem [of ?r C] V1 by (auto simp: plug_addrs_set)
        show "fcompact (insert ?p (bearing (rc_heap c1))) (plug C sb)"
          using aC ccompact_par [OF aC(3), of ?r] unfolding V1 plug_compact by (auto elim!: compact_mono)
      qed
      moreover have "vkeys c1 (plug C sb) = vkeys c F"
        using aV by (auto simp: vkeys_def V1 allkeyed_def F plug_keyed_set Tip)
      ultimately show ?thesis using same_bodies_trans [OF c1(2)] V1 by auto
    next
      case (Branch y u yc ys)
      show ?thesis
      proof (cases ys)
        case Tip
        have ly: "links (?h y) = (u, Some a, fhead yc, None)" "repr ?h y yc" and oy: "u \<noteq> []" "ordered yc"
          using rp(1) oC(2) Branch Tip by auto
        have dy: "y \<notin> insert a (insert ?r (set (caddrs C) \<union> set (faddrs yc) \<union> set (faddrs sb)))"
          "set (faddrs yc) \<subseteq> set (faddrs ch)" "y \<in> set (faddrs ch)"
          using t(2) d Branch by (auto simp: F plug_distinct plug_addrs_set)
        define h1 where "h1 = ?h(y := (?h y)\<lparr>rn_prefix := concatPrefix s u, rn_parent := Some ?p\<rparr>)"
        have h1: "crepr h1 ?r C (Some a)" "links (h1 a) = (s, Some ?p, fhead ch, fhead sb)" "repr h1 ?p sb"
          "rn_prefix (h1 y) = s @ u" "rn_child (h1 y) = fhead yc" "repr h1 y yc"
        proof -
          show "crepr h1 ?r C (Some a)" using c dy by (subst crepr_cong [where h = ?h]) (auto simp: h1_def)
          show "repr h1 ?p sb" using rp dy by (subst repr_cong [where h = ?h]) (auto simp: h1_def)
          show "repr h1 y yc" using ly dy by (subst repr_cong [where h = ?h]) (auto simp: h1_def)
        qed (use la ly dy in \<open>auto simp: h1_def links_def concatPrefix_append\<close>)
        obtain h2 where h2: "replaceChild ?p a y h1 = Inr h2" "tree h2 ?r (plug C (Branch y (s @ u) yc sb))"
          "links (h2 a) = (s, None, fhead ch, None)" "\<And>x. body (h2 x) = body (h1 x)"
          "\<And>x. x \<notin> {a, y, ?r} \<union> set (caddrs C) \<Longrightarrow> h2 x = h1 x" "rootlinks (h2 ?r) = rootlinks (h1 ?r)"
          using replaceChild_spec [OF h1] d dy by auto
        let ?F = "plug C (Branch y (s @ u) yc sb)"
        define h3 where "h3 = h2(a := (h2 a)\<lparr>rn_child := None\<rparr>)"
        have na: "a \<notin> set (?r # faddrs ?F)" using d dy by (auto simp: plug_addrs_set)
        have t3: "tree h3 ?r ?F"
        proof -
          have "crepr h3 ?r Top (fhead ?F) = crepr h2 ?r Top (fhead ?F)" by (rule crepr_cong) (use na in \<open>auto simp: h3_def\<close>)
          moreover have "repr h3 ?r ?F = repr h2 ?r ?F" by (rule repr_cong) (use na in \<open>auto simp: h3_def\<close>)
          ultimately show ?thesis using h2(2) by (simp add: tree_def)
        qed
        have o3: "ordered ?F" using oC oy by (auto simp: plug_ordered)
        have b3: "body (h3 x) = body (?h x)" for x using h2(4) by (simp add: h3_def h1_def)
        have ms: "mset (faddrs F) = add_mset a (mset (faddrs ?F))" by (simp add: F plug_addrs Branch Tip)
        have out: "h3 x = ?h x" if "x \<notin> set (?r # faddrs F)" for x
          using that h2(5) [of x] dy(3) by (auto simp: h3_def h1_def F plug_addrs_set)
        define c1 where "c1 = freeNode a (c\<lparr>rc_heap := h3\<rparr>)"
        have ar: "a \<noteq> ?r" "y \<noteq> ?r" "a \<in> set (faddrs F)" using d dy by (auto simp: F plug_addrs_set)
        have l3: "rn_parent (h3 a) = None" "rn_child (h3 a) = None" "rn_sibling (h3 a) = None" "rootlinks (h3 ?r) = rootlinks (?h ?r)"
          using h2(3,6) ar by (simp_all add: h3_def links_def h1_def)
        have c1: "tree_inv c1 ?F" "same_bodies c c1"
          unfolding c1_def using tree_inv_free [OF less.prems(1) t3 o3 b3 na ar(3) _ l3(1-3) ms out l3(4)] False by blast+
        have V1: "bearing (rc_heap c1) = ?V" "rc_root c1 = ?r"
          using same_bodies_bearing [OF c1(2)] same_bodies_fields [OF c1(2)] by auto
        have "compressLoop (Some a) c = Some (Inr c1)"
          using False lf ly dy h2(1) Branch Tip h1(2)
          by (subst compressLoop.simps) (simp add: onHeap_def c1_def setNode_def h3_def h1_def [symmetric] links_def Let_def)
        moreover have "fcompact ?V ?F" using aC Branch Tip by (auto simp: plug_compact)
        moreover have "vkeys c1 ?F = vkeys c F"
          using aV by (auto simp: vkeys_def V1 allkeyed_def F plug_keyed_set Branch Tip)
        ultimately show ?thesis using c1 by blast
      next
        case (Branch z u2 zc zs)
        then have "compressLoop (Some a) c = Some (Inr c)"
          using False lf \<open>ch = _\<close> rp(1) by (subst compressLoop.simps) (auto simp: links_def)
        moreover have "fcompact ?V F"
          unfolding F by (rule compact_except) (use less.prems(3) t(2) Branch \<open>ch = _\<close> in \<open>auto simp: F\<close>)
        ultimately show ?thesis using less.prems(1) same_bodies_refl by blast
      qed
    qed
  qed
qed

end
