(* ===== verification/RadixInsert.thy ===== *)
theory RadixInsert
  imports RadixOps
begin

text \<open>
  Insertion into the radix tree: whichever way \<open>insertNode\<close> takes (an existing routing node, a new leaf, a
  split with or without a leaf), the tree binds the new key to one node, keeps every other binding, and stays
  ordered and compact.
\<close>

definition grown :: "'v radixCache \<Rightarrow> addr set \<Rightarrow> 'v radixCache \<Rightarrow> bool" where
  \<comment> \<open>nodes were added; only those in \<open>E\<close> changed their body\<close>
  "grown c E c' = (c' = c\<lparr>rc_heap := rc_heap c', rc_nextAddr := rc_nextAddr c', rc_recycleNodes := rc_recycleNodes c'\<rparr>
     \<and> rc_nextAddr c \<le> rc_nextAddr c' \<and> (\<forall>x. x < rc_nextAddr c \<longrightarrow> x \<notin> E \<longrightarrow> body (rc_heap c' x) = body (rc_heap c x)))"

lemma grown_trans: "grown c E c1 \<Longrightarrow> grown c1 E' c2 \<Longrightarrow> grown c (E \<union> E') c2"
  by (cases c; cases c1; cases c2) (simp add: grown_def)

lemma grown_mono: "grown c E c' \<Longrightarrow> E \<subseteq> E' \<Longrightarrow> grown c E' c'"
  unfolding grown_def by blast

lemma grown_fields:
  "grown c E c' \<Longrightarrow> rc_root c' = rc_root c \<and> rc_ends c' = rc_ends c
    \<and> rc_currentSize c' = rc_currentSize c \<and> rc_maxSize c' = rc_maxSize c \<and> rc_ps c' = rc_ps c
    \<and> rc_weigher c' = rc_weigher c \<and> rc_onEvictValue c' = rc_onEvictValue c \<and> rc_onEvictEntry c' = rc_onEvictEntry c
    \<and> rc_recyclingForPut c' = rc_recyclingForPut c"
  by (cases c; cases c') (simp add: grown_def)

lemma tree_inv_nodes:
  assumes "tree_inv c F"
  shows "\<And>a. a \<in> set (rc_root c # faddrs F) \<Longrightarrow> a < rc_nextAddr c"
    "\<And>a. a \<in> set (rc_root c # faddrs F) \<Longrightarrow> \<not> rn_hasValue (rc_heap c a) \<Longrightarrow> body (rc_heap c a) = zeroBody"
    "distinct (rc_recycleNodes c)" "set (rc_recycleNodes c) \<inter> set (rc_root c # faddrs F) = {}"
    "\<And>x. x \<in> set (rc_recycleNodes c) \<Longrightarrow> x < rc_nextAddr c \<and> rc_heap c x = zeroNode"
    "rootlinks (rc_heap c (rc_root c)) = ([], None, None)"
  using assms unfolding tree_inv_def Let_def by blast+

lemma allocNode_spec:
  assumes "tree_inv c F" "allocNode c = (c1, n)"
  shows "tree_inv c1 F" "rc_heap c1 n = zeroNode" "n \<notin> set (rc_root c # faddrs F)" "n \<notin> set (rc_recycleNodes c1)"
    "n < rc_nextAddr c1" "grown c {} c1" "\<And>x. x \<noteq> n \<Longrightarrow> rc_heap c1 x = rc_heap c x"
    "\<not> rn_hasValue (rc_heap c1 n)"
proof -
  note t = tree_invD [OF assms(1)] and n = tree_inv_nodes [OF assms(1)]
  have main: "tree_inv c1 F \<and> rc_heap c1 n = zeroNode \<and> n \<notin> set (rc_root c # faddrs F) \<and> n \<notin> set (rc_recycleNodes c1)
    \<and> n < rc_nextAddr c1 \<and> grown c {} c1 \<and> (\<forall>x. x \<noteq> n \<longrightarrow> rc_heap c1 x = rc_heap c x)"
  proof (cases "rc_recycleNodes c = []")
    case True
    let ?n = "rc_nextAddr c" and ?r = "rc_root c"
    define h where "h = (rc_heap c)(?n := zeroNode)"
    have c1: "c1 = c\<lparr>rc_heap := h, rc_nextAddr := ?n + 1\<rparr>" "n = ?n"
      using assms(2) True by (auto simp: allocNode_def h_def)
    have out: "?n \<notin> set (?r # faddrs F)" using n(1) by blast
    have h: "h x = rc_heap c x" if "x \<in> set (?r # faddrs F)" for x using that out by (auto simp: h_def)
    have "crepr h ?r Top (fhead F) = crepr (rc_heap c) ?r Top (fhead F)" by (rule crepr_cong) (use h in auto)
    moreover have "repr h ?r F = repr (rc_heap c) ?r F" by (rule repr_cong) (use h in auto)
    ultimately have "tree h ?r F" using t(1) by (simp add: tree_def)
    moreover have "a < Suc ?n" "\<not> rn_hasValue (h a) \<Longrightarrow> body (h a) = zeroBody" if "a \<in> set (?r # faddrs F)" for a
      using n(1,2) [OF that] h [OF that] by auto
    moreover have "rootlinks (h ?r) = ([], None, None)" using n(6) h [of ?r] by simp
    ultimately have "tree_inv c1 F"
      unfolding tree_inv_def Let_def c1 using t(2,3) True by simp
    moreover have "grown c {} c1" by (simp add: grown_def c1 True h_def)
    ultimately show ?thesis using out c1 True by (simp add: h_def)
  next
    case False
    let ?rs = "rc_recycleNodes c"
    have c1: "c1 = c\<lparr>rc_recycleNodes := butlast ?rs\<rparr>" "n = List.last ?rs"
      using assms(2) False by (auto simp: allocNode_def)
    have mem: "n \<in> set ?rs" "set (butlast ?rs) \<subseteq> set ?rs" using c1(2) False by (auto dest: in_set_butlastD)
    have "n \<notin> set (butlast ?rs)"
    proof -
      have "distinct (butlast ?rs @ [List.last ?rs])" using n(3) False by simp
      then show ?thesis using c1(2) by simp
    qed
    moreover have "tree_inv c1 F"
      unfolding tree_inv_def Let_def c1 using t(1-3) n(1,2,4,6) n(3,5) mem
      by (auto simp: distinct_butlast)
    moreover have "grown c {} c1" by (cases c) (simp add: grown_def c1)
    ultimately show ?thesis using n(4,5) mem c1 by auto
  qed
  then show "tree_inv c1 F" "rc_heap c1 n = zeroNode" "n \<notin> set (rc_root c # faddrs F)" "n \<notin> set (rc_recycleNodes c1)"
    "n < rc_nextAddr c1" "grown c {} c1" "\<And>x. x \<noteq> n \<Longrightarrow> rc_heap c1 x = rc_heap c x" by blast+
  show "\<not> rn_hasValue (rc_heap c1 n)" using main by (simp add: zeroNode_def)
qed

lemma tree_inv_grow:
  assumes F: "tree_inv c F" and h': "tree h' (rc_root c) F'" "ordered F'" "rootlinks (h' (rc_root c)) = rootlinks (rc_heap c (rc_root c))"
    and F': "mset (faddrs F') = add_mset n (mset (faddrs F))"
    and n: "n \<notin> set (rc_root c # faddrs F)" "n \<notin> set (rc_recycleNodes c)" "n < rc_nextAddr c"
    and out: "\<And>x. x \<notin> insert n (set (rc_root c # faddrs F)) \<Longrightarrow> h' x = rc_heap c x"
    and b: "\<And>x. x \<in> set (rc_root c # faddrs F) \<Longrightarrow> body (h' x) = body (rc_heap c x)"
    "rn_hasValue (h' n) \<or> body (h' n) = zeroBody"
  shows "tree_inv (c\<lparr>rc_heap := h'\<rparr>) F'"
proof -
  note i = tree_inv_nodes [OF F]
  have sub: "set (faddrs F') = insert n (set (faddrs F))" using arg_cong [OF F', of set_mset] by simp
  have "mset (faddrs F') = mset (n # faddrs F)" using F' by simp
  then have "distinct (faddrs F') = distinct (n # faddrs F)" by (rule mset_eq_imp_distinct_iff)
  then have d: "distinct (rc_root c # faddrs F')" using tree_invD(2) [OF F] n(1) sub by auto
  have "x < rc_nextAddr c \<and> (\<not> rn_hasValue (h' x) \<longrightarrow> body (h' x) = zeroBody)" if "x \<in> set (rc_root c # faddrs F')" for x
  proof (cases "x = n")
    case False
    then have x: "x \<in> set (rc_root c # faddrs F)" using that sub by auto
    show ?thesis using i(1,2) [OF x] b(1) [OF x] body_hasValue by metis
  qed (use n b in auto)
  moreover have "h' x = zeroNode" if "x \<in> set (rc_recycleNodes c)" for x
    using that i(4,5) out [of x] n(2) by auto
  moreover have "set (rc_recycleNodes c) \<inter> set (rc_root c # faddrs F') = {}" using i(4) n(2) sub by auto
  ultimately show ?thesis
    unfolding tree_inv_def Let_def using h' d i(3,5,6) by simp
qed

lemma newLeafUnder_spec:
  assumes t: "tree_inv c (plug C H)" and C: "hole (rc_root c) C = ChildSlot (par (rc_root c) C)"
    and s: "s \<noteq> []" "hd s \<notin> firsts H"
  shows "\<exists>c' e C' H'. newLeafUnder (par (rc_root c) C) s v c = Inr (c', e) \<and> plug C H = plug C' H' \<and> path C' = path C
    \<and> tree_inv c' (plug C' (Branch e s Tip H')) \<and> body (rc_heap c' e) = (0, None, None, True, v)
    \<and> e \<notin> set (rc_root c # faddrs (plug C H)) \<and> grown c {e} c'
    \<and> (\<forall>V m. fcompact V H \<and> ccompact V C (m + tops H) \<longrightarrow> fcompact V H' \<and> ccompact V C' (m + tops H'))"
proof -
  obtain c1 n where al: "allocNode c = (c1, n)" by (rule prod.exhaust)
  note a = allocNode_spec [OF t al]
  have rt: "rc_root c1 = rc_root c" using grown_fields [OF a(6)] by simp
  let ?r = "rc_root c"
  define h2 where "h2 = (rc_heap c1)(n := (rc_heap c1 n)\<lparr>rn_prefix := s, rn_value := v, rn_hasValue := True\<rparr>)"
  have t1: "tree (rc_heap c1) ?r (plug C H)" "ordered (plug C H)" "distinct (?r # faddrs (plug C H))"
    using tree_invD [OF a(1)] rt by auto
  have t2: "tree h2 ?r (plug C H)"
  proof -
    have "crepr h2 ?r Top (fhead (plug C H)) = crepr (rc_heap c1) ?r Top (fhead (plug C H))" by (rule crepr_cong) (use a(3) in \<open>auto simp: h2_def\<close>)
    moreover have "repr h2 ?r (plug C H) = repr (rc_heap c1) ?r (plug C H)" by (rule repr_cong) (use a(3) in \<open>auto simp: h2_def\<close>)
    ultimately show ?thesis using t1(1) by (simp add: tree_def)
  qed
  have n2: "rn_prefix (h2 n) = s" "rn_child (h2 n) = fhead Tip" "repr h2 n Tip" using a(2) by (simp_all add: h2_def zeroNode_def)
  have oT: "ordered Tip" by simp
  have d2: "distinct (?r # faddrs (plug C H) @ n # faddrs Tip)" using t1(3) a(3) by auto
  obtain h' C' H' where ac: "addChild (par ?r C) n h2 = Inr h'" "plug C H = plug C' H'" "path C' = path C"
    "tree h' ?r (plug C' (Branch n s Tip H'))" "ordered (plug C' (Branch n s Tip H'))"
    "\<And>x. body (h' x) = body (h2 x)" "\<And>x. x \<notin> insert ?r (insert n (set (faddrs (plug C H)))) \<Longrightarrow> h' x = h2 x"
    "rootlinks (h' ?r) = rootlinks (h2 ?r)"
    "(\<forall>V m. fcompact V H \<and> ccompact V C (m + tops H) \<longrightarrow> fcompact V H' \<and> ccompact V C' (m + tops H'))"
    using addChild_spec [OF t2 C t1(2) n2 s(1) oT s(2) d2] by blast
  have bn: "body (h' n) = (0, None, None, True, v)" using ac(6) a(2) by (simp add: h2_def body_def zeroNode_def)
  have "tree_inv (c1\<lparr>rc_heap := h'\<rparr>) (plug C' (Branch n s Tip H'))"
  proof (rule tree_inv_grow [OF a(1)])
    show "n \<notin> set (rc_root c1 # faddrs (plug C H))" using a(3) rt by simp
    show "h' x = rc_heap c1 x" if "x \<notin> insert n (set (rc_root c1 # faddrs (plug C H)))" for x
      using ac(7) [of x] that rt by (auto simp: h2_def)
    show "body (h' x) = body (rc_heap c1 x)" if "x \<in> set (rc_root c1 # faddrs (plug C H))" for x
      using ac(6) [of x] that a(3) rt by (auto simp: h2_def)
    show "mset (faddrs (plug C' (Branch n s Tip H'))) = add_mset n (mset (faddrs (plug C H)))"
      by (simp add: ac(2) plug_addrs)
    show "rn_hasValue (h' n) \<or> body (h' n) = zeroBody" using bn by (simp add: body_def)
    show "rootlinks (h' (rc_root c1)) = rootlinks (rc_heap c1 (rc_root c1))" using ac(8) a(3) by (auto simp: rt h2_def)
  qed (use a ac rt in auto)
  moreover have "newLeafUnder (par ?r C) s v c = Inr (c1\<lparr>rc_heap := h'\<rparr>, n)"
    using ac(1) by (simp add: newLeafUnder_def al clonePrefix_id setNode_def onHeap_def h2_def [symmetric])
  moreover have "grown c {n} (c1\<lparr>rc_heap := h'\<rparr>)"
  proof -
    have "grown c1 {n} (c1\<lparr>rc_heap := h'\<rparr>)" using ac(6) by (cases c1) (auto simp: grown_def h2_def)
    then show ?thesis using grown_trans [OF a(6)] by fastforce
  qed
  ultimately show ?thesis using ac(2,3,9) bn a(3)
    by - (rule exI [of _ "c1\<lparr>rc_heap := h'\<rparr>"], rule exI [of _ n], rule exI [of _ C'], rule exI [of _ H'], auto)
qed

lemma splitChild_spec:
  assumes t: "tree_inv c (plug C (Branch a s ch sb))" and l: "0 < l" "l < length s"
  shows "\<exists>c' n. splitChild (par (rc_root c) C) a l c = Inr (c', n)
    \<and> tree_inv c' (plug C (Branch n (take l s) (Branch a (drop l s) ch Tip) sb))
    \<and> body (rc_heap c' n) = zeroBody \<and> n \<notin> set (rc_root c # faddrs (plug C (Branch a s ch sb))) \<and> grown c {} c'"
proof -
  let ?F = "plug C (Branch a s ch sb)" and ?r = "rc_root c"
  let ?p = "par ?r C" and ?S = "take l s" and ?E = "drop l s"
  obtain c1 n where al: "allocNode c = (c1, n)" by (rule prod.exhaust)
  note i = allocNode_spec [OF t al]
  have rt: "rc_root c1 = ?r" using grown_fields [OF i(6)] by simp
  have t1: "tree (rc_heap c1) ?r ?F" "ordered ?F" "distinct (?r # faddrs ?F)" using tree_invD [OF i(1)] rt by auto
  have d: "distinct (?r # caddrs C)" "a \<noteq> n" "{a, n} \<inter> insert ?r (set (caddrs C) \<union> set (faddrs sb) \<union> set (faddrs ch)) = {}"
    "insert ?r (set (caddrs C)) \<inter> (set (faddrs sb) \<union> set (faddrs ch)) = {}" "set (faddrs ch) \<inter> set (faddrs sb) = {}"
    "distinct (faddrs ch)" "distinct (faddrs sb)"
    using t1(3) i(3) by (auto simp: plug_distinct plug_addrs_set)
  have c: "crepr (rc_heap c1) ?r C (Some a)" and la: "links (rc_heap c1 a) = (s, Some ?p, fhead ch, fhead sb)"
    and rp: "repr (rc_heap c1) a ch" "repr (rc_heap c1) ?p sb"
    using t1(1) by (auto simp: tree_plug)
  define h2 where "h2 = (rc_heap c1)(n := (rc_heap c1 n)\<lparr>rn_prefix := ?S, rn_parent := Some ?p\<rparr>)"
  have 2: "crepr h2 ?r C (Some a)" "links (h2 a) = (s, Some ?p, fhead ch, fhead sb)" "repr h2 ?p sb"
    "rn_prefix (h2 n) = ?S" "rn_child (h2 n) = fhead Tip" "repr h2 n Tip"
  proof -
    show "crepr h2 ?r C (Some a)" using c d by (subst crepr_cong [where h = "rc_heap c1"]) (auto simp: h2_def)
    show "repr h2 ?p sb" using rp d by (subst repr_cong [where h = "rc_heap c1"]) (auto simp: h2_def)
  qed (use la d i(2) in \<open>auto simp: h2_def zeroNode_def\<close>)
  obtain h3 where h3: "replaceChild ?p a n h2 = Inr h3" "tree h3 ?r (plug C (Branch n ?S Tip sb))"
    "links (h3 a) = (s, None, fhead ch, None)" "\<And>x. body (h3 x) = body (h2 x)"
    "\<And>x. x \<notin> {a, n, ?r} \<union> set (caddrs C) \<Longrightarrow> h3 x = h2 x" "rootlinks (h3 ?r) = rootlinks (h2 ?r)"
    using replaceChild_spec [OF 2 d(1,2)] d(3,4) by auto
  define h4 where "h4 = h3(a := (h3 a)\<lparr>rn_prefix := ?E, rn_sibling := None\<rparr>)"
  let ?C = "InChild n ?S sb C"
  have na: "a \<notin> set (?r # faddrs (plug ?C Tip))" using d by (auto simp: plug_addrs_set)
  have t4: "tree h4 ?r (plug ?C Tip)"
  proof -
    have "crepr h4 ?r Top (fhead (plug ?C Tip)) = crepr h3 ?r Top (fhead (plug ?C Tip))" by (rule crepr_cong) (use na in \<open>auto simp: h4_def\<close>)
    moreover have "repr h4 ?r (plug ?C Tip) = repr h3 ?r (plug ?C Tip)" by (rule repr_cong) (use na in \<open>auto simp: h4_def\<close>)
    ultimately show ?thesis using h3(2) by (simp add: tree_def)
  qed
  have oC: "ordered ch" "ordered sb" "cordered C (firsts (Branch a s ch sb))" "\<forall>b\<in>firsts sb. hd s < b"
    using t1(2) unfolding plug_ordered by auto
  have hs: "hd ?S = hd s" "?S \<noteq> []" "?E \<noteq> []" using l by (cases s; cases l; simp)+
  have o4: "ordered (plug ?C Tip)" using oC hs by (auto simp: plug_ordered)
  have ch4: "repr h4 a ch"
  proof -
    have "links (h4 x) = links (rc_heap c1 x)" if "x \<in> set (faddrs ch)" for x
    proof -
      have "x \<notin> {a, n, ?r} \<union> set (caddrs C)" using that d(3,4) by auto
      then show ?thesis using h3(5) [of x] by (auto simp: h4_def h2_def)
    qed
    then show ?thesis using rp(1) repr_cong [of ch h4 "rc_heap c1"] by blast
  qed
  have a4: "rn_prefix (h4 a) = ?E" "rn_child (h4 a) = fhead ch" using h3(3) by (simp_all add: h4_def links_def)
  have d4: "distinct (?r # faddrs (plug ?C Tip) @ a # faddrs ch)"
    using d t1(3) i(3) by (auto simp: plug_distinct plug_addrs_set)
  let ?F' = "plug C (Branch n ?S (Branch a ?E ch Tip) sb)"
  have hC: "hole ?r ?C = ChildSlot (par ?r ?C)" by simp
  obtain h5 where h5: "addChild n a h4 = Inr h5" "tree h5 ?r ?F'" "ordered ?F'" "\<And>x. body (h5 x) = body (h4 x)"
    "\<And>x. x \<notin> insert ?r (insert a (set (faddrs (plug ?C Tip)))) \<Longrightarrow> h5 x = h4 x" "rootlinks (h5 ?r) = rootlinks (h4 ?r)"
    using addChild_spec [OF t4 hC o4 a4 ch4 hs(3) oC(1) _ d4] by auto
  have b5: "body (h5 x) = body (rc_heap c1 x)" for x using h5(4) h3(4) by (simp add: h4_def h2_def)
  have "tree_inv (c1\<lparr>rc_heap := h5\<rparr>) ?F'"
  proof (rule tree_inv_grow [OF i(1)])
    show "n \<notin> set (rc_root c1 # faddrs ?F)" using i(3) rt by simp
    show "h5 x = rc_heap c1 x" if "x \<notin> insert n (set (rc_root c1 # faddrs ?F))" for x
    proof -
      have x: "x \<notin> insert ?r (insert a (set (faddrs (plug ?C Tip))))" "x \<notin> {a, n, ?r} \<union> set (caddrs C)"
        using that rt by (auto simp: plug_addrs_set)
      then show ?thesis using h5(5) [OF x(1)] h3(5) [OF x(2)] by (simp add: h4_def h2_def)
    qed
    show "mset (faddrs ?F') = add_mset n (mset (faddrs ?F))" by (simp add: plug_addrs)
    show "rn_hasValue (h5 n) \<or> body (h5 n) = zeroBody" using b5 i(2) by (simp add: body_def zeroBody_def zeroNode_def)
    show "rootlinks (h5 (rc_root c1)) = rootlinks (rc_heap c1 (rc_root c1))"
      using h5(6) h3(6) d by (auto simp: rt h4_def h2_def)
  qed (use i rt h5 b5 in auto)
  moreover have "splitChild ?p a l c = Inr (c1\<lparr>rc_heap := h5\<rparr>, n)"
  proof -
    have "rn_prefix (rc_heap c a) = s" using la i(7) [of a] d(2) by (simp add: links_def)
    then show ?thesis using h3(1) h5(1)
      by (simp add: splitChild_def al clonePrefix_id setNode_def onHeap_def h2_def [symmetric] h4_def [symmetric])
  qed
  moreover have "grown c {} (c1\<lparr>rc_heap := h5\<rparr>)"
  proof -
    have "grown c1 {} (c1\<lparr>rc_heap := h5\<rparr>)" using b5 by (cases c1) (auto simp: grown_def)
    then show ?thesis using grown_trans [OF i(6)] by fastforce
  qed
  moreover have "body (h5 n) = zeroBody" using b5 i(2) by (simp add: body_def zeroBody_def zeroNode_def)
  ultimately show ?thesis using i(3)
    by - (rule exI [of _ "c1\<lparr>rc_heap := h5\<rparr>"], rule exI [of _ n], simp)
qed

lemma lcp_facts:
  "take (longestCommonPrefix a b) a = take (longestCommonPrefix a b) b"
  "longestCommonPrefix a b \<le> length a" "longestCommonPrefix a b \<le> length b"
  "longestCommonPrefix a b < length a \<Longrightarrow> longestCommonPrefix a b < length b \<Longrightarrow>
    hd (drop (longestCommonPrefix a b) a) \<noteq> hd (drop (longestCommonPrefix a b) b)"
  "a \<noteq> [] \<Longrightarrow> b \<noteq> [] \<Longrightarrow> hd a = hd b \<Longrightarrow> 0 < longestCommonPrefix a b"
  unfolding longestCommonPrefix_reference by (induction a b rule: common_prefix_length.induct) auto

lemma vkeys_insert:
  assumes t: "tree_inv c F" and g: "grown c {e} c'" and e: "rn_hasValue (rc_heap c' e)"
    and F': "set (allkeyed (rc_root c) F') = insert (e, k) (set (allkeyed (rc_root c) F) \<union> N)"
    and N: "\<And>x k'. (x, k') \<in> N \<Longrightarrow> \<not> rn_hasValue (rc_heap c' x)"
    and ek: "\<And>k'. (e, k') \<in> set (allkeyed (rc_root c) F) \<Longrightarrow> k' = k"
  shows "vkeys c' F' = insert (e, k) (vkeys c F)"
proof -
  have r: "rc_root c' = rc_root c" using grown_fields [OF g] by simp
  have hv: "rn_hasValue (rc_heap c' x) = rn_hasValue (rc_heap c x)" if "(x, k') \<in> set (allkeyed (rc_root c) F)" "x \<noteq> e" for x k'
  proof -
    have "x < rc_nextAddr c" using tree_inv_nodes(1) [OF t] allkeyed_mem [OF that(1)] by blast
    then show ?thesis using g that(2) by (auto simp: grown_def intro!: body_hasValue)
  qed
  have "(x, y) \<in> vkeys c' F' \<longleftrightarrow> (x, y) \<in> insert (e, k) (vkeys c F)" for x y
    using e N [of x y] ek [of y] hv [of x y] by (cases "x = e") (auto simp: vkeys_def bearing_def r F')
  then show ?thesis by auto
qed

lemma bearing_grown:
  assumes "tree_inv c F" "grown c {e} c'" "rn_hasValue (rc_heap c' e)"
  shows "bearing (rc_heap c) \<inter> set (faddrs F) \<subseteq> bearing (rc_heap c')"
proof
  fix x assume x: "x \<in> bearing (rc_heap c) \<inter> set (faddrs F)"
  then have "x < rc_nextAddr c" using tree_inv_nodes(1) [OF assms(1)] by simp
  then show "x \<in> bearing (rc_heap c')"
    using assms(2,3) x body_hasValue [of "rc_heap c' x" "rc_heap c x"] by (cases "x = e") (auto simp: grown_def bearing_def)
qed

lemma allkeyed_plug: "set (allkeyed r (plug C H)) = insert (r, []) (set (ckeyed C) \<union> set (keyed (path C) H))"
  by (simp add: allkeyed_def plug_keyed_set)

lemma allkeyed_par: "(par r C, path C) \<in> set (allkeyed r (plug C H))"
proof -
  have "(par r C, path C) \<in> insert (r, []) (set (ckeyed C))" by (induction C) auto
  then show ?thesis by (auto simp: allkeyed_plug)
qed

definition inserted :: "'v \<Rightarrow> string \<Rightarrow> ('v :: zero) radixCache \<Rightarrow> forest \<Rightarrow> ('v radixCache \<times> addr) res \<Rightarrow> bool" where
  \<comment> \<open>the key was bound to a node that had no value\<close>
  "inserted v k c F res = (\<exists>c' e F'. res = Inr (c', e) \<and> tree_inv c' F' \<and> fcompact (bearing (rc_heap c')) F'
    \<and> vkeys c' F' = insert (e, k) (vkeys c F) \<and> body (rc_heap c' e) = (0, None, None, True, v)
    \<and> e \<notin> fst ` vkeys c F \<and> grown c {e} c')"

lemma insert_here:
  assumes t: "tree_inv c (plug C H)" and cm: "fcompact (insert (par (rc_root c) C) (bearing (rc_heap c))) (plug C H)"
    and new: "\<And>a. (a, path C) \<notin> vkeys c (plug C H)"
  shows "inserted v (path C) c (plug C H)
    (Inr (setNode (par (rc_root c) C) (\<lambda>x. x\<lparr>rn_value := v, rn_hasValue := True\<rparr>) c, par (rc_root c) C))"
proof -
  let ?r = "rc_root c" and ?F = "plug C H" and ?p = "par (rc_root c) C"
  note tt = tree_invD [OF t] and n = tree_inv_nodes [OF t]
  have pk: "(?p, path C) \<in> set (allkeyed ?r ?F)" by (rule allkeyed_par)
  then have pm: "?p \<in> set (?r # faddrs ?F)" by (rule allkeyed_mem)
  have pv: "\<not> rn_hasValue (rc_heap c ?p)" using new [of ?p] pk by (auto simp: vkeys_def bearing_def)
  define c' where "c' = setNode ?p (\<lambda>x. x\<lparr>rn_value := v, rn_hasValue := True\<rparr>) c"
  define h' where "h' = rc_heap c'"
  have h': "h' = (rc_heap c)(?p := (rc_heap c ?p)\<lparr>rn_value := v, rn_hasValue := True\<rparr>)" "c' = c\<lparr>rc_heap := h'\<rparr>"
    by (simp_all add: h'_def c'_def setNode_def)
  have l: "links (h' x) = links (rc_heap c x)" "rootlinks (h' x) = rootlinks (rc_heap c x)" for x
    by (simp_all add: h' links_def rootlinks_def)
  have bp: "body (h' ?p) = (0, None, None, True, v)"
    using n(2) [OF pm pv] by (simp add: h' body_def zeroBody_def)
  have "tree h' ?r ?F" using tt(1) l repr_cong [of ?F h' "rc_heap c"] crepr_cong [of ?r Top h' "rc_heap c"] by (simp add: tree_def)
  then have t': "tree_inv c' ?F"
    unfolding tree_inv_def Let_def h'(2)
    using tt(2,3) n l pm by (auto simp: h'(1))
  have g: "grown c {?p} c'" by (cases c) (auto simp: grown_def h')
  have hv: "rn_hasValue (rc_heap c' ?p)" using h' by simp
  have "vkeys c' ?F = insert (?p, path C) (vkeys c ?F)"
  proof (rule vkeys_insert [OF t g hv, where N = "{}"])
    show "k' = path C" if "(?p, k') \<in> set (allkeyed ?r ?F)" for k'
    proof -
      have "distinct (map fst (allkeyed ?r ?F))" using tt(2) by (simp add: allkeyed_def keyed_addrs)
      then show ?thesis using that pk eq_key_imp_eq_value by fast
    qed
  qed (use pk in auto)
  moreover have "fcompact (bearing (rc_heap c')) ?F"
    using cm bearing_grown [OF t g hv] hv by (elim compact_mono) (auto simp: bearing_def)
  moreover have "?p \<notin> fst ` vkeys c ?F" using pv by (auto simp: vkeys_def bearing_def)
  ultimately show ?thesis
    unfolding inserted_def c'_def [symmetric] using t' bp g by (auto simp: h'_def)
qed

lemma insert_leaf:
  assumes t: "tree_inv c (plug C H)" and C: "hole (rc_root c) C = ChildSlot (par (rc_root c) C)"
    and cm: "\<And>V. bearing (rc_heap c) \<inter> set (faddrs (plug C H)) \<subseteq> V \<Longrightarrow> fcompact V H \<and> ccompact V C (Suc (tops H))"
    and s: "s \<noteq> []" "hd s \<notin> firsts H"
  shows "inserted v (path C @ s) c (plug C H) (newLeafUnder (par (rc_root c) C) s v c)"
proof -
  obtain c' e C' H' where l: "newLeafUnder (par (rc_root c) C) s v c = Inr (c', e)" "plug C H = plug C' H'" "path C' = path C"
    "tree_inv c' (plug C' (Branch e s Tip H'))" "body (rc_heap c' e) = (0, None, None, True, v)"
    "e \<notin> set (rc_root c # faddrs (plug C H))" "grown c {e} c'"
    "\<forall>V m. fcompact V H \<and> ccompact V C (m + tops H) \<longrightarrow> fcompact V H' \<and> ccompact V C' (m + tops H')"
    using newLeafUnder_spec [OF t C s] by blast
  have hv: "rn_hasValue (rc_heap c' e)" using l(5) by (simp add: body_def)
  have "vkeys c' (plug C' (Branch e s Tip H')) = insert (e, path C @ s) (vkeys c (plug C H))"
  proof (rule vkeys_insert [OF t l(7) hv, where N = "{}"])
    show "k' = path C @ s" if "(e, k') \<in> set (allkeyed (rc_root c) (plug C H))" for k'
      using allkeyed_mem [OF that] l(6) by blast
  qed (auto simp: l(2,3) allkeyed_plug)
  moreover have "fcompact (bearing (rc_heap c')) (plug C' (Branch e s Tip H'))"
    using cm [OF bearing_grown [OF t l(7) hv]] l(8) [rule_format, of "bearing (rc_heap c')" 1] hv
    by (simp add: plug_compact bearing_def)
  moreover have "e \<notin> fst ` vkeys c (plug C H)" using l(6) allkeyed_mem by (fastforce simp: vkeys_def)
  ultimately show ?thesis unfolding inserted_def using l by blast
qed

lemma vkeys_grown:
  assumes t: "tree_inv c F" and g: "grown c {} c'"
    and F': "set (allkeyed (rc_root c) F') = set (allkeyed (rc_root c) F) \<union> N"
    and N: "\<And>x k'. (x, k') \<in> N \<Longrightarrow> \<not> rn_hasValue (rc_heap c' x)"
  shows "vkeys c' F' = vkeys c F"
proof -
  have hv: "rn_hasValue (rc_heap c' x) = rn_hasValue (rc_heap c x)" if "(x, k') \<in> set (allkeyed (rc_root c) F)" for x k'
  proof -
    have "x < rc_nextAddr c" using tree_inv_nodes(1) [OF t] allkeyed_mem [OF that(1)] by blast
    then show ?thesis using g by (auto simp: grown_def intro!: body_hasValue)
  qed
  show ?thesis using N hv grown_fields [OF g] by (auto simp: vkeys_def bearing_def F')
qed

lemma inserted_via:
  assumes "inserted v k c1 F1 res" "grown c {} c1" "vkeys c1 F1 = vkeys c F"
  shows "inserted v k c F res"
  using assms grown_trans [OF assms(2)] unfolding inserted_def by (metis sup_bot_left)

lemma insertLoop_spec:
  assumes "tree_inv c (plug C H)" "hole (rc_root c) C = ChildSlot (par (rc_root c) C)"
    "fcompact (bearing (rc_heap c)) (plug C H)" "\<And>a. (a, path C @ search) \<notin> vkeys c (plug C H)"
  shows "\<exists>res. insertLoop v (par (rc_root c) C) search c = Some res \<and> inserted v (path C @ search) c (plug C H) res"
  using assms
proof (induction "length search" arbitrary: search C H rule: less_induct)
  case less
  let ?r = "rc_root c" and ?F = "plug C H" and ?h = "rc_heap c"
  let ?p = "par ?r C"
  note t = tree_invD [OF less.prems(1)]
  have H: "rn_child (?h ?p) = fhead H" "repr ?h ?p H" "ordered H"
    using t(1,3) less.prems(2) crepr_slotGet [of ?h ?r C "fhead H"] by (auto simp: tree_plug plug_ordered)
  show ?case
  proof (cases search)
    case Nil
    have "fcompact (insert ?p (bearing ?h)) ?F" using less.prems(3) by (rule compact_mono) auto
    moreover have "insertLoop v ?p search c = Some (Inr (setNode ?p (\<lambda>x. x\<lparr>rn_value := v, rn_hasValue := True\<rparr>) c, ?p))"
      using Nil by (subst insertLoop.simps) simp
    ultimately show ?thesis using insert_here [OF less.prems(1)] less.prems(4) Nil by auto
  next
    case (Cons b rest)
    note gc = getChild_spec [OF H, of b]
    show ?thesis
    proof (cases "fsub b H")
      case None
      have "inserted v (path C @ search) c ?F (newLeafUnder ?p search v c)"
      proof (rule insert_leaf [OF less.prems(1,2)])
        fix V assume "bearing ?h \<inter> set (faddrs ?F) \<subseteq> V"
        then have "fcompact V ?F" using compact_mono [OF less.prems(3)] by blast
        then show "fcompact V H \<and> ccompact V C (Suc (tops H))" using ccompact_mono [of V C "tops H"] by (simp add: plug_compact)
      qed (use Cons None fsub_None in auto)
      moreover have "insertLoop v ?p search c = Some (newLeafUnder ?p search v c)"
        using None gc Cons by (subst insertLoop.simps) simp
      ultimately show ?thesis by blast
    next
      case (Some q)
      obtain a s ch where q: "q = (a, s, ch)" by (metis prod_cases3)
      note sub = fsub_Some [OF Some [unfolded q] H(2,3)]
      obtain C' sb where C': "?F = plug C' (Branch a s ch sb)" "par ?r C' = ?p" "path C' = path C"
        using fsub_plug [OF Some [unfolded q], of C ?r] by blast
      define l where "l = longestCommonPrefix search s"
      note lf = lcp_facts [of search s, folded l_def]
      have ll: "longestCommonPrefix (b # rest) s = l" by (simp add: l_def Cons)
      have l0: "0 < l" using lf(5) sub(6,7) Cons by simp
      show ?thesis
      proof (cases "l = length s")
        case True
        then have eq: "s @ drop l search = search" using lf(1) append_take_drop_id [of l search] by simp
        let ?C = "InChild a s sb C'"
        have F: "plug ?C ch = ?F" using C'(1) by simp
        have "\<exists>res. insertLoop v (par ?r ?C) (drop l search) c = Some res \<and> inserted v (path ?C @ drop l search) c (plug ?C ch) res"
          by (rule less.hyps) (use less.prems F eq C'(3) l0 Cons in auto)
        moreover have "insertLoop v ?p search c = insertLoop v a (drop l search) c"
          using Cons Some q gc sub(1) True by (subst insertLoop.simps) (simp add: ll)
        moreover have "path ?C @ drop l search = path C @ search" using C'(3) eq by simp
        ultimately show ?thesis using F by simp
      next
        case False
        then have ls: "l < length s" using lf(3) by simp
        have t': "tree_inv c (plug C' (Branch a s ch sb))" using less.prems(1) C'(1) by simp
        obtain c1 n where sp: "splitChild (par ?r C') a l c = Inr (c1, n)"
          "tree_inv c1 (plug C' (Branch n (take l s) (Branch a (drop l s) ch Tip) sb))"
          "body (rc_heap c1 n) = zeroBody" "n \<notin> set (?r # faddrs ?F)" "grown c {} c1"
          using splitChild_spec [OF t' l0 ls] C'(1) by auto
        let ?C1 = "InChild n (take l s) sb C'" and ?H1 = "Branch a (drop l s) ch Tip"
        let ?F1 = "plug ?C1 ?H1"
        have r1: "rc_root c1 = ?r" using grown_fields [OF sp(5)] by simp
        have nv: "\<not> rn_hasValue (rc_heap c1 n)" using sp(3) by (simp add: body_def zeroBody_def)
        have v1: "vkeys c1 ?F1 = vkeys c ?F"
          by (rule vkeys_grown [OF less.prems(1) sp(5), where N = "{(n, path C @ take l s)}"])
            (use nv C' in \<open>auto simp: allkeyed_plug\<close>)
        have b1: "bearing ?h \<inter> set (faddrs ?F) \<subseteq> bearing (rc_heap c1)"
        proof
          fix x assume x: "x \<in> bearing ?h \<inter> set (faddrs ?F)"
          then have "x < rc_nextAddr c" using tree_inv_nodes(1) [OF less.prems(1)] by simp
          then show "x \<in> bearing (rc_heap c1)"
            using sp(5) x body_hasValue [of "rc_heap c1 x" "?h x"] by (auto simp: grown_def bearing_def)
        qed
        have cm: "fcompact V ?H1 \<and> ccompact V C' (Suc (tops sb)) \<and> fcompact V sb" if "bearing (rc_heap c1) \<inter> set (faddrs ?F1) \<subseteq> V" for V
        proof -
          have "set (faddrs ?F) \<subseteq> set (faddrs ?F1)" using C'(1) by (auto simp: plug_addrs_set)
          then have "fcompact V ?F" using compact_mono [OF less.prems(3)] b1 that by blast
          then show ?thesis unfolding C'(1) plug_compact by simp
        qed
        have tk: "take l s = take l search" using lf(1) by simp
        have step: "insertLoop v ?p search c = Some (bindr (splitChild ?p a l c) (\<lambda>(c1, splitNode).
           if l = length search
           then Inr (setNode splitNode (\<lambda>x. x\<lparr>rn_value := v, rn_hasValue := True\<rparr>) c1, splitNode)
           else newLeafUnder splitNode (drop l search) v c1))"
          using Cons Some q gc sub(1) False by (subst insertLoop.simps) (simp add: ll)
        have "inserted v (path C @ search) c1 ?F1 (if l = length search
           then Inr (setNode n (\<lambda>x. x\<lparr>rn_value := v, rn_hasValue := True\<rparr>) c1, n) else newLeafUnder n (drop l search) v c1)"
        proof (cases "l = length search")
          case True
          then have pe: "path ?C1 = path C @ search" using tk C'(3) by simp
          have cc: "fcompact (insert n (bearing (rc_heap c1))) ?F1"
            using cm [of "insert n (bearing (rc_heap c1))"] by (auto simp: plug_compact)
          show ?thesis
            using insert_here [of c1 ?C1 ?H1 v] sp(2) cc v1 less.prems(4) True unfolding pe r1 by auto
        next
          case nl: False
          then have dn: "drop l search \<noteq> []" "hd (drop l search) \<notin> firsts ?H1" using lf(2,4) ls by auto
          have pe: "path ?C1 @ drop l search = path C @ search" using tk C'(3) by simp
          have "inserted v (path ?C1 @ drop l search) c1 ?F1 (newLeafUnder (par (rc_root c1) ?C1) (drop l search) v c1)"
            by (rule insert_leaf) (use sp(2) cm dn r1 in auto)
          then show ?thesis using nl unfolding pe by simp
        qed
        then have "inserted v (path C @ search) c ?F (if l = length search
           then Inr (setNode n (\<lambda>x. x\<lparr>rn_value := v, rn_hasValue := True\<rparr>) c1, n) else newLeafUnder n (drop l search) v c1)"
          using inserted_via [OF _ sp(5) v1] by blast
        then show ?thesis using step sp(1) C'(2) by simp
      qed
    qed
  qed
qed

lemma insertNode_spec:
  assumes "tree_inv c F" "fcompact (bearing (rc_heap c)) F" "\<And>a. (a, k) \<notin> vkeys c F"
  shows "inserted v k c F (radixCache_insertNode k v c)"
  using insertLoop_spec [of c Top F k v] assms by (auto simp: radixCache_insertNode_def)

end
