(* ===== verification/RadixShadow.thy ===== *)
theory RadixShadow
  imports RadixInsert MapReclaim
begin

text \<open>
  A radix cache seen as a map cache. The nodes that bear values are linked into a recency list exactly as the
  entries of the map backend are, and the bookkeeping around it is the same. \<open>shadow K as c\<close> is the map cache
  that has the list and the books of \<open>c\<close>, with \<open>K\<close> the key each node stands for, and an index of the nodes
  \<open>as\<close>. The invariant \<open>mid\<close> and the descriptions \<open>sheds\<close>, \<open>quiet\<close> and \<open>reclaims\<close> of the map backend then apply to
  the radix backend; what the tree adds is \<open>bound K c as\<close>: it binds exactly the keys of the list.

  Without an entry callback the radix backend does not reconstruct keys, so its events may carry an empty
  key that nobody reads. \<open>qsim\<close> relates its queue to one that has the keys.
\<close>

definition entryOf :: "(addr \<Rightarrow> string) \<Rightarrow> 'v radixHeap \<Rightarrow> 'v heap" where
  "entryOf K h a = \<lparr>ekey = K a, prev = rn_prev (h a), next = rn_next (h a), esize = rn_size (h a), evalue = rn_value (h a)\<rparr>"

definition listOf :: "radixEnds \<Rightarrow> entryList" where
  "listOf l = \<lparr>head = r_head l, tail = r_tail l, len = r_len l\<rparr>"

definition shadow :: "(addr \<Rightarrow> string) \<Rightarrow> addr list \<Rightarrow> 'v radixCache \<Rightarrow> 'v mapCache" where
  "shadow K as c = \<lparr>m_maxSize = rc_maxSize c, m_currentSize = rc_currentSize c, m_heap = entryOf K (rc_heap c),
     m_nextAddr = rc_nextAddr c, m_entries = listOf (rc_ends c), m_index = map (\<lambda>a. (K a, a)) as, m_dirtyIndex = False,
     m_weigher = rc_weigher c, m_onEvictValue = rc_onEvictValue c, m_onEvictEntry = rc_onEvictEntry c, m_ps = rc_ps c\<rparr>"

lemma shadow_simps [simp]:
  "m_maxSize (shadow K as c) = rc_maxSize c" "m_currentSize (shadow K as c) = rc_currentSize c"
  "m_heap (shadow K as c) = entryOf K (rc_heap c)" "m_nextAddr (shadow K as c) = rc_nextAddr c"
  "m_entries (shadow K as c) = listOf (rc_ends c)" "m_index (shadow K as c) = map (\<lambda>a. (K a, a)) as"
  "m_weigher (shadow K as c) = rc_weigher c" "m_onEvictValue (shadow K as c) = rc_onEvictValue c"
  "m_onEvictEntry (shadow K as c) = rc_onEvictEntry c" "m_ps (shadow K as c) = rc_ps c"
  "mapLen (shadow K as c) = radixLen c" "hasEvictCB (shadow K as c) = radixHasCB c"
  by (simp_all add: shadow_def mapLen_def radixLen_def listOf_def entryList_Len_def hasEvictCB_def radixHasCB_def)

lemma listOf_simps [simp]: "head (listOf l) = r_head l" "tail (listOf l) = r_tail l" "len (listOf l) = r_len l"
  by (simp_all add: listOf_def)

lemma entryOf_simps [simp]:
  "ekey (entryOf K h a) = K a" "prev (entryOf K h a) = rn_prev (h a)" "next (entryOf K h a) = rn_next (h a)"
  "esize (entryOf K h a) = rn_size (h a)" "evalue (entryOf K h a) = rn_value (h a)"
  by (simp_all add: entryOf_def)

lemma onRps_simps [simp]:
  "rc_maxSize (onRps f c) = rc_maxSize c" "rc_currentSize (onRps f c) = rc_currentSize c"
  "rc_heap (onRps f c) = rc_heap c" "rc_nextAddr (onRps f c) = rc_nextAddr c" "rc_root (onRps f c) = rc_root c"
  "rc_ends (onRps f c) = rc_ends c" "rc_weigher (onRps f c) = rc_weigher c" "rc_recycleNodes (onRps f c) = rc_recycleNodes c"
  "rc_onEvictValue (onRps f c) = rc_onEvictValue c" "rc_onEvictEntry (onRps f c) = rc_onEvictEntry c"
  "rc_ps (onRps f c) = f (rc_ps c)" "radixLen (onRps f c) = radixLen c" "radixHasCB (onRps f c) = radixHasCB c"
  "rc_recyclingForPut (onRps f c) = rc_recyclingForPut c"
  by (simp_all add: onRps_def radixLen_def radixHasCB_def)

lemma shadow_onRps: "shadow K as (onRps f c) = onPs f (shadow K as c)"
  by (simp add: shadow_def onPs_def)

lemma entryOf_upd: "entryOf K (h(a := n)) = (entryOf K h)(a := \<lparr>ekey = K a, prev = rn_prev n, next = rn_next n, esize = rn_size n, evalue = rn_value n\<rparr>)"
  by (auto simp: entryOf_def)

lemma entryOf_cong: "(\<And>a. body (h' a) = body (h a)) \<Longrightarrow> entryOf K h' = entryOf K h"
  by (auto simp: entryOf_def body_def)

subsection \<open>The recency list\<close>

lemma dll_ends:
  assumes "dll (h, l) as" "a \<in> set as"
  shows "prev (h a) = None \<longleftrightarrow> head l = Some a" "next (h a) = None \<longleftrightarrow> tail l = Some a"
proof -
  obtain xs ys where as: "as = xs @ a # ys" "a \<notin> set xs" "a \<notin> set ys"
    using split_of_member assms by (metis dll_distinct)
  have l: "prev (h a) = final None xs" "next (h a) = first ys None" "head l = first (xs @ [a]) None" "tail l = final (Some a) ys"
    using assms(1) as(1) by (simp_all add: dll_def lseg_append)
  have "prev (h a) = None \<longleftrightarrow> xs = []" using l(1) by simp
  then show "prev (h a) = None \<longleftrightarrow> head l = Some a" using as(2) l(3) by (cases xs) auto
  show "next (h a) = None \<longleftrightarrow> tail l = Some a"
  proof (cases ys rule: rev_cases)
    case (snoc zs z)
    then show ?thesis using as(3) l(2,4) by (cases zs) auto
  qed (use l in simp)
qed

definition inert :: "'v radixNode \<Rightarrow> (string \<times> addr option \<times> addr option \<times> addr option) \<times> bool \<times> u64 \<times> 'v" where
  \<comment> \<open>what the list operations leave alone\<close>
  "inert n = (links n, rn_hasValue n, rn_size n, rn_value n)"

lemma inert_simps [simp]:
  "inert ((h(a := (h a)\<lparr>rn_prev := p\<rparr>)) x) = inert (h x)" "inert ((h(a := (h a)\<lparr>rn_next := p\<rparr>)) x) = inert (h x)"
  "inert ((h(a := (h a)\<lparr>rn_prev := p, rn_next := n\<rparr>)) x) = inert (h x)"
  by (simp_all add: inert_def links_def)

lemma inertD:
  "inert x = inert y \<Longrightarrow> links x = links y \<and> rn_hasValue x = rn_hasValue y \<and> rn_size x = rn_size y \<and> rn_value x = rn_value y"
  by (simp add: inert_def)

lemma entryOf_set:
  "entryOf K (h(a := (h a)\<lparr>rn_prev := p\<rparr>)) = setPrev a p (entryOf K h)"
  "entryOf K (h(a := (h a)\<lparr>rn_next := n\<rparr>)) = setNext a n (entryOf K h)"
  "entryOf K (h(a := (h a)\<lparr>rn_prev := p, rn_next := n\<rparr>)) = setNext a n (setPrev a p (entryOf K h))"
  by (auto simp: entryOf_def setPrev_def setNext_def)

lemma entry_fields: "rn_prev (h a) = prev (entryOf K h a)" "rn_next (h a) = next (entryOf K h a)"
  by simp_all

lemma moveToFront_entry:
  assumes "dll (entryOf K h, listOf l) as" "a \<in> set as" "moveToFront a (h, l) = (h', l')"
  shows "MoveToFront a (entryOf K h, listOf l) = (entryOf K h', listOf l')" "\<And>x. inert (h' x) = inert (h x)"
proof -
  note e = dll_ends [OF assms(1,2), simplified]
  have "MoveToFront a (entryOf K h, listOf l) = (entryOf K h', listOf l') \<and> (\<forall>x. inert (h' x) = inert (h x))"
  proof (cases "r_head l = Some a")
    case True
    then show ?thesis using assms(3) by (simp add: MoveToFront_def moveToFront_def)
  next
    case False
    then obtain p where p: "rn_prev (h a) = Some p" using e(1) by (cases "rn_prev (h a)") auto
    obtain f where f: "r_head l = Some f" using assms(1,2) by (cases as) (auto simp: dll_def)
    define h1 where "h1 = h(p := (h p)\<lparr>rn_next := rn_next (h a)\<rparr>)"
    have 1: "entryOf K h1 = setNext p (rn_next (h a)) (entryOf K h)" "rn_next (h1 a) = rn_next (h a)"
      "inert (h1 x) = inert (h x)" for x
      by (simp_all only: h1_def entryOf_set entryOf_simps inert_simps) simp
    define h2 where "h2 = (case rn_next (h1 a) of Some n \<Rightarrow> h1(n := (h1 n)\<lparr>rn_prev := rn_prev (h1 a)\<rparr>) | None \<Rightarrow> h1)"
    define l1 where "l1 = (if r_tail l = Some a then l\<lparr>r_tail := rn_prev (h2 a)\<rparr> else l)"
    have 2: "(entryOf K h2, listOf l1) = (case rn_next (h1 a) of
          Some n \<Rightarrow> (setPrev n (rn_prev (h1 a)) (entryOf K h1), listOf l)
        | None \<Rightarrow> (entryOf K h1, (listOf l)\<lparr>tail := rn_prev (h1 a)\<rparr>))" "inert (h2 x) = inert (h1 x)" for x
      using e(2) 1(2) by (auto simp: h2_def l1_def entryOf_set listOf_def simp del: fun_upd_apply split: option.splits)
    have f1: "r_head l1 = Some f" using f by (simp add: l1_def)
    define h3 where "h3 = h2(a := (h2 a)\<lparr>rn_prev := None, rn_next := Some f\<rparr>)"
    have 3: "entryOf K h3 = setNext a (Some f) (setPrev a None (entryOf K h2))" by (simp only: h3_def entryOf_set)
    have r: "h' = h3(f := (h3 f)\<lparr>rn_prev := Some a\<rparr>)" "l' = l1\<lparr>r_head := Some a\<rparr>"
      using assms(3) False p f1
      unfolding moveToFront_def Let_def prod.case p option.case h1_def [symmetric] h2_def [symmetric] l1_def [symmetric] f1 h3_def [symmetric]
      by auto
    have "MoveToFront a (entryOf K h, listOf l) = (entryOf K h', listOf l')"
      unfolding MoveToFront_def Let_def prod.case entryOf_simps(2,3) p option.case 1(1) [symmetric] 2(1) [symmetric] r entryOf_set
      using False f f1 3 by (simp add: listOf_def)
    then show ?thesis using 1(3) 2(2) by (simp add: r h3_def del: fun_upd_apply)
  qed
  then show "MoveToFront a (entryOf K h, listOf l) = (entryOf K h', listOf l')" "\<And>x. inert (h' x) = inert (h x)" by auto
qed

lemma pushFront_entry:
  assumes "dll (entryOf K h, listOf l) as" "pushFront a (h, l) = (h', l')"
  shows "PushFront a (entryOf K h, listOf l) = (entryOf K h', listOf l')" "\<And>x. inert (h' x) = inert (h x)"
proof -
  have ht: "r_head l = None \<longleftrightarrow> r_tail l = None" using assms(1) by (auto simp: dll_def)
  define h1 where "h1 = h(a := (h a)\<lparr>rn_prev := None, rn_next := r_head l\<rparr>)"
  have P1: "entryOf K h1 = setNext a (r_head l) (setPrev a None (entryOf K h))" by (simp only: h1_def entryOf_set)
  have i1: "inert (h1 x) = inert (h x)" for x by (simp add: h1_def del: fun_upd_apply)
  have "PushFront a (entryOf K h, listOf l) = (entryOf K h', listOf l') \<and> (\<forall>x. inert (h' x) = inert (h x))"
  proof (cases "r_head l")
    case None
    then have "h' = h1" "l' = l\<lparr>r_head := Some a, r_tail := Some a, r_len := r_len l + 1\<rparr>"
      using assms(2) ht by (auto simp: pushFront_def Let_def h1_def)
    then show ?thesis using None P1 i1 by (simp add: PushFront_def Let_def listOf_def)
  next
    case (Some f)
    then have "h' = h1(f := (h1 f)\<lparr>rn_prev := Some a\<rparr>)" "l' = l\<lparr>r_head := Some a, r_len := r_len l + 1\<rparr>"
      using assms(2) ht by (auto simp: pushFront_def Let_def h1_def)
    then show ?thesis using Some P1 i1 by (simp add: PushFront_def Let_def listOf_def entryOf_set del: fun_upd_apply)
  qed
  then show "PushFront a (entryOf K h, listOf l) = (entryOf K h', listOf l')" "\<And>x. inert (h' x) = inert (h x)" by auto
qed

lemma unlinkNode_entry:
  assumes "dll (entryOf K h, listOf l) as" "a \<in> set as" "unlinkNode a (h, l) = (h', l')"
  shows "Remove a (entryOf K h, listOf l) = (entryOf K h', listOf l')" "\<And>x. inert (h' x) = inert (h x)"
    "rn_prev (h' a) = None" "rn_next (h' a) = None" "\<And>x. x \<notin> set as \<Longrightarrow> h' x = h x"
proof -
  note e = dll_ends [OF assms(1,2), simplified]
  define s1 where "s1 = (case rn_prev (h a) of
      Some p \<Rightarrow> (h(p := (h p)\<lparr>rn_next := rn_next (h a)\<rparr>), l) | None \<Rightarrow> (h, l\<lparr>r_head := rn_next (h a)\<rparr>))"
  obtain h1 l1 where s1: "s1 = (h1, l1)" by (rule prod.exhaust)
  have 1: "(entryOf K h1, listOf l1) = (case prev (entryOf K h a) of
      Some p \<Rightarrow> (setNext p (next (entryOf K h a)) (entryOf K h), listOf l)
    | None \<Rightarrow> (entryOf K h, if head (listOf l) = Some a then (listOf l)\<lparr>head := next (entryOf K h a)\<rparr> else listOf l))"
    "r_tail l1 = r_tail l" "inert (h1 x) = inert (h x)" "rn_next (h1 a) = rn_next (h a)" for x
    using s1 e(1) by (auto simp: s1_def entryOf_set listOf_def simp del: fun_upd_apply split: option.splits) (auto)
  define s2 where "s2 = (case rn_next (h1 a) of
      Some n \<Rightarrow> (h1(n := (h1 n)\<lparr>rn_prev := rn_prev (h1 a)\<rparr>), l1) | None \<Rightarrow> (h1, l1\<lparr>r_tail := rn_prev (h1 a)\<rparr>))"
  obtain h2 l2 where s2: "s2 = (h2, l2)" by (rule prod.exhaust)
  have 2: "(entryOf K h2, listOf l2) = (case next (entryOf K h1 a) of
      Some n \<Rightarrow> (setPrev n (prev (entryOf K h1 a)) (entryOf K h1), listOf l1)
    | None \<Rightarrow> (entryOf K h1, if tail (listOf l1) = Some a then (listOf l1)\<lparr>tail := prev (entryOf K h1 a)\<rparr> else listOf l1))"
    "inert (h2 x) = inert (h1 x)" for x
    using s2 e(2) 1(2,4) by (auto simp: s2_def entryOf_set listOf_def simp del: fun_upd_apply split: option.splits)
  have r: "h' = h2(a := (h2 a)\<lparr>rn_prev := None, rn_next := None\<rparr>)" "l' = l2\<lparr>r_len := r_len l2 - 1\<rparr>"
    using assms(3) e(1) unfolding unlinkNode_def Let_def prod.case s1_def [symmetric] s1 s2_def [symmetric] s2 by auto
  show "Remove a (entryOf K h, listOf l) = (entryOf K h', listOf l')"
    unfolding Remove_def Let_def prod.case 1(1) [symmetric] 2(1) [symmetric] r entryOf_set by (simp add: listOf_def)
  show "inert (h' x) = inert (h x)" for x using 1(3) 2(2) by (simp add: r del: fun_upd_apply)
  show "rn_prev (h' a) = None" "rn_next (h' a) = None" by (simp_all add: r)
  obtain xs ys where as: "as = xs @ a # ys" using assms(2) by (metis split_list)
  have nb: "rn_prev (h a) = final None xs" "rn_next (h a) = first ys None"
    using assms(1) as by (simp_all add: dll_def lseg_append)
  show "h' x = h x" if x: "x \<notin> set as" for x
  proof -
    have "h1 x = h x" using s1 nb(1) x as final_mem [of xs x] by (auto simp: s1_def split: option.splits)
    moreover have "h2 x = h1 x" using s2 1(4) nb(2) x as first_mem [of ys x] by (auto simp: s2_def split: option.splits)
    ultimately show ?thesis using x assms(2) by (auto simp: r)
  qed
qed

lemma unlinkNode_size:
  "unlinkNode a (h(a := (h a)\<lparr>rn_size := z\<rparr>), l) = (case unlinkNode a (h, l) of (h', l') \<Rightarrow> (h'(a := (h' a)\<lparr>rn_size := z\<rparr>), l'))"
  by (cases "rn_prev (h a)"; cases "rn_next (h a)") (auto simp: unlinkNode_def Let_def fun_eq_iff)

subsection \<open>The keys of the list\<close>

definition bound :: "(addr \<Rightarrow> string) \<Rightarrow> ('v :: zero) radixCache \<Rightarrow> addr list \<Rightarrow> bool" where
  "bound K c as = (\<exists>F. tree_inv c F \<and> fcompact (bearing (rc_heap c)) F \<and> vkeys c F = (\<lambda>a. (a, K a)) ` set as)"

lemma bound_same:
  assumes "bound K c as" "rc_root c' = rc_root c" "rc_nextAddr c' = rc_nextAddr c" "rc_heap c' = rc_heap c" "rc_recycleNodes c' = rc_recycleNodes c"
  shows "bound K c' as"
  using assms by (simp add: bound_def tree_inv_def vkeys_def)

lemma bound_onRps [simp]: "bound K (onRps f c) as = bound K c as"
  by (simp add: bound_def tree_inv_def vkeys_def)

lemma bound_K: "bound K c as \<Longrightarrow> (\<And>a. a \<in> set as \<Longrightarrow> K' a = K a) \<Longrightarrow> bound K' c as"
  unfolding bound_def by (metis (no_types, lifting) image_cong)

lemma bound_set: "bound K c as \<Longrightarrow> set bs = set as \<Longrightarrow> bound K c bs"
  by (simp add: bound_def)

lemma bound_bearing: "bound K c as \<Longrightarrow> a \<in> set as \<Longrightarrow> rn_hasValue (rc_heap c a)"
  by (force simp: bound_def vkeys_def bearing_def)

lemma bound_small: "bound K c as \<Longrightarrow> a \<in> set as \<Longrightarrow> a < rc_nextAddr c"
proof -
  assume "bound K c as" "a \<in> set as"
  then obtain F where F: "tree_inv c F" "(a, K a) \<in> vkeys c F" unfolding bound_def by blast
  then have "a \<in> set (rc_root c # faddrs F)" using allkeyed_mem by (auto simp: vkeys_def)
  then show ?thesis using tree_inv_nodes(1) [OF F(1)] by blast
qed

lemma bound_inj: "bound K c as \<Longrightarrow> a \<in> set as \<Longrightarrow> b \<in> set as \<Longrightarrow> K a = K b \<Longrightarrow> a = b"
  unfolding bound_def using vkeys_unique by (metis (no_types, lifting) image_eqI)

lemma bound_getNode:
  assumes "bound K c as"
  shows "radixCache_getNode c k = Inr (find (\<lambda>a. K a = k) as)"
proof -
  obtain F where F: "tree_inv c F" "vkeys c F = (\<lambda>a. (a, K a)) ` set as" using assms by (auto simp: bound_def)
  obtain x where x: "radixCache_getNode c k = Inr x" "\<forall>a. x = Some a \<longleftrightarrow> (a, k) \<in> vkeys c F"
    using getNode_spec [OF F(1)] by blast
  show ?thesis
  proof (cases "find (\<lambda>a. K a = k) as")
    case None
    then have "x = None" using x(2) F(2) by (cases x) (auto simp: find_None_iff)
    then show ?thesis using x(1) None by simp
  next
    case (Some a)
    then have "a \<in> set as" "K a = k" by (auto simp: find_Some_iff)
    then have "x = Some a" using x(2) F(2) by auto
    then show ?thesis using x(1) Some by simp
  qed
qed

lemma bound_reconstructKey: "bound K c as \<Longrightarrow> a \<in> set as \<Longrightarrow> radixCache_reconstructKey c (Some a) = Inr (K a)"
proof -
  assume "bound K c as" "a \<in> set as"
  then obtain F where F: "tree_inv c F" "(a, K a) \<in> vkeys c F" unfolding bound_def by blast
  then show ?thesis using reconstructKey_vkeys [OF F(1)] by (auto simp: vkeys_def)
qed

lemma bound_list:
  \<comment> \<open>an operation on the recency list or on the values of the list's nodes\<close>
  assumes "bound K c as" "rc_root c' = rc_root c" "rc_nextAddr c' = rc_nextAddr c" "rc_recycleNodes c' = rc_recycleNodes c"
    "\<And>x. links (rc_heap c' x) = links (rc_heap c x) \<and> rn_hasValue (rc_heap c' x) = rn_hasValue (rc_heap c x)"
    "\<And>x. x \<notin> set as \<Longrightarrow> rc_heap c' x = rc_heap c x"
  shows "bound K c' as"
proof -
  obtain F where F: "tree_inv c F" "fcompact (bearing (rc_heap c)) F" "vkeys c F = (\<lambda>a. (a, K a)) ` set as"
    using assms(1) by (auto simp: bound_def)
  have b: "bearing (rc_heap c') = bearing (rc_heap c)" using assms(5) by (simp add: bearing_def)
  have out: "rc_heap c' x = rc_heap c x" if "\<not> rn_hasValue (rc_heap c x)" for x
    using assms(6) [of x] bound_bearing [OF assms(1)] that by blast
  have "tree (rc_heap c') (rc_root c) F"
    using tree_invD(1) [OF F(1)] assms(5) repr_cong [of F "rc_heap c'" "rc_heap c"] crepr_cong [of "rc_root c" Top "rc_heap c'" "rc_heap c"]
    by (simp add: tree_def)
  moreover have "rootlinks (rc_heap c' (rc_root c)) = rootlinks (rc_heap c (rc_root c))"
    using assms(5) [of "rc_root c"] by (simp add: links_def rootlinks_def)
  moreover have "rc_heap c' x = zeroNode" if "x \<in> set (rc_recycleNodes c)" for x
    using tree_inv_nodes(5) [OF F(1) that] out [of x] by (simp add: zeroNode_def)
  moreover have "body (rc_heap c' x) = zeroBody" if "x \<in> set (rc_root c # faddrs F)" "\<not> rn_hasValue (rc_heap c' x)" for x
    using tree_inv_nodes(2) [OF F(1) that(1)] out [of x] assms(5) [of x] that(2) by simp
  ultimately have "tree_inv c' F"
    using tree_invD(2,3) [OF F(1)] tree_inv_nodes(1,3-6) [OF F(1)] unfolding tree_inv_def Let_def assms(2-4) by simp
  then show ?thesis using F(2,3) b assms(2) by (auto simp: bound_def vkeys_def)
qed


subsection \<open>Queues with and without keys\<close>

definition ev_sim :: "unit option \<Rightarrow> string \<times> 'v \<times> EvictionReason \<Rightarrow> string \<times> 'v \<times> EvictionReason \<Rightarrow> bool" where
  "ev_sim onEntry x y = (snd x = snd y \<and> (onEntry \<noteq> None \<longrightarrow> fst x = fst y))"

definition qsim :: "unit option \<Rightarrow> 'v evictCallbackQueue \<Rightarrow> 'v evictCallbackQueue \<Rightarrow> bool" where
  "qsim onEntry q g = (queue_wf q \<and> queue_wf g \<and> list_all2 (ev_sim onEntry) (queue_events q) (queue_events g))"

lemma qsim_refl: "queue_wf q \<Longrightarrow> qsim e q q"
  by (simp add: qsim_def ev_sim_def list_all2_refl)

lemma qsim_enqueue:
  assumes "qsim e q g" "k = k' \<or> e = None"
  shows "qsim e (enqueue k v r q) (enqueue k' v r g)"
proof -
  have "ev_sim e (k, v, r) (k', v, r)" using assms(2) by (auto simp: ev_sim_def)
  then show ?thesis using assms(1) by (simp add: qsim_def list_all2_appendI)
qed

lemma qsim_deliveries:
  assumes "qsim e q g"
  shows "evictQueue_invoke v e q = deliveries v e (queue_events g)"
proof -
  have "list_all2 (ev_sim e) xs ys \<Longrightarrow> deliveries v e xs = deliveries v e ys" for xs ys
    by (induction rule: list_all2_induct) (auto simp: deliveries_def ev_sim_def)
  then have "deliveries v e (queue_events q) = deliveries v e (queue_events g)" using assms unfolding qsim_def by blast
  then show ?thesis using assms by (simp add: qsim_def evictQueue_invoke_events)
qed

subsection \<open>Erasing a node\<close>

definition likes :: "(addr \<Rightarrow> string) \<Rightarrow> addr list \<Rightarrow> ('v :: zero) radixCache \<Rightarrow> 'v mapCache \<Rightarrow> bool" where
  \<comment> \<open>the map cache has the list and the books of the radix cache, and its tree binds their keys\<close>
  "likes K as c m = (m_maxSize m = rc_maxSize c \<and> m_currentSize m = rc_currentSize c \<and> m_nextAddr m = rc_nextAddr c
     \<and> m_entries m = listOf (rc_ends c) \<and> m_weigher m = rc_weigher c \<and> m_onEvictValue m = rc_onEvictValue c
     \<and> m_onEvictEntry m = rc_onEvictEntry c \<and> m_ps m = rc_ps c
     \<and> (\<exists>K'. (\<forall>a\<in>set as. K' a = K a) \<and> m_heap m = entryOf K' (rc_heap c))
     \<and> map_repr m as \<and> bound K c as)"

lemma likes_shadow: "map_repr (shadow K as c) as \<Longrightarrow> bound K c as \<Longrightarrow> likes K as c (shadow K as c)"
  by (auto simp: likes_def)

lemma index_shadow:
  assumes "bound K c as" "distinct as" "\<And>a. a \<in> set as \<Longrightarrow> K' a = K a"
  shows "index_ok (map (\<lambda>a. (K a, a)) as) (entryOf K' h) as"
proof -
  have "inj_on K (set as)" using bound_inj [OF assms(1)] by (auto intro: inj_onI)
  then show ?thesis using assms(2,3) by (auto simp: index_ok_def distinct_map comp_def)
qed

lemma likes_repr:
  assumes "likes K as c m"
  shows "map_repr (shadow K as c) as"
proof -
  obtain K' where K': "\<forall>a\<in>set as. K' a = K a" "m_heap m = entryOf K' (rc_heap c)" using assms by (auto simp: likes_def)
  have d: "dll (entryOf K' (rc_heap c), listOf (rc_ends c)) as" and b: "bound K c as"
    using assms K' by (auto simp: likes_def map_repr_def)
  have "lseg (entryOf K (rc_heap c)) None as None = lseg (entryOf K' (rc_heap c)) None as None" by (rule lseg_cong) simp_all
  then have "dll (entryOf K (rc_heap c), listOf (rc_ends c)) as" using d by (simp add: dll_def)
  then show ?thesis using index_shadow [OF b dll_distinct [OF d], of K] bound_small [OF b] by (simp add: map_repr_def)
qed

lemma likes_mid:
  assumes "likes K as c m"
  shows "mid W d dd rr ss m as = mid W d dd rr ss (shadow K as c) as"
  using likes_repr [OF assms] assms by (simp add: mid_def likes_def)

lemma likes_sheds:
  assumes "likes K as' c m" "sheds st as gone (m, g) as'"
  shows "sheds st as gone (shadow K as' c, g) as'"
proof -
  obtain c0 q0 where st: "st = (c0, q0)" by (rule prod.exhaust)
  obtain K' where K': "\<forall>a\<in>set as'. K' a = K a" "m_heap m = entryOf K' (rc_heap c)" using assms by (auto simp: likes_def)
  have pay: "payload (entryOf K (rc_heap c) a) = payload (m_heap m a)" if "a \<in> set as'" for a
    using that K' by (simp add: payload_def)
  have "cfg (shadow K as' c) = cfg m" using assms(1) by (simp add: cfg_def likes_def)
  then show ?thesis
    using assms(2) pay assms(1) unfolding sheds_def st prod.case by (auto simp: likes_def)
qed

lemma clear_bound:
  \<comment> \<open>after a node lost its value the tree is compact except there\<close>
  assumes F: "tree_inv c F" "fcompact (bearing (rc_heap c)) F" "vkeys c F = (\<lambda>a. (a, K a)) ` set as" and a: "a \<in> set as"
    and c': "rc_root c' = rc_root c" "rc_nextAddr c' = rc_nextAddr c" "rc_recycleNodes c' = rc_recycleNodes c"
    and l: "\<And>x. links (rc_heap c' x) = links (rc_heap c x)" "\<And>x. rn_hasValue (rc_heap c' x) = (rn_hasValue (rc_heap c x) \<and> x \<noteq> a)"
    and o: "\<And>x. x \<notin> set as \<Longrightarrow> rc_heap c' x = rc_heap c x" and b: "body (rc_heap c' a) = zeroBody"
  shows "tree_inv c' F" "fcompact (insert a (bearing (rc_heap c'))) F" "vkeys c' F = (\<lambda>a. (a, K a)) ` (set as - {a})"
    "a \<in> set (rc_root c' # faddrs F)"
proof -
  have bnd: "bound K c as" using F by (auto simp: bound_def)
  have out: "rc_heap c' x = rc_heap c x" if "\<not> rn_hasValue (rc_heap c x)" for x
    using o [of x] bound_bearing [OF bnd] that by blast
  have "tree (rc_heap c') (rc_root c) F"
    using tree_invD(1) [OF F(1)] l(1) repr_cong [of F "rc_heap c'" "rc_heap c"] crepr_cong [of "rc_root c" Top "rc_heap c'" "rc_heap c"]
    by (simp add: tree_def)
  moreover have "rootlinks (rc_heap c' (rc_root c)) = rootlinks (rc_heap c (rc_root c))"
    using l(1) [of "rc_root c"] by (simp add: links_def rootlinks_def)
  moreover have "rc_heap c' x = zeroNode" if "x \<in> set (rc_recycleNodes c)" for x
    using tree_inv_nodes(5) [OF F(1) that] out [of x] by (simp add: zeroNode_def)
  moreover have "body (rc_heap c' x) = zeroBody" if "x \<in> set (rc_root c # faddrs F)" "\<not> rn_hasValue (rc_heap c' x)" for x
    using tree_inv_nodes(2) [OF F(1) that(1)] out [of x] l(2) [of x] that(2) b by (cases "x = a") auto
  ultimately show "tree_inv c' F"
    using tree_invD(2,3) [OF F(1)] tree_inv_nodes(1,3-6) [OF F(1)] unfolding tree_inv_def Let_def c' by simp
  have "insert a (bearing (rc_heap c')) = bearing (rc_heap c)" using l(2) bound_bearing [OF bnd a] by (auto simp: bearing_def)
  then show "fcompact (insert a (bearing (rc_heap c'))) F" using F(2) by simp
  have "vkeys c' F = {(x, k) \<in> vkeys c F. x \<noteq> a}" using c'(1) l(2) by (auto simp: vkeys_def bearing_def)
  then show "vkeys c' F = (\<lambda>a. (a, K a)) ` (set as - {a})" unfolding F(3) by auto
  have "(a, K a) \<in> vkeys c F" using F(3) a by blast
  then have "(a, K a) \<in> set (allkeyed (rc_root c) F)" by (simp add: vkeys_def)
  then show "a \<in> set (rc_root c' # faddrs F)" unfolding c'(1) by (rule allkeyed_mem)
qed

lemma erase_sim:
  fixes c :: "('v :: zero) radixCache"
  assumes l: "likes K as c m" and q: "qsim (rc_onEvictEntry c) q g" and a: "a \<in> set as" and k: "key = K a \<or> rc_onEvictEntry c = None"
  obtains c' q' m' g' where
    "radixCache_eraseInternalWithKey a key r (c, q) = Inr ((c', q'), rn_value (rc_heap c a), True)"
    "mapCache_eraseEntryLocked a r (m, g) = ((m', g'), rn_value (rc_heap c a))"
    "likes K (remove1 a as) c' m'" "qsim (rc_onEvictEntry c') q' g'" "rc_onEvictEntry c' = rc_onEvictEntry c"
    "rc_recyclingForPut c' = rc_recyclingForPut c"
proof -
  let ?h = "rc_heap c" and ?z = "rn_size (rc_heap c a)"
  obtain K' where K': "\<forall>a\<in>set as. K' a = K a" "m_heap m = entryOf K' ?h" using l by (auto simp: likes_def)
  have lf: "m_maxSize m = rc_maxSize c" "m_currentSize m = rc_currentSize c" "m_nextAddr m = rc_nextAddr c" "m_entries m = listOf (rc_ends c)"
    "m_weigher m = rc_weigher c" "m_onEvictValue m = rc_onEvictValue c" "m_onEvictEntry m = rc_onEvictEntry c" "m_ps m = rc_ps c"
    and rep: "map_repr m as" and bnd: "bound K c as" using l by (auto simp: likes_def)
  have dll: "dll (entryOf K' ?h, listOf (rc_ends c)) as" using rep K' lf by (simp add: map_repr_def)
  have dist: "distinct as" using dll by (rule dll_distinct)
  obtain h4 l4 where u: "unlinkNode a (?h, rc_ends c) = (h4, l4)" by (rule prod.exhaust)
  note ue = unlinkNode_entry [OF dll a u]
  define h5 where "h5 = h4(a := (h4 a)\<lparr>rn_size := 0, rn_value := 0, rn_hasValue := False\<rparr>)"
  define c5 where "c5 = c\<lparr>rc_ps := onEntryDeleted ?z (rc_ps c), rc_currentSize := rc_currentSize c - ?z, rc_ends := l4, rc_heap := h5\<rparr>"
  have hv: "rn_hasValue (?h a)" by (rule bound_bearing [OF bnd a])
  have in4: "links (h4 x) = links (?h x)" "rn_hasValue (h4 x) = rn_hasValue (?h x)" "rn_size (h4 x) = rn_size (?h x)" "rn_value (h4 x) = rn_value (?h x)" for x
    using inertD [OF ue(2) [of x]] by auto
  have l5: "links (rc_heap c5 x) = links (?h x)" "rn_hasValue (rc_heap c5 x) = (rn_hasValue (?h x) \<and> x \<noteq> a)" for x
    using in4 [of x] in4 [of a] by (auto simp: c5_def h5_def links_def)
  have o5: "rc_heap c5 x = ?h x" if "x \<notin> set as" for x using ue(5) [OF that] that a by (auto simp: c5_def h5_def)
  have b5: "body (rc_heap c5 a) = zeroBody" using ue(3,4) by (simp add: c5_def h5_def body_def zeroBody_def)
  obtain F where F: "tree_inv c F" "fcompact (bearing ?h) F" "vkeys c F = (\<lambda>a. (a, K a)) ` set as" using bnd by (auto simp: bound_def)
  have c5f: "rc_root c5 = rc_root c" "rc_nextAddr c5 = rc_nextAddr c" "rc_recycleNodes c5 = rc_recycleNodes c" by (simp_all add: c5_def)
  note cb = clear_bound [OF F a c5f l5 o5 b5]
  obtain c6 F' where cp: "compressLoop (Some a) c5 = Some (Inr c6)" "tree_inv c6 F'" "fcompact (bearing (rc_heap c5)) F'"
    "vkeys c6 F' = vkeys c5 F" "same_bodies c5 c6"
    using compressLoop_spec [OF cb(1,4,2)] by blast
  have b6: "bound K c6 (remove1 a as)"
    unfolding bound_def using cp(2,3,4) cb(3) same_bodies_bearing [OF cp(5)] dist by (intro exI [of _ F']) (auto simp: set_remove1_eq)
  have ent6: "entryOf K'' (rc_heap c6) = entryOf K'' h5" for K''
    using cp(5) by (intro entryOf_cong) (simp add: same_bodies_def c5_def)
  note f6 = same_bodies_fields [OF cp(5)]
  define c' where "c' = onRps (recordEviction r ?z) c6"
  define q' where "q' = (if radixHasCB c then enqueue key (rn_value (?h a)) r q else q)"
  obtain m' g' v where er: "mapCache_eraseEntryLocked a r (m, g) = ((m', g'), v)" by (metis surj_pair)
  have Km: "ekey (m_heap m a) = K a" using K' a by simp
  define K5 where "K5 = K'(a := [])"
  have heap5: "m_heap m' = entryOf K5 h5" and ent5: "m_entries m' = listOf l4" and v: "v = rn_value (?h a)"
    and m'f: "m_maxSize m' = rc_maxSize c" "m_currentSize m' = rc_currentSize c - ?z" "m_nextAddr m' = rc_nextAddr c"
      "m_weigher m' = rc_weigher c" "m_onEvictValue m' = rc_onEvictValue c" "m_onEvictEntry m' = rc_onEvictEntry c"
      "m_ps m' = recordEviction r ?z (onEntryDeleted ?z (rc_ps c))" "m_index m' = AList.delete (K a) (m_index m)"
    and g': "g' = (if radixHasCB c then enqueue (K a) (rn_value (?h a)) r g else g)"
    using er ue(1) K' lf Km a
    by (auto simp: mapCache_eraseEntryLocked_def mapCache_notifyEvict_def Let_def onEntries_def K5_def h5_def entryOf_upd
        hasEvictCB_def radixHasCB_def fun_eq_iff entryOf_def)
  have rep': "map_repr m' (remove1 a as)"
  proof -
    have d4: "dll (entryOf K' h4, listOf l4) (remove1 a as)" using elist.remove_repr [OF dll a] ue(1) by simp
    have "lseg (entryOf K5 h5) None (remove1 a as) None = lseg (entryOf K' h4) None (remove1 a as) None"
      by (rule lseg_cong) (use dist in \<open>auto simp: h5_def\<close>)
    then have "dll (entryOf K5 h5, listOf l4) (remove1 a as)" using d4 by (simp add: dll_def)
    moreover have "index_ok (AList.delete (K a) (m_index m)) (entryOf K5 h5) (remove1 a as)"
      using index_ok_delete [of "m_index m" "m_heap m" as a "entryOf K5 h5"] rep a dist K' by (auto simp: map_repr_def K5_def)
    moreover have "x < rc_nextAddr c" if "x \<in> set (remove1 a as)" for x
      using bound_small [OF bnd] notin_set_remove1 that by fast
    ultimately show ?thesis by (simp add: map_repr_def heap5 ent5 m'f)
  qed
  have lk: "likes K (remove1 a as) c' m'"
    unfolding likes_def
  proof (intro conjI)
    show "\<exists>K''. (\<forall>b\<in>set (remove1 a as). K'' b = K b) \<and> m_heap m' = entryOf K'' (rc_heap c')"
      using ent6 K' heap5 dist by (intro exI [of _ K5]) (auto simp: c'_def K5_def)
  qed (use m'f f6 b6 rep' ent5 in \<open>simp_all add: c'_def c5_def\<close>)
  have "radixCache_eraseInternalWithKey a key r (c, q) = Inr ((c', q'), rn_value (?h a), True)"
  proof -
    have "onList (unlinkNode a) (setNode a (\<lambda>x. x\<lparr>rn_size := 0\<rparr>)
       ((onRps (onEntryDeleted ?z) c)\<lparr>rc_currentSize := rc_currentSize (onRps (onEntryDeleted ?z) c) - ?z\<rparr>))
      = (onRps (onEntryDeleted ?z) c)\<lparr>rc_currentSize := rc_currentSize c - ?z, rc_heap := h4(a := (h4 a)\<lparr>rn_size := 0\<rparr>), rc_ends := l4\<rparr>"
      by (simp add: onList_def setNode_def unlinkNode_size u)
    then have "setNode a (\<lambda>x. x\<lparr>rn_value := 0, rn_hasValue := False\<rparr>) (onList (unlinkNode a) (setNode a (\<lambda>x. x\<lparr>rn_size := 0\<rparr>)
       ((onRps (onEntryDeleted ?z) c)\<lparr>rc_currentSize := rc_currentSize (onRps (onEntryDeleted ?z) c) - ?z\<rparr>))) = c5"
      by (simp add: setNode_def c5_def h5_def onRps_def)
    then show ?thesis
      using hv cp(1) f6
      by (simp add: radixCache_eraseInternalWithKey_def Let_def radixCache_compressPathUpwards_def radixCache_notifyEvict_def
          c'_def q'_def radixHasCB_def c5_def)
  qed
  moreover have "qsim (rc_onEvictEntry c') q' g'"
    using q k f6 by (auto simp: q'_def g' c'_def c5_def intro!: qsim_enqueue)
  ultimately show thesis using that er lk v f6 by (simp add: c'_def c5_def)
qed

end
