(* ===== verification/RadixLoops.thy ===== *)
theory RadixLoops
  imports RadixShadow MapSpec
begin

text \<open>
  The eviction loops of the radix backend run in step with those of the map backend on a cache that \<open>likes\<close>
  it: each iteration erases the same entry, so what is proved of the map loops holds of the radix loops.
\<close>

lemma likes_view:
  assumes "likes K as c m"
  shows "mapLen m = radixLen c" "m_ps m = rc_ps c" "m_maxSize m = rc_maxSize c" "m_currentSize m = rc_currentSize c"
    "entryList_Back (m_entries m) = r_tail (rc_ends c)" "r_tail (rc_ends c) = final None as" "radixLen c = int (length as)"
    "prev (m_heap m a) = rn_prev (rc_heap c a)" "esize (m_heap m a) = rn_size (rc_heap c a)" "evalue (m_heap m a) = rn_value (rc_heap c a)"
    "bound K c as" "distinct as" "r_head (rc_ends c) = first as None"
proof -
  have "dll (m_heap m, m_entries m) as" using assms by (auto simp: likes_def map_repr_def)
  then have d: "dll (m_heap m, listOf (rc_ends c)) as" using assms by (auto simp: likes_def)
  show "r_tail (rc_ends c) = final None as" "radixLen c = int (length as)" "distinct as" "r_head (rc_ends c) = first as None"
    using d by (simp_all add: dll_def radixLen_def)
qed (use assms in \<open>auto simp: likes_def mapLen_def entryList_Len_def radixLen_def entryList_Back_def\<close>)

lemma eraseInternal_sim:
  fixes c :: "('v :: zero) radixCache"
  assumes "likes K as c m" "qsim (rc_onEvictEntry c) q g" "a \<in> set as"
  obtains c' q' m' g' where "radixCache_eraseInternal a r (c, q) = Inr ((c', q'), rn_value (rc_heap c a), True)"
    "mapCache_eraseEntryLocked a r (m, g) = ((m', g'), rn_value (rc_heap c a))"
    "likes K (remove1 a as) c' m'" "qsim (rc_onEvictEntry c') q' g'" "rc_onEvictEntry c' = rc_onEvictEntry c"
    "rc_recyclingForPut c' = rc_recyclingForPut c"
proof -
  let ?key = "if rc_onEvictEntry c \<noteq> None then K a else []"
  note v = likes_view(11) [OF assms(1)]
  have "radixCache_eraseInternal a r (c, q) = radixCache_eraseInternalWithKey a ?key r (c, q)"
    using bound_bearing [OF v assms(3)] bound_reconstructKey [OF v assms(3)] by (simp add: radixCache_eraseInternal_def)
  moreover have k: "?key = K a \<or> rc_onEvictEntry c = None" by auto
  obtain c' q' m' g' where "radixCache_eraseInternalWithKey a ?key r (c, q) = Inr ((c', q'), rn_value (rc_heap c a), True)"
    "mapCache_eraseEntryLocked a r (m, g) = ((m', g'), rn_value (rc_heap c a))"
    "likes K (remove1 a as) c' m'" "qsim (rc_onEvictEntry c') q' g'" "rc_onEvictEntry c' = rc_onEvictEntry c"
    "rc_recyclingForPut c' = rc_recyclingForPut c"
    by (rule erase_sim [OF assms k, where r = r])
  ultimately show thesis using that [of c' q' m' g'] by simp
qed

lemma evictOne_sim:
  fixes c :: "('v :: zero) radixCache"
  assumes "likes K (as @ [a]) c m" "qsim (rc_onEvictEntry c) q g"
  obtains c' q' m' g' where "radixCache_evictOne (c, q) = Inr ((c', q'), rn_value (rc_heap c a), True)"
    "mapCache_evictOne (m, g) = ((m', g'), rn_value (rc_heap c a), True)"
    "mapCache_eraseEntryLocked a EvictionReasonCapacity (m, g) = ((m', g'), rn_value (rc_heap c a))"
    "likes K as c' m'" "qsim (rc_onEvictEntry c') q' g'" "rc_onEvictEntry c' = rc_onEvictEntry c"
    "rc_recyclingForPut c' = rc_recyclingForPut c"
proof -
  note v = likes_view [OF assms(1)]
  have rm: "remove1 a (as @ [a]) = as" using v(12) by (simp add: remove1_append)
  have a: "a \<in> set (as @ [a])" by simp
  obtain c' q' m' g' where e: "radixCache_eraseInternal a EvictionReasonCapacity (c, q) = Inr ((c', q'), rn_value (rc_heap c a), True)"
    "mapCache_eraseEntryLocked a EvictionReasonCapacity (m, g) = ((m', g'), rn_value (rc_heap c a))"
    "likes K as c' m'" "qsim (rc_onEvictEntry c') q' g'" "rc_onEvictEntry c' = rc_onEvictEntry c" "rc_recyclingForPut c' = rc_recyclingForPut c"
    using eraseInternal_sim [OF assms a, where r = EvictionReasonCapacity, unfolded rm] by blast
  show thesis
    by (rule that [OF _ _ e(2,3,4,5,6)])
      (use e v(5,6) in \<open>simp_all add: radixCache_evictOne_def mapCache_evictOne_def\<close>)
qed

lemma insertEvictLoop_sim:
  fixes c :: "('v :: zero) radixCache"
  assumes "likes K as c m" "qsim (rc_onEvictEntry c) q g"
  shows "\<exists>c' q' m' g' as' rc' vals ev'. insertEvictLoop w ev rc acc (m, g) = Some (Inr ((m', g'), rc', vals, ev'))
    \<and> radixInsertEvictLoop w ev acc (c, q) = Some (Inr ((c', q'), vals, ev'))
    \<and> likes K as' c' m' \<and> qsim (rc_onEvictEntry c') q' g' \<and> rc_recyclingForPut c' = rc_recyclingForPut c"
  using assms
proof (induction as arbitrary: c m q g ev rc acc rule: rev_induct)
  case Nil
  note v = likes_view [OF Nil(1)]
  have "insertEvictLoop w ev rc acc (m, g) = Some (Inr ((m, g), rc, acc, ev))"
    using v by (subst insertEvictLoop.simps) simp
  moreover have "radixInsertEvictLoop w ev acc (c, q) = Some (Inr ((c, q), acc, ev))"
    using v by (subst radixInsertEvictLoop.simps) simp
  ultimately show ?case using Nil by blast
next
  case (snoc a as)
  note v = likes_view [OF snoc.prems(1)]
  let ?b = "shouldEvictPreInsertOnPut (rc_ps c) w (rc_maxSize c) (rc_currentSize c) (radixLen c) ev"
  show ?case
  proof (cases ?b)
    case False
    have "insertEvictLoop w ev rc acc (m, g) = Some (Inr ((m, g), rc, acc, ev))"
      using v False by (subst insertEvictLoop.simps) simp
    moreover have "radixInsertEvictLoop w ev acc (c, q) = Some (Inr ((c, q), acc, ev))"
      using False by (subst radixInsertEvictLoop.simps) simp
    ultimately show ?thesis using snoc.prems by blast
  next
    case True
    obtain c1 q1 m1 g1 where e: "radixCache_evictOne (c, q) = Inr ((c1, q1), rn_value (rc_heap c a), True)"
      "mapCache_eraseEntryLocked a EvictionReasonCapacity (m, g) = ((m1, g1), rn_value (rc_heap c a))"
      "likes K as c1 m1" "qsim (rc_onEvictEntry c1) q1 g1" "rc_recyclingForPut c1 = rc_recyclingForPut c"
      by (rule evictOne_sim [OF snoc.prems])
    have "insertEvictLoop w ev rc acc (m, g) = insertEvictLoop w True (if rc = None then Some a else rc) (acc @ [rn_value (rc_heap c a)]) (m1, g1)"
      using v True e(2) by (subst insertEvictLoop.simps) simp
    moreover have "radixInsertEvictLoop w ev acc (c, q) = radixInsertEvictLoop w True (acc @ [rn_value (rc_heap c a)]) (c1, q1)"
      using v True e(1) by (subst radixInsertEvictLoop.simps) simp
    ultimately show ?thesis
      using snoc.IH [OF e(3,4), of True "if rc = None then Some a else rc" "acc @ [rn_value (rc_heap c a)]"] e(5) by simp
  qed
qed

lemma updateEvictLoop_sim:
  fixes c :: "('v :: zero) radixCache"
  assumes "likes K (e # as) c m" "qsim (rc_onEvictEntry c) q g"
  shows "\<exists>c' q' m' g' as' vals ev'. updateEvictLoop w hz ev acc (m, g) = Some ((m', g'), vals, ev')
    \<and> radixUpdateEvictLoop e w hz ev acc (c, q) = Some (Inr ((c', q'), vals, ev'))
    \<and> likes K as' c' m' \<and> qsim (rc_onEvictEntry c') q' g' \<and> rc_recyclingForPut c' = rc_recyclingForPut c"
  using assms
proof (induction as arbitrary: c m q g ev acc rule: rev_induct)
  case Nil
  note v = likes_view [OF Nil(1)]
  have "updateEvictLoop w hz ev acc (m, g) = Some ((m, g), acc, ev)"
    using v by (subst updateEvictLoop.simps) simp
  moreover have "radixUpdateEvictLoop e w hz ev acc (c, q) = Some (Inr ((c, q), acc, ev))"
    using v by (subst radixUpdateEvictLoop.simps) simp
  ultimately show ?case using Nil by blast
next
  case (snoc a as)
  have l: "likes K ((e # as) @ [a]) c m" using snoc.prems(1) by simp
  note v = likes_view [OF l]
  let ?b = "rc_maxSize c - rc_currentSize c < w \<or> (hz \<and> \<not> ev)"
  show ?case
  proof (cases ?b)
    case False
    have "updateEvictLoop w hz ev acc (m, g) = Some ((m, g), acc, ev)"
      using v False by (subst updateEvictLoop.simps) auto
    moreover have "radixUpdateEvictLoop e w hz ev acc (c, q) = Some (Inr ((c, q), acc, ev))"
      using False by (subst radixUpdateEvictLoop.simps) auto
    ultimately show ?thesis using snoc.prems by blast
  next
    case True
    obtain c1 q1 m1 g1 where e: "radixCache_evictOne (c, q) = Inr ((c1, q1), rn_value (rc_heap c a), True)"
      "mapCache_evictOne (m, g) = ((m1, g1), rn_value (rc_heap c a), True)"
      "likes K (e # as) c1 m1" "qsim (rc_onEvictEntry c1) q1 g1" "rc_recyclingForPut c1 = rc_recyclingForPut c"
      by (rule evictOne_sim [OF l snoc.prems(2)])
    have "updateEvictLoop w hz ev acc (m, g) = updateEvictLoop w hz True (acc @ [rn_value (rc_heap c a)]) (m1, g1)"
      using v True e(2) by (subst updateEvictLoop.simps) simp
    moreover have "a \<noteq> e" using v(12) by auto
    then have "radixUpdateEvictLoop e w hz ev acc (c, q) = radixUpdateEvictLoop e w hz True (acc @ [rn_value (rc_heap c a)]) (c1, q1)"
      using v(6) True e(1) by (subst radixUpdateEvictLoop.simps) simp
    ultimately show ?thesis
      using snoc.IH [OF e(3,4), of True "acc @ [rn_value (rc_heap c a)]"] e(5) by simp
  qed
qed

lemma growEvictLoop_sim:
  fixes c :: "('v :: zero) radixCache"
  assumes "likes K as c m" "qsim (rc_onEvictEntry c) q g"
  shows "\<exists>c' q' m' g' as' ev'. growEvictLoop e dl ev (m, g) = Some ((m', g'), ev')
    \<and> radixGrowEvictLoop e dl ev (c, q) = Some (Inr ((c', q'), ev'))
    \<and> likes K as' c' m' \<and> qsim (rc_onEvictEntry c') q' g'"
  using assms
proof (induction as arbitrary: c m q g ev rule: rev_induct)
  case Nil
  note v = likes_view [OF Nil(1)]
  have "growEvictLoop e dl ev (m, g) = Some ((m, g), ev)" using v by (subst growEvictLoop.simps) simp
  moreover have "radixGrowEvictLoop e dl ev (c, q) = Some (Inr ((c, q), ev))"
    using v by (subst radixGrowEvictLoop.simps) simp
  ultimately show ?case using Nil by blast
next
  case (snoc a as)
  note v = likes_view [OF snoc.prems(1)]
  let ?b = "rc_maxSize c - rc_currentSize c < dl \<and> a \<noteq> e"
  show ?case
  proof (cases ?b)
    case False
    have "growEvictLoop e dl ev (m, g) = Some ((m, g), ev)" using v False by (subst growEvictLoop.simps) auto
    moreover have "radixGrowEvictLoop e dl ev (c, q) = Some (Inr ((c, q), ev))"
      using False v(6) by (subst radixGrowEvictLoop.simps) auto
    ultimately show ?thesis using snoc.prems by blast
  next
    case True
    obtain c1 q1 m1 g1 where e: "radixCache_evictOne (c, q) = Inr ((c1, q1), rn_value (rc_heap c a), True)"
      "mapCache_evictOne (m, g) = ((m1, g1), rn_value (rc_heap c a), True)"
      "likes K as c1 m1" "qsim (rc_onEvictEntry c1) q1 g1"
      by (rule evictOne_sim [OF snoc.prems])
    have "growEvictLoop e dl ev (m, g) = growEvictLoop e dl True (m1, g1)"
      using v True e(2) by (subst growEvictLoop.simps) simp
    moreover have "radixGrowEvictLoop e dl ev (c, q) = radixGrowEvictLoop e dl True (c1, q1)"
      using v(6) True e(1) by (subst radixGrowEvictLoop.simps) simp
    ultimately show ?thesis using snoc.IH [OF e(3,4), of True] by simp
  qed
qed

lemma shedLoop_sim:
  fixes c :: "('v :: zero) radixCache"
  assumes "likes K (pre @ suf) c m" "qsim (rc_onEvictEntry c) q g"
  shows "\<exists>c' q' m' g' as' vals. shedLoop et nf tz tln prot (final None pre) acc (m, g) = Some ((m', g'), vals)
    \<and> radixShedLoop et nf tz tln prot (final None pre) acc (c, q) = Some (Inr ((c', q'), vals))
    \<and> likes K as' c' m' \<and> qsim (rc_onEvictEntry c') q' g'"
  using assms
proof (induction pre arbitrary: c m q g suf acc rule: rev_induct)
  case Nil
  have "shedLoop et nf tz tln prot (final None []) acc (m, g) = Some ((m, g), acc)" by (subst shedLoop.simps) simp
  moreover have "radixShedLoop et nf tz tln prot (final None []) acc (c, q) = Some (Inr ((c, q), acc))"
    by (subst radixShedLoop.simps) simp
  ultimately show ?case using Nil by blast
next
  case (snoc x pre)
  let ?as = "pre @ x # suf"
  have l: "likes K ?as c m" using snoc.prems(1) by simp
  note v = likes_view [OF l]
  obtain nb nz where nbz: "shouldContinueShedding (rc_ps c) (rc_currentSize c) et nf tz (radixLen c) tln = (nb, nz)" by (rule prod.exhaust)
  have pv: "rn_prev (rc_heap c x) = final None pre"
  proof -
    have "dll (m_heap m, m_entries m) ?as" using l unfolding likes_def map_repr_def by blast
    then show ?thesis using v(8) [of x] by (simp add: dll_def lseg_append)
  qed
  let ?ev = "shouldEvictShedVictim (rc_ps c) (prot = Some x) (rn_size (rc_heap c x)) nf nb tz"
  consider (stop) "\<not> nb \<and> \<not> nz" | (evict) "nb \<or> nz" ?ev | (skip) "nb \<or> nz" "\<not> ?ev" by blast
  then show ?case
  proof cases
    case stop
    have "shedLoop et nf tz tln prot (final None (pre @ [x])) acc (m, g) = Some ((m, g), acc)"
      using stop nbz v by (subst shedLoop.simps) simp
    moreover have "radixShedLoop et nf tz tln prot (final None (pre @ [x])) acc (c, q) = Some (Inr ((c, q), acc))"
      using stop nbz by (subst radixShedLoop.simps) simp
    ultimately show ?thesis using l snoc.prems(2) by blast
  next
    case skip
    have "shedLoop et nf tz tln prot (final None (pre @ [x])) acc (m, g) = shedLoop et nf tz tln prot (final None pre) acc (m, g)"
      using skip nbz v pv by (subst shedLoop.simps) (auto simp: Let_def)
    moreover have "radixShedLoop et nf tz tln prot (final None (pre @ [x])) acc (c, q) = radixShedLoop et nf tz tln prot (final None pre) acc (c, q)"
      using skip nbz pv by (subst radixShedLoop.simps) (auto simp: Let_def)
    ultimately show ?thesis using snoc.IH [OF l snoc.prems(2), of acc] by simp
  next
    case evict
    have x: "x \<in> set ?as" "remove1 x ?as = pre @ suf" using v(12) by (auto simp: remove1_append)
    obtain c1 q1 m1 g1 where e: "radixCache_eraseInternal x EvictionReasonPressure (c, q) = Inr ((c1, q1), rn_value (rc_heap c x), True)"
      "mapCache_eraseEntryLocked x EvictionReasonPressure (m, g) = ((m1, g1), rn_value (rc_heap c x))"
      "likes K (pre @ suf) c1 m1" "qsim (rc_onEvictEntry c1) q1 g1"
      by (rule eraseInternal_sim [OF l snoc.prems(2) x(1), where r = EvictionReasonPressure, unfolded x(2)])
    let ?acc = "acc @ [rn_value (rc_heap c x)]"
    have "shedLoop et nf tz tln prot (final None (pre @ [x])) acc (m, g) = shedLoop et nf tz tln prot (final None pre) ?acc (m1, g1)"
      using evict nbz v pv e(2) by (subst shedLoop.simps) (auto simp: Let_def)
    moreover have "radixShedLoop et nf tz tln prot (final None (pre @ [x])) acc (c, q) = radixShedLoop et nf tz tln prot (final None pre) ?acc (c1, q1)"
      using evict nbz pv e(1) by (subst radixShedLoop.simps) (auto simp: Let_def)
    ultimately show ?thesis using snoc.IH [OF e(3,4), of ?acc] by simp
  qed
qed

lemma canFitLoop_sim:
  assumes "canFitLoop (entryOf K h) e mn dl nw av hc tc = Some y"
  shows "radixCanFitLoop h e mn dl nw av hc tc = Some y"
proof -
  have "h0 = entryOf K h \<longrightarrow> radixCanFitLoop h e mn dl nw av hc tc = Some y" if "canFitLoop h0 e mn dl nw av hc tc = Some y" for h0
    using that
  proof (rule canFitLoop.raw_induct [rotated])
    fix loop h0 e mn dl nw av hc tc y
    assume ih: "\<And>h0 e mn dl nw av hc tc y. loop h0 e mn dl nw av hc tc = Some y \<Longrightarrow>
        h0 = entryOf K h \<longrightarrow> radixCanFitLoop h e mn dl nw av hc tc = Some y"
      and b: "(if hc = Some e then Some (Inr True) else case hc of None \<Rightarrow> Some (Inl NilDeref)
       | Some c \<Rightarrow> let n = nw + esize (h0 c) in if mn < n then Some (Inr False) else if tc = Some e then Some (Inr False)
         else case tc of None \<Rightarrow> Some (Inl NilDeref) | Some t \<Rightarrow> let a = av + esize (h0 t) in
           if dl \<le> a then Some (Inr True) else loop h0 e mn dl n a (next (h0 c)) (prev (h0 t))) = Some y"
    show "h0 = entryOf K h \<longrightarrow> radixCanFitLoop h e mn dl nw av hc tc = Some y"
      using b ih by (subst radixCanFitLoop.simps) (auto simp: Let_def split: option.splits if_splits)
  qed
  then show ?thesis using assms by blast
qed

lemma canFitGrowth_sim:
  assumes "mapCache_canFitGrowthLocked (shadow K as c) e mn dl av = Inr b"
  shows "radixCache_canFitGrowthLocked c e mn dl av = Inr b"
proof (cases "dl \<le> av")
  case True
  then show ?thesis using assms by (simp add: mapCache_canFitGrowthLocked_def radixCache_canFitGrowthLocked_def)
next
  case False
  then obtain y where "canFitLoop (entryOf K (rc_heap c)) e mn dl 0 av (r_head (rc_ends c)) (r_tail (rc_ends c)) = Some y" "y = Inr b"
    using assms by (auto simp: mapCache_canFitGrowthLocked_def of_loop_def split: option.splits)
  then show ?thesis using False canFitLoop_sim by (fastforce simp: radixCache_canFitGrowthLocked_def)
qed

end
