(* ===== verification/RadixReclaim.thy ===== *)
theory RadixReclaim
  imports RadixLoops
begin

text \<open>
  Reclamation of the radix backend under pressure, against the same descriptions as the map backend:
  \<open>rmid\<close> is its invariant in the middle of a call, and \<open>sheds\<close>, \<open>quiet\<close> and \<open>reclaims\<close> speak of its shadow.
\<close>

definition rmid where
  "rmid W d dd rr ss K c as = (bound K c as \<and> mid W d dd rr ss (shadow K as c) as)"

definition rquiet :: "'v radixCache \<Rightarrow> 'v radixCache \<Rightarrow> bool" where
  \<comment> \<open>only counters changed\<close>
  "rquiet c c' = (c' = c\<lparr>rc_ps := rc_ps c'\<rparr> \<and> options (rc_ps c') = options (rc_ps c))"

lemma rquiet_refl [simp]: "rquiet c c"
  by (simp add: rquiet_def)

lemma rquiet_trans: "rquiet a b \<Longrightarrow> rquiet b c \<Longrightarrow> rquiet a c"
  by (cases a; cases b; cases c) (simp add: rquiet_def)

lemma rquiet_onRps: "options (f (rc_ps c')) = options (rc_ps c') \<Longrightarrow> rquiet c (onRps f c') = rquiet c c'"
  by (cases c; cases c') (simp add: rquiet_def onRps_def)

lemma rquiet_fields:
  "rquiet c c' \<Longrightarrow> rc_heap c' = rc_heap c \<and> rc_ends c' = rc_ends c \<and> rc_currentSize c' = rc_currentSize c \<and> rc_maxSize c' = rc_maxSize c
    \<and> rc_root c' = rc_root c \<and> rc_nextAddr c' = rc_nextAddr c \<and> rc_recycleNodes c' = rc_recycleNodes c \<and> rc_weigher c' = rc_weigher c
    \<and> rc_onEvictValue c' = rc_onEvictValue c \<and> rc_onEvictEntry c' = rc_onEvictEntry c \<and> options (rc_ps c') = options (rc_ps c)
    \<and> radixLen c' = radixLen c \<and> rc_recyclingForPut c' = rc_recyclingForPut c"
  by (cases c; cases c') (simp add: rquiet_def radixLen_def)

lemma rquiet_quiet: "rquiet c c' \<Longrightarrow> quiet (shadow K as c) (shadow K as c')"
  using rquiet_fields [of c c'] by (simp add: quiet_def cfg_def)

lemma rmidD:
  assumes "rmid W d dd rr ss K c as"
  shows "bound K c as" "mid W d dd rr ss (shadow K as c) as" "likes K as c (shadow K as c)" "radixLen c = int (length as)"
    "r_tail (rc_ends c) = final None as" "r_head (rc_ends c) = first as None" "distinct as"
proof -
  show b: "bound K c as" and m: "mid W d dd rr ss (shadow K as c) as" using assms by (simp_all add: rmid_def)
  then show l: "likes K as c (shadow K as c)" by (intro likes_shadow) (simp add: mid_def)
  note v = likes_view [OF l]
  show "radixLen c = int (length as)" "r_tail (rc_ends c) = final None as" "r_head (rc_ends c) = first as None" "distinct as"
    using v(7,6,13,12) .
qed

lemma rmid_weaken: "rmid W d dd rr ss K c as \<Longrightarrow> dd' \<le> dd \<Longrightarrow> rr' \<le> rr \<Longrightarrow> ss' \<le> ss \<Longrightarrow> rmid W d dd' rr' ss' K c as"
  using mid_weaken by (auto simp: rmid_def)

lemma rmid_onRps:
  "rmid W d dd rr ss K c as \<Longrightarrow>
   (\<And>n z. ps_ok (rc_ps c) n z dd rr ss \<Longrightarrow> n = length as \<Longrightarrow> ps_ok (f (rc_ps c)) n z dd' rr' ss') \<Longrightarrow>
   rmid W d dd' rr' ss' K (onRps f c) as"
  using mid_onPs [of W d dd rr ss "shadow K as c" as f] by (simp add: rmid_def shadow_onRps)

lemma rmid_keep:
  "rmid W d dd rr ss K c as \<Longrightarrow> ledger (f (rc_ps c)) = ledger (rc_ps c) \<Longrightarrow>
   (sampling_ok (rc_ps c) \<Longrightarrow> sampling_ok (f (rc_ps c))) \<Longrightarrow> rmid W d dd rr ss K (onRps f c) as"
  using mid_keep [of W d dd rr ss "shadow K as c" as f] by (simp add: rmid_def shadow_onRps)

lemma rmid_mark: "rmid W d dd rr ss K c as \<Longrightarrow> rmid W d dd rr ss K (onRps markReclaimedLocked c) as"
  by (rule rmid_keep) (simp_all add: markReclaimed_sampling)

lemma rmid_maybeMark: "rmid W d dd rr ss K c as \<Longrightarrow> rmid W d dd rr ss K (onRps (maybeMarkReclaimed b e x) c) as"
  by (rule rmid_keep) (simp_all add: maybeMarkReclaimed_sampling)

lemma rmid_recordCompaction: "rmid W d dd rr ss K c as \<Longrightarrow> rmid W d dd rr ss K (onRps (recordCompactionByPressure x) c) as"
  by (rule rmid_keep) simp_all

lemma rmid_resetWatermark: "rmid W d dd rr ss K c as \<Longrightarrow> rmid W d dd rr ss K (onRps (resetZeroWatermarkBelowTier2 x) c) as"
  by (rule rmid_keep) simp_all

lemma rcompact_spec:
  assumes "rmid W d dd rr ss K c as" "radixCache_compactDataStructuresLocked c = (c', b)"
  shows "rmid W d dd rr ss K c' as" "rquiet c c'" "\<not> b"
  using assms rmidD(4) [OF assms(1)]
  by (auto simp: radixCache_compactDataStructuresLocked_def rquiet_onRps intro!: rmid_onRps ps_ok_compacted)

lemma rclearEmpty_spec:
  assumes "rmid W d dd rr ss K c []"
  shows "rmid W d dd rr ss K (radixCache_clearEmptyTreeStateLocked c) []" "rquiet c (radixCache_clearEmptyTreeStateLocked c)"
  using assms ps_ok_reset [of "rc_ps c" 0 dd rr ss]
  by (auto simp: radixCache_clearEmptyTreeStateLocked_def rquiet_onRps rmid_def shadow_onRps mid_def map_repr_def)

lemma rresetEmpty_spec:
  assumes "rmid W d dd rr ss K c []"
  shows "rmid W d dd rr ss K (radixCache_resetEmptyTreeLocked c) []" "rquiet c (radixCache_resetEmptyTreeLocked c)"
  using rclearEmpty_spec [OF assms]
  by (simp_all add: radixCache_resetEmptyTreeLocked_def rquiet_onRps rmid_mark)

lemma rcompactLocked_spec:
  assumes "rmid W d dd rr ss K c as"
  shows "rmid W d dd rr ss K (radixCache_compactLocked c) as" "rquiet c (radixCache_compactLocked c)"
proof -
  obtain c' b where cd: "radixCache_compactDataStructuresLocked c = (c', b)" by (rule prod.exhaust)
  note c' = rcompact_spec [OF assms cd]
  show "rmid W d dd rr ss K (radixCache_compactLocked c) as" "rquiet c (radixCache_compactLocked c)"
    using c' cd by (simp_all add: radixCache_compactLocked_def)
qed

lemma rcompleteShed_spec:
  assumes m: "rmid W 0 0 0 ss K c as" and n: "0 < n \<longrightarrow> 1 \<le> ss" "0 \<le> ss"
    and r_def: "r = radixCache_completeShedAndCompactLocked n ret un uz tln bg c"
  shows "rmid W 0 0 0 0 K r as \<and> rquiet c r"
proof -
  define c1 where "c1 = (if 0 < n then onRps (recordPressureShed bg) c else c)"
  have "rmid W 0 0 0 (ss - 1) K (onRps (recordPressureShed bg) c) as" if "0 < n"
    by (rule rmid_onRps [OF m]) (rule ps_ok_shed, use n that in auto)
  then have "rmid W 0 0 0 (if 0 < n then ss - 1 else ss) K c1 as" using m by (simp add: c1_def)
  then have m1: "rmid W 0 0 0 0 K c1 as" by (rule rmid_weaken) (use n in auto)
  have q1: "rquiet c c1" by (simp add: c1_def rquiet_onRps)
  show ?thesis
  proof (cases "0 < n \<and> radixLen c1 = 0")
    case True
    then have as: "as = []" using rmidD(4) [OF m1] by simp
    define c2 where "c2 = (if shouldAutoCompactEntryCounts (rc_ps c1) True bg 0 then onRps recordTier2Compaction c1 else c1)"
    have "rmid W 0 0 0 0 K c2 []" using m1 by (auto simp: c2_def as intro!: rmid_keep)
    moreover have "rquiet c c2" using q1 by (simp add: c2_def rquiet_onRps)
    moreover have "r = radixCache_resetEmptyTreeLocked c2"
      unfolding r_def radixCache_completeShedAndCompactLocked_def Let_def c1_def [symmetric]
      by (simp only: if_P [OF True] c2_def [symmetric])
    ultimately show ?thesis using rresetEmpty_spec [of W 0 0 0 0 K c2] rquiet_trans [of c c2] as by simp
  next
    case False
    define c2 where "c2 = (if 0 < n then onRps (updateZeroWatermarkAfterShed ret (radixLen c1) un uz tln) c1 else c1)"
    have m2: "rmid W 0 0 0 0 K c2 as" using m1 by (auto simp: c2_def intro!: rmid_keep)
    have q2: "rquiet c c2" using q1 by (simp add: c2_def rquiet_onRps)
    obtain c3 b where c3: "(if radixCache_shouldAutoCompactLocked c2 bg
             then case radixCache_compactDataStructuresLocked c2 of (c', done) \<Rightarrow>
               (if done then onRps recordTier2Compaction c' else c', done)
             else (c2, False)) = (c3, b)"
      by (rule prod.exhaust)
    have "rmid W 0 0 0 0 K c3 as \<and> rquiet c c3"
    proof (cases "radixCache_shouldAutoCompactLocked c2 bg")
      case True
      obtain c' dn where cd: "radixCache_compactDataStructuresLocked c2 = (c', dn)" by (metis surj_pair)
      note rc = rcompact_spec [OF m2 cd]
      then show ?thesis using c3 True cd rquiet_trans [OF q2] by auto
    next
      case False
      then show ?thesis using c3 m2 q2 by simp
    qed
    moreover have "r = (if 0 < n \<or> b then onRps markReclaimedLocked c3 else c3)"
      unfolding r_def radixCache_completeShedAndCompactLocked_def Let_def c1_def [symmetric]
      by (simp only: if_not_P [OF False] c2_def [symmetric] c3 prod.case)
    ultimately show ?thesis by (simp add: rquiet_onRps rmid_mark)
  qed
qed

lemma likes_unique: "likes K as2 c m \<Longrightarrow> mid W d dd rr ss m as' \<Longrightarrow> as2 = as'"
  using mid_addrs [of W d dd rr ss m as'] addrs_dll [of m as2] by (auto simp: likes_def map_repr_def)

lemma likes_rmid: "likes K as2 c m \<Longrightarrow> mid W d dd rr ss m as' \<Longrightarrow> as2 = as' \<and> rmid W d dd rr ss K c as'"
  using likes_unique likes_mid likes_view(11) unfolding rmid_def by metis

lemma radixShedLoop_spec:
  fixes c :: "('v :: zero) radixCache"
  assumes m: "rmid W 0 dd rr ss K c as" and W: "\<And>a. a \<in> set as \<Longrightarrow> W a = rn_size (rc_heap c a)" and q: "qsim (rc_onEvictEntry c) q g"
  shows "\<exists>c' q' g' as' gs. radixShedLoop et nf tz tln prot (r_tail (rc_ends c)) [] (c, q)
      = Some (Inr ((c', q'), map (\<lambda>a. rn_value (rc_heap c a)) gs))
    \<and> rmid W 0 dd rr (ss + int (length gs)) K c' as' \<and> qsim (rc_onEvictEntry c') q' g'
    \<and> sheds (shadow K as c, g) as (map (\<lambda>a. (a, EvictionReasonPressure)) gs) (shadow K as' c', g') as'
    \<and> prot \<notin> Some ` set gs
    \<and> ((\<forall>e. prot = Some e \<longrightarrow> W e \<le> et) \<longrightarrow> rc_currentSize c' \<le> et)
    \<and> (nf \<longrightarrow> (\<forall>a\<in>set as'. prot = Some a))"
proof -
  note d = rmidD [OF m]
  obtain m' g' as' gs where s: "shedLoop et nf tz tln prot (final None as) [] (shadow K as c, g)
      = Some ((m', g'), map (\<lambda>a. rn_value (rc_heap c a)) gs)"
    "mid W 0 dd rr (ss + int (length gs)) m' as'"
    "sheds (shadow K as c, g) as (map (\<lambda>a. (a, EvictionReasonPressure)) gs) (m', g') as'" "prot \<notin> Some ` set gs"
    "(\<forall>e. prot = Some e \<longrightarrow> W e \<le> et) \<longrightarrow> m_currentSize m' \<le> et" "nf \<longrightarrow> (\<forall>a\<in>set as'. prot = Some a)"
    using shedLoop_spec [where pre = as and suf = "[]" and acc = "[]" and c = "shadow K as c", simplified, OF d(2) W,
        where q = g and et = et and nf = nf and tz = tz and tln = tln and prot = prot] by blast
  have l: "likes K (as @ []) c (shadow K as c)" using d(3) by simp
  obtain c' q' as2 where r: "radixShedLoop et nf tz tln prot (final None as) [] (c, q) = Some (Inr ((c', q'), map (\<lambda>a. rn_value (rc_heap c a)) gs))"
    "likes K as2 c' m'" "qsim (rc_onEvictEntry c') q' g'"
    using shedLoop_sim [OF l q, where et = et and nf = nf and tz = tz and tln = tln and prot = prot and acc = "[]"] s(1) by auto
  have as': "as2 = as'" "rmid W 0 dd rr (ss + int (length gs)) K c' as'" using likes_rmid [OF r(2) s(2)] by auto
  have "m_currentSize m' = rc_currentSize c'" by (rule likes_view(4) [OF r(2)])
  then show ?thesis
    using r(1,3) as'(2) s(4,5,6) likes_sheds [OF r(2) [unfolded as'(1)] s(3)] unfolding d(5) by auto
qed

lemma rshedAndCompact_spec:
  fixes c :: "('v :: zero) radixCache"
  assumes m: "rmid W 0 0 0 0 K c as" and W: "\<And>a. a \<in> set as \<Longrightarrow> W a = rn_size (rc_heap c a)" and q: "qsim (rc_onEvictEntry c) q g"
    and pr: "set_option prot \<subseteq> set as"
  shows "\<exists>c' q' g' as' gs. radixCache_shedAndCompactLocked t ret prot bg (c, q)
      = Inr ((c', q'), map (\<lambda>a. rn_value (rc_heap c a)) gs)
    \<and> rmid W 0 0 0 0 K c' as' \<and> qsim (rc_onEvictEntry c') q' g'
    \<and> sheds (shadow K as c, g) as (map (\<lambda>a. (a, EvictionReasonPressure)) gs) (shadow K as' c', g') as'
    \<and> prot \<notin> Some ` set gs
    \<and> (flt (Fin 0) ret \<longrightarrow> rc_currentSize c' \<le> max t (case prot of Some e \<Rightarrow> W e | None \<Rightarrow> 0))
    \<and> (feq ret (Fin 0) \<longrightarrow> (\<forall>a\<in>set as'. prot = Some a))"
proof -
  let ?ps = "case prot of Some e \<Rightarrow> rn_size (rc_heap c e) | None \<Rightarrow> 0"
  note d = rmidD [OF m]
  have pe: "(case prot of None \<Rightarrow> None | Some n \<Rightarrow> if \<not> rn_hasValue (rc_heap c n) then None else Some n) = prot"
    using pr bound_bearing [OF d(1)] by (auto split: option.splits)
  obtain et tln tz uz where ct: "computeShedTargets (rc_ps c) t ret (radixLen c) (prot \<noteq> None) ?ps = (et, tln, tz, uz)"
    by (metis prod_cases4)
  obtain c1 q1 g1 as' gs where sl:
    "radixShedLoop et (feq ret (Fin 0)) tz tln prot (r_tail (rc_ends c)) [] (c, q) = Some (Inr ((c1, q1), map (\<lambda>a. rn_value (rc_heap c a)) gs))"
    "rmid W 0 0 0 (0 + int (length gs)) K c1 as'" "qsim (rc_onEvictEntry c1) q1 g1"
    "sheds (shadow K as c, g) as (map (\<lambda>a. (a, EvictionReasonPressure)) gs) (shadow K as' c1, g1) as'" "prot \<notin> Some ` set gs"
    "(\<forall>e. prot = Some e \<longrightarrow> W e \<le> et) \<longrightarrow> rc_currentSize c1 \<le> et"
    "feq ret (Fin 0) \<longrightarrow> (\<forall>a\<in>set as'. prot = Some a)"
    using radixShedLoop_spec [OF m W q, where et = et and nf = "feq ret (Fin 0)" and tz = tz and tln = tln and prot = prot] by blast
  define c2 where "c2 = radixCache_completeShedAndCompactLocked (int (length (map (\<lambda>a. rn_value (rc_heap c a)) gs))) ret
     (\<not> (prot \<noteq> None) \<or> et \<le> t) uz tln bg c1"
  have c2: "rmid W 0 0 0 0 K c2 as' \<and> rquiet c1 c2"
    by (rule rcompleteShed_spec [OF sl(2) _ _ c2_def]) (auto simp: Suc_le_eq)
  have res: "radixCache_shedAndCompactLocked t ret prot bg (c, q) = Inr ((c2, q1), map (\<lambda>a. rn_value (rc_heap c a)) gs)"
    using sl(1) unfolding radixCache_shedAndCompactLocked_def Let_def fst_conv pe ct prod.case c2_def by simp
  have tgt: "rc_currentSize c2 \<le> max t (case prot of Some e \<Rightarrow> W e | None \<Rightarrow> 0)" if ret: "flt (Fin 0) ret"
  proof -
    have W': "?ps = (case prot of Some e \<Rightarrow> W e | None \<Rightarrow> 0)" using pr W by (auto split: option.splits)
    have "prot = Some e \<Longrightarrow> W e \<le> et" for e
      using computeShedTargets_protects [OF ct ret] W' by auto
    then have "rc_currentSize c2 \<le> et" using sl(6) rquiet_fields [OF conjunct2 [OF c2]] by auto
    moreover have "et \<le> max t ?ps"
      using ct ret flt_not_fge by (auto simp: computeShedTargets_def Let_def fle_def fge_def split: if_splits prod.splits)
    ultimately show ?thesis using W' by auto
  qed
  have sh: "sheds (shadow K as c, g) as (map (\<lambda>a. (a, EvictionReasonPressure)) gs) (shadow K as' c2, g1) as'"
    using quiet_sheds [OF rquiet_quiet sl(4)] c2 by blast
  have qs: "qsim (rc_onEvictEntry c2) q1 g1" using sl(3) rquiet_fields [OF conjunct2 [OF c2]] by simp
  show ?thesis
    by (rule exI [of _ c2], rule exI [of _ q1], rule exI [of _ g1], rule exI [of _ as'], rule exI [of _ gs])
      (use res c2 sl(5,7) tgt sh qs in blast)
qed

lemma rmaybeReclaim_spec:
  fixes c :: "('v :: zero) radixCache"
  assumes m: "rmid W 0 0 0 0 K c as" and W: "\<And>a. a \<in> set as \<Longrightarrow> W a = rn_size (rc_heap c a)" and q: "qsim (rc_onEvictEntry c) q g"
    and pr: "set_option prot \<subseteq> set as"
  shows "\<exists>c' q' g' as' gs. radixCache_maybeReclaimUnderPressureLocked x prot bg (c, q)
      = Inr ((c', q'), map (\<lambda>a. rn_value (rc_heap c a)) gs)
    \<and> rmid W 0 0 0 0 K c' as' \<and> qsim (rc_onEvictEntry c') q' g'
    \<and> reclaims x prot (shadow K as c, g) as gs (shadow K as' c', g') as'"
proof (cases "fge x (EvictionThreshold (options (rc_ps c)))")
  case True
  show ?thesis
  proof (cases "isSamplingGoroutine (rc_ps c)")
    case s: True
    have "radixCache_maybeReclaimUnderPressureLocked x prot bg (c, q) = Inr ((c, q), map (\<lambda>a. rn_value (rc_heap c a)) [])"
      using True s by (simp add: radixCache_maybeReclaimUnderPressureLocked_def)
    then show ?thesis using m q reclaims_refl [OF quiet_refl [of "shadow K as c"]] by metis
  next
    case False
    then have "radixCache_maybeReclaimUnderPressureLocked x prot bg (c, q)
        = radixCache_shedAndCompactLocked (tier2TargetSize (rc_ps c) (rc_maxSize c))
            (EvictionRetentionRatio (options (rc_ps c))) prot bg (c, q)"
      using True by (simp add: radixCache_maybeReclaimUnderPressureLocked_def)
    then show ?thesis
      using rshedAndCompact_spec [OF m W q pr, where t = "tier2TargetSize (rc_ps c) (rc_maxSize c)" and ret = "EvictionRetentionRatio (options (rc_ps c))" and bg = bg] True
      unfolding reclaims_def fst_conv shadow_simps by metis
  qed
next
  case False
  define c1 where "c1 = onRps (resetZeroWatermarkBelowTier2 x) c"
  have m1: "rmid W 0 0 0 0 K c1 as" and q1: "rquiet c c1"
    using m by (simp_all add: c1_def rmid_resetWatermark rquiet_onRps)
  obtain c2 b where cd: "radixCache_compactDataStructuresLocked c1 = (c2, b)" by (rule prod.exhaust)
  note c2 = rcompact_spec [OF m1 cd]
  define c3 where "c3 = (if fge x (CompactionThreshold (options (rc_ps c1)))
      \<and> radixCache_shouldAutoCompactLocked c1 bg \<and> \<not> isSamplingGoroutine (rc_ps c1) then c2 else c1)"
  have c3: "rmid W 0 0 0 0 K c3 as" "rquiet c c3"
    using m1 q1 c2 rquiet_trans [OF q1 c2(2)] by (simp_all add: c3_def)
  have "radixCache_maybeReclaimUnderPressureLocked x prot bg (c, q) = Inr ((c3, q), map (\<lambda>a. rn_value (rc_heap c a)) [])"
    unfolding radixCache_maybeReclaimUnderPressureLocked_def Let_def prod.case c1_def [symmetric] cd c3_def
    using False c2(3) by simp
  moreover have "qsim (rc_onEvictEntry c3) q g" using q rquiet_fields [OF c3(2)] by simp
  ultimately show ?thesis using c3(1) reclaims_refl [OF rquiet_quiet [OF c3(2)]] by blast
qed

lemma rfinishMutation_spec:
  fixes c :: "('v :: zero) radixCache"
  assumes m: "rmid W 0 0 0 0 K c as" and W: "\<And>a. a \<in> set as \<Longrightarrow> W a = rn_size (rc_heap c a)" and q: "qsim (rc_onEvictEntry c) q g"
    and pr: "set_option prot \<subseteq> set as"
  shows "\<exists>c' q' g' as' gs. radixCache_finishMutationReclaimLocked evs prot rp cp sb se x (c, q)
      = Inr ((c', q'), evs @ map (\<lambda>a. rn_value (rc_heap c a)) gs)
    \<and> rmid W 0 0 0 0 K c' as' \<and> qsim (rc_onEvictEntry c') q' g' \<and> reclaims x prot (shadow K as c, g) as gs (shadow K as' c', g') as'"
proof -
  obtain c1 q1 g1 as' gs where r: "radixCache_maybeReclaimUnderPressureLocked x prot False (c, q)
      = Inr ((c1, q1), map (\<lambda>a. rn_value (rc_heap c a)) gs)" "rmid W 0 0 0 0 K c1 as'" "qsim (rc_onEvictEntry c1) q1 g1"
    "reclaims x prot (shadow K as c, g) as gs (shadow K as' c1, g1) as'"
    using rmaybeReclaim_spec [OF m W q pr, where x = x and bg = False] by blast
  obtain c2 b where cd: "radixCache_compactDataStructuresLocked c1 = (c2, b)" by (rule prod.exhaust)
  note c2 = rcompact_spec [OF r(2) cd]
  define c3 where "c3 = (if shouldCompactAfterMutation (rc_ps c1) rp (rc_currentSize c1 < sb) (0 < deletedSinceCompact (rc_ps c1)) x then c2 else c1)"
  have c3: "rmid W 0 0 0 0 K c3 as'" "rquiet c1 c3" using r(2) c2 by (simp_all add: c3_def)
  define c4 where "c4 = (if shouldMarkReclaimedAfterMutation (rc_ps c3) rp (rc_currentSize c1 < sb) se x
     then onRps markReclaimedLocked c3 else c3)"
  have c4: "rmid W 0 0 0 0 K c4 as'" "rquiet c1 c4"
    using c3 by (simp_all add: c4_def rmid_mark rquiet_onRps)
  have "radixCache_finishMutationReclaimLocked evs prot rp cp sb se x (c, q)
      = Inr ((c4, q1), evs @ map (\<lambda>a. rn_value (rc_heap c a)) gs)"
    using c2(3) unfolding radixCache_finishMutationReclaimLocked_def r(1) bindr_simps prod.case Let_def cd
    by (simp add: c3_def c4_def)
  moreover have "qsim (rc_onEvictEntry c4) q1 g1" using r(3) rquiet_fields [OF c4(2)] by simp
  ultimately show ?thesis using c4(1) reclaims_quiet [OF r(4) rquiet_quiet [OF c4(2)]] by blast
qed

lemma rfinishDelete_spec:
  fixes c :: "('v :: zero) radixCache"
  assumes m: "rmid W 0 0 0 0 K c as" and W: "\<And>a. a \<in> set as \<Longrightarrow> W a = rn_size (rc_heap c a)" and q: "qsim (rc_onEvictEntry c) q g"
  shows "\<exists>c' q' g' as' gs. radixCache_finishDeleteReclaimLocked sb se x (c, q) = Inr (c', q')
    \<and> rmid W 0 0 0 0 K c' as' \<and> qsim (rc_onEvictEntry c') q' g' \<and> reclaims x None (shadow K as c, g) as gs (shadow K as' c', g') as'"
proof (cases "radixLen c = 0")
  case True
  then have as: "as = []" using rmidD(4) [OF m] by simp
  define c1 where "c1 = (if hasEmptyDeleteSlack (rc_ps c) False then onRps (recordCompactionByPressure x) c else c)"
  have c1: "rmid W 0 0 0 0 K c1 []" "rquiet c c1"
    using m by (simp_all add: c1_def as rmid_recordCompaction rquiet_onRps)
  define c2 where "c2 = onRps (maybeMarkReclaimed (hasEmptyDeleteSlack (rc_ps c) False \<or> 0 < sb) se x)
     (radixCache_clearEmptyTreeStateLocked c1)"
  have c2: "rmid W 0 0 0 0 K c2 []" "rquiet c c2"
    using rclearEmpty_spec [OF c1(1)] rquiet_trans [OF c1(2)] by (simp_all add: c2_def rmid_maybeMark rquiet_onRps)
  have "radixCache_finishDeleteReclaimLocked sb se x (c, q) = Inr (c2, q)"
    using True by (simp add: radixCache_finishDeleteReclaimLocked_def Let_def c1_def [symmetric] c2_def)
  moreover have "qsim (rc_onEvictEntry c2) q g" using q rquiet_fields [OF c2(2)] by simp
  ultimately show ?thesis using c2(1) reclaims_refl [OF rquiet_quiet [OF c2(2)]] unfolding as by blast
next
  case False
  define rs where "rs = shouldReclaimSingleSurvivorOnDelete (rc_ps c) (radixLen c) (0 < deletedSinceCompact (rc_ps c)) False"
  obtain c0 b where cd: "radixCache_compactDataStructuresLocked c = (c0, b)" by (rule prod.exhaust)
  note c0 = rcompact_spec [OF m cd]
  define c1 where "c1 = (if rs then c0 else c)"
  have c1: "rmid W 0 0 0 0 K c1 as" "rquiet c c1" using m c0 by (simp_all add: c1_def)
  note f1 = rquiet_fields [OF c1(2)]
  have W1: "\<And>a. a \<in> set as \<Longrightarrow> W a = rn_size (rc_heap c1 a)" and qs1: "qsim (rc_onEvictEntry c1) q g" using W q f1 by auto
  let ?p = "fge x (CompactionThreshold (options (rc_ps c1))) \<or> fge x (EvictionThreshold (options (rc_ps c1)))"
  define r where "r = (if ?p then radixCache_maybeReclaimUnderPressureLocked x None False (c1, q)
      else Inr ((onRps (resetZeroWatermarkBelowTier2 x) c1, q), []))"
  have "\<exists>c2 q2 g2 as' gs vs. r = Inr ((c2, q2), vs) \<and> rmid W 0 0 0 0 K c2 as' \<and> qsim (rc_onEvictEntry c2) q2 g2
      \<and> reclaims x None (shadow K as c1, g) as gs (shadow K as' c2, g2) as'"
  proof (cases ?p)
    case True
    then show ?thesis
      using rmaybeReclaim_spec [OF c1(1) W1 qs1, where x = x and prot = None and bg = False] unfolding r_def if_P [OF True] by auto blast+
  next
    case False
    let ?c2 = "onRps (resetZeroWatermarkBelowTier2 x) c1"
    have "rquiet c1 ?c2" by (simp add: rquiet_onRps)
    then have "reclaims x None (shadow K as c1, g) as [] (shadow K as ?c2, g) as" by (intro reclaims_refl rquiet_quiet)
    moreover have "r = Inr ((?c2, q), [])" using False by (simp add: r_def)
    moreover have "qsim (rc_onEvictEntry ?c2) q g" using qs1 by simp
    ultimately show ?thesis using rmid_resetWatermark [OF c1(1)] by blast
  qed
  then obtain c2 q2 g2 as' gs vs where r: "r = Inr ((c2, q2), vs)" "rmid W 0 0 0 0 K c2 as'" "qsim (rc_onEvictEntry c2) q2 g2"
    "reclaims x None (shadow K as c1, g) as gs (shadow K as' c2, g2) as'"
    by blast
  have rc: "reclaims x None (shadow K as c, g) as gs (shadow K as' c2, g2) as'"
    using r(4) rquiet_quiet [OF c1(2), of K as] sheds_trans [OF sheds_refl, of "shadow K as c1" "shadow K as c" g as] f1
    by (auto simp: reclaims_def quiet_def)
  let ?c3 = "onRps (maybeMarkReclaimed (rs \<or> rc_currentSize c2 < sb) se x) c2"
  have res: "radixCache_finishDeleteReclaimLocked sb se x (c, q) = Inr (?c3, q2)"
  proof -
    have cm: "(if rs then (if b then onRps (recordCompactionByPressure x) c0 else c0) else c) = c1" using c0(3) by (simp add: c1_def)
    show ?thesis
      using False r(1) unfolding radixCache_finishDeleteReclaimLocked_def Let_def prod.case rs_def [symmetric] cd cm r_def [symmetric] by simp
  qed
  have "rquiet c2 ?c3" by (simp add: rquiet_onRps)
  then have "reclaims x None (shadow K as c, g) as gs (shadow K as' ?c3, g2) as'" by (intro reclaims_quiet [OF rc] rquiet_quiet)
  moreover have "qsim (rc_onEvictEntry ?c3) q2 g2" using r(3) by simp
  ultimately show ?thesis
    using res rmid_maybeMark [OF r(2)] by blast
qed

end
