(* ===== verification/RadixCheck.thy ===== *)
theory RadixCheck
  imports RadixReclaim
begin

text \<open>
  The run-time checks of the radix backend pass whenever its invariant holds: the walk over the recency list
  and the traversal of the tree, which follows child, sibling and parent pointers, both end and find what they
  look for.
\<close>

definition sizes :: "'v radixHeap \<Rightarrow> addr \<Rightarrow> u64" where
  "sizes h a = rn_size (h a)"

lemma weights_entryOf [simp]: "weights (entryOf K h) = sizes h"
  by (simp add: weights_def sizes_def fun_eq_iff)

lemma no_overflow:
  assumes "unat (s :: u64) + unat w < 2 ^ 64"
  shows "\<not> - 1 - s < w"
proof -
  have "unat (- 1 :: u64) = 2 ^ 64 - 1" by (simp add: unsigned_minus_1_eq_mask mask_eq_exp_minus_1)
  then have "unat (- 1 - s) = 2 ^ 64 - 1 - unat s"
    using unat_sub_u64 [of s "- 1"] unat_lt_u64 [of s] by simp
  then show ?thesis using assms by (simp add: word_less_nat_alt)
qed

lemma checkRadixListLoop_spec:
  assumes m: "rmid (sizes (rc_heap c)) 0 dd rr ss K c (pre @ as)"
    and "unat s = weight_sum (map (sizes (rc_heap c)) pre)"
  shows "checkRadixListLoop c (first as None) (final None pre) s n z
    = Some (Inr (rc_currentSize c, n + int (length as), z + int (count_list (map (sizes (rc_heap c)) as) 0)))"
  using assms
proof (induction as arbitrary: pre s n z)
  case Nil
  then have "s = rc_currentSize c" by (simp add: rmid_def mid_def word_unat_eq_iff)
  then show ?case by (simp add: checkRadixListLoop.simps)
next
  case (Cons a as)
  let ?w = "sizes (rc_heap c)" and ?h = "rc_heap c"
  note d = rmidD [OF Cons.prems(1)]
  have dll: "dll (entryOf K ?h, listOf (rc_ends c)) (pre @ a # as)"
    using d(2) by (simp add: mid_def map_repr_def)
  have prev: "rn_prev (?h a) = final None pre" and nxt: "rn_next (?h a) = first as None"
    using dll by (auto simp: dll_def lseg_append)
  have hv: "rn_hasValue (?h a)" using bound_bearing [OF d(1)] by simp
  have pn: "case final None pre of None \<Rightarrow> r_head (rc_ends c) = Some a | Some p \<Rightarrow> rn_next (?h p) = Some a"
  proof (cases pre rule: rev_cases)
    case Nil
    then show ?thesis using d(6) by simp
  next
    case (snoc us p)
    then show ?thesis using dll by (simp add: dll_def lseg_append)
  qed
  have bk: "rn_next (?h a) = None \<Longrightarrow> r_tail (rc_ends c) = Some a" using d(5) nxt by simp
  have lk: "radixCache_checkLRUNodeLinkInvariants c a (final None pre) = Inr ()"
    using hv prev pn bk by (auto simp: radixCache_checkLRUNodeLinkInvariants_def Let_def split: option.splits)
  have lt: "unat s + unat (rn_size (?h a)) < 2 ^ 64"
    using Cons.prems unat_lt_u64 [of "rc_currentSize c"] by (simp add: rmid_def mid_def sizes_def)
  have wa: "?w a = rn_size (?h a)" by (simp add: sizes_def)
  have "unat (s + rn_size (?h a)) = weight_sum (map ?w (pre @ [a]))"
    using unat_add_u64 [OF lt] Cons.prems(2) by (simp add: wa)
  then have "checkRadixListLoop c (first as None) (final None (pre @ [a])) (s + rn_size (?h a)) (n + 1)
      (if rn_size (?h a) = 0 then z + 1 else z)
    = Some (Inr (rc_currentSize c, n + 1 + int (length as),
        (if rn_size (?h a) = 0 then z + 1 else z) + int (count_list (map ?w as) 0)))"
    using Cons.IH [of "pre @ [a]"] Cons.prems(1) by simp
  then show ?case
    using nxt no_overflow [OF lt] lk
    by (subst checkRadixListLoop.simps) (auto simp: Let_def wa)
qed

subsection \<open>The traversal of the tree\<close>

lemma checkChildrenLoop_spec:
  assumes "repr h p F" "ordered F" "pv \<noteq> None \<longrightarrow> rn_prefix (h (the pv)) \<noteq> [] \<and> (\<forall>b\<in>firsts F. hd (rn_prefix (h (the pv))) < b)"
  shows "checkChildrenLoop h p (fhead F) pv = Some (Inr ())"
  using assms
proof (induction F arbitrary: pv)
  case Tip
  then show ?case by (subst checkChildrenLoop.simps) simp
next
  case (Branch a s ch sb)
  have l: "rn_prefix (h a) = s" "rn_parent (h a) = Some p" "rn_sibling (h a) = fhead sb" "s \<noteq> []"
    using Branch.prems by (auto simp: links_def)
  have "checkChildrenLoop h p (fhead sb) (Some a) = Some (Inr ())"
    using Branch.IH(2) [of "Some a"] Branch.prems l by auto
  then show ?case
    using l Branch.prems(3)
    by (subst checkChildrenLoop.simps) (auto simp: prefixByte_def require_def split: option.splits list.splits)
qed

definition afterTree :: "('v :: zero) radixCache \<Rightarrow> addr \<Rightarrow> int \<Rightarrow> u64 \<Rightarrow> (int \<times> u64) res option" where
  \<comment> \<open>\<open>checkTreeLoop\<close> when everything below a node has been visited\<close>
  "afterTree c cur cnt sm = (case backtrackLoop (rc_heap c) (rc_root c) cur of
     None \<Rightarrow> None
   | Some (Inl p) \<Rightarrow> Some (Inl p)
   | Some (Inr b) \<Rightarrow> if b = rc_root c then Some (Inr (cnt, sm))
       else (case rn_sibling (rc_heap c b) of None \<Rightarrow> Some (Inr (cnt, sm)) | Some s \<Rightarrow> checkTreeLoop c s cnt sm))"

lemma afterTree_root: "afterTree c (rc_root c) cnt sm = Some (Inr (cnt, sm))"
  unfolding afterTree_def by (subst backtrackLoop.simps) simp

lemma afterTree_node:
  assumes "a \<noteq> rc_root c" "rn_sibling (rc_heap c a) = x" "rn_parent (rc_heap c a) = Some p"
  shows "afterTree c a cnt sm = (case x of None \<Rightarrow> afterTree c p cnt sm | Some s \<Rightarrow> checkTreeLoop c s cnt sm)"
  unfolding afterTree_def using assms by (subst backtrackLoop.simps) (auto split: option.splits)

definition node_ok :: "('v :: zero) radixCache \<Rightarrow> addr \<Rightarrow> bool" where
  "node_ok c a = (bindr (radixCache_checkTreeNodeInvariants c a) (\<lambda>_. radixCache_checkChildrenAndCompactness c a) = Inr ())"

definition borne :: "('v :: zero) radixCache \<Rightarrow> addr list \<Rightarrow> addr list" where
  "borne c as = filter (\<lambda>a. rn_hasValue (rc_heap c a)) as"

lemma borne_simps [simp]:
  "borne c [] = []" "borne c (a # as) = (if rn_hasValue (rc_heap c a) then a # borne c as else borne c as)"
  "borne c (as @ bs) = borne c as @ borne c bs"
  by (simp_all add: borne_def)

lemma checkTree_visit:
  assumes ok: "node_ok c a" and s: "rn_hasValue (rc_heap c a) \<longrightarrow> unat sm + unat (rn_size (rc_heap c a)) < 2 ^ 64"
    and cnt'_def: "cnt' = (if rn_hasValue (rc_heap c a) then cnt + 1 else cnt)"
    and sm'_def: "sm' = (if rn_hasValue (rc_heap c a) then sm + rn_size (rc_heap c a) else sm)"
  shows "checkTreeLoop c a cnt sm = (case rn_child (rc_heap c a) of Some ch \<Rightarrow> checkTreeLoop c ch cnt' sm' | None \<Rightarrow> afterTree c a cnt' sm')"
proof -
  have "\<not> (rn_hasValue (rc_heap c a) \<and> - 1 - sm < rn_size (rc_heap c a))" using s no_overflow by blast
  moreover have "bindr (radixCache_checkTreeNodeInvariants c a) (\<lambda>_. radixCache_checkChildrenAndCompactness c a) = Inr ()"
    using ok by (simp add: node_ok_def)
  ultimately show ?thesis
    unfolding cnt'_def sm'_def afterTree_def by (subst checkTreeLoop.simps) (simp add: Let_def split: option.split)
qed

definition bsum :: "('v :: zero) radixCache \<Rightarrow> addr list \<Rightarrow> nat" where
  "bsum c as = weight_sum (map (sizes (rc_heap c)) (borne c as))"

lemma bsum_Nil [simp]: "bsum c [] = 0"
  by (simp add: bsum_def)

lemma bsum_append [simp]: "bsum c (as @ bs) = bsum c as + bsum c bs"
  by (simp add: bsum_def)

lemma bsum_Cons: "bsum c (a # as) = (if rn_hasValue (rc_heap c a) then unat (rn_size (rc_heap c a)) else 0) + bsum c as"
  by (simp add: bsum_def sizes_def)

lemma checkTreeLoop_spec:
  fixes c :: "('v :: zero) radixCache"
  assumes "repr (rc_heap c) p F" "F \<noteq> Tip" "rc_root c \<notin> set (faddrs F)" "\<And>a. a \<in> set (faddrs F) \<Longrightarrow> node_ok c a"
    and "unat sm + bsum c (faddrs F) < 2 ^ 64"
  shows "\<exists>sm'. checkTreeLoop c (the (fhead F)) cnt sm = afterTree c p (cnt + int (length (borne c (faddrs F)))) sm'
    \<and> unat sm' = unat sm + bsum c (faddrs F)"
  using assms
proof (induction F arbitrary: p cnt sm)
  case (Branch a s ch sb)
  let ?h = "rc_heap c"
  have l: "rn_parent (?h a) = Some p" "rn_child (?h a) = fhead ch" "rn_sibling (?h a) = fhead sb" "a \<noteq> rc_root c"
    "rc_root c \<notin> set (faddrs ch)" "rc_root c \<notin> set (faddrs sb)" "repr ?h a ch" "repr ?h p sb"
    using Branch.prems by (auto simp: links_def)
  define cnt1 where "cnt1 = (if rn_hasValue (?h a) then cnt + 1 else cnt)"
  define sm1 where "sm1 = (if rn_hasValue (?h a) then sm + rn_size (?h a) else sm)"
  have lt: "rn_hasValue (?h a) \<longrightarrow> unat sm + unat (rn_size (?h a)) < 2 ^ 64"
    using Branch.prems(5) by (auto simp: bsum_Cons split: if_splits)
  have sm1: "unat sm1 = unat sm + (if rn_hasValue (?h a) then unat (rn_size (?h a)) else 0)"
    using lt unat_add_u64 [of sm "rn_size (?h a)"] by (simp add: sm1_def)
  have v: "checkTreeLoop c a cnt sm = (case fhead ch of Some x \<Rightarrow> checkTreeLoop c x cnt1 sm1 | None \<Rightarrow> afterTree c a cnt1 sm1)"
    using checkTree_visit [OF Branch.prems(4) lt cnt1_def sm1_def] l(2) by simp
  have lts: "unat sm1 + bsum c (faddrs ch) < 2 ^ 64"
    using Branch.prems(5) sm1 by (simp add: bsum_Cons)
  obtain sm2 where s2: "checkTreeLoop c a cnt sm = afterTree c a (cnt1 + int (length (borne c (faddrs ch)))) sm2"
    "unat sm2 = unat sm1 + bsum c (faddrs ch)"
  proof (cases ch)
    case Tip
    then show thesis using that [of sm1] v by simp
  next
    case ne: (Branch x t cc ss)
    then have nt: "ch \<noteq> Tip" and hd: "fhead ch = Some x" by simp_all
    have ok: "\<And>z. z \<in> set (faddrs ch) \<Longrightarrow> node_ok c z" using Branch.prems(4) by simp
    obtain sm' where "checkTreeLoop c (the (fhead ch)) cnt1 sm1 = afterTree c a (cnt1 + int (length (borne c (faddrs ch)))) sm'"
      "unat sm' = unat sm1 + bsum c (faddrs ch)"
      using Branch.IH(1) [OF l(7) nt l(5) ok lts, of cnt1] by blast
    then show thesis using that [of sm'] v unfolding hd by simp
  qed
  let ?cnt2 = "cnt1 + int (length (borne c (faddrs ch)))"
  have at: "afterTree c a ?cnt2 sm2 = (case fhead sb of None \<Rightarrow> afterTree c p ?cnt2 sm2 | Some s \<Rightarrow> checkTreeLoop c s ?cnt2 sm2)"
    by (rule afterTree_node [OF l(4) l(3) l(1)])
  show ?case
  proof (cases sb)
    case Tip
    then show ?thesis using s2 at sm1 by (intro exI [of _ sm2]) (auto simp: cnt1_def bsum_Cons add.assoc)
  next
    case ne: (Branch x t cc ss)
    then have nt: "sb \<noteq> Tip" and hd: "fhead sb = Some x" by simp_all
    have ok: "\<And>z. z \<in> set (faddrs sb) \<Longrightarrow> node_ok c z" using Branch.prems(4) by simp
    have lt2: "unat sm2 + bsum c (faddrs sb) < 2 ^ 64"
      using Branch.prems(5) sm1 s2(2) by (simp add: bsum_Cons)
    obtain sm3 where "checkTreeLoop c (the (fhead sb)) ?cnt2 sm2 = afterTree c p (?cnt2 + int (length (borne c (faddrs sb)))) sm3"
      "unat sm3 = unat sm2 + bsum c (faddrs sb)"
      using Branch.IH(2) [OF l(8) nt l(6) ok lt2, of ?cnt2] by blast
    then show ?thesis using s2 at sm1 unfolding hd by (intro exI [of _ sm3]) (auto simp: cnt1_def bsum_Cons add.assoc)
  qed
qed simp

subsection \<open>Every check passes\<close>

lemma repr_children:
  "repr h p F \<Longrightarrow> ordered F \<Longrightarrow> fcompact V F \<Longrightarrow> a \<in> set (faddrs F) \<Longrightarrow>
    \<exists>ch. rn_child (h a) = fhead ch \<and> repr h a ch \<and> ordered ch \<and> (a \<in> V \<or> 2 \<le> tops ch)"
  by (induction F arbitrary: p) (auto simp: links_def)

lemma allkeyed_mem_iff: "(\<exists>k. (x, k) \<in> set (allkeyed r F)) \<longleftrightarrow> x \<in> set (r # faddrs F)"
proof -
  have "set (map fst (allkeyed r F)) = set (r # faddrs F)" by (simp add: allkeyed_def keyed_addrs del: list.set_map)
  moreover have "x \<in> set (map fst (allkeyed r F)) \<longleftrightarrow> (\<exists>k. (x, k) \<in> set (allkeyed r F))" by force
  ultimately show ?thesis by blast
qed

lemma listed_iff:
  assumes "vkeys c F = (\<lambda>a. (a, K a)) ` set as"
  shows "x \<in> set as \<longleftrightarrow> x \<in> set (rc_root c # faddrs F) \<and> rn_hasValue (rc_heap c x)"
proof -
  have "x \<in> set as \<longleftrightarrow> (\<exists>k. (x, k) \<in> vkeys c F)" unfolding assms by blast
  also have "\<dots> \<longleftrightarrow> (\<exists>k. (x, k) \<in> set (allkeyed (rc_root c) F)) \<and> rn_hasValue (rc_heap c x)"
    by (auto simp: vkeys_def bearing_def)
  finally show ?thesis unfolding allkeyed_mem_iff .
qed

lemma node_ok_spec:
  fixes c :: "('v :: zero) radixCache"
  assumes m: "rmid W d dd rr ss K c as" and F: "tree_inv c F" "fcompact (bearing (rc_heap c)) F" "vkeys c F = (\<lambda>a. (a, K a)) ` set as"
    and a: "a \<in> set (rc_root c # faddrs F)"
  shows "node_ok c a"
proof -
  let ?h = "rc_heap c"
  note dd = rmidD [OF m] and t = tree_invD [OF F(1)]
  have dll: "dll (entryOf K ?h, listOf (rc_ends c)) as" using dd(2) by (simp add: mid_def map_repr_def)
  note mem = listed_iff [OF F(3)]
  have 1: "radixCache_checkTreeNodeInvariants c a = Inr ()"
  proof (cases "rn_hasValue (?h a)")
    case True
    then have aa: "a \<in> set as" using mem a by blast
    obtain xs ys where as: "as = xs @ a # ys" using aa by (metis split_list)
    show ?thesis
    proof (cases xs rule: rev_cases)
      case Nil
      then have "rn_prev (?h a) = None" "r_head (rc_ends c) = Some a" using dll as dd(6) by (simp_all add: dll_def)
      then show ?thesis using True by (simp add: radixCache_checkTreeNodeInvariants_def Let_def)
    next
      case (snoc zs z)
      then have "rn_prev (?h a) = Some z" "rn_next (?h z) = Some a" using dll as by (simp_all add: dll_def lseg_append)
      then show ?thesis using True by (simp add: radixCache_checkTreeNodeInvariants_def Let_def)
    qed
  next
    case False
    then have na: "a \<notin> set as" using mem by blast
    have "r_head (rc_ends c) \<noteq> Some a" "r_tail (rc_ends c) \<noteq> Some a"
      using na dd(5,6) by (auto dest: final_mem first_mem)
    moreover have "body (?h a) = zeroBody" using tree_inv_nodes(2) [OF F(1) a False] .
    ultimately show ?thesis using False by (simp add: radixCache_checkTreeNodeInvariants_def Let_def body_def zeroBody_def)
  qed
  obtain ch where ch: "rn_child (?h a) = fhead ch" "repr ?h a ch" "ordered ch" "a = rc_root c \<or> rn_hasValue (?h a) \<or> 2 \<le> tops ch"
    using a t(3,4,5) repr_children [OF t(5,3) F(2), of a] by (auto simp: bearing_def)
  have two: "\<exists>x. fhead ch = Some x \<and> rn_sibling (?h x) \<noteq> None" if "2 \<le> tops ch"
  proof (cases ch)
    case (Branch x s cc sb)
    then have "sb \<noteq> Tip" using that by auto
    then have "fhead sb \<noteq> None" by simp
    then show ?thesis using Branch ch(2) by (simp add: links_def del: fhead_None)
  qed (use that in simp)
  have 2: "radixCache_checkChildrenAndCompactness c a = Inr ()"
    using checkChildrenLoop_spec [OF ch(2,3), of None] ch(1,4) two
    by (auto simp: radixCache_checkChildrenAndCompactness_def Let_def split: option.splits)
  show ?thesis using 1 2 by (simp add: node_ok_def)
qed

definition radix_inv :: "('v :: zero) radixCache \<Rightarrow> bool" where
  "radix_inv c = (\<exists>K as. rmid (sizes (rc_heap c)) 0 0 0 0 K c as)"

lemma radix_invI:
  assumes "rmid W 0 dd rr ss K c as" "\<And>a. a \<in> set as \<Longrightarrow> W a = rn_size (rc_heap c a)"
    and "0 \<le> dd" "0 \<le> rr" "0 \<le> ss"
  shows "radix_inv c"
proof -
  have "mid (sizes (rc_heap c)) 0 0 0 0 (shadow K as c) as = mid W 0 0 0 0 (shadow K as c) as"
    by (rule mid_W_cong) (simp add: assms(2) sizes_def)
  then show ?thesis using rmid_weaken [OF assms(1,3-5)] by (auto simp: radix_inv_def rmid_def)
qed

lemma bearing_list:
  fixes c :: "('v :: zero) radixCache"
  assumes m: "rmid W d dd rr ss K c as" and F: "tree_inv c F" "vkeys c F = (\<lambda>a. (a, K a)) ` set as"
  shows "mset (borne c (rc_root c # faddrs F)) = mset as"
proof -
  have "set (borne c (rc_root c # faddrs F)) = set as"
    unfolding set_eq_iff listed_iff [OF F(2)] by (auto simp: borne_def)
  moreover have "distinct (borne c (rc_root c # faddrs F))"
    using tree_invD(2) [OF F(1)] unfolding borne_def by (rule distinct_filter)
  ultimately show ?thesis using rmidD(7) [OF m] by (simp add: set_eq_iff_mset_eq_distinct)
qed

lemma weight_sum_mset: "mset xs = mset ys \<Longrightarrow> weight_sum (map f xs) = weight_sum (map f ys)"
  unfolding weight_sum_def by (metis map_map mset_map sum_mset_sum_list)

lemma checkTree_ok:
  fixes c :: "('v :: zero) radixCache"
  assumes m: "rmid (sizes (rc_heap c)) 0 0 0 0 K c as"
  shows "radixCache_checkTreeInvariants c = Inr ()" "radixCache_checkRootInvariants c = Inr ()"
proof -
  let ?h = "rc_heap c" and ?r = "rc_root c"
  note d = rmidD [OF m]
  obtain F where F: "tree_inv c F" "fcompact (bearing ?h) F" "vkeys c F = (\<lambda>a. (a, K a)) ` set as" using d(1) by (auto simp: bound_def)
  note t = tree_invD [OF F(1)] and ok = node_ok_spec [OF m F]
  show "radixCache_checkRootInvariants c = Inr ()"
    using tree_inv_nodes(6) [OF F(1)] by (simp add: radixCache_checkRootInvariants_def Let_def rootlinks_def)
  have ms: "mset (borne c (?r # faddrs F)) = mset as" by (rule bearing_list [OF m F(1,3)])
  have cur: "unat (rc_currentSize c) = bsum c (?r # faddrs F)"
    using d(2) weight_sum_mset [OF ms, of "sizes ?h"] by (simp add: mid_def bsum_def)
  have len: "length (borne c (?r # faddrs F)) = length as" using arg_cong [OF ms, of size] by simp
  define cnt1 where "cnt1 = (if rn_hasValue (?h ?r) then 0 + 1 else 0 :: int)"
  define sm1 where "sm1 = (if rn_hasValue (?h ?r) then 0 + rn_size (?h ?r) else 0)"
  have lt: "rn_hasValue (?h ?r) \<longrightarrow> unat (0 :: u64) + unat (rn_size (?h ?r)) < 2 ^ 64"
    using unat_lt_u64 [of "rn_size (?h ?r)"] by simp
  have okr: "node_ok c ?r" by (rule ok) simp
  have v: "checkTreeLoop c ?r 0 0 = (case fhead F of Some ch \<Rightarrow> checkTreeLoop c ch cnt1 sm1 | None \<Rightarrow> afterTree c ?r cnt1 sm1)"
    using checkTree_visit [OF okr lt cnt1_def sm1_def] t(4) by simp
  have "\<exists>sm'. checkTreeLoop c ?r 0 0 = afterTree c ?r (cnt1 + int (length (borne c (faddrs F)))) sm' \<and> unat sm' = unat sm1 + bsum c (faddrs F)"
  proof (cases F)
    case Tip
    then show ?thesis using v by auto
  next
    case (Branch x s ch sb)
    have "unat sm1 + bsum c (faddrs F) < 2 ^ 64"
      using unat_lt_u64 [of "rc_currentSize c"] unfolding cur sm1_def by (cases "rn_hasValue (?h ?r)") (simp_all add: bsum_Cons)
    with t(5) have "\<exists>sm'. checkTreeLoop c (the (fhead F)) cnt1 sm1 = afterTree c ?r (cnt1 + int (length (borne c (faddrs F)))) sm'
        \<and> unat sm' = unat sm1 + bsum c (faddrs F)"
      using Branch t(2) ok by (intro checkTreeLoop_spec) auto
    moreover have "fhead F = Some x" using Branch by simp
    ultimately show ?thesis using v by simp
  qed
  then obtain sm' where s: "checkTreeLoop c ?r 0 0 = Some (Inr (cnt1 + int (length (borne c (faddrs F))), sm'))"
    "unat sm' = unat sm1 + bsum c (faddrs F)" unfolding afterTree_root by blast
  have "cnt1 + int (length (borne c (faddrs F))) = radixLen c" using len d(4) by (auto simp: cnt1_def split: if_splits)
  moreover have "sm' = rc_currentSize c"
    using s(2) cur unfolding word_unat_eq_iff by (simp add: sm1_def bsum_Cons)
  ultimately show "radixCache_checkTreeInvariants c = Inr ()"
    using s(1) by (simp add: radixCache_checkTreeInvariants_def)
qed

lemma rcheckInvariants_ok:
  fixes c :: "('v :: zero) radixCache"
  assumes "radix_inv c"
  shows "radixCache_checkInvariants c = Inr ()"
proof -
  obtain K as where m: "rmid (sizes (rc_heap c)) 0 0 0 0 K c as" using assms by (auto simp: radix_inv_def)
  note d = rmidD [OF m]
  have "checkRadixListLoop c (first as None) None 0 0 0
      = Some (Inr (rc_currentSize c, int (length as), int (count_list (map (sizes (rc_heap c)) as) 0)))"
    using checkRadixListLoop_spec [of c 0 0 0 K "[]" as 0 0 0] m by simp
  moreover have "zeroSizeCount (rc_ps c) = int (count_list (map (sizes (rc_heap c)) as) 0)"
    using d(2) by (simp add: mid_def ps_ok_def books_ok_def)
  moreover have "radixCache_checkLRUEndpointsInvariants c = Inr ()"
    using d(4,5,6) by (auto simp: radixCache_checkLRUEndpointsInvariants_def final_def first_def split: list.splits)
  ultimately have l: "radixCache_checkLRUListInvariants c = Inr ()"
    using d(4,6) by (simp add: radixCache_checkLRUListInvariants_def)
  have t: "checkTelemetryInvariants (rc_ps c) (int (length as)) = Inr ()"
    using d(2) ps_ok_checkTelemetry by (auto simp: mid_def)
  show ?thesis
    using l t checkTree_ok [OF m] d(2,4) by (simp add: radixCache_checkInvariants_def mid_def)
qed

lemma runlock_ok: "radix_inv c \<Longrightarrow> radixCache_unlock c = Inr ()"
  by (simp add: radixCache_unlock_def rcheckInvariants_ok)

end
