(* ===== verification/RadixLookup.thy ===== *)
theory RadixLookup
  imports RadixCheck MapLookup
begin

text \<open>
  The operations of the radix backend against the contract of the map backend: a cache is the list \<open>rlru\<close> of
  its entries, most recently used first, each with the key that its path from the root spells. Here the
  view of a cache and the operations that add nothing.
\<close>

subsection \<open>The abstract view\<close>

definition raddrs :: "'v radixCache \<Rightarrow> addr list" where
  "raddrs c = walk (nat (radixLen c)) (entryOf (\<lambda>_. []) (rc_heap c)) (r_head (rc_ends c))"

definition rkey :: "'v radixCache \<Rightarrow> addr \<Rightarrow> string" where
  "rkey c a = (case radixCache_reconstructKey c (Some a) of Inr k \<Rightarrow> k | Inl _ \<Rightarrow> [])"

definition rlru :: "'v radixCache \<Rightarrow> 'v item list" where
  "rlru c = map (\<lambda>a. (rkey c a, rn_size (rc_heap c a), rn_value (rc_heap c a))) (raddrs c)"

definition rcfg where
  \<comment> \<open>what no operation changes\<close>
  "rcfg c = (rc_maxSize c, rc_weigher c, rc_onEvictValue c, rc_onEvictEntry c, options (rc_ps c))"

definition rcalls :: "'v radixCache \<Rightarrow> (string \<times> 'v \<times> EvictionReason) list \<Rightarrow> 'v callback list" where
  "rcalls c evs = deliveries (rc_onEvictValue c) (rc_onEvictEntry c) evs"

definition rhot :: "float64 \<Rightarrow> 'v radixCache \<Rightarrow> bool" where
  "rhot pressure c = fge pressure (EvictionThreshold (options (rc_ps c)))"

definition rlockPressure :: "samplingEnv \<Rightarrow> bool \<Rightarrow> 'v radixCache \<Rightarrow> float64" where
  "rlockPressure env fresh c = snd (snd (lockRadixCache env fresh c))"

lemma shadow_view [simp]:
  "cfg (shadow K as c) = rcfg c" "calls (shadow K as c) = rcalls c" "hot x (shadow K as c) = rhot x c"
  by (simp_all add: cfg_def rcfg_def calls_def rcalls_def hot_def rhot_def fun_eq_iff)

lemma rcfg_simps:
  "rcfg c' = rcfg c \<Longrightarrow> rc_maxSize c' = rc_maxSize c \<and> rc_weigher c' = rc_weigher c \<and> rc_onEvictValue c' = rc_onEvictValue c
    \<and> rc_onEvictEntry c' = rc_onEvictEntry c \<and> options (rc_ps c') = options (rc_ps c) \<and> radixHasCB c' = radixHasCB c
    \<and> rhot x c' = rhot x c"
  by (simp add: rcfg_def radixHasCB_def rhot_def)

lemma rquiet_rcfg: "rquiet c c' \<Longrightarrow> rcfg c' = rcfg c"
  using rquiet_fields [of c c'] by (simp add: rcfg_def)

lemma rcfg_onRps [simp]: "options (f (rc_ps c)) = options (rc_ps c) \<Longrightarrow> rcfg (onRps f c) = rcfg c"
  by (simp add: rcfg_def)

lemma walk_entryOf: "walk n (entryOf K h) x = walk n (entryOf K' h) x"
proof (induction n arbitrary: x)
  case (Suc n)
  then show ?case by (cases x) simp_all
qed simp

lemma raddrs_rmid: "rmid W d dd rr ss K c as \<Longrightarrow> raddrs c = as"
  using mid_addrs [of W d dd rr ss "shadow K as c" as] walk_entryOf [of _ "\<lambda>_. []" "rc_heap c" _ K]
  by (simp add: rmid_def raddrs_def addrs_def radixLen_def entryList_Front_def)

lemma rlru_rmid:
  assumes "rmid W d dd rr ss K c as"
  shows "rlru c = ents (entryOf K (rc_heap c)) as"
  using bound_reconstructKey [OF rmidD(1) [OF assms]] raddrs_rmid [OF assms]
  by (simp add: rlru_def ents_def payload_def rkey_def)

lemma rlru_shadow:
  assumes "rmid W d dd rr ss K c as"
  shows "lru (shadow K as c) = rlru c"
  using lru_ents [OF rmidD(2) [OF assms]] rlru_rmid [OF assms] by simp

lemma radix_invD:
  assumes "radix_inv c"
  obtains K where "rmid (sizes (rc_heap c)) 0 0 0 0 K c (raddrs c)" "map_inv (shadow K (raddrs c) c)" "lru (shadow K (raddrs c) c) = rlru c"
proof -
  obtain K as where m: "rmid (sizes (rc_heap c)) 0 0 0 0 K c as" using assms by (auto simp: radix_inv_def)
  have as: "raddrs c = as" by (rule raddrs_rmid [OF m])
  have "map_inv (shadow K as c)" by (rule map_invI [OF rmidD(2) [OF m]]) (simp_all add: sizes_def)
  then show thesis using that m rlru_shadow [OF m] as by simp
qed

lemma radix_lookup:
  assumes m: "rmid W d dd rr ss K c as" and inv: "map_inv (shadow K as c)"
  shows "find (\<lambda>a. K a = k) as = Some e \<Longrightarrow> e \<in> set as \<and> K e = k \<and> map_of (rlru c) k = Some (rn_size (rc_heap c e), rn_value (rc_heap c e))"
    and "find (\<lambda>a. K a = k) as = None \<Longrightarrow> map_of (rlru c) k = None \<and> others k (rlru c) = rlru c \<and> filter (\<lambda>x. entry_key x = k) (rlru c) = []"
proof -
  note d = rmidD [OF m] and r = rlru_shadow [OF m]
  show "e \<in> set as \<and> K e = k \<and> map_of (rlru c) k = Some (rn_size (rc_heap c e), rn_value (rc_heap c e))" if "find (\<lambda>a. K a = k) as = Some e"
  proof -
    have e: "e \<in> set as" "K e = k" using that by (auto simp: find_Some_iff)
    then have "map_of (m_index (shadow K as c)) k = Some e" using mid_lookup [OF d(2), of k e] by simp
    then show ?thesis using lookup_item(1) [OF inv] r e by simp
  qed
  show "map_of (rlru c) k = None \<and> others k (rlru c) = rlru c \<and> filter (\<lambda>x. entry_key x = k) (rlru c) = []"
    if "find (\<lambda>a. K a = k) as = None"
  proof -
    have "\<forall>a\<in>set as. K a \<noteq> k" using that by (simp add: find_None_iff)
    then have "map_of (m_index (shadow K as c)) k = None" by (auto simp: map_of_eq_None_iff)
    then show ?thesis
      using lookup_item(2) [OF inv] others_absent [OF d(2)] r rlru_rmid [OF m] by simp
  qed
qed

lemma rinvoke_calls:
  assumes "qsim (rc_onEvictEntry c') q g" "queue_events g = (if radixHasCB c then evs else [])" "rcfg c' = rcfg c"
  shows "radixCallbacks c' q = rcalls c evs"
proof -
  note f = rcfg_simps [OF assms(3)]
  have "radixCallbacks c' q = deliveries (rc_onEvictValue c) (rc_onEvictEntry c) (queue_events g)"
    using qsim_deliveries [OF assms(1)] f by (simp add: radixCallbacks_def)
  then show ?thesis using assms(2) by (auto simp: rcalls_def deliveries_def radixHasCB_def)
qed

lemma radix_onRps:
  assumes "rmid W 0 0 0 0 K c as" "\<And>a. a \<in> set as \<Longrightarrow> W a = rn_size (rc_heap c a)"
    and f: "ledger (f (rc_ps c)) = ledger (rc_ps c)" "sampling_ok (rc_ps c) \<Longrightarrow> sampling_ok (f (rc_ps c))"
  shows "radix_inv (onRps f c) \<and> rlru (onRps f c) = rlru c"
proof -
  have m: "rmid W 0 0 0 0 K (onRps f c) as" by (rule rmid_keep [OF assms(1)]) (use f in auto)
  then show ?thesis using radix_invI [OF m] assms(2) rlru_rmid [OF m] rlru_rmid [OF assms(1)] by simp
qed

subsection \<open>Lookups\<close>

lemma onList_simps [simp]:
  "rc_maxSize (onList f c) = rc_maxSize c" "rc_currentSize (onList f c) = rc_currentSize c"
  "rc_nextAddr (onList f c) = rc_nextAddr c" "rc_root (onList f c) = rc_root c" "rc_weigher (onList f c) = rc_weigher c"
  "rc_recycleNodes (onList f c) = rc_recycleNodes c" "rc_onEvictValue (onList f c) = rc_onEvictValue c"
  "rc_onEvictEntry (onList f c) = rc_onEvictEntry c" "rc_ps (onList f c) = rc_ps c" "radixHasCB (onList f c) = radixHasCB c"
  "rc_recyclingForPut (onList f c) = rc_recyclingForPut c" "rcfg (onList f c) = rcfg c"
  "rc_heap (onList f c) = fst (f (rc_heap c, rc_ends c))" "rc_ends (onList f c) = snd (f (rc_heap c, rc_ends c))"
  by (simp_all add: onList_def radixHasCB_def rcfg_def split: prod.splits)

lemma moveToFront_out:
  assumes d: "dll (entryOf K h, listOf l) as" and a: "a \<in> set as" and x: "x \<notin> set as"
  shows "fst (moveToFront a (h, l)) x = h x"
proof -
  obtain xs ys where as: "as = xs @ a # ys" using a by (metis split_list)
  have nb: "rn_prev (h a) = final None xs" "rn_next (h a) = first ys None" "r_head l = first as None"
    using d as by (simp_all add: dll_def lseg_append)
  have p: "p \<noteq> x" if "rn_prev (h a) = Some p" for p using that nb(1) as x final_mem [of xs p] by auto
  have n: "n \<noteq> x" if "rn_next (h a) = Some n" for n using that nb(2) as x first_mem [of ys n] by auto
  have f: "f \<noteq> x" if "r_head l = Some f" for f using that nb(3) x first_mem [of as f] by auto
  have ax: "a \<noteq> x" using a x by blast
  define h1 where "h1 = (case rn_prev (h a) of Some p \<Rightarrow> h(p := (h p)\<lparr>rn_next := rn_next (h a)\<rparr>) | None \<Rightarrow> h)"
  have 1: "h1 x = h x" "rn_next (h1 a) = rn_next (h a)" using p by (auto simp: h1_def split: option.splits)
  define h2 where "h2 = (case rn_next (h1 a) of Some n \<Rightarrow> h1(n := (h1 n)\<lparr>rn_prev := rn_prev (h1 a)\<rparr>) | None \<Rightarrow> h1)"
  have 2: "h2 x = h x" using n 1 by (auto simp: h2_def split: option.splits)
  have l1: "r_head (if r_tail l = Some a then l\<lparr>r_tail := y\<rparr> else l) = r_head l" for y by simp
  show ?thesis
  proof (cases "r_head l")
    case None
    then show ?thesis
      using 2 ax unfolding moveToFront_def Let_def prod.case h1_def [symmetric] h2_def [symmetric] l1 by simp
  next
    case (Some y)
    then show ?thesis
      using 2 ax f unfolding moveToFront_def Let_def prod.case h1_def [symmetric] h2_def [symmetric] l1 by simp
  qed
qed

lemma rmid_move:
  assumes m: "rmid W d dd rr ss K c as" and e: "e \<in> set as"
  shows "rmid W d dd rr ss K (onList (moveToFront e) c) (e # remove1 e as)"
    and "\<And>x. inert (rc_heap (onList (moveToFront e) c) x) = inert (rc_heap c x)"
proof -
  note r = rmidD [OF m]
  obtain h' l' where mv: "moveToFront e (rc_heap c, rc_ends c) = (h', l')" by (rule prod.exhaust)
  have dll: "dll (entryOf K (rc_heap c), listOf (rc_ends c)) as" using r(2) by (simp add: mid_def map_repr_def)
  note me = moveToFront_entry [OF dll e mv]
  show i: "inert (rc_heap (onList (moveToFront e) c) x) = inert (rc_heap c x)" for x using me(2) mv by simp
  have s: "set (e # remove1 e as) = set as" using e r(7) by auto
  have b: "bound K (onList (moveToFront e) c) as"
    by (rule bound_list [OF r(1)]) (use i inertD moveToFront_out [OF dll e] in \<open>auto\<close>)
  have "mid W d dd rr ss (onEntries (MoveToFront e) (shadow K as c)) (e # remove1 e as)" by (rule mid_get [OF r(2) e])
  moreover have "map_repr (shadow K (e # remove1 e as) (onList (moveToFront e) c)) (e # remove1 e as)"
  proof (rule likes_repr)
    have "bound K (onList (moveToFront e) c) (e # remove1 e as)" using bound_set [OF b] s by simp
    then show "likes K (e # remove1 e as) (onList (moveToFront e) c) (onEntries (MoveToFront e) (shadow K as c))"
      using calculation me(1) mv by (auto simp: likes_def mid_def)
  qed
  ultimately show "rmid W d dd rr ss K (onList (moveToFront e) c) (e # remove1 e as)"
    using bound_set [OF b s] by (simp add: rmid_def mid_def)
qed

lemma ents_inert:
  assumes "\<And>x. x \<in> set as \<Longrightarrow> inert (h' x) = inert (h x)"
  shows "ents (entryOf K h') as = ents (entryOf K h) as"
  by (rule ents_cong) (use assms inertD in \<open>auto simp: payload_def\<close>)

lemma rGet_spec:
  fixes c :: "('v :: zero) radixCache"
  assumes "radix_inv c"
  shows "\<exists>c'. radixCache_Get k c = Inr (c', case map_of (rlru c) k of Some (w, v) \<Rightarrow> v | None \<Rightarrow> 0, map_of (rlru c) k \<noteq> None)
    \<and> radix_inv c' \<and> rcfg c' = rcfg c
    \<and> rlru c' = (case map_of (rlru c) k of Some (w, v) \<Rightarrow> (k, w, v) # others k (rlru c) | None \<Rightarrow> rlru c)"
proof -
  let ?as = "raddrs c" and ?h = "rc_heap c"
  obtain K where m: "rmid (sizes ?h) 0 0 0 0 K c ?as" and inv: "map_inv (shadow K ?as c)" by (rule radix_invD [OF assms])
  note d = rmidD [OF m] and lk = radix_lookup [OF m inv, of k]
  have g: "radixCache_getNode c k = Inr (find (\<lambda>a. K a = k) ?as)" by (rule bound_getNode [OF d(1)])
  show ?thesis
  proof (cases "find (\<lambda>a. K a = k) ?as")
    case None
    define c1 where "c1 = onRps (\<lambda>p. p\<lparr>getMisses := getMisses p + 1\<rparr>) c"
    have "radix_inv c1 \<and> rlru c1 = rlru c" unfolding c1_def by (rule radix_onRps [OF m]) (simp_all add: sizes_def)
    moreover have "rcfg c1 = rcfg c" by (simp add: c1_def)
    ultimately show ?thesis
      using g None lk(2) by (simp add: radixCache_Get_def c1_def [symmetric] runlock_ok)
  next
    case (Some e)
    note le = lk(1) [OF Some]
    define c0 where "c0 = onRps (\<lambda>p. p\<lparr>getHits := getHits p + 1\<rparr>) c"
    define c1 where "c1 = onList (moveToFront e) c0"
    have c0: "rmid (sizes ?h) 0 0 0 0 K c0 ?as" unfolding c0_def by (rule rmid_keep [OF m]) simp_all
    note mv = rmid_move [OF c0, of e, folded c1_def]
    have m1: "rmid (sizes ?h) 0 0 0 0 K c1 (e # remove1 e ?as)" and i1: "inert (rc_heap c1 x) = inert (?h x)" for x
      using mv le by (simp_all add: c0_def)
    have inv1: "radix_inv c1" by (rule radix_invI [OF m1]) (use inertD [OF i1] in \<open>auto simp: sizes_def\<close>)
    have "rlru c1 = (k, rn_size (?h e), rn_value (?h e)) # others k (rlru c)"
      using rlru_rmid [OF m1] rlru_rmid [OF m] others_ents(1) [OF d(2), of e] le ents_inert [of "e # remove1 e ?as" "rc_heap c1" ?h K] i1
      by (simp add: payload_def)
    moreover have "rcfg c1 = rcfg c" by (simp add: c1_def c0_def)
    moreover have "rn_value (rc_heap c1 e) = rn_value (?h e)" using inertD [OF i1 [of e]] by simp
    ultimately show ?thesis
      using g Some le inv1 runlock_ok [OF inv1] by (simp add: radixCache_Get_def c0_def [symmetric] c1_def [symmetric])
  qed
qed

lemma rPeek_spec:
  fixes c :: "('v :: zero) radixCache"
  assumes "radix_inv c"
  shows "\<exists>c'. radixCache_Peek k c = Inr (c', case map_of (rlru c) k of Some (w, v) \<Rightarrow> v | None \<Rightarrow> 0, map_of (rlru c) k \<noteq> None)
    \<and> radix_inv c' \<and> rcfg c' = rcfg c \<and> rlru c' = rlru c"
proof -
  let ?as = "raddrs c" and ?h = "rc_heap c"
  obtain K where m: "rmid (sizes ?h) 0 0 0 0 K c ?as" and inv: "map_inv (shadow K ?as c)" by (rule radix_invD [OF assms])
  note d = rmidD [OF m] and lk = radix_lookup [OF m inv, of k]
  have g: "radixCache_getNode c k = Inr (find (\<lambda>a. K a = k) ?as)" by (rule bound_getNode [OF d(1)])
  show ?thesis
  proof (cases "find (\<lambda>a. K a = k) ?as")
    case None
    define c1 where "c1 = onRps (\<lambda>p. p\<lparr>peekMisses := peekMisses p + 1\<rparr>) c"
    have "radix_inv c1 \<and> rlru c1 = rlru c" unfolding c1_def by (rule radix_onRps [OF m]) (simp_all add: sizes_def)
    then show ?thesis
      using g None lk(2) by (simp add: radixCache_Peek_def c1_def [symmetric] runlock_ok) (simp add: c1_def)
  next
    case (Some e)
    define c1 where "c1 = onRps (\<lambda>p. p\<lparr>peekHits := peekHits p + 1\<rparr>) c"
    have "radix_inv c1 \<and> rlru c1 = rlru c" unfolding c1_def by (rule radix_onRps [OF m]) (simp_all add: sizes_def)
    then show ?thesis
      using g Some lk(1) by (simp add: radixCache_Peek_def c1_def [symmetric] runlock_ok) (simp add: c1_def)
  qed
qed

subsection \<open>Delete\<close>

lemma rlock_props:
  assumes l: "lockRadixCache env fresh c = (c', e, x)" and m: "rmid W 0 0 0 0 K c as"
  shows "rmid W 0 0 0 0 K c' as" "rquiet c c'" "putInserted (rc_ps c') = putInserted (rc_ps c)" "valid_pressure x"
    "rcfg c' = rcfg c" "rlru c' = rlru c" "rc_heap c' = rc_heap c" "rlockPressure env fresh c = x"
proof -
  obtain p where p: "lockWithPressure env fresh (rc_ps c) = (p, e, x)" "c' = c\<lparr>rc_ps := p\<rparr>"
    using l by (auto simp: lockRadixCache_def Let_def split: prod.splits)
  have s: "sampling_ok (rc_ps c)" using m by (simp add: rmid_def mid_def ps_ok_def)
  have sp: "sampled (rc_ps c) p" "valid_pressure x" using lockWithPressure_ok [OF p(1) s] by auto
  have c': "c' = onRps (\<lambda>_. p) c" by (simp add: onRps_def p)
  show m': "rmid W 0 0 0 0 K c' as"
    unfolding c' by (rule rmid_onRps [OF m]) (use ps_ok_sampled [OF sp(1)] in blast)
  show q: "rquiet c c'" using sampled_options [OF sp(1)] by (simp add: p(2) rquiet_def)
  show "putInserted (rc_ps c') = putInserted (rc_ps c)" using sp(1) by (simp add: p(2) sampled_def books_def)
  show "rcfg c' = rcfg c" by (rule rquiet_rcfg [OF q])
  show "rc_heap c' = rc_heap c" using rquiet_fields [OF q] by simp
  then show "rlru c' = rlru c" using rlru_rmid [OF m] rlru_rmid [OF m'] by simp
  show "rlockPressure env fresh c = x" by (simp add: rlockPressure_def l)
  show "valid_pressure x" by (rule sp(2))
qed

lemma erase_rmid:
  fixes c :: "('v :: zero) radixCache"
  assumes m: "rmid W 0 dd rr ss K c as" and a: "a \<in> set as" and W: "W a = rn_size (rc_heap c a)" and r: "evicting r"
    and q: "qsim (rc_onEvictEntry c) q g" and k: "key = K a \<or> rc_onEvictEntry c = None"
  obtains c' q' g' where
    "radixCache_eraseInternalWithKey a key r (c, q) = Inr ((c', q'), rn_value (rc_heap c a), True)"
    "rmid W 0 (if r = EvictionReasonDeleted then dd + 1 else dd) (if r = EvictionReasonCapacity then rr + 1 else rr)
      (if r = EvictionReasonPressure then ss + 1 else ss) K c' (remove1 a as)"
    "sheds (shadow K as c, g) as [(a, r)] (shadow K (remove1 a as) c', g') (remove1 a as)"
    "qsim (rc_onEvictEntry c') q' g'"
proof -
  note d = rmidD [OF m]
  obtain c' q' m' g' where e: "radixCache_eraseInternalWithKey a key r (c, q) = Inr ((c', q'), rn_value (rc_heap c a), True)"
    "mapCache_eraseEntryLocked a r (shadow K as c, g) = ((m', g'), rn_value (rc_heap c a))"
    "likes K (remove1 a as) c' m'" "qsim (rc_onEvictEntry c') q' g'"
    by (rule erase_sim [OF d(3) q a k, where r = r])
  have le: "unat (W a) + 0 \<le> weight_sum (map W as)" using weight_sum_remove [OF d(7) a, of W] by simp
  have Wa: "W a = esize (m_heap (shadow K as c) a)" using W by simp
  note em = erase_mid [OF d(2) a Wa le r e(2)]
  show thesis by (rule that [OF e(1) _ likes_sheds [OF e(3) em(2)] e(4)]) (use likes_rmid [OF e(3) em(1)] in blast)
qed

lemma sheds_sizes:
  assumes "sheds (shadow K as c, g) as gone (shadow K as' c', g') as'" "a \<in> set as'"
  shows "a \<in> set as" "rn_size (rc_heap c' a) = rn_size (rc_heap c a)"
    "payload (entryOf K (rc_heap c') a) = payload (entryOf K (rc_heap c) a)"
  using assms by (auto simp: sheds_def payload_def)

lemma rreclaim_result:
  fixes c :: "('v :: zero) radixCache"
  assumes m: "rmid W 0 0 0 0 K c as" and W: "\<And>a. a \<in> set as \<Longrightarrow> W a = rn_size (rc_heap c a)" and q: "queue_wf g"
    and r: "reclaims x prot (shadow K as c, g) as gs (shadow K as' c', g') as'" and m': "rmid W 0 0 0 0 K c' as'"
  shows "radix_inv c'" "rcfg c' = rcfg c"
    "reclaimed (rhot x c) (ents (entryOf K (rc_heap c)) as) (ents (entryOf K (rc_heap c)) gs) (rlru c')"
    "queue_events g' = queue_events g @ (if radixHasCB c then map (event_of EvictionReasonPressure) (ents (entryOf K (rc_heap c)) gs) else [])"
    "prot \<notin> Some ` set gs" "set gs \<subseteq> set as"
proof -
  have sh: "sheds (shadow K as c, g) as (map (\<lambda>a. (a, EvictionReasonPressure)) gs) (shadow K as' c', g') as'"
    using r by (simp add: reclaims_def)
  have "reclaims x None (shadow K as c, g) as gs (shadow K as' c', g') as'" using r by (auto simp: reclaims_def)
  note rr = reclaim_result [OF rmidD(2) [OF m] _ q this rmidD(2) [OF m']]
  show "radix_inv c'" by (rule radix_invI [OF m']) (use sheds_sizes [OF sh] W in auto)
  show "rcfg c' = rcfg c"
    "reclaimed (rhot x c) (ents (entryOf K (rc_heap c)) as) (ents (entryOf K (rc_heap c)) gs) (rlru c')"
    "queue_events g' = queue_events g @ (if radixHasCB c then map (event_of EvictionReasonPressure) (ents (entryOf K (rc_heap c)) gs) else [])"
    using rr(2,3,5) W rlru_shadow [OF m'] by simp_all
  show "prot \<notin> Some ` set gs" using r by (simp add: reclaims_def)
  show "set gs \<subseteq> set as" using sheds_gone(1) [OF sh] .
qed

lemma rdelete_tail:
  fixes c :: "('v :: zero) radixCache"
  assumes m: "rmid W 0 0 0 0 K c as" and W: "\<And>a. a \<in> set as \<Longrightarrow> W a = rn_size (rc_heap c a)" and q: "qsim (rc_onEvictEntry c) q g"
  shows "\<exists>c' q' g' gp. radixCache_finishDeleteReclaimLocked sb se x (c, q) = Inr (c', q')
    \<and> radix_inv c' \<and> rcfg c' = rcfg c \<and> reclaimed (rhot x c) (rlru c) gp (rlru c') \<and> qsim (rc_onEvictEntry c') q' g'
    \<and> queue_events g' = queue_events g @ (if radixHasCB c then map (event_of EvictionReasonPressure) gp else [])"
proof -
  obtain c' q' g' as' gs where f: "radixCache_finishDeleteReclaimLocked sb se x (c, q) = Inr (c', q')"
    "rmid W 0 0 0 0 K c' as'" "qsim (rc_onEvictEntry c') q' g'" "reclaims x None (shadow K as c, g) as gs (shadow K as' c', g') as'"
    using rfinishDelete_spec [OF m W q, of sb se x] by blast
  have g: "queue_wf g" using q by (simp add: qsim_def)
  show ?thesis
    using f(1,3) rreclaim_result [OF m W g f(4,2)] unfolding rlru_rmid [OF m] by blast
qed

lemma rmid_deleteDeleted:
  assumes "rmid W d (dd + 1) rr ss K c as" "0 \<le> dd"
  shows "rmid W d dd rr ss K (onRps (\<lambda>p. p\<lparr>deleteDeleted := deleteDeleted p + 1\<rparr>) c) as"
  using assms mid_deleteDeleted [of W d dd rr ss "shadow K as c" as] by (simp add: rmid_def shadow_onRps)

lemma rDelete_spec:
  fixes c :: "('v :: zero) radixCache"
  assumes inv: "radix_inv c"
  shows "\<exists>c' gp. radixCache_Delete env k c = Inr (c', case map_of (rlru c) k of Some (w, v) \<Rightarrow> v | None \<Rightarrow> 0,
        map_of (rlru c) k \<noteq> None,
        rcalls c (map (event_of EvictionReasonDeleted) (filter (\<lambda>x. entry_key x = k) (rlru c))
          @ map (event_of EvictionReasonPressure) gp))
    \<and> radix_inv c' \<and> rcfg c' = rcfg c
    \<and> reclaimed (rhot (rlockPressure env False c) c \<and> map_of (rlru c) k \<noteq> None) (others k (rlru c)) gp (rlru c')"
proof -
  let ?as = "raddrs c" and ?h = "rc_heap c" and ?q = "newEvictQueue True :: 'v evictCallbackQueue"
  obtain K where m: "rmid (sizes ?h) 0 0 0 0 K c ?as" and inv: "map_inv (shadow K ?as c)" by (rule radix_invD [OF inv])
  obtain c0 se x where lk: "lockRadixCache env False c = (c0, se, x)" by (metis prod_cases3)
  note l = rlock_props [OF lk m] and lu = radix_lookup [OF m inv, of k]
  note d = rmidD [OF l(1)]
  have cfg0: "radixHasCB c0 = radixHasCB c" "rhot x c0 = rhot (rlockPressure env False c) c"
    using rcfg_simps [OF l(5)] l(8) by auto
  have g: "radixCache_getNode c0 k = Inr (find (\<lambda>a. K a = k) ?as)" by (rule bound_getNode [OF d(1)])
  have W0: "\<And>a. a \<in> set ?as \<Longrightarrow> sizes ?h a = rn_size (rc_heap c0 a)" by (simp add: sizes_def l(7))
  show ?thesis
  proof (cases "find (\<lambda>a. K a = k) ?as")
    case None
    define c1 where "c1 = onRps (\<lambda>p. p\<lparr>deleteNotFound := deleteNotFound p + 1\<rparr>) c0"
    have c1: "radix_inv c1 \<and> rlru c1 = rlru c0" unfolding c1_def by (rule radix_onRps [OF l(1) W0]) simp_all
    have "radixCache_Delete env k c = Inr (c1, 0, False, [])"
      using g None c1 runlock_ok [of c1] by (simp add: radixCache_Delete_def lk c1_def [symmetric])
    moreover have "rcfg c1 = rcfg c" using l(5) by (simp add: c1_def)
    ultimately show ?thesis
      using c1 lu(2) [OF None] l(6)
      by (intro exI [of _ c1] exI [of _ "[]"]) (simp add: rcalls_def deliveries_def reclaimed_def)
  next
    case (Some e)
    note le = lu(1) [OF Some]
    have e: "e \<in> set ?as" and k: "k = K e \<or> rc_onEvictEntry c0 = None" using le by simp_all
    have ev: "evicting EvictionReasonDeleted" by (simp add: evicting_def)
    obtain c1 q1 g1 where er: "radixCache_eraseInternalWithKey e k EvictionReasonDeleted (c0, ?q) = Inr ((c1, q1), rn_value (rc_heap c0 e), True)"
      "rmid (sizes ?h) 0 (0 + 1) 0 0 K c1 (remove1 e ?as)"
      "sheds (shadow K ?as c0, ?q) ?as [(e, EvictionReasonDeleted)] (shadow K (remove1 e ?as) c1, g1) (remove1 e ?as)"
      "qsim (rc_onEvictEntry c1) q1 g1"
      by (rule erase_rmid [OF l(1) e W0 [OF e] ev qsim_refl [OF queue_wf_new] k, of True]) (use that in simp)
    define c2 where "c2 = onRps (\<lambda>p. p\<lparr>deleteDeleted := deleteDeleted p + 1\<rparr>) c1"
    have m2: "rmid (sizes ?h) 0 0 0 0 K c2 (remove1 e ?as)" unfolding c2_def by (rule rmid_deleteDeleted [OF er(2)]) simp
    have W2: "sizes ?h a = rn_size (rc_heap c2 a)" if "a \<in> set (remove1 e ?as)" for a
      using sheds_sizes [OF er(3) that] W0 by (simp add: c2_def)
    have q2: "qsim (rc_onEvictEntry c2) q1 g1" using er(4) by (simp add: c2_def)
    have g1: "queue_events g1 = (if radixHasCB c then [event_of EvictionReasonDeleted (payload (entryOf K ?h e))] else [])"
      using sheds_events [of "shadow K ?as c0" ?q ?as EvictionReasonDeleted "[e]"] er(3) cfg0(1) l(7)
      by (simp add: entry_event_def event_of_def)
    have cfg2: "rcfg c2 = rcfg c" using er(3) l(5) by (simp add: c2_def sheds_def)
    obtain c3 q3 g3 gp where t: "radixCache_finishDeleteReclaimLocked (rc_currentSize c0) se x (c2, q1) = Inr (c3, q3)"
      "radix_inv c3" "rcfg c3 = rcfg c2" "reclaimed (rhot x c2) (rlru c2) gp (rlru c3)" "qsim (rc_onEvictEntry c3) q3 g3"
      "queue_events g3 = queue_events g1 @ (if radixHasCB c2 then map (event_of EvictionReasonPressure) gp else [])"
      using rdelete_tail [OF m2 W2 q2, where sb = "rc_currentSize c0" and se = se and x = x] by blast
    have hx: "rhot x c2 = rhot (rlockPressure env False c) c" "radixHasCB c2 = radixHasCB c"
      using rcfg_simps [OF cfg2] l(8) by auto
    have "ents (entryOf K (rc_heap c2)) (remove1 e ?as) = ents (entryOf K ?h) (remove1 e ?as)"
      by (rule ents_cong) (use sheds_sizes [OF er(3)] l(7) in \<open>simp add: c2_def\<close>)
    then have oth: "rlru c2 = others k (rlru c)" "filter (\<lambda>x. entry_key x = k) (rlru c) = [payload (entryOf K ?h e)]"
      using others_ents [OF rmidD(2) [OF m] e] rlru_rmid [OF m] rlru_rmid [OF m2] le by simp_all
    have "radixCallbacks c3 q3 = rcalls c (map (event_of EvictionReasonDeleted) (filter (\<lambda>x. entry_key x = k) (rlru c))
          @ map (event_of EvictionReasonPressure) gp)"
      by (rule rinvoke_calls [OF t(5)]) (use t(3,6) g1 hx cfg2 oth in auto)
    moreover have "radixCache_Delete env k c = Inr (c3, rn_value (rc_heap c0 e), True, radixCallbacks c3 q3)"
      using g Some er(1) t(1) runlock_ok [OF t(2)] by (simp add: radixCache_Delete_def lk c2_def [symmetric])
    ultimately show ?thesis
      using t(2,3,4) cfg2 hx oth le l(7) by (intro exI [of _ c3] exI [of _ gp]) simp
  qed
qed

end
