(* ===== verification/RadixPut.thy ===== *)
theory RadixPut
  imports RadixLookup
begin

text \<open>
  \<open>Put\<close> of the radix backend: the eviction loops, the update of an existing node, the insertion of a
  new one, and the whole operation against the contract of the map backend.
\<close>

subsection \<open>Updating an entry\<close>

lemma rmid_resize:
  assumes m: "rmid W 0 0 0 0 K c (e # as)" and w: "w \<le> rc_maxSize c"
  shows "rmid (W(e := w)) (unat w) 0 0 0 K
    ((onRps (onEntrySizeUpdated (W e) w) c)\<lparr>rc_currentSize := rc_currentSize c - W e\<rparr>) (e # as)"
proof -
  let ?c = "(onRps (onEntrySizeUpdated (W e) w) c)\<lparr>rc_currentSize := rc_currentSize c - W e\<rparr>"
  have "shadow K (e # as) ?c = (onPs (onEntrySizeUpdated (W e) w) (shadow K (e # as) c))\<lparr>m_currentSize := m_currentSize (shadow K (e # as) c) - W e\<rparr>"
    by (simp add: shadow_def onPs_def)
  then show ?thesis
    using mid_resize [OF rmidD(2) [OF m]] w bound_same [OF rmidD(1) [OF m], of ?c] by (simp add: rmid_def)
qed

lemma rmid_write:
  assumes m: "rmid W d dd rr ss K c as" and e: "e \<in> set as"
    and x: "links x = links (rc_heap c e)" "rn_hasValue x" "rn_prev x = rn_prev (rc_heap c e)" "rn_next x = rn_next (rc_heap c e)"
    and cur: "unat cur + d' = unat (rc_currentSize c) + d" "cur \<le> rc_maxSize c"
  shows "rmid W d' dd rr ss K (c\<lparr>rc_heap := (rc_heap c)(e := x), rc_currentSize := cur\<rparr>) as"
proof -
  let ?c = "c\<lparr>rc_heap := (rc_heap c)(e := x), rc_currentSize := cur\<rparr>"
  note d = rmidD [OF m]
  have b: "bound K ?c as" by (rule bound_list [OF d(1)]) (use x e bound_bearing [OF d(1) e] in auto)
  let ?x = "\<lparr>ekey = K e, prev = rn_prev x, next = rn_next x, esize = rn_size x, evalue = rn_value x\<rparr>"
  have "mid W d' dd rr ss ((shadow K as c)\<lparr>m_heap := (m_heap (shadow K as c))(e := ?x), m_currentSize := cur\<rparr>) as"
    by (rule mid_write [OF d(2)]) (use x cur in auto)
  moreover have "shadow K as ?c = (shadow K as c)\<lparr>m_heap := (m_heap (shadow K as c))(e := ?x), m_currentSize := cur\<rparr>"
    by (simp add: shadow_def entryOf_upd)
  ultimately show ?thesis using b by (simp add: rmid_def)
qed

lemma radixUpdateEvictLoop_spec:
  fixes c :: "('v :: zero) radixCache"
  assumes m: "rmid W (unat (W e)) 0 0 0 K c (e # as)" and W: "\<And>a. a \<in> set as \<Longrightarrow> W a = rn_size (rc_heap c a)" "W e = w"
    and q: "qsim (rc_onEvictEntry c) q g"
  shows "\<exists>c' q' g' as' gs. radixUpdateEvictLoop e w hz False [] (c, q)
      = Some (Inr ((c', q'), map (\<lambda>a. rn_value (rc_heap c a)) gs, gs \<noteq> []))
    \<and> rmid W (unat (W e)) 0 0 0 K c' (e # as') \<and> qsim (rc_onEvictEntry c') q' g'
    \<and> tail_evicted (shadow K (e # as) c, g) (e # as) gs (shadow K (e # as') c', g') (e # as')
    \<and> (as' = [] \<or> \<not> (rc_maxSize c' - rc_currentSize c' < w \<or> (hz \<and> gs = [])))
    \<and> (gs \<noteq> [] \<longrightarrow> \<not> hz \<longrightarrow> unat (rc_maxSize c) < weight_sum (map W (e # as' @ [List.last gs])))"
proof -
  note d = rmidD [OF m]
  have W': "\<And>a. a \<in> set as \<Longrightarrow> W a = esize (m_heap (shadow K (e # as) c) a)" using W(1) by simp
  obtain m' g' as' gs where s: "updateEvictLoop w hz False [] (shadow K (e # as) c, g)
      = Some ((m', g'), [] @ map (\<lambda>a. evalue (m_heap (shadow K (e # as) c) a)) gs, False \<or> gs \<noteq> [])"
    "mid W (unat (W e)) 0 0 0 m' (e # as')" "tail_evicted (shadow K (e # as) c, g) (e # as) gs (m', g') (e # as')"
    "as' = [] \<or> \<not> (m_maxSize m' - m_currentSize m' < w \<or> (hz \<and> \<not> (False \<or> gs \<noteq> [])))"
    "gs \<noteq> [] \<longrightarrow> \<not> hz \<longrightarrow> unat (m_maxSize (shadow K (e # as) c)) < weight_sum (map W (e # as' @ [List.last gs]))"
    using updateEvictLoop_spec [OF d(2) W' W(2), where hz = hz and ev = False and acc = "[]" and q = g] by blast
  obtain c' q' as2 where r: "radixUpdateEvictLoop e w hz False [] (c, q) = Some (Inr ((c', q'), map (\<lambda>a. rn_value (rc_heap c a)) gs, gs \<noteq> []))"
    "likes K as2 c' m'" "qsim (rc_onEvictEntry c') q' g'"
    using updateEvictLoop_sim [OF d(3) q, where w = w and hz = hz and ev = False and acc = "[]"] s(1) by auto
  have l: "likes K (e # as') c' m'" "rmid W (unat (W e)) 0 0 0 K c' (e # as')" using likes_rmid [OF r(2) s(2)] r(2) by auto
  have te: "tail_evicted (shadow K (e # as) c, g) (e # as) gs (shadow K (e # as') c', g') (e # as')"
    using s(3) likes_sheds [OF l(1)] unfolding tail_evicted_def by blast
  show ?thesis
    using r(1,3) l(2) te s(4,5) likes_view(3,4) [OF l(1)] by - (rule exI, rule exI, rule exI, rule exI, rule exI, auto)
qed

lemma rnotifyReplaced_spec:
  assumes "radixCache_notifyReplaced k v w (c, q) = (c', q')" "qsim (rc_onEvictEntry c) q g"
  shows "c' = onRps (\<lambda>p. p\<lparr>evictionsReplaced := evictionsReplaced p + 1, evictedWeightReplaced := evictedWeightReplaced p + w\<rparr>) c
    \<and> (\<exists>g'. qsim (rc_onEvictEntry c') q' g' \<and> queue_events g' = queue_events g @ (if radixHasCB c then [(k, v, EvictionReasonReplaced)] else []))"
proof -
  have "queue_wf g" using assms(2) by (simp add: qsim_def)
  moreover have "qsim (rc_onEvictEntry c) (enqueue k v EvictionReasonReplaced q) (enqueue k v EvictionReasonReplaced g)"
    by (rule qsim_enqueue [OF assms(2)]) simp
  ultimately show ?thesis
    using assms by (cases "radixHasCB c") (auto simp: radixCache_notifyReplaced_def Let_def)
qed

lemma tail_sheds:
  assumes "tail_evicted st as gs st' as'"
  shows "sheds st as (map (\<lambda>a. (a, EvictionReasonCapacity)) gs) st' as'" "as = as' @ rev gs"
  using assms by (auto simp: tail_evicted_def)

lemma rupdateExisting_spec:
  fixes c :: "('v :: zero) radixCache"
  assumes m: "rmid (sizes (rc_heap c)) 0 0 0 0 K c as" and e: "e \<in> set as" and w: "w \<le> rc_maxSize c" and q: "qsim (rc_onEvictEntry c) q g"
  shows "\<exists>c' q' g' as' gs b. radixCache_updateExistingOnPutLocked e (K e) v w sb x (c, q)
      = Inr ((c', q'), map (\<lambda>a. rn_value (rc_heap c a)) gs, b)
    \<and> rmid (sizes (rc_heap c')) 0 0 0 0 K c' (e # as') \<and> remove1 e as = as' @ rev gs
    \<and> payload (entryOf K (rc_heap c') e) = (K e, w, v)
    \<and> (\<forall>a\<in>set as'. payload (entryOf K (rc_heap c') a) = payload (entryOf K (rc_heap c) a)) \<and> rcfg c' = rcfg c
    \<and> qsim (rc_onEvictEntry c') q' g' \<and> queue_events g' = queue_events g @ (if radixHasCB c then
        map (entry_event (entryOf K (rc_heap c)) EvictionReasonCapacity) gs
        @ [entry_event (entryOf K (rc_heap c)) EvictionReasonReplaced e] else [])
    \<and> (gs \<noteq> [] \<longrightarrow> w \<noteq> 0 \<longrightarrow> unat (rc_maxSize c) < unat w + weight_sum (map (sizes (rc_heap c)) (as' @ [List.last gs])))"
proof -
  let ?h = "rc_heap c" and ?W = "sizes (rc_heap c)" and ?old = "rn_size (rc_heap c e)" and ?as = "e # remove1 e as"
  define hz where "hz = shouldEvictOnZeroWeightShrink (rc_ps c) ?old w (rc_maxSize c)"
  define c1 where "c1 = onList (moveToFront e) (onRps (onEntrySizeUpdated ?old w) c)"
  define c2 where "c2 = c1\<lparr>rc_currentSize := rc_currentSize c1 - ?old\<rparr>"
  define W' where "W' = ?W(e := w)"
  have We: "?W e = ?old" by (simp add: sizes_def)
  have dist: "distinct ?as" using rmidD(7) [OF m] by simp
  note mv = rmid_move [OF m e]
  have c2e: "c2 = (onRps (onEntrySizeUpdated (?W e) w) (onList (moveToFront e) c))
      \<lparr>rc_currentSize := rc_currentSize (onList (moveToFront e) c) - ?W e\<rparr>"
    by (simp add: c2_def c1_def onList_def onRps_def We split: prod.splits)
  then have m2: "rmid W' (unat (W' e)) 0 0 0 K c2 ?as"
    using rmid_resize [OF mv(1)] w by (simp add: W'_def)
  have i2: "inert (rc_heap c2 a) = inert (?h a)" for a using mv(2) [of a] by (simp add: c2_def c1_def)
  have h2: "payload (entryOf K (rc_heap c2) a) = payload (entryOf K ?h a)" "rn_value (rc_heap c2 a) = rn_value (?h a)"
    "rn_size (rc_heap c2 a) = rn_size (?h a)" for a
    using inertD [OF i2 [of a]] by (simp_all add: payload_def)
  have W': "W' a = rn_size (rc_heap c2 a)" if "a \<in> set (remove1 e as)" for a
    using that dist h2 [of a] by (auto simp: W'_def sizes_def)
  have cfg2: "rcfg c2 = rcfg c" by (simp add: c2_def c1_def rcfg_def)
  have q2: "qsim (rc_onEvictEntry c2) q g" using q rcfg_simps [OF cfg2] by simp
  have W'e: "W' e = w" by (simp add: W'_def)
  obtain c3 q3 g3 as' gs where lp: "radixUpdateEvictLoop e w hz False [] (c2, q)
      = Some (Inr ((c3, q3), map (\<lambda>a. rn_value (rc_heap c2 a)) gs, gs \<noteq> []))"
    "rmid W' (unat (W' e)) 0 0 0 K c3 (e # as')" "qsim (rc_onEvictEntry c3) q3 g3"
    "tail_evicted (shadow K ?as c2, g) ?as gs (shadow K (e # as') c3, g3) (e # as')"
    "as' = [] \<or> \<not> (rc_maxSize c3 - rc_currentSize c3 < w \<or> (hz \<and> gs = []))"
    "gs \<noteq> [] \<longrightarrow> \<not> hz \<longrightarrow> unat (rc_maxSize c2) < weight_sum (map W' (e # as' @ [List.last gs]))"
    using radixUpdateEvictLoop_spec [OF m2 W' W'e q2, where hz = hz] by blast
  note sh = tail_sheds(1) [OF lp(4)]
  have rm: "remove1 e as = as' @ rev gs" using tail_sheds(2) [OF lp(4)] by simp
  have cfg3: "rcfg c3 = rcfg c" using sh cfg2 by (simp add: sheds_def)
  have h3: "payload (entryOf K (rc_heap c3) a) = payload (entryOf K ?h a)" if "a \<in> set (e # as')" for a
    using sheds_sizes(3) [OF sh that] h2 by simp
  have d3: "mid W' (unat (W' e)) 0 0 0 (shadow K (e # as') c3) (e # as')" by (rule rmidD(2) [OF lp(2)])
  have fit: "unat (rc_currentSize c3) + unat w \<le> unat (rc_maxSize c3)"
  proof (cases "as' = []")
    case True
    then have "unat (rc_currentSize c3) = 0" using d3 by (simp add: mid_def)
    then show ?thesis using w rcfg_simps [OF cfg3] by (simp add: word_le_nat_alt)
  next
    case False
    have "rc_currentSize c3 \<le> rc_maxSize c3" using d3 by (simp add: mid_def)
    then show ?thesis
      using False lp(5) unat_sub_u64 [of "rc_currentSize c3" "rc_maxSize c3"]
      by (auto simp: word_less_nat_alt word_le_nat_alt)
  qed
  then have add: "unat (rc_currentSize c3 + w) = unat (rc_currentSize c3) + unat w"
    using unat_lt_u64 [of "rc_maxSize c3"] by (intro unat_add_u64) simp
  define x3 where "x3 = (rc_heap c3 e)\<lparr>rn_value := v, rn_hasValue := True, rn_size := w\<rparr>"
  define c4 where "c4 = c3\<lparr>rc_heap := (rc_heap c3)(e := x3), rc_currentSize := rc_currentSize c3 + w\<rparr>"
  have m4: "rmid W' 0 0 0 0 K c4 (e # as')"
    unfolding c4_def by (rule rmid_write [OF lp(2)]) (use add fit in \<open>auto simp: W'_def word_le_nat_alt x3_def links_def\<close>)
  define c5 where "c5 = onRps (\<lambda>p. p\<lparr>putUpdated := putUpdated p + 1\<rparr>) c4"
  obtain c6 q6 where nr: "radixCache_notifyReplaced (K e) (rn_value (?h e)) ?old (c5, q3) = (c6, q6)" by (rule prod.exhaust)
  have q5: "qsim (rc_onEvictEntry c5) q3 g3" using lp(3) by (simp add: c5_def c4_def)
  obtain g6 where c6: "c6 = onRps (\<lambda>p. p\<lparr>evictionsReplaced := evictionsReplaced p + 1, evictedWeightReplaced := evictedWeightReplaced p + ?old\<rparr>) c5"
    "qsim (rc_onEvictEntry c6) q6 g6" "queue_events g6 = queue_events g3 @ (if radixHasCB c5 then [(K e, rn_value (?h e), EvictionReasonReplaced)] else [])"
    using rnotifyReplaced_spec [OF nr q5] by blast
  have c6_eq: "c6 = onRps (\<lambda>p. p\<lparr>putUpdated := putUpdated p + 1, evictionsReplaced := evictionsReplaced p + 1,
      evictedWeightReplaced := evictedWeightReplaced p + ?old\<rparr>) c4"
    using c6(1) by (simp add: c5_def onRps_def)
  have m6: "rmid W' 0 0 0 0 K c6 (e # as')"
    unfolding c6_eq by (rule rmid_onRps [OF m4]) (rule ps_ok_updated(1))
  have h6: "rc_heap c6 = (rc_heap c3)(e := x3)" by (simp add: c6_eq c4_def)
  have eas: "e \<notin> set as'" using dist rm by auto
  have pe: "payload (entryOf K (rc_heap c6) e) = (K e, w, v)" by (simp add: h6 payload_def x3_def)
  have pa: "payload (entryOf K (rc_heap c6) a) = payload (entryOf K ?h a)" if "a \<in> set as'" for a
    using h3 [of a] that eas by (auto simp: h6 payload_def)
  have W6: "W' a = sizes (rc_heap c6) a" if "a \<in> set (e # as')" for a
    using that pe pa [of a] eas by (auto simp: W'_def sizes_def payload_def)
  have cb: "radixHasCB c5 = radixHasCB c" "rcfg c6 = rcfg c" using rcfg_simps [OF cfg3] by (auto simp: c5_def c4_def c6_eq rcfg_def radixHasCB_def)
  have qw: "queue_wf g" using q by (simp add: qsim_def)
  have ev3: "queue_events g3 = queue_events g @ (if radixHasCB c then map (entry_event (entryOf K ?h) EvictionReasonCapacity) gs else [])"
    using sheds_events [OF sh qw] h2 rcfg_simps [OF cfg2] by (simp add: entry_event_def)
  have hz0: "\<not> hz" if "w \<noteq> 0" using that by (simp add: hz_def shouldEvictOnZeroWeightShrink_def)
  have gse: "weight_sum (map W' (e # as' @ [List.last gs])) = unat w + weight_sum (map ?W (as' @ [List.last gs]))" if "gs \<noteq> []"
  proof -
    have "e \<notin> set (as' @ [List.last gs])" using that dist rm eas by auto
    then have "map W' (as' @ [List.last gs]) = map ?W (as' @ [List.last gs])" unfolding W'_def by (rule map_upd_notin)
    then show ?thesis using W'e by (metis list.simps(9) weight_sum_simps(2))
  qed
  show ?thesis
  proof (intro exI conjI)
    show "radixCache_updateExistingOnPutLocked e (K e) v w sb x (c, q) = Inr ((c6, q6), map (\<lambda>a. rn_value (?h a)) gs,
        shouldReclaimSingleSurvivorOnMutation (rc_ps c6) (radixLen c6) (0 < deletedSinceCompact (rc_ps c6)) False (gs \<noteq> []) (rc_currentSize c6) sb x)"
      using lp(1) h2(2) nr
      unfolding radixCache_updateExistingOnPutLocked_def Let_def prod.case hz_def [symmetric] c1_def [symmetric] c2_def [symmetric]
      by (simp add: setNode_def x3_def [symmetric] c4_def [symmetric] c5_def [symmetric])
    show "rmid (sizes (rc_heap c6)) 0 0 0 0 K c6 (e # as')"
      using mid_W_cong [of "e # as'" W' "sizes (rc_heap c6)"] W6 m6 unfolding rmid_def by blast
    show "queue_events g6 = queue_events g @ (if radixHasCB c then
        map (entry_event (entryOf K ?h) EvictionReasonCapacity) gs @ [entry_event (entryOf K ?h) EvictionReasonReplaced e] else [])"
      using c6(3) cb(1) ev3 by (simp add: entry_event_def)
    show "gs \<noteq> [] \<longrightarrow> w \<noteq> 0 \<longrightarrow> unat (rc_maxSize c) < unat w + weight_sum (map ?W (as' @ [List.last gs]))"
      using lp(6) hz0 gse rcfg_simps [OF cfg2] by simp
  qed (use rm pe pa cb(2) c6(2) in auto)
qed

subsection \<open>Inserting an entry\<close>

lemma radixInsertEvictLoop_spec:
  fixes c :: "('v :: zero) radixCache"
  assumes m: "rmid W 0 0 0 0 K c as" and W: "\<And>a. a \<in> set as \<Longrightarrow> W a = rn_size (rc_heap c a)" and q: "qsim (rc_onEvictEntry c) q g"
  shows "\<exists>c' q' g' as' gs. radixInsertEvictLoop w False [] (c, q)
      = Some (Inr ((c', q'), map (\<lambda>a. rn_value (rc_heap c a)) gs, gs \<noteq> []))
    \<and> rmid W 0 0 0 0 K c' as' \<and> qsim (rc_onEvictEntry c') q' g' \<and> putInserted (rc_ps c') = putInserted (rc_ps c)
    \<and> tail_evicted (shadow K as c, g) as gs (shadow K as' c', g') as'
    \<and> (as' = [] \<or> \<not> shouldEvictPreInsertOnPut (rc_ps c') w (rc_maxSize c') (rc_currentSize c') (radixLen c') (gs \<noteq> []))
    \<and> (gs \<noteq> [] \<longrightarrow> 0 \<notin> W ` set as \<longrightarrow> w \<noteq> 0 \<longrightarrow> unat (rc_maxSize c) < weight_sum (map W (as' @ [List.last gs])) + unat w)"
proof -
  note d = rmidD [OF m]
  have W': "\<And>a. a \<in> set as \<Longrightarrow> W a = esize (m_heap (shadow K as c) a)" using W(1) by simp
  obtain m' g' as' gs where s: "insertEvictLoop w False None [] (shadow K as c, g)
      = Some (Inr ((m', g'), if None = (None :: addr option) then first gs None else None,
          [] @ map (\<lambda>a. evalue (m_heap (shadow K as c) a)) gs, False \<or> gs \<noteq> []))"
    "mid W 0 0 0 0 m' as'" "tail_evicted (shadow K as c, g) as gs (m', g') as'"
    "as' = [] \<or> \<not> shouldEvictPreInsertOnPut (m_ps m') w (m_maxSize m') (m_currentSize m') (mapLen m') (False \<or> gs \<noteq> [])"
    "gs \<noteq> [] \<longrightarrow> 0 \<notin> W ` set as \<longrightarrow> w \<noteq> 0 \<longrightarrow> unat (m_maxSize (shadow K as c)) < weight_sum (map W (as' @ [List.last gs])) + unat w"
    using insertEvictLoop_spec [OF d(2) W', where w = w and ev = False and rc = None and acc = "[]" and q = g] by blast
  obtain c' q' as2 where r: "radixInsertEvictLoop w False [] (c, q) = Some (Inr ((c', q'), map (\<lambda>a. rn_value (rc_heap c a)) gs, gs \<noteq> []))"
    "likes K as2 c' m'" "qsim (rc_onEvictEntry c') q' g'"
    using insertEvictLoop_sim [OF d(3) q, where w = w and ev = False and rc = None and acc = "[]"] s(1) by auto
  have l: "likes K as' c' m'" "rmid W 0 0 0 0 K c' as'" using likes_rmid [OF r(2) s(2)] r(2) by auto
  have te: "tail_evicted (shadow K as c, g) as gs (shadow K as' c', g') as'"
    using s(3) likes_sheds [OF l(1)] unfolding tail_evicted_def by blast
  have "putInserted (rc_ps c') = putInserted (rc_ps c)"
    using insertEvictLoop_putInserted [OF s(1)] likes_view(2) [OF l(1)] by simp
  then show ?thesis
    using r(1,3) l(2) te s(4,5) likes_view(1-4) [OF l(1)] by - (rule exI, rule exI, rule exI, rule exI, rule exI, auto)
qed

lemma pushFront_out: "x \<noteq> a \<Longrightarrow> r_head l \<noteq> Some x \<Longrightarrow> fst (pushFront a (h, l)) x = h x"
  by (auto simp: pushFront_def Let_def split: option.splits)

lemma bound_insertNode:
  fixes c :: "('v :: zero) radixCache"
  assumes b: "bound K c as" and k: "\<And>a. a \<in> set as \<Longrightarrow> K a \<noteq> k"
  obtains c' e where "radixCache_insertNode k v c = Inr (c', e)" "bound (K(e := k)) c' (e # as)" "e \<notin> set as"
    "body (rc_heap c' e) = (0, None, None, True, v)" "grown c {e} c'"
proof -
  obtain F where F: "tree_inv c F" "fcompact (bearing (rc_heap c)) F" "vkeys c F = (\<lambda>a. (a, K a)) ` set as"
    using b by (auto simp: bound_def)
  have new: "\<And>a. (a, k) \<notin> vkeys c F" using k unfolding F(3) by blast
  obtain c' e F' where i: "radixCache_insertNode k v c = Inr (c', e)" "tree_inv c' F'" "fcompact (bearing (rc_heap c')) F'"
    "vkeys c' F' = insert (e, k) (vkeys c F)" "body (rc_heap c' e) = (0, None, None, True, v)" "e \<notin> fst ` vkeys c F" "grown c {e} c'"
    using insertNode_spec [OF F(1,2) new, of v] unfolding inserted_def by blast
  have e: "e \<notin> set as" using i(6) unfolding F(3) by (simp add: image_image)
  then have "(\<lambda>a. (a, (K(e := k)) a)) ` set as = (\<lambda>a. (a, K a)) ` set as" by (intro image_cong) auto
  then have "vkeys c' F' = (\<lambda>a. (a, (K(e := k)) a)) ` set (e # as)" using i(4) F(3) by simp
  then have "bound (K(e := k)) c' (e # as)" using i(2,3) unfolding bound_def by blast
  then show thesis using that i(1,5,7) e by blast
qed

lemma rmid_insert:
  fixes c :: "('v :: zero) radixCache"
  assumes m: "rmid W 0 0 0 0 K c as" and k: "\<And>a. a \<in> set as \<Longrightarrow> K a \<noteq> k"
    and fit: "unat (rc_currentSize c) + unat w \<le> unat (rc_maxSize c)" and room: "putInserted (rc_ps c) \<noteq> - 1"
  obtains c2 e c8 where "radixCache_insertNode k v c = Inr (c2, e)"
    "c8 = (let c3 = c2\<lparr>rc_recycleNodes := []\<rparr>;
         c4 = setNode e (\<lambda>x. x\<lparr>rn_size := w\<rparr>) c3;
         c5 = onList (pushFront e) c4;
         c6 = onRps (\<lambda>p. p\<lparr>putInserted := putInserted p + 1\<rparr>) c5;
         c7 = onRps (onEntryPut (radixLen c6) w) c6
       in c7\<lparr>rc_currentSize := rc_currentSize c7 + w\<rparr>)"
    "rmid (W(e := w)) 0 0 0 0 (K(e := k)) c8 (e # as)" "e \<notin> set as" "payload (entryOf (K(e := k)) (rc_heap c8) e) = (k, w, v)"
    "\<And>a. a \<in> set as \<Longrightarrow> payload (entryOf (K(e := k)) (rc_heap c8) a) = payload (entryOf K (rc_heap c) a)" "rcfg c8 = rcfg c"
proof -
  note d = rmidD [OF m]
  obtain c2 e where i: "radixCache_insertNode k v c = Inr (c2, e)" "bound (K(e := k)) c2 (e # as)" "e \<notin> set as"
    "body (rc_heap c2 e) = (0, None, None, True, v)" "grown c {e} c2"
    by (rule bound_insertNode [OF d(1) k])
  let ?K = "K(e := k)"
  have gf: "rc_maxSize c2 = rc_maxSize c" "rc_currentSize c2 = rc_currentSize c" "rc_root c2 = rc_root c" "rc_ends c2 = rc_ends c"
    "rc_weigher c2 = rc_weigher c" "rc_onEvictValue c2 = rc_onEvictValue c" "rc_onEvictEntry c2 = rc_onEvictEntry c" "rc_ps c2 = rc_ps c"
    "rc_nextAddr c \<le> rc_nextAddr c2"
    using i(5) by (cases c; cases c2; simp add: grown_def)+
  have gb: "body (rc_heap c2 x) = body (rc_heap c x)" if "x \<in> set as" for x
    using i(3,5) bound_small [OF d(1) that] that by (auto simp: grown_def)
  define c3 where "c3 = c2\<lparr>rc_recycleNodes := []\<rparr>"
  define c4 where "c4 = setNode e (\<lambda>x. x\<lparr>rn_size := w\<rparr>) c3"
  define c5 where "c5 = onList (pushFront e) c4"
  define c6 where "c6 = onRps (\<lambda>p. p\<lparr>putInserted := putInserted p + 1\<rparr>) c5"
  define c7 where "c7 = onRps (onEntryPut (radixLen c6) w) c6"
  define c8 where "c8 = c7\<lparr>rc_currentSize := rc_currentSize c7 + w\<rparr>"
  have h4: "rc_heap c4 = (rc_heap c2)(e := (rc_heap c2 e)\<lparr>rn_size := w\<rparr>)" by (simp add: c4_def c3_def setNode_def)
  have fe: "payload (entryOf ?K (rc_heap c4) e) = (k, w, v)" using i(4) by (simp add: h4 payload_def body_def)
  have fb: "entryOf ?K (rc_heap c4) b = entryOf K (rc_heap c) b" if "b \<in> set as" for b
    using gb [OF that] that i(3) by (auto simp: h4 entryOf_def body_def)
  have b3: "bound ?K c3 (e # as)" using i(2) by (auto simp: bound_def tree_inv_def vkeys_def c3_def Let_def)
  have e2: "e < rc_nextAddr c2" using bound_small [OF i(2)] by simp
  have dll: "dll (entryOf K (rc_heap c), listOf (rc_ends c)) as" using d(2) by (simp add: mid_def map_repr_def)
  have "lseg (entryOf ?K (rc_heap c4)) None as None = lseg (entryOf K (rc_heap c)) None as None" by (rule lseg_cong) (simp_all add: fb)
  then have dll4: "dll (entryOf ?K (rc_heap c4), listOf (rc_ends c4)) as"
    using dll gf(4) by (simp add: dll_def c4_def c3_def setNode_def)
  obtain h5 l5 where pf: "pushFront e (rc_heap c4, rc_ends c4) = (h5, l5)" by (rule prod.exhaust)
  note pe = pushFront_entry [OF dll4 pf]
  let ?m = "shadow K as c"
  define m1 where "m1 = onEntries (PushFront e) (?m\<lparr>m_heap := entryOf ?K (rc_heap c4), m_nextAddr := rc_nextAddr c2\<rparr>)"
  define m2 where "m2 = onPs (\<lambda>p. p\<lparr>putInserted := putInserted p + 1\<rparr>) (m1\<lparr>m_index := AList.update k e (m_index m1)\<rparr>)"
  define m3 where "m3 = (onPs (onEntryPut (mapLen m2) w) m2)\<lparr>m_currentSize := m_currentSize ?m + w\<rparr>"
  have "k \<notin> K ` set as" using k by blast
  then have ix: "map_of (m_index ?m) k = None" by (simp add: map_of_eq_None_iff image_image)
  have mi: "mid (W(e := w)) 0 0 0 0 m3 (e # as)" "\<And>b. payload (m_heap m3 b) = payload (entryOf ?K (rc_heap c4) b)"
    unfolding m3_def m2_def m1_def
    by (rule mid_insert [OF d(2) i(3) e2 _ ix]; use gf fe fb fit room in simp)+
  have ends4: "rc_ends c4 = rc_ends c" by (simp add: c4_def c3_def setNode_def gf)
  have h8: "rc_heap c8 = h5" "rc_ends c8 = l5" using pf by (simp_all add: c8_def c7_def c6_def c5_def)
  have m1f: "m_heap m1 = entryOf ?K h5" "m_entries m1 = listOf l5"
    using pe(1) unfolding ends4 by (simp_all add: m1_def)
  have m3f: "m_heap m3 = entryOf ?K h5" "m_entries m3 = listOf l5" using m1f by (simp_all add: m3_def m2_def)
  have len: "mapLen m2 = radixLen c6"
    using m1f(2) pf by (simp add: m2_def mapLen_def radixLen_def entryList_Len_def c6_def c5_def)
  have o8: "rc_heap c8 x = rc_heap c3 x" if "x \<notin> set (e # as)" for x
  proof -
    have "r_head (rc_ends c4) \<noteq> Some x" using that d(6) unfolding ends4 by (auto dest: first_mem)
    then have "h5 x = rc_heap c4 x" using pushFront_out [of x e "rc_ends c4" "rc_heap c4"] pf that by simp
    then show ?thesis using that by (simp add: h8 h4 c3_def)
  qed
  have l8: "links (rc_heap c8 x) = links (rc_heap c3 x) \<and> rn_hasValue (rc_heap c8 x) = rn_hasValue (rc_heap c3 x)" for x
    using inertD [OF pe(2) [of x]] by (simp add: h8 h4 c3_def links_def)
  have b8: "bound ?K c8 (e # as)"
    by (rule bound_list [OF b3 _ _ _ l8 o8]) (simp_all add: c8_def c7_def c6_def c5_def c4_def setNode_def)
  have lk: "likes ?K (e # as) c8 m3"
    unfolding likes_def
  proof (intro conjI)
    show "m_ps m3 = rc_ps c8" using len by (simp add: m3_def m2_def m1_def c8_def c7_def c6_def c5_def c4_def c3_def setNode_def gf)
    show "map_repr m3 (e # as)" using mi(1) by (simp add: mid_def)
    show "bound ?K c8 (e # as)" by (rule b8)
    show "\<exists>K'. (\<forall>a\<in>set (e # as). K' a = ?K a) \<and> m_heap m3 = entryOf K' (rc_heap c8)"
      using m3f h8 by (intro exI [of _ ?K]) simp
  qed (use m3f h8 in \<open>simp_all add: m3_def m2_def m1_def c8_def c7_def c6_def c5_def c4_def c3_def setNode_def gf\<close>)
  have r: "rmid (W(e := w)) 0 0 0 0 ?K c8 (e # as)" using likes_rmid [OF lk mi(1)] by blast
  have p8: "payload (entryOf ?K (rc_heap c8) b) = payload (entryOf ?K (rc_heap c4) b)" for b using mi(2) [of b] m3f h8 by simp
  show thesis
  proof (rule that [OF i(1) _ r i(3)])
    show "rcfg c8 = rcfg c" using gf by (simp add: rcfg_def c8_def c7_def c6_def c5_def c4_def c3_def setNode_def)
    show "c8 = (let c3 = c2\<lparr>rc_recycleNodes := []\<rparr>; c4 = setNode e (\<lambda>x. x\<lparr>rn_size := w\<rparr>) c3; c5 = onList (pushFront e) c4;
         c6 = onRps (\<lambda>p. p\<lparr>putInserted := putInserted p + 1\<rparr>) c5; c7 = onRps (onEntryPut (radixLen c6) w) c6
       in c7\<lparr>rc_currentSize := rc_currentSize c7 + w\<rparr>)"
      unfolding Let_def c8_def c7_def c6_def c5_def c4_def c3_def ..
  qed (use p8 fe fb in simp_all)
qed

lemma rinsert_spec:
  fixes c :: "('v :: zero) radixCache"
  assumes m: "rmid (sizes (rc_heap c)) 0 0 0 0 K c as" and k: "\<And>a. a \<in> set as \<Longrightarrow> K a \<noteq> k"
    and w: "w \<le> rc_maxSize c" and q: "qsim (rc_onEvictEntry c) q g" and room: "putInserted (rc_ps c) \<noteq> - 1"
  shows "\<exists>c' q' g' as' gs e b1 b2. radixCache_insertOnPutLocked k v w sb x (c, q)
      = Inr ((c', q'), e, map (\<lambda>a. rn_value (rc_heap c a)) gs, b1, b2)
    \<and> rmid (sizes (rc_heap c')) 0 0 0 0 (K(e := k)) c' (e # as') \<and> as = as' @ rev gs
    \<and> payload (entryOf (K(e := k)) (rc_heap c') e) = (k, w, v)
    \<and> (\<forall>a\<in>set as'. payload (entryOf (K(e := k)) (rc_heap c') a) = payload (entryOf K (rc_heap c) a)) \<and> rcfg c' = rcfg c
    \<and> qsim (rc_onEvictEntry c') q' g' \<and> queue_events g' = queue_events g @ (if radixHasCB c then
        map (entry_event (entryOf K (rc_heap c)) EvictionReasonCapacity) gs else [])
    \<and> (gs \<noteq> [] \<longrightarrow> 0 \<notin> sizes (rc_heap c) ` set as \<longrightarrow> w \<noteq> 0 \<longrightarrow> unat (rc_maxSize c)
        < weight_sum (map (sizes (rc_heap c)) (as' @ [List.last gs])) + unat w)"
proof -
  let ?W = "sizes (rc_heap c)"
  define c0 where "c0 = c\<lparr>rc_recyclingForPut := True\<rparr>"
  have f0: "shadow K bs c0 = shadow K bs c" "rc_heap c0 = rc_heap c" "rc_onEvictEntry c0 = rc_onEvictEntry c" "rc_ps c0 = rc_ps c"
    "rc_maxSize c0 = rc_maxSize c" "radixHasCB c0 = radixHasCB c" for bs
    by (simp_all add: c0_def shadow_def radixHasCB_def)
  have m0: "rmid ?W 0 0 0 0 K c0 as" using m bound_same [of K c as c0] by (simp add: rmid_def f0(1)) (simp add: c0_def)
  have W: "\<And>a. a \<in> set as \<Longrightarrow> ?W a = rn_size (rc_heap c0 a)" by (simp add: sizes_def f0)
  have q0: "qsim (rc_onEvictEntry c0) q g" using q f0 by simp
  obtain c1 q1 g1 as' gs where lp: "radixInsertEvictLoop w False [] (c0, q)
      = Some (Inr ((c1, q1), map (\<lambda>a. rn_value (rc_heap c0 a)) gs, gs \<noteq> []))"
    "rmid ?W 0 0 0 0 K c1 as'" "qsim (rc_onEvictEntry c1) q1 g1" "putInserted (rc_ps c1) = putInserted (rc_ps c0)"
    "tail_evicted (shadow K as c0, g) as gs (shadow K as' c1, g1) as'"
    "as' = [] \<or> \<not> shouldEvictPreInsertOnPut (rc_ps c1) w (rc_maxSize c1) (rc_currentSize c1) (radixLen c1) (gs \<noteq> [])"
    "gs \<noteq> [] \<longrightarrow> 0 \<notin> ?W ` set as \<longrightarrow> w \<noteq> 0 \<longrightarrow> unat (rc_maxSize c0) < weight_sum (map ?W (as' @ [List.last gs])) + unat w"
    using radixInsertEvictLoop_spec [OF m0 W q0, of w] by blast
  note sh = tail_sheds [OF lp(5)]
  have cfg1: "rcfg c1 = rcfg c" using sh(1) by (simp add: sheds_def f0)
  define c2 where "c2 = c1\<lparr>rc_recyclingForPut := False\<rparr>"
  have f2: "shadow K bs c2 = shadow K bs c1" "rc_heap c2 = rc_heap c1" "rc_ps c2 = rc_ps c1" "rc_maxSize c2 = rc_maxSize c1" "rcfg c2 = rcfg c1"
    "rc_currentSize c2 = rc_currentSize c1" "radixLen c2 = radixLen c1" "rc_onEvictEntry c2 = rc_onEvictEntry c1" for bs
    by (simp_all add: c2_def shadow_def rcfg_def radixLen_def)
  have m2: "rmid ?W 0 0 0 0 K c2 as'" using lp(2) bound_same [of K c1 as' c2] by (simp add: rmid_def f2(1)) (simp add: c2_def)
  define re where "re = shouldReclaimEmptyPrePut (rc_ps c2) (radixLen c2) False (gs \<noteq> []) w sb x"
  define c3 where "c3 = (if re then radixCache_clearEmptyTreeStateLocked (onRps (recordCompactionByPressure x) c2) else c2)"
  have re0: "as' = []" if re
    using that rmidD(4) [OF m2] by (auto simp: re_def shouldReclaimEmptyPrePut_def split: if_splits)
  have c3: "rmid ?W 0 0 0 0 K c3 as' \<and> rquiet c2 c3"
  proof (cases re)
    case True
    then have "rmid ?W 0 0 0 0 K (onRps (recordCompactionByPressure x) c2) []" using m2 re0 rmid_recordCompaction by blast
    then show ?thesis
      using rclearEmpty_spec [of ?W 0 0 0 0 K "onRps (recordCompactionByPressure x) c2"] True re0
        rquiet_trans [of c2 "onRps (recordCompactionByPressure x) c2"]
      by (simp add: c3_def rquiet_onRps)
  next
    case False
    then show ?thesis using m2 by (simp add: c3_def)
  qed
  note f3 = rquiet_fields [OF conjunct2 [OF c3]]
  have max1: "rc_maxSize c1 = rc_maxSize c" using rcfg_simps [OF cfg1] by simp
  have d1: "mid ?W 0 0 0 0 (shadow K as' c1) as'" by (rule rmidD(2) [OF lp(2)])
  have fit: "unat (rc_currentSize c3) + unat w \<le> unat (rc_maxSize c3)"
  proof (cases "as' = []")
    case True
    then have "unat (rc_currentSize c1) = 0" using d1 by (simp add: mid_def)
    then show ?thesis using w f3 f2 max1 by (simp add: word_le_nat_alt)
  next
    case False
    then have "\<not> rc_maxSize c1 - rc_currentSize c1 < w" using lp(6) by (auto simp: shouldEvictPreInsertOnPut_def)
    moreover have "rc_currentSize c1 \<le> rc_maxSize c1" using d1 by (simp add: mid_def)
    ultimately show ?thesis
      using unat_sub_u64 [of "rc_currentSize c1" "rc_maxSize c1"] f2 f3 by (simp add: word_less_nat_alt word_le_nat_alt)
  qed
  have room3: "putInserted (rc_ps c3) \<noteq> - 1"
    using room lp(4) f0 f2
    by (simp add: c3_def radixCache_clearEmptyTreeStateLocked_def resetWatermarks_def recordCompactionByPressure_def)
  have k3: "\<And>a. a \<in> set as' \<Longrightarrow> K a \<noteq> k" using k sh(2) by simp
  obtain c4 e c5 where i: "radixCache_insertNode k v c3 = Inr (c4, e)"
    "c5 = (let c3 = c4\<lparr>rc_recycleNodes := []\<rparr>;
         c4 = setNode e (\<lambda>x. x\<lparr>rn_size := w\<rparr>) c3;
         c5 = onList (pushFront e) c4;
         c6 = onRps (\<lambda>p. p\<lparr>putInserted := putInserted p + 1\<rparr>) c5;
         c7 = onRps (onEntryPut (radixLen c6) w) c6
       in c7\<lparr>rc_currentSize := rc_currentSize c7 + w\<rparr>)"
    "rmid (?W(e := w)) 0 0 0 0 (K(e := k)) c5 (e # as')" "e \<notin> set as'" "payload (entryOf (K(e := k)) (rc_heap c5) e) = (k, w, v)"
    "\<And>a. a \<in> set as' \<Longrightarrow> payload (entryOf (K(e := k)) (rc_heap c5) a) = payload (entryOf K (rc_heap c3) a)" "rcfg c5 = rcfg c3"
    using rmid_insert [OF conjunct1 [OF c3] k3 fit room3, where v = v and thesis = thesis] that by blast
  have pa: "payload (entryOf (K(e := k)) (rc_heap c5) a) = payload (entryOf K (rc_heap c) a)" if "a \<in> set as'" for a
    using i(6) [OF that] sheds_sizes(3) [OF sh(1) that] f0 f2 f3 by simp
  have W5: "(?W(e := w)) a = sizes (rc_heap c5) a" if "a \<in> set (e # as')" for a
    using that i(4,5) pa [of a] by (auto simp: sizes_def payload_def)
  have cfg5: "rcfg c5 = rcfg c" using i(7) rquiet_rcfg [OF conjunct2 [OF c3]] f2 cfg1 by simp
  have qw: "queue_wf g" using q by (simp add: qsim_def)
  show ?thesis
  proof (intro exI conjI)
    show "radixCache_insertOnPutLocked k v w sb x (c, q) = Inr ((c5, q1), e, map (\<lambda>a. rn_value (rc_heap c a)) gs,
       re \<or> shouldReclaimSingleSurvivorOnMutation (rc_ps c2) (radixLen c2) (0 < deletedSinceCompact (rc_ps c2)) False (gs \<noteq> [])
         (rc_currentSize c2 + w) sb x, re)"
      unfolding radixCache_insertOnPutLocked_def fst_conv snd_conv c0_def [symmetric] lp(1) of_loop_simps bindr_simps prod.case
      unfolding i(2) Let_def c2_def [symmetric] re_def [symmetric] c3_def [symmetric] i(1) bindr_simps prod.case f0 by simp
    show "rmid (sizes (rc_heap c5)) 0 0 0 0 (K(e := k)) c5 (e # as')"
      using mid_W_cong [of "e # as'" "?W(e := w)" "sizes (rc_heap c5)"] W5 i(3) unfolding rmid_def by blast
    show "qsim (rc_onEvictEntry c5) q1 g1" using lp(3) rcfg_simps [OF cfg5] rcfg_simps [OF cfg1] by simp
    show "queue_events g1 = queue_events g @ (if radixHasCB c then map (entry_event (entryOf K (rc_heap c)) EvictionReasonCapacity) gs else [])"
      using sheds_events [OF sh(1) qw] f0 by simp
  qed (use i(5) pa lp(7) sh(2) cfg5 f0 in auto)
qed

subsection \<open>The whole operation\<close>

lemma rmutation_tail:
  fixes c :: "('v :: zero) radixCache"
  assumes m: "rmid (sizes (rc_heap c)) 0 0 0 0 K c as" and q: "qsim (rc_onEvictEntry c) q g" and e: "e \<in> set as"
  shows "\<exists>c' q' g' gp. (if b then radixCache_finishMutationReclaimLocked evs (Some e) rp cp sb se x (c, q)
        else Inr ((c, q), evs)) = Inr ((c', q'), evs @ map (\<lambda>y. entry_value y) gp)
    \<and> radix_inv c' \<and> rcfg c' = rcfg c \<and> payload (entryOf K (rc_heap c) e) \<notin> set gp
    \<and> reclaimed (rhot x c) (rlru c) gp (rlru c')
    \<and> qsim (rc_onEvictEntry c') q' g' \<and> queue_events g' = queue_events g @ (if radixHasCB c then map (event_of EvictionReasonPressure) gp else [])"
proof -
  let ?W = "sizes (rc_heap c)"
  have W: "\<And>a. a \<in> set as \<Longrightarrow> ?W a = rn_size (rc_heap c a)" by (simp add: sizes_def)
  have pr: "set_option (Some e) \<subseteq> set as" using e by simp
  obtain c' q' g' as' gs where r: "(if b then radixCache_finishMutationReclaimLocked evs (Some e) rp cp sb se x (c, q)
        else Inr ((c, q), evs)) = Inr ((c', q'), evs @ map (\<lambda>a. rn_value (rc_heap c a)) gs)"
    "rmid ?W 0 0 0 0 K c' as'" "qsim (rc_onEvictEntry c') q' g'" "reclaims x (Some e) (shadow K as c, g) as gs (shadow K as' c', g') as'"
  proof (cases b)
    case True
    obtain c' q' g' as' gs where "radixCache_finishMutationReclaimLocked evs (Some e) rp cp sb se x (c, q)
        = Inr ((c', q'), evs @ map (\<lambda>a. rn_value (rc_heap c a)) gs)"
      "rmid ?W 0 0 0 0 K c' as'" "qsim (rc_onEvictEntry c') q' g'" "reclaims x (Some e) (shadow K as c, g) as gs (shadow K as' c', g') as'"
      using rfinishMutation_spec [OF m W q pr] by blast
    then show thesis using that True by simp
  next
    case False
    show thesis by (rule that [of c q "[]" as]) (use False m q reclaims_refl [OF quiet_refl] in auto)
  qed
  have qw: "queue_wf g" using q by (simp add: qsim_def)
  note rr = rreclaim_result [OF m W qw r(4,2)]
  have "payload (entryOf K (rc_heap c) e) \<notin> set (ents (entryOf K (rc_heap c)) gs)"
    using payload_inj [OF rmidD(2) [OF m]] e rr(5,6) by (auto simp: inj_on_def)
  then show ?thesis
    using r(1,3) rr(1-4) unfolding rlru_rmid [OF m]
    by - (rule exI [of _ c'], rule exI [of _ q'], rule exI [of _ g'], rule exI [of _ "ents (entryOf K (rc_heap c)) gs"], simp del: if_split)
qed

lemma rPut_stage:
  fixes c :: "('v :: zero) radixCache"
  assumes m: "rmid (sizes (rc_heap c)) 0 0 0 0 K c as" and w: "w \<le> rc_maxSize c" and q: "qsim (rc_onEvictEntry c) q g"
    and room: "putInserted (rc_ps c) \<noteq> - 1"
  shows "\<exists>c' q' g' K' as' e gs b1 b2. (case find (\<lambda>a. K a = k) as of
        Some e \<Rightarrow> bindr (radixCache_updateExistingOnPutLocked e k v w sb x (c, q))
          (\<lambda>(st, evictedValues, reclaimedPrePut). Inr (st, e, evictedValues, reclaimedPrePut, False))
      | None \<Rightarrow> radixCache_insertOnPutLocked k v w sb x (c, q))
      = Inr ((c', q'), e, map (\<lambda>a. rn_value (rc_heap c a)) gs, b1, b2)
    \<and> rmid (sizes (rc_heap c')) 0 0 0 0 K' c' (e # as') \<and> others k (rlru c) = ents (entryOf K (rc_heap c)) (as' @ rev gs)
    \<and> payload (entryOf K' (rc_heap c') e) = (k, w, v) \<and> ents (entryOf K' (rc_heap c')) as' = ents (entryOf K (rc_heap c)) as' \<and> rcfg c' = rcfg c
    \<and> qsim (rc_onEvictEntry c') q' g' \<and> queue_events g' = queue_events g @ (if radixHasCB c then
        map (entry_event (entryOf K (rc_heap c)) EvictionReasonCapacity) gs
        @ map (event_of EvictionReasonReplaced) (filter (\<lambda>y. entry_key y = k) (rlru c)) else [])
    \<and> (gs \<noteq> [] \<longrightarrow> 0 \<notin> sizes (rc_heap c) ` set as \<longrightarrow> w \<noteq> 0 \<longrightarrow> unat (rc_maxSize c)
        < unat w + weight_sum (map (sizes (rc_heap c)) (as' @ [List.last gs])))"
proof -
  have inv: "map_inv (shadow K as c)" by (rule map_invI [OF rmidD(2) [OF m]]) (simp_all add: sizes_def)
  note lu = radix_lookup [OF m inv, of k]
  show ?thesis
  proof (cases "find (\<lambda>a. K a = k) as")
    case None
    then have k: "\<And>a. a \<in> set as \<Longrightarrow> K a \<noteq> k" by (simp add: find_None_iff)
    obtain c' q' g' as' gs e b1 b2 where i: "radixCache_insertOnPutLocked k v w sb x (c, q)
        = Inr ((c', q'), e, map (\<lambda>a. rn_value (rc_heap c a)) gs, b1, b2)"
      "rmid (sizes (rc_heap c')) 0 0 0 0 (K(e := k)) c' (e # as')" "as = as' @ rev gs"
      "payload (entryOf (K(e := k)) (rc_heap c') e) = (k, w, v)"
      "\<forall>a\<in>set as'. payload (entryOf (K(e := k)) (rc_heap c') a) = payload (entryOf K (rc_heap c) a)" "rcfg c' = rcfg c"
      "qsim (rc_onEvictEntry c') q' g'" "queue_events g' = queue_events g @ (if radixHasCB c then
          map (entry_event (entryOf K (rc_heap c)) EvictionReasonCapacity) gs else [])"
      "gs \<noteq> [] \<longrightarrow> 0 \<notin> sizes (rc_heap c) ` set as \<longrightarrow> w \<noteq> 0 \<longrightarrow> unat (rc_maxSize c)
          < weight_sum (map (sizes (rc_heap c)) (as' @ [List.last gs])) + unat w"
      using rinsert_spec [OF m k w q room, where v = v and sb = sb and x = x] by blast
    have "ents (entryOf (K(e := k)) (rc_heap c')) as' = ents (entryOf K (rc_heap c)) as'" by (rule ents_cong) (use i(5) in blast)
    then show ?thesis
      using None i lu(2) [OF None] rlru_rmid [OF m]
      by (intro exI [of _ c'] exI [of _ q'] exI [of _ g'] exI [of _ "K(e := k)"] exI [of _ as'] exI [of _ e] exI [of _ gs] exI [of _ b1] exI [of _ b2] conjI)
        (simp_all add: add.commute)
  next
    case (Some e)
    then have e: "e \<in> set as" and k: "k = K e" using lu(1) by auto
    obtain c' q' g' as' gs b where i: "radixCache_updateExistingOnPutLocked e (K e) v w sb x (c, q)
        = Inr ((c', q'), map (\<lambda>a. rn_value (rc_heap c a)) gs, b)"
      "rmid (sizes (rc_heap c')) 0 0 0 0 K c' (e # as')" "remove1 e as = as' @ rev gs"
      "payload (entryOf K (rc_heap c') e) = (K e, w, v)"
      "\<forall>a\<in>set as'. payload (entryOf K (rc_heap c') a) = payload (entryOf K (rc_heap c) a)" "rcfg c' = rcfg c"
      "qsim (rc_onEvictEntry c') q' g'" "queue_events g' = queue_events g @ (if radixHasCB c then
          map (entry_event (entryOf K (rc_heap c)) EvictionReasonCapacity) gs @ [entry_event (entryOf K (rc_heap c)) EvictionReasonReplaced e] else [])"
      "gs \<noteq> [] \<longrightarrow> w \<noteq> 0 \<longrightarrow> unat (rc_maxSize c) < unat w + weight_sum (map (sizes (rc_heap c)) (as' @ [List.last gs]))"
      using rupdateExisting_spec [OF m e w q, where v = v and sb = sb and x = x] by blast
    have "ents (entryOf K (rc_heap c')) as' = ents (entryOf K (rc_heap c)) as'" by (rule ents_cong) (use i(5) in blast)
    then show ?thesis
      using Some i others_ents [OF rmidD(2) [OF m] e] k rlru_rmid [OF m]
      by (intro exI [of _ c'] exI [of _ q'] exI [of _ g'] exI [of _ K] exI [of _ as'] exI [of _ e] exI [of _ gs] exI [of _ b] exI [of _ False] conjI)
        (simp_all add: event_of_def entry_event_def)
  qed
qed

lemma rPut_spec:
  fixes c :: "('v :: zero) radixCache"
  assumes inv: "radix_inv c" and w: "radixCache_weigh c k v \<le> rc_maxSize c" and room: "putInserted (rc_ps c) \<noteq> - 1"
  shows "\<exists>c' rest gc gp keep. radixCache_Put env k v c = Inr (c', map (\<lambda>x. entry_value x) (gc @ gp), None,
        rcalls c (map (event_of EvictionReasonCapacity) gc
          @ map (event_of EvictionReasonReplaced) (filter (\<lambda>x. entry_key x = k) (rlru c))
          @ map (event_of EvictionReasonPressure) gp))
    \<and> radix_inv c' \<and> rcfg c' = rcfg c
    \<and> others k (rlru c) = rest @ rev gc
    \<and> reclaimed (rhot (rlockPressure env False c) c) rest gp keep
    \<and> rlru c' = (k, radixCache_weigh c k v, v) # keep
    \<and> (gc \<noteq> [] \<longrightarrow> (\<forall>x\<in>set (rlru c). entry_weight x \<noteq> 0) \<longrightarrow> radixCache_weigh c k v \<noteq> 0 \<longrightarrow>
        unat (rc_maxSize c) < unat (radixCache_weigh c k v) + weight_sum (map (\<lambda>x. entry_weight x) (rest @ [List.last gc])))"
proof -
  let ?w = "radixCache_weigh c k v" and ?as = "raddrs c" and ?h = "rc_heap c" and ?q = "newEvictQueue False :: 'v evictCallbackQueue"
  obtain K where m: "rmid (sizes ?h) 0 0 0 0 K c ?as" by (rule radix_invD [OF inv])
  obtain c0 se x where lk: "lockRadixCache env False c = (c0, se, x)" by (metis prod_cases3)
  note l = rlock_props [OF lk m]
  note f0 = rcfg_simps [OF l(5)]
  have m0: "rmid (sizes (rc_heap c0)) 0 0 0 0 K c0 ?as" using l(1,7) by simp
  have w0: "?w \<le> rc_maxSize c0" and room0: "putInserted (rc_ps c0) \<noteq> - 1" using w room l(3) f0 by simp_all
  obtain c1 q1 g1 K1 as1 e gs b1 b2 where s: "(case find (\<lambda>a. K a = k) ?as of
        Some e \<Rightarrow> bindr (radixCache_updateExistingOnPutLocked e k v ?w (rc_currentSize c0) x (c0, ?q))
          (\<lambda>(st, evictedValues, reclaimedPrePut). Inr (st, e, evictedValues, reclaimedPrePut, False))
      | None \<Rightarrow> radixCache_insertOnPutLocked k v ?w (rc_currentSize c0) x (c0, ?q))
      = Inr ((c1, q1), e, map (\<lambda>a. rn_value (rc_heap c0 a)) gs, b1, b2)"
    "rmid (sizes (rc_heap c1)) 0 0 0 0 K1 c1 (e # as1)"
    "others k (rlru c0) = ents (entryOf K (rc_heap c0)) (as1 @ rev gs)"
    "payload (entryOf K1 (rc_heap c1) e) = (k, ?w, v)" "ents (entryOf K1 (rc_heap c1)) as1 = ents (entryOf K (rc_heap c0)) as1" "rcfg c1 = rcfg c0"
    "qsim (rc_onEvictEntry c1) q1 g1" "queue_events g1 = queue_events ?q @ (if radixHasCB c0 then
        map (entry_event (entryOf K (rc_heap c0)) EvictionReasonCapacity) gs
        @ map (event_of EvictionReasonReplaced) (filter (\<lambda>y. entry_key y = k) (rlru c0)) else [])"
    "gs \<noteq> [] \<longrightarrow> 0 \<notin> sizes (rc_heap c0) ` set ?as \<longrightarrow> ?w \<noteq> 0 \<longrightarrow> unat (rc_maxSize c0)
        < unat ?w + weight_sum (map (sizes (rc_heap c0)) (as1 @ [List.last gs]))"
    using rPut_stage [OF m0 w0 qsim_refl [OF queue_wf_new] room0, where k = k and v = v and sb = "rc_currentSize c0" and x = x] by blast
  have e1: "e \<in> set (e # as1)" by simp
  obtain c2 q2 g2 gp where t: "(if needsMutationReclaim (rc_ps c1) b1 (rc_currentSize c1) (rc_currentSize c0) x
      then radixCache_finishMutationReclaimLocked (map (\<lambda>a. rn_value (rc_heap c0 a)) gs) (Some e) b1 b2 (rc_currentSize c0) se x (c1, q1)
        else Inr ((c1, q1), map (\<lambda>a. rn_value (rc_heap c0 a)) gs))
      = Inr ((c2, q2), map (\<lambda>a. rn_value (rc_heap c0 a)) gs @ map (\<lambda>y. entry_value y) gp)"
    "radix_inv c2" "rcfg c2 = rcfg c1" "payload (entryOf K1 (rc_heap c1) e) \<notin> set gp" "reclaimed (rhot x c1) (rlru c1) gp (rlru c2)"
    "qsim (rc_onEvictEntry c2) q2 g2" "queue_events g2 = queue_events g1 @ (if radixHasCB c1 then map (event_of EvictionReasonPressure) gp else [])"
    using rmutation_tail [OF s(2,7) e1] by blast
  have cfg2: "rcfg c2 = rcfg c" using t(3) s(6) l(5) by simp
  have hx: "rhot x c1 = rhot (rlockPressure env False c) c" "radixHasCB c1 = radixHasCB c" "radixHasCB c0 = radixHasCB c"
    using f0 rcfg_simps [OF s(6)] l(8) by auto
  let ?E = "ents (entryOf K (rc_heap c0))"
  have lru1: "rlru c1 = (k, ?w, v) # ?E as1" using rlru_rmid [OF s(2)] s(4,5) by simp
  have lru0: "rlru c = ?E ?as" using rlru_rmid [OF m] l(7) by simp
  have keep: "rlru c2 = (k, ?w, v) # filter (\<lambda>y. y \<notin> set gp) (?E as1)"
    "reclaimed (rhot x c1) (?E as1) gp (filter (\<lambda>y. y \<notin> set gp) (?E as1))"
    using t(4,5) s(4) unfolding lru1 by (auto simp: reclaimed_def)
  have ev: "queue_events g2 = (if radixHasCB c then map (event_of EvictionReasonCapacity) (?E gs)
          @ map (event_of EvictionReasonReplaced) (filter (\<lambda>x. entry_key x = k) (rlru c))
          @ map (event_of EvictionReasonPressure) gp else [])"
    using t(7) s(8) hx l(6) by simp
  have nz: "0 \<notin> sizes (rc_heap c0) ` set ?as" if "\<forall>y\<in>set (rlru c). entry_weight y \<noteq> 0"
    using that unfolding lru0 by (auto simp: sizes_def)
  have g: "radixCache_getNode c0 k = Inr (find (\<lambda>a. K a = k) ?as)" by (rule bound_getNode [OF rmidD(1) [OF m0]])
  show ?thesis
  proof (intro exI conjI)
    show "radixCache_Put env k v c = Inr (c2, map (\<lambda>x. entry_value x) (?E gs @ gp), None,
        rcalls c (map (event_of EvictionReasonCapacity) (?E gs)
          @ map (event_of EvictionReasonReplaced) (filter (\<lambda>x. entry_key x = k) (rlru c))
          @ map (event_of EvictionReasonPressure) gp))"
      using w rinvoke_calls [OF t(6) ev cfg2] runlock_ok [OF t(2)]
      unfolding radixCache_Put_def Let_def lk prod.case g bindr_simps s(1) t(1) by (simp add: not_less)
    show "others k (rlru c) = ?E as1 @ rev (?E gs)" using s(3) l(6) by simp
    show "reclaimed (rhot (rlockPressure env False c) c) (?E as1) gp (filter (\<lambda>y. y \<notin> set gp) (?E as1))" using keep(2) hx by simp
    show "rlru c2 = (k, ?w, v) # filter (\<lambda>y. y \<notin> set gp) (?E as1)" by (rule keep(1))
    show "?E gs \<noteq> [] \<longrightarrow> (\<forall>x\<in>set (rlru c). entry_weight x \<noteq> 0) \<longrightarrow> ?w \<noteq> 0 \<longrightarrow>
        unat (rc_maxSize c) < unat ?w + weight_sum (map (\<lambda>x. entry_weight x) (?E as1 @ [List.last (?E gs)]))"
      using s(9) nz f0 by (cases "gs = []") (auto simp: last_ents weights_last sizes_def)
  qed (use t(2) cfg2 in auto)
qed

end
