(* ===== verification/RadixReplace.thy ===== *)
theory RadixReplace
  imports RadixPut MapReplace
begin

text \<open>
  \<open>Replace\<close> on the radix backend. While the entry stays, resizing runs in step with the map backend; when it
  does not fit it is erased like a deleted entry.
\<close>

lemma likes_books:
  assumes "likes K as c m"
  shows "likes K as ((onRps f c)\<lparr>rc_currentSize := x\<rparr>) ((onPs f m)\<lparr>m_currentSize := x\<rparr>)"
proof -
  have "bound K ((onRps f c)\<lparr>rc_currentSize := x\<rparr>) as" by (rule bound_same [of K c as]) (use assms in \<open>auto simp: likes_def\<close>)
  then show ?thesis using assms by (auto simp: likes_def map_repr_def)
qed

lemma resize_sim:
  fixes c :: "('v :: zero) radixCache"
  assumes l: "likes K as c (shadow K as c)" and ne: "as \<noteq> []" and q: "qsim (rc_onEvictEntry c) q g"
    and r: "mapCache_replaceResizeOrEvictLocked e old w sb se x (shadow K as c, g) = Inr ((m', g'), ev, False)"
  shows "\<exists>c' q' as'. radixCache_replaceResizeOrEvictLocked e key old w sb se x (c, q) = Inr ((c', q'), ev, False)
    \<and> likes K as' c' m' \<and> qsim (rc_onEvictEntry c') q' g'"
proof (cases "old < w")
  case True
  let ?m = "shadow K as c"
  let ?f = "if rc_maxSize c < w then Inr False
      else mapCache_canFitGrowthLocked ?m e (rc_maxSize c - w) (w - old) (rc_maxSize c - rc_currentSize c)"
  have fit: "?f = Inr True"
    using r True by (auto simp: mapCache_replaceResizeOrEvictLocked_def Let_def bindr_def split: sum.splits if_splits prod.splits)
  then have fit': "\<not> rc_maxSize c < w" "radixCache_canFitGrowthLocked c e (rc_maxSize c - w) (w - old) (rc_maxSize c - rc_currentSize c) = Inr True"
    using canFitGrowth_sim by (auto split: if_splits)
  obtain c1 q1 m1 g1 as1 ev1 where s: "growEvictLoop e (w - old) False (?m, g) = Some ((m1, g1), ev1)"
    "radixGrowEvictLoop e (w - old) False (c, q) = Some (Inr ((c1, q1), ev1))" "likes K as1 c1 m1" "qsim (rc_onEvictEntry c1) q1 g1"
    using growEvictLoop_sim [OF l q, of e "w - old" False] by blast
  have m': "m' = (onPs (onEntrySizeUpdated old w) m1)\<lparr>m_currentSize := m_currentSize m1 + (w - old)\<rparr>" "g' = g1" "ev = ev1"
    using r True fit s(1) unfolding mapCache_replaceResizeOrEvictLocked_def Let_def prod.case shadow_simps fit by auto
  have "radixCache_replaceResizeOrEvictLocked e key old w sb se x (c, q)
      = Inr (((onRps (onEntrySizeUpdated old w) c1)\<lparr>rc_currentSize := rc_currentSize c1 + (w - old)\<rparr>, q1), ev1, False)"
    using True fit' s(2) by (simp add: radixCache_replaceResizeOrEvictLocked_def Let_def)
  then show ?thesis
    using likes_books [OF s(3)] s(4) m' likes_view(4) [OF s(3)] by (auto simp del: if_split)
next
  case False
  let ?m = "shadow K as c"
  note v = likes_view [OF l]
  define sk where "sk = (shouldEvictOnZeroWeightShrink (rc_ps c) old w (rc_maxSize c) \<and> r_tail (rc_ends c) \<noteq> Some e)"
  have skm: "(shouldEvictOnZeroWeightShrink (m_ps ?m) old w (m_maxSize ?m) \<and> entryList_Back (m_entries ?m) \<noteq> Some e) = sk"
    using v(5) by (simp add: sk_def)
  obtain zs a where as: "as = zs @ [a]" using ne by (cases as rule: rev_cases) auto
  have skr: "(shouldEvictOnZeroWeightShrink (rc_ps c) old w (rc_maxSize c) \<and> r_tail (rc_ends c) \<noteq> None \<and> r_tail (rc_ends c) \<noteq> Some e) = sk"
    using v(6) as by (auto simp: sk_def)
  obtain c1 q1 m1 g1 as1 where s: "(if sk then fst (mapCache_evictOne (?m, g)) else (?m, g)) = (m1, g1)"
    "(if sk then bindr (radixCache_evictOne (c, q)) (\<lambda>(st', _, _). Inr st') else Inr (c, q)) = Inr (c1, q1)"
    "likes K as1 c1 m1" "qsim (rc_onEvictEntry c1) q1 g1"
  proof (cases sk)
    case True
    have l': "likes K (zs @ [a]) c ?m" using l as by simp
    obtain c' q' m' g' where "radixCache_evictOne (c, q) = Inr ((c', q'), rn_value (rc_heap c a), True)"
      "mapCache_evictOne (?m, g) = ((m', g'), rn_value (rc_heap c a), True)" "likes K zs c' m'" "qsim (rc_onEvictEntry c') q' g'"
      by (rule evictOne_sim [OF l' q])
    then show thesis using that True by simp
  next
    case False
    then show thesis using that [of ?m g c q as] l q by simp
  qed
  have m': "m' = (onPs (onEntrySizeUpdated old w) m1)\<lparr>m_currentSize := m_currentSize m1 - (old - w)\<rparr>" "g' = g1" "ev = sk"
    using r False s(1) unfolding mapCache_replaceResizeOrEvictLocked_def Let_def prod.case skm s(1) by auto
  have "radixCache_replaceResizeOrEvictLocked e key old w sb se x (c, q)
      = Inr (((onRps (onEntrySizeUpdated old w) c1)\<lparr>rc_currentSize := rc_currentSize c1 - (old - w)\<rparr>, q1), sk, False)"
    using False unfolding radixCache_replaceResizeOrEvictLocked_def Let_def prod.case skr s(2) by simp
  then show ?thesis
    using likes_books [OF s(3)] s(4) m' likes_view(4) [OF s(3)] by (auto simp del: if_split)
qed

lemma rReplace_stage:
  fixes c :: "('v :: zero) radixCache"
  assumes m: "rmid (sizes (rc_heap c)) 0 0 0 0 K c (xs @ e # ys)" and q: "qsim (rc_onEvictEntry c) q g"
    and fit: "weight_sum (map (sizes (rc_heap c)) xs) + unat w \<le> unat (rc_maxSize c)"
  shows "\<exists>c' q' g' ys' gs ev. (if w \<noteq> rn_size (rc_heap c e)
        then radixCache_replaceResizeOrEvictLocked e key (rn_size (rc_heap c e)) w sb se x (c, q) else Inr ((c, q), False, False))
      = Inr ((c', q'), ev, False)
    \<and> rmid ((sizes (rc_heap c))(e := w)) 0 0 0 0 K c' (xs @ e # ys') \<and> qsim (rc_onEvictEntry c') q' g'
    \<and> tail_evicted (shadow K (xs @ e # ys) c, g) (xs @ e # ys) gs (shadow K (xs @ e # ys') c', g') (xs @ e # ys')
    \<and> (gs \<noteq> [] \<longrightarrow> w \<noteq> 0 \<longrightarrow> unat (rc_maxSize c) < weight_sum (map (sizes (rc_heap c)) (xs @ ys' @ [List.last gs])) + unat w)"
proof -
  let ?as = "xs @ e # ys" and ?W = "sizes (rc_heap c)"
  note d = rmidD [OF m]
  have m0: "mid (weights (m_heap (shadow K ?as c))) 0 0 0 0 (shadow K ?as c) ?as" using d(2) by simp
  have fit0: "weight_sum (map (weights (m_heap (shadow K ?as c))) xs) + unat w \<le> unat (m_maxSize (shadow K ?as c))" using fit by simp
  obtain m' g' ys' gs ev where s: "(if w \<noteq> rn_size (rc_heap c e)
        then mapCache_replaceResizeOrEvictLocked e (rn_size (rc_heap c e)) w sb se x (shadow K ?as c, g) else Inr ((shadow K ?as c, g), False, False))
      = Inr ((m', g'), ev, False)"
    "mid (?W(e := w)) 0 0 0 0 m' (xs @ e # ys')" "tail_evicted (shadow K ?as c, g) ?as gs (m', g') (xs @ e # ys')"
    "gs \<noteq> [] \<longrightarrow> w \<noteq> 0 \<longrightarrow> unat (rc_maxSize c) < weight_sum (map ?W (xs @ ys' @ [List.last gs])) + unat w"
    using Replace_stage [OF m0 fit0, of sb se x g] unfolding shadow_simps entryOf_simps weights_entryOf by blast
  have "\<exists>c' q' as2. (if w \<noteq> rn_size (rc_heap c e)
        then radixCache_replaceResizeOrEvictLocked e key (rn_size (rc_heap c e)) w sb se x (c, q) else Inr ((c, q), False, False))
      = Inr ((c', q'), ev, False) \<and> likes K as2 c' m' \<and> qsim (rc_onEvictEntry c') q' g'"
  proof (cases "w = rn_size (rc_heap c e)")
    case True
    then show ?thesis using s(1) d(3) q by auto
  next
    case False
    then have "mapCache_replaceResizeOrEvictLocked e (rn_size (rc_heap c e)) w sb se x (shadow K ?as c, g) = Inr ((m', g'), ev, False)"
      using s(1) by simp
    then show ?thesis using resize_sim [OF d(3) _ q] False by simp
  qed
  then obtain c' q' as2 where r: "(if w \<noteq> rn_size (rc_heap c e)
        then radixCache_replaceResizeOrEvictLocked e key (rn_size (rc_heap c e)) w sb se x (c, q) else Inr ((c, q), False, False))
      = Inr ((c', q'), ev, False)" "likes K as2 c' m'" "qsim (rc_onEvictEntry c') q' g'" by blast
  have l: "likes K (xs @ e # ys') c' m'" "rmid (?W(e := w)) 0 0 0 0 K c' (xs @ e # ys')" using likes_rmid [OF r(2) s(2)] r(2) by auto
  have "tail_evicted (shadow K ?as c, g) ?as gs (shadow K (xs @ e # ys') c', g') (xs @ e # ys')"
    using s(3) likes_sheds [OF l(1)] unfolding tail_evicted_def by blast
  then show ?thesis using r(1,3) l(2) s(4) by blast
qed

lemma rReplace_lookup:
  assumes m: "rmid W d dd rr ss K c as" and lru: "rlru c = newer @ (k, w0, v0) # older"
  obtains e xs ys where "as = xs @ e # ys" "find (\<lambda>a. K a = k) as = Some e"
    "K e = k" "rn_size (rc_heap c e) = w0" "rn_value (rc_heap c e) = v0" "ents (entryOf K (rc_heap c)) xs = newer" "ents (entryOf K (rc_heap c)) ys = older"
proof -
  have "map (\<lambda>a. payload (entryOf K (rc_heap c) a)) as = newer @ (k, w0, v0) # older"
    using lru rlru_rmid [OF m] by (simp add: ents_def)
  then obtain xs e ys where a: "as = xs @ e # ys" "payload (entryOf K (rc_heap c) e) = (k, w0, v0)"
    "ents (entryOf K (rc_heap c)) xs = newer" "ents (entryOf K (rc_heap c)) ys = older"
    by (auto simp: map_eq_append_conv map_eq_Cons_conv ents_def)
  have f: "K e = k" "rn_size (rc_heap c e) = w0" "rn_value (rc_heap c e) = v0" using a(2) by (simp_all add: payload_def)
  have "find (\<lambda>a. K a = k) as = Some e"
  proof -
    have "find (\<lambda>a. K a = k) as \<noteq> None" using a(1) f(1) by (auto simp: find_None_iff)
    then obtain b where b: "find (\<lambda>a. K a = k) as = Some b" by blast
    then have b': "b \<in> set as" "K b = k" by (auto simp: find_Some_iff)
    have "e \<in> set as" using a(1) by simp
    then have "b = e" using bound_inj [OF rmidD(1) [OF m] b'(1)] b'(2) f(1) by simp
    then show ?thesis using b by simp
  qed
  then show thesis using that a f by blast
qed

lemma rReplace_fits_spec:
  fixes c :: "('v :: zero) radixCache"
  assumes inv: "radix_inv c" and lru: "rlru c = newer @ (k, w0, v0) # older"
    and fit: "weight_sum (map (\<lambda>y. entry_weight y) newer) + unat (radixCache_weigh c k v) \<le> unat (rc_maxSize c)"
  shows "\<exists>c' kept gc gp. radixCache_Replace env k v c = Inr (c', None,
        rcalls c (map (event_of EvictionReasonCapacity) gc @ [event_of EvictionReasonReplaced (k, w0, v0)]
          @ map (event_of EvictionReasonPressure) gp))
    \<and> radix_inv c' \<and> rcfg c' = rcfg c \<and> older = kept @ rev gc
    \<and> reclaimed (rhot (rlockPressure env False c) c) (newer @ (k, radixCache_weigh c k v, v) # kept) gp (rlru c')
    \<and> (k, radixCache_weigh c k v, v) \<in> set (rlru c')
    \<and> (gc \<noteq> [] \<longrightarrow> radixCache_weigh c k v \<noteq> 0 \<longrightarrow>
        unat (rc_maxSize c) < weight_sum (map (\<lambda>y. entry_weight y) (newer @ kept @ [List.last gc])) + unat (radixCache_weigh c k v))"
proof -
  let ?w = "radixCache_weigh c k v" and ?h = "rc_heap c" and ?q = "newEvictQueue False :: 'v evictCallbackQueue"
  obtain K where m: "rmid (sizes ?h) 0 0 0 0 K c (raddrs c)" by (rule radix_invD [OF inv])
  obtain e xs ys where a: "raddrs c = xs @ e # ys" "find (\<lambda>a. K a = k) (raddrs c) = Some e" "K e = k" "rn_size (?h e) = w0" "rn_value (?h e) = v0"
    "ents (entryOf K ?h) xs = newer" "ents (entryOf K ?h) ys = older"
    by (rule rReplace_lookup [OF m lru])
  obtain c0 se x where lk: "lockRadixCache env False c = (c0, se, x)" by (metis prod_cases3)
  note l = rlock_props [OF lk m] and f0 = rcfg_simps [OF rlock_props(5) [OF lk m]]
  let ?W = "sizes (rc_heap c0)" and ?as = "xs @ e # ys"
  have m0: "rmid ?W 0 0 0 0 K c0 ?as" using l(1,7) a(1) by simp
  have fit0: "weight_sum (map ?W xs) + unat ?w \<le> unat (rc_maxSize c0)"
    using fit a(6) ents_weight [of "entryOf K ?h" xs] l(7) f0 by simp
  obtain c1 q1 g1 ys' gs ev where s: "(if ?w \<noteq> rn_size (rc_heap c0 e)
        then radixCache_replaceResizeOrEvictLocked e k (rn_size (rc_heap c0 e)) ?w (rc_currentSize c0) se x (c0, ?q) else Inr ((c0, ?q), False, False))
      = Inr ((c1, q1), ev, False)"
    "rmid (?W(e := ?w)) 0 0 0 0 K c1 (xs @ e # ys')" "qsim (rc_onEvictEntry c1) q1 g1"
    "tail_evicted (shadow K ?as c0, ?q) ?as gs (shadow K (xs @ e # ys') c1, g1) (xs @ e # ys')"
    "gs \<noteq> [] \<longrightarrow> ?w \<noteq> 0 \<longrightarrow> unat (rc_maxSize c0) < weight_sum (map ?W (xs @ ys' @ [List.last gs])) + unat ?w"
    using rReplace_stage [OF m0 qsim_refl [OF queue_wf_new] fit0, where key = k and sb = "rc_currentSize c0" and se = se and x = x] by blast
  note sh = tail_sheds [OF s(4)]
  have ys: "ys = ys' @ rev gs" using sh(2) by simp
  have pay1: "payload (entryOf K (rc_heap c1) b) = payload (entryOf K (rc_heap c0) b)" if "b \<in> set (xs @ e # ys')" for b
    by (rule sheds_sizes(3) [OF sh(1) that])
  have g1: "queue_events g1 = (if radixHasCB c0 then map (entry_event (entryOf K (rc_heap c0)) EvictionReasonCapacity) gs else [])"
    using sheds_events [OF sh(1)] by simp
  have cfg1: "rcfg c1 = rcfg c0" using sh(1) by (simp add: sheds_def)
  define x1 where "x1 = (rc_heap c1 e)\<lparr>rn_value := v, rn_hasValue := True, rn_size := ?w\<rparr>"
  define c2 where "c2 = setNode e (\<lambda>x. x\<lparr>rn_value := v, rn_hasValue := True, rn_size := ?w\<rparr>) c1"
  define c3 where "c3 = onRps (\<lambda>p. p\<lparr>replaceUpdated := replaceUpdated p + 1\<rparr>) c2"
  have c2: "c2 = c1\<lparr>rc_heap := (rc_heap c1)(e := x1), rc_currentSize := rc_currentSize c1\<rparr>" by (simp add: c2_def setNode_def x1_def)
  obtain c4 q4 where nr: "radixCache_notifyReplaced k v0 w0 (c3, q1) = (c4, q4)" by (rule prod.exhaust)
  have q3: "qsim (rc_onEvictEntry c3) q1 g1" using s(3) by (simp add: c3_def c2)
  obtain g4 where n4: "c4 = onRps (\<lambda>p. p\<lparr>evictionsReplaced := evictionsReplaced p + 1, evictedWeightReplaced := evictedWeightReplaced p + w0\<rparr>) c3"
    "qsim (rc_onEvictEntry c4) q4 g4" "queue_events g4 = queue_events g1 @ (if radixHasCB c3 then [(k, v0, EvictionReasonReplaced)] else [])"
    using rnotifyReplaced_spec [OF nr q3] by blast
  have m2: "rmid (?W(e := ?w)) 0 0 0 0 K c2 (xs @ e # ys')"
    unfolding c2 by (rule rmid_write [OF s(2)]) (use rmidD(2) [OF s(2)] in \<open>auto simp: x1_def links_def mid_def\<close>)
  have c4: "c4 = onRps (\<lambda>p. p\<lparr>replaceUpdated := replaceUpdated p + 1, evictionsReplaced := evictionsReplaced p + 1,
      evictedWeightReplaced := evictedWeightReplaced p + w0\<rparr>) c2"
    using n4(1) by (simp add: c3_def onRps_def)
  have m4: "rmid (?W(e := ?w)) 0 0 0 0 K c4 (xs @ e # ys')"
    unfolding c4 by (rule rmid_onRps [OF m2]) (rule ps_ok_updated(2))
  have h4: "rc_heap c4 = (rc_heap c1)(e := x1)" by (simp add: c4 c2)
  have dist: "e \<notin> set (xs @ ys')" using rmidD(7) [OF m4] by auto
  have p4: "payload (entryOf K (rc_heap c4) e) = (k, ?w, v)" using a(3) by (simp add: h4 x1_def payload_def)
  have W4: "(?W(e := ?w)) b = sizes (rc_heap c4) b" if "b \<in> set (xs @ e # ys')" for b
    using that pay1 [of b] by (auto simp: h4 x1_def sizes_def payload_def)
  have m4': "rmid (sizes (rc_heap c4)) 0 0 0 0 K c4 (xs @ e # ys')"
    using mid_W_cong [of "xs @ e # ys'" "?W(e := ?w)" "sizes (rc_heap c4)"] W4 m4 unfolding rmid_def by blast
  have cfg4: "rcfg c4 = rcfg c" using cfg1 l(5) by (simp add: c4 c2 rcfg_def)
  let ?E = "ents (entryOf K (rc_heap c0))"
  have same: "payload (entryOf K (rc_heap c4) b) = payload (entryOf K (rc_heap c0) b)" if "b \<in> set (xs @ ys')" for b
    using pay1 [of b] that dist by (auto simp: h4 payload_def)
  have "ents (entryOf K (rc_heap c4)) xs = ?E xs" "ents (entryOf K (rc_heap c4)) ys' = ?E ys'"
    by (rule ents_cong, use same in simp)+
  then have en4: "rlru c4 = newer @ (k, ?w, v) # ?E ys'"
    using rlru_rmid [OF m4] p4 a(6) l(7) by simp
  have e4in: "e \<in> set (xs @ e # ys')" by simp
  define rp where "rp = shouldReclaimSingleSurvivorOnMutation (rc_ps c4) (radixLen c4) (0 < deletedSinceCompact (rc_ps c4)) False ev (rc_currentSize c4) (rc_currentSize c0) x"
  obtain c5 q5 g5 gp where t: "(if needsMutationReclaim (rc_ps c4) rp (rc_currentSize c4) (rc_currentSize c0) x
       then radixCache_finishMutationReclaimLocked [] (Some e) rp False (rc_currentSize c0) se x (c4, q4)
       else Inr ((c4, q4), [])) = Inr ((c5, q5), [] @ map (\<lambda>y. entry_value y) gp)"
    "radix_inv c5" "rcfg c5 = rcfg c4" "payload (entryOf K (rc_heap c4) e) \<notin> set gp"
    "reclaimed (rhot x c4) (rlru c4) gp (rlru c5)" "qsim (rc_onEvictEntry c5) q5 g5"
    "queue_events g5 = queue_events g4 @ (if radixHasCB c4 then map (event_of EvictionReasonPressure) gp else [])"
    using rmutation_tail [OF m4' n4(2) e4in] by blast
  have cfg5: "rcfg c5 = rcfg c" using t(3) cfg4 by simp
  have hc: "rhot x c4 = rhot (rlockPressure env False c) c" "radixHasCB c4 = radixHasCB c" "radixHasCB c3 = radixHasCB c" "radixHasCB c0 = radixHasCB c"
    using rcfg_simps [OF cfg4] rcfg_simps [OF cfg1] f0 l(8) by (auto simp: c3_def c2 radixHasCB_def)
  have ev5: "queue_events g5 = (if radixHasCB c then map (event_of EvictionReasonCapacity) (?E gs)
      @ [event_of EvictionReasonReplaced (k, w0, v0)] @ map (event_of EvictionReasonPressure) gp else [])"
    using t(7) n4(3) g1 hc by (simp add: event_of_def)
  have tail: "(if needsMutationReclaim (rc_ps c4) rp (rc_currentSize c4) (rc_currentSize c0) x
       then bindr (radixCache_finishMutationReclaimLocked [] (Some e) rp False (rc_currentSize c0) se x (c4, q4)) (\<lambda>(st, _). Inr st)
       else Inr (c4, q4)) = Inr (c5, q5)"
    using t(1) by (auto split: if_splits)
  have g: "radixCache_getNode c0 k = Inr (Some e)" using bound_getNode [OF rmidD(1) [OF l(1)]] a(2) by simp
  have nr0: "radixCache_notifyReplaced k (rn_value (rc_heap c0 e)) (rn_size (rc_heap c0 e)) (c3, q1) = (c4, q4)"
    using nr a(4,5) l(7) by simp
  have res: "radixCache_Replace env k v c = Inr (c5, None, radixCallbacks c5 q5)"
    unfolding radixCache_Replace_def Let_def lk prod.case g bindr_simps option.case s(1) if_False
      c2_def [symmetric] c3_def [symmetric] nr0 rp_def [symmetric] tail runlock_ok [OF t(2)] ..
  have mini: "gs \<noteq> [] \<longrightarrow> ?w \<noteq> 0 \<longrightarrow> unat (rc_maxSize c)
      < weight_sum (map (\<lambda>y. entry_weight y) (newer @ ?E ys' @ [List.last (?E gs)])) + unat ?w"
    using s(5) f0 a(6) ents_weight [of "entryOf K (rc_heap c0)" xs] l(7) by (cases "gs = []") (auto simp: last_ents weights_last)
  have mem: "(k, ?w, v) \<in> set (rlru c5)" using t(4,5) p4 en4 by (auto simp: reclaimed_def)
  have old: "older = ?E ys' @ rev (?E gs)" using a(7) ys l(7) by simp
  have rec: "reclaimed (rhot (rlockPressure env False c) c) (newer @ (k, ?w, v) # ?E ys') gp (rlru c5)"
    using t(5) unfolding en4 hc(1) .
  show ?thesis
    using res [unfolded rinvoke_calls [OF t(6) ev5 cfg5]] t(2) cfg5 old rec mem mini
    by - (rule exI [of _ c5], rule exI [of _ "?E ys'"], rule exI [of _ "?E gs"], rule exI [of _ gp], simp add: ents_def)
qed

lemma rresize_self:
  fixes c :: "('v :: zero) radixCache"
  assumes m: "rmid (sizes (rc_heap c)) 0 0 0 0 K c (xs @ e # ys)" and q: "qsim (rc_onEvictEntry c) q g"
    and fit: "unat (rc_maxSize c) < weight_sum (map (sizes (rc_heap c)) xs) + unat w"
  shows "\<exists>c' q' g' gp. radixCache_replaceResizeOrEvictLocked e (K e) (rn_size (rc_heap c e)) w sb se x (c, q) = Inr ((c', q'), False, True)
    \<and> radix_inv c' \<and> rcfg c' = rcfg c \<and> reclaimed (rhot x c) (ents (entryOf K (rc_heap c)) (xs @ ys)) gp (rlru c')
    \<and> qsim (rc_onEvictEntry c') q' g' \<and> queue_events g' = queue_events g @ (if radixHasCB c then
        entry_event (entryOf K (rc_heap c)) EvictionReasonCapacity e # map (event_of EvictionReasonPressure) gp else [])"
proof -
  let ?W = "sizes (rc_heap c)" and ?old = "rn_size (rc_heap c e)" and ?as = "xs @ e # ys"
  note d = rmidD [OF m]
  have "unat (rc_currentSize c) = weight_sum (map ?W xs) + unat (?W e) + weight_sum (map ?W ys)"
    "unat (rc_currentSize c) \<le> unat (rc_maxSize c)"
    using d(2) by (simp_all add: mid_def word_le_nat_alt)
  then have grow: "?old < w" using fit by (simp add: sizes_def word_less_nat_alt)
  have m0: "mid (weights (m_heap (shadow K ?as c))) 0 0 0 0 (shadow K ?as c) ?as" using d(2) by simp
  have fits: "(if rc_maxSize c < w then Inr False
      else radixCache_canFitGrowthLocked c e (rc_maxSize c - w) (w - ?old) (rc_maxSize c - rc_currentSize c)) = Inr False"
  proof (cases "rc_maxSize c < w")
    case False
    then have "mapCache_canFitGrowthLocked (shadow K ?as c) e (rc_maxSize c - w) (w - ?old) (rc_maxSize c - rc_currentSize c) = Inr False"
      using canFitGrowth_spec [OF m0, of w] grow fit by (simp add: not_less)
    then show ?thesis using False canFitGrowth_sim by simp
  qed simp
  define c1 where "c1 = onRps (\<lambda>p. p\<lparr>replaceSelfEvicted := replaceSelfEvicted p + 1\<rparr>) c"
  have m1: "rmid ?W 0 0 (- 1) 0 K c1 ?as"
    unfolding c1_def
  proof (rule rmid_onRps [OF m])
    fix n z assume "ps_ok (rc_ps c) n z 0 0 0" "n = length ?as"
    then show "ps_ok ((rc_ps c)\<lparr>replaceSelfEvicted := replaceSelfEvicted (rc_ps c) + 1\<rparr>) n z 0 (- 1) 0"
      using ps_ok_selfEvicted [of "rc_ps c" "length (xs @ ys)" z 0 0 0] by simp
  qed
  have h1: "rc_heap c1 = rc_heap c" "rcfg c1 = rcfg c" "radixHasCB c1 = radixHasCB c" by (simp_all add: c1_def)
  have e: "e \<in> set ?as" and We: "?W e = rn_size (rc_heap c1 e)" by (simp_all add: h1 sizes_def)
  have ev: "evicting EvictionReasonCapacity" by (simp add: evicting_def)
  have q1: "qsim (rc_onEvictEntry c1) q g" using q by (simp add: c1_def)
  have k1: "K e = K e \<or> rc_onEvictEntry c1 = None" by simp
  have rm: "remove1 e ?as = xs @ ys" using d(7) by (simp add: remove1_append)
  obtain c2 q2 g2 where er: "radixCache_eraseInternalWithKey e (K e) EvictionReasonCapacity (c1, q) = Inr ((c2, q2), rn_value (rc_heap c1 e), True)"
    "rmid ?W 0 0 (- 1 + 1) 0 K c2 (xs @ ys)"
    "sheds (shadow K ?as c1, g) ?as [(e, EvictionReasonCapacity)] (shadow K (xs @ ys) c2, g2) (xs @ ys)" "qsim (rc_onEvictEntry c2) q2 g2"
    by (rule erase_rmid [OF m1 e We ev q1 k1, unfolded rm]) (use that in simp)
  have m2: "rmid ?W 0 0 0 0 K c2 (xs @ ys)" using er(2) by simp
  have W2: "?W a = rn_size (rc_heap c2 a)" if "a \<in> set (xs @ ys)" for a
    using sheds_sizes(2) [OF er(3) that] by (simp add: sizes_def h1)
  have qw: "queue_wf g" using q by (simp add: qsim_def)
  have g2: "queue_events g2 = queue_events g @ (if radixHasCB c then [entry_event (entryOf K (rc_heap c)) EvictionReasonCapacity e] else [])"
    using sheds_events [of "shadow K ?as c1" g ?as EvictionReasonCapacity "[e]"] er(3) qw h1 by simp
  have cfg2: "rcfg c2 = rcfg c" using er(3) h1 by (simp add: sheds_def)
  obtain c3 q3 g3 gp where t: "radixCache_finishDeleteReclaimLocked sb se x (c2, q2) = Inr (c3, q3)"
    "radix_inv c3" "rcfg c3 = rcfg c2" "reclaimed (rhot x c2) (rlru c2) gp (rlru c3)" "qsim (rc_onEvictEntry c3) q3 g3"
    "queue_events g3 = queue_events g2 @ (if radixHasCB c2 then map (event_of EvictionReasonPressure) gp else [])"
    using rdelete_tail [OF m2 W2 er(4), where sb = sb and se = se and x = x] by blast
  have "radixCache_replaceResizeOrEvictLocked e (K e) ?old w sb se x (c, q) = Inr ((c3, q3), False, True)"
    using grow t(1) er(1) unfolding radixCache_replaceResizeOrEvictLocked_def Let_def prod.case fits bindr_simps c1_def [symmetric]
    by simp
  moreover have "ents (entryOf K (rc_heap c2)) (xs @ ys) = ents (entryOf K (rc_heap c)) (xs @ ys)"
    by (rule ents_cong) (use sheds_sizes(3) [OF er(3)] h1 in simp)
  moreover have "rhot x c2 = rhot x c" "radixHasCB c2 = radixHasCB c" using rcfg_simps [OF cfg2] by auto
  ultimately show ?thesis
    using t g2 cfg2 rlru_rmid [OF m2]
    by - (rule exI [of _ c3], rule exI [of _ q3], rule exI [of _ g3], rule exI [of _ gp], simp)
qed

lemma rReplace_self_evicts_spec:
  fixes c :: "('v :: zero) radixCache"
  assumes inv: "radix_inv c" and lru: "rlru c = newer @ (k, w0, v0) # older"
    and fit: "unat (rc_maxSize c) < weight_sum (map (\<lambda>y. entry_weight y) newer) + unat (radixCache_weigh c k v)"
  shows "\<exists>c' gp. radixCache_Replace env k v c = Inr (c', None,
        rcalls c (event_of EvictionReasonCapacity (k, w0, v0) # map (event_of EvictionReasonPressure) gp))
    \<and> radix_inv c' \<and> rcfg c' = rcfg c \<and> reclaimed (rhot (rlockPressure env False c) c) (newer @ older) gp (rlru c')"
proof -
  let ?w = "radixCache_weigh c k v" and ?h = "rc_heap c" and ?q = "newEvictQueue False :: 'v evictCallbackQueue"
  obtain K where m: "rmid (sizes ?h) 0 0 0 0 K c (raddrs c)" by (rule radix_invD [OF inv])
  obtain e xs ys where a: "raddrs c = xs @ e # ys" "find (\<lambda>a. K a = k) (raddrs c) = Some e" "K e = k" "rn_size (?h e) = w0" "rn_value (?h e) = v0"
    "ents (entryOf K ?h) xs = newer" "ents (entryOf K ?h) ys = older"
    by (rule rReplace_lookup [OF m lru])
  obtain c0 se x where lk: "lockRadixCache env False c = (c0, se, x)" by (metis prod_cases3)
  note l = rlock_props [OF lk m] and f0 = rcfg_simps [OF rlock_props(5) [OF lk m]]
  have m0: "rmid (sizes (rc_heap c0)) 0 0 0 0 K c0 (xs @ e # ys)" using l(1,7) a(1) by simp
  have fit0: "unat (rc_maxSize c0) < weight_sum (map (sizes (rc_heap c0)) xs) + unat ?w"
    using fit a(6) ents_weight [of "entryOf K ?h" xs] l(7) f0 by simp
  obtain c1 q1 g1 gp where r: "radixCache_replaceResizeOrEvictLocked e (K e) (rn_size (rc_heap c0 e)) ?w (rc_currentSize c0) se x (c0, ?q)
      = Inr ((c1, q1), False, True)"
    "radix_inv c1" "rcfg c1 = rcfg c0" "reclaimed (rhot x c0) (ents (entryOf K (rc_heap c0)) (xs @ ys)) gp (rlru c1)"
    "qsim (rc_onEvictEntry c1) q1 g1" "queue_events g1 = queue_events ?q @ (if radixHasCB c0 then
        entry_event (entryOf K (rc_heap c0)) EvictionReasonCapacity e # map (event_of EvictionReasonPressure) gp else [])"
    using rresize_self [OF m0 qsim_refl [OF queue_wf_new] fit0] by blast
  have ne: "(?w \<noteq> rn_size (rc_heap c0 e)) = True"
  proof -
    have "unat (rc_currentSize c0) = weight_sum (map (sizes (rc_heap c0)) (xs @ e # ys))" "unat (rc_currentSize c0) \<le> unat (rc_maxSize c0)"
      using rmidD(2) [OF m0] by (simp_all add: mid_def word_le_nat_alt)
    then show ?thesis using fit0 by (auto simp: sizes_def)
  qed
  have g: "radixCache_getNode c0 k = Inr (Some e)" using bound_getNode [OF rmidD(1) [OF l(1)]] a(2) by simp
  have cfg1: "rcfg c1 = rcfg c" using r(3) l(5) by simp
  have ev: "queue_events g1 = (if radixHasCB c then event_of EvictionReasonCapacity (k, w0, v0) # map (event_of EvictionReasonPressure) gp else [])"
    using r(6) f0 a(3,4,5) l(7) by (simp add: entry_event_def event_of_def)
  have res: "radixCache_Replace env k v c = Inr (c1, None, radixCallbacks c1 q1)"
    unfolding radixCache_Replace_def Let_def lk prod.case g bindr_simps option.case ne if_True r(1) [unfolded a(3)]
      runlock_ok [OF r(2)] ..
  show ?thesis
    using res [unfolded rinvoke_calls [OF r(5) ev cfg1]] r(2) cfg1 r(4) f0 l(7,8) a(6,7)
    by - (rule exI [of _ c1], rule exI [of _ gp], simp)
qed

lemma rReplace_absent_spec:
  fixes c :: "('v :: zero) radixCache"
  assumes inv: "radix_inv c" and none: "map_of (rlru c) k = None"
  shows "\<exists>c'. radixCache_Replace env k v c = Inr (c', Some ErrEntryNotExist, []) \<and> radix_inv c' \<and> rlru c' = rlru c \<and> rcfg c' = rcfg c"
proof -
  let ?as = "raddrs c" and ?h = "rc_heap c"
  obtain K where m: "rmid (sizes ?h) 0 0 0 0 K c ?as" and mi: "map_inv (shadow K ?as c)" by (rule radix_invD [OF inv])
  obtain c0 se x where lk: "lockRadixCache env False c = (c0, se, x)" by (metis prod_cases3)
  note l = rlock_props [OF lk m]
  define c1 where "c1 = onRps (\<lambda>p. p\<lparr>replaceNotFound := replaceNotFound p + 1\<rparr>) c0"
  have c1: "radix_inv c1 \<and> rlru c1 = rlru c0" unfolding c1_def by (rule radix_onRps [OF l(1)]) (simp_all add: sizes_def l(7))
  have "find (\<lambda>a. K a = k) ?as = None"
    using radix_lookup(1) [OF m mi, of k] none by (cases "find (\<lambda>a. K a = k) ?as") auto
  then have g: "radixCache_getNode c0 k = Inr None" using bound_getNode [OF rmidD(1) [OF l(1)]] by simp
  have "radixCache_Replace env k v c = Inr (c1, Some ErrEntryNotExist, [])"
    unfolding radixCache_Replace_def Let_def lk prod.case g bindr_simps option.case c1_def [symmetric]
      runlock_ok [OF conjunct1 [OF c1]] ..
  then show ?thesis using c1 l(5,6) by (auto simp: c1_def)
qed

lemma rPut_oversized_spec:
  fixes c :: "('v :: zero) radixCache"
  assumes inv: "radix_inv c" and w: "rc_maxSize c < radixCache_weigh c k v"
  shows "\<exists>c'. radixCache_Put env k v c = Inr (c', [], Some ErrInvalidEntrySize, []) \<and> radix_inv c' \<and> rlru c' = rlru c \<and> rcfg c' = rcfg c"
proof -
  obtain K where m: "rmid (sizes (rc_heap c)) 0 0 0 0 K c (raddrs c)" by (rule radix_invD [OF inv])
  define c1 where "c1 = onRps (\<lambda>p. p\<lparr>putRejectedOversized := putRejectedOversized p + 1\<rparr>) c"
  have c1: "radix_inv c1 \<and> rlru c1 = rlru c" unfolding c1_def by (rule radix_onRps [OF m]) (simp_all add: sizes_def)
  then show ?thesis using w by (simp add: radixCache_Put_def c1_def [symmetric]) (simp add: c1_def)
qed

end
