(* ===== verification/RadixIter.thy ===== *)
theory RadixIter
  imports RadixLookup MapIter
begin

text \<open>
  Iteration, compaction and the explicit evaluation of memory pressure on the radix backend.
\<close>

subsection \<open>Iteration\<close>

lemma radixIterateLoop_sim:
  assumes "lseg (entryOf K (rc_heap c)) p as None" "\<And>a. a \<in> set as \<Longrightarrow> radixCache_reconstructKey c (Some a) = Inr (K a)"
  shows "radixIterateLoop c yld (first as None) acc = map_option Inr (iterateLoop (entryOf K (rc_heap c)) yld (first as None) acc)"
  using assms
proof (induction as arbitrary: p acc)
  case Nil
  then show ?case by (simp add: radixIterateLoop.simps iterateLoop.simps)
next
  case (Cons a as)
  have nx: "rn_next (rc_heap c a) = first as None" and ls: "lseg (entryOf K (rc_heap c)) (Some a) as None" using Cons.prems(1) by simp_all
  have "radixCache_reconstructKey c (Some a) = Inr (K a)" using Cons.prems(2) by simp
  then show ?case
    using Cons.IH [OF ls, of "acc @ [(K a, rn_value (rc_heap c a))]"] Cons.prems(2) nx
    by (subst radixIterateLoop.simps, subst iterateLoop.simps) (simp add: Let_def)
qed

lemma radixValuesLoop_sim:
  assumes "lseg (entryOf K h) p as None"
  shows "radixValuesLoop h yld (first as None) (map snd acc)
    = map_option (\<lambda>(r, b). (map snd r, b)) (iterateLoop (entryOf K h) (\<lambda>kvs. yld (map snd kvs)) (first as None) acc)"
  using assms
proof (induction as arbitrary: p acc)
  case Nil
  then show ?case by (simp add: radixValuesLoop.simps iterateLoop.simps)
next
  case (Cons a as)
  have nx: "rn_next (h a) = first as None" and ls: "lseg (entryOf K h) (Some a) as None" using Cons.prems(1) by simp_all
  show ?case
    using Cons.IH [OF ls, of "acc @ [(K a, rn_value (h a))]"] nx
    by (subst radixValuesLoop.simps, subst iterateLoop.simps) (simp add: Let_def)
qed

definition iterated :: "('a list \<Rightarrow> bool) \<Rightarrow> 'a list \<Rightarrow> 'a list \<times> bool \<Rightarrow> bool" where
  \<comment> \<open>what an iteration hands to its consumer: up to and including the first prefix it refuses\<close>
  "iterated yld xs r = (\<exists>n. fst r = take n xs \<and> n \<le> length xs \<and> (\<forall>i. 0 < i \<longrightarrow> i < n \<longrightarrow> yld (take i xs))
    \<and> (if snd r then n = length xs \<and> (0 < n \<longrightarrow> yld xs) else 0 < n \<and> \<not> yld (take n xs)))"

lemma iterated_map:
  assumes "iterated (\<lambda>xs. yld (map f xs)) xs (r, b)"
  shows "iterated yld (map f xs) (map f r, b)"
  using assms unfolding iterated_def by (auto simp: take_map)

lemma iterateLoop_iterated:
  assumes "lseg h p as None"
  shows "\<exists>r. iterateLoop h yld (first as None) [] = Some r \<and> iterated yld (pairs (ents h as)) r"
proof -
  have eq: "map (\<lambda>a. (ekey (h a), evalue (h a))) as = pairs (ents h as)" by (simp add: ents_def comp_def)
  have len: "length (ents h as) = length as" by (simp add: ents_def)
  obtain n b where "iterateLoop h yld (first as None) [] = Some (take n (pairs (ents h as)), b)" "n \<le> length as"
    "\<forall>i. 0 < i \<longrightarrow> i < n \<longrightarrow> yld (take i (pairs (ents h as)))"
    "if b then n = length as \<and> (0 < n \<longrightarrow> yld (take n (pairs (ents h as)))) else 0 < n \<and> \<not> yld (take n (pairs (ents h as)))"
    using iterateLoop_spec [OF assms, where yld = yld and acc = "[]"] unfolding eq append_Nil by blast
  then show ?thesis
    by (intro exI [of _ "(take n (pairs (ents h as)), b)"]) (auto simp: iterated_def len intro!: exI [of _ n] split: if_splits)
qed

lemma riterateAll_spec:
  fixes c :: "('v :: zero) radixCache"
  assumes "radix_inv c"
  shows "\<exists>r. radixCache_iterateAll yld c = Inr r \<and> iterated yld (pairs (rlru c)) r"
proof -
  obtain K where m: "rmid (sizes (rc_heap c)) 0 0 0 0 K c (raddrs c)" by (rule radix_invD [OF assms])
  note d = rmidD [OF m]
  have ls: "lseg (entryOf K (rc_heap c)) None (raddrs c) None" using d(2) by (simp add: mid_def map_repr_def dll_def)
  obtain r where r: "iterateLoop (entryOf K (rc_heap c)) yld (first (raddrs c) None) [] = Some r"
    "iterated yld (pairs (ents (entryOf K (rc_heap c)) (raddrs c))) r"
    using iterateLoop_iterated [OF ls] by blast
  have "radixIterateLoop c yld (r_head (rc_ends c)) [] = Some (Inr r)"
    using radixIterateLoop_sim [OF ls bound_reconstructKey [OF d(1)]] r(1) d(6) by simp
  then have "radixCache_iterateAll yld c = Inr r" using runlock_ok [OF assms] by (simp add: radixCache_iterateAll_def)
  then show ?thesis using r(2) rlru_rmid [OF m] by simp
qed

lemma riterateKeys_spec:
  fixes c :: "('v :: zero) radixCache"
  assumes "radix_inv c"
  shows "\<exists>r. radixCache_iterateKeys yld c = Inr r \<and> iterated yld (map (\<lambda>x. entry_key x) (rlru c)) r"
proof -
  obtain r0 where r0: "radixCache_iterateAll (\<lambda>kvs. yld (map fst kvs)) c = Inr r0" "iterated (\<lambda>kvs. yld (map fst kvs)) (pairs (rlru c)) r0"
    using riterateAll_spec [OF assms, of "\<lambda>kvs. yld (map fst kvs)"] by blast
  obtain r b where rb: "r0 = (r, b)" by (rule prod.exhaust)
  note r = r0 [unfolded rb]
  have "iterated yld (map fst (pairs (rlru c))) (map fst r, b)" by (rule iterated_map [OF r(2)])
  then show ?thesis using r(1) by (simp add: radixCache_iterateKeys_def comp_def)
qed

lemma riterateValues_spec:
  fixes c :: "('v :: zero) radixCache"
  assumes "radix_inv c"
  shows "\<exists>r. radixCache_iterateValues yld c = Inr r \<and> iterated yld (map (\<lambda>x. entry_value x) (rlru c)) r"
proof -
  obtain K where m: "rmid (sizes (rc_heap c)) 0 0 0 0 K c (raddrs c)" by (rule radix_invD [OF assms])
  note d = rmidD [OF m]
  have ls: "lseg (entryOf K (rc_heap c)) None (raddrs c) None" using d(2) by (simp add: mid_def map_repr_def dll_def)
  obtain r0 where r0: "iterateLoop (entryOf K (rc_heap c)) (\<lambda>kvs. yld (map snd kvs)) (first (raddrs c) None) [] = Some r0"
    "iterated (\<lambda>kvs. yld (map snd kvs)) (pairs (rlru c)) r0"
    using iterateLoop_iterated [OF ls, of "\<lambda>kvs. yld (map snd kvs)"] unfolding rlru_rmid [OF m] by blast
  obtain r b where rb: "r0 = (r, b)" by (rule prod.exhaust)
  note r = r0 [unfolded rb]
  have "iterated yld (map snd (pairs (rlru c))) (map snd r, b)" by (rule iterated_map [OF r(2)])
  moreover have "radixValuesLoop (rc_heap c) yld (r_head (rc_ends c)) [] = Some (map snd r, b)"
    using radixValuesLoop_sim [OF ls, of yld "[]"] r(1) d(6) by simp
  ultimately show ?thesis using runlock_ok [OF assms] by (simp add: radixCache_iterateValues_def comp_def)
qed

subsection \<open>Compaction and statistics\<close>

lemma rCompact_spec:
  fixes c :: "('v :: zero) radixCache"
  assumes "radix_inv c"
  shows "\<exists>c'. radixCache_Compact c = Inr c' \<and> radix_inv c' \<and> rlru c' = rlru c \<and> rcfg c' = rcfg c \<and> rc_currentSize c' = rc_currentSize c"
proof -
  obtain K where m: "rmid (sizes (rc_heap c)) 0 0 0 0 K c (raddrs c)" by (rule radix_invD [OF assms])
  define c' where "c' = radixCache_compactLocked c"
  have m': "rmid (sizes (rc_heap c)) 0 0 0 0 K c' (raddrs c)" and q: "rquiet c c'"
    using rcompactLocked_spec [OF m] by (simp_all add: c'_def)
  note f = rquiet_fields [OF q]
  have inv: "radix_inv c'" by (rule radix_invI [OF m']) (simp_all add: sizes_def f)
  have "rlru c' = rlru c" using rlru_rmid [OF m] rlru_rmid [OF m'] f by simp
  then show ?thesis
    using inv rquiet_rcfg [OF q] f runlock_ok [OF inv] by (simp add: radixCache_Compact_def c'_def [symmetric])
qed

lemma rStats_total: "radix_inv c \<Longrightarrow> \<exists>s. radixCache_Stats c = Inr s"
  by (simp add: radixCache_Stats_def runlock_ok)

subsection \<open>Evaluating memory pressure\<close>

definition rshardPressure :: "samplingEnv \<Rightarrow> bool \<Rightarrow> shardSample \<Rightarrow> 'v radixCache \<Rightarrow> float64" where
  "rshardPressure env fresh sample c = h_pressure (snd (snd (lockShardWithSample env fresh sample (rc_ps c))))"

lemma rmaybeReclaim_target:
  fixes c :: "('v :: zero) radixCache"
  assumes m: "rmid (sizes (rc_heap c)) 0 0 0 0 K c as" and q: "qsim (rc_onEvictEntry c) q g"
    and r: "radixCache_maybeReclaimUnderPressureLocked x None bg (c, q) = Inr ((c', q'), vs)"
    and h: "rhot x c" "\<not> isSamplingGoroutine (rc_ps c)" and ret: "fle (Fin 0) (EvictionRetentionRatio (options (rc_ps c)))"
  shows "rc_currentSize c' \<le> tier2TargetSize (rc_ps c) (rc_maxSize c)"
proof -
  let ?ret = "EvictionRetentionRatio (options (rc_ps c))" and ?t = "tier2TargetSize (rc_ps c) (rc_maxSize c)"
  have W: "\<And>a. a \<in> set as \<Longrightarrow> sizes (rc_heap c) a = rn_size (rc_heap c a)" by (simp add: sizes_def)
  have eq: "radixCache_shedAndCompactLocked ?t ?ret None bg (c, q) = Inr ((c', q'), vs)"
    using r h by (simp add: radixCache_maybeReclaimUnderPressureLocked_def rhot_def)
  obtain as' where s: "rmid (sizes (rc_heap c)) 0 0 0 0 K c' as'"
    "flt (Fin 0) ?ret \<longrightarrow> rc_currentSize c' \<le> max ?t 0" "feq ?ret (Fin 0) \<longrightarrow> as' = []"
    using rshedAndCompact_spec [OF m W q, where t = ?t and ret = ?ret and prot = None and bg = bg] eq by auto
  show ?thesis
  proof (cases "flt (Fin 0) ?ret")
    case True
    then show ?thesis using s(2) by (simp add: max_def)
  next
    case False
    then have "feq ?ret (Fin 0)" using ret by (cases ?ret) (auto simp: fle_def)
    then show ?thesis using rmidD(2) [OF s(1)] s(3) by (simp add: mid_def unat_eq_0)
  qed
qed

lemma rmid_sampled:
  assumes "rmid W 0 0 0 0 K c as" "sampled (rc_ps c) p"
  shows "rmid W 0 0 0 0 K (c\<lparr>rc_ps := p\<rparr>) as" "rquiet c (c\<lparr>rc_ps := p\<rparr>)"
proof -
  have o: "onRps (\<lambda>_. p) c = c\<lparr>rc_ps := p\<rparr>" by (simp add: onRps_def)
  show "rmid W 0 0 0 0 K (c\<lparr>rc_ps := p\<rparr>) as"
    unfolding o [symmetric] by (rule rmid_onRps [OF assms(1)]) (use ps_ok_sampled [OF assms(2)] in blast)
  show "rquiet c (c\<lparr>rc_ps := p\<rparr>)" using sampled_options [OF assms(2)] by (simp add: rquiet_def)
qed

lemma rlockShard_props:
  fixes c :: "('v :: zero) radixCache"
  assumes m: "rmid W 0 0 0 0 K c as" and lk: "lockShardWithSample env fresh h (rc_ps c) = (p, se, out)" and v: "valid_pressure (h_pressure h)"
  shows "rmid W 0 0 0 0 K (c\<lparr>rc_ps := p\<rparr>) as" "rquiet c (c\<lparr>rc_ps := p\<rparr>)" "valid_pressure (h_pressure out)"
proof -
  have s: "sampling_ok (rc_ps c)" using m by (simp add: rmid_def mid_def ps_ok_def)
  have sp: "sampled (rc_ps c) p" using lockShardWithSample_ok [OF lk s v] by simp
  show "valid_pressure (h_pressure out)" using lockShardWithSample_ok [OF lk s v] by simp
  show "rmid W 0 0 0 0 K (c\<lparr>rc_ps := p\<rparr>) as" "rquiet c (c\<lparr>rc_ps := p\<rparr>)" by (rule rmid_sampled [OF m sp])+
qed

lemma revaluateShard_spec:
  fixes c :: "('v :: zero) radixCache" and env :: samplingEnv
  assumes inv: "radix_inv c" and v: "valid_pressure (h_pressure h)" and q: "qsim (rc_onEvictEntry c) q g"
  defines "x \<equiv> rshardPressure env True h c"
  shows "\<exists>c' q' g' gp out. radixCache_evaluateShardPressure env h (c, q) = Inr ((c', q'), map (\<lambda>y. entry_value y) gp, out)
    \<and> radix_inv c' \<and> rcfg c' = rcfg c \<and> reclaimed (rhot x c) (rlru c) gp (rlru c') \<and> qsim (rc_onEvictEntry c') q' g'
    \<and> valid_pressure (h_pressure out)
    \<and> queue_events g' = queue_events g @ (if radixHasCB c then map (event_of EvictionReasonPressure) gp else [])
    \<and> (rhot x c \<longrightarrow> \<not> isSamplingGoroutine (fst (lockShardWithSample env True h (rc_ps c)))
        \<longrightarrow> fle (Fin 0) (EvictionRetentionRatio (options (rc_ps c)))
        \<longrightarrow> rc_currentSize c' \<le> tier2TargetSize (rc_ps c) (rc_maxSize c))"
proof -
  let ?W = "sizes (rc_heap c)" and ?as = "raddrs c"
  obtain K where m: "rmid ?W 0 0 0 0 K c ?as" by (rule radix_invD [OF inv])
  obtain p se out where lk: "lockShardWithSample env True h (rc_ps c) = (p, se, out)" by (metis prod_cases3)
  define c1 where "c1 = c\<lparr>rc_ps := p\<rparr>"
  note l = rlockShard_props [OF m lk v, folded c1_def]
  note f = rquiet_fields [OF l(2)] and cf = rcfg_simps [OF rquiet_rcfg [OF l(2)]]
  have x: "x = h_pressure out" by (simp add: x_def rshardPressure_def lk)
  have W: "\<And>a. a \<in> set ?as \<Longrightarrow> ?W a = rn_size (rc_heap c1 a)" by (simp add: sizes_def f)
  have q1: "qsim (rc_onEvictEntry c1) q g" using q f by simp
  obtain c2 q2 g2 as2 gs where r: "radixCache_maybeReclaimUnderPressureLocked x None True (c1, q)
      = Inr ((c2, q2), map (\<lambda>a. rn_value (rc_heap c1 a)) gs)" "rmid ?W 0 0 0 0 K c2 as2" "qsim (rc_onEvictEntry c2) q2 g2"
      "reclaims x None (shadow K ?as c1, g) ?as gs (shadow K as2 c2, g2) as2"
    using rmaybeReclaim_spec [OF l(1) W q1, where x = x and prot = None and bg = True] by auto
  have qw: "queue_wf g" using q by (simp add: qsim_def)
  note rr = rreclaim_result [OF l(1) W qw r(4,2)]
  have p1: "isSamplingGoroutine (rc_ps c1) = isSamplingGoroutine (fst (lockShardWithSample env True h (rc_ps c)))" by (simp add: c1_def lk)
  have t1: "tier2TargetSize (rc_ps c1) (rc_maxSize c1) = tier2TargetSize (rc_ps c) (rc_maxSize c)" using cf by (simp add: tier2TargetSize_def)
  have m1: "rmid (sizes (rc_heap c1)) 0 0 0 0 K c1 ?as" using l(1) f by simp
  have res: "radixCache_evaluateShardPressure env h (c, q)
      = Inr ((c2, q2), map (\<lambda>y. entry_value y) (ents (entryOf K (rc_heap c1)) gs), advanceSelfReclaim (ownReclaimEpoch (rc_ps c2)) se out)"
    using r(1) runlock_ok [OF rr(1)] by (simp add: radixCache_evaluateShardPressure_def lk c1_def [symmetric] x)
  have "ents (entryOf K (rc_heap c1)) ?as = rlru c" using rlru_rmid [OF m] f by simp
  then show ?thesis
    using res r(3) rr(1-4) l(3) cf p1 t1 rmaybeReclaim_target [OF m1 q1 r(1)] rquiet_rcfg [OF l(2)]
    by (intro exI [of _ c2] exI [of _ q2] exI [of _ g2] exI [of _ "ents (entryOf K (rc_heap c1)) gs"]
      exI [of _ "advanceSelfReclaim (ownReclaimEpoch (rc_ps c2)) se out"] conjI impI) (simp_all del: if_split)
qed

lemma rEvaluateMemoryPressure_spec:
  fixes c :: "('v :: zero) radixCache"
  assumes inv: "radix_inv c" and ret: "fle (Fin 0) (EvictionRetentionRatio (options (rc_ps c)))"
  shows "\<exists>c' gp. radixCache_EvaluateMemoryPressure env c
      = Inr (c', map (\<lambda>y. entry_value y) gp, rcalls c (map (event_of EvictionReasonPressure) gp))
    \<and> radix_inv c' \<and> rcfg c' = rcfg c
    \<and> reclaimed (rhot (rshardPressure env True emptyShardSample c) c) (rlru c) gp (rlru c')
    \<and> (rhot (rshardPressure env True emptyShardSample c) c
        \<longrightarrow> \<not> isSamplingGoroutine (fst (lockShardWithSample env True emptyShardSample (rc_ps c)))
        \<longrightarrow> rc_currentSize c' \<le> tier2TargetSize (rc_ps c) (rc_maxSize c))"
proof -
  have v: "valid_pressure (h_pressure emptyShardSample)" by (simp add: emptyShardSample_def)
  obtain c' q' g' gp out where e: "radixCache_evaluateShardPressure env emptyShardSample (c, newEvictQueue True)
      = Inr ((c', q'), map (\<lambda>y. entry_value y) gp, out)"
    "radix_inv c'" "rcfg c' = rcfg c" "reclaimed (rhot (rshardPressure env True emptyShardSample c) c) (rlru c) gp (rlru c')"
    "qsim (rc_onEvictEntry c') q' g'" "queue_events g' = queue_events (newEvictQueue True :: 'v evictCallbackQueue) @ (if radixHasCB c then map (event_of EvictionReasonPressure) gp else [])"
    "rhot (rshardPressure env True emptyShardSample c) c
        \<longrightarrow> \<not> isSamplingGoroutine (fst (lockShardWithSample env True emptyShardSample (rc_ps c)))
        \<longrightarrow> rc_currentSize c' \<le> tier2TargetSize (rc_ps c) (rc_maxSize c)"
    using revaluateShard_spec [OF inv v qsim_refl [OF queue_wf_new], of env True] ret by blast
  have "radixCallbacks c' q' = rcalls c (map (event_of EvictionReasonPressure) gp)"
    by (rule rinvoke_calls [OF e(5) _ e(3)]) (use e(6) in simp)
  then show ?thesis
    using e by (intro exI [of _ c'] exI [of _ gp]) (simp add: radixCache_EvaluateMemoryPressure_def)
qed

end
