(* ===== verification/RadixSweep.thy ===== *)
theory RadixSweep
  imports RadixIter
begin

text \<open>
  Sweeping a subtree of the radix tree: the traversal visits every node, takes its entry off the list and
  clears the node on the way back, while the parent pointers above it still spell its key.
\<close>

subsection \<open>Taking one entry off the list\<close>

lemma mid_shadow:
  assumes m: "mid W d dd rr ss m as" and f: "m_maxSize m = rc_maxSize c" "m_currentSize m = rc_currentSize c" "m_nextAddr m = rc_nextAddr c"
      "m_entries m = listOf (rc_ends c)" "m_ps m = rc_ps c"
    and h: "\<And>a. a \<in> set as \<Longrightarrow> m_heap m a = entryOf K (rc_heap c) a"
  shows "mid W d dd rr ss (shadow K as c) as"
proof -
  have "inj_on (\<lambda>a. ekey (m_heap m a)) (set as)" by (rule keys_inj [OF m])
  then have "inj_on K (set as)" using h by (simp add: inj_on_def)
  then have ix: "index_ok (map (\<lambda>a. (K a, a)) as) (entryOf K (rc_heap c)) as"
    using mid_distinct [OF m] by (auto simp: index_ok_def distinct_map comp_def)
  have "lseg (entryOf K (rc_heap c)) None as None = lseg (m_heap m) None as None" by (rule lseg_cong) (use h in simp_all)
  then show ?thesis using m ix f by (simp add: mid_def map_repr_def dll_def)
qed

definition dropNode :: "addr \<Rightarrow> ('v :: zero) radixCache \<Rightarrow> 'v radixCache" where
  \<comment> \<open>take the entry of a node off the list and the books, and clear it\<close>
  "dropNode a c = (let z = rn_size (rc_heap c a); (h, l) = unlinkNode a (rc_heap c, rc_ends c) in
     c\<lparr>rc_ps := onEntryDeleted z (rc_ps c), rc_currentSize := rc_currentSize c - z, rc_ends := l,
       rc_heap := h(a := (h a)\<lparr>rn_size := 0, rn_value := 0, rn_hasValue := False\<rparr>)\<rparr>)"

lemma dropNode_forms:
  fixes c :: "('v :: zero) radixCache"
  assumes "z = rn_size (rc_heap c a)" "c2 = (onRps (onEntryDeleted z) c)\<lparr>rc_currentSize := rc_currentSize (onRps (onEntryDeleted z) c) - z\<rparr>"
  shows "setNode a (\<lambda>x. x\<lparr>rn_value := 0, rn_hasValue := False\<rparr>) (onList (unlinkNode a) (setNode a (\<lambda>x. x\<lparr>rn_size := 0\<rparr>) c2)) = dropNode a c"
    and "setNode a (\<lambda>x. x\<lparr>rn_value := 0, rn_hasValue := False, rn_size := 0\<rparr>) (onList (unlinkNode a) c2) = dropNode a c"
proof -
  obtain h l where u: "unlinkNode a (rc_heap c, rc_ends c) = (h, l)" by (rule prod.exhaust)
  have sw: "x\<lparr>rn_value := 0, rn_hasValue := False, rn_size := 0\<rparr> = x\<lparr>rn_size := 0, rn_value := 0, rn_hasValue := False\<rparr>" for x :: "'v radixNode"
    by (cases x) simp
  show "setNode a (\<lambda>x. x\<lparr>rn_value := 0, rn_hasValue := False\<rparr>) (onList (unlinkNode a) (setNode a (\<lambda>x. x\<lparr>rn_size := 0\<rparr>) c2)) = dropNode a c"
    unfolding assms by (simp add: dropNode_def setNode_def onList_def onRps_def Let_def unlinkNode_size u)
  show "setNode a (\<lambda>x. x\<lparr>rn_value := 0, rn_hasValue := False, rn_size := 0\<rparr>) (onList (unlinkNode a) c2) = dropNode a c"
    unfolding assms by (simp add: dropNode_def setNode_def onList_def onRps_def Let_def u) (simp only: sw)
qed

lemma drop_spec:
  fixes c :: "('v :: zero) radixCache"
  assumes m: "mid W 0 dd rr ss (shadow K as c) as" and a: "a \<in> set as" and W: "W a = rn_size (rc_heap c a)"
    and q: "qsim (rc_onEvictEntry c) q g" and k: "key = K a \<or> rc_onEvictEntry c = None"
    and st': "radixCache_notifyEvict key (rn_value (rc_heap c a)) (rn_size (rc_heap c a)) EvictionReasonDeleted (dropNode a c, q) = (c', q')"
  obtains g' where "mid W 0 (dd + 1) rr ss (shadow K (remove1 a as) c') (remove1 a as)"
    "sheds (shadow K as c, g) as [(a, EvictionReasonDeleted)] (shadow K (remove1 a as) c', g') (remove1 a as)"
    "qsim (rc_onEvictEntry c') q' g'"
    "\<And>x. links (rc_heap c' x) = links (rc_heap c x)" "\<And>x. rn_hasValue (rc_heap c' x) = (rn_hasValue (rc_heap c x) \<and> x \<noteq> a)"
    "\<And>x. x \<notin> set as \<Longrightarrow> rc_heap c' x = rc_heap c x" "body (rc_heap c' a) = zeroBody"
    "rc_root c' = rc_root c" "rc_nextAddr c' = rc_nextAddr c" "rc_recycleNodes c' = rc_recycleNodes c"
proof -
  let ?h = "rc_heap c" and ?z = "rn_size (rc_heap c a)" and ?m = "shadow K as c"
  obtain h4 l4 where u: "unlinkNode a (?h, rc_ends c) = (h4, l4)" by (rule prod.exhaust)
  have dll: "dll (entryOf K ?h, listOf (rc_ends c)) as" using m by (simp add: mid_def map_repr_def)
  note ue = unlinkNode_entry [OF dll a u] and dist = dll_distinct [OF dll]
  define h5 where "h5 = h4(a := (h4 a)\<lparr>rn_size := 0, rn_value := 0, rn_hasValue := False\<rparr>)"
  have c': "c' = onRps (recordEviction EvictionReasonDeleted ?z) (dropNode a c)"
    "q' = (if radixHasCB c then enqueue key (rn_value (?h a)) EvictionReasonDeleted q else q)"
    using st' by (simp_all add: radixCache_notifyEvict_def Let_def radixHasCB_def dropNode_def u)
  have h': "rc_heap c' = h5" "rc_ends c' = l4" "rc_ps c' = recordEviction EvictionReasonDeleted ?z (onEntryDeleted ?z (rc_ps c))"
    "rc_currentSize c' = rc_currentSize c - ?z" "rc_maxSize c' = rc_maxSize c" "rc_nextAddr c' = rc_nextAddr c" "rc_root c' = rc_root c"
    "rc_recycleNodes c' = rc_recycleNodes c" "rc_onEvictEntry c' = rc_onEvictEntry c"
    "rc_weigher c' = rc_weigher c" "rc_onEvictValue c' = rc_onEvictValue c"
    by (simp_all add: c' dropNode_def u h5_def Let_def)
  obtain m' g' v where er: "mapCache_eraseEntryLocked a EvictionReasonDeleted (?m, g) = ((m', g'), v)" by (metis surj_pair)
  have mf: "m_heap m' = entryOf (K(a := [])) h5" "m_entries m' = listOf l4" "m_maxSize m' = rc_maxSize c" "m_currentSize m' = rc_currentSize c - ?z"
      "m_nextAddr m' = rc_nextAddr c" "m_ps m' = recordEviction EvictionReasonDeleted ?z (onEntryDeleted ?z (rc_ps c))"
      "g' = (if radixHasCB c then enqueue (K a) (rn_value (?h a)) EvictionReasonDeleted g else g)"
    using er ue(1)
    by (auto simp: mapCache_eraseEntryLocked_def mapCache_notifyEvict_def Let_def onEntries_def h5_def entryOf_upd
        hasEvictCB_def radixHasCB_def fun_eq_iff entryOf_def)
  have le: "unat (W a) + 0 \<le> weight_sum (map W as)" using weight_sum_remove [OF dist a, of W] by simp
  have Wa: "W a = esize (m_heap ?m a)" using W by simp
  have ev: "evicting EvictionReasonDeleted" by (simp add: evicting_def)
  note em = erase_mid [OF m a Wa le ev er]
  have ent: "m_heap m' b = entryOf K (rc_heap c') b" if "b \<in> set (remove1 a as)" for b
    using that dist by (auto simp: mf(1) h' entryOf_def)
  show thesis
  proof (rule that [of g'])
    show "mid W 0 (dd + 1) rr ss (shadow K (remove1 a as) c') (remove1 a as)"
      by (rule mid_shadow [of _ _ _ _ _ m']) (use em(1) mf h' ent in auto)
    show "sheds (?m, g) as [(a, EvictionReasonDeleted)] (shadow K (remove1 a as) c', g') (remove1 a as)"
    proof -
      have "cfg m' = rcfg c" using em(2) by (simp add: sheds_def)
      then have "cfg (shadow K (remove1 a as) c') = cfg m'" using h' mf(6) by (simp add: cfg_def rcfg_def)
      then show ?thesis using em(2) ent mf(5) h'(6) unfolding sheds_def prod.case by auto
    qed
    show "qsim (rc_onEvictEntry c') q' g'" using q k by (auto simp: c' mf(7) dropNode_def u Let_def intro!: qsim_enqueue)
    show "links (rc_heap c' x) = links (?h x)" "rn_hasValue (rc_heap c' x) = (rn_hasValue (?h x) \<and> x \<noteq> a)" for x
      using inertD [OF ue(2) [of x]] by (auto simp: h' h5_def links_def)
    show "rc_heap c' x = ?h x" if "x \<notin> set as" for x using ue(5) [OF that] that a by (auto simp: h' h5_def)
    show "body (rc_heap c' a) = zeroBody" using ue(3,4) by (simp add: h' h5_def body_def zeroBody_def)
  qed (simp_all add: h')
qed

subsection \<open>Keys from parent pointers\<close>

fun chain :: "'v radixHeap \<Rightarrow> addr \<Rightarrow> addr \<Rightarrow> addr list \<Rightarrow> string \<Rightarrow> bool" where
  \<comment> \<open>the nodes from \<open>p\<close> up to the root spell the key\<close>
  "chain h r p [] k = (p = r \<and> k = [])"
| "chain h r p (x # xs) k = (x = p \<and> p \<noteq> r \<and> (\<exists>q pre. rn_parent (h p) = Some q \<and> chain h r q xs pre \<and> k = pre @ rn_prefix (h p)))"

lemma chain_cong: "(\<And>x. x \<in> set xs \<Longrightarrow> links (h' x) = links (h x)) \<Longrightarrow> chain h' r p xs k = chain h r p xs k"
proof (induction xs arbitrary: p k)
  case (Cons x xs)
  have "rn_parent (h' x) = rn_parent (h x)" "rn_prefix (h' x) = rn_prefix (h x)" using Cons.prems [of x] by (simp_all add: links_def)
  moreover have "chain h' r q xs pre = chain h r q xs pre" for q pre using Cons.IH Cons.prems by simp
  ultimately show ?case by (cases "x = p") simp_all
qed simp

lemma chain_loop: "chain h r p xs k \<Longrightarrow> reconstructLoop h r (Some p) acc = Some (k @ acc)"
proof (induction xs arbitrary: p k acc)
  case Nil
  then show ?case by (subst reconstructLoop.simps) simp
next
  case (Cons x xs)
  then obtain q pre where "p \<noteq> r" "rn_parent (h p) = Some q" "chain h r q xs pre" "k = pre @ rn_prefix (h p)" by auto
  then show ?case using Cons.IH by (subst reconstructLoop.simps) simp
qed

lemma chain_key:
  assumes "chain h r p xs k"
  shows "reconstructKey h r (Some p) = Inr k"
proof (cases "p = r")
  case True
  then show ?thesis using assms by (cases xs) (auto simp: reconstructKey_root)
next
  case False
  have l: "reconstructLoop h r (Some p) [] = Some k" using chain_loop [OF assms, of "[]"] by simp
  have "reconstructLoop h r (Some p) [] = Some (rn_prefix (h p))" if "rn_parent (h p) = Some r"
    using that False by (subst reconstructLoop.simps, subst reconstructLoop.simps) simp
  then show ?thesis using False l by (auto simp: reconstructKey_def)
qed

lemma chain_ctx:
  assumes "crepr h r C x" "r \<notin> set (caddrs C)"
  shows "\<exists>xs. chain h r (par r C) xs (path C) \<and> set xs \<subseteq> set (caddrs C)"
  using assms
proof (induction C arbitrary: x)
  case Top
  then show ?case by (intro exI [of _ "[]"]) simp
next
  case (InChild a s sb C)
  then obtain xs where "chain h r (par r C) xs (path C)" "set xs \<subseteq> set (caddrs C)" by auto
  then show ?case using InChild.prems by (intro exI [of _ "a # xs"]) (auto simp: links_def)
next
  case (InSib a s ch C)
  then obtain xs where "chain h r (par r C) xs (path C)" "set xs \<subseteq> set (caddrs C)" by auto
  then show ?case by (intro exI [of _ xs]) auto
qed

subsection \<open>Visiting a node\<close>

definition swept ::
  "(addr \<Rightarrow> string) \<Rightarrow> addr set \<Rightarrow> addr list \<Rightarrow> ('v :: zero) radixCache \<times> 'v evictCallbackQueue \<times> addr list
   \<Rightarrow> 'v radixCache \<times> 'v evictCallbackQueue \<times> addr list \<Rightarrow> bool" where
  \<comment> \<open>the entries of the nodes \<open>gs\<close> were taken off the list; only the nodes of \<open>A\<close> may have lost their links\<close>
  "swept K A gs s s' = (case (s, s') of ((c, g, as), (c', g', as')) \<Rightarrow>
     sheds (shadow K as c, g) as (map (\<lambda>a. (a, EvictionReasonDeleted)) gs) (shadow K as' c', g') as'
     \<and> (\<forall>x. x \<notin> A \<longrightarrow> links (rc_heap c' x) = links (rc_heap c x) \<and> rn_hasValue (rc_heap c' x) = rn_hasValue (rc_heap c x))
     \<and> (\<forall>x. x \<notin> A \<longrightarrow> x \<notin> set as \<longrightarrow> rc_heap c' x = rc_heap c x)
     \<and> rc_root c' = rc_root c \<and> rc_nextAddr c' = rc_nextAddr c \<and> rc_recycleNodes c' = rc_recycleNodes c)"

lemma sweptD:
  assumes "swept K A gs (c, g, as) (c', g', as')"
  shows "sheds (shadow K as c, g) as (map (\<lambda>a. (a, EvictionReasonDeleted)) gs) (shadow K as' c', g') as'"
    "\<And>x. x \<notin> A \<Longrightarrow> links (rc_heap c' x) = links (rc_heap c x)" "\<And>x. x \<notin> A \<Longrightarrow> rn_hasValue (rc_heap c' x) = rn_hasValue (rc_heap c x)"
    "\<And>x. x \<notin> A \<Longrightarrow> x \<notin> set as \<Longrightarrow> rc_heap c' x = rc_heap c x"
    "rc_root c' = rc_root c" "rc_nextAddr c' = rc_nextAddr c" "rc_recycleNodes c' = rc_recycleNodes c"
    "as' = filter (\<lambda>a. a \<notin> set gs) as" "set gs \<subseteq> set as" "rcfg c' = rcfg c"
proof -
  show s: "sheds (shadow K as c, g) as (map (\<lambda>a. (a, EvictionReasonDeleted)) gs) (shadow K as' c', g') as'"
    using assms by (simp add: swept_def)
  show "as' = filter (\<lambda>a. a \<notin> set gs) as" "set gs \<subseteq> set as" using sheds_gone [OF s] by auto
  show "rcfg c' = rcfg c" using s by (simp add: sheds_def)
qed (use assms in \<open>auto simp: swept_def\<close>)

lemma swept_trans:
  assumes "swept K A gs (c, g, as) (c1, g1, as1)" "swept K B hs (c1, g1, as1) (c2, g2, as2)"
  shows "swept K (A \<union> B) (gs @ hs) (c, g, as) (c2, g2, as2)"
proof -
  note d1 = sweptD [OF assms(1)] and d2 = sweptD [OF assms(2)]
  have "sheds (shadow K as c, g) as (map (\<lambda>a. (a, EvictionReasonDeleted)) (gs @ hs)) (shadow K as2 c2, g2) as2"
    using sheds_trans [OF d1(1) d2(1)] by simp
  moreover have "rc_heap c2 x = rc_heap c x" if "x \<notin> A \<union> B" "x \<notin> set as" for x
    using d1(4) [of x] d2(4) [of x] that d1(8) by simp
  ultimately show ?thesis using d1(2,3,5-7) d2(2,3,5-7) by (simp add: swept_def)
qed

lemma swept_refl: "shadow K as c' = shadow K as c \<Longrightarrow> rc_root c' = rc_root c \<Longrightarrow> rc_recycleNodes c' = rc_recycleNodes c
  \<Longrightarrow> rc_nextAddr c' = rc_nextAddr c
  \<Longrightarrow> (\<And>x. x \<notin> A \<Longrightarrow> rc_heap c' x = rc_heap c x) \<Longrightarrow> swept K A [] (c, g, as) (c', g, as)"
  by (simp add: swept_def sheds_refl)

lemma swept_sizes:
  assumes "swept K A gs (c, g, as) (c', g', as')" "a \<in> set as'"
  shows "a \<in> set as" "rn_size (rc_heap c' a) = rn_size (rc_heap c a)"
  using sheds_sizes [OF sweptD(1) [OF assms(1)] assms(2)] by auto

lemma sweepVisit_spec:
  fixes c :: "('v :: zero) radixCache"
  assumes ch: "chain (rc_heap c) (rc_root c) a xs k" and m: "mid W 0 dd 0 0 (shadow K as c) as"
    and W: "\<And>a. a \<in> set as \<Longrightarrow> W a = rn_size (rc_heap c a)" and q: "qsim (rc_onEvictEntry c) q g"
    and v: "rn_hasValue (rc_heap c a) = (a \<in> set as)" and k: "a \<in> set as \<Longrightarrow> K a = k"
  shows "\<exists>c' q' g' as'. sweepVisit a (c, q) = Inr (c', q') \<and> swept K {a} (borne c [a]) (c, g, as) (c', g', as')
    \<and> mid W 0 (dd + int (length (borne c [a]))) 0 0 (shadow K as' c') as' \<and> qsim (rc_onEvictEntry c') q' g'
    \<and> links (rc_heap c' a) = links (rc_heap c a)"
proof (cases "a \<in> set as")
  case False
  then have nv: "\<not> rn_hasValue (rc_heap c a)" using v by simp
  then have "sweepVisit a (c, q) = Inr (c, q)" by (simp add: sweepVisit_def)
  then show ?thesis using nv m q by (intro exI [of _ c] exI [of _ q] exI [of _ g] exI [of _ as]) (simp add: swept_refl)
next
  case True
  then have hv: "rn_hasValue (rc_heap c a)" using v by simp
  let ?key = "if rc_onEvictEntry c \<noteq> None then k else []" and ?h = "rc_heap c"
  have key: "(if rc_onEvictEntry c \<noteq> None then radixCache_reconstructKey c (Some a) else Inr []) = Inr ?key"
    using chain_key [OF ch] by (simp add: radixCache_reconstructKey_def)
  obtain c' q' where st: "radixCache_notifyEvict ?key (rn_value (?h a)) (rn_size (?h a)) EvictionReasonDeleted (dropNode a c, q) = (c', q')"
    by (rule prod.exhaust)
  have kk: "?key = K a \<or> rc_onEvictEntry c = None" using k [OF True] by auto
  obtain g' where d: "mid W 0 (dd + 1) 0 0 (shadow K (remove1 a as) c') (remove1 a as)"
    "sheds (shadow K as c, g) as [(a, EvictionReasonDeleted)] (shadow K (remove1 a as) c', g') (remove1 a as)"
    "qsim (rc_onEvictEntry c') q' g'" "\<And>x. links (rc_heap c' x) = links (?h x)"
    "\<And>x. rn_hasValue (rc_heap c' x) = (rn_hasValue (?h x) \<and> x \<noteq> a)" "\<And>x. x \<notin> set as \<Longrightarrow> rc_heap c' x = ?h x"
    "rc_root c' = rc_root c" "rc_nextAddr c' = rc_nextAddr c" "rc_recycleNodes c' = rc_recycleNodes c"
    by (rule drop_spec [OF m True W [OF True] q kk st]) (use that in blast)
  have "sweepVisit a (c, q) = Inr (c', q')"
    unfolding sweepVisit_def Let_def prod.case if_P [OF hv] key bindr_simps dropNode_forms(1) [OF refl refl] st ..
  moreover have "swept K {a} [a] (c, g, as) (c', g', remove1 a as)" using d(2,4-9) by (simp add: swept_def)
  ultimately show ?thesis using d(1,3,4) hv by auto
qed

subsection \<open>The traversal\<close>

definition clearLinks :: "addr \<Rightarrow> 'v radixCache \<Rightarrow> 'v radixCache" where
  "clearLinks a c = c\<lparr>rc_heap := (rc_heap c)(a := (rc_heap c a)\<lparr>rn_prefix := [], rn_parent := None, rn_child := None, rn_sibling := None\<rparr>)\<rparr>"

lemma clearLinks_swept: "swept K {a} [] (c, g, as) (clearLinks a c, g, as)" "shadow K as (clearLinks a c) = shadow K as c"
  "rc_onEvictEntry (clearLinks a c) = rc_onEvictEntry c"
proof -
  have e: "entryOf K (rc_heap (clearLinks a c)) = entryOf K (rc_heap c)"
    by (rule entryOf_cong) (simp add: clearLinks_def body_def)
  then show "shadow K as (clearLinks a c) = shadow K as c" by (simp add: shadow_def clearLinks_def)
  then show "swept K {a} [] (c, g, as) (clearLinks a c, g, as)" by (intro swept_refl) (simp_all add: clearLinks_def)
qed (simp add: clearLinks_def)

definition afterSweep :: "addr \<Rightarrow> addr \<Rightarrow> ('v :: zero) radixState \<Rightarrow> 'v radixState res option" where
  \<comment> \<open>\<open>sweepLoop\<close> when everything below a node has been swept\<close>
  "afterSweep node a st = (case sweepUnwindLoop node a (rc_heap (fst st)) of None \<Rightarrow> None
     | Some (Inl p) \<Rightarrow> Some (Inl p)
     | Some (Inr (h, b)) \<Rightarrow> (let nxt = rn_sibling (h b);
         h1 = h(b := (h b)\<lparr>rn_prefix := [], rn_parent := None, rn_child := None, rn_sibling := None\<rparr>);
         st2 = ((fst st)\<lparr>rc_heap := h1\<rparr>, snd st)
         in if b = node then Some (Inr st2) else sweepLoop node nxt st2))"

lemma afterSweep_stop: "afterSweep node node (c, q) = Some (Inr (clearLinks node c, q))"
  unfolding afterSweep_def by (subst sweepUnwindLoop.simps) (simp add: clearLinks_def)

lemma afterSweep_node:
  assumes "a \<noteq> node" "rn_sibling (rc_heap c a) = x" "rn_parent (rc_heap c a) = Some p"
  shows "afterSweep node a (c, q) = (case x of None \<Rightarrow> afterSweep node p (clearLinks a c, q) | Some s \<Rightarrow> sweepLoop node (Some s) (clearLinks a c, q))"
proof (cases x)
  case None
  have "(rc_heap c)(a := (rc_heap c a)\<lparr>rn_prefix := [], rn_parent := None, rn_child := None\<rparr>) = rc_heap (clearLinks a c)"
    using assms(2) None by (auto simp: clearLinks_def fun_eq_iff)
  moreover have u: "(clearLinks a c)\<lparr>rc_heap := y\<rparr> = c\<lparr>rc_heap := y\<rparr>" for y by (simp add: clearLinks_def)
  ultimately show ?thesis
    using assms None unfolding afterSweep_def Let_def fst_conv snd_conv u by (subst sweepUnwindLoop.simps) simp
next
  case (Some s)
  then show ?thesis unfolding afterSweep_def using assms by (subst sweepUnwindLoop.simps) (simp add: clearLinks_def)
qed

lemma sweepLoop_visit:
  assumes "sweepVisit a st = Inr st1"
  shows "sweepLoop node (Some a) st = (case rn_child (rc_heap (fst st1) a) of Some ch \<Rightarrow> sweepLoop node (Some ch) st1 | None \<Rightarrow> afterSweep node a st1)"
  using assms by (subst sweepLoop.simps) (simp add: afterSweep_def Let_def split: option.split)

lemma keyed_borne:
  assumes "\<forall>(a, k)\<in>set (keyed pre (Branch x s ch sb)). a \<in> V \<longrightarrow> K a = k"
  shows "x \<in> V \<longrightarrow> K x = pre @ s" "\<forall>(a, k)\<in>set (keyed (pre @ s) ch). a \<in> V \<longrightarrow> K a = k" "\<forall>(a, k)\<in>set (keyed pre sb). a \<in> V \<longrightarrow> K a = k"
  using assms by auto

definition sweepable :: "(addr \<Rightarrow> string) \<Rightarrow> ('v :: zero) radixCache \<Rightarrow> addr list \<Rightarrow> addr \<Rightarrow> addr list \<Rightarrow> string \<Rightarrow> forest \<Rightarrow> bool" where
  \<comment> \<open>the heap holds the forest below \<open>p\<close>, whose key is spelled by the nodes \<open>xs\<close> outside of it\<close>
  "sweepable K c as p xs pre F = (repr (rc_heap c) p F \<and> distinct (faddrs F) \<and> chain (rc_heap c) (rc_root c) p xs pre
     \<and> set xs \<inter> set (faddrs F) = {} \<and> rc_root c \<notin> set (faddrs F)
     \<and> (\<forall>(a, k)\<in>set (keyed pre F). a \<in> set as \<longrightarrow> K a = k)
     \<and> (\<forall>a\<in>set (faddrs F). rn_hasValue (rc_heap c a) = (a \<in> set as)))"

lemma sweepable_swept:
  assumes s: "sweepable K c as p xs pre F" and w: "swept K A gs (c, g, as) (c', g', as')" and d: "A \<inter> set (faddrs F) = {}" "A \<inter> set xs = {}"
    and gs: "set gs \<subseteq> A"
  shows "sweepable K c' as' p xs pre F"
proof -
  note d' = sweptD [OF w]
  have "repr (rc_heap c') p F = repr (rc_heap c) p F" by (rule repr_cong) (use d d'(2) in blast)
  moreover have "chain (rc_heap c') (rc_root c') p xs pre = chain (rc_heap c) (rc_root c) p xs pre"
    unfolding d'(5) by (rule chain_cong) (use d d'(2) in blast)
  moreover have "rn_hasValue (rc_heap c' a) = (a \<in> set as')" if "a \<in> set (faddrs F)" for a
    using s d(1) d'(3) [of a] that gs d'(8) by (auto simp: sweepable_def)
  moreover have "\<forall>(a, k)\<in>set (keyed pre F). a \<in> set as' \<longrightarrow> K a = k"
    using s d'(8) unfolding sweepable_def by auto
  ultimately show ?thesis using s unfolding sweepable_def d'(5) by blast
qed

lemma sweepLoop_spec:
  fixes c :: "('v :: zero) radixCache"
  assumes "sweepable K c as p xs pre F" "F \<noteq> Tip" "node \<notin> set (faddrs F)" "mid W 0 dd 0 0 (shadow K as c) as"
    "\<And>a. a \<in> set as \<Longrightarrow> W a = rn_size (rc_heap c a)" "qsim (rc_onEvictEntry c) q g"
  shows "\<exists>c' q' g' as'. sweepLoop node (fhead F) (c, q) = afterSweep node p (c', q')
    \<and> swept K (set (faddrs F)) (borne c (faddrs F)) (c, g, as) (c', g', as')
    \<and> mid W 0 (dd + int (length (borne c (faddrs F)))) 0 0 (shadow K as' c') as' \<and> qsim (rc_onEvictEntry c') q' g'"
  using assms
proof (induction F arbitrary: p xs pre c q g as dd)
  case (Branch a s ch sb)
  let ?h = "rc_heap c" and ?r = "rc_root c"
  note sw = Branch.prems(1)
  have l: "rn_prefix (?h a) = s" "rn_parent (?h a) = Some p" "rn_child (?h a) = fhead ch" "rn_sibling (?h a) = fhead sb"
    "repr ?h a ch" "repr ?h p sb" "chain ?h ?r p xs pre"
    using sw by (simp_all add: sweepable_def links_def)
  have ds: "a \<notin> set (faddrs ch)" "a \<notin> set (faddrs sb)" "distinct (faddrs ch)" "distinct (faddrs sb)" "set (faddrs ch) \<inter> set (faddrs sb) = {}"
    "a \<noteq> ?r" "?r \<notin> set (faddrs ch)" "?r \<notin> set (faddrs sb)" "a \<notin> set xs" "set xs \<inter> set (faddrs ch) = {}" "set xs \<inter> set (faddrs sb) = {}"
    using sw by (auto simp: sweepable_def)
  have "\<forall>(x, k)\<in>set (keyed pre (Branch a s ch sb)). x \<in> set as \<longrightarrow> K x = k" using sw by (simp add: sweepable_def)
  note kk = keyed_borne [OF this]
  have vv: "rn_hasValue (?h x) = (x \<in> set as)" if "x = a \<or> x \<in> set (faddrs ch) \<or> x \<in> set (faddrs sb)" for x
    using sw that by (auto simp: sweepable_def)
  have ca: "chain ?h ?r a (a # xs) (pre @ s)" using l ds by simp
  have sch: "sweepable K c as a (a # xs) (pre @ s) ch" using l ds ca kk(2) vv by (simp add: sweepable_def)
  have ssb: "sweepable K c as p xs pre sb" using l ds kk(3) vv by (simp add: sweepable_def)
  have va: "rn_hasValue (?h a) = (a \<in> set as)" using vv by simp
  have ka: "a \<in> set as \<Longrightarrow> K a = pre @ s" using kk(1) by blast
  obtain c1 q1 g1 as1 where v: "sweepVisit a (c, q) = Inr (c1, q1)" "swept K {a} (borne c [a]) (c, g, as) (c1, g1, as1)"
    "mid W 0 (dd + int (length (borne c [a]))) 0 0 (shadow K as1 c1) as1" "qsim (rc_onEvictEntry c1) q1 g1" "links (rc_heap c1 a) = links (?h a)"
    using sweepVisit_spec [OF ca Branch.prems(4,5,6) va ka] by blast
  have la: "rn_child (rc_heap c1 a) = fhead ch" "rn_sibling (rc_heap c1 a) = fhead sb" "rn_parent (rc_heap c1 a) = Some p"
    using v(5) l by (simp_all add: links_def)
  have b1: "borne c1 ys = borne c ys" if "a \<notin> set ys" for ys
    unfolding borne_def by (rule filter_cong [OF refl]) (metis that singletonD sweptD(3) [OF v(2)])
  have W1: "\<And>x. x \<in> set as1 \<Longrightarrow> W x = rn_size (rc_heap c1 x)" using swept_sizes [OF v(2)] Branch.prems(5) by simp
  obtain c2 q2 g2 as2 where s2: "sweepLoop node (Some a) (c, q) = afterSweep node a (c2, q2)"
    "swept K (insert a (set (faddrs ch))) (borne c (a # faddrs ch)) (c, g, as) (c2, g2, as2)"
    "mid W 0 (dd + int (length (borne c (a # faddrs ch)))) 0 0 (shadow K as2 c2) as2" "qsim (rc_onEvictEntry c2) q2 g2"
    "links (rc_heap c2 a) = links (?h a)"
  proof (cases ch)
    case Tip
    then show thesis using that [of c1 q1 g1 as1] v la sweepLoop_visit [OF v(1), of node] by simp
  next
    case ne: (Branch x t cc ss)
    have nt: "ch \<noteq> Tip" and nn: "node \<notin> set (faddrs ch)" using ne Branch.prems(3) by simp_all
    have "repr (rc_heap c1) a ch = repr ?h a ch" by (rule repr_cong) (metis ds(1) singletonD sweptD(2) [OF v(2)])
    moreover have "chain (rc_heap c1) (rc_root c1) a (a # xs) (pre @ s) = chain ?h ?r a (a # xs) (pre @ s)"
      unfolding sweptD(5) [OF v(2)] by (rule chain_cong) (metis singletonD sweptD(2) [OF v(2)] v(5))
    moreover have "rn_hasValue (rc_heap c1 y) = (y \<in> set as1)" if "y \<in> set (faddrs ch)" for y
    proof -
      have "y \<noteq> a" using that ds(1) by blast
      moreover have "y \<notin> set (borne c [a])" using calculation by (auto simp: borne_def)
      ultimately show ?thesis using sweptD(3) [OF v(2), of y] sweptD(8) [OF v(2)] that vv [of y] by simp
    qed
    moreover have "\<forall>(y, k)\<in>set (keyed (pre @ s) ch). y \<in> set as1 \<longrightarrow> K y = k"
      using kk(2) sweptD(8) [OF v(2)] by auto
    ultimately have "sweepable K c1 as1 a (a # xs) (pre @ s) ch"
      using sch unfolding sweepable_def sweptD(5) [OF v(2)] by blast
    then obtain c2 q2 g2 as2 where i: "sweepLoop node (fhead ch) (c1, q1) = afterSweep node a (c2, q2)"
      "swept K (set (faddrs ch)) (borne c1 (faddrs ch)) (c1, g1, as1) (c2, g2, as2)"
      "mid W 0 (dd + int (length (borne c [a])) + int (length (borne c1 (faddrs ch)))) 0 0 (shadow K as2 c2) as2" "qsim (rc_onEvictEntry c2) q2 g2"
      using Branch.IH(1) [OF _ nt nn v(3) W1 v(4)] by blast
    have "borne c (a # faddrs ch) = borne c [a] @ borne c (faddrs ch)" by simp
    moreover have "swept K ({a} \<union> set (faddrs ch)) (borne c [a] @ borne c (faddrs ch)) (c, g, as) (c2, g2, as2)"
      using swept_trans [OF v(2) i(2)] b1 [OF ds(1)] by simp
    moreover have "links (rc_heap c2 a) = links (?h a)" using sweptD(2) [OF i(2) ds(1)] v(5) by simp
    moreover have "sweepLoop node (Some a) (c, q) = afterSweep node a (c2, q2)"
      using sweepLoop_visit [OF v(1), of node] la(1) i(1) ne by simp
    ultimately show thesis using that [of c2 q2 g2 as2] i(3,4) b1 [OF ds(1)] by (simp add: add.assoc)
  qed
  have l2: "rn_sibling (rc_heap c2 a) = fhead sb" "rn_parent (rc_heap c2 a) = Some p" using s2(5) l by (simp_all add: links_def)
  have an: "a \<noteq> node" using Branch.prems(3) by auto
  note af = afterSweep_node [OF an l2, of q2]
  have s3: "swept K (insert a (set (faddrs ch))) (borne c (a # faddrs ch)) (c, g, as) (clearLinks a c2, g2, as2)"
    using swept_trans [OF s2(2) clearLinks_swept(1) [of K a]] unfolding append_Nil2 by (simp only: Un_insert_right Un_empty_right insert_absorb2)
  have m3: "mid W 0 (dd + int (length (borne c (a # faddrs ch)))) 0 0 (shadow K as2 (clearLinks a c2)) as2"
    "qsim (rc_onEvictEntry (clearLinks a c2)) q2 g2"
    using s2(3,4) clearLinks_swept(2,3) by metis+
  show ?case
  proof (cases sb)
    case Tip
    then have "sweepLoop node (fhead (Branch a s ch sb)) (c, q) = afterSweep node p (clearLinks a c2, q2)" using s2(1) af by simp
    moreover have "faddrs (Branch a s ch sb) = a # faddrs ch" using Tip by simp
    ultimately show ?thesis using s3 m3 by (metis list.simps(15))
  next
    case ne: (Branch x t cc ss)
    have nt: "sb \<noteq> Tip" and nn: "node \<notin> set (faddrs sb)" using ne Branch.prems(3) by simp_all
    have gsub: "set (borne c (a # faddrs ch)) \<subseteq> insert a (set (faddrs ch))" unfolding borne_def by auto
    have sb3: "sweepable K (clearLinks a c2) as2 p xs pre sb"
      by (rule sweepable_swept [OF ssb s3]) (use ds gsub in auto)
    have W3: "\<And>x. x \<in> set as2 \<Longrightarrow> W x = rn_size (rc_heap (clearLinks a c2) x)" using swept_sizes [OF s3] Branch.prems(5) by simp
    obtain c4 q4 g4 as4 where i: "sweepLoop node (fhead sb) (clearLinks a c2, q2) = afterSweep node p (c4, q4)"
      "swept K (set (faddrs sb)) (borne (clearLinks a c2) (faddrs sb)) (clearLinks a c2, g2, as2) (c4, g4, as4)"
      "mid W 0 (dd + int (length (borne c (a # faddrs ch))) + int (length (borne (clearLinks a c2) (faddrs sb)))) 0 0 (shadow K as4 c4) as4"
      "qsim (rc_onEvictEntry c4) q4 g4"
      using Branch.IH(2) [OF sb3 nt nn m3(1) W3 m3(2)] by blast
    have b3: "borne (clearLinks a c2) (faddrs sb) = borne c (faddrs sb)"
      unfolding borne_def by (rule filter_cong [OF refl]) (metis ds(2,5) disjoint_iff insertE sweptD(3) [OF s3])
    have eq: "borne c (faddrs (Branch a s ch sb)) = borne c (a # faddrs ch) @ borne c (faddrs sb)"
      "set (faddrs (Branch a s ch sb)) = insert a (set (faddrs ch)) \<union> set (faddrs sb)" by auto
    have "sweepLoop node (fhead (Branch a s ch sb)) (c, q) = afterSweep node p (c4, q4)" using s2(1) af i(1) ne by simp
    moreover have "swept K (set (faddrs (Branch a s ch sb))) (borne c (faddrs (Branch a s ch sb))) (c, g, as) (c4, g4, as4)"
      unfolding eq using swept_trans [OF s3 i(2)] unfolding b3 .
    moreover have "mid W 0 (dd + int (length (borne c (faddrs (Branch a s ch sb))))) 0 0 (shadow K as4 c4) as4"
      using i(3) unfolding eq b3 by (simp only: length_append of_nat_add add.assoc)
    ultimately show ?thesis using i(4) by blast
  qed
qed simp

lemma sweepAndUnlink_spec:
  fixes c :: "('v :: zero) radixCache"
  assumes s: "sweepable K c as a ys k ch" and a: "a \<notin> set (faddrs ch)" "rn_child (rc_heap c a) = fhead ch"
    and v: "rn_hasValue (rc_heap c a) = (a \<in> set as)" and k: "a \<in> set as \<Longrightarrow> K a = k"
    and m: "mid W 0 dd 0 0 (shadow K as c) as" and W: "\<And>a. a \<in> set as \<Longrightarrow> W a = rn_size (rc_heap c a)" and q: "qsim (rc_onEvictEntry c) q g"
  shows "\<exists>c' q' g' as'. radixCache_sweepAndUnlink a (c, q) = Inr (c', q')
    \<and> swept K (set (a # faddrs ch)) (borne c (a # faddrs ch)) (c, g, as) (c', g', as')
    \<and> mid W 0 (dd + int (length (borne c (a # faddrs ch)))) 0 0 (shadow K as' c') as' \<and> qsim (rc_onEvictEntry c') q' g'
    \<and> links (rc_heap c' a) = ([], None, None, None)"
proof -
  have ca: "chain (rc_heap c) (rc_root c) a ys k" using s by (simp add: sweepable_def)
  obtain c1 q1 g1 as1 where vi: "sweepVisit a (c, q) = Inr (c1, q1)" "swept K {a} (borne c [a]) (c, g, as) (c1, g1, as1)"
    "mid W 0 (dd + int (length (borne c [a]))) 0 0 (shadow K as1 c1) as1" "qsim (rc_onEvictEntry c1) q1 g1"
    "links (rc_heap c1 a) = links (rc_heap c a)"
    using sweepVisit_spec [OF ca m W q v k] by blast
  have lk: "links (rc_heap c1 x) = links (rc_heap c x)" for x using sweptD(2) [OF vi(2), of x] vi(5) by (cases "x = a") auto
  have hv: "rn_hasValue (rc_heap c1 y) = rn_hasValue (rc_heap c y)" if "y \<in> set (faddrs ch)" for y
    by (metis a(1) singletonD sweptD(3) [OF vi(2)] that)
  have b1: "borne c1 (faddrs ch) = borne c (faddrs ch)"
    unfolding borne_def by (rule filter_cong [OF refl]) (rule hv)
  have W1: "\<And>x. x \<in> set as1 \<Longrightarrow> W x = rn_size (rc_heap c1 x)" using swept_sizes [OF vi(2)] W by simp
  have child: "rn_child (rc_heap c1 a) = fhead ch" using lk [of a] a(2) by (simp add: links_def)
  obtain c2 q2 g2 as2 where s2: "sweepLoop a (Some a) (c, q) = afterSweep a a (c2, q2)"
    "swept K (set (a # faddrs ch)) (borne c (a # faddrs ch)) (c, g, as) (c2, g2, as2)"
    "mid W 0 (dd + int (length (borne c (a # faddrs ch)))) 0 0 (shadow K as2 c2) as2" "qsim (rc_onEvictEntry c2) q2 g2"
  proof (cases ch)
    case Tip
    then show thesis using that [of c1 q1 g1 as1] vi child sweepLoop_visit [OF vi(1), of a] by simp
  next
    case ne: (Branch x t cc ss)
    then have nt: "ch \<noteq> Tip" by simp
    have "repr (rc_heap c1) a ch = repr (rc_heap c) a ch" by (rule repr_cong) (rule lk)
    moreover have "chain (rc_heap c1) (rc_root c1) a ys k = chain (rc_heap c) (rc_root c) a ys k"
      unfolding sweptD(5) [OF vi(2)] by (rule chain_cong) (rule lk)
    moreover have "rn_hasValue (rc_heap c1 y) = (y \<in> set as1)" if "y \<in> set (faddrs ch)" for y
    proof -
      have "y \<notin> set (borne c [a])" using that a(1) by (auto simp: borne_def)
      then show ?thesis using hv [OF that] sweptD(8) [OF vi(2)] s that by (simp add: sweepable_def)
    qed
    moreover have "\<forall>(y, l)\<in>set (keyed k ch). y \<in> set as1 \<longrightarrow> K y = l"
      using s sweptD(8) [OF vi(2)] unfolding sweepable_def by auto
    ultimately have "sweepable K c1 as1 a ys k ch" using s unfolding sweepable_def sweptD(5) [OF vi(2)] by blast
    then obtain c2 q2 g2 as2 where i: "sweepLoop a (fhead ch) (c1, q1) = afterSweep a a (c2, q2)"
      "swept K (set (faddrs ch)) (borne c1 (faddrs ch)) (c1, g1, as1) (c2, g2, as2)"
      "mid W 0 (dd + int (length (borne c [a])) + int (length (borne c1 (faddrs ch)))) 0 0 (shadow K as2 c2) as2" "qsim (rc_onEvictEntry c2) q2 g2"
      using sweepLoop_spec [OF _ nt a(1) vi(3) W1 vi(4)] by blast
    have eq: "borne c (a # faddrs ch) = borne c [a] @ borne c (faddrs ch)" "set (a # faddrs ch) = {a} \<union> set (faddrs ch)" by simp_all
    have "sweepLoop a (Some a) (c, q) = afterSweep a a (c2, q2)"
      using sweepLoop_visit [OF vi(1), of a] child i(1) ne by simp
    moreover have "swept K (set (a # faddrs ch)) (borne c (a # faddrs ch)) (c, g, as) (c2, g2, as2)"
      unfolding eq using swept_trans [OF vi(2) i(2)] unfolding b1 .
    moreover have "mid W 0 (dd + int (length (borne c (a # faddrs ch)))) 0 0 (shadow K as2 c2) as2"
      using i(3) unfolding eq b1 by (simp only: length_append of_nat_add add.assoc)
    ultimately show thesis using that i(4) by blast
  qed
  have "swept K (set (a # faddrs ch)) (borne c (a # faddrs ch)) (c, g, as) (clearLinks a c2, g2, as2)"
    using swept_trans [OF s2(2) clearLinks_swept(1) [of K a]] unfolding append_Nil2 list.set by (simp only: Un_insert_right Un_empty_right insert_absorb2)
  moreover have "radixCache_sweepAndUnlink a (c, q) = Inr (clearLinks a c2, q2)"
    by (simp add: radixCache_sweepAndUnlink_def s2(1) afterSweep_stop)
  moreover have "links (rc_heap (clearLinks a c2) a) = ([], None, None, None)" by (simp add: clearLinks_def links_def)
  moreover have "mid W 0 (dd + int (length (borne c (a # faddrs ch)))) 0 0 (shadow K as2 (clearLinks a c2)) as2"
    "qsim (rc_onEvictEntry (clearLinks a c2)) q2 g2"
    using s2(3,4) clearLinks_swept(2,3) by metis+
  ultimately show ?thesis by blast
qed

end
