(* ===== verification/RadixPrefix.thy ===== *)
theory RadixPrefix
  imports RadixSweep MapPrefix
begin

text \<open>
  \<open>DeletePrefix\<close> on the radix backend: the walk down the tree finds the one subtree that holds the keys with
  the prefix, cuts it off, sweeps it and compresses the path above it; the empty prefix clears the tree.
\<close>

subsection \<open>Cutting off a subtree\<close>

definition detached :: "addr \<Rightarrow> addr \<Rightarrow> ('v :: zero) radixCache \<Rightarrow> 'v radixCache \<Rightarrow> bool" where
  \<comment> \<open>the node \<open>a\<close> was taken from the children of \<open>p\<close> and still points to it\<close>
  "detached p a c c2 = (\<exists>h1. removeChild p a (rc_heap c) = Inr h1 \<and> c2 = setNode a (\<lambda>x. x\<lparr>rn_parent := Some p\<rparr>) (c\<lparr>rc_heap := h1\<rparr>))"

lemma detach_spec:
  fixes c :: "('v :: zero) radixCache"
  assumes t: "tree_inv c (plug C (Branch a s ch sb))" and vk: "vkeys c (plug C (Branch a s ch sb)) = (\<lambda>a. (a, K a)) ` set as"
  obtains c2 xs where "detached (par (rc_root c) C) a c c2" "\<And>x. body (rc_heap c2 x) = body (rc_heap c x)"
    "c2 = c\<lparr>rc_heap := rc_heap c2\<rparr>" "tree (rc_heap c2) (rc_root c) (plug C sb)" "rn_child (rc_heap c2 a) = fhead ch"
    "rootlinks (rc_heap c2 (rc_root c)) = rootlinks (rc_heap c (rc_root c))"
    "\<And>x. x \<notin> insert (rc_root c) (set (faddrs (plug C (Branch a s ch sb)))) \<Longrightarrow> rc_heap c2 x = rc_heap c x"
    "sweepable K c2 as a xs (path C @ s) ch"
proof -
  let ?r = "rc_root c" and ?h = "rc_heap c" and ?F = "plug C (Branch a s ch sb)"
  let ?p = "par ?r C"
  note ti = tree_invD [OF t]
  have dd: "?r \<notin> set (caddrs C)" "?r \<noteq> a" "?r \<notin> set (faddrs ch)" "a \<notin> set (caddrs C)" "a \<notin> set (faddrs ch)" "a \<notin> set (faddrs sb)"
    "set (caddrs C) \<inter> set (faddrs ch) = {}" "distinct (faddrs ch)" "a \<in> set (faddrs ?F)" "set (faddrs ch) \<subseteq> set (faddrs ?F)"
    using ti(2) by (auto simp: plug_distinct plug_addrs_set)
  obtain h1 where h1: "removeChild ?p a ?h = Inr h1" "tree h1 ?r (plug C sb)" "links (h1 a) = (s, None, fhead ch, None)" "repr h1 a ch"
    "\<And>x. body (h1 x) = body (?h x)" "\<And>x. x \<notin> insert ?r (set (faddrs ?F)) \<Longrightarrow> h1 x = ?h x" "rootlinks (h1 ?r) = rootlinks (?h ?r)"
    using removeChild_spec [OF ti(1,2)] by blast
  define h2 where "h2 = h1(a := (h1 a)\<lparr>rn_parent := Some ?p\<rparr>)"
  define c2 where "c2 = c\<lparr>rc_heap := h2\<rparr>"
  have la: "links (h2 a) = (s, Some ?p, fhead ch, None)" using h1(3) by (simp add: h2_def links_def)
  have lx: "links (h2 x) = links (h1 x)" "h2 x = h1 x" if "x \<noteq> a" for x using that by (simp_all add: h2_def)
  have b2: "body (h2 x) = body (?h x)" for x using h1(5) [of x] h1(5) [of a] by (auto simp: h2_def body_def)
  have cr: "crepr h1 ?r C (fhead sb)" and rs: "repr h1 ?p sb" using h1(2) by (simp_all add: tree_plug)
  have "crepr h2 ?r C (fhead sb) = crepr h1 ?r C (fhead sb)" by (rule crepr_cong) (use dd(2,4) lx(1) in \<open>metis insertE\<close>)
  then have cr2: "crepr h2 ?r C (fhead sb)" using cr by simp
  have "repr h2 ?p sb = repr h1 ?p sb" by (rule repr_cong) (use dd lx in metis)
  then have tr: "tree h2 ?r (plug C sb)" using cr2 rs by (simp add: tree_plug)
  have rc: "repr h2 a ch" using repr_cong [of ch h2 h1 a] h1(4) dd lx by metis
  obtain xs where xs: "chain h2 ?r ?p xs (path C)" "set xs \<subseteq> set (caddrs C)" using chain_ctx [OF cr2 dd(1)] by blast
  have ca: "chain h2 ?r a (a # xs) (path C @ s)" using xs dd(2) la by (simp add: links_def)
  have mem: "x \<in> set as \<longleftrightarrow> x \<in> set (?r # faddrs ?F) \<and> rn_hasValue (?h x)" for x by (rule listed_iff [OF vk])
  have kk: "K x = k" if "(x, k) \<in> set (keyed (path C @ s) ch)" "x \<in> set as" for x k
  proof -
    have "(x, k) \<in> vkeys c ?F" using that mem by (auto simp: vkeys_def allkeyed_plug bearing_def)
    then show ?thesis unfolding vk by auto
  qed
  have hv: "rn_hasValue (h2 x) = rn_hasValue (?h x)" for x by (rule body_hasValue [OF b2])
  have "sweepable K c2 as a (a # xs) (path C @ s) ch"
    unfolding sweepable_def using rc dd ca xs(2) kk hv mem by (auto simp: c2_def)
  moreover have "detached ?p a c c2" using h1(1) by (auto simp: detached_def c2_def h2_def setNode_def)
  moreover have "rn_child (h2 a) = fhead ch" using la by (simp add: links_def)
  moreover have "h2 x = ?h x" if "x \<notin> insert ?r (set (faddrs ?F))" for x
  proof -
    have "x \<noteq> a" using that dd(9) by blast
    then show ?thesis using h1(6) [OF that] lx(2) by simp
  qed
  ultimately show thesis
    by (intro that [of c2 "a # xs"]) (use b2 tr h1(7) lx(2) dd(2) in \<open>simp_all add: c2_def\<close>)
qed

lemma fcompact_cut:
  assumes "fcompact V (plug C (Branch a s ch sb))" "V \<inter> set (faddrs (plug C sb)) \<subseteq> V'"
  shows "fcompact (insert (par r C) V') (plug C sb)"
proof -
  have "fcompact V sb" "ccompact V C (Suc (tops sb))" using assms(1) by (simp_all add: plug_compact)
  then have "fcompact (insert (par r C) V) (plug C sb)"
    using ccompact_par [of V C "tops sb" r] compact_mono [of V sb "insert (par r C) V"] by (auto simp: plug_compact)
  then show ?thesis by (rule compact_mono) (use assms(2) in auto)
qed

lemma cut_tree:
  fixes c :: "('v :: zero) radixCache"
  assumes t: "tree_inv c (plug C (Branch a s ch sb))" and vk: "vkeys c (plug C (Branch a s ch sb)) = (\<lambda>a. (a, K a)) ` set as"
    and b2: "\<And>x. body (rc_heap c2 x) = body (rc_heap c x)" and c2: "c2 = c\<lparr>rc_heap := rc_heap c2\<rparr>"
    and t2: "tree (rc_heap c2) (rc_root c) (plug C sb)" "rootlinks (rc_heap c2 (rc_root c)) = rootlinks (rc_heap c (rc_root c))"
    and o2: "\<And>x. x \<notin> insert (rc_root c) (set (faddrs (plug C (Branch a s ch sb)))) \<Longrightarrow> rc_heap c2 x = rc_heap c x"
    and sw: "swept K (set (a # faddrs ch)) (borne c2 (a # faddrs ch)) (c2, g, as) (c3, g', as')"
  shows "tree_inv c3 (plug C sb)" "vkeys c3 (plug C sb) = (\<lambda>a. (a, K a)) ` set as'"
    "bearing (rc_heap c) \<inter> set (faddrs (plug C sb)) \<subseteq> bearing (rc_heap c3)"
    "\<And>x. x \<in> set as \<Longrightarrow> x \<in> set as' \<longleftrightarrow> x \<notin> set (a # faddrs ch)"
proof -
  let ?r = "rc_root c" and ?h = "rc_heap c" and ?F = "plug C (Branch a s ch sb)" and ?G = "plug C sb" and ?A = "set (a # faddrs ch)"
  note ti = tree_invD [OF t] and tn = tree_inv_nodes [OF t] and d = sweptD [OF sw]
  have f2: "rc_root c2 = ?r" "rc_nextAddr c2 = rc_nextAddr c" "rc_recycleNodes c2 = rc_recycleNodes c"
    by (subst c2, simp)+
  have sub: "set (faddrs ?G) \<subseteq> set (faddrs ?F)" "?A \<inter> set (faddrs ?G) = {}" "?r \<notin> ?A" "distinct (?r # faddrs ?G)" "ordered ?G" "?A \<subseteq> set (faddrs ?F)"
    using ti(2,3) cordered_mono [of C "insert (hd s) (firsts sb)" "firsts sb"] by (auto simp: plug_distinct plug_addrs_set plug_ordered)
  have mem: "x \<in> set as \<longleftrightarrow> x \<in> set (?r # faddrs ?F) \<and> rn_hasValue (?h x)" for x by (rule listed_iff [OF vk])
  have out: "x \<notin> ?A" if "x \<in> set (?r # faddrs ?G)" for x using that sub(2,3) by auto
  have lk: "links (rc_heap c3 x) = links (rc_heap c2 x)" and hv: "rn_hasValue (rc_heap c3 x) = rn_hasValue (?h x)"
    if "x \<in> set (?r # faddrs ?G)" for x
    using d(2,3) [OF out [OF that]] body_hasValue [OF b2] by simp_all
  have as': "x \<in> set as' \<longleftrightarrow> x \<in> set as \<and> x \<notin> ?A" for x
    unfolding d(8) using mem [of x] body_hasValue [OF b2] by (auto simp: borne_def)
  have keep: "rc_heap c3 x = rc_heap c2 x" if "x \<notin> ?A" "x \<notin> set as" for x using d(4) [OF that] .
  have cr: "tree (rc_heap c3) ?r ?G = tree (rc_heap c2) ?r ?G"
  proof -
    have "repr (rc_heap c3) ?r ?G = repr (rc_heap c2) ?r ?G" by (rule repr_cong) (use lk in simp)
    moreover have "rn_child (rc_heap c3 ?r) = rn_child (rc_heap c2 ?r)" using lk [of ?r] by (simp add: links_def)
    ultimately show ?thesis by (simp add: tree_def)
  qed
  have "rootlinks (rc_heap c3 ?r) = rootlinks (rc_heap c2 ?r)" using lk [of ?r] by (simp add: links_def rootlinks_def)
  moreover have "x < rc_nextAddr c \<and> (\<not> rn_hasValue (rc_heap c3 x) \<longrightarrow> body (rc_heap c3 x) = zeroBody)" if "x \<in> set (?r # faddrs ?G)" for x
  proof (intro conjI impI)
    have xF: "x \<in> set (?r # faddrs ?F)" using that sub(1) by auto
    then show "x < rc_nextAddr c" by (rule tn(1))
    assume "\<not> rn_hasValue (rc_heap c3 x)"
    then have nv: "\<not> rn_hasValue (?h x)" using hv [OF that] by simp
    then have "x \<notin> set as" using mem by blast
    then show "body (rc_heap c3 x) = zeroBody" using keep [OF out [OF that]] b2 tn(2) [OF xF nv] by simp
  qed
  moreover have "set (rc_recycleNodes c) \<inter> set (?r # faddrs ?G) = {}" using tn(4) sub(1) by auto
  moreover have "x < rc_nextAddr c \<and> rc_heap c3 x = zeroNode" if "x \<in> set (rc_recycleNodes c)" for x
  proof -
    have "x \<notin> insert ?r (set (faddrs ?F))" using that tn(4) by auto
    moreover from this have "x \<notin> ?A" "x \<notin> set as" using sub(6) mem by auto
    ultimately show ?thesis using keep o2 tn(5) [OF that] by simp
  qed
  ultimately show "tree_inv c3 ?G"
    unfolding tree_inv_def Let_def d(5-7) f2 using cr t2 tn(3,6) sub(4,5) by simp
  have rt: "rc_root c3 = ?r" using d(5) f2 by simp
  have ak: "set (allkeyed ?r ?G) \<subseteq> set (allkeyed ?r ?F)" by (auto simp: allkeyed_plug)
  show "bearing ?h \<inter> set (faddrs ?G) \<subseteq> bearing (rc_heap c3)" using hv by (auto simp: bearing_def)
  show "\<And>x. x \<in> set as \<Longrightarrow> x \<in> set as' \<longleftrightarrow> x \<notin> ?A" using as' by blast
  have kf: "(x, K x) \<in> set (allkeyed ?r ?F)" if "x \<in> set as" for x
  proof -
    have "(x, K x) \<in> vkeys c ?F" unfolding vk using that by blast
    then show ?thesis by (simp add: vkeys_def)
  qed
  have G: "(x, k) \<in> set (allkeyed ?r ?G)" if "(x, k) \<in> set (allkeyed ?r ?F)" "x \<notin> ?A" for x k
  proof -
    have "(x, k) \<notin> set (keyed (path C @ s) ch)"
      using that(2) keyed_addrs [of "path C @ s" ch] by (metis fst_conv image_eqI list.set_intros(2) list.set_map)
    then show ?thesis using that by (auto simp: allkeyed_plug)
  qed
  show "vkeys c3 ?G = (\<lambda>a. (a, K a)) ` set as'" (is "?L = ?R")
  proof (rule set_eqI)
    fix y :: "addr \<times> string"
    obtain x k where y: "y = (x, k)" by (rule prod.exhaust)
    have "y \<in> ?L \<longleftrightarrow> (x, k) \<in> set (allkeyed ?r ?G) \<and> rn_hasValue (?h x)"
      using hv allkeyed_mem [of x k ?r ?G] by (auto simp: vkeys_def bearing_def rt y)
    also have "\<dots> \<longleftrightarrow> (x, k) \<in> set (allkeyed ?r ?F) \<and> x \<notin> ?A \<and> rn_hasValue (?h x)"
      using ak G out allkeyed_mem [of x k ?r ?G] by blast
    also have "\<dots> \<longleftrightarrow> (x, k) \<in> vkeys c ?F \<and> x \<notin> ?A" by (auto simp: vkeys_def bearing_def)
    also have "\<dots> \<longleftrightarrow> y \<in> ?R" unfolding vk using as' by (auto simp: y)
    finally show "y \<in> ?L \<longleftrightarrow> y \<in> ?R" .
  qed
qed

lemma cut_spec:
  fixes c :: "('v :: zero) radixCache"
  assumes t: "tree_inv c (plug C (Branch a s ch sb))" and cp: "fcompact (bearing (rc_heap c)) (plug C (Branch a s ch sb))"
    and vk: "vkeys c (plug C (Branch a s ch sb)) = (\<lambda>a. (a, K a)) ` set as" and m: "mid W 0 0 0 0 (shadow K as c) as"
    and W: "\<And>a. a \<in> set as \<Longrightarrow> W a = rn_size (rc_heap c a)" and q: "qsim (rc_onEvictEntry c) q g"
  obtains c2 c3 c4 q4 g4 as' gs where "detached (par (rc_root c) C) a c c2" "radixCache_sweepAndUnlink a (c2, q) = Inr (c3, q4)"
    "radixCache_compressPathUpwards (Some (par (rc_root c) C)) c3 = Inr c4" "rmid W 0 0 0 0 K c4 as'" "qsim (rc_onEvictEntry c4) q4 g4"
    "sheds (shadow K as c, g) as (map (\<lambda>a. (a, EvictionReasonDeleted)) gs) (shadow K as' c4, g4) as'"
    "\<forall>x\<in>set as. x \<in> set as' \<longleftrightarrow> x \<notin> set (a # faddrs ch)"
proof -
  let ?r = "rc_root c" and ?h = "rc_heap c" and ?F = "plug C (Branch a s ch sb)"
  let ?p = "par ?r C"
  obtain c2 xs where d: "detached ?p a c c2" "\<And>x. body (rc_heap c2 x) = body (?h x)" "c2 = c\<lparr>rc_heap := rc_heap c2\<rparr>"
    "tree (rc_heap c2) ?r (plug C sb)" "rn_child (rc_heap c2 a) = fhead ch" "rootlinks (rc_heap c2 ?r) = rootlinks (?h ?r)"
    "\<And>x. x \<notin> insert ?r (set (faddrs ?F)) \<Longrightarrow> rc_heap c2 x = ?h x" "sweepable K c2 as a xs (path C @ s) ch"
    by (rule detach_spec [OF t vk]) (use that in blast)
  have f2: "rc_ps c2 = rc_ps c" "rc_maxSize c2 = rc_maxSize c" "rc_currentSize c2 = rc_currentSize c" "rc_nextAddr c2 = rc_nextAddr c"
    "rc_ends c2 = rc_ends c" "rc_weigher c2 = rc_weigher c" "rc_onEvictValue c2 = rc_onEvictValue c" "rc_onEvictEntry c2 = rc_onEvictEntry c"
    by (subst d(3), simp)+
  have sh2: "shadow K as c2 = shadow K as c" using entryOf_cong [of "rc_heap c2" ?h K] d(2) by (simp add: shadow_def f2)
  have mem: "x \<in> set as \<longleftrightarrow> x \<in> set (?r # faddrs ?F) \<and> rn_hasValue (?h x)" for x by (rule listed_iff [OF vk])
  have aF: "a \<in> set (faddrs ?F)" "a \<notin> set (faddrs ch)" using tree_invD(2) [OF t] by (auto simp: plug_distinct plug_addrs_set)
  have va: "rn_hasValue (rc_heap c2 a) = (a \<in> set as)" using mem [of a] aF body_hasValue [OF d(2)] by auto
  have "(a, path C @ s) \<in> vkeys c ?F" if "a \<in> set as" using that mem [of a] by (auto simp: vkeys_def allkeyed_plug bearing_def)
  then have ka: "a \<in> set as \<Longrightarrow> K a = path C @ s" unfolding vk by auto
  have m2: "mid W 0 0 0 0 (shadow K as c2) as" using m sh2 by simp
  have W2: "W x = rn_size (rc_heap c2 x)" if "x \<in> set as" for x using W [OF that] d(2) [of x] by (simp add: body_def)
  have q2: "qsim (rc_onEvictEntry c2) q g" using q f2 by simp
  obtain c3 q4 g4 as' where sw: "radixCache_sweepAndUnlink a (c2, q) = Inr (c3, q4)"
    "swept K (set (a # faddrs ch)) (borne c2 (a # faddrs ch)) (c2, g, as) (c3, g4, as')"
    "mid W 0 (0 + int (length (borne c2 (a # faddrs ch)))) 0 0 (shadow K as' c3) as'" "qsim (rc_onEvictEntry c3) q4 g4"
    using sweepAndUnlink_spec [OF d(8) aF(2) d(5) va ka m2 W2 q2] by blast
  note ct = cut_tree [OF t vk d(2,3,4,6,7) sw(2)]
  have pm: "?p \<in> set (rc_root c3 # faddrs (plug C sb))"
  proof -
    have "rc_root c3 = ?r" using sweptD(5) [OF sw(2)] by (simp, subst d(3), simp)
    then show ?thesis using par_mem [of ?r C] by (auto simp: plug_addrs_set)
  qed
  obtain c4 F' where c4: "compressLoop (Some ?p) c3 = Some (Inr c4)" "tree_inv c4 F'" "fcompact (bearing (rc_heap c3)) F'"
    "vkeys c4 F' = vkeys c3 (plug C sb)" "same_bodies c3 c4"
    using compressLoop_spec [OF ct(1) pm fcompact_cut [OF cp ct(3)]] by blast
  note f4 = same_bodies_fields [OF c4(5)]
  have sh4: "shadow K as' c4 = shadow K as' c3"
    using f4 entryOf_cong [of "rc_heap c4" "rc_heap c3" K] c4(5) by (simp add: shadow_def same_bodies_def)
  have "bound K c4 as'"
    unfolding bound_def using c4(2-4) ct(2) same_bodies_bearing [OF c4(5)] by auto
  then have "rmid W 0 (0 + int (length (borne c2 (a # faddrs ch)))) 0 0 K c4 as'" using sw(3) sh4 by (simp add: rmid_def)
  then have "rmid W 0 0 0 0 K c4 as'" by (rule rmid_weaken) simp_all
  moreover have "sheds (shadow K as c, g) as (map (\<lambda>a. (a, EvictionReasonDeleted)) (borne c2 (a # faddrs ch))) (shadow K as' c4, g4) as'"
    using sweptD(1) [OF sw(2)] unfolding sh2 sh4 .
  ultimately show thesis
    using that [OF d(1) sw(1)] ct(4) c4(1) sw(4) f4 by (simp add: radixCache_compressPathUpwards_def)
qed

subsection \<open>The walk to the subtree\<close>

lemma keyed_fsub:
  assumes "ordered H" "(x, k) \<in> set (keyed pre H)" "k = pre @ b # t"
  shows "\<exists>a s ch. fsub b H = Some (a, s, ch) \<and> (x, k) \<in> set ((a, pre @ s) # keyed (pre @ s) ch)"
  using assms
proof (induction H)
  case (Branch a s ch sb)
  then obtain c u where s: "s = c # u" by (cases s) auto
  consider "(x, k) \<in> set ((a, pre @ s) # keyed (pre @ s) ch)" | "(x, k) \<in> set (keyed pre sb)" using Branch.prems(2) by auto
  then show ?case
  proof cases
    case 1
    then obtain v where "k = (pre @ s) @ v" using keyed_prefix [of x k "pre @ s" ch] by (metis append_Nil2 list.set_cases prod.inject set_ConsD)
    then have "hd s = b" using Branch.prems(3) s by simp
    then show ?thesis using 1 by simp
  next
    case 2
    then have "hd s \<noteq> b" using keyed_first [OF 2] Branch.prems by auto
    then show ?thesis using Branch.IH(2) [OF _ 2 Branch.prems(3)] Branch.prems(1) by simp
  qed
qed simp

definition pruned :: "string \<Rightarrow> float64 \<Rightarrow> ('v :: zero) radixCache \<Rightarrow> 'v evictCallbackQueue \<Rightarrow> 'v radixState \<Rightarrow> bool" where
  \<comment> \<open>the keys with the prefix are gone and reported, and the pressure was looked at\<close>
  "pruned pre x c g st = (case st of (c', q') \<Rightarrow> radix_inv c' \<and> rcfg c' = rcfg c \<and> (\<exists>g' gd gp.
     mset gd = mset (filter (\<lambda>y. hasPrefix pre (entry_key y)) (rlru c))
     \<and> reclaimed (rhot x c) (filter (\<lambda>y. \<not> hasPrefix pre (entry_key y)) (rlru c)) gp (rlru c')
     \<and> qsim (rc_onEvictEntry c') q' g' \<and> queue_events g' = queue_events g @ (if radixHasCB c then
        map (event_of EvictionReasonDeleted) gd @ map (event_of EvictionReasonPressure) gp else [])))"

lemma pruned_nothing:
  assumes m: "rmid W 0 0 0 0 K c as" and W: "\<And>a. a \<in> set as \<Longrightarrow> W a = rn_size (rc_heap c a)" and q: "qsim (rc_onEvictEntry c) q g"
    and no: "\<And>a. a \<in> set as \<Longrightarrow> \<not> hasPrefix pre (K a)"
  shows "pruned pre x c g (c, q)"
proof -
  have "radix_inv c" by (rule radix_invI [OF m W]) simp_all
  moreover have "filter (\<lambda>y. hasPrefix pre (entry_key y)) (rlru c) = []" "filter (\<lambda>y. \<not> hasPrefix pre (entry_key y)) (rlru c) = rlru c"
    using no by (auto simp: rlru_rmid [OF m] ents_def payload_def filter_empty_conv filter_id_conv)
  ultimately show ?thesis
    using q unfolding pruned_def prod.case by (intro conjI exI [of _ g] exI [of _ "[]"]) (simp_all add: reclaimed_def)
qed

lemma pruned_cut:
  fixes c :: "('v :: zero) radixCache"
  assumes t: "tree_inv c (plug C (Branch a s ch sb))" and cp: "fcompact (bearing (rc_heap c)) (plug C (Branch a s ch sb))"
    and vk: "vkeys c (plug C (Branch a s ch sb)) = (\<lambda>a. (a, K a)) ` set as" and m: "rmid W 0 0 0 0 K c as"
    and W: "\<And>a. a \<in> set as \<Longrightarrow> W a = rn_size (rc_heap c a)" and q: "qsim (rc_onEvictEntry c) q g"
    and sel: "\<And>b. b \<in> set as \<Longrightarrow> b \<in> set (a # faddrs ch) \<longleftrightarrow> hasPrefix pre (K b)"
  shows "\<exists>st'. (let sizeBefore = rc_currentSize c in
      bindr (onHeap (removeChild (par (rc_root c) C) a) c) (\<lambda>c1.
      let c2 = setNode a (\<lambda>x. x\<lparr>rn_parent := Some (par (rc_root c) C)\<rparr>) c1 in
      bindr (radixCache_sweepAndUnlink a (c2, q)) (\<lambda>(c3, q3).
      bindr (radixCache_compressPathUpwards (Some (par (rc_root c) C)) c3) (\<lambda>c4.
      radixCache_finishDeleteReclaimLocked sizeBefore se x (c4, q3))))) = Inr st' \<and> pruned pre x c g st'"
proof -
  note d = rmidD [OF m]
  obtain c2 c3 c4 q4 g4 as' gs where cu: "detached (par (rc_root c) C) a c c2" "radixCache_sweepAndUnlink a (c2, q) = Inr (c3, q4)"
    "radixCache_compressPathUpwards (Some (par (rc_root c) C)) c3 = Inr c4" "rmid W 0 0 0 0 K c4 as'" "qsim (rc_onEvictEntry c4) q4 g4"
    "sheds (shadow K as c, g) as (map (\<lambda>a. (a, EvictionReasonDeleted)) gs) (shadow K as' c4, g4) as'"
    "\<forall>x\<in>set as. x \<in> set as' \<longleftrightarrow> x \<notin> set (a # faddrs ch)"
    by (rule cut_spec [OF t cp vk d(2) W q]) (use that in blast)
  note gn = sheds_gone [OF cu(6)]
  have mem: "b \<in> set gs \<longleftrightarrow> b \<in> set as \<and> hasPrefix pre (K b)" for b
    using gn(1,3) cu(7) sel [of b] by auto
  have as': "as' = filter (\<lambda>b. \<not> hasPrefix pre (K b)) as" unfolding gn(3) by (rule filter_cong [OF refl]) (use mem in blast)
  have "mset gs = mset (filter (\<lambda>b. hasPrefix pre (K b)) as)"
    using gn(2) d(7) mem by (intro set_eq_iff_mset_eq_distinct [THEN iffD1]) auto
  then have gd: "mset (ents (entryOf K (rc_heap c)) gs) = mset (filter (\<lambda>y. hasPrefix pre (entry_key y)) (rlru c))"
    unfolding rlru_rmid [OF m] ents_def filter_map comp_def by (simp add: payload_def)
  have "ents (entryOf K (rc_heap c4)) as' = ents (entryOf K (rc_heap c)) as'" by (rule ents_cong) (use sheds_sizes [OF cu(6)] in simp)
  then have rest: "rlru c4 = filter (\<lambda>y. \<not> hasPrefix pre (entry_key y)) (rlru c)"
    unfolding rlru_rmid [OF m] rlru_rmid [OF cu(4)] as' by (simp add: ents_def filter_map comp_def payload_def)
  have W4: "W b = rn_size (rc_heap c4 b)" if "b \<in> set as'" for b using sheds_sizes [OF cu(6) that] W by simp
  have cfg: "rcfg c4 = rcfg c" using cu(6) by (simp add: sheds_def)
  have g4: "queue_events g4 = queue_events g @ (if radixHasCB c then map (event_of EvictionReasonDeleted) (ents (entryOf K (rc_heap c)) gs) else [])"
    using sheds_events [OF cu(6)] q by (simp add: qsim_def)
  obtain c5 q5 g5 gp where tl: "radixCache_finishDeleteReclaimLocked (rc_currentSize c) se x (c4, q4) = Inr (c5, q5)"
    "radix_inv c5" "rcfg c5 = rcfg c4" "reclaimed (rhot x c4) (rlru c4) gp (rlru c5)" "qsim (rc_onEvictEntry c5) q5 g5"
    "queue_events g5 = queue_events g4 @ (if radixHasCB c4 then map (event_of EvictionReasonPressure) gp else [])"
    using rdelete_tail [OF cu(4) W4 cu(5), where sb = "rc_currentSize c" and se = se and x = x] by blast
  have cb: "radixHasCB c4 = radixHasCB c" "rhot x c4 = rhot x c" using rcfg_simps [OF cfg] by auto
  have "pruned pre x c g (c5, q5)"
    unfolding pruned_def prod.case
    by (intro conjI exI [of _ g5] exI [of _ "ents (entryOf K (rc_heap c)) gs"] exI [of _ gp])
      (use tl g4 cb gd rest cfg in \<open>simp_all del: ents_event\<close>)
  then show ?thesis using cu(1-3) tl(1) by (auto simp: detached_def onHeap_def Let_def)
qed

lemma hasPrefix_step: "hasPrefix (p @ b # r) k \<Longrightarrow> k = p @ b # drop (length p + 1) k"
proof -
  assume "hasPrefix (p @ b # r) k"
  then obtain t where "k = (p @ b # r) @ t" by (metis append_take_drop_id)
  then show ?thesis by simp
qed

lemma deletePrefixLoop_spec:
  fixes c :: "('v :: zero) radixCache"
  assumes m: "rmid W 0 0 0 0 K c as" and W: "\<And>a. a \<in> set as \<Longrightarrow> W a = rn_size (rc_heap c a)" and q: "qsim (rc_onEvictEntry c) q g"
    and F: "tree_inv c F" "fcompact (bearing (rc_heap c)) F" "vkeys c F = (\<lambda>a. (a, K a)) ` set as"
    and C: "F = plug C H" "hole (rc_root c) C = ChildSlot (par (rc_root c) C)" "search \<noteq> []"
    and sel: "\<And>b k. (b, k) \<in> set (allkeyed (rc_root c) F) \<Longrightarrow> hasPrefix (path C @ search) k \<Longrightarrow> (b, k) \<in> set (keyed (path C) H)"
  shows "\<exists>st'. deletePrefixLoop se x (par (rc_root c) C) search (c, q) = Some (Inr st') \<and> pruned (path C @ search) x c g st'"
  using C sel
proof (induction "length search" arbitrary: search C H rule: less_induct)
  case less
  let ?r = "rc_root c" and ?h = "rc_heap c" and ?pre = "path C @ search"
  let ?p = "par ?r C"
  note t = tree_invD [OF F(1)]
  have H: "rn_child (?h ?p) = fhead H" "repr ?h ?p H" "ordered H"
    using t(1,3) less.prems(2) crepr_slotGet [of ?h ?r C "fhead H"] unfolding less.prems(1) by (auto simp: tree_plug plug_ordered)
  obtain b rest where sr: "search = b # rest" using less.prems(3) by (cases search) auto
  note gc = getChild_spec [OF H, of b]
  have lst: "(y, K y) \<in> set (allkeyed ?r F)" if "y \<in> set as" for y
  proof -
    have "(y, K y) \<in> vkeys c F" unfolding F(3) using that by blast
    then show ?thesis by (simp add: vkeys_def)
  qed
  have down: "\<exists>a s ch. fsub b H = Some (a, s, ch) \<and> (y, k) \<in> set ((a, path C @ s) # keyed (path C @ s) ch)"
    if "(y, k) \<in> set (allkeyed ?r F)" "hasPrefix ?pre k" for y k
  proof -
    have "k = path C @ b # drop (length (path C) + 1) k"
      by (rule hasPrefix_step [OF that(2) [unfolded sr]])
    then show ?thesis by (rule keyed_fsub [OF H(3) less.prems(4) [OF that]])
  qed
  show ?case
  proof (cases "fsub b H")
    case None
    have "deletePrefixLoop se x ?p search (c, q) = Some (Inr (c, q))"
      using None gc sr by (subst deletePrefixLoop.simps) simp
    moreover have "pruned ?pre x c g (c, q)" 
    proof (rule pruned_nothing [OF m W q])
      show "\<not> hasPrefix ?pre (K y)" if "y \<in> set as" for y using down [OF lst [OF that]] None by auto
    qed
    ultimately show ?thesis by blast
  next
    case (Some u)
    obtain a s ch where u: "u = (a, s, ch)" by (metis prod_cases3)
    note fs = Some [unfolded u]
    note sub = fsub_Some [OF fs H(2,3)]
    obtain C' sb where C': "F = plug C' (Branch a s ch sb)" "par ?r C' = ?p" "path C' = path C"
      using fsub_plug [OF fs, of C ?r] less.prems(1) by blast
    have dn: "(y, k) \<in> set ((a, path C @ s) # keyed (path C @ s) ch)" if "(y, k) \<in> set (allkeyed ?r F)" "hasPrefix ?pre k" for y k
      using down [OF that] fs by simp
    have ext: "\<exists>v. k = path C @ s @ v" if "(y, k) \<in> set ((a, path C @ s) # keyed (path C @ s) ch)" for y k
      using that keyed_prefix [of y k "path C @ s" ch] by auto
    define l where "l = longestCommonPrefix search s"
    note lf = lcp_facts [of search s, folded l_def]
    have ll: "longestCommonPrefix (b # rest) s = l" by (simp add: l_def sr)
    have l0: "0 < l" using lf(5) sub(6,7) sr by simp
    consider (cut) "l = length search" | (deeper) "l \<noteq> length search" "l = length s" | (off) "l \<noteq> length search" "l \<noteq> length s" by blast
    then show ?thesis
    proof cases
      case cut
      have sk: "take (length search) s = search" using lf(1) cut by simp
      then have hp: "hasPrefix ?pre k" if "(y, k) \<in> set ((a, path C @ s) # keyed (path C @ s) ch)" for y k
        using ext [OF that] lf(3) cut by auto
      have sel: "y \<in> set (a # faddrs ch) \<longleftrightarrow> hasPrefix ?pre (K y)" if y: "y \<in> set as" for y
      proof
        assume "hasPrefix ?pre (K y)"
        then have "(y, K y) \<in> set ((a, path C @ s) # keyed (path C @ s) ch)" using dn lst [OF y] by blast
        then show "y \<in> set (a # faddrs ch)"
          using keyed_addrs [of "path C @ s" ch] by auto (metis fst_conv image_eqI list.set_map)
      next
        assume "y \<in> set (a # faddrs ch)"
        then have "y \<in> fst ` set ((a, path C @ s) # keyed (path C @ s) ch)"
          using keyed_addrs [of "path C @ s" ch] by (metis list.set_map list.simps(9) fst_conv)
        then obtain k where k: "(y, k) \<in> set ((a, path C @ s) # keyed (path C @ s) ch)" by force
        then have "(y, k) \<in> set (allkeyed ?r F)" unfolding C'(1) allkeyed_plug by (auto simp: C'(3))
        then have "(y, k) \<in> vkeys c F" using listed_iff [OF F(3)] y by (simp add: vkeys_def bearing_def)
        then have "K y = k" unfolding F(3) by auto
        then show "hasPrefix ?pre (K y)" using hp [OF k] by simp
      qed
      obtain st' where st': "(let sizeBefore = rc_currentSize c in
        bindr (onHeap (removeChild (par ?r C') a) c) (\<lambda>c1.
        let c2 = setNode a (\<lambda>x. x\<lparr>rn_parent := Some (par ?r C')\<rparr>) c1 in
        bindr (radixCache_sweepAndUnlink a (c2, q)) (\<lambda>(c3, q3).
        bindr (radixCache_compressPathUpwards (Some (par ?r C')) c3) (\<lambda>c4.
        radixCache_finishDeleteReclaimLocked sizeBefore se x (c4, q3))))) = Inr st'" "pruned ?pre x c g st'"
        using pruned_cut [OF F(1,2,3) [unfolded C'(1)] m W q sel] by blast
      have "deletePrefixLoop se x ?p search (c, q) = Some (Inr st')"
        using sr fs gc sub(1) cut by (subst deletePrefixLoop.simps) (simp add: ll st'(1) [unfolded C'(2), symmetric])
      then show ?thesis using st'(2) by blast
    next
      case deeper
      then have eq: "s @ drop l search = search" using lf(1) append_take_drop_id [of l search] by simp
      let ?C = "InChild a s sb C'"
      have pe: "path ?C @ drop l search = ?pre" using eq C'(3) by simp
      have ll2: "l < length search" using deeper(1) lf(2) by simp
      have "\<exists>st'. deletePrefixLoop se x (par ?r ?C) (drop l search) (c, q) = Some (Inr st') \<and> pruned (path ?C @ drop l search) x c g st'"
      proof (rule less.hyps)
        fix y k assume y: "(y, k) \<in> set (allkeyed ?r F)" "hasPrefix (path ?C @ drop l search) k"
        have "length (path C @ s) < length ?pre" using deeper(2) ll2 by simp
        then have "k \<noteq> path C @ s" using y(2) unfolding pe by auto
        then show "(y, k) \<in> set (keyed (path ?C) ch)" using dn [OF y(1) y(2) [unfolded pe]] C'(3) by simp
      qed (use C' l0 ll2 in auto)
      moreover have "deletePrefixLoop se x ?p search (c, q) = deletePrefixLoop se x a (drop l search) (c, q)"
        using sr fs gc sub(1) deeper by (subst deletePrefixLoop.simps) (simp add: ll)
      ultimately show ?thesis using pe by simp
    next
      case off
      have "\<not> hasPrefix ?pre (K y)" if y: "y \<in> set as" for y
      proof
        assume hp: "hasPrefix ?pre (K y)"
        then obtain v where "K y = path C @ s @ v" using ext [OF dn [OF lst [OF y]]] by blast
        then have "take (length search) (s @ v) = search" using hp by simp
        then obtain w where "s @ v = search @ w" by (metis append_take_drop_id)
        then have "drop l s @ v = drop l search @ w" using lf(2,3) by (metis drop_append diff_is_0_eq drop_0 append_self_conv)
        moreover have "l < length search" "l < length s" using lf(2,3) off by simp_all
        ultimately have "hd (drop l s) = hd (drop l search)" by (metis drop_eq_Nil hd_append2 leD)
        then show False using lf(4) \<open>l < length search\<close> \<open>l < length s\<close> by simp
      qed
      from pruned_nothing [OF m W q this] have "pruned ?pre x c g (c, q)" .
      moreover have "deletePrefixLoop se x ?p search (c, q) = Some (Inr (c, q))"
        using sr fs gc sub(1) off by (subst deletePrefixLoop.simps) (simp add: ll)
      ultimately show ?thesis by blast
    qed
  qed
qed

subsection \<open>Clearing everything\<close>

definition cleared :: "(addr \<Rightarrow> string) \<Rightarrow> ('v :: zero) radixCache \<Rightarrow> 'v evictCallbackQueue \<Rightarrow> addr list \<Rightarrow> 'v radixState \<Rightarrow> bool" where
  \<comment> \<open>every entry is gone and reported; the nodes are still linked into the tree\<close>
  "cleared K c g as st = (case st of (c', q') \<Rightarrow>
     (\<forall>x. links (rc_heap c' x) = links (rc_heap c x)) \<and> (\<forall>x. x \<notin> set as \<longrightarrow> rc_heap c' x = rc_heap c x)
     \<and> (\<forall>x\<in>set as. body (rc_heap c' x) = zeroBody)
     \<and> rc_root c' = rc_root c \<and> rc_nextAddr c' = rc_nextAddr c \<and> rc_recycleNodes c' = rc_recycleNodes c \<and> rcfg c' = rcfg c
     \<and> ps_ok (resetWatermarks (rc_ps c')) 0 0 (int (length as)) 0 0
     \<and> (\<exists>g'. qsim (rc_onEvictEntry c') q' g' \<and> queue_events g' = queue_events g @
         (if radixHasCB c then map (event_of EvictionReasonDeleted) (ents (entryOf K (rc_heap c)) as) else [])))"

lemma reset_deleted [simp]: "resetWatermarks (onEntryDeleted z p) = resetWatermarks p"
  by (cases p) (simp add: resetWatermarks_def onEntryDeleted_def Let_def)

lemma clearQuietLoop_spec:
  fixes c :: "('v :: zero) radixCache"
  assumes "lseg (entryOf K (rc_heap c)) p as None" "distinct as"
  shows "\<exists>h ps. clearQuietLoop (first as None) c = Some (c\<lparr>rc_heap := h, rc_ps := ps\<rparr>)
    \<and> resetWatermarks ps = resetWatermarks (rc_ps c) \<and> options ps = options (rc_ps c)
    \<and> (\<forall>x. links (h x) = links (rc_heap c x)) \<and> (\<forall>x. x \<notin> set as \<longrightarrow> h x = rc_heap c x) \<and> (\<forall>x\<in>set as. body (h x) = zeroBody)"
  using assms
proof (induction as arbitrary: p c)
  case Nil
  then show ?case by (subst clearQuietLoop.simps) (rule exI [of _ "rc_heap c"], rule exI [of _ "rc_ps c"], simp)
next
  case (Cons a as)
  let ?z = "rn_size (rc_heap c a)"
  define c1 where "c1 = setNode a (\<lambda>x. x\<lparr>rn_size := 0, rn_value := 0, rn_hasValue := False, rn_prev := None, rn_next := None\<rparr>) (onRps (onEntryDeleted ?z) c)"
  have nx: "rn_next (rc_heap c a) = first as None" and ls: "lseg (entryOf K (rc_heap c)) (Some a) as None" and a: "a \<notin> set as" "distinct as"
    using Cons.prems by simp_all
  have h1: "rc_heap c1 x = rc_heap c x" if "x \<noteq> a" for x using that by (simp add: c1_def setNode_def)
  have la: "links (rc_heap c1 x) = links (rc_heap c x)" "body (rc_heap c1 a) = zeroBody" for x
    by (simp_all add: c1_def setNode_def links_def body_def zeroBody_def)
  have "lseg (entryOf K (rc_heap c1)) (Some a) as None = lseg (entryOf K (rc_heap c)) (Some a) as None"
  proof (rule lseg_cong)
    fix x assume "x \<in> set as"
    then have "x \<noteq> a" using a(1) by blast
    then show "prev (entryOf K (rc_heap c1) x) = prev (entryOf K (rc_heap c) x) \<and> next (entryOf K (rc_heap c1) x) = next (entryOf K (rc_heap c) x)"
      by (simp add: h1)
  qed
  then obtain h ps where ih: "clearQuietLoop (first as None) c1 = Some (c1\<lparr>rc_heap := h, rc_ps := ps\<rparr>)"
    "resetWatermarks ps = resetWatermarks (rc_ps c1)" "options ps = options (rc_ps c1)" "\<forall>x. links (h x) = links (rc_heap c1 x)"
    "\<forall>x. x \<notin> set as \<longrightarrow> h x = rc_heap c1 x" "\<forall>x\<in>set as. body (h x) = zeroBody"
    using Cons.IH [of c1 "Some a"] ls a(2) by blast
  have "clearQuietLoop (first (a # as) None) c = Some (c\<lparr>rc_heap := h, rc_ps := ps\<rparr>)"
    using ih(1) by (subst clearQuietLoop.simps) (simp add: nx c1_def [symmetric], simp add: c1_def setNode_def onRps_def)
  moreover have "resetWatermarks ps = resetWatermarks (rc_ps c)" "options ps = options (rc_ps c)"
    using ih(2,3) by (simp_all add: c1_def setNode_def) (simp add: onEntryDeleted_def Let_def)
  moreover have "\<forall>x. links (h x) = links (rc_heap c x)" using ih(4) la(1) by simp
  moreover have "\<forall>x. x \<notin> set (a # as) \<longrightarrow> h x = rc_heap c x" using ih(5) h1 by simp
  moreover have "\<forall>x\<in>set (a # as). body (h x) = zeroBody" using ih(5,6) la(2) a(1) by simp
  ultimately show ?case by blast
qed

lemma clearNotifyLoop_spec:
  fixes c :: "('v :: zero) radixCache"
  assumes "mid W 0 dd 0 0 (shadow K as c) as" "\<And>a. a \<in> set as \<Longrightarrow> W a = rn_size (rc_heap c a)" "qsim (rc_onEvictEntry c) q g"
    "\<And>a. a \<in> set as \<Longrightarrow> \<exists>xs. chain (rc_heap c) (rc_root c) a xs (K a)"
  shows "\<exists>c' q' g'. clearNotifyLoop (first as None) (c, q) = Some (Inr (c', q'))
    \<and> mid W 0 (dd + int (length as)) 0 0 (shadow K [] c') []
    \<and> sheds (shadow K as c, g) as (map (\<lambda>a. (a, EvictionReasonDeleted)) as) (shadow K [] c', g') [] \<and> qsim (rc_onEvictEntry c') q' g'
    \<and> (\<forall>x. links (rc_heap c' x) = links (rc_heap c x)) \<and> (\<forall>x. x \<notin> set as \<longrightarrow> rc_heap c' x = rc_heap c x)
    \<and> (\<forall>x\<in>set as. body (rc_heap c' x) = zeroBody)
    \<and> rc_root c' = rc_root c \<and> rc_nextAddr c' = rc_nextAddr c \<and> rc_recycleNodes c' = rc_recycleNodes c"
  using assms
proof (induction as arbitrary: c q g dd)
  case Nil
  show ?case
    by (rule exI [of _ c], rule exI [of _ q], rule exI [of _ g], subst clearNotifyLoop.simps) (use Nil in \<open>simp add: sheds_refl\<close>)
next
  case (Cons a as)
  let ?key = "if rc_onEvictEntry c \<noteq> None then K a else []" and ?h = "rc_heap c"
  note m = Cons.prems(1)
  have dist: "distinct (a # as)" by (rule mid_distinct [OF m])
  have nx: "rn_next (?h a) = first as None" using m by (simp add: mid_def map_repr_def dll_def)
  obtain xs where "chain ?h (rc_root c) a xs (K a)" using Cons.prems(4) [of a] by auto
  from chain_key [OF this] have key: "(if rc_onEvictEntry c \<noteq> None then radixCache_reconstructKey c (Some a) else Inr []) = Inr ?key"
    by (simp add: radixCache_reconstructKey_def)
  obtain c1 q1 where st: "radixCache_notifyEvict ?key (rn_value (?h a)) (rn_size (?h a)) EvictionReasonDeleted (dropNode a c, q) = (c1, q1)"
    by (rule prod.exhaust)
  have kk: "?key = K a \<or> rc_onEvictEntry c = None" and am: "a \<in> set (a # as)" by auto
  have re: "remove1 a (a # as) = as" by simp
  obtain g1 where d: "mid W 0 (dd + 1) 0 0 (shadow K as c1) as"
    "sheds (shadow K (a # as) c, g) (a # as) [(a, EvictionReasonDeleted)] (shadow K as c1, g1) as"
    "qsim (rc_onEvictEntry c1) q1 g1" "\<And>x. links (rc_heap c1 x) = links (?h x)"
    "\<And>x. x \<notin> set (a # as) \<Longrightarrow> rc_heap c1 x = ?h x" "body (rc_heap c1 a) = zeroBody"
    "rc_root c1 = rc_root c" "rc_nextAddr c1 = rc_nextAddr c" "rc_recycleNodes c1 = rc_recycleNodes c"
    by (rule drop_spec [OF m am Cons.prems(2) [OF am] Cons.prems(3) kk st, unfolded re]) (use that in blast)
  have W1: "\<And>x. x \<in> set as \<Longrightarrow> W x = rn_size (rc_heap c1 x)" using sheds_sizes [OF d(2)] Cons.prems(2) by simp
  have ch: "\<exists>xs. chain (rc_heap c1) (rc_root c1) x xs (K x)" if "x \<in> set as" for x
    using Cons.prems(4) [of x] that chain_cong [of _ "rc_heap c1" ?h, OF d(4)] d(7) by auto
  obtain c' q' g' where ih: "clearNotifyLoop (first as None) (c1, q1) = Some (Inr (c', q'))"
    "mid W 0 (dd + 1 + int (length as)) 0 0 (shadow K [] c') []"
    "sheds (shadow K as c1, g1) as (map (\<lambda>a. (a, EvictionReasonDeleted)) as) (shadow K [] c', g') []" "qsim (rc_onEvictEntry c') q' g'"
    "\<forall>x. links (rc_heap c' x) = links (rc_heap c1 x)" "\<forall>x. x \<notin> set as \<longrightarrow> rc_heap c' x = rc_heap c1 x"
    "\<forall>x\<in>set as. body (rc_heap c' x) = zeroBody"
    "rc_root c' = rc_root c1" "rc_nextAddr c' = rc_nextAddr c1" "rc_recycleNodes c' = rc_recycleNodes c1"
    using Cons.IH [OF d(1) W1 d(3) ch] by blast
  have "clearNotifyLoop (first (a # as) None) (c, q) = Some (Inr (c', q'))"
  proof -
    have "first (a # as) None = Some a" by simp
    then show ?thesis
      by (subst clearNotifyLoop.simps) (simp only: Let_def fst_conv snd_conv option.case nx key sum.case dropNode_forms(2) [OF refl refl] st ih(1))
  qed
  moreover have "sheds (shadow K (a # as) c, g) (a # as) (map (\<lambda>a. (a, EvictionReasonDeleted)) (a # as)) (shadow K [] c', g') []"
    using sheds_trans [OF d(2) ih(3)] by simp
  moreover have "mid W 0 (dd + int (length (a # as))) 0 0 (shadow K [] c') []" using ih(2) by (simp add: algebra_simps)
  moreover have "\<forall>x\<in>set (a # as). body (rc_heap c' x) = zeroBody" using ih(6,7) d(6) dist by simp
  moreover have "\<forall>x. links (rc_heap c' x) = links (?h x)" "\<forall>x. x \<notin> set (a # as) \<longrightarrow> rc_heap c' x = ?h x"
    using ih(5,6) d(4,5) by simp_all
  ultimately show ?case using ih(4,8-10) d(7-9) by metis
qed

lemma tree_chain:
  assumes t: "tree_inv c F" and k: "(a, k) \<in> set (allkeyed (rc_root c) F)"
  shows "\<exists>xs. chain (rc_heap c) (rc_root c) a xs k"
proof (cases "a = rc_root c")
  case True
  have "distinct (map fst (allkeyed (rc_root c) F))" using tree_invD(2) [OF t] by (simp add: allkeyed_def keyed_addrs)
  moreover have "(rc_root c, []) \<in> set (allkeyed (rc_root c) F)" by (simp add: allkeyed_def)
  ultimately have "k = []" using k True by (auto intro: eq_key_imp_eq_value)
  then show ?thesis using True by (intro exI [of _ "[]"]) simp
next
  case False
  then obtain C s ch sb where F: "F = plug C (Branch a s ch sb)" using allkeyed_mem [OF k] at_addr by fastforce
  note ti = tree_invD [OF t]
  have cr: "crepr (rc_heap c) (rc_root c) C (Some a)" and l: "links (rc_heap c a) = (s, Some (par (rc_root c) C), fhead ch, fhead sb)"
    and r: "rc_root c \<notin> set (caddrs C)"
    using ti(1,2) unfolding F by (auto simp: tree_plug plug_addrs_set)
  obtain xs where "chain (rc_heap c) (rc_root c) (par (rc_root c) C) xs (path C)" using chain_ctx [OF cr r] by blast
  then have "chain (rc_heap c) (rc_root c) a (a # xs) (path C @ s)" using l False by (simp add: links_def)
  moreover have "(a, path C @ s) \<in> set (allkeyed (rc_root c) F)" unfolding F allkeyed_plug by simp
  moreover have "distinct (map fst (allkeyed (rc_root c) F))" using ti(2) by (simp add: allkeyed_def keyed_addrs)
  ultimately show ?thesis using k by (metis eq_key_imp_eq_value)
qed

lemma evictAllForClear_spec:
  fixes c :: "('v :: zero) radixCache"
  assumes m: "rmid W 0 0 0 0 K c as" and W: "\<And>a. a \<in> set as \<Longrightarrow> W a = rn_size (rc_heap c a)" and q: "qsim (rc_onEvictEntry c) q g"
  shows "\<exists>st'. radixCache_evictAllForClearLocked (c, q) = Inr st' \<and> cleared K c g as st'"
proof -
  note d = rmidD [OF m]
  have ps: "ps_ok (rc_ps c) (length as) (count_list (map W as) 0) 0 0 0" using d(2) by (simp add: mid_def)
  consider (empty) "as = []" | (quiet) "as \<noteq> []" "\<not> radixHasCB c" | (notify) "as \<noteq> []" "radixHasCB c" by blast
  then show ?thesis
  proof cases
    case empty
    then have "radixCache_evictAllForClearLocked (c, q) = Inr (c, q)" using d(4) by (simp add: radixCache_evictAllForClearLocked_def)
    moreover have "ps_ok (resetWatermarks (rc_ps c)) 0 0 0 0 0" using ps ps_ok_reset empty by simp
    then have "cleared K c g as (c, q)" using empty q by (auto simp: cleared_def ents_def)
    ultimately show ?thesis by blast
  next
    case quiet
    define c1 where "c1 = onRps (\<lambda>p. p\<lparr>evictionsDeleted := evictionsDeleted p + word_of_int (radixLen c),
        evictedWeightDeleted := evictedWeightDeleted p + rc_currentSize c\<rparr>) c"
    have "lseg (entryOf K (rc_heap c1)) None as None" using d(2) by (simp add: c1_def mid_def map_repr_def dll_def)
    then obtain h p where l: "clearQuietLoop (first as None) c1 = Some (c1\<lparr>rc_heap := h, rc_ps := p\<rparr>)"
      "resetWatermarks p = resetWatermarks (rc_ps c1)" "options p = options (rc_ps c1)"
      "\<forall>x. links (h x) = links (rc_heap c1 x)" "\<forall>x. x \<notin> set as \<longrightarrow> h x = rc_heap c1 x" "\<forall>x\<in>set as. body (h x) = zeroBody"
      using clearQuietLoop_spec [OF _ d(7)] by blast
    have hd: "r_head (rc_ends c1) = first as None" using d(6) by (simp add: c1_def)
    have "radixCache_evictAllForClearLocked (c, q) = Inr (c1\<lparr>rc_heap := h, rc_ps := p\<rparr>, q)"
      using quiet d(4) l(1) hd unfolding radixCache_evictAllForClearLocked_def Let_def prod.case c1_def [symmetric] by simp
    moreover have "ps_ok (resetWatermarks p) 0 0 (int (length as)) 0 0"
      using ps_ok_clearAll [OF ps, where d = "deletedSinceCompact (rc_ps c)"] unfolding l(2) by (simp add: c1_def d(4))
    then have "cleared K c g as (c1\<lparr>rc_heap := h, rc_ps := p\<rparr>, q)"
      using l q quiet by (auto simp: cleared_def c1_def rcfg_def)
    ultimately show ?thesis by blast
  next
    case notify
    obtain F where F: "tree_inv c F" "vkeys c F = (\<lambda>a. (a, K a)) ` set as" using d(1) by (auto simp: bound_def)
    have "\<exists>xs. chain (rc_heap c) (rc_root c) a xs (K a)" if "a \<in> set as" for a
    proof (rule tree_chain [OF F(1)])
      have "(a, K a) \<in> vkeys c F" unfolding F(2) using that by blast
      then show "(a, K a) \<in> set (allkeyed (rc_root c) F)" by (simp add: vkeys_def)
    qed
    from clearNotifyLoop_spec [OF d(2) W q this]
    obtain c' q' g' where l: "clearNotifyLoop (first as None) (c, q) = Some (Inr (c', q'))"
      "mid W 0 (0 + int (length as)) 0 0 (shadow K [] c') []"
      "sheds (shadow K as c, g) as (map (\<lambda>a. (a, EvictionReasonDeleted)) as) (shadow K [] c', g') []" "qsim (rc_onEvictEntry c') q' g'"
      "\<forall>x. links (rc_heap c' x) = links (rc_heap c x)" "\<forall>x. x \<notin> set as \<longrightarrow> rc_heap c' x = rc_heap c x"
      "\<forall>x\<in>set as. body (rc_heap c' x) = zeroBody"
      "rc_root c' = rc_root c" "rc_nextAddr c' = rc_nextAddr c" "rc_recycleNodes c' = rc_recycleNodes c" by blast
    have "radixCache_evictAllForClearLocked (c, q) = Inr (c', q')"
      using notify d(4,6) l(1) by (simp add: radixCache_evictAllForClearLocked_def)
    moreover have "ps_ok (resetWatermarks (rc_ps c')) 0 0 (int (length as)) 0 0"
      using l(2) ps_ok_reset [of "rc_ps c'" 0] by (simp add: mid_def)
    moreover have "queue_events g' = queue_events g @ map (event_of EvictionReasonDeleted) (ents (entryOf K (rc_heap c)) as)"
      using sheds_events [OF l(3)] q notify by (simp add: qsim_def)
    moreover have "rcfg c' = rcfg c" using l(3) by (simp add: sheds_def)
    ultimately show ?thesis using l(4-) notify unfolding cleared_def by auto
  qed
qed

lemma sweepVisit_quiet: "\<not> rn_hasValue (rc_heap (fst st) a) \<Longrightarrow> sweepVisit a st = Inr st"
  by (cases st) (simp add: sweepVisit_def)

lemma sweepLoop_quiet:
  fixes c :: "('v :: zero) radixCache"
  assumes "repr (rc_heap c) p F" "F \<noteq> Tip" "node \<notin> set (faddrs F)" "distinct (faddrs F)" "\<And>a. a \<in> set (faddrs F) \<Longrightarrow> \<not> rn_hasValue (rc_heap c a)"
  shows "\<exists>h. sweepLoop node (fhead F) (c, q) = afterSweep node p (c\<lparr>rc_heap := h\<rparr>, q) \<and> (\<forall>x. x \<notin> set (faddrs F) \<longrightarrow> h x = rc_heap c x)"
  using assms
proof (induction F arbitrary: p c)
  case (Branch a s ch sb)
  let ?h = "rc_heap c"
  have l: "rn_parent (?h a) = Some p" "rn_child (?h a) = fhead ch" "rn_sibling (?h a) = fhead sb" "repr ?h a ch" "repr ?h p sb"
    using Branch.prems(1) by (simp_all add: links_def)
  have ds: "a \<notin> set (faddrs ch)" "a \<notin> set (faddrs sb)" "a \<noteq> node" "set (faddrs ch) \<inter> set (faddrs sb) = {}" using Branch.prems by auto
  have nv: "\<not> rn_hasValue (?h a)" using Branch.prems(5) by simp
  note v = sweepVisit_quiet [of "(c, q)" a]
  obtain h1 where h1: "sweepLoop node (Some a) (c, q) = afterSweep node a (c\<lparr>rc_heap := h1\<rparr>, q)" "\<forall>x. x \<notin> set (faddrs ch) \<longrightarrow> h1 x = ?h x"
  proof (cases "ch = Tip")
    case True
    then show thesis using that [of ?h] sweepLoop_visit [OF v, of node] nv l(2) by simp
  next
    case False
    then obtain h where "sweepLoop node (fhead ch) (c, q) = afterSweep node a (c\<lparr>rc_heap := h\<rparr>, q)" "\<forall>x. x \<notin> set (faddrs ch) \<longrightarrow> h x = ?h x"
      using Branch.IH(1) [OF l(4)] Branch.prems by auto
    then show thesis using that [of h] sweepLoop_visit [OF v, of node] nv l(2) False by (cases ch) auto
  qed
  define c1 where "c1 = c\<lparr>rc_heap := h1\<rparr>"
  define c2 where "c2 = clearLinks a c1"
  have h1a: "rn_sibling (rc_heap c1 a) = fhead sb" "rn_parent (rc_heap c1 a) = Some p" using h1(2) ds(1) l by (simp_all add: c1_def)
  have h2: "rc_heap c2 x = ?h x" if "x \<noteq> a" "x \<notin> set (faddrs ch)" for x using that h1(2) by (simp add: c2_def c1_def clearLinks_def)
  have c2: "c2\<lparr>rc_heap := h\<rparr> = c\<lparr>rc_heap := h\<rparr>" "c2 = c\<lparr>rc_heap := rc_heap c2\<rparr>" for h by (simp_all add: c2_def c1_def clearLinks_def)
  note af = afterSweep_node [OF ds(3) h1a, of q, folded c2_def]
  show ?case
  proof (cases "sb = Tip")
    case True
    then have "sweepLoop node (fhead (Branch a s ch sb)) (c, q) = afterSweep node p (c\<lparr>rc_heap := rc_heap c2\<rparr>, q)"
      using h1(1) af c2(2) by (simp add: c1_def [symmetric])
    then show ?thesis using h2 True by (intro exI [of _ "rc_heap c2"]) simp
  next
    case False
    have sbx: "x \<noteq> a \<and> x \<notin> set (faddrs ch)" if "x \<in> set (faddrs sb)" for x using that ds by blast
    have "repr (rc_heap c2) p sb = repr ?h p sb" by (rule repr_cong) (use h2 sbx in simp)
    then obtain h where "sweepLoop node (fhead sb) (c2, q) = afterSweep node p (c2\<lparr>rc_heap := h\<rparr>, q)" "\<forall>x. x \<notin> set (faddrs sb) \<longrightarrow> h x = rc_heap c2 x"
      using Branch.IH(2) [of c2 p] Branch.prems l(5) False h2 sbx by auto
    then show ?thesis
      using h1(1) af False h2 unfolding c2(1) by (intro exI [of _ h]) (cases sb, auto simp: c1_def [symmetric])
  qed
qed simp

lemma sweepRoot_quiet:
  fixes c :: "('v :: zero) radixCache"
  assumes t: "rn_child (rc_heap c r) = fhead F" "repr (rc_heap c) r F" "distinct (r # faddrs F)"
    and nv: "\<And>a. a \<in> set (r # faddrs F) \<Longrightarrow> \<not> rn_hasValue (rc_heap c a)"
  shows "\<exists>h. radixCache_sweepAndUnlink r (c, q) = Inr (c\<lparr>rc_heap := h\<rparr>, q) \<and> (\<forall>x. x \<notin> set (r # faddrs F) \<longrightarrow> h x = rc_heap c x)
    \<and> links (h r) = ([], None, None, None) \<and> body (h r) = body (rc_heap c r)"
proof -
  have r: "r \<notin> set (faddrs F)" "distinct (faddrs F)" using t(3) by simp_all
  have v: "sweepVisit r (c, q) = Inr (c, q)" using nv by (intro sweepVisit_quiet) simp
  obtain h1 where h1: "sweepLoop r (Some r) (c, q) = afterSweep r r (c\<lparr>rc_heap := h1\<rparr>, q)" "\<forall>x. x \<notin> set (faddrs F) \<longrightarrow> h1 x = rc_heap c x"
  proof (cases "F = Tip")
    case True
    then show thesis using that [of "rc_heap c"] sweepLoop_visit [OF v, of r] t(1) by simp
  next
    case False
    have "\<And>a. a \<in> set (faddrs F) \<Longrightarrow> \<not> rn_hasValue (rc_heap c a)" using nv by simp
    then obtain h where "sweepLoop r (fhead F) (c, q) = afterSweep r r (c\<lparr>rc_heap := h\<rparr>, q)" "\<forall>x. x \<notin> set (faddrs F) \<longrightarrow> h x = rc_heap c x"
      using sweepLoop_quiet [OF t(2) False r, of q] by blast
    then show thesis using that [of h] sweepLoop_visit [OF v, of r] t(1) False by (cases F) auto
  qed
  show ?thesis
    using h1 r(1)
    by (intro exI [of _ "rc_heap (clearLinks r (c\<lparr>rc_heap := h1\<rparr>))"])
      (auto simp: radixCache_sweepAndUnlink_def afterSweep_stop clearLinks_def links_def body_def)
qed

lemma rmid_executed:
  "rmid W d dd rr ss K c as \<Longrightarrow> rmid W d dd rr ss K (onRps (\<lambda>p. p\<lparr>deletePrefixExecuted := deletePrefixExecuted p + 1\<rparr>) c) as"
  by (rule rmid_keep) simp_all

lemma cleared_tree:
  assumes cl: "cleared K c g as (c1, q1)" and t: "tree_inv c F" and vk: "vkeys c F = (\<lambda>a. (a, K a)) ` set as"
  shows "rn_child (rc_heap c1 (rc_root c)) = fhead F" "repr (rc_heap c1) (rc_root c) F"
    "\<And>a. a \<in> set (rc_root c # faddrs F) \<Longrightarrow> body (rc_heap c1 a) = zeroBody"
proof -
  have lk: "\<And>x. links (rc_heap c1 x) = links (rc_heap c x)" and out: "\<And>x. x \<notin> set as \<Longrightarrow> rc_heap c1 x = rc_heap c x"
    and b: "\<And>x. x \<in> set as \<Longrightarrow> body (rc_heap c1 x) = zeroBody"
    using cl by (auto simp: cleared_def)
  show "rn_child (rc_heap c1 (rc_root c)) = fhead F" using lk [of "rc_root c"] tree_invD(4) [OF t] by (simp add: links_def)
  show "repr (rc_heap c1) (rc_root c) F" using repr_cong [of F "rc_heap c1" "rc_heap c"] lk tree_invD(5) [OF t] by simp
  show "body (rc_heap c1 a) = zeroBody" if "a \<in> set (rc_root c # faddrs F)" for a
  proof (cases "a \<in> set as")
    case False
    then have "\<not> rn_hasValue (rc_heap c a)" using listed_iff [OF vk] that by blast
    then show ?thesis using tree_inv_nodes(2) [OF t that] out [OF False] by simp
  qed (rule b)
qed

lemma empty_bound:
  assumes "links (rc_heap c (rc_root c)) = ([], None, None, None)" "body (rc_heap c (rc_root c)) = zeroBody" "rc_root c < rc_nextAddr c"
    and "distinct (rc_recycleNodes c)" "rc_root c \<notin> set (rc_recycleNodes c)" "\<forall>x\<in>set (rc_recycleNodes c). x < rc_nextAddr c \<and> rc_heap c x = zeroNode"
  shows "bound K c []"
proof -
  have "tree_inv c Tip" using assms by (simp add: tree_inv_def tree_def links_def rootlinks_def)
  moreover have "vkeys c Tip = {}" using assms(2) by (simp add: vkeys_def allkeyed_def bearing_def body_def zeroBody_def)
  ultimately show ?thesis unfolding bound_def by (intro exI [of _ Tip]) simp
qed

lemma rdeleteAllPrefix_spec:
  fixes c0 :: "('v :: zero) radixCache"
  assumes m0: "rmid W 0 0 0 0 K c0 as" and W: "\<And>a. a \<in> set as \<Longrightarrow> W a = rn_size (rc_heap c0 a)" and q: "qsim (rc_onEvictEntry c0) q g"
  shows "\<exists>c' q' g'. radixCache_deleteAllPrefixLocked se x (c0, q) = Inr (c', q') \<and> radix_inv c' \<and> rlru c' = [] \<and> rcfg c' = rcfg c0
    \<and> qsim (rc_onEvictEntry c') q' g' \<and> queue_events g' = queue_events g @ (if radixHasCB c0 then map (event_of EvictionReasonDeleted) (rlru c0) else [])"
proof -
  define c where "c = onRps (\<lambda>p. p\<lparr>deletePrefixExecuted := deletePrefixExecuted p + 1\<rparr>) c0"
  have m: "rmid W 0 0 0 0 K c as" unfolding c_def by (rule rmid_executed [OF m0])
  have cf: "rcfg c = rcfg c0" "rc_heap c = rc_heap c0" "radixHasCB c = radixHasCB c0" "rc_onEvictEntry c = rc_onEvictEntry c0" by (simp_all add: c_def)
  have qc: "qsim (rc_onEvictEntry c) q g" and Wc: "\<And>a. a \<in> set as \<Longrightarrow> W a = rn_size (rc_heap c a)" using q W cf by simp_all
  have lr: "ents (entryOf K (rc_heap c)) as = rlru c0" using rlru_rmid [OF m0] cf(2) by simp
  note d = rmidD [OF m]
  show ?thesis
  proof (cases "radixCache_isCleanEmptyLocked c")
    case True
    then have as: "as = []" using d(4) by (simp add: radixCache_isCleanEmptyLocked_def Let_def)
    have "radix_inv c" by (rule radix_invI [OF m Wc]) simp_all
    moreover have "radixCache_deleteAllPrefixLocked se x (c0, q) = Inr (c, q)"
      using True by (simp add: radixCache_deleteAllPrefixLocked_def c_def [symmetric])
    ultimately show ?thesis using rlru_rmid [OF m] lr as qc cf(1) by (auto simp: ents_def)
  next
    case False
    obtain F where F: "tree_inv c F" "vkeys c F = (\<lambda>a. (a, K a)) ` set as" using d(1) by (auto simp: bound_def)
    obtain c1 q1 where ev: "radixCache_evictAllForClearLocked (c, q) = Inr (c1, q1)" and cl: "cleared K c g as (c1, q1)"
      using evictAllForClear_spec [OF m Wc qc] by auto
    note ct = cleared_tree [OF cl F]
    have f1: "rc_root c1 = rc_root c" "rc_nextAddr c1 = rc_nextAddr c" "rc_recycleNodes c1 = rc_recycleNodes c" "rcfg c1 = rcfg c"
      "ps_ok (resetWatermarks (rc_ps c1)) 0 0 (int (length as)) 0 0" and o1: "\<And>x. x \<notin> set as \<Longrightarrow> rc_heap c1 x = rc_heap c x"
      using cl by (auto simp: cleared_def)
    obtain g1 where g1: "qsim (rc_onEvictEntry c1) q1 g1" "queue_events g1 = queue_events g @
        (if radixHasCB c then map (event_of EvictionReasonDeleted) (ents (entryOf K (rc_heap c)) as) else [])"
      using cl by (auto simp: cleared_def)
    have nv: "\<not> rn_hasValue (rc_heap c1 a)" if "a \<in> set (rc_root c # faddrs F)" for a
      using ct(3) [OF that] by (simp add: body_def zeroBody_def)
    obtain h where h: "radixCache_sweepAndUnlink (rc_root c) (c1, q1) = Inr (c1\<lparr>rc_heap := h\<rparr>, q1)"
      "\<forall>x. x \<notin> set (rc_root c # faddrs F) \<longrightarrow> h x = rc_heap c1 x" "links (h (rc_root c)) = ([], None, None, None)" "body (h (rc_root c)) = body (rc_heap c1 (rc_root c))"
      using sweepRoot_quiet [OF ct(1,2) tree_invD(2) [OF F(1)] nv] by blast
    define c3 where "c3 = c1\<lparr>rc_heap := h, rc_ends := \<lparr>r_head = None, r_tail = None, r_len = 0\<rparr>, rc_currentSize := 0\<rparr>"
    define b1 where "b1 = hasEmptyDeleteSlack (rc_ps c3) False"
    define b2 where "b2 = (0 < rc_currentSize c \<or> (0 < deletedSinceCompact (rc_ps c) \<or> minPeakSlackEntries < peakEntryLen (rc_ps c)))"
    define c4 where "c4 = onRps (finishClearAllLocked b1 b2 se x) (radixCache_clearEmptyTreeStateLocked c3)"
    have res: "radixCache_deleteAllPrefixLocked se x (c0, q) = Inr (c4, q1)"
      using False ev h(1) f1(1) unfolding radixCache_deleteAllPrefixLocked_def Let_def prod.case c_def [symmetric]
      by (simp add: b1_def b2_def c3_def c4_def)
    have r4: "rc_root c4 = rc_root c" "rc_heap c4 = h" "rc_nextAddr c4 = rc_nextAddr c" "rc_recycleNodes c4 = rc_recycleNodes c" "rcfg c4 = rcfg c"
      "rc_ends c4 = \<lparr>r_head = None, r_tail = None, r_len = 0\<rparr>" "rc_currentSize c4 = 0" "rc_onEvictEntry c4 = rc_onEvictEntry c1"
      using f1 by (simp_all add: c4_def c3_def radixCache_clearEmptyTreeStateLocked_def rcfg_def)
    note tn = tree_inv_nodes [OF F(1)]
    have zx: "h x = zeroNode" if "x \<in> set (rc_recycleNodes c)" for x
    proof -
      have "x \<notin> set (rc_root c # faddrs F)" using that tn(4) by blast
      moreover from this have "x \<notin> set as" using listed_iff [OF F(2)] by blast
      ultimately show ?thesis using h(2) o1 tn(5) [OF that] by simp
    qed
    have bd: "bound K c4 []"
    proof (rule empty_bound)
      show "links (rc_heap c4 (rc_root c4)) = ([], None, None, None)" "body (rc_heap c4 (rc_root c4)) = zeroBody"
        using h(3,4) ct(3) [of "rc_root c"] r4 by simp_all
      show "rc_root c4 < rc_nextAddr c4" "distinct (rc_recycleNodes c4)" "rc_root c4 \<notin> set (rc_recycleNodes c4)"
        using tn(1,3,4) r4 by auto
      show "\<forall>x\<in>set (rc_recycleNodes c4). x < rc_nextAddr c4 \<and> rc_heap c4 x = zeroNode" using tn(5) zx r4 by simp
    qed
    have "ps_ok (rc_ps c4) 0 0 (int (length as)) 0 0"
      using f1(5) unfolding c4_def by (simp add: radixCache_clearEmptyTreeStateLocked_def c3_def) (rule ps_ok_keep)
    moreover have "rc_maxSize c4 \<noteq> 0" using d(2) r4(5) by (simp add: mid_def rcfg_def)
    ultimately have "mid W 0 (int (length as)) 0 0 (shadow K [] c4) []"
      using r4(6,7) by (simp add: mid_def map_repr_def index_ok_def dll_def listOf_def)
    then have m4: "rmid W 0 (int (length as)) 0 0 K c4 []" using bd by (simp add: rmid_def)
    have "radix_inv c4" by (rule radix_invI [OF m4]) simp_all
    moreover have "rlru c4 = []" using rlru_rmid [OF m4] by (simp add: ents_def)
    ultimately show ?thesis using res g1 cf(1,3) r4(5,8) lr by auto
  qed
qed

subsection \<open>DeletePrefix\<close>

lemma rdeleteNonEmpty_spec:
  fixes c0 :: "('v :: zero) radixCache"
  assumes m0: "rmid W 0 0 0 0 K c0 as" and W: "\<And>a. a \<in> set as \<Longrightarrow> W a = rn_size (rc_heap c0 a)" and q: "qsim (rc_onEvictEntry c0) q g"
    and pre: "pre \<noteq> []"
  shows "\<exists>st'. radixCache_deleteNonEmptyPrefixLocked pre se x (c0, q) = Inr st' \<and> pruned pre x c0 g st'"
proof -
  define c where "c = onRps (\<lambda>p. p\<lparr>deletePrefixExecuted := deletePrefixExecuted p + 1\<rparr>) c0"
  have m: "rmid W 0 0 0 0 K c as" unfolding c_def by (rule rmid_executed [OF m0])
  have cf: "rcfg c = rcfg c0" "rc_heap c = rc_heap c0" "radixHasCB c = radixHasCB c0" "rc_onEvictEntry c = rc_onEvictEntry c0"
    "rlru c = rlru c0" "rhot x c = rhot x c0"
    using rlru_rmid [OF m] rlru_rmid [OF m0] by (simp_all add: c_def rhot_def)
  have qc: "qsim (rc_onEvictEntry c) q g" and Wc: "\<And>a. a \<in> set as \<Longrightarrow> W a = rn_size (rc_heap c a)" using q W cf by simp_all
  obtain F where F: "tree_inv c F" "fcompact (bearing (rc_heap c)) F" "vkeys c F = (\<lambda>a. (a, K a)) ` set as"
    using rmidD(1) [OF m] by (auto simp: bound_def)
  have "\<exists>st'. deletePrefixLoop se x (par (rc_root c) Top) pre (c, q) = Some (Inr st') \<and> pruned (path Top @ pre) x c g st'"
    by (rule deletePrefixLoop_spec [OF m Wc qc F, where H = F]) (use pre in \<open>auto simp: allkeyed_def\<close>)
  then obtain st' where "deletePrefixLoop se x (rc_root c) pre (c, q) = Some (Inr st')" "pruned pre x c g st'" by auto
  then show ?thesis
    unfolding radixCache_deleteNonEmptyPrefixLocked_def Let_def prod.case c_def [symmetric] pruned_def cf by simp
qed

lemma rdeletePrefixShard_spec:
  fixes c :: "('v :: zero) radixCache" and env :: samplingEnv
  assumes inv: "radix_inv c" and v: "valid_pressure (h_pressure h)" and q: "qsim (rc_onEvictEntry c) q g"
  shows "\<exists>c' q' g' gd gp out b. radixCache_deletePrefixShard env pre h (c, q) = Inr ((c', q'), out, b)
    \<and> radix_inv c' \<and> rcfg c' = rcfg c \<and> valid_pressure (h_pressure out)
    \<and> mset gd = mset (filter (\<lambda>y. hasPrefix pre (entry_key y)) (rlru c)) \<and> (pre = [] \<longrightarrow> gd = rlru c)
    \<and> reclaimed (rhot (rshardPressure env False h c) c \<and> pre \<noteq> []) (filter (\<lambda>y. \<not> hasPrefix pre (entry_key y)) (rlru c)) gp (rlru c')
    \<and> qsim (rc_onEvictEntry c') q' g' \<and> queue_events g' = queue_events g @ (if radixHasCB c then
        map (event_of EvictionReasonDeleted) gd @ map (event_of EvictionReasonPressure) gp else [])"
proof -
  let ?W = "sizes (rc_heap c)" and ?as = "raddrs c"
  obtain K where m: "rmid ?W 0 0 0 0 K c ?as" by (rule radix_invD [OF inv])
  have so: "sampling_ok (rc_ps c)" using rmidD(2) [OF m] by (simp add: mid_def ps_ok_def)
  note d = rmidD [OF m]
  show ?thesis
  proof (cases "pre = []")
    case True
    show ?thesis
    proof (cases "radixCache_isCleanEmptyLocked c")
      case clean: True
      define c1 where "c1 = onRps (\<lambda>p. p\<lparr>deletePrefixExecuted := deletePrefixExecuted p + 1\<rparr>) c"
      have c1: "radix_inv c1 \<and> rlru c1 = rlru c" unfolding c1_def by (rule radix_onRps [OF m]) (simp_all add: sizes_def)
      have "?as = []" using clean d(4) by (simp add: radixCache_isCleanEmptyLocked_def Let_def)
      then have "rlru c = []" by (simp add: rlru_def)
      then show ?thesis
        using True clean c1 runlock_ok [of c1] q v
        by - (rule exI [of _ c1], rule exI [of _ q], rule exI [of _ g], rule exI [of _ "[]"], rule exI [of _ "[]"],
          simp add: radixCache_deletePrefixShard_def c1_def [symmetric] reclaimed_def, simp add: c1_def)
    next
      case False
      have step: "\<exists>c' q' g'. radixCache_deleteAllPrefixLocked se x (c\<lparr>rc_ps := p\<rparr>, q) = Inr (c', q') \<and> radix_inv c' \<and> rlru c' = []
          \<and> rcfg c' = rcfg c \<and> qsim (rc_onEvictEntry c') q' g'
          \<and> queue_events g' = queue_events g @ (if radixHasCB c then map (event_of EvictionReasonDeleted) (rlru c) else [])"
        if s: "sampled (rc_ps c) p" for p se x
      proof -
        define c1 where "c1 = c\<lparr>rc_ps := p\<rparr>"
        note sp = rmid_sampled [OF m s, folded c1_def]
        note f = rquiet_fields [OF sp(2)] and cf = rcfg_simps [OF rquiet_rcfg [OF sp(2)]]
        have q1: "qsim (rc_onEvictEntry c1) q g" and cf1: "radixHasCB c1 = radixHasCB c" "rcfg c1 = rcfg c"
          using q cf rquiet_rcfg [OF sp(2)] by simp_all
        have W1: "?W a = rn_size (rc_heap c1 a)" if "a \<in> set ?as" for a using f by (simp add: sizes_def)
        have "rlru c1 = rlru c" using rlru_rmid [OF sp(1)] rlru_rmid [OF m] f by simp
        then show ?thesis
          using rdeleteAllPrefix_spec [OF sp(1) W1 q1, of se x] unfolding c1_def [symmetric] cf1 by (simp only:)
      qed
      have fin: ?thesis
        if "radixCache_deletePrefixShard env pre h (c, q) = Inr ((c', q'), out, b)" "valid_pressure (h_pressure out)"
          "radix_inv c'" "rlru c' = []" "rcfg c' = rcfg c" "qsim (rc_onEvictEntry c') q' g'"
          "queue_events g' = queue_events g @ (if radixHasCB c then map (event_of EvictionReasonDeleted) (rlru c) else [])"
        for c' q' g' out b
        using that True
        by - (rule exI [of _ c'], rule exI [of _ q'], rule exI [of _ g'], rule exI [of _ "rlru c"], rule exI [of _ "[]"], simp add: reclaimed_def)
      show ?thesis
      proof (cases "if h_hasSample h then tryApplyShardSampleLocked False h (rc_ps c) else None")
        case None
        obtain p se out where lk: "lockShardWithSample env False h (rc_ps c) = (p, se, out)" by (metis prod_cases3)
        have "sampled (rc_ps c) p" and vo: "valid_pressure (h_pressure out)" using lockShardWithSample_ok [OF lk so v] by simp_all
        from step [OF this(1), of se "h_pressure out"]
        obtain c' q' g' where r: "radixCache_deleteAllPrefixLocked se (h_pressure out) (c\<lparr>rc_ps := p\<rparr>, q) = Inr (c', q')"
          "radix_inv c'" "rlru c' = []" "rcfg c' = rcfg c" "qsim (rc_onEvictEntry c') q' g'"
          "queue_events g' = queue_events g @ (if radixHasCB c then map (event_of EvictionReasonDeleted) (rlru c) else [])" by blast
        have "radixCache_deletePrefixShard env pre h (c, q)
            = Inr ((c', q'), advanceSelfReclaim (ownReclaimEpoch (rc_ps c')) se out, True)"
          using True False r(1) runlock_ok [OF r(2)]
          unfolding radixCache_deletePrefixShard_def Let_def prod.case None lk by simp
        from fin [OF this _ r(2-)] vo show ?thesis by simp
      next
        case (Some r1)
        obtain p out where r1: "r1 = (p, out)" by (rule prod.exhaust)
        have ta: "tryApplyShardSampleLocked False h (rc_ps c) = Some (p, out)" using Some r1 by (simp split: if_splits)
        have "sampled (rc_ps c) p" and vo: "valid_pressure (h_pressure out)" using tryApplyShardSample_ok [OF ta so v] by simp_all
        from step [OF this(1), of "ownReclaimEpoch p" "h_pressure out"]
        obtain c' q' g' where r: "radixCache_deleteAllPrefixLocked (ownReclaimEpoch p) (h_pressure out) (c\<lparr>rc_ps := p\<rparr>, q) = Inr (c', q')"
          "radix_inv c'" "rlru c' = []" "rcfg c' = rcfg c" "qsim (rc_onEvictEntry c') q' g'"
          "queue_events g' = queue_events g @ (if radixHasCB c then map (event_of EvictionReasonDeleted) (rlru c) else [])" by blast
        have "radixCache_deletePrefixShard env pre h (c, q)
            = Inr ((c', q'), advanceSelfReclaim (ownReclaimEpoch (rc_ps c')) (ownReclaimEpoch p) out, True)"
          using True False r(1) runlock_ok [OF r(2)]
          unfolding radixCache_deletePrefixShard_def Let_def prod.case Some r1 by simp
        from fin [OF this _ r(2-)] vo show ?thesis by simp
      qed
    qed
  next
    case False
    obtain p se out where lk: "lockShardWithSample env False h (rc_ps c) = (p, se, out)" by (metis prod_cases3)
    define c1 where "c1 = c\<lparr>rc_ps := p\<rparr>"
    note l = rlockShard_props [OF m lk v, folded c1_def]
    note f = rquiet_fields [OF l(2)] and cf = rcfg_simps [OF rquiet_rcfg [OF l(2)]]
    have x: "rshardPressure env False h c = h_pressure out" by (simp add: rshardPressure_def lk)
    have W: "\<And>a. a \<in> set ?as \<Longrightarrow> ?W a = rn_size (rc_heap c1 a)" by (simp add: sizes_def f)
    have q1: "qsim (rc_onEvictEntry c1) q g" using q f by simp
    have lr: "rlru c1 = rlru c" using rlru_rmid [OF l(1)] rlru_rmid [OF m] f by simp
    obtain c2 q2 where e: "radixCache_deleteNonEmptyPrefixLocked pre se (h_pressure out) (c1, q) = Inr (c2, q2)" "pruned pre (h_pressure out) c1 g (c2, q2)"
      using rdeleteNonEmpty_spec [OF l(1) W q1 False, of se "h_pressure out"] by auto
    have i2: "radix_inv c2" "rcfg c2 = rcfg c" using e(2) rquiet_rcfg [OF l(2)] by (simp_all add: pruned_def)
    obtain g2 gd gp where g: "mset gd = mset (filter (\<lambda>y. hasPrefix pre (entry_key y)) (rlru c))"
      "reclaimed (rhot (h_pressure out) c1) (filter (\<lambda>y. \<not> hasPrefix pre (entry_key y)) (rlru c)) gp (rlru c2)"
      "qsim (rc_onEvictEntry c2) q2 g2" "queue_events g2 = queue_events g @ (if radixHasCB c1 then
        map (event_of EvictionReasonDeleted) gd @ map (event_of EvictionReasonPressure) gp else [])"
      using e(2) unfolding pruned_def lr by auto
    have "radixCache_deletePrefixShard env pre h (c, q) = Inr ((c2, q2), advanceSelfReclaim (ownReclaimEpoch (rc_ps c2)) se out, True)"
      using False e(1) runlock_ok [OF i2(1)] by (simp add: radixCache_deletePrefixShard_def lk c1_def [symmetric])
    then show ?thesis
      using False i2 g l(3) cf x
      by - (rule exI [of _ c2], rule exI [of _ q2], rule exI [of _ g2], rule exI [of _ gd], rule exI [of _ gp],
        rule exI [of _ "advanceSelfReclaim (ownReclaimEpoch (rc_ps c2)) se out"], rule exI [of _ True], simp)
  qed
qed

lemma rDeletePrefix_spec:
  fixes c :: "('v :: zero) radixCache" and env :: samplingEnv
  assumes inv: "radix_inv c"
  shows "\<exists>c' gd gp. radixCache_DeletePrefix env pre c
      = Inr (c', rcalls c (map (event_of EvictionReasonDeleted) gd @ map (event_of EvictionReasonPressure) gp))
    \<and> radix_inv c' \<and> rcfg c' = rcfg c
    \<and> mset gd = mset (filter (\<lambda>y. hasPrefix pre (entry_key y)) (rlru c)) \<and> (pre = [] \<longrightarrow> gd = rlru c)
    \<and> reclaimed (rhot (rshardPressure env False emptyShardSample c) c \<and> pre \<noteq> [])
        (filter (\<lambda>y. \<not> hasPrefix pre (entry_key y)) (rlru c)) gp (rlru c')"
proof -
  have v: "valid_pressure (h_pressure emptyShardSample)" by (simp add: emptyShardSample_def)
  obtain c' q' g' gd gp out b where d: "radixCache_deletePrefixShard env pre emptyShardSample (c, newEvictQueue True) = Inr ((c', q'), out, b)"
    "radix_inv c'" "rcfg c' = rcfg c" "mset gd = mset (filter (\<lambda>y. hasPrefix pre (entry_key y)) (rlru c))" "pre = [] \<longrightarrow> gd = rlru c"
    "reclaimed (rhot (rshardPressure env False emptyShardSample c) c \<and> pre \<noteq> []) (filter (\<lambda>y. \<not> hasPrefix pre (entry_key y)) (rlru c)) gp (rlru c')"
    "qsim (rc_onEvictEntry c') q' g'" "queue_events g' = queue_events (newEvictQueue True :: 'v evictCallbackQueue) @ (if radixHasCB c then
        map (event_of EvictionReasonDeleted) gd @ map (event_of EvictionReasonPressure) gp else [])"
    using rdeletePrefixShard_spec [OF inv v qsim_refl [OF queue_wf_new], where env = env and pre = pre] by blast
  have "radixCallbacks c' q' = rcalls c (map (event_of EvictionReasonDeleted) gd @ map (event_of EvictionReasonPressure) gp)"
    by (rule rinvoke_calls [OF d(7) _ d(3)]) (use d(8) in simp)
  then show ?thesis
    using d(1-6) by - (rule exI [of _ c'], rule exI [of _ gd], rule exI [of _ gp], simp add: radixCache_DeletePrefix_def)
qed

end
