(* ===== verification/RadixTrace.thy ===== *)
theory RadixTrace
  imports RadixReplace RadixPrefix MapTrace
begin

text \<open>
  The radix backend as a whole: its constructor, its interpretation as an \<open>lru_engine\<close>, and the states its
  operations can reach from a new cache.
\<close>

subsection \<open>Construction\<close>

lemma newRadixCache_inv:
  fixes opts :: "('v :: zero) Options"
  assumes "thresholds_ok opts" "maxSz \<noteq> 0"
    and "\<not> callbackMismatch (oWeigher opts)" "\<not> callbackMismatch (oOnEvictValue opts)" "\<not> callbackMismatch (oOnEvictEntry opts)"
  shows "\<exists>c. newRadixCacheWithOptions maxSz opts = Inr c \<and> radix_inv c \<and> rlru c = [] \<and> rc_maxSize c = maxSz
    \<and> resolveWeigher (oWeigher opts) = Inr (rc_weigher c) \<and> putInserted (rc_ps c) = 0
    \<and> EvictionRetentionRatio (options (rc_ps c)) = EvictionRetentionRatio opts"
proof -
  define o1 where "o1 = (if \<not> hasShardTier2Target opts
             then opts\<lparr>hasShardTier2Target := True,
                        shardTier2Target := computeTargetSize maxSz (EvictionRetentionRatio opts)\<rparr>
             else opts)"
  have o1: "oWeigher o1 = oWeigher opts" "oOnEvictValue o1 = oOnEvictValue opts" "oOnEvictEntry o1 = oOnEvictEntry opts"
    by (simp_all add: o1_def)
  obtain w onVal onEntry where r: "resolveWeigher (oWeigher opts) = Inr w"
    "resolveOnEvictValue (oOnEvictValue opts) = Inr onVal" "resolveOnEvictEntry (oOnEvictEntry opts) = Inr onEntry"
    using assms(3-5) resolve_total by metis
  define c where "c = \<lparr>rc_maxSize = maxSz, rc_currentSize = 0, rc_heap = (\<lambda>_. zeroNode), rc_nextAddr = 1, rc_root = 0,
              rc_ends = \<lparr>r_head = None, r_tail = None, r_len = 0\<rparr>, rc_weigher = w,
              rc_onEvictValue = onVal, rc_onEvictEntry = onEntry, rc_recycleNodes = [], rc_recyclingForPut = False,
              rc_ps = newPressureState o1\<rparr>"
  have "thresholds_ok o1" using assms(1) by (simp add: o1_def thresholds_ok_def)
  then have "mid (sizes (rc_heap c)) 0 0 0 0 (shadow (\<lambda>_. []) [] c) []"
    using newPressureState_ok assms(2)
    by (simp add: c_def mid_def map_repr_def index_ok_def dll_def listOf_def)
  moreover have "bound (\<lambda>_. []) c []"
    by (rule empty_bound) (simp_all add: c_def zeroNode_def links_def body_def zeroBody_def)
  ultimately have m: "rmid (sizes (rc_heap c)) 0 0 0 0 (\<lambda>_. []) c []" by (simp add: rmid_def)
  have i: "radix_inv c" by (rule radix_invI [OF m]) simp_all
  moreover have "rlru c = []" using rlru_rmid [OF m] by (simp add: ents_def)
  moreover have "newRadixCacheWithOptions maxSz opts = Inr c"
    unfolding newRadixCacheWithOptions_def Let_def o1_def [symmetric] o1 r bindr_simps c_def [symmetric] runlock_ok [OF i] ..
  ultimately show ?thesis using r by (auto simp: c_def newPressureState_def o1_def)
qed

lemma rnew_inv:
  assumes "newRadixCacheWithOptions maxSz opts = Inr c" "thresholds_ok opts" "maxSz \<noteq> 0"
  shows "radix_inv c \<and> rc_maxSize c = maxSz"
proof -
  have "\<not> callbackMismatch (oWeigher opts)" "\<not> callbackMismatch (oOnEvictValue opts)" "\<not> callbackMismatch (oOnEvictEntry opts)"
    using assms(1) by (auto simp: newRadixCacheWithOptions_def callbackMismatch_def Let_def bindr_def split: sum.splits if_splits)
  then show ?thesis using newRadixCache_inv [OF assms(2,3)] assms(1) by auto
qed

subsection \<open>The radix backend is a cache engine\<close>

definition radix_accepts :: "'v radixCache \<Rightarrow> string \<Rightarrow> 'v \<Rightarrow> bool" where
  "radix_accepts c k v = (radixCache_weigh c k v \<le> rc_maxSize c \<and> putInserted (rc_ps c) \<noteq> - 1)"

lemma radix_inv_distinct: "radix_inv c \<Longrightarrow> distinct (map fst (rlru c))"
  by (rule radix_invD) (auto dest: map_inv_distinct)

interpretation radix_engine: lru_engine radix_inv rlru radix_accepts radixCache_Put radixCache_Get radixCache_Peek radixCache_Delete
  "0 :: 'v :: zero"
proof unfold_locales
  fix c :: "'v radixCache" and k v and e :: samplingEnv
  assume inv: "radix_inv c"
  show "distinct (map fst (rlru c))" by (rule radix_inv_distinct [OF inv])
  show "\<exists>c' r w keep. radixCache_Put e k v c = Inr (c', r) \<and> radix_inv c' \<and> rlru c' = (k, w, v) # keep
      \<and> subseq keep (filter (\<lambda>x. fst x \<noteq> k) (rlru c))" if acc: "radix_accepts c k v"
  proof -
    have ok: "radixCache_weigh c k v \<le> rc_maxSize c" "putInserted (rc_ps c) \<noteq> - 1" using acc by (simp_all add: radix_accepts_def)
    obtain c' rest gc gp keep r where p: "radixCache_Put e k v c = Inr (c', r)" "radix_inv c'" "others k (rlru c) = rest @ rev gc"
      "reclaimed (rhot (rlockPressure e False c) c) rest gp keep" "rlru c' = (k, radixCache_weigh c k v, v) # keep"
      using rPut_spec [OF inv ok, of e] by blast
    have "subseq keep (others k (rlru c))" unfolding p(3) using reclaimed_subseq [OF p(4)] by (rule subseq_rev_drop_many)
    then show ?thesis using p(1,2,5) unfolding others_def by blast
  qed
  show "\<exists>c' r. radixCache_Delete e k c = Inr (c', r) \<and> radix_inv c' \<and> subseq (rlru c') (filter (\<lambda>x. fst x \<noteq> k) (rlru c))"
  proof -
    obtain c' r b gp where "radixCache_Delete e k c = Inr (c', r)" "radix_inv c'" "reclaimed b (others k (rlru c)) gp (rlru c')"
      using rDelete_spec [OF inv, of e k] by blast
    then show ?thesis using reclaimed_subseq unfolding others_def by blast
  qed
  show "\<exists>c'. radixCache_Get k c = Inr (c', case map_of (rlru c) k of Some (w, v) \<Rightarrow> v | None \<Rightarrow> 0, map_of (rlru c) k \<noteq> None)
      \<and> radix_inv c' \<and> rlru c' = (case map_of (rlru c) k of Some (w, v) \<Rightarrow> (k, w, v) # filter (\<lambda>x. fst x \<noteq> k) (rlru c) | None \<Rightarrow> rlru c)"
    using rGet_spec [OF inv, of k] unfolding others_def by blast
  show "\<exists>c'. radixCache_Peek k c = Inr (c', case map_of (rlru c) k of Some (w, v) \<Rightarrow> v | None \<Rightarrow> 0, map_of (rlru c) k \<noteq> None)
      \<and> radix_inv c' \<and> rlru c' = rlru c"
    using rPeek_spec [OF inv, of k] by blast
qed

subsection \<open>What operations do to keys\<close>

lemma rReplace_keys:
  fixes c :: "('v :: zero) radixCache"
  assumes inv: "radix_inv c"
  shows "\<exists>c' r. radixCache_Replace env k v c = Inr (c', r) \<and> radix_inv c' \<and> rcfg c' = rcfg c
    \<and> fst ` set (rlru c') \<subseteq> fst ` set (rlru c)"
proof (cases "map_of (rlru c) k")
  case None
  show ?thesis using rReplace_absent_spec [OF inv None, of env v] by (metis order_refl)
next
  case (Some y)
  obtain w0 v0 where "y = (w0, v0)" by (rule prod.exhaust)
  then have "(k, w0, v0) \<in> set (rlru c)" using Some by (simp add: map_of_SomeD)
  then obtain newer older where lru: "rlru c = newer @ (k, w0, v0) # older" by (metis split_list)
  show ?thesis
  proof (cases "weight_sum (map (\<lambda>y. entry_weight y) newer) + unat (radixCache_weigh c k v) \<le> unat (rc_maxSize c)")
    case True
    obtain c' r kept gc b gp where p: "radixCache_Replace env k v c = Inr (c', r)" "radix_inv c'" "rcfg c' = rcfg c" "older = kept @ rev gc"
      "reclaimed b (newer @ (k, radixCache_weigh c k v, v) # kept) gp (rlru c')"
      using rReplace_fits_spec [OF inv lru True, of env] by blast
    have "fst ` set (newer @ (k, radixCache_weigh c k v, v) # kept) \<subseteq> fst ` set (rlru c)" unfolding lru p(4) by auto
    then have "fst ` set (rlru c') \<subseteq> fst ` set (rlru c)"
      using image_mono [OF subseq_mem [OF reclaimed_subseq [OF p(5)]], of fst] by blast
    then show ?thesis using p(1-3) by blast
  next
    case False
    then have "unat (rc_maxSize c) < weight_sum (map (\<lambda>y. entry_weight y) newer) + unat (radixCache_weigh c k v)" by simp
    from rReplace_self_evicts_spec [OF inv lru this, of env] obtain c' r b gp where
      p: "radixCache_Replace env k v c = Inr (c', r)" "radix_inv c'" "rcfg c' = rcfg c" "reclaimed b (newer @ older) gp (rlru c')" by blast
    have "fst ` set (newer @ older) \<subseteq> fst ` set (rlru c)" unfolding lru by auto
    then have "fst ` set (rlru c') \<subseteq> fst ` set (rlru c)"
      using image_mono [OF subseq_mem [OF reclaimed_subseq [OF p(4)]], of fst] by blast
    then show ?thesis using p(1-3) by blast
  qed
qed

lemma rPut_keys:
  fixes c :: "('v :: zero) radixCache"
  assumes inv: "radix_inv c" and room: "putInserted (rc_ps c) \<noteq> - 1"
  shows "\<exists>c' r. radixCache_Put env k v c = Inr (c', r) \<and> radix_inv c' \<and> rcfg c' = rcfg c
    \<and> fst ` set (rlru c') \<subseteq> insert k (fst ` set (rlru c))"
proof (cases "radixCache_weigh c k v \<le> rc_maxSize c")
  case True
  obtain c' r rest gc b gp keep where p: "radixCache_Put env k v c = Inr (c', r)" "radix_inv c'" "rcfg c' = rcfg c"
    "others k (rlru c) = rest @ rev gc" "reclaimed b rest gp keep" "rlru c' = (k, radixCache_weigh c k v, v) # keep"
    using rPut_spec [OF inv True room, of env] by blast
  have "set keep \<subseteq> set (others k (rlru c))" using subseq_mem [OF reclaimed_subseq [OF p(5)]] p(4) by auto
  then have "fst ` set (rlru c') \<subseteq> insert k (fst ` set (rlru c))" using p(6) by (auto simp: others_def)
  then show ?thesis using p(1-3) by blast
next
  case False
  then have "rc_maxSize c < radixCache_weigh c k v" by simp
  from rPut_oversized_spec [OF inv this, of env] show ?thesis by (metis subset_insertI)
qed

lemma rEvaluate_keeps:
  fixes c :: "('v :: zero) radixCache"
  assumes "radix_inv c"
  shows "\<exists>c' r. radixCache_EvaluateMemoryPressure env c = Inr (c', r) \<and> radix_inv c' \<and> rcfg c' = rcfg c"
proof -
  have "valid_pressure (h_pressure emptyShardSample)" by (simp add: emptyShardSample_def)
  then obtain c' q' vs out where "radixCache_evaluateShardPressure env emptyShardSample (c, newEvictQueue True) = Inr ((c', q'), vs, out)"
    "radix_inv c'" "rcfg c' = rcfg c"
    using revaluateShard_spec [OF assms, where h = emptyShardSample and env = env and q = "newEvictQueue True"] qsim_refl [OF queue_wf_new] by blast
  then show ?thesis by (simp add: radixCache_EvaluateMemoryPressure_def)
qed

subsection \<open>Reachable states\<close>

fun runRadixOp :: "samplingEnv \<Rightarrow> 'v mapOp \<Rightarrow> ('v :: zero) radixCache \<Rightarrow> 'v radixCache res" where
  "runRadixOp env (OpPut k v) c = bindr (radixCache_Put env k v c) (\<lambda>(c', _). Inr c')"
| "runRadixOp env (OpGet k) c = bindr (radixCache_Get k c) (\<lambda>(c', _). Inr c')"
| "runRadixOp env (OpPeek k) c = bindr (radixCache_Peek k c) (\<lambda>(c', _). Inr c')"
| "runRadixOp env (OpDelete k) c = bindr (radixCache_Delete env k c) (\<lambda>(c', _). Inr c')"
| "runRadixOp env (OpReplace k v) c = bindr (radixCache_Replace env k v c) (\<lambda>(c', _). Inr c')"
| "runRadixOp env (OpDeletePrefix pre) c = bindr (radixCache_DeletePrefix env pre c) (\<lambda>(c', _). Inr c')"
| "runRadixOp env (OpIterate yld) c = bindr (radixCache_iterateAll yld c) (\<lambda>_. Inr c)"
| "runRadixOp env OpCompact c = radixCache_Compact c"
| "runRadixOp env OpEvaluate c = bindr (radixCache_EvaluateMemoryPressure env c) (\<lambda>(c', _). Inr c')"
| "runRadixOp env OpStats c = bindr (radixCache_Stats c) (\<lambda>_. Inr c)"

inductive radixReachable :: "u64 \<Rightarrow> 'v Options \<Rightarrow> ('v :: zero) radixCache \<Rightarrow> bool" for maxSz opts where
  start: "newRadixCacheWithOptions maxSz opts = Inr c \<Longrightarrow> radixReachable maxSz opts c"
| step: "radixReachable maxSz opts c \<Longrightarrow> putInserted (rc_ps c) \<noteq> - 1 \<Longrightarrow> runRadixOp env opn c = Inr c' \<Longrightarrow>
    radixReachable maxSz opts c'"

lemma runRadixOp_keeps:
  fixes c :: "('v :: zero) radixCache"
  assumes inv: "radix_inv c" and room: "putInserted (rc_ps c) \<noteq> - 1"
  shows "\<exists>c'. runRadixOp env opn c = Inr c' \<and> radix_inv c' \<and> rcfg c' = rcfg c"
proof (cases opn)
  case (OpPut k v)
  then show ?thesis using rPut_keys [OF inv room, of env k v] by auto
next
  case (OpGet k)
  then show ?thesis using rGet_spec [OF inv, of k] by auto
next
  case (OpPeek k)
  then show ?thesis using rPeek_spec [OF inv, of k] by auto
next
  case (OpDelete k)
  then show ?thesis using rDelete_spec [OF inv, of env k] by auto
next
  case (OpReplace k v)
  then show ?thesis using rReplace_keys [OF inv, of env k v] by auto
next
  case (OpDeletePrefix pre)
  then show ?thesis using rDeletePrefix_spec [OF inv, where env = env and pre = pre] by auto
next
  case (OpIterate yld)
  then show ?thesis using riterateAll_spec [OF inv, of yld] inv by auto
next
  case OpCompact
  then show ?thesis using rCompact_spec [OF inv] by auto
next
  case OpEvaluate
  then show ?thesis using rEvaluate_keeps [OF inv, of env] by auto
next
  case OpStats
  then show ?thesis using rStats_total [OF inv] inv by auto
qed

lemma radix_reachable_inv:
  assumes "radixReachable maxSz opts c" "thresholds_ok opts" "maxSz \<noteq> 0"
  shows "radix_inv c \<and> rc_maxSize c = maxSz"
  using assms(1)
proof induction
  case (start c)
  then show ?case using rnew_inv assms(2,3) by blast
next
  case (step c env opn c')
  then show ?case using runRadixOp_keeps [of c env opn] rcfg_simps [of c' c] by auto
qed

subsection \<open>What callers can rely on\<close>

text \<open>
  C24. Every state a sequence of calls can reach from a new radix cache is consistent: the size counter is
  the sum of the weights of the entries and never exceeds the capacity, no key occurs twice, the tree answers a
  lookup exactly for the keys in the recency list, with the node that spells the key, and the run-time
  invariant checks of the code pass.
\<close>
theorem radixReachable_consistent:
  fixes c :: "('v :: zero) radixCache"
  assumes r: "radixReachable maxSz opts c" and t: "thresholds_ok opts" and m: "maxSz \<noteq> 0"
  shows "unat (rc_currentSize c) = weight_sum (map (\<lambda>x. entry_weight x) (rlru c)) \<and> rc_currentSize c \<le> maxSz
    \<and> distinct (map (\<lambda>x. entry_key x) (rlru c))
    \<and> (\<exists>a. radixCache_getNode c k = Inr a \<and> (a = None \<longleftrightarrow> k \<notin> set (map (\<lambda>x. entry_key x) (rlru c)))
        \<and> (a \<noteq> None \<longrightarrow> radixCache_reconstructKey c a = Inr k))
    \<and> radixCache_checkInvariants c = Inr ()"
proof -
  have inv: "radix_inv c" and mx: "rc_maxSize c = maxSz" using radix_reachable_inv [OF r t m] by auto
  obtain K where md: "rmid (sizes (rc_heap c)) 0 0 0 0 K c (raddrs c)" by (rule radix_invD [OF inv])
  note d = rmidD [OF md]
  have lr: "rlru c = map (\<lambda>a. (K a, rn_size (rc_heap c a), rn_value (rc_heap c a))) (raddrs c)"
    unfolding rlru_rmid [OF md] by (simp add: ents_def payload_def)
  have w: "map (\<lambda>x. entry_weight x) (rlru c) = map (sizes (rc_heap c)) (raddrs c)" by (simp add: lr sizes_def comp_def)
  have "unat (rc_currentSize c) = weight_sum (map (\<lambda>x. entry_weight x) (rlru c))" "rc_currentSize c \<le> maxSz"
    unfolding w using d(2) mx by (simp_all add: mid_def)
  moreover have "\<exists>a. radixCache_getNode c k = Inr a \<and> (a = None \<longleftrightarrow> k \<notin> set (map (\<lambda>x. entry_key x) (rlru c)))
      \<and> (a \<noteq> None \<longrightarrow> radixCache_reconstructKey c a = Inr k)"
    using bound_getNode [OF d(1), of k] bound_reconstructKey [OF d(1)]
    by (cases "find (\<lambda>a. K a = k) (raddrs c)") (auto simp: lr find_None_iff find_Some_iff)
  ultimately show ?thesis using radix_inv_distinct [OF inv] rcheckInvariants_ok [OF inv] by simp
qed

text \<open>
  C25. No call on a reachable radix cache panics, dereferences nil or runs forever: each operation returns a
  state, and it is again reachable (the insertion counter must not have reached its last value).
\<close>
theorem radixReachable_no_panic:
  fixes c :: "('v :: zero) radixCache"
  assumes r: "radixReachable maxSz opts c" and t: "thresholds_ok opts" and m: "maxSz \<noteq> 0" and room: "putInserted (rc_ps c) \<noteq> - 1"
  shows "\<exists>c'. runRadixOp env opn c = Inr c' \<and> radixReachable maxSz opts c'"
proof -
  have "radix_inv c" using radix_reachable_inv [OF r t m] by blast
  then obtain c' where "runRadixOp env opn c = Inr c'" using runRadixOp_keeps [OF _ room] by blast
  then show ?thesis using radixReachable.step [OF r room] by blast
qed

text \<open>
  C26. \<open>Put\<close> on the radix backend has the effect it has on an abstract LRU list: it takes entries from the
  least recently used end for capacity, makes the key the most recent entry with its new weight and value, sheds
  others only under pressure, returns the evicted values, and makes exactly the callbacks of these events; it
  evicts no more than it needs.
\<close>
theorem radixCache_Put_ok:
  fixes c :: "('v :: zero) radixCache"
  assumes inv: "radix_inv c" and w: "radixCache_weigh c k v \<le> rc_maxSize c" and room: "putInserted (rc_ps c) \<noteq> - 1"
  shows "\<exists>c' rest gc gp keep. radixCache_Put env k v c = Inr (c', map (\<lambda>x. entry_value x) (gc @ gp), None,
        rcalls c (map (event_of EvictionReasonCapacity) gc
          @ map (event_of EvictionReasonReplaced) (filter (\<lambda>x. entry_key x = k) (rlru c))
          @ map (event_of EvictionReasonPressure) gp))
    \<and> radix_inv c' \<and> rcfg c' = rcfg c
    \<and> others k (rlru c) = rest @ rev gc
    \<and> reclaimed (rhot (rlockPressure env False c) c) rest gp keep
    \<and> rlru c' = (k, radixCache_weigh c k v, v) # keep
    \<and> (gc \<noteq> [] \<longrightarrow> (\<forall>x\<in>set (rlru c). entry_weight x \<noteq> 0) \<longrightarrow> radixCache_weigh c k v \<noteq> 0 \<longrightarrow>
        unat (rc_maxSize c) < unat (radixCache_weigh c k v) + weight_sum (map (\<lambda>x. entry_weight x) (rest @ [List.last gc])))"
  by (rule rPut_spec [OF assms])

text \<open>
  C27. \<open>DeletePrefix\<close> on the radix backend removes exactly the entries whose keys start with the prefix, by
  cutting off one subtree, and reports each of them once as deleted, in recency order when the prefix is empty;
  entries that do not match survive in their order, except those shed when a non-empty prefix is deleted under
  pressure.
\<close>
theorem radixCache_DeletePrefix_ok:
  fixes c :: "('v :: zero) radixCache" and env :: samplingEnv
  assumes inv: "radix_inv c"
  shows "\<exists>c' gd gp. radixCache_DeletePrefix env pre c
      = Inr (c', rcalls c (map (event_of EvictionReasonDeleted) gd @ map (event_of EvictionReasonPressure) gp))
    \<and> radix_inv c' \<and> rcfg c' = rcfg c
    \<and> mset gd = mset (filter (\<lambda>y. hasPrefix pre (entry_key y)) (rlru c)) \<and> (pre = [] \<longrightarrow> gd = rlru c)
    \<and> reclaimed (rhot (rshardPressure env False emptyShardSample c) c \<and> pre \<noteq> [])
        (filter (\<lambda>y. \<not> hasPrefix pre (entry_key y)) (rlru c)) gp (rlru c')"
  by (rule rDeletePrefix_spec [OF assms])

text \<open>
  C28. Inserting a key into a well-formed radix tree, whatever nodes have to be split for it, keeps the tree well
  formed: parent and sibling pointers agree, siblings are ordered by their first byte, no prefix is empty, and
  every node without a value branches. Lookup then finds the new node, whose path spells the key, and answers
  for every other key as before.
\<close>
theorem radixCache_insertNode_ok:
  fixes c :: "('v :: zero) radixCache"
  assumes t: "tree_inv c F" and f: "fcompact (bearing (rc_heap c)) F" and k: "radixCache_getNode c k = Inr None"
  shows "\<exists>c' e F'. radixCache_insertNode k v c = Inr (c', e) \<and> tree_inv c' F' \<and> fcompact (bearing (rc_heap c')) F'
    \<and> radixCache_getNode c' k = Inr (Some e) \<and> radixCache_reconstructKey c' (Some e) = Inr k \<and> rn_value (rc_heap c' e) = v
    \<and> (k' \<noteq> k \<longrightarrow> radixCache_getNode c' k' = radixCache_getNode c k')"
proof -
  have none: "(a, k) \<notin> vkeys c F" for a using getNode_spec [OF t, of k] k by auto
  obtain c' e F' where i: "radixCache_insertNode k v c = Inr (c', e)" "tree_inv c' F'" "fcompact (bearing (rc_heap c')) F'"
    "vkeys c' F' = insert (e, k) (vkeys c F)" "body (rc_heap c' e) = (0, None, None, True, v)"
    using insertNode_spec [OF t f none] unfolding inserted_def by blast
  obtain x where x: "radixCache_getNode c' k = Inr x" "\<forall>a. x = Some a \<longleftrightarrow> (a, k) \<in> vkeys c' F'" using getNode_spec [OF i(2)] by blast
  have "x = Some e" using x(2) i(4) by simp
  moreover have "radixCache_getNode c' k' = radixCache_getNode c k'" if ne: "k' \<noteq> k"
  proof -
    obtain y where y: "radixCache_getNode c' k' = Inr y" "\<forall>a. y = Some a \<longleftrightarrow> (a, k') \<in> vkeys c' F'" using getNode_spec [OF i(2)] by blast
    obtain z where z: "radixCache_getNode c k' = Inr z" "\<forall>a. z = Some a \<longleftrightarrow> (a, k') \<in> vkeys c F" using getNode_spec [OF t] by blast
    have "y = z" using y(2) z(2) i(4) ne by (cases y; cases z) auto
    then show ?thesis using y(1) z(1) by simp
  qed
  moreover have "radixCache_reconstructKey c' (Some e) = Inr k"
    by (rule reconstructKey_vkeys [OF i(2)]) (use i(4) in \<open>auto simp: vkeys_def\<close>)
  moreover have "rn_value (rc_heap c' e) = v" using i(5) by (simp add: body_def)
  ultimately show ?thesis using i(1-3) x(1) by blast
qed

subsection \<open>Witnesses\<close>

definition sampleRadix :: "nat radixCache" where
  "sampleRadix = projr (newRadixCacheWithOptions 3 sampleOpts)"

definition sampleRadixOne :: "nat radixCache" where
  "sampleRadixOne = fst (projr (radixCache_Put sampleEnv ''a'' 2 sampleRadix))"

lemma sampleRadix_new: "newRadixCacheWithOptions 3 sampleOpts = Inr sampleRadix"
  and sampleRadix_ok: "radix_inv sampleRadix" "rlru sampleRadix = []" "rc_maxSize sampleRadix = 3"
  "radixCache_weigh sampleRadix k v = word_of_nat v" "putInserted (rc_ps sampleRadix) = 0"
proof -
  obtain c where c: "newRadixCacheWithOptions 3 sampleOpts = Inr c" "radix_inv c" "rlru c = []" "rc_maxSize c = 3"
    "resolveWeigher (oWeigher sampleOpts) = Inr (rc_weigher c)" "putInserted (rc_ps c) = 0"
    using newRadixCache_inv [OF sampleOpts_ok(4), of 3] sampleOpts_ok(1-3) by (auto simp: callbackMismatch_def)
  have s: "sampleRadix = c" by (simp add: sampleRadix_def c(1))
  show "newRadixCacheWithOptions 3 sampleOpts = Inr sampleRadix" using s c by simp
  show "radix_inv sampleRadix" "rlru sampleRadix = []" "rc_maxSize sampleRadix = 3"
    "radixCache_weigh sampleRadix k v = word_of_nat v" "putInserted (rc_ps sampleRadix) = 0"
    using s c sampleOpts_ok(1) by (auto simp: radixCache_weigh_def dest: sym)
qed

lemma sampleRadixOne_ok: "radix_inv sampleRadixOne" "rlru sampleRadixOne = [(''a'', 2, 2)]"
proof -
  have w: "radixCache_weigh sampleRadix ''a'' 2 \<le> rc_maxSize sampleRadix" by (simp add: sampleRadix_ok)
  have room: "putInserted (rc_ps sampleRadix) \<noteq> - 1" by (simp add: sampleRadix_ok)
  obtain c r rest gc gp keep b where p: "radixCache_Put sampleEnv ''a'' 2 sampleRadix = Inr (c, r)" "radix_inv c"
    "others ''a'' (rlru sampleRadix) = rest @ rev gc" "reclaimed b rest gp keep"
    "rlru c = (''a'', radixCache_weigh sampleRadix ''a'' 2, 2) # keep"
    using rPut_spec [OF sampleRadix_ok(1) w room, of sampleEnv] by blast
  have s: "sampleRadixOne = c" by (simp add: sampleRadixOne_def p(1))
  show "radix_inv sampleRadixOne" "rlru sampleRadixOne = [(''a'', 2, 2)]"
    using p sampleRadix_ok by (auto simp: s others_def reclaimed_def)
qed

lemma sample_radixReachable: "radixReachable 3 sampleOpts sampleRadix"
  by (rule radixReachable.start [OF sampleRadix_new])

theorem radixReachable_consistent_witness:
  "radixCache_getNode sampleRadix ''x'' = Inr None \<and> radixCache_checkInvariants sampleRadix = Inr ()"
  using radixReachable_consistent [OF sample_radixReachable sampleOpts_ok(4), of "''x''"] by (auto simp: sampleRadix_ok)

theorem radixReachable_no_panic_witness:
  "\<exists>c'. runRadixOp sampleEnv (OpPut ''a'' 5) sampleRadix = Inr c'"
  using radixReachable_no_panic [OF sample_radixReachable sampleOpts_ok(4), of sampleEnv "OpPut ''a'' 5"]
  by (auto simp: sampleRadix_ok simp del: runRadixOp.simps)

theorem radixCache_Put_ok_witness:
  "\<exists>c' r. radixCache_Put sampleEnv ''b'' 3 sampleRadix = Inr (c', r) \<and> rlru c' = [(''b'', 3, 3)]"
proof -
  have w: "radixCache_weigh sampleRadix ''b'' 3 \<le> rc_maxSize sampleRadix" by (simp add: sampleRadix_ok)
  have room: "putInserted (rc_ps sampleRadix) \<noteq> - 1" by (simp add: sampleRadix_ok)
  show ?thesis using radixCache_Put_ok [OF sampleRadix_ok(1) w room, of sampleEnv] by (auto simp: sampleRadix_ok others_def reclaimed_def)
qed

theorem radixCache_DeletePrefix_ok_witness:
  "\<exists>c' cbs. radixCache_DeletePrefix sampleEnv ''a'' sampleRadixOne = Inr (c', cbs) \<and> radix_inv c' \<and> rlru c' = []"
  using radixCache_DeletePrefix_ok [OF sampleRadixOne_ok(1), of sampleEnv "''a''"] by (auto simp: sampleRadixOne_ok reclaimed_def)

theorem radixCache_insertNode_ok_witness:
  "\<exists>c' e. radixCache_insertNode ''ab'' 7 sampleRadix = Inr (c', e) \<and> radixCache_getNode c' ''ab'' = Inr (Some e)"
proof -
  obtain K where m: "rmid (sizes (rc_heap sampleRadix)) 0 0 0 0 K sampleRadix (raddrs sampleRadix)" by (rule radix_invD [OF sampleRadix_ok(1)])
  have as: "raddrs sampleRadix = []" using sampleRadix_ok(2) by (simp add: rlru_def)
  obtain F where F: "tree_inv sampleRadix F" "fcompact (bearing (rc_heap sampleRadix)) F"
    using rmidD(1) [OF m] by (auto simp: bound_def)
  have "radixCache_getNode sampleRadix ''ab'' = Inr None" using bound_getNode [OF rmidD(1) [OF m]] as by simp
  from radixCache_insertNode_ok [OF F this, of 7] show ?thesis by blast
qed

end
