(* ===== verification/RadixSharded.thy ===== *)
theory RadixSharded
  imports RadixTrace ShardedMap
begin

text \<open>
  The radix backend behind the sharded cache: the engine operations it provides, its constructor
  \<open>NewRadixCache\<close>, and the proof that it keeps the contract of a shard engine, so that every lemma of
  \<^verbatim>\<open>ShardedSpec\<close> holds for shards that are radix trees.
\<close>

subsection \<open>The engine and the constructor\<close>

definition setRadixCoord :: "coordState \<Rightarrow> 'v radixCache \<Rightarrow> 'v radixCache" where
  "setRadixCoord co c = onRps (\<lambda>p. p\<lparr>coord := co\<rparr>) c"

definition radixEngine :: "('v radixCache, 'v :: zero) shardEngine" where
  "radixEngine = \<lparr>en_new = newRadixCacheWithOptions, en_coord = (\<lambda>c. coord (rc_ps c)), en_setCoord = setRadixCoord,
     en_Put = radixCache_Put, en_Delete = radixCache_Delete, en_Get = radixCache_Get, en_Peek = radixCache_Peek,
     en_Replace = radixCache_Replace,
     en_putWithHash = (\<lambda>_ _ _ _ _. notArena), en_deleteWithHash = (\<lambda>_ _ _ _. notArena), en_getWithHash = (\<lambda>_ _ _. notArena),
     en_peekWithHash = (\<lambda>_ _ _. notArena), en_replaceWithHash = (\<lambda>_ _ _ _ _. notArena),
     en_iterateAll = radixCache_iterateAll, en_iterateKeys = radixCache_iterateKeys,
     en_iterateValues = radixCache_iterateValues, en_Stats = radixCache_Stats, en_Compact = radixCache_Compact,
     en_deletePrefixShard = (\<lambda>env _. radixCache_deletePrefixShard env), en_evaluateShardPressure = radixCache_evaluateShardPressure\<rparr>"

datatype 'v radixBacked = OneRadix "'v radixCache" | ShardedRadixes "('v radixCache, 'v) shardedCache"

definition NewRadixCache ::
  "(string \<Rightarrow> u64) \<Rightarrow> (string \<Rightarrow> int \<Rightarrow> int) \<Rightarrow> bool \<Rightarrow> u64 \<Rightarrow> 'v goOption list \<Rightarrow> ('v :: zero) radixBacked res" where
  "NewRadixCache hash dsf isDefault maxSz opts =
    (if maxSz = 0 then Inl (Panic ''maxSize must be greater than zero'')
     else let o1 = (ApplyOptions dsf opts)\<lparr>oBackend := BackendRadix\<rparr> in
       if shouldShard o1
       then bindr (newShardedCacheWithOptions radixEngine hash dsf isDefault maxSz (Shards o1) o1) (\<lambda>c. Inr (ShardedRadixes c))
       else bindr (newRadixCacheWithOptions maxSz o1) (\<lambda>c. Inr (OneRadix c)))"

lemma radixEngine_simps [simp]:
  "en_new radixEngine = newRadixCacheWithOptions" "en_coord radixEngine = (\<lambda>c. coord (rc_ps c))" "en_setCoord radixEngine = setRadixCoord"
  "en_Put radixEngine = radixCache_Put" "en_Delete radixEngine = radixCache_Delete" "en_Get radixEngine = radixCache_Get"
  "en_Peek radixEngine = radixCache_Peek" "en_Replace radixEngine = radixCache_Replace" "en_iterateAll radixEngine = radixCache_iterateAll"
  "en_Stats radixEngine = radixCache_Stats" "en_Compact radixEngine = radixCache_Compact"
  "en_deletePrefixShard radixEngine = (\<lambda>env _. radixCache_deletePrefixShard env)"
  "en_evaluateShardPressure radixEngine = radixCache_evaluateShardPressure"
  by (simp_all add: radixEngine_def)

subsection \<open>The contract of a shard engine\<close>

lemma radix_iterateAll_upto:
  fixes c :: "('v :: zero) radixCache"
  assumes inv: "radix_inv c"
  shows "radixCache_iterateAll yld c = Inr (upto_refusal yld [] (pairs (rlru c)))"
proof -
  let ?h = "rc_heap c"
  obtain K where m: "rmid (sizes ?h) 0 0 0 0 K c (raddrs c)" by (rule radix_invD [OF inv])
  note d = rmidD [OF m]
  have it: "radixIterateLoop c yld (first as None) acc = Some (Inr (upto_refusal yld acc (map (\<lambda>a. (K a, rn_value (?h a))) as)))"
    if "lseg (entryOf K ?h) p as None" "set as \<subseteq> set (raddrs c)" for p as acc
    using that
  proof (induction as arbitrary: p acc)
    case Nil
    then show ?case by (simp add: radixIterateLoop.simps)
  next
    case (Cons a as)
    have "radixIterateLoop c yld (first as None) z = Some (Inr (upto_refusal yld z (map (\<lambda>a. (K a, rn_value (?h a))) as)))" for z
      using Cons.IH [of "Some a" z] Cons.prems by simp
    then show ?case using Cons.prems bound_reconstructKey [OF d(1), of a] by (simp add: radixIterateLoop.simps [of c yld "Some a"] Let_def)
  qed
  have ls: "lseg (entryOf K ?h) None (raddrs c) None" using d(2) by (simp add: mid_def map_repr_def dll_def)
  have "map (\<lambda>a. (K a, rn_value (?h a))) (raddrs c) = pairs (rlru c)"
    unfolding rlru_rmid [OF m] by (simp add: ents_def payload_def comp_def)
  then show ?thesis
    using it [OF ls, of "[]"] runlock_ok [OF inv] d(6)
    by (cases "upto_refusal yld [] (pairs (rlru c))") (simp add: radixCache_iterateAll_def)
qed

lemma setRadixCoord_inv: "radix_inv s \<Longrightarrow> coord_ok co \<Longrightarrow> radix_inv (setRadixCoord co s)"
proof (erule radix_invD)
  fix K assume co: "coord_ok co" and m: "rmid (sizes (rc_heap s)) 0 0 0 0 K s (raddrs s)"
  show "radix_inv (setRadixCoord co s)"
    unfolding setRadixCoord_def
    by (rule conjunct1 [OF radix_onRps [OF m]]) (use co in \<open>simp_all add: sizes_def sampling_ok_def\<close>)
qed

lemma setRadixCoord_simps [simp]:
  "rlru (setRadixCoord co s) = rlru s" "rcfg (setRadixCoord co s) = rcfg s"
  "putInserted (rc_ps (setRadixCoord co s)) = putInserted (rc_ps s)" "coord (rc_ps (setRadixCoord co s)) = co"
  "setRadixCoord co (setRadixCoord co' s) = setRadixCoord co s" "setRadixCoord (coord (rc_ps s)) s = s"
  by (simp_all add: setRadixCoord_def onRps_def rlru_def raddrs_def rkey_def radixCache_reconstructKey_def rcfg_def radixLen_def)

lemma radix_shard_stats:
  fixes c :: "('v :: zero) radixCache"
  assumes inv: "radix_inv c"
  shows "\<exists>st. radixCache_Stats c = Inr st \<and> shard_stats (length (rlru c)) st \<and> MaxSize st = rc_maxSize c
    \<and> PutInserted st = putInserted (rc_ps c) \<and> unat (CurrentSize st) = weight_sum (map (\<lambda>x. entry_weight x) (rlru c))"
proof -
  obtain K where m: "rmid (sizes (rc_heap c)) 0 0 0 0 K c (raddrs c)" by (rule radix_invD [OF inv])
  note d = rmidD [OF m]
  have ew: "map (\<lambda>x. entry_weight x) (rlru c) = map (sizes (rc_heap c)) (raddrs c)" and ln: "length (rlru c) = length (raddrs c)"
    by (simp_all add: rlru_def sizes_def comp_def)
  have "ps_ok (rc_ps c) (length (raddrs c)) (count_list (map (sizes (rc_heap c)) (raddrs c)) 0) 0 0 0"
    "unat (rc_currentSize c) = weight_sum (map (sizes (rc_heap c)) (raddrs c))" "rc_currentSize c \<le> rc_maxSize c"
    using d(2) by (simp_all add: mid_def)
  moreover from this(1) have "unat (deleteDeleted (rc_ps c)) \<le> unat (evictionsDeleted (rc_ps c))"
    "unat (replaceSelfEvicted (rc_ps c)) \<le> unat (evictionsCapacity (rc_ps c))"
    "unat (pressureShedsInline (rc_ps c)) + unat (pressureShedsExplicit (rc_ps c)) \<le> unat (evictionsPressure (rc_ps c))"
    unfolding ps_ok_def books_ok_def by linarith+
  ultimately show ?thesis
    using runlock_ok [OF inv] d(4) ew ln
    by (auto simp: radixCache_Stats_def snapshotBaseStats_def ps_ok_def books_ok_def shard_stats_def word_le_nat_alt)
qed

lemma radix_lookup_frame:
  fixes s :: "('v :: zero) radixCache"
  assumes "radix_inv s"
  shows "radixCache_Get k s = Inr (s', a) \<Longrightarrow> rcfg s' = rcfg s"
    and "radixCache_Peek k s = Inr (s', b) \<Longrightarrow> rcfg s' = rcfg s"
    and "radixCache_Delete env k s = Inr (s', d) \<Longrightarrow> rcfg s' = rcfg s"
  using rGet_spec [OF assms, of k] rPeek_spec [OF assms, of k] rDelete_spec [OF assms, of env k] by auto

lemma qsim_wf: "qsim e q g \<Longrightarrow> queue_wf q"
  by (simp add: qsim_def)

interpretation radix_sharded: shard_engine radix_inv rlru radix_accepts "radixEngine :: ('v radixCache, 'v :: zero) shardEngine" 0
  rcfg "\<lambda>c. putInserted (rc_ps c)"
proof (intro shard_engine.intro shard_engine_axioms.intro, goal_cases)
  case 1
  show ?case unfolding radixEngine_simps by (rule radix_engine.lru_engine_axioms)
next
  case (6 s)
  obtain K where "rmid (sizes (rc_heap s)) 0 0 0 0 K s (raddrs s)" by (rule radix_invD [OF 6])
  then show ?case using rmidD(2) by (force simp: mid_def ps_ok_def sampling_ok_def)
next
  case (7 s co)
  then show ?case by (simp add: setRadixCoord_inv)
next
  case (10 s env k v)
  then show ?case using rPut_keys [OF 10, of env k v] by simp
next
  case (11 s k v)
  then show ?case by (simp add: radix_accepts_def)
next
  case (12 s k s' a)
  then show ?case unfolding radixEngine_simps using radix_lookup_frame(1) by blast
next
  case (13 s k s' a)
  then show ?case unfolding radixEngine_simps using radix_lookup_frame(2) by blast
next
  case (14 s env k s' d)
  then show ?case unfolding radixEngine_simps using radix_lookup_frame(3) by blast
next
  case (15 s)
  then show ?case using radix_shard_stats [OF 15] by (simp add: rcfg_def)
next
  case (16 s env k v)
  then show ?case using rReplace_keys [OF 16, of env k v] by simp
next
  case (17 s)
  then show ?case using rCompact_spec [OF 17] by auto
next
  case (18 s yld)
  then show ?case using radix_iterateAll_upto [OF 18] by simp
next
  case (19 s q h rng env pre)
  then show ?case
    using rdeletePrefixShard_spec [OF 19(1,3) qsim_refl [OF 19(2)], of env pre] reclaimed_subseq qsim_wf unfolding radixEngine_simps by meson
next
  case (20 s q h env)
  then show ?case
    using revaluateShard_spec [OF 20(1,3) qsim_refl [OF 20(2)], of env] reclaimed_subseq qsim_wf unfolding radixEngine_simps by meson
qed simp_all

end
