(* ===== verification/ArenaNode.thy ===== *)
theory ArenaNode
  imports MapCache
begin

text \<open>
  The node store of the arena backend (\<^verbatim>\<open>arena_radix.go\<close>): nodes are the elements of one slice and
  refer to each other by 32-bit indices, edge labels are byte ranges of a second slice, and three
  fields share the word \<open>keyLenAndFlags\<close>.

  \<^item> A slice is a list of its elements; the capacities the code reads (\<open>cap(c.nodes)\<close>,
    \<open>cap(c.prefixArena)\<close>) are fields of their own, and \<open>ar_growCap\<close> is the capacity the run time
    chooses when \<open>append\<close> reallocates. An index, a slice expression or an \<open>unsafe.String\<close> beyond
    the length of its slice is a panic: the code itself would read stale bytes in the cases where
    the capacity still allows it.
  \<^item> \<open>[32]prefixSpan\<close> with \<open>freePrefixCount\<close> is the list of its first \<open>freePrefixCount\<close> elements.
  \<^item> \<open>ar_hash\<close> is \<open>maphash.String(c.seed, \<cdot>)\<close>; nothing is assumed of it. Lengths are \<open>nat\<close>.
\<close>

unbundle bit_operations_syntax

type_synonym u32 = "32 word"
type_synonym u16 = "16 word"
type_synonym u8 = "8 word"

definition nilNode :: u32 where "nilNode = 0xFFFFFFFF"
definition foregroundNoProtect :: u32 where "foregroundNoProtect = nilNode - 1"
definition nodeHasValueBit :: u32 where "nodeHasValueBit = push_bit 31 1"
definition nodeKeyLenBits :: nat where "nodeKeyLenBits = 17"
definition nodeKeyLenMask :: u32 where "nodeKeyLenMask = push_bit nodeKeyLenBits 1 - 1"
definition nodeTagLowBits :: nat where "nodeTagLowBits = 14"
definition nodeTagLowMask :: u32 where
  "nodeTagLowMask = push_bit nodeKeyLenBits (push_bit nodeTagLowBits 1 - 1)"
definition hashTag21Mask :: u32 where "hashTag21Mask = push_bit (nodeTagLowBits + 7) 1 - 1"
definition largePrefixSentinel :: u16 where "largePrefixSentinel = 0xFFFF"
definition prefixFlagPinned :: u8 where "prefixFlagPinned = 1"
definition minHashSlotsCap :: nat where "minHashSlotsCap = 16"
definition maxPrefixArenaBytes :: nat where "maxPrefixArenaBytes = 0xFFFFFFFF"

record arenaHashSlot =
  hs_tag :: u32
  hs_nodeID :: u32

record prefixSpan =
  sp_off :: u32
  sp_len :: u32

definition zeroSlot :: arenaHashSlot where "zeroSlot = \<lparr>hs_tag = 0, hs_nodeID = 0\<rparr>"
definition zeroSpan :: prefixSpan where "zeroSpan = \<lparr>sp_off = 0, sp_len = 0\<rparr>"

record 'v arenaRadixNode =
  an_prefixOff :: u32
  an_prefixLen :: u16
  an_firstByte :: char
  an_prefixFlags :: u8
  an_size :: u64
  an_parent :: u32
  an_child :: u32
  an_sibling :: u32
  an_prev :: u32
  an_next :: u32
  an_keyLenAndFlags :: u32
  an_value :: 'v

subsection \<open>The packed word\<close>

definition an_hasValue :: "'v arenaRadixNode \<Rightarrow> bool" where
  "an_hasValue n = (an_keyLenAndFlags n AND nodeHasValueBit \<noteq> 0)"

definition an_setHasValue :: "bool \<Rightarrow> 'v arenaRadixNode \<Rightarrow> 'v arenaRadixNode" where
  "an_setHasValue v n = (if v
     then n\<lparr>an_keyLenAndFlags := an_keyLenAndFlags n OR nodeHasValueBit\<rparr>
     else n\<lparr>an_keyLenAndFlags := an_keyLenAndFlags n AND NOT nodeHasValueBit\<rparr>)"

definition an_keyLen :: "'v arenaRadixNode \<Rightarrow> nat" where
  "an_keyLen n = unat (an_keyLenAndFlags n AND nodeKeyLenMask)"

definition an_setKeyLen :: "int \<Rightarrow> 'v arenaRadixNode \<Rightarrow> 'v arenaRadixNode" where
  "an_setKeyLen k n = (let kl = (word_of_int (min (max k 0) (uint nodeKeyLenMask)) :: u32) in
     n\<lparr>an_keyLenAndFlags := (an_keyLenAndFlags n AND NOT nodeKeyLenMask) OR kl\<rparr>)"

definition an_setHashTag21 :: "u32 \<Rightarrow> 'v arenaRadixNode \<Rightarrow> 'v arenaRadixNode" where
  "an_setHashTag21 tag n = (let
     low14 = push_bit nodeKeyLenBits (tag AND 0x3FFF);
     n1 = n\<lparr>an_keyLenAndFlags := (an_keyLenAndFlags n AND NOT nodeTagLowMask) OR low14\<rparr>;
     high7 = push_bit 1 (ucast (drop_bit nodeTagLowBits tag AND 0x7F) :: u8)
     in n1\<lparr>an_prefixFlags := (an_prefixFlags n1 AND prefixFlagPinned) OR high7\<rparr>)"

definition an_hashTag21 :: "'v arenaRadixNode \<Rightarrow> u32" where
  "an_hashTag21 n = (let
     low14 = drop_bit nodeKeyLenBits (an_keyLenAndFlags n AND nodeTagLowMask);
     high7 = push_bit nodeTagLowBits (ucast (drop_bit 1 (an_prefixFlags n)) :: u32)
     in low14 OR high7)"

abbreviation an_pinned :: "'v arenaRadixNode \<Rightarrow> bool" where
  \<comment> \<open>\<open>flags&prefixFlagPinned != 0\<close>\<close>
  "an_pinned n \<equiv> an_prefixFlags n AND prefixFlagPinned \<noteq> 0"

abbreviation an_unpin :: "'v arenaRadixNode \<Rightarrow> 'v arenaRadixNode" where
  \<comment> \<open>\<open>n.prefixFlags &^= prefixFlagPinned\<close>\<close>
  "an_unpin n \<equiv> n\<lparr>an_prefixFlags := an_prefixFlags n AND NOT prefixFlagPinned\<rparr>"

subsection \<open>The cache structure\<close>

record 'v arenaRadix =
  ar_maxSize :: u64
  ar_currentSize :: u64
  ar_nodes :: "'v arenaRadixNode list"
  ar_nodesCap :: int
  ar_freeHead :: u32
  ar_freeCount :: u32
  ar_prefixArena :: string
  ar_prefixCap :: int
  ar_livePrefixBytes :: int
  ar_freePrefixSpans :: "prefixSpan list"
  ar_hash :: "string \<Rightarrow> u64"
  ar_hashSlots :: "arenaHashSlot list"
  ar_hashMask :: u32
  ar_hashCount :: int
  ar_collisionPeers :: "(u64 \<times> u32 list) list option"
  ar_collisionCount :: int
  ar_root :: u32
  ar_head :: u32
  ar_tail :: u32
  ar_len :: int
  ar_weigher :: "(string \<Rightarrow> 'v \<Rightarrow> u64) option"
  ar_onEvictValue :: "unit option"
  ar_onEvictEntry :: "unit option"
  ar_putPrefixSpan :: prefixSpan
  ar_recyclingForPut :: bool
  ar_nodeMapDirty :: bool
  ar_prefixExposed :: bool
  ar_growCap :: "int \<Rightarrow> int \<Rightarrow> int"  \<comment> \<open>old capacity and needed length\<close>
  ar_ps :: "'v pressureState"

abbreviation arenaIndexPanic :: go_panic where "arenaIndexPanic \<equiv> Panic ''index out of range''"
abbreviation slicePanic :: go_panic where "slicePanic \<equiv> Panic ''slice bounds out of range''"

definition nodeAt :: "'v arenaRadix \<Rightarrow> u32 \<Rightarrow> 'v arenaRadixNode res" where
  \<comment> \<open>\<open>c.nodes[k]\<close>\<close>
  "nodeAt c k = (if unat k < length (ar_nodes c) then Inr (ar_nodes c ! unat k) else Inl arenaIndexPanic)"

definition updNode ::
  "u32 \<Rightarrow> ('v arenaRadixNode \<Rightarrow> 'v arenaRadixNode) \<Rightarrow> 'v arenaRadix \<Rightarrow> 'v arenaRadix res" where
  \<comment> \<open>an assignment to fields of \<open>c.nodes[k]\<close>\<close>
  "updNode k f c = bindr (nodeAt c k) (\<lambda>n. Inr (c\<lparr>ar_nodes := (ar_nodes c)[unat k := f n]\<rparr>))"

subsection \<open>Byte slices\<close>

definition sliceBytes :: "string \<Rightarrow> nat \<Rightarrow> nat \<Rightarrow> string res" where
  \<comment> \<open>\<open>s[lo:hi]\<close>\<close>
  "sliceBytes s lo hi = (if lo \<le> hi \<and> hi \<le> length s then Inr (take (hi - lo) (drop lo s)) else Inl slicePanic)"

definition unsafeString :: "string \<Rightarrow> nat \<Rightarrow> nat \<Rightarrow> string res" where
  \<comment> \<open>\<open>unsafe.String(&s[off], n)\<close>\<close>
  "unsafeString s off n = (if off < length s \<and> off + n \<le> length s
     then Inr (take n (drop off s)) else Inl arenaIndexPanic)"

definition byteAt :: "string \<Rightarrow> nat \<Rightarrow> char res" where
  "byteAt s i = (if i < length s then Inr (s ! i) else Inl arenaIndexPanic)"

definition writeBytes :: "nat \<Rightarrow> string \<Rightarrow> string \<Rightarrow> string" where
  \<comment> \<open>the bytes \<open>x\<close> copied to position \<open>off\<close>\<close>
  "writeBytes off x s = take off s @ x @ drop (off + length x) s"

definition copyInto :: "nat \<Rightarrow> string \<Rightarrow> string \<Rightarrow> string res" where
  \<comment> \<open>\<open>copy(s[off:off+len(x)], x)\<close>\<close>
  "copyInto off x s = (if off + length x \<le> length s then Inr (writeBytes off x s) else Inl slicePanic)"

definition le_put32 :: "u32 \<Rightarrow> string" where
  \<comment> \<open>\<open>binary.LittleEndian.PutUint32\<close>\<close>
  "le_put32 w = map (\<lambda>k. char_of (unat (drop_bit (8 * k) w AND 0xFF))) [0..<4]"

definition le_get32 :: "string \<Rightarrow> u32" where
  \<comment> \<open>\<open>binary.LittleEndian.Uint32\<close> of four bytes\<close>
  "le_get32 b = foldr (\<lambda>x w. of_nat (of_char x) OR push_bit 8 w) b 0"

definition appendBytes :: "string \<Rightarrow> 'v arenaRadix \<Rightarrow> 'v arenaRadix" where
  \<comment> \<open>\<open>c.prefixArena = append(c.prefixArena, x...)\<close>\<close>
  "appendBytes x c = (let n = int (length (ar_prefixArena c) + length x) in
     c\<lparr>ar_prefixArena := ar_prefixArena c @ x,
       ar_prefixCap := if n \<le> ar_prefixCap c then ar_prefixCap c else ar_growCap c (ar_prefixCap c) n\<rparr>)"

subsection \<open>Facts about the packed word\<close>

lemmas arena_masks = nodeHasValueBit_def nodeKeyLenMask_def nodeTagLowMask_def hashTag21Mask_def
  nodeKeyLenBits_def nodeTagLowBits_def prefixFlagPinned_def

named_theorems arena_pack \<open>reading one packed field after writing another\<close>

lemma bit_nodeHasValueBit: "bit nodeHasValueBit k \<longleftrightarrow> k = 31"
  unfolding nodeHasValueBit_def by (auto simp only: bit_push_bit_iff bit_1_iff) simp_all

lemma nodeKeyLenMask_mask: "nodeKeyLenMask = mask 17"
  by (simp add: arena_masks mask_numeral)

lemma nodeTagLowMask_mask: "nodeTagLowMask = push_bit 17 (mask 14)"
  by (simp add: arena_masks mask_numeral)

lemma bit_nodeKeyLenMask: "bit nodeKeyLenMask k \<longleftrightarrow> k < 17"
  unfolding nodeKeyLenMask_mask by (auto simp only: bit_mask_iff) simp_all

lemma bit_nodeTagLowMask: "bit nodeTagLowMask k \<longleftrightarrow> 17 \<le> k \<and> k < 31"
  unfolding nodeTagLowMask_mask by (auto simp only: bit_push_bit_iff bit_mask_iff) simp_all

lemmas node_bits = bit_nodeHasValueBit bit_nodeKeyLenMask bit_nodeTagLowMask

lemma nonzero_word_bit: "(w :: 'a :: len word) \<noteq> 0 \<longleftrightarrow> (\<exists>k. bit w k)"
  using bit_imp_le_length [of w] by (auto simp: bit_eq_iff)

lemma hasValue_bit: "an_hasValue n \<longleftrightarrow> bit (an_keyLenAndFlags n) 31"
  unfolding an_hasValue_def nonzero_word_bit by (auto simp: bit_and_iff node_bits)

lemma bit_tag_const: "bit (0x3FFF :: u32) k \<longleftrightarrow> k < 14" "bit (0x7F :: u32) k \<longleftrightarrow> k < 7"
proof -
  have *: "(0x3FFF :: u32) = mask 14" "(0x7F :: u32) = mask 7" by (simp_all add: mask_numeral)
  show "bit (0x3FFF :: u32) k \<longleftrightarrow> k < 14" "bit (0x7F :: u32) k \<longleftrightarrow> k < 7"
    unfolding * by (auto simp only: bit_mask_iff) simp_all
qed

lemma bit_low14: "bit (push_bit nodeKeyLenBits (t AND 0x3FFF) :: u32) k \<longleftrightarrow> 17 \<le> k \<and> k < 31 \<and> bit t (k - 17)"
  unfolding nodeKeyLenBits_def bit_push_bit_iff bit_and_iff bit_tag_const by (auto dest: bit_imp_le_length)

lemma bit_high7:
  "bit (push_bit 1 (ucast (drop_bit nodeTagLowBits (t :: u32) AND 0x7F) :: u8)) k \<longleftrightarrow> 1 \<le> k \<and> k < 8 \<and> bit t (k + 13)"
  unfolding nodeTagLowBits_def bit_push_bit_iff bit_unsigned_iff bit_and_iff bit_drop_bit_eq bit_tag_const comp_def
  by (auto simp: add.commute)

lemma setHashTag21_sel:
  "an_keyLenAndFlags (an_setHashTag21 t n) =
     (an_keyLenAndFlags n AND NOT nodeTagLowMask) OR push_bit nodeKeyLenBits (t AND 0x3FFF)"
  "an_prefixFlags (an_setHashTag21 t n) =
     (an_prefixFlags n AND prefixFlagPinned) OR push_bit 1 (ucast (drop_bit nodeTagLowBits t AND 0x7F))"
  by (cases n; simp only: an_setHashTag21_def Let_def arenaRadixNode.simps)+

lemma bit_u32: "bit (w :: u32) k \<Longrightarrow> k < 32"
  using bit_imp_le_length [of w k] by simp

lemma bit_u8: "bit (w :: u8) k \<Longrightarrow> k < 8"
  using bit_imp_le_length [of w k] by simp

lemma setHashTag21_bits: "bit (an_keyLenAndFlags (an_setHashTag21 t n)) k \<longleftrightarrow>
   (if 17 \<le> k \<and> k < 31 then bit t (k - 17) else bit (an_keyLenAndFlags n) k)"
  unfolding setHashTag21_sel bit_or_iff bit_and_iff bit_not_iff bit_low14 node_bits
  by (auto dest: bit_imp_le_length)

lemma bit_pinned_mask: "bit prefixFlagPinned k \<longleftrightarrow> k = 0"
  by (simp add: prefixFlagPinned_def bit_1_iff)

lemma setHashTag21_flag_bits: "bit (an_prefixFlags (an_setHashTag21 t n)) k \<longleftrightarrow>
   (if 1 \<le> k \<and> k < 8 then bit t (k + 13) else bit (an_prefixFlags n) k)"
  unfolding setHashTag21_sel bit_or_iff bit_and_iff bit_high7 bit_pinned_mask
  by (auto dest: bit_u8)

lemma hashTag21_bits: "bit (an_hashTag21 n) k \<longleftrightarrow>
   (if k < 14 then bit (an_keyLenAndFlags n) (k + 17) else k < 21 \<and> bit (an_prefixFlags n) (k - 13))"
proof -
  have 1: "bit (drop_bit nodeKeyLenBits (an_keyLenAndFlags n AND nodeTagLowMask)) k
      \<longleftrightarrow> bit (an_keyLenAndFlags n) (k + 17) \<and> k < 14"
    unfolding nodeKeyLenBits_def bit_drop_bit_eq bit_and_iff node_bits comp_def by (auto simp: add.commute)
  have 2: "bit (push_bit nodeTagLowBits (ucast (drop_bit 1 (an_prefixFlags n)) :: u32)) k
      \<longleftrightarrow> 14 \<le> k \<and> k < 21 \<and> bit (an_prefixFlags n) (k - 13)"
  proof -
    have "14 \<le> k \<Longrightarrow> Suc (k - 14) = k - 13" by simp
    then show ?thesis
      unfolding nodeTagLowBits_def bit_push_bit_iff bit_unsigned_iff bit_drop_bit_eq comp_def
      using bit_u8 [of "an_prefixFlags n" "k - 13"] by auto
  qed
  show ?thesis
    unfolding an_hashTag21_def Let_def bit_or_iff 1 2 by auto
qed

lemma setKeyLen_sel:
  "an_keyLenAndFlags (an_setKeyLen j n) =
     (an_keyLenAndFlags n AND NOT nodeKeyLenMask) OR word_of_int (min (max j 0) (uint nodeKeyLenMask))"
  "an_prefixFlags (an_setKeyLen j n) = an_prefixFlags n"
  by (cases n; simp only: an_setKeyLen_def Let_def arenaRadixNode.simps)+

definition clampKeyLen :: "int \<Rightarrow> int" where "clampKeyLen j = min (max j 0) 0x1FFFF"

lemma setKeyLen_clamp: "an_keyLenAndFlags (an_setKeyLen j n) =
    (an_keyLenAndFlags n AND NOT nodeKeyLenMask) OR word_of_int (clampKeyLen j)"
  by (simp add: setKeyLen_sel clampKeyLen_def arena_masks)

lemma clamp_mask: "(word_of_int (clampKeyLen j) :: u32) AND nodeKeyLenMask = word_of_int (clampKeyLen j)"
proof -
  have "take_bit 17 (clampKeyLen j) = clampKeyLen j"
    by (rule take_bit_int_eq_self) (auto simp: clampKeyLen_def)
  then show ?thesis unfolding nodeKeyLenMask_mask by (simp only: and_mask_wi)
qed

lemma clamp_bits: "bit (word_of_int (clampKeyLen j) :: u32) k \<Longrightarrow> k < 17"
  by (metis clamp_mask bit_and_iff bit_nodeKeyLenMask)

lemma setKeyLen_bits: "bit (an_keyLenAndFlags (an_setKeyLen j n)) k \<longleftrightarrow>
   (if k < 17 then bit (word_of_int (clampKeyLen j) :: u32) k else bit (an_keyLenAndFlags n) k)"
  unfolding setKeyLen_clamp bit_or_iff bit_and_iff bit_not_iff node_bits
  by (auto dest: clamp_bits bit_imp_le_length)

lemma setHasValue_bits: "bit (an_keyLenAndFlags (an_setHasValue v n)) k \<longleftrightarrow>
   (if k = 31 then v else bit (an_keyLenAndFlags n) k)"
  by (cases v; simp add: an_setHasValue_def bit_or_iff bit_and_iff bit_not_iff node_bits)
    (auto dest: bit_u32)

lemma keyLen_cong: "(\<And>k. k < 17 \<Longrightarrow> bit (an_keyLenAndFlags n) k = bit (an_keyLenAndFlags m) k) \<Longrightarrow>
   an_keyLen n = an_keyLen m"
  unfolding an_keyLen_def by (rule arg_cong [where f = unat]) (auto intro!: bit_eqI simp: bit_and_iff node_bits)

lemma hashTag21_cong: "(\<And>k. 17 \<le> k \<Longrightarrow> k < 31 \<Longrightarrow> bit (an_keyLenAndFlags n) k = bit (an_keyLenAndFlags m) k) \<Longrightarrow>
   (\<And>k. 1 \<le> k \<Longrightarrow> k < 8 \<Longrightarrow> bit (an_prefixFlags n) k = bit (an_prefixFlags m) k) \<Longrightarrow> an_hashTag21 n = an_hashTag21 m"
  by (rule bit_eqI) (auto simp: hashTag21_bits)

lemma pinned_bit: "an_pinned n \<longleftrightarrow> bit (an_prefixFlags n) 0"
  unfolding nonzero_word_bit by (auto simp: bit_and_iff bit_pinned_mask)

lemma setHashTag21_read [arena_pack]:
  "an_hashTag21 (an_setHashTag21 t n) = t AND hashTag21Mask"
  "an_keyLen (an_setHashTag21 t n) = an_keyLen n"
  "an_hasValue (an_setHashTag21 t n) = an_hasValue n"
  "an_pinned (an_setHashTag21 t n) = an_pinned n"
proof -
  have m: "bit hashTag21Mask k \<longleftrightarrow> k < 21" for k
  proof -
    have "hashTag21Mask = mask 21" by (simp add: arena_masks mask_numeral)
    then show ?thesis using bit_mask_iff [of 21 k, where 'a = u32] by simp linarith
  qed
  show "an_hashTag21 (an_setHashTag21 t n) = t AND hashTag21Mask"
    by (rule bit_eqI) (auto simp: hashTag21_bits setHashTag21_bits setHashTag21_flag_bits bit_and_iff m)
  show "an_keyLen (an_setHashTag21 t n) = an_keyLen n"
    by (rule keyLen_cong) (simp add: setHashTag21_bits)
  show "an_hasValue (an_setHashTag21 t n) = an_hasValue n"
    by (simp add: hasValue_bit setHashTag21_bits)
  show "an_pinned (an_setHashTag21 t n) = an_pinned n"
    unfolding pinned_bit by (simp add: setHashTag21_flag_bits)
qed

lemma setKeyLen_read [arena_pack]:
  "an_keyLen (an_setKeyLen j n) = nat (clampKeyLen j)"
  "an_hashTag21 (an_setKeyLen j n) = an_hashTag21 n"
  "an_hasValue (an_setKeyLen j n) = an_hasValue n"
proof -
  have "an_keyLenAndFlags (an_setKeyLen j n) AND nodeKeyLenMask = word_of_int (clampKeyLen j)"
    by (rule bit_eqI) (auto simp: bit_and_iff node_bits setKeyLen_bits dest: clamp_bits)
  then show "an_keyLen (an_setKeyLen j n) = nat (clampKeyLen j)"
    by (simp add: an_keyLen_def unat_eq_nat_uint uint_word_of_int clampKeyLen_def)
  show "an_hashTag21 (an_setKeyLen j n) = an_hashTag21 n"
    by (rule hashTag21_cong) (simp_all add: setKeyLen_bits setKeyLen_sel(2))
  show "an_hasValue (an_setKeyLen j n) = an_hasValue n"
    by (simp add: hasValue_bit setKeyLen_bits)
qed

lemma setHasValue_read [arena_pack]:
  "an_hasValue (an_setHasValue v n) = v"
  "an_keyLen (an_setHasValue v n) = an_keyLen n"
  "an_hashTag21 (an_setHasValue v n) = an_hashTag21 n"
proof -
  show "an_hasValue (an_setHasValue v n) = v" by (simp add: hasValue_bit setHasValue_bits)
  show "an_keyLen (an_setHasValue v n) = an_keyLen n" by (rule keyLen_cong) (simp add: setHasValue_bits)
  show "an_hashTag21 (an_setHasValue v n) = an_hashTag21 n"
    by (rule hashTag21_cong) (simp add: setHasValue_bits, simp add: an_setHasValue_def)
qed


subsection \<open>Length headers\<close>

lemma length_le_put32 [simp]: "length (le_put32 w) = 4"
  by (simp add: le_put32_def)

lemma bit_byte_const: "bit (0xFF :: u32) k \<longleftrightarrow> k < 8"
proof -
  have "(0xFF :: u32) = mask 8" by (simp add: mask_numeral)
  then show ?thesis using bit_mask_iff [of 8 k, where 'a = u32] by simp linarith
qed

definition lowByte :: "u32 \<Rightarrow> u32" where "lowByte w = w AND 0xFF"

lemma bit_lowByte: "bit (lowByte w) k \<longleftrightarrow> k < 8 \<and> bit w k"
  unfolding lowByte_def bit_and_iff bit_byte_const by auto

lemma lowByte_less: "unat (lowByte w) < 256"
proof -
  have "lowByte w = take_bit 8 w"
    by (rule bit_eqI) (auto simp: bit_lowByte bit_take_bit_iff)
  then have "unat (lowByte w) = take_bit 8 (unat w)" by (simp only: unsigned_take_bit_eq)
  also have "\<dots> < 2 ^ 8" by (rule take_bit_nat_less_exp)
  finally show ?thesis by simp
qed

lemma byte_word: "of_nat (of_char (char_of (unat (lowByte w)) :: char)) = lowByte w"
  by (simp add: lowByte_less)

lemma le_round [simp]: "le_get32 (le_put32 w) = w"
proof (rule bit_word_eqI)
  fix k assume k: "k < LENGTH(32)"
  have l: "[0..<4] = [0, 1, 2, 3 :: nat]" by (simp add: upt_rec)
  have e: "le_get32 (le_put32 w) = lowByte w OR push_bit 8 (lowByte (drop_bit 8 w)
      OR push_bit 8 (lowByte (drop_bit 16 w) OR push_bit 8 (lowByte (drop_bit 24 w))))"
    unfolding le_get32_def le_put32_def l lowByte_def [symmetric] by (simp add: lowByte_less)
  have "k - 8 + 8 = k" if "8 \<le> k" using that by simp
  moreover have "k - 8 - 8 + 16 = k" if "16 \<le> k" using that by simp
  moreover have "k - 8 - 8 - 8 + 24 = k" if "24 \<le> k" using that by simp
  moreover have "k < 32" using k by simp
  ultimately show "bit (le_get32 (le_put32 w)) k = bit w k"
    unfolding e bit_or_iff bit_push_bit_iff bit_lowByte bit_drop_bit_eq comp_def
    by (cases "k < 8"; cases "k < 16"; cases "k < 24") (auto simp: add.commute)
qed

end
