(* ===== verification/ArenaPrefix.thy ===== *)
theory ArenaPrefix
  imports ArenaNode
begin

text \<open>
  The edge labels of the arena backend (\<^verbatim>\<open>arena_radix.go\<close>, \<open>nodePrefixLen\<close> to
  \<open>mergeNodePrefixesLocked\<close>, \<open>tryCollapseSiblingPrefixInPlaceLocked\<close> and the compaction of
  \<open>prefixArena\<close>): one byte slice holds the labels of all nodes, a label of 65,535 bytes or more is
  preceded by its length in four bytes, and released ranges are kept in a table of at most 32 spans,
  in the span set aside for the running \<open>Put\<close>, or lost until the next compaction.
\<close>

unbundle bit_operations_syntax

abbreviation isLargePrefix :: "'v arenaRadixNode \<Rightarrow> bool" where
  "isLargePrefix n \<equiv> an_prefixLen n = largePrefixSentinel"

abbreviation largeMin :: nat where
  \<comment> \<open>\<open>int(largePrefixSentinel)\<close>\<close>
  "largeMin \<equiv> unat largePrefixSentinel"

subsection \<open>Reading a label\<close>

definition nodePrefixLen :: "'v arenaRadix \<Rightarrow> u32 \<Rightarrow> nat res" where
  "nodePrefixLen c nodeID = bindr (nodeAt c nodeID) (\<lambda>n.
     if an_prefixLen n < largePrefixSentinel then Inr (unat (an_prefixLen n))
     else let off = an_prefixOff n in
       bindr (sliceBytes (ar_prefixArena c) (unat (off - 4)) (unat off)) (\<lambda>b. Inr (unat (le_get32 b))))"

definition nodePrefix :: "'v arenaRadix \<Rightarrow> u32 \<Rightarrow> string res" where
  "nodePrefix c nodeID = bindr (nodeAt c nodeID) (\<lambda>n.
     if an_prefixLen n = 0 then Inr ''''
     else if an_prefixLen n < largePrefixSentinel
     then unsafeString (ar_prefixArena c) (unat (an_prefixOff n)) (unat (an_prefixLen n))
     else let off = an_prefixOff n in
       bindr (sliceBytes (ar_prefixArena c) (unat (off - 4)) (unat off)) (\<lambda>b.
       let pLen = unat (le_get32 b) in unsafeString (ar_prefixArena c) (unat off) pLen))"

definition exposeDepth1PrefixIfNeeded :: "u32 \<Rightarrow> 'v arenaRadix \<Rightarrow> 'v arenaRadix res" where
  "exposeDepth1PrefixIfNeeded nodeID c = bindr (nodeAt c nodeID) (\<lambda>n.
     Inr (if an_parent n = ar_root c \<and> 0 < an_prefixLen n \<and> \<not> ar_prefixExposed c
          then c\<lparr>ar_prefixExposed := True\<rparr> else c))"

subsection \<open>Released spans\<close>

definition removeFreePrefixSpanAtLocked :: "nat \<Rightarrow> 'v arenaRadix \<Rightarrow> 'v arenaRadix" where
  "removeFreePrefixSpanAtLocked idx c = (let sps = ar_freePrefixSpans c in
     c\<lparr>ar_freePrefixSpans := butlast (sps[idx := last sps])\<rparr>)"

definition truncateArena :: "u32 \<Rightarrow> 'v arenaRadix \<Rightarrow> 'v arenaRadix res" where
  \<comment> \<open>\<open>c.prefixArena = c.prefixArena[:newEnd]\<close>\<close>
  "truncateArena newEnd c = (if unat newEnd \<le> length (ar_prefixArena c)
     then Inr (c\<lparr>ar_prefixArena := take (unat newEnd) (ar_prefixArena c)\<rparr>) else Inl slicePanic)"

abbreviation arenaEnd :: "'v arenaRadix \<Rightarrow> u32" where
  \<comment> \<open>\<open>uint32(len(c.prefixArena))\<close>\<close>
  "arenaEnd c \<equiv> of_nat (length (ar_prefixArena c))"

abbreviation spanEnd :: "prefixSpan \<Rightarrow> u32" where "spanEnd sp \<equiv> sp_off sp + sp_len sp"

fun findSpan :: "(prefixSpan \<Rightarrow> bool) \<Rightarrow> prefixSpan list \<Rightarrow> nat option" where
  \<comment> \<open>a loop over the table that stops at the first span of the given kind\<close>
  "findSpan P [] = None"
| "findSpan P (sp # sps) = (if P sp then Some 0 else map_option Suc (findSpan P sps))"

lemma findSpan_Some: "findSpan P sps = Some i \<longleftrightarrow> i < length sps \<and> P (sps ! i) \<and> (\<forall>j < i. \<not> P (sps ! j))"
proof (induction sps arbitrary: i)
  case (Cons sp sps)
  have "(\<exists>k. i = Suc k \<and> (k < length sps \<and> P (sps ! k) \<and> (\<forall>j < k. \<not> P (sps ! j)))) \<and> \<not> P sp \<longleftrightarrow>
     \<not> P sp \<and> i < length (sp # sps) \<and> P ((sp # sps) ! i) \<and> (\<forall>j < i. \<not> P ((sp # sps) ! j))"
    by (cases i) (auto simp: less_Suc_eq_0_disj)
  then show ?case using Cons.IH by (cases i) (auto simp: less_Suc_eq_0_disj)
qed simp

lemma findSpan_None: "findSpan P sps = None \<longleftrightarrow> (\<forall>sp \<in> set sps. \<not> P sp)"
  by (induction sps) auto

definition trimPutSpan :: "'v arenaRadix \<Rightarrow> 'v arenaRadix res" where
  "trimPutSpan c = (let sp = ar_putPrefixSpan c in
     if 0 < sp_len sp \<and> spanEnd sp = arenaEnd c
     then bindr (truncateArena (sp_off sp) c) (\<lambda>c1. Inr (c1\<lparr>ar_putPrefixSpan := zeroSpan\<rparr>)) else Inr c)"

definition trimFreeSpan :: "'v arenaRadix \<Rightarrow> ('v arenaRadix \<times> bool) res" where
  "trimFreeSpan c = (case findSpan (\<lambda>sp. spanEnd sp = arenaEnd c) (ar_freePrefixSpans c) of
     None \<Rightarrow> Inr (c, False)
   | Some i \<Rightarrow> bindr (truncateArena (sp_off (ar_freePrefixSpans c ! i)) c) (\<lambda>c1.
       Inr (removeFreePrefixSpanAtLocked i c1, True)))"

lemma trimPutSpan_spans: "trimPutSpan c = Inr c' \<Longrightarrow> ar_freePrefixSpans c' = ar_freePrefixSpans c"
  by (auto simp: trimPutSpan_def truncateArena_def Let_def split: if_splits)

lemma trimFreeSpan_shrinks:
  assumes "trimFreeSpan c = Inr (c', True)"
  shows "length (ar_freePrefixSpans c') < length (ar_freePrefixSpans c)"
proof -
  obtain i where "findSpan (\<lambda>sp. spanEnd sp = arenaEnd c) (ar_freePrefixSpans c) = Some i"
    using assms by (auto simp: trimFreeSpan_def split: option.splits)
  then have "i < length (ar_freePrefixSpans c)" by (simp add: findSpan_Some)
  then show ?thesis
    using assms by (auto simp: trimFreeSpan_def truncateArena_def removeFreePrefixSpanAtLocked_def Let_def
      findSpan_Some split: option.splits if_splits)
qed

function trimFreePrefixSpansAtTailLocked :: "'v arenaRadix \<Rightarrow> 'v arenaRadix res" where
  "trimFreePrefixSpansAtTailLocked c = (case trimPutSpan c of Inl p \<Rightarrow> Inl p
   | Inr c1 \<Rightarrow> (case trimFreeSpan c1 of Inl p \<Rightarrow> Inl p
     | Inr (c2, trimmed) \<Rightarrow>
        if \<not> trimmed \<or> sp_len (ar_putPrefixSpan c2) = 0 \<or> spanEnd (ar_putPrefixSpan c2) \<noteq> arenaEnd c2
        then Inr c2 else trimFreePrefixSpansAtTailLocked c2))"
  by pat_completeness auto
termination
proof (relation "measure (\<lambda>c. length (ar_freePrefixSpans c))", goal_cases)
  case (2 c c1 xy c2 trimmed)
  then show ?case
    using trimPutSpan_spans [of c c1] trimFreeSpan_shrinks [of c1 c2] by auto
qed simp

declare trimFreePrefixSpansAtTailLocked.simps [simp del]

fun mergeAdjacentLoop :: "prefixSpan \<Rightarrow> nat \<Rightarrow> prefixSpan list \<Rightarrow> (nat \<times> prefixSpan) option" where
  \<comment> \<open>the index and the merged span of the first neighbour from index \<open>j\<close> on\<close>
  "mergeAdjacentLoop sp j [] = None"
| "mergeAdjacentLoop sp j (other # rest) =
    (if spanEnd sp = sp_off other then Some (j, sp\<lparr>sp_len := sp_len sp + sp_len other\<rparr>)
     else if spanEnd other = sp_off sp then Some (j, sp\<lparr>sp_off := sp_off other, sp_len := sp_len sp + sp_len other\<rparr>)
     else mergeAdjacentLoop sp (Suc j) rest)"

definition mergeAdjacentFreeSpanLocked :: "nat \<Rightarrow> 'v arenaRadix \<Rightarrow> 'v arenaRadix" where
  "mergeAdjacentFreeSpanLocked mergedIdx c = (let sps = ar_freePrefixSpans c in
     case mergeAdjacentLoop (sps ! mergedIdx) (mergedIdx + 1) (drop (mergedIdx + 1) sps) of
       None \<Rightarrow> c
     | Some (j, merged) \<Rightarrow>
         removeFreePrefixSpanAtLocked j (c\<lparr>ar_freePrefixSpans := sps[mergedIdx := merged]\<rparr>))"

fun minSpan :: "nat \<Rightarrow> u32 \<Rightarrow> nat \<Rightarrow> prefixSpan list \<Rightarrow> nat \<times> u32" where
  \<comment> \<open>\<open>minIdx\<close> and \<open>minLen\<close> after the loop\<close>
  "minSpan minIdx minLen i [] = (minIdx, minLen)"
| "minSpan minIdx minLen i (sp # sps) =
    (if sp_len sp < minLen then minSpan i (sp_len sp) (Suc i) sps else minSpan minIdx minLen (Suc i) sps)"

definition recordFreePrefixSpanLocked :: "u32 \<Rightarrow> u32 \<Rightarrow> 'v arenaRadix \<Rightarrow> 'v arenaRadix" where
  "recordFreePrefixSpanLocked off spanLen c = (let
     sps = ar_freePrefixSpans c;
     endOff = off + spanLen
     in case findSpan (\<lambda>sp. spanEnd sp = off \<or> endOff = sp_off sp) sps of
       Some i \<Rightarrow> let
         sp = sps ! i;
         sp' = (if spanEnd sp = off then sp\<lparr>sp_len := sp_len sp + spanLen\<rparr>
                else sp\<lparr>sp_off := off, sp_len := sp_len sp + spanLen\<rparr>)
         in mergeAdjacentFreeSpanLocked i (c\<lparr>ar_freePrefixSpans := sps[i := sp']\<rparr>)
     | None \<Rightarrow> let
         (minIdx, minLen) = minSpan 0 0xFFFFFFFF 0 sps;
         new = \<lparr>sp_off = off, sp_len = spanLen\<rparr>
         in if length sps < 32 then c\<lparr>ar_freePrefixSpans := sps @ [new]\<rparr>
            else if minLen < spanLen then c\<lparr>ar_freePrefixSpans := sps[minIdx := new]\<rparr>
            else c)"

definition finishPutPrefixRecycleLocked :: "'v arenaRadix \<Rightarrow> 'v arenaRadix" where
  "finishPutPrefixRecycleLocked c0 = (let c = c0\<lparr>ar_recyclingForPut := False\<rparr>; sp = ar_putPrefixSpan c in
     if 0 < sp_len sp then recordFreePrefixSpanLocked (sp_off sp) (sp_len sp) (c\<lparr>ar_putPrefixSpan := zeroSpan\<rparr>)
     else c)"

fun bestFitLoop :: "u32 \<Rightarrow> prefixSpan list \<Rightarrow> nat \<Rightarrow> nat option \<Rightarrow> nat option \<times> bool" where
  \<comment> \<open>the scan from index \<open>i - 1\<close> down: an exact fit (\<open>True\<close>), or \<open>bestIdx\<close> when the scan ends\<close>
  "bestFitLoop sLen sps 0 best = (best, False)"
| "bestFitLoop sLen sps (Suc i) best = (let sp = sps ! i in
     if sp_len sp = sLen then (Some i, True)
     else bestFitLoop sLen sps i
       (if sLen < sp_len sp \<and> (case best of None \<Rightarrow> True | Some b \<Rightarrow> sp_len sp < sp_len (sps ! b))
        then Some i else best))"

definition takeFreePrefixSpanLocked :: "u32 \<Rightarrow> 'v arenaRadix \<Rightarrow> 'v arenaRadix \<times> u32 option" where
  "takeFreePrefixSpanLocked sLen c = (let sps = ar_freePrefixSpans c in
     case bestFitLoop sLen sps (length sps) None of
       (Some i, True) \<Rightarrow> (removeFreePrefixSpanAtLocked i c, Some (sp_off (sps ! i)))
     | (Some i, False) \<Rightarrow> (c\<lparr>ar_freePrefixSpans := sps[i := (sps ! i)
           \<lparr>sp_off := sp_off (sps ! i) + sLen, sp_len := sp_len (sps ! i) - sLen\<rparr>]\<rparr>, Some (sp_off (sps ! i)))
     | (None, _) \<Rightarrow> (c, None))"

definition releasePrefixSpanLocked :: "u32 \<Rightarrow> nat \<Rightarrow> bool \<Rightarrow> u8 \<Rightarrow> 'v arenaRadix \<Rightarrow> 'v arenaRadix res" where
  "releasePrefixSpanLocked off pLen isLarge flags c0 =
    (if pLen = 0 then Inr c0 else let
       c = c0\<lparr>ar_livePrefixBytes := ar_livePrefixBytes c0 - int (if isLarge then pLen + 4 else pLen)\<rparr>
     in if flags AND prefixFlagPinned \<noteq> 0 \<or> ar_prefixExposed c then Inr c
        else if unat off + pLen = length (ar_prefixArena c)
        then bindr (truncateArena (if isLarge then off - 4 else off) c) trimFreePrefixSpansAtTailLocked
        else let
          rawOff = (if isLarge then off - 4 else off);
          rawLen = (of_nat pLen :: u32) + (if isLarge then 4 else 0);
          sp = ar_putPrefixSpan c
          in if ar_recyclingForPut c \<and> 0 < sp_len sp \<and> spanEnd sp = rawOff
             then Inr (c\<lparr>ar_putPrefixSpan := sp\<lparr>sp_len := sp_len sp + rawLen\<rparr>\<rparr>)
             else if ar_recyclingForPut c \<and> 0 < sp_len sp \<and> rawOff + rawLen = sp_off sp
             then Inr (c\<lparr>ar_putPrefixSpan := \<lparr>sp_off = rawOff, sp_len = sp_len sp + rawLen\<rparr>\<rparr>)
             else if ar_recyclingForPut c \<and> sp_len sp < rawLen
             then Inr ((if 0 < sp_len sp then recordFreePrefixSpanLocked (sp_off sp) (sp_len sp) c else c)
                \<lparr>ar_putPrefixSpan := \<lparr>sp_off = rawOff, sp_len = rawLen\<rparr>\<rparr>)
             else Inr (recordFreePrefixSpanLocked rawOff rawLen c))"

definition clearNodePrefix :: "u32 \<Rightarrow> 'v arenaRadix \<Rightarrow> 'v arenaRadix res" where
  "clearNodePrefix nodeID c = bindr (nodeAt c nodeID) (\<lambda>n.
     if an_prefixLen n = 0
     then updNode nodeID (\<lambda>n. an_unpin (n\<lparr>an_prefixOff := 0, an_firstByte := CHR 0x00\<rparr>)) c
     else bindr (nodePrefixLen c nodeID) (\<lambda>pLen.
       bindr (updNode nodeID (\<lambda>n. an_unpin (n\<lparr>an_prefixOff := 0, an_prefixLen := 0, an_firstByte := CHR 0x00\<rparr>)) c) (\<lambda>c1.
       releasePrefixSpanLocked (an_prefixOff n) pLen (isLargePrefix n) (an_prefixFlags n) c1)))"

subsection \<open>Compaction and growth\<close>

fun rebuildPrefixLoop ::
  "'v arenaRadix \<Rightarrow> nat list \<Rightarrow> 'v arenaRadixNode list \<times> string \<times> nat \<Rightarrow> ('v arenaRadixNode list \<times> string \<times> nat) res" where
  \<comment> \<open>the state is the nodes, \<open>newArena\<close> and \<open>liveBytes\<close>; labels are read from the old arena\<close>
  "rebuildPrefixLoop c [] st = Inr st"
| "rebuildPrefixLoop c (k # ks) st = (let (ns, newArena, liveBytes) = st; n = ns ! k in
     if k \<noteq> unat (ar_root c) \<and> an_parent n = nilNode then rebuildPrefixLoop c ks st
     else if an_prefixLen n = 0
     then rebuildPrefixLoop c ks (ns[k := an_unpin (n\<lparr>an_prefixOff := 0\<rparr>)], newArena, liveBytes)
     else bindr (nodePrefix c (of_nat k)) (\<lambda>p. let
       (newArena1, liveBytes1) = (if isLargePrefix n
         then (newArena @ le_put32 (of_nat (length p)), liveBytes + 4) else (newArena, liveBytes));
       off = (of_nat (length newArena1) :: u32)
       in rebuildPrefixLoop c ks (ns[k := an_unpin (n\<lparr>an_prefixOff := off\<rparr>)], newArena1 @ p, liveBytes1 + length p)))"

definition rebuildPrefixArenaWithCapLocked :: "int \<Rightarrow> 'v arenaRadix \<Rightarrow> 'v arenaRadix res" where
  "rebuildPrefixArenaWithCapLocked newCap c =
     bindr (rebuildPrefixLoop c [0..<length (ar_nodes c)] (ar_nodes c, [], 0)) (\<lambda>(ns, newArena, liveBytes).
     Inr (c\<lparr>ar_nodes := ns, ar_prefixArena := newArena,
        ar_prefixCap := (if int (length newArena) \<le> newCap then newCap
                         else ar_growCap c newCap (int (length newArena))),
        ar_livePrefixBytes := int liveBytes, ar_freePrefixSpans := [],
        ar_putPrefixSpan := zeroSpan, ar_prefixExposed := False\<rparr>))"

definition compactPrefixArenaLocked :: "nat \<Rightarrow> 'v arenaRadix \<Rightarrow> 'v arenaRadix res" where
  "compactPrefixArenaLocked extraCap c = (let
     minCap = ar_livePrefixBytes c + int extraCap;
     newCap = max ((ar_livePrefixBytes c + int extraCap) * 2) 64;
     newCap' = (if minCap \<le> int maxPrefixArenaBytes \<and> int maxPrefixArenaBytes < newCap
                then int maxPrefixArenaBytes else newCap)
     in rebuildPrefixArenaWithCapLocked newCap' c)"

definition compactPrefixArenaExactLocked :: "'v arenaRadix \<Rightarrow> 'v arenaRadix res" where
  "compactPrefixArenaExactLocked c = (let exactBytes = ar_livePrefixBytes c in
     if exactBytes = 0
     then Inr (c\<lparr>ar_prefixArena := [], ar_prefixCap := 0, ar_freePrefixSpans := [],
       ar_putPrefixSpan := zeroSpan, ar_prefixExposed := False\<rparr>)
     else if int (length (ar_prefixArena c)) = exactBytes \<and> ar_prefixCap c = exactBytes \<and> \<not> ar_prefixExposed c
     then Inr c
     else rebuildPrefixArenaWithCapLocked exactBytes c)"

definition growPrefixArenaNoCompactLocked :: "nat \<Rightarrow> 'v arenaRadix \<Rightarrow> 'v arenaRadix" where
  "growPrefixArenaNoCompactLocked needed c = (let
     newCap = max (max (ar_prefixCap c * 2) (int (length (ar_prefixArena c) + needed))) 64
     in c\<lparr>ar_prefixCap := min newCap (int maxPrefixArenaBytes), ar_prefixExposed := False\<rparr>)"

definition ensurePrefixArenaCap :: "nat \<Rightarrow> 'v arenaRadix \<Rightarrow> 'v arenaRadix res" where
  "ensurePrefixArenaCap needed c0 =
     bindr (if maxPrefixArenaBytes < length (ar_prefixArena c0) + needed
              \<and> ar_livePrefixBytes c0 < int (length (ar_prefixArena c0))
            then compactPrefixArenaLocked needed c0 else Inr c0) (\<lambda>c.
     if maxPrefixArenaBytes < length (ar_prefixArena c) + needed
     then Inl (Panic ''arena radix prefix capacity exceeded limit'')
     else if int (length (ar_prefixArena c) + needed) \<le> ar_prefixCap c then Inr c
     else if ar_livePrefixBytes c < int (length (ar_prefixArena c))
        \<and> (ar_prefixExposed c \<or> ar_livePrefixBytes c * 2 \<le> int (length (ar_prefixArena c)))
     then compactPrefixArenaLocked needed c
     else Inr (growPrefixArenaNoCompactLocked needed c))"

subsection \<open>Writing a label\<close>

definition tryTakeFreePrefixPayloadSpanLocked :: "nat \<Rightarrow> nat \<Rightarrow> 'v arenaRadix \<Rightarrow> ('v arenaRadix \<times> u32 option) res" where
  "tryTakeFreePrefixPayloadSpanLocked payloadLen needed c =
    (if maxPrefixArenaBytes < needed then Inr (c, None)
     else let
       need32 = (of_nat needed :: u32);
       sp = ar_putPrefixSpan c;
       (c1, raw) = (if need32 \<le> sp_len sp
         then (c\<lparr>ar_putPrefixSpan := (if sp_len sp = need32 then zeroSpan
                   else \<lparr>sp_off = sp_off sp + need32, sp_len = sp_len sp - need32\<rparr>)\<rparr>, Some (sp_off sp))
         else if ar_freePrefixSpans c = [] then (c, None)
         else takeFreePrefixSpanLocked need32 c)
       in case raw of None \<Rightarrow> Inr (c1, None)
        | Some rawOff \<Rightarrow>
            if largeMin \<le> payloadLen
            then bindr (copyInto (unat rawOff) (le_put32 (of_nat payloadLen)) (ar_prefixArena c1)) (\<lambda>a.
                 Inr (c1\<lparr>ar_prefixArena := a\<rparr>, Some (rawOff + 4)))
            else Inr (c1, Some rawOff))"

definition copyToArena :: "u32 \<Rightarrow> string \<Rightarrow> 'v arenaRadix \<Rightarrow> 'v arenaRadix res" where
  \<comment> \<open>\<open>copy(c.prefixArena[off:int(off)+len(s)], s)\<close>\<close>
  "copyToArena off s c = bindr (copyInto (unat off) s (ar_prefixArena c)) (\<lambda>a. Inr (c\<lparr>ar_prefixArena := a\<rparr>))"

definition setLargeNodePrefix :: "u32 \<Rightarrow> string \<Rightarrow> 'v arenaRadix \<Rightarrow> 'v arenaRadix res" where
  "setLargeNodePrefix nodeID s c = (let
     sLen = length s;
     needed = sLen + 4
     in bindr (tryTakeFreePrefixPayloadSpanLocked sLen needed c) (\<lambda>(c1, taken).
        bindr (case taken of
            Some off \<Rightarrow> bindr (copyToArena off s c1) (\<lambda>c2. Inr (c2, off))
          | None \<Rightarrow> bindr (ensurePrefixArenaCap needed c1) (\<lambda>c2. let
              c3 = appendBytes (le_put32 (of_nat sLen)) c2;
              off = arenaEnd c3
              in Inr (appendBytes s c3, off))) (\<lambda>(c4, off).
        bindr (byteAt s 0) (\<lambda>b.
        bindr (updNode nodeID (\<lambda>n. an_unpin (n\<lparr>an_prefixOff := off, an_prefixLen := largePrefixSentinel,
            an_firstByte := b\<rparr>)) c4) (\<lambda>c5.
        Inr (c5\<lparr>ar_livePrefixBytes := ar_livePrefixBytes c5 + int needed\<rparr>))))))"

definition setNodePrefix :: "u32 \<Rightarrow> string \<Rightarrow> 'v arenaRadix \<Rightarrow> 'v arenaRadix res" where
  "setNodePrefix nodeID s c = (let sLen = length s in
     if sLen = 0 then clearNodePrefix nodeID c
     else bindr (nodeAt c nodeID) (\<lambda>n0.
       bindr (if an_prefixLen n0 \<noteq> 0 then clearNodePrefix nodeID c else Inr c) (\<lambda>c0.
       if largeMin \<le> sLen then setLargeNodePrefix nodeID s c0
       else bindr (tryTakeFreePrefixPayloadSpanLocked sLen sLen c0) (\<lambda>(c1, taken).
        bindr (case taken of
            Some off \<Rightarrow> bindr (copyToArena off s c1) (\<lambda>c2. Inr (c2, off))
          | None \<Rightarrow> bindr (ensurePrefixArenaCap sLen c1) (\<lambda>c2.
              let off = arenaEnd c2 in Inr (appendBytes s c2, off))) (\<lambda>(c4, off).
        bindr (byteAt s 0) (\<lambda>b.
        bindr (updNode nodeID (\<lambda>n. an_unpin (n\<lparr>an_prefixOff := off, an_prefixLen := of_nat sLen,
            an_firstByte := b\<rparr>)) c4) (\<lambda>c5.
        Inr (c5\<lparr>ar_livePrefixBytes := ar_livePrefixBytes c5 + int sLen\<rparr>))))))))"

definition setNodePrefixFromArenaSliceLocked :: "u32 \<Rightarrow> u32 \<Rightarrow> nat \<Rightarrow> 'v arenaRadix \<Rightarrow> 'v arenaRadix res" where
  "setNodePrefixFromArenaSliceLocked nodeID srcOff sLen c = (let
     needed = (if largeMin \<le> sLen then sLen + 4 else sLen)
     in bindr (tryTakeFreePrefixPayloadSpanLocked sLen needed c) (\<lambda>(c1, taken).
        bindr (case taken of
            Some dstOff \<Rightarrow> bindr (sliceBytes (ar_prefixArena c1) (unat srcOff) (unat srcOff + sLen)) (\<lambda>src.
              bindr (copyToArena dstOff src c1) (\<lambda>c2. Inr (c2, dstOff)))
          | None \<Rightarrow> let
              c2 = (if largeMin \<le> sLen then appendBytes (le_put32 (of_nat sLen)) c1 else c1);
              dstOff = arenaEnd c2
              in bindr (sliceBytes (ar_prefixArena c2) (unat srcOff) (unat srcOff + sLen)) (\<lambda>src.
                 Inr (appendBytes src c2, dstOff))) (\<lambda>(c4, dstOff).
        bindr (byteAt (ar_prefixArena c4) (unat dstOff)) (\<lambda>b.
        bindr (updNode nodeID (\<lambda>n. an_unpin (n\<lparr>an_prefixOff := dstOff,
            an_prefixLen := if largeMin \<le> sLen then largePrefixSentinel else of_nat sLen,
            an_firstByte := b\<rparr>)) c4) (\<lambda>c5.
        Inr (c5\<lparr>ar_livePrefixBytes := ar_livePrefixBytes c5 + int needed\<rparr>))))))"

subsection \<open>Splitting and merging labels\<close>

abbreviation clearLabel :: "u8 \<Rightarrow> 'v arenaRadixNode \<Rightarrow> 'v arenaRadixNode" where
  \<comment> \<open>offset, length and first byte zeroed, the flags as given\<close>
  "clearLabel flags n \<equiv> n\<lparr>an_prefixOff := 0, an_prefixLen := 0, an_firstByte := CHR 0x00, an_prefixFlags := flags\<rparr>"

abbreviation putLabel :: "u32 \<Rightarrow> u16 \<Rightarrow> char \<Rightarrow> 'v arenaRadixNode \<Rightarrow> 'v arenaRadixNode" where
  "putLabel off pl b n \<equiv> n\<lparr>an_prefixOff := off, an_prefixLen := pl, an_firstByte := b\<rparr>"

definition splitSmall :: "u32 \<Rightarrow> u32 \<Rightarrow> nat \<Rightarrow> nat \<Rightarrow> 'v arenaRadixNode \<Rightarrow> 'v arenaRadix \<Rightarrow> 'v arenaRadix res" where
  \<comment> \<open>both halves are short: they stay where they are, a length header is released\<close>
  "splitSmall childID splitNodeID lcp remLen ch c = (let
     oldOff = an_prefixOff ch;
     oldFlags = an_prefixFlags ch;
     c1 = (if isLargePrefix ch then let c0 = c\<lparr>ar_livePrefixBytes := ar_livePrefixBytes c - 4\<rparr> in
             if \<not> an_pinned ch \<and> \<not> ar_prefixExposed c0 then recordFreePrefixSpanLocked (oldOff - 4) 4 c0 else c0
           else c);
     remOff = oldOff + of_nat lcp
     in bindr (updNode splitNodeID (\<lambda>n. (putLabel oldOff (of_nat lcp) (an_firstByte ch) n)
          \<lparr>an_prefixFlags := oldFlags AND prefixFlagPinned\<rparr>) c1) (\<lambda>c2.
        bindr (byteAt (ar_prefixArena c2) (unat remOff)) (\<lambda>b.
        updNode childID (putLabel remOff (of_nat remLen) b) c2)))"

definition splitLargeHead :: "u32 \<Rightarrow> u32 \<Rightarrow> nat \<Rightarrow> nat \<Rightarrow> 'v arenaRadixNode \<Rightarrow> 'v arenaRadix \<Rightarrow> 'v arenaRadix res" where
  \<comment> \<open>the first half stays long: its header is overwritten, the rest becomes the short label\<close>
  "splitLargeHead childID splitNodeID lcp remLen ch c = (let oldOff = an_prefixOff ch in
     bindr (sliceBytes (ar_prefixArena c) (unat (oldOff - 4)) (unat oldOff)) (\<lambda>_.
     bindr (copyToArena (oldOff - 4) (le_put32 (of_nat lcp)) c) (\<lambda>c1.
     bindr (byteAt (ar_prefixArena c1) (unat oldOff)) (\<lambda>b0.
     bindr (updNode splitNodeID (\<lambda>n. an_unpin (putLabel oldOff largePrefixSentinel b0 n)) c1) (\<lambda>c2.
     let remOff = oldOff + of_nat lcp in
     bindr (byteAt (ar_prefixArena c2) (unat remOff)) (\<lambda>b.
     updNode childID (\<lambda>n. an_unpin (putLabel remOff (of_nat remLen) b n)) c2))))))"

definition splitCopy :: "u32 \<Rightarrow> u32 \<Rightarrow> nat \<Rightarrow> nat \<Rightarrow> bool \<Rightarrow> nat \<Rightarrow> 'v arenaRadix \<Rightarrow> 'v arenaRadix res" where
  \<comment> \<open>both halves are copied to spans of their own\<close>
  "splitCopy childID splitNodeID lcp remLen wasLarge oldLen c = (let
     needed1 = (if largeMin \<le> lcp then lcp + 4 else lcp);
     needed2 = (if largeMin \<le> remLen then remLen + 4 else remLen)
     in bindr (ensurePrefixArenaCap (needed1 + needed2) c) (\<lambda>c1.
        bindr (nodeAt c1 childID) (\<lambda>ch. let oldOff = an_prefixOff ch; oldFlags = an_prefixFlags ch in
        bindr (updNode childID (\<lambda>n. clearLabel (an_prefixFlags n AND NOT prefixFlagPinned) n) c1) (\<lambda>c2.
        bindr (setNodePrefixFromArenaSliceLocked splitNodeID oldOff lcp c2) (\<lambda>c3.
        bindr (setNodePrefixFromArenaSliceLocked childID (oldOff + of_nat lcp) remLen c3) (\<lambda>c4.
        releasePrefixSpanLocked oldOff oldLen wasLarge oldFlags c4))))))"

definition splitNodePrefixLocked :: "u32 \<Rightarrow> u32 \<Rightarrow> nat \<Rightarrow> 'v arenaRadix \<Rightarrow> 'v arenaRadix res" where
  \<comment> \<open>\<open>lcp\<close> is the length of a common prefix with the label, so \<open>remLen\<close> is not negative\<close>
  "splitNodePrefixLocked childID splitNodeID lcp c =
     bindr (nodePrefixLen c childID) (\<lambda>oldLen. bindr (nodeAt c childID) (\<lambda>ch. let
       remLen = oldLen - lcp;
       wasLarge = isLargePrefix ch
       in if lcp < largeMin \<and> remLen < largeMin then splitSmall childID splitNodeID lcp remLen ch c
          else if wasLarge \<and> largeMin \<le> lcp \<and> remLen < largeMin \<and> \<not> an_pinned ch \<and> \<not> ar_prefixExposed c
          then splitLargeHead childID splitNodeID lcp remLen ch c
          else splitCopy childID splitNodeID lcp remLen wasLarge oldLen c))"

definition copyMergedPrefixBytesLocked ::
  "u32 \<Rightarrow> u32 \<Rightarrow> nat \<Rightarrow> nat \<Rightarrow> nat \<Rightarrow> nat \<Rightarrow> 'v arenaRadix \<Rightarrow> ('v arenaRadix \<times> u32) res" where
  "copyMergedPrefixBytesLocked currID onlyChildID len1 len2 totalLen needed c =
     bindr (tryTakeFreePrefixPayloadSpanLocked totalLen needed c) (\<lambda>(c1, taken). case taken of
       Some newOff \<Rightarrow>
         bindr (nodeAt c1 currID) (\<lambda>n1. bindr (nodeAt c1 onlyChildID) (\<lambda>n2.
         bindr (sliceBytes (ar_prefixArena c1) (unat (an_prefixOff n1)) (unat (an_prefixOff n1) + len1)) (\<lambda>s1.
         bindr (copyToArena newOff s1 c1) (\<lambda>c2.
         bindr (sliceBytes (ar_prefixArena c2) (unat (an_prefixOff n2)) (unat (an_prefixOff n2) + len2)) (\<lambda>s2.
         bindr (copyInto (unat newOff + len1) s2 (ar_prefixArena c2)) (\<lambda>a.
         Inr (c2\<lparr>ar_prefixArena := a\<rparr>, newOff)))))))
     | None \<Rightarrow>
         bindr (ensurePrefixArenaCap needed c1) (\<lambda>c2.
         bindr (nodeAt c2 currID) (\<lambda>n1. bindr (nodeAt c2 onlyChildID) (\<lambda>n2. let
           c3 = (if largeMin \<le> totalLen then appendBytes (le_put32 (of_nat totalLen)) c2 else c2);
           newOff = arenaEnd c3
           in bindr (sliceBytes (ar_prefixArena c3) (unat (an_prefixOff n1)) (unat (an_prefixOff n1) + len1)) (\<lambda>s1.
              let c4 = appendBytes s1 c3 in
              bindr (sliceBytes (ar_prefixArena c4) (unat (an_prefixOff n2)) (unat (an_prefixOff n2) + len2)) (\<lambda>s2.
              Inr (appendBytes s2 c4, newOff)))))))"

definition mergeInPlace :: "u32 \<Rightarrow> u32 \<Rightarrow> nat \<Rightarrow> 'v arenaRadix \<Rightarrow> 'v arenaRadix res" where
  "mergeInPlace currID onlyChildID combined c = bindr (nodeAt c currID) (\<lambda>cur.
     bindr (updNode onlyChildID (\<lambda>n. (putLabel (an_prefixOff cur) (of_nat combined) (an_firstByte cur) n)
       \<lparr>an_prefixFlags := an_prefixFlags n OR (an_prefixFlags cur AND prefixFlagPinned)\<rparr>) c) (\<lambda>c1.
     updNode currID (clearLabel 0) c1))"

definition mergeShort :: "u32 \<Rightarrow> u32 \<Rightarrow> 'v arenaRadix \<Rightarrow> 'v arenaRadix res" where
  \<comment> \<open>at most 512 bytes: through a buffer\<close>
  "mergeShort currID onlyChildID c = bindr (nodePrefix c currID) (\<lambda>s1. bindr (nodePrefix c onlyChildID) (\<lambda>s2.
     bindr (clearNodePrefix onlyChildID c) (\<lambda>c1. bindr (clearNodePrefix currID c1) (\<lambda>c2.
     setNodePrefix onlyChildID (s1 @ s2) c2))))"

definition mergeLargeHead :: "u32 \<Rightarrow> u32 \<Rightarrow> nat \<Rightarrow> 'v arenaRadix \<Rightarrow> 'v arenaRadix res" where
  "mergeLargeHead currID onlyChildID totalLen c = bindr (nodeAt c currID) (\<lambda>cur.
     bindr (sliceBytes (ar_prefixArena c) (unat (an_prefixOff cur - 4)) (unat (an_prefixOff cur))) (\<lambda>_.
     bindr (copyToArena (an_prefixOff cur - 4) (le_put32 (of_nat totalLen)) c) (\<lambda>c1.
     bindr (updNode onlyChildID (putLabel (an_prefixOff cur) largePrefixSentinel (an_firstByte cur)) c1) (\<lambda>c2.
     updNode currID (clearLabel 0) c2))))"

definition mergeCopy :: "u32 \<Rightarrow> u32 \<Rightarrow> nat \<Rightarrow> nat \<Rightarrow> 'v arenaRadix \<Rightarrow> 'v arenaRadix res" where
  "mergeCopy currID onlyChildID len1 len2 c = (let
     totalLen = len1 + len2;
     needed = (if largeMin \<le> totalLen then totalLen + 4 else totalLen)
     in bindr (copyMergedPrefixBytesLocked currID onlyChildID len1 len2 totalLen needed c) (\<lambda>(c1, newOff).
        bindr (nodeAt c1 currID) (\<lambda>n1. bindr (nodeAt c1 onlyChildID) (\<lambda>n2.
        bindr (updNode currID (clearLabel 0) c1) (\<lambda>c2.
        bindr (byteAt (ar_prefixArena c2) (unat newOff)) (\<lambda>b.
        bindr (updNode onlyChildID (\<lambda>n. (putLabel newOff
             (if largeMin \<le> totalLen then largePrefixSentinel else of_nat totalLen) b n)
             \<lparr>an_prefixFlags := an_prefixFlags n2 AND NOT prefixFlagPinned\<rparr>) c2) (\<lambda>c3. let
          c4 = c3\<lparr>ar_livePrefixBytes := ar_livePrefixBytes c3 + int needed\<rparr>
          in bindr (releasePrefixSpanLocked (an_prefixOff n2) len2 (isLargePrefix n2) (an_prefixFlags n2) c4) (\<lambda>c5.
             releasePrefixSpanLocked (an_prefixOff n1) len1 (isLargePrefix n1) (an_prefixFlags n1) c5))))))))"

definition mergeNodePrefixesLocked :: "u32 \<Rightarrow> u32 \<Rightarrow> 'v arenaRadix \<Rightarrow> 'v arenaRadix res" where
  "mergeNodePrefixesLocked currID onlyChildID c =
     bindr (nodeAt c currID) (\<lambda>cur. bindr (nodeAt c onlyChildID) (\<lambda>ch. let
       combined = unat (an_prefixLen cur) + unat (an_prefixLen ch);
       short = an_prefixLen cur < largePrefixSentinel \<and> an_prefixLen ch < largePrefixSentinel
       in if short \<and> combined < largeMin \<and> an_prefixOff cur + ucast (an_prefixLen cur) = an_prefixOff ch
          then mergeInPlace currID onlyChildID combined c
          else if short \<and> combined \<le> 512 then mergeShort currID onlyChildID c
          else bindr (nodePrefixLen c currID) (\<lambda>len1. bindr (nodePrefixLen c onlyChildID) (\<lambda>len2.
            if isLargePrefix cur \<and> an_prefixLen ch < largePrefixSentinel
              \<and> an_prefixOff cur + of_nat len1 = an_prefixOff ch \<and> \<not> an_pinned cur \<and> \<not> ar_prefixExposed c
            then mergeLargeHead currID onlyChildID (len1 + len2) c
            else mergeCopy currID onlyChildID len1 len2 c))))"

definition tryCollapseSiblingPrefixInPlaceLocked ::
  "u32 \<Rightarrow> u32 \<Rightarrow> u32 \<Rightarrow> 'v arenaRadix \<Rightarrow> ('v arenaRadix \<times> bool) res" where
  "tryCollapseSiblingPrefixInPlaceLocked parentID deadLeafID onlyChildID c =
     bindr (nodeAt c parentID) (\<lambda>par. bindr (nodeAt c deadLeafID) (\<lambda>dead. bindr (nodeAt c onlyChildID) (\<lambda>ch. let
       parentLen = unat (an_prefixLen par);
       childLen = unat (an_prefixLen ch);
       combined = parentLen + childLen
       in if isLargePrefix par \<or> isLargePrefix dead \<or> isLargePrefix ch
            \<or> an_prefixLen dead < an_prefixLen ch
            \<or> largeMin \<le> combined
            \<or> an_prefixOff par + of_nat parentLen \<noteq> an_prefixOff dead
            \<or> (an_prefixFlags par OR an_prefixFlags dead) AND prefixFlagPinned \<noteq> 0 \<or> ar_prefixExposed c
          then Inr (c, False)
          else let
            dstOff = an_prefixOff dead;
            oldChildOff = an_prefixOff ch;
            oldChildFlags = an_prefixFlags ch
            in bindr (sliceBytes (ar_prefixArena c) (unat oldChildOff) (unat oldChildOff + childLen)) (\<lambda>s.
               bindr (copyToArena dstOff s c) (\<lambda>c1. let
                 extraLen = unat (an_prefixLen dead) - childLen;
                 extraOff = dstOff + of_nat childLen
                 in bindr (updNode onlyChildID (\<lambda>n. (putLabel (an_prefixOff par) (of_nat combined) (an_firstByte par) n)
                      \<lparr>an_prefixFlags := oldChildFlags AND NOT prefixFlagPinned\<rparr>) c1) (\<lambda>c2.
                    bindr (updNode parentID (clearLabel 0) c2) (\<lambda>c3.
                    bindr (updNode deadLeafID (clearLabel 0) c3) (\<lambda>c4.
                    if 0 < extraLen \<and> oldChildFlags AND prefixFlagPinned = 0 \<and> extraOff + of_nat extraLen = oldChildOff
                    then bindr (releasePrefixSpanLocked extraOff (childLen + extraLen) False 0 c4) (\<lambda>c5. Inr (c5, True))
                    else bindr (if 0 < extraLen then releasePrefixSpanLocked extraOff extraLen False 0 c4 else Inr c4) (\<lambda>c5.
                      bindr (releasePrefixSpanLocked oldChildOff childLen False oldChildFlags c5) (\<lambda>c6.
                      Inr (c6, True))))))))))) "

end
