(* ===== verification/ArenaSpans.thy ===== *)
theory ArenaSpans
  imports ArenaPrefix
begin

text \<open>
  Ownership of the bytes of \<open>prefixArena\<close>. \<open>cov off l p\<close> is 1 when byte \<open>p\<close> lies in the range of
  length \<open>l\<close> at \<open>off\<close> and 0 otherwise; the owners of a byte are counted by summing it over the
  labels and the released spans. That no byte has two owners, and that none beyond the end of the arena
  has one, is the invariant of the allocator.
\<close>

lemma unat_lt_u32: "unat (x :: u32) < 2 ^ 32"
  using unsigned_less [of x] by simp

subsection \<open>Counting the owners of a byte\<close>

definition cov :: "nat \<Rightarrow> nat \<Rightarrow> nat \<Rightarrow> nat" where
  "cov off l p = (if off \<le> p \<and> p < off + l then 1 else 0)"

lemma cov_0 [simp]: "cov off 0 p = 0"
  by (simp add: cov_def)

lemma cov_join: "cov off l p + cov (off + l) m p = cov off (l + m) p"
  by (auto simp: cov_def)

lemma cov_bound: "0 < l \<Longrightarrow> (\<And>p. n \<le> p \<Longrightarrow> cov off l p = 0) \<Longrightarrow> off + l \<le> n"
proof (rule ccontr)
  assume "0 < l" "\<And>p. n \<le> p \<Longrightarrow> cov off l p = 0" "\<not> off + l \<le> n"
  moreover from this have "n \<le> off + l - 1" by simp
  ultimately have "cov off l (off + l - 1) = 0" by blast
  then show False using \<open>0 < l\<close> by (simp add: cov_def split: if_splits)
qed

definition spanCov :: "prefixSpan \<Rightarrow> nat \<Rightarrow> nat" where
  "spanCov sp p = cov (unat (sp_off sp)) (unat (sp_len sp)) p"

definition spansCov :: "prefixSpan list \<Rightarrow> nat \<Rightarrow> nat" where
  "spansCov sps p = sum_list (map (\<lambda>sp. spanCov sp p) sps)"

lemma spansCov_simps [simp]:
  "spansCov [] p = 0" "spansCov (sp # sps) p = spanCov sp p + spansCov sps p"
  "spansCov (xs @ ys) p = spansCov xs p + spansCov ys p"
  by (simp_all add: spansCov_def)

lemma spanCov_zero [simp]: "spanCov zeroSpan p = 0"
  by (simp add: spanCov_def zeroSpan_def)

lemma spansCov_update:
  "i < length sps \<Longrightarrow> spansCov (sps[i := sp]) p + spanCov (sps ! i) p = spansCov sps p + spanCov sp p"
proof (induction sps arbitrary: i)
  case (Cons s sps)
  then show ?case by (cases i) auto
qed simp

lemma spansCov_mem: "i < length sps \<Longrightarrow> spanCov (sps ! i) p \<le> spansCov sps p"
  by (induction sps arbitrary: i) (auto simp: nth_Cons' trans_le_add2)

lemma spansCov_butlast: "sps \<noteq> [] \<Longrightarrow> spansCov (butlast sps) p + spanCov (last sps) p = spansCov sps p"
  by (induction sps) auto

lemma spansCov_remove:
  assumes "i < length sps"
  shows "spansCov (butlast (sps[i := last sps])) p + spanCov (sps ! i) p = spansCov sps p"
proof -
  have ne: "sps[i := last sps] \<noteq> []" using assms by auto
  have "last (sps[i := last sps]) = last sps"
    using assms ne last_conv_nth [OF ne] last_conv_nth [of sps]
    by (cases "i = length sps - 1") (auto simp: nth_list_update)
  then show ?thesis
    using spansCov_butlast [OF ne, of p] spansCov_update [OF assms, of "last sps" p] by simp
qed

definition spanFits :: "nat \<Rightarrow> prefixSpan \<Rightarrow> bool" where
  "spanFits n sp \<longleftrightarrow> unat (sp_len sp) = 0 \<or> unat (sp_off sp) + unat (sp_len sp) \<le> n"

lemma spanFits_mono: "spanFits n sp \<Longrightarrow> n \<le> m \<Longrightarrow> spanFits m sp"
  by (auto simp: spanFits_def)

lemma spanFits_of_cov: "(\<And>p. n \<le> p \<Longrightarrow> spanCov sp p = 0) \<Longrightarrow> spanFits n sp"
  using cov_bound [of "unat (sp_len sp)" n "unat (sp_off sp)"] by (auto simp: spanFits_def spanCov_def)

lemma spanEnd_nat:
  assumes "spanFits n sp" "n < 2 ^ 32"
  shows "unat (spanEnd sp) = unat (sp_off sp) + unat (sp_len sp)"
proof -
  have "unat (sp_off sp) + unat (sp_len sp) < 2 ^ 32"
    using assms unat_lt_u32 [of "sp_off sp"] by (auto simp: spanFits_def)
  then show ?thesis by (simp add: unat_word_ariths)
qed

definition spansFit :: "nat \<Rightarrow> prefixSpan list \<Rightarrow> bool" where
  "spansFit n sps \<longleftrightarrow> (\<forall>sp \<in> set sps. spanFits n sp)"

lemma spansFit_of_cov:
  assumes "\<And>p. n \<le> p \<Longrightarrow> spansCov sps p = 0"
  shows "spansFit n sps"
  unfolding spansFit_def
proof
  fix sp
  assume "sp \<in> set sps"
  then obtain i where "i < length sps" "sp = sps ! i" by (metis in_set_conv_nth)
  then show "spanFits n sp"
    using assms spansCov_mem [of i sps] by (intro spanFits_of_cov) (metis le_zero_eq)
qed

subsection \<open>The table of released spans\<close>

lemma spanCov_extend:
  assumes "unat o1 + unat l1 = o2" "o2 + unat l2 < 2 ^ 32"
  shows "spanCov \<lparr>sp_off = o1, sp_len = l1 + l2\<rparr> p = cov (unat o1) (unat l1) p + cov o2 (unat l2) p"
proof -
  have "unat (l1 + l2) = unat l1 + unat l2"
    using assms by (simp add: unat_word_ariths)
  then show ?thesis using assms(1) cov_join [of "unat o1" "unat l1" p "unat l2"] by (simp add: spanCov_def)
qed

lemma mergeAdjacentLoop_spec:
  assumes "mergeAdjacentLoop sp j0 rest = Some (j, sp')"
    and "spanFits (2 ^ 32 - 1) sp" "spansFit (2 ^ 32 - 1) rest"
  shows "j0 \<le> j \<and> j - j0 < length rest \<and> spanCov sp' p = spanCov sp p + spanCov (rest ! (j - j0)) p"
  using assms
proof (induction rest arbitrary: j0)
  case (Cons x rest)
  have e: "unat (spanEnd sp) = unat (sp_off sp) + unat (sp_len sp)" "unat (spanEnd x) = unat (sp_off x) + unat (sp_len x)"
    using Cons.prems(2,3) spanEnd_nat [of "2 ^ 32 - 1"] by (auto simp: spansFit_def)
  have lt: "unat (sp_off sp) + unat (sp_len sp) < 2 ^ 32" "unat (sp_off x) + unat (sp_len x) < 2 ^ 32"
    using unat_lt_u32 [of "spanEnd sp"] unat_lt_u32 [of "spanEnd x"] e by simp_all
  consider (a) "spanEnd sp = sp_off x" | (b) "spanEnd sp \<noteq> sp_off x" "spanEnd x = sp_off sp"
    | (c) "spanEnd sp \<noteq> sp_off x" "spanEnd x \<noteq> sp_off sp" by blast
  then show ?case
  proof cases
    case a
    then have "sp' = \<lparr>sp_off = sp_off sp, sp_len = sp_len sp + sp_len x\<rparr>" "j = j0" using Cons.prems(1) by auto
    moreover have "unat (sp_off sp) + unat (sp_len sp) = unat (sp_off x)" using a e by simp
    ultimately show ?thesis
      using spanCov_extend [of "sp_off sp" "sp_len sp" "unat (sp_off x)" "sp_len x" p] lt by (simp add: spanCov_def)
  next
    case b
    then have "sp' = \<lparr>sp_off = sp_off x, sp_len = sp_len x + sp_len sp\<rparr>" "j = j0"
      using Cons.prems(1) by (auto simp: add.commute)
    moreover have "unat (sp_off x) + unat (sp_len x) = unat (sp_off sp)" using b e by simp
    ultimately show ?thesis
      using spanCov_extend [of "sp_off x" "sp_len x" "unat (sp_off sp)" "sp_len sp" p] lt by (simp add: spanCov_def)
  next
    case c
    then have "mergeAdjacentLoop sp (Suc j0) rest = Some (j, sp')" using Cons.prems(1) by simp
    from Cons.IH [OF this Cons.prems(2)] Cons.prems(3) have
      "Suc j0 \<le> j \<and> j - Suc j0 < length rest \<and> spanCov sp' p = spanCov sp p + spanCov (rest ! (j - Suc j0)) p"
      by (simp add: spansFit_def)
    moreover from this have "j - j0 = Suc (j - Suc j0)" by arith
    ultimately show ?thesis by simp
  qed
qed simp

lemma mergeAdjacent_spec:
  assumes "i < length (ar_freePrefixSpans c)" "spansFit (2 ^ 32 - 1) (ar_freePrefixSpans c)"
  obtains fs where "mergeAdjacentFreeSpanLocked i c = c\<lparr>ar_freePrefixSpans := fs\<rparr>"
    "\<And>p. spansCov fs p = spansCov (ar_freePrefixSpans c) p" "length fs \<le> length (ar_freePrefixSpans c)"
proof (cases "mergeAdjacentLoop (ar_freePrefixSpans c ! i) (i + 1) (drop (i + 1) (ar_freePrefixSpans c))")
  case None
  then have "mergeAdjacentFreeSpanLocked i c = c\<lparr>ar_freePrefixSpans := ar_freePrefixSpans c\<rparr>"
    by (simp add: mergeAdjacentFreeSpanLocked_def Let_def)
  then show thesis by (rule that) simp_all
next
  case (Some r)
  obtain j m where r: "r = (j, m)" by (cases r)
  let ?sps = "ar_freePrefixSpans c"
  have fits: "spanFits (2 ^ 32 - 1) (?sps ! i)" "spansFit (2 ^ 32 - 1) (drop (i + 1) ?sps)"
    using assms by (auto simp: spansFit_def dest: in_set_dropD)
  have s: "i + 1 \<le> j \<and> j - (i + 1) < length (drop (i + 1) ?sps)
      \<and> spanCov m p = spanCov (?sps ! i) p + spanCov (drop (i + 1) ?sps ! (j - (i + 1))) p" for p
    using mergeAdjacentLoop_spec [of "?sps ! i" "i + 1" "drop (i + 1) ?sps" j m p] Some r fits by auto
  have j: "j < length ?sps" "j \<noteq> i" using s [of 0] assms(1) by auto
  have m: "spanCov m p = spanCov (?sps ! i) p + spanCov (?sps ! j) p" for p
    using s [of p] assms(1) by auto
  let ?t = "?sps[i := m]"
  have "mergeAdjacentFreeSpanLocked i c = c\<lparr>ar_freePrefixSpans := butlast (?t[j := last ?t])\<rparr>"
    using Some r by (simp add: mergeAdjacentFreeSpanLocked_def removeFreePrefixSpanAtLocked_def Let_def)
  then show thesis
  proof (rule that)
    fix p
    have "spansCov (butlast (?t[j := last ?t])) p + spanCov (?sps ! j) p = spansCov ?t p"
      using spansCov_remove [of j ?t p] j by simp
    then show "spansCov (butlast (?t[j := last ?t])) p = spansCov ?sps p"
      using spansCov_update [OF assms(1), of m p] m [of p] by simp
  qed simp
qed

lemma minSpan_index: "minSpan mi ml i sps = (k, l) \<Longrightarrow> k = mi \<or> (i \<le> k \<and> k < i + length sps)"
  by (induction sps arbitrary: mi ml i) (auto split: if_splits, force+)

lemma record_spec:
  assumes fits: "spansFit (2 ^ 32 - 1) (ar_freePrefixSpans c)" and fit: "unat off + unat l < 2 ^ 32"
    and len: "length (ar_freePrefixSpans c) \<le> 32"
  obtains fs where "recordFreePrefixSpanLocked off l c = c\<lparr>ar_freePrefixSpans := fs\<rparr>"
    "\<And>p. spansCov fs p \<le> spansCov (ar_freePrefixSpans c) p + cov (unat off) (unat l) p" "length fs \<le> 32"
proof -
  let ?sps = "ar_freePrefixSpans c"
  define P where "P = (\<lambda>sp. spanEnd sp = off \<or> off + l = sp_off sp)"
  have eo: "unat (off + l) = unat off + unat l" using fit by (simp add: unat_word_ariths)
  show thesis
  proof (cases "findSpan P ?sps")
    case (Some i)
    then have i: "i < length ?sps" "P (?sps ! i)" by (auto simp: findSpan_Some)
    define sp where "sp = ?sps ! i"
    define sp' where "sp' = (if spanEnd sp = off then sp\<lparr>sp_len := sp_len sp + l\<rparr>
                else sp\<lparr>sp_off := off, sp_len := sp_len sp + l\<rparr>)"
    have spf: "spanFits (2 ^ 32 - 1) sp" using fits i by (simp add: spansFit_def sp_def)
    then have e: "unat (spanEnd sp) = unat (sp_off sp) + unat (sp_len sp)"
      by (rule spanEnd_nat) simp
    then have lt: "unat (sp_off sp) + unat (sp_len sp) < 2 ^ 32"
      using unat_lt_u32 [of "spanEnd sp"] e by simp
    have cv: "spanCov sp' p = spanCov sp p + cov (unat off) (unat l) p \<and> spanFits (2 ^ 32 - 1) sp'" for p
    proof (cases "spanEnd sp = off")
      case True
      then have o: "unat (sp_off sp) + unat (sp_len sp) = unat off" using e by simp
      have l': "unat (sp_len sp + l) = unat (sp_len sp) + unat l"
        using o fit by (simp add: unat_word_ariths)
      have "sp' = \<lparr>sp_off = sp_off sp, sp_len = sp_len sp + l\<rparr>" using True by (simp add: sp'_def)
      then show ?thesis
        using spanCov_extend [of "sp_off sp" "sp_len sp" "unat off" l p] o fit l' by (simp add: spanCov_def spanFits_def)
    next
      case False
      then have o: "unat off + unat l = unat (sp_off sp)" using i(2) eo by (simp add: P_def sp_def [symmetric])
      have l': "unat (l + sp_len sp) = unat l + unat (sp_len sp)"
        using o lt by (simp add: unat_word_ariths)
      have "sp' = \<lparr>sp_off = off, sp_len = l + sp_len sp\<rparr>" using False by (simp add: sp'_def add.commute)
      then show ?thesis
        using spanCov_extend [of off l "unat (sp_off sp)" "sp_len sp" p] o lt l' by (simp add: spanCov_def spanFits_def)
    qed
    have fits': "spansFit (2 ^ 32 - 1) (?sps[i := sp'])"
      using fits cv by (auto simp: spansFit_def dest!: set_update_subset_insert [THEN subsetD])
    have r: "recordFreePrefixSpanLocked off l c = mergeAdjacentFreeSpanLocked i (c\<lparr>ar_freePrefixSpans := ?sps[i := sp']\<rparr>)"
      using Some by (simp add: recordFreePrefixSpanLocked_def Let_def P_def sp'_def sp_def)
    obtain fs where fs: "mergeAdjacentFreeSpanLocked i (c\<lparr>ar_freePrefixSpans := ?sps[i := sp']\<rparr>)
        = c\<lparr>ar_freePrefixSpans := ?sps[i := sp']\<rparr>\<lparr>ar_freePrefixSpans := fs\<rparr>"
      "\<And>p. spansCov fs p = spansCov (?sps[i := sp']) p" "length fs \<le> length ?sps"
      using mergeAdjacent_spec [of i "c\<lparr>ar_freePrefixSpans := ?sps[i := sp']\<rparr>"] i fits' by auto
    show thesis
    proof (rule that [of fs])
      show "recordFreePrefixSpanLocked off l c = c\<lparr>ar_freePrefixSpans := fs\<rparr>" using r fs(1) by simp
      show "spansCov fs p \<le> spansCov ?sps p + cov (unat off) (unat l) p" for p
        using fs(2) [of p] spansCov_update [OF i(1), of sp' p] cv [of p] by (simp add: sp_def)
      show "length fs \<le> 32" using fs(3) len by simp
    qed
  next
    case None
    obtain mi ml where m: "minSpan 0 0xFFFFFFFF 0 ?sps = (mi, ml)" by (cases "minSpan 0 0xFFFFFFFF 0 ?sps")
    let ?new = "\<lparr>sp_off = off, sp_len = l\<rparr>"
    have new: "spanCov ?new p = cov (unat off) (unat l) p" for p by (simp add: spanCov_def)
    consider "length ?sps < 32" | "\<not> length ?sps < 32" "ml < l" | "\<not> length ?sps < 32" "\<not> ml < l" by blast
    then show thesis
    proof cases
      case 1
      then have "recordFreePrefixSpanLocked off l c = c\<lparr>ar_freePrefixSpans := ?sps @ [?new]\<rparr>"
        using None m by (simp add: recordFreePrefixSpanLocked_def Let_def P_def)
      then show thesis by (rule that) (use 1 new in auto)
    next
      case 2
      then have k: "mi < length ?sps" using minSpan_index [OF m] by auto
      have "recordFreePrefixSpanLocked off l c = c\<lparr>ar_freePrefixSpans := ?sps[mi := ?new]\<rparr>"
        using 2 None m by (simp add: recordFreePrefixSpanLocked_def Let_def P_def)
      then show thesis
      proof (rule that)
        show "spansCov (?sps[mi := ?new]) p \<le> spansCov ?sps p + cov (unat off) (unat l) p" for p
          using spansCov_update [OF k, of ?new p] new [of p] by linarith
      qed (use len in simp)
    next
      case 3
      then have "recordFreePrefixSpanLocked off l c = c\<lparr>ar_freePrefixSpans := ?sps\<rparr>"
        using None m by (simp add: recordFreePrefixSpanLocked_def Let_def P_def)
      then show thesis by (rule that) (use len in auto)
    qed
  qed
qed

lemma bestFitLoop_spec:
  assumes "bestFitLoop l sps k best = (Some i, exact)" "k \<le> length sps"
    and "\<And>b. best = Some b \<Longrightarrow> b < length sps \<and> l < sp_len (sps ! b)"
  shows "i < length sps \<and> (if exact then sp_len (sps ! i) = l else l < sp_len (sps ! i))"
  using assms
proof (induction k arbitrary: best)
  case (Suc k)
  show ?case
  proof (cases "sp_len (sps ! k) = l")
    case True
    then show ?thesis using Suc.prems by auto
  next
    case False
    let ?b = "if l < sp_len (sps ! k) \<and> (case best of None \<Rightarrow> True | Some b \<Rightarrow> sp_len (sps ! k) < sp_len (sps ! b))
        then Some k else best"
    have "bestFitLoop l sps k ?b = (Some i, exact)" using Suc.prems(1) False by (simp add: Let_def)
    then show ?thesis
    proof (rule Suc.IH)
      show "k \<le> length sps" using Suc.prems(2) by simp
      show "\<And>b. ?b = Some b \<Longrightarrow> b < length sps \<and> l < sp_len (sps ! b)"
        using Suc.prems(2,3) by (auto split: if_splits)
    qed
  qed
qed auto

lemma take_spec:
  assumes "takeFreePrefixSpanLocked l c = (c', Some off)" "spansFit (2 ^ 32 - 1) (ar_freePrefixSpans c)"
  obtains fs where "c' = c\<lparr>ar_freePrefixSpans := fs\<rparr>" "length fs \<le> length (ar_freePrefixSpans c)"
    "\<And>p. spansCov (ar_freePrefixSpans c) p = spansCov fs p + cov (unat off) (unat l) p"
proof -
  let ?sps = "ar_freePrefixSpans c"
  obtain best exact where b0: "bestFitLoop l ?sps (length ?sps) None = (best, exact)" by fastforce
  have "best \<noteq> None"
  proof
    assume "best = None"
    then have "takeFreePrefixSpanLocked l c = (c, None)" unfolding takeFreePrefixSpanLocked_def Let_def b0 by simp
    then show False using assms(1) by simp
  qed
  then obtain i where b: "bestFitLoop l ?sps (length ?sps) None = (Some i, exact)" using b0 by blast
  have u: "takeFreePrefixSpanLocked l c = (if exact then (removeFreePrefixSpanAtLocked i c, Some (sp_off (?sps ! i)))
     else (c\<lparr>ar_freePrefixSpans := ?sps[i := (?sps ! i)
           \<lparr>sp_off := sp_off (?sps ! i) + l, sp_len := sp_len (?sps ! i) - l\<rparr>]\<rparr>, Some (sp_off (?sps ! i))))"
    unfolding takeFreePrefixSpanLocked_def Let_def b by (cases exact) simp_all
  have i: "i < length ?sps" and e: "if exact then sp_len (?sps ! i) = l else l < sp_len (?sps ! i)"
    using bestFitLoop_spec [OF b] by auto
  show thesis
  proof (cases exact)
    case True
    then have "c' = c\<lparr>ar_freePrefixSpans := butlast (?sps[i := last ?sps])\<rparr>" "off = sp_off (?sps ! i)" "l = sp_len (?sps ! i)"
      using assms(1) u e by (simp_all add: removeFreePrefixSpanAtLocked_def Let_def)
    moreover have "spansCov ?sps p = spansCov (butlast (?sps[i := last ?sps])) p + cov (unat off) (unat l) p" for p
      unfolding calculation(2,3) using spansCov_remove [OF i, of p] by (simp add: spanCov_def)
    moreover have "length (butlast (?sps[i := last ?sps])) \<le> length ?sps" by simp
    ultimately show thesis by (intro that)
  next
    case False
    define rest where "rest = (?sps ! i)\<lparr>sp_off := sp_off (?sps ! i) + l, sp_len := sp_len (?sps ! i) - l\<rparr>"
    have "(c\<lparr>ar_freePrefixSpans := ?sps[i := rest]\<rparr>, Some (sp_off (?sps ! i))) = (c', Some off)"
      using assms(1) unfolding u if_not_P [OF False] rest_def .
    then have c': "c' = c\<lparr>ar_freePrefixSpans := ?sps[i := rest]\<rparr>" "off = sp_off (?sps ! i)" by blast+
    have lt: "unat l < unat (sp_len (?sps ! i))" using e False by (simp add: word_less_nat_alt)
    have "spanFits (2 ^ 32 - 1) (?sps ! i)" using assms(2) i by (simp add: spansFit_def)
    then have "unat (sp_off (?sps ! i)) + unat (sp_len (?sps ! i)) < 2 ^ 32"
      using lt by (auto simp: spanFits_def)
    then have "unat (sp_off (?sps ! i) + l) = unat (sp_off (?sps ! i)) + unat l"
      "unat (sp_len (?sps ! i) - l) = unat (sp_len (?sps ! i)) - unat l"
      using lt by (simp_all add: unat_word_ariths unat_sub word_le_nat_alt)
    then have piece: "spanCov (?sps ! i) p = spanCov rest p + cov (unat off) (unat l) p" for p
      using cov_join [of "unat (sp_off (?sps ! i))" "unat l" p "unat (sp_len (?sps ! i)) - unat l"] lt
      unfolding c'(2) by (simp add: spanCov_def rest_def)
    have "spansCov ?sps p = spansCov (?sps[i := rest]) p + cov (unat off) (unat l) p" for p
      using spansCov_update [OF i, of rest p] piece [of p] by linarith
    moreover have "length (?sps[i := rest]) \<le> length ?sps" by simp
    ultimately show thesis using c'(1) by (intro that)
  qed
qed

subsection \<open>Trimming the end of the arena\<close>

definition freeCov :: "'v arenaRadix \<Rightarrow> nat \<Rightarrow> nat" where
  "freeCov c p = spansCov (ar_freePrefixSpans c) p + spanCov (ar_putPrefixSpan c) p"

definition freeInv :: "'v arenaRadix \<Rightarrow> bool" where
  "freeInv c \<longleftrightarrow> length (ar_prefixArena c) \<le> maxPrefixArenaBytes \<and> length (ar_freePrefixSpans c) \<le> 32
     \<and> (\<forall>p. freeCov c p \<le> 1) \<and> (\<forall>p \<ge> length (ar_prefixArena c). freeCov c p = 0)"

definition trimmedTo :: "nat \<Rightarrow> 'v arenaRadix \<Rightarrow> 'v arenaRadix \<Rightarrow> bool" where
  \<comment> \<open>\<open>c'\<close> is \<open>c\<close> with the released bytes from \<open>n\<close> on cut off\<close>
  "trimmedTo n c c' \<longleftrightarrow> (\<exists>fs put. c' = c\<lparr>ar_prefixArena := take n (ar_prefixArena c), ar_freePrefixSpans := fs,
       ar_putPrefixSpan := put\<rparr>) \<and> n \<le> length (ar_prefixArena c)
     \<and> length (ar_freePrefixSpans c') \<le> 32
     \<and> (\<forall>p < n. freeCov c' p = freeCov c p) \<and> (\<forall>p \<ge> n. freeCov c' p = 0)
     \<and> (\<forall>p. n \<le> p \<and> p < length (ar_prefixArena c) \<longrightarrow> freeCov c p = 1)"

lemma freeInv_lt: "freeInv c \<Longrightarrow> length (ar_prefixArena c) < 2 ^ 32"
  by (simp add: freeInv_def maxPrefixArenaBytes_def)

lemma freeInv_end: "freeInv c \<Longrightarrow> unat (arenaEnd c) = length (ar_prefixArena c)"
  using freeInv_lt [of c] by (simp add: unat_of_nat)

lemma freeInv_fits:
  assumes "freeInv c"
  shows "spansFit (length (ar_prefixArena c)) (ar_freePrefixSpans c)"
    "spanFits (length (ar_prefixArena c)) (ar_putPrefixSpan c)"
  using assms by (auto simp: freeInv_def freeCov_def intro!: spansFit_of_cov spanFits_of_cov)

lemma trimmedToE:
  assumes "trimmedTo n c c'"
  obtains fs put where "c' = c\<lparr>ar_prefixArena := take n (ar_prefixArena c), ar_freePrefixSpans := fs, ar_putPrefixSpan := put\<rparr>"
    "n \<le> length (ar_prefixArena c)" "length fs \<le> 32"
    "\<And>p. p < n \<Longrightarrow> freeCov c' p = freeCov c p" "\<And>p. n \<le> p \<Longrightarrow> freeCov c' p = 0"
    "\<And>p. n \<le> p \<Longrightarrow> p < length (ar_prefixArena c) \<Longrightarrow> freeCov c p = 1"
proof -
  from assms obtain fs put where
    c': "c' = c\<lparr>ar_prefixArena := take n (ar_prefixArena c), ar_freePrefixSpans := fs, ar_putPrefixSpan := put\<rparr>"
    and rest: "n \<le> length (ar_prefixArena c)" "length (ar_freePrefixSpans c') \<le> 32"
    "\<forall>p < n. freeCov c' p = freeCov c p" "\<forall>p \<ge> n. freeCov c' p = 0"
    "\<forall>p. n \<le> p \<and> p < length (ar_prefixArena c) \<longrightarrow> freeCov c p = 1"
    unfolding trimmedTo_def by blast
  from c' show thesis
  proof (rule that)
    show "length fs \<le> 32" using rest(2) c' by simp
  qed (use rest in blast)+
qed

lemma trimmedToI:
  assumes "c' = c\<lparr>ar_prefixArena := take n (ar_prefixArena c), ar_freePrefixSpans := fs, ar_putPrefixSpan := put\<rparr>"
    "n \<le> length (ar_prefixArena c)" "length fs \<le> 32"
    "\<And>p. p < n \<Longrightarrow> freeCov c' p = freeCov c p" "\<And>p. n \<le> p \<Longrightarrow> freeCov c' p = 0"
    "\<And>p. n \<le> p \<Longrightarrow> p < length (ar_prefixArena c) \<Longrightarrow> freeCov c p = 1"
  shows "trimmedTo n c c'"
proof -
  have "length (ar_freePrefixSpans c') \<le> 32" using assms(1,3) by simp
  then show ?thesis unfolding trimmedTo_def using assms(1,2,4-6) by blast
qed

lemma trimmedTo_freeInv:
  assumes "freeInv c" "trimmedTo n c c'"
  shows "freeInv c'"
proof -
  from assms(2) show ?thesis
  proof (rule trimmedToE)
    fix fs put
    assume c': "c' = c\<lparr>ar_prefixArena := take n (ar_prefixArena c), ar_freePrefixSpans := fs, ar_putPrefixSpan := put\<rparr>"
      and n: "n \<le> length (ar_prefixArena c)" "length fs \<le> 32"
      and lo: "\<And>p. p < n \<Longrightarrow> freeCov c' p = freeCov c p" and hi: "\<And>p. n \<le> p \<Longrightarrow> freeCov c' p = 0"
    have a: "length (ar_prefixArena c') = n" "length (ar_freePrefixSpans c') = length fs" using c' n by simp_all
    have "freeCov c' p \<le> 1" for p
      using lo [of p] hi [of p] assms(1) by (cases "p < n") (auto simp: freeInv_def)
    moreover have "n \<le> maxPrefixArenaBytes" using n assms(1) unfolding freeInv_def by linarith
    ultimately show "freeInv c'" unfolding freeInv_def a using hi n by blast
  qed
qed

lemma trimmedTo_trans:
  assumes "trimmedTo n c c1" "trimmedTo m c1 c2"
  shows "trimmedTo m c c2"
proof -
  obtain fs put where c1: "c1 = c\<lparr>ar_prefixArena := take n (ar_prefixArena c), ar_freePrefixSpans := fs, ar_putPrefixSpan := put\<rparr>"
    and n: "n \<le> length (ar_prefixArena c)" and lo: "\<And>p. p < n \<Longrightarrow> freeCov c1 p = freeCov c p"
    and cut: "\<And>p. n \<le> p \<Longrightarrow> p < length (ar_prefixArena c) \<Longrightarrow> freeCov c p = 1" using assms(1) by (rule trimmedToE) blast
  obtain fs' put' where c2: "c2 = c1\<lparr>ar_prefixArena := take m (ar_prefixArena c1), ar_freePrefixSpans := fs', ar_putPrefixSpan := put'\<rparr>"
    and m: "m \<le> length (ar_prefixArena c1)" "length fs' \<le> 32" and lo': "\<And>p. p < m \<Longrightarrow> freeCov c2 p = freeCov c1 p"
    and hi': "\<And>p. m \<le> p \<Longrightarrow> freeCov c2 p = 0"
    and cut': "\<And>p. m \<le> p \<Longrightarrow> p < length (ar_prefixArena c1) \<Longrightarrow> freeCov c1 p = 1" using assms(2) by (rule trimmedToE) blast
  have mn: "m \<le> n" "length (ar_prefixArena c1) = n" using m n c1 by simp_all
  show ?thesis
  proof (rule trimmedToI)
    show "c2 = c\<lparr>ar_prefixArena := take m (ar_prefixArena c), ar_freePrefixSpans := fs', ar_putPrefixSpan := put'\<rparr>"
      using c1 c2 mn by simp
    show "m \<le> length (ar_prefixArena c)" "length fs' \<le> 32" using mn n m by simp_all
    show "freeCov c2 p = freeCov c p" if "p < m" for p using lo lo' that mn by simp
    show "freeCov c2 p = 0" if "m \<le> p" for p using hi' that by blast
    show "freeCov c p = 1" if "m \<le> p" "p < length (ar_prefixArena c)" for p
      using cut cut' lo that mn by (cases "p < n") (metis, simp)
  qed
qed

lemma trimmedTo_refl: "freeInv c \<Longrightarrow> trimmedTo (length (ar_prefixArena c)) c c"
  by (rule trimmedToI [where fs = "ar_freePrefixSpans c" and put = "ar_putPrefixSpan c"]) (auto simp: freeInv_def)

text \<open>One step of the trimming: a span that ends where the arena ends is cut off.\<close>

lemma cut_span:
  assumes inv: "freeInv c" and e: "spanEnd sp = arenaEnd c" and cov: "\<And>p. freeCov c p = rest p + spanCov sp p"
    and ne: "spanFits (length (ar_prefixArena c)) sp"
  shows "unat (sp_off sp) \<le> length (ar_prefixArena c)"
    "\<And>p. p < unat (sp_off sp) \<Longrightarrow> rest p = freeCov c p" "\<And>p. unat (sp_off sp) \<le> p \<Longrightarrow> rest p = 0"
    "\<And>p. unat (sp_off sp) \<le> p \<Longrightarrow> p < length (ar_prefixArena c) \<Longrightarrow> freeCov c p = 1"
proof -
  let ?n = "length (ar_prefixArena c)"
  have l: "unat (sp_off sp) + unat (sp_len sp) = ?n"
    using spanEnd_nat [OF ne freeInv_lt [OF inv]] e freeInv_end [OF inv] by simp
  have c1: "freeCov c p \<le> 1" "?n \<le> p \<Longrightarrow> freeCov c p = 0" for p using inv by (auto simp: freeInv_def)
  show "unat (sp_off sp) \<le> ?n" using l by simp
  show "rest p = freeCov c p" if "p < unat (sp_off sp)" for p using that cov [of p] by (simp add: spanCov_def cov_def)
  show "rest p = 0" if "unat (sp_off sp) \<le> p" for p
    using that cov [of p] c1 [of p] l by (cases "p < ?n") (auto simp: spanCov_def cov_def)
  show "freeCov c p = 1" if "unat (sp_off sp) \<le> p" "p < ?n" for p
    using that cov [of p] c1 [of p] l by (auto simp: spanCov_def cov_def)
qed

lemma trimPutSpan_spec:
  assumes "freeInv c"
  shows "\<exists>n c'. trimPutSpan c = Inr c' \<and> trimmedTo n c c'"
proof (cases "0 < sp_len (ar_putPrefixSpan c) \<and> spanEnd (ar_putPrefixSpan c) = arenaEnd c")
  case False
  then have "trimPutSpan c = Inr c" by (auto simp: trimPutSpan_def Let_def)
  then show ?thesis using trimmedTo_refl [OF assms] by blast
next
  case True
  let ?sp = "ar_putPrefixSpan c" and ?n = "unat (sp_off (ar_putPrefixSpan c))"
  have "freeCov c p = spansCov (ar_freePrefixSpans c) p + spanCov ?sp p" for p by (simp add: freeCov_def)
  note cut = cut_span [OF assms conjunct2 [OF True] this freeInv_fits(2) [OF assms]]
  define c' where "c' = c\<lparr>ar_prefixArena := take ?n (ar_prefixArena c), ar_putPrefixSpan := zeroSpan\<rparr>"
  have "trimPutSpan c = Inr c'"
    using True cut(1) by (simp add: trimPutSpan_def Let_def truncateArena_def c'_def)
  moreover have "trimmedTo ?n c c'"
  proof (rule trimmedToI [where fs = "ar_freePrefixSpans c" and put = zeroSpan])
    show "length (ar_freePrefixSpans c) \<le> 32" using assms by (simp add: freeInv_def)
    show "freeCov c' p = freeCov c p" if "p < ?n" for p using cut(2) [OF that] by (simp add: c'_def freeCov_def)
    show "freeCov c' p = 0" if "?n \<le> p" for p using cut(3) [OF that] by (simp add: c'_def freeCov_def)
    show "freeCov c p = 1" if "?n \<le> p" "p < length (ar_prefixArena c)" for p by (rule cut(4) [OF that])
    show "?n \<le> length (ar_prefixArena c)" by (rule cut(1))
  qed (simp add: c'_def)
  ultimately show ?thesis by blast
qed

lemma trimFreeSpan_spec:
  assumes "freeInv c"
  shows "\<exists>n c' b. trimFreeSpan c = Inr (c', b) \<and> trimmedTo n c c'"
proof (cases "findSpan (\<lambda>sp. spanEnd sp = arenaEnd c) (ar_freePrefixSpans c)")
  case None
  then have "trimFreeSpan c = Inr (c, False)" by (simp add: trimFreeSpan_def)
  then show ?thesis using trimmedTo_refl [OF assms] by blast
next
  case (Some i)
  let ?sps = "ar_freePrefixSpans c" and ?n = "unat (sp_off (ar_freePrefixSpans c ! i))"
  let ?fs = "butlast (?sps[i := last ?sps])"
  have i: "i < length ?sps" "spanEnd (?sps ! i) = arenaEnd c" using Some by (auto simp: findSpan_Some)
  have fit: "spanFits (length (ar_prefixArena c)) (?sps ! i)" using freeInv_fits(1) [OF assms] i by (simp add: spansFit_def)
  have "freeCov c p = (spansCov ?fs p + spanCov (ar_putPrefixSpan c) p) + spanCov (?sps ! i) p" for p
    using spansCov_remove [OF i(1), of p] by (simp add: freeCov_def)
  note cut = cut_span [OF assms i(2) this fit]
  define c' where "c' = c\<lparr>ar_prefixArena := take ?n (ar_prefixArena c), ar_freePrefixSpans := ?fs\<rparr>"
  have "trimFreeSpan c = Inr (c', True)"
    using Some cut(1) by (simp add: trimFreeSpan_def truncateArena_def removeFreePrefixSpanAtLocked_def Let_def c'_def)
  moreover have "trimmedTo ?n c c'"
  proof (rule trimmedToI [where fs = ?fs and put = "ar_putPrefixSpan c"])
    show "length ?fs \<le> 32" using assms i(1) unfolding freeInv_def by simp linarith
  qed (use cut in \<open>simp_all add: c'_def freeCov_def\<close>)
  ultimately show ?thesis by blast
qed

lemma trim_spec:
  assumes "freeInv c"
  shows "\<exists>n c'. trimFreePrefixSpansAtTailLocked c = Inr c' \<and> trimmedTo n c c'"
  using assms
proof (induction c rule: trimFreePrefixSpansAtTailLocked.induct)
  case (1 c)
  obtain n1 c1 where c1: "trimPutSpan c = Inr c1" "trimmedTo n1 c c1" using trimPutSpan_spec [OF "1.prems"] by blast
  have i1: "freeInv c1" by (rule trimmedTo_freeInv [OF "1.prems" c1(2)])
  obtain n2 c2 b where c2: "trimFreeSpan c1 = Inr (c2, b)" "trimmedTo n2 c1 c2" using trimFreeSpan_spec [OF i1] by blast
  have t2: "trimmedTo n2 c c2" by (rule trimmedTo_trans [OF c1(2) c2(2)])
  show ?case
  proof (cases "\<not> b \<or> sp_len (ar_putPrefixSpan c2) = 0 \<or> spanEnd (ar_putPrefixSpan c2) \<noteq> arenaEnd c2")
    case True
    then have "trimFreePrefixSpansAtTailLocked c = Inr c2"
      using c1 c2 by (simp add: trimFreePrefixSpansAtTailLocked.simps [of c])
    then show ?thesis using t2 by blast
  next
    case False
    then have "trimFreePrefixSpansAtTailLocked c = trimFreePrefixSpansAtTailLocked c2"
      using c1 c2 by (simp add: trimFreePrefixSpansAtTailLocked.simps [of c])
    moreover have "\<exists>n c'. trimFreePrefixSpansAtTailLocked c2 = Inr c' \<and> trimmedTo n c2 c'"
      by (rule "1.IH" [OF c1(1) c2(1) refl False trimmedTo_freeInv [OF i1 c2(2)]])
    ultimately show ?thesis using trimmedTo_trans [OF t2] by auto
  qed
qed

subsection \<open>Releasing a range\<close>

definition hdrLen :: "bool \<Rightarrow> nat" where "hdrLen isLarge = (if isLarge then 4 else 0)"

definition releasedTo :: "nat \<Rightarrow> (nat \<Rightarrow> nat) \<Rightarrow> nat \<Rightarrow> 'v arenaRadix \<Rightarrow> 'v arenaRadix \<Rightarrow> bool" where
  \<comment> \<open>\<open>c'\<close> is \<open>c\<close> after the range counted by \<open>R\<close>, of \<open>e\<close> bytes, has been given up\<close>
  "releasedTo n R e c c' \<longleftrightarrow> (\<exists>fs put. c' = c\<lparr>ar_prefixArena := take n (ar_prefixArena c),
       ar_livePrefixBytes := ar_livePrefixBytes c - int e, ar_freePrefixSpans := fs, ar_putPrefixSpan := put\<rparr>)
     \<and> n \<le> length (ar_prefixArena c) \<and> length (ar_freePrefixSpans c') \<le> 32
     \<and> (\<forall>p < n. freeCov c' p \<le> freeCov c p + R p) \<and> (\<forall>p \<ge> n. freeCov c' p = 0)
     \<and> (\<forall>p. n \<le> p \<and> p < length (ar_prefixArena c) \<longrightarrow> freeCov c p + R p = 1)"

lemma releasedToI:
  assumes "c' = c\<lparr>ar_prefixArena := take n (ar_prefixArena c), ar_livePrefixBytes := ar_livePrefixBytes c - int e,
       ar_freePrefixSpans := fs, ar_putPrefixSpan := put\<rparr>"
    "n \<le> length (ar_prefixArena c)" "length fs \<le> 32"
    "\<And>p. p < n \<Longrightarrow> freeCov c' p \<le> freeCov c p + R p" "\<And>p. n \<le> p \<Longrightarrow> freeCov c' p = 0"
    "\<And>p. n \<le> p \<Longrightarrow> p < length (ar_prefixArena c) \<Longrightarrow> freeCov c p + R p = 1"
  shows "releasedTo n R e c c'"
proof -
  have "length (ar_freePrefixSpans c') \<le> 32" using assms(1,3) by simp
  then show ?thesis unfolding releasedTo_def using assms(1,2,4-6) by blast
qed

text \<open>Releasing without trimming: the arena keeps its length.\<close>

lemma releasedTo_full:
  assumes "c' = c\<lparr>ar_livePrefixBytes := ar_livePrefixBytes c - int e, ar_freePrefixSpans := fs, ar_putPrefixSpan := put\<rparr>"
    "length fs \<le> 32" "\<And>p. spansCov fs p + spanCov put p \<le> freeCov c p + R p"
    "\<And>p. length (ar_prefixArena c) \<le> p \<Longrightarrow> freeCov c p + R p = 0"
  shows "releasedTo (length (ar_prefixArena c)) R e c c'"
proof (rule releasedToI [where fs = fs and put = put])
  have f: "freeCov c' p = spansCov fs p + spanCov put p" for p using assms(1) by (simp add: freeCov_def)
  show "freeCov c' p \<le> freeCov c p + R p" for p using assms(3) [of p] f by simp
  show "freeCov c' p = 0" if "length (ar_prefixArena c) \<le> p" for p
    using assms(3) [of p] assms(4) [OF that] f by simp
qed (use assms(1,2) in simp_all)

lemma record_ex:
  assumes "spansFit (2 ^ 32 - 1) (ar_freePrefixSpans c)" "unat off + unat l < 2 ^ 32" "length (ar_freePrefixSpans c) \<le> 32"
  shows "\<exists>fs. recordFreePrefixSpanLocked off l c = c\<lparr>ar_freePrefixSpans := fs\<rparr> \<and>
    (\<forall>p. spansCov fs p \<le> spansCov (ar_freePrefixSpans c) p + cov (unat off) (unat l) p) \<and> length fs \<le> 32"
  using record_spec [OF assms] by blast

definition recycleSpan :: "u32 \<Rightarrow> u32 \<Rightarrow> 'v arenaRadix \<Rightarrow> 'v arenaRadix" where
  \<comment> \<open>the last part of \<open>releasePrefixSpanLocked\<close>\<close>
  "recycleSpan raw rawLen c = (let sp = ar_putPrefixSpan c in
     if ar_recyclingForPut c \<and> 0 < sp_len sp \<and> spanEnd sp = raw
     then c\<lparr>ar_putPrefixSpan := sp\<lparr>sp_len := sp_len sp + rawLen\<rparr>\<rparr>
     else if ar_recyclingForPut c \<and> 0 < sp_len sp \<and> raw + rawLen = sp_off sp
     then c\<lparr>ar_putPrefixSpan := \<lparr>sp_off = raw, sp_len = sp_len sp + rawLen\<rparr>\<rparr>
     else if ar_recyclingForPut c \<and> sp_len sp < rawLen
     then (if 0 < sp_len sp then recordFreePrefixSpanLocked (sp_off sp) (sp_len sp) c else c)
        \<lparr>ar_putPrefixSpan := \<lparr>sp_off = raw, sp_len = rawLen\<rparr>\<rparr>
     else recordFreePrefixSpanLocked raw rawLen c)"

lemma release_recycle:
  assumes "0 < pLen" "\<not> (flags AND prefixFlagPinned \<noteq> 0 \<or> ar_prefixExposed c)"
    "unat off + pLen \<noteq> length (ar_prefixArena c)"
  shows "releasePrefixSpanLocked off pLen isLarge flags c =
    Inr (recycleSpan (if isLarge then off - 4 else off) ((of_nat pLen :: u32) + (if isLarge then 4 else 0))
      (c\<lparr>ar_livePrefixBytes := ar_livePrefixBytes c - int (if isLarge then pLen + 4 else pLen)\<rparr>))"
proof -
  define c1 where "c1 = c\<lparr>ar_livePrefixBytes := ar_livePrefixBytes c - int (if isLarge then pLen + 4 else pLen)\<rparr>"
  have "\<not> (flags AND prefixFlagPinned \<noteq> 0 \<or> ar_prefixExposed c1)" "unat off + pLen \<noteq> length (ar_prefixArena c1)" "pLen \<noteq> 0"
    using assms by (simp_all add: c1_def)
  then show ?thesis
    unfolding releasePrefixSpanLocked_def Let_def c1_def [symmetric] recycleSpan_def
    by (simp only: if_False if_True if_distrib [where f = Inr, symmetric])
qed

lemma recycle_spec:
  assumes fits: "spansFit (2 ^ 32 - 1) (ar_freePrefixSpans c)" and put: "spanFits (2 ^ 32 - 1) (ar_putPrefixSpan c)"
    and l32: "length (ar_freePrefixSpans c) \<le> 32" and fit: "unat raw + unat rawLen < 2 ^ 32"
  shows "\<exists>fs sp. recycleSpan raw rawLen c = c\<lparr>ar_freePrefixSpans := fs, ar_putPrefixSpan := sp\<rparr> \<and> length fs \<le> 32
    \<and> (\<forall>p. spansCov fs p + spanCov sp p \<le> freeCov c p + cov (unat raw) (unat rawLen) p)"
proof -
  let ?put = "ar_putPrefixSpan c"
  have pe: "unat (spanEnd ?put) = unat (sp_off ?put) + unat (sp_len ?put)" by (rule spanEnd_nat [OF put]) simp
  have plt: "unat (sp_off ?put) + unat (sp_len ?put) < 2 ^ 32" using pe unat_lt_u32 [of "spanEnd ?put"] by simp
  have re: "unat (raw + rawLen) = unat raw + unat rawLen" using fit by (simp add: unat_word_ariths)
  consider (l) "ar_recyclingForPut c \<and> 0 < sp_len ?put \<and> spanEnd ?put = raw"
    | (r) "\<not> (ar_recyclingForPut c \<and> 0 < sp_len ?put \<and> spanEnd ?put = raw)"
      "ar_recyclingForPut c \<and> 0 < sp_len ?put \<and> raw + rawLen = sp_off ?put"
    | (n) "\<not> (ar_recyclingForPut c \<and> 0 < sp_len ?put \<and> spanEnd ?put = raw)"
        "\<not> (ar_recyclingForPut c \<and> 0 < sp_len ?put \<and> raw + rawLen = sp_off ?put)"
        "ar_recyclingForPut c \<and> sp_len ?put < rawLen"
    | (f) "\<not> (ar_recyclingForPut c \<and> 0 < sp_len ?put \<and> spanEnd ?put = raw)"
        "\<not> (ar_recyclingForPut c \<and> 0 < sp_len ?put \<and> raw + rawLen = sp_off ?put)"
        "\<not> (ar_recyclingForPut c \<and> sp_len ?put < rawLen)" by blast
  then show ?thesis
  proof cases
    case l
    let ?p = "?put\<lparr>sp_len := sp_len ?put + rawLen\<rparr>"
    have "recycleSpan raw rawLen c = c\<lparr>ar_freePrefixSpans := ar_freePrefixSpans c, ar_putPrefixSpan := ?p\<rparr>"
      unfolding recycleSpan_def Let_def if_P [OF l] by simp
    moreover have "spanCov ?p p = spanCov ?put p + cov (unat raw) (unat rawLen) p" for p
    proof -
      have "?p = \<lparr>sp_off = sp_off ?put, sp_len = sp_len ?put + rawLen\<rparr>" by simp
      moreover have "unat (sp_off ?put) + unat (sp_len ?put) = unat raw" using l pe by metis
      ultimately show ?thesis
        using spanCov_extend [of "sp_off ?put" "sp_len ?put" "unat raw" rawLen p] fit by (metis spanCov_def)
    qed
    ultimately show ?thesis using l32 by (intro exI conjI allI) (assumption, assumption, simp add: freeCov_def)
  next
    case r
    let ?p = "\<lparr>sp_off = raw, sp_len = sp_len ?put + rawLen\<rparr>"
    have "recycleSpan raw rawLen c = c\<lparr>ar_freePrefixSpans := ar_freePrefixSpans c, ar_putPrefixSpan := ?p\<rparr>"
      unfolding recycleSpan_def Let_def if_not_P [OF r(1)] if_P [OF r(2)] by simp
    moreover have "spanCov ?p p = spanCov ?put p + cov (unat raw) (unat rawLen) p" for p
    proof -
      have "unat raw + unat rawLen = unat (sp_off ?put)" using r(2) re by metis
      then show ?thesis
        using spanCov_extend [of raw rawLen "unat (sp_off ?put)" "sp_len ?put" p] plt
        unfolding spanCov_def by (simp add: add.commute)
    qed
    ultimately show ?thesis using l32 by (intro exI conjI allI) (assumption, assumption, simp add: freeCov_def)
  next
    case n
    let ?p = "\<lparr>sp_off = raw, sp_len = rawLen\<rparr>"
    obtain fs where fs: "(if 0 < sp_len ?put then recordFreePrefixSpanLocked (sp_off ?put) (sp_len ?put) c else c)
        = c\<lparr>ar_freePrefixSpans := fs\<rparr>" "length fs \<le> 32" "\<forall>p. spansCov fs p \<le> freeCov c p"
    proof (cases "0 < sp_len ?put")
      case True
      then show thesis
        using record_ex [OF fits plt l32] that unfolding if_P [OF True] freeCov_def spanCov_def by blast
    next
      case False
      then show thesis using that [of "ar_freePrefixSpans c"] l32 by (simp add: freeCov_def)
    qed
    have "recycleSpan raw rawLen c = c\<lparr>ar_freePrefixSpans := fs, ar_putPrefixSpan := ?p\<rparr>"
      unfolding recycleSpan_def Let_def if_not_P [OF n(1)] if_not_P [OF n(2)] if_P [OF n(3)] fs(1) by simp
    then show ?thesis using fs(2,3) by (intro exI conjI allI) (assumption, assumption, simp add: spanCov_def)
  next
    case f
    obtain fs where fs: "recordFreePrefixSpanLocked raw rawLen c = c\<lparr>ar_freePrefixSpans := fs\<rparr>"
      "\<forall>p. spansCov fs p \<le> spansCov (ar_freePrefixSpans c) p + cov (unat raw) (unat rawLen) p" "length fs \<le> 32"
      using record_ex [OF fits fit l32] by blast
    have "recycleSpan raw rawLen c = c\<lparr>ar_freePrefixSpans := fs, ar_putPrefixSpan := ?put\<rparr>"
      unfolding recycleSpan_def Let_def if_not_P [OF f(1)] if_not_P [OF f(2)] if_not_P [OF f(3)] fs(1) by simp
    then show ?thesis using fs(2,3) by (intro exI conjI allI) (assumption, assumption, simp add: freeCov_def)
  qed
qed

lemma release_tail:
  assumes pos: "0 < pLen" "\<not> (flags AND prefixFlagPinned \<noteq> 0 \<or> ar_prefixExposed c)"
    "unat off + pLen = length (ar_prefixArena c)"
    and raw: "raw = (if isLarge then off - 4 else off)" "unat raw \<le> length (ar_prefixArena c)"
  shows "releasePrefixSpanLocked off pLen isLarge flags c = trimFreePrefixSpansAtTailLocked
    (c\<lparr>ar_livePrefixBytes := ar_livePrefixBytes c - int (if isLarge then pLen + 4 else pLen),
       ar_prefixArena := take (unat raw) (ar_prefixArena c)\<rparr>)"
proof -
  define c1 where "c1 = c\<lparr>ar_livePrefixBytes := ar_livePrefixBytes c - int (if isLarge then pLen + 4 else pLen)\<rparr>"
  have "\<not> (flags AND prefixFlagPinned \<noteq> 0 \<or> ar_prefixExposed c1)" "unat off + pLen = length (ar_prefixArena c1)" "pLen \<noteq> 0"
    using pos by (simp_all add: c1_def)
  then have "releasePrefixSpanLocked off pLen isLarge flags c = bindr (truncateArena raw c1) trimFreePrefixSpansAtTailLocked"
    unfolding releasePrefixSpanLocked_def Let_def c1_def [symmetric] raw(1) by (simp only: if_False if_True refl)
  moreover have "truncateArena raw c1 = Inr (c1\<lparr>ar_prefixArena := take (unat raw) (ar_prefixArena c)\<rparr>)"
    using raw(2) by (simp add: truncateArena_def c1_def)
  ultimately show ?thesis by (simp add: c1_def)
qed

lemma trimmed_released:
  assumes t: "trimmedTo n c2 c'" and m: "m \<le> length (ar_prefixArena c)"
    and c2: "c2 = c\<lparr>ar_livePrefixBytes := ar_livePrefixBytes c - int e, ar_prefixArena := take m (ar_prefixArena c)\<rparr>"
    and one: "\<And>p. freeCov c p + R p \<le> 1" and Rtail: "\<And>p. m \<le> p \<Longrightarrow> p < length (ar_prefixArena c) \<Longrightarrow> R p = 1"
  shows "releasedTo n R e c c'"
  using t
proof (rule trimmedToE)
  fix fs put
  assume c': "c' = c2\<lparr>ar_prefixArena := take n (ar_prefixArena c2), ar_freePrefixSpans := fs, ar_putPrefixSpan := put\<rparr>"
    and n: "n \<le> length (ar_prefixArena c2)" "length fs \<le> 32"
    and lo: "\<And>p. p < n \<Longrightarrow> freeCov c' p = freeCov c2 p" and hi: "\<And>p. n \<le> p \<Longrightarrow> freeCov c' p = 0"
    and cut: "\<And>p. n \<le> p \<Longrightarrow> p < length (ar_prefixArena c2) \<Longrightarrow> freeCov c2 p = 1"
  have f2: "freeCov c2 p = freeCov c p" for p by (simp add: c2 freeCov_def)
  have nr: "n \<le> m" using n(1) m by (simp add: c2)
  show ?thesis
  proof (rule releasedToI)
    show "c' = c\<lparr>ar_prefixArena := take n (ar_prefixArena c), ar_livePrefixBytes := ar_livePrefixBytes c - int e,
      ar_freePrefixSpans := fs, ar_putPrefixSpan := put\<rparr>"
      unfolding c' c2 using nr by simp
    show "n \<le> length (ar_prefixArena c)" using nr m by simp
    show "freeCov c' p \<le> freeCov c p + R p" if "p < n" for p using lo [OF that] f2 by simp
    show "freeCov c p + R p = 1" if "n \<le> p" "p < length (ar_prefixArena c)" for p
    proof (cases "p < m")
      case True
      then have "freeCov c p = 1" using cut [of p] that f2 m by (simp add: c2)
      then show ?thesis using one [of p] by simp
    next
      case False
      then show ?thesis using Rtail [of p] that one [of p] by simp
    qed
  qed (use n hi in auto)
qed

lemma release_spec:
  assumes lenm: "length (ar_prefixArena c) \<le> maxPrefixArenaBytes" and l32: "length (ar_freePrefixSpans c) \<le> 32"
    and R: "R = cov (unat off - hdrLen isLarge) (pLen + hdrLen isLarge)"
    and one: "\<And>p. freeCov c p + R p \<le> 1" and zero: "\<And>p. length (ar_prefixArena c) \<le> p \<Longrightarrow> freeCov c p + R p = 0"
    and pos: "0 < pLen" and hd: "isLarge \<Longrightarrow> 4 \<le> unat off"
  shows "\<exists>n c'. releasePrefixSpanLocked off pLen isLarge flags c = Inr c' \<and> releasedTo n R (pLen + hdrLen isLarge) c c'"
proof -
  let ?n = "length (ar_prefixArena c)" and ?e = "pLen + hdrLen isLarge"
  define raw where "raw = (if isLarge then off - 4 else off)"
  define rawLen where "rawLen = (of_nat pLen :: u32) + (if isLarge then 4 else 0)"
  have lt: "?n < 2 ^ 32" using lenm by (simp add: maxPrefixArenaBytes_def)
  have bnd: "unat off - hdrLen isLarge + ?e \<le> ?n"
  proof (rule cov_bound)
    show "cov (unat off - hdrLen isLarge) ?e p = 0" if "?n \<le> p" for p
      using zero [OF that] by (simp add: R)
  qed (use pos in simp)
  have uraw: "unat raw = unat off - hdrLen isLarge"
    using hd by (auto simp: raw_def hdrLen_def unat_sub word_le_nat_alt)
  have ulen: "unat rawLen = ?e"
    using bnd lt by (auto simp: rawLen_def hdrLen_def unat_word_ariths unat_of_nat)
  have fit: "unat raw + unat rawLen < 2 ^ 32" using uraw ulen bnd lt by simp
  have live: "(if isLarge then pLen + 4 else pLen) = ?e" by (simp add: hdrLen_def)
  have free_inv: "freeInv c"
    unfolding freeInv_def using lenm l32 one zero by (metis add_leE add_is_0)
  have n32: "?n \<le> 2 ^ 32 - 1" using lt by simp
  have fits: "spansFit (2 ^ 32 - 1) (ar_freePrefixSpans c)"
    using freeInv_fits(1) [OF free_inv] spanFits_mono [OF _ n32] unfolding spansFit_def by blast
  have put: "spanFits (2 ^ 32 - 1) (ar_putPrefixSpan c)"
    by (rule spanFits_mono [OF freeInv_fits(2) [OF free_inv] n32])
  have R': "R p = cov (unat raw) (unat rawLen) p" for p by (simp add: R uraw ulen)
  let ?c1 = "c\<lparr>ar_livePrefixBytes := ar_livePrefixBytes c - int ?e\<rparr>"
  let ?r = "releasePrefixSpanLocked off pLen isLarge flags c"
  consider (drop) "flags AND prefixFlagPinned \<noteq> 0 \<or> ar_prefixExposed c"
    | (tail) "\<not> (flags AND prefixFlagPinned \<noteq> 0 \<or> ar_prefixExposed c)" "unat off + pLen = ?n"
    | (keep) "\<not> (flags AND prefixFlagPinned \<noteq> 0 \<or> ar_prefixExposed c)" "unat off + pLen \<noteq> ?n" by blast
  then show ?thesis
  proof cases
    case drop
    then have "?r = Inr ?c1" using pos unfolding releasePrefixSpanLocked_def Let_def live by simp
    moreover have "releasedTo ?n R ?e c ?c1"
      by (rule releasedTo_full [where fs = "ar_freePrefixSpans c" and put = "ar_putPrefixSpan c"])
        (use zero l32 in \<open>auto simp: freeCov_def\<close>)
    ultimately show ?thesis by blast
  next
    case tail
    let ?c2 = "c\<lparr>ar_livePrefixBytes := ar_livePrefixBytes c - int ?e, ar_prefixArena := take (unat raw) (ar_prefixArena c)\<rparr>"
    have rl: "unat raw \<le> ?n" using uraw bnd by simp
    have r: "?r = trimFreePrefixSpansAtTailLocked ?c2"
      using release_tail [OF pos tail raw_def rl] unfolding live .
    have f2: "freeCov ?c2 p = freeCov c p" for p by (simp add: freeCov_def)
    have Rtail: "R p = 1" if "unat raw \<le> p" "p < ?n" for p
    proof -
      have "unat raw + unat rawLen = ?n" using tail(2) hd uraw ulen by (auto simp: hdrLen_def split: if_splits)
      then show ?thesis using that by (simp add: R' cov_def)
    qed
    have i2: "freeInv ?c2" unfolding freeInv_def
    proof (intro conjI allI impI)
      show "length (ar_prefixArena ?c2) \<le> maxPrefixArenaBytes" using lenm by simp
      show "length (ar_freePrefixSpans ?c2) \<le> 32" using l32 by simp
      show "freeCov ?c2 p \<le> 1" for p using one [of p] f2 [of p] by simp
      fix p
      assume p: "length (ar_prefixArena ?c2) \<le> p"
      then have "unat raw \<le> p" using rl by simp
      then have "freeCov c p = 0" using one [of p] zero [of p] Rtail [of p] by (cases "p < ?n") auto
      then show "freeCov ?c2 p = 0" using f2 by simp
    qed
    obtain n c' where t: "trimFreePrefixSpansAtTailLocked ?c2 = Inr c'" "trimmedTo n ?c2 c'" using trim_spec [OF i2] by blast
    have "releasedTo n R ?e c c'" by (rule trimmed_released [OF t(2) rl refl one Rtail])
    then show ?thesis using t(1) r by metis
  next
    case keep
    have r: "?r = Inr (recycleSpan raw rawLen ?c1)"
      using release_recycle [OF pos keep, of isLarge] unfolding live raw_def rawLen_def .
    have f1: "freeCov ?c1 p = freeCov c p" for p by (simp add: freeCov_def)
    obtain fs sp where sp: "recycleSpan raw rawLen ?c1 = ?c1\<lparr>ar_freePrefixSpans := fs, ar_putPrefixSpan := sp\<rparr>" "length fs \<le> 32"
      "\<forall>p. spansCov fs p + spanCov sp p \<le> freeCov ?c1 p + cov (unat raw) (unat rawLen) p"
      using recycle_spec [of ?c1 raw rawLen] fits put l32 fit by auto
    have "releasedTo ?n R ?e c (recycleSpan raw rawLen ?c1)"
    proof (rule releasedTo_full)
      show "recycleSpan raw rawLen ?c1 = c\<lparr>ar_livePrefixBytes := ar_livePrefixBytes c - int ?e, ar_freePrefixSpans := fs, ar_putPrefixSpan := sp\<rparr>"
        using sp(1) by simp
      show "spansCov fs p + spanCov sp p \<le> freeCov c p + R p" for p using sp(3) unfolding f1 R' by blast
    qed (use sp(2) zero in auto)
    then show ?thesis using r by blast
  qed
qed

end
