(* ===== verification/ArenaLabels.thy ===== *)
theory ArenaLabels
  imports ArenaSpans
begin

text \<open>
  The labels of the nodes as strings, and the invariant of \<open>prefixArena\<close>: every byte has at most one
  owner among the labels, the released spans and the range \<open>R\<close> an operation has in hand, none beyond the
  end of the arena has one, and \<open>livePrefixBytes\<close> is the number of bytes the labels occupy, headers included,
  plus the \<open>e\<close> bytes in hand.
\<close>

subsection \<open>Labels\<close>

definition labelLen :: "string \<Rightarrow> 'v arenaRadixNode \<Rightarrow> nat" where
  "labelLen a n = (if an_prefixLen n < largePrefixSentinel then unat (an_prefixLen n)
     else unat (le_get32 (take 4 (drop (unat (an_prefixOff n) - 4) a))))"

definition labelSize :: "string \<Rightarrow> 'v arenaRadixNode \<Rightarrow> nat" where
  "labelSize a n = labelLen a n + hdrLen (isLargePrefix n)"

definition labelStart :: "'v arenaRadixNode \<Rightarrow> nat" where
  "labelStart n = unat (an_prefixOff n) - hdrLen (isLargePrefix n)"

definition labelCov :: "string \<Rightarrow> 'v arenaRadixNode \<Rightarrow> nat \<Rightarrow> nat" where
  "labelCov a n = cov (labelStart n) (labelSize a n)"

definition labelStr :: "string \<Rightarrow> 'v arenaRadixNode \<Rightarrow> string" where
  "labelStr a n = take (labelLen a n) (drop (unat (an_prefixOff n)) a)"

definition labelOk :: "string \<Rightarrow> 'v arenaRadixNode \<Rightarrow> bool" where
  "labelOk a n \<longleftrightarrow> (isLargePrefix n \<longrightarrow> 4 \<le> unat (an_prefixOff n) \<and> largeMin \<le> labelLen a n)
     \<and> (an_prefixLen n \<noteq> 0 \<longrightarrow> an_firstByte n = a ! unat (an_prefixOff n))"

lemma sentinel_val [simp]: "unat largePrefixSentinel = 65535" "hdrLen True = 4" "hdrLen False = 0"
  by (simp_all add: largePrefixSentinel_def hdrLen_def)

lemma not_large_less: "(x :: u16) < largePrefixSentinel \<longleftrightarrow> x \<noteq> largePrefixSentinel"
proof -
  have "unat x < 65536" using unsigned_less [of x] by simp
  moreover have "x = largePrefixSentinel \<longleftrightarrow> unat x = 65535" by (metis sentinel_val(1) unsigned_word_eqI)
  ultimately show ?thesis by (auto simp: word_less_nat_alt)
qed

lemma labelLen_pos: "labelOk a n \<Longrightarrow> an_prefixLen n \<noteq> 0 \<Longrightarrow> 0 < labelLen a n"
  by (cases "isLargePrefix n") (auto simp: labelOk_def labelLen_def not_large_less unat_gt_0)

lemma labelLen_0: "an_prefixLen n = 0 \<Longrightarrow> labelLen a n = 0" "an_prefixLen n = 0 \<Longrightarrow> \<not> isLargePrefix n"
  by (simp_all add: labelLen_def largePrefixSentinel_def)

lemma labelSize_0 [simp]: "an_prefixLen n = 0 \<Longrightarrow> labelSize a n = 0"
  "an_prefixLen n = 0 \<Longrightarrow> labelStr a n = ''''" "an_prefixLen n = 0 \<Longrightarrow> labelCov a n p = 0"
  using labelLen_0 [where n = n] by (simp_all add: labelSize_def labelStr_def labelCov_def hdrLen_def)

lemma take_drop_agree:
  assumes "\<And>p. off \<le> p \<Longrightarrow> p < off + l \<Longrightarrow> p < length a \<and> p < length b \<and> a ! p = b ! p"
  shows "take l (drop off a) = take l (drop off b)"
proof (cases "l = 0")
  case False
  then have "off + l - 1 < length a \<and> off + l - 1 < length b"
    using assms [of "off + l - 1"] by simp
  then have "off + l \<le> length a" "off + l \<le> length b" using False by auto
  then show ?thesis by (intro nth_equalityI) (use assms in auto)
qed simp

lemma cov_at: "off \<le> p \<Longrightarrow> p < off + l \<Longrightarrow> cov off l p = 1"
  by (simp add: cov_def)

lemma label_agree:
  assumes ok: "labelOk a n" and same: "\<And>p. labelCov a n p = 1 \<Longrightarrow> p < length a \<and> p < length b \<and> a ! p = b ! p"
  shows "labelLen b n = labelLen a n" "labelStr b n = labelStr a n" "labelCov b n = labelCov a n"
    "labelSize b n = labelSize a n" "labelOk b n"
proof -
  let ?o = "unat (an_prefixOff n)"
  have start: "isLargePrefix n \<Longrightarrow> labelStart n = ?o - 4 \<and> 4 \<le> ?o \<and> labelSize a n = labelLen a n + 4"
    "\<not> isLargePrefix n \<Longrightarrow> labelStart n = ?o \<and> labelSize a n = labelLen a n"
    using ok by (auto simp: labelStart_def labelSize_def labelOk_def hdrLen_def)
  have reg: "p < length a \<and> p < length b \<and> a ! p = b ! p" if "labelStart n \<le> p" "p < labelStart n + labelSize a n" for p
    by (rule same) (simp add: labelCov_def cov_at [OF that])
  show l: "labelLen b n = labelLen a n"
  proof (cases "isLargePrefix n")
    case True
    have "take 4 (drop (?o - 4) a) = take 4 (drop (?o - 4) b)"
      by (rule take_drop_agree) (use reg start(1) [OF True] in auto)
    then show ?thesis by (simp add: labelLen_def)
  qed (simp add: labelLen_def not_large_less)
  have "take (labelLen a n) (drop ?o a) = take (labelLen a n) (drop ?o b)"
    by (rule take_drop_agree) (use reg start in \<open>cases "isLargePrefix n"; auto\<close>)
  then show "labelStr b n = labelStr a n" by (simp add: labelStr_def l)
  show "labelSize b n = labelSize a n" by (simp add: labelSize_def l)
  then show "labelCov b n = labelCov a n" by (simp add: labelCov_def)
  have "a ! ?o = b ! ?o" if "an_prefixLen n \<noteq> 0"
    using reg [of ?o] start labelLen_pos [OF ok that] by (cases "isLargePrefix n") auto
  then show "labelOk b n" using ok by (simp add: labelOk_def l)
qed

subsection \<open>The invariant\<close>

definition nodesCov :: "string \<Rightarrow> 'v arenaRadixNode list \<Rightarrow> nat \<Rightarrow> nat" where
  "nodesCov a ns p = sum_list (map (\<lambda>n. labelCov a n p) ns)"

definition nodesSize :: "string \<Rightarrow> 'v arenaRadixNode list \<Rightarrow> nat" where
  "nodesSize a ns = sum_list (map (labelSize a) ns)"

definition owners :: "(nat \<Rightarrow> nat) \<Rightarrow> 'v arenaRadix \<Rightarrow> nat \<Rightarrow> nat" where
  "owners R c p = nodesCov (ar_prefixArena c) (ar_nodes c) p + freeCov c p + R p"

definition prefixInv :: "(nat \<Rightarrow> nat) \<Rightarrow> nat \<Rightarrow> 'v arenaRadix \<Rightarrow> bool" where
  "prefixInv R e c \<longleftrightarrow> length (ar_prefixArena c) \<le> maxPrefixArenaBytes \<and> length (ar_freePrefixSpans c) \<le> 32
     \<and> (\<forall>p. owners R c p \<le> 1) \<and> (\<forall>p \<ge> length (ar_prefixArena c). owners R c p = 0)
     \<and> (\<forall>n \<in> set (ar_nodes c). labelOk (ar_prefixArena c) n)
     \<and> ar_livePrefixBytes c = int (nodesSize (ar_prefixArena c) (ar_nodes c) + e)"

definition labels :: "'v arenaRadix \<Rightarrow> string list" where
  "labels c = map (labelStr (ar_prefixArena c)) (ar_nodes c)"

definition bare :: "'v arenaRadixNode \<Rightarrow> 'v arenaRadixNode" where
  \<comment> \<open>a node without its label; the hash tag in the flags stays\<close>
  "bare n = an_unpin (n\<lparr>an_prefixOff := 0, an_prefixLen := 0, an_firstByte := CHR 0x00\<rparr>)"

definition outside :: "'v arenaRadix \<Rightarrow> 'v arenaRadix" where
  \<comment> \<open>the cache without its labels\<close>
  "outside c = c\<lparr>ar_nodes := map bare (ar_nodes c), ar_prefixArena := [], ar_prefixCap := 0, ar_livePrefixBytes := 0,
     ar_freePrefixSpans := [], ar_putPrefixSpan := zeroSpan, ar_prefixExposed := False\<rparr>"

abbreviation noBytes :: "nat \<Rightarrow> nat" where "noBytes \<equiv> \<lambda>_. 0"

lemma sum_list_update_nat:
  "i < length xs \<Longrightarrow> sum_list (map f (xs[i := x])) + f (xs ! i) = sum_list (map f xs) + (f x :: nat)"
proof (induction xs arbitrary: i)
  case (Cons s sps)
  then show ?case by (cases i) auto
qed simp

lemma sum_list_mem_nat: "i < length xs \<Longrightarrow> (f (xs ! i) :: nat) \<le> sum_list (map f xs)"
  by (simp add: member_le_sum_list)

lemma prefixInvD:
  assumes "prefixInv R e c"
  shows "length (ar_prefixArena c) \<le> maxPrefixArenaBytes" "length (ar_prefixArena c) < 2 ^ 32"
    "length (ar_freePrefixSpans c) \<le> 32" "owners R c p \<le> 1" "length (ar_prefixArena c) \<le> p \<Longrightarrow> owners R c p = 0"
    "i < length (ar_nodes c) \<Longrightarrow> labelOk (ar_prefixArena c) (ar_nodes c ! i)"
    "ar_livePrefixBytes c = int (nodesSize (ar_prefixArena c) (ar_nodes c) + e)"
  using assms by (auto simp: prefixInv_def maxPrefixArenaBytes_def)

lemma label_in_arena:
  assumes "prefixInv R e c" "i < length (ar_nodes c)"
  shows "labelCov (ar_prefixArena c) (ar_nodes c ! i) p = 1 \<Longrightarrow>
      p < length (ar_prefixArena c) \<and> nodesCov (ar_prefixArena c) (ar_nodes c) p = 1 \<and> freeCov c p = 0 \<and> R p = 0"
proof -
  assume "labelCov (ar_prefixArena c) (ar_nodes c ! i) p = 1"
  then have "1 \<le> nodesCov (ar_prefixArena c) (ar_nodes c) p"
    unfolding nodesCov_def using sum_list_mem_nat [OF assms(2), of "\<lambda>n. labelCov (ar_prefixArena c) n p"] by simp
  then show ?thesis
    using prefixInvD(4,5) [OF assms(1), of p] by (cases "length (ar_prefixArena c) \<le> p") (auto simp: owners_def)
qed

lemma label_bounds:
  assumes "prefixInv R e c" "i < length (ar_nodes c)" "an_prefixLen (ar_nodes c ! i) \<noteq> 0"
  shows "unat (an_prefixOff (ar_nodes c ! i)) + labelLen (ar_prefixArena c) (ar_nodes c ! i) \<le> length (ar_prefixArena c)"
    "0 < labelLen (ar_prefixArena c) (ar_nodes c ! i)"
    "length (labelStr (ar_prefixArena c) (ar_nodes c ! i)) = labelLen (ar_prefixArena c) (ar_nodes c ! i)"
    "isLargePrefix (ar_nodes c ! i) \<Longrightarrow> 4 \<le> unat (an_prefixOff (ar_nodes c ! i))"
proof -
  let ?n = "ar_nodes c ! i" and ?a = "ar_prefixArena c"
  have ok: "labelOk ?a ?n" by (rule prefixInvD(6) [OF assms(1,2)])
  show pos: "0 < labelLen ?a ?n" by (rule labelLen_pos [OF ok assms(3)])
  show hd: "isLargePrefix ?n \<Longrightarrow> 4 \<le> unat (an_prefixOff ?n)" using ok by (simp add: labelOk_def)
  have "labelStart ?n + labelSize ?a ?n \<le> length ?a"
  proof (rule cov_bound)
    show "0 < labelSize ?a ?n" using pos by (simp add: labelSize_def)
    show "cov (labelStart ?n) (labelSize ?a ?n) p = 0" if "length ?a \<le> p" for p
    proof -
      have "labelCov ?a ?n p \<noteq> 1" using label_in_arena [OF assms(1,2), of p] that by auto
      then show ?thesis by (simp add: labelCov_def cov_def split: if_splits)
    qed
  qed
  then show b: "unat (an_prefixOff ?n) + labelLen ?a ?n \<le> length ?a"
    using hd by (auto simp: labelStart_def labelSize_def hdrLen_def split: if_splits)
  then show "length (labelStr ?a ?n) = labelLen ?a ?n" by (simp add: labelStr_def)
qed

text \<open>The labels do not notice a change of the bytes they do not own.\<close>

definition labelsKept :: "string \<Rightarrow> string \<Rightarrow> 'v arenaRadixNode list \<Rightarrow> bool" where
  "labelsKept a b ns \<longleftrightarrow> (\<forall>n \<in> set ns. labelLen b n = labelLen a n \<and> labelStr b n = labelStr a n
     \<and> labelCov b n = labelCov a n \<and> labelSize b n = labelSize a n \<and> labelOk b n)"

lemma labelsKept_nodes:
  assumes "labelsKept a b ns"
  shows "nodesCov b ns p = nodesCov a ns p" "nodesSize b ns = nodesSize a ns"
    "map (labelStr b) ns = map (labelStr a) ns" "\<forall>n \<in> set ns. labelOk b n"
  using assms by (auto simp: labelsKept_def nodesCov_def nodesSize_def intro!: arg_cong [where f = sum_list] map_cong)

lemma labelsKeptI:
  assumes inv: "prefixInv R e c"
    and same: "\<And>p. nodesCov (ar_prefixArena c) (ar_nodes c) p = 1 \<Longrightarrow> p < length (ar_prefixArena c) \<Longrightarrow>
       p < length b \<and> ar_prefixArena c ! p = b ! p"
  shows "labelsKept (ar_prefixArena c) b (ar_nodes c)"
  unfolding labelsKept_def
proof
  fix n
  assume "n \<in> set (ar_nodes c)"
  then obtain i where i: "i < length (ar_nodes c)" "n = ar_nodes c ! i" by (metis in_set_conv_nth)
  note l = label_agree [OF prefixInvD(6) [OF inv i(1)], folded i(2)]
  have "\<And>p. labelCov (ar_prefixArena c) n p = 1 \<Longrightarrow> p < length (ar_prefixArena c) \<and> p < length b \<and> ar_prefixArena c ! p = b ! p"
    using label_in_arena [OF inv i(1)] same i(2) by blast
  from l [OF this] show "labelLen b n = labelLen (ar_prefixArena c) n \<and> labelStr b n = labelStr (ar_prefixArena c) n
     \<and> labelCov b n = labelCov (ar_prefixArena c) n \<and> labelSize b n = labelSize (ar_prefixArena c) n \<and> labelOk b n"
    by blast
qed

lemma prefixInv_arena:
  \<comment> \<open>the arena, the spans and the range in hand change, the nodes do not\<close>
  assumes inv: "prefixInv R e c" and nodes: "ar_nodes c' = ar_nodes c"
    and kept: "labelsKept (ar_prefixArena c) (ar_prefixArena c') (ar_nodes c)"
    and len: "length (ar_prefixArena c') \<le> maxPrefixArenaBytes" "length (ar_freePrefixSpans c') \<le> 32"
    and one: "\<And>p. nodesCov (ar_prefixArena c) (ar_nodes c) p + (freeCov c' p + R' p) \<le> 1"
    and zero: "\<And>p. length (ar_prefixArena c') \<le> p \<Longrightarrow> nodesCov (ar_prefixArena c) (ar_nodes c) p + (freeCov c' p + R' p) = 0"
    and live: "ar_livePrefixBytes c' = ar_livePrefixBytes c + int e' - int e"
  shows "prefixInv R' e' c' \<and> labels c' = labels c"
proof
  note k = labelsKept_nodes [OF kept]
  show "prefixInv R' e' c'"
    unfolding prefixInv_def owners_def nodes k(1,2)
    using len one zero live k(4) prefixInvD(7) [OF inv] by (auto simp: add.assoc)
  show "labels c' = labels c" by (simp add: labels_def nodes k(3))
qed

subsection \<open>Operations that leave the labels alone\<close>

definition sameNodes :: "'v arenaRadix \<Rightarrow> 'v arenaRadix \<Rightarrow> bool" where
  "sameNodes c c' \<longleftrightarrow> ar_nodes c' = ar_nodes c \<and> labels c' = labels c \<and> outside c' = outside c"

lemma sameNodes_refl [simp]: "sameNodes c c"
  by (simp add: sameNodes_def)

lemma sameNodes_trans: "sameNodes c c1 \<Longrightarrow> sameNodes c1 c2 \<Longrightarrow> sameNodes c c2"
  by (simp add: sameNodes_def)

definition handCov :: "nat \<Rightarrow> nat \<Rightarrow> nat \<Rightarrow> nat" where
  \<comment> \<open>the bytes of a label of length \<open>pl\<close> at \<open>off\<close>, with its header when it is long\<close>
  "handCov off pl = cov (off - hdrLen (largeMin \<le> pl)) (pl + hdrLen (largeMin \<le> pl))"

definition headerOk :: "nat \<Rightarrow> nat \<Rightarrow> string \<Rightarrow> bool" where
  "headerOk off pl a \<longleftrightarrow> (largeMin \<le> pl \<longrightarrow> 4 \<le> off \<and> take 4 (drop (off - 4) a) = le_put32 (of_nat pl))"

abbreviation plus :: "(nat \<Rightarrow> nat) \<Rightarrow> (nat \<Rightarrow> nat) \<Rightarrow> nat \<Rightarrow> nat" where
  "plus R Q \<equiv> \<lambda>p. R p + Q p"

lemma release_inv:
  assumes inv: "prefixInv (plus R Q) (pLen + hdrLen isLarge + f) c"
    and R: "R = cov (unat off - hdrLen isLarge) (pLen + hdrLen isLarge)"
    and pos: "0 < pLen" and hd: "isLarge \<Longrightarrow> 4 \<le> unat off"
  shows "\<exists>c'. releasePrefixSpanLocked off pLen isLarge flags c = Inr c' \<and> prefixInv Q f c' \<and> sameNodes c c'
    \<and> length (ar_prefixArena c') \<le> length (ar_prefixArena c)"
proof -
  let ?a = "ar_prefixArena c"
  note D = prefixInvD [OF inv]
  have "freeCov c p + R p \<le> 1" for p using D(4) [of p] by (simp add: owners_def)
  moreover have "freeCov c p + R p = 0" if "length ?a \<le> p" for p using D(5) [OF that] by (simp add: owners_def)
  ultimately obtain n c' where r: "releasePrefixSpanLocked off pLen isLarge flags c = Inr c'"
    "releasedTo n R (pLen + hdrLen isLarge) c c'"
    using release_spec [OF D(1,3) R] pos hd by blast
  from r(2) obtain fs put where c': "c' = c\<lparr>ar_prefixArena := take n ?a,
       ar_livePrefixBytes := ar_livePrefixBytes c - int (pLen + hdrLen isLarge), ar_freePrefixSpans := fs, ar_putPrefixSpan := put\<rparr>"
    and n: "n \<le> length ?a" "length (ar_freePrefixSpans c') \<le> 32"
    and lo: "\<forall>p < n. freeCov c' p \<le> freeCov c p + R p" and hi: "\<forall>p \<ge> n. freeCov c' p = 0"
    and cut: "\<forall>p. n \<le> p \<and> p < length ?a \<longrightarrow> freeCov c p + R p = 1"
    unfolding releasedTo_def by blast
  have none: "nodesCov ?a (ar_nodes c) p = 0 \<and> Q p = 0" if "n \<le> p" for p
    using D(4,5) [of p] cut that by (cases "p < length ?a") (auto simp: owners_def)
  have nodes: "ar_nodes c' = ar_nodes c" "ar_prefixArena c' = take n ?a" unfolding c' by simp_all
  have "labelsKept ?a (take n ?a) (ar_nodes c)"
  proof (rule labelsKeptI [OF inv])
    fix p
    assume p: "nodesCov ?a (ar_nodes c) p = 1" "p < length ?a"
    then have "p < n" using none [of p] by (cases "n \<le> p") auto
    then show "p < length (take n ?a) \<and> ?a ! p = take n ?a ! p" using p(2) by simp
  qed
  then have kept: "labelsKept ?a (ar_prefixArena c') (ar_nodes c)" by (simp add: nodes)
  have "prefixInv Q f c' \<and> labels c' = labels c"
  proof (rule prefixInv_arena [OF inv nodes(1) kept])
    show "length (ar_prefixArena c') \<le> maxPrefixArenaBytes" unfolding nodes using D(1) by simp
    show "nodesCov ?a (ar_nodes c) p + (freeCov c' p + Q p) \<le> 1" for p
      using D(4) [of p] lo hi none [of p] by (cases "p < n") (auto simp: owners_def)
    show "nodesCov ?a (ar_nodes c) p + (freeCov c' p + Q p) = 0" if "length (ar_prefixArena c') \<le> p" for p
      using that hi none [of p] n(1) unfolding nodes(2) by simp
    show "ar_livePrefixBytes c' = ar_livePrefixBytes c + int f - int (pLen + hdrLen isLarge + f)" unfolding c' by simp
    show "length (ar_freePrefixSpans c') \<le> 32" by (rule n(2))
  qed
  moreover have "outside c' = outside c" unfolding c' outside_def by simp
  moreover have "length (ar_prefixArena c') \<le> length ?a" by (simp add: nodes)
  ultimately show ?thesis using r(1) nodes(1) unfolding sameNodes_def by blast
qed

lemma length_writeBytes [simp]: "off + length x \<le> length s \<Longrightarrow> length (writeBytes off x s) = length s"
  by (simp add: writeBytes_def)

lemma nth_writeBytes:
  assumes "off + length x \<le> length s" "p < length s"
  shows "writeBytes off x s ! p = (if off \<le> p \<and> p < off + length x then x ! (p - off) else s ! p)"
  using assms by (auto simp: writeBytes_def nth_append min_def)

lemma read_writeBytes: "off + length x \<le> length s \<Longrightarrow> take (length x) (drop off (writeBytes off x s)) = x"
  by (simp add: writeBytes_def)

lemma write_inv:
  assumes inv: "prefixInv R e c" and own: "\<And>p. off \<le> p \<Longrightarrow> p < off + length x \<Longrightarrow> 1 \<le> R p" and ne: "x \<noteq> []"
  defines "a' \<equiv> writeBytes off x (ar_prefixArena c)"
  shows "copyInto off x (ar_prefixArena c) = Inr a'" "prefixInv R e (c\<lparr>ar_prefixArena := a'\<rparr>)"
    "sameNodes c (c\<lparr>ar_prefixArena := a'\<rparr>)" "off + length x \<le> length (ar_prefixArena c)"
    "length a' = length (ar_prefixArena c)"
    "p < length (ar_prefixArena c) \<Longrightarrow> p < off \<or> off + length x \<le> p \<Longrightarrow> a' ! p = ar_prefixArena c ! p"
    "take (length x) (drop off a') = x"
proof -
  let ?a = "ar_prefixArena c" and ?c = "c\<lparr>ar_prefixArena := a'\<rparr>"
  note D = prefixInvD [OF inv]
  show b: "off + length x \<le> length ?a"
  proof (rule ccontr)
    assume n: "\<not> off + length x \<le> length ?a"
    let ?p = "off + length x - 1"
    have "1 \<le> R ?p" using own [of ?p] ne by (cases x) auto
    moreover have "owners R c ?p = 0" using D(5) [of ?p] n by simp
    ultimately show False by (simp add: owners_def)
  qed
  then show "copyInto off x ?a = Inr a'" by (simp add: copyInto_def a'_def)
  show len: "length a' = length ?a" using b by (simp add: a'_def)
  show other: "a' ! p = ?a ! p" if "p < length ?a" "p < off \<or> off + length x \<le> p" for p
    using that b by (auto simp: a'_def nth_writeBytes)
  show "take (length x) (drop off a') = x" using b by (simp add: a'_def read_writeBytes)
  have "labelsKept ?a a' (ar_nodes c)"
  proof (rule labelsKeptI [OF inv])
    fix p
    assume p: "nodesCov ?a (ar_nodes c) p = 1" "p < length ?a"
    then have "R p = 0" using D(4) [of p] by (simp add: owners_def)
    then have "p < off \<or> off + length x \<le> p" using own [of p] by (cases "off \<le> p"; cases "p < off + length x") simp_all
    then show "p < length a' \<and> ?a ! p = a' ! p" using p(2) len other by simp
  qed
  then have k: "labelsKept ?a (ar_prefixArena ?c) (ar_nodes c)" by simp
  have f: "freeCov ?c p = freeCov c p" for p by (simp add: freeCov_def)
  have "prefixInv R e ?c \<and> labels ?c = labels c"
    by (rule prefixInv_arena [OF inv _ k]; use D(1,3,4,5) len in \<open>simp add: f owners_def add.assoc\<close>)
  then show "prefixInv R e ?c" "sameNodes c ?c" by (auto simp: sameNodes_def outside_def)
qed

lemma append_inv:
  assumes inv: "prefixInv R e c" and len: "length (ar_prefixArena c) + length x \<le> maxPrefixArenaBytes"
  shows "prefixInv (plus R (cov (length (ar_prefixArena c)) (length x))) e (appendBytes x c)"
    "sameNodes c (appendBytes x c)" "ar_prefixArena (appendBytes x c) = ar_prefixArena c @ x"
proof -
  let ?a = "ar_prefixArena c" and ?c = "appendBytes x c"
  note D = prefixInvD [OF inv]
  show arena: "ar_prefixArena ?c = ?a @ x" by (simp add: appendBytes_def Let_def)
  have other: "ar_nodes ?c = ar_nodes c" "ar_freePrefixSpans ?c = ar_freePrefixSpans c" "freeCov ?c p = freeCov c p"
    "ar_livePrefixBytes ?c = ar_livePrefixBytes c" for p
    by (simp_all add: appendBytes_def Let_def freeCov_def)
  have "labelsKept ?a (?a @ x) (ar_nodes c)"
    by (rule labelsKeptI [OF inv]) (simp add: nth_append)
  then have k: "labelsKept ?a (ar_prefixArena ?c) (ar_nodes c)" by (simp add: arena)
  have c01: "cov (length ?a) (length x) p = 0" if "p < length ?a \<or> length ?a + length x \<le> p" for p
    using that by (auto simp: cov_def)
  have one: "nodesCov ?a (ar_nodes c) p + (freeCov ?c p + plus R (cov (length ?a) (length x)) p) \<le> 1" for p
  proof (cases "p < length ?a")
    case True
    then show ?thesis using D(4) [of p] c01 [of p] by (simp add: owners_def other)
  next
    case False
    then show ?thesis using D(5) [of p] by (auto simp: owners_def other cov_def)
  qed
  have zero: "nodesCov ?a (ar_nodes c) p + (freeCov ?c p + plus R (cov (length ?a) (length x)) p) = 0"
    if "length (ar_prefixArena ?c) \<le> p" for p
    using that D(5) [of p] c01 [of p] by (simp add: arena owners_def other)
  have "prefixInv (plus R (cov (length ?a) (length x))) e ?c \<and> labels ?c = labels c"
    by (rule prefixInv_arena [OF inv other(1) k _ _ one zero]; use D(3) len in \<open>simp add: arena other\<close>)
  then show "prefixInv (plus R (cov (length ?a) (length x))) e ?c" "sameNodes c ?c"
    by (auto simp: sameNodes_def outside_def appendBytes_def Let_def)
qed

subsection \<open>Taking a span\<close>

lemma take_None: "takeFreePrefixSpanLocked l c = (c', None) \<Longrightarrow> c' = c"
  by (auto simp: takeFreePrefixSpanLocked_def Let_def split: prod.splits option.splits bool.splits)

lemma tryTake_raw:
  assumes inv: "freeInv c" and n: "needed \<le> maxPrefixArenaBytes"
  defines "k \<equiv> (of_nat needed :: u32)"
  obtains (none) "(if k \<le> sp_len (ar_putPrefixSpan c)
      then (c\<lparr>ar_putPrefixSpan := (if sp_len (ar_putPrefixSpan c) = k then zeroSpan
           else \<lparr>sp_off = sp_off (ar_putPrefixSpan c) + k, sp_len = sp_len (ar_putPrefixSpan c) - k\<rparr>)\<rparr>,
           Some (sp_off (ar_putPrefixSpan c)))
      else if ar_freePrefixSpans c = [] then (c, None) else takeFreePrefixSpanLocked k c) = (c, None)"
  | (some) c1 raw fs put where "(if k \<le> sp_len (ar_putPrefixSpan c)
      then (c\<lparr>ar_putPrefixSpan := (if sp_len (ar_putPrefixSpan c) = k then zeroSpan
           else \<lparr>sp_off = sp_off (ar_putPrefixSpan c) + k, sp_len = sp_len (ar_putPrefixSpan c) - k\<rparr>)\<rparr>,
           Some (sp_off (ar_putPrefixSpan c)))
      else if ar_freePrefixSpans c = [] then (c, None) else takeFreePrefixSpanLocked k c) = (c1, Some raw)"
    "c1 = c\<lparr>ar_freePrefixSpans := fs, ar_putPrefixSpan := put\<rparr>" "length fs \<le> 32"
    "\<And>p. freeCov c p = freeCov c1 p + cov (unat raw) needed p"
proof -
  let ?put = "ar_putPrefixSpan c"
  have k: "unat k = needed" using n by (simp add: k_def unat_of_nat maxPrefixArenaBytes_def)
  have n32: "length (ar_prefixArena c) \<le> 2 ^ 32 - 1" using freeInv_lt [OF inv] by simp
  have fits: "spansFit (2 ^ 32 - 1) (ar_freePrefixSpans c)"
    using freeInv_fits(1) [OF inv] spanFits_mono [OF _ n32] unfolding spansFit_def by blast
  have put: "spanFits (2 ^ 32 - 1) ?put" by (rule spanFits_mono [OF freeInv_fits(2) [OF inv] n32])
  have l32: "length (ar_freePrefixSpans c) \<le> 32" using inv by (simp add: freeInv_def)
  show thesis
  proof (cases "k \<le> sp_len ?put")
    case True
    define sp where "sp = (if sp_len ?put = k then zeroSpan
           else \<lparr>sp_off = sp_off ?put + k, sp_len = sp_len ?put - k\<rparr>)"
    have "spanCov ?put p = spanCov sp p + cov (unat (sp_off ?put)) needed p" for p
    proof (cases "sp_len ?put = k")
      case True
      then show ?thesis by (simp add: sp_def spanCov_def k zeroSpan_def)
    next
      case False
      then have lt: "needed < unat (sp_len ?put)" using True k by (metis word_le_nat_alt unsigned_word_eqI nat_less_le)
      have "unat (sp_off ?put) + unat (sp_len ?put) < 2 ^ 32" using put lt by (auto simp: spanFits_def)
      then have "unat (sp_off ?put + k) = unat (sp_off ?put) + needed" "unat (sp_len ?put - k) = unat (sp_len ?put) - needed"
        using lt True k by (simp_all add: unat_word_ariths unat_sub)
      moreover have "cov (unat (sp_off ?put)) needed p + cov (unat (sp_off ?put) + needed) (unat (sp_len ?put) - needed) p
          = cov (unat (sp_off ?put)) (unat (sp_len ?put)) p"
        using cov_join [of "unat (sp_off ?put)" needed p "unat (sp_len ?put) - needed"] lt by simp
      ultimately show ?thesis using False by (simp add: sp_def spanCov_def)
    qed
    then have "freeCov c p = freeCov (c\<lparr>ar_freePrefixSpans := ar_freePrefixSpans c, ar_putPrefixSpan := sp\<rparr>) p
        + cov (unat (sp_off ?put)) needed p" for p by (simp add: freeCov_def)
    then show thesis
      by (intro some [of "c\<lparr>ar_freePrefixSpans := ar_freePrefixSpans c, ar_putPrefixSpan := sp\<rparr>"
            "sp_off ?put" sp "ar_freePrefixSpans c"])
        (use True l32 in \<open>simp_all add: sp_def\<close>)
  next
    case False
    note F = if_not_P [OF False]
    show thesis
    proof (cases "ar_freePrefixSpans c = []")
      case True
      show thesis by (rule none) (simp only: F True if_True refl)
    next
      case ne: False
      obtain c1 r where t: "takeFreePrefixSpanLocked k c = (c1, r)" by fastforce
      show thesis
      proof (cases r)
        case None
        then have "c1 = c" using take_None t by blast
        then show thesis using none None t unfolding F if_not_P [OF ne] by simp
      next
        case (Some raw)
        obtain fs where fs: "c1 = c\<lparr>ar_freePrefixSpans := fs\<rparr>" "length fs \<le> length (ar_freePrefixSpans c)"
          "\<And>p. spansCov (ar_freePrefixSpans c) p = spansCov fs p + cov (unat raw) (unat k) p"
          using take_spec [OF t [unfolded Some] fits] by blast
        have "freeCov c p = freeCov c1 p + cov (unat raw) needed p" for p
          using fs(3) [of p] by (simp add: freeCov_def fs(1) k)
        then show thesis using some [of c1 raw ?put fs] t Some fs(1,2) l32 unfolding F if_not_P [OF ne] by simp
      qed
    qed
  qed
qed

lemma prefixInv_freeInv:
  assumes "prefixInv R e c"
  shows "freeInv c"
  unfolding freeInv_def
proof (intro conjI allI impI)
  show "freeCov c p \<le> 1" for p using prefixInvD(4) [OF assms, of p] by (simp add: owners_def)
  show "freeCov c p = 0" if "length (ar_prefixArena c) \<le> p" for p
    using prefixInvD(5) [OF assms that] by (simp add: owners_def)
qed (use prefixInvD [OF assms] in simp_all)

definition needFor :: "nat \<Rightarrow> nat" where "needFor pl = (if largeMin \<le> pl then pl + 4 else pl)"

lemma needFor_hdr: "needFor pl = pl + hdrLen (largeMin \<le> pl)"
  by (simp add: needFor_def hdrLen_def)

lemma tryTake_inv:
  assumes inv: "prefixInv R e c" and pos: "0 < pl"
  obtains (none) "tryTakeFreePrefixPayloadSpanLocked pl (needFor pl) c = Inr (c, None)"
  | (some) c' off where "tryTakeFreePrefixPayloadSpanLocked pl (needFor pl) c = Inr (c', Some off)"
    "sameNodes c c'" "length (ar_prefixArena c') = length (ar_prefixArena c)"
    "\<And>p. R p = 1 \<Longrightarrow> ar_prefixArena c' ! p = ar_prefixArena c ! p"
    "prefixInv (plus R (handCov (unat off) pl)) e c'" "headerOk (unat off) pl (ar_prefixArena c')"
    "unat off + pl \<le> length (ar_prefixArena c')"
proof (cases "needFor pl \<le> maxPrefixArenaBytes")
  case False
  then show thesis using none by (simp add: tryTakeFreePrefixPayloadSpanLocked_def)
next
  case nmax: True
  let ?a = "ar_prefixArena c"
  note D = prefixInvD [OF inv]
  from prefixInv_freeInv [OF inv] nmax show thesis
  proof (cases rule: tryTake_raw)
    case none
    then show thesis using nmax that(1) unfolding tryTakeFreePrefixPayloadSpanLocked_def Let_def by simp
  next
    case (some c1 raw fs put)
    have t: "tryTakeFreePrefixPayloadSpanLocked pl (needFor pl) c = (if largeMin \<le> pl
          then bindr (copyInto (unat raw) (le_put32 (of_nat pl)) (ar_prefixArena c1)) (\<lambda>a.
                 Inr (c1\<lparr>ar_prefixArena := a\<rparr>, Some (raw + 4)))
          else Inr (c1, Some raw))"
      using nmax some(1) unfolding tryTakeFreePrefixPayloadSpanLocked_def Let_def by simp
    have same1: "ar_nodes c1 = ar_nodes c" "ar_prefixArena c1 = ?a" "ar_livePrefixBytes c1 = ar_livePrefixBytes c" "outside c1 = outside c"
      using some(2) by (simp_all add: outside_def)
    let ?R = "plus R (cov (unat raw) (needFor pl))"
    have k: "labelsKept ?a (ar_prefixArena c1) (ar_nodes c)" unfolding same1 by (rule labelsKeptI [OF inv]) simp
    have inv1: "prefixInv ?R e c1 \<and> labels c1 = labels c"
    proof (rule prefixInv_arena [OF inv same1(1) k])
      show "nodesCov ?a (ar_nodes c) p + (freeCov c1 p + ?R p) \<le> 1" for p
        using D(4) [of p] some(4) [of p] by (simp add: owners_def)
      show "nodesCov ?a (ar_nodes c) p + (freeCov c1 p + ?R p) = 0" if "length (ar_prefixArena c1) \<le> p" for p
        using D(5) [of p] some(4) [of p] that by (simp add: owners_def same1)
      show "length (ar_freePrefixSpans c1) \<le> 32" using some(2,3) by simp
    qed (use D(1) in \<open>simp_all add: same1\<close>)
    have rb: "unat raw + needFor pl \<le> length ?a"
    proof (rule cov_bound)
      show "0 < needFor pl" using pos by (simp add: needFor_def)
      show "cov (unat raw) (needFor pl) p = 0" if "length ?a \<le> p" for p
        using prefixInvD(5) [OF conjunct1 [OF inv1], of p] that by (simp add: owners_def same1)
    qed
    show thesis
    proof (cases "largeMin \<le> pl")
      case False
      show thesis
      proof (rule that(2))
        show "tryTakeFreePrefixPayloadSpanLocked pl (needFor pl) c = Inr (c1, Some raw)" using t False by simp
        show "sameNodes c c1" using inv1 same1 by (simp add: sameNodes_def)
        show "prefixInv (plus R (handCov (unat raw) pl)) e c1"
          using inv1 False by (simp add: handCov_def needFor_def)
      qed (use False rb same1 in \<open>simp_all add: headerOk_def needFor_def\<close>)
    next
      case True
      let ?h = "le_put32 (of_nat pl)"
      let ?b = "writeBytes (unat raw) ?h ?a"
      have own: "1 \<le> ?R p" if "unat raw \<le> p" "p < unat raw + length ?h" for p
        using that True by (simp add: needFor_def cov_def)
      have ne: "?h \<noteq> []" by (metis length_le_put32 list.size(3) zero_neq_numeral)
      note w = write_inv [where off = "unat raw" and x = ?h, OF conjunct1 [OF inv1] own ne, unfolded same1]
      have lt: "unat raw + 4 < 2 ^ 32" using rb True D(2) by (simp add: needFor_def)
      then have u: "unat (raw + 4) = unat raw + 4" by (simp add: unat_word_ariths)
      show thesis
      proof (rule that(2))
        show "tryTakeFreePrefixPayloadSpanLocked pl (needFor pl) c = Inr (c1\<lparr>ar_prefixArena := ?b\<rparr>, Some (raw + 4))"
          using t True w(1) by (simp add: same1)
        show "sameNodes c (c1\<lparr>ar_prefixArena := ?b\<rparr>)" using inv1 same1 w(3) by (simp add: sameNodes_def)
        show "length (ar_prefixArena (c1\<lparr>ar_prefixArena := ?b\<rparr>)) = length ?a" using w(5) by simp
        show "ar_prefixArena (c1\<lparr>ar_prefixArena := ?b\<rparr>) ! p = ?a ! p" if "R p = 1" for p
        proof -
          have "owners ?R c1 p \<le> 1" using prefixInvD(4) [OF conjunct1 [OF inv1]] by blast
          then have "cov (unat raw) (needFor pl) p = 0" using that by (simp add: owners_def)
          then have "p < unat raw \<or> unat raw + length ?h \<le> p" using True by (auto simp: cov_def needFor_def split: if_splits)
          moreover have "p < length ?a" using D(5) [of p] that by (cases "length ?a \<le> p") (auto simp: owners_def)
          ultimately show ?thesis using w(6) [of p] by simp
        qed
        show "prefixInv (plus R (handCov (unat (raw + 4)) pl)) e (c1\<lparr>ar_prefixArena := ?b\<rparr>)"
          using w(2) True by (simp add: handCov_def u needFor_def)
        show "headerOk (unat (raw + 4)) pl (ar_prefixArena (c1\<lparr>ar_prefixArena := ?b\<rparr>))"
          using w(7) by (simp add: headerOk_def u)
        show "unat (raw + 4) + pl \<le> length (ar_prefixArena (c1\<lparr>ar_prefixArena := ?b\<rparr>))"
          using rb True w(5) by (simp add: u needFor_def)
      qed
    qed
  qed
qed

end
