(* ===== verification/ArenaRebuild.thy ===== *)
theory ArenaRebuild
  imports ArenaLabels
begin

text \<open>
  Reading and clearing a label, and the compaction of the arena: \<open>rebuildPrefixArenaWithCapLocked\<close>
  keeps every label and leaves no dead byte, so \<open>ensurePrefixArenaCap\<close> fails exactly when the live bytes
  and the bytes asked for together exceed the address space of the offsets.
\<close>

subsection \<open>Reading\<close>

lemma nodePrefixLen_spec:
  assumes inv: "prefixInv R e c" and i: "unat k < length (ar_nodes c)"
  shows "nodePrefixLen c k = Inr (labelLen (ar_prefixArena c) (ar_nodes c ! unat k))"
proof (cases "isLargePrefix (ar_nodes c ! unat k)")
  case False
  then show ?thesis using i by (simp add: nodePrefixLen_def nodeAt_def labelLen_def not_large_less)
next
  case True
  let ?n = "ar_nodes c ! unat k"
  have ne: "an_prefixLen ?n \<noteq> 0" using True labelLen_0(2) by blast
  note b = label_bounds [OF inv i ne]
  have o: "4 \<le> unat (an_prefixOff ?n)" "unat (an_prefixOff ?n) \<le> length (ar_prefixArena c)" using b True by auto
  then have "unat (an_prefixOff ?n - 4) = unat (an_prefixOff ?n) - 4" by (simp add: unat_sub word_le_nat_alt)
  then show ?thesis using i True o by (simp add: nodePrefixLen_def nodeAt_def labelLen_def Let_def sliceBytes_def)
qed

lemma nodePrefix_spec:
  assumes inv: "prefixInv R e c" and i: "unat k < length (ar_nodes c)"
  shows "nodePrefix c k = Inr (labelStr (ar_prefixArena c) (ar_nodes c ! unat k))"
proof -
  let ?n = "ar_nodes c ! unat k" and ?a = "ar_prefixArena c"
  consider (e) "an_prefixLen ?n = 0" | (s) "an_prefixLen ?n \<noteq> 0" "\<not> isLargePrefix ?n" | (l) "isLargePrefix ?n" "an_prefixLen ?n \<noteq> 0"
    by blast
  then show ?thesis
  proof cases
    case e
    then show ?thesis using i by (simp add: nodePrefix_def nodeAt_def)
  next
    case s
    note b = label_bounds [OF inv i s(1)]
    then show ?thesis using i s by (simp add: nodePrefix_def nodeAt_def not_large_less unsafeString_def labelStr_def labelLen_def)
  next
    case l
    note b = label_bounds [OF inv i l(2)]
    have o: "4 \<le> unat (an_prefixOff ?n)" "unat (an_prefixOff ?n) \<le> length ?a" using b l by auto
    then have u: "unat (an_prefixOff ?n - 4) = unat (an_prefixOff ?n) - 4" by (simp add: unat_sub word_le_nat_alt)
    have "\<not> an_prefixLen ?n < largePrefixSentinel" using l by simp
    then show ?thesis using i l b o u
      by (simp add: nodePrefix_def nodeAt_def labelStr_def labelLen_def Let_def sliceBytes_def unsafeString_def)
  qed
qed

lemma label_nil_iff:
  assumes inv: "prefixInv R e c" and i: "i < length (ar_nodes c)"
  shows "labelStr (ar_prefixArena c) (ar_nodes c ! i) = [] \<longleftrightarrow> an_prefixLen (ar_nodes c ! i) = 0"
  using label_bounds(2,3) [OF inv i] by (metis labelSize_0(2) length_0_conv less_numeral_extra(3))

lemma label_len:
  assumes inv: "prefixInv R e c" and i: "i < length (ar_nodes c)"
  shows "length (labels c ! i) = labelLen (ar_prefixArena c) (ar_nodes c ! i)"
proof (cases "an_prefixLen (ar_nodes c ! i) = 0")
  case True
  then show ?thesis using i by (simp add: labels_def labelLen_0)
next
  case False
  then show ?thesis using label_bounds(3) [OF inv i False] i by (simp add: labels_def)
qed

subsection \<open>Changing one node\<close>

lemma nodesCov_update:
  "i < length ns \<Longrightarrow> nodesCov a (ns[i := n]) p + labelCov a (ns ! i) p = nodesCov a ns p + labelCov a n p"
  unfolding nodesCov_def by (rule sum_list_update_nat)

lemma nodesSize_update:
  "i < length ns \<Longrightarrow> nodesSize a (ns[i := n]) + labelSize a (ns ! i) = nodesSize a ns + labelSize a n"
  unfolding nodesSize_def by (rule sum_list_update_nat)

lemma prefixInv_node:
  assumes inv: "prefixInv R e c" and i: "i < length (ar_nodes c)" and ok: "labelOk (ar_prefixArena c) n"
    and c': "c' = c\<lparr>ar_nodes := (ar_nodes c)[i := n], ar_livePrefixBytes := live\<rparr>"
    and cov: "\<And>p. labelCov (ar_prefixArena c) n p + R' p = labelCov (ar_prefixArena c) (ar_nodes c ! i) p + R p"
    and live: "live = ar_livePrefixBytes c + int (labelSize (ar_prefixArena c) n) + int e'
        - int (labelSize (ar_prefixArena c) (ar_nodes c ! i)) - int e"
  shows "prefixInv R' e' c' \<and> labels c' = (labels c)[i := labelStr (ar_prefixArena c) n]"
proof
  let ?a = "ar_prefixArena c"
  note D = prefixInvD [OF inv]
  have o: "owners R' c' p = owners R c p" for p
    using nodesCov_update [OF i, of ?a n p] cov [of p] by (simp add: owners_def c' freeCov_def)
  have "set ((ar_nodes c)[i := n]) \<subseteq> insert n (set (ar_nodes c))" by (rule set_update_subset_insert)
  then have ok': "\<forall>m \<in> set ((ar_nodes c)[i := n]). labelOk ?a m" using ok inv by (auto simp: prefixInv_def)
  have "live = int (nodesSize ?a ((ar_nodes c)[i := n]) + e')"
    using nodesSize_update [OF i, of ?a n] live D(7) by simp
  then show "prefixInv R' e' c'"
    unfolding prefixInv_def o using D(1,3,4,5) ok' by (simp add: c')
  show "labels c' = (labels c)[i := labelStr ?a n]" by (simp add: c' labels_def map_update)
qed

lemma bare_bare [simp]: "bare (bare n) = bare n"
  by (simp add: bare_def)

lemma map_bare_update: "i < length ns \<Longrightarrow> bare n = bare (ns ! i) \<Longrightarrow> map bare (ns[i := n]) = map bare ns"
  by (metis list_update_id map_update nth_map)

lemma outside_node:
  assumes "c' = c\<lparr>ar_nodes := (ar_nodes c)[i := n], ar_livePrefixBytes := live\<rparr>" "i < length (ar_nodes c)"
    "bare n = bare (ar_nodes c ! i)"
  shows "outside c' = outside c"
  using map_bare_update [OF assms(2,3)] by (simp add: outside_def assms(1))

lemma bare_label [simp]: "an_prefixLen (bare n) = 0" "labelOk a (bare n)"
  by (simp_all add: bare_def labelOk_def largePrefixSentinel_def)

lemma labelCov_hand:
  assumes "labelOk a n" "an_prefixLen n \<noteq> 0"
  shows "labelCov a n = handCov (unat (an_prefixOff n)) (labelLen a n)" "labelSize a n = needFor (labelLen a n)"
    "isLargePrefix n \<longleftrightarrow> largeMin \<le> labelLen a n"
proof -
  have "unat (an_prefixLen n) < 65536" using unsigned_less [of "an_prefixLen n"] by simp
  then have "\<not> isLargePrefix n \<Longrightarrow> labelLen a n < 65535"
    by (metis labelLen_def not_large_less sentinel_val(1) word_less_nat_alt)
  then show l: "isLargePrefix n \<longleftrightarrow> largeMin \<le> labelLen a n"
    using assms(1) unfolding labelOk_def by (metis sentinel_val(1) linorder_not_le)
  show "labelCov a n = handCov (unat (an_prefixOff n)) (labelLen a n)" "labelSize a n = needFor (labelLen a n)"
    by (simp_all add: labelCov_def handCov_def labelStart_def labelSize_def needFor_hdr l)
qed

lemma clearNodePrefix_inv:
  assumes inv: "prefixInv R e c" and i: "unat k < length (ar_nodes c)"
  shows "\<exists>c'. clearNodePrefix k c = Inr c' \<and> prefixInv R e c' \<and> labels c' = (labels c)[unat k := ''''] \<and>
    ar_nodes c' = (ar_nodes c)[unat k := bare (ar_nodes c ! unat k)] \<and> outside c' = outside c"
proof -
  let ?n = "ar_nodes c ! unat k" and ?a = "ar_prefixArena c"
  let ?c1 = "c\<lparr>ar_nodes := (ar_nodes c)[unat k := bare ?n]\<rparr>"
  have c1: "?c1 = c\<lparr>ar_nodes := (ar_nodes c)[unat k := bare ?n], ar_livePrefixBytes := ar_livePrefixBytes c\<rparr>" by simp
  have out: "outside ?c1 = outside c" by (rule outside_node [OF c1 i]) simp
  have ok: "labelOk ?a ?n" by (rule prefixInvD(6) [OF inv i])
  show ?thesis
  proof (cases "an_prefixLen ?n = 0")
    case True
    have "bare ?n = an_unpin (?n\<lparr>an_prefixOff := 0, an_firstByte := CHR 0x00\<rparr>)"
      using True by (cases ?n) (simp add: bare_def)
    then have "clearNodePrefix k c = Inr ?c1"
      using i True by (simp add: clearNodePrefix_def nodeAt_def updNode_def)
    moreover have "prefixInv R e ?c1 \<and> labels ?c1 = (labels c)[unat k := labelStr ?a (bare ?n)]"
      by (rule prefixInv_node [OF inv i bare_label(2) c1]) (use True in simp_all)
    ultimately show ?thesis using out by auto
  next
    case False
    note h = labelCov_hand [OF ok False]
    have "clearNodePrefix k c = releasePrefixSpanLocked (an_prefixOff ?n) (labelLen ?a ?n) (isLargePrefix ?n) (an_prefixFlags ?n) ?c1"
      using i False nodePrefixLen_spec [OF inv i] by (simp add: clearNodePrefix_def nodeAt_def updNode_def bare_def)
    moreover have inv1: "prefixInv (plus (labelCov ?a ?n) R) (labelSize ?a ?n + e) ?c1
        \<and> labels ?c1 = (labels c)[unat k := labelStr ?a (bare ?n)]"
      by (rule prefixInv_node [OF inv i bare_label(2) c1]) simp_all
    have "prefixInv (plus (labelCov ?a ?n) R) (labelLen ?a ?n + hdrLen (isLargePrefix ?n) + e) ?c1"
      using inv1 by (simp add: labelSize_def)
    from release_inv [OF this, where off = "an_prefixOff ?n" and flags = "an_prefixFlags ?n"]
    obtain c' where c': "releasePrefixSpanLocked (an_prefixOff ?n) (labelLen ?a ?n) (isLargePrefix ?n) (an_prefixFlags ?n) ?c1 = Inr c'"
      "prefixInv R e c'" "sameNodes ?c1 c'"
      using label_bounds(2,4) [OF inv i False] by (auto simp: labelCov_def labelStart_def labelSize_def)
    ultimately show ?thesis
      using inv1 out by (auto simp: sameNodes_def)
  qed
qed

subsection \<open>Rebuilding the arena\<close>

lemma sum_cov: "off + l \<le> L \<Longrightarrow> (\<Sum>p<L. cov off l p) = l"
proof -
  assume "off + l \<le> L"
  then have "{..<L} \<inter> {p. off \<le> p \<and> p < off + l} = {off..<off + l}" by auto
  moreover have "(\<Sum>p<L. cov off l p) = card ({..<L} \<inter> {p. off \<le> p \<and> p < off + l})"
    unfolding cov_def by (simp add: sum.If_cases)
  ultimately show ?thesis by simp
qed

lemma sum_list_swap: "(\<Sum>p<(L :: nat). sum_list (map (\<lambda>n. f n p) ns)) = sum_list (map (\<lambda>n. \<Sum>p<L. (f n p :: nat)) ns)"
  by (induction ns) (simp_all add: sum.distrib)

lemma label_region:
  assumes inv: "prefixInv R e c" and i: "i < length (ar_nodes c)"
  shows "labelSize (ar_prefixArena c) (ar_nodes c ! i) = 0 \<or>
    labelStart (ar_nodes c ! i) + labelSize (ar_prefixArena c) (ar_nodes c ! i) \<le> length (ar_prefixArena c)"
proof (cases "an_prefixLen (ar_nodes c ! i) = 0")
  case False
  then show ?thesis
    using label_bounds [OF inv i False] by (auto simp: labelStart_def labelSize_def hdrLen_def)
qed simp

lemma label_sum:
  assumes inv: "prefixInv R e c" and i: "i < length (ar_nodes c)"
  shows "labelSize (ar_prefixArena c) (ar_nodes c ! i)
    = (\<Sum>p<length (ar_prefixArena c). labelCov (ar_prefixArena c) (ar_nodes c ! i) p)"
  using label_region [OF inv i]
proof
  assume "labelSize (ar_prefixArena c) (ar_nodes c ! i) = 0"
  then show ?thesis by (simp add: labelCov_def)
next
  assume "labelStart (ar_nodes c ! i) + labelSize (ar_prefixArena c) (ar_nodes c ! i) \<le> length (ar_prefixArena c)"
  then show ?thesis unfolding labelCov_def by (rule sum_cov [symmetric])
qed

lemma nodesSize_sum:
  assumes inv: "prefixInv R e c"
  shows "nodesSize (ar_prefixArena c) (ar_nodes c)
    = (\<Sum>p<length (ar_prefixArena c). nodesCov (ar_prefixArena c) (ar_nodes c) p)"
proof -
  have "map (labelSize (ar_prefixArena c)) (ar_nodes c)
     = map (\<lambda>n. \<Sum>p<length (ar_prefixArena c). labelCov (ar_prefixArena c) n p) (ar_nodes c)"
    by (rule nth_equalityI) (simp_all only: length_map nth_map label_sum [OF inv])
  then show ?thesis
    unfolding nodesSize_def nodesCov_def sum_list_swap by (rule arg_cong)
qed

lemma nodesSize_le:
  assumes inv: "prefixInv R e c"
  shows "nodesSize (ar_prefixArena c) (ar_nodes c) \<le> length (ar_prefixArena c)"
proof -
  have le: "nodesCov (ar_prefixArena c) (ar_nodes c) p \<le> 1" for p
    using prefixInvD(4) [OF inv, of p] unfolding owners_def by linarith
  have "(\<Sum>p<length (ar_prefixArena c). nodesCov (ar_prefixArena c) (ar_nodes c) p)
     \<le> of_nat (card {..<length (ar_prefixArena c)}) * 1"
    by (rule sum_bounded_above) (rule le)
  then show ?thesis unfolding nodesSize_sum [OF inv] by simp
qed

definition attached :: "'v arenaRadix \<Rightarrow> bool" where
  \<comment> \<open>only nodes of the tree have labels, and the indices of the store fit a word\<close>
  "attached c \<longleftrightarrow> length (ar_nodes c) < 2 ^ 32 \<and>
     (\<forall>i < length (ar_nodes c). an_prefixLen (ar_nodes c ! i) = 0 \<or> i = unat (ar_root c) \<or> an_parent (ar_nodes c ! i) \<noteq> nilNode)"

lemma bare_sel [simp]:
  "an_parent (bare n) = an_parent n" "an_child (bare n) = an_child n" "an_sibling (bare n) = an_sibling n"
  "an_prev (bare n) = an_prev n" "an_next (bare n) = an_next n" "an_size (bare n) = an_size n"
  "an_keyLenAndFlags (bare n) = an_keyLenAndFlags n" "an_value (bare n) = an_value n"
  by (simp_all add: bare_def)

lemma outside_nodes:
  assumes "outside c' = outside c"
  shows "length (ar_nodes c') = length (ar_nodes c)" "ar_root c' = ar_root c"
    "i < length (ar_nodes c) \<Longrightarrow> bare (ar_nodes c' ! i) = bare (ar_nodes c ! i)"
proof -
  have "ar_nodes (outside c') = ar_nodes (outside c)" using assms by simp
  then have m: "map bare (ar_nodes c') = map bare (ar_nodes c)" by (simp add: outside_def)
  then show l: "length (ar_nodes c') = length (ar_nodes c)" by (rule map_eq_imp_length_eq)
  show "i < length (ar_nodes c) \<Longrightarrow> bare (ar_nodes c' ! i) = bare (ar_nodes c ! i)"
    using m l by (metis nth_map)
  have "ar_root (outside c') = ar_root (outside c)" using assms by simp
  then show "ar_root c' = ar_root c" by (simp add: outside_def)
qed

lemma attached_cong:
  assumes "prefixInv R e c" "prefixInv R' e' c'" "labels c' = labels c" "outside c' = outside c" "attached c"
  shows "attached c'"
  unfolding attached_def
proof (intro conjI allI impI)
  note o = outside_nodes [OF assms(4)]
  show "length (ar_nodes c') < 2 ^ 32" using assms(5) o(1) by (simp add: attached_def)
  fix i
  assume "i < length (ar_nodes c')"
  then have i: "i < length (ar_nodes c)" "i < length (ar_nodes c')" using o(1) by simp_all
  have "labelStr (ar_prefixArena c') (ar_nodes c' ! i) = labelStr (ar_prefixArena c) (ar_nodes c ! i)"
    using arg_cong [OF assms(3), of "\<lambda>l. l ! i"] i by (simp add: labels_def)
  then have "an_prefixLen (ar_nodes c' ! i) = 0 \<longleftrightarrow> an_prefixLen (ar_nodes c ! i) = 0"
    using label_nil_iff [OF assms(1) i(1)] label_nil_iff [OF assms(2) i(2)] by simp
  moreover have "an_parent (ar_nodes c' ! i) = an_parent (ar_nodes c ! i)"
    using o(3) [OF i(1)] by (metis bare_sel(1))
  ultimately show "an_prefixLen (ar_nodes c' ! i) = 0 \<or> i = unat (ar_root c') \<or> an_parent (ar_nodes c' ! i) \<noteq> nilNode"
    using assms(5) i(1) o(2) by (simp add: attached_def)
qed

definition rebuilt :: "'v arenaRadix \<Rightarrow> nat \<Rightarrow> 'v arenaRadixNode list \<times> string \<times> nat \<Rightarrow> bool" where
  \<comment> \<open>the state of the loop when the first \<open>k\<close> nodes have been visited\<close>
  "rebuilt c k st \<longleftrightarrow> (case st of (ns, na, lb) \<Rightarrow> length ns = length (ar_nodes c)
     \<and> (\<forall>j. k \<le> j \<and> j < length ns \<longrightarrow> ns ! j = ar_nodes c ! j)
     \<and> (\<forall>j < k. bare (ns ! j) = bare (ar_nodes c ! j) \<and> labelOk na (ns ! j)
         \<and> labelStr na (ns ! j) = labelStr (ar_prefixArena c) (ar_nodes c ! j)
         \<and> labelSize na (ns ! j) = labelSize (ar_prefixArena c) (ar_nodes c ! j))
     \<and> (\<forall>p. nodesCov na (take k ns) p = cov 0 (length na) p)
     \<and> lb = length na \<and> lb = nodesSize (ar_prefixArena c) (take k (ar_nodes c)))"

lemma nodesSize_take_Suc: "k < length ns \<Longrightarrow> nodesSize a (take (Suc k) ns) = nodesSize a (take k ns) + labelSize a (ns ! k)"
  by (simp add: nodesSize_def take_Suc_conv_app_nth)

lemma nodesSize_take_le: "nodesSize a (take k ns) \<le> nodesSize a ns"
  unfolding nodesSize_def by (metis append_take_drop_id le_add1 map_append sum_list_append)

lemma rebuilt_quiet:
  \<comment> \<open>a node without a label is visited\<close>
  assumes st: "rebuilt c k (ns, na, lb)" and k: "k < length (ar_nodes c)"
    and n: "an_prefixLen n = 0" "bare n = bare (ar_nodes c ! k)" and e: "an_prefixLen (ar_nodes c ! k) = 0"
  shows "rebuilt c (Suc k) (ns[k := n], na, lb)"
proof -
  have len: "length ns = length (ar_nodes c)" using st by (simp add: rebuilt_def)
  have t: "take (Suc k) (ns[k := n]) = take k ns @ [n]" using k len by (simp add: take_Suc_conv_app_nth)
  have ok: "labelOk na n" using n(1) by (simp add: labelOk_def largePrefixSentinel_def)
  have "nodesCov na (take (Suc k) (ns[k := n])) p = nodesCov na (take k ns) p" for p
    unfolding t by (simp add: nodesCov_def n)
  moreover have "nodesSize a (take (Suc k) (ar_nodes c)) = nodesSize a (take k (ar_nodes c))" for a
    using nodesSize_take_Suc [OF k] e by simp
  ultimately show ?thesis using st k n ok e by (simp add: rebuilt_def nth_list_update less_Suc_eq)
qed

lemma rebuilt_copy:
  assumes inv: "prefixInv R e c" and st: "rebuilt c k (ns, na, lb)" and k: "k < length (ar_nodes c)"
    and ne: "an_prefixLen (ar_nodes c ! k) \<noteq> 0"
  defines "p \<equiv> labelStr (ar_prefixArena c) (ar_nodes c ! k)" and "big \<equiv> isLargePrefix (ar_nodes c ! k)"
  defines "na1 \<equiv> (if big then na @ le_put32 (of_nat (length p)) else na)"
  defines "n \<equiv> an_unpin ((ar_nodes c ! k)\<lparr>an_prefixOff := of_nat (length na1)\<rparr>)"
  shows "rebuilt c (Suc k) (ns[k := n], na1 @ p, (if big then lb + 4 else lb) + length p)"
proof -
  let ?n0 = "ar_nodes c ! k" and ?a = "ar_prefixArena c"
  note b = label_bounds [OF inv k ne]
  have ok0: "labelOk ?a ?n0" by (rule prefixInvD(6) [OF inv k])
  have s: "length ns = length (ar_nodes c)" "lb = length na" "lb = nodesSize ?a (take k (ar_nodes c))"
    "\<forall>q. nodesCov na (take k ns) q = cov 0 (length na) q" using st by (simp_all add: rebuilt_def)
  have old: "bare (ns ! j) = bare (ar_nodes c ! j) \<and> labelOk na (ns ! j) \<and> labelStr na (ns ! j) = labelStr ?a (ar_nodes c ! j)
      \<and> labelSize na (ns ! j) = labelSize ?a (ar_nodes c ! j)" if "j < k" for j using st that by (simp add: rebuilt_def)
  have lp: "length p = labelLen ?a ?n0" "0 < length p" using b by (simp_all add: p_def)
  have size: "labelSize ?a ?n0 = length p + hdrLen big" by (simp add: labelSize_def lp big_def)
  have l1: "length na1 = length na + hdrLen big" by (simp add: na1_def hdrLen_def)
  have total: "length na1 + length p \<le> length ?a"
    using nodesSize_take_Suc [OF k, of ?a] nodesSize_take_le [of ?a "Suc k" "ar_nodes c"] nodesSize_le [OF inv] s(2,3) size l1 by simp
  then have lt: "length na1 + length p < 2 ^ 32" using prefixInvD(2) [OF inv] by simp
  then have off: "unat (an_prefixOff n) = length na1" "unat (of_nat (length p) :: u32) = length p"
    by (simp_all add: n_def unat_of_nat)
  have big': "isLargePrefix n \<longleftrightarrow> big" "an_prefixLen n = an_prefixLen ?n0" by (simp_all add: n_def big_def)
  have len: "labelLen (na1 @ p) n = length p"
  proof (cases big)
    case True
    then have "take 4 (drop (length na1 - 4) (na1 @ p)) = le_put32 (of_nat (length p))" by (simp add: na1_def)
    then show ?thesis using True big' off by (simp add: labelLen_def)
  next
    case False
    then show ?thesis using big' lp by (simp add: labelLen_def not_large_less big_def)
  qed
  have str: "labelStr (na1 @ p) n = p" by (simp add: labelStr_def len off)
  have fb: "an_firstByte n = (na1 @ p) ! unat (an_prefixOff n)"
  proof -
    have "an_firstByte ?n0 = ?a ! unat (an_prefixOff ?n0)" using ok0 ne by (simp add: labelOk_def)
    also have "\<dots> = p ! 0" using b(1,2) by (simp add: p_def labelStr_def)
    finally show ?thesis using lp(2) unfolding off(1) by (simp add: n_def nth_append)
  qed
  have ok: "labelOk (na1 @ p) n"
    unfolding labelOk_def len using fb big' off l1 ok0 lp by (auto simp: labelOk_def big_def)
  have nsize: "labelSize (na1 @ p) n = labelSize ?a ?n0" by (simp add: labelSize_def len big' lp big_def)
  have cov: "labelCov (na1 @ p) n q = cov (length na) (length p + hdrLen big) q" for q
    unfolding labelCov_def labelStart_def labelSize_def len big'(1) off l1 by simp
  have split: "na1 @ p = na @ drop (length na) na1 @ p" by (simp add: na1_def)
  have keep: "labelLen (na1 @ p) (ns ! j) = labelLen na (ns ! j) \<and> labelStr (na1 @ p) (ns ! j) = labelStr na (ns ! j) \<and>
      labelCov (na1 @ p) (ns ! j) = labelCov na (ns ! j) \<and> labelSize (na1 @ p) (ns ! j) = labelSize na (ns ! j) \<and>
      labelOk (na1 @ p) (ns ! j)" if j: "j < k" for j
  proof -
    have same: "q < length na \<and> q < length (na1 @ p) \<and> na ! q = (na1 @ p) ! q" if "labelCov na (ns ! j) q = 1" for q
    proof -
      have "labelCov na (take k ns ! j) q \<le> nodesCov na (take k ns) q"
        unfolding nodesCov_def by (rule sum_list_mem_nat) (use j k s in simp)
      then have "q < length na" using that s(4) j by (auto simp: cov_def split: if_splits)
      then show ?thesis unfolding split by (simp add: nth_append)
    qed
    show ?thesis using label_agree [OF conjunct1 [OF conjunct2 [OF old [OF j]]] same] by blast
  qed
  have kcov: "nodesCov (na1 @ p) (take k ns) q = nodesCov na (take k ns) q" for q
  proof -
    have "labelCov (na1 @ p) m q = labelCov na m q" if "m \<in> set (take k ns)" for m
      using that keep by (auto simp: in_set_conv_nth)
    then show ?thesis unfolding nodesCov_def by (intro arg_cong [where f = sum_list] map_cong) auto
  qed
  have t: "take (Suc k) (ns[k := n]) = take k ns @ [n]" using k s by (simp add: take_Suc_conv_app_nth)
  have "nodesCov (na1 @ p) (take (Suc k) (ns[k := n])) q = cov 0 (length (na1 @ p)) q" for q
  proof -
    have "nodesCov (na1 @ p) (take k ns @ [n]) q = nodesCov (na1 @ p) (take k ns) q + labelCov (na1 @ p) n q"
      by (simp add: nodesCov_def)
    also have "\<dots> = cov 0 (length na + (length p + hdrLen big)) q"
      using cov_join [of 0 "length na" q "length p + hdrLen big"] s(4) by (simp add: cov kcov)
    finally show ?thesis unfolding t by (simp add: l1 add.commute add.left_commute)
  qed
  moreover have "bare n = bare ?n0" by (cases "ar_nodes c ! k") (simp add: n_def bare_def)
  moreover have "(if big then lb + 4 else lb) + length p = length (na1 @ p)"
    using s(2) l1 by (simp add: hdrLen_def)
  moreover have "(if big then lb + 4 else lb) + length p = nodesSize ?a (take (Suc k) (ar_nodes c))"
    using s(3) nodesSize_take_Suc [OF k, of ?a] size by (simp add: hdrLen_def)
  moreover have "ns[k := n] ! j = ar_nodes c ! j" if "Suc k \<le> j" "j < length ns" for j
    using st that by (simp add: rebuilt_def)
  ultimately show ?thesis
    unfolding rebuilt_def using s(1) k keep old ok str nsize p_def
    by (auto simp: nth_list_update less_Suc_eq)
qed

lemma rebuildLoop_spec:
  assumes inv: "prefixInv R e c" and att: "attached c"
  shows "rebuilt c k st \<Longrightarrow> k \<le> length (ar_nodes c) \<Longrightarrow>
    \<exists>st'. rebuildPrefixLoop c [k..<length (ar_nodes c)] st = Inr st' \<and> rebuilt c (length (ar_nodes c)) st'"
proof (induction "length (ar_nodes c) - k" arbitrary: k st)
  case 0
  then show ?case by simp
next
  case (Suc m)
  let ?N = "length (ar_nodes c)" and ?n = "ar_nodes c ! k"
  have k: "k < ?N" using Suc.hyps(2) by simp
  obtain ns na lb where st: "st = (ns, na, lb)" by (cases st)
  have nk: "ns ! k = ?n" using Suc.prems(1) k by (simp add: rebuilt_def st)
  have uk: "unat (of_nat k :: u32) = k" using k att by (simp add: unat_of_nat attached_def)
  have next_k: "[k..<?N] = k # [Suc k..<?N]" using k by (rule upt_conv_Cons)
  note IH = Suc.hyps(1) [where k = "Suc k"]
  have step: "\<exists>st'. rebuildPrefixLoop c [Suc k..<?N] s = Inr st' \<and> rebuilt c ?N st'" if "rebuilt c (Suc k) s" for s
    using IH [OF _ that] Suc.hyps(2) k by simp
  consider (skip) "k \<noteq> unat (ar_root c) \<and> an_parent ?n = nilNode"
    | (empty) "\<not> (k \<noteq> unat (ar_root c) \<and> an_parent ?n = nilNode)" "an_prefixLen ?n = 0"
    | (copy) "\<not> (k \<noteq> unat (ar_root c) \<and> an_parent ?n = nilNode)" "an_prefixLen ?n \<noteq> 0" by blast
  then show ?case
  proof cases
    case skip
    then have e: "an_prefixLen ?n = 0" using att k by (auto simp: attached_def)
    have "rebuilt c (Suc k) (ns[k := ?n], na, lb)"
      by (rule rebuilt_quiet [OF Suc.prems(1) [unfolded st] k e refl e])
    moreover have "ns[k := ?n] = ns" using nk by (metis list_update_id)
    ultimately show ?thesis using step skip nk by (simp add: next_k st)
  next
    case empty
    let ?m = "an_unpin (?n\<lparr>an_prefixOff := 0\<rparr>)"
    have "rebuilt c (Suc k) (ns[k := ?m], na, lb)"
      by (rule rebuilt_quiet [OF Suc.prems(1) [unfolded st] k _ _ empty(2)]) (use empty in \<open>simp_all add: bare_def\<close>)
    moreover have "rebuildPrefixLoop c [k..<?N] st = rebuildPrefixLoop c [Suc k..<?N] (ns[k := ?m], na, lb)"
      using empty nk unfolding next_k st by (auto simp: Let_def)
    ultimately show ?thesis using step by simp
  next
    case copy
    let ?p = "labelStr (ar_prefixArena c) ?n"
    let ?big = "isLargePrefix ?n"
    let ?na1 = "if ?big then na @ le_put32 (of_nat (length ?p)) else na"
    let ?m = "an_unpin (?n\<lparr>an_prefixOff := of_nat (length ?na1)\<rparr>)"
    have p: "nodePrefix c (of_nat k) = Inr ?p" using nodePrefix_spec [OF inv, of "of_nat k"] k by (simp add: uk)
    have "rebuildPrefixLoop c [k..<?N] st
        = rebuildPrefixLoop c [Suc k..<?N] (ns[k := ?m], ?na1 @ ?p, (if ?big then lb + 4 else lb) + length ?p)"
      using copy nk p unfolding next_k st by (cases ?big) (auto simp: Let_def)
    moreover have "rebuilt c (Suc k) (ns[k := ?m], ?na1 @ ?p, (if ?big then lb + 4 else lb) + length ?p)"
      by (rule rebuilt_copy [OF inv Suc.prems(1) [unfolded st] k copy(2)])
    ultimately show ?thesis using step by simp
  qed
qed

lemma rebuild_inv:
  assumes inv: "prefixInv noBytes 0 c" and att: "attached c"
  shows "\<exists>c'. rebuildPrefixArenaWithCapLocked newCap c = Inr c' \<and> prefixInv noBytes 0 c' \<and> labels c' = labels c
    \<and> outside c' = outside c \<and> ar_livePrefixBytes c' = ar_livePrefixBytes c
    \<and> int (length (ar_prefixArena c')) = ar_livePrefixBytes c"
proof -
  let ?N = "length (ar_nodes c)" and ?a = "ar_prefixArena c"
  have "rebuilt c 0 (ar_nodes c, [], 0)"
    by (simp add: rebuilt_def nodesCov_def nodesSize_def)
  from rebuildLoop_spec [OF inv att this le0] obtain st where
    st: "rebuildPrefixLoop c [0..<?N] (ar_nodes c, [], 0) = Inr st" "rebuilt c ?N st" by blast
  obtain ns na lb where "st = (ns, na, lb)" by (cases st)
  then have r: "rebuildPrefixLoop c [0..<?N] (ar_nodes c, [], 0) = Inr (ns, na, lb)" "rebuilt c ?N (ns, na, lb)"
    using st by simp_all
  have N: "length ns = ?N" and lb: "lb = length na" "lb = nodesSize ?a (ar_nodes c)"
    using r(2) by (simp_all add: rebuilt_def)
  have all: "take ?N ns = ns" using N by simp
  from r(2) have "\<forall>p. nodesCov na (take ?N ns) p = cov 0 (length na) p" unfolding rebuilt_def prod.case by (elim conjE)
  then have cov: "nodesCov na ns p = cov 0 (length na) p" for p unfolding all by blast
  have each: "bare (ns ! j) = bare (ar_nodes c ! j) \<and> labelOk na (ns ! j) \<and> labelStr na (ns ! j) = labelStr ?a (ar_nodes c ! j)
      \<and> labelSize na (ns ! j) = labelSize ?a (ar_nodes c ! j)" if "j < ?N" for j
    using r(2) that by (simp add: rebuilt_def)
  have "map (labelSize na) ns = map (labelSize ?a) (ar_nodes c)" by (rule nth_equalityI) (use N each in auto)
  then have size: "nodesSize na ns = nodesSize ?a (ar_nodes c)" by (simp add: nodesSize_def)
  have mb: "map bare ns = map bare (ar_nodes c)" by (rule nth_equalityI) (use N each in auto)
  have ml: "map (labelStr na) ns = map (labelStr ?a) (ar_nodes c)" by (rule nth_equalityI) (use N each in auto)
  have ok: "\<forall>n \<in> set ns. labelOk na n" using N each by (auto simp: in_set_conv_nth)
  have live: "ar_livePrefixBytes c = int lb" using prefixInvD(7) [OF inv] lb by simp
  define c' where "c' = c\<lparr>ar_nodes := ns, ar_prefixArena := na,
        ar_prefixCap := (if int (length na) \<le> newCap then newCap else ar_growCap c newCap (int (length na))),
        ar_livePrefixBytes := int lb, ar_freePrefixSpans := [],
        ar_putPrefixSpan := zeroSpan, ar_prefixExposed := False\<rparr>"
  have "rebuildPrefixArenaWithCapLocked newCap c = Inr c'"
    by (simp add: rebuildPrefixArenaWithCapLocked_def r(1) c'_def)
  moreover have own: "owners noBytes c' p = cov 0 (length na) p" for p
    by (simp add: owners_def c'_def freeCov_def cov)
  have "length na \<le> maxPrefixArenaBytes" using nodesSize_le [OF inv] lb prefixInvD(1) [OF inv] by simp
  then have "prefixInv noBytes 0 c'"
    unfolding prefixInv_def own by (auto simp: c'_def cov_def ok size lb(1) lb(2) [symmetric])
  moreover have "labels c' = labels c" by (simp add: labels_def c'_def ml)
  moreover have "outside c' = outside c" by (simp add: outside_def c'_def mb)
  moreover have "ar_livePrefixBytes c' = ar_livePrefixBytes c" "int (length (ar_prefixArena c')) = ar_livePrefixBytes c"
    using live lb(1) by (simp_all add: c'_def)
  ultimately show ?thesis by blast
qed

lemma compactArena_inv:
  assumes "prefixInv noBytes 0 c" "attached c"
  shows "\<exists>c'. compactPrefixArenaLocked extra c = Inr c' \<and> prefixInv noBytes 0 c' \<and> labels c' = labels c
    \<and> outside c' = outside c \<and> ar_livePrefixBytes c' = ar_livePrefixBytes c
    \<and> int (length (ar_prefixArena c')) = ar_livePrefixBytes c"
  unfolding compactPrefixArenaLocked_def Let_def by (rule rebuild_inv [OF assms])

lemma compactExact_inv:
  assumes inv: "prefixInv noBytes 0 c" and att: "attached c"
  shows "\<exists>c'. compactPrefixArenaExactLocked c = Inr c' \<and> prefixInv noBytes 0 c' \<and> labels c' = labels c
    \<and> outside c' = outside c \<and> int (length (ar_prefixArena c')) = ar_livePrefixBytes c"
proof -
  consider (zero) "ar_livePrefixBytes c = 0"
    | (same) "ar_livePrefixBytes c \<noteq> 0" "int (length (ar_prefixArena c)) = ar_livePrefixBytes c" "ar_prefixCap c = ar_livePrefixBytes c"
        "\<not> ar_prefixExposed c"
    | (move) "ar_livePrefixBytes c \<noteq> 0"
        "\<not> (int (length (ar_prefixArena c)) = ar_livePrefixBytes c \<and> ar_prefixCap c = ar_livePrefixBytes c \<and> \<not> ar_prefixExposed c)"
    by blast
  then show ?thesis
  proof cases
    case zero
    define c' where "c' = c\<lparr>ar_prefixArena := [], ar_prefixCap := 0, ar_freePrefixSpans := [],
       ar_putPrefixSpan := zeroSpan, ar_prefixExposed := False\<rparr>"
    have size: "labelSize (ar_prefixArena c) n = 0" if "n \<in> set (ar_nodes c)" for n
      using prefixInvD(7) [OF inv] that zero unfolding nodesSize_def by simp
    have e: "an_prefixLen n = 0" if n: "n \<in> set (ar_nodes c)" for n
    proof (rule ccontr)
      assume ne: "an_prefixLen n \<noteq> 0"
      have "labelOk (ar_prefixArena c) n" using inv n by (simp add: prefixInv_def)
      from labelLen_pos [OF this ne] show False using size [OF n] by (simp add: labelSize_def)
    qed
    have e': "labelSize a n = 0" "labelStr a n = []" "labelCov a n p = 0" "labelOk a n" if "n \<in> set (ar_nodes c)" for a n p
      using e [OF that] by (simp_all add: labelOk_def largePrefixSentinel_def)
    have "compactPrefixArenaExactLocked c = Inr c'"
      by (simp add: compactPrefixArenaExactLocked_def zero c'_def)
    moreover have own: "owners noBytes c' p = 0" for p
      using e'(3) by (simp add: owners_def c'_def freeCov_def nodesCov_def sum_list_eq_0_iff)
    have "nodesSize [] (ar_nodes c) = 0" using e'(1) by (simp add: nodesSize_def sum_list_eq_0_iff)
    then have "prefixInv noBytes 0 c'"
      unfolding prefixInv_def own using e'(4) zero by (simp add: c'_def)
    moreover have "labels c' = labels c" using e'(2) by (simp add: labels_def c'_def)
    moreover have "outside c' = outside c" by (simp add: outside_def c'_def)
    ultimately show ?thesis by (auto simp: zero c'_def)
  next
    case same
    then have "compactPrefixArenaExactLocked c = Inr c" by (simp add: compactPrefixArenaExactLocked_def Let_def)
    then show ?thesis using inv same(2) by blast
  next
    case move
    then have "compactPrefixArenaExactLocked c = rebuildPrefixArenaWithCapLocked (ar_livePrefixBytes c) c"
      unfolding compactPrefixArenaExactLocked_def Let_def if_not_P [OF move(1)] if_not_P [OF move(2)] by simp
    then show ?thesis using rebuild_inv [OF inv att, of "ar_livePrefixBytes c"] by auto
  qed
qed

lemma ensure_inv:
  assumes inv: "prefixInv noBytes 0 c" and att: "attached c"
  shows "if ar_livePrefixBytes c + int needed \<le> int maxPrefixArenaBytes
    then \<exists>c'. ensurePrefixArenaCap needed c = Inr c' \<and> prefixInv noBytes 0 c' \<and> labels c' = labels c
       \<and> outside c' = outside c \<and> ar_livePrefixBytes c' = ar_livePrefixBytes c
       \<and> length (ar_prefixArena c') + needed \<le> maxPrefixArenaBytes
    else ensurePrefixArenaCap needed c = Inl (Panic ''arena radix prefix capacity exceeded limit'')"
proof -
  let ?M = "maxPrefixArenaBytes"
  define c1 where "c1 = (if ?M < length (ar_prefixArena c) + needed
              \<and> ar_livePrefixBytes c < int (length (ar_prefixArena c))
            then compactPrefixArenaLocked needed c else Inr c)"
  have le: "ar_livePrefixBytes c \<le> int (length (ar_prefixArena c))"
    using nodesSize_le [OF inv] prefixInvD(7) [OF inv] by simp
  obtain d where d: "c1 = Inr d" "prefixInv noBytes 0 d" "labels d = labels c" "outside d = outside c"
    "ar_livePrefixBytes d = ar_livePrefixBytes c"
    "length (ar_prefixArena d) + needed \<le> ?M \<longleftrightarrow> ar_livePrefixBytes c + int needed \<le> int ?M"
  proof (cases "?M < length (ar_prefixArena c) + needed \<and> ar_livePrefixBytes c < int (length (ar_prefixArena c))")
    case True
    then show thesis
      using compactArena_inv [OF inv att, of needed] that unfolding c1_def if_P [OF True] by force
  next
    case False
    then have "length (ar_prefixArena c) + needed \<le> ?M \<longleftrightarrow> ar_livePrefixBytes c + int needed \<le> int ?M"
      using le by auto
    then show thesis using that [of c] inv unfolding c1_def if_not_P [OF False] by blast
  qed
  have en: "ensurePrefixArenaCap needed c = (if ?M < length (ar_prefixArena d) + needed
     then Inl (Panic ''arena radix prefix capacity exceeded limit'')
     else if int (length (ar_prefixArena d) + needed) \<le> ar_prefixCap d then Inr d
     else if ar_livePrefixBytes d < int (length (ar_prefixArena d))
        \<and> (ar_prefixExposed d \<or> ar_livePrefixBytes d * 2 \<le> int (length (ar_prefixArena d)))
     then compactPrefixArenaLocked needed d
     else Inr (growPrefixArenaNoCompactLocked needed d))"
    unfolding ensurePrefixArenaCap_def c1_def [symmetric] d(1) by simp
  show ?thesis
  proof (cases "ar_livePrefixBytes c + int needed \<le> int ?M")
    case False
    then have "?M < length (ar_prefixArena d) + needed" using d(6) by simp
    then show ?thesis using False unfolding en by simp
  next
    case True
    then have fit: "\<not> ?M < length (ar_prefixArena d) + needed" using d(6) by simp
    have adopt: ?thesis if "ensurePrefixArenaCap needed c = Inr c'" "prefixInv noBytes 0 c'" "labels c' = labels d"
        "outside c' = outside d" "ar_livePrefixBytes c' = ar_livePrefixBytes d" "length (ar_prefixArena c') + needed \<le> ?M" for c'
      using that d True by auto
    consider (ok) "int (length (ar_prefixArena d) + needed) \<le> ar_prefixCap d"
      | (compact) "\<not> int (length (ar_prefixArena d) + needed) \<le> ar_prefixCap d"
          "ar_livePrefixBytes d < int (length (ar_prefixArena d))
        \<and> (ar_prefixExposed d \<or> ar_livePrefixBytes d * 2 \<le> int (length (ar_prefixArena d)))"
      | (grow) "\<not> int (length (ar_prefixArena d) + needed) \<le> ar_prefixCap d"
          "\<not> (ar_livePrefixBytes d < int (length (ar_prefixArena d))
        \<and> (ar_prefixExposed d \<or> ar_livePrefixBytes d * 2 \<le> int (length (ar_prefixArena d))))" by blast
    then show ?thesis
    proof cases
      case ok
      then show ?thesis using adopt [of d] fit d(2) unfolding en by simp
    next
      case compact
      have "attached d" by (rule attached_cong [OF inv d(2) d(3,4) att])
      then obtain c' where c': "compactPrefixArenaLocked needed d = Inr c'" "prefixInv noBytes 0 c'" "labels c' = labels d"
        "outside c' = outside d" "ar_livePrefixBytes c' = ar_livePrefixBytes d" "int (length (ar_prefixArena c')) = ar_livePrefixBytes d"
        using compactArena_inv [OF d(2)] by blast
      show ?thesis
      proof (rule adopt [OF _ c'(2-5)])
        show "ensurePrefixArenaCap needed c = Inr c'"
          unfolding en if_not_P [OF fit] if_not_P [OF compact(1)] if_P [OF compact(2)] by (rule c'(1))
        show "length (ar_prefixArena c') + needed \<le> ?M" using c'(6) d(5) True by simp
      qed
    next
      case grow
      let ?g = "growPrefixArenaNoCompactLocked needed d"
      have "prefixInv noBytes 0 ?g" "labels ?g = labels d" "outside ?g = outside d" "ar_livePrefixBytes ?g = ar_livePrefixBytes d"
        "length (ar_prefixArena ?g) + needed \<le> ?M"
        using d(2) fit by (simp_all add: growPrefixArenaNoCompactLocked_def Let_def prefixInv_def owners_def freeCov_def labels_def outside_def)
      then show ?thesis
        by (intro adopt) (simp_all only: en if_not_P [OF fit] if_not_P [OF grow(1)] if_not_P [OF grow(2)])
    qed
  qed
qed

end
