(* ===== verification/ArenaStore.thy ===== *)
theory ArenaStore
  imports ArenaRebuild
begin

text \<open>
  Writing a label: \<open>setNodePrefix\<close> and \<open>setNodePrefixFromArenaSliceLocked\<close> give the node its label,
  leave every other label as it is and keep the invariant. The bytes a list of labels needs decide
  whether the call succeeds.
\<close>

definition labelBytes :: "string list \<Rightarrow> nat" where
  "labelBytes ls = sum_list (map (\<lambda>l. needFor (length l)) ls)"

abbreviation capacityPanic :: go_panic where
  "capacityPanic \<equiv> Panic ''arena radix prefix capacity exceeded limit''"

lemma labelBytes_update:
  "i < length ls \<Longrightarrow> labelBytes (ls[i := s]) + needFor (length (ls ! i)) = labelBytes ls + needFor (length s)"
  unfolding labelBytes_def by (rule sum_list_update_nat)

lemma live_labels:
  assumes inv: "prefixInv R e c"
  shows "ar_livePrefixBytes c = int (labelBytes (labels c) + e)"
proof -
  have "labelSize (ar_prefixArena c) (ar_nodes c ! i) = needFor (length (labels c ! i))" if i: "i < length (ar_nodes c)" for i
  proof (cases "an_prefixLen (ar_nodes c ! i) = 0")
    case True
    then show ?thesis using label_len [OF inv i] by (simp add: needFor_def labelLen_0)
  next
    case False
    then show ?thesis
      using labelCov_hand(2) [OF prefixInvD(6) [OF inv i] False] label_len [OF inv i] by simp
  qed
  then have "map (labelSize (ar_prefixArena c)) (ar_nodes c) = map (\<lambda>l. needFor (length l)) (labels c)"
    by (intro nth_equalityI) (simp_all add: labels_def)
  then show ?thesis using prefixInvD(7) [OF inv] by (simp add: nodesSize_def labelBytes_def)
qed

lemma length_labels [simp]: "length (labels c) = length (ar_nodes c)"
  by (simp add: labels_def)

lemma labelBytes_le: "prefixInv R e c \<Longrightarrow> labelBytes (labels c) \<le> maxPrefixArenaBytes"
  using live_labels [of R e c] nodesSize_le [of R e c] prefixInvD(1,7) [of R e c] by simp

definition lenField :: "nat \<Rightarrow> u16" where
  "lenField pl = (if largeMin \<le> pl then largePrefixSentinel else of_nat pl)"

lemma settle_inv:
  assumes inv: "prefixInv (plus R (handCov off pl)) e c" and pos: "0 < pl" and i: "i < length (ar_nodes c)"
    and none: "an_prefixLen (ar_nodes c ! i) = 0"
    and hdr: "headerOk off pl (ar_prefixArena c)" and fit: "off + pl \<le> length (ar_prefixArena c)"
    and n: "unat (an_prefixOff n) = off" "an_prefixLen n = lenField pl" "an_firstByte n = ar_prefixArena c ! off"
    and c': "c' = c\<lparr>ar_nodes := (ar_nodes c)[i := n], ar_livePrefixBytes := ar_livePrefixBytes c + int (needFor pl)\<rparr>"
  shows "prefixInv R e c' \<and> labels c' = (labels c)[i := take pl (drop off (ar_prefixArena c))]"
proof -
  let ?a = "ar_prefixArena c"
  have pl: "pl < 2 ^ 32" using fit prefixInvD(2) [OF inv] by simp
  have small: "unat (of_nat pl :: u16) = pl" if "pl < 65535" using that by (simp add: unat_of_nat)
  have big: "isLargePrefix n \<longleftrightarrow> largeMin \<le> pl"
    unfolding n(2) lenField_def using small by (auto simp: not_le)
  have len: "labelLen ?a n = pl"
  proof (cases "largeMin \<le> pl")
    case True
    then show ?thesis using hdr big n(1) pl by (simp add: labelLen_def headerOk_def unat_of_nat)
  next
    case False
    then show ?thesis using big small n(2) by (simp add: labelLen_def not_large_less lenField_def)
  qed
  have ok: "labelOk ?a n" unfolding labelOk_def len using big hdr n by (auto simp: headerOk_def)
  have cov: "labelCov ?a n p = handCov off pl p" for p
    by (simp add: labelCov_def labelStart_def labelSize_def len handCov_def big n(1))
  have size: "labelSize ?a n = needFor pl" by (simp add: labelSize_def len big needFor_hdr)
  have "labelStr ?a n = take pl (drop off ?a)" by (simp add: labelStr_def len n(1))
  moreover have "prefixInv R e c' \<and> labels c' = (labels c)[i := labelStr ?a n]"
    by (rule prefixInv_node [OF inv i ok c']) (use none in \<open>simp_all add: cov size\<close>)
  ultimately show ?thesis by simp
qed

lemma write_label:
  assumes inv: "prefixInv (plus R (handCov (unat off) (length s))) e c" and ne: "s \<noteq> []"
    and hdr: "headerOk (unat off) (length s) (ar_prefixArena c)"
  shows "\<exists>c'. copyToArena off s c = Inr c' \<and> prefixInv (plus R (handCov (unat off) (length s))) e c' \<and> sameNodes c c' \<and>
    headerOk (unat off) (length s) (ar_prefixArena c') \<and> take (length s) (drop (unat off) (ar_prefixArena c')) = s \<and>
    unat off + length s \<le> length (ar_prefixArena c') \<and> (\<forall>p. R p = 1 \<longrightarrow> ar_prefixArena c' ! p = ar_prefixArena c ! p) \<and>
    length (ar_prefixArena c') = length (ar_prefixArena c)"
proof -
  let ?o = "unat off" and ?h = "hdrLen (largeMin \<le> length s)"
  have hle: "?h \<le> ?o" using hdr by (auto simp: headerOk_def hdrLen_def)
  have own: "1 \<le> plus R (handCov ?o (length s)) p" if "?o \<le> p" "p < ?o + length s" for p
  proof -
    have "handCov ?o (length s) p = 1" using that hle by (auto simp: handCov_def cov_def)
    then show ?thesis by simp
  qed
  note w = write_inv [where off = ?o and x = s, OF inv own ne]
  let ?a' = "writeBytes ?o s (ar_prefixArena c)"
  have h: "headerOk ?o (length s) ?a'"
    unfolding headerOk_def
  proof
    assume l: "largeMin \<le> length s"
    then have o: "4 \<le> ?o" using hdr by (simp add: headerOk_def)
    have "take 4 (drop (?o - 4) ?a') = take 4 (drop (?o - 4) (ar_prefixArena c))"
      by (rule take_drop_agree) (use w(4,5,6) o ne in auto)
    then show "4 \<le> ?o \<and> take 4 (drop (?o - 4) ?a') = le_put32 (of_nat (length s))"
      using hdr l by (simp add: headerOk_def)
  qed
  have keep: "?a' ! p = ar_prefixArena c ! p" if "R p = 1" for p
  proof -
    have "owners (plus R (handCov ?o (length s))) c p \<le> 1" by (rule prefixInvD(4) [OF inv])
    then have "handCov ?o (length s) p = 0" using that by (simp add: owners_def)
    then have "p < ?o \<or> ?o + length s \<le> p" using hle by (auto simp: handCov_def cov_def split: if_splits)
    moreover have "p < length (ar_prefixArena c)"
      using prefixInvD(5) [OF inv, of p] that by (cases "length (ar_prefixArena c) \<le> p") (auto simp: owners_def)
    ultimately show ?thesis using w(6) by blast
  qed
  have "copyToArena off s c = Inr (c\<lparr>ar_prefixArena := ?a'\<rparr>)" using w(1) by (simp add: copyToArena_def)
  then show ?thesis
    by (intro exI [of _ "c\<lparr>ar_prefixArena := ?a'\<rparr>"] conjI) (use w h keep in simp_all)
qed

definition pushLabel :: "string \<Rightarrow> 'v arenaRadix \<Rightarrow> 'v arenaRadix" where
  \<comment> \<open>the label, after its header when it is long, appended to the arena\<close>
  "pushLabel s c = appendBytes s (if largeMin \<le> length s then appendBytes (le_put32 (of_nat (length s))) c else c)"

lemma pushLabel_inv:
  assumes inv: "prefixInv R e c" and fit: "length (ar_prefixArena c) + needFor (length s) \<le> maxPrefixArenaBytes"
  defines "off \<equiv> arenaEnd (if largeMin \<le> length s then appendBytes (le_put32 (of_nat (length s))) c else c)"
  shows "prefixInv (plus R (handCov (unat off) (length s))) e (pushLabel s c)" "sameNodes c (pushLabel s c)"
    "headerOk (unat off) (length s) (ar_prefixArena (pushLabel s c))"
    "take (length s) (drop (unat off) (ar_prefixArena (pushLabel s c))) = s"
    "unat off + length s \<le> length (ar_prefixArena (pushLabel s c))"
    "p < length (ar_prefixArena c) \<Longrightarrow> ar_prefixArena (pushLabel s c) ! p = ar_prefixArena c ! p"
proof -
  let ?a = "ar_prefixArena c" and ?big = "largeMin \<le> length s" and ?h = "le_put32 (of_nat (length s))"
  define m where "m = (if ?big then appendBytes ?h c else c)"
  let ?x = "if ?big then ?h else []"
  have am: "ar_prefixArena m = ?a @ ?x" by (simp add: m_def appendBytes_def Let_def)
  have lx: "length ?x = hdrLen ?big" by (simp add: hdrLen_def)
  have f: "length ?a + (hdrLen ?big + length s) \<le> maxPrefixArenaBytes" using fit by (simp add: needFor_hdr)
  have im: "prefixInv (plus R (cov (length ?a) (hdrLen ?big))) e m" "sameNodes c m"
  proof -
    have "prefixInv (plus R (cov (length ?a) (hdrLen ?big))) e m \<and> sameNodes c m"
    proof (cases ?big)
      case True
      then have "length ?a + length ?h \<le> maxPrefixArenaBytes" using f by (simp add: hdrLen_def)
      from append_inv(1,2) [OF inv this] show ?thesis using True by (simp add: m_def)
    next
      case False
      then show ?thesis using inv by (simp add: m_def)
    qed
    then show "prefixInv (plus R (cov (length ?a) (hdrLen ?big))) e m" "sameNodes c m" by simp_all
  qed
  have p: "pushLabel s c = appendBytes s m" by (simp add: pushLabel_def m_def)
  have lm: "length (ar_prefixArena m) = length ?a + hdrLen ?big" by (simp add: am lx)
  have "length (ar_prefixArena m) + length s \<le> maxPrefixArenaBytes" using f lm by simp
  note a = append_inv [OF im(1) this]
  have off: "unat off = length ?a + hdrLen ?big"
  proof -
    have "length ?a + hdrLen ?big < 2 ^ LENGTH(32)" using f by (simp add: maxPrefixArenaBytes_def)
    then show ?thesis unfolding off_def m_def [symmetric] lm unat_of_nat by (rule mod_less)
  qed
  have arena: "ar_prefixArena (pushLabel s c) = ?a @ ?x @ s" by (simp add: p a(3) am)
  have "handCov (unat off) (length s) q = cov (length ?a) (hdrLen ?big) q + cov (length ?a + hdrLen ?big) (length s) q" for q
    unfolding handCov_def off using cov_join [of "length ?a" "hdrLen ?big" q "length s"] by (simp add: add.commute)
  then show "prefixInv (plus R (handCov (unat off) (length s))) e (pushLabel s c)"
    using a(1) by (simp add: p lm add.assoc)
  show "sameNodes c (pushLabel s c)" using sameNodes_trans [OF im(2) a(2)] p by simp
  show "take (length s) (drop (unat off) (ar_prefixArena (pushLabel s c))) = s"
    unfolding arena off using lx by simp
  show "unat off + length s \<le> length (ar_prefixArena (pushLabel s c))" unfolding arena off using lx by simp
  show "headerOk (unat off) (length s) (ar_prefixArena (pushLabel s c))"
    unfolding headerOk_def arena off by (simp add: hdrLen_def)
  show "ar_prefixArena (pushLabel s c) ! p = ?a ! p" if "p < length ?a"
    unfolding arena using that by (simp add: nth_append)
qed

subsection \<open>\<open>setNodePrefix\<close>\<close>

definition storeLabel :: "u32 \<Rightarrow> string \<Rightarrow> 'v arenaRadix \<Rightarrow> 'v arenaRadix res" where
  \<comment> \<open>what \<open>setNodePrefix\<close> and \<open>setLargeNodePrefix\<close> do once the old label is cleared\<close>
  "storeLabel k s c = bindr (tryTakeFreePrefixPayloadSpanLocked (length s) (needFor (length s)) c) (\<lambda>(c1, taken).
     bindr (case taken of
         Some off \<Rightarrow> bindr (copyToArena off s c1) (\<lambda>c2. Inr (c2, off))
       | None \<Rightarrow> bindr (ensurePrefixArenaCap (needFor (length s)) c1) (\<lambda>c2.
           Inr (pushLabel s c2, arenaEnd (if largeMin \<le> length s then appendBytes (le_put32 (of_nat (length s))) c2 else c2)))) (\<lambda>(c4, off).
     bindr (byteAt s 0) (\<lambda>b.
     bindr (updNode k (\<lambda>n. an_unpin (n\<lparr>an_prefixOff := off, an_prefixLen := lenField (length s), an_firstByte := b\<rparr>)) c4) (\<lambda>c5.
     Inr (c5\<lparr>ar_livePrefixBytes := ar_livePrefixBytes c5 + int (needFor (length s))\<rparr>)))))"

lemma setNodePrefix_store:
  assumes "s \<noteq> []" "unat k < length (ar_nodes c)"
  shows "setNodePrefix k s (c :: 'a arenaRadix) =
    bindr (if an_prefixLen (ar_nodes c ! unat k) \<noteq> 0 then clearNodePrefix k c else Inr c) (storeLabel k s)"
proof -
  have ne: "length s \<noteq> 0" using assms(1) by simp
  have n: "nodeAt c k = Inr (ar_nodes c ! unat k)" using assms(2) by (simp add: nodeAt_def)
  show ?thesis
  proof (cases "largeMin \<le> length s")
    case True
    have "setLargeNodePrefix k s = (storeLabel k s :: 'a arenaRadix \<Rightarrow> _)"
      by (rule ext)
        (unfold setLargeNodePrefix_def storeLabel_def Let_def needFor_def lenField_def pushLabel_def if_P [OF True], rule refl)
    then show ?thesis
      unfolding setNodePrefix_def Let_def if_not_P [OF ne] if_P [OF True] n bindr_simps by simp
  next
    case False
    have "storeLabel k s = (\<lambda>c0 :: 'a arenaRadix. bindr (tryTakeFreePrefixPayloadSpanLocked (length s) (length s) c0) (\<lambda>(c1, taken).
        bindr (case taken of
            Some off \<Rightarrow> bindr (copyToArena off s c1) (\<lambda>c2. Inr (c2, off))
          | None \<Rightarrow> bindr (ensurePrefixArenaCap (length s) c1) (\<lambda>c2. Inr (appendBytes s c2, arenaEnd c2))) (\<lambda>(c4, off).
        bindr (byteAt s 0) (\<lambda>b.
        bindr (updNode k (\<lambda>n. an_unpin (n\<lparr>an_prefixOff := off, an_prefixLen := of_nat (length s), an_firstByte := b\<rparr>)) c4) (\<lambda>c5.
        Inr (c5\<lparr>ar_livePrefixBytes := ar_livePrefixBytes c5 + int (length s)\<rparr>))))))"
      by (rule ext) (unfold storeLabel_def needFor_def lenField_def pushLabel_def if_not_P [OF False], rule refl)
    then show ?thesis
      unfolding setNodePrefix_def Let_def if_not_P [OF ne] if_not_P [OF False] n bindr_simps by simp
  qed
qed

lemma finish_label:
  assumes inv: "prefixInv (plus R (handCov (unat off) (length s))) e c4" and ne: "s \<noteq> []"
    and k: "unat k < length (ar_nodes c4)" "an_prefixLen (ar_nodes c4 ! unat k) = 0"
    and hdr: "headerOk (unat off) (length s) (ar_prefixArena c4)" and fit: "unat off + length s \<le> length (ar_prefixArena c4)"
    and s: "take (length s) (drop (unat off) (ar_prefixArena c4)) = s"
  shows "\<exists>c'. bindr (byteAt s 0) (\<lambda>b.
     bindr (updNode k (\<lambda>n. an_unpin (n\<lparr>an_prefixOff := off, an_prefixLen := lenField (length s), an_firstByte := b\<rparr>)) c4) (\<lambda>c5.
     Inr (c5\<lparr>ar_livePrefixBytes := ar_livePrefixBytes c5 + int (needFor (length s))\<rparr>))) = Inr c'
    \<and> prefixInv R e c' \<and> labels c' = (labels c4)[unat k := s] \<and> outside c' = outside c4"
proof -
  let ?n = "an_unpin ((ar_nodes c4 ! unat k)\<lparr>an_prefixOff := off, an_prefixLen := lenField (length s), an_firstByte := s ! 0\<rparr>)"
  define c' where "c' = c4\<lparr>ar_nodes := (ar_nodes c4)[unat k := ?n], ar_livePrefixBytes := ar_livePrefixBytes c4 + int (needFor (length s))\<rparr>"
  have b: "s ! 0 = ar_prefixArena c4 ! unat off"
    using arg_cong [OF s, of "\<lambda>x. x ! 0"] fit ne by simp
  have "prefixInv R e c' \<and> labels c' = (labels c4)[unat k := take (length s) (drop (unat off) (ar_prefixArena c4))]"
    by (rule settle_inv [OF inv _ k hdr fit _ _ _ c'_def]) (use ne b in simp_all)
  moreover have "outside c' = outside c4" by (rule outside_node [OF c'_def k(1)]) (simp add: bare_def)
  ultimately show ?thesis using k ne unfolding s by (simp add: byteAt_def updNode_def nodeAt_def c'_def)
qed

lemma storeLabel_inv:
  assumes inv: "prefixInv noBytes 0 c" and att: "attached c" and ne: "s \<noteq> []"
    and k: "unat k < length (ar_nodes c)" "an_prefixLen (ar_nodes c ! unat k) = 0"
  shows "if labelBytes ((labels c)[unat k := s]) \<le> maxPrefixArenaBytes
    then \<exists>c'. storeLabel k s c = Inr c' \<and> prefixInv noBytes 0 c' \<and> labels c' = (labels c)[unat k := s] \<and> outside c' = outside c
    else storeLabel k s c = Inl capacityPanic"
proof -
  have pos: "0 < length s" using ne by simp
  have lk: "labels c ! unat k = []" using k by (simp add: labels_def)
  have bytes: "int (labelBytes ((labels c)[unat k := s])) = ar_livePrefixBytes c + int (needFor (length s))"
    using labelBytes_update [of "unat k" "labels c" s] k live_labels [OF inv] lk by (simp add: needFor_def)
  from inv pos show ?thesis
  proof (cases rule: tryTake_inv)
    case none
    show ?thesis
    proof (cases "labelBytes ((labels c)[unat k := s]) \<le> maxPrefixArenaBytes")
      case False
      then have "ensurePrefixArenaCap (needFor (length s)) c = Inl capacityPanic"
        using ensure_inv [OF inv att, of "needFor (length s)"] bytes by (simp split: if_splits)
      then show ?thesis using False by (simp add: storeLabel_def none)
    next
      case True
      then obtain c2 where c2: "ensurePrefixArenaCap (needFor (length s)) c = Inr c2" "prefixInv noBytes 0 c2" "labels c2 = labels c"
        "outside c2 = outside c" "length (ar_prefixArena c2) + needFor (length s) \<le> maxPrefixArenaBytes"
        using ensure_inv [OF inv att, of "needFor (length s)"] bytes by (auto split: if_splits)
      have k2: "unat k < length (ar_nodes c2)" using k outside_nodes(1) [OF c2(4)] by simp
      have z2: "an_prefixLen (ar_nodes c2 ! unat k) = 0"
        using label_nil_iff [OF c2(2) k2] c2(3) lk k2 by (simp add: labels_def) (metis labels_def nth_map)
      note p = pushLabel_inv [OF c2(2,5)]
      have sn: "ar_nodes (pushLabel s c2) = ar_nodes c2" "labels (pushLabel s c2) = labels c2" "outside (pushLabel s c2) = outside c2"
        using p(2) by (simp_all add: sameNodes_def)
      from finish_label [OF p(1) ne _ _ p(3,5,4), of k] True k2 z2 show ?thesis
        by (simp add: storeLabel_def none c2 sn)
    qed
  next
    case (some c1 off)
    obtain c2 where c2: "copyToArena off s c1 = Inr c2" "prefixInv (plus noBytes (handCov (unat off) (length s))) 0 c2" "sameNodes c1 c2"
      "headerOk (unat off) (length s) (ar_prefixArena c2)" "take (length s) (drop (unat off) (ar_prefixArena c2)) = s"
      "unat off + length s \<le> length (ar_prefixArena c2)"
      using write_label [OF some(5) ne some(6)] by blast
    have sn: "ar_nodes c2 = ar_nodes c" "labels c2 = labels c" "outside c2 = outside c"
      using sameNodes_trans [OF some(2) c2(3)] by (simp_all add: sameNodes_def)
    obtain c' where c': "storeLabel k s c = Inr c'" "prefixInv noBytes 0 c'" "labels c' = (labels c)[unat k := s]" "outside c' = outside c"
      using finish_label [OF c2(2) ne _ _ c2(4,6,5), of k] k by (auto simp: storeLabel_def some c2 sn)
    then show ?thesis using labelBytes_le [OF c'(2)] by auto
  qed
qed

lemma setNodePrefix_inv:
  assumes inv: "prefixInv noBytes 0 c" and att: "attached c" and k: "unat k < length (ar_nodes c)"
  shows "if labelBytes ((labels c)[unat k := s]) \<le> maxPrefixArenaBytes
    then \<exists>c'. setNodePrefix k s c = Inr c' \<and> prefixInv noBytes 0 c' \<and> labels c' = (labels c)[unat k := s] \<and> outside c' = outside c
    else setNodePrefix k s c = Inl capacityPanic"
proof (cases "s = []")
  case True
  then have "setNodePrefix k s c = clearNodePrefix k c" by (simp add: setNodePrefix_def)
  then obtain c' where c': "setNodePrefix k s c = Inr c'" "prefixInv noBytes 0 c'" "labels c' = (labels c)[unat k := s]"
    "outside c' = outside c"
    using clearNodePrefix_inv [OF inv k] True by auto
  then show ?thesis using labelBytes_le [OF c'(2)] by auto
next
  case False
  have store: "setNodePrefix k s c
     = bindr (if an_prefixLen (ar_nodes c ! unat k) \<noteq> 0 then clearNodePrefix k c else Inr c) (storeLabel k s)"
    by (rule setNodePrefix_store [OF False k])
  show ?thesis
  proof (cases "an_prefixLen (ar_nodes c ! unat k) = 0")
    case True
    then show ?thesis using storeLabel_inv [OF inv att False k True] store by simp
  next
    case ne: False
    obtain c0 where c0: "clearNodePrefix k c = Inr c0" "prefixInv noBytes 0 c0" "labels c0 = (labels c)[unat k := []]"
      "ar_nodes c0 = (ar_nodes c)[unat k := bare (ar_nodes c ! unat k)]" "outside c0 = outside c"
      using clearNodePrefix_inv [OF inv k] by blast
    have rt: "ar_root c0 = ar_root c" by (rule outside_nodes(2) [OF c0(5)])
    have att0: "attached c0"
      using att unfolding attached_def c0(4) rt by (auto simp: nth_list_update [OF k] split: if_splits)
    have k0: "unat k < length (ar_nodes c0)" "an_prefixLen (ar_nodes c0 ! unat k) = 0" using k by (simp_all add: c0(4))
    have "(labels c0)[unat k := s] = (labels c)[unat k := s]" by (simp add: c0(3))
    then show ?thesis
      using storeLabel_inv [OF c0(2) att0 False k0] ne unfolding store c0(5) by (auto simp: c0(1) split: if_splits)
  qed
qed

end
