(* ===== verification/ArenaSplit.thy ===== *)
theory ArenaSplit
  imports ArenaStore
begin

text \<open>
  Splitting and merging labels. Each branch of \<open>splitNodePrefixLocked\<close> and \<open>mergeNodePrefixesLocked\<close> takes the
  old labels in hand, rearranges the bytes, and gives them out again.
\<close>

lemma unsettle_inv:
  assumes inv: "prefixInv R e c" and i: "i < length (ar_nodes c)" and m: "an_prefixLen m = 0"
  shows "prefixInv (plus (labelCov (ar_prefixArena c) (ar_nodes c ! i)) R)
      (labelSize (ar_prefixArena c) (ar_nodes c ! i) + e) (c\<lparr>ar_nodes := (ar_nodes c)[i := m]\<rparr>)"
    "labels (c\<lparr>ar_nodes := (ar_nodes c)[i := m]\<rparr>) = (labels c)[i := []]"
proof -
  let ?c = "c\<lparr>ar_nodes := (ar_nodes c)[i := m]\<rparr>"
  have ok: "labelOk (ar_prefixArena c) m" using m by (simp add: labelOk_def largePrefixSentinel_def)
  have c: "?c = c\<lparr>ar_nodes := (ar_nodes c)[i := m], ar_livePrefixBytes := ar_livePrefixBytes c\<rparr>" by simp
  have "prefixInv (plus (labelCov (ar_prefixArena c) (ar_nodes c ! i)) R)
      (labelSize (ar_prefixArena c) (ar_nodes c ! i) + e) ?c \<and> labels ?c = (labels c)[i := labelStr (ar_prefixArena c) m]"
    by (rule prefixInv_node [OF inv i ok c]) (use m in simp_all)
  then show "prefixInv (plus (labelCov (ar_prefixArena c) (ar_nodes c ! i)) R)
      (labelSize (ar_prefixArena c) (ar_nodes c ! i) + e) ?c" "labels ?c = (labels c)[i := []]"
    using m by simp_all
qed

lemma prefixInv_live:
  "prefixInv R (e + d) c \<Longrightarrow> prefixInv R e (c\<lparr>ar_livePrefixBytes := ar_livePrefixBytes c - int d\<rparr>)"
  "labels (c\<lparr>ar_livePrefixBytes := x\<rparr>) = labels c"
  by (simp_all add: prefixInv_def owners_def freeCov_def labels_def)

lemma prefixInv_cong: "(\<And>p. R p = Q p) \<Longrightarrow> prefixInv R e c = prefixInv Q e c"
  by (simp add: prefixInv_def owners_def)

lemma prefixInv_drop: "prefixInv (plus R Q) e c \<Longrightarrow> prefixInv Q e c"
  by (auto simp: prefixInv_def owners_def) (metis add_leE add.commute add.left_commute)

lemma handCov_split:
  assumes "lcp + rem = L" "largeMin \<le> L \<Longrightarrow> 4 \<le> off" "rem < largeMin" "0 < lcp"
  shows "handCov off L p = (if largeMin \<le> L \<and> lcp < largeMin then cov (off - 4) 4 p else 0) + handCov off lcp p + handCov (off + lcp) rem p"
proof -
  let ?h = "hdrLen (largeMin \<le> L)"
  have r: "handCov (off + lcp) rem p = cov (off + lcp) rem p" using assms(3) by (simp add: handCov_def hdrLen_def)
  have "?h \<le> off" using assms(2) by (simp add: hdrLen_def)
  then have "handCov off L p = cov (off - ?h) ?h p + cov off L p"
    unfolding handCov_def using cov_join [of "off - ?h" ?h p L] by (simp add: add.commute)
  also have "cov off L p = cov off lcp p + cov (off + lcp) rem p"
    using cov_join [of off lcp p rem] assms(1) by simp
  finally have f: "handCov off L p = cov (off - ?h) ?h p + (cov off lcp p + cov (off + lcp) rem p)" .
  show ?thesis
  proof (cases "lcp < largeMin")
    case True
    then have "handCov off lcp p = cov off lcp p" by (simp add: handCov_def hdrLen_def)
    then show ?thesis using f r True by (simp add: hdrLen_def)
  next
    case False
    then have "largeMin \<le> lcp" "largeMin \<le> L" using assms(1) by simp_all
    then have "handCov off lcp p = cov (off - 4) 4 p + cov off lcp p"
      using cov_join [of "off - 4" 4 p lcp] assms(2) by (simp add: handCov_def hdrLen_def add.commute)
    then show ?thesis using f r False \<open>largeMin \<le> L\<close> by (simp add: hdrLen_def)
  qed
qed

lemma unat_add_of_nat: "unat (x :: u32) + n < 2 ^ 32 \<Longrightarrow> unat (x + of_nat n) = unat x + n"
  by (simp add: unat_word_ariths unat_of_nat)

unbundle bit_operations_syntax

lemma and_not_same [simp]: "(x AND m) AND NOT m = (0 :: u8)"
  by (rule bit_eqI) (auto simp: bit_simps)

text \<open>Two labels are given out side by side where one was: the common part of the branches that stay in place.\<close>

lemma settle_two:
  assumes inv: "prefixInv (plus (plus R (handCov (off + lcp) rem)) (handCov off lcp)) e c"
    and pos: "0 < lcp" "0 < rem" and jk: "j < length (ar_nodes c)" "k < length (ar_nodes c)" "j \<noteq> k"
    and none: "an_prefixLen (ar_nodes c ! j) = 0" "an_prefixLen (ar_nodes c ! k) = 0"
    and hdr: "headerOk off lcp (ar_prefixArena c)" and small: "rem < largeMin" and fit: "off + lcp + rem \<le> length (ar_prefixArena c)"
    and nj: "unat (an_prefixOff nj) = off" "an_prefixLen nj = lenField lcp" "an_firstByte nj = ar_prefixArena c ! off"
    and nk: "unat (an_prefixOff nk) = off + lcp" "an_prefixLen nk = lenField rem" "an_firstByte nk = ar_prefixArena c ! (off + lcp)"
  defines "c' \<equiv> c\<lparr>ar_nodes := (ar_nodes c)[j := nj, k := nk], ar_livePrefixBytes := ar_livePrefixBytes c + int (needFor lcp + needFor rem)\<rparr>"
  shows "prefixInv R e c'" "labels c' = (labels c)[j := take lcp (drop off (ar_prefixArena c)), k := take rem (drop (off + lcp) (ar_prefixArena c))]"
proof -
  define c1 where "c1 = c\<lparr>ar_nodes := (ar_nodes c)[j := nj], ar_livePrefixBytes := ar_livePrefixBytes c + int (needFor lcp)\<rparr>"
  have "prefixInv (plus R (handCov (off + lcp) rem)) e c1 \<and> labels c1 = (labels c)[j := take lcp (drop off (ar_prefixArena c))]"
    by (rule settle_inv [OF inv pos(1) jk(1) none(1) hdr _ nj c1_def]) (use fit in simp)
  then have i1: "prefixInv (plus R (handCov (off + lcp) rem)) e c1" "labels c1 = (labels c)[j := take lcp (drop off (ar_prefixArena c))]"
    by blast+
  have a1: "ar_prefixArena c1 = ar_prefixArena c" "ar_nodes c1 = (ar_nodes c)[j := nj]" by (simp_all add: c1_def)
  have c': "c' = c1\<lparr>ar_nodes := (ar_nodes c1)[k := nk], ar_livePrefixBytes := ar_livePrefixBytes c1 + int (needFor rem)\<rparr>"
    by (simp add: c'_def c1_def)
  have "prefixInv R e c' \<and> labels c' = (labels c1)[k := take rem (drop (off + lcp) (ar_prefixArena c1))]"
    by (rule settle_inv [OF i1(1) pos(2) _ _ _ _ nk(1,2) _ c'])
      (use jk none fit small nk(3) in \<open>simp_all add: a1 headerOk_def\<close>)
  then show "prefixInv R e c'" "labels c' = (labels c)[j := take lcp (drop off (ar_prefixArena c)), k := take rem (drop (off + lcp) (ar_prefixArena c))]"
    by (simp_all add: i1(2) a1)
qed

subsection \<open>Splitting\<close>

definition splitReady :: "'v arenaRadix \<Rightarrow> nat \<Rightarrow> nat \<Rightarrow> nat \<Rightarrow> bool" where
  \<comment> \<open>node \<open>k\<close> has a label with a proper prefix of length \<open>lcp\<close>, node \<open>j\<close> has none\<close>
  "splitReady c k j lcp \<longleftrightarrow> k < length (ar_nodes c) \<and> j < length (ar_nodes c) \<and> j \<noteq> k
     \<and> an_prefixLen (ar_nodes c ! j) = 0
     \<and> 0 < lcp \<and> lcp < length (labels c ! k)"

lemma splitReadyD:
  assumes inv: "prefixInv noBytes 0 c" and rd: "splitReady c k j lcp"
  defines "n \<equiv> ar_nodes c ! k"
  defines "off \<equiv> unat (an_prefixOff n)" and "L \<equiv> length (labels c ! k)"
  shows "an_prefixLen n \<noteq> 0" "labelLen (ar_prefixArena c) n = L" "off + L \<le> length (ar_prefixArena c)"
    "isLargePrefix n \<longleftrightarrow> largeMin \<le> L" "largeMin \<le> L \<Longrightarrow> 4 \<le> off"
    "prefixInv (handCov off L) (needFor L) (c\<lparr>ar_nodes := (ar_nodes c)[k := bare n]\<rparr>)"
    "labels c ! k = take L (drop off (ar_prefixArena c))"
    "labels (c\<lparr>ar_nodes := (ar_nodes c)[k := bare n]\<rparr>) = (labels c)[k := []]"
proof -
  have k: "k < length (ar_nodes c)" and L: "0 < L" using rd by (auto simp: splitReady_def L_def)
  have ll: "L = labelLen (ar_prefixArena c) n" unfolding L_def n_def by (rule label_len [OF inv k])
  then show "labelLen (ar_prefixArena c) n = L" by simp
  show ne: "an_prefixLen n \<noteq> 0" using L ll labelLen_0(1) [where n = n and a = "ar_prefixArena c"] by auto
  note b = label_bounds [OF inv k, folded n_def, OF ne] and h = labelCov_hand [OF prefixInvD(6) [OF inv k], folded n_def, OF ne]
  show "off + L \<le> length (ar_prefixArena c)" using b(1) ll by (simp add: off_def)
  show big: "isLargePrefix n \<longleftrightarrow> largeMin \<le> L" using h(3) ll by simp
  show "largeMin \<le> L \<Longrightarrow> 4 \<le> off" using b(4) big by (simp add: off_def)
  show "prefixInv (handCov off L) (needFor L) (c\<lparr>ar_nodes := (ar_nodes c)[k := bare n]\<rparr>)"
    using unsettle_inv(1) [OF inv k, of "bare n"] h(1,2) ll by (simp add: n_def off_def)
  show "labels c ! k = take L (drop off (ar_prefixArena c))"
    using k ll by (simp add: labels_def labelStr_def n_def off_def)
  show "labels (c\<lparr>ar_nodes := (ar_nodes c)[k := bare n]\<rparr>) = (labels c)[k := []]"
    by (rule unsettle_inv(2) [OF inv k]) simp
qed

lemma split_strings:
  assumes "l = take L (drop off a)" "lcp + rem = L" "off + L \<le> length a"
  shows "take lcp (drop off a) = take lcp l" "take rem (drop (off + lcp) a) = drop lcp l"
proof -
  have "rem = L - lcp" using assms(2) by simp
  then show "take lcp (drop off a) = take lcp l" "take rem (drop (off + lcp) a) = drop lcp l"
    using assms by (simp_all add: drop_take min_def add.commute)
qed

lemma update_again: "j \<noteq> k \<Longrightarrow> xs[k := a, j := b, k := d] = xs[j := b, k := d]"
  by (metis list_update_swap list_update_overwrite)

lemma outside_two:
  assumes "ar_nodes c' = (ar_nodes c)[j := nj, k := nk]" "j < length (ar_nodes c)" "k < length (ar_nodes c)" "j \<noteq> k"
    "bare nj = bare (ar_nodes c ! j)" "bare nk = bare (ar_nodes c ! k)"
    "outside (c'\<lparr>ar_nodes := ar_nodes c\<rparr>) = outside c"
  shows "outside c' = outside c"
proof -
  have "map bare (ar_nodes c') = map bare (ar_nodes c)"
    unfolding assms(1) using assms(2-6) by (simp add: map_bare_update)
  then have "outside c' = outside (c'\<lparr>ar_nodes := ar_nodes c\<rparr>)" by (simp add: outside_def)
  then show ?thesis using assms(7) by simp
qed

lemma lenField_small: "pl < largeMin \<Longrightarrow> lenField pl = of_nat pl"
  by (simp add: lenField_def)

lemma splitSmall_inv:
  assumes inv: "prefixInv noBytes 0 c" and rd: "splitReady c (unat k) (unat j) lcp"
    and small: "lcp < largeMin" "rem < largeMin" and sum: "lcp + rem = length (labels c ! unat k)"
    and fresh: "an_prefixFlags (ar_nodes c ! unat j) AND NOT prefixFlagPinned = 0"
  shows "\<exists>c'. splitSmall k j lcp rem (ar_nodes c ! unat k) c = Inr c' \<and> prefixInv noBytes 0 c' \<and>
    labels c' = (labels c)[unat j := take lcp (labels c ! unat k), unat k := drop lcp (labels c ! unat k)] \<and> outside c' = outside c"
proof -
  let ?a = "ar_prefixArena c" and ?n = "ar_nodes c ! unat k" and ?ns = "ar_nodes c"
  let ?off = "unat (an_prefixOff ?n)" and ?l = "labels c ! unat k" and ?L = "length (labels c ! unat k)"
  note D = splitReadyD [OF inv rd]
  have r: "unat k < length ?ns" "unat j < length ?ns" "unat j \<noteq> unat k" "an_prefixLen (?ns ! unat j) = 0"
    "0 < lcp" using rd by (auto simp: splitReady_def)
  have rem: "0 < rem" using rd sum by (simp add: splitReady_def)
  define remOff where "remOff = an_prefixOff ?n + of_nat lcp"
  have ur: "unat remOff = ?off + lcp"
    using D(3) sum prefixInvD(2) [OF inv] unfolding remOff_def by (intro unat_add_of_nat) simp
  let ?nj = "(putLabel (an_prefixOff ?n) (of_nat lcp) (an_firstByte ?n) (?ns ! unat j))
          \<lparr>an_prefixFlags := an_prefixFlags ?n AND prefixFlagPinned\<rparr>"
  let ?nk = "putLabel remOff (of_nat rem) (?a ! unat remOff) ?n"
  let ?hdr = "\<lambda>p. if largeMin \<le> ?L \<and> lcp < largeMin then cov (?off - 4) 4 p else 0"
  define v0 where "v0 = c\<lparr>ar_nodes := ?ns[unat k := bare ?n]\<rparr>"
  have i0: "prefixInv (plus (plus ?hdr (handCov (?off + lcp) rem)) (handCov ?off lcp)) (needFor ?L) v0"
    using D(6) handCov_split [OF sum D(5) small(2) r(5)] unfolding v0_def
    by (subst prefixInv_cong [where Q = "handCov ?off ?L"]) auto
  have fb: "an_firstByte ?n = ?a ! ?off" using prefixInvD(6) [OF inv r(1)] D(1) by (simp add: labelOk_def)
  define v1 where "v1 = v0\<lparr>ar_nodes := (ar_nodes v0)[unat j := ?nj, unat k := ?nk],
     ar_livePrefixBytes := ar_livePrefixBytes v0 + int (needFor lcp + needFor rem)\<rparr>"
  have v1: "prefixInv ?hdr (needFor ?L) v1"
    "labels v1 = (labels v0)[unat j := take lcp (drop ?off ?a), unat k := take rem (drop (?off + lcp) ?a)]"
    using settle_two [OF i0 r(5) rem, of "unat j" "unat k" ?nj ?nk] r small D(3) sum fb ur
    by (simp_all add: v0_def v1_def headerOk_def lenField_small add.assoc)
  have nodes1: "ar_nodes v1 = ?ns[unat j := ?nj, unat k := ?nk]" using r(3)
    by (simp add: v1_def v0_def update_again)
  have labels1: "labels v1 = (labels c)[unat j := take lcp ?l, unat k := drop lcp ?l]"
    using v1(2) D(8) split_strings [OF D(7) sum D(3)] r(3) by (simp add: v0_def update_again)
  define v2 where "v2 = v1\<lparr>ar_livePrefixBytes := ar_livePrefixBytes v1 - int (needFor ?L)\<rparr>"
  have i2: "prefixInv ?hdr 0 v2" "labels v2 = labels v1"
    using prefixInv_live(1) [of ?hdr 0 "needFor ?L" v1] v1(1) prefixInv_live(2) by (simp_all add: v2_def)
  have v2: "v2 = c\<lparr>ar_livePrefixBytes := ar_livePrefixBytes c - (if largeMin \<le> ?L then 4 else 0),
     ar_nodes := ?ns[unat j := ?nj, unat k := ?nk]\<rparr>"
    by (rule arenaRadix.equality) (use nodes1 small sum in \<open>simp_all add: v2_def v1_def v0_def needFor_def\<close>)
  have out: "outside (v2\<lparr>ar_freePrefixSpans := fs\<rparr>) = outside c" for fs
    by (rule outside_two [of _ c "unat j" ?nj "unat k" ?nk]) (use r fresh in \<open>simp_all add: v2 bare_def outside_def\<close>)
  have run: "splitSmall k j lcp rem ?n c = Inr (c1\<lparr>ar_nodes := ?ns[unat j := ?nj, unat k := ?nk]\<rparr>)"
    if "c1 = (if isLargePrefix ?n then let c0 = c\<lparr>ar_livePrefixBytes := ar_livePrefixBytes c - 4\<rparr> in
             if \<not> an_pinned ?n \<and> \<not> ar_prefixExposed c0 then recordFreePrefixSpanLocked (an_prefixOff ?n - 4) 4 c0 else c0
           else c)" "ar_nodes c1 = ?ns" "ar_prefixArena c1 = ?a" for c1
    unfolding splitSmall_def Let_def that(1) [unfolded Let_def, symmetric] remOff_def [symmetric]
    using that(2,3) r ur D(3) sum rem by (simp add: updNode_def nodeAt_def byteAt_def)
  consider (short) "\<not> isLargePrefix ?n" | (keep) "isLargePrefix ?n" "\<not> (\<not> an_pinned ?n \<and> \<not> ar_prefixExposed c)"
    | (give) "isLargePrefix ?n" "\<not> an_pinned ?n \<and> \<not> ar_prefixExposed c" by blast
  then show ?thesis
  proof cases
    case short
    have "splitSmall k j lcp rem ?n c = Inr v2" using run [of c] short D(4) by (simp add: v2)
    moreover have "prefixInv noBytes 0 v2" using prefixInv_drop [of ?hdr noBytes 0 v2] i2 by simp
    ultimately show ?thesis using i2(2) labels1 out [of "ar_freePrefixSpans v2"] by simp
  next
    case keep
    have "splitSmall k j lcp rem ?n c = Inr v2"
    proof -
      let ?c0 = "c\<lparr>ar_livePrefixBytes := ar_livePrefixBytes c - 4\<rparr>"
      have "?c0 = (if isLargePrefix ?n then let c0 = ?c0 in
             if \<not> an_pinned ?n \<and> \<not> ar_prefixExposed c0 then recordFreePrefixSpanLocked (an_prefixOff ?n - 4) 4 c0 else c0
           else c)" using keep by (auto simp: Let_def)
      from run [OF this] show ?thesis using keep D(4) by (simp add: v2)
    qed
    moreover have "prefixInv noBytes 0 v2" using prefixInv_drop [of ?hdr noBytes 0 v2] i2 by simp
    ultimately show ?thesis using i2(2) labels1 out [of "ar_freePrefixSpans v2"] by simp
  next
    case give
    let ?c0 = "c\<lparr>ar_livePrefixBytes := ar_livePrefixBytes c - 4\<rparr>"
    have big: "largeMin \<le> ?L" "4 \<le> ?off" using give D(4,5) by simp_all
    have u4: "unat (an_prefixOff ?n - 4) = ?off - 4" using big by (simp add: unat_sub word_le_nat_alt)
    have "spansFit (2 ^ 32 - 1) (ar_freePrefixSpans ?c0)"
    proof -
      have n32: "length ?a \<le> 2 ^ 32 - 1" using prefixInvD(2) [OF inv] by simp
      have "spansFit (length ?a) (ar_freePrefixSpans c)" by (rule freeInv_fits(1) [OF prefixInv_freeInv [OF inv]])
      then show ?thesis using spanFits_mono [OF _ n32] unfolding spansFit_def by simp
    qed
    moreover have "unat (an_prefixOff ?n - 4) + unat (4 :: u32) < 2 ^ 32"
      using u4 big(2) unat_lt_u32 [of "an_prefixOff ?n"] by simp
    moreover have "length (ar_freePrefixSpans ?c0) \<le> 32" using prefixInvD(3) [OF inv] by simp
    ultimately obtain fs where fs: "recordFreePrefixSpanLocked (an_prefixOff ?n - 4) 4 ?c0 = ?c0\<lparr>ar_freePrefixSpans := fs\<rparr>"
      "\<forall>p. spansCov fs p \<le> spansCov (ar_freePrefixSpans ?c0) p + cov (unat (an_prefixOff ?n - 4)) (unat (4 :: u32)) p" "length fs \<le> 32"
      using record_ex by blast
    let ?c' = "v2\<lparr>ar_freePrefixSpans := fs\<rparr>"
    have le: "freeCov ?c' p + noBytes p \<le> freeCov v2 p + ?hdr p" for p
      using fs(2) [rule_format, of p] big small by (simp add: freeCov_def v2 u4)
    have kept: "labelsKept (ar_prefixArena v2) (ar_prefixArena ?c') (ar_nodes v2)"
      by (rule labelsKeptI [OF i2(1)]) simp
    have "prefixInv noBytes 0 ?c' \<and> labels ?c' = labels v2"
    proof (rule prefixInv_arena [OF i2(1) _ kept])
      show "nodesCov (ar_prefixArena v2) (ar_nodes v2) p + (freeCov ?c' p + noBytes p) \<le> 1" for p
        using le [of p] prefixInvD(4) [OF i2(1), of p] unfolding owners_def by linarith
      show "nodesCov (ar_prefixArena v2) (ar_nodes v2) p + (freeCov ?c' p + noBytes p) = 0"
        if "length (ar_prefixArena ?c') \<le> p" for p
        using le [of p] prefixInvD(5) [OF i2(1), of p] that unfolding owners_def by simp
    qed (use prefixInvD(1) [OF i2(1)] fs(3) in simp_all)
    moreover have "splitSmall k j lcp rem ?n c = Inr ?c'"
    proof -
      have "?c0\<lparr>ar_freePrefixSpans := fs, ar_nodes := ?ns[unat j := ?nj, unat k := ?nk]\<rparr> = ?c'"
        using big by (intro arenaRadix.equality) (simp_all add: v2)
      then show ?thesis using run [of "?c0\<lparr>ar_freePrefixSpans := fs\<rparr>"] give by (simp add: Let_def fs(1))
    qed
    ultimately show ?thesis using i2(2) labels1 out [of fs] by simp
  qed
qed

lemma splitLargeHead_inv:
  assumes inv: "prefixInv noBytes 0 c" and rd: "splitReady c (unat k) (unat j) lcp"
    and small: "largeMin \<le> lcp" "rem < largeMin" and sum: "lcp + rem = length (labels c ! unat k)"
  shows "\<exists>c'. splitLargeHead k j lcp rem (ar_nodes c ! unat k) c = Inr c' \<and> prefixInv noBytes 0 c' \<and>
    labels c' = (labels c)[unat j := take lcp (labels c ! unat k), unat k := drop lcp (labels c ! unat k)] \<and> outside c' = outside c"
proof -
  let ?a = "ar_prefixArena c" and ?n = "ar_nodes c ! unat k" and ?ns = "ar_nodes c"
  let ?off = "unat (an_prefixOff ?n)" and ?l = "labels c ! unat k" and ?L = "length (labels c ! unat k)"
  note D = splitReadyD [OF inv rd]
  have r: "unat k < length ?ns" "unat j < length ?ns" "unat j \<noteq> unat k" "an_prefixLen (?ns ! unat j) = 0"
    "0 < lcp" using rd by (auto simp: splitReady_def)
  have rem: "0 < rem" using rd sum by (simp add: splitReady_def)
  have L: "largeMin \<le> ?L" "4 \<le> ?off" using small(1) sum D(5) by simp_all
  define remOff where "remOff = an_prefixOff ?n + of_nat lcp"
  have ur: "unat remOff = ?off + lcp"
    using D(3) sum prefixInvD(2) [OF inv] unfolding remOff_def by (intro unat_add_of_nat) simp
  have u4: "unat (an_prefixOff ?n - 4) = ?off - 4" using L by (simp add: unat_sub word_le_nat_alt)
  let ?x = "le_put32 (of_nat lcp)"
  let ?a' = "writeBytes (?off - 4) ?x ?a"
  define v0 where "v0 = c\<lparr>ar_nodes := ?ns[unat k := bare ?n]\<rparr>"
  have i0: "prefixInv (handCov ?off ?L) (needFor ?L) v0" using D(6) by (simp add: v0_def)
  have own: "1 \<le> handCov ?off ?L p" if "?off - 4 \<le> p" "p < ?off - 4 + length ?x" for p
    using that L by (simp add: handCov_def cov_def)
  have ne: "?x \<noteq> []" by (metis length_le_put32 list.size(3) zero_neq_numeral)
  note w = write_inv [where off = "?off - 4" and x = ?x, OF i0 own ne]
  have a0: "ar_prefixArena v0 = ?a" by (simp add: v0_def)
  have same: "?a' ! p = ?a ! p" if "?off \<le> p" "p < length ?a" for p
    using w(6) [of p] that L by (simp add: a0)
  have len: "length ?a' = length ?a" using w(5) by (simp add: a0)
  have read: "take m (drop o' ?a') = take m (drop o' ?a)" if "?off \<le> o'" "o' + m \<le> length ?a" for o' m
    by (rule take_drop_agree) (use that same len in auto)
  let ?nj = "an_unpin (putLabel (an_prefixOff ?n) largePrefixSentinel (?a' ! ?off) (?ns ! unat j))"
  let ?nk = "an_unpin (putLabel remOff (of_nat rem) (?a' ! unat remOff) ?n)"
  define v1 where "v1 = v0\<lparr>ar_prefixArena := ?a'\<rparr>"
  have i1: "prefixInv (plus (plus noBytes (handCov (?off + lcp) rem)) (handCov ?off lcp)) (needFor ?L) v1"
    using w(2) handCov_split [OF sum D(5) small(2) r(5)] small(1) unfolding v1_def a0
    by (subst prefixInv_cong [where Q = "handCov ?off ?L"]) auto
  have l1: "labels v1 = (labels c)[unat k := []]" using w(3) D(8) by (simp add: v1_def sameNodes_def v0_def)
  define v2 where "v2 = v1\<lparr>ar_nodes := (ar_nodes v1)[unat j := ?nj, unat k := ?nk],
     ar_livePrefixBytes := ar_livePrefixBytes v1 + int (needFor lcp + needFor rem)\<rparr>"
  have hdr: "headerOk ?off lcp ?a'" using w(7) L by (simp add: headerOk_def a0)
  have v2: "prefixInv noBytes (needFor ?L) v2"
    "labels v2 = (labels v1)[unat j := take lcp (drop ?off ?a'), unat k := take rem (drop (?off + lcp) ?a')]"
    using settle_two [OF i1 r(5) rem, of "unat j" "unat k" ?nj ?nk] r small D(3) sum ur hdr len
    by (simp_all add: v1_def v0_def v2_def lenField_def add.assoc)
  define c' where "c' = v2\<lparr>ar_livePrefixBytes := ar_livePrefixBytes v2 - int (needFor ?L)\<rparr>"
  have i': "prefixInv noBytes 0 c'" "labels c' = labels v2"
    using prefixInv_live(1) [of noBytes 0 "needFor ?L" v2] v2(1) prefixInv_live(2) by (simp_all add: c'_def)
  have c': "c' = c\<lparr>ar_prefixArena := ?a', ar_nodes := ?ns[unat j := ?nj, unat k := ?nk]\<rparr>"
    by (rule arenaRadix.equality)
      (use small sum r in \<open>simp_all add: c'_def v2_def v1_def v0_def needFor_def update_again\<close>)
  have "take lcp (drop ?off ?a') = take lcp ?l" "take rem (drop (?off + lcp) ?a') = drop lcp ?l"
    using split_strings [OF D(7) sum D(3)] read [of ?off lcp] read [of "?off + lcp" rem] D(3) sum by simp_all
  then have "labels c' = (labels c)[unat j := take lcp ?l, unat k := drop lcp ?l]"
    using i'(2) v2(2) l1 r(3) by (simp add: update_again)
  moreover have "outside c' = outside c"
    by (rule outside_two [of _ c "unat j" ?nj "unat k" ?nk]) (use r in \<open>simp_all add: c' bare_def outside_def\<close>)
  moreover have "splitLargeHead k j lcp rem ?n c = Inr c'"
  proof -
    have "sliceBytes ?a (unat (an_prefixOff ?n - 4)) ?off = Inr (take 4 (drop (?off - 4) ?a))"
      using L D(3) by (simp add: sliceBytes_def u4)
    moreover have "copyToArena (an_prefixOff ?n - 4) ?x c = Inr (c\<lparr>ar_prefixArena := ?a'\<rparr>)"
      using w(1) by (simp add: copyToArena_def u4 a0)
    ultimately show ?thesis
      unfolding splitLargeHead_def Let_def remOff_def [symmetric]
      using r ur D(3) sum rem len L by (simp add: updNode_def nodeAt_def byteAt_def c')
  qed
  ultimately show ?thesis using i'(1) by blast
qed

lemma setFromSlice_inv:
  assumes inv: "prefixInv R e c" and k: "unat k < length (ar_nodes c)" "an_prefixLen (ar_nodes c ! unat k) = 0"
    and src: "\<And>p. unat srcOff \<le> p \<Longrightarrow> p < unat srcOff + sLen \<Longrightarrow> R p = 1" and pos: "0 < sLen"
    and fit: "length (ar_prefixArena c) + needFor sLen \<le> maxPrefixArenaBytes"
  shows "\<exists>c'. setNodePrefixFromArenaSliceLocked k srcOff sLen c = Inr c' \<and> prefixInv R e c' \<and>
    labels c' = (labels c)[unat k := take sLen (drop (unat srcOff) (ar_prefixArena c))] \<and> outside c' = outside c \<and>
    ar_nodes c' = (ar_nodes c)[unat k := ar_nodes c' ! unat k] \<and>
    (\<forall>p. R p = 1 \<longrightarrow> ar_prefixArena c' ! p = ar_prefixArena c ! p) \<and>
    length (ar_prefixArena c') \<le> length (ar_prefixArena c) + needFor sLen"
proof -
  let ?a = "ar_prefixArena c"
  define s where "s = take sLen (drop (unat srcOff) ?a)"
  have in_a: "p < length ?a" if "R p = 1" for p
    using prefixInvD(5) [OF inv, of p] that by (cases "length ?a \<le> p") (auto simp: owners_def)
  have "unat srcOff + sLen - 1 < length ?a" by (rule in_a [OF src]) (use pos in auto)
  then have sb: "unat srcOff + sLen \<le> length ?a" using pos by simp
  then have ls: "length s = sLen" "s \<noteq> []" using pos by (auto simp: s_def)
  have slice: "sliceBytes b (unat srcOff) (unat srcOff + sLen) = Inr s"
    if "\<And>p. R p = 1 \<Longrightarrow> b ! p = ?a ! p" "length ?a \<le> length b" for b
  proof -
    have "take sLen (drop (unat srcOff) b) = s"
      unfolding s_def by (rule take_drop_agree) (use that src sb in auto)
    then show ?thesis using sb that(2) by (simp add: sliceBytes_def)
  qed
  have finish: "\<exists>c'. bindr (byteAt (ar_prefixArena c4) (unat off)) (\<lambda>b.
        bindr (updNode k (\<lambda>n. an_unpin (n\<lparr>an_prefixOff := off,
            an_prefixLen := if largeMin \<le> sLen then largePrefixSentinel else of_nat sLen,
            an_firstByte := b\<rparr>)) c4) (\<lambda>c5.
        Inr (c5\<lparr>ar_livePrefixBytes := ar_livePrefixBytes c5 + int (needFor sLen)\<rparr>))) = Inr c' \<and>
      prefixInv R e c' \<and> labels c' = (labels c)[unat k := s] \<and> outside c' = outside c \<and>
      ar_nodes c' = (ar_nodes c)[unat k := ar_nodes c' ! unat k] \<and> ar_prefixArena c' = ar_prefixArena c4"
    if i4: "prefixInv (plus R (handCov (unat off) sLen)) e c4" and h4: "headerOk (unat off) sLen (ar_prefixArena c4)"
      and s4: "take sLen (drop (unat off) (ar_prefixArena c4)) = s" and f4: "unat off + sLen \<le> length (ar_prefixArena c4)"
      and n4: "sameNodes c c4" for c4 off
  proof -
    have nodes: "ar_nodes c4 = ar_nodes c" "labels c4 = labels c" "outside c4 = outside c" using n4 by (simp_all add: sameNodes_def)
    let ?n = "an_unpin ((ar_nodes c ! unat k)\<lparr>an_prefixOff := off, an_prefixLen := lenField sLen,
        an_firstByte := ar_prefixArena c4 ! unat off\<rparr>)"
    define c' where "c' = c4\<lparr>ar_nodes := (ar_nodes c4)[unat k := ?n], ar_livePrefixBytes := ar_livePrefixBytes c4 + int (needFor sLen)\<rparr>"
    have k4: "unat k < length (ar_nodes c4)" "an_prefixLen (ar_nodes c4 ! unat k) = 0" using k nodes by simp_all
    have "prefixInv R e c' \<and> labels c' = (labels c4)[unat k := take sLen (drop (unat off) (ar_prefixArena c4))]"
      by (rule settle_inv [OF i4 pos k4 h4 f4 _ _ _ c'_def]) simp_all
    moreover have "outside c' = outside c4" by (rule outside_node [OF c'_def k4(1)]) (simp add: bare_def nodes)
    ultimately show ?thesis
      using k4 f4 pos nodes unfolding s4
      by (intro exI [of _ c']) (simp add: byteAt_def updNode_def nodeAt_def c'_def lenField_def)
  qed
  have call: "setNodePrefixFromArenaSliceLocked k srcOff sLen c =
    bindr (tryTakeFreePrefixPayloadSpanLocked sLen (needFor sLen) c) (\<lambda>(c1, taken).
        bindr (case taken of
            Some dstOff \<Rightarrow> bindr (sliceBytes (ar_prefixArena c1) (unat srcOff) (unat srcOff + sLen)) (\<lambda>src.
              bindr (copyToArena dstOff src c1) (\<lambda>c2. Inr (c2, dstOff)))
          | None \<Rightarrow> bindr (sliceBytes (ar_prefixArena (if largeMin \<le> sLen then appendBytes (le_put32 (of_nat sLen)) c1 else c1))
                (unat srcOff) (unat srcOff + sLen)) (\<lambda>src.
              Inr (appendBytes src (if largeMin \<le> sLen then appendBytes (le_put32 (of_nat sLen)) c1 else c1),
                arenaEnd (if largeMin \<le> sLen then appendBytes (le_put32 (of_nat sLen)) c1 else c1)))) (\<lambda>(c4, dstOff).
        bindr (byteAt (ar_prefixArena c4) (unat dstOff)) (\<lambda>b.
        bindr (updNode k (\<lambda>n. an_unpin (n\<lparr>an_prefixOff := dstOff,
            an_prefixLen := if largeMin \<le> sLen then largePrefixSentinel else of_nat sLen,
            an_firstByte := b\<rparr>)) c4) (\<lambda>c5.
        Inr (c5\<lparr>ar_livePrefixBytes := ar_livePrefixBytes c5 + int (needFor sLen)\<rparr>)))))"
    unfolding setNodePrefixFromArenaSliceLocked_def Let_def needFor_def ..
  from inv pos show ?thesis
  proof (cases rule: tryTake_inv)
    case none
    let ?m = "if largeMin \<le> sLen then appendBytes (le_put32 (of_nat sLen)) c else c"
    have "sliceBytes (ar_prefixArena ?m) (unat srcOff) (unat srcOff + sLen) = Inr s"
      by (rule slice) (use in_a in \<open>auto simp: appendBytes_def Let_def nth_append\<close>)
    moreover have pl: "appendBytes s ?m = pushLabel s c" by (simp add: pushLabel_def ls)
    moreover note p = pushLabel_inv [OF inv, of s, unfolded ls(1), OF fit]
    obtain c' where c': "bindr (byteAt (ar_prefixArena (pushLabel s c)) (unat (arenaEnd ?m))) (\<lambda>b.
        bindr (updNode k (\<lambda>n. an_unpin (n\<lparr>an_prefixOff := arenaEnd ?m,
            an_prefixLen := if largeMin \<le> sLen then largePrefixSentinel else of_nat sLen,
            an_firstByte := b\<rparr>)) (pushLabel s c)) (\<lambda>c5.
        Inr (c5\<lparr>ar_livePrefixBytes := ar_livePrefixBytes c5 + int (needFor sLen)\<rparr>))) = Inr c'"
      "prefixInv R e c'" "labels c' = (labels c)[unat k := s]" "outside c' = outside c"
      "ar_nodes c' = (ar_nodes c)[unat k := ar_nodes c' ! unat k]" "ar_prefixArena c' = ar_prefixArena (pushLabel s c)"
      using finish [OF p(1,3,4,5,2)] by blast
    have "length (ar_prefixArena c') \<le> length ?a + needFor sLen"
      unfolding c'(6) by (simp add: pushLabel_def appendBytes_def Let_def needFor_def ls)
    moreover have "ar_prefixArena c' ! p = ?a ! p" if "R p = 1" for p
      unfolding c'(6) by (rule p(6)) (rule in_a [OF that])
    ultimately show ?thesis using c' unfolding call none s_def [symmetric] by (auto simp: pl)
  next
    case (some c1 off)
    have "sliceBytes (ar_prefixArena c1) (unat srcOff) (unat srcOff + sLen) = Inr s"
      by (rule slice) (use some(3,4) in simp_all)
    moreover obtain c2 where c2: "copyToArena off s c1 = Inr c2" "prefixInv (plus R (handCov (unat off) sLen)) e c2" "sameNodes c1 c2"
      "headerOk (unat off) sLen (ar_prefixArena c2)" "take sLen (drop (unat off) (ar_prefixArena c2)) = s"
      "unat off + sLen \<le> length (ar_prefixArena c2)" "\<forall>p. R p = 1 \<longrightarrow> ar_prefixArena c2 ! p = ar_prefixArena c1 ! p"
      "length (ar_prefixArena c2) = length (ar_prefixArena c1)"
      using write_label [where s = s, unfolded ls(1), OF some(5) ls(2) some(6)] by blast
    moreover obtain c' where c': "bindr (byteAt (ar_prefixArena c2) (unat off)) (\<lambda>b.
        bindr (updNode k (\<lambda>n. an_unpin (n\<lparr>an_prefixOff := off,
            an_prefixLen := if largeMin \<le> sLen then largePrefixSentinel else of_nat sLen,
            an_firstByte := b\<rparr>)) c2) (\<lambda>c5.
        Inr (c5\<lparr>ar_livePrefixBytes := ar_livePrefixBytes c5 + int (needFor sLen)\<rparr>))) = Inr c'"
      "prefixInv R e c'" "labels c' = (labels c)[unat k := s]" "outside c' = outside c"
      "ar_nodes c' = (ar_nodes c)[unat k := ar_nodes c' ! unat k]" "ar_prefixArena c' = ar_prefixArena c2"
      using finish [OF c2(2,4,5,6) sameNodes_trans [OF some(2) c2(3)]] by blast
    ultimately show ?thesis using some(3,4) unfolding call some(1) s_def [symmetric] by (intro exI [of _ c']) auto
  qed
qed

lemma splitReady_cong:
  assumes inv: "prefixInv R e c" and inv': "prefixInv R' e' c'" and same: "labels c' = labels c" "outside c' = outside c"
    and rd: "splitReady c k j lcp"
  shows "splitReady c' k j lcp"
proof -
  note o = outside_nodes [OF same(2)]
  have j: "j < length (ar_nodes c)" "j < length (ar_nodes c')" "labels c' ! j = []"
    using rd o(1) label_nil_iff [OF inv] by (auto simp: splitReady_def same(1)) (simp add: labels_def)
  then have "an_prefixLen (ar_nodes c' ! j) = 0" using label_nil_iff [OF inv' j(2)] by (simp add: labels_def)
  then show ?thesis using rd o(1) by (simp add: splitReady_def same(1))
qed

lemma splitCopy_inv:
  assumes inv: "prefixInv noBytes 0 c" and att: "attached c" and rd: "splitReady c (unat k) (unat j) lcp"
    and sum: "lcp + rem = length (labels c ! unat k)"
    and room: "labelBytes (labels c) + needFor lcp + needFor rem \<le> maxPrefixArenaBytes"
  shows "\<exists>c'. splitCopy k j lcp rem (isLargePrefix (ar_nodes c ! unat k)) (length (labels c ! unat k)) c = Inr c' \<and> prefixInv noBytes 0 c' \<and>
    labels c' = (labels c)[unat j := take lcp (labels c ! unat k), unat k := drop lcp (labels c ! unat k)] \<and> outside c' = outside c"
proof -
  let ?l = "labels c ! unat k" and ?L = "length (labels c ! unat k)"
  have "ar_livePrefixBytes c + int (needFor lcp + needFor rem) \<le> int maxPrefixArenaBytes"
    using live_labels [OF inv] room by simp
  then obtain c1 where c1: "ensurePrefixArenaCap (needFor lcp + needFor rem) c = Inr c1" "prefixInv noBytes 0 c1"
    "labels c1 = labels c" "outside c1 = outside c"
    "length (ar_prefixArena c1) + (needFor lcp + needFor rem) \<le> maxPrefixArenaBytes"
    using ensure_inv [OF inv att, of "needFor lcp + needFor rem"] by auto
  have rd1: "splitReady c1 (unat k) (unat j) lcp" by (rule splitReady_cong [OF inv c1(2-4) rd])
  let ?n = "ar_nodes c1 ! unat k"
  let ?off = "unat (an_prefixOff ?n)"
  note D = splitReadyD [OF c1(2) rd1, unfolded c1(3)] and D0 = splitReadyD [OF inv rd]
  have r: "unat k < length (ar_nodes c1)" "unat j < length (ar_nodes c1)" "unat j \<noteq> unat k" "an_prefixLen (ar_nodes c1 ! unat j) = 0"
    "0 < lcp" using rd1 by (auto simp: splitReady_def)
  have rem: "0 < rem" using rd sum by (simp add: splitReady_def)
  define c2 where "c2 = c1\<lparr>ar_nodes := (ar_nodes c1)[unat k := bare ?n]\<rparr>"
  have i2: "prefixInv (handCov ?off ?L) (needFor ?L) c2" "labels c2 = (labels c)[unat k := []]"
    using D(6,8) by (simp_all add: c2_def)
  have a2: "ar_prefixArena c2 = ar_prefixArena c1" by (simp add: c2_def)
  have hand: "handCov ?off ?L p = 1" if "?off \<le> p" "p < ?off + ?L" for p
    using that D(5) by (auto simp: handCov_def cov_def hdrLen_def)
  have clr: "clearLabel (an_prefixFlags n AND NOT prefixFlagPinned) n = bare n" for n :: "'a arenaRadixNode"
    by (cases n) (simp add: bare_def)
  have up2: "updNode k (\<lambda>n. clearLabel (an_prefixFlags n AND NOT prefixFlagPinned) n) c1 = Inr c2"
    using r by (simp add: updNode_def nodeAt_def clr c2_def)
  have f2: "length (ar_prefixArena c2) + needFor lcp \<le> maxPrefixArenaBytes" using c1(5) a2 by simp
  have j2: "unat j < length (ar_nodes c2)" "an_prefixLen (ar_nodes c2 ! unat j) = 0" using r by (simp_all add: c2_def)
  have s2: "handCov ?off ?L p = 1" if "?off \<le> p" "p < ?off + lcp" for p
    by (rule hand) (use that sum in auto)
  obtain c3 where c3: "setNodePrefixFromArenaSliceLocked j (an_prefixOff ?n) lcp c2 = Inr c3"
    "prefixInv (handCov ?off ?L) (needFor ?L) c3" "labels c3 = (labels c2)[unat j := take lcp (drop ?off (ar_prefixArena c2))]"
    "outside c3 = outside c2" "ar_nodes c3 = (ar_nodes c2)[unat j := ar_nodes c3 ! unat j]"
    "\<forall>p. handCov ?off ?L p = 1 \<longrightarrow> ar_prefixArena c3 ! p = ar_prefixArena c2 ! p"
    "length (ar_prefixArena c3) \<le> length (ar_prefixArena c2) + needFor lcp"
    using setFromSlice_inv [OF i2(1) j2 s2 r(5) f2] by blast
  define remOff where "remOff = an_prefixOff ?n + of_nat lcp"
  have ur: "unat remOff = ?off + lcp"
    using D(3) sum prefixInvD(2) [OF c1(2)] unfolding remOff_def by (intro unat_add_of_nat) simp
  have len3: "length (ar_nodes c3) = length (ar_nodes c1)" using outside_nodes(1) [OF c3(4)] by (simp add: c2_def)
  have k3: "unat k < length (ar_nodes c3)" "an_prefixLen (ar_nodes c3 ! unat k) = 0"
  proof -
    show "unat k < length (ar_nodes c3)" using r len3 by simp
    have "ar_nodes c3 ! unat k = ar_nodes c2 ! unat k" using r(3) by (subst c3(5)) simp
    then show "an_prefixLen (ar_nodes c3 ! unat k) = 0" using r by (simp add: c2_def)
  qed
  have s3: "handCov ?off ?L p = 1" if "unat remOff \<le> p" "p < unat remOff + rem" for p
    by (rule hand) (use that sum ur in auto)
  have f3: "length (ar_prefixArena c3) + needFor rem \<le> maxPrefixArenaBytes" using c1(5) c3(7) a2 by simp
  obtain c4 where c4: "setNodePrefixFromArenaSliceLocked k remOff rem c3 = Inr c4"
    "prefixInv (handCov ?off ?L) (needFor ?L) c4" "labels c4 = (labels c3)[unat k := take rem (drop (unat remOff) (ar_prefixArena c3))]"
    "outside c4 = outside c3"
    using setFromSlice_inv [OF c3(2) k3 s3 rem f3] by blast
  have "prefixInv (plus (handCov ?off ?L) noBytes) (?L + hdrLen (largeMin \<le> ?L) + 0) c4"
    using c4(2) by (simp add: needFor_hdr)
  from release_inv [OF this, where off = "an_prefixOff ?n" and flags = "an_prefixFlags ?n"] obtain c' where
    c': "releasePrefixSpanLocked (an_prefixOff ?n) ?L (largeMin \<le> ?L) (an_prefixFlags ?n) c4 = Inr c'"
    "prefixInv noBytes 0 c'" "sameNodes c4 c'"
    using D(5) rem sum by (cases "labels c ! unat k = []") (auto simp: handCov_def)
  have read: "take rem (drop (unat remOff) (ar_prefixArena c3)) = take rem (drop (unat remOff) (ar_prefixArena c2))"
  proof (rule take_drop_agree)
    fix p assume p: "unat remOff \<le> p" "p < unat remOff + rem"
    have "p < length b" if "prefixInv (handCov ?off ?L) (needFor ?L) d" "b = ar_prefixArena d" for b and d :: "'a arenaRadix"
      using prefixInvD(5) [OF that(1), of p] s3 [OF p] that(2) by (cases "length b \<le> p") (auto simp: owners_def)
    then show "p < length (ar_prefixArena c3) \<and> p < length (ar_prefixArena c2) \<and> ar_prefixArena c3 ! p = ar_prefixArena c2 ! p"
      using i2(1) c3(2,6) s3 [OF p] by blast
  qed
  have "labels c' = (labels c)[unat j := take lcp ?l, unat k := drop lcp ?l]"
  proof -
    have "labels c' = labels c4" using c'(3) by (simp add: sameNodes_def)
    also have "\<dots> = (labels c)[unat k := [], unat j := take lcp (drop ?off (ar_prefixArena c1)),
       unat k := take rem (drop (?off + lcp) (ar_prefixArena c1))]"
      unfolding c4(3) ur read [unfolded ur] c3(3) i2(2) a2 ..
    finally show ?thesis using split_strings [OF D(7) sum D(3)] r(3) by (simp add: update_again)
  qed
  moreover have "outside c' = outside c"
  proof -
    have "outside c2 = outside c1"
      by (rule outside_node [where n = "bare ?n" and i = "unat k" and live = "ar_livePrefixBytes c1"]) (use r in \<open>simp_all add: c2_def\<close>)
    then show ?thesis using c'(3) c4(4) c3(4) c1(4) by (simp add: sameNodes_def)
  qed
  moreover have "splitCopy k j lcp rem (isLargePrefix (ar_nodes c ! unat k)) ?L c = Inr c'"
  proof -
    have "isLargePrefix (ar_nodes c ! unat k) \<longleftrightarrow> largeMin \<le> ?L" by (rule D0(4))
    moreover have "nodeAt c1 k = Inr ?n" using r by (simp add: nodeAt_def)
    ultimately show ?thesis
      unfolding splitCopy_def Let_def needFor_def [symmetric] c1(1) bindr_simps up2
      using c'(1) c3(1) c4(1) up2 by (simp add: remOff_def)
  qed
  ultimately show ?thesis using c'(2) by blast
qed

lemma splitNodePrefix_inv:
  assumes inv: "prefixInv noBytes 0 c" and att: "attached c" and rd: "splitReady c (unat k) (unat j) lcp"
    and fresh: "an_prefixFlags (ar_nodes c ! unat j) AND NOT prefixFlagPinned = 0"
    and room: "labelBytes (labels c) + needFor lcp + needFor (length (labels c ! unat k) - lcp) \<le> maxPrefixArenaBytes"
  shows "\<exists>c'. splitNodePrefixLocked k j lcp c = Inr c' \<and> prefixInv noBytes 0 c' \<and>
    labels c' = (labels c)[unat j := take lcp (labels c ! unat k), unat k := drop lcp (labels c ! unat k)] \<and> outside c' = outside c"
proof -
  let ?L = "length (labels c ! unat k)" and ?n = "ar_nodes c ! unat k"
  have k: "unat k < length (ar_nodes c)" and lcp: "lcp < ?L" using rd by (auto simp: splitReady_def)
  note D = splitReadyD [OF inv rd]
  have sum: "lcp + (?L - lcp) = ?L" using lcp by simp
  have len: "nodePrefixLen c k = Inr ?L" using nodePrefixLen_spec [OF inv k] D(2) by simp
  have at: "nodeAt c k = Inr ?n" using k by (simp add: nodeAt_def)
  consider (s) "lcp < largeMin \<and> ?L - lcp < largeMin"
    | (h) "\<not> (lcp < largeMin \<and> ?L - lcp < largeMin)"
        "isLargePrefix ?n \<and> largeMin \<le> lcp \<and> ?L - lcp < largeMin \<and> \<not> an_pinned ?n \<and> \<not> ar_prefixExposed c"
    | (c) "\<not> (lcp < largeMin \<and> ?L - lcp < largeMin)"
        "\<not> (isLargePrefix ?n \<and> largeMin \<le> lcp \<and> ?L - lcp < largeMin \<and> \<not> an_pinned ?n \<and> \<not> ar_prefixExposed c)" by blast
  then show ?thesis
  proof cases
    case s
    have "splitNodePrefixLocked k j lcp c = splitSmall k j lcp (?L - lcp) ?n c"
      unfolding splitNodePrefixLocked_def len at bindr_simps Let_def if_P [OF s] ..
    then show ?thesis using splitSmall_inv [OF inv rd _ _ sum fresh] s by simp
  next
    case h
    have "splitNodePrefixLocked k j lcp c = splitLargeHead k j lcp (?L - lcp) ?n c"
      unfolding splitNodePrefixLocked_def len at bindr_simps Let_def if_not_P [OF h(1)] if_P [OF h(2)] ..
    then show ?thesis using splitLargeHead_inv [OF inv rd _ _ sum] h by simp
  next
    case c
    have "splitNodePrefixLocked k j lcp c = splitCopy k j lcp (?L - lcp) (isLargePrefix ?n) ?L c"
      unfolding splitNodePrefixLocked_def len at bindr_simps Let_def if_not_P [OF c(1)] if_not_P [OF c(2)] ..
    then show ?thesis using splitCopy_inv [OF inv att rd sum room] by simp
  qed
qed

end
