(* ===== verification/ArenaMerge.thy ===== *)
theory ArenaMerge
  imports ArenaSplit
begin

text \<open>
  Merging the label of a node with the label of its only child, on each of the four branches of
  \<open>mergeNodePrefixesLocked\<close>.
\<close>

unbundle bit_operations_syntax

lemma labelD:
  assumes inv: "prefixInv R e c" and i: "i < length (ar_nodes c)" and ne: "labels c ! i \<noteq> []"
  defines "n \<equiv> ar_nodes c ! i"
  defines "off \<equiv> unat (an_prefixOff n)" and "L \<equiv> length (labels c ! i)"
  shows "labelLen (ar_prefixArena c) n = L" "off + L \<le> length (ar_prefixArena c)"
    "isLargePrefix n \<longleftrightarrow> largeMin \<le> L" "largeMin \<le> L \<Longrightarrow> 4 \<le> off"
    "labelCov (ar_prefixArena c) n = handCov off L" "labelSize (ar_prefixArena c) n = needFor L"
    "labels c ! i = take L (drop off (ar_prefixArena c))" "an_firstByte n = ar_prefixArena c ! off"
    "L < largeMin \<Longrightarrow> unat (an_prefixLen n) = L" "0 < L"
proof -
  have ll: "L = labelLen (ar_prefixArena c) n" unfolding L_def n_def by (rule label_len [OF inv i])
  then show "labelLen (ar_prefixArena c) n = L" by simp
  show pos: "0 < L" using ne unfolding L_def by (rule length_greater_0_conv [THEN iffD2])
  have pl: "an_prefixLen n \<noteq> 0" using pos ll labelLen_0(1) [where n = n and a = "ar_prefixArena c"] by auto
  have ok: "labelOk (ar_prefixArena c) n" unfolding n_def by (rule prefixInvD(6) [OF inv i])
  note b = label_bounds [OF inv i, folded n_def, OF pl] and h = labelCov_hand [OF ok pl]
  show "off + L \<le> length (ar_prefixArena c)" using b(1) ll by (simp add: off_def)
  show big: "isLargePrefix n \<longleftrightarrow> largeMin \<le> L" using h(3) ll by simp
  show "largeMin \<le> L \<Longrightarrow> 4 \<le> off" using b(4) big by (simp add: off_def)
  show "labelCov (ar_prefixArena c) n = handCov off L" unfolding ll off_def by (rule h(1))
  show "labelSize (ar_prefixArena c) n = needFor L" unfolding ll by (rule h(2))
  show "labels c ! i = take L (drop off (ar_prefixArena c))"
    using i ll by (simp add: labels_def labelStr_def n_def off_def)
  show "an_firstByte n = ar_prefixArena c ! off" using ok pl unfolding labelOk_def off_def by blast
  show "L < largeMin \<Longrightarrow> unat (an_prefixLen n) = L"
  proof -
    assume "L < largeMin"
    then have "\<not> isLargePrefix n" using big by linarith
    then have "an_prefixLen n < largePrefixSentinel" unfolding not_large_less .
    then show "unat (an_prefixLen n) = L" unfolding ll labelLen_def by (rule if_P [symmetric])
  qed
qed

definition mergeReady :: "'v arenaRadix \<Rightarrow> nat \<Rightarrow> nat \<Rightarrow> bool" where
  "mergeReady c k m \<longleftrightarrow> k < length (ar_nodes c) \<and> m < length (ar_nodes c) \<and> k \<noteq> m \<and> labels c ! k \<noteq> [] \<and> labels c ! m \<noteq> []"

definition outsideBut :: "nat \<Rightarrow> 'v arenaRadix \<Rightarrow> 'v arenaRadix" where
  \<comment> \<open>the cache without its labels and without the flags of node \<open>k\<close>\<close>
  "outsideBut k c = (outside c)\<lparr>ar_nodes := (map bare (ar_nodes c))[k := (bare (ar_nodes c ! k))\<lparr>an_prefixFlags := 0\<rparr>]\<rparr>"

lemma outsideBut_cong:
  assumes o: "outside c' = outside c" and k: "k < length (ar_nodes c)"
  shows "outsideBut k c' = outsideBut k c"
proof -
  have "bare (ar_nodes c' ! k) = bare (ar_nodes c ! k)" by (rule outside_nodes(3) [OF o k])
  moreover have "ar_nodes (outside c') = ar_nodes (outside c)" using o by simp
  then have "map bare (ar_nodes c') = map bare (ar_nodes c)" by (simp add: outside_def)
  ultimately show ?thesis unfolding outsideBut_def o by simp
qed

lemma outsideBut_two:
  assumes "ar_nodes c' = (ar_nodes c)[k := nk, m := nm]" "k < length (ar_nodes c)" "m < length (ar_nodes c)" "k \<noteq> m"
    "(bare nk)\<lparr>an_prefixFlags := 0\<rparr> = (bare (ar_nodes c ! k))\<lparr>an_prefixFlags := 0\<rparr>" "bare nm = bare (ar_nodes c ! m)"
    "outside (c'\<lparr>ar_nodes := ar_nodes c\<rparr>) = outside c"
  shows "outsideBut k c' = outsideBut k c"
proof -
  have "(map bare (ar_nodes c'))[k := (bare (ar_nodes c' ! k))\<lparr>an_prefixFlags := 0\<rparr>]
      = (map bare (ar_nodes c))[k := (bare (ar_nodes c ! k))\<lparr>an_prefixFlags := 0\<rparr>]"
    by (rule nth_equalityI) (use assms(2-6) in \<open>auto simp: assms(1) nth_list_update\<close>)
  moreover have "(outside c')\<lparr>ar_nodes := x\<rparr> = (outside c)\<lparr>ar_nodes := x\<rparr>" for x
  proof -
    have "(outside c')\<lparr>ar_nodes := x\<rparr> = (outside (c'\<lparr>ar_nodes := ar_nodes c\<rparr>))\<lparr>ar_nodes := x\<rparr>" by (simp add: outside_def)
    then show ?thesis using assms(7) by simp
  qed
  ultimately show ?thesis by (simp add: outsideBut_def)
qed

lemma take_take_drop: "take x (drop off a) @ take y (drop (off + x) a) = take (x + y) (drop off a)"
  by (simp add: take_add add.commute)

lemma handCov_join:
  assumes "Lm < largeMin" "largeMin \<le> Lk \<Longrightarrow> 4 \<le> off" "0 < Lk" "Lk < largeMin \<Longrightarrow> Lk + Lm < largeMin"
  shows "handCov (off + Lk) Lm p + handCov off Lk p = handCov off (Lk + Lm) p"
  using handCov_split [of Lk Lm "Lk + Lm" off p] assms by (cases "Lk < largeMin") auto

text \<open>Both labels are taken in hand.\<close>

lemma unsettle_both:
  assumes inv: "prefixInv R e c" and rd: "mergeReady c k m"
  defines "v \<equiv> c\<lparr>ar_nodes := (ar_nodes c)[k := clearLabel 0 (ar_nodes c ! k), m := bare (ar_nodes c ! m)]\<rparr>"
  shows "prefixInv (plus (handCov (unat (an_prefixOff (ar_nodes c ! m))) (length (labels c ! m)))
      (plus (handCov (unat (an_prefixOff (ar_nodes c ! k))) (length (labels c ! k))) R))
      (needFor (length (labels c ! m)) + (needFor (length (labels c ! k)) + e)) v"
    "labels v = (labels c)[k := [], m := []]"
proof -
  have r: "k < length (ar_nodes c)" "m < length (ar_nodes c)" "k \<noteq> m" "labels c ! k \<noteq> []" "labels c ! m \<noteq> []"
    using rd by (simp_all add: mergeReady_def)
  let ?v = "c\<lparr>ar_nodes := (ar_nodes c)[k := clearLabel 0 (ar_nodes c ! k)]\<rparr>"
  note K = labelD [OF inv r(1,4)]
  have 1: "prefixInv (plus (handCov (unat (an_prefixOff (ar_nodes c ! k))) (length (labels c ! k))) R) (needFor (length (labels c ! k)) + e) ?v"
    "labels ?v = (labels c)[k := []]"
    using unsettle_inv [OF inv r(1), of "clearLabel 0 (ar_nodes c ! k)"] K(5,6) by simp_all
  have m1: "m < length (ar_nodes ?v)" "labels ?v ! m \<noteq> []" "ar_nodes ?v ! m = ar_nodes c ! m" "labels ?v ! m = labels c ! m"
    using r 1(2) by simp_all
  note M = labelD [OF 1(1) m1(1,2), unfolded m1(3,4)]
  have v: "v = ?v\<lparr>ar_nodes := (ar_nodes ?v)[m := bare (ar_nodes c ! m)]\<rparr>" by (simp add: v_def)
  note u = unsettle_inv [OF 1(1) m1(1), of "bare (ar_nodes c ! m)", folded v, unfolded m1(3)]
  show "prefixInv (plus (handCov (unat (an_prefixOff (ar_nodes c ! m))) (length (labels c ! m)))
      (plus (handCov (unat (an_prefixOff (ar_nodes c ! k))) (length (labels c ! k))) R))
      (needFor (length (labels c ! m)) + (needFor (length (labels c ! k)) + e)) v"
    using u(1) M(5,6) by simp
  show "labels v = (labels c)[k := [], m := []]" using u(2) 1(2) by simp
qed

text \<open>The branches that only move the boundary: the child takes over the range of both labels.\<close>

lemma merge_ranges:
  assumes inv: "prefixInv noBytes 0 c" and rd: "mergeReady c k m"
  defines "nk \<equiv> ar_nodes c ! k" and "nm \<equiv> ar_nodes c ! m" and "Lk \<equiv> length (labels c ! k)" and "Lm \<equiv> length (labels c ! m)"
  assumes adj: "unat (an_prefixOff nk) + Lk = unat (an_prefixOff nm)" and small: "Lm < largeMin" "Lk < largeMin \<Longrightarrow> Lk + Lm < largeMin"
    and arena: "a' = (if largeMin \<le> Lk then writeBytes (unat (an_prefixOff nk) - 4) (le_put32 (of_nat (Lk + Lm))) (ar_prefixArena c) else ar_prefixArena c)"
    and n': "an_prefixOff n' = an_prefixOff nk" "an_prefixLen n' = lenField (Lk + Lm)" "an_firstByte n' = an_firstByte nk" "bare n' = bare nm"
  defines "c' \<equiv> c\<lparr>ar_prefixArena := a', ar_nodes := (ar_nodes c)[k := clearLabel 0 nk, m := n']\<rparr>"
  shows "prefixInv noBytes 0 c'" "labels c' = (labels c)[k := [], m := labels c ! k @ labels c ! m]" "outsideBut k c' = outsideBut k c"
    "length a' = length (ar_prefixArena c)"
proof -
  let ?a = "ar_prefixArena c" and ?ns = "ar_nodes c"
  let ?ok = "unat (an_prefixOff nk)"
  have r: "k < length ?ns" "m < length ?ns" "k \<noteq> m" "labels c ! k \<noteq> []" "labels c ! m \<noteq> []"
    using rd by (simp_all add: mergeReady_def)
  note K = labelD [OF inv r(1,4), folded nk_def Lk_def] and M = labelD [OF inv r(2,5), folded nm_def Lm_def]
  define v0 where "v0 = c\<lparr>ar_nodes := ?ns[k := clearLabel 0 nk, m := bare nm]\<rparr>"
  have v0: "prefixInv (handCov ?ok (Lk + Lm)) (needFor Lm + needFor Lk) v0" "labels v0 = (labels c)[k := [], m := []]"
    using unsettle_both [OF inv rd] handCov_join [of Lm Lk ?ok] K(4,10) small adj
    by (simp_all add: v0_def nk_def nm_def Lk_def Lm_def)
  have keep: "headerOk ?ok (Lk + Lm) a' \<and> length a' = length ?a \<and> (\<forall>p. ?ok \<le> p \<and> p < length ?a \<longrightarrow> a' ! p = ?a ! p)
      \<and> prefixInv (handCov ?ok (Lk + Lm)) (needFor Lm + needFor Lk) (v0\<lparr>ar_prefixArena := a'\<rparr>) \<and> labels (v0\<lparr>ar_prefixArena := a'\<rparr>) = labels v0"
  proof (cases "largeMin \<le> Lk")
    case False
    then have "v0\<lparr>ar_prefixArena := a'\<rparr> = v0" by (simp add: arena v0_def)
    then show ?thesis using False small v0 by (simp add: arena headerOk_def)
  next
    case True
    let ?x = "le_put32 (of_nat (Lk + Lm))"
    have o4: "4 \<le> ?ok" using K(4) True by simp
    have own: "1 \<le> handCov ?ok (Lk + Lm) p" if "?ok - 4 \<le> p" "p < ?ok - 4 + length ?x" for p
      using that True o4 by (simp add: handCov_def cov_def)
    have ne: "?x \<noteq> []" by (metis length_le_put32 list.size(3) zero_neq_numeral)
    have a0: "ar_prefixArena v0 = ?a" by (simp add: v0_def)
    note w = write_inv [where off = "?ok - 4" and x = ?x, OF v0(1) own ne, unfolded a0]
    have a': "a' = writeBytes (?ok - 4) ?x ?a" using True by (simp add: arena)
    show ?thesis using w o4 unfolding a' by (auto simp: headerOk_def sameNodes_def)
  qed
  then show len: "length a' = length ?a" by blast
  define v1 where "v1 = v0\<lparr>ar_prefixArena := a'\<rparr>"
  define v2 where "v2 = v1\<lparr>ar_nodes := (ar_nodes v1)[m := n'], ar_livePrefixBytes := ar_livePrefixBytes v1 + int (needFor (Lk + Lm))\<rparr>"
  have fit: "?ok + (Lk + Lm) \<le> length a'" using M(2) adj len by simp
  have i1: "prefixInv (plus noBytes (handCov ?ok (Lk + Lm))) (needFor Lm + needFor Lk) v1" using keep by (simp add: v1_def)
  have s: "prefixInv noBytes (needFor Lm + needFor Lk) v2 \<and> labels v2 = (labels v1)[m := take (Lk + Lm) (drop ?ok a')]"
    using settle_inv [OF i1 _ _ _ _ _ _ _ _ v2_def] keep fit r K(10) K(2,8) n' by (simp add: v1_def v0_def)
  have need: "needFor (Lk + Lm) = needFor Lm + needFor Lk" using small by (auto simp: needFor_def)
  have c': "c' = v2\<lparr>ar_livePrefixBytes := ar_livePrefixBytes v2 - int (needFor Lm + needFor Lk)\<rparr>"
    by (rule arenaRadix.equality) (use need r in \<open>simp_all add: c'_def v2_def v1_def v0_def\<close>)
  show "prefixInv noBytes 0 c'" using s prefixInv_live(1) [of noBytes 0 "needFor Lm + needFor Lk" v2] by (simp add: c')
  have "take (Lk + Lm) (drop ?ok a') = take (Lk + Lm) (drop ?ok ?a)"
    by (rule take_drop_agree) (use keep fit len in auto)
  also have "\<dots> = labels c ! k @ labels c ! m" using K(7) M(7) adj take_take_drop [of Lk ?ok ?a Lm] by simp
  finally have str: "take (Lk + Lm) (drop ?ok a') = labels c ! k @ labels c ! m" .
  show "labels c' = (labels c)[k := [], m := labels c ! k @ labels c ! m]"
    using s str keep v0(2) by (simp add: c' prefixInv_live(2) v1_def)
  show "outsideBut k c' = outsideBut k c"
    by (rule outsideBut_two [of c' c k "clearLabel 0 nk" m n']) (use r n' in \<open>simp_all add: c'_def nk_def nm_def bare_def outside_def\<close>)
qed

abbreviation merged :: "'v arenaRadix \<Rightarrow> nat \<Rightarrow> nat \<Rightarrow> 'v arenaRadix \<Rightarrow> bool" where
  \<comment> \<open>node \<open>m\<close> has got both labels, and nothing else has changed but the flags of \<open>k\<close>\<close>
  "merged c k m c' \<equiv> prefixInv noBytes 0 c' \<and> labels c' = (labels c)[k := [], m := labels c ! k @ labels c ! m]
     \<and> outsideBut k c' = outsideBut k c"

lemma pin_or: "((f :: u8) OR (g AND prefixFlagPinned)) AND NOT prefixFlagPinned = f AND NOT prefixFlagPinned"
  by (rule bit_eqI) (auto simp: bit_simps)

lemma unat_off_add:
  assumes inv: "prefixInv R e c" and fit: "unat (off :: u32) + n \<le> length (ar_prefixArena c)"
  shows "unat (off + of_nat n) = unat off + n"
proof -
  have "unat off + n < 2 ^ 32" using fit prefixInvD(2) [OF inv] by simp
  then show ?thesis by (rule unat_add_of_nat)
qed

lemma mergeInPlace_inv:
  assumes inv: "prefixInv noBytes 0 c" and rd: "mergeReady c (unat k) (unat m)"
    and small: "length (labels c ! unat k) + length (labels c ! unat m) < largeMin"
    and adj: "an_prefixOff (ar_nodes c ! unat k) + of_nat (length (labels c ! unat k)) = an_prefixOff (ar_nodes c ! unat m)"
  shows "\<exists>c'. mergeInPlace k m (length (labels c ! unat k) + length (labels c ! unat m)) c = Inr c' \<and> merged c (unat k) (unat m) c'"
proof -
  let ?Lk = "length (labels c ! unat k)" and ?Lm = "length (labels c ! unat m)" and ?nk = "ar_nodes c ! unat k" and ?nm = "ar_nodes c ! unat m"
  have r: "unat k < length (ar_nodes c)" "unat m < length (ar_nodes c)" "unat k \<noteq> unat m" "labels c ! unat k \<noteq> []"
    using rd by (simp_all add: mergeReady_def)
  let ?n' = "(putLabel (an_prefixOff ?nk) (of_nat (?Lk + ?Lm)) (an_firstByte ?nk) ?nm)
       \<lparr>an_prefixFlags := an_prefixFlags ?nm OR (an_prefixFlags ?nk AND prefixFlagPinned)\<rparr>"
  let ?c' = "c\<lparr>ar_prefixArena := ar_prefixArena c, ar_nodes := (ar_nodes c)[unat k := clearLabel 0 ?nk, unat m := ?n']\<rparr>"
  note K = labelD [OF inv r(1,4)]
  have adj': "unat (an_prefixOff ?nk) + ?Lk = unat (an_prefixOff ?nm)" using unat_off_add [OF inv K(2)] adj by simp
  have b: "bare ?n' = bare ?nm" unfolding bare_def by (simp add: pin_or)
  note g = merge_ranges [OF inv rd adj', where a' = "ar_prefixArena c" and n' = ?n']
  have "merged c (unat k) (unat m) ?c'"
    by (intro conjI; rule g) (use small b in \<open>simp_all add: lenField_small\<close>)
  moreover have "mergeInPlace k m (?Lk + ?Lm) c = Inr ?c'"
    using r by (simp add: mergeInPlace_def updNode_def nodeAt_def list_update_swap [of "unat k"])
  ultimately show ?thesis by blast
qed

lemma mergeLargeHead_inv:
  assumes inv: "prefixInv noBytes 0 c" and rd: "mergeReady c (unat k) (unat m)"
    and sizes: "largeMin \<le> length (labels c ! unat k)" "length (labels c ! unat m) < largeMin"
    and adj: "an_prefixOff (ar_nodes c ! unat k) + of_nat (length (labels c ! unat k)) = an_prefixOff (ar_nodes c ! unat m)"
  shows "\<exists>c'. mergeLargeHead k m (length (labels c ! unat k) + length (labels c ! unat m)) c = Inr c' \<and> merged c (unat k) (unat m) c'"
proof -
  let ?Lk = "length (labels c ! unat k)" and ?Lm = "length (labels c ! unat m)" and ?nk = "ar_nodes c ! unat k" and ?nm = "ar_nodes c ! unat m"
  let ?off = "unat (an_prefixOff ?nk)" and ?x = "le_put32 (of_nat (?Lk + ?Lm))"
  have r: "unat k < length (ar_nodes c)" "unat m < length (ar_nodes c)" "unat k \<noteq> unat m" "labels c ! unat k \<noteq> []"
    using rd by (simp_all add: mergeReady_def)
  note K = labelD [OF inv r(1,4)]
  have adj': "?off + ?Lk = unat (an_prefixOff ?nm)" using unat_off_add [OF inv K(2)] adj by simp
  have o4: "4 \<le> ?off" using K(4) sizes(1) by simp
  have u4: "unat (an_prefixOff ?nk - 4) = ?off - 4" using o4 by (simp add: unat_sub word_le_nat_alt)
  let ?a' = "writeBytes (?off - 4) ?x (ar_prefixArena c)"
  let ?n' = "putLabel (an_prefixOff ?nk) largePrefixSentinel (an_firstByte ?nk) ?nm"
  let ?c' = "c\<lparr>ar_prefixArena := ?a', ar_nodes := (ar_nodes c)[unat k := clearLabel 0 ?nk, unat m := ?n']\<rparr>"
  have b: "bare ?n' = bare ?nm" by (simp add: bare_def)
  note g = merge_ranges [OF inv rd adj', where a' = ?a' and n' = ?n']
  have "merged c (unat k) (unat m) ?c'"
    by (intro conjI; rule g) (use sizes b in \<open>simp_all add: lenField_def\<close>)
  moreover have "mergeLargeHead k m (?Lk + ?Lm) c = Inr ?c'"
  proof -
    have "sliceBytes (ar_prefixArena c) (unat (an_prefixOff ?nk - 4)) ?off = Inr (take 4 (drop (?off - 4) (ar_prefixArena c)))"
      using o4 K(2) by (simp add: sliceBytes_def u4)
    moreover have "copyToArena (an_prefixOff ?nk - 4) ?x c = Inr (c\<lparr>ar_prefixArena := ?a'\<rparr>)"
      using o4 K(2) by (simp add: copyToArena_def copyInto_def u4)
    ultimately show ?thesis
      using r by (simp add: mergeLargeHead_def updNode_def nodeAt_def list_update_swap [of "unat k"])
  qed
  ultimately show ?thesis by blast
qed

lemma attached_same:
  assumes att: "attached c" and inv: "prefixInv R e c" and inv': "prefixInv R' e' c'" and o: "outside c' = outside c"
    and nil: "\<And>i. i < length (ar_nodes c) \<Longrightarrow> labels c ! i = [] \<Longrightarrow> labels c' ! i = []"
  shows "attached c'"
proof -
  note s = outside_nodes [OF o]
  have "an_prefixLen (ar_nodes c' ! i) = 0 \<or> i = unat (ar_root c') \<or> an_parent (ar_nodes c' ! i) \<noteq> nilNode" if i: "i < length (ar_nodes c')" for i
  proof -
    have i0: "i < length (ar_nodes c)" using i s(1) by simp
    have p: "an_parent (ar_nodes c' ! i) = an_parent (ar_nodes c ! i)" using s(3) [OF i0] by (metis bare_sel(1))
    have "an_prefixLen (ar_nodes c' ! i) = 0" if "an_prefixLen (ar_nodes c ! i) = 0"
    proof -
      have "labels c ! i = []" using label_nil_iff [OF inv i0] that i0 by (simp add: labels_def)
      then have "labels c' ! i = []" by (rule nil [OF i0])
      then show ?thesis using label_nil_iff [OF inv' i] i by (simp add: labels_def)
    qed
    then show ?thesis using att i0 unfolding attached_def p s(2) by blast
  qed
  then show ?thesis using att s(1) unfolding attached_def by simp
qed

lemma labelBytes_update_le: "labelBytes (ls[i := s]) \<le> labelBytes ls + needFor (length s)"
proof (cases "i < length ls")
  case True
  show ?thesis using labelBytes_update [OF True, of s] by linarith
qed (simp add: not_less list_update_beyond)

lemma mergeShort_inv:
  assumes inv: "prefixInv noBytes 0 c" and att: "attached c" and rd: "mergeReady c (unat k) (unat m)"
    and room: "labelBytes (labels c) + needFor (length (labels c ! unat k) + length (labels c ! unat m)) \<le> maxPrefixArenaBytes"
  shows "\<exists>c'. mergeShort k m c = Inr c' \<and> merged c (unat k) (unat m) c'"
proof -
  let ?lk = "labels c ! unat k" and ?lm = "labels c ! unat m"
  have r: "unat k < length (ar_nodes c)" "unat m < length (ar_nodes c)" "unat k \<noteq> unat m"
    using rd by (simp_all add: mergeReady_def)
  have rdk: "nodePrefix c k = Inr ?lk" "nodePrefix c m = Inr ?lm"
    using nodePrefix_spec [OF inv r(1)] nodePrefix_spec [OF inv r(2)] r by (simp_all add: labels_def)
  obtain c1 where c1: "clearNodePrefix m c = Inr c1" "prefixInv noBytes 0 c1" "labels c1 = (labels c)[unat m := '''']" "outside c1 = outside c"
    using clearNodePrefix_inv [OF inv r(2)] by blast
  have k1: "unat k < length (ar_nodes c1)" using r outside_nodes(1) [OF c1(4)] by simp
  obtain c2 where c2: "clearNodePrefix k c1 = Inr c2" "prefixInv noBytes 0 c2" "labels c2 = (labels c1)[unat k := '''']" "outside c2 = outside c1"
    using clearNodePrefix_inv [OF c1(2) k1] by blast
  have o2: "outside c2 = outside c" using c1(4) c2(4) by simp
  have l2: "labels c2 = (labels c)[unat k := '''', unat m := '''']" using c1(3) c2(3) r(3) by (simp add: list_update_swap)
  have att2: "attached c2"
    by (rule attached_same [OF att inv c2(2) o2]) (use r in \<open>simp add: l2 nth_list_update\<close>)
  have m2: "unat m < length (ar_nodes c2)" using r outside_nodes(1) [OF o2] by simp
  have l': "(labels c2)[unat m := ?lk @ ?lm] = (labels c)[unat k := '''', unat m := ?lk @ ?lm]" by (simp add: l2)
  have "labelBytes ((labels c2)[unat m := ?lk @ ?lm]) \<le> maxPrefixArenaBytes"
    using room labelBytes_update_le [of "(labels c)[unat k := '''']" "unat m" "?lk @ ?lm"] labelBytes_update_le [of "labels c" "unat k" "''''"]
    unfolding l' by (simp add: needFor_def)
  then obtain c' where "setNodePrefix m (?lk @ ?lm) c2 = Inr c'" "prefixInv noBytes 0 c'"
    "labels c' = (labels c2)[unat m := ?lk @ ?lm]" "outside c' = outside c2"
    using setNodePrefix_inv [OF c2(2) att2 m2, of "?lk @ ?lm"] by auto
  then show ?thesis using outsideBut_cong [of c' c "unat k"] r(1) o2 l'
    by (intro exI [of _ c']) (simp add: mergeShort_def rdk c1(1) c2(1))
qed

subsection \<open>Merging by copying\<close>

lemma headerOk_keep:
  assumes "headerOk off pl a" "length b = length a" "off \<le> length a" "\<And>p. p < off \<Longrightarrow> b ! p = a ! p"
  shows "headerOk off pl b"
  unfolding headerOk_def
proof
  assume l: "largeMin \<le> pl"
  then have o: "4 \<le> off" "take 4 (drop (off - 4) a) = le_put32 (of_nat pl)" using assms(1) by (simp_all add: headerOk_def)
  have "take 4 (drop (off - 4) b) = take 4 (drop (off - 4) a)"
    by (rule take_drop_agree) (use assms(2-4) o(1) in auto)
  then show "4 \<le> off \<and> take 4 (drop (off - 4) b) = le_put32 (of_nat pl)" using o by simp
qed

lemma prefixCap_irrelevant:
  "prefixInv R e (c\<lparr>ar_prefixCap := x\<rparr>) = prefixInv R e c" "labels (c\<lparr>ar_prefixCap := x\<rparr>) = labels c"
  "outside (c\<lparr>ar_prefixCap := x\<rparr>) = outside c"
  by (simp_all add: prefixInv_def owners_def freeCov_def labels_def outside_def)

lemma appendBytes_twice: "\<exists>x. appendBytes s2 (appendBytes s1 c) = (appendBytes (s1 @ s2) c)\<lparr>ar_prefixCap := x\<rparr>"
  by (rule exI [of _ "ar_prefixCap (appendBytes s2 (appendBytes s1 c))"], rule arenaRadix.equality) (simp_all add: appendBytes_def Let_def)

definition givenLabel :: "'v arenaRadix \<Rightarrow> nat \<Rightarrow> string \<Rightarrow> 'v arenaRadix \<Rightarrow> bool" where
  \<comment> \<open>the bytes at \<open>off\<close> hold a label no node has yet\<close>
  "givenLabel c off s c1 \<longleftrightarrow> prefixInv (handCov off (length s)) 0 c1 \<and> labels c1 = labels c \<and> outside c1 = outside c
     \<and> headerOk off (length s) (ar_prefixArena c1) \<and> take (length s) (drop off (ar_prefixArena c1)) = s
     \<and> off + length s \<le> length (ar_prefixArena c1)"

lemma slice_label:
  assumes inv: "prefixInv R e c" and i: "i < length (ar_nodes c)" and ne: "labels c ! i \<noteq> []"
  shows "sliceBytes (ar_prefixArena c @ x) (unat (an_prefixOff (ar_nodes c ! i))) (unat (an_prefixOff (ar_nodes c ! i)) + length (labels c ! i))
    = Inr (labels c ! i)"
  using labelD(2,7) [OF inv i ne] by (simp add: sliceBytes_def)

lemma copyMerged_taken:
  assumes inv: "prefixInv (handCov (unat off) (length (labels c ! unat k) + length (labels c ! unat m))) 0 c" and rd: "mergeReady c (unat k) (unat m)"
    and hdr: "headerOk (unat off) (length (labels c ! unat k) + length (labels c ! unat m)) (ar_prefixArena c)"
    and fit: "unat off + (length (labels c ! unat k) + length (labels c ! unat m)) \<le> length (ar_prefixArena c)"
  shows "\<exists>c2 a. copyToArena off (labels c ! unat k) c = Inr c2 \<and>
     (\<exists>R. prefixInv R 0 c2) \<and> sameNodes c c2 \<and> copyInto (unat off + length (labels c ! unat k)) (labels c ! unat m) (ar_prefixArena c2) = Inr a \<and>
     givenLabel c (unat off) (labels c ! unat k @ labels c ! unat m) (c2\<lparr>ar_prefixArena := a\<rparr>)"
proof -
  let ?lk = "labels c ! unat k" and ?lm = "labels c ! unat m"
  let ?R = "handCov (unat off) (length ?lk + length ?lm)"
  have r: "?lk \<noteq> []" "?lm \<noteq> []" using rd by (simp_all add: mergeReady_def)
  have o4: "hdrLen (largeMin \<le> length ?lk + length ?lm) \<le> unat off" using hdr by (auto simp: headerOk_def hdrLen_def)
  have own: "1 \<le> ?R p" if "unat off \<le> p" "p < unat off + (length ?lk + length ?lm)" for p
    using that o4 by (simp add: handCov_def cov_def)
  have own1: "1 \<le> ?R p" if "unat off \<le> p" "p < unat off + length ?lk" for p by (rule own) (use that in auto)
  have own2: "1 \<le> ?R p" if "unat off + length ?lk \<le> p" "p < unat off + length ?lk + length ?lm" for p by (rule own) (use that in auto)
  note w1 = write_inv [where off = "unat off" and x = ?lk, OF inv own1 r(1)]
  let ?a1 = "writeBytes (unat off) ?lk (ar_prefixArena c)"
  let ?c2 = "c\<lparr>ar_prefixArena := ?a1\<rparr>"
  note w2 = write_inv [where off = "unat off + length ?lk" and x = ?lm, OF w1(2) own2 r(2), simplified]
  let ?a2 = "writeBytes (unat off + length ?lk) ?lm ?a1"
  have len: "length ?a2 = length (ar_prefixArena c)" "length ?a1 = length (ar_prefixArena c)" using w1(5) w2(5) by simp_all
  have below: "?a2 ! p = ar_prefixArena c ! p" if "p < unat off" for p
    using w1(6) [of p] w2(6) [of p] that fit len by simp
  have "take (length ?lk) (drop (unat off) ?a2) = take (length ?lk) (drop (unat off) ?a1)"
    by (rule take_drop_agree) (use w2(6) fit len in auto)
  then have "take (length ?lk + length ?lm) (drop (unat off) ?a2) = ?lk @ ?lm"
    using w1(7) w2(7) take_take_drop [of "length ?lk" "unat off" ?a2 "length ?lm"] by simp
  moreover have "headerOk (unat off) (length ?lk + length ?lm) ?a2"
    by (rule headerOk_keep [OF hdr len(1)]) (use fit below in auto)
  moreover have "sameNodes c (c\<lparr>ar_prefixArena := ?a2\<rparr>)" using sameNodes_trans [OF w1(3) w2(3)] by simp
  ultimately have "givenLabel c (unat off) (?lk @ ?lm) (?c2\<lparr>ar_prefixArena := ?a2\<rparr>)"
    using w2(2) fit len by (simp add: givenLabel_def sameNodes_def)
  then show ?thesis using w1(1,2,3) w2(1) by (intro exI [of _ ?c2] exI [of _ ?a2]) (auto simp: copyToArena_def)
qed

lemma mergeReady_same:
  "mergeReady c k m \<Longrightarrow> labels c' = labels c \<Longrightarrow> length (ar_nodes c') = length (ar_nodes c) \<Longrightarrow> mergeReady c' k m"
  by (simp add: mergeReady_def)

lemma copyMerged_inv:
  assumes inv: "prefixInv noBytes 0 c" and att: "attached c" and rd: "mergeReady c (unat k) (unat m)"
    and room: "labelBytes (labels c) + needFor (length (labels c ! unat k) + length (labels c ! unat m)) \<le> maxPrefixArenaBytes"
  shows "\<exists>c1 off. copyMergedPrefixBytesLocked k m (length (labels c ! unat k)) (length (labels c ! unat m))
       (length (labels c ! unat k) + length (labels c ! unat m)) (needFor (length (labels c ! unat k) + length (labels c ! unat m))) c
     = Inr (c1, off) \<and> givenLabel c (unat off) (labels c ! unat k @ labels c ! unat m) c1"
proof -
  let ?lk = "labels c ! unat k" and ?lm = "labels c ! unat m"
  let ?tot = "length ?lk + length ?lm"
  have r: "unat k < length (ar_nodes c)" "unat m < length (ar_nodes c)" "?lk \<noteq> []" "?lm \<noteq> []"
    using rd by (simp_all add: mergeReady_def)
  have pos: "0 < ?tot" using r(3) by simp
  from inv pos show ?thesis
  proof (cases rule: tryTake_inv)
    case (some c1 off)
    have same: "labels c1 = labels c" "outside c1 = outside c" "ar_nodes c1 = ar_nodes c" using some(2) by (simp_all add: sameNodes_def)
    have i1: "prefixInv (handCov (unat off) ?tot) 0 c1" using some(5) by simp
    have rd1: "mergeReady c1 (unat k) (unat m)" by (rule mergeReady_same [OF rd same(1)]) (simp add: same(3))
    obtain c2 a R where c2: "copyToArena off ?lk c1 = Inr c2" "prefixInv R 0 c2" "sameNodes c1 c2"
      "copyInto (unat off + length ?lk) ?lm (ar_prefixArena c2) = Inr a"
      "givenLabel c1 (unat off) (?lk @ ?lm) (c2\<lparr>ar_prefixArena := a\<rparr>)"
      using copyMerged_taken [OF _ rd1, unfolded same(1), OF i1 some(6,7)] by blast
    have s2: "labels c2 = labels c" "ar_nodes c2 = ar_nodes c" using c2(3) same by (simp_all add: sameNodes_def)
    have sk: "sliceBytes (ar_prefixArena c1) (unat (an_prefixOff (ar_nodes c ! unat k))) (unat (an_prefixOff (ar_nodes c ! unat k)) + length ?lk) = Inr ?lk"
      using slice_label [OF i1, of "unat k" "[]"] r by (simp add: same)
    have sm: "sliceBytes (ar_prefixArena c2) (unat (an_prefixOff (ar_nodes c ! unat m))) (unat (an_prefixOff (ar_nodes c ! unat m)) + length ?lm) = Inr ?lm"
      using slice_label [OF c2(2), of "unat m" "[]"] r by (simp add: s2)
    have nk: "nodeAt c1 k = Inr (ar_nodes c ! unat k)" "nodeAt c1 m = Inr (ar_nodes c ! unat m)" using r by (simp_all add: nodeAt_def same)
    have "copyMergedPrefixBytesLocked k m (length ?lk) (length ?lm) ?tot (needFor ?tot) c = Inr (c2\<lparr>ar_prefixArena := a\<rparr>, off)"
      unfolding copyMergedPrefixBytesLocked_def some(1) bindr_simps prod.case option.case nk sk c2(1) sm c2(4) ..
    moreover have "givenLabel c (unat off) (?lk @ ?lm) (c2\<lparr>ar_prefixArena := a\<rparr>)" using c2(5) same by (simp add: givenLabel_def)
    ultimately show ?thesis by blast
  next
    case none
    have "ar_livePrefixBytes c + int (needFor ?tot) \<le> int maxPrefixArenaBytes" using live_labels [OF inv] room by simp
    then obtain c2 where c2: "ensurePrefixArenaCap (needFor ?tot) c = Inr c2" "prefixInv noBytes 0 c2" "labels c2 = labels c"
      "outside c2 = outside c" "length (ar_prefixArena c2) + needFor ?tot \<le> maxPrefixArenaBytes"
      using ensure_inv [OF inv att, of "needFor ?tot"] by auto
    have ln: "length (ar_nodes c2) = length (ar_nodes c)" by (rule outside_nodes(1) [OF c2(4)])
    define c3 where "c3 = (if largeMin \<le> ?tot then appendBytes (le_put32 (of_nat ?tot)) c2 else c2)"
    obtain x y where a3: "ar_prefixArena c3 = ar_prefixArena c2 @ x" "ar_prefixArena (appendBytes ?lk c3) = ar_prefixArena c2 @ y"
      by (cases "largeMin \<le> ?tot") (auto simp: c3_def appendBytes_def Let_def)
    have sk: "sliceBytes (ar_prefixArena c3) (unat (an_prefixOff (ar_nodes c2 ! unat k))) (unat (an_prefixOff (ar_nodes c2 ! unat k)) + length ?lk) = Inr ?lk"
      using slice_label [OF c2(2), of "unat k" x] r by (simp add: c2(3) a3(1) ln)
    have sm: "sliceBytes (ar_prefixArena (appendBytes ?lk c3)) (unat (an_prefixOff (ar_nodes c2 ! unat m))) (unat (an_prefixOff (ar_nodes c2 ! unat m)) + length ?lm) = Inr ?lm"
      using slice_label [OF c2(2), of "unat m" y] r by (simp add: c2(3) a3(2) ln)
    have nk: "nodeAt c2 k = Inr (ar_nodes c2 ! unat k)" "nodeAt c2 m = Inr (ar_nodes c2 ! unat m)" using r by (simp_all add: nodeAt_def ln)
    obtain z where z: "appendBytes ?lm (appendBytes ?lk c3) = (appendBytes (?lk @ ?lm) c3)\<lparr>ar_prefixCap := z\<rparr>" using appendBytes_twice by blast
    have push: "appendBytes (?lk @ ?lm) c3 = pushLabel (?lk @ ?lm) c2" by (simp add: pushLabel_def c3_def)
    have "copyMergedPrefixBytesLocked k m (length ?lk) (length ?lm) ?tot (needFor ?tot) c
        = Inr ((pushLabel (?lk @ ?lm) c2)\<lparr>ar_prefixCap := z\<rparr>, arenaEnd c3)"
      unfolding copyMergedPrefixBytesLocked_def none bindr_simps prod.case option.case c2(1) nk Let_def c3_def [symmetric] sk sm z push ..
    moreover have "givenLabel c (unat (arenaEnd c3)) (?lk @ ?lm) ((pushLabel (?lk @ ?lm) c2)\<lparr>ar_prefixCap := z\<rparr>)"
    proof -
      have fit: "length (ar_prefixArena c2) + needFor (length (?lk @ ?lm)) \<le> maxPrefixArenaBytes" using c2(5) by simp
      note p = pushLabel_inv [OF c2(2) fit, unfolded length_append, folded c3_def]
      show ?thesis unfolding givenLabel_def prefixCap_irrelevant length_append
        using p(1-5) c2(3,4) by (simp add: sameNodes_def)
    qed
    ultimately show ?thesis by blast
  qed
qed

lemma release_label:
  assumes inv: "prefixInv (plus (handCov (unat off) L) Q) (needFor L + f) c" and L: "0 < L" and big: "large \<longleftrightarrow> largeMin \<le> L"
    and o4: "largeMin \<le> L \<Longrightarrow> 4 \<le> unat off"
  shows "\<exists>c'. releasePrefixSpanLocked off L large flags c = Inr c' \<and> prefixInv Q f c' \<and> sameNodes c c'"
proof -
  have inv': "prefixInv (plus (cov (unat off - hdrLen large) (L + hdrLen large)) Q) (L + hdrLen large + f) c"
    using inv by (simp add: handCov_def needFor_hdr big)
  show ?thesis using release_inv [OF inv' refl L, of flags] o4 big by blast
qed

lemma merge_settle:
  assumes g: "givenLabel c (unat off) (labels c ! k @ labels c ! m) c1" and rd: "mergeReady c k m"
  defines "nk \<equiv> ar_nodes c1 ! k" and "nm \<equiv> ar_nodes c1 ! m" and "tot \<equiv> length (labels c ! k) + length (labels c ! m)"
  defines "n' \<equiv> (putLabel off (lenField tot) (ar_prefixArena c1 ! unat off) nm)\<lparr>an_prefixFlags := an_prefixFlags nm AND NOT prefixFlagPinned\<rparr>"
  defines "c' \<equiv> c1\<lparr>ar_nodes := (ar_nodes c1)[k := clearLabel 0 nk, m := n'], ar_livePrefixBytes := ar_livePrefixBytes c1 + int (needFor tot)\<rparr>"
  shows "prefixInv (plus (handCov (unat (an_prefixOff nm)) (length (labels c ! m))) (handCov (unat (an_prefixOff nk)) (length (labels c ! k))))
      (needFor (length (labels c ! m)) + needFor (length (labels c ! k))) c'"
    "labels c' = (labels c)[k := [], m := labels c ! k @ labels c ! m]" "outsideBut k c' = outsideBut k c"
proof -
  let ?lk = "labels c ! k" and ?lm = "labels c ! m"
  have tot: "length (?lk @ ?lm) = tot" by (simp add: tot_def)
  note g' = g [unfolded givenLabel_def tot]
  have inv: "prefixInv (handCov (unat off) tot) 0 c1" and same: "labels c1 = labels c" "outside c1 = outside c" using g' by simp_all
  have ln: "length (ar_nodes c1) = length (ar_nodes c)" by (rule outside_nodes(1) [OF same(2)])
  have rd1: "mergeReady c1 k m" by (rule mergeReady_same [OF rd same(1) ln])
  have r: "k < length (ar_nodes c1)" "m < length (ar_nodes c1)" "k \<noteq> m" "0 < tot" using rd1 by (simp_all add: mergeReady_def tot_def same(1))
  define v where "v = c1\<lparr>ar_nodes := (ar_nodes c1)[k := clearLabel 0 nk, m := bare nm]\<rparr>"
  let ?R = "plus (handCov (unat (an_prefixOff nm)) (length ?lm)) (handCov (unat (an_prefixOff nk)) (length ?lk))"
  note u = unsettle_both [OF inv rd1, unfolded same(1), folded nk_def nm_def, folded v_def]
  have i1: "prefixInv (plus ?R (handCov (unat off) tot)) (needFor (length ?lm) + needFor (length ?lk)) v"
    by (subst prefixInv_cong [where Q = "plus (handCov (unat (an_prefixOff nm)) (length ?lm))
          (plus (handCov (unat (an_prefixOff nk)) (length ?lk)) (handCov (unat off) tot))"]) (use u(1) in simp_all)
  have cv: "c' = v\<lparr>ar_nodes := (ar_nodes v)[m := n'], ar_livePrefixBytes := ar_livePrefixBytes v + int (needFor tot)\<rparr>"
    by (simp add: c'_def v_def)
  have mv: "m < length (ar_nodes v)" "an_prefixLen (ar_nodes v ! m) = 0" using r by (simp_all add: v_def)
  have hdr: "headerOk (unat off) tot (ar_prefixArena v)" "unat off + tot \<le> length (ar_prefixArena v)"
    "take tot (drop (unat off) (ar_prefixArena v)) = ?lk @ ?lm"
    using g' by (simp_all add: v_def)
  have n': "unat (an_prefixOff n') = unat off" "an_prefixLen n' = lenField tot" "an_firstByte n' = ar_prefixArena v ! unat off"
    by (simp_all add: n'_def v_def)
  note s = settle_inv [OF i1 r(4) mv hdr(1,2) n' cv]
  show "prefixInv ?R (needFor (length ?lm) + needFor (length ?lk)) c'" using s by simp
  show "labels c' = (labels c)[k := [], m := ?lk @ ?lm]" using s u(2) hdr(3) by simp
  have "outsideBut k c' = outsideBut k c1"
    by (rule outsideBut_two [of c' c1 k "clearLabel 0 nk" m n']) (use r in \<open>simp_all add: c'_def nk_def n'_def nm_def bare_def outside_def\<close>)
  also have "\<dots> = outsideBut k c" by (rule outsideBut_cong [OF same(2)]) (use r ln in simp)
  finally show "outsideBut k c' = outsideBut k c" .
qed

lemma mergeCopy_inv:
  assumes inv: "prefixInv noBytes 0 c" and att: "attached c" and rd: "mergeReady c (unat k) (unat m)"
    and room: "labelBytes (labels c) + needFor (length (labels c ! unat k) + length (labels c ! unat m)) \<le> maxPrefixArenaBytes"
  shows "\<exists>c'. mergeCopy k m (length (labels c ! unat k)) (length (labels c ! unat m)) c = Inr c' \<and> merged c (unat k) (unat m) c'"
proof -
  let ?lk = "labels c ! unat k" and ?lm = "labels c ! unat m"
  define tot where "tot = length ?lk + length ?lm"
  obtain c1 off where c1: "copyMergedPrefixBytesLocked k m (length ?lk) (length ?lm) tot (needFor tot) c = Inr (c1, off)"
    "givenLabel c (unat off) (?lk @ ?lm) c1" using copyMerged_inv [OF inv att rd room] unfolding tot_def by blast
  define nk nm where "nk = ar_nodes c1 ! unat k" and "nm = ar_nodes c1 ! unat m"
  define n' where "n' = (putLabel off (lenField tot) (ar_prefixArena c1 ! unat off) nm)\<lparr>an_prefixFlags := an_prefixFlags nm AND NOT prefixFlagPinned\<rparr>"
  define c2 where "c2 = c1\<lparr>ar_nodes := (ar_nodes c1)[unat k := clearLabel 0 nk, unat m := n'], ar_livePrefixBytes := ar_livePrefixBytes c1 + int (needFor tot)\<rparr>"
  note s = merge_settle [OF c1(2) rd, folded tot_def nk_def nm_def, folded n'_def, folded c2_def]
  have g: "prefixInv (handCov (unat off) tot) 0 c1" "labels c1 = labels c" "outside c1 = outside c" "unat off + tot \<le> length (ar_prefixArena c1)"
    using c1(2) by (simp_all add: givenLabel_def tot_def)
  have ln: "length (ar_nodes c1) = length (ar_nodes c)" by (rule outside_nodes(1) [OF g(3)])
  have r: "unat k < length (ar_nodes c1)" "unat m < length (ar_nodes c1)" "unat k \<noteq> unat m" "labels c1 ! unat k \<noteq> []" "labels c1 ! unat m \<noteq> []"
    "0 < tot" using rd ln by (simp_all add: mergeReady_def g(2) tot_def)
  note K = labelD [OF g(1) r(1,4), folded nk_def, unfolded g(2)] and M = labelD [OF g(1) r(2,5), folded nm_def, unfolded g(2)]
  obtain c3 where c3: "releasePrefixSpanLocked (an_prefixOff nm) (length ?lm) (isLargePrefix nm) (an_prefixFlags nm) c2 = Inr c3"
    "prefixInv (handCov (unat (an_prefixOff nk)) (length ?lk)) (needFor (length ?lk)) c3" "sameNodes c2 c3"
    using release_label [OF s(1) M(10,3,4)] by blast
  have i3: "prefixInv (plus (handCov (unat (an_prefixOff nk)) (length ?lk)) noBytes) (needFor (length ?lk) + 0) c3" using c3(2) by simp
  obtain c4 where c4: "releasePrefixSpanLocked (an_prefixOff nk) (length ?lk) (isLargePrefix nk) (an_prefixFlags nk) c3 = Inr c4"
    "prefixInv noBytes 0 c4" "sameNodes c3 c4"
    using release_label [OF i3 K(10,3,4)] by blast
  have same: "labels c4 = labels c2" "outside c4 = outside c2" using c3(3) c4(3) by (simp_all add: sameNodes_def)
  have "outsideBut (unat k) c4 = outsideBut (unat k) c2"
    by (rule outsideBut_cong [OF same(2)]) (use r in \<open>simp add: c2_def\<close>)
  then have "merged c (unat k) (unat m) c4" using c4(2) same(1) s(2,3) by simp
  moreover have "mergeCopy k m (length ?lk) (length ?lm) c = Inr c4"
  proof -
    let ?d = "c1\<lparr>ar_nodes := (ar_nodes c1)[unat k := clearLabel 0 nk]\<rparr>"
    have at: "nodeAt c1 k = Inr nk" "nodeAt c1 m = Inr nm" using r by (simp_all add: nodeAt_def nk_def nm_def)
    have u1: "updNode k (clearLabel 0) c1 = Inr ?d" by (simp add: updNode_def at)
    have b: "byteAt (ar_prefixArena ?d) (unat off) = Inr (ar_prefixArena c1 ! unat off)"
      using g(4) r(6) by (simp add: byteAt_def)
    have u2: "updNode m (\<lambda>n. (putLabel off (if largeMin \<le> tot then largePrefixSentinel else of_nat tot) (ar_prefixArena c1 ! unat off) n)
             \<lparr>an_prefixFlags := an_prefixFlags nm AND NOT prefixFlagPinned\<rparr>) ?d
        = Inr (c1\<lparr>ar_nodes := (ar_nodes c1)[unat k := clearLabel 0 nk, unat m := n']\<rparr>)"
      using r by (simp add: updNode_def nodeAt_def n'_def lenField_def nm_def)
    have c2: "(c1\<lparr>ar_nodes := (ar_nodes c1)[unat k := clearLabel 0 nk, unat m := n']\<rparr>)\<lparr>ar_livePrefixBytes :=
        ar_livePrefixBytes (c1\<lparr>ar_nodes := (ar_nodes c1)[unat k := clearLabel 0 nk, unat m := n']\<rparr>) + int (needFor tot)\<rparr> = c2"
      by (simp add: c2_def)
    show ?thesis
      unfolding mergeCopy_def Let_def tot_def [symmetric] needFor_def [symmetric] c1(1) bindr_simps prod.case at u1 b u2 c2 c3(1) c4(1) ..
  qed
  ultimately show ?thesis by blast
qed

lemma mergeNodePrefixes_inv:
  assumes inv: "prefixInv noBytes 0 c" and att: "attached c" and rd: "mergeReady c (unat k) (unat m)"
    and room: "labelBytes (labels c) + needFor (length (labels c ! unat k) + length (labels c ! unat m)) \<le> maxPrefixArenaBytes"
  shows "\<exists>c'. mergeNodePrefixesLocked k m c = Inr c' \<and> merged c (unat k) (unat m) c'"
proof -
  let ?lk = "labels c ! unat k" and ?lm = "labels c ! unat m" and ?nk = "ar_nodes c ! unat k" and ?nm = "ar_nodes c ! unat m"
  have r: "unat k < length (ar_nodes c)" "unat m < length (ar_nodes c)" "?lk \<noteq> []" "?lm \<noteq> []" using rd by (simp_all add: mergeReady_def)
  have at: "nodeAt c k = Inr ?nk" "nodeAt c m = Inr ?nm" using r by (simp_all add: nodeAt_def)
  note K = labelD [OF inv r(1,3)] and M = labelD [OF inv r(2,4)]
  have lens: "nodePrefixLen c k = Inr (length ?lk)" "nodePrefixLen c m = Inr (length ?lm)"
    using nodePrefixLen_spec [OF inv r(1)] nodePrefixLen_spec [OF inv r(2)] K(1) M(1) by simp_all
  let ?combined = "unat (an_prefixLen ?nk) + unat (an_prefixLen ?nm)"
  let ?short = "an_prefixLen ?nk < largePrefixSentinel \<and> an_prefixLen ?nm < largePrefixSentinel"
  have short: "length ?lk < largeMin \<and> length ?lm < largeMin \<and> ?combined = length ?lk + length ?lm" if ?short
    using that K(3,9) M(3,9) by (auto simp: not_large_less not_le)
  let ?A = "?short \<and> ?combined < largeMin \<and> an_prefixOff ?nk + ucast (an_prefixLen ?nk) = an_prefixOff ?nm"
  let ?B = "?short \<and> ?combined \<le> 512"
  let ?C = "isLargePrefix ?nk \<and> an_prefixLen ?nm < largePrefixSentinel
              \<and> an_prefixOff ?nk + of_nat (length ?lk) = an_prefixOff ?nm \<and> \<not> an_pinned ?nk \<and> \<not> ar_prefixExposed c"
  consider (a) ?A | (b) "\<not> ?A" ?B | (h) "\<not> ?A" "\<not> ?B" ?C | (o) "\<not> ?A" "\<not> ?B" "\<not> ?C" by blast
  then show ?thesis
  proof cases
    case a
    have run: "mergeNodePrefixesLocked k m c = mergeInPlace k m ?combined c"
      unfolding mergeNodePrefixesLocked_def at bindr_simps Let_def if_P [OF a] ..
    have "(ucast (an_prefixLen ?nk) :: u32) = of_nat (length ?lk)"
    proof -
      have "unat (an_prefixLen ?nk) = length ?lk" using K(9) short a by blast
      then show ?thesis by (metis of_nat_unat)
    qed
    then show ?thesis using mergeInPlace_inv [OF inv rd] short a unfolding run by simp
  next
    case b
    have "mergeNodePrefixesLocked k m c = mergeShort k m c"
      unfolding mergeNodePrefixesLocked_def at bindr_simps Let_def if_not_P [OF b(1)] if_P [OF b(2)] ..
    then show ?thesis using mergeShort_inv [OF inv att rd room] by simp
  next
    case h
    have run: "mergeNodePrefixesLocked k m c = mergeLargeHead k m (length ?lk + length ?lm) c"
      unfolding mergeNodePrefixesLocked_def at lens bindr_simps Let_def if_not_P [OF h(1)] if_not_P [OF h(2)] if_P [OF h(3)] ..
    show ?thesis unfolding run
      by (rule mergeLargeHead_inv [OF inv rd]) (use h(3) K(3) M(3) in \<open>auto simp: not_large_less not_le\<close>)
  next
    case o
    have "mergeNodePrefixesLocked k m c = mergeCopy k m (length ?lk) (length ?lm) c"
      unfolding mergeNodePrefixesLocked_def at lens bindr_simps Let_def if_not_P [OF o(1)] if_not_P [OF o(2)] if_not_P [OF o(3)] ..
    then show ?thesis using mergeCopy_inv [OF inv att rd room] by simp
  qed
qed

end
