(* ===== verification/ArenaKey.thy ===== *)
theory ArenaKey
  imports ArenaMerge
begin

text \<open>
  The full key of a node of \<^verbatim>\<open>arena_radix.go\<close>, which is spread over the labels of its ancestors: \<open>fillNodeKeyBuf\<close>,
  \<open>reconstructKey\<close>, \<open>hashNodeKey\<close> and \<open>verifyKey\<close> climb from the node to the root. The node records the length of its
  key in 17 bits; the shortcuts these functions take on it are shown to agree with the key.
  \<open>maphash\<close> is the function \<open>ar_hash\<close>: writing strings to a \<open>maphash.Hash\<close> and summing is the hash of their
  concatenation, as the package documents.
\<close>

unbundle bit_operations_syntax

subsection \<open>The functions\<close>

definition copyFrom :: "nat \<Rightarrow> string \<Rightarrow> string \<Rightarrow> string" where
  \<comment> \<open>\<open>copy(buf[pos:], p)\<close>\<close>
  "copyFrom pos p buf = take pos buf @ take (length buf - pos) p @ drop (pos + length p) buf"

partial_function (option) fillNodeKeyLoop :: "'v arenaRadix \<Rightarrow> u32 \<Rightarrow> nat \<Rightarrow> string \<Rightarrow> (string \<times> bool) res option" where
  "fillNodeKeyLoop c nodeID pos buf = (if nodeID \<noteq> ar_root c \<and> nodeID \<noteq> nilNode
     then (case bindr (nodePrefix c nodeID) (\<lambda>p. bindr (nodeAt c nodeID) (\<lambda>n. Inr (p, n))) of
         Inl e \<Rightarrow> Some (Inl e)
       | Inr (p, n) \<Rightarrow> if pos < length p then Some (Inr (buf, False))
           else fillNodeKeyLoop c (an_parent n) (pos - length p) (copyFrom (pos - length p) p buf))
     else Some (Inr (buf, pos = 0 \<and> nodeID = ar_root c)))"

definition fillNodeKeyBuf :: "u32 \<Rightarrow> nat \<Rightarrow> string \<Rightarrow> 'v arenaRadix \<Rightarrow> (string \<times> bool) res" where
  "fillNodeKeyBuf nodeID totalLen buf c = of_loop (fillNodeKeyLoop c nodeID totalLen buf)"

partial_function (option) exactLenLoop :: "'v arenaRadix \<Rightarrow> u32 \<Rightarrow> nat \<Rightarrow> nat res option" where
  "exactLenLoop c curID exactLen = (if curID \<noteq> ar_root c \<and> curID \<noteq> nilNode
     then (case bindr (nodePrefixLen c curID) (\<lambda>l. bindr (nodeAt c curID) (\<lambda>n. Inr (l, n))) of
         Inl e \<Rightarrow> Some (Inl e)
       | Inr (l, n) \<Rightarrow> exactLenLoop c (an_parent n) (exactLen + l))
     else Some (Inr exactLen))"

abbreviation zeroBytes :: "nat \<Rightarrow> string" where
  \<comment> \<open>\<open>make([]byte, n)\<close>\<close>
  "zeroBytes n \<equiv> replicate n (CHR 0x00)"

definition reconstructExact :: "u32 \<Rightarrow> 'v arenaRadix \<Rightarrow> string res" where
  "reconstructExact nodeID c = bindr (of_loop (exactLenLoop c nodeID 0)) (\<lambda>exactLen.
     bindr (fillNodeKeyBuf nodeID exactLen (zeroBytes exactLen) c) (\<lambda>(buf, _). Inr buf))"

definition arena_reconstructKey :: "u32 \<Rightarrow> 'v arenaRadix \<Rightarrow> string res" where
  "arena_reconstructKey nodeID c = (if nodeID = nilNode \<or> nodeID = ar_root c then Inr ''''
     else bindr (nodeAt c nodeID) (\<lambda>n.
       if an_parent n = ar_root c then nodePrefix c nodeID
       else let totalLen = an_keyLen n in
         if 0 < totalLen \<and> totalLen < unat nodeKeyLenMask
         then bindr (fillNodeKeyBuf nodeID totalLen (zeroBytes totalLen) c) (\<lambda>(buf, ok).
           if ok then Inr buf else reconstructExact nodeID c)
         else reconstructExact nodeID c))"

definition hashKey :: "string \<Rightarrow> 'v arenaRadix \<Rightarrow> u64" where
  "hashKey key c = ar_hash c key"

partial_function (option) ancestorLoop :: "'v arenaRadix \<Rightarrow> u32 \<Rightarrow> u32 list \<Rightarrow> u32 list res option" where
  "ancestorLoop c curID path = (if curID \<noteq> ar_root c \<and> curID \<noteq> nilNode
     then (case nodeAt c curID of Inl e \<Rightarrow> Some (Inl e)
       | Inr n \<Rightarrow> ancestorLoop c (an_parent n) (path @ [curID]))
     else Some (Inr path))"

fun writeLabels :: "'v arenaRadix \<Rightarrow> u32 list \<Rightarrow> string \<Rightarrow> string res" where
  \<comment> \<open>the bytes written to the \<open>maphash.Hash\<close>\<close>
  "writeLabels c [] h = Inr h"
| "writeLabels c (k # ks) h = bindr (nodePrefix c k) (\<lambda>p. writeLabels c ks (h @ p))"

definition hashNodeKeyStream :: "u32 \<Rightarrow> 'v arenaRadix \<Rightarrow> u64 res" where
  "hashNodeKeyStream nodeID c = bindr (of_loop (ancestorLoop c nodeID [])) (\<lambda>path.
     bindr (writeLabels c (rev path) '''') (\<lambda>h. Inr (ar_hash c h)))"

definition hashNodeKeyLarge :: "u32 \<Rightarrow> nat \<Rightarrow> 'v arenaRadix \<Rightarrow> u64 res" where
  "hashNodeKeyLarge nodeID totalLen c = (if 0 < totalLen \<and> totalLen \<le> 512
     then bindr (fillNodeKeyBuf nodeID totalLen (zeroBytes totalLen) c) (\<lambda>(buf, ok).
       if ok then Inr (hashKey buf c) else hashNodeKeyStream nodeID c)
     else hashNodeKeyStream nodeID c)"

definition hashNodeKeyFill :: "u32 \<Rightarrow> nat \<Rightarrow> 'v arenaRadix \<Rightarrow> u64 res" where
  \<comment> \<open>the rest of \<open>hashNodeKey\<close> when the two-label shortcut does not apply\<close>
  "hashNodeKeyFill nodeID totalLen c = bindr (fillNodeKeyBuf nodeID totalLen (zeroBytes totalLen) c) (\<lambda>(buf, ok).
     if ok then Inr (hashKey buf c) else hashNodeKeyLarge nodeID totalLen c)"

definition hashNodeKey :: "u32 \<Rightarrow> 'v arenaRadix \<Rightarrow> u64 res" where
  "hashNodeKey nodeID c = (if nodeID = nilNode \<or> nodeID = ar_root c then Inr (hashKey '''' c)
     else bindr (nodeAt c nodeID) (\<lambda>n. let p1 = an_parent n in
       if p1 = ar_root c then bindr (nodePrefix c nodeID) (\<lambda>p. Inr (hashKey p c))
       else let totalLen = an_keyLen n in
         if 0 < totalLen \<and> totalLen \<le> 64
         then bindr (nodePrefix c nodeID) (\<lambda>s0.
           bindr (if p1 \<noteq> nilNode then bindr (nodeAt c p1) (\<lambda>m. Inr (an_parent m = ar_root c)) else Inr False) (\<lambda>two.
           if two then bindr (nodePrefix c p1) (\<lambda>s1.
               if length s1 + length s0 = totalLen then Inr (hashKey (s1 @ s0) c) else hashNodeKeyFill nodeID totalLen c)
           else hashNodeKeyFill nodeID totalLen c))
         else hashNodeKeyLarge nodeID totalLen c))"

partial_function (option) verifyLoop :: "'v arenaRadix \<Rightarrow> string \<Rightarrow> u32 \<Rightarrow> nat \<Rightarrow> bool res option" where
  "verifyLoop c key nodeID end' = (if nodeID \<noteq> ar_root c \<and> nodeID \<noteq> nilNode
     then (case bindr (nodePrefix c nodeID) (\<lambda>p. bindr (nodeAt c nodeID) (\<lambda>n. Inr (p, n))) of
         Inl e \<Rightarrow> Some (Inl e)
       | Inr (p, n) \<Rightarrow> if end' < length p \<or> take (length p) (drop (end' - length p) key) \<noteq> p then Some (Inr False)
           else verifyLoop c key (an_parent n) (end' - length p))
     else Some (Inr (end' = 0 \<and> nodeID = ar_root c)))"

definition verifyKey :: "u32 \<Rightarrow> string \<Rightarrow> 'v arenaRadix \<Rightarrow> bool res" where
  "verifyKey nodeID key c = bindr (nodeAt c nodeID) (\<lambda>n. let
     expectedKL = (of_nat (min (length key) (unat nodeKeyLenMask)) :: u32)
     in if an_keyLenAndFlags n AND nodeKeyLenMask \<noteq> expectedKL then Inr False
        else if an_parent n = ar_root c then bindr (nodePrefix c nodeID) (\<lambda>p. Inr (key = p))
        else of_loop (verifyLoop c key nodeID (length key)))"

subsection \<open>Climbing to the root\<close>

inductive climb :: "'v arenaRadix \<Rightarrow> u32 \<Rightarrow> u32 list \<Rightarrow> bool" for c where
  top: "ar_root c \<noteq> nilNode \<Longrightarrow> climb c (ar_root c) []"
| up: "k \<noteq> ar_root c \<Longrightarrow> k \<noteq> nilNode \<Longrightarrow> unat k < length (ar_nodes c) \<Longrightarrow>
    climb c (an_parent (ar_nodes c ! unat k)) ks \<Longrightarrow> climb c k (k # ks)"

inductive_cases climb_cases: "climb c k ks"

definition pathKey :: "'v arenaRadix \<Rightarrow> u32 list \<Rightarrow> string" where
  "pathKey c ks = concat (map (\<lambda>k. labels c ! unat k) (rev ks))"

lemma pathKey_simps [simp]: "pathKey c [] = ''''" "pathKey c (k # ks) = pathKey c ks @ labels c ! unat k"
  by (simp_all add: pathKey_def)

lemma climb_root: "climb c (ar_root c) ks \<Longrightarrow> ks = []"
  by (auto elim: climb_cases)

lemma climb_not_nil: "climb c k ks \<Longrightarrow> k \<noteq> nilNode"
  by (auto elim: climb_cases)

lemma climb_step:
  assumes "climb c k ks" "k \<noteq> ar_root c"
  obtains ks' where "ks = k # ks'" "unat k < length (ar_nodes c)" "climb c (an_parent (ar_nodes c ! unat k)) ks'" "k \<noteq> nilNode"
  using assms by (auto elim: climb_cases)

lemma climb_unique: "climb c k ks \<Longrightarrow> climb c k ks' \<Longrightarrow> ks' = ks"
proof (induction arbitrary: ks' rule: climb.induct)
  case (up k ks)
  from up.prems up.hyps(1) show ?case by (rule climb_step) (use up.IH in blast)
qed (rule climb_root)

lemma label_read:
  assumes "prefixInv R e c" "unat k < length (ar_nodes c)"
  shows "nodePrefix c k = Inr (labels c ! unat k)" "nodeAt c k = Inr (ar_nodes c ! unat k)"
    "nodePrefixLen c k = Inr (length (labels c ! unat k))"
  using nodePrefix_spec [OF assms] nodePrefixLen_spec [OF assms] label_len [OF assms] assms(2)
  by (simp_all add: labels_def nodeAt_def)

lemma fill_spec:
  assumes inv: "prefixInv R e c" and p: "climb c k ks" and pos: "pos \<le> length buf"
  shows "\<exists>b. fillNodeKeyLoop c k pos buf = Some (Inr (b, length (pathKey c ks) = pos))
     \<and> (length (pathKey c ks) = pos \<longrightarrow> b = pathKey c ks @ drop pos buf)"
  using p pos
proof (induction arbitrary: pos buf rule: climb.induct)
  case top
  then show ?case by (subst fillNodeKeyLoop.simps) auto
next
  case (up k ks)
  let ?l = "labels c ! unat k"
  note rd = label_read [OF inv up.hyps(3)]
  show ?case
  proof (cases "pos < length ?l")
    case True
    then show ?thesis using up.hyps(1,2) by (subst fillNodeKeyLoop.simps) (simp add: rd)
  next
    case False
    let ?b = "copyFrom (pos - length ?l) ?l buf"
    have b: "length ?b = length buf" "drop (pos - length ?l) ?b = ?l @ drop pos buf"
      using False up.prems by (simp_all add: copyFrom_def)
    obtain b where i: "fillNodeKeyLoop c (an_parent (ar_nodes c ! unat k)) (pos - length ?l) ?b
        = Some (Inr (b, length (pathKey c ks) = pos - length ?l))"
      "length (pathKey c ks) = pos - length ?l \<longrightarrow> b = pathKey c ks @ drop (pos - length ?l) ?b"
    proof -
      have "pos - length ?l \<le> length ?b" using up.prems b(1) by simp
      from up.IH [OF this] show ?thesis by (elim exE conjE) (rule that)
    qed
    have "fillNodeKeyLoop c k pos buf = Some (Inr (b, length (pathKey c ks) = pos - length ?l))"
      using up.hyps(1,2) False i(1) by (subst fillNodeKeyLoop.simps) (simp add: rd)
    moreover have "length (pathKey c ks) = pos - length ?l \<longleftrightarrow> length (pathKey c (k # ks)) = pos" using False by auto
    ultimately show ?thesis using i(2) b(2) by simp
  qed
qed

lemma fillBuf_spec:
  assumes inv: "prefixInv R e c" and p: "climb c k ks"
  shows "\<exists>b. fillNodeKeyBuf k n (zeroBytes n) c = Inr (b, length (pathKey c ks) = n) \<and> (length (pathKey c ks) = n \<longrightarrow> b = pathKey c ks)"
  using fill_spec [OF inv p, of n "zeroBytes n"] by (auto simp: fillNodeKeyBuf_def)

lemma exactLen_spec:
  assumes inv: "prefixInv R e c" and p: "climb c k ks"
  shows "exactLenLoop c k acc = Some (Inr (acc + length (pathKey c ks)))"
  using p
proof (induction arbitrary: acc rule: climb.induct)
  case top
  then show ?case by (subst exactLenLoop.simps) simp
next
  case (up k ks)
  then show ?case by (subst exactLenLoop.simps) (simp add: label_read [OF inv up.hyps(3)])
qed

lemma reconstructExact_spec:
  assumes inv: "prefixInv R e c" and p: "climb c k ks"
  shows "reconstructExact k c = Inr (pathKey c ks)"
  using fillBuf_spec [OF inv p, of "length (pathKey c ks)"] exactLen_spec [OF inv p, of 0]
  by (auto simp: reconstructExact_def)

lemma arenaReconstructKey_spec:
  assumes inv: "prefixInv R e c" and p: "climb c k ks"
  shows "arena_reconstructKey k c = Inr (pathKey c ks)"
proof (cases "k = ar_root c")
  case True
  then have "ks = []" using climb_root p by metis
  then show ?thesis using True by (simp add: arena_reconstructKey_def)
next
  case False
  from p False obtain ks' where ks: "ks = k # ks'" "unat k < length (ar_nodes c)" "climb c (an_parent (ar_nodes c ! unat k)) ks'" "k \<noteq> nilNode"
    by (rule climb_step)
  note rd = label_read [OF inv ks(2)] and ex = reconstructExact_spec [OF inv p]
  let ?n = "an_keyLen (ar_nodes c ! unat k)"
  show ?thesis
  proof (cases "an_parent (ar_nodes c ! unat k) = ar_root c")
    case True
    then have "ks' = []" using climb_root ks(3) by metis
    then show ?thesis using True False ks by (simp add: arena_reconstructKey_def rd)
  next
    case deep: False
    then show ?thesis using False ks(4) fillBuf_spec [OF inv p, of ?n]
      by (auto simp: arena_reconstructKey_def rd Let_def ex)
  qed
qed

lemma ancestor_spec:
  assumes p: "climb c k ks"
  shows "ancestorLoop c k acc = Some (Inr (acc @ ks))"
  using p
proof (induction arbitrary: acc rule: climb.induct)
  case top
  then show ?case by (subst ancestorLoop.simps) simp
next
  case (up k ks)
  then show ?case by (subst ancestorLoop.simps) (simp add: nodeAt_def)
qed

lemma climb_in: "climb c k ks \<Longrightarrow> i \<in> set ks \<Longrightarrow> unat i < length (ar_nodes c)"
  by (induction rule: climb.induct) auto

lemma writeLabels_spec:
  assumes inv: "prefixInv R e c" and ks: "\<And>i. i \<in> set ks \<Longrightarrow> unat i < length (ar_nodes c)"
  shows "writeLabels c ks h = Inr (h @ concat (map (\<lambda>k. labels c ! unat k) ks))"
  using ks by (induction ks arbitrary: h) (simp_all add: label_read(1) [OF inv])

lemma hashStream_spec:
  assumes inv: "prefixInv R e c" and p: "climb c k ks"
  shows "hashNodeKeyStream k c = Inr (ar_hash c (pathKey c ks))"
  using writeLabels_spec [OF inv, of "rev ks" "''''"] climb_in [OF p] ancestor_spec [OF p, of "[]"]
  by (simp add: hashNodeKeyStream_def pathKey_def)

lemma hashLarge_spec:
  assumes inv: "prefixInv R e c" and p: "climb c k ks"
  shows "hashNodeKeyLarge k n c = Inr (ar_hash c (pathKey c ks))" "hashNodeKeyFill k n c = Inr (ar_hash c (pathKey c ks))"
proof -
  obtain b where b: "fillNodeKeyBuf k n (zeroBytes n) c = Inr (b, length (pathKey c ks) = n)" "length (pathKey c ks) = n \<longrightarrow> b = pathKey c ks"
    using fillBuf_spec [OF inv p, of n] by blast
  then show l: "hashNodeKeyLarge k n c = Inr (ar_hash c (pathKey c ks))"
    using hashStream_spec [OF inv p] by (simp add: hashNodeKeyLarge_def hashKey_def)
  then show "hashNodeKeyFill k n c = Inr (ar_hash c (pathKey c ks))"
    using b by (simp add: hashNodeKeyFill_def hashKey_def)
qed

lemma hashNodeKey_spec:
  assumes inv: "prefixInv R e c" and p: "climb c k ks"
  shows "hashNodeKey k c = Inr (ar_hash c (pathKey c ks))"
proof (cases "k = ar_root c")
  case True
  then have "ks = []" using climb_root p by metis
  then show ?thesis using True by (simp add: hashNodeKey_def hashKey_def)
next
  case False
  from p False obtain ks' where ks: "ks = k # ks'" "unat k < length (ar_nodes c)" "climb c (an_parent (ar_nodes c ! unat k)) ks'" "k \<noteq> nilNode"
    by (rule climb_step)
  let ?p1 = "an_parent (ar_nodes c ! unat k)" and ?n = "an_keyLen (ar_nodes c ! unat k)"
  note rd = label_read [OF inv ks(2)] and large = hashLarge_spec [OF inv p, of ?n]
  show ?thesis
  proof (cases "?p1 = ar_root c")
    case True
    then have "ks' = []" using climb_root ks(3) by metis
    then show ?thesis using True False ks by (simp add: hashNodeKey_def rd hashKey_def)
  next
    case deep: False
    from ks(3) deep obtain ks'' where k2: "ks' = ?p1 # ks''" "unat ?p1 < length (ar_nodes c)" "climb c (an_parent (ar_nodes c ! unat ?p1)) ks''" "?p1 \<noteq> nilNode"
      by (rule climb_step)
    note rd1 = label_read [OF inv k2(2)]
    have top: "ks'' = []" if "an_parent (ar_nodes c ! unat ?p1) = ar_root c" using climb_root k2(3) that by metis
    have "pathKey c ks = labels c ! unat ?p1 @ labels c ! unat k" if "an_parent (ar_nodes c ! unat ?p1) = ar_root c"
      using top [OF that] by (simp add: ks(1) k2(1))
    then show ?thesis using False deep ks(4) k2(4) large
      by (simp add: hashNodeKey_def rd rd1 hashKey_def Let_def)
  qed
qed

subsection \<open>Comparing with a key\<close>

lemma verifyLoop_spec:
  assumes inv: "prefixInv R e c" and p: "climb c k ks" and n: "n \<le> length key"
  shows "verifyLoop c key k n = Some (Inr (take n key = pathKey c ks))"
  using p n
proof (induction arbitrary: n rule: climb.induct)
  case top
  then show ?case by (subst verifyLoop.simps) auto
next
  case (up k ks)
  let ?l = "labels c ! unat k"
  note rd = label_read [OF inv up.hyps(3)]
  show ?case
  proof (cases "n < length ?l \<or> take (length ?l) (drop (n - length ?l) key) \<noteq> ?l")
    case True
    have "take n key \<noteq> pathKey c ks @ ?l"
    proof
      assume eq: "take n key = pathKey c ks @ ?l"
      then have len: "n = length (pathKey c ks) + length ?l" using up.prems by (metis length_append length_take min.absorb2)
      have "drop (n - length ?l) (take n key) = ?l" unfolding eq using len by simp
      then have "take (length ?l) (drop (n - length ?l) key) = ?l" using len by (simp add: drop_take)
      then show False using True len by simp
    qed
    then show ?thesis using up.hyps(1,2) True by (subst verifyLoop.simps) (simp add: rd)
  next
    case False
    have "verifyLoop c key (an_parent (ar_nodes c ! unat k)) (n - length ?l) = Some (Inr (take (n - length ?l) key = pathKey c ks))"
      by (rule up.IH) (use up.prems in simp)
    moreover have "take n key = take (n - length ?l) key @ ?l"
    proof -
      have "take n key = take (n - length ?l) key @ take (length ?l) (drop (n - length ?l) key)"
        using take_add [of "n - length ?l" "length ?l" key] False by simp
      then show ?thesis using False by simp
    qed
    ultimately show ?thesis using up.hyps(1,2) False by (subst verifyLoop.simps) (simp add: rd)
  qed
qed

definition keyLenOk :: "'v arenaRadix \<Rightarrow> u32 \<Rightarrow> u32 list \<Rightarrow> bool" where
  "keyLenOk c k ks \<longleftrightarrow> an_keyLen (ar_nodes c ! unat k) = min (length (pathKey c ks)) (unat nodeKeyLenMask)"

lemma keyLen_word:
  "an_keyLenAndFlags n AND nodeKeyLenMask = (of_nat (min l (unat nodeKeyLenMask)) :: u32) \<longleftrightarrow> an_keyLen n = min l (unat nodeKeyLenMask)"
proof -
  have "unat nodeKeyLenMask = 131071" by (simp add: arena_masks)
  then have "unat (of_nat (min l (unat nodeKeyLenMask)) :: u32) = min l (unat nodeKeyLenMask)"
    by (simp add: unat_of_nat min_def)
  then show ?thesis unfolding an_keyLen_def word_unat_eq_iff by simp
qed

lemma verifyKey_spec:
  assumes inv: "prefixInv R e c" and p: "climb c k ks" and len: "keyLenOk c k ks"
    and top: "k = ar_root c \<longrightarrow> unat k < length (ar_nodes c) \<and> an_parent (ar_nodes c ! unat k) \<noteq> ar_root c"
  shows "verifyKey k key c = Inr (key = pathKey c ks)"
proof -
  have lt: "unat k < length (ar_nodes c)" using p top by (cases "k = ar_root c") (auto elim: climb_step)
  note rd = label_read [OF inv lt]
  have v: "verifyKey k key c = (if an_keyLen (ar_nodes c ! unat k) \<noteq> min (length key) (unat nodeKeyLenMask) then Inr False
        else if an_parent (ar_nodes c ! unat k) = ar_root c then Inr (key = labels c ! unat k)
        else of_loop (verifyLoop c key k (length key)))"
    by (simp add: verifyKey_def rd keyLen_word Let_def)
  show ?thesis
  proof (cases "an_keyLen (ar_nodes c ! unat k) = min (length key) (unat nodeKeyLenMask)")
    case False
    then have "key \<noteq> pathKey c ks" using len by (auto simp: keyLenOk_def)
    then show ?thesis using False v by simp
  next
    case True
    show ?thesis
    proof (cases "an_parent (ar_nodes c ! unat k) = ar_root c")
      case root: True
      with top have "k \<noteq> ar_root c" by blast
      with p obtain ks' where ks: "ks = k # ks'" "climb c (an_parent (ar_nodes c ! unat k)) ks'" by (rule climb_step)
      then have "ks' = []" using climb_root root by metis
      then show ?thesis using root True v ks(1) by simp
    next
      case False
      then show ?thesis using True v verifyLoop_spec [OF inv p, of "length key" key] by simp
    qed
  qed
qed

end
