(* ===== verification/ArenaTree.thy ===== *)
theory ArenaTree
  imports ArenaKey RadixHeap
begin

text \<open>
  The tree of \<^verbatim>\<open>arena_radix.go\<close> as it lies in the node slice: allocation from a free list, child lists linked by
  indices, the walk of the trie, and the recency list threaded through the nodes.

  The nodes are read as a heap of the pointer-based radix tree (\<open>absHeap\<close>): an index is an address, \<open>nilNode\<close> is
  \<open>nil\<close>, and the prefix of a node is its label. The operations on child lists are then those of
  \<^verbatim>\<open>radix_lru.go\<close>, and the facts about forests hold for them.
\<close>

subsection \<open>Allocation\<close>

definition freshNode :: "('v :: zero) arenaRadixNode" where
  "freshNode = \<lparr>an_prefixOff = 0, an_prefixLen = 0, an_firstByte = CHR 0x00, an_prefixFlags = 0, an_size = 0,
     an_parent = nilNode, an_child = nilNode, an_sibling = nilNode, an_prev = nilNode, an_next = nilNode,
     an_keyLenAndFlags = 0, an_value = 0\<rparr>"

definition allocateNode :: "('v :: zero) arenaRadix \<Rightarrow> ('v arenaRadix \<times> u32) res" where
  "allocateNode c = (if ar_freeHead c \<noteq> nilNode
     then let k = ar_freeHead c in bindr (nodeAt c k) (\<lambda>n.
       bindr (updNode k (\<lambda>x. x\<lparr>an_next := nilNode\<rparr>)
         (c\<lparr>ar_freeHead := an_next n, ar_freeCount := ar_freeCount c - 1\<rparr>)) (\<lambda>c1. Inr (c1, k)))
     else let k = (of_nat (length (ar_nodes c)) :: u32); n = int (length (ar_nodes c)) + 1 in
       if foregroundNoProtect \<le> k then Inl (Panic ''arena radix capacity exceeded limit'')
       else Inr (c\<lparr>ar_nodes := ar_nodes c @ [freshNode],
           ar_nodesCap := if n \<le> ar_nodesCap c then ar_nodesCap c else ar_growCap c (ar_nodesCap c) n\<rparr>, k))"

definition wipeNode :: "u32 \<Rightarrow> ('v :: zero) arenaRadixNode \<Rightarrow> 'v arenaRadixNode" where
  "wipeNode nxt n = n\<lparr>an_prefixFlags := 0, an_keyLenAndFlags := 0, an_value := 0, an_size := 0, an_parent := nilNode,
     an_child := nilNode, an_sibling := nilNode, an_prev := nilNode, an_next := nxt\<rparr>"

definition arena_freeNode :: "u32 \<Rightarrow> ('v :: zero) arenaRadix \<Rightarrow> 'v arenaRadix res" where
  "arena_freeNode k c = bindr (clearNodePrefix k c) (\<lambda>c1.
     bindr (updNode k (wipeNode (ar_freeHead c1)) c1) (\<lambda>c2.
     Inr (c2\<lparr>ar_freeHead := k, ar_freeCount := ar_freeCount c2 + 1\<rparr>)))"

subsection \<open>Children\<close>

partial_function (option) arenaGetChildLoop :: "'v arenaRadix \<Rightarrow> char \<Rightarrow> u32 \<Rightarrow> u32 res option" where
  "arenaGetChildLoop c b cur = (if cur = nilNode then Some (Inr nilNode)
     else case nodeAt c cur of Inl p \<Rightarrow> Some (Inl p)
       | Inr n \<Rightarrow> if an_firstByte n = b then Some (Inr cur)
           else if b < an_firstByte n then Some (Inr nilNode)
           else arenaGetChildLoop c b (an_sibling n))"

definition arena_getChild :: "'v arenaRadix \<Rightarrow> u32 \<Rightarrow> char \<Rightarrow> u32 res" where
  "arena_getChild c nID b = bindr (nodeAt c nID) (\<lambda>n. of_loop (arenaGetChildLoop c b (an_child n)))"

partial_function (option) findChildLoop :: "'v arenaRadix \<Rightarrow> char \<Rightarrow> u32 \<Rightarrow> u32 \<Rightarrow> (u32 \<times> u32 \<times> u32) res option" where
  "findChildLoop c b prevID cur = (if cur = nilNode then Some (Inr (nilNode, prevID, nilNode))
     else case nodeAt c cur of Inl p \<Rightarrow> Some (Inl p)
       | Inr n \<Rightarrow> if an_firstByte n = b then Some (Inr (cur, prevID, an_sibling n))
           else if b < an_firstByte n then Some (Inr (nilNode, prevID, cur))
           else findChildLoop c b cur (an_sibling n))"

definition findChildWithPrev :: "'v arenaRadix \<Rightarrow> u32 \<Rightarrow> char \<Rightarrow> (u32 \<times> u32 \<times> u32) res" where
  "findChildWithPrev c nID b = bindr (nodeAt c nID) (\<lambda>n. of_loop (findChildLoop c b nilNode (an_child n)))"

definition linkChildAt :: "u32 \<Rightarrow> u32 \<Rightarrow> u32 \<Rightarrow> u32 \<Rightarrow> 'v arenaRadix \<Rightarrow> 'v arenaRadix res" where
  "linkChildAt nID prevID nextID newChildID c =
     bindr (updNode newChildID (\<lambda>n. n\<lparr>an_parent := nID, an_sibling := nextID\<rparr>) c) (\<lambda>c1.
     if prevID = nilNode then updNode nID (\<lambda>n. n\<lparr>an_child := newChildID\<rparr>) c1
     else updNode prevID (\<lambda>n. n\<lparr>an_sibling := newChildID\<rparr>) c1)"

datatype arenaSlot = AChild u32 | ASibling u32

fun arenaSlotGet :: "'v arenaRadix \<Rightarrow> arenaSlot \<Rightarrow> u32 res" where
  "arenaSlotGet c (AChild k) = bindr (nodeAt c k) (\<lambda>n. Inr (an_child n))"
| "arenaSlotGet c (ASibling k) = bindr (nodeAt c k) (\<lambda>n. Inr (an_sibling n))"

fun arenaSlotSet :: "arenaSlot \<Rightarrow> u32 \<Rightarrow> 'v arenaRadix \<Rightarrow> 'v arenaRadix res" where
  "arenaSlotSet (AChild k) x c = updNode k (\<lambda>n. n\<lparr>an_child := x\<rparr>) c"
| "arenaSlotSet (ASibling k) x c = updNode k (\<lambda>n. n\<lparr>an_sibling := x\<rparr>) c"

partial_function (option) arenaSlotLoop :: "'v arenaRadix \<Rightarrow> u32 \<Rightarrow> arenaSlot \<Rightarrow> arenaSlot option res option" where
  \<comment> \<open>the loop of \<open>removeChild\<close> and \<open>replaceChild\<close>: the field that holds the child\<close>
  "arenaSlotLoop c child pcurr = (case arenaSlotGet c pcurr of Inl p \<Rightarrow> Some (Inl p)
     | Inr x \<Rightarrow> if x = nilNode then Some (Inr None)
         else if x = child then Some (Inr (Some pcurr))
         else arenaSlotLoop c child (ASibling x))"

definition arena_removeChild :: "u32 \<Rightarrow> u32 \<Rightarrow> 'v arenaRadix \<Rightarrow> 'v arenaRadix res" where
  "arena_removeChild nID childToRemoveID c = bindr (of_loop (arenaSlotLoop c childToRemoveID (AChild nID))) (\<lambda>found.
     case found of None \<Rightarrow> Inl (Panic ''removeChild: requested child not found in sibling list'')
     | Some pcurr \<Rightarrow> bindr (nodeAt c childToRemoveID) (\<lambda>r. bindr (arenaSlotSet pcurr (an_sibling r) c) (\<lambda>c1.
         updNode childToRemoveID (\<lambda>n. n\<lparr>an_sibling := nilNode, an_parent := nilNode\<rparr>) c1)))"

definition arena_replaceChild :: "u32 \<Rightarrow> u32 \<Rightarrow> u32 \<Rightarrow> 'v arenaRadix \<Rightarrow> 'v arenaRadix res" where
  "arena_replaceChild nID oldChildID newChildID c = bindr (of_loop (arenaSlotLoop c oldChildID (AChild nID))) (\<lambda>found.
     case found of None \<Rightarrow> Inl (Panic ''replaceChild: requested child not found in sibling list'')
     | Some pcurr \<Rightarrow> bindr (nodeAt c oldChildID) (\<lambda>r.
         bindr (updNode newChildID (\<lambda>n. n\<lparr>an_parent := nID, an_sibling := an_sibling r\<rparr>) c) (\<lambda>c1.
         bindr (arenaSlotSet pcurr newChildID c1) (\<lambda>c2.
         updNode oldChildID (\<lambda>n. n\<lparr>an_sibling := nilNode, an_parent := nilNode\<rparr>) c2))))"

subsection \<open>Walking the trie\<close>

partial_function (option) trieWalkLoop :: "'v arenaRadix \<Rightarrow> u32 \<Rightarrow> string \<Rightarrow> (u32 \<times> bool) res option" where
  "trieWalkLoop c cur search = (if cur = nilNode then Some (Inr (nilNode, False))
     else case search of
       [] \<Rightarrow> Some (bindr (nodeAt c cur) (\<lambda>n. Inr (if an_hasValue n then (cur, True) else (nilNode, False))))
     | b # _ \<Rightarrow> (case arena_getChild c cur b of Inl p \<Rightarrow> Some (Inl p)
         | Inr childID \<Rightarrow> if childID = nilNode then Some (Inr (nilNode, False))
             else case nodePrefix c childID of Inl p \<Rightarrow> Some (Inl p)
               | Inr pre \<Rightarrow> if \<not> startsWith search pre then Some (Inr (nilNode, False))
                   else trieWalkLoop c childID (drop (length pre) search)))"

definition findNodeByTrieWalk :: "'v arenaRadix \<Rightarrow> string \<Rightarrow> (u32 \<times> bool) res" where
  "findNodeByTrieWalk c key = of_loop (trieWalkLoop c (ar_root c) key)"

subsection \<open>The recency list\<close>

definition arena_moveToFront :: "u32 \<Rightarrow> 'v arenaRadix \<Rightarrow> 'v arenaRadix res" where
  "arena_moveToFront k c = (if ar_head c = k then Inr c
     else bindr (nodeAt c k) (\<lambda>n. let p = an_prev n; x = an_next n in
       bindr (if p \<noteq> nilNode then updNode p (\<lambda>m. m\<lparr>an_next := x\<rparr>) c else Inr c) (\<lambda>c1.
       bindr (if x \<noteq> nilNode then updNode x (\<lambda>m. m\<lparr>an_prev := p\<rparr>) c1 else Inr (c1\<lparr>ar_tail := p\<rparr>)) (\<lambda>c2.
       bindr (updNode k (\<lambda>m. m\<lparr>an_prev := nilNode, an_next := ar_head c2\<rparr>) c2) (\<lambda>c3.
       bindr (if ar_head c3 \<noteq> nilNode then updNode (ar_head c3) (\<lambda>m. m\<lparr>an_prev := k\<rparr>) c3 else Inr c3) (\<lambda>c4.
       Inr (c4\<lparr>ar_head := k\<rparr>)))))))"

definition arena_pushFront :: "u32 \<Rightarrow> 'v arenaRadix \<Rightarrow> 'v arenaRadix res" where
  "arena_pushFront k c = bindr (updNode k (\<lambda>n. n\<lparr>an_prev := nilNode, an_next := ar_head c\<rparr>) c) (\<lambda>c1.
     bindr (if ar_head c1 \<noteq> nilNode then updNode (ar_head c1) (\<lambda>m. m\<lparr>an_prev := k\<rparr>) c1 else Inr c1) (\<lambda>c2.
     let c3 = c2\<lparr>ar_head := k\<rparr>;
       c4 = (if ar_tail c3 = nilNode then c3\<lparr>ar_tail := k\<rparr> else c3)
     in Inr (c4\<lparr>ar_len := ar_len c4 + 1\<rparr>)))"

definition arena_remove :: "u32 \<Rightarrow> 'v arenaRadix \<Rightarrow> 'v arenaRadix res" where
  "arena_remove k c = bindr (nodeAt c k) (\<lambda>n.
     if ar_head c \<noteq> k \<and> an_prev n = nilNode then Inr c
     else let p = an_prev n; x = an_next n in
       bindr (if p \<noteq> nilNode then updNode p (\<lambda>m. m\<lparr>an_next := x\<rparr>) c else Inr (c\<lparr>ar_head := x\<rparr>)) (\<lambda>c1.
       bindr (if x \<noteq> nilNode then updNode x (\<lambda>m. m\<lparr>an_prev := p\<rparr>) c1 else Inr (c1\<lparr>ar_tail := p\<rparr>)) (\<lambda>c2.
       bindr (updNode k (\<lambda>m. m\<lparr>an_prev := nilNode, an_next := nilNode\<rparr>) c2) (\<lambda>c3.
       Inr (c3\<lparr>ar_len := ar_len c3 - 1\<rparr>)))))"

subsection \<open>The nodes as a heap\<close>

definition ptr :: "u32 \<Rightarrow> addr option" where
  "ptr k = (if k = nilNode then None else Some (unat k))"

lemma ptr_nil [simp]: "ptr nilNode = None" "ptr k = None \<longleftrightarrow> k = nilNode"
  by (simp_all add: ptr_def)

lemma ptr_Some: "ptr k = Some a \<longleftrightarrow> k \<noteq> nilNode \<and> unat k = a"
  by (auto simp: ptr_def)

lemma ptr_inject [simp]: "ptr k = ptr j \<longleftrightarrow> k = j"
  by (auto simp: ptr_def word_unat_eq_iff)

lemma ptr_not_nil [simp]: "k \<noteq> nilNode \<Longrightarrow> ptr k = Some (unat k)"
  by (simp add: ptr_def)

definition absNode :: "string \<Rightarrow> 'v arenaRadixNode \<Rightarrow> 'v radixNode" where
  "absNode l n = \<lparr>rn_prefix = l, rn_size = an_size n, rn_parent = ptr (an_parent n), rn_child = ptr (an_child n),
     rn_sibling = ptr (an_sibling n), rn_prev = ptr (an_prev n), rn_next = ptr (an_next n),
     rn_hasValue = an_hasValue n, rn_value = an_value n\<rparr>"

lemma absNode_sel [simp]:
  "rn_prefix (absNode l n) = l" "rn_size (absNode l n) = an_size n" "rn_parent (absNode l n) = ptr (an_parent n)"
  "rn_child (absNode l n) = ptr (an_child n)" "rn_sibling (absNode l n) = ptr (an_sibling n)"
  "rn_prev (absNode l n) = ptr (an_prev n)" "rn_next (absNode l n) = ptr (an_next n)"
  "rn_hasValue (absNode l n) = an_hasValue n" "rn_value (absNode l n) = an_value n"
  by (simp_all add: absNode_def)

definition absHeap :: "('v :: zero) arenaRadix \<Rightarrow> 'v radixHeap" where
  "absHeap c a = (if a < length (ar_nodes c) then absNode (labels c ! a) (ar_nodes c ! a) else zeroNode)"

definition ptrOk :: "'v arenaRadix \<Rightarrow> u32 \<Rightarrow> bool" where
  "ptrOk c k \<longleftrightarrow> k = nilNode \<or> unat k < length (ar_nodes c)"

definition linked :: "'v arenaRadix \<Rightarrow> bool" where
  \<comment> \<open>every index is in range, and the store is small enough to be indexed\<close>
  "linked c \<longleftrightarrow> length (ar_nodes c) \<le> unat foregroundNoProtect
     \<and> (\<forall>n \<in> set (ar_nodes c). \<forall>k \<in> {an_parent n, an_child n, an_sibling n, an_prev n, an_next n}. ptrOk c k)"

lemma linkedD:
  assumes "linked c" "i < length (ar_nodes c)"
  shows "ptrOk c (an_parent (ar_nodes c ! i))" "ptrOk c (an_child (ar_nodes c ! i))" "ptrOk c (an_sibling (ar_nodes c ! i))"
    "ptrOk c (an_prev (ar_nodes c ! i))" "ptrOk c (an_next (ar_nodes c ! i))"
  using assms unfolding linked_def by (auto dest: nth_mem)

lemma nil_out: "linked c \<Longrightarrow> length (ar_nodes c) \<le> unat nilNode"
  by (simp add: linked_def foregroundNoProtect_def nilNode_def)

lemma index_not_nil: "linked c \<Longrightarrow> unat k < length (ar_nodes c) \<Longrightarrow> k \<noteq> nilNode"
  using nil_out [of c] by auto

lemma ptrOk_index: "ptrOk c k \<Longrightarrow> k \<noteq> nilNode \<Longrightarrow> unat k < length (ar_nodes c)"
  by (simp add: ptrOk_def)

lemma nodeAt_in: "unat k < length (ar_nodes c) \<Longrightarrow> nodeAt c k = Inr (ar_nodes c ! unat k)"
  "unat k < length (ar_nodes c) \<Longrightarrow> updNode k f c = Inr (c\<lparr>ar_nodes := (ar_nodes c)[unat k := f (ar_nodes c ! unat k)]\<rparr>)"
  by (simp_all add: nodeAt_def updNode_def)

lemma absHeap_in: "i < length (ar_nodes c) \<Longrightarrow> absHeap c i = absNode (labels c ! i) (ar_nodes c ! i)"
  by (simp add: absHeap_def)

lemma labels_same:
  assumes "i < length (ar_nodes c)" "an_prefixOff n = an_prefixOff (ar_nodes c ! i)" "an_prefixLen n = an_prefixLen (ar_nodes c ! i)"
  shows "labels (c\<lparr>ar_nodes := (ar_nodes c)[i := n]\<rparr>) = labels c"
proof -
  have "labelStr (ar_prefixArena c) n = labelStr (ar_prefixArena c) (ar_nodes c ! i)"
    using assms(2,3) by (simp add: labelStr_def labelLen_def)
  then show ?thesis using assms(1) by (simp add: labels_def map_update list_update_same_conv)
qed

lemma absHeap_upd:
  assumes "i < length (ar_nodes c)" "an_prefixOff n = an_prefixOff (ar_nodes c ! i)" "an_prefixLen n = an_prefixLen (ar_nodes c ! i)"
  shows "absHeap (c\<lparr>ar_nodes := (ar_nodes c)[i := n]\<rparr>) = (absHeap c)(i := absNode (labels c ! i) n)"
  using assms(1) labels_same [OF assms] by (auto simp: absHeap_def fun_eq_iff nth_list_update)

lemma absNode_upd:
  "absNode l (n\<lparr>an_parent := k\<rparr>) = (absNode l n)\<lparr>rn_parent := ptr k\<rparr>" "absNode l (n\<lparr>an_child := k\<rparr>) = (absNode l n)\<lparr>rn_child := ptr k\<rparr>"
  "absNode l (n\<lparr>an_sibling := k\<rparr>) = (absNode l n)\<lparr>rn_sibling := ptr k\<rparr>" "absNode l (n\<lparr>an_prev := k\<rparr>) = (absNode l n)\<lparr>rn_prev := ptr k\<rparr>"
  "absNode l (n\<lparr>an_next := k\<rparr>) = (absNode l n)\<lparr>rn_next := ptr k\<rparr>" "absNode l (n\<lparr>an_size := s\<rparr>) = (absNode l n)\<lparr>rn_size := s\<rparr>"
  "absNode l (n\<lparr>an_value := v\<rparr>) = (absNode l n)\<lparr>rn_value := v\<rparr>"
  by (simp_all add: absNode_def an_hasValue_def)

subsection \<open>Child lists are forests\<close>

lemma abs_node:
  assumes inv: "prefixInv R e c" and l: "links (absHeap c a) = (s, p, x, y)" and s: "s \<noteq> []"
  shows "a < length (ar_nodes c)" "labels c ! a = s" "ptr (an_parent (ar_nodes c ! a)) = p" "ptr (an_child (ar_nodes c ! a)) = x"
    "ptr (an_sibling (ar_nodes c ! a)) = y" "an_firstByte (ar_nodes c ! a) = hd s"
proof -
  show a: "a < length (ar_nodes c)"
  proof (rule ccontr)
    assume "\<not> a < length (ar_nodes c)"
    then show False using l s by (simp add: absHeap_def zeroNode_def links_def)
  qed
  show la: "labels c ! a = s" and "ptr (an_parent (ar_nodes c ! a)) = p" "ptr (an_child (ar_nodes c ! a)) = x"
    "ptr (an_sibling (ar_nodes c ! a)) = y" using l a by (simp_all add: absHeap_in links_def)
  have ne: "labels c ! a \<noteq> []" using la s by simp
  note D = labelD [OF inv a ne]
  have "hd (take (length (labels c ! a)) (drop (unat (an_prefixOff (ar_nodes c ! a))) (ar_prefixArena c)))
      = ar_prefixArena c ! unat (an_prefixOff (ar_nodes c ! a))"
  proof -
    have "unat (an_prefixOff (ar_nodes c ! a)) < length (ar_prefixArena c)" using D(2,10) by linarith
    then show ?thesis using ne by (simp add: hd_drop_conv_nth)
  qed
  then show "an_firstByte (ar_nodes c ! a) = hd s" using D(7,8) la by simp
qed

lemma index_of_ptr: "ptr k = Some a \<Longrightarrow> k \<noteq> nilNode" "ptr k = Some a \<Longrightarrow> unat k = a"
  by (simp_all add: ptr_Some)

lemma arenaGetChildLoop_spec:
  assumes inv: "prefixInv R e c" and "repr (absHeap c) p H" "ordered H" "ptr k = fhead H"
  shows "\<exists>x. arenaGetChildLoop c b k = Some (Inr x) \<and> ptr x = map_option fst (fsub b H)"
  using assms(2-4)
proof (induction H arbitrary: k)
  case Tip
  then show ?case by (subst arenaGetChildLoop.simps) (auto intro!: exI [of _ nilNode])
next
  case (Branch a s ch sb)
  have l: "links (absHeap c a) = (s, Some p, fhead ch, fhead sb)" and s: "s \<noteq> []" using Branch.prems by auto
  note N = abs_node [OF inv l s]
  have k: "k \<noteq> nilNode" "unat k = a" using Branch.prems(3) by (simp_all add: ptr_Some)
  have n: "nodeAt c k = Inr (ar_nodes c ! a)" using N(1) k by (simp add: nodeAt_def)
  have none: "fsub b sb = None" if "b < hd s" using that Branch.prems(2) by (auto simp: fsub_None)
  obtain x where x: "arenaGetChildLoop c b (an_sibling (ar_nodes c ! a)) = Some (Inr x)" "ptr x = map_option fst (fsub b sb)"
    using Branch.IH(2) [of "an_sibling (ar_nodes c ! a)"] Branch.prems N(5) by auto
  show ?case
  proof (cases "hd s = b")
    case True
    then show ?thesis using k n N(6) by (subst arenaGetChildLoop.simps) (auto simp: ptr_Some)
  next
    case ne: False
    show ?thesis
    proof (cases "b < hd s")
      case True
      then show ?thesis using k n N(6) ne none by (subst arenaGetChildLoop.simps) (auto intro!: exI [of _ nilNode])
    next
      case False
      then show ?thesis using k n N(6) ne x by (subst arenaGetChildLoop.simps) simp
    qed
  qed
qed

lemma arena_getChild_spec:
  assumes inv: "prefixInv R e c" and k: "unat k < length (ar_nodes c)" and ch: "rn_child (absHeap c (unat k)) = fhead H"
    and H: "repr (absHeap c) p H" "ordered H"
  shows "\<exists>x. arena_getChild c k b = Inr x \<and> ptr x = map_option fst (fsub b H)"
  using arenaGetChildLoop_spec [OF inv H, of "an_child (ar_nodes c ! unat k)" b] k ch
  by (auto simp: arena_getChild_def nodeAt_def absHeap_in)

lemma trieWalkLoop_spec:
  assumes inv: "prefixInv R e c" and "k \<noteq> nilNode" "unat k < length (ar_nodes c)" "rn_child (absHeap c (unat k)) = fhead H"
    "repr (absHeap c) (unat k) H" "ordered H"
  shows "\<exists>x ok. trieWalkLoop c k s = Some (Inr (x, ok)) \<and> (ok \<longrightarrow> x \<noteq> nilNode) \<and> (\<not> ok \<longrightarrow> x = nilNode)
    \<and> getNodeLoop (absHeap c) (unat k) s = Some (Inr (if ok then Some (unat x) else None))"
  using assms(2-)
proof (induction "length s" arbitrary: s k H rule: less_induct)
  case less
  note inr = less.prems(2)
  show ?case
  proof (cases s)
    case Nil
    then show ?thesis using less.prems(1) inr
      by (subst trieWalkLoop.simps, subst getNodeLoop.simps) (auto simp: nodeAt_def absHeap_in)
  next
    case (Cons b t)
    obtain x where x: "arena_getChild c k b = Inr x" "ptr x = map_option fst (fsub b H)"
      using arena_getChild_spec [OF inv inr less.prems(3-5)] by blast
    note gc = getChild_spec [OF less.prems(3-5), of b]
    show ?thesis
    proof (cases "fsub b H")
      case None
      then show ?thesis using x gc Cons less.prems(1)
        by (intro exI [of _ nilNode] exI [of _ False]) (subst trieWalkLoop.simps, subst getNodeLoop.simps, simp)
    next
      case (Some q)
      obtain a u ch where q: "q = (a, u, ch)" by (metis prod_cases3)
      note sub = fsub_Some [OF Some [unfolded q] less.prems(4,5)]
      have xa: "x \<noteq> nilNode" "unat x = a" using x(2) Some q by (simp_all add: ptr_Some)
      have l: "links (absHeap c a) = (u, Some (unat k), fhead ch, rn_sibling (absHeap c a))" using sub(1-3) by (simp add: links_def)
      note N = abs_node [OF inv l sub(6)]
      have xr: "unat x < length (ar_nodes c)" using N(1) xa by simp
      have pre: "nodePrefix c x = Inr u" using label_read(1) [OF inv xr] N(2) xa by simp
      show ?thesis
      proof (cases "startsWith s u")
        case False
        then show ?thesis using x(1) xa gc Cons Some q sub(1) pre less.prems(1)
          by (intro exI [of _ nilNode] exI [of _ False]) (subst trieWalkLoop.simps, subst getNodeLoop.simps, simp)
      next
        case True
        have "length (drop (length u) s) < length s" using Cons sub(6) by simp
        from less.hyps [OF this xa(1) xr] obtain y ok where y: "trieWalkLoop c x (drop (length u) s) = Some (Inr (y, ok))"
          "ok \<longrightarrow> y \<noteq> nilNode" "\<not> ok \<longrightarrow> y = nilNode"
          "getNodeLoop (absHeap c) a (drop (length u) s) = Some (Inr (if ok then Some (unat y) else None))"
          using sub(3-5) xa(2) by blast
        then show ?thesis using True x(1) xa gc Cons Some q sub(1) pre less.prems(1)
          by (intro exI [of _ y] exI [of _ ok]) (subst trieWalkLoop.simps, subst getNodeLoop.simps, simp)
      qed
    qed
  qed
qed

subsection \<open>Relinking\<close>

definition unlinkd :: "'v arenaRadixNode \<Rightarrow> 'v arenaRadixNode" where
  "unlinkd n = n\<lparr>an_parent := 0, an_child := 0, an_sibling := 0\<rparr>"

definition relinked :: "'v arenaRadix \<Rightarrow> 'v arenaRadix \<Rightarrow> bool" where
  \<comment> \<open>only parent, child and sibling fields differ\<close>
  "relinked c c' \<longleftrightarrow> c' = c\<lparr>ar_nodes := ar_nodes c'\<rparr> \<and> map unlinkd (ar_nodes c') = map unlinkd (ar_nodes c)"

lemma relinked_refl [simp]: "relinked c c"
  by (simp add: relinked_def)

lemma relinked_trans:
  assumes "relinked c c1" "relinked c1 c2"
  shows "relinked c c2"
proof -
  have 1: "c1 = c\<lparr>ar_nodes := ar_nodes c1\<rparr>" and 2: "c2 = c1\<lparr>ar_nodes := ar_nodes c2\<rparr>" using assms by (simp_all add: relinked_def)
  have "c1\<lparr>ar_nodes := ns\<rparr> = c\<lparr>ar_nodes := ns\<rparr>" for ns by (subst 1) simp
  then have "c2 = c\<lparr>ar_nodes := ar_nodes c2\<rparr>" using 2 by simp
  then show ?thesis using assms by (simp add: relinked_def)
qed

lemma relinked_length: "relinked c c' \<Longrightarrow> length (ar_nodes c') = length (ar_nodes c)"
  unfolding relinked_def by (metis length_map)

lemma unlinkd_sel:
  "unlinkd n = unlinkd m \<Longrightarrow> an_prefixOff n = an_prefixOff m \<and> an_prefixLen n = an_prefixLen m \<and> an_firstByte n = an_firstByte m
     \<and> an_prefixFlags n = an_prefixFlags m \<and> an_size n = an_size m \<and> an_prev n = an_prev m \<and> an_next n = an_next m
     \<and> an_keyLenAndFlags n = an_keyLenAndFlags m \<and> an_value n = an_value m"
  by (cases n; cases m) (simp add: unlinkd_def)

lemma relinked_node:
  assumes "relinked c c'" "i < length (ar_nodes c)"
  shows "unlinkd (ar_nodes c' ! i) = unlinkd (ar_nodes c ! i)"
proof -
  have "map unlinkd (ar_nodes c') ! i = map unlinkd (ar_nodes c) ! i" using assms(1) by (simp add: relinked_def)
  then show ?thesis using assms relinked_length [OF assms(1)] by simp
qed

lemma relinked_fields:
  assumes "relinked c c'"
  shows "ar_prefixArena c' = ar_prefixArena c" "ar_root c' = ar_root c" "ar_head c' = ar_head c" "ar_tail c' = ar_tail c"
    "ar_freeHead c' = ar_freeHead c" "ar_freeCount c' = ar_freeCount c" "ar_len c' = ar_len c"
proof -
  have c': "c' = c\<lparr>ar_nodes := ar_nodes c'\<rparr>" using assms by (simp add: relinked_def)
  show "ar_prefixArena c' = ar_prefixArena c" "ar_root c' = ar_root c" "ar_head c' = ar_head c" "ar_tail c' = ar_tail c"
    "ar_freeHead c' = ar_freeHead c" "ar_freeCount c' = ar_freeCount c" "ar_len c' = ar_len c"
    by (subst c', simp)+
qed

lemma relinked_map:
  assumes r: "relinked c c'" and f: "\<And>n m. unlinkd n = unlinkd m \<Longrightarrow> f n = f m"
  shows "map f (ar_nodes c') = map f (ar_nodes c)"
proof (rule nth_equalityI)
  fix i assume "i < length (map f (ar_nodes c'))"
  then have i: "i < length (ar_nodes c)" using relinked_length [OF r] by simp
  show "map f (ar_nodes c') ! i = map f (ar_nodes c) ! i"
    using f [OF relinked_node [OF r i]] i relinked_length [OF r] by simp
qed (simp add: relinked_length [OF r])

definition labelFields :: "'v arenaRadixNode \<Rightarrow> u32 \<times> u16 \<times> char" where
  "labelFields n = (an_prefixOff n, an_prefixLen n, an_firstByte n)"

lemma map_by_fields:
  assumes "map labelFields ns' = map labelFields ns" "\<And>n m. labelFields n = labelFields m \<Longrightarrow> f n = f m"
  shows "map f ns' = map f ns"
proof (rule nth_equalityI)
  have l: "length ns' = length ns" by (rule map_eq_imp_length_eq [OF assms(1)])
  then show "length (map f ns') = length (map f ns)" by simp
  fix i assume "i < length (map f ns')"
  then have i: "i < length ns" "i < length ns'" using l by simp_all
  have "map labelFields ns' ! i = map labelFields ns ! i" using assms(1) by simp
  then have "labelFields (ns' ! i) = labelFields (ns ! i)" using i by simp
  then have "f (ns' ! i) = f (ns ! i)" by (rule assms(2))
  then show "map f ns' ! i = map f ns ! i" using i by simp
qed

lemma store_same:
  fixes c c' :: "'v arenaRadix"
  assumes n: "map labelFields (ar_nodes c') = map labelFields (ar_nodes c)"
    and s: "ar_prefixArena c' = ar_prefixArena c" "ar_freePrefixSpans c' = ar_freePrefixSpans c" "ar_putPrefixSpan c' = ar_putPrefixSpan c"
      "ar_livePrefixBytes c' = ar_livePrefixBytes c"
  shows "labels c' = labels c" "prefixInv R e c' = prefixInv R e c"
proof -
  let ?a = "ar_prefixArena c"
  have u: "labelStr ?a n = labelStr ?a m" "labelOk ?a n = labelOk ?a m" "labelSize ?a n = labelSize ?a m" "labelCov ?a n = labelCov ?a m"
    if "labelFields n = labelFields m" for n m :: "'v arenaRadixNode"
    using that by (simp_all add: labelFields_def labelStr_def labelLen_def labelOk_def labelSize_def labelCov_def labelStart_def)
  show "labels c' = labels c" unfolding labels_def s(1) by (rule map_by_fields [OF n]) (rule u(1))
  have z: "map (labelSize ?a) (ar_nodes c') = map (labelSize ?a) (ar_nodes c)" by (rule map_by_fields [OF n]) (rule u(3))
  have v: "map (\<lambda>n. labelCov ?a n p) (ar_nodes c') = map (\<lambda>n. labelCov ?a n p) (ar_nodes c)" for p
    by (rule map_by_fields [OF n]) (rule fun_cong [OF u(4)])
  have "map (labelOk ?a) (ar_nodes c') = map (labelOk ?a) (ar_nodes c)" by (rule map_by_fields [OF n]) (rule u(2))
  then have "(\<forall>b \<in> set (map (labelOk ?a) (ar_nodes c')). b) = (\<forall>b \<in> set (map (labelOk ?a) (ar_nodes c)). b)" by (rule arg_cong)
  then have k: "(\<forall>n \<in> set (ar_nodes c'). labelOk ?a n) = (\<forall>n \<in> set (ar_nodes c). labelOk ?a n)" by simp
  have o: "owners R c' p = owners R c p" for p by (simp add: owners_def nodesCov_def freeCov_def s v)
  show "prefixInv R e c' = prefixInv R e c" by (simp add: prefixInv_def s o k nodesSize_def z)
qed

lemma relinked_labels:
  assumes r: "relinked c c'"
  shows "labels c' = labels c" "prefixInv R e c' = prefixInv R e c"
proof -
  have n: "map labelFields (ar_nodes c') = map labelFields (ar_nodes c)"
    by (rule relinked_map [OF r]) (auto simp: labelFields_def dest: unlinkd_sel)
  have c': "c' = c\<lparr>ar_nodes := ar_nodes c'\<rparr>" using r by (simp add: relinked_def)
  have s: "ar_prefixArena c' = ar_prefixArena c" "ar_freePrefixSpans c' = ar_freePrefixSpans c" "ar_putPrefixSpan c' = ar_putPrefixSpan c"
      "ar_livePrefixBytes c' = ar_livePrefixBytes c" by (subst c', simp)+
  show "labels c' = labels c" "prefixInv R e c' = prefixInv R e c" by (rule store_same [OF n s])+
qed

lemma link_upd:
  assumes k: "unat k < length (ar_nodes c)" and u: "\<And>n. unlinkd (f n) = unlinkd n" and g: "\<And>l n. absNode l (f n) = g (absNode l n)"
  obtains c' where "updNode k f c = Inr c'" "relinked c c'" "absHeap c' = (absHeap c)(unat k := g (absHeap c (unat k)))"
    "c' = c\<lparr>ar_nodes := (ar_nodes c)[unat k := f (ar_nodes c ! unat k)]\<rparr>"
proof -
  let ?c' = "c\<lparr>ar_nodes := (ar_nodes c)[unat k := f (ar_nodes c ! unat k)]\<rparr>"
  have "relinked c ?c'"
    unfolding relinked_def by (intro conjI nth_equalityI) (simp_all add: nth_list_update [OF k] u)
  moreover have "absHeap ?c' = (absHeap c)(unat k := g (absHeap c (unat k)))"
    using absHeap_upd [OF k, of "f (ar_nodes c ! unat k)"] unlinkd_sel [OF u [of "ar_nodes c ! unat k"]] g k
    by (simp add: absHeap_in)
  ultimately show ?thesis using nodeAt_in(2) [OF k, of f] that by blast
qed

lemma linked_upd:
  assumes l: "linked c" and k: "unat k < length (ar_nodes c)"
    and n: "\<forall>j \<in> {an_parent n, an_child n, an_sibling n, an_prev n, an_next n}. ptrOk c j"
  shows "linked (c\<lparr>ar_nodes := (ar_nodes c)[unat k := n]\<rparr>)"
  using l n unfolding linked_def ptrOk_def by (auto dest!: set_update_subset_insert [THEN subsetD])

fun slotOf :: "arenaSlot \<Rightarrow> slot" where
  "slotOf (AChild k) = ChildSlot (unat k)"
| "slotOf (ASibling k) = SiblingSlot (unat k)"

fun slotIn :: "'v arenaRadix \<Rightarrow> arenaSlot \<Rightarrow> bool" where
  "slotIn c (AChild k) = (unat k < length (ar_nodes c))"
| "slotIn c (ASibling k) = (unat k < length (ar_nodes c))"

lemma slotGet_sim: "slotIn c s \<Longrightarrow> \<exists>x. arenaSlotGet c s = Inr x \<and> ptr x = slotGet (absHeap c) (slotOf s)"
  by (cases s) (auto simp: nodeAt_def absHeap_in)

lemma slotSet_sim:
  assumes "slotIn c s" "linked c" "ptrOk c x"
  obtains c' where "arenaSlotSet s x c = Inr c'" "relinked c c'" "linked c'" "absHeap c' = slotSet (slotOf s) (ptr x) (absHeap c)"
proof (cases s)
  case (AChild k)
  then have k: "unat k < length (ar_nodes c)" using assms(1) by simp
  obtain c' where "updNode k (\<lambda>n. n\<lparr>an_child := x\<rparr>) c = Inr c'" "relinked c c'"
    "absHeap c' = (absHeap c)(unat k := (absHeap c (unat k))\<lparr>rn_child := ptr x\<rparr>)"
    "c' = c\<lparr>ar_nodes := (ar_nodes c)[unat k := (ar_nodes c ! unat k)\<lparr>an_child := x\<rparr>]\<rparr>"
    by (rule link_upd [OF k, of "\<lambda>n. n\<lparr>an_child := x\<rparr>" "\<lambda>n. n\<lparr>rn_child := ptr x\<rparr>"]) (simp_all add: unlinkd_def absNode_upd)
  moreover from this(4) have "linked c'" using linked_upd [OF assms(2) k] linkedD [OF assms(2) k] assms(3) by simp
  ultimately show ?thesis using that AChild by simp
next
  case (ASibling k)
  then have k: "unat k < length (ar_nodes c)" using assms(1) by simp
  obtain c' where "updNode k (\<lambda>n. n\<lparr>an_sibling := x\<rparr>) c = Inr c'" "relinked c c'"
    "absHeap c' = (absHeap c)(unat k := (absHeap c (unat k))\<lparr>rn_sibling := ptr x\<rparr>)"
    "c' = c\<lparr>ar_nodes := (ar_nodes c)[unat k := (ar_nodes c ! unat k)\<lparr>an_sibling := x\<rparr>]\<rparr>"
    by (rule link_upd [OF k, of "\<lambda>n. n\<lparr>an_sibling := x\<rparr>" "\<lambda>n. n\<lparr>rn_sibling := ptr x\<rparr>"]) (simp_all add: unlinkd_def absNode_upd)
  moreover from this(4) have "linked c'" using linked_upd [OF assms(2) k] linkedD [OF assms(2) k] assms(3) by simp
  ultimately show ?thesis using that ASibling by simp
qed

lemma slotIn_relinked: "relinked c c' \<Longrightarrow> slotIn c' s = slotIn c s"
  by (cases s) (simp_all add: relinked_length)

lemma ptrOk_relinked: "relinked c c' \<Longrightarrow> ptrOk c' k = ptrOk c k"
  by (simp add: ptrOk_def relinked_length)

abbreviation idx :: "addr \<Rightarrow> u32" where "idx a \<equiv> of_nat a"

lemma idx_unat [simp]: "idx (unat k) = k"
  by simp

lemma unat_idx:
  assumes "linked c" "a < length (ar_nodes c)"
  shows "unat (idx a) = a" "idx a \<noteq> nilNode" "ptr (idx a) = Some a" "ptrOk c (idx a)"
proof -
  have "length (ar_nodes c) < 2 ^ 32" using assms(1) by (simp add: linked_def foregroundNoProtect_def nilNode_def)
  then show u: "unat (idx a) = a" using assms(2) by (simp add: unat_of_nat)
  then show n: "idx a \<noteq> nilNode" using index_not_nil [OF assms(1), of "idx a"] assms(2) by simp
  show "ptr (idx a) = Some a" using u n by simp
  show "ptrOk c (idx a)" using u assms(2) by (simp add: ptrOk_def)
qed

fun arenaHole :: "addr \<Rightarrow> ctx \<Rightarrow> arenaSlot" where
  "arenaHole r Top = AChild (idx r)"
| "arenaHole r (InChild a s sb C) = AChild (idx a)"
| "arenaHole r (InSib a s ch C) = ASibling (idx a)"

lemma arenaHole_ok:
  assumes l: "linked c" and inr: "\<forall>x \<in> insert r (set (caddrs C)). x < length (ar_nodes c)"
  shows "slotOf (arenaHole r C) = hole r C" "slotIn c (arenaHole r C)" "unat (idx (par r C)) = par r C"
proof -
  have i: "unat (idx a) = a" if "a \<in> insert r (set (caddrs C))" for a by (rule unat_idx(1) [OF l]) (use inr that in blast)
  show "slotOf (arenaHole r C) = hole r C" "slotIn c (arenaHole r C)"
    by (cases C; use i inr in simp)+
  show "unat (idx (par r C)) = par r C" by (rule i [OF par_mem])
qed

lemma arenaSlotLoop_left:
  assumes l: "linked c" and inr: "\<forall>x \<in> insert r (set (caddrs C)). x < length (ar_nodes c)"
    and c: "crepr (absHeap c) r C x" and a: "unat k \<notin> set (caddrs C)"
  shows "arenaSlotLoop c k (AChild (idx (par r C))) = arenaSlotLoop c k (arenaHole r C)"
  using inr c a
proof (induction C arbitrary: x)
  case (InSib b s ch C)
  have inr': "\<forall>x \<in> insert r (set (caddrs C)). x < length (ar_nodes c)" using InSib.prems(1) by simp
  have b: "b < length (ar_nodes c)" using InSib.prems(1) by simp
  have c': "crepr (absHeap c) r C (Some b)" using InSib.prems(2) by simp
  have ih: "arenaSlotLoop c k (AChild (idx (par r C))) = arenaSlotLoop c k (arenaHole r C)"
    by (rule InSib.IH [OF inr' c']) (use InSib.prems(3) in simp_all)
  note H = arenaHole_ok [OF l inr']
  obtain y where y: "arenaSlotGet c (arenaHole r C) = Inr y" "ptr y = Some b"
    using slotGet_sim [OF H(2)] crepr_slotGet [OF c'] H(1) by auto
  have yb: "y = idx b" "y \<noteq> nilNode" "y \<noteq> k" using y(2) InSib.prems(3) by (auto simp: ptr_Some)
  have "arenaSlotLoop c k (arenaHole r C) = arenaSlotLoop c k (ASibling (idx b))"
    using y(1) yb by (subst arenaSlotLoop.simps) simp
  then show ?case using ih by simp
qed simp_all

lemma arenaSlotLoop_spec:
  assumes l: "linked c" and inr: "\<forall>x \<in> insert r (set (caddrs C)). x < length (ar_nodes c)"
    and c: "crepr (absHeap c) r C (ptr k)" "k \<noteq> nilNode" and a: "unat k \<notin> set (caddrs C)"
  shows "arenaSlotLoop c k (AChild (idx (par r C))) = Some (Inr (Some (arenaHole r C)))"
proof -
  note H = arenaHole_ok [OF l inr]
  obtain y where y: "arenaSlotGet c (arenaHole r C) = Inr y" "ptr y = ptr k"
    using slotGet_sim [OF H(2)] crepr_slotGet [OF c(1)] H(1) by auto
  then have "y = k" by (simp only: ptr_inject)
  then have "arenaSlotLoop c k (arenaHole r C) = Some (Inr (Some (arenaHole r C)))"
    using y(1) c(2) by (subst arenaSlotLoop.simps) simp
  then show ?thesis using arenaSlotLoop_left [OF l inr c(1) a] by simp
qed

lemma clear_links_upd:
  assumes l: "linked c" and k: "unat k < length (ar_nodes c)"
  obtains c' where "updNode k (\<lambda>n. n\<lparr>an_sibling := nilNode, an_parent := nilNode\<rparr>) c = Inr c'" "relinked c c'" "linked c'"
    "absHeap c' = (absHeap c)(unat k := (absHeap c (unat k))\<lparr>rn_sibling := None, rn_parent := None\<rparr>)"
proof -
  obtain c' where "updNode k (\<lambda>n. n\<lparr>an_sibling := nilNode, an_parent := nilNode\<rparr>) c = Inr c'" "relinked c c'"
    "absHeap c' = (absHeap c)(unat k := (absHeap c (unat k))\<lparr>rn_sibling := None, rn_parent := None\<rparr>)"
    "c' = c\<lparr>ar_nodes := (ar_nodes c)[unat k := (ar_nodes c ! unat k)\<lparr>an_sibling := nilNode, an_parent := nilNode\<rparr>]\<rparr>"
    by (rule link_upd [OF k, of "\<lambda>n. n\<lparr>an_sibling := nilNode, an_parent := nilNode\<rparr>" "\<lambda>n. n\<lparr>rn_sibling := None, rn_parent := None\<rparr>"])
      (simp_all add: unlinkd_def absNode_upd)
  moreover from this(4) have "linked c'" using linked_upd [OF l k] linkedD [OF l k] by (simp add: ptrOk_def)
  ultimately show ?thesis using that by simp
qed

text \<open>Removing and replacing a child are those of the pointer-based tree.\<close>

lemma removeChild_sim:
  assumes l: "linked c" and inr: "\<forall>x \<in> insert r (set (caddrs C)). x < length (ar_nodes c)"
    and c: "crepr (absHeap c) r C (Some (unat k))" and k: "unat k < length (ar_nodes c)" and a: "unat k \<notin> set (caddrs C)"
    and rem: "removeChild (par r C) (unat k) (absHeap c) = Inr h'"
  obtains c' where "arena_removeChild (idx (par r C)) k c = Inr c'" "relinked c c'" "linked c'" "absHeap c' = h'"
proof -
  note H = arenaHole_ok [OF l inr]
  have kn: "k \<noteq> nilNode" by (rule index_not_nil [OF l k])
  have cp: "crepr (absHeap c) r C (ptr k)" using c kn by simp
  have fs: "findSlotLoop (absHeap c) (unat k) (ChildSlot (par r C)) = Some (Some (hole r C))" by (rule findSlot_spec [OF c a])
  obtain c1 where c1: "arenaSlotSet (arenaHole r C) (an_sibling (ar_nodes c ! unat k)) c = Inr c1" "relinked c c1" "linked c1"
    "absHeap c1 = slotSet (hole r C) (ptr (an_sibling (ar_nodes c ! unat k))) (absHeap c)"
    using slotSet_sim [OF H(2) l linkedD(3) [OF l k]] H(1) by metis
  have k1: "unat k < length (ar_nodes c1)" using k relinked_length [OF c1(2)] by simp
  obtain c2 where c2: "updNode k (\<lambda>n. n\<lparr>an_sibling := nilNode, an_parent := nilNode\<rparr>) c1 = Inr c2" "relinked c1 c2" "linked c2"
    "absHeap c2 = (absHeap c1)(unat k := (absHeap c1 (unat k))\<lparr>rn_sibling := None, rn_parent := None\<rparr>)"
    by (rule clear_links_upd [OF c1(3) k1])
  have "arena_removeChild (idx (par r C)) k c = Inr c2"
    unfolding arena_removeChild_def arenaSlotLoop_spec [OF l inr cp kn a] of_loop_simps bindr_simps option.case nodeAt_in(1) [OF k] c1(1) c2(1) ..
  moreover have "absHeap c2 = h'"
    using rem k unfolding removeChild_def fs by (simp add: Let_def c2(4) c1(4) absHeap_in)
  ultimately show ?thesis using that relinked_trans [OF c1(2) c2(2)] c2(3) by blast
qed

lemma replaceChild_sim:
  assumes l: "linked c" and inr: "\<forall>x \<in> insert r (set (caddrs C)). x < length (ar_nodes c)"
    and c: "crepr (absHeap c) r C (Some (unat k))" and k: "unat k < length (ar_nodes c)" and a: "unat k \<notin> set (caddrs C)"
    and n: "unat n < length (ar_nodes c)"
    and rep: "replaceChild (par r C) (unat k) (unat n) (absHeap c) = Inr h'"
  obtains c' where "arena_replaceChild (idx (par r C)) k n c = Inr c'" "relinked c c'" "linked c'" "absHeap c' = h'"
proof -
  note H = arenaHole_ok [OF l inr]
  have kn: "k \<noteq> nilNode" "n \<noteq> nilNode" by (rule index_not_nil [OF l k], rule index_not_nil [OF l n])
  have cp: "crepr (absHeap c) r C (ptr k)" using c kn by simp
  have fs: "findSlotLoop (absHeap c) (unat k) (ChildSlot (par r C)) = Some (Some (hole r C))" by (rule findSlot_spec [OF c a])
  let ?p = "idx (par r C)" and ?sb = "an_sibling (ar_nodes c ! unat k)"
  have pr: "par r C < length (ar_nodes c)" using inr par_mem [of r C] by blast
  obtain c1 where c1: "updNode n (\<lambda>x. x\<lparr>an_parent := ?p, an_sibling := ?sb\<rparr>) c = Inr c1" "relinked c c1"
    "absHeap c1 = (absHeap c)(unat n := (absHeap c (unat n))\<lparr>rn_parent := ptr ?p, rn_sibling := ptr ?sb\<rparr>)"
    "c1 = c\<lparr>ar_nodes := (ar_nodes c)[unat n := (ar_nodes c ! unat n)\<lparr>an_parent := ?p, an_sibling := ?sb\<rparr>]\<rparr>"
    by (rule link_upd [OF n, of "\<lambda>x. x\<lparr>an_parent := ?p, an_sibling := ?sb\<rparr>" "\<lambda>x. x\<lparr>rn_parent := ptr ?p, rn_sibling := ptr ?sb\<rparr>"])
      (simp_all add: unlinkd_def absNode_upd)
  have l1: "linked c1" unfolding c1(4) using linked_upd [OF l n] linkedD [OF l n] linkedD(3) [OF l k] unat_idx(4) [OF l pr] by simp
  have hin: "slotIn c1 (arenaHole r C)" using H(2) slotIn_relinked [OF c1(2)] by simp
  have nok: "ptrOk c1 n" using n ptrOk_relinked [OF c1(2)] by (simp add: ptrOk_def)
  obtain c2 where c2: "arenaSlotSet (arenaHole r C) n c1 = Inr c2" "relinked c1 c2" "linked c2"
    "absHeap c2 = slotSet (hole r C) (ptr n) (absHeap c1)"
    using slotSet_sim [OF hin l1 nok] H(1) by metis
  have k2: "unat k < length (ar_nodes c2)" using k relinked_length [OF c1(2)] relinked_length [OF c2(2)] by simp
  obtain c3 where c3: "updNode k (\<lambda>n. n\<lparr>an_sibling := nilNode, an_parent := nilNode\<rparr>) c2 = Inr c3" "relinked c2 c3" "linked c3"
    "absHeap c3 = (absHeap c2)(unat k := (absHeap c2 (unat k))\<lparr>rn_sibling := None, rn_parent := None\<rparr>)"
    by (rule clear_links_upd [OF c2(3) k2])
  have "arena_replaceChild ?p k n c = Inr c3"
    unfolding arena_replaceChild_def arenaSlotLoop_spec [OF l inr cp kn(1) a] of_loop_simps bindr_simps option.case nodeAt_in(1) [OF k] c1(1) c2(1) c3(1) ..
  moreover have "absHeap c3 = h'"
    using rep k kn unfolding replaceChild_def fs by (simp add: Let_def c3(4) c2(4) c1(3) absHeap_in unat_idx(3) [OF l pr])
  ultimately show ?thesis using that relinked_trans [OF relinked_trans [OF c1(2) c2(2)] c3(2)] c3(3) by blast
qed

subsection \<open>The place of a child\<close>

definition prevSlot :: "u32 \<Rightarrow> u32 \<Rightarrow> arenaSlot" where
  \<comment> \<open>the field after \<open>prevID\<close> in the child list of \<open>nID\<close>\<close>
  "prevSlot nID prevID = (if prevID = nilNode then AChild nID else ASibling prevID)"

lemma findChildLoop_spec:
  assumes inv: "prefixInv R e c" and "repr (absHeap c) (par r C) H" "ordered H" "ptr k = fhead H"
    and "hole r C = slotOf (prevSlot p q)" "\<forall>l \<in> lefts C. l < b"
  shows "\<exists>C' H' x q' y. findChildLoop c b q k = Some (Inr (x, q', y)) \<and> plug C H = plug C' H' \<and> par r C' = par r C
    \<and> path C' = path C \<and> hole r C' = slotOf (prevSlot p q') \<and> (\<forall>l \<in> lefts C'. l < b)
    \<and> (if x = nilNode then ptr y = fhead H' \<and> (\<forall>l \<in> firsts H'. b < l) \<and> fsub b H = None
       else \<exists>s ch sb. H' = Branch (unat x) s ch sb \<and> hd s = b \<and> ptr y = fhead sb \<and> fsub b H = Some (unat x, s, ch))"
  using assms(2-)
proof (induction H arbitrary: C q k)
  case Tip
  then have "findChildLoop c b q k = Some (Inr (nilNode, q, nilNode))" by (subst findChildLoop.simps) simp
  then show ?case using Tip by (intro exI [of _ C] exI [of _ Tip] exI) (auto simp: intro!: exI)
next
  case (Branch a s ch sb)
  have l: "links (absHeap c a) = (s, Some (par r C), fhead ch, fhead sb)" and s: "s \<noteq> []" using Branch.prems(1,2) by auto
  note N = abs_node [OF inv l s]
  have k: "k \<noteq> nilNode" "unat k = a" using Branch.prems(3) by (simp_all add: ptr_Some)
  have n: "nodeAt c k = Inr (ar_nodes c ! a)" using N(1) k by (simp add: nodeAt_def)
  let ?sb = "an_sibling (ar_nodes c ! a)"
  consider (here) "hd s = b" | (before) "b < hd s" | (after) "hd s < b" by fastforce
  then show ?case
  proof cases
    case here
    then have "findChildLoop c b q k = Some (Inr (k, q, ?sb))" using k n N(6) by (subst findChildLoop.simps) simp
    then show ?thesis using Branch.prems k here N(5)
      by (intro exI [of _ C] exI [of _ "Branch a s ch sb"] exI [of _ k] exI [of _ q] exI [of _ ?sb]) auto
  next
    case before
    then have "findChildLoop c b q k = Some (Inr (nilNode, q, k))" using k n N(6) by (subst findChildLoop.simps) simp
    moreover have "fsub b sb = None" using before Branch.prems(2) by (auto simp: fsub_None)
    ultimately show ?thesis using Branch.prems before
      by (intro exI [of _ C] exI [of _ "Branch a s ch sb"] exI [of _ nilNode] exI [of _ q] exI [of _ k]) auto
  next
    case after
    then have run: "findChildLoop c b q k = findChildLoop c b k ?sb" using k n N(6) by (subst findChildLoop.simps) auto
    have sub: "fsub b (Branch a s ch sb) = fsub b sb" using after by auto
    let ?C = "InSib a s ch C"
    have 1: "repr (absHeap c) (par r ?C) sb" "ordered sb" "ptr ?sb = fhead sb" using Branch.prems(1,2) N(5) by simp_all
    have 2: "hole r ?C = slotOf (prevSlot p k)" using k by (simp add: prevSlot_def)
    have 3: "\<forall>l \<in> lefts ?C. l < b" using Branch.prems(5) after by simp
    have "\<exists>C' H' x q' y. findChildLoop c b k ?sb = Some (Inr (x, q', y)) \<and> plug ?C sb = plug C' H' \<and> par r C' = par r ?C
      \<and> path C' = path ?C \<and> hole r C' = slotOf (prevSlot p q') \<and> (\<forall>l \<in> lefts C'. l < b)
      \<and> (if x = nilNode then ptr y = fhead H' \<and> (\<forall>l \<in> firsts H'. b < l) \<and> fsub b sb = None
         else \<exists>s ch sb'. H' = Branch (unat x) s ch sb' \<and> hd s = b \<and> ptr y = fhead sb' \<and> fsub b sb = Some (unat x, s, ch))"
      by (rule Branch.IH(2) [OF 1 2 3])
    then show ?thesis unfolding run sub by simp
  qed
qed

definition foundAt :: "addr \<Rightarrow> u32 \<Rightarrow> char \<Rightarrow> ctx \<Rightarrow> forest \<Rightarrow> u32 \<times> u32 \<times> u32 \<Rightarrow> ctx \<Rightarrow> forest \<Rightarrow> bool" where
  \<comment> \<open>what the answer of \<open>findChildWithPrev\<close> says about the children \<open>H\<close> at \<open>C\<close>\<close>
  "foundAt r p b C H res C' H' \<longleftrightarrow> (case res of (x, q, y) \<Rightarrow> plug C H = plug C' H' \<and> par r C' = par r C
    \<and> path C' = path C \<and> hole r C' = slotOf (prevSlot p q) \<and> (\<forall>l \<in> lefts C'. l < b)
    \<and> (if x = nilNode then ptr y = fhead H' \<and> (\<forall>l \<in> firsts H'. b < l) \<and> fsub b H = None
       else \<exists>s ch sb. H' = Branch (unat x) s ch sb \<and> hd s = b \<and> ptr y = fhead sb \<and> fsub b H = Some (unat x, s, ch)))"

lemma findChildWithPrev_spec:
  assumes inv: "prefixInv R e c" and k: "unat k < length (ar_nodes c)" and C: "hole r C = ChildSlot (unat k)" "par r C = unat k"
    and t: "tree (absHeap c) r (plug C H)" and o: "ordered (plug C H)"
  shows "\<exists>x q y C' H'. findChildWithPrev c k b = Inr (x, q, y) \<and> foundAt r k b C H (x, q, y) C' H'"
proof -
  have c: "crepr (absHeap c) r C (fhead H)" and rp: "repr (absHeap c) (par r C) H" using t by (simp_all add: tree_plug)
  have oH: "ordered H" using o by (simp add: plug_ordered)
  have ch: "ptr (an_child (ar_nodes c ! unat k)) = fhead H" using crepr_slotGet [OF c] C(1) k by (simp add: absHeap_in)
  have h: "hole r C = slotOf (prevSlot k nilNode)" using C(1) by (simp add: prevSlot_def)
  have lf: "\<forall>l \<in> lefts C. l < b" using C(1) by (cases C) auto
  obtain C' H' x q y where f: "findChildLoop c b nilNode (an_child (ar_nodes c ! unat k)) = Some (Inr (x, q, y))"
    "foundAt r k b C H (x, q, y) C' H'"
    using findChildLoop_spec [OF inv rp oH ch h lf] unfolding foundAt_def prod.case by (elim exE) (erule conjE, rule that [unfolded foundAt_def prod.case], assumption+)
  have "findChildWithPrev c k b = Inr (x, q, y)"
    unfolding findChildWithPrev_def nodeAt_in(1) [OF k] bindr_simps f(1) of_loop_simps ..
  then show ?thesis using f(2) by blast
qed

lemma linkChildAt_sim:
  assumes l: "linked c" and nID: "unat nID < length (ar_nodes c)" and new: "unat new < length (ar_nodes c)" and nx: "ptrOk c nextID"
    and q: "slotIn c (prevSlot nID q)"
  obtains c' where "linkChildAt nID q nextID new c = Inr c'" "relinked c c'" "linked c'"
    "absHeap c' = slotSet (slotOf (prevSlot nID q)) (Some (unat new))
       ((absHeap c)(unat new := (absHeap c (unat new))\<lparr>rn_parent := Some (unat nID), rn_sibling := ptr nextID\<rparr>))"
proof -
  have nn: "nID \<noteq> nilNode" "new \<noteq> nilNode" by (rule index_not_nil [OF l nID], rule index_not_nil [OF l new])
  obtain c1 where c1: "updNode new (\<lambda>x. x\<lparr>an_parent := nID, an_sibling := nextID\<rparr>) c = Inr c1" "relinked c c1"
    "absHeap c1 = (absHeap c)(unat new := (absHeap c (unat new))\<lparr>rn_parent := ptr nID, rn_sibling := ptr nextID\<rparr>)"
    "c1 = c\<lparr>ar_nodes := (ar_nodes c)[unat new := (ar_nodes c ! unat new)\<lparr>an_parent := nID, an_sibling := nextID\<rparr>]\<rparr>"
    by (rule link_upd [OF new, of "\<lambda>x. x\<lparr>an_parent := nID, an_sibling := nextID\<rparr>" "\<lambda>x. x\<lparr>rn_parent := ptr nID, rn_sibling := ptr nextID\<rparr>"])
      (simp_all add: unlinkd_def absNode_upd)
  have l1: "linked c1" unfolding c1(4) using linked_upd [OF l new] linkedD [OF l new] nx nID by (simp add: ptrOk_def)
  have q1: "slotIn c1 (prevSlot nID q)" using q slotIn_relinked [OF c1(2)] by simp
  have nok: "ptrOk c1 new" using new ptrOk_relinked [OF c1(2)] by (simp add: ptrOk_def)
  obtain c2 where c2: "arenaSlotSet (prevSlot nID q) new c1 = Inr c2" "relinked c1 c2" "linked c2"
    "absHeap c2 = slotSet (slotOf (prevSlot nID q)) (ptr new) (absHeap c1)"
    by (rule slotSet_sim [OF q1 l1 nok])
  have "linkChildAt nID q nextID new c = Inr c2"
    unfolding linkChildAt_def c1(1) bindr_simps using c2(1) by (simp add: prevSlot_def split: if_splits)
  moreover have "absHeap c2 = slotSet (slotOf (prevSlot nID q)) (Some (unat new))
       ((absHeap c)(unat new := (absHeap c (unat new))\<lparr>rn_parent := Some (unat nID), rn_sibling := ptr nextID\<rparr>))"
    by (simp only: c2(4) c1(3) ptr_not_nil [OF nn(1)] ptr_not_nil [OF nn(2)])
  ultimately show ?thesis using that relinked_trans [OF c1(2) c2(2)] c2(3) by blast
qed

end
