(* ===== verification/ArenaList.thy ===== *)
theory ArenaList
  imports ArenaTree RadixShadow
begin

text \<open>
  The recency list of the arena: \<open>moveToFront\<close>, \<open>pushFront\<close> and \<open>remove\<close> of \<^verbatim>\<open>arena_radix.go\<close> are those of the
  pointer-based list, so the facts about doubly linked lists (\<open>dll\<close>) hold for the list threaded through the slice.
\<close>

lemma ptr_eq_Some: "k \<noteq> nilNode \<Longrightarrow> ptr j = Some (unat k) \<longleftrightarrow> j = k"
  unfolding ptr_not_nil [symmetric] by (rule ptr_inject)

definition absEnds :: "'v arenaRadix \<Rightarrow> radixEnds" where
  "absEnds c = \<lparr>r_head = ptr (ar_head c), r_tail = ptr (ar_tail c), r_len = ar_len c\<rparr>"

lemma absEnds_sel [simp]:
  "r_head (absEnds c) = ptr (ar_head c)" "r_tail (absEnds c) = ptr (ar_tail c)" "r_len (absEnds c) = ar_len c"
  by (simp_all add: absEnds_def)

definition unlistd :: "'v arenaRadixNode \<Rightarrow> 'v arenaRadixNode" where
  "unlistd n = n\<lparr>an_prev := 0, an_next := 0\<rparr>"

definition relisted :: "'v arenaRadix \<Rightarrow> 'v arenaRadix \<Rightarrow> bool" where
  \<comment> \<open>only the links of the recency list, its ends and its length differ\<close>
  "relisted c c' \<longleftrightarrow> c' = c\<lparr>ar_nodes := ar_nodes c', ar_head := ar_head c', ar_tail := ar_tail c', ar_len := ar_len c'\<rparr>
     \<and> map unlistd (ar_nodes c') = map unlistd (ar_nodes c)"

lemma relisted_refl [simp]: "relisted c c"
  by (simp add: relisted_def)

lemma relisted_trans:
  assumes "relisted c c1" "relisted c1 c2"
  shows "relisted c c2"
proof -
  have 1: "c1 = c\<lparr>ar_nodes := ar_nodes c1, ar_head := ar_head c1, ar_tail := ar_tail c1, ar_len := ar_len c1\<rparr>"
    and 2: "c2 = c1\<lparr>ar_nodes := ar_nodes c2, ar_head := ar_head c2, ar_tail := ar_tail c2, ar_len := ar_len c2\<rparr>"
    using assms by (simp_all add: relisted_def)
  have "c1\<lparr>ar_nodes := ns, ar_head := x, ar_tail := y, ar_len := z\<rparr> = c\<lparr>ar_nodes := ns, ar_head := x, ar_tail := y, ar_len := z\<rparr>"
    for ns x y z by (subst 1) simp
  then have "c2 = c\<lparr>ar_nodes := ar_nodes c2, ar_head := ar_head c2, ar_tail := ar_tail c2, ar_len := ar_len c2\<rparr>" using 2 by simp
  then show ?thesis using assms by (simp add: relisted_def)
qed

lemma relisted_length: "relisted c c' \<Longrightarrow> length (ar_nodes c') = length (ar_nodes c)"
  unfolding relisted_def by (metis length_map)

lemma unlistd_sel:
  "unlistd n = unlistd m \<Longrightarrow> an_prefixOff n = an_prefixOff m \<and> an_prefixLen n = an_prefixLen m \<and> an_firstByte n = an_firstByte m
     \<and> an_prefixFlags n = an_prefixFlags m \<and> an_size n = an_size m \<and> an_parent n = an_parent m \<and> an_child n = an_child m
     \<and> an_sibling n = an_sibling m \<and> an_keyLenAndFlags n = an_keyLenAndFlags m \<and> an_value n = an_value m"
  by (cases n; cases m) (simp add: unlistd_def)

lemma relisted_node:
  assumes "relisted c c'" "i < length (ar_nodes c)"
  shows "unlistd (ar_nodes c' ! i) = unlistd (ar_nodes c ! i)"
proof -
  have "map unlistd (ar_nodes c') ! i = map unlistd (ar_nodes c) ! i" using assms(1) by (simp add: relisted_def)
  then show ?thesis using assms relisted_length [OF assms(1)] by simp
qed

lemma relisted_labels:
  assumes r: "relisted c c'"
  shows "labels c' = labels c" "prefixInv R e c' = prefixInv R e c"
proof -
  have n: "map labelFields (ar_nodes c') = map labelFields (ar_nodes c)"
  proof (rule nth_equalityI)
    fix i assume "i < length (map labelFields (ar_nodes c'))"
    then have i: "i < length (ar_nodes c)" using relisted_length [OF r] by simp
    show "map labelFields (ar_nodes c') ! i = map labelFields (ar_nodes c) ! i"
      using unlistd_sel [OF relisted_node [OF r i]] i relisted_length [OF r] by (simp add: labelFields_def)
  qed (simp add: relisted_length [OF r])
  have c': "c' = c\<lparr>ar_nodes := ar_nodes c', ar_head := ar_head c', ar_tail := ar_tail c', ar_len := ar_len c'\<rparr>"
    using r by (simp add: relisted_def)
  have s: "ar_prefixArena c' = ar_prefixArena c" "ar_freePrefixSpans c' = ar_freePrefixSpans c" "ar_putPrefixSpan c' = ar_putPrefixSpan c"
      "ar_livePrefixBytes c' = ar_livePrefixBytes c" by (subst c', simp)+
  show "labels c' = labels c" "prefixInv R e c' = prefixInv R e c" by (rule store_same [OF n s])+
qed

lemma list_upd:
  assumes l: "linked c" and k: "unat k < length (ar_nodes c)" and u: "\<And>n. unlistd (f n) = unlistd n"
    and g: "\<And>l n. absNode l (f n) = g (absNode l n)"
    and p: "ptrOk c (an_prev (f (ar_nodes c ! unat k)))" "ptrOk c (an_next (f (ar_nodes c ! unat k)))"
  obtains c' where "updNode k f c = Inr c'" "relisted c c'" "linked c'" "absHeap c' = (absHeap c)(unat k := g (absHeap c (unat k)))"
    "ar_head c' = ar_head c" "ar_tail c' = ar_tail c" "ar_len c' = ar_len c"
proof -
  let ?n = "f (ar_nodes c ! unat k)"
  let ?c' = "c\<lparr>ar_nodes := (ar_nodes c)[unat k := ?n]\<rparr>"
  note s = unlistd_sel [OF u [of "ar_nodes c ! unat k"]]
  have "relisted c ?c'"
    unfolding relisted_def by (intro conjI nth_equalityI) (simp_all add: nth_list_update [OF k] u)
  moreover have "absHeap ?c' = (absHeap c)(unat k := g (absHeap c (unat k)))"
    using absHeap_upd [OF k, of ?n] s g k by (simp add: absHeap_in)
  moreover have "linked ?c'" by (rule linked_upd [OF l k]) (use s p linkedD [OF l k] in simp)
  ultimately show ?thesis using nodeAt_in(2) [OF k, of f] that [of ?c'] by simp
qed

lemma ptrOk_relisted: "relisted c c' \<Longrightarrow> ptrOk c' k = ptrOk c k"
  by (simp add: ptrOk_def relisted_length)

lemma set_prev:
  assumes l: "linked c" and k: "unat k < length (ar_nodes c)" and p: "ptrOk c p"
  obtains c' where "updNode k (\<lambda>m. m\<lparr>an_prev := p\<rparr>) c = Inr c'" "relisted c c'" "linked c'"
    "absHeap c' = (absHeap c)(unat k := (absHeap c (unat k))\<lparr>rn_prev := ptr p\<rparr>)" "absEnds c' = absEnds c"
proof (rule list_upd [OF l k, of "\<lambda>m. m\<lparr>an_prev := p\<rparr>" "\<lambda>m. m\<lparr>rn_prev := ptr p\<rparr>"])
  show "ptrOk c (an_prev ((ar_nodes c ! unat k)\<lparr>an_prev := p\<rparr>))" "ptrOk c (an_next ((ar_nodes c ! unat k)\<lparr>an_prev := p\<rparr>))"
    using p linkedD(5) [OF l k] by simp_all
qed (use that in \<open>simp_all add: unlistd_def absNode_upd absEnds_def\<close>)

lemma set_next:
  assumes l: "linked c" and k: "unat k < length (ar_nodes c)" and p: "ptrOk c p"
  obtains c' where "updNode k (\<lambda>m. m\<lparr>an_next := p\<rparr>) c = Inr c'" "relisted c c'" "linked c'"
    "absHeap c' = (absHeap c)(unat k := (absHeap c (unat k))\<lparr>rn_next := ptr p\<rparr>)" "absEnds c' = absEnds c"
proof (rule list_upd [OF l k, of "\<lambda>m. m\<lparr>an_next := p\<rparr>" "\<lambda>m. m\<lparr>rn_next := ptr p\<rparr>"])
  show "ptrOk c (an_prev ((ar_nodes c ! unat k)\<lparr>an_next := p\<rparr>))" "ptrOk c (an_next ((ar_nodes c ! unat k)\<lparr>an_next := p\<rparr>))"
    using p linkedD(4) [OF l k] by simp_all
qed (use that in \<open>simp_all add: unlistd_def absNode_upd absEnds_def\<close>)

lemma set_both:
  assumes l: "linked c" and k: "unat k < length (ar_nodes c)" and p: "ptrOk c x"
  obtains c' where "updNode k (\<lambda>m. m\<lparr>an_prev := nilNode, an_next := x\<rparr>) c = Inr c'" "relisted c c'" "linked c'"
    "absHeap c' = (absHeap c)(unat k := (absHeap c (unat k))\<lparr>rn_prev := None, rn_next := ptr x\<rparr>)" "absEnds c' = absEnds c"
proof (rule list_upd [OF l k, of "\<lambda>m. m\<lparr>an_prev := nilNode, an_next := x\<rparr>" "\<lambda>m. m\<lparr>rn_prev := None, rn_next := ptr x\<rparr>"])
  show "ptrOk c (an_prev ((ar_nodes c ! unat k)\<lparr>an_prev := nilNode, an_next := x\<rparr>))"
    "ptrOk c (an_next ((ar_nodes c ! unat k)\<lparr>an_prev := nilNode, an_next := x\<rparr>))"
    using p by (simp_all add: ptrOk_def)
qed (use that in \<open>simp_all add: unlistd_def absNode_upd absEnds_def\<close>)

lemma set_ends:
  assumes "linked c"
  shows "relisted c (c\<lparr>ar_tail := p\<rparr>)" "linked (c\<lparr>ar_tail := p\<rparr>)" "absHeap (c\<lparr>ar_tail := p\<rparr>) = absHeap c"
    "relisted c (c\<lparr>ar_head := p\<rparr>)" "linked (c\<lparr>ar_head := p\<rparr>)" "absHeap (c\<lparr>ar_head := p\<rparr>) = absHeap c"
    "relisted c (c\<lparr>ar_len := z\<rparr>)" "linked (c\<lparr>ar_len := z\<rparr>)" "absHeap (c\<lparr>ar_len := z\<rparr>) = absHeap c"
  using assms by (simp_all add: relisted_def linked_def ptrOk_def absHeap_def labels_def fun_eq_iff)

subsection \<open>The operations\<close>

definition listed :: "('v :: zero) arenaRadix \<Rightarrow> addr list \<Rightarrow> bool" where
  "listed c as \<longleftrightarrow> dll (entryOf (\<lambda>_. '''') (absHeap c), listOf (absEnds c)) as \<and> (\<forall>a \<in> set as. a < length (ar_nodes c))
     \<and> ptrOk c (ar_head c) \<and> ptrOk c (ar_tail c)"

lemma moveToFront_sim:
  assumes l: "linked c" and d: "listed c as" and k: "unat k \<in> set as"
  obtains c' where "arena_moveToFront k c = Inr c'" "relisted c c'" "linked c'"
    "moveToFront (unat k) (absHeap c, absEnds c) = (absHeap c', absEnds c')"
proof (cases "ar_head c = k")
  case True
  have kr: "unat k < length (ar_nodes c)" using d k by (auto simp: listed_def)
  have "k \<noteq> nilNode" by (rule index_not_nil [OF l kr])
  then show ?thesis using True that [of c] l by (simp add: arena_moveToFront_def moveToFront_def)
next
  case False
  have kr: "unat k < length (ar_nodes c)" using d k by (auto simp: listed_def)
  have kn: "k \<noteq> nilNode" by (rule index_not_nil [OF l kr])
  have dl: "dll (entryOf (\<lambda>_. '''') (absHeap c), listOf (absEnds c)) as" using d by (simp add: listed_def)
  let ?h = "absHeap c" and ?n = "ar_nodes c ! unat k"
  let ?p = "an_prev ?n" and ?x = "an_next ?n"
  have hk: "rn_prev (?h (unat k)) = ptr ?p" "rn_next (?h (unat k)) = ptr ?x" using kr by (simp_all add: absHeap_in)
  have tail: "?x = nilNode \<longleftrightarrow> ptr (ar_tail c) = Some (unat k)"
    using dll_ends(2) [OF dl k] hk(2) by (simp add: listOf_def)
  note po = linkedD(4,5) [OF l kr]
  obtain c1 where c1: "(if ?p \<noteq> nilNode then updNode ?p (\<lambda>m. m\<lparr>an_next := ?x\<rparr>) c else Inr c) = Inr c1" "relisted c c1" "linked c1"
    "absHeap c1 = (case ptr ?p of Some p \<Rightarrow> ?h(p := (?h p)\<lparr>rn_next := ptr ?x\<rparr>) | None \<Rightarrow> ?h)" "absEnds c1 = absEnds c"
  proof (cases "?p = nilNode")
    case True
    then show ?thesis using that [of c] l by simp
  next
    case pn: False
    show ?thesis using set_next [OF l ptrOk_index [OF po(1) pn] po(2)] that pn by auto
  qed
  have x1: "ptrOk c1 ?x" "ptrOk c1 ?p" using po ptrOk_relisted [OF c1(2)] by simp_all
  have h1: "rn_next (absHeap c1 (unat k)) = ptr ?x" "rn_prev (absHeap c1 (unat k)) = ptr ?p"
    using hk by (auto simp: c1(4) split: option.splits)
  obtain c2 where c2: "(if ?x \<noteq> nilNode then updNode ?x (\<lambda>m. m\<lparr>an_prev := ?p\<rparr>) c1 else Inr (c1\<lparr>ar_tail := ?p\<rparr>)) = Inr c2"
    "relisted c1 c2" "linked c2"
    "absHeap c2 = (case ptr ?x of Some n \<Rightarrow> (absHeap c1)(n := (absHeap c1 n)\<lparr>rn_prev := ptr ?p\<rparr>) | None \<Rightarrow> absHeap c1)"
    "absEnds c2 = (if ?x = nilNode then (absEnds c)\<lparr>r_tail := ptr ?p\<rparr> else absEnds c)"
  proof (cases "?x = nilNode")
    case True
    show ?thesis using that [of "c1\<lparr>ar_tail := ?p\<rparr>"] set_ends(1-3) [OF c1(3)] True c1(5) by (simp add: absEnds_def)
  next
    case xn: False
    show ?thesis using set_prev [OF c1(3) ptrOk_index [OF x1(1) xn] x1(2)] that xn c1(5) by auto
  qed
  have k2: "unat k < length (ar_nodes c2)" using kr relisted_length [OF c1(2)] relisted_length [OF c2(2)] by simp
  have hd2: "ar_head c2 = ar_head c" using c2(5) by (auto simp: absEnds_def split: if_splits)
  have ho: "ptrOk c2 (ar_head c2)" using d ptrOk_relisted [OF c1(2)] ptrOk_relisted [OF c2(2)] by (simp add: hd2 listed_def)
  obtain c3 where c3: "updNode k (\<lambda>m. m\<lparr>an_prev := nilNode, an_next := ar_head c2\<rparr>) c2 = Inr c3" "relisted c2 c3" "linked c3"
    "absHeap c3 = (absHeap c2)(unat k := (absHeap c2 (unat k))\<lparr>rn_prev := None, rn_next := ptr (ar_head c2)\<rparr>)" "absEnds c3 = absEnds c2"
    by (rule set_both [OF c2(3) k2 ho])
  have hd3: "ar_head c3 = ar_head c" using c3(5) hd2 by (auto simp: absEnds_def)
  have ho3: "ptrOk c3 (ar_head c3)" "ptrOk c3 k" using ho k2 ptrOk_relisted [OF c3(2)] by (simp_all add: hd3 hd2 ptrOk_def)
  obtain c4 where c4: "(if ar_head c3 \<noteq> nilNode then updNode (ar_head c3) (\<lambda>m. m\<lparr>an_prev := k\<rparr>) c3 else Inr c3) = Inr c4" "relisted c3 c4" "linked c4"
    "absHeap c4 = (case ptr (ar_head c) of Some f \<Rightarrow> (absHeap c3)(f := (absHeap c3 f)\<lparr>rn_prev := ptr k\<rparr>) | None \<Rightarrow> absHeap c3)" "absEnds c4 = absEnds c3"
  proof (cases "ar_head c3 = nilNode")
    case True
    then show ?thesis using that [of c3] c3(3) hd3 by simp
  next
    case hn: False
    show ?thesis using set_prev [OF c3(3) ptrOk_index [OF ho3(1) hn] ho3(2)] that hn hd3 by auto
  qed
  let ?c' = "c4\<lparr>ar_head := k\<rparr>"
  have "arena_moveToFront k c = Inr ?c'"
    unfolding arena_moveToFront_def if_not_P [OF False] nodeAt_in(1) [OF kr] bindr_simps Let_def c1(1) c2(1) c3(1) c4(1) ..
  moreover have "relisted c ?c'"
    using relisted_trans [OF relisted_trans [OF relisted_trans [OF relisted_trans [OF c1(2) c2(2)] c3(2)] c4(2)] set_ends(4) [OF c4(3)]] .
  moreover have "moveToFront (unat k) (?h, absEnds c) = (absHeap ?c', absEnds ?c')"
  proof -
    have hn: "ptr (ar_head c) \<noteq> ptr k" using False ptr_eq_Some [OF kn] ptr_not_nil [OF kn] by simp
    have e: "absEnds ?c' = (absEnds c2)\<lparr>r_head := Some (unat k)\<rparr>" using c3(5) c4(5) kn by (simp add: absEnds_def)
    have t: "rn_prev (absHeap c2 (unat k)) = ptr ?p" if "?x = nilNode" using that c2(4) h1(2) by simp
    have ends: "(if ptr (ar_tail c) = ptr k then (absEnds c)\<lparr>r_tail := rn_prev (absHeap c2 (unat k))\<rparr> else absEnds c) = absEnds c2"
      using c2(5) tail t ptr_not_nil [OF kn] by auto
    have h: "r_head (absEnds c2) = ptr (ar_head c)" by (simp add: hd2)
    show ?thesis
      unfolding moveToFront_def Let_def prod.case absEnds_sel ptr_not_nil [OF kn, symmetric] if_not_P [OF hn] hk c1(4) [symmetric] h1 c2(4) [symmetric] ends h
        c3(4) [symmetric] c4(4) [folded hd2, symmetric] set_ends(6) [OF c4(3)] e [folded ptr_not_nil [OF kn]] ..
  qed
  ultimately show ?thesis using that [of ?c'] set_ends(5) [OF c4(3)] by blast
qed

lemma pushFront_sim:
  assumes l: "linked c" and kr: "unat k < length (ar_nodes c)" and ends: "ptrOk c (ar_head c)" "ptrOk c (ar_tail c)"
  obtains c' where "arena_pushFront k c = Inr c'" "relisted c c'" "linked c'"
    "pushFront (unat k) (absHeap c, absEnds c) = (absHeap c', absEnds c')"
proof -
  have kn: "k \<noteq> nilNode" by (rule index_not_nil [OF l kr])
  let ?h = "absHeap c"
  obtain c1 where c1: "updNode k (\<lambda>m. m\<lparr>an_prev := nilNode, an_next := ar_head c\<rparr>) c = Inr c1" "relisted c c1" "linked c1"
    "absHeap c1 = ?h(unat k := (?h (unat k))\<lparr>rn_prev := None, rn_next := ptr (ar_head c)\<rparr>)" "absEnds c1 = absEnds c"
    by (rule set_both [OF l kr ends(1)])
  have hd1: "ar_head c1 = ar_head c" "ar_tail c1 = ar_tail c" using c1(5) by (simp_all add: absEnds_def)
  have o1: "ptrOk c1 (ar_head c1)" "ptrOk c1 k" using ends kr ptrOk_relisted [OF c1(2)] by (simp_all add: hd1 ptrOk_def)
  obtain c2 where c2: "(if ar_head c1 \<noteq> nilNode then updNode (ar_head c1) (\<lambda>m. m\<lparr>an_prev := k\<rparr>) c1 else Inr c1) = Inr c2" "relisted c1 c2" "linked c2"
    "absHeap c2 = (case ptr (ar_head c) of Some f \<Rightarrow> (absHeap c1)(f := (absHeap c1 f)\<lparr>rn_prev := ptr k\<rparr>) | None \<Rightarrow> absHeap c1)" "absEnds c2 = absEnds c1"
  proof (cases "ar_head c1 = nilNode")
    case True
    then show ?thesis using that [of c1] c1(3) hd1 by simp
  next
    case hn: False
    show ?thesis using set_prev [OF c1(3) ptrOk_index [OF o1(1) hn] o1(2)] that hn hd1 by auto
  qed
  let ?c3 = "c2\<lparr>ar_head := k\<rparr>"
  let ?c4 = "if ar_tail ?c3 = nilNode then ?c3\<lparr>ar_tail := k\<rparr> else ?c3"
  let ?c' = "?c4\<lparr>ar_len := ar_len ?c4 + 1\<rparr>"
  have 3: "relisted c2 ?c3" "linked ?c3" "absHeap ?c3 = absHeap c2" by (rule set_ends(4-6) [OF c2(3)])+
  have 4: "relisted ?c3 ?c4" "linked ?c4" "absHeap ?c4 = absHeap c2" using set_ends(1-3) [OF 3(2)] 3 by auto
  have 5: "relisted ?c4 ?c'" "linked ?c'" "absHeap ?c' = absHeap c2" using set_ends(7-9) [OF 4(2)] 4(3) by simp_all
  have run: "arena_pushFront k c = Inr ?c'" unfolding arena_pushFront_def c1(1) bindr_simps c2(1) Let_def ..
  have "pushFront (unat k) (?h, absEnds c) = (absHeap ?c', absEnds ?c')"
  proof -
    have t: "ptr (ar_tail c2) = ptr (ar_tail c)" "ar_len c2 = ar_len c" using c2(5) c1(5) by (auto simp: absEnds_def)
    then have e: "absEnds ?c' = (let l1 = (absEnds c)\<lparr>r_head := ptr k\<rparr>;
        l2 = (if r_tail l1 = None then l1\<lparr>r_tail := ptr k\<rparr> else l1) in l2\<lparr>r_len := r_len l2 + 1\<rparr>)"
      by (simp add: absEnds_def)
    show ?thesis
      unfolding pushFront_def Let_def prod.case absEnds_sel c1(4) [symmetric] ptr_not_nil [OF kn, symmetric] c2(4) [symmetric] 5(3) e ..
  qed
  then show ?thesis
    using that [of ?c'] run relisted_trans [OF relisted_trans [OF relisted_trans [OF relisted_trans [OF c1(2) c2(2)] 3(1)] 4(1)] 5(1)] 5(2) by blast
qed

lemma remove_sim:
  assumes l: "linked c" and kr: "unat k < length (ar_nodes c)" and ends: "ptrOk c (ar_head c)" "ptrOk c (ar_tail c)"
  obtains c' where "arena_remove k c = Inr c'" "relisted c c'" "linked c'"
    "unlinkNode (unat k) (absHeap c, absEnds c) = (absHeap c', absEnds c')"
proof -
  have kn: "k \<noteq> nilNode" by (rule index_not_nil [OF l kr])
  let ?h = "absHeap c" and ?n = "ar_nodes c ! unat k"
  let ?p = "an_prev ?n" and ?x = "an_next ?n"
  have hk: "rn_prev (?h (unat k)) = ptr ?p" "rn_next (?h (unat k)) = ptr ?x" using kr by (simp_all add: absHeap_in)
  have hd: "ptr (ar_head c) = Some (unat k) \<longleftrightarrow> ar_head c = k" by (rule ptr_eq_Some [OF kn])
  note po = linkedD(4,5) [OF l kr]
  show ?thesis
  proof (cases "ar_head c \<noteq> k \<and> ?p = nilNode")
    case True
    then show ?thesis using that [of c] l hk hd nodeAt_in(1) [OF kr] by (simp add: arena_remove_def unlinkNode_def)
  next
    case False
    obtain c1 where c1: "(if ?p \<noteq> nilNode then updNode ?p (\<lambda>m. m\<lparr>an_next := ?x\<rparr>) c else Inr (c\<lparr>ar_head := ?x\<rparr>)) = Inr c1" "relisted c c1" "linked c1"
      "(absHeap c1, absEnds c1) = (case ptr ?p of Some p \<Rightarrow> (?h(p := (?h p)\<lparr>rn_next := ptr ?x\<rparr>), absEnds c)
         | None \<Rightarrow> (?h, (absEnds c)\<lparr>r_head := ptr ?x\<rparr>))"
    proof (cases "?p = nilNode")
      case True
      show ?thesis using that [of "c\<lparr>ar_head := ?x\<rparr>"] set_ends(4-6) [OF l] True by (simp add: absEnds_def)
    next
      case pn: False
      show ?thesis using set_next [OF l ptrOk_index [OF po(1) pn] po(2)] that pn by auto
    qed
    have x1: "ptrOk c1 ?x" "ptrOk c1 ?p" using po ptrOk_relisted [OF c1(2)] by simp_all
    have h1: "rn_next (absHeap c1 (unat k)) = ptr ?x" "rn_prev (absHeap c1 (unat k)) = ptr ?p"
      using hk c1(4) by (auto split: option.splits)
    obtain c2 where c2: "(if ?x \<noteq> nilNode then updNode ?x (\<lambda>m. m\<lparr>an_prev := ?p\<rparr>) c1 else Inr (c1\<lparr>ar_tail := ?p\<rparr>)) = Inr c2"
      "relisted c1 c2" "linked c2"
      "(absHeap c2, absEnds c2) = (case ptr ?x of Some n \<Rightarrow> ((absHeap c1)(n := (absHeap c1 n)\<lparr>rn_prev := ptr ?p\<rparr>), absEnds c1)
         | None \<Rightarrow> (absHeap c1, (absEnds c1)\<lparr>r_tail := ptr ?p\<rparr>))"
    proof (cases "?x = nilNode")
      case True
      show ?thesis using that [of "c1\<lparr>ar_tail := ?p\<rparr>"] set_ends(1-3) [OF c1(3)] True by (simp add: absEnds_def)
    next
      case xn: False
      show ?thesis using set_prev [OF c1(3) ptrOk_index [OF x1(1) xn] x1(2)] that xn by auto
    qed
    have k2: "unat k < length (ar_nodes c2)" using kr relisted_length [OF c1(2)] relisted_length [OF c2(2)] by simp
    have nl: "ptrOk c2 nilNode" by (simp add: ptrOk_def)
    obtain c3 where c3: "updNode k (\<lambda>m. m\<lparr>an_prev := nilNode, an_next := nilNode\<rparr>) c2 = Inr c3" "relisted c2 c3" "linked c3"
      "absHeap c3 = (absHeap c2)(unat k := (absHeap c2 (unat k))\<lparr>rn_prev := None, rn_next := None\<rparr>)" "absEnds c3 = absEnds c2"
      using set_both [OF c2(3) k2 nl] by (metis ptr_nil(1))
    let ?c' = "c3\<lparr>ar_len := ar_len c3 - 1\<rparr>"
    have run: "arena_remove k c = Inr ?c'"
      unfolding arena_remove_def nodeAt_in(1) [OF kr] bindr_simps if_not_P [OF False] Let_def c1(1) c2(1) c3(1) ..
    have "unlinkNode (unat k) (?h, absEnds c) = (absHeap ?c', absEnds ?c')"
    proof -
      have nt: "\<not> (ptr (ar_head c) \<noteq> Some (unat k) \<and> ptr ?p = None)" using False hd by simp
      have e: "absEnds ?c' = (absEnds c2)\<lparr>r_len := r_len (absEnds c2) - 1\<rparr>" using c3(5) by (simp add: absEnds_def)
      show ?thesis
        unfolding unlinkNode_def Let_def prod.case absEnds_sel hk if_not_P [OF nt] c1(4) [symmetric] h1 c2(4) [symmetric]
          c3(4) [symmetric] set_ends(9) [OF c3(3)] e ..
    qed
    then show ?thesis using that [of ?c'] run relisted_trans [OF relisted_trans [OF relisted_trans [OF c1(2) c2(2)] c3(2)] set_ends(7) [OF c3(3)]]
      set_ends(8) [OF c3(3)] by blast
  qed
qed


subsection \<open>The indices in recency order\<close>

lemma listedI:
  assumes d: "dll (entryOf (\<lambda>_. '''') (absHeap c), listOf (absEnds c)) as" and m: "\<forall>a \<in> set as. a < length (ar_nodes c)"
  shows "listed c as"
proof -
  have "r_head (absEnds c) = first as None" "r_tail (absEnds c) = final None as" using d by (simp_all add: dll_def listOf_def)
  moreover have "ptrOk c k" if "\<forall>a. ptr k = Some a \<longrightarrow> a \<in> set as" for k
    by (cases "k = nilNode") (use that m in \<open>auto simp: ptrOk_def ptr_def\<close>)
  ultimately have "ptrOk c (ar_head c)" "ptrOk c (ar_tail c)" using first_mem final_mem by (metis absEnds_sel(1), metis absEnds_sel(2))
  then show ?thesis using d m by (simp add: listed_def)
qed

lemma moveToFront_listed:
  fixes c :: "('v :: zero) arenaRadix"
  assumes "linked c" "listed c as" "unat k \<in> set as"
  obtains c' where "arena_moveToFront k c = Inr c'" "relisted c c'" "linked c'" "listed c' (unat k # remove1 (unat k) as)"
proof (rule moveToFront_sim [OF assms])
  fix c' assume c': "arena_moveToFront k c = Inr c'" "relisted c c'" "linked c'"
    "moveToFront (unat k) (absHeap c, absEnds c) = (absHeap c', absEnds c')"
  have d: "dll (entryOf (\<lambda>_. '''') (absHeap c), listOf (absEnds c)) as" using assms(2) by (simp add: listed_def)
  obtain xs ys where xy: "as = xs @ unat k # ys" "unat k \<notin> set xs" using assms(3) by (meson split_list_first)
  have "dll (entryOf (\<lambda>_. '''') (absHeap c'), listOf (absEnds c')) (unat k # xs @ ys)"
    using dll_MoveToFront [OF d [unfolded xy(1)]] moveToFront_entry(1) [OF d assms(3) c'(4)] by simp
  then have "listed c' (unat k # xs @ ys)"
    by (rule listedI) (use assms(2) relisted_length [OF c'(2)] in \<open>auto simp: listed_def xy(1)\<close>)
  then show ?thesis using that c'(1-3) xy by (simp add: remove1_append)
qed

lemma pushFront_listed:
  fixes c :: "('v :: zero) arenaRadix"
  assumes "linked c" "listed c as" "unat k < length (ar_nodes c)" "unat k \<notin> set as"
  obtains c' where "arena_pushFront k c = Inr c'" "relisted c c'" "linked c'" "listed c' (unat k # as)"
proof -
  have e: "ptrOk c (ar_head c)" "ptrOk c (ar_tail c)"
    and d: "dll (entryOf (\<lambda>_. '''') (absHeap c), listOf (absEnds c)) as" using assms(2) by (simp_all add: listed_def)
  obtain c' where c': "arena_pushFront k c = Inr c'" "relisted c c'" "linked c'"
    "pushFront (unat k) (absHeap c, absEnds c) = (absHeap c', absEnds c')" by (rule pushFront_sim [OF assms(1,3) e])
  have "dll (entryOf (\<lambda>_. '''') (absHeap c'), listOf (absEnds c')) (unat k # as)"
    using dll_PushFront [OF d assms(4)] pushFront_entry(1) [OF d c'(4)] by simp
  then have "listed c' (unat k # as)"
    by (rule listedI) (use assms(2,3) relisted_length [OF c'(2)] in \<open>auto simp: listed_def\<close>)
  then show ?thesis using that c'(1-3) by blast
qed

lemma remove_listed:
  fixes c :: "('v :: zero) arenaRadix"
  assumes "linked c" "listed c as" "unat k \<in> set as"
  obtains c' where "arena_remove k c = Inr c'" "relisted c c'" "linked c'" "listed c' (remove1 (unat k) as)"
proof -
  have e: "ptrOk c (ar_head c)" "ptrOk c (ar_tail c)" "unat k < length (ar_nodes c)"
    and d: "dll (entryOf (\<lambda>_. '''') (absHeap c), listOf (absEnds c)) as" using assms(2,3) by (simp_all add: listed_def)
  obtain c' where c': "arena_remove k c = Inr c'" "relisted c c'" "linked c'"
    "unlinkNode (unat k) (absHeap c, absEnds c) = (absHeap c', absEnds c')" by (rule remove_sim [OF assms(1) e(3,1,2)])
  obtain xs ys where xy: "as = xs @ unat k # ys" "unat k \<notin> set xs" using assms(3) by (meson split_list_first)
  have "dll (entryOf (\<lambda>_. '''') (absHeap c'), listOf (absEnds c')) (xs @ ys)"
    using dll_Remove [OF d [unfolded xy(1)]] unlinkNode_entry(1) [OF d assms(3) c'(4)] by simp
  then have "listed c' (xs @ ys)"
    by (rule listedI) (use assms(2) relisted_length [OF c'(2)] in \<open>auto simp: listed_def xy(1)\<close>)
  then show ?thesis using that c'(1-3) xy by (simp add: remove1_append)
qed

end
