(* ===== verification/ArenaNames.thy ===== *)
theory ArenaNames
  imports ArenaList RadixOps
begin

text \<open>
  The keys of the nodes. \<open>arenaForest c F\<close> says that the slice of nodes holds the radix tree \<open>F\<close>; then every node of
  the tree has a route to the root that spells its key (\<open>forest_climb\<close>), and the walk from the root by the bytes
  of a key finds exactly the node with a value for it (\<open>walk_finds\<close>). The root stands for the empty key, and
  \<open>allkeyed\<close> lists it with the nodes of the tree.
\<close>

definition arenaForest :: "('v :: zero) arenaRadix \<Rightarrow> forest \<Rightarrow> bool" where
  "arenaForest c F \<longleftrightarrow> prefixInv noBytes 0 c \<and> linked c \<and> unat (ar_root c) < length (ar_nodes c)
     \<and> an_parent (ar_nodes c ! unat (ar_root c)) = nilNode
     \<and> tree (absHeap c) (unat (ar_root c)) F \<and> ordered F"

lemma arenaForestD:
  assumes "arenaForest c F"
  shows "prefixInv noBytes 0 c" "linked c" "unat (ar_root c) < length (ar_nodes c)" "ar_root c \<noteq> nilNode"
    "rn_child (absHeap c (unat (ar_root c))) = fhead F" "repr (absHeap c) (unat (ar_root c)) F" "ordered F"
    "unat (ar_root c) \<notin> set (faddrs F)"
proof -
  show *: "prefixInv noBytes 0 c" "linked c" "unat (ar_root c) < length (ar_nodes c)" "ordered F"
    "rn_child (absHeap c (unat (ar_root c))) = fhead F" "repr (absHeap c) (unat (ar_root c)) F"
    using assms by (simp_all add: arenaForest_def tree_def)
  show "ar_root c \<noteq> nilNode" by (rule index_not_nil [OF *(2,3)])
  have "rn_parent (absHeap c (unat (ar_root c))) = None" using assms by (simp add: arenaForest_def absHeap_in)
  moreover have "repr h p G \<Longrightarrow> a \<in> set (faddrs G) \<Longrightarrow> rn_parent (h a) \<noteq> None" for h :: "'a radixHeap" and p a G
    by (induction G arbitrary: p) (auto simp: links_def)
  ultimately show "unat (ar_root c) \<notin> set (faddrs F)" using *(6) by blast
qed

lemma repr_in_range:
  "repr (absHeap c) p F \<Longrightarrow> a \<in> set (faddrs F) \<Longrightarrow> a < length (ar_nodes c)"
  by (induction F arbitrary: p) (auto simp: links_def absHeap_def zeroNode_def split: if_splits)

lemma climb_forest:
  assumes "repr (absHeap c) (unat p) F" "climb c p ks" "linked c" "unat (ar_root c) \<notin> set (faddrs F)" "(a, s) \<in> set (keyed (pathKey c ks) F)"
  shows "\<exists>k js. unat k = a \<and> k \<noteq> ar_root c \<and> climb c k js \<and> pathKey c js = s"
  using assms
proof (induction F arbitrary: p ks)
  case (Branch x l ch sb)
  have xr: "x < length (ar_nodes c)" using repr_in_range [OF Branch.prems(1)] by simp
  have small: "length (ar_nodes c) < 2 ^ 32" using Branch.prems(3) unfolding linked_def by (simp add: foregroundNoProtect_def nilNode_def)
  define k :: u32 where "k = of_nat x"
  have k: "unat k = x" using xr small by (simp add: k_def unsigned_of_nat take_bit_nat_eq_self)
  have kn: "k \<noteq> nilNode" by (rule index_not_nil [OF Branch.prems(3)]) (simp add: k xr)
  have kr: "k \<noteq> ar_root c" using Branch.prems(4) k by auto
  have "ptr (an_parent (ar_nodes c ! x)) = Some (unat p)" and l: "labels c ! x = l"
    using Branch.prems(1) xr by (auto simp: links_def absHeap_in)
  then have "an_parent (ar_nodes c ! unat k) = p" using k by (simp add: ptr_Some word_unat_eq_iff)
  then have ck: "climb c k (k # ks)" using climb.up [OF kr kn] xr Branch.prems(2) k by simp
  have pk: "pathKey c (k # ks) = pathKey c ks @ l" using l k by simp
  consider "a = x" "s = pathKey c ks @ l" | "(a, s) \<in> set (keyed (pathKey c (k # ks)) ch)" | "(a, s) \<in> set (keyed (pathKey c ks) sb)"
    using Branch.prems(5) unfolding pk by auto
  then show ?case
  proof cases
    case 1
    then show ?thesis using ck k kr pk by blast
  next
    case 2
    show ?thesis by (rule Branch.IH(1) [OF _ ck _ _ 2]) (use Branch.prems k in simp_all)
  next
    case 3
    show ?thesis by (rule Branch.IH(2) [OF _ Branch.prems(2) _ _ 3]) (use Branch.prems in simp_all)
  qed
qed simp

lemma forest_climb:
  assumes f: "arenaForest c F" and a: "(a, s) \<in> set (allkeyed (unat (ar_root c)) F)"
  obtains k js where "unat k = a" "climb c k js" "pathKey c js = s"
proof -
  note D = arenaForestD [OF f]
  show ?thesis
    using climb_forest [OF D(6) climb.top [OF D(4)] D(2,8)] climb.top [OF D(4)] pathKey_simps(1) [of c] a that
    by (auto simp: allkeyed_def)
qed

lemma walk_finds:
  assumes f: "arenaForest c F"
  defines "N \<equiv> set (allkeyed (unat (ar_root c)) F)"
  shows "\<exists>x ok. findNodeByTrieWalk c key = Inr (x, ok) \<and> (ok \<longleftrightarrow> (\<exists>a. (a, key) \<in> N \<and> an_hasValue (ar_nodes c ! a)))
    \<and> (ok \<longrightarrow> (unat x, key) \<in> N \<and> unat x < length (ar_nodes c) \<and> an_hasValue (ar_nodes c ! unat x)) \<and> (\<not> ok \<longrightarrow> x = nilNode)"
proof -
  note D = arenaForestD [OF f]
  obtain x ok where w: "trieWalkLoop c (ar_root c) key = Some (Inr (x, ok))" "ok \<longrightarrow> x \<noteq> nilNode" "\<not> ok \<longrightarrow> x = nilNode"
    "getNodeLoop (absHeap c) (unat (ar_root c)) key = Some (Inr (if ok then Some (unat x) else None))"
    using trieWalkLoop_spec [OF D(1,4,3,5-7)] by blast
  have fk: "(if key = [] then Some (unat (ar_root c)) else fget key F) = Some a \<longleftrightarrow> (a, key) \<in> N" for a
  proof (cases "key = []")
    case True
    have "(a, []) \<notin> set (keyed [] F)" using keyed_first [of a "[]" "[]" F] D(7) by auto
    then show ?thesis using True by (auto simp: N_def allkeyed_def)
  next
    case False
    then show ?thesis using fget_keyed [OF D(7), of key a "[]"] by (auto simp: N_def allkeyed_def)
  qed
  have g: "(if ok then Some (unat x) else None) = (case (if key = [] then Some (unat (ar_root c)) else fget key F) of None \<Rightarrow> None
      | Some a \<Rightarrow> if rn_hasValue (absHeap c a) then Some a else None)"
    using w(4) getNodeLoop_spec [OF D(5-7), of key] by (cases "key = []") (simp_all split: if_splits)
  have ar: "a < length (ar_nodes c)" if "(a, key) \<in> N" for a
  proof -
    have "a = unat (ar_root c) \<or> a \<in> set (faddrs F)"
      using that keyed_addrs [of "[]" F] by (auto simp: N_def allkeyed_def) (metis fst_conv image_eqI list.set_map)
    then show ?thesis using D(3) repr_in_range [OF D(6)] by blast
  qed
  have hv: "rn_hasValue (absHeap c a) = an_hasValue (ar_nodes c ! a)" if "(a, key) \<in> N" for a
    using ar [OF that] by (simp add: absHeap_in)
  have "ok \<longleftrightarrow> (\<exists>a. (a, key) \<in> N \<and> an_hasValue (ar_nodes c ! a))"
    using g hv by (auto simp: fk [symmetric] simp del: not_None_eq split: option.splits if_splits)
  moreover have "(unat x, key) \<in> N \<and> an_hasValue (ar_nodes c ! unat x)" if ok
    using g hv that by (auto simp: fk [symmetric] split: option.splits if_splits)
  ultimately show ?thesis using w(1,3) ar by (auto simp: findNodeByTrieWalk_def)
qed

end
