(* ===== verification/ArenaSlots.thy ===== *)
theory ArenaSlots
  imports ArenaNode
begin

text \<open>
  The open-addressed table of \<^verbatim>\<open>arena_radix.go\<close> (\<open>hashSlots\<close>): linear probing from the home slot of a tag,
  resizing, and deletion that shifts later slots back over the hole. The table is described by its occupied slots,
  as a multiset, and by the law \<open>chained\<close>: every slot from the home of an entry up to the entry is occupied, which
  is what makes a probe that stops at an empty slot complete.
\<close>

unbundle bit_operations_syntax

subsection \<open>Tags and capacities\<close>

definition arenaHashTag :: "u64 \<Rightarrow> u32" where
  "arenaHashTag h = (let t = (ucast (h XOR drop_bit 32 h) :: u32) in if t = 0 then 1 else t)"

fun bitsLen :: "nat \<Rightarrow> nat" where
  \<comment> \<open>\<open>bits.Len\<close>\<close>
  "bitsLen n = (if n = 0 then 0 else Suc (bitsLen (n div 2)))"

declare bitsLen.simps [simp del]

definition hashSlotsCapFor :: "int \<Rightarrow> int" where
  "hashSlotsCapFor entries = (if entries \<le> 12 then int minHashSlotsCap
     else let needed = (entries * 5 + 3) div 4 in 2 ^ bitsLen (nat (needed - 1)))"

subsection \<open>The loops\<close>

definition slotAt :: "arenaHashSlot list \<Rightarrow> u32 \<Rightarrow> arenaHashSlot res" where
  "slotAt slots idx = (if unat idx < length slots then Inr (slots ! unat idx) else Inl arenaIndexPanic)"

definition putSlot :: "u32 \<Rightarrow> arenaHashSlot \<Rightarrow> arenaHashSlot list \<Rightarrow> arenaHashSlot list res" where
  "putSlot idx s slots = (if unat idx < length slots then Inr (slots[unat idx := s]) else Inl arenaIndexPanic)"

partial_function (option) freeSlotLoop :: "arenaHashSlot list \<Rightarrow> u32 \<Rightarrow> u32 \<Rightarrow> u32 res option" where
  \<comment> \<open>\<open>for slots[idx].tag != 0 { idx = (idx + 1) & mask }\<close>\<close>
  "freeSlotLoop slots hmask idx = (case slotAt slots idx of Inl p \<Rightarrow> Some (Inl p)
     | Inr slot \<Rightarrow> if hs_tag slot \<noteq> 0 then freeSlotLoop slots hmask ((idx + 1) AND hmask) else Some (Inr idx))"

definition placeSlot :: "u32 \<Rightarrow> u32 \<Rightarrow> arenaHashSlot \<Rightarrow> arenaHashSlot list \<Rightarrow> arenaHashSlot list res" where
  \<comment> \<open>probe from the home slot of the tag and write to the first empty slot\<close>
  "placeSlot hmask tag s slots = bindr (of_loop (freeSlotLoop slots hmask (tag AND hmask))) (\<lambda>idx. putSlot idx s slots)"

fun resizeLoop :: "u32 \<Rightarrow> arenaHashSlot list \<Rightarrow> arenaHashSlot list \<Rightarrow> arenaHashSlot list res" where
  "resizeLoop newMask [] newSlots = Inr newSlots"
| "resizeLoop newMask (slot # slots) newSlots = (if hs_tag slot = 0 then resizeLoop newMask slots newSlots
     else bindr (placeSlot newMask (hs_tag slot) slot newSlots) (resizeLoop newMask slots))"

definition resizeHashSlotsLocked :: "int \<Rightarrow> 'v arenaRadix \<Rightarrow> 'v arenaRadix res" where
  "resizeHashSlotsLocked newCap0 c = (let
     newCap = max newCap0 (int minHashSlotsCap);
     newMask = (word_of_int (newCap - 1) :: u32)
     in bindr (resizeLoop newMask (ar_hashSlots c) (replicate (nat newCap) zeroSlot)) (\<lambda>newSlots.
        Inr (c\<lparr>ar_hashSlots := newSlots, ar_hashMask := newMask\<rparr>)))"

definition insertNewHashSlotLocked :: "u64 \<Rightarrow> u32 \<Rightarrow> 'v arenaRadix \<Rightarrow> 'v arenaRadix res" where
  "insertNewHashSlotLocked keyHash nodeID c0 =
     bindr (if int (length (ar_hashSlots c0)) * 4 < (ar_hashCount c0 + 1) * 5
            then resizeHashSlotsLocked (hashSlotsCapFor (ar_hashCount c0 + 1)) c0 else Inr c0) (\<lambda>c. let
       tag = arenaHashTag keyHash in
     bindr (placeSlot (ar_hashMask c) tag \<lparr>hs_tag = tag, hs_nodeID = nodeID\<rparr> (ar_hashSlots c)) (\<lambda>slots.
     bindr (updNode nodeID (an_setHashTag21 tag) (c\<lparr>ar_hashSlots := slots\<rparr>)) (\<lambda>c1.
     Inr (c1\<lparr>ar_hashCount := ar_hashCount c1 + 1\<rparr>))))"

partial_function (option) backshiftLoop ::
  "u32 \<Rightarrow> arenaHashSlot list \<Rightarrow> u32 \<Rightarrow> u32 \<Rightarrow> arenaHashSlot list res option" where
  "backshiftLoop hmask slots emptyIdx currIdx = (case slotAt slots currIdx of Inl p \<Rightarrow> Some (Inl p)
     | Inr slot \<Rightarrow> if hs_tag slot = 0 then Some (putSlot emptyIdx zeroSlot slots)
         else let homeIdx = hs_tag slot AND hmask in
           if (emptyIdx - homeIdx) AND hmask \<le> (currIdx - homeIdx) AND hmask
           then (case putSlot emptyIdx slot slots of Inl p \<Rightarrow> Some (Inl p)
                 | Inr slots1 \<Rightarrow> backshiftLoop hmask slots1 currIdx ((currIdx + 1) AND hmask))
           else backshiftLoop hmask slots emptyIdx ((currIdx + 1) AND hmask))"

definition backshiftDeleteSlot :: "u32 \<Rightarrow> 'v arenaRadix \<Rightarrow> 'v arenaRadix res" where
  "backshiftDeleteSlot delIdx c =
     bindr (of_loop (backshiftLoop (ar_hashMask c) (ar_hashSlots c) delIdx ((delIdx + 1) AND ar_hashMask c))) (\<lambda>slots.
     Inr (c\<lparr>ar_hashSlots := slots, ar_hashCount := ar_hashCount c - 1\<rparr>))"

subsection \<open>Positions on the cycle\<close>

definition cyc :: "nat \<Rightarrow> nat \<Rightarrow> nat \<Rightarrow> nat" where
  \<comment> \<open>steps from \<open>a\<close> forward to \<open>b\<close>\<close>
  "cyc N a b = (if a \<le> b then b - a else b + N - a)"

lemma cyc_self [simp]: "cyc N a a = 0"
  by (simp add: cyc_def)

lemma cyc_less: "a < N \<Longrightarrow> b < N \<Longrightarrow> cyc N a b < N"
  by (auto simp: cyc_def)

lemma cyc_0: "a < N \<Longrightarrow> b < N \<Longrightarrow> cyc N a b = 0 \<longleftrightarrow> a = b"
  by (auto simp: cyc_def)

lemma cyc_next: "a < N \<Longrightarrow> b < N \<Longrightarrow> a \<noteq> b \<Longrightarrow> cyc N a b = Suc (cyc N (Suc a mod N) b)"
  by (cases "Suc a = N") (auto simp: cyc_def)

lemma cyc_mod: "a < N \<Longrightarrow> b < N \<Longrightarrow> (b + N - a) mod N = cyc N a b"
proof (cases "a \<le> b")
  case True
  assume *: "a < N" "b < N"
  then have "b + N - a = (b - a) + N" using True by simp
  then show ?thesis using True * by (simp only: mod_add_self2) (simp add: cyc_def)
qed (simp add: cyc_def)

lemma cyc_between:
  "h < N \<Longrightarrow> e < N \<Longrightarrow> i < N \<Longrightarrow> k < N \<Longrightarrow> cyc N h e < cyc N h k \<Longrightarrow> cyc N e i \<le> cyc N e k \<Longrightarrow> i \<noteq> k \<Longrightarrow>
   cyc N h i < cyc N h k"
  by (auto simp: cyc_def split: if_splits)

definition tableOk :: "arenaHashSlot list \<Rightarrow> u32 \<Rightarrow> bool" where
  \<comment> \<open>a power of two of slots, and the mask that goes with it\<close>
  "tableOk S m \<longleftrightarrow> (\<exists>b \<le> 31. length S = 2 ^ b \<and> m = mask b)"

abbreviation occ :: "arenaHashSlot list \<Rightarrow> nat \<Rightarrow> bool" where
  "occ S k \<equiv> hs_tag (S ! k) \<noteq> 0"

abbreviation homeOf :: "arenaHashSlot list \<Rightarrow> nat \<Rightarrow> nat" where
  "homeOf S k \<equiv> unat (hs_tag (S ! k)) mod length S"

definition chained :: "arenaHashSlot list \<Rightarrow> bool" where
  "chained S \<longleftrightarrow> (\<forall>k < length S. occ S k \<longrightarrow>
     (\<forall>j < length S. cyc (length S) (homeOf S k) j < cyc (length S) (homeOf S k) k \<longrightarrow> occ S j))"

lemma chainedD: "chained S \<Longrightarrow> k < length S \<Longrightarrow> occ S k \<Longrightarrow> j < length S \<Longrightarrow>
    cyc (length S) (homeOf S k) j < cyc (length S) (homeOf S k) k \<Longrightarrow> occ S j"
  unfolding chained_def by blast

definition hasFree :: "arenaHashSlot list \<Rightarrow> bool" where
  "hasFree S \<longleftrightarrow> (\<exists>z < length S. \<not> occ S z)"

definition slotsOf :: "arenaHashSlot list \<Rightarrow> arenaHashSlot multiset" where
  "slotsOf S = filter_mset (\<lambda>s. hs_tag s \<noteq> 0) (mset S)"

lemma unat_and_mask: "unat ((x :: u32) AND mask b) = unat x mod 2 ^ b"
  unfolding take_bit_eq_mask [symmetric] unsigned_take_bit_eq by (rule take_bit_eq_mod)

lemma table_home: "tableOk S m \<Longrightarrow> unat (t AND m) = unat t mod length S"
  by (auto simp: tableOk_def unat_and_mask)

lemma table_pos: "tableOk S m \<Longrightarrow> 0 < length S"
  by (auto simp: tableOk_def)

lemma table_home_less: "tableOk S m \<Longrightarrow> unat (t AND m) < length S"
  unfolding table_home by (rule mod_less_divisor [OF table_pos])

lemma table_next:
  assumes t: "tableOk S m" and i: "unat i < length S"
  shows "unat ((i + 1) AND m) = Suc (unat i) mod length S"
proof -
  obtain b where b: "b \<le> 31" "length S = 2 ^ b" "m = mask b" using t by (auto simp: tableOk_def)
  have "(2 :: nat) ^ b \<le> 2 ^ 31" using b(1) by (rule power_increasing) simp
  then have "unat i + 1 < 2 ^ 32" using i b(2) by simp
  then have "unat (i + 1) = Suc (unat i)" by (simp add: unat_word_ariths)
  then show ?thesis using b by (simp add: unat_and_mask)
qed

lemma table_cyc:
  assumes t: "tableOk S m" and a: "unat a < length S" and e: "unat e < length S"
  shows "unat ((a - e) AND m) = cyc (length S) (unat e) (unat a)"
proof -
  obtain b where b: "b \<le> 31" "length S = 2 ^ b" "m = mask b" using t by (auto simp: tableOk_def)
  have le: "(2 :: nat) ^ b \<le> 2 ^ 31" using b(1) by (rule power_increasing) simp
  have p: "(2 :: nat) ^ 32 = 2 ^ b * 2 ^ (32 - b)" using b(1) by (simp flip: power_add)
  have "unat (a - e) = (unat a + 2 ^ 32 - unat e) mod 2 ^ 32"
    by (simp add: unat_sub_if' word_less_nat_alt le_mod_geq not_le)
      (use e a b le in \<open>auto simp: mod_if\<close>)
  then have "unat ((a - e) AND m) = (unat a + 2 ^ 32 - unat e) mod 2 ^ 32 mod 2 ^ b" by (simp add: unat_and_mask b(3))
  also have "\<dots> = (unat a + 2 ^ 32 - unat e) mod 2 ^ b" unfolding p by (simp add: mod_mult2_eq)
  also have "unat a + 2 ^ 32 - unat e = (unat a + 2 ^ b - unat e) + 2 ^ b * (2 ^ (32 - b) - 1)"
    using e b(2) p le by (simp add: diff_mult_distrib2)
  also have "\<dots> mod 2 ^ b = (unat a + 2 ^ b - unat e) mod 2 ^ b" by simp
  finally show ?thesis using cyc_mod [OF e a] b(2) by simp
qed

text \<open>Every probe ends: an induction on the steps to an empty slot.\<close>

lemma probe_induct [consumes 3, case_names step]:
  assumes t: "tableOk S m" and free: "hasFree S" and i: "unat i < length S"
    and step: "\<And>i. unat i < length S \<Longrightarrow> (occ S (unat i) \<Longrightarrow> unat ((i + 1) AND m) < length S \<Longrightarrow> P ((i + 1) AND m)) \<Longrightarrow> P i"
  shows "P i"
proof -
  obtain z where z: "z < length S" "\<not> occ S z" using free by (auto simp: hasFree_def)
  show ?thesis using i
  proof (induction "cyc (length S) (unat i) z" arbitrary: i rule: less_induct)
    case less
    show ?case
    proof (rule step [OF less.prems])
      assume o: "occ S (unat i)" and l: "unat ((i + 1) AND m) < length S"
      have "unat i \<noteq> z" using o z(2) by auto
      then have "cyc (length S) (unat ((i + 1) AND m)) z < cyc (length S) (unat i) z"
        using cyc_next [OF less.prems z(1)] by (simp add: table_next [OF t less.prems])
      then show "P ((i + 1) AND m)" using less.hyps l by blast
    qed
  qed
qed

subsection \<open>Placing a slot\<close>

lemma slotAt_ok [simp]: "unat i < length S \<Longrightarrow> slotAt S i = Inr (S ! unat i)"
  "unat i < length S \<Longrightarrow> putSlot i s S = Inr (S[unat i := s])"
  by (simp_all add: slotAt_def putSlot_def)

lemma freeSlot_spec:
  assumes t: "tableOk S m" and free: "hasFree S" and i: "unat i < length S"
  shows "\<exists>z. freeSlotLoop S m i = Some (Inr z) \<and> unat z < length S \<and> \<not> occ S (unat z)
     \<and> (\<forall>j < length S. cyc (length S) (unat i) j < cyc (length S) (unat i) (unat z) \<longrightarrow> occ S j)"
  using t free i
proof (induction i rule: probe_induct)
  case (step i)
  show ?case
  proof (cases "occ S (unat i)")
    case False
    then show ?thesis using step(1) by (subst freeSlotLoop.simps) simp
  next
    case True
    let ?i' = "(i + 1) AND m"
    have l: "unat ?i' < length S" by (rule table_home_less [OF t])
    obtain z where z: "freeSlotLoop S m ?i' = Some (Inr z)" "unat z < length S" "\<not> occ S (unat z)"
      "\<forall>j < length S. cyc (length S) (unat ?i') j < cyc (length S) (unat ?i') (unat z) \<longrightarrow> occ S j"
      using step(2) [OF True l] by blast
    have zi: "unat i \<noteq> unat z" using True z(3) by metis
    have run: "freeSlotLoop S m i = Some (Inr z)" using step(1) True z(1) by (subst freeSlotLoop.simps) simp
    have "occ S j" if j: "j < length S" "cyc (length S) (unat i) j < cyc (length S) (unat i) (unat z)" for j
    proof (cases "j = unat i")
      case False
      then have "cyc (length S) (unat ?i') j < cyc (length S) (unat ?i') (unat z)"
        using j(2) cyc_next [OF step(1) j(1)] cyc_next [OF step(1) z(2) zi] by (simp add: table_next [OF t step(1)])
      then show ?thesis using z(4) j(1) by blast
    qed (use True in simp)
    then show ?thesis using run z(2,3) by blast
  qed
qed

lemma slotsOf_update:
  assumes "z < length S" "hs_tag s \<noteq> 0"
  shows "slotsOf (S[z := s]) = add_mset s (slotsOf S - (if occ S z then {#S ! z#} else {#}))"
  using assms by (simp add: slotsOf_def mset_update filter_diff_mset)

lemma slotsOf_clear: "z < length S \<Longrightarrow> slotsOf (S[z := zeroSlot]) = slotsOf S - {#S ! z#}"
  by (simp add: slotsOf_def mset_update zeroSlot_def)

lemma slotsOf_mem: "s \<in># slotsOf S \<longleftrightarrow> (\<exists>k < length S. S ! k = s \<and> occ S k)"
  by (auto simp: slotsOf_def in_set_conv_nth)

lemma size_slotsOf: "size (slotsOf S) \<le> length S" "size (slotsOf S) < length S \<longleftrightarrow> hasFree S"
proof -
  have s: "size (slotsOf S) = length (filter (\<lambda>s. hs_tag s \<noteq> 0) S)"
    by (simp add: slotsOf_def flip: mset_filter)
  show "size (slotsOf S) \<le> length S" unfolding s by (rule length_filter_le)
  show "size (slotsOf S) < length S \<longleftrightarrow> hasFree S"
    unfolding s hasFree_def by (metis (mono_tags, lifting) in_set_conv_nth length_filter_le length_filter_less filter_True nless_le)
qed

lemma place_spec:
  assumes t: "tableOk S m" and free: "hasFree S" and ch: "chained S" and tag: "hs_tag s \<noteq> 0"
  shows "\<exists>S' z. placeSlot m (hs_tag s) s S = Inr S' \<and> z < length S \<and> \<not> occ S z \<and> S' = S[z := s]
     \<and> slotsOf S' = add_mset s (slotsOf S) \<and> chained S'"
proof -
  note h = table_home_less [OF t, of "hs_tag s"] table_home [OF t, of "hs_tag s"]
  obtain z where z: "freeSlotLoop S m (hs_tag s AND m) = Some (Inr z)" "unat z < length S" "\<not> occ S (unat z)"
    "\<forall>j < length S. cyc (length S) (unat (hs_tag s) mod length S) j < cyc (length S) (unat (hs_tag s) mod length S) (unat z) \<longrightarrow> occ S j"
    using freeSlot_spec [OF t free h(1)] unfolding h(2) by (elim exE conjE) (rule that)
  let ?S' = "S[unat z := s]"
  have "chained ?S'"
    unfolding chained_def
  proof (intro allI impI)
    fix k j assume k: "k < length ?S'" "occ ?S' k" and j: "j < length ?S'" "cyc (length ?S') (homeOf ?S' k) j < cyc (length ?S') (homeOf ?S' k) k"
    show "occ ?S' j"
    proof (cases "j = unat z")
      case True
      then show ?thesis using z(2) tag by simp
    next
      case False
      have "occ S j"
      proof (cases "k = unat z")
        case True
        then have "cyc (length S) (unat (hs_tag s) mod length S) j < cyc (length S) (unat (hs_tag s) mod length S) (unat z)"
          using j(2) z(2) by simp
        moreover have "j < length S" using j(1) by simp
        ultimately show ?thesis using z(4) by blast
      next
        case kz: False
        then have "k < length S" "occ S k" "cyc (length S) (homeOf S k) j < cyc (length S) (homeOf S k) k"
          using k j(2) by simp_all
        moreover have "j < length S" using j(1) by simp
        ultimately show ?thesis using chainedD [OF ch] by blast
      qed
      then show ?thesis using False by simp
    qed
  qed
  moreover have "placeSlot m (hs_tag s) s S = Inr ?S'" using z(1,2) by (simp add: placeSlot_def)
  moreover have "slotsOf ?S' = add_mset s (slotsOf S)" using slotsOf_update [OF z(2) tag] z(3) by simp
  ultimately show ?thesis using z(2,3) by (intro exI [of _ ?S'] exI [of _ "unat z"] conjI refl)
qed

subsection \<open>Resizing\<close>

lemma slotsOf_simps [simp]:
  "slotsOf [] = {#}" "slotsOf (s # S) = (if hs_tag s \<noteq> 0 then add_mset s (slotsOf S) else slotsOf S)"
  by (simp_all add: slotsOf_def)

lemma slotsOf_empty [simp]: "slotsOf (replicate n zeroSlot) = {#}"
  by (induction n) (simp_all add: zeroSlot_def)

lemma chained_empty [simp]: "chained (replicate n zeroSlot)"
  by (simp add: chained_def zeroSlot_def)

lemma resizeLoop_spec:
  assumes "tableOk S m" "chained S" "size (slotsOf S) + size (slotsOf old) < length S"
  shows "\<exists>S'. resizeLoop m old S = Inr S' \<and> length S' = length S \<and> chained S' \<and> slotsOf S' = slotsOf S + slotsOf old"
  using assms
proof (induction old arbitrary: S)
  case (Cons s old)
  show ?case
  proof (cases "hs_tag s = 0")
    case True
    then show ?thesis using Cons.IH [OF Cons.prems(1,2)] Cons.prems(3) by simp
  next
    case False
    have free: "hasFree S" using Cons.prems(3) size_slotsOf(2) [of S] by simp
    obtain S1 z where S1: "placeSlot m (hs_tag s) s S = Inr S1" "S1 = S[z := s]" "slotsOf S1 = add_mset s (slotsOf S)" "chained S1"
      using place_spec [OF Cons.prems(1) free Cons.prems(2) False] by (elim exE conjE) (rule that)
    have len: "length S1 = length S" by (simp add: S1(2))
    have t1: "tableOk S1 m" using Cons.prems(1) by (simp add: tableOk_def len)
    have "size (slotsOf S1) + size (slotsOf old) < length S1" using Cons.prems(3) False by (simp add: S1(3) len)
    from Cons.IH [OF t1 S1(4) this] obtain S' where "resizeLoop m old S1 = Inr S'" "length S' = length S1" "chained S'"
      "slotsOf S' = slotsOf S1 + slotsOf old" by (elim exE conjE) (rule that)
    then show ?thesis using False S1(1,3) len by simp
  qed
qed simp

lemma newMask_mask: "b \<le> 31 \<Longrightarrow> (word_of_int (2 ^ b - 1) :: u32) = mask b"
  by (simp add: mask_eq_exp_minus_1 flip: of_int_of_nat_eq)

lemma resize_spec:
  assumes b: "4 \<le> b" "b \<le> 31" and room: "size (slotsOf (ar_hashSlots c)) < 2 ^ b"
  shows "\<exists>S'. resizeHashSlotsLocked (2 ^ b) c = Inr (c\<lparr>ar_hashSlots := S', ar_hashMask := mask b\<rparr>)
     \<and> length S' = 2 ^ b \<and> chained S' \<and> slotsOf S' = slotsOf (ar_hashSlots c)"
proof -
  have "(2 :: int) ^ 4 \<le> 2 ^ b" using b(1) by (rule power_increasing) simp
  then have cap: "max (2 ^ b) (int minHashSlotsCap) = 2 ^ b" by (simp add: minHashSlotsCap_def)
  have n: "nat (2 ^ b) = 2 ^ b" by (simp add: nat_power_eq)
  have t: "tableOk (replicate (2 ^ b) zeroSlot) (mask b)" using b(2) by (auto simp: tableOk_def)
  obtain S' where "resizeLoop (mask b) (ar_hashSlots c) (replicate (2 ^ b) zeroSlot) = Inr S'" "length S' = 2 ^ b" "chained S'"
    "slotsOf S' = slotsOf (ar_hashSlots c)"
    using resizeLoop_spec [OF t chained_empty, of "ar_hashSlots c"] room by auto
  then show ?thesis unfolding resizeHashSlotsLocked_def Let_def cap n newMask_mask [OF b(2)]
    by (intro exI [of _ S']) simp
qed

lemma bitsLen_upper: "n < 2 ^ bitsLen n"
proof (induction n rule: bitsLen.induct)
  case (1 n)
  then show ?case by (subst bitsLen.simps) (cases "n = 0"; simp; linarith)
qed

lemma bitsLen_lower: "0 < n \<Longrightarrow> 2 ^ (bitsLen n - 1) \<le> n"
proof (induction n rule: bitsLen.induct)
  case (1 n)
  show ?case
  proof (cases "n div 2 = 0")
    case True
    then have "bitsLen (n div 2) = 0" by (simp add: bitsLen.simps)
    then show ?thesis using 1(2) by (subst bitsLen.simps) simp
  next
    case False
    then have "2 ^ (bitsLen (n div 2) - 1) \<le> n div 2" using 1 by simp
    moreover have "bitsLen (n div 2) \<noteq> 0" using False by (subst bitsLen.simps) simp
    then obtain k where "bitsLen (n div 2) = Suc k" by (cases "bitsLen (n div 2)") auto
    ultimately show ?thesis using 1(2) by (subst bitsLen.simps) simp
  qed
qed

lemma capFor_spec:
  assumes e: "0 \<le> e" "e < 2 ^ 30"
  shows "\<exists>b. 4 \<le> b \<and> b \<le> 31 \<and> hashSlotsCapFor e = 2 ^ b \<and> e * 5 \<le> 2 ^ b * 4"
proof (cases "e \<le> 12")
  case True
  then show ?thesis using e by (intro exI [of _ 4]) (simp add: hashSlotsCapFor_def minHashSlotsCap_def)
next
  case False
  define d where "d = (e * 5 + 3) div 4"
  define L where "L = bitsLen (nat (d - 1))"
  have d: "16 < d" "d < 2 ^ 31" "e * 5 \<le> d * 4" using False e(2) by (simp_all add: d_def)
  have up: "d \<le> 2 ^ L" using bitsLen_upper [of "nat (d - 1)"] d(1) unfolding L_def
    by (simp add: nat_less_iff of_nat_less_iff zless_nat_conj flip: of_nat_less_iff)
  have low: "2 ^ (L - 1) \<le> nat (d - 1)" unfolding L_def by (rule bitsLen_lower) (use d(1) in simp)
  have "L \<le> 31"
  proof (rule ccontr)
    assume "\<not> L \<le> 31"
    then have "(2 :: nat) ^ 31 \<le> 2 ^ (L - 1)" by (intro power_increasing) simp_all
    then have "2 ^ 31 \<le> nat (d - 1)" using low by (rule order_trans)
    then show False using d(2) by simp
  qed
  moreover have "4 \<le> L"
  proof (rule ccontr)
    assume "\<not> 4 \<le> L"
    then have "(2 :: int) ^ L \<le> 2 ^ 4" by (intro power_increasing) simp_all
    then show False using up d(1) by simp
  qed
  moreover have "hashSlotsCapFor e = 2 ^ L" using False by (simp add: hashSlotsCapFor_def L_def d_def)
  moreover have "e * 5 \<le> 2 ^ L * 4" using up d(3) by simp
  ultimately show ?thesis by blast
qed

subsection \<open>Deletion with backward shift\<close>

definition holeInv :: "arenaHashSlot list \<Rightarrow> nat \<Rightarrow> nat \<Rightarrow> bool" where
  \<comment> \<open>the law of probing, but for entries from \<open>i\<close> on that the hole \<open>e\<close> may cut off from their home\<close>
  "holeInv T e i \<longleftrightarrow> (\<forall>k < length T. occ T k \<longrightarrow>
     (\<forall>j < length T. cyc (length T) (homeOf T k) j < cyc (length T) (homeOf T k) k \<longrightarrow>
        occ T j \<or> (j = e \<and> cyc (length T) e i \<le> cyc (length T) e k)))"

lemma holeInvD: "holeInv T e i \<Longrightarrow> k < length T \<Longrightarrow> occ T k \<Longrightarrow> j < length T \<Longrightarrow>
    cyc (length T) (homeOf T k) j < cyc (length T) (homeOf T k) k \<Longrightarrow>
    occ T j \<or> (j = e \<and> cyc (length T) e i \<le> cyc (length T) e k)"
  unfolding holeInv_def by blast

lemma cyc_next_le: "a < N \<Longrightarrow> b < N \<Longrightarrow> cyc N a (Suc b mod N) \<le> Suc (cyc N a b)"
  by (cases "Suc b = N") (auto simp: cyc_def)

lemma hole_start:
  assumes ch: "chained S" and e: "e < length S" "occ S e"
  shows "holeInv (S[e := zeroSlot]) e (Suc e mod length S)"
  unfolding holeInv_def
proof (intro allI impI)
  let ?T = "S[e := zeroSlot]" and ?N = "length S"
  fix k j assume k: "k < length ?T" "occ ?T k" and j: "j < length ?T" "cyc (length ?T) (homeOf ?T k) j < cyc (length ?T) (homeOf ?T k) k"
  have ke: "k \<noteq> e" using k e(1) by (auto simp: zeroSlot_def)
  show "occ ?T j \<or> (j = e \<and> cyc (length ?T) e (Suc e mod ?N) \<le> cyc (length ?T) e k)"
  proof (cases "j = e")
    case False
    have "k < ?N" "occ S k" "j < ?N" "cyc ?N (homeOf S k) j < cyc ?N (homeOf S k) k" using k j ke by simp_all
    then have "occ S j" by (rule chainedD [OF ch])
    then show ?thesis using False by simp
  next
    case True
    have "cyc ?N e (Suc e mod ?N) \<le> 1" using cyc_next_le [OF e(1) e(1)] by simp
    moreover have "cyc ?N e k \<noteq> 0" using cyc_0 [OF e(1)] k(1) ke by simp
    ultimately show ?thesis using True by simp
  qed
qed

lemma hole_skip:
  assumes inv: "holeInv T e i" and b: "e < length T" "i < length T" "homeOf T i < length T"
    and stay: "\<not> cyc (length T) (homeOf T i) e \<le> cyc (length T) (homeOf T i) i"
  shows "holeInv T e (Suc i mod length T)"
  unfolding holeInv_def
proof (intro allI impI)
  let ?N = "length T"
  fix k j assume k: "k < ?N" "occ T k" and j: "j < ?N" "cyc ?N (homeOf T k) j < cyc ?N (homeOf T k) k"
  show "occ T j \<or> (j = e \<and> cyc ?N e (Suc i mod ?N) \<le> cyc ?N e k)"
  proof (cases "occ T j")
    case False
    then have je: "j = e" and le: "cyc ?N e i \<le> cyc ?N e k" using holeInvD [OF inv k j] by blast+
    have "k \<noteq> i" using j(2) stay unfolding je by auto
    then have "cyc ?N e i \<noteq> cyc ?N e k" using b(1,2) k(1) by (auto simp: cyc_def split: if_splits)
    then show ?thesis using je le cyc_next_le [OF b(1,2)] by simp
  qed simp
qed

lemma hole_shift:
  assumes inv: "holeInv T e i" and b: "e < length T" "i < length T" "e \<noteq> i" "homeOf T i < length T"
    and move: "cyc (length T) (homeOf T i) e \<le> cyc (length T) (homeOf T i) i"
    and occ: "occ T i" and hole: "T ! e = zeroSlot"
  shows "holeInv (T[e := T ! i, i := zeroSlot]) i (Suc i mod length T)"
  unfolding holeInv_def
proof (intro allI impI)
  let ?N = "length T" and ?T' = "T[e := T ! i, i := zeroSlot]"
  fix k j assume k: "k < length ?T'" "occ ?T' k" and j: "j < length ?T'" "cyc (length ?T') (homeOf ?T' k) j < cyc (length ?T') (homeOf ?T' k) k"
  have ki: "k \<noteq> i" using k b(2) by (auto simp: zeroSlot_def)
  have kn: "k < ?N" "j < ?N" using k(1) j(1) by simp_all
  show "occ ?T' j \<or> (j = i \<and> cyc (length ?T') i (Suc i mod ?N) \<le> cyc (length ?T') i k)"
  proof (cases "j = i")
    case True
    have "cyc ?N i (Suc i mod ?N) \<le> 1" using cyc_next_le [OF b(2,2)] by simp
    moreover have "cyc ?N i k \<noteq> 0" using cyc_0 [OF b(2) kn(1)] ki by simp
    ultimately show ?thesis using True by simp
  next
    case ji: False
    show ?thesis
    proof (cases "j = e")
      case True
      then show ?thesis using b(1,3) occ by simp
    next
      case je: False
      have "occ T j"
      proof (cases "k = e")
        case True
        then have "cyc ?N (homeOf T i) j < cyc ?N (homeOf T i) e" using j(2) b(1,3) by simp
        then have "cyc ?N (homeOf T i) j < cyc ?N (homeOf T i) i" using move by simp
        then show ?thesis using holeInvD [OF inv b(2) occ kn(2)] je by blast
      next
        case False
        then have "occ T k" "cyc ?N (homeOf T k) j < cyc ?N (homeOf T k) k" using k(2) j(2) ki by simp_all
        then show ?thesis using holeInvD [OF inv kn(1) _ kn(2)] je by blast
      qed
      then show ?thesis using ji je by simp
    qed
  qed
qed

lemma hole_end:
  assumes inv: "holeInv T e i" and b: "e < length T" "i < length T" "e \<noteq> i" and empty: "\<not> occ T i"
  shows "chained T"
  unfolding chained_def
proof (intro allI impI)
  let ?N = "length T"
  fix k j assume k: "k < ?N" "occ T k" and j: "j < ?N" "cyc ?N (homeOf T k) j < cyc ?N (homeOf T k) k"
  show "occ T j"
  proof (rule ccontr)
    assume "\<not> occ T j"
    then have je: "j = e" and le: "cyc ?N e i \<le> cyc ?N e k" using holeInvD [OF inv k j] by blast+
    have ki: "i \<noteq> k" using k(2) empty by auto
    have h: "homeOf T k < ?N" by (rule mod_less_divisor) (use k(1) in linarith)
    have "cyc ?N (homeOf T k) i < cyc ?N (homeOf T k) k"
      by (rule cyc_between [OF h b(1,2) k(1) _ le ki]) (use j(2) je in simp)
    then show False using holeInvD [OF inv k b(2)] empty b(3) by blast
  qed
qed

lemma backshift_loop_spec:
  assumes "tableOk S m" "unat e < length S" "unat i < length S" "z < length S" "\<not> occ S z" "z \<noteq> unat e"
    and "cyc (length S) (unat i) z < cyc (length S) (unat i) (unat e)"
    and "holeInv (S[unat e := zeroSlot]) (unat e) (unat i)"
  shows "\<exists>S'. backshiftLoop m S e i = Some (Inr S') \<and> length S' = length S \<and> chained S'
     \<and> slotsOf S' = slotsOf (S[unat e := zeroSlot])"
  using assms
proof (induction "cyc (length S) (unat i) z" arbitrary: S e i rule: less_induct)
  case less
  note t = less.prems(1) and eN = less.prems(2) and iN = less.prems(3) and zN = less.prems(4)
  let ?N = "length S" and ?T = "S[unat e := zeroSlot]" and ?i' = "(i + 1) AND m"
  have ei: "unat e \<noteq> unat i" using less.prems(7) by auto
  have lenT: "length ?T = ?N" by simp
  show ?case
  proof (cases "occ S (unat i)")
    case False
    have "chained ?T"
      by (rule hole_end [OF less.prems(8)]) (use eN iN ei False in simp_all)
    moreover have "backshiftLoop m S e i = Some (Inr ?T)" using False eN iN by (subst backshiftLoop.simps) simp
    ultimately show ?thesis by simp
  next
    case True
    have iz: "unat i \<noteq> z" using True less.prems(5) by auto
    note i' = table_next [OF t iN] table_home_less [OF t, of "i + 1"]
    have cz: "cyc ?N (unat i) z = Suc (cyc ?N (unat ?i') z)" using cyc_next [OF iN zN iz] i'(1) by simp
    let ?h = "hs_tag (S ! unat i) AND m"
    note h = table_home [OF t, of "hs_tag (S ! unat i)"] table_home_less [OF t, of "hs_tag (S ! unat i)"]
    have Ti: "?T ! unat i = S ! unat i" using ei by simp
    have cond: "(e - ?h) AND m \<le> (i - ?h) AND m \<longleftrightarrow> cyc ?N (homeOf S (unat i)) (unat e) \<le> cyc ?N (homeOf S (unat i)) (unat i)"
      unfolding word_le_nat_alt table_cyc [OF t eN h(2)] table_cyc [OF t iN h(2)] h(1) ..
    have occT: "occ ?T (unat i)" using True Ti by simp
    have bounds: "unat e < length ?T" "unat i < length ?T" "homeOf ?T (unat i) < length ?T" using eN iN h Ti by simp_all
    show ?thesis
    proof (cases "cyc ?N (homeOf S (unat i)) (unat e) \<le> cyc ?N (homeOf S (unat i)) (unat i)")
      case False
      have run: "backshiftLoop m S e i = backshiftLoop m S e ?i'"
        using True iN False cond by (subst backshiftLoop.simps) (simp add: Let_def)
      have inv: "holeInv ?T (unat e) (unat ?i')"
        using hole_skip [OF less.prems(8) bounds] False Ti lenT unfolding i'(1) by simp
      have ce: "cyc ?N (unat i) (unat e) = Suc (cyc ?N (unat ?i') (unat e))"
        using cyc_next [OF iN eN] ei i'(1) by simp
      show ?thesis unfolding run
        by (rule less.hyps [OF _ t eN i'(2) zN less.prems(5,6) _ inv]) (use cz ce less.prems(7) in simp_all)
    next
      case move: True
      let ?S1 = "S[unat e := S ! unat i]"
      have run: "backshiftLoop m S e i = backshiftLoop m ?S1 i ?i'"
        using True iN eN move cond by (subst backshiftLoop.simps) (simp add: Let_def)
      have T1: "?S1[unat i := zeroSlot] = ?T[unat e := ?T ! unat i, unat i := zeroSlot]" using Ti by simp
      have swap: "?S1[unat i := zeroSlot] = ?T[unat e := ?T ! unat i, unat i := ?T ! unat e]" using Ti eN by simp
      have "mset (?S1[unat i := zeroSlot]) = mset ?T" unfolding swap by (rule mset_swap) (use eN iN in simp_all)
      then have same: "slotsOf (?S1[unat i := zeroSlot]) = slotsOf ?T" by (simp add: slotsOf_def)
      have inv: "holeInv (?S1[unat i := zeroSlot]) (unat i) (unat ?i')"
        using hole_shift [OF less.prems(8) bounds(1,2) ei bounds(3) _ occT] move Ti lenT eN unfolding i'(1) T1 by simp
      have t1: "tableOk ?S1 m" using t by (simp add: tableOk_def)
      have oz: "\<not> occ ?S1 z" using less.prems(5,6) by simp
      have far: "cyc (length ?S1) (unat ?i') z < cyc (length ?S1) (unat ?i') (unat i)"
      proof -
        have "cyc ?N (unat ?i') z < cyc ?N (unat ?i') (unat i)"
          unfolding i'(1) using iN zN iz by (cases "Suc (unat i) = ?N") (auto simp: cyc_def)
        then show ?thesis by simp
      qed
      have "\<exists>S'. backshiftLoop m ?S1 i ?i' = Some (Inr S') \<and> length S' = length ?S1 \<and> chained S'
         \<and> slotsOf S' = slotsOf (?S1[unat i := zeroSlot])"
        by (rule less.hyps [OF _ t1 _ _ _ oz _ far inv]) (use cz eN iN zN i'(2) iz in simp_all)
      then show ?thesis unfolding run same by simp
    qed
  qed
qed

subsection \<open>The table of a cache\<close>

definition slotTable :: "'v arenaRadix \<Rightarrow> bool" where
  "slotTable c \<longleftrightarrow> tableOk (ar_hashSlots c) (ar_hashMask c) \<and> chained (ar_hashSlots c) \<and> hasFree (ar_hashSlots c)
     \<and> ar_hashCount c = int (size (slotsOf (ar_hashSlots c)))"

lemma slotTableD:
  assumes "slotTable c"
  shows "tableOk (ar_hashSlots c) (ar_hashMask c)" "chained (ar_hashSlots c)" "hasFree (ar_hashSlots c)"
    "ar_hashCount c = int (size (slotsOf (ar_hashSlots c)))"
  using assms by (simp_all add: slotTable_def)

lemma hashTag_pos: "arenaHashTag h \<noteq> 0"
  by (simp add: arenaHashTag_def Let_def)

definition loadOk :: "'v arenaRadix \<Rightarrow> bool" where
  \<comment> \<open>room for one more entry at the load factor of the code\<close>
  "loadOk c \<longleftrightarrow> (ar_hashCount c + 1) * 5 \<le> int (length (ar_hashSlots c)) * 4"

lemma grow_spec:
  assumes inv: "slotTable c" and few: "ar_hashCount c + 1 < 2 ^ 30"
  shows "\<exists>S m. (if int (length (ar_hashSlots c)) * 4 < (ar_hashCount c + 1) * 5
        then resizeHashSlotsLocked (hashSlotsCapFor (ar_hashCount c + 1)) c else Inr c)
      = Inr (c\<lparr>ar_hashSlots := S, ar_hashMask := m\<rparr>)
    \<and> slotTable (c\<lparr>ar_hashSlots := S, ar_hashMask := m\<rparr>) \<and> loadOk (c\<lparr>ar_hashSlots := S, ar_hashMask := m\<rparr>)
    \<and> slotsOf S = slotsOf (ar_hashSlots c)"
proof (cases "int (length (ar_hashSlots c)) * 4 < (ar_hashCount c + 1) * 5")
  case False
  then show ?thesis using inv
    by (intro exI [of _ "ar_hashSlots c"] exI [of _ "ar_hashMask c"]) (simp add: loadOk_def)
next
  case True
  note I = slotTableD [OF inv]
  have pos: "0 \<le> ar_hashCount c + 1" using I(4) by simp
  obtain b where b: "4 \<le> b" "b \<le> 31" "hashSlotsCapFor (ar_hashCount c + 1) = 2 ^ b" "(ar_hashCount c + 1) * 5 \<le> 2 ^ b * 4"
    using capFor_spec [OF pos few] by (elim exE conjE) (rule that)
  have small: "size (slotsOf (ar_hashSlots c)) < 2 ^ b"
  proof -
    let ?n = "size (slotsOf (ar_hashSlots c))"
    have "int (?n * 5 + 5) \<le> int (2 ^ b * 4)" using b(4) I(4) by simp
    then have "?n * 5 + 5 \<le> 2 ^ b * 4" by (simp only: of_nat_le_iff)
    then show ?thesis by linarith
  qed
  obtain S where S: "resizeHashSlotsLocked (2 ^ b) c = Inr (c\<lparr>ar_hashSlots := S, ar_hashMask := mask b\<rparr>)"
    "length S = 2 ^ b" "chained S" "slotsOf S = slotsOf (ar_hashSlots c)"
    using resize_spec [OF b(1,2) small] by (elim exE conjE) (rule that)
  have "tableOk S (mask b)" using b(2) S(2) by (auto simp: tableOk_def)
  moreover have "hasFree S" using size_slotsOf(2) [of S] small S(2,4) by simp
  ultimately have "slotTable (c\<lparr>ar_hashSlots := S, ar_hashMask := mask b\<rparr>)" using S(3,4) I(4) by (simp add: slotTable_def)
  moreover have "loadOk (c\<lparr>ar_hashSlots := S, ar_hashMask := mask b\<rparr>)" using b(4) S(2) by (simp add: loadOk_def)
  ultimately show ?thesis using True S(1,4) b(3) by (intro exI [of _ S] exI [of _ "mask b"]) simp
qed

lemma place_table:
  assumes inv: "slotTable c" and load: "loadOk c" and tag: "hs_tag s \<noteq> 0"
  shows "\<exists>S. placeSlot (ar_hashMask c) (hs_tag s) s (ar_hashSlots c) = Inr S
    \<and> slotTable (c\<lparr>ar_hashSlots := S, ar_hashCount := ar_hashCount c + 1\<rparr>) \<and> slotsOf S = add_mset s (slotsOf (ar_hashSlots c))"
proof -
  note I = slotTableD [OF inv]
  obtain S z where S: "placeSlot (ar_hashMask c) (hs_tag s) s (ar_hashSlots c) = Inr S" "S = (ar_hashSlots c)[z := s]"
    "slotsOf S = add_mset s (slotsOf (ar_hashSlots c))" "chained S"
    using place_spec [OF I(1,3,2) tag] by (elim exE conjE) (rule that)
  have len: "length S = length (ar_hashSlots c)" by (simp add: S(2))
  have "size (slotsOf S) < length S" using load I(4) by (simp add: S(3) len loadOk_def)
  then have "hasFree S" using size_slotsOf(2) by simp
  moreover have "tableOk S (ar_hashMask c)" using I(1) by (simp add: tableOk_def len)
  ultimately show ?thesis using S(1,3,4) I(4) by (intro exI [of _ S]) (simp add: slotTable_def)
qed

lemma insertNew_spec:
  assumes inv: "slotTable c" and few: "ar_hashCount c + 1 < 2 ^ 30" and k: "unat nodeID < length (ar_nodes c)"
  shows "\<exists>S m. insertNewHashSlotLocked h nodeID c = Inr (c\<lparr>ar_hashSlots := S, ar_hashMask := m, ar_hashCount := ar_hashCount c + 1,
        ar_nodes := (ar_nodes c)[unat nodeID := an_setHashTag21 (arenaHashTag h) (ar_nodes c ! unat nodeID)]\<rparr>)
    \<and> slotTable (c\<lparr>ar_hashSlots := S, ar_hashMask := m, ar_hashCount := ar_hashCount c + 1\<rparr>)
    \<and> slotsOf S = add_mset \<lparr>hs_tag = arenaHashTag h, hs_nodeID = nodeID\<rparr> (slotsOf (ar_hashSlots c))"
proof -
  obtain S1 m where g: "(if int (length (ar_hashSlots c)) * 4 < (ar_hashCount c + 1) * 5
        then resizeHashSlotsLocked (hashSlotsCapFor (ar_hashCount c + 1)) c else Inr c) = Inr (c\<lparr>ar_hashSlots := S1, ar_hashMask := m\<rparr>)"
    "slotTable (c\<lparr>ar_hashSlots := S1, ar_hashMask := m\<rparr>)" "loadOk (c\<lparr>ar_hashSlots := S1, ar_hashMask := m\<rparr>)"
    "slotsOf S1 = slotsOf (ar_hashSlots c)"
    using grow_spec [OF inv few] by (elim exE conjE) (rule that)
  let ?s = "\<lparr>hs_tag = arenaHashTag h, hs_nodeID = nodeID\<rparr>"
  have tag: "hs_tag ?s \<noteq> 0" by (simp add: hashTag_pos)
  obtain S where S: "placeSlot m (arenaHashTag h) ?s S1 = Inr S"
    "slotTable (c\<lparr>ar_hashSlots := S, ar_hashMask := m, ar_hashCount := ar_hashCount c + 1\<rparr>)" "slotsOf S = add_mset ?s (slotsOf S1)"
    using place_table [OF g(2,3) tag] by (auto simp: slotTable_def)
  show ?thesis
    unfolding insertNewHashSlotLocked_def g(1) bindr_simps Let_def
    using S k g(4) by (intro exI [of _ S] exI [of _ m]) (simp add: updNode_def nodeAt_def)
qed

lemma slotTable_nodes [simp]: "slotTable (c\<lparr>ar_nodes := ns\<rparr>) = slotTable c"
  by (simp add: slotTable_def)

lemma backshift_spec:
  assumes inv: "slotTable c" and d: "unat d < length (ar_hashSlots c)" "occ (ar_hashSlots c) (unat d)"
  shows "\<exists>S. backshiftDeleteSlot d c = Inr (c\<lparr>ar_hashSlots := S, ar_hashCount := ar_hashCount c - 1\<rparr>)
    \<and> slotTable (c\<lparr>ar_hashSlots := S, ar_hashCount := ar_hashCount c - 1\<rparr>)
    \<and> slotsOf S = slotsOf (ar_hashSlots c) - {#ar_hashSlots c ! unat d#}"
proof -
  note I = slotTableD [OF inv]
  let ?S = "ar_hashSlots c" and ?m = "ar_hashMask c"
  let ?i = "(d + 1) AND ?m"
  obtain z where z: "z < length ?S" "\<not> occ ?S z" using I(3) unfolding hasFree_def by blast
  have zd: "z \<noteq> unat d" using z(2) d(2) by auto
  note i = table_next [OF I(1) d(1)] table_home_less [OF I(1), of "d + 1"]
  have far: "cyc (length ?S) (unat ?i) z < cyc (length ?S) (unat ?i) (unat d)"
    unfolding i(1) using d(1) z(1) zd by (cases "Suc (unat d) = length ?S") (auto simp: cyc_def)
  have hole: "holeInv (?S[unat d := zeroSlot]) (unat d) (unat ?i)" unfolding i(1) by (rule hole_start [OF I(2) d])
  obtain S where S: "backshiftLoop ?m ?S d ?i = Some (Inr S)" "length S = length ?S" "chained S" "slotsOf S = slotsOf (?S[unat d := zeroSlot])"
    using backshift_loop_spec [OF I(1) d(1) i(2) z zd far hole] by (elim exE conjE) (rule that)
  have del: "slotsOf S = slotsOf ?S - {#?S ! unat d#}" using S(4) slotsOf_clear [OF d(1)] by simp
  have mem: "?S ! unat d \<in># slotsOf ?S" using d by (auto simp: slotsOf_mem)
  have size: "Suc (size (slotsOf S)) = size (slotsOf ?S)" unfolding del using mem by (simp add: size_Diff_singleton size_eq_Suc_imp_eq_union) (metis Suc_pred mem nonempty_has_size empty_iff set_mset_empty)
  have "hasFree S" using size_slotsOf [of ?S] size_slotsOf(2) [of S] size S(2) by simp
  moreover have "tableOk S ?m" using I(1) S(2) by (simp add: tableOk_def)
  moreover have "ar_hashCount c - 1 = int (size (slotsOf S))" using I(4) size by simp
  ultimately have "slotTable (c\<lparr>ar_hashSlots := S, ar_hashCount := ar_hashCount c - 1\<rparr>)" using S(3) by (simp add: slotTable_def)
  then show ?thesis using S(1) del by (intro exI [of _ S]) (simp add: backshiftDeleteSlot_def)
qed

end
