(* ===== verification/ArenaIndex.thy ===== *)
theory ArenaIndex
  imports ArenaNames ArenaSlots
begin

text \<open>
  The index of the arena backend: from the hash of a key to the node that bears it. One node for each hash sits in
  the open-addressed table; further nodes whose keys have the same 64-bit hash wait in \<open>collisionPeers\<close> and are
  promoted when their rival leaves. Slots hold 32 bits of the hash only, so a slot with the tag of a key may
  belong to another hash, which \<open>slotBelongsToOtherHash\<close> decides by hashing the key of its node again.

  The probe loop that \<^verbatim>\<open>arena_radix.go\<close> repeats inline in four lookups is \<open>lookupHashSlotAt\<close>; the one of
  \<open>promoteCollisionPeerLocked\<close> and \<open>removeOrPromoteNodeMapLocked\<close> is \<open>ownSlotLoop\<close>.
\<close>

unbundle bit_operations_syntax

subsection \<open>Probing\<close>

definition slotBelongsToOtherHash :: "arenaHashSlot \<Rightarrow> u64 \<Rightarrow> 'v arenaRadix \<Rightarrow> bool res" where
  "slotBelongsToOtherHash slot keyHash c =
     (if length (ar_nodes c) \<le> unat (hs_nodeID slot) \<or> \<not> an_hasValue (ar_nodes c ! unat (hs_nodeID slot)) then Inr False
      else bindr (hashNodeKey (hs_nodeID slot) c) (\<lambda>nodeHash.
        Inr (nodeHash \<noteq> keyHash \<and> arenaHashTag nodeHash = hs_tag slot)))"

definition slotBears :: "u32 \<Rightarrow> string \<Rightarrow> 'v arenaRadix \<Rightarrow> bool res" where
  \<comment> \<open>\<open>uint(id) < uint(len(c.nodes)) && c.nodes[id].hasValue() && c.verifyKey(id, key)\<close>\<close>
  "slotBears k key c = (if unat k < length (ar_nodes c) \<and> an_hasValue (ar_nodes c ! unat k) then verifyKey k key c else Inr False)"

partial_function (option) lookupSlotLoop :: "'v arenaRadix \<Rightarrow> string \<Rightarrow> u64 \<Rightarrow> u32 \<Rightarrow> bool \<Rightarrow> (u32 \<times> u32 \<times> bool \<times> bool) res option" where
  "lookupSlotLoop c key keyHash i slotMatched = (case slotAt (ar_hashSlots c) i of Inl p \<Rightarrow> Some (Inl p)
     | Inr slot \<Rightarrow> if hs_tag slot = 0 then Some (Inr (nilNode, 0, slotMatched, False))
         else if hs_tag slot = arenaHashTag keyHash
         then (case slotBears (hs_nodeID slot) key c of Inl p \<Rightarrow> Some (Inl p)
           | Inr verified \<Rightarrow> if verified then Some (Inr (hs_nodeID slot, i, True, True))
             else (case slotBelongsToOtherHash slot keyHash c of Inl p \<Rightarrow> Some (Inl p)
               | Inr other \<Rightarrow> lookupSlotLoop c key keyHash ((i + 1) AND ar_hashMask c) (slotMatched \<or> \<not> other)))
         else lookupSlotLoop c key keyHash ((i + 1) AND ar_hashMask c) slotMatched)"

definition lookupHashSlotAt :: "string \<Rightarrow> u64 \<Rightarrow> 'v arenaRadix \<Rightarrow> (u32 \<times> u32 \<times> bool \<times> bool) res" where
  "lookupHashSlotAt key keyHash c = (if ar_hashSlots c = [] then Inr (nilNode, 0, False, False)
     else of_loop (lookupSlotLoop c key keyHash (arenaHashTag keyHash AND ar_hashMask c) False))"

definition lookupHashSlot :: "string \<Rightarrow> u64 \<Rightarrow> 'v arenaRadix \<Rightarrow> (u32 \<times> bool \<times> bool) res" where
  "lookupHashSlot key keyHash c = bindr (lookupHashSlotAt key keyHash c) (\<lambda>(k, _, matched, ok). Inr (k, matched, ok))"

partial_function (option) hashIndexLoop :: "'v arenaRadix \<Rightarrow> u64 \<Rightarrow> u32 \<Rightarrow> (u32 \<times> bool) res option" where
  "hashIndexLoop c keyHash i = (case slotAt (ar_hashSlots c) i of Inl p \<Rightarrow> Some (Inl p)
     | Inr slot \<Rightarrow> if hs_tag slot = 0 then Some (Inr (i, False))
         else if hs_tag slot = arenaHashTag keyHash
         then (case slotBelongsToOtherHash slot keyHash c of Inl p \<Rightarrow> Some (Inl p)
           | Inr other \<Rightarrow> if other then hashIndexLoop c keyHash ((i + 1) AND ar_hashMask c) else Some (Inr (i, True)))
         else hashIndexLoop c keyHash ((i + 1) AND ar_hashMask c))"

definition findHashSlotIndex :: "u64 \<Rightarrow> 'v arenaRadix \<Rightarrow> (u32 \<times> bool) res" where
  "findHashSlotIndex keyHash c = (if ar_hashSlots c = [] then Inr (0, False)
     else of_loop (hashIndexLoop c keyHash (arenaHashTag keyHash AND ar_hashMask c)))"

definition nodeMapGet :: "u64 \<Rightarrow> 'v arenaRadix \<Rightarrow> (u32 \<times> bool) res" where
  "nodeMapGet keyHash c = bindr (findHashSlotIndex keyHash c) (\<lambda>(i, ok).
     if ok then bindr (slotAt (ar_hashSlots c) i) (\<lambda>s. Inr (hs_nodeID s, True)) else Inr (0, False))"

definition nodeMapAt :: "u64 \<Rightarrow> 'v arenaRadix \<Rightarrow> u32 res" where
  "nodeMapAt keyHash c = bindr (nodeMapGet keyHash c) (\<lambda>(k, _). Inr k)"

definition setSlotTag :: "u32 \<Rightarrow> u32 \<Rightarrow> 'v arenaRadix \<Rightarrow> 'v arenaRadix res" where
  \<comment> \<open>\<open>if nodeID < uint32(len(c.nodes)) { c.nodes[nodeID].setHashTag21(tag) }\<close>\<close>
  "setSlotTag k tag c = (if k < (of_nat (length (ar_nodes c)) :: u32) then updNode k (an_setHashTag21 tag) c else Inr c)"

definition growSlots :: "'v arenaRadix \<Rightarrow> 'v arenaRadix res" where
  "growSlots c = (if int (length (ar_hashSlots c)) * 4 < (ar_hashCount c + 1) * 5
     then resizeHashSlotsLocked (hashSlotsCapFor (ar_hashCount c + 1)) c else Inr c)"

definition nodeMapSet :: "u64 \<Rightarrow> u32 \<Rightarrow> 'v arenaRadix \<Rightarrow> 'v arenaRadix res" where
  "nodeMapSet keyHash nodeID c0 = bindr (growSlots c0) (\<lambda>c.
     bindr (findHashSlotIndex keyHash c) (\<lambda>(i, exists). let tag = arenaHashTag keyHash in
     bindr (putSlot i \<lparr>hs_tag = tag, hs_nodeID = nodeID\<rparr> (ar_hashSlots c)) (\<lambda>slots.
     bindr (setSlotTag nodeID tag (c\<lparr>ar_hashSlots := slots\<rparr>)) (\<lambda>c1.
     Inr (if exists then c1 else c1\<lparr>ar_hashCount := ar_hashCount c1 + 1\<rparr>)))))"

definition nodeMapDelete :: "u64 \<Rightarrow> 'v arenaRadix \<Rightarrow> 'v arenaRadix res" where
  "nodeMapDelete keyHash c = bindr (findHashSlotIndex keyHash c) (\<lambda>(i, ok). if ok then backshiftDeleteSlot i c else Inr c)"

definition nodeMapLen :: "'v arenaRadix \<Rightarrow> int" where
  "nodeMapLen c = ar_hashCount c"

subsection \<open>Collision peers\<close>

definition peersOf :: "'v arenaRadix \<Rightarrow> u64 \<Rightarrow> u32 list" where
  \<comment> \<open>\<open>c.collisionPeers[h]\<close>\<close>
  "peersOf c h = (case ar_collisionPeers c of None \<Rightarrow> [] | Some m \<Rightarrow> (case map_of m h of None \<Rightarrow> [] | Some ps \<Rightarrow> ps))"

definition peerIndex :: "u32 \<Rightarrow> u32 list \<Rightarrow> nat option" where
  \<comment> \<open>\<open>slices.Index\<close>\<close>
  "peerIndex k ps = (if k \<in> set ps then Some (length (takeWhile (\<lambda>x. x \<noteq> k) ps)) else None)"

definition storePeers :: "u64 \<Rightarrow> u32 list \<Rightarrow> (u64 \<times> u32 list) list \<Rightarrow> (u64 \<times> u32 list) list option" where
  \<comment> \<open>write back the peers that are left; an empty list leaves the map, an empty map becomes nil\<close>
  "storePeers h ps m = (if ps = [] then (let m1 = AList.delete h m in if m1 = [] then None else Some m1)
     else Some (AList.update h ps m))"

definition removeCollisionPeerLocked :: "u64 \<Rightarrow> u32 \<Rightarrow> 'v arenaRadix \<Rightarrow> 'v arenaRadix" where
  "removeCollisionPeerLocked hash nodeID c = (case ar_collisionPeers c of None \<Rightarrow> c
     | Some m \<Rightarrow> let peers = peersOf c hash in
       (case peerIndex nodeID peers of None \<Rightarrow> c
        | Some i \<Rightarrow> let
            c1 = c\<lparr>ar_collisionPeers := storePeers hash (take i peers @ drop (Suc i) peers) m\<rparr>
            in if 0 < ar_collisionCount c1 then c1\<lparr>ar_collisionCount := ar_collisionCount c1 - 1\<rparr> else c1))"

definition peerValid :: "u32 \<Rightarrow> u64 \<Rightarrow> 'v arenaRadix \<Rightarrow> bool res" where
  \<comment> \<open>\<open>id < uint32(len(c.nodes)) && c.nodes[id].hasValue() && c.hashNodeKey(id) == hash\<close>\<close>
  "peerValid k hash c = (if k < (of_nat (length (ar_nodes c)) :: u32) \<and> an_hasValue (ar_nodes c ! unat k)
     then bindr (hashNodeKey k c) (\<lambda>h. Inr (h = hash)) else Inr False)"

definition promoteNodeIntoHashSlotAtLocked :: "u32 \<Rightarrow> u32 \<Rightarrow> u64 \<Rightarrow> u32 \<Rightarrow> 'v arenaRadix \<Rightarrow> 'v arenaRadix res" where
  "promoteNodeIntoHashSlotAtLocked slotIdx tag keyHash nodeID c = bindr (slotAt (ar_hashSlots c) slotIdx) (\<lambda>slot.
     let prevID = hs_nodeID slot in
     bindr (peerValid prevID keyHash c) (\<lambda>prevValid. let
       peers = peersOf c keyHash;
       c1 = (case peerIndex nodeID peers of
           Some i \<Rightarrow> if prevValid then c\<lparr>ar_collisionPeers := map_option (AList.update keyHash (peers[i := prevID])) (ar_collisionPeers c)\<rparr>
             else removeCollisionPeerLocked keyHash nodeID c
         | None \<Rightarrow> if prevValid
             then c\<lparr>ar_collisionPeers := Some (AList.update keyHash (peers @ [prevID]) (case ar_collisionPeers c of None \<Rightarrow> [] | Some m \<Rightarrow> m)),
                    ar_collisionCount := ar_collisionCount c + 1\<rparr>
             else c)
       in bindr (putSlot slotIdx \<lparr>hs_tag = tag, hs_nodeID = nodeID\<rparr> (ar_hashSlots c1)) (\<lambda>slots.
          setSlotTag nodeID tag (c1\<lparr>ar_hashSlots := slots\<rparr>))))"

datatype slotProbe = EmptySlot | OwnSlot u32 | RivalSlot u32

partial_function (option) ownSlotLoop :: "'v arenaRadix \<Rightarrow> u64 \<Rightarrow> u32 \<Rightarrow> u32 \<Rightarrow> slotProbe res option" where
  \<comment> \<open>probe for the slot of \<open>nodeID\<close>, or the slot that its hash has already\<close>
  "ownSlotLoop c hash nodeID i = (case slotAt (ar_hashSlots c) i of Inl p \<Rightarrow> Some (Inl p)
     | Inr slot \<Rightarrow> if hs_tag slot = 0 then Some (Inr EmptySlot)
         else if hs_tag slot = arenaHashTag hash
         then if hs_nodeID slot = nodeID then Some (Inr (OwnSlot i))
           else (case slotBelongsToOtherHash slot hash c of Inl p \<Rightarrow> Some (Inl p)
             | Inr other \<Rightarrow> if other then ownSlotLoop c hash nodeID ((i + 1) AND ar_hashMask c) else Some (Inr (RivalSlot i)))
         else ownSlotLoop c hash nodeID ((i + 1) AND ar_hashMask c))"

definition ownSlot :: "'v arenaRadix \<Rightarrow> u64 \<Rightarrow> u32 \<Rightarrow> slotProbe res" where
  "ownSlot c hash nodeID = (if ar_hashSlots c = [] then Inr EmptySlot
     else of_loop (ownSlotLoop c hash nodeID (arenaHashTag hash AND ar_hashMask c)))"

definition promoteCollisionPeerLocked :: "u64 \<Rightarrow> u32 \<Rightarrow> 'v arenaRadix \<Rightarrow> 'v arenaRadix res" where
  "promoteCollisionPeerLocked keyHash nodeID c = bindr (ownSlot c keyHash nodeID) (\<lambda>probe. case probe of
       EmptySlot \<Rightarrow> nodeMapSet keyHash nodeID (removeCollisionPeerLocked keyHash nodeID c)
     | OwnSlot i \<Rightarrow> Inr c
     | RivalSlot i \<Rightarrow> promoteNodeIntoHashSlotAtLocked i (arenaHashTag keyHash) keyHash nodeID c)"

definition recordNodeMapInsertLocked :: "u64 \<Rightarrow> u32 \<Rightarrow> 'v arenaRadix \<Rightarrow> 'v arenaRadix res" where
  "recordNodeMapInsertLocked keyHash nodeID c = promoteCollisionPeerLocked keyHash nodeID c"

fun popPeerLoop :: "'v arenaRadix \<Rightarrow> u64 \<Rightarrow> u32 \<Rightarrow> u32 list \<Rightarrow> int \<Rightarrow> ((u32 \<times> u32 list) option \<times> int) res" where
  \<comment> \<open>the peers from the last to the first, and the collision count\<close>
  "popPeerLoop c hash excludeID [] n = Inr (None, n)"
| "popPeerLoop c hash excludeID (k # ps) n0 = (let n = (if 0 < n0 then n0 - 1 else n0) in
     bindr (if k \<noteq> excludeID then peerValid k hash c else Inr False) (\<lambda>ok.
     if ok then Inr (Some (k, rev ps), n) else popPeerLoop c hash excludeID ps n))"

definition popValidCollisionPeerLocked :: "u64 \<Rightarrow> u32 \<Rightarrow> 'v arenaRadix \<Rightarrow> (u32 option \<times> 'v arenaRadix) res" where
  "popValidCollisionPeerLocked hash excludeID c = (case ar_collisionPeers c of None \<Rightarrow> Inr (None, c)
     | Some m \<Rightarrow> bindr (popPeerLoop c hash excludeID (rev (peersOf c hash)) (ar_collisionCount c)) (\<lambda>(found, n). case found of
         Some (k, ps) \<Rightarrow> Inr (Some k, c\<lparr>ar_collisionPeers := storePeers hash ps m, ar_collisionCount := n\<rparr>)
       | None \<Rightarrow> let m1 = AList.delete hash m in
           Inr (None, if m1 = [] then c\<lparr>ar_collisionPeers := None, ar_collisionCount := 0\<rparr>
             else c\<lparr>ar_collisionPeers := Some m1, ar_collisionCount := n\<rparr>)))"

definition removeOrPromoteHashSlotAtLocked :: "u32 \<Rightarrow> u64 \<Rightarrow> u32 \<Rightarrow> 'v arenaRadix \<Rightarrow> 'v arenaRadix res" where
  "removeOrPromoteHashSlotAtLocked i hash nodeID c0 = bindr (popValidCollisionPeerLocked hash nodeID c0) (\<lambda>(found, c). case found of
       Some peerID \<Rightarrow> bindr (slotAt (ar_hashSlots c) i) (\<lambda>slot.
         bindr (putSlot i (slot\<lparr>hs_nodeID := peerID\<rparr>) (ar_hashSlots c)) (\<lambda>slots.
         setSlotTag peerID (hs_tag slot) (c\<lparr>ar_hashSlots := slots\<rparr>)))
     | None \<Rightarrow> bindr (backshiftDeleteSlot i c) (\<lambda>c1.
         Inr (if 0 < ar_collisionCount c1 \<and> (case ar_collisionPeers c1 of None \<Rightarrow> True | Some m \<Rightarrow> m = [])
              then c1\<lparr>ar_collisionCount := 0\<rparr> else c1)))"

definition removeOrPromoteNodeMapLocked :: "u64 \<Rightarrow> u32 \<Rightarrow> 'v arenaRadix \<Rightarrow> 'v arenaRadix res" where
  "removeOrPromoteNodeMapLocked hash nodeID c = bindr (ownSlot c hash nodeID) (\<lambda>probe. case probe of
       EmptySlot \<Rightarrow> Inr (removeCollisionPeerLocked hash nodeID c)
     | OwnSlot i \<Rightarrow> removeOrPromoteHashSlotAtLocked i hash nodeID c
     | RivalSlot i \<Rightarrow> Inr (removeCollisionPeerLocked hash nodeID c))"

partial_function (option) fastSlotLoop :: "'v arenaRadix \<Rightarrow> u32 \<Rightarrow> u32 \<Rightarrow> u32 \<Rightarrow> u32 option res option" where
  "fastSlotLoop c nodeID tag21 i = (case slotAt (ar_hashSlots c) i of Inl p \<Rightarrow> Some (Inl p)
     | Inr slot \<Rightarrow> if hs_tag slot = 0 then Some (Inr None)
         else if hs_nodeID slot = nodeID \<and> hs_tag slot AND hashTag21Mask = tag21 then Some (Inr (Some i))
         else fastSlotLoop c nodeID tag21 ((i + 1) AND ar_hashMask c))"

definition deleteNodeFromHashSlotsFastLocked :: "u32 \<Rightarrow> 'v arenaRadix \<Rightarrow> ('v arenaRadix \<times> bool) res" where
  "deleteNodeFromHashSlotsFastLocked nodeID c = (if ar_hashSlots c = [] then Inr (c, False)
     else bindr (nodeAt c nodeID) (\<lambda>n. let tag21 = an_hashTag21 n in
       if tag21 = 0 then Inr (c, False)
       else bindr (of_loop (fastSlotLoop c nodeID tag21 (tag21 AND ar_hashMask c))) (\<lambda>found. case found of
           None \<Rightarrow> Inr (c, False)
         | Some i \<Rightarrow> bindr (backshiftDeleteSlot i c) (\<lambda>c1. Inr (c1, True)))))"

subsection \<open>Lookups\<close>

definition walkNodeKeyFallback :: "string \<Rightarrow> u64 \<Rightarrow> bool \<Rightarrow> 'v arenaRadix \<Rightarrow> (u32 \<times> bool \<times> 'v arenaRadix) res" where
  "walkNodeKeyFallback key keyHash heal c0 = (let
     c = c0\<lparr>ar_ps := (ar_ps c0)\<lparr>arenaHashFallbacks := arenaHashFallbacks (ar_ps c0) + 1\<rparr>\<rparr>
     in bindr (findNodeByTrieWalk c key) (\<lambda>(cur, ok).
        bindr (if heal \<and> ok then promoteCollisionPeerLocked keyHash cur c else Inr c) (\<lambda>c1. Inr (cur, ok, c1))))"

definition lookupOrWalkNodeKey :: "string \<Rightarrow> u64 \<Rightarrow> 'v arenaRadix \<Rightarrow> (u32 \<times> bool \<times> bool \<times> 'v arenaRadix) res" where
  \<comment> \<open>node, walked, found\<close>
  "lookupOrWalkNodeKey key keyHash c = bindr (lookupHashSlotAt key keyHash c) (\<lambda>(k, _, slotMatched, verified).
     if verified then Inr (k, False, True, c)
     else if \<not> slotMatched \<and> ar_hashCount c + ar_collisionCount c = ar_len c then Inr (nilNode, False, False, c)
     else bindr (walkNodeKeyFallback key keyHash False c) (\<lambda>(cur, ok, c1). Inr (cur, True, ok, c1)))"

definition lookupNodeKeyWithHash :: "string \<Rightarrow> u64 \<Rightarrow> 'v arenaRadix \<Rightarrow> (u32 \<times> bool \<times> 'v arenaRadix) res" where
  "lookupNodeKeyWithHash key keyHash c = bindr (lookupHashSlotAt key keyHash c) (\<lambda>(k, _, slotMatched, verified).
     if verified then Inr (k, True, c)
     else if \<not> slotMatched \<and> ar_hashCount c + ar_collisionCount c = ar_len c then Inr (nilNode, False, c)
     else walkNodeKeyFallback key keyHash False c)"

definition getNodeKeyWithHash :: "string \<Rightarrow> u64 \<Rightarrow> 'v arenaRadix \<Rightarrow> (u32 \<times> bool \<times> 'v arenaRadix) res" where
  "getNodeKeyWithHash key keyHash c = bindr (lookupHashSlotAt key keyHash c) (\<lambda>(k, _, slotMatched, verified).
     if verified then Inr (k, True, c)
     else if \<not> slotMatched \<and> ar_hashCount c + ar_collisionCount c = ar_len c then Inr (nilNode, False, c)
     else walkNodeKeyFallback key keyHash True c)"

definition getNodeKeyForPut :: "string \<Rightarrow> u64 \<Rightarrow> 'v arenaRadix \<Rightarrow> (u32 \<times> bool \<times> bool \<times> 'v arenaRadix) res" where
  \<comment> \<open>node, found, mapMiss\<close>
  "getNodeKeyForPut key keyHash c = bindr (lookupHashSlotAt key keyHash c) (\<lambda>(k, _, slotMatched, verified).
     if verified then Inr (k, True, False, c)
     else if \<not> slotMatched \<and> ar_hashCount c + ar_collisionCount c = ar_len c then Inr (nilNode, False, True, c)
     else bindr (walkNodeKeyFallback key keyHash True c) (\<lambda>(cur, ok, c1). Inr (cur, ok, False, c1)))"

end
