(* ===== verification/ArenaProbe.thy ===== *)
theory ArenaProbe
  imports ArenaIndex
begin

text \<open>
  What the probe loops find. \<open>probe_home\<close> is the one argument about probing: a loop that passes over the slots which
  do not satisfy \<open>P\<close> stops at a slot that does, if there is one, and at the first empty slot otherwise.
\<close>

unbundle bit_operations_syntax

subsection \<open>Any probe loop\<close>

lemma probe_to:
  assumes t: "tableOk S m" and free: "hasFree S" and i: "unat i < length S"
    and step: "\<forall>i. unat i < length S \<longrightarrow> occ S (unat i) \<longrightarrow> \<not> P (unat i) \<longrightarrow> f i = f ((i + 1) AND m)"
  shows "\<exists>z. unat z < length S \<and> f i = f z \<and> (\<not> occ S (unat z) \<or> P (unat z))
    \<and> (\<forall>j < length S. cyc (length S) (unat i) j < cyc (length S) (unat i) (unat z) \<longrightarrow> occ S j \<and> \<not> P j)"
  using t free i
proof (induction i rule: probe_induct)
  case (step i)
  show ?case
  proof (cases "\<not> occ S (unat i) \<or> P (unat i)")
    case True
    then show ?thesis using step(1) by (intro exI [of _ i]) simp
  next
    case False
    let ?i' = "(i + 1) AND m"
    have l: "unat ?i' < length S" by (rule table_home_less [OF t])
    obtain z where z: "unat z < length S" "f ?i' = f z" "\<not> occ S (unat z) \<or> P (unat z)"
      "\<forall>j < length S. cyc (length S) (unat ?i') j < cyc (length S) (unat ?i') (unat z) \<longrightarrow> occ S j \<and> \<not> P j"
      using step(2) [OF _ l] False by blast
    have zi: "unat i \<noteq> unat z" using False z(3) by metis
    have "f i = f z" using assms(4) step(1) False z(2) by metis
    moreover have "occ S j \<and> \<not> P j" if j: "j < length S" "cyc (length S) (unat i) j < cyc (length S) (unat i) (unat z)" for j
    proof (cases "j = unat i")
      case ji: False
      then have "cyc (length S) (unat ?i') j < cyc (length S) (unat ?i') (unat z)"
        using j(2) cyc_next [OF step(1) j(1)] cyc_next [OF step(1) z(1) zi] by (simp add: table_next [OF t step(1)])
      then show ?thesis using z(4) j(1) by blast
    qed (use False in simp)
    ultimately show ?thesis using z(1,3) by blast
  qed
qed

lemma cyc_inj: "a < N \<Longrightarrow> b < N \<Longrightarrow> e < N \<Longrightarrow> cyc N e a = cyc N e b \<Longrightarrow> a = b"
  by (auto simp: cyc_def split: if_splits)

lemma probe_home:
  assumes t: "tableOk S m" and free: "hasFree S" and ch: "chained S"
    and hits: "\<forall>j < length S. P j \<longrightarrow> occ S j \<and> homeOf S j = unat (tag AND m)"
    and step: "\<forall>i. unat i < length S \<longrightarrow> occ S (unat i) \<longrightarrow> \<not> P (unat i) \<longrightarrow> f i = f ((i + 1) AND m)"
  shows "\<exists>z. unat z < length S \<and> f (tag AND m) = f z \<and> (if \<exists>j < length S. P j then P (unat z)
    else \<not> occ S (unat z) \<and> freeSlotLoop S m (tag AND m) = Some (Inr z))"
proof -
  let ?i = "tag AND m" and ?N = "length S"
  have i: "unat ?i < ?N" by (rule table_home_less [OF t])
  obtain z where z: "unat z < ?N" "f ?i = f z" "\<not> occ S (unat z) \<or> P (unat z)"
    "\<forall>j < ?N. cyc ?N (unat ?i) j < cyc ?N (unat ?i) (unat z) \<longrightarrow> occ S j \<and> \<not> P j"
    using probe_to [OF t free i step] by (elim exE conjE) (rule that)
  show ?thesis
  proof (cases "\<exists>j < ?N. P j")
    case True
    then obtain j where j: "j < ?N" "P j" by blast
    have "P (unat z)"
    proof (rule ccontr)
      assume n: "\<not> P (unat z)"
      have h: "homeOf S j = unat ?i" "occ S j" using hits j by blast+
      consider "cyc ?N (unat ?i) j < cyc ?N (unat ?i) (unat z)" | "cyc ?N (unat ?i) (unat z) < cyc ?N (unat ?i) j" | "j = unat z"
        using cyc_inj [OF j(1) z(1) i] by (meson linorder_neqE_nat)
      then show False
      proof cases
        case 2
        then show ?thesis using chainedD [OF ch j(1) h(2) z(1)] h(1) z(3) n by simp
      qed (use z(4) j n in blast)+
    qed
    then show ?thesis using True z(1,2) by auto
  next
    case False
    have nz: "\<not> occ S (unat z)" using z(1,3) False by blast
    obtain y where y: "freeSlotLoop S m ?i = Some (Inr y)" "unat y < ?N" "\<not> occ S (unat y)"
      "\<forall>j < ?N. cyc ?N (unat ?i) j < cyc ?N (unat ?i) (unat y) \<longrightarrow> occ S j"
      using freeSlot_spec [OF t free i] by (elim exE conjE) (rule that)
    have "\<not> cyc ?N (unat ?i) (unat y) < cyc ?N (unat ?i) (unat z)" using z(4) y(2,3) by blast
    moreover have "\<not> cyc ?N (unat ?i) (unat z) < cyc ?N (unat ?i) (unat y)" using y(4) z(1) nz by blast
    ultimately have "unat y = unat z" using cyc_inj [OF y(2) z(1) i] by linarith
    then have "freeSlotLoop S m ?i = Some (Inr z)" using y(1) by (simp add: word_unat_eq_iff)
    then show ?thesis using False z(1,2) nz by auto
  qed
qed

end
