(* ===== verification/ArenaIndexInv.thy ===== *)
theory ArenaIndexInv
  imports ArenaProbe
begin

text \<open>
  The invariant of the index. \<open>K\<close> names the key of each node that bears a value (\<open>named\<close>; the root may bear one
  too, for the empty key); a slot is honest about its
  node, its tag and the tag remembered in the node; no hash has two slots; the peers of a hash have that hash, and
  it has a slot. \<open>indexed c\<close> is the multiset of the nodes that the index knows, and its size is \<open>hashCount\<close> plus
  \<open>collisionCount\<close>.
\<close>

unbundle bit_operations_syntax

subsection \<open>Nodes and their keys\<close>

definition bears :: "'v arenaRadix \<Rightarrow> u32 \<Rightarrow> bool" where
  "bears c k \<longleftrightarrow> unat k < length (ar_nodes c) \<and> an_hasValue (ar_nodes c ! unat k)"

definition named :: "'v arenaRadix \<Rightarrow> (u32 \<Rightarrow> string) \<Rightarrow> bool" where
  "named c K \<longleftrightarrow> prefixInv noBytes 0 c \<and> length (ar_nodes c) < 2 ^ 32
     \<and> (\<forall>k. bears c k \<longrightarrow> (\<exists>ks. climb c k ks \<and> keyLenOk c k ks \<and> pathKey c ks = K k))
     \<and> unat (ar_root c) < length (ar_nodes c) \<and> an_parent (ar_nodes c ! unat (ar_root c)) \<noteq> ar_root c"

lemma named_key:
  assumes "named c K" "bears c k"
  shows "hashNodeKey k c = Inr (ar_hash c (K k))" "verifyKey k s c = Inr (s = K k)"
proof -
  obtain ks where ks: "climb c k ks" "keyLenOk c k ks" "pathKey c ks = K k" and i: "prefixInv noBytes 0 c"
    using assms unfolding named_def by blast
  have top: "k = ar_root c \<longrightarrow> unat k < length (ar_nodes c) \<and> an_parent (ar_nodes c ! unat k) \<noteq> ar_root c"
    using assms by (simp add: named_def bears_def)
  show "hashNodeKey k c = Inr (ar_hash c (K k))" using hashNodeKey_spec [OF i ks(1)] ks(3) by simp
  show "verifyKey k s c = Inr (s = K k)" using verifyKey_spec [OF i ks(1,2) top] ks(3) by simp
qed

lemma named_lt: "named c K \<Longrightarrow> k < (of_nat (length (ar_nodes c)) :: u32) \<longleftrightarrow> unat k < length (ar_nodes c)"
  by (simp add: named_def word_less_nat_alt unsigned_of_nat take_bit_nat_eq_self)

subsection \<open>Slots\<close>

definition slotHash :: "'v arenaRadix \<Rightarrow> (u32 \<Rightarrow> string) \<Rightarrow> arenaHashSlot \<Rightarrow> u64" where
  "slotHash c K s = ar_hash c (K (hs_nodeID s))"

definition honest :: "'v arenaRadix \<Rightarrow> (u32 \<Rightarrow> string) \<Rightarrow> bool" where
  "honest c K \<longleftrightarrow> (\<forall>s \<in># slotsOf (ar_hashSlots c). bears c (hs_nodeID s) \<and> hs_tag s = arenaHashTag (slotHash c K s)
     \<and> an_hashTag21 (ar_nodes c ! unat (hs_nodeID s)) = hs_tag s AND hashTag21Mask)"

definition hashesIn :: "'v arenaRadix \<Rightarrow> (u32 \<Rightarrow> string) \<Rightarrow> u64 multiset" where
  "hashesIn c K = image_mset (slotHash c K) (slotsOf (ar_hashSlots c))"

lemma filter_index_unique:
  "distinct (map g (filter P xs)) \<Longrightarrow> i < length xs \<Longrightarrow> j < length xs \<Longrightarrow> P (xs ! i) \<Longrightarrow> P (xs ! j) \<Longrightarrow> g (xs ! i) = g (xs ! j) \<Longrightarrow> i = j"
proof (induction xs arbitrary: i j)
  case (Cons x xs)
  have m: "g (xs ! k) \<noteq> g x" "g x \<noteq> g (xs ! k)" if "k < length xs" "P (xs ! k)" "P x" for k
    using that Cons.prems(1) by (auto simp: image_iff)
  show ?case using Cons.prems Cons.IH m by (cases i; cases j) (auto split: if_splits)
qed simp

lemma distinct_of_count: "\<forall>x. count (mset xs) x \<le> 1 \<Longrightarrow> distinct xs"
proof (induction xs)
  case (Cons y ys)
  have "count (mset ys) x \<le> count (mset (y # ys)) x" for x by simp
  then have "\<forall>x. count (mset ys) x \<le> 1" using Cons.prems by (meson order_trans)
  moreover have "count (mset ys) y = 0" using Cons.prems [rule_format, of y] by simp
  ultimately show ?case using Cons.IH by (simp add: count_eq_zero_iff)
qed simp

lemma slot_unique:
  assumes "\<forall>h. count (hashesIn c K) h \<le> 1" and "i < length (ar_hashSlots c)" "j < length (ar_hashSlots c)"
    and "occ (ar_hashSlots c) i" "occ (ar_hashSlots c) j" "slotHash c K (ar_hashSlots c ! i) = slotHash c K (ar_hashSlots c ! j)"
  shows "i = j"
proof -
  have e: "hashesIn c K = mset (map (slotHash c K) (filter (\<lambda>s. hs_tag s \<noteq> 0) (ar_hashSlots c)))"
    by (simp add: hashesIn_def slotsOf_def)
  have "distinct (map (slotHash c K) (filter (\<lambda>s. hs_tag s \<noteq> 0) (ar_hashSlots c)))"
    using assms(1) unfolding e by (rule distinct_of_count)
  then show ?thesis by (rule filter_index_unique) (use assms(2-) in simp_all)
qed

subsection \<open>Peers\<close>

definition peerMap :: "'v arenaRadix \<Rightarrow> (u64 \<times> u32 list) list" where
  "peerMap c = (case ar_collisionPeers c of None \<Rightarrow> [] | Some m \<Rightarrow> m)"

definition pmset :: "(u64 \<times> u32 list) list \<Rightarrow> u32 multiset" where
  "pmset m = mset (concat (map snd m))"

definition peersOk :: "'v arenaRadix \<Rightarrow> (u32 \<Rightarrow> string) \<Rightarrow> bool" where
  "peersOk c K \<longleftrightarrow> ar_collisionPeers c \<noteq> Some [] \<and> distinct (map fst (peerMap c))
     \<and> (\<forall>h ps. map_of (peerMap c) h = Some ps \<longrightarrow> ps \<noteq> [] \<and> h \<in># hashesIn c K \<and> (\<forall>k \<in> set ps. bears c k \<and> ar_hash c (K k) = h))
     \<and> ar_collisionCount c = int (size (pmset (peerMap c)))"

definition indexed :: "'v arenaRadix \<Rightarrow> u32 multiset" where
  "indexed c = image_mset hs_nodeID (slotsOf (ar_hashSlots c)) + pmset (peerMap c)"

definition slotsInv :: "'v arenaRadix \<Rightarrow> (u32 \<Rightarrow> string) \<Rightarrow> bool" where
  "slotsInv c K \<longleftrightarrow> slotTable c \<and> named c K \<and> honest c K \<and> (\<forall>h. count (hashesIn c K) h \<le> 1)"

definition indexInv :: "'v arenaRadix \<Rightarrow> (u32 \<Rightarrow> string) \<Rightarrow> bool" where
  "indexInv c K \<longleftrightarrow> slotsInv c K \<and> peersOk c K \<and> (\<forall>k. count (indexed c) k \<le> 1)"

lemma slotsInvD:
  assumes "slotsInv c K"
  shows "slotTable c" "named c K" "honest c K" "\<forall>h. count (hashesIn c K) h \<le> 1"
  using assms by (simp_all add: slotsInv_def)

lemma indexInv_slots: "indexInv c K \<Longrightarrow> slotsInv c K"
  by (simp add: indexInv_def)

lemma indexInvD:
  assumes "indexInv c K"
  shows "slotTable c" "named c K" "honest c K" "\<forall>h. count (hashesIn c K) h \<le> 1" "peersOk c K" "\<forall>k. count (indexed c) k \<le> 1"
  using assms by (simp_all add: indexInv_def slotsInv_def)

lemma indexed_size:
  assumes "indexInv c K"
  shows "int (size (indexed c)) = ar_hashCount c + ar_collisionCount c"
  using assms by (simp add: indexInv_def slotsInv_def slotTable_def peersOk_def indexed_def)

lemma peersOf_map: "peersOf c h = (case map_of (peerMap c) h of None \<Rightarrow> [] | Some ps \<Rightarrow> ps)"
  by (simp add: peersOf_def peerMap_def split: option.splits)

lemma peersOf_mem:
  assumes "peersOk c K" "k \<in> set (peersOf c h)"
  shows "bears c k" "ar_hash c (K k) = h" "h \<in># hashesIn c K" "k \<in># pmset (peerMap c)"
proof -
  obtain ps where ps: "map_of (peerMap c) h = Some ps" "k \<in> set ps"
    using assms(2) by (cases "map_of (peerMap c) h") (auto simp: peersOf_map)
  have m: "(h, ps) \<in> set (peerMap c)" by (rule map_of_SomeD [OF ps(1)])
  show "bears c k" "ar_hash c (K k) = h" "h \<in># hashesIn c K" using assms(1) ps unfolding peersOk_def by blast+
  show "k \<in># pmset (peerMap c)" using m ps(2) by (force simp: pmset_def)
qed

lemma pmset_mem:
  assumes "peersOk c K" "k \<in># pmset (peerMap c)"
  shows "k \<in> set (peersOf c (ar_hash c (K k)))"
proof -
  obtain h ps where m: "(h, ps) \<in> set (peerMap c)" "k \<in> set ps" using assms(2) by (auto simp: pmset_def)
  have "map_of (peerMap c) h = Some ps" using m(1) assms(1) by (simp add: peersOk_def)
  then have "ar_hash c (K k) = h" "map_of (peerMap c) h = Some ps" using assms(1) m(2) unfolding peersOk_def by blast+
  then show ?thesis using m(2) by (simp add: peersOf_map)
qed

lemma indexed_bears:
  assumes "indexInv c K" "k \<in># indexed c"
  shows "bears c k"
  using assms peersOf_mem(1) [OF _ pmset_mem] indexInvD(3,5) [OF assms(1)]
  by (auto simp: indexed_def honest_def)

lemma indexed_hash:
  assumes "indexInv c K" "k \<in># indexed c"
  shows "ar_hash c (K k) \<in># hashesIn c K"
proof (cases "k \<in># pmset (peerMap c)")
  case True
  then show ?thesis using peersOf_mem(3) [OF _ pmset_mem] indexInvD(5) [OF assms(1)] by blast
next
  case False
  then show ?thesis using assms(2) by (auto simp: indexed_def hashesIn_def slotHash_def)
qed

subsection \<open>What the loops find\<close>

lemma slot_other_s:
  assumes inv: "slotsInv c K" and s: "s \<in># slotsOf (ar_hashSlots c)"
  shows "slotBelongsToOtherHash s h c = Inr (slotHash c K s \<noteq> h)" "slotBears (hs_nodeID s) key c = Inr (key = K (hs_nodeID s))"
proof -
  note I = slotsInvD [OF inv]
  have b: "bears c (hs_nodeID s)" "hs_tag s = arenaHashTag (slotHash c K s)" using I(3) s by (auto simp: honest_def)
  note k = named_key [OF I(2) b(1)]
  have r: "unat (hs_nodeID s) < length (ar_nodes c)" "an_hasValue (ar_nodes c ! unat (hs_nodeID s))" using b(1) by (simp_all add: bears_def)
  show "slotBelongsToOtherHash s h c = Inr (slotHash c K s \<noteq> h)"
    using r k(1) b(2) by (auto simp: slotBelongsToOtherHash_def slotHash_def)
  show "slotBears (hs_nodeID s) key c = Inr (key = K (hs_nodeID s))" using r k(2) by (simp add: slotBears_def)
qed

definition slotFor :: "'v arenaRadix \<Rightarrow> (u32 \<Rightarrow> string) \<Rightarrow> u64 \<Rightarrow> nat \<Rightarrow> bool" where
  \<comment> \<open>the slot of the hash \<open>h\<close>\<close>
  "slotFor c K h j \<longleftrightarrow> occ (ar_hashSlots c) j \<and> slotHash c K (ar_hashSlots c ! j) = h"

lemma slotFor_mem: "(\<exists>j < length (ar_hashSlots c). slotFor c K h j) \<longleftrightarrow> h \<in># hashesIn c K"
  by (auto simp: slotFor_def hashesIn_def slotsOf_mem image_iff) (metis slotsOf_mem)

lemma slotFor_home_s:
  assumes inv: "slotsInv c K" and j: "j < length (ar_hashSlots c)" "slotFor c K h j"
  shows "hs_tag (ar_hashSlots c ! j) = arenaHashTag h" "homeOf (ar_hashSlots c) j = unat (arenaHashTag h AND ar_hashMask c)"
proof -
  note I = slotsInvD [OF inv]
  have "ar_hashSlots c ! j \<in># slotsOf (ar_hashSlots c)" using j by (auto simp: slotsOf_mem slotFor_def)
  then show t: "hs_tag (ar_hashSlots c ! j) = arenaHashTag h" using I(3) j(2) by (simp add: honest_def slotFor_def)
  show "homeOf (ar_hashSlots c) j = unat (arenaHashTag h AND ar_hashMask c)"
    unfolding t by (rule table_home [OF slotTableD(1) [OF I(1)], symmetric])
qed

text \<open>A probe for a hash, in any loop that goes on at slots of other hashes.\<close>

lemma probe_hash_s:
  assumes inv: "slotsInv c K"
    and step: "\<forall>i. unat i < length (ar_hashSlots c) \<longrightarrow> occ (ar_hashSlots c) (unat i) \<longrightarrow> slotHash c K (ar_hashSlots c ! unat i) \<noteq> h
      \<longrightarrow> f i = f ((i + 1) AND ar_hashMask c)"
  obtains z where "unat z < length (ar_hashSlots c)" "f (arenaHashTag h AND ar_hashMask c) = f z"
    "h \<in># hashesIn c K \<Longrightarrow> slotFor c K h (unat z)" "h \<notin># hashesIn c K \<Longrightarrow> \<not> occ (ar_hashSlots c) (unat z)"
    "h \<notin># hashesIn c K \<Longrightarrow> freeSlotLoop (ar_hashSlots c) (ar_hashMask c) (arenaHashTag h AND ar_hashMask c) = Some (Inr z)"
proof -
  note I = slotTableD [OF slotsInvD(1) [OF inv]]
  have "\<forall>j < length (ar_hashSlots c). slotFor c K h j \<longrightarrow> occ (ar_hashSlots c) j \<and> homeOf (ar_hashSlots c) j = unat (arenaHashTag h AND ar_hashMask c)"
    using slotFor_home_s(2) [OF inv] by (simp add: slotFor_def)
  moreover have "\<forall>i. unat i < length (ar_hashSlots c) \<longrightarrow> occ (ar_hashSlots c) (unat i) \<longrightarrow> \<not> slotFor c K h (unat i) \<longrightarrow> f i = f ((i + 1) AND ar_hashMask c)"
    using step by (simp add: slotFor_def)
  ultimately have "\<exists>z. unat z < length (ar_hashSlots c) \<and> f (arenaHashTag h AND ar_hashMask c) = f z
    \<and> (if h \<in># hashesIn c K then slotFor c K h (unat z)
       else \<not> occ (ar_hashSlots c) (unat z) \<and> freeSlotLoop (ar_hashSlots c) (ar_hashMask c) (arenaHashTag h AND ar_hashMask c) = Some (Inr z))"
    using probe_home [OF I(1,3,2), of "slotFor c K h" "arenaHashTag h" f] unfolding slotFor_mem by blast
  then show ?thesis using that by (auto split: if_splits)
qed


lemma slots_nonempty_s: "slotsInv c K \<Longrightarrow> ar_hashSlots c \<noteq> []"
  using table_pos [OF slotTableD(1) [OF slotsInvD(1)]] by blast

lemma at_slot_s:
  assumes "slotsInv c K" "unat i < length (ar_hashSlots c)" "occ (ar_hashSlots c) (unat i)"
  shows "ar_hashSlots c ! unat i \<in># slotsOf (ar_hashSlots c)"
  using assms(2,3) by (auto simp: slotsOf_mem)

lemma findHashSlotIndex_spec_s:
  assumes inv: "slotsInv c K"
  obtains z where "unat z < length (ar_hashSlots c)" "findHashSlotIndex h c = Inr (z, h \<in># hashesIn c K)"
    "h \<in># hashesIn c K \<Longrightarrow> slotFor c K h (unat z)" "h \<notin># hashesIn c K \<Longrightarrow> \<not> occ (ar_hashSlots c) (unat z)"
    "h \<notin># hashesIn c K \<Longrightarrow> freeSlotLoop (ar_hashSlots c) (ar_hashMask c) (arenaHashTag h AND ar_hashMask c) = Some (Inr z)"
proof -
  let ?S = "ar_hashSlots c"
  have step: "hashIndexLoop c h i = hashIndexLoop c h ((i + 1) AND ar_hashMask c)"
    if "unat i < length ?S" "occ ?S (unat i)" "slotHash c K (?S ! unat i) \<noteq> h" for i
    using that slot_other_s(1) [OF inv at_slot_s [OF inv that(1,2)], of h] by (subst hashIndexLoop.simps) simp
  obtain z where z: "unat z < length ?S"
    "hashIndexLoop c h (arenaHashTag h AND ar_hashMask c) = hashIndexLoop c h z"
    "h \<in># hashesIn c K \<Longrightarrow> slotFor c K h (unat z)" "h \<notin># hashesIn c K \<Longrightarrow> \<not> occ ?S (unat z)"
    "h \<notin># hashesIn c K \<Longrightarrow> freeSlotLoop ?S (ar_hashMask c) (arenaHashTag h AND ar_hashMask c) = Some (Inr z)"
    by (rule probe_hash_s [OF inv, of h "hashIndexLoop c h"]) (use step in blast)+
  have "hashIndexLoop c h z = Some (Inr (z, h \<in># hashesIn c K))"
  proof (cases "h \<in># hashesIn c K")
    case True
    then have f: "slotFor c K h (unat z)" using z(3) by simp
    then have "occ ?S (unat z)" "slotHash c K (?S ! unat z) = h" by (simp_all add: slotFor_def)
    then show ?thesis using True z(1) slotFor_home_s(1) [OF inv z(1) f] slot_other_s(1) [OF inv at_slot_s [OF inv z(1)], of h]
      by (subst hashIndexLoop.simps) (simp add: hashTag_pos)
  next
    case False
    then show ?thesis using z(1,4) by (subst hashIndexLoop.simps) simp
  qed
  then show ?thesis using that z slots_nonempty_s [OF inv] by (simp add: findHashSlotIndex_def)
qed

lemmas slot_other = slot_other_s [OF indexInv_slots]
lemmas slotFor_home = slotFor_home_s [OF indexInv_slots]
lemmas probe_hash = probe_hash_s [OF indexInv_slots]
lemmas slots_nonempty = slots_nonempty_s [OF indexInv_slots]
lemmas at_slot = at_slot_s [OF indexInv_slots]
lemmas findHashSlotIndex_spec = findHashSlotIndex_spec_s [OF indexInv_slots]

lemma ownSlot_spec:
  assumes inv: "indexInv c K" and h: "ar_hash c (K k) = h"
  shows "if h \<in># hashesIn c K then \<exists>z. unat z < length (ar_hashSlots c) \<and> slotFor c K h (unat z)
      \<and> ownSlot c h k = Inr (if hs_nodeID (ar_hashSlots c ! unat z) = k then OwnSlot z else RivalSlot z)
    else ownSlot c h k = Inr EmptySlot"
proof -
  let ?S = "ar_hashSlots c"
  have step: "ownSlotLoop c h k i = ownSlotLoop c h k ((i + 1) AND ar_hashMask c)"
    if "unat i < length ?S" "occ ?S (unat i)" "slotHash c K (?S ! unat i) \<noteq> h" for i
  proof -
    have "hs_nodeID (?S ! unat i) \<noteq> k" using that(3) h by (auto simp: slotHash_def)
    then show ?thesis using that slot_other(1) [OF inv at_slot [OF inv that(1,2)], of h] by (subst ownSlotLoop.simps) simp
  qed
  obtain z where z: "unat z < length ?S"
    "ownSlotLoop c h k (arenaHashTag h AND ar_hashMask c) = ownSlotLoop c h k z"
    "h \<in># hashesIn c K \<Longrightarrow> slotFor c K h (unat z)" "h \<notin># hashesIn c K \<Longrightarrow> \<not> occ ?S (unat z)"
    by (rule probe_hash [OF inv, of h "ownSlotLoop c h k"]) (use step in blast)+
  have o: "ownSlot c h k = of_loop (ownSlotLoop c h k z)" using z(2) slots_nonempty [OF inv] by (simp add: ownSlot_def)
  show ?thesis
  proof (cases "h \<in># hashesIn c K")
    case True
    then have f: "slotFor c K h (unat z)" using z(3) by simp
    then have s: "occ ?S (unat z)" "slotHash c K (?S ! unat z) = h" by (simp_all add: slotFor_def)
    have "ownSlotLoop c h k z = Some (Inr (if hs_nodeID (?S ! unat z) = k then OwnSlot z else RivalSlot z))"
      using z(1) s slotFor_home(1) [OF inv z(1) f] slot_other(1) [OF inv at_slot [OF inv z(1) s(1)], of h]
      by (subst ownSlotLoop.simps) (simp add: hashTag_pos)
    then show ?thesis using True z(1) f o by auto
  next
    case False
    then have "ownSlotLoop c h k z = Some (Inr EmptySlot)" using z(1,4) by (subst ownSlotLoop.simps) simp
    then show ?thesis using False o by simp
  qed
qed

lemma lookupHashSlotAt_spec:
  assumes inv: "indexInv c K" and h: "h = ar_hash c key"
  shows "(\<exists>s i. s \<in># slotsOf (ar_hashSlots c) \<and> K (hs_nodeID s) = key \<and> lookupHashSlotAt key h c = Inr (hs_nodeID s, i, True, True))
    \<or> (\<forall>s \<in># slotsOf (ar_hashSlots c). K (hs_nodeID s) \<noteq> key) \<and> lookupHashSlotAt key h c = Inr (nilNode, 0, h \<in># hashesIn c K, False)"
proof -
  let ?S = "ar_hashSlots c" and ?L = "lookupSlotLoop c key h"
  have step: "?L i b = ?L ((i + 1) AND ar_hashMask c) b"
    if "unat i < length ?S" "occ ?S (unat i)" "slotHash c K (?S ! unat i) \<noteq> h" for i :: u32 and b
  proof -
    have "key \<noteq> K (hs_nodeID (?S ! unat i))" using that(3) h by (auto simp: slotHash_def)
    then show ?thesis using that slot_other [OF inv at_slot [OF inv that(1,2)]] by (subst lookupSlotLoop.simps) simp
  qed
  obtain z where z: "unat z < length ?S" "?L (arenaHashTag h AND ar_hashMask c) False = ?L z False"
    "h \<in># hashesIn c K \<Longrightarrow> slotFor c K h (unat z)" "h \<notin># hashesIn c K \<Longrightarrow> \<not> occ ?S (unat z)"
    by (rule probe_hash [OF inv, of h "\<lambda>i. ?L i False"]) (use step in blast)+
  have l: "lookupHashSlotAt key h c = of_loop (?L z False)" using z(2) slots_nonempty [OF inv] by (simp add: lookupHashSlotAt_def)
  have hk: "h \<in># hashesIn c K" if "s \<in># slotsOf ?S" "K (hs_nodeID s) = key" for s
    using that h by (auto simp: hashesIn_def slotHash_def)
  show ?thesis
  proof (cases "h \<in># hashesIn c K")
    case False
    then have "?L z False = Some (Inr (nilNode, 0, False, False))" using z(1,4) by (subst lookupSlotLoop.simps) simp
    then show ?thesis using False hk l by auto
  next
    case True
    then have f: "slotFor c K h (unat z)" using z(3) by simp
    then have s: "occ ?S (unat z)" "slotHash c K (?S ! unat z) = h" by (simp_all add: slotFor_def)
    note m = at_slot [OF inv z(1) s(1)] and t = slotFor_home(1) [OF inv z(1) f]
    note o = slot_other [OF inv m]
    show ?thesis
    proof (cases "K (hs_nodeID (?S ! unat z)) = key")
      case True
      then have "?L z False = Some (Inr (hs_nodeID (?S ! unat z), z, True, True))"
        using z(1) s t o by (subst lookupSlotLoop.simps) (simp add: hashTag_pos)
      then show ?thesis using l m True by auto
    next
      case False
      let ?z = "(z + 1) AND ar_hashMask c"
      have 1: "?L z False = ?L ?z True" using z(1) s t o False by (subst lookupSlotLoop.simps) (auto simp: hashTag_pos)
      have no: "K (hs_nodeID s) \<noteq> key" if ms: "s \<in># slotsOf ?S" for s
      proof
        assume k: "K (hs_nodeID s) = key"
        obtain j where j: "j < length ?S" "occ ?S j" "?S ! j = s" using ms by (auto simp: slotsOf_mem)
        have "slotHash c K (?S ! j) = h" using k h j(3) by (simp add: slotHash_def)
        then have "j = unat z" using slot_unique [OF indexInvD(4) [OF inv] j(1) z(1) j(2) s(1)] s(2) by simp
        then show False using k j(3) False by simp
      qed
      note T = slotTableD [OF indexInvD(1) [OF inv]]
      have stp: "\<forall>i :: u32. unat i < length ?S \<longrightarrow> occ ?S (unat i) \<longrightarrow> \<not> False \<longrightarrow> ?L i True = ?L ((i + 1) AND ar_hashMask c) True"
      proof (intro allI impI)
        fix i :: u32 assume i: "unat i < length ?S" "occ ?S (unat i)"
        show "?L i True = ?L ((i + 1) AND ar_hashMask c) True"
          using i slot_other [OF inv at_slot [OF inv i]] no [OF at_slot [OF inv i]] by (subst lookupSlotLoop.simps) auto
      qed
      obtain y where y: "unat y < length ?S" "?L ?z True = ?L y True" "\<not> occ ?S (unat y)"
        using probe_to [OF T(1,3) table_home_less [OF T(1), of "z + 1"], of "\<lambda>_. False" "\<lambda>i. ?L i True"] stp by blast
      have "?L y True = Some (Inr (nilNode, 0, True, False))" using y by (subst lookupSlotLoop.simps) simp
      then show ?thesis using l 1 y(2) no \<open>h \<in># hashesIn c K\<close> by simp
    qed
  qed
qed

end
