(* ===== verification/ArenaPeers.thy ===== *)
theory ArenaPeers
  imports ArenaIndexInv
begin

text \<open>
  What the operations on the index do to the multiset of indexed nodes: \<open>promoteCollisionPeerLocked\<close> adds its node,
  \<open>removeOrPromoteNodeMapLocked\<close> takes its node away, and both keep the invariant. Nothing else of the cache
  changes but the tags that the nodes remember (\<open>retagged\<close>).
\<close>

unbundle bit_operations_syntax

subsection \<open>The frame\<close>

definition tagOnly :: "'v arenaRadixNode \<Rightarrow> 'v arenaRadixNode \<Rightarrow> bool" where
  "tagOnly n n' \<longleftrightarrow> n'\<lparr>an_prefixFlags := 0, an_keyLenAndFlags := 0\<rparr> = n\<lparr>an_prefixFlags := 0, an_keyLenAndFlags := 0\<rparr>
     \<and> an_hasValue n' = an_hasValue n \<and> an_keyLen n' = an_keyLen n \<and> an_pinned n' = an_pinned n"

lemma tagOnly_refl [simp]: "tagOnly n n"
  by (simp add: tagOnly_def)

lemma tagOnly_set [simp]: "tagOnly n (an_setHashTag21 t n)"
proof -
  have "(an_setHashTag21 t n)\<lparr>an_prefixFlags := 0, an_keyLenAndFlags := 0\<rparr> = n\<lparr>an_prefixFlags := 0, an_keyLenAndFlags := 0\<rparr>"
    by (simp add: an_setHashTag21_def Let_def)
  then show ?thesis by (simp add: tagOnly_def setHashTag21_read)
qed

lemma tagOnly_sel:
  assumes "tagOnly n n'"
  shows "an_prefixOff n' = an_prefixOff n" "an_prefixLen n' = an_prefixLen n" "an_firstByte n' = an_firstByte n" "an_size n' = an_size n"
    "an_parent n' = an_parent n" "an_child n' = an_child n" "an_sibling n' = an_sibling n" "an_prev n' = an_prev n" "an_next n' = an_next n"
    "an_value n' = an_value n" "an_hasValue n' = an_hasValue n" "an_keyLen n' = an_keyLen n" "an_pinned n' = an_pinned n"
  using assms by (simp_all add: tagOnly_def) (cases n; cases n'; simp)+

definition retagged :: "'v arenaRadix \<Rightarrow> 'v arenaRadix \<Rightarrow> bool" where
  \<comment> \<open>only the index, the tags in the nodes and the counters differ\<close>
  "retagged c c' \<longleftrightarrow> c' = c\<lparr>ar_nodes := ar_nodes c', ar_hashSlots := ar_hashSlots c', ar_hashMask := ar_hashMask c',
       ar_hashCount := ar_hashCount c', ar_collisionPeers := ar_collisionPeers c', ar_collisionCount := ar_collisionCount c', ar_ps := ar_ps c', ar_nodeMapDirty := ar_nodeMapDirty c'\<rparr>
     \<and> list_all2 tagOnly (ar_nodes c) (ar_nodes c')"

lemma retagged_refl [simp]: "retagged c c"
  by (simp add: retagged_def list_all2_same)

lemma retagged_trans:
  assumes "retagged c c1" "retagged c1 c2"
  shows "retagged c c2"
proof -
  have 1: "c1 = c\<lparr>ar_nodes := ar_nodes c1, ar_hashSlots := ar_hashSlots c1, ar_hashMask := ar_hashMask c1,
       ar_hashCount := ar_hashCount c1, ar_collisionPeers := ar_collisionPeers c1, ar_collisionCount := ar_collisionCount c1, ar_ps := ar_ps c1, ar_nodeMapDirty := ar_nodeMapDirty c1\<rparr>"
    and 2: "c2 = c1\<lparr>ar_nodes := ar_nodes c2, ar_hashSlots := ar_hashSlots c2, ar_hashMask := ar_hashMask c2,
       ar_hashCount := ar_hashCount c2, ar_collisionPeers := ar_collisionPeers c2, ar_collisionCount := ar_collisionCount c2, ar_ps := ar_ps c2, ar_nodeMapDirty := ar_nodeMapDirty c2\<rparr>"
    using assms by (simp_all add: retagged_def)
  have "c1\<lparr>ar_nodes := ns, ar_hashSlots := a, ar_hashMask := b, ar_hashCount := d, ar_collisionPeers := e, ar_collisionCount := f, ar_ps := g, ar_nodeMapDirty := y\<rparr>
      = c\<lparr>ar_nodes := ns, ar_hashSlots := a, ar_hashMask := b, ar_hashCount := d, ar_collisionPeers := e, ar_collisionCount := f, ar_ps := g, ar_nodeMapDirty := y\<rparr>" for ns a b d e f g y
    by (subst 1) simp
  then have "c2 = c\<lparr>ar_nodes := ar_nodes c2, ar_hashSlots := ar_hashSlots c2, ar_hashMask := ar_hashMask c2,
       ar_hashCount := ar_hashCount c2, ar_collisionPeers := ar_collisionPeers c2, ar_collisionCount := ar_collisionCount c2, ar_ps := ar_ps c2, ar_nodeMapDirty := ar_nodeMapDirty c2\<rparr>"
    using 2 by simp
  moreover have "list_all2 tagOnly (ar_nodes c) (ar_nodes c2)"
    by (rule list_all2_trans [of tagOnly tagOnly tagOnly]) (use assms in \<open>auto simp: retagged_def tagOnly_def\<close>)
  ultimately show ?thesis by (simp add: retagged_def)
qed

lemma retagged_length: "retagged c c' \<Longrightarrow> length (ar_nodes c') = length (ar_nodes c)"
  unfolding retagged_def by (elim conjE) (rule list_all2_lengthD [symmetric])

lemma retagged_node: "retagged c c' \<Longrightarrow> i < length (ar_nodes c) \<Longrightarrow> tagOnly (ar_nodes c ! i) (ar_nodes c' ! i)"
  unfolding retagged_def by (elim conjE) (rule list_all2_nthD)

lemma retagged_sel:
  assumes "retagged c c'"
  shows "ar_root c' = ar_root c" "ar_hash c' = ar_hash c" "ar_prefixArena c' = ar_prefixArena c" "ar_freePrefixSpans c' = ar_freePrefixSpans c"
    "ar_putPrefixSpan c' = ar_putPrefixSpan c" "ar_livePrefixBytes c' = ar_livePrefixBytes c" "ar_len c' = ar_len c"
    "ar_head c' = ar_head c" "ar_tail c' = ar_tail c" "ar_freeHead c' = ar_freeHead c" "ar_freeCount c' = ar_freeCount c"
    "ar_currentSize c' = ar_currentSize c"
proof -
  have *: "c' = c\<lparr>ar_nodes := ar_nodes c', ar_hashSlots := ar_hashSlots c', ar_hashMask := ar_hashMask c',
       ar_hashCount := ar_hashCount c', ar_collisionPeers := ar_collisionPeers c', ar_collisionCount := ar_collisionCount c', ar_ps := ar_ps c', ar_nodeMapDirty := ar_nodeMapDirty c'\<rparr>"
    using assms by (simp add: retagged_def)
  show "ar_root c' = ar_root c" "ar_hash c' = ar_hash c" "ar_prefixArena c' = ar_prefixArena c" "ar_freePrefixSpans c' = ar_freePrefixSpans c"
    "ar_putPrefixSpan c' = ar_putPrefixSpan c" "ar_livePrefixBytes c' = ar_livePrefixBytes c" "ar_len c' = ar_len c"
    "ar_head c' = ar_head c" "ar_tail c' = ar_tail c" "ar_freeHead c' = ar_freeHead c" "ar_freeCount c' = ar_freeCount c"
    "ar_currentSize c' = ar_currentSize c"
    by (subst *, simp)+
qed

lemma retagged_labels:
  assumes r: "retagged c c'"
  shows "labels c' = labels c" "prefixInv R e c' = prefixInv R e c"
proof -
  have n: "map labelFields (ar_nodes c') = map labelFields (ar_nodes c)"
    by (rule nth_equalityI) (use retagged_length [OF r] retagged_node [OF r] in \<open>auto simp: labelFields_def tagOnly_sel\<close>)
  show "labels c' = labels c" "prefixInv R e c' = prefixInv R e c" by (rule store_same [OF n retagged_sel(3-6) [OF r]])+
qed

lemma retagged_bears: "retagged c c' \<Longrightarrow> bears c' k = bears c k"
  by (auto simp: bears_def retagged_length tagOnly_sel(11) [OF retagged_node])

lemma retagged_climb:
  assumes "climb c k ks" and r: "retagged c c'"
  shows "climb c' k ks"
  using assms(1)
proof (induction rule: climb.induct)
  case top
  then show ?case using climb.top [of c'] by (simp add: retagged_sel [OF r])
next
  case (up k ks)
  have "an_parent (ar_nodes c' ! unat k) = an_parent (ar_nodes c ! unat k)" by (rule tagOnly_sel(5) [OF retagged_node [OF r up(3)]])
  then show ?case using climb.up [of k c' ks] up by (simp add: retagged_sel [OF r] retagged_length [OF r])
qed

lemma retagged_named:
  assumes r: "retagged c c'" and n: "named c K"
  shows "named c' K"
proof -
  have p: "pathKey c' ks = pathKey c ks" for ks by (simp add: pathKey_def retagged_labels(1) [OF r])
  have "\<exists>ks. climb c' k ks \<and> keyLenOk c' k ks \<and> pathKey c' ks = K k" if b: "bears c' k" for k
  proof -
    have b': "bears c k" using b retagged_bears [OF r] by simp
    then obtain ks where ks: "climb c k ks" "keyLenOk c k ks" "pathKey c ks = K k" using n unfolding named_def by blast
    have "an_keyLen (ar_nodes c' ! unat k) = an_keyLen (ar_nodes c ! unat k)"
      using tagOnly_sel(12) [OF retagged_node [OF r]] b' by (simp add: bears_def)
    then show ?thesis using ks retagged_climb [OF ks(1) r] by (auto simp: keyLenOk_def p retagged_sel [OF r])
  qed
  moreover have "an_parent (ar_nodes c' ! unat (ar_root c)) = an_parent (ar_nodes c ! unat (ar_root c))"
    by (rule tagOnly_sel(5) [OF retagged_node [OF r]]) (use n in \<open>simp add: named_def\<close>)
  ultimately show ?thesis using n by (simp add: named_def retagged_labels [OF r] retagged_length [OF r] retagged_sel(1) [OF r])
qed

lemma retagged_hash: "retagged c c' \<Longrightarrow> slotHash c' K = slotHash c K"
  by (rule ext) (simp add: slotHash_def retagged_sel)

end
