(* ===== verification/ArenaPromote.thy ===== *)
theory ArenaPromote
  imports ArenaPeers
begin

text \<open>
  Promotion into the index and removal from it, step by step: the map of peers as an association list, a slot that
  changes its node, the tag in the node, and then the operations themselves.
\<close>

unbundle bit_operations_syntax

subsection \<open>The map of peers\<close>

definition look :: "('k \<times> 'a list) list \<Rightarrow> 'k \<Rightarrow> 'a list" where
  "look m h = (case map_of m h of None \<Rightarrow> [] | Some ps \<Rightarrow> ps)"

lemma peersOf_look: "peersOf c h = look (peerMap c) h"
  by (simp add: peersOf_map look_def)

lemma look_absent: "h \<notin> fst ` set m \<Longrightarrow> look m h = []"
  by (simp add: look_def map_of_eq_None_iff [symmetric])

lemma pmset_update: "distinct (map fst m) \<Longrightarrow> pmset (AList.update h ps m) + mset (look m h) = pmset m + mset ps"
proof (induction m)
  case (Cons x m)
  show ?case
  proof (cases "fst x = h")
    case True
    then show ?thesis by (cases x) (simp add: pmset_def look_def)
  next
    case False
    then have "look (x # m) h = look m h" by (cases x) (simp add: look_def)
    then show ?thesis using Cons False by (cases x) (simp add: pmset_def add_ac)
  qed
qed (simp add: pmset_def look_def)

lemma pmset_delete: "distinct (map fst m) \<Longrightarrow> pmset (AList.delete h m) + mset (look m h) = pmset m"
proof (induction m)
  case (Cons x m)
  show ?case
  proof (cases "fst x = h")
    case True
    then have "h \<notin> fst ` set m" using Cons.prems by auto
    then have "AList.delete h m = m" unfolding AList.delete_eq by (intro filter_True) force
    then show ?thesis using True by (cases x) (simp add: pmset_def look_def)
  next
    case False
    then have "look (x # m) h = look m h" by (cases x) (simp add: look_def)
    then show ?thesis using Cons False by (cases x) (simp add: pmset_def add_ac)
  qed
qed (simp add: pmset_def look_def)

definition putPeers :: "u64 \<Rightarrow> u32 list \<Rightarrow> (u64 \<times> u32 list) list \<Rightarrow> (u64 \<times> u32 list) list" where
  "putPeers h ps m = (if ps = [] then AList.delete h m else AList.update h ps m)"

lemma storePeers_put: "storePeers h ps m = (if putPeers h ps m = [] then None else Some (putPeers h ps m))"
proof -
  have "AList.update h ps m \<noteq> []" by (cases m) auto
  then show ?thesis by (simp add: storePeers_def putPeers_def Let_def)
qed

lemma putPeers_props:
  assumes "distinct (map fst m)"
  shows "distinct (map fst (putPeers h ps m))" "pmset (putPeers h ps m) + mset (look m h) = pmset m + mset ps"
    "map_of (putPeers h ps m) = (map_of m)(h := if ps = [] then None else Some ps)"
  using assms pmset_update [OF assms, of h ps] pmset_delete [OF assms, of h]
  by (auto simp: putPeers_def distinct_update distinct_delete update_conv' delete_conv' split: if_splits)

lemma peers_store:
  assumes p: "peersOk c K" and ps: "\<forall>k \<in> set ps. bears c k \<and> ar_hash c (K k) = h" and h: "ps \<noteq> [] \<longrightarrow> h \<in># hashesIn c K"
    and c': "ar_collisionPeers c' = storePeers h ps (peerMap c)"
      "ar_collisionCount c' = ar_collisionCount c + int (length ps) - int (length (peersOf c h))"
    and same: "hashesIn c' K = hashesIn c K" "\<And>k. bears c' k = bears c k" "ar_hash c' = ar_hash c"
  shows "peersOk c' K" "\<exists>R. pmset (peerMap c) = R + mset (peersOf c h) \<and> pmset (peerMap c') = R + mset ps"
proof -
  have d: "distinct (map fst (peerMap c))" using p by (simp add: peersOk_def)
  note P = putPeers_props [OF d, of h ps]
  have m: "peerMap c' = putPeers h ps (peerMap c)" by (simp add: peerMap_def [of c'] c'(1) storePeers_put)
  have e: "pmset (peerMap c') + mset (peersOf c h) = pmset (peerMap c) + mset ps" by (simp add: m P(2) peersOf_look)
  have "pmset (peerMap c) = pmset (AList.delete h (peerMap c)) + mset (peersOf c h)" by (simp add: pmset_delete [OF d] peersOf_look)
  moreover from this e have "pmset (peerMap c') = pmset (AList.delete h (peerMap c)) + mset ps" by (simp add: add_ac)
  ultimately show "\<exists>R. pmset (peerMap c) = R + mset (peersOf c h) \<and> pmset (peerMap c') = R + mset ps" by blast
  from arg_cong [OF e, of size] have "int (size (pmset (peerMap c'))) = ar_collisionCount c'"
    using p by (simp add: c'(2) peersOk_def)
  moreover have "ar_collisionPeers c' \<noteq> Some []" by (simp add: c'(1) storePeers_put)
  moreover have "qs \<noteq> [] \<and> g \<in># hashesIn c K \<and> (\<forall>k \<in> set qs. bears c k \<and> ar_hash c (K k) = g)" if "map_of (peerMap c') g = Some qs" for g qs
    using that p ps h by (auto simp: m P(3) peersOk_def split: if_splits)
  ultimately show "peersOk c' K" using P(1) by (simp add: peersOk_def same m)
qed

lemma peers_same:
  assumes p: "peersOk c K" and c': "ar_collisionPeers c' = ar_collisionPeers c" "ar_collisionCount c' = ar_collisionCount c"
    and same: "hashesIn c K \<subseteq># hashesIn c' K" "\<And>k. bears c' k = bears c k" "ar_hash c' = ar_hash c"
  shows "peersOk c' K \<and> peerMap c' = peerMap c"
proof -
  have m: "peerMap c' = peerMap c" by (simp add: peerMap_def c')
  have "g \<in># hashesIn c' K" if "g \<in># hashesIn c K" for g by (rule mset_subset_eqD [OF same(1) that])
  then show ?thesis using p by (auto simp: peersOk_def m c' same(2,3))
qed

subsection \<open>Slots and tags\<close>

lemma table_same_tags:
  assumes "map hs_tag S' = map hs_tag S"
  shows "tableOk S' m = tableOk S m" "chained S' = chained S" "hasFree S' = hasFree S"
proof -
  have l: "length S' = length S" by (rule map_eq_imp_length_eq [OF assms])
  have t: "hs_tag (S' ! i) = hs_tag (S ! i)" if "i < length S" for i
    using arg_cong [OF assms, of "\<lambda>xs. xs ! i"] that l by simp
  show "tableOk S' m = tableOk S m" by (simp add: tableOk_def l)
  show "chained S' = chained S" unfolding chained_def l using t by (metis (no_types, lifting))
  show "hasFree S' = hasFree S" unfolding hasFree_def l using t by metis
qed

lemma setSlotTag_spec:
  assumes "named c K" "bears c k"
  shows "setSlotTag k t c = Inr (c\<lparr>ar_nodes := (ar_nodes c)[unat k := an_setHashTag21 t (ar_nodes c ! unat k)]\<rparr>)"
  using assms(2) by (simp add: setSlotTag_def named_lt [OF assms(1)] bears_def updNode_def nodeAt_def)

lemma tagged_nodes: "list_all2 tagOnly ns (ns[i := an_setHashTag21 t (ns ! i)])"
  unfolding list_all2_conv_all_nth by (intro conjI allI impI) (simp, metis nth_list_update_eq nth_list_update_neq tagOnly_refl tagOnly_set)

lemma honest_set:
  assumes hc: "honest c K" and k: "bears c k" and n: "ar_nodes c' = (ar_nodes c)[unat k := an_setHashTag21 (arenaHashTag (ar_hash c (K k))) (ar_nodes c ! unat k)]"
    and h: "ar_hash c' = ar_hash c" and b: "\<And>k. bears c' k = bears c k"
    and s: "\<And>s. s \<in># slotsOf (ar_hashSlots c') \<Longrightarrow> s \<in># slotsOf (ar_hashSlots c) \<or> s = \<lparr>hs_tag = arenaHashTag (ar_hash c (K k)), hs_nodeID = k\<rparr>"
  shows "honest c' K"
  unfolding honest_def
proof (intro ballI conjI)
  fix s assume "s \<in># slotsOf (ar_hashSlots c')"
  then have c: "bears c (hs_nodeID s)" "hs_tag s = arenaHashTag (slotHash c K s)"
    "hs_nodeID s \<noteq> k \<longrightarrow> an_hashTag21 (ar_nodes c ! unat (hs_nodeID s)) = hs_tag s AND hashTag21Mask"
    using s hc k by (force simp: honest_def slotHash_def)+
  then show "bears c' (hs_nodeID s)" "hs_tag s = arenaHashTag (slotHash c' K s)" by (simp_all add: b slotHash_def h)
  show "an_hashTag21 (ar_nodes c' ! unat (hs_nodeID s)) = hs_tag s AND hashTag21Mask"
  proof (cases "hs_nodeID s = k")
    case True
    then show ?thesis using k c(2) by (simp add: n bears_def setHashTag21_read slotHash_def)
  next
    case False
    then show ?thesis using c(3) by (simp add: n word_unat_eq_iff)
  qed
qed

lemma indexInvI:
  assumes "indexInv c K" "retagged c c'" "slotTable c'" "honest c' K" "\<forall>h. count (hashesIn c' K) h \<le> 1" "peersOk c' K"
    "\<forall>k. count (indexed c') k \<le> 1"
  shows "indexInv c' K"
  using assms retagged_named [OF assms(2) indexInvD(2) [OF assms(1)]] by (simp add: indexInv_def slotsInv_def)


subsection \<open>Adding a slot\<close>

lemma growSlots_spec:
  assumes inv: "indexInv c K" and few: "ar_hashCount c + 1 < 2 ^ 30"
  obtains c1 where "growSlots c = Inr c1" "indexInv c1 K" "retagged c c1" "loadOk c1" "slotsOf (ar_hashSlots c1) = slotsOf (ar_hashSlots c)"
    "peerMap c1 = peerMap c" "ar_nodes c1 = ar_nodes c" "ar_hashCount c1 = ar_hashCount c"
proof -
  note I = indexInvD [OF inv]
  obtain S m where g: "growSlots c = Inr (c\<lparr>ar_hashSlots := S, ar_hashMask := m\<rparr>)"
    "slotTable (c\<lparr>ar_hashSlots := S, ar_hashMask := m\<rparr>)" "loadOk (c\<lparr>ar_hashSlots := S, ar_hashMask := m\<rparr>)" "slotsOf S = slotsOf (ar_hashSlots c)"
    using grow_spec [OF I(1) few] unfolding growSlots_def [symmetric] by (elim exE conjE) (rule that)
  let ?c1 = "c\<lparr>ar_hashSlots := S, ar_hashMask := m\<rparr>"
  have r: "retagged c ?c1" by (simp add: retagged_def list_all2_same)
  have b: "bears ?c1 k = bears c k" for k by (simp add: bears_def)
  have h: "hashesIn ?c1 K = hashesIn c K" by (simp add: hashesIn_def g(4) retagged_hash [OF r])
  have p: "peersOk ?c1 K \<and> peerMap ?c1 = peerMap c" by (rule peers_same [OF I(5)]) (simp_all add: h b)
  have "indexInv ?c1 K"
    by (rule indexInvI [OF inv r g(2)]) (use I(3,4,6) p in \<open>simp_all add: honest_def g(4) slotHash_def b h indexed_def\<close>)
  then show ?thesis using that [of ?c1] g r p by simp
qed

lemma nodeMapSet_new:
  assumes inv: "indexInv c K" and few: "ar_hashCount c + 1 < 2 ^ 30" and k: "bears c k" "h = ar_hash c (K k)" and new: "h \<notin># hashesIn c K"
  obtains c' where "nodeMapSet h k c = Inr c'" "indexInv c' K" "retagged c c'" "indexed c' = add_mset k (indexed c)"
proof -
  obtain c1 where c1: "growSlots c = Inr c1" "indexInv c1 K" "retagged c c1" "loadOk c1" "slotsOf (ar_hashSlots c1) = slotsOf (ar_hashSlots c)"
    "peerMap c1 = peerMap c" "ar_nodes c1 = ar_nodes c" "ar_hashCount c1 = ar_hashCount c" by (rule growSlots_spec [OF inv few])
  note I = indexInvD [OF c1(2)]
  have hh: "hashesIn c1 K = hashesIn c K" by (simp add: hashesIn_def c1(5) retagged_hash [OF c1(3)])
  have k1: "bears c1 k" "h = ar_hash c1 (K k)" using k by (simp_all add: retagged_bears [OF c1(3)] retagged_sel [OF c1(3)])
  obtain z where z: "unat z < length (ar_hashSlots c1)" "findHashSlotIndex h c1 = Inr (z, False)" "\<not> occ (ar_hashSlots c1) (unat z)"
    "freeSlotLoop (ar_hashSlots c1) (ar_hashMask c1) (arenaHashTag h AND ar_hashMask c1) = Some (Inr z)"
    by (rule findHashSlotIndex_spec [OF c1(2), of h]) (use new in \<open>simp add: hh\<close>)
  let ?t = "arenaHashTag h" and ?s = "\<lparr>hs_tag = arenaHashTag h, hs_nodeID = k\<rparr>"
  let ?S = "(ar_hashSlots c1)[unat z := ?s]"
  have pl: "placeSlot (ar_hashMask c1) (hs_tag ?s) ?s (ar_hashSlots c1) = Inr ?S" using z by (simp add: placeSlot_def)
  have tag: "hs_tag ?s \<noteq> 0" by (simp add: hashTag_pos)
  have S: "slotTable (c1\<lparr>ar_hashSlots := ?S, ar_hashCount := ar_hashCount c1 + 1\<rparr>)" "slotsOf ?S = add_mset ?s (slotsOf (ar_hashSlots c1))"
    using place_table [OF I(1) c1(4) tag] pl by auto
  let ?c' = "c1\<lparr>ar_hashSlots := ?S, ar_nodes := (ar_nodes c1)[unat k := an_setHashTag21 ?t (ar_nodes c1 ! unat k)], ar_hashCount := ar_hashCount c1 + 1\<rparr>"
  have n2: "named (c1\<lparr>ar_hashSlots := ?S\<rparr>) K" by (rule retagged_named [OF _ I(2)]) (simp add: retagged_def list_all2_same)
  have b2: "bears (c1\<lparr>ar_hashSlots := ?S\<rparr>) k" using k1(1) by (simp add: bears_def)
  have run: "nodeMapSet h k c = Inr ?c'"
    unfolding nodeMapSet_def c1(1) bindr_simps z(2) prod.case Let_def slotAt_ok(2) [OF z(1)] setSlotTag_spec [OF n2 b2] by simp
  have r: "retagged c1 ?c'" unfolding retagged_def by (simp add: tagged_nodes)
  have h': "hashesIn ?c' K = add_mset h (hashesIn c1 K)"
  proof -
    have "slotHash c1 K ?s = h" using k1(2) by (simp add: slotHash_def)
    then show ?thesis unfolding hashesIn_def retagged_hash [OF r] by (simp add: S(2))
  qed
  have b: "bears ?c' j = bears c1 j" for j by (rule retagged_bears [OF r])
  have "peersOk ?c' K \<and> peerMap ?c' = peerMap c1" by (rule peers_same [OF I(5)]) (simp_all add: h' b)
  then have p: "peersOk ?c' K" "peerMap ?c' = peerMap c1" by simp_all
  have i: "indexed ?c' = add_mset k (indexed c1)" by (simp add: indexed_def p(2) S(2))
  have "k \<notin># indexed c1" using indexed_hash [OF c1(2)] new hh k1(2) by auto
  then have c: "\<forall>j. count (indexed ?c') j \<le> 1" using I(6) by (auto simp: i count_eq_zero_iff)
  have u: "\<forall>g. count (hashesIn ?c' K) g \<le> 1" using I(4) new hh by (auto simp: h' count_eq_zero_iff)
  have ho: "honest ?c' K" by (rule honest_set [OF I(3) k1(1)]) (use b k1(2) S(2) in auto)
  have st: "slotTable ?c'" using S(1) by (simp add: slotTable_def)
  have "indexInv ?c' K" by (rule indexInvI [OF c1(2) r st ho u p(1) c])
  moreover have "indexed c1 = indexed c" by (simp add: indexed_def c1(5,6))
  ultimately show ?thesis using that [OF run] retagged_trans [OF c1(3) r] i by simp
qed


subsection \<open>Another node for a slot\<close>

lemma slot_split:
  assumes "unat z < length (ar_hashSlots c)" "slotFor c K h (unat z)"
  shows "slotsOf (ar_hashSlots c) = add_mset (ar_hashSlots c ! unat z) (slotsOf (ar_hashSlots c) - {#ar_hashSlots c ! unat z#})"
proof -
  have "ar_hashSlots c ! unat z \<in># slotsOf (ar_hashSlots c)" using assms by (auto simp: slotFor_def slotsOf_mem)
  then show ?thesis by (rule insert_DiffM [symmetric])
qed

lemma retarget_spec:
  assumes inv: "indexInv c K" and z: "unat z < length (ar_hashSlots c)" "slotFor c K h (unat z)" and k: "bears c k" "ar_hash c (K k) = h"
    and c2: "c2 = c\<lparr>ar_collisionPeers := P, ar_collisionCount := n\<rparr>" "peersOk c2 K"
    and one: "\<forall>x. count (add_mset k (image_mset hs_nodeID (slotsOf (ar_hashSlots c) - {#ar_hashSlots c ! unat z#})) + pmset (peerMap c2)) x \<le> 1"
  obtains c' where "bindr (putSlot z \<lparr>hs_tag = arenaHashTag h, hs_nodeID = k\<rparr> (ar_hashSlots c))
      (\<lambda>slots. setSlotTag k (arenaHashTag h) (c2\<lparr>ar_hashSlots := slots\<rparr>)) = Inr c'"
    "indexInv c' K" "retagged c c'"
    "indexed c' = add_mset k (image_mset hs_nodeID (slotsOf (ar_hashSlots c) - {#ar_hashSlots c ! unat z#})) + pmset (peerMap c2)"
proof -
  note I = indexInvD [OF inv]
  let ?s = "\<lparr>hs_tag = arenaHashTag h, hs_nodeID = k\<rparr>" and ?o = "ar_hashSlots c ! unat z"
  let ?S = "(ar_hashSlots c)[unat z := ?s]"
  let ?c3 = "c2\<lparr>ar_hashSlots := ?S\<rparr>"
  let ?c' = "?c3\<lparr>ar_nodes := (ar_nodes c)[unat k := an_setHashTag21 (arenaHashTag h) (ar_nodes c ! unat k)]\<rparr>"
  have f: "occ (ar_hashSlots c) (unat z)" "slotHash c K ?o = h" using z(2) by (simp_all add: slotFor_def)
  have S: "slotsOf ?S = add_mset ?s (slotsOf (ar_hashSlots c) - {#?o#})"
    using slotsOf_update [OF z(1), of ?s] f(1) by (simp add: hashTag_pos)
  have r3: "retagged c ?c3" by (simp add: c2(1) retagged_def list_all2_same)
  have r: "retagged c ?c'" unfolding retagged_def by (simp add: c2(1) tagged_nodes)
  have "bears ?c3 k" using k(1) by (simp add: c2(1) bears_def)
  from setSlotTag_spec [OF retagged_named [OF r3 I(2)] this, of "arenaHashTag h"]
  have run: "bindr (putSlot z ?s (ar_hashSlots c)) (\<lambda>slots. setSlotTag k (arenaHashTag h) (c2\<lparr>ar_hashSlots := slots\<rparr>)) = Inr ?c'"
    by (simp add: z(1) c2(1))
  have sh: "slotHash c K ?s = h" using k(2) by (simp add: slotHash_def)
  have hs: "hashesIn ?c' K = hashesIn c K"
    unfolding hashesIn_def retagged_hash [OF r] by (subst slot_split [OF z]) (simp add: S sh f(2))
  have b: "bears ?c' j = bears c j" "bears c2 j = bears c j" for j by (rule retagged_bears [OF r]) (simp add: bears_def c2(1))
  have hs2: "hashesIn c2 K = hashesIn c K" by (simp add: hashesIn_def c2(1) slotHash_def [abs_def])
  have "peersOk ?c' K \<and> peerMap ?c' = peerMap c2" by (rule peers_same [OF c2(2)]) (simp_all add: hs hs2 b)
  then have p: "peersOk ?c' K" "peerMap ?c' = peerMap c2" by simp_all
  have i: "indexed ?c' = add_mset k (image_mset hs_nodeID (slotsOf (ar_hashSlots c) - {#?o#})) + pmset (peerMap c2)"
    by (simp add: indexed_def p(2) S)
  have ho: "honest ?c' K"
    by (rule honest_set [OF I(3) k(1)]) (use b(1) k(2) in \<open>auto simp: c2(1) S dest: in_diffD\<close>)
  have tg: "map hs_tag ?S = map hs_tag (ar_hashSlots c)"
    using slotFor_home(1) [OF inv z] by (simp add: map_update list_update_same_conv z(1))
  have "size (slotsOf ?S) = size (slotsOf (ar_hashSlots c))" using arg_cong [OF slot_split [OF z], of size] by (simp add: S)
  then have st: "slotTable ?c'" using I(1) by (simp add: slotTable_def c2(1) table_same_tags [OF tg])
  have "indexInv ?c' K" by (rule indexInvI [OF inv r st ho _ p(1)]) (unfold hs i, rule I(4), rule one)
  then show ?thesis using that [OF run _ r i] by blast
qed


subsection \<open>The operations\<close>

lemma peerIndex_split:
  assumes "k \<in> set ps"
  obtains xs ys where "ps = xs @ k # ys" "k \<notin> set xs" "peerIndex k ps = Some (length xs)"
proof -
  obtain xs ys where "ps = xs @ k # ys" "k \<notin> set xs" using split_list_first [OF assms] by blast
  moreover have "k \<notin> set xs \<Longrightarrow> takeWhile (\<lambda>x. x \<noteq> k) (xs @ k # ys) = xs" for xs ys by (induction xs) auto
  ultimately show ?thesis using that assms by (simp add: peerIndex_def)
qed

lemma peerIndex_None [simp]: "k \<notin> set ps \<Longrightarrow> peerIndex k ps = None"
  by (simp add: peerIndex_def)

lemma removeCollisionPeer_none:
  assumes "k \<notin> set (peersOf c h)"
  shows "removeCollisionPeerLocked h k c = c"
  using assms by (simp add: removeCollisionPeerLocked_def split: option.split)

lemma peers_some: "x \<in> set (peersOf c h) \<Longrightarrow> ar_collisionPeers c = Some (peerMap c)"
  by (auto simp: peersOf_map peerMap_def split: option.splits)

lemma retagged_peers: "retagged c (c\<lparr>ar_collisionPeers := P, ar_collisionCount := n\<rparr>)"
  by (simp add: retagged_def list_all2_same)

lemma peers_upd_same:
  "hashesIn (c\<lparr>ar_collisionPeers := P, ar_collisionCount := n\<rparr>) K = hashesIn c K"
  "bears (c\<lparr>ar_collisionPeers := P, ar_collisionCount := n\<rparr>) k = bears c k"
  "slotTable (c\<lparr>ar_collisionPeers := P, ar_collisionCount := n\<rparr>) = slotTable c"
  "honest (c\<lparr>ar_collisionPeers := P, ar_collisionCount := n\<rparr>) K = honest c K"
  by (simp_all add: hashesIn_def bears_def slotTable_def honest_def slotHash_def [abs_def])

lemma removeCollisionPeer_some:
  assumes inv: "indexInv c K" and k: "k \<in> set (peersOf c h)"
  obtains c' where "removeCollisionPeerLocked h k c = c'" "indexInv c' K" "retagged c c'" "indexed c = add_mset k (indexed c')"
    "k \<notin># indexed c'"
proof -
  note I = indexInvD [OF inv]
  obtain xs ys where ps: "peersOf c h = xs @ k # ys" "peerIndex k (peersOf c h) = Some (length xs)"
    using peerIndex_split [OF k] by metis
  note M = peersOf_mem [OF I(5) k]
  have "pmset (peerMap c) \<noteq> {#}" using M(4) by auto
  then have n: "0 < ar_collisionCount c" using I(5) by (simp add: peersOk_def nonempty_has_size)
  let ?c' = "c\<lparr>ar_collisionPeers := storePeers h (xs @ ys) (peerMap c), ar_collisionCount := ar_collisionCount c - 1\<rparr>"
  have run: "removeCollisionPeerLocked h k c = ?c'" using n ps by (simp add: removeCollisionPeerLocked_def peers_some [OF k] Let_def)
  have e: "\<forall>j \<in> set (xs @ ys). bears c j \<and> ar_hash c (K j) = h" using peersOf_mem(1,2) [OF I(5), of _ h] by (simp add: ps(1))
  note P = peers_store [OF I(5) e, of ?c']
  have p: "peersOk ?c' K" by (rule P(1)) (use M(3) ps(1) in \<open>simp_all add: peers_upd_same\<close>)
  obtain R where R: "pmset (peerMap c) = R + mset (peersOf c h)" "pmset (peerMap ?c') = R + mset (xs @ ys)"
    using P(2) M(3) ps(1) by (auto simp: peers_upd_same)
  have i: "indexed c = add_mset k (indexed ?c')" by (simp add: indexed_def R ps(1))
  have o: "count (indexed ?c') j \<le> count (indexed c) j" for j by (simp add: i)
  have "indexInv ?c' K"
    by (rule indexInvI [OF inv retagged_peers]) (use I p o in \<open>auto simp: peers_upd_same intro: order_trans\<close>)
  moreover have "k \<notin># indexed ?c'" using I(6) [rule_format, of k] by (simp add: i count_eq_zero_iff)
  ultimately show ?thesis using that [OF run] retagged_peers i by blast
qed

lemma slot_node:
  assumes inv: "indexInv c K" and z: "unat z < length (ar_hashSlots c)" "slotFor c K h (unat z)"
  shows "bears c (hs_nodeID (ar_hashSlots c ! unat z))" "ar_hash c (K (hs_nodeID (ar_hashSlots c ! unat z))) = h"
    "peerValid (hs_nodeID (ar_hashSlots c ! unat z)) h c = Inr True"
proof -
  note I = indexInvD [OF inv]
  have m: "ar_hashSlots c ! unat z \<in># slotsOf (ar_hashSlots c)" by (subst slot_split [OF z]) simp
  show j: "bears c (hs_nodeID (ar_hashSlots c ! unat z))" "ar_hash c (K (hs_nodeID (ar_hashSlots c ! unat z))) = h"
    using I(3) m z(2) by (auto simp: honest_def slotFor_def slotHash_def)
  show "peerValid (hs_nodeID (ar_hashSlots c ! unat z)) h c = Inr True"
    using j named_key(1) [OF I(2) j(1)] by (simp add: peerValid_def named_lt [OF I(2)]) (simp add: bears_def)
qed

lemma others_not:
  assumes inv: "indexInv c K" and z: "unat z < length (ar_hashSlots c)" "slotFor c K h (unat z)"
    and k: "ar_hash c (K k) = h" "hs_nodeID (ar_hashSlots c ! unat z) \<noteq> k"
  shows "k \<notin># image_mset hs_nodeID (slotsOf (ar_hashSlots c) - {#ar_hashSlots c ! unat z#})"
proof
  note I = indexInvD [OF inv]
  assume "k \<in># image_mset hs_nodeID (slotsOf (ar_hashSlots c) - {#ar_hashSlots c ! unat z#})"
  then obtain s where s: "s \<in># slotsOf (ar_hashSlots c)" "hs_nodeID s = k" by (auto dest: in_diffD)
  then obtain i where i: "i < length (ar_hashSlots c)" "occ (ar_hashSlots c) i" "ar_hashSlots c ! i = s" by (auto simp: slotsOf_mem)
  have e: "slotHash c K (ar_hashSlots c ! i) = slotHash c K (ar_hashSlots c ! unat z)"
    using z(2) s(2) k(1) i(3) by (simp add: slotFor_def slotHash_def)
  have o: "occ (ar_hashSlots c) (unat z)" using z(2) by (simp add: slotFor_def)
  have "i = unat z" by (rule slot_unique [OF I(4) i(1) z(1) i(2) o e])
  then show False using i(3) s(2) k(2) by simp
qed

lemma indexed_split:
  assumes z: "unat z < length (ar_hashSlots c)" "slotFor c K h (unat z)"
  shows "indexed c = add_mset (hs_nodeID (ar_hashSlots c ! unat z))
    (image_mset hs_nodeID (slotsOf (ar_hashSlots c) - {#ar_hashSlots c ! unat z#})) + pmset (peerMap c)"
  unfolding indexed_def by (subst slot_split [OF z]) simp

definition demoted :: "u32 \<Rightarrow> u32 \<Rightarrow> u32 list \<Rightarrow> u32 list" where
  \<comment> \<open>the peers after \<open>j\<close> has lost the slot to \<open>k\<close>\<close>
  "demoted j k ps = (case peerIndex k ps of Some i \<Rightarrow> ps[i := j] | None \<Rightarrow> ps @ [j])"

lemma demoted_props:
  "demoted j k ps \<noteq> []" "set (demoted j k ps) \<subseteq> insert j (set ps)"
  "mset (demoted j k ps) + (if k \<in> set ps then {#k#} else {#}) = add_mset j (mset ps)"
  "k \<notin> set ps \<Longrightarrow> length (demoted j k ps) = Suc (length ps)" "k \<in> set ps \<Longrightarrow> length (demoted j k ps) = length ps"
proof -
  have *: "demoted j k ps \<noteq> [] \<and> set (demoted j k ps) \<subseteq> insert j (set ps)
    \<and> mset (demoted j k ps) + (if k \<in> set ps then {#k#} else {#}) = add_mset j (mset ps)
    \<and> (k \<notin> set ps \<longrightarrow> length (demoted j k ps) = Suc (length ps)) \<and> (k \<in> set ps \<longrightarrow> length (demoted j k ps) = length ps)"
  proof (cases "k \<in> set ps")
    case True
    then obtain xs ys where "ps = xs @ k # ys" "peerIndex k ps = Some (length xs)" using peerIndex_split by metis
    then show ?thesis by (auto simp: demoted_def)
  qed (auto simp: demoted_def)
  then show "demoted j k ps \<noteq> []" "set (demoted j k ps) \<subseteq> insert j (set ps)"
    "mset (demoted j k ps) + (if k \<in> set ps then {#k#} else {#}) = add_mset j (mset ps)"
    "k \<notin> set ps \<Longrightarrow> length (demoted j k ps) = Suc (length ps)" "k \<in> set ps \<Longrightarrow> length (demoted j k ps) = length ps" by blast+
qed


lemma promote_peers:
  assumes "peersOf c h = ps"
  shows "(case peerIndex k ps of
        Some i \<Rightarrow> if True then c\<lparr>ar_collisionPeers := map_option (AList.update h (ps[i := j])) (ar_collisionPeers c)\<rparr>
          else removeCollisionPeerLocked h k c
      | None \<Rightarrow> if True then c\<lparr>ar_collisionPeers := Some (AList.update h (ps @ [j]) (case ar_collisionPeers c of None \<Rightarrow> [] | Some m \<Rightarrow> m)),
            ar_collisionCount := ar_collisionCount c + 1\<rparr> else c)
    = c\<lparr>ar_collisionPeers := storePeers h (demoted j k ps) (peerMap c),
        ar_collisionCount := ar_collisionCount c + int (length (demoted j k ps)) - int (length ps)\<rparr>"
proof (cases "k \<in> set ps")
  case True
  then obtain i where i: "peerIndex k ps = Some i" using peerIndex_split by metis
  have "ps[i := j] \<noteq> []" using True by auto
  then show ?thesis using i True peers_some [of k c h] assms by (simp add: demoted_def storePeers_def)
next
  case False
  then show ?thesis by (simp add: demoted_def storePeers_def peerMap_def)
qed

lemma rival_promote:
  assumes inv: "indexInv c K" and z: "unat z < length (ar_hashSlots c)" "slotFor c K h (unat z)"
    and k: "bears c k" "ar_hash c (K k) = h" "hs_nodeID (ar_hashSlots c ! unat z) \<noteq> k"
  obtains c' where "promoteNodeIntoHashSlotAtLocked z (arenaHashTag h) h k c = Inr c'" "indexInv c' K" "retagged c c'"
    "indexed c' = (if k \<in># indexed c then indexed c else add_mset k (indexed c))"
proof -
  note I = indexInvD [OF inv]
  let ?o = "ar_hashSlots c ! unat z" and ?ps = "peersOf c h"
  let ?j = "hs_nodeID ?o" and ?I = "image_mset hs_nodeID (slotsOf (ar_hashSlots c) - {#?o#})"
  let ?qs = "demoted ?j k ?ps"
  define c2 where "c2 = c\<lparr>ar_collisionPeers := storePeers h ?qs (peerMap c),
    ar_collisionCount := ar_collisionCount c + int (length ?qs) - int (length ?ps)\<rparr>"
  note all = indexed_split [OF z] and j = slot_node [OF inv z] and kI = others_not [OF inv z k(2,3)]
  have hin: "h \<in># hashesIn c K" using slotFor_mem z by blast
  have qs: "\<forall>x \<in> set ?qs. bears c x \<and> ar_hash c (K x) = h"
  proof
    fix x assume "x \<in> set ?qs"
    then have "x = ?j \<or> x \<in> set ?ps" using demoted_props(2) [of ?j k ?ps] by blast
    then show "bears c x \<and> ar_hash c (K x) = h" using j(1,2) peersOf_mem(1,2) [OF I(5), of x h] by blast
  qed
  have c2: "ar_collisionPeers c2 = storePeers h ?qs (peerMap c)" "ar_collisionCount c2 = ar_collisionCount c + int (length ?qs) - int (length ?ps)"
    "hashesIn c2 K = hashesIn c K" "\<And>k. bears c2 k = bears c k" "ar_hash c2 = ar_hash c" "ar_hashSlots c2 = ar_hashSlots c"
    by (simp_all add: c2_def peers_upd_same)
  note P = peers_store [OF I(5) qs impI [OF hin] c2(1-5)]
  obtain R where R: "pmset (peerMap c) = R + mset ?ps" "pmset (peerMap c2) = R + mset ?qs" using P(2) by blast
  have new: "add_mset k ?I + pmset (peerMap c2) = (if k \<in># indexed c then indexed c else add_mset k (indexed c))"
  proof (cases "k \<in> set ?ps")
    case True
    have "k \<in># indexed c" using peersOf_mem(4) [OF I(5) True] by (simp add: all)
    moreover have "add_mset k (mset ?qs) = add_mset ?j (mset ?ps)" using demoted_props(3) [of ?j k ?ps] True by simp
    ultimately show ?thesis unfolding all R by simp
  next
    case False
    then have "k \<notin># pmset (peerMap c)" using pmset_mem [OF I(5), of k] k(2) by auto
    then have "k \<notin># indexed c" using kI k(3) by (simp add: all)
    moreover have "mset ?qs = add_mset ?j (mset ?ps)" using demoted_props(3) [of ?j k ?ps] False by simp
    ultimately show ?thesis unfolding all R by simp
  qed
  have one: "\<forall>x. count (add_mset k ?I + pmset (peerMap c2)) x \<le> 1"
    unfolding new using I(6) by (auto simp: count_eq_zero_iff)
  obtain c' where c': "bindr (putSlot z \<lparr>hs_tag = arenaHashTag h, hs_nodeID = k\<rparr> (ar_hashSlots c))
      (\<lambda>slots. setSlotTag k (arenaHashTag h) (c2\<lparr>ar_hashSlots := slots\<rparr>)) = Inr c'" "indexInv c' K" "retagged c c'"
    "indexed c' = add_mset k ?I + pmset (peerMap c2)"
    by (rule retarget_spec [OF inv z k(1,2) c2_def P(1) one])
  have "promoteNodeIntoHashSlotAtLocked z (arenaHashTag h) h k c = Inr c'"
    unfolding promoteNodeIntoHashSlotAtLocked_def slotAt_ok(1) [OF z(1)] bindr_simps Let_def j(3) promote_peers [OF refl] c2_def [symmetric] c2(6)
    by (rule c'(1))
  then show ?thesis using that c'(2-4) new by simp
qed

lemma promote_spec:
  assumes inv: "indexInv c K" and few: "ar_hashCount c + 1 < 2 ^ 30" and k: "bears c k" "ar_hash c (K k) = h"
  obtains c' where "promoteCollisionPeerLocked h k c = Inr c'" "indexInv c' K" "retagged c c'"
    "indexed c' = (if k \<in># indexed c then indexed c else add_mset k (indexed c))"
proof (cases "h \<in># hashesIn c K")
  case False
  have np: "k \<notin> set (peersOf c h)" using peersOf_mem(3) [OF indexInvD(5) [OF inv]] False by blast
  have ni: "k \<notin># indexed c" using indexed_hash [OF inv] False k(2) by blast
  have o: "ownSlot c h k = Inr EmptySlot" using ownSlot_spec [OF inv k(2)] False by simp
  obtain c' where "nodeMapSet h k c = Inr c'" "indexInv c' K" "retagged c c'" "indexed c' = add_mset k (indexed c)"
    by (rule nodeMapSet_new [OF inv few k(1) k(2) [symmetric] False])
  then show ?thesis using that ni by (simp add: promoteCollisionPeerLocked_def o removeCollisionPeer_none [OF np])
next
  case True
  obtain z where z: "unat z < length (ar_hashSlots c)" "slotFor c K h (unat z)"
    "ownSlot c h k = Inr (if hs_nodeID (ar_hashSlots c ! unat z) = k then OwnSlot z else RivalSlot z)"
    using ownSlot_spec [OF inv k(2)] True by auto
  show ?thesis
  proof (cases "hs_nodeID (ar_hashSlots c ! unat z) = k")
    case True
    then have "k \<in># indexed c" by (simp add: indexed_split [OF z(1,2)])
    then show ?thesis using that [of c] inv z(3) True by (simp add: promoteCollisionPeerLocked_def)
  next
    case False
    show ?thesis
      by (rule rival_promote [OF inv z(1,2) k False]) (use that z(3) False in \<open>simp add: promoteCollisionPeerLocked_def\<close>)
  qed
qed


lemma backshift_index:
  assumes inv: "indexInv c K" and z: "unat z < length (ar_hashSlots c)" "slotFor c K h (unat z)" and np: "peersOf c h = []"
  obtains c' where "backshiftDeleteSlot z c = Inr c'" "indexInv c' K" "retagged c c'" "ar_collisionPeers c' = ar_collisionPeers c"
    "ar_collisionCount c' = ar_collisionCount c" "indexed c = add_mset (hs_nodeID (ar_hashSlots c ! unat z)) (indexed c')"
proof -
  note I = indexInvD [OF inv]
  let ?o = "ar_hashSlots c ! unat z"
  have f: "occ (ar_hashSlots c) (unat z)" "slotHash c K ?o = h" using z(2) by (simp_all add: slotFor_def)
  obtain S where S: "backshiftDeleteSlot z c = Inr (c\<lparr>ar_hashSlots := S, ar_hashCount := ar_hashCount c - 1\<rparr>)"
    "slotTable (c\<lparr>ar_hashSlots := S, ar_hashCount := ar_hashCount c - 1\<rparr>)" "slotsOf S = slotsOf (ar_hashSlots c) - {#?o#}"
    using backshift_spec [OF I(1) z(1) f(1)] by (elim exE conjE) (rule that)
  let ?c' = "c\<lparr>ar_hashSlots := S, ar_hashCount := ar_hashCount c - 1\<rparr>"
  have r: "retagged c ?c'" by (simp add: retagged_def list_all2_same)
  have hs: "hashesIn c K = add_mset h (hashesIn ?c' K)"
    unfolding hashesIn_def retagged_hash [OF r] by (subst slot_split [OF z]) (simp add: S(3) f(2))
  have m: "peerMap ?c' = peerMap c" by (simp add: peerMap_def)
  have i: "indexed c = add_mset (hs_nodeID ?o) (indexed ?c')" unfolding indexed_split [OF z] by (simp add: indexed_def m S(3))
  have b: "bears ?c' k = bears c k" for k by (rule retagged_bears [OF r])
  have p: "peersOk ?c' K"
    unfolding peersOk_def m
  proof (intro conjI allI impI)
    fix g qs assume q: "map_of (peerMap c) g = Some qs"
    then have q': "qs \<noteq> []" "g \<in># hashesIn c K" "\<forall>k \<in> set qs. bears c k \<and> ar_hash c (K k) = g" using I(5) unfolding peersOk_def by blast+
    have "g \<noteq> h" using q q'(1) np by (auto simp: peersOf_map)
    then show "g \<in># hashesIn ?c' K" using q'(2) hs by simp
    show "qs \<noteq> []" "\<forall>k \<in> set qs. bears ?c' k \<and> ar_hash ?c' (K k) = g" using q'(1,3) b by simp_all
  qed (use I(5) in \<open>simp_all add: peersOk_def\<close>)
  have ho: "honest ?c' K" using I(3) by (auto simp: honest_def S(3) b slotHash_def dest!: in_diffD)
  have le: "count (hashesIn ?c' K) g \<le> count (hashesIn c K) g" "count (indexed ?c') k \<le> count (indexed c) k" for g k by (simp_all add: hs i)
  have "indexInv ?c' K"
    by (rule indexInvI [OF inv r S(2) ho _ p]) (use I(4,6) le in \<open>blast intro: order_trans\<close>)+
  then show ?thesis using that [OF S(1) _ r] i by simp
qed

lemma pop_none:
  assumes p: "peersOk c K" and e: "peersOf c h = []"
  shows "popValidCollisionPeerLocked h k c = Inr (None, c)"
proof (cases "ar_collisionPeers c")
  case (Some m)
  then have m: "peerMap c = m" "m \<noteq> []" using p by (auto simp: peerMap_def peersOk_def)
  have "qs \<noteq> []" if "map_of m h = Some qs" for qs using p that unfolding peersOk_def m(1) by blast
  then have "map_of m h = None" using e by (cases "map_of m h") (auto simp: peersOf_map m(1))
  then have "h \<notin> fst ` set m" by (simp add: map_of_eq_None_iff)
  then have "AList.delete h m = m" unfolding AList.delete_eq by (intro filter_True) force
  then show ?thesis using Some m(2) e by (simp add: popValidCollisionPeerLocked_def)
qed (simp add: popValidCollisionPeerLocked_def)

lemma pop_some:
  assumes inv: "indexInv c K" and ps: "peersOf c h = xs @ [p]" and pk: "p \<noteq> k"
  shows "popValidCollisionPeerLocked h k c
    = Inr (Some p, c\<lparr>ar_collisionPeers := storePeers h xs (peerMap c), ar_collisionCount := ar_collisionCount c - 1\<rparr>)"
proof -
  note I = indexInvD [OF inv]
  have pm: "p \<in> set (peersOf c h)" by (simp add: ps)
  note P = peersOf_mem [OF I(5) pm]
  have pv: "peerValid p h c = Inr True"
    using P(1,2) named_key(1) [OF I(2) P(1)] by (simp add: peerValid_def named_lt [OF I(2)]) (simp add: bears_def)
  have "pmset (peerMap c) \<noteq> {#}" using P(4) by auto
  then have n: "0 < ar_collisionCount c" using I(5) by (simp add: peersOk_def nonempty_has_size)
  show ?thesis using n pk pv peers_some [OF pm] by (simp add: popValidCollisionPeerLocked_def ps)
qed

lemma peers_counted:
  assumes "peersOk c K"
  shows "\<not> (0 < ar_collisionCount c \<and> (case ar_collisionPeers c of None \<Rightarrow> True | Some m \<Rightarrow> m = []))"
proof -
  have n: "ar_collisionPeers c \<noteq> Some []" "ar_collisionCount c = int (size (pmset (peerMap c)))" using assms by (simp_all add: peersOk_def)
  show ?thesis
  proof (cases "ar_collisionPeers c")
    case None
    then show ?thesis using n(2) by (simp add: peerMap_def pmset_def)
  qed (use n(1) in simp)
qed

lemma removeSlot_spec:
  assumes inv: "indexInv c K" and z: "unat z < length (ar_hashSlots c)" "slotFor c K h (unat z)" and k: "hs_nodeID (ar_hashSlots c ! unat z) = k"
  obtains c' where "removeOrPromoteHashSlotAtLocked z h k c = Inr c'" "indexInv c' K" "retagged c c'" "indexed c = add_mset k (indexed c')"
proof (cases "peersOf c h" rule: rev_cases)
  case Nil
  note I = indexInvD [OF inv]
  obtain c' where c': "backshiftDeleteSlot z c = Inr c'" "indexInv c' K" "retagged c c'" "ar_collisionPeers c' = ar_collisionPeers c"
    "ar_collisionCount c' = ar_collisionCount c" "indexed c = add_mset (hs_nodeID (ar_hashSlots c ! unat z)) (indexed c')"
    by (rule backshift_index [OF inv z Nil])
  have zero: "\<not> (0 < ar_collisionCount c' \<and> (case ar_collisionPeers c' of None \<Rightarrow> True | Some m \<Rightarrow> m = []))"
    unfolding c'(4,5) by (rule peers_counted [OF I(5)])
  have pop: "popValidCollisionPeerLocked h k c = Inr (None, c)" by (rule pop_none [OF I(5) Nil])
  have "removeOrPromoteHashSlotAtLocked z h k c = Inr c'"
    unfolding removeOrPromoteHashSlotAtLocked_def pop bindr_simps prod.case option.case c'(1) if_not_P [OF zero] ..
  then show ?thesis by (rule that [OF _ c'(2,3) c'(6) [unfolded k]])
next
  case (snoc xs p)
  note I = indexInvD [OF inv]
  have pm: "p \<in> set (peersOf c h)" by (simp add: snoc)
  note P = peersOf_mem [OF I(5) pm]
  note all = indexed_split [OF z]
  have pk: "p \<noteq> k"
    using P(4) I(6) [rule_format, of k] unfolding all k by (auto simp: count_eq_zero_iff)
  define c2 where "c2 = c\<lparr>ar_collisionPeers := storePeers h xs (peerMap c), ar_collisionCount := ar_collisionCount c - 1\<rparr>"
  have pop: "popValidCollisionPeerLocked h k c = Inr (Some p, c2)" unfolding c2_def by (rule pop_some [OF inv snoc pk])
  have xs: "\<forall>x \<in> set xs. bears c x \<and> ar_hash c (K x) = h" using peersOf_mem(1,2) [OF I(5), of _ h] by (simp add: snoc)
  have c2: "ar_collisionPeers c2 = storePeers h xs (peerMap c)" "ar_collisionCount c2 = ar_collisionCount c + int (length xs) - int (length (peersOf c h))"
    "hashesIn c2 K = hashesIn c K" "\<And>k. bears c2 k = bears c k" "ar_hash c2 = ar_hash c" "ar_hashSlots c2 = ar_hashSlots c"
    by (simp_all add: c2_def peers_upd_same snoc)
  note Q = peers_store [OF I(5) xs impI [OF P(3)] c2(1-5)]
  obtain R where R: "pmset (peerMap c) = R + mset (peersOf c h)" "pmset (peerMap c2) = R + mset xs" using Q(2) by blast
  have i: "indexed c = add_mset k (add_mset p (image_mset hs_nodeID (slotsOf (ar_hashSlots c) - {#ar_hashSlots c ! unat z#})) + pmset (peerMap c2))"
  proof -
    have "pmset (peerMap c) = add_mset p (pmset (peerMap c2))" by (simp add: R snoc)
    then show ?thesis unfolding all k by simp
  qed
  have one: "\<forall>x. count (add_mset p (image_mset hs_nodeID (slotsOf (ar_hashSlots c) - {#ar_hashSlots c ! unat z#})) + pmset (peerMap c2)) x \<le> 1"
  proof
    fix x show "count (add_mset p (image_mset hs_nodeID (slotsOf (ar_hashSlots c) - {#ar_hashSlots c ! unat z#})) + pmset (peerMap c2)) x \<le> 1"
      using I(6) [rule_format, of x] unfolding i by (simp split: if_splits)
  qed
  obtain c' where c': "bindr (putSlot z \<lparr>hs_tag = arenaHashTag h, hs_nodeID = p\<rparr> (ar_hashSlots c))
      (\<lambda>slots. setSlotTag p (arenaHashTag h) (c2\<lparr>ar_hashSlots := slots\<rparr>)) = Inr c'" "indexInv c' K" "retagged c c'"
    "indexed c' = add_mset p (image_mset hs_nodeID (slotsOf (ar_hashSlots c) - {#ar_hashSlots c ! unat z#})) + pmset (peerMap c2)"
    by (rule retarget_spec [OF inv z P(1,2) c2_def Q(1) one])
  have t: "(ar_hashSlots c ! unat z)\<lparr>hs_nodeID := p\<rparr> = \<lparr>hs_tag = arenaHashTag h, hs_nodeID = p\<rparr>" "hs_tag (ar_hashSlots c ! unat z) = arenaHashTag h"
    using slotFor_home(1) [OF inv z] by simp_all
  have "removeOrPromoteHashSlotAtLocked z h k c = Inr c'"
    unfolding removeOrPromoteHashSlotAtLocked_def pop bindr_simps prod.case option.case c2(6) slotAt_ok(1) [OF z(1)] t by (rule c'(1))
  then show ?thesis using that c'(2-4) i by simp
qed

lemma remove_spec:
  assumes inv: "indexInv c K" and k: "k \<in># indexed c" "ar_hash c (K k) = h"
  obtains c' where "removeOrPromoteNodeMapLocked h k c = Inr c'" "indexInv c' K" "retagged c c'" "indexed c = add_mset k (indexed c')"
proof -
  note I = indexInvD [OF inv]
  have hin: "h \<in># hashesIn c K" using indexed_hash [OF inv k(1)] k(2) by simp
  obtain z where z: "unat z < length (ar_hashSlots c)" "slotFor c K h (unat z)"
    "ownSlot c h k = Inr (if hs_nodeID (ar_hashSlots c ! unat z) = k then OwnSlot z else RivalSlot z)"
    using ownSlot_spec [OF inv k(2)] hin by auto
  show ?thesis
  proof (cases "hs_nodeID (ar_hashSlots c ! unat z) = k")
    case True
    show ?thesis by (rule removeSlot_spec [OF inv z(1,2) True]) (use that z(3) True in \<open>simp add: removeOrPromoteNodeMapLocked_def\<close>)
  next
    case False
    then have "k \<in># pmset (peerMap c)" using k(1) others_not [OF inv z(1,2) k(2) False] by (simp add: indexed_split [OF z(1,2)])
    then have km: "k \<in> set (peersOf c h)" using pmset_mem [OF I(5)] k(2) by blast
    obtain c' where c': "removeCollisionPeerLocked h k c = c'" "indexInv c' K" "retagged c c'" "indexed c = add_mset k (indexed c')"
      by (rule removeCollisionPeer_some [OF inv km])
    have "removeOrPromoteNodeMapLocked h k c = Inr c'" unfolding removeOrPromoteNodeMapLocked_def z(3) if_not_P [OF False] by (simp add: c'(1))
    then show ?thesis by (rule that [OF _ c'(2-4)])
  qed
qed

end
