(* ===== verification/ArenaLookup.thy ===== *)
theory ArenaLookup
  imports ArenaPromote
begin

text \<open>
  Lookups through the index. When \<open>hashCount + collisionCount\<close> is the number of entries, every node that bears a value
  is in the index (\<open>all_indexed\<close>, by counting), so a probe that meets no slot of the hash is a miss; otherwise the
  walk of the trie decides. Either way the answer is the node of the key.
\<close>

unbundle bit_operations_syntax

subsection \<open>The tree behind the index\<close>

definition keyedBy :: "('v :: zero) arenaRadix \<Rightarrow> forest \<Rightarrow> (u32 \<Rightarrow> string) \<Rightarrow> bool" where
  "keyedBy c F K \<longleftrightarrow> arenaForest c F \<and> (\<forall>k. bears c k \<longrightarrow> (unat k, K k) \<in> set (allkeyed (unat (ar_root c)) F)
     \<and> an_keyLen (ar_nodes c ! unat k) = min (length (K k)) (unat nodeKeyLenMask))"

definition lenOk :: "'v arenaRadix \<Rightarrow> bool" where
  "lenOk c \<longleftrightarrow> ar_len c = int (card {k. bears c k})"

lemma climb_det: "climb c k js \<Longrightarrow> climb c k js' \<Longrightarrow> js = js'"
proof (induction arbitrary: js' rule: climb.induct)
  case top
  then show ?case using climb_root by blast
next
  case (up k ks)
  from up.prems up.hyps(1) obtain ls where "js' = k # ls" "climb c (an_parent (ar_nodes c ! unat k)) ls" by (auto elim: climb_cases)
  then show ?case using up.IH by simp
qed

lemma forest_key_unique:
  assumes f: "arenaForest c F" and a: "(a, s) \<in> set (allkeyed (unat (ar_root c)) F)" "(a, t) \<in> set (allkeyed (unat (ar_root c)) F)"
  shows "s = t"
proof -
  obtain k js where k: "unat k = a" "climb c k js" "pathKey c js = s" by (rule forest_climb [OF f a(1)])
  obtain j ls where j: "unat j = a" "climb c j ls" "pathKey c ls = t" by (rule forest_climb [OF f a(2)])
  have "j = k" using k(1) j(1) by (simp add: word_unat_eq_iff)
  then show ?thesis using climb_det k(2,3) j(2,3) by metis
qed

lemma keyedBy_named:
  assumes "keyedBy c F K"
  shows "named c K"
proof -
  have f: "arenaForest c F" using assms by (simp add: keyedBy_def)
  note D = arenaForestD [OF f]
  have "\<exists>ks. climb c k ks \<and> keyLenOk c k ks \<and> pathKey c ks = K k" if b: "bears c k" for k
  proof -
    have k: "(unat k, K k) \<in> set (allkeyed (unat (ar_root c)) F)" "an_keyLen (ar_nodes c ! unat k) = min (length (K k)) (unat nodeKeyLenMask)"
      using assms b by (simp_all add: keyedBy_def)
    obtain j js where j: "unat j = unat k" "climb c j js" "pathKey c js = K k" by (rule forest_climb [OF f k(1)])
    have "j = k" using j(1) by (simp add: word_unat_eq_iff)
    then show ?thesis using j k(2) by (auto simp: keyLenOk_def)
  qed
  moreover have "length (ar_nodes c) < 2 ^ 32" using D(2) by (simp add: linked_def foregroundNoProtect_def nilNode_def)
  moreover have "an_parent (ar_nodes c ! unat (ar_root c)) \<noteq> ar_root c" using f D(4) by (simp add: arenaForest_def)
  ultimately show ?thesis using D(1,3) by (simp add: named_def)
qed

lemma allkeyed_unique:
  assumes "ordered F" "(a, s) \<in> set (allkeyed r F)" "(b, s) \<in> set (allkeyed r F)"
  shows "a = b"
proof -
  have "(x, []) \<notin> set (keyed [] F)" for x using keyed_first [of x "[]" "[]" F] assms(1) by auto
  then show ?thesis using assms keyed_unique [of F a s "[]" b] by (cases "s = []") (auto simp: allkeyed_def)
qed

lemma keyedBy_inj: "keyedBy c F K \<Longrightarrow> bears c k \<Longrightarrow> bears c j \<Longrightarrow> K k = K j \<Longrightarrow> k = j"
  unfolding keyedBy_def arenaForest_def using allkeyed_unique [of F "unat k" "K k" "unat (ar_root c)" "unat j"] by (metis word_unat_eq_iff)

lemma retagged_forest:
  assumes r: "retagged c c'" and f: "arenaForest c F"
  shows "arenaForest c' F"
proof -
  have h: "absHeap c' = absHeap c"
    using retagged_node [OF r]
    by (auto simp: fun_eq_iff absHeap_def absNode_def retagged_length [OF r] retagged_labels [OF r] tagOnly_sel)
  have n: "ptrOk c' k = ptrOk c k" for k by (simp add: ptrOk_def retagged_length [OF r])
  have "linked c'"
    unfolding linked_def retagged_length [OF r] n
  proof (intro conjI ballI)
    show "length (ar_nodes c) \<le> unat foregroundNoProtect" using arenaForestD(2) [OF f] by (simp add: linked_def)
    fix m k assume "m \<in> set (ar_nodes c')" and k: "k \<in> {an_parent m, an_child m, an_sibling m, an_prev m, an_next m}"
    then obtain i where i: "i < length (ar_nodes c)" "m = ar_nodes c' ! i" by (auto simp: in_set_conv_nth retagged_length [OF r])
    show "ptrOk c k" using k linkedD [OF arenaForestD(2) [OF f] i(1)] by (auto simp: i(2) tagOnly_sel [OF retagged_node [OF r i(1)]])
  qed
  moreover have "an_parent (ar_nodes c' ! unat (ar_root c)) = an_parent (ar_nodes c ! unat (ar_root c))"
    by (rule tagOnly_sel(5) [OF retagged_node [OF r arenaForestD(3) [OF f]]])
  ultimately show ?thesis using f by (simp add: arenaForest_def retagged_labels [OF r] retagged_length [OF r] retagged_sel [OF r] h)
qed

lemma retagged_keyedBy:
  assumes r: "retagged c c'" and k: "keyedBy c F K"
  shows "keyedBy c' F K"
  unfolding keyedBy_def
proof (intro conjI allI impI)
  show "arenaForest c' F" using k retagged_forest [OF r] by (simp add: keyedBy_def)
  fix j assume "bears c' j"
  then have b: "bears c j" "unat j < length (ar_nodes c)" using retagged_bears [OF r] by (simp_all add: bears_def)
  then show "(unat j, K j) \<in> set (allkeyed (unat (ar_root c')) F)" "an_keyLen (ar_nodes c' ! unat j) = min (length (K j)) (unat nodeKeyLenMask)"
    using k tagOnly_sel(12) [OF retagged_node [OF r b(2)]] by (simp_all add: keyedBy_def retagged_sel(1) [OF r])
qed

lemma retagged_lenOk: "retagged c c' \<Longrightarrow> lenOk c' = lenOk c"
  by (simp add: lenOk_def retagged_bears retagged_sel)

subsection \<open>Counting\<close>

lemma count_one_card: "\<forall>x. count M x \<le> 1 \<Longrightarrow> card (set_mset M) = size M"
proof (induction M)
  case (add x M)
  have x: "x \<notin># M" using add.prems [rule_format, of x] by (simp add: count_eq_zero_iff)
  have "count M y \<le> count (add_mset x M) y" for y by simp
  then have "\<forall>y. count M y \<le> 1" using add.prems by (meson order_trans)
  then show ?case using add.IH x by simp
qed simp

lemma all_indexed:
  assumes inv: "indexInv c K" and len: "lenOk c" and full: "ar_hashCount c + ar_collisionCount c = ar_len c" and k: "bears c k"
  shows "k \<in># indexed c"
proof -
  have sub: "set_mset (indexed c) \<subseteq> {k. bears c k}" using indexed_bears [OF inv] by blast
  have "int (card (set_mset (indexed c))) = int (card {k. bears c k})"
    using count_one_card [OF indexInvD(6) [OF inv]] indexed_size [OF inv] full len by (simp add: lenOk_def)
  then have "set_mset (indexed c) = {k. bears c k}" using card_subset_eq [OF finite sub] by simp
  then show ?thesis using k by blast
qed

subsection \<open>Answers\<close>

definition answers :: "'v arenaRadix \<Rightarrow> (u32 \<Rightarrow> string) \<Rightarrow> string \<Rightarrow> u32 \<Rightarrow> bool \<Rightarrow> bool" where
  "answers c K key k ok \<longleftrightarrow> (if ok then bears c k \<and> K k = key else k = nilNode \<and> (\<forall>j. bears c j \<longrightarrow> K j \<noteq> key))"

lemma probe_answers:
  assumes inv: "indexInv c K" and len: "lenOk c" and h: "h = ar_hash c key"
  obtains k i m v where "lookupHashSlotAt key h c = Inr (k, i, m, v)" "v \<longrightarrow> answers c K key k True"
    "\<not> v \<longrightarrow> \<not> m \<and> ar_hashCount c + ar_collisionCount c = ar_len c \<longrightarrow> answers c K key nilNode False"
proof -
  consider (hit) s i where "s \<in># slotsOf (ar_hashSlots c)" "K (hs_nodeID s) = key" "lookupHashSlotAt key h c = Inr (hs_nodeID s, i, True, True)"
    | (miss) "\<forall>s \<in># slotsOf (ar_hashSlots c). K (hs_nodeID s) \<noteq> key" "lookupHashSlotAt key h c = Inr (nilNode, 0, h \<in># hashesIn c K, False)"
    using lookupHashSlotAt_spec [OF inv h] by blast
  then show ?thesis
  proof cases
    case hit
    have "bears c (hs_nodeID s)" using indexInvD(3) [OF inv] hit(1) by (simp add: honest_def)
    then show ?thesis using that [OF hit(3)] hit(2) by (simp add: answers_def)
  next
    case miss
    have "answers c K key nilNode False" if m: "h \<notin># hashesIn c K" and full: "ar_hashCount c + ar_collisionCount c = ar_len c"
    proof -
      have "K j \<noteq> key" if b: "bears c j" for j
        using indexed_hash [OF inv all_indexed [OF inv len full b]] m h by auto
      then show ?thesis by (simp add: answers_def)
    qed
    then show ?thesis using that [OF miss(2)] by simp
  qed
qed

lemma walk_answers:
  assumes kb: "keyedBy c F K"
  obtains k ok where "findNodeByTrieWalk c key = Inr (k, ok)" "answers c K key k ok"
proof -
  have f: "arenaForest c F" using kb by (simp add: keyedBy_def)
  obtain k ok where w: "findNodeByTrieWalk c key = Inr (k, ok)" "ok \<longleftrightarrow> (\<exists>a. (a, key) \<in> set (allkeyed (unat (ar_root c)) F) \<and> an_hasValue (ar_nodes c ! a))"
    "ok \<longrightarrow> (unat k, key) \<in> set (allkeyed (unat (ar_root c)) F) \<and> unat k < length (ar_nodes c) \<and> an_hasValue (ar_nodes c ! unat k)" "\<not> ok \<longrightarrow> k = nilNode"
    using walk_finds [OF f] by blast
  have "answers c K key k ok"
  proof (cases ok)
    case True
    then have b: "bears c k" "(unat k, key) \<in> set (allkeyed (unat (ar_root c)) F)" using w(3) by (simp_all add: bears_def)
    have "(unat k, K k) \<in> set (allkeyed (unat (ar_root c)) F)" using kb b(1) by (simp add: keyedBy_def)
    then have "K k = key" using b(2) by (rule forest_key_unique [OF f])
    then show ?thesis using b(1) True by (simp add: answers_def)
  next
    case False
    have "K j \<noteq> key" if "bears c j" for j using that kb False w(2) by (auto simp: keyedBy_def bears_def)
    then show ?thesis using False w(4) by (simp add: answers_def)
  qed
  then show ?thesis using that w(1) by blast
qed


definition kept :: "('v :: zero) arenaRadix \<Rightarrow> 'v arenaRadix \<Rightarrow> forest \<Rightarrow> (u32 \<Rightarrow> string) \<Rightarrow> bool" where
  \<comment> \<open>the cache is as before, but for the index, which knows the same nodes or more\<close>
  "kept c c' F K \<longleftrightarrow> indexInv c' K \<and> keyedBy c' F K \<and> retagged c c' \<and> indexed c \<subseteq># indexed c'"

lemma kept_refl: "indexInv c K \<Longrightarrow> keyedBy c F K \<Longrightarrow> kept c c F K"
  by (simp add: kept_def)

lemma index_ps:
  fixes c :: "('v :: zero) arenaRadix"
  fixes p defines "c1 \<equiv> c\<lparr>ar_ps := p\<rparr>"
  assumes inv: "indexInv c K"
  shows "indexInv c1 K" "indexed c1 = indexed c" "retagged c c1"
proof -
  note I = indexInvD [OF inv]
  show r: "retagged c c1" by (simp add: c1_def retagged_def list_all2_same)
  have b: "bears c1 k = bears c k" for k by (rule retagged_bears [OF r])
  have s: "ar_hashSlots c1 = ar_hashSlots c" "ar_nodes c1 = ar_nodes c" by (simp_all add: c1_def)
  have h: "hashesIn c1 K = hashesIn c K" by (simp add: hashesIn_def s retagged_hash [OF r])
  have "peersOk c1 K \<and> peerMap c1 = peerMap c" by (rule peers_same [OF I(5)]) (simp_all add: h b, simp_all add: c1_def)
  then have p: "peersOk c1 K" "peerMap c1 = peerMap c" by simp_all
  show i: "indexed c1 = indexed c" by (simp add: indexed_def p(2) s)
  have "slotTable c1" using I(1) by (simp add: slotTable_def c1_def)
  moreover have "honest c1 K" using I(3) by (simp add: honest_def s b retagged_hash [OF r])
  ultimately show "indexInv c1 K" by (rule indexInvI [OF inv r]) (use I(4,6) p in \<open>simp_all add: h i\<close>)
qed

lemma fallback_spec:
  fixes c :: "('v :: zero) arenaRadix"
  assumes inv: "indexInv c K" and kb: "keyedBy c F K" and few: "ar_hashCount c + 1 < 2 ^ 30" and h: "h = ar_hash c key"
  obtains k ok c' where "walkNodeKeyFallback key h heal c = Inr (k, ok, c')" "answers c K key k ok" "kept c c' F K"
    "heal \<and> ok \<Longrightarrow> k \<in># indexed c'"
proof -
  define c1 where "c1 = c\<lparr>ar_ps := (ar_ps c)\<lparr>arenaHashFallbacks := arenaHashFallbacks (ar_ps c) + 1\<rparr>\<rparr>"
  have c1: "indexInv c1 K" "indexed c1 = indexed c" "retagged c c1" unfolding c1_def by (rule index_ps [OF inv])+
  have kb1: "keyedBy c1 F K" by (rule retagged_keyedBy [OF c1(3) kb])
  have few1: "ar_hashCount c1 + 1 < 2 ^ 30" using few by (simp add: c1_def)
  obtain k ok where w: "findNodeByTrieWalk c1 key = Inr (k, ok)" "answers c1 K key k ok" by (rule walk_answers [OF kb1])
  have a: "answers c K key k ok" using w(2) by (cases ok) (simp_all add: answers_def retagged_bears [OF c1(3)])
  have run: "walkNodeKeyFallback key h heal c = bindr (if heal \<and> ok then promoteCollisionPeerLocked h k c1 else Inr c1) (\<lambda>c2. Inr (k, ok, c2))"
    unfolding walkNodeKeyFallback_def Let_def c1_def [symmetric] w(1) by simp
  show ?thesis
  proof (cases "heal \<and> ok")
    case False
    have "walkNodeKeyFallback key h heal c = Inr (k, ok, c1)" unfolding run if_not_P [OF False] by simp
    then show ?thesis by (rule that [OF _ a]) (use c1 kb1 False in \<open>auto simp: kept_def\<close>)
  next
    case True
    then have b: "bears c1 k" "ar_hash c1 (K k) = h" using w(2) h by (simp_all add: answers_def c1_def)
    obtain c2 where c2: "promoteCollisionPeerLocked h k c1 = Inr c2" "indexInv c2 K" "retagged c1 c2"
      "indexed c2 = (if k \<in># indexed c1 then indexed c1 else add_mset k (indexed c1))" by (rule promote_spec [OF c1(1) few1 b])
    have "walkNodeKeyFallback key h heal c = Inr (k, ok, c2)" unfolding run if_P [OF True] by (simp add: c2(1))
    moreover have "kept c c2 F K"
      using c2(2) retagged_keyedBy [OF c2(3) kb1] retagged_trans [OF c1(3) c2(3)] c2(4) c1(2) by (auto simp: kept_def)
    moreover have "k \<in># indexed c2" by (simp add: c2(4))
    ultimately show ?thesis using that a by blast
  qed
qed

lemma lookup_cases:
  assumes inv: "indexInv c K" and len: "lenOk c" and h: "h = ar_hash c key"
  obtains (hit) k i where "lookupHashSlotAt key h c = Inr (k, i, True, True)" "answers c K key k True"
    | (miss) "lookupHashSlotAt key h c = Inr (nilNode, 0, False, False)" "ar_hashCount c + ar_collisionCount c = ar_len c" "answers c K key nilNode False"
    | (walk) m where "lookupHashSlotAt key h c = Inr (nilNode, 0, m, False)" "\<not> (\<not> m \<and> ar_hashCount c + ar_collisionCount c = ar_len c)"
proof -
  obtain k i m v where p: "lookupHashSlotAt key h c = Inr (k, i, m, v)" "v \<longrightarrow> answers c K key k True"
    "\<not> v \<longrightarrow> \<not> m \<and> ar_hashCount c + ar_collisionCount c = ar_len c \<longrightarrow> answers c K key nilNode False"
    by (rule probe_answers [OF inv len h])
  from lookupHashSlotAt_spec [OF inv h] p(1) consider "v" "m" | "\<not> v" "k = nilNode" "i = 0" by auto
  then show ?thesis
  proof cases
    case 1
    then show ?thesis using hit p(1,2) by simp
  next
    case 2
    then show ?thesis using miss walk p by (cases "\<not> m \<and> ar_hashCount c + ar_collisionCount c = ar_len c") simp_all
  qed
qed

lemma lookupNodeKey_spec:
  fixes c :: "('v :: zero) arenaRadix"
  assumes inv: "indexInv c K" and kb: "keyedBy c F K" and len: "lenOk c" and few: "ar_hashCount c + 1 < 2 ^ 30"
    and h: "h = ar_hash c key"
  shows "\<exists>k ok c'. lookupNodeKeyWithHash key h c = Inr (k, ok, c') \<and> answers c K key k ok \<and> kept c c' F K"
    "\<exists>k ok c'. getNodeKeyWithHash key h c = Inr (k, ok, c') \<and> answers c K key k ok \<and> kept c c' F K"
    "\<exists>k w ok c'. lookupOrWalkNodeKey key h c = Inr (k, w, ok, c') \<and> answers c K key k ok \<and> kept c c' F K"
    "\<exists>k ok m c'. getNodeKeyForPut key h c = Inr (k, ok, m, c') \<and> answers c K key k ok \<and> kept c c' F K \<and> (m \<longrightarrow> \<not> ok)"
proof -
  note refl = kept_refl [OF inv kb]
  obtain k1 ok1 c1 where w1: "walkNodeKeyFallback key h False c = Inr (k1, ok1, c1)" "answers c K key k1 ok1" "kept c c1 F K"
    by (rule fallback_spec [OF inv kb few h, of False])
  obtain k2 ok2 c2 where w2: "walkNodeKeyFallback key h True c = Inr (k2, ok2, c2)" "answers c K key k2 ok2" "kept c c2 F K"
    by (rule fallback_spec [OF inv kb few h, of True])
  note d = lookupNodeKeyWithHash_def getNodeKeyWithHash_def lookupOrWalkNodeKey_def getNodeKeyForPut_def
  have "(\<exists>k ok c'. lookupNodeKeyWithHash key h c = Inr (k, ok, c') \<and> answers c K key k ok \<and> kept c c' F K)
    \<and> (\<exists>k ok c'. getNodeKeyWithHash key h c = Inr (k, ok, c') \<and> answers c K key k ok \<and> kept c c' F K)
    \<and> (\<exists>k w ok c'. lookupOrWalkNodeKey key h c = Inr (k, w, ok, c') \<and> answers c K key k ok \<and> kept c c' F K)
    \<and> (\<exists>k ok m c'. getNodeKeyForPut key h c = Inr (k, ok, m, c') \<and> answers c K key k ok \<and> kept c c' F K \<and> (m \<longrightarrow> \<not> ok))"
    using inv len h
  proof (cases rule: lookup_cases)
    case (hit k i)
    have "lookupNodeKeyWithHash key h c = Inr (k, True, c)" "getNodeKeyWithHash key h c = Inr (k, True, c)"
      "lookupOrWalkNodeKey key h c = Inr (k, False, True, c)" "getNodeKeyForPut key h c = Inr (k, True, False, c)"
      by (simp_all add: d hit(1))
    then show ?thesis using refl hit(2) by blast
  next
    case miss
    have "lookupNodeKeyWithHash key h c = Inr (nilNode, False, c)" "getNodeKeyWithHash key h c = Inr (nilNode, False, c)"
      "lookupOrWalkNodeKey key h c = Inr (nilNode, False, False, c)" "getNodeKeyForPut key h c = Inr (nilNode, False, True, c)"
      by (simp_all add: d miss(1,2))
    then show ?thesis using refl miss(3) by blast
  next
    case (walk m)
    have "lookupNodeKeyWithHash key h c = Inr (k1, ok1, c1)" "getNodeKeyWithHash key h c = Inr (k2, ok2, c2)"
      "lookupOrWalkNodeKey key h c = Inr (k1, True, ok1, c1)" "getNodeKeyForPut key h c = Inr (k2, ok2, False, c2)"
      unfolding d walk(1) bindr_simps prod.case if_not_P [OF walk(2)] w1(1) w2(1) by simp_all
    then show ?thesis using w1(2,3) w2(2,3) by blast
  qed
  then show "\<exists>k ok c'. lookupNodeKeyWithHash key h c = Inr (k, ok, c') \<and> answers c K key k ok \<and> kept c c' F K"
    "\<exists>k ok c'. getNodeKeyWithHash key h c = Inr (k, ok, c') \<and> answers c K key k ok \<and> kept c c' F K"
    "\<exists>k w ok c'. lookupOrWalkNodeKey key h c = Inr (k, w, ok, c') \<and> answers c K key k ok \<and> kept c c' F K"
    "\<exists>k ok m c'. getNodeKeyForPut key h c = Inr (k, ok, m, c') \<and> answers c K key k ok \<and> kept c c' F K \<and> (m \<longrightarrow> \<not> ok)" by blast+
qed


subsection \<open>Leaving the index\<close>

lemma unat_mask_u32: "b \<le> 32 \<Longrightarrow> unat (mask b :: u32) = mask b"
proof -
  assume b: "b \<le> 32"
  have "unat (mask b :: u32) = unat (take_bit b (- 1 :: u32))" by (simp only: take_bit_minus_one_eq_mask)
  also have "\<dots> = take_bit b (mask 32)" by (simp only: unsigned_take_bit_eq unsigned_minus_1_eq_mask) simp
  also have "\<dots> = mask b" using b by (simp add: take_bit_of_mask min_def)
  finally show ?thesis .
qed

lemma mask_small:
  assumes "tableOk S m" "m \<le> hashTag21Mask"
  shows "(x AND hashTag21Mask) AND m = x AND m"
proof -
  obtain b where b: "b \<le> 31" "m = mask b" using assms(1) by (auto simp: tableOk_def)
  have h: "hashTag21Mask = mask 21" by (simp add: arena_masks mask_numeral)
  have "unat (mask b :: u32) \<le> unat (mask 21 :: u32)" using assms(2) unfolding b(2) h word_le_nat_alt .
  then have "(mask b :: nat) \<le> mask 21" using b(1) unat_mask_u32 [of b] unat_mask_u32 [of 21] by linarith
  then have "(2 :: nat) ^ b - 1 \<le> 2 ^ 21 - 1" by (simp only: mask_eq_exp_minus_1)
  moreover have "(1 :: nat) \<le> 2 ^ b" by simp
  ultimately have "(2 :: nat) ^ b \<le> 2 ^ 21" by simp
  then have "b \<le> 21" by (rule power_le_imp_le_exp [rotated]) simp
  then have "mask 21 AND mask b = (mask b :: u32)" by (intro bit_eqI) (auto simp: bit_and_iff bit_mask_iff)
  then show ?thesis unfolding b(2) h by (simp add: and.assoc)
qed

lemma fast_step:
  assumes "unat i < length (ar_hashSlots c)" "occ (ar_hashSlots c) (unat i)"
    "\<not> (hs_nodeID (ar_hashSlots c ! unat i) = k \<and> hs_tag (ar_hashSlots c ! unat i) AND hashTag21Mask = t)"
  shows "fastSlotLoop c k t i = fastSlotLoop c k t ((i + 1) AND ar_hashMask c)"
  by (subst fastSlotLoop.simps) (simp only: slotAt_ok(1) [OF assms(1)] sum.case if_not_P [OF assms(2)] if_not_P [OF assms(3)] simp_thms if_False)

lemma fastDelete_spec:
  assumes inv: "indexInv c K" and k: "bears c k" and small: "ar_hashMask c \<le> hashTag21Mask" and none: "ar_collisionCount c = 0"
  obtains c' b where "deleteNodeFromHashSlotsFastLocked k c = Inr (c', b)" "indexInv c' K" "retagged c c'"
    "indexed c = (if b then add_mset k (indexed c') else indexed c')" "\<not> b \<Longrightarrow> c' = c"
proof -
  note I = indexInvD [OF inv]
  note T = slotTableD [OF I(1)]
  let ?S = "ar_hashSlots c" and ?n = "ar_nodes c ! unat k"
  let ?t = "an_hashTag21 ?n"
  have kn: "nodeAt c k = Inr ?n" using k by (simp add: nodeAt_def bears_def)
  show ?thesis
  proof (cases "?t = 0")
    case True
    then have "deleteNodeFromHashSlotsFastLocked k c = Inr (c, False)"
      using slots_nonempty [OF inv] by (simp add: deleteNodeFromHashSlotsFastLocked_def kn)
    then show ?thesis by (rule that) (use inv in simp_all)
  next
    case False
    define P where "P j \<longleftrightarrow> occ ?S j \<and> hs_nodeID (?S ! j) = k \<and> hs_tag (?S ! j) AND hashTag21Mask = ?t" for j
    let ?L = "fastSlotLoop c k ?t"
    have home: "homeOf ?S j = unat (?t AND ar_hashMask c)" if "P j" for j
    proof -
      have "hs_tag (?S ! j) AND ar_hashMask c = ?t AND ar_hashMask c"
        using that mask_small [OF T(1) small, of "hs_tag (?S ! j)"] by (simp add: P_def)
      then show ?thesis using table_home [OF T(1), of "hs_tag (?S ! j)"] by simp
    qed
    have hits: "\<forall>j < length ?S. P j \<longrightarrow> occ ?S j \<and> homeOf ?S j = unat (?t AND ar_hashMask c)" using home by (simp add: P_def)
    have step: "\<forall>i. unat i < length ?S \<longrightarrow> occ ?S (unat i) \<longrightarrow> \<not> P (unat i) \<longrightarrow> ?L i = ?L ((i + 1) AND ar_hashMask c)"
      by (intro allI impI) (rule fast_step, simp_all add: P_def)
    obtain z where z: "unat z < length ?S" "?L (?t AND ar_hashMask c) = ?L z" "if \<exists>j < length ?S. P j then P (unat z)
        else \<not> occ ?S (unat z) \<and> freeSlotLoop ?S (ar_hashMask c) (?t AND ar_hashMask c) = Some (Inr z)"
      using probe_home [OF T(1,3,2) hits step] by (elim exE conjE) (rule that)
    have run: "deleteNodeFromHashSlotsFastLocked k c = bindr (of_loop (?L z)) (\<lambda>found. case found of None \<Rightarrow> Inr (c, False)
        | Some i \<Rightarrow> bindr (backshiftDeleteSlot i c) (\<lambda>c1. Inr (c1, True)))"
      unfolding deleteNodeFromHashSlotsFastLocked_def if_not_P [OF slots_nonempty [OF inv]] kn bindr_simps Let_def if_not_P [OF False] z(2) ..
    show ?thesis
    proof (cases "\<exists>j < length ?S. P j")
      case False
      then have "\<not> occ ?S (unat z)" using z(3) unfolding if_not_P [OF False] by blast
      then have "?L z = Some (Inr None)" using z(1) by (subst fastSlotLoop.simps) simp
      then have "deleteNodeFromHashSlotsFastLocked k c = Inr (c, False)" by (simp add: run)
      then show ?thesis by (rule that) (use inv in simp_all)
    next
      case True
      then have p: "occ ?S (unat z)" "hs_nodeID (?S ! unat z) = k" "hs_tag (?S ! unat z) AND hashTag21Mask = ?t" using z(3) by (simp_all add: P_def)
      have "?L z = Some (Inr (Some z))" using z(1) p by (subst fastSlotLoop.simps) simp
      then have r: "deleteNodeFromHashSlotsFastLocked k c = bindr (backshiftDeleteSlot z c) (\<lambda>c1. Inr (c1, True))" by (simp add: run)
      let ?h = "slotHash c K (?S ! unat z)"
      have f: "slotFor c K ?h (unat z)" using p(1) by (simp add: slotFor_def)
      have "pmset (peerMap c) = {#}" using none I(5) by (simp add: peersOk_def)
      then have np: "peersOf c ?h = []" using peersOf_mem(4) [OF I(5), of _ ?h] by (cases "peersOf c ?h") auto
      obtain c' where c': "backshiftDeleteSlot z c = Inr c'" "indexInv c' K" "retagged c c'"
        "indexed c = add_mset (hs_nodeID (?S ! unat z)) (indexed c')"
        by (rule backshift_index [OF inv z(1) f np])
      have "deleteNodeFromHashSlotsFastLocked k c = Inr (c', True)" by (simp add: r c'(1))
      then show ?thesis by (rule that) (use c'(2-4) p(2) in simp_all)
    qed
  qed
qed

end
