(* ===== verification/ArenaHeal.thy ===== *)
theory ArenaHeal
  imports ArenaLookup
begin

text \<open>
  Rebuilding the index from the nodes. \<open>rebuildHashSlotsLocked\<close> reads every node once, and whatever state the old
  table and the old peers were in, the new index knows exactly the nodes that bear a value (\<open>rebuild_spec\<close>).
  \<open>compactHashSlotsLocked\<close> rebuilds only if the counts show that nodes are missing or peers exist.
\<close>

unbundle bit_operations_syntax

subsection \<open>The code\<close>

definition peersIn :: "(u64 \<times> u32 list) list option \<Rightarrow> u64 \<Rightarrow> u32 list" where
  \<comment> \<open>\<open>newCollisionPeers[h]\<close>\<close>
  "peersIn peers h = (case peers of None \<Rightarrow> [] | Some m \<Rightarrow> (case map_of m h of None \<Rightarrow> [] | Some ps \<Rightarrow> ps))"

fun rebuildSlotsLoop :: "u32 list \<Rightarrow> (u64 \<times> u32 list) list option \<Rightarrow> int \<Rightarrow> 'v arenaRadix
    \<Rightarrow> ((u64 \<times> u32 list) list option \<times> int \<times> 'v arenaRadix) res" where
  "rebuildSlotsLoop [] peers collisions c = Inr (peers, collisions, c)"
| "rebuildSlotsLoop (k # ks) peers collisions c = bindr (nodeAt c k) (\<lambda>n.
     if \<not> an_hasValue n then rebuildSlotsLoop ks peers collisions c
     else bindr (hashNodeKey k c) (\<lambda>h. let tag = arenaHashTag h in
       bindr (updNode k (an_setHashTag21 tag) c) (\<lambda>c1.
       bindr (findHashSlotIndex h c1) (\<lambda>(i, exists).
       if exists
       then bindr (slotAt (ar_hashSlots c1) i) (\<lambda>slot.
         bindr (putSlot i (slot\<lparr>hs_nodeID := k\<rparr>) (ar_hashSlots c1)) (\<lambda>slots.
         rebuildSlotsLoop ks (Some (AList.update h (peersIn peers h @ [hs_nodeID slot]) (case peers of None \<Rightarrow> [] | Some m \<Rightarrow> m)))
           (collisions + 1) (c1\<lparr>ar_hashSlots := slots\<rparr>)))
       else bindr (putSlot i \<lparr>hs_tag = tag, hs_nodeID = k\<rparr> (ar_hashSlots c1)) (\<lambda>slots.
         rebuildSlotsLoop ks peers collisions (c1\<lparr>ar_hashSlots := slots, ar_hashCount := ar_hashCount c1 + 1\<rparr>))))))"

definition rebuildHashSlotsLocked :: "'v arenaRadix \<Rightarrow> 'v arenaRadix res" where
  "rebuildHashSlotsLocked c0 = (let
     newCap = hashSlotsCapFor (ar_len c0);
     c = c0\<lparr>ar_hashSlots := replicate (nat newCap) zeroSlot, ar_hashMask := word_of_int (newCap - 1), ar_hashCount := 0\<rparr>
     in bindr (rebuildSlotsLoop (map of_nat [0..<length (ar_nodes c)]) None 0 c) (\<lambda>(peers, collisions, c1).
        Inr (c1\<lparr>ar_collisionPeers := peers, ar_collisionCount := collisions, ar_nodeMapDirty := False\<rparr>)))"

subsection \<open>One node\<close>

abbreviation withPeers :: "(u64 \<times> u32 list) list option \<Rightarrow> int \<Rightarrow> 'v arenaRadix \<Rightarrow> 'v arenaRadix" where
  "withPeers peers n c \<equiv> c\<lparr>ar_collisionPeers := peers, ar_collisionCount := n\<rparr>"

lemma peersIn_of: "peersOf (withPeers peers n c) h = peersIn peers h"
  by (simp add: peersOf_def peersIn_def)

lemma withPeers_back: "retagged (withPeers peers n c) c"
proof -
  have "retagged (withPeers peers n c) (withPeers (ar_collisionPeers c) (ar_collisionCount c) (withPeers peers n c))" by (rule retagged_peers)
  then show ?thesis by simp
qed

lemma slotsInv_peers: "slotsInv (withPeers peers n c) K \<Longrightarrow> slotsInv c K"
  using retagged_named [OF withPeers_back] by (auto simp: slotsInv_def peers_upd_same)

lemma slotsInv_tag:
  assumes inv: "slotsInv c K" and k: "bears c k" "h = ar_hash c (K k)"
  defines "c1 \<equiv> c\<lparr>ar_nodes := (ar_nodes c)[unat k := an_setHashTag21 (arenaHashTag h) (ar_nodes c ! unat k)]\<rparr>"
  shows "updNode k (an_setHashTag21 (arenaHashTag h)) c = Inr c1" "slotsInv c1 K" "hashesIn c1 K = hashesIn c K"
    "ar_hashSlots c1 = ar_hashSlots c" "ar_hashMask c1 = ar_hashMask c" "ar_hashCount c1 = ar_hashCount c" "slotFor c1 K g z = slotFor c K g z"
proof -
  note I = slotsInvD [OF inv]
  show "updNode k (an_setHashTag21 (arenaHashTag h)) c = Inr c1" using k(1) by (simp add: updNode_def nodeAt_def bears_def c1_def)
  have r: "retagged c c1" unfolding retagged_def by (simp add: c1_def tagged_nodes)
  show h: "hashesIn c1 K = hashesIn c K" unfolding hashesIn_def retagged_hash [OF r] by (simp add: c1_def)
  show "slotFor c1 K g z = slotFor c K g z" unfolding slotFor_def retagged_hash [OF r] by (simp add: c1_def)
  have "honest c1 K"
    by (rule honest_set [OF I(3) k(1)]) (use retagged_bears [OF r] k(2) in \<open>simp_all add: c1_def\<close>)
  moreover have "slotTable c1" using I(1) by (simp add: c1_def)
  ultimately show "slotsInv c1 K" using retagged_named [OF r I(2)] I(4) by (simp add: slotsInv_def h)
  show "ar_hashSlots c1 = ar_hashSlots c" "ar_hashMask c1 = ar_hashMask c" "ar_hashCount c1 = ar_hashCount c" by (simp_all add: c1_def)
qed

lemma heal_rival:
  fixes z :: u32
  assumes inv: "indexInv (withPeers peers n c) K" and k: "bears c k" "h = ar_hash c (K k)" and new: "k \<notin># indexed (withPeers peers n c)"
    and z: "unat z < length (ar_hashSlots c)" "slotFor c K h (unat z)"
  defines "c' \<equiv> c\<lparr>ar_hashSlots := (ar_hashSlots c)[unat z := (ar_hashSlots c ! unat z)\<lparr>hs_nodeID := k\<rparr>],
      ar_nodes := (ar_nodes c)[unat k := an_setHashTag21 (arenaHashTag h) (ar_nodes c ! unat k)]\<rparr>"
    and "peers' \<equiv> Some (AList.update h (peersIn peers h @ [hs_nodeID (ar_hashSlots c ! unat z)]) (case peers of None \<Rightarrow> [] | Some m \<Rightarrow> m))"
  shows "indexInv (withPeers peers' (n + 1) c') K" "indexed (withPeers peers' (n + 1) c') = add_mset k (indexed (withPeers peers n c))"
proof -
  let ?w = "withPeers peers n c"
  have zw: "unat z < length (ar_hashSlots ?w)" "slotFor ?w K h (unat z)" using z by (simp_all add: slotFor_def slotHash_def)
  have kw: "bears ?w k" "ar_hash ?w (K k) = h" using k by (simp_all add: peers_upd_same)
  have np: "k \<notin> set (peersOf ?w h)" using peersOf_mem(4) [OF indexInvD(5) [OF inv]] new by (auto simp: indexed_def)
  have j: "hs_nodeID (ar_hashSlots ?w ! unat z) \<noteq> k" using new unfolding indexed_split [OF zw] by auto
  obtain d where d: "promoteNodeIntoHashSlotAtLocked z (arenaHashTag h) h k ?w = Inr d" "indexInv d K"
    "indexed d = add_mset k (indexed ?w)"
    by (rule rival_promote [OF inv zw kw j]) (use new that in simp)
  have s: "(ar_hashSlots c ! unat z)\<lparr>hs_nodeID := k\<rparr> = \<lparr>hs_tag = arenaHashTag h, hs_nodeID = k\<rparr>"
    using slotFor_home(1) [OF inv zw] by simp
  define w2 where "w2 = (withPeers peers' (n + 1) c)\<lparr>ar_hashSlots := (ar_hashSlots c)[unat z := \<lparr>hs_tag = arenaHashTag h, hs_nodeID = k\<rparr>]\<rparr>"
  have r2: "retagged ?w w2" by (simp add: w2_def retagged_def list_all2_same)
  have t: "setSlotTag k (arenaHashTag h) w2 = Inr (withPeers peers' (n + 1) c')"
    using setSlotTag_spec [OF retagged_named [OF r2 indexInvD(2) [OF inv]], of k] kw(1) retagged_bears [OF r2]
    by (simp add: w2_def c'_def s)
  have "promoteNodeIntoHashSlotAtLocked z (arenaHashTag h) h k ?w = Inr (withPeers peers' (n + 1) c')"
    unfolding promoteNodeIntoHashSlotAtLocked_def slotAt_ok(1) [OF zw(1)] bindr_simps Let_def slot_node(3) [OF inv zw] peerIndex_None [OF np] option.case if_True
    using z(1) t by (simp add: peersIn_of w2_def peers'_def)
  then have "d = withPeers peers' (n + 1) c'" using d(1) by simp
  then show "indexInv (withPeers peers' (n + 1) c') K" "indexed (withPeers peers' (n + 1) c') = add_mset k (indexed ?w)" using d(2,3) by simp_all
qed


lemma heal_new:
  fixes z :: u32
  assumes inv: "indexInv (withPeers peers n c) K" and k: "bears c k" "h = ar_hash c (K k)" and new: "h \<notin># hashesIn c K"
    and room: "loadOk c" "ar_hashCount c + 1 < 2 ^ 30"
    and z: "unat z < length (ar_hashSlots c)" "freeSlotLoop (ar_hashSlots c) (ar_hashMask c) (arenaHashTag h AND ar_hashMask c) = Some (Inr z)"
  defines "c' \<equiv> c\<lparr>ar_hashSlots := (ar_hashSlots c)[unat z := \<lparr>hs_tag = arenaHashTag h, hs_nodeID = k\<rparr>],
      ar_nodes := (ar_nodes c)[unat k := an_setHashTag21 (arenaHashTag h) (ar_nodes c ! unat k)], ar_hashCount := ar_hashCount c + 1\<rparr>"
  shows "indexInv (withPeers peers n c') K" "indexed (withPeers peers n c') = add_mset k (indexed (withPeers peers n c))"
proof -
  let ?w = "withPeers peers n c"
  have few: "ar_hashCount ?w + 1 < 2 ^ 30" using room(2) by simp
  have kw: "bears ?w k" "h = ar_hash ?w (K k)" using k by (simp_all add: peers_upd_same)
  have nw: "h \<notin># hashesIn ?w K" using new by (simp add: peers_upd_same)
  obtain d where d: "nodeMapSet h k ?w = Inr d" "indexInv d K" "indexed d = add_mset k (indexed ?w)"
    by (rule nodeMapSet_new [OF inv few kw nw])
  obtain y where y: "unat y < length (ar_hashSlots ?w)" "findHashSlotIndex h ?w = Inr (y, False)"
    "freeSlotLoop (ar_hashSlots ?w) (ar_hashMask ?w) (arenaHashTag h AND ar_hashMask ?w) = Some (Inr y)"
    by (rule findHashSlotIndex_spec [OF inv, of h]) (use nw in simp)
  have yz: "y = z" using y(3) z(2) by simp
  have g: "growSlots ?w = Inr ?w" using room(1) by (simp add: growSlots_def loadOk_def)
  define w2 where "w2 = ?w\<lparr>ar_hashSlots := (ar_hashSlots c)[unat z := \<lparr>hs_tag = arenaHashTag h, hs_nodeID = k\<rparr>]\<rparr>"
  have r2: "retagged ?w w2" by (simp add: w2_def retagged_def list_all2_same)
  have t: "setSlotTag k (arenaHashTag h) w2 = Inr (w2\<lparr>ar_nodes := (ar_nodes w2)[unat k := an_setHashTag21 (arenaHashTag h) (ar_nodes w2 ! unat k)]\<rparr>)"
    by (rule setSlotTag_spec [OF retagged_named [OF r2 indexInvD(2) [OF inv]]]) (use kw(1) retagged_bears [OF r2] in simp)
  have "nodeMapSet h k ?w = Inr (withPeers peers n c')"
    unfolding nodeMapSet_def g bindr_simps y(2) prod.case Let_def yz slotAt_ok(2) [OF y(1) [unfolded yz]]
    using t by (simp add: w2_def c'_def)
  then have "d = withPeers peers n c'" using d(1) by simp
  then show "indexInv (withPeers peers n c') K" "indexed (withPeers peers n c') = add_mset k (indexed ?w)" using d(2,3) by simp_all
qed


lemma heal_step:
  assumes inv: "indexInv (withPeers peers n c) K" and k: "bears c k" and new: "k \<notin># indexed (withPeers peers n c)"
    and room: "(int (size (indexed (withPeers peers n c))) + 1) * 5 \<le> int (length (ar_hashSlots c)) * 4"
    and few: "int (size (indexed (withPeers peers n c))) + 1 < 2 ^ 30"
  obtains peers' n' c' where "rebuildSlotsLoop (k # ks) peers n c = rebuildSlotsLoop ks peers' n' c'" "indexInv (withPeers peers' n' c') K"
    "indexed (withPeers peers' n' c') = add_mset k (indexed (withPeers peers n c))" "retagged c c'"
    "length (ar_hashSlots c') = length (ar_hashSlots c)"
proof -
  define h where "h = ar_hash c (K k)"
  define t where "t = arenaHashTag h"
  let ?n1 = "(ar_nodes c)[unat k := an_setHashTag21 t (ar_nodes c ! unat k)]"
  define c1 where "c1 = c\<lparr>ar_nodes := ?n1\<rparr>"
  have si: "slotsInv c K" by (rule slotsInv_peers [OF indexInv_slots [OF inv]])
  note T = slotsInv_tag [OF si k h_def, folded t_def, folded c1_def]
  have nk: "nodeAt c k = Inr (ar_nodes c ! unat k)" "an_hasValue (ar_nodes c ! unat k)" using k by (simp_all add: nodeAt_def bears_def)
  have hk: "hashNodeKey k c = Inr h" using named_key(1) [OF slotsInvD(2) [OF si] k] by (simp add: h_def)
  have cnt: "ar_hashCount c \<le> int (size (indexed (withPeers peers n c)))"
    using slotsInvD(1) [OF si] by (simp add: slotTable_def indexed_def)
  have room': "loadOk c" "ar_hashCount c + 1 < 2 ^ 30" using cnt room few by (simp_all add: loadOk_def)
  obtain z where z: "unat z < length (ar_hashSlots c1)" "findHashSlotIndex h c1 = Inr (z, h \<in># hashesIn c1 K)"
    "h \<in># hashesIn c1 K \<Longrightarrow> slotFor c1 K h (unat z)"
    "h \<notin># hashesIn c1 K \<Longrightarrow> freeSlotLoop (ar_hashSlots c1) (ar_hashMask c1) (arenaHashTag h AND ar_hashMask c1) = Some (Inr z)"
    by (rule findHashSlotIndex_spec_s [OF T(2), of h]) blast
  note z' = z [unfolded T(3-7)]
  show ?thesis
  proof (cases "h \<in># hashesIn c K")
    case True
    define p' where "p' = Some (AList.update h (peersIn peers h @ [hs_nodeID (ar_hashSlots c ! unat z)]) (case peers of None \<Rightarrow> [] | Some m \<Rightarrow> m))"
    define c' where "c' = c1\<lparr>ar_hashSlots := (ar_hashSlots c)[unat z := (ar_hashSlots c ! unat z)\<lparr>hs_nodeID := k\<rparr>]\<rparr>"
    have c': "c' = c\<lparr>ar_hashSlots := (ar_hashSlots c)[unat z := (ar_hashSlots c ! unat z)\<lparr>hs_nodeID := k\<rparr>], ar_nodes := ?n1\<rparr>"
      by (simp add: c'_def c1_def)
    note H = heal_rival [OF inv k h_def new z'(1) z'(3) [OF True], folded t_def, folded c', folded p'_def]
    have "rebuildSlotsLoop (k # ks) peers n c = rebuildSlotsLoop ks p' (n + 1) c'"
      using True z'(1) by (simp add: nk hk Let_def t_def [symmetric] T(1,4) z'(2) p'_def c'_def)
    moreover have "retagged c c'" unfolding retagged_def by (simp add: c' tagged_nodes)
    ultimately show ?thesis by (rule that [OF _ H]) (simp add: c'_def)
  next
    case False
    define c' where "c' = c1\<lparr>ar_hashSlots := (ar_hashSlots c)[unat z := \<lparr>hs_tag = t, hs_nodeID = k\<rparr>], ar_hashCount := ar_hashCount c + 1\<rparr>"
    have c': "c' = c\<lparr>ar_hashSlots := (ar_hashSlots c)[unat z := \<lparr>hs_tag = t, hs_nodeID = k\<rparr>], ar_nodes := ?n1, ar_hashCount := ar_hashCount c + 1\<rparr>"
      by (simp add: c'_def c1_def)
    note H = heal_new [OF inv k h_def False room' z'(1) z'(4) [OF False], folded t_def, folded c']
    have "rebuildSlotsLoop (k # ks) peers n c = rebuildSlotsLoop ks peers n c'"
      using False z'(1) by (simp add: nk hk Let_def t_def [symmetric] T(1,4,6) z'(2) c'_def)
    moreover have "retagged c c'" unfolding retagged_def by (simp add: c' tagged_nodes)
    ultimately show ?thesis by (rule that [OF _ H]) (simp add: c'_def)
  qed
qed

lemma heal_loop:
  assumes "indexInv (withPeers peers n c) K" and "distinct ks" and "\<forall>k \<in> set ks. unat k < length (ar_nodes c) \<and> k \<notin># indexed (withPeers peers n c)"
    and "(int (size (indexed (withPeers peers n c))) + int (length (filter (bears c) ks))) * 5 \<le> int (length (ar_hashSlots c)) * 4"
    and "int (size (indexed (withPeers peers n c))) + int (length (filter (bears c) ks)) < 2 ^ 30"
  shows "\<exists>peers' n' c'. rebuildSlotsLoop ks peers n c = Inr (peers', n', c') \<and> indexInv (withPeers peers' n' c') K \<and> retagged c c'
    \<and> indexed (withPeers peers' n' c') = indexed (withPeers peers n c) + mset (filter (bears c) ks)"
  using assms
proof (induction ks arbitrary: peers n c)
  case (Cons k ks)
  have u: "unat k < length (ar_nodes c)" using Cons.prems(3) by simp
  show ?case
  proof (cases "bears c k")
    case False
    then have "rebuildSlotsLoop (k # ks) peers n c = rebuildSlotsLoop ks peers n c" using u by (simp add: nodeAt_def bears_def)
    then show ?thesis using Cons.IH [OF Cons.prems(1)] Cons.prems(2-5) False by simp
  next
    case True
    obtain peers' n' c' where s: "rebuildSlotsLoop (k # ks) peers n c = rebuildSlotsLoop ks peers' n' c'" "indexInv (withPeers peers' n' c') K"
      "indexed (withPeers peers' n' c') = add_mset k (indexed (withPeers peers n c))" "retagged c c'" "length (ar_hashSlots c') = length (ar_hashSlots c)"
      by (rule heal_step [OF Cons.prems(1) True, of ks]) (use Cons.prems(3-5) True in simp_all)
    have b: "bears c' = bears c" by (rule ext) (rule retagged_bears [OF s(4)])
    obtain peers'' n'' c'' where l: "rebuildSlotsLoop ks peers' n' c' = Inr (peers'', n'', c'')" "indexInv (withPeers peers'' n'' c'') K" "retagged c' c''"
      "indexed (withPeers peers'' n'' c'') = indexed (withPeers peers' n' c') + mset (filter (bears c') ks)"
      using Cons.IH [OF s(2)] Cons.prems(2-5) True retagged_length [OF s(4)] by (auto simp: s(3,5) b)
    show ?thesis unfolding s(1)
      using l(1,2,4) retagged_trans [OF s(4) l(3)] True by (intro exI [of _ peers''] exI [of _ n''] exI [of _ c'']) (simp add: s(3) b)
  qed
qed simp


subsection \<open>The whole index\<close>

lemma index_dirty:
  fixes c :: "'v arenaRadix" and d :: bool
  assumes inv: "indexInv c K"
  defines "c1 \<equiv> c\<lparr>ar_nodeMapDirty := d\<rparr>"
  shows "indexInv c1 K" "indexed c1 = indexed c" "retagged c c1"
proof -
  note I = indexInvD [OF inv]
  show r: "retagged c c1" by (simp add: c1_def retagged_def list_all2_same)
  have b: "bears c1 k = bears c k" for k by (rule retagged_bears [OF r])
  have s: "ar_hashSlots c1 = ar_hashSlots c" "ar_nodes c1 = ar_nodes c" by (simp_all add: c1_def)
  have h: "hashesIn c1 K = hashesIn c K" by (simp add: hashesIn_def s retagged_hash [OF r])
  have "peersOk c1 K \<and> peerMap c1 = peerMap c" by (rule peers_same [OF I(5)]) (simp_all add: h b, simp_all add: c1_def)
  then have p: "peersOk c1 K" "peerMap c1 = peerMap c" by simp_all
  show i: "indexed c1 = indexed c" by (simp add: indexed_def p(2) s)
  have "slotTable c1" using I(1) by (simp add: slotTable_def c1_def)
  moreover have "honest c1 K" using I(3) by (simp add: honest_def s b retagged_hash [OF r])
  ultimately show "indexInv c1 K" by (rule indexInvI [OF inv r]) (use I(4,6) p in \<open>simp_all add: h i\<close>)
qed

definition allNodes :: "'v arenaRadix \<Rightarrow> u32 list" where
  "allNodes c = map of_nat [0..<length (ar_nodes c)]"

lemma allNodes_props:
  assumes "length (ar_nodes c) < 2 ^ 32"
  shows "distinct (allNodes c)" "set (allNodes c) = {k. unat k < length (ar_nodes c)}"
proof -
  have u: "unat (of_nat i :: u32) = i" if "i < length (ar_nodes c)" for i
    using that assms by (simp add: unsigned_of_nat take_bit_nat_eq_self)
  have "inj_on (of_nat :: nat \<Rightarrow> u32) {0..<length (ar_nodes c)}" by (rule inj_on_inverseI [of _ unat]) (use u in simp)
  then show "distinct (allNodes c)" by (simp add: allNodes_def distinct_map)
  show "set (allNodes c) = {k. unat k < length (ar_nodes c)}"
  proof (intro set_eqI iffI)
    fix k :: u32 assume "k \<in> {k. unat k < length (ar_nodes c)}"
    then have "unat k \<in> set [0..<length (ar_nodes c)]" "k = of_nat (unat k)" by simp_all
    then show "k \<in> set (allNodes c)" unfolding allNodes_def set_map by (metis imageI)
  qed (auto simp: allNodes_def u)
qed

lemma bearing_nodes:
  assumes "length (ar_nodes c) < 2 ^ 32"
  shows "set (filter (bears c) (allNodes c)) = {k. bears c k}" "length (filter (bears c) (allNodes c)) = card {k. bears c k}"
proof -
  show s: "set (filter (bears c) (allNodes c)) = {k. bears c k}" using allNodes_props(2) [OF assms] by (auto simp: bears_def)
  have "distinct (filter (bears c) (allNodes c))" using allNodes_props(1) [OF assms] by simp
  from distinct_card [OF this] show "length (filter (bears c) (allNodes c)) = card {k. bears c k}" by (simp only: s)
qed

lemma empty_index:
  assumes n: "named c K" and b: "b \<le> 31"
  defines "c1 \<equiv> c\<lparr>ar_hashSlots := replicate (2 ^ b) zeroSlot, ar_hashMask := mask b, ar_hashCount := 0\<rparr>"
  shows "retagged c c1" "indexInv (withPeers None 0 c1) K" "indexed (withPeers None 0 c1) = {#}"
proof -
  show r: "retagged c c1" by (simp add: c1_def retagged_def list_all2_same)
  have s: "hasFree (ar_hashSlots c1)" "slotsOf (ar_hashSlots c1) = {#}"
    using size_slotsOf(2) [of "ar_hashSlots c1"] by (simp_all add: c1_def)
  have t: "slotTable c1" using b s by (auto simp: slotTable_def tableOk_def c1_def)
  have i: "slotsInv c1 K" using retagged_named [OF r n] by (simp add: slotsInv_def t honest_def hashesIn_def s)
  have p: "peersOk (withPeers None 0 c1) K" by (simp add: peersOk_def peerMap_def pmset_def)
  show x: "indexed (withPeers None 0 c1) = {#}" by (simp add: indexed_def s peerMap_def pmset_def)
  have "named (withPeers None 0 c1) K" by (rule retagged_named [OF retagged_peers]) (use i in \<open>simp add: slotsInv_def\<close>)
  then have "slotsInv (withPeers None 0 c1) K" using i by (simp add: slotsInv_def peers_upd_same)
  then show "indexInv (withPeers None 0 c1) K" using p x by (simp add: indexInv_def)
qed

lemma rebuild_spec:
  assumes n: "named c K" and len: "lenOk c" and few: "ar_len c < 2 ^ 30"
  obtains c' where "rebuildHashSlotsLocked c = Inr c'" "indexInv c' K" "retagged c c'" "set_mset (indexed c') = {k. bears c k}"
    "ar_hashCount c' + ar_collisionCount c' = ar_len c'" "\<not> ar_nodeMapDirty c'"
proof -
  have small: "length (ar_nodes c) < 2 ^ 32" using n by (simp add: named_def)
  have card: "ar_len c = int (card {k. bears c k})" using len by (simp add: lenOk_def)
  obtain b where b: "4 \<le> b" "b \<le> 31" "hashSlotsCapFor (ar_len c) = 2 ^ b" "ar_len c * 5 \<le> 2 ^ b * 4"
    using capFor_spec [OF _ few] card by auto
  define c1 where "c1 = c\<lparr>ar_hashSlots := replicate (2 ^ b) zeroSlot, ar_hashMask := mask b, ar_hashCount := 0\<rparr>"
  note E = empty_index [OF n b(2), folded c1_def]
  have all: "allNodes c1 = allNodes c" and bc: "bears c1 = bears c" by (simp_all add: allNodes_def c1_def bears_def [abs_def])
  have slots: "length (ar_hashSlots c1) = 2 ^ b" by (simp add: c1_def)
  have 1: "distinct (allNodes c)" "\<forall>k \<in> set (allNodes c). unat k < length (ar_nodes c1) \<and> k \<notin># indexed (withPeers None 0 c1)"
    using allNodes_props [OF small] by (simp_all add: E(3)) (simp add: c1_def)
  have 2: "(int (size (indexed (withPeers None 0 c1))) + int (length (filter (bears c1) (allNodes c)))) * 5 \<le> int (length (ar_hashSlots c1)) * 4"
    using b(4) by (simp add: E(3) bc bearing_nodes(2) [OF small] slots card)
  have 3: "int (size (indexed (withPeers None 0 c1))) + int (length (filter (bears c1) (allNodes c))) < 2 ^ 30"
    using few by (simp add: E(3) bc bearing_nodes(2) [OF small] card)
  obtain peers' n' c' where l: "rebuildSlotsLoop (allNodes c) None 0 c1 = Inr (peers', n', c')" "indexInv (withPeers peers' n' c') K"
    "retagged c1 c'" "indexed (withPeers peers' n' c') = indexed (withPeers None 0 c1) + mset (filter (bears c1) (allNodes c))"
    using heal_loop [OF E(2) 1 2 3] by (elim exE conjE) (rule that)
  let ?r = "(withPeers peers' n' c')\<lparr>ar_nodeMapDirty := False\<rparr>"
  have z: "nat (2 ^ b) = 2 ^ b" by (simp add: nat_power_eq)
  have run: "rebuildHashSlotsLocked c = Inr ?r"
    unfolding rebuildHashSlotsLocked_def Let_def b(3) newMask_mask [OF b(2)] z c1_def [symmetric] all [unfolded allNodes_def, symmetric]
    using l(1) by (simp add: allNodes_def c1_def)
  note D = index_dirty [OF l(2), of False]
  have r: "retagged c ?r" by (rule retagged_trans [OF retagged_trans [OF retagged_trans [OF E(1) l(3)] retagged_peers] D(3)])
  have i: "indexed ?r = mset (filter (bears c) (allNodes c))" by (simp add: D(2) l(4) E(3) bc)
  have "set_mset (indexed ?r) = {k. bears c k}" unfolding i using bearing_nodes(1) [OF small] by simp
  moreover have "ar_hashCount ?r + ar_collisionCount ?r = ar_len ?r"
    using indexed_size [OF D(1)] bearing_nodes(2) [OF small] unfolding i retagged_sel(7) [OF r] card by (simp only: size_mset)
  ultimately show ?thesis by (rule that [OF run D(1) r]) simp
qed


subsection \<open>Compacting the index\<close>

definition newIndex :: "u32 list \<Rightarrow> u32 \<Rightarrow> u32 res" where
  \<comment> \<open>\<open>oldToNew[i]\<close>\<close>
  "newIndex oldToNew i = (if unat i < length oldToNew then Inr (oldToNew ! unat i) else Inl arenaIndexPanic)"

fun remapSlots :: "u32 list \<Rightarrow> arenaHashSlot list \<Rightarrow> arenaHashSlot list res" where
  \<comment> \<open>rename the nodes of the slots in place\<close>
  "remapSlots oldToNew [] = Inr []"
| "remapSlots oldToNew (slot # slots) =
     bindr (if hs_tag slot \<noteq> 0 then bindr (newIndex oldToNew (hs_nodeID slot)) (\<lambda>k. Inr (slot\<lparr>hs_nodeID := k\<rparr>)) else Inr slot) (\<lambda>s.
     bindr (remapSlots oldToNew slots) (\<lambda>ss. Inr (s # ss)))"

fun replaceSlots :: "u32 \<Rightarrow> u32 list \<Rightarrow> arenaHashSlot list \<Rightarrow> arenaHashSlot list \<Rightarrow> arenaHashSlot list res" where
  \<comment> \<open>rename the nodes of the slots and move them to a table of another size\<close>
  "replaceSlots newMask oldToNew [] newSlots = Inr newSlots"
| "replaceSlots newMask oldToNew (slot # slots) newSlots = (if hs_tag slot = 0 then replaceSlots newMask oldToNew slots newSlots
     else bindr (of_loop (freeSlotLoop newSlots newMask (hs_tag slot AND newMask))) (\<lambda>idx.
       bindr (newIndex oldToNew (hs_nodeID slot)) (\<lambda>k.
       bindr (putSlot idx \<lparr>hs_tag = hs_tag slot, hs_nodeID = k\<rparr> newSlots) (replaceSlots newMask oldToNew slots))))"

definition compactHashSlotsLocked :: "u32 list option \<Rightarrow> 'v arenaRadix \<Rightarrow> 'v arenaRadix res" where
  "compactHashSlotsLocked oldToNew c = (if ar_collisionCount c \<noteq> 0 \<or> ar_hashCount c \<noteq> ar_len c then rebuildHashSlotsLocked c
     else let newCap = hashSlotsCapFor (ar_len c) in
       if int (length (ar_hashSlots c)) = newCap
       then bindr (case oldToNew of None \<Rightarrow> Inr c | Some old \<Rightarrow> bindr (remapSlots old (ar_hashSlots c)) (\<lambda>slots. Inr (c\<lparr>ar_hashSlots := slots\<rparr>))) (\<lambda>c1.
         Inr (c1\<lparr>ar_nodeMapDirty := False\<rparr>))
       else case oldToNew of
           None \<Rightarrow> bindr (resizeHashSlotsLocked newCap c) (\<lambda>c1. Inr (c1\<lparr>ar_nodeMapDirty := False\<rparr>))
         | Some old \<Rightarrow> let newMask = word_of_int (newCap - 1) in
             bindr (replaceSlots newMask old (ar_hashSlots c) (replicate (nat newCap) zeroSlot)) (\<lambda>slots.
             Inr (c\<lparr>ar_hashSlots := slots, ar_hashMask := newMask, ar_nodeMapDirty := False\<rparr>)))"

definition renamed :: "u32 list \<Rightarrow> arenaHashSlot \<Rightarrow> arenaHashSlot" where
  "renamed old s = (if hs_tag s = 0 then s else s\<lparr>hs_nodeID := old ! unat (hs_nodeID s)\<rparr>)"

lemma renamed_tag [simp]: "hs_tag (renamed old s) = hs_tag s"
  by (simp add: renamed_def)

lemma renamed_slots:
  "slotsOf (map (renamed old) S) = image_mset (\<lambda>s. s\<lparr>hs_nodeID := old ! unat (hs_nodeID s)\<rparr>) (slotsOf S)"
  by (induction S) (simp_all add: renamed_def)

definition renames :: "u32 list \<Rightarrow> arenaHashSlot list \<Rightarrow> bool" where
  "renames old S \<longleftrightarrow> (\<forall>s \<in># slotsOf S. unat (hs_nodeID s) < length old)"

lemma remapSlots_spec: "renames old S \<Longrightarrow> remapSlots old S = Inr (map (renamed old) S)"
  by (induction S) (auto simp: renames_def newIndex_def renamed_def)

lemma replaceSlots_spec: "renames old S \<Longrightarrow> replaceSlots m old S T = resizeLoop m (map (renamed old) S) T"
proof (induction S arbitrary: T)
  case (Cons s S)
  have r: "renames old S" using Cons.prems by (simp add: renames_def)
  have "unat (hs_nodeID s) < length old" if "hs_tag s \<noteq> 0" using Cons.prems that by (simp add: renames_def)
  moreover have "renamed old s = \<lparr>hs_tag = hs_tag s, hs_nodeID = old ! unat (hs_nodeID s)\<rparr>" if "hs_tag s \<noteq> 0"
    using that by (cases s) (simp add: renamed_def)
  ultimately show ?case using Cons.IH [OF r]
    by (cases "of_loop (freeSlotLoop T m (hs_tag s AND m))") (simp_all add: placeSlot_def newIndex_def Cons.IH [OF r, abs_def])
qed simp


lemma capFor_room:
  assumes n: "e < 2 ^ 30" and s: "e = int s"
  obtains b where "4 \<le> b" "b \<le> 31" "hashSlotsCapFor e = 2 ^ b" "s < 2 ^ b"
proof -
  obtain b where b: "4 \<le> b" "b \<le> 31" "hashSlotsCapFor e = 2 ^ b" "e * 5 \<le> 2 ^ b * 4"
    using capFor_spec [OF _ n] s by auto
  have "int (s * 5) \<le> int (2 ^ b * 4)" using b(4) s by simp
  then have "s * 5 \<le> 2 ^ b * 4" by (simp only: of_nat_le_iff)
  moreover have "(0 :: nat) < 2 ^ b" by simp
  ultimately have "s < 2 ^ b" by linarith
  then show ?thesis using that b(1-3) by blast
qed

lemma resize_index:
  assumes inv: "indexInv c K" and b: "4 \<le> b" "b \<le> 31" and room: "size (slotsOf (ar_hashSlots c)) < 2 ^ b"
  obtains c' where "resizeHashSlotsLocked (2 ^ b) c = Inr c'" "indexInv c' K" "retagged c c'" "indexed c' = indexed c"
proof -
  note I = indexInvD [OF inv]
  obtain S where S: "resizeHashSlotsLocked (2 ^ b) c = Inr (c\<lparr>ar_hashSlots := S, ar_hashMask := mask b\<rparr>)"
    "length S = 2 ^ b" "chained S" "slotsOf S = slotsOf (ar_hashSlots c)"
    using resize_spec [OF b room] by (elim exE conjE) (rule that)
  let ?c = "c\<lparr>ar_hashSlots := S, ar_hashMask := mask b\<rparr>"
  have r: "retagged c ?c" by (simp add: retagged_def list_all2_same)
  have bb: "bears ?c k = bears c k" for k by (rule retagged_bears [OF r])
  have h: "hashesIn ?c K = hashesIn c K" by (simp add: hashesIn_def S(4) retagged_hash [OF r])
  have p: "peersOk ?c K \<and> peerMap ?c = peerMap c" by (rule peers_same [OF I(5)]) (simp_all add: h bb)
  have "tableOk S (mask b)" using b(2) S(2) by (auto simp: tableOk_def)
  moreover have "hasFree S" using size_slotsOf(2) [of S] room S(2,4) by simp
  ultimately have st: "slotTable ?c" using S(3,4) I(1) by (simp add: slotTable_def)
  have ho: "honest ?c K" using I(3) by (simp add: honest_def S(4) bb retagged_hash [OF r])
  have i: "indexed ?c = indexed c" using p by (simp add: indexed_def S(4))
  have "indexInv ?c K" by (rule indexInvI [OF inv r st ho]) (use I(4,6) p i in \<open>simp_all add: h\<close>)
  then show ?thesis by (rule that [OF S(1) _ r i])
qed

lemma compact_nil_spec:
  assumes inv: "indexInv c K" and len: "lenOk c" and few: "ar_len c < 2 ^ 30"
  obtains c' where "compactHashSlotsLocked None c = Inr c'" "indexInv c' K" "retagged c c'" "set_mset (indexed c') = {k. bears c k}"
    "ar_hashCount c' + ar_collisionCount c' = ar_len c'" "\<not> ar_nodeMapDirty c'"
proof (cases "ar_collisionCount c \<noteq> 0 \<or> ar_hashCount c \<noteq> ar_len c")
  case True
  obtain c' where c': "rebuildHashSlotsLocked c = Inr c'" "indexInv c' K" "retagged c c'" "set_mset (indexed c') = {k. bears c k}"
    "ar_hashCount c' + ar_collisionCount c' = ar_len c'" "\<not> ar_nodeMapDirty c'"
    by (rule rebuild_spec [OF indexInvD(2) [OF inv] len few])
  have "compactHashSlotsLocked None c = Inr c'" unfolding compactHashSlotsLocked_def if_P [OF True] by (rule c'(1))
  then show ?thesis by (rule that [OF _ c'(2-6)])
next
  case False
  then have full: "ar_hashCount c + ar_collisionCount c = ar_len c" by simp
  have ix: "set_mset (indexed c) = {k. bears c k}"
    using all_indexed [OF inv len full] indexed_bears [OF inv] by blast
  have n: "ar_len c = int (size (slotsOf (ar_hashSlots c)))"
    using slotTableD(4) [OF indexInvD(1) [OF inv]] False by simp
  obtain b where b: "4 \<le> b" "b \<le> 31" "hashSlotsCapFor (ar_len c) = 2 ^ b" "size (slotsOf (ar_hashSlots c)) < 2 ^ b"
    by (rule capFor_room [OF few n])
  note goal = that
  have fin: ?thesis if d: "compactHashSlotsLocked None c = Inr (d\<lparr>ar_nodeMapDirty := False\<rparr>)" "indexInv d K" "retagged c d" "indexed d = indexed c" for d
  proof -
    note D = index_dirty [OF d(2), of False]
    have r: "retagged c (d\<lparr>ar_nodeMapDirty := False\<rparr>)" by (rule retagged_trans [OF d(3) D(3)])
    have i: "indexed (d\<lparr>ar_nodeMapDirty := False\<rparr>) = indexed c" by (simp add: D(2) d(4))
    have s: "ar_hashCount (d\<lparr>ar_nodeMapDirty := False\<rparr>) + ar_collisionCount (d\<lparr>ar_nodeMapDirty := False\<rparr>) = ar_len (d\<lparr>ar_nodeMapDirty := False\<rparr>)"
      using indexed_size [OF D(1)] indexed_size [OF inv] full unfolding i retagged_sel(7) [OF r] by simp
    show ?thesis by (rule goal [OF d(1) D(1) r _ s]) (simp_all add: i ix)
  qed
  show ?thesis
  proof (cases "int (length (ar_hashSlots c)) = 2 ^ b")
    case True
    have "compactHashSlotsLocked None c = Inr (c\<lparr>ar_nodeMapDirty := False\<rparr>)"
      unfolding compactHashSlotsLocked_def if_not_P [OF False] Let_def b(3) if_P [OF True] by simp
    then show ?thesis by (rule fin [OF _ inv]) simp_all
  next
    case ne: False
    obtain d where d: "resizeHashSlotsLocked (2 ^ b) c = Inr d" "indexInv d K" "retagged c d" "indexed d = indexed c"
      by (rule resize_index [OF inv b(1,2,4)])
    have "compactHashSlotsLocked None c = Inr (d\<lparr>ar_nodeMapDirty := False\<rparr>)"
      unfolding compactHashSlotsLocked_def if_not_P [OF False] Let_def b(3) if_not_P [OF ne] option.case d(1) by simp
    then show ?thesis by (rule fin [OF _ d(2-4)])
  qed
qed

lemma compact_some_spec:
  assumes t: "slotTable c" and full: "ar_collisionCount c = 0" "ar_hashCount c = ar_len c" and few: "ar_len c < 2 ^ 30"
    and old: "renames old (ar_hashSlots c)"
  obtains S m where "compactHashSlotsLocked (Some old) c = Inr (c\<lparr>ar_hashSlots := S, ar_hashMask := m, ar_nodeMapDirty := False\<rparr>)"
    "slotTable (c\<lparr>ar_hashSlots := S, ar_hashMask := m, ar_nodeMapDirty := False\<rparr>)"
    "slotsOf S = image_mset (\<lambda>s. s\<lparr>hs_nodeID := old ! unat (hs_nodeID s)\<rparr>) (slotsOf (ar_hashSlots c))"
proof -
  note I = slotTableD [OF t]
  have nf: "\<not> (ar_collisionCount c \<noteq> 0 \<or> ar_hashCount c \<noteq> ar_len c)" using full by simp
  have n: "ar_len c = int (size (slotsOf (ar_hashSlots c)))" using I(4) full(2) by simp
  obtain b where b: "4 \<le> b" "b \<le> 31" "hashSlotsCapFor (ar_len c) = 2 ^ b" "size (slotsOf (ar_hashSlots c)) < 2 ^ b"
    by (rule capFor_room [OF few n])
  let ?M = "map (renamed old) (ar_hashSlots c)"
  have sz: "size (slotsOf ?M) = size (slotsOf (ar_hashSlots c))" by (simp add: renamed_slots)
  have rs: "replaceSlots m old (ar_hashSlots c) T = resizeLoop m ?M T" for m T by (rule replaceSlots_spec [OF old])
  show ?thesis
  proof (cases "int (length (ar_hashSlots c)) = 2 ^ b")
    case True
    have tg: "map hs_tag ?M = map hs_tag (ar_hashSlots c)" by simp
    have "compactHashSlotsLocked (Some old) c = Inr (c\<lparr>ar_hashSlots := ?M, ar_hashMask := ar_hashMask c, ar_nodeMapDirty := False\<rparr>)"
      unfolding compactHashSlotsLocked_def if_not_P [OF nf] Let_def b(3) if_P [OF True] option.case remapSlots_spec [OF old] by simp
    moreover have "slotTable (c\<lparr>ar_hashSlots := ?M, ar_hashMask := ar_hashMask c, ar_nodeMapDirty := False\<rparr>)"
      using I sz by (simp add: slotTable_def table_same_tags [OF tg])
    ultimately show ?thesis by (rule that [OF _ _ renamed_slots])
  next
    case False
    have t0: "tableOk (replicate (2 ^ b) zeroSlot) (mask b)" using b(2) by (auto simp: tableOk_def)
    obtain S where S: "resizeLoop (mask b) ?M (replicate (2 ^ b) zeroSlot) = Inr S" "length S = 2 ^ b" "chained S" "slotsOf S = slotsOf ?M"
      using resizeLoop_spec [OF t0 chained_empty, of ?M] b(4) sz by auto
    have z: "nat (2 ^ b) = 2 ^ b" by (simp add: nat_power_eq)
    have "compactHashSlotsLocked (Some old) c = Inr (c\<lparr>ar_hashSlots := S, ar_hashMask := mask b, ar_nodeMapDirty := False\<rparr>)"
      unfolding compactHashSlotsLocked_def if_not_P [OF nf] Let_def b(3) if_not_P [OF False] option.case newMask_mask [OF b(2)] z
      using S(1) by (simp add: rs)
    moreover have "slotTable (c\<lparr>ar_hashSlots := S, ar_hashMask := mask b, ar_nodeMapDirty := False\<rparr>)"
    proof -
      have "tableOk S (mask b)" using b(2) S(2) by (auto simp: tableOk_def)
      moreover have "hasFree S" using size_slotsOf(2) [of S] b(4) S(2,4) sz by simp
      ultimately show ?thesis using S(3,4) I(4) sz by (simp add: slotTable_def)
    qed
    ultimately show ?thesis by (rule that [OF _ _ S(4) [unfolded renamed_slots]])
  qed
qed

end
