(* ===== verification/ArenaClaims.thy ===== *)
theory ArenaClaims
  imports ArenaMerge
begin

text \<open>
  Properties of the node store of \<^verbatim>\<open>arena_radix.go\<close>: the fields packed into one word, and the operations on the
  labels kept in one byte slice. The labels of a cache are the list of strings \<open>labels c\<close>, one for each node;
  \<open>outside c\<close> is everything else. \<open>labelBytes\<close> counts the bytes these labels need, headers included.
\<close>

unbundle bit_operations_syntax

subsection \<open>A small store for the witnesses\<close>

definition sampleNode :: "u32 \<Rightarrow> u16 \<Rightarrow> char \<Rightarrow> u32 \<Rightarrow> nat arenaRadixNode" where
  "sampleNode off l b par = \<lparr>an_prefixOff = off, an_prefixLen = l, an_firstByte = b, an_prefixFlags = 0, an_size = 0,
     an_parent = par, an_child = nilNode, an_sibling = nilNode, an_prev = nilNode, an_next = nilNode,
     an_keyLenAndFlags = 0, an_value = 0\<rparr>"

definition sampleStore :: "nat arenaRadixNode list \<Rightarrow> string \<Rightarrow> int \<Rightarrow> nat arenaRadix" where
  "sampleStore ns a live = \<lparr>ar_maxSize = 100, ar_currentSize = 0, ar_nodes = ns, ar_nodesCap = 8, ar_freeHead = nilNode,
     ar_freeCount = 0, ar_prefixArena = a, ar_prefixCap = 64, ar_livePrefixBytes = live, ar_freePrefixSpans = [],
     ar_hash = (\<lambda>s. word_of_nat (length s)), ar_hashSlots = [], ar_hashMask = 0, ar_hashCount = 0, ar_collisionPeers = None,
     ar_collisionCount = 0, ar_root = 0, ar_head = nilNode, ar_tail = nilNode, ar_len = 0, ar_weigher = None,
     ar_onEvictValue = None, ar_onEvictEntry = None, ar_putPrefixSpan = zeroSpan, ar_recyclingForPut = False,
     ar_nodeMapDirty = False, ar_prefixExposed = False, ar_growCap = max, ar_ps = newPressureState defaultOptions\<rparr>"

abbreviation sampleOne :: "nat arenaRadix" where
  \<comment> \<open>a root, a node labelled \<open>abc\<close> and a node without a label\<close>
  "sampleOne \<equiv> sampleStore [sampleNode 0 0 (CHR 0x00) nilNode, sampleNode 0 3 (CHR ''a'') 0, sampleNode 0 0 (CHR 0x00) 0] ''abc'' 3"

abbreviation sampleTwo :: "nat arenaRadix" where
  \<comment> \<open>the same with \<open>abc\<close> split into \<open>a\<close> and \<open>bc\<close>\<close>
  "sampleTwo \<equiv> sampleStore [sampleNode 0 0 (CHR 0x00) nilNode, sampleNode 1 2 (CHR ''b'') 2, sampleNode 0 1 (CHR ''a'') 0] ''abc'' 3"

lemmas sample_defs = sampleStore_def sampleNode_def zeroSpan_def largePrefixSentinel_def nilNode_def

lemma sample_ok:
  "prefixInv noBytes 0 sampleOne" "attached sampleOne" "labels sampleOne = ['''', ''abc'', '''']" "length (ar_nodes sampleOne) = 3"
  "prefixInv noBytes 0 sampleTwo" "attached sampleTwo" "labels sampleTwo = ['''', ''bc'', ''a'']" "length (ar_nodes sampleTwo) = 3"
proof -
  show "labels sampleOne = ['''', ''abc'', '''']" "labels sampleTwo = ['''', ''bc'', ''a'']"
    by (simp_all add: labels_def labelStr_def labelLen_def sample_defs)
  show "attached sampleOne" "attached sampleTwo"
    by (auto simp: attached_def sample_defs less_Suc_eq nth_Cons' numeral_3_eq_3)
  show "prefixInv noBytes 0 sampleOne" "prefixInv noBytes 0 sampleTwo"
    by (auto simp: prefixInv_def owners_def nodesCov_def nodesSize_def freeCov_def spanCov_def labelCov_def labelSize_def labelStart_def
      labelLen_def labelOk_def cov_def hdrLen_def maxPrefixArenaBytes_def sample_defs)
  show "length (ar_nodes sampleOne) = 3" "length (ar_nodes sampleTwo) = 3" by (simp_all add: sampleStore_def)
qed

lemma sample_bytes: "labelBytes ['''', ''abc'', ''''] = 3" "labelBytes ['''', ''bc'', ''a''] = 3" "labelBytes ['''', ''abc'', ''xy''] = 5"
  by (simp_all add: labelBytes_def needFor_def largePrefixSentinel_def)

subsection \<open>The packed word\<close>

text \<open>C29. The 17-bit key length, the 21-bit hash tag and the value bit share one 32-bit word and a byte of flags.
  Each setter is read back by its getter (the key length clamped to its 17 bits), and no setter changes what the
  other getters, or the pinned flag, say.\<close>

theorem arenaNode_packed:
  "an_hasValue (an_setHasValue v n) = v \<and> an_keyLen (an_setHasValue v n) = an_keyLen n \<and> an_hashTag21 (an_setHasValue v n) = an_hashTag21 n
   \<and> an_keyLen (an_setKeyLen j n) = nat (min (max j 0) 131071) \<and> an_hasValue (an_setKeyLen j n) = an_hasValue n
   \<and> an_hashTag21 (an_setKeyLen j n) = an_hashTag21 n
   \<and> an_hashTag21 (an_setHashTag21 t n) = t AND hashTag21Mask \<and> an_hasValue (an_setHashTag21 t n) = an_hasValue n
   \<and> an_keyLen (an_setHashTag21 t n) = an_keyLen n \<and> an_pinned (an_setHashTag21 t n) = an_pinned n"
  by (intro conjI setHasValue_read setKeyLen_read [unfolded clampKeyLen_def] setHashTag21_read)

subsection \<open>Labels\<close>

text \<open>C30. Storing a label: when the labels still fit into the largest arena, the node has the new label, every
  other label reads as before, and nothing else of the cache changes; otherwise the call panics. Released bytes,
  growth and compaction do not show.\<close>

theorem setNodePrefix_ok:
  assumes "prefixInv noBytes 0 c" and "attached c" and "unat k < length (ar_nodes c)"
  shows "if labelBytes ((labels c)[unat k := s]) \<le> maxPrefixArenaBytes
    then \<exists>c'. setNodePrefix k s c = Inr c' \<and> prefixInv noBytes 0 c' \<and> labels c' = (labels c)[unat k := s] \<and> outside c' = outside c
    else setNodePrefix k s c = Inl (Panic ''arena radix prefix capacity exceeded limit'')"
  by (rule setNodePrefix_inv [OF assms])

theorem setNodePrefix_ok_witness:
  "\<exists>c'. setNodePrefix 2 ''xy'' sampleOne = Inr c' \<and> labels c' = ['''', ''abc'', ''xy'']"
  using setNodePrefix_ok [OF sample_ok(1,2), of 2 "''xy''"] by (auto simp: sample_ok sample_bytes maxPrefixArenaBytes_def)

text \<open>C31. Splitting a label at \<open>lcp\<close>, in place or by copying, gives the first \<open>lcp\<close> bytes to the new node and leaves
  the rest to the old one; every other label and everything else is as before.\<close>

theorem splitNodePrefix_ok:
  assumes "prefixInv noBytes 0 c" and "attached c" and "splitReady c (unat k) (unat j) lcp"
    and "an_prefixFlags (ar_nodes c ! unat j) AND NOT prefixFlagPinned = 0"
    and "labelBytes (labels c) + needFor lcp + needFor (length (labels c ! unat k) - lcp) \<le> maxPrefixArenaBytes"
  shows "\<exists>c'. splitNodePrefixLocked k j lcp c = Inr c' \<and> prefixInv noBytes 0 c' \<and> outside c' = outside c
    \<and> labels c' = (labels c)[unat j := take lcp (labels c ! unat k), unat k := drop lcp (labels c ! unat k)]"
  using splitNodePrefix_inv [OF assms] by blast

theorem splitNodePrefix_ok_witness:
  "\<exists>c'. splitNodePrefixLocked 1 2 1 sampleOne = Inr c' \<and> labels c' = ['''', ''bc'', ''a'']"
proof -
  have 1: "splitReady sampleOne (unat (1 :: u32)) (unat (2 :: u32)) 1" by (simp add: splitReady_def sample_ok) (simp add: sample_defs)
  have 2: "an_prefixFlags (ar_nodes sampleOne ! unat (2 :: u32)) AND NOT prefixFlagPinned = 0" by (simp add: sample_defs)
  have 3: "labelBytes (labels sampleOne) + needFor 1 + needFor (length (labels sampleOne ! unat (1 :: u32)) - 1) \<le> maxPrefixArenaBytes"
    by (simp add: sample_ok sample_bytes needFor_def maxPrefixArenaBytes_def)
  show ?thesis using splitNodePrefix_ok [OF sample_ok(1,2) 1 2 3] by (auto simp: sample_ok)
qed

text \<open>C32. Merging the label of a node with that of its only child, on each of the four branches of the code, gives
  the child the concatenation and leaves the node none; every other label is as before, and so is everything
  else but the flags of the node.\<close>

theorem mergeNodePrefixes_ok:
  assumes "prefixInv noBytes 0 c" and "attached c" and "mergeReady c (unat k) (unat m)"
    and "labelBytes (labels c) + needFor (length (labels c ! unat k) + length (labels c ! unat m)) \<le> maxPrefixArenaBytes"
  shows "\<exists>c'. mergeNodePrefixesLocked k m c = Inr c' \<and> prefixInv noBytes 0 c' \<and> outsideBut (unat k) c' = outsideBut (unat k) c
    \<and> labels c' = (labels c)[unat k := [], unat m := labels c ! unat k @ labels c ! unat m]"
  using mergeNodePrefixes_inv [OF assms] by blast

theorem mergeNodePrefixes_ok_witness:
  "\<exists>c'. mergeNodePrefixesLocked 2 1 sampleTwo = Inr c' \<and> labels c' = ['''', ''abc'', '''']"
proof -
  have 1: "mergeReady sampleTwo (unat (2 :: u32)) (unat (1 :: u32))" by (simp add: mergeReady_def sample_ok)
  have 2: "labelBytes (labels sampleTwo) + needFor (length (labels sampleTwo ! unat (2 :: u32)) + length (labels sampleTwo ! unat (1 :: u32))) \<le> maxPrefixArenaBytes"
    by (simp add: sample_ok sample_bytes needFor_def maxPrefixArenaBytes_def)
  show ?thesis using mergeNodePrefixes_ok [OF sample_ok(5,6) 1 2] by (auto simp: sample_ok)
qed

text \<open>C33. Compacting the byte arena, exactly or to a larger capacity, drops every dead byte and keeps every label:
  afterwards the arena holds the live bytes alone.\<close>

theorem rebuildPrefixArena_ok:
  assumes "prefixInv noBytes 0 c" and "attached c"
  shows "\<exists>c'. rebuildPrefixArenaWithCapLocked newCap c = Inr c' \<and> prefixInv noBytes 0 c' \<and> labels c' = labels c
    \<and> outside c' = outside c \<and> length (ar_prefixArena c') = labelBytes (labels c)"
  using rebuild_inv [OF assms, of newCap] live_labels [OF assms(1)] by auto

theorem rebuildPrefixArena_ok_witness:
  "\<exists>c'. rebuildPrefixArenaWithCapLocked 16 sampleTwo = Inr c' \<and> labels c' = ['''', ''bc'', ''a''] \<and> length (ar_prefixArena c') = 3"
  using rebuildPrefixArena_ok [OF sample_ok(5,6), of 16] by (auto simp: sample_ok sample_bytes)

end
