(* ===== verification/ArenaTreeClaims.thy ===== *)
theory ArenaTreeClaims
  imports ArenaClaims ArenaNames ArenaSlots
begin

text \<open>
  Properties of the tree, the recency list and the hash slots of \<^verbatim>\<open>arena_radix.go\<close>.
\<close>

subsection \<open>A small tree for the witnesses\<close>

definition sampleTree :: "nat arenaRadix" where
  \<comment> \<open>a root and one node, which bears the key \<open>abc\<close>\<close>
  "sampleTree = (sampleStore [(sampleNode 0 0 (CHR 0x00) nilNode)\<lparr>an_child := 1\<rparr>,
       (sampleNode 0 3 (CHR ''a'') 0)\<lparr>an_keyLenAndFlags := 0x80060003\<rparr>, sampleNode 0 0 (CHR 0x00) 0] ''abc'' 3)
     \<lparr>ar_head := 1, ar_tail := 1, ar_len := 1,
      ar_hashSlots := (replicate 16 zeroSlot)[3 := \<lparr>hs_tag = 3, hs_nodeID = 1\<rparr>], ar_hashMask := 15, ar_hashCount := 1\<rparr>"

lemma sampleTree_sel:
  "length (ar_nodes sampleTree) = 3" "ar_root sampleTree = 0" "ar_head sampleTree = 1" "ar_tail sampleTree = 1" "ar_len sampleTree = 1"
  "ar_hashSlots sampleTree = (replicate 16 zeroSlot)[3 := \<lparr>hs_tag = 3, hs_nodeID = 1\<rparr>]" "ar_hashMask sampleTree = 15" "ar_hashCount sampleTree = 1"
  "ar_nodes sampleTree ! 0 = (sampleNode 0 0 (CHR 0x00) nilNode)\<lparr>an_child := 1\<rparr>"
  "ar_nodes sampleTree ! Suc 0 = (sampleNode 0 3 (CHR ''a'') 0)\<lparr>an_keyLenAndFlags := 0x80060003\<rparr>"
  "ar_nodes sampleTree ! 2 = sampleNode 0 0 (CHR 0x00) 0"
  by (simp_all add: sampleTree_def sampleStore_def)

lemma sampleTree_labels: "labels sampleTree = ['''', ''abc'', '''']"
  by (simp add: labels_def labelStr_def labelLen_def sampleTree_def sample_defs)

lemma sampleTree_inv: "prefixInv noBytes 0 sampleTree"
  by (auto simp: prefixInv_def owners_def nodesCov_def nodesSize_def freeCov_def spanCov_def labelCov_def labelSize_def labelStart_def
    labelLen_def labelOk_def cov_def hdrLen_def maxPrefixArenaBytes_def sampleTree_def sample_defs)

lemma sampleTree_linked: "linked sampleTree"
  by (auto simp: linked_def sampleTree_def ptrOk_def foregroundNoProtect_def sample_defs)

lemma sampleTree_heap:
  "absHeap sampleTree 0 = absNode '''' (ar_nodes sampleTree ! 0)" "absHeap sampleTree (Suc 0) = absNode ''abc'' (ar_nodes sampleTree ! Suc 0)"
  by (simp_all add: absHeap_def sampleTree_sel(1) sampleTree_labels)

lemma sampleTree_forest: "arenaForest sampleTree (Branch 1 ''abc'' Tip Tip)"
  by (simp add: arenaForest_def sampleTree_inv sampleTree_linked tree_def links_def sampleTree_heap sampleTree_sel)
    (simp add: sampleNode_def ptr_def nilNode_def)

lemma sampleTree_listed: "listed sampleTree [1]"
  by (simp add: listed_def dll_def listOf_def sampleTree_sel ptrOk_def entryOf_def sampleTree_heap)
    (simp add: sampleNode_def ptr_def nilNode_def)

lemma sampleTree_climb: "climb sampleTree 1 [1]" "pathKey sampleTree [1] = ''abc''" "keyLenOk sampleTree 1 [1]"
proof -
  have "climb sampleTree 0 []" using climb.top [of sampleTree] by (simp add: sampleTree_sel nilNode_def)
  then show "climb sampleTree 1 [1]" by (intro climb.up) (simp_all add: sampleTree_sel nilNode_def sampleNode_def)
  show "pathKey sampleTree [1] = ''abc''" by (simp add: pathKey_def sampleTree_labels)
  then show "keyLenOk sampleTree 1 [1]"
    by (simp add: keyLenOk_def sampleTree_sel an_keyLen_def arena_masks)
qed

lemma sampleTree_slotsOf: "slotsOf (ar_hashSlots sampleTree) = {#\<lparr>hs_tag = 3, hs_nodeID = 1\<rparr>#}"
proof -
  have "{#s \<in># replicate_mset 16 zeroSlot. hs_tag s \<noteq> 0#} = {#}" by (auto simp: filter_mset_eq_conv zeroSlot_def)
  then show ?thesis by (simp add: slotsOf_def sampleTree_sel mset_update filter_diff_mset)
qed

lemma sampleTree_slots: "slotTable sampleTree"
proof -
  have "tableOk (ar_hashSlots sampleTree) (ar_hashMask sampleTree)"
    unfolding tableOk_def by (intro exI [of _ 4]) (simp add: sampleTree_sel mask_eq_exp_minus_1)
  moreover have "chained (ar_hashSlots sampleTree)"
    by (auto simp: chained_def sampleTree_sel nth_list_update zeroSlot_def cyc_def split: if_splits)
  moreover have "hasFree (ar_hashSlots sampleTree)"
    unfolding hasFree_def by (intro exI [of _ 0]) (simp add: sampleTree_sel zeroSlot_def)
  ultimately show ?thesis by (simp add: slotTable_def sampleTree_slotsOf) (simp add: sampleTree_sel)
qed


text \<open>The same tree with a value for the empty key, which the root bears.\<close>

definition rootedTree :: "nat arenaRadix" where
  "rootedTree = (sampleStore [(sampleNode 0 0 (CHR 0x00) nilNode)\<lparr>an_child := 1, an_prev := 1, an_keyLenAndFlags := 0x80020000\<rparr>,
       (sampleNode 0 3 (CHR ''a'') 0)\<lparr>an_next := 0, an_keyLenAndFlags := 0x80060003\<rparr>] ''abc'' 3)
     \<lparr>ar_head := 1, ar_tail := 0, ar_len := 2,
      ar_hashSlots := (replicate 16 zeroSlot)[1 := \<lparr>hs_tag = 1, hs_nodeID = 0\<rparr>, 3 := \<lparr>hs_tag = 3, hs_nodeID = 1\<rparr>],
      ar_hashMask := 15, ar_hashCount := 2\<rparr>"

lemma rootedTree_sel:
  "length (ar_nodes rootedTree) = 2" "ar_root rootedTree = 0" "ar_len rootedTree = 2"
  "ar_hashSlots rootedTree = (replicate 16 zeroSlot)[1 := \<lparr>hs_tag = 1, hs_nodeID = 0\<rparr>, 3 := \<lparr>hs_tag = 3, hs_nodeID = 1\<rparr>]"
  "ar_hashMask rootedTree = 15" "ar_hashCount rootedTree = 2" "ar_hash rootedTree = (\<lambda>s. word_of_nat (length s))"
  "ar_collisionPeers rootedTree = None" "ar_collisionCount rootedTree = 0"
  "ar_nodes rootedTree ! 0 = (sampleNode 0 0 (CHR 0x00) nilNode)\<lparr>an_child := 1, an_prev := 1, an_keyLenAndFlags := 0x80020000\<rparr>"
  "ar_nodes rootedTree ! Suc 0 = (sampleNode 0 3 (CHR ''a'') 0)\<lparr>an_next := 0, an_keyLenAndFlags := 0x80060003\<rparr>"
  by (simp_all add: rootedTree_def sampleStore_def)

lemma rootedTree_forest: "arenaForest rootedTree (Branch 1 ''abc'' Tip Tip)"
proof -
  have l: "labels rootedTree = ['''', ''abc'']"
    by (simp add: labels_def labelStr_def labelLen_def rootedTree_def sample_defs)
  have i: "prefixInv noBytes 0 rootedTree"
    by (auto simp: prefixInv_def owners_def nodesCov_def nodesSize_def freeCov_def spanCov_def labelCov_def labelSize_def labelStart_def
      labelLen_def labelOk_def cov_def hdrLen_def maxPrefixArenaBytes_def rootedTree_def sample_defs)
  have k: "linked rootedTree"
    by (auto simp: linked_def rootedTree_def ptrOk_def foregroundNoProtect_def sample_defs)
  have h: "absHeap rootedTree 0 = absNode '''' (ar_nodes rootedTree ! 0)" "absHeap rootedTree (Suc 0) = absNode ''abc'' (ar_nodes rootedTree ! Suc 0)"
    by (simp_all add: absHeap_def rootedTree_sel(1) l)
  show ?thesis
    by (simp add: arenaForest_def i k tree_def links_def h rootedTree_sel) (simp add: sampleNode_def ptr_def nilNode_def)
qed

lemma rootedTree_slotsOf:
  "slotsOf (ar_hashSlots rootedTree) = {#\<lparr>hs_tag = 1, hs_nodeID = 0\<rparr>, \<lparr>hs_tag = 3, hs_nodeID = 1\<rparr>#}"
proof -
  have "{#s \<in># replicate_mset 16 zeroSlot. hs_tag s \<noteq> 0#} = {#}" by (auto simp: filter_mset_eq_conv zeroSlot_def)
  then show ?thesis by (simp add: slotsOf_def rootedTree_sel mset_update filter_diff_mset)
qed

lemma rootedTree_slots: "slotTable rootedTree"
proof -
  have "tableOk (ar_hashSlots rootedTree) (ar_hashMask rootedTree)"
    unfolding tableOk_def by (intro exI [of _ 4]) (simp add: rootedTree_sel mask_eq_exp_minus_1)
  moreover have "chained (ar_hashSlots rootedTree)"
    by (auto simp: chained_def rootedTree_sel nth_list_update zeroSlot_def cyc_def split: if_splits)
  moreover have "hasFree (ar_hashSlots rootedTree)"
    unfolding hasFree_def by (intro exI [of _ 0]) (simp add: rootedTree_sel zeroSlot_def)
  ultimately show ?thesis by (simp add: slotTable_def rootedTree_slotsOf) (simp add: rootedTree_sel)
qed


subsection \<open>Keys\<close>

text \<open>C34. The key of a node, read off its labels on any of the code's routes (the label alone, two labels, a buffer
  of the stored length, a growing buffer or a stream), is the concatenation of the labels from the root; its hash
  is the hash of that key, and \<open>verifyKey\<close> compares with it exactly (where the node stores the length of its
  key, and the root, whose key is empty, is not its own parent).\<close>

theorem arenaNodeKey_ok:
  assumes "prefixInv R e c" and "climb c k ks"
  shows "arena_reconstructKey k c = Inr (pathKey c ks) \<and> hashNodeKey k c = Inr (hashKey (pathKey c ks) c)
    \<and> ((k = ar_root c \<longrightarrow> unat k < length (ar_nodes c) \<and> an_parent (ar_nodes c ! unat k) \<noteq> ar_root c)
        \<longrightarrow> keyLenOk c k ks \<longrightarrow> verifyKey k key c = Inr (key = pathKey c ks))"
  using arenaReconstructKey_spec [OF assms] hashNodeKey_spec [OF assms] verifyKey_spec [OF assms, of key] by (simp add: hashKey_def)

theorem arenaNodeKey_ok_witness:
  "arena_reconstructKey 1 sampleTree = Inr ''abc'' \<and> verifyKey 1 ''abd'' sampleTree = Inr False"
  using arenaNodeKey_ok [OF sampleTree_inv sampleTree_climb(1), of "''abd''"] sampleTree_climb(2,3) by (simp add: sampleTree_sel)

text \<open>C35. The walk of the trie finds a key exactly when some node of the tree stands for it and has a value, and then
  returns that node. The root stands for the empty key.\<close>

theorem findNodeByTrieWalk_ok:
  assumes "arenaForest c F"
  shows "\<exists>x ok. findNodeByTrieWalk c key = Inr (x, ok)
    \<and> (ok \<longleftrightarrow> (\<exists>a. (a, key) \<in> set (allkeyed (unat (ar_root c)) F) \<and> an_hasValue (ar_nodes c ! a)))
    \<and> (ok \<longrightarrow> (unat x, key) \<in> set (allkeyed (unat (ar_root c)) F) \<and> an_hasValue (ar_nodes c ! unat x))
    \<and> (\<not> ok \<longrightarrow> x = nilNode)"
  using walk_finds [OF assms] by blast

theorem findNodeByTrieWalk_ok_witness:
  "(\<exists>x. findNodeByTrieWalk sampleTree ''abc'' = Inr (x, True) \<and> unat x = 1) \<and> findNodeByTrieWalk sampleTree '''' = Inr (nilNode, False)
    \<and> findNodeByTrieWalk rootedTree '''' = Inr (0, True)"
  using findNodeByTrieWalk_ok [OF sampleTree_forest, of "''abc''"] findNodeByTrieWalk_ok [OF sampleTree_forest, of "''''"]
    findNodeByTrieWalk_ok [OF rootedTree_forest, of "''''"]
  by (auto simp: sampleTree_sel rootedTree_sel an_hasValue_def arena_masks allkeyed_def unat_eq_0) (simp_all add: sampleNode_def)

subsection \<open>Recency\<close>

text \<open>C36. On a store whose recency list holds the indices \<open>as\<close>, \<open>moveToFront\<close> and \<open>remove\<close> of a member and \<open>pushFront\<close>
  of a new index have the effect of the list operations, and change no label.\<close>

theorem arenaList_ok:
  assumes "linked c" and "listed c as" and "unat k < length (ar_nodes c)"
  shows "if unat k \<in> set as
    then (\<exists>c'. arena_moveToFront k c = Inr c' \<and> linked c' \<and> listed c' (unat k # remove1 (unat k) as) \<and> labels c' = labels c)
       \<and> (\<exists>c'. arena_remove k c = Inr c' \<and> linked c' \<and> listed c' (remove1 (unat k) as) \<and> labels c' = labels c)
    else \<exists>c'. arena_pushFront k c = Inr c' \<and> linked c' \<and> listed c' (unat k # as) \<and> labels c' = labels c"
proof (cases "unat k \<in> set as")
  case True
  obtain c1 where "arena_moveToFront k c = Inr c1" "relisted c c1" "linked c1" "listed c1 (unat k # remove1 (unat k) as)"
    by (rule moveToFront_listed [OF assms(1,2) True])
  moreover obtain c2 where "arena_remove k c = Inr c2" "relisted c c2" "linked c2" "listed c2 (remove1 (unat k) as)"
    by (rule remove_listed [OF assms(1,2) True])
  ultimately show ?thesis using True relisted_labels(1) by auto
next
  case False
  obtain c1 where "arena_pushFront k c = Inr c1" "relisted c c1" "linked c1" "listed c1 (unat k # as)"
    by (rule pushFront_listed [OF assms False])
  then show ?thesis using False relisted_labels(1) by auto
qed

theorem arenaList_ok_witness:
  "\<exists>c'. arena_pushFront 2 sampleTree = Inr c' \<and> listed c' [2, 1]"
  using arenaList_ok [OF sampleTree_linked sampleTree_listed, of 2] by (auto simp: sampleTree_sel)

subsection \<open>Hash slots\<close>

text \<open>Adding an entry, growing the table when it is four fifths full, keeps the table probe-complete and adds exactly
  that slot; the node remembers the low 21 bits of its tag.\<close>

theorem insertNewHashSlot_ok:
  assumes "slotTable c" and "ar_hashCount c + 1 < 2 ^ 30" and "unat nodeID < length (ar_nodes c)"
  shows "\<exists>c'. insertNewHashSlotLocked h nodeID c = Inr c' \<and> slotTable c' \<and> ar_hashCount c' = ar_hashCount c + 1
    \<and> slotsOf (ar_hashSlots c') = add_mset \<lparr>hs_tag = arenaHashTag h, hs_nodeID = nodeID\<rparr> (slotsOf (ar_hashSlots c))
    \<and> ar_nodes c' = (ar_nodes c)[unat nodeID := an_setHashTag21 (arenaHashTag h) (ar_nodes c ! unat nodeID)]"
proof -
  obtain S m where "insertNewHashSlotLocked h nodeID c = Inr (c\<lparr>ar_hashSlots := S, ar_hashMask := m, ar_hashCount := ar_hashCount c + 1,
        ar_nodes := (ar_nodes c)[unat nodeID := an_setHashTag21 (arenaHashTag h) (ar_nodes c ! unat nodeID)]\<rparr>)"
    "slotTable (c\<lparr>ar_hashSlots := S, ar_hashMask := m, ar_hashCount := ar_hashCount c + 1\<rparr>)"
    "slotsOf S = add_mset \<lparr>hs_tag = arenaHashTag h, hs_nodeID = nodeID\<rparr> (slotsOf (ar_hashSlots c))"
    using insertNew_spec [OF assms, of h] by (elim exE conjE) (rule that)
  then show ?thesis by (simp add: slotTable_def)
qed

theorem insertNewHashSlot_ok_witness:
  "\<exists>c'. insertNewHashSlotLocked 5 2 sampleTree = Inr c' \<and> ar_hashCount c' = 2"
  using insertNewHashSlot_ok [OF sampleTree_slots, of 2 5] by (auto simp: sampleTree_sel)

text \<open>C40. Deleting a slot by shifting its followers back removes exactly that slot and leaves every other entry
  reachable from its home slot.\<close>

theorem backshiftDeleteSlot_ok:
  assumes "slotTable c" and "unat d < length (ar_hashSlots c)" and "occ (ar_hashSlots c) (unat d)"
  shows "\<exists>S. backshiftDeleteSlot d c = Inr (c\<lparr>ar_hashSlots := S, ar_hashCount := ar_hashCount c - 1\<rparr>)
    \<and> slotTable (c\<lparr>ar_hashSlots := S, ar_hashCount := ar_hashCount c - 1\<rparr>)
    \<and> slotsOf S = slotsOf (ar_hashSlots c) - {#ar_hashSlots c ! unat d#}"
  by (rule backshift_spec [OF assms])

theorem backshiftDeleteSlot_ok_witness:
  "\<exists>S. backshiftDeleteSlot 3 sampleTree = Inr (sampleTree\<lparr>ar_hashSlots := S, ar_hashCount := 0\<rparr>) \<and> slotsOf S = {#}"
  using backshiftDeleteSlot_ok [OF sampleTree_slots, of 3] unfolding sampleTree_slotsOf by (auto simp: sampleTree_sel)

end
