(* ===== verification/ArenaIndexClaims.thy ===== *)
theory ArenaIndexClaims
  imports ArenaTreeClaims ArenaLookup
begin

text \<open>
  Properties of the index of \<^verbatim>\<open>arena_radix.go\<close>: lookups, promotion of a node into the index, and removal from it.
\<close>

subsection \<open>The sample tree has an index\<close>

abbreviation sampleName :: "u32 \<Rightarrow> string" where "sampleName \<equiv> \<lambda>_. ''abc''"

lemma sampleTree_bears: "bears sampleTree k \<longleftrightarrow> k = 1"
proof -
  have "unat k < 3 \<longleftrightarrow> k = 0 \<or> k = 1 \<or> k = 2" using word_unat_eq_iff [of k 0] word_unat_eq_iff [of k 1] word_unat_eq_iff [of k 2] by auto
  then show ?thesis
    by (auto simp: bears_def sampleTree_sel(1)) (simp_all add: sampleTree_sel an_hasValue_def arena_masks sampleNode_def)
qed

lemma sampleTree_keyed: "keyedBy sampleTree (Branch 1 ''abc'' Tip Tip) sampleName"
  using sampleTree_forest by (auto simp: keyedBy_def sampleTree_bears sampleTree_sel an_keyLen_def arena_masks allkeyed_def)

lemma sampleTree_len: "lenOk sampleTree"
  by (simp add: lenOk_def sampleTree_bears sampleTree_sel)

lemma sampleTree_peers: "ar_collisionPeers sampleTree = None" "ar_collisionCount sampleTree = 0" "ar_hash sampleTree = (\<lambda>s. word_of_nat (length s))"
  by (simp_all add: sampleTree_def sampleStore_def)

lemma sampleTree_index: "indexInv sampleTree sampleName"
proof -
  have h: "hashesIn sampleTree sampleName = {#3#}" by (simp add: hashesIn_def sampleTree_slotsOf slotHash_def sampleTree_peers)
  have t: "an_hashTag21 (ar_nodes sampleTree ! Suc 0) = 3"
    by (simp add: sampleTree_sel an_hashTag21_def arena_masks sampleNode_def Let_def)
  have "honest sampleTree sampleName"
    by (simp add: honest_def sampleTree_slotsOf sampleTree_bears slotHash_def sampleTree_peers arenaHashTag_def t Let_def) (simp add: arena_masks)
  moreover have "peersOk sampleTree sampleName" by (simp add: peersOk_def peerMap_def sampleTree_peers pmset_def)
  moreover have "indexed sampleTree = {#1#}" by (simp add: indexed_def sampleTree_slotsOf peerMap_def sampleTree_peers pmset_def)
  ultimately show ?thesis using sampleTree_slots keyedBy_named [OF sampleTree_keyed] by (simp add: indexInv_def slotsInv_def h)
qed

lemma sampleTree_indexed: "indexed sampleTree = {#1#}"
  by (simp add: indexed_def sampleTree_slotsOf peerMap_def sampleTree_peers pmset_def)

text \<open>So has the tree whose root bears the empty key.\<close>

abbreviation rootedName :: "u32 \<Rightarrow> string" where "rootedName \<equiv> \<lambda>k. if k = 0 then '''' else ''abc''"

lemma rootedTree_bears: "bears rootedTree k \<longleftrightarrow> k = 0 \<or> k = 1"
proof -
  have "unat k < 2 \<longleftrightarrow> k = 0 \<or> k = 1" using word_unat_eq_iff [of k 0] word_unat_eq_iff [of k 1] by auto
  then show ?thesis
    by (auto simp: bears_def rootedTree_sel(1)) (simp_all add: rootedTree_sel an_hasValue_def arena_masks)
qed

lemma rootedTree_keyed: "keyedBy rootedTree (Branch 1 ''abc'' Tip Tip) rootedName"
  using rootedTree_forest by (auto simp: keyedBy_def rootedTree_bears rootedTree_sel an_keyLen_def arena_masks allkeyed_def)

lemma rootedTree_len: "lenOk rootedTree"
proof -
  have "{k. bears rootedTree k} = {0, 1}" by (auto simp: rootedTree_bears)
  then show ?thesis by (simp add: lenOk_def rootedTree_sel)
qed

lemma rootedTree_index: "indexInv rootedTree rootedName"
proof -
  have h: "hashesIn rootedTree rootedName = {#0, 3#}" by (simp add: hashesIn_def rootedTree_slotsOf slotHash_def rootedTree_sel(7))
  have t: "an_hashTag21 (ar_nodes rootedTree ! 0) = 1" "an_hashTag21 (ar_nodes rootedTree ! Suc 0) = 3"
    by (simp_all add: rootedTree_sel an_hashTag21_def arena_masks sampleNode_def Let_def)
  have "honest rootedTree rootedName"
    by (simp add: honest_def rootedTree_slotsOf rootedTree_bears slotHash_def rootedTree_sel(7) arenaHashTag_def t Let_def) (simp add: arena_masks)
  moreover have "peersOk rootedTree rootedName" by (simp add: peersOk_def peerMap_def rootedTree_sel(8,9) pmset_def)
  moreover have "indexed rootedTree = {#0, 1#}" by (simp add: indexed_def rootedTree_slotsOf peerMap_def rootedTree_sel(8) pmset_def)
  ultimately show ?thesis using rootedTree_slots keyedBy_named [OF rootedTree_keyed] by (simp add: indexInv_def slotsInv_def h)
qed

subsection \<open>Lookups\<close>

text \<open>C37. The four lookups by key and hash, which read the index and fall back on the walk of the trie, find a key
  exactly when some node bears it, and return that node, also when other keys share its 32-bit tag or its 64-bit
  hash; the empty key, which the root bears, is found like any other. A lookup that heals the index, or not, leaves every node, key and label as it was.\<close>

theorem lookupNodeKey_ok:
  assumes "indexInv c K" and "keyedBy c F K" and "lenOk c" and "ar_hashCount c + 1 < 2 ^ 30"
  shows "(\<exists>k ok c'. lookupNodeKeyWithHash key (hashKey key c) c = Inr (k, ok, c') \<and> answers c K key k ok \<and> kept c c' F K)
    \<and> (\<exists>k ok c'. getNodeKeyWithHash key (hashKey key c) c = Inr (k, ok, c') \<and> answers c K key k ok \<and> kept c c' F K)
    \<and> (\<exists>k w ok c'. lookupOrWalkNodeKey key (hashKey key c) c = Inr (k, w, ok, c') \<and> answers c K key k ok \<and> kept c c' F K)
    \<and> (\<exists>k ok m c'. getNodeKeyForPut key (hashKey key c) c = Inr (k, ok, m, c') \<and> answers c K key k ok \<and> kept c c' F K \<and> (m \<longrightarrow> \<not> ok))"
  by (intro conjI lookupNodeKey_spec [OF assms hashKey_def])

theorem lookupNodeKey_ok_witness:
  "(\<exists>c'. getNodeKeyWithHash ''abc'' (hashKey ''abc'' sampleTree) sampleTree = Inr (1, True, c'))
    \<and> (\<exists>c'. getNodeKeyWithHash '''' (hashKey '''' rootedTree) rootedTree = Inr (0, True, c'))"
  using lookupNodeKey_ok [OF sampleTree_index sampleTree_keyed sampleTree_len, of "''abc''", THEN conjunct2, THEN conjunct1]
    lookupNodeKey_ok [OF rootedTree_index rootedTree_keyed rootedTree_len, of "''''", THEN conjunct2, THEN conjunct1]
  by (auto simp: sampleTree_sel sampleTree_bears rootedTree_sel rootedTree_bears answers_def split: if_splits)

subsection \<open>Entering and leaving the index\<close>

text \<open>C38. Recording a node in the index, by a new slot, by taking the slot of a node whose key has the same hash (which
  then waits among its peers), or by promoting it from the peers, adds this node to the indexed ones and loses none.\<close>

theorem promoteCollisionPeer_ok:
  assumes "indexInv c K" and "ar_hashCount c + 1 < 2 ^ 30" and "bears c k"
  shows "\<exists>c'. promoteCollisionPeerLocked (hashKey (K k) c) k c = Inr c' \<and> indexInv c' K \<and> retagged c c'
    \<and> indexed c' = (if k \<in># indexed c then indexed c else add_mset k (indexed c))"
  by (rule promote_spec [OF assms(1-3) hashKey_def [symmetric]]) blast

theorem promoteCollisionPeer_ok_witness:
  "\<exists>c'. promoteCollisionPeerLocked (hashKey ''abc'' sampleTree) 1 sampleTree = Inr c' \<and> indexed c' = {#1#}"
  using promoteCollisionPeer_ok [OF sampleTree_index, of 1] by (auto simp: sampleTree_sel sampleTree_bears sampleTree_indexed)

text \<open>C39. Removing an indexed node, whether it holds the slot of its hash (a valid peer inherits it, or the slot is
  deleted) or waits among the peers, takes exactly this node out of the index; and so does the short cut by the
  21 bits of the tag that the node remembers, when it does anything.\<close>

theorem removeOrPromoteNodeMap_ok:
  assumes "indexInv c K" and "k \<in># indexed c"
  shows "(\<exists>c'. removeOrPromoteNodeMapLocked (hashKey (K k) c) k c = Inr c' \<and> indexInv c' K \<and> retagged c c' \<and> indexed c = add_mset k (indexed c'))
    \<and> (ar_hashMask c \<le> hashTag21Mask \<longrightarrow> ar_collisionCount c = 0 \<longrightarrow>
        (\<exists>c' b. deleteNodeFromHashSlotsFastLocked k c = Inr (c', b) \<and> indexInv c' K \<and> retagged c c'
          \<and> indexed c = (if b then add_mset k (indexed c') else indexed c')))"
proof (intro conjI impI)
  show "\<exists>c'. removeOrPromoteNodeMapLocked (hashKey (K k) c) k c = Inr c' \<and> indexInv c' K \<and> retagged c c' \<and> indexed c = add_mset k (indexed c')"
    by (rule remove_spec [OF assms hashKey_def [symmetric]]) blast
  assume "ar_hashMask c \<le> hashTag21Mask" "ar_collisionCount c = 0"
  then show "\<exists>c' b. deleteNodeFromHashSlotsFastLocked k c = Inr (c', b) \<and> indexInv c' K \<and> retagged c c'
      \<and> indexed c = (if b then add_mset k (indexed c') else indexed c')"
    by (rule fastDelete_spec [OF assms(1) indexed_bears [OF assms]]) blast
qed

theorem removeOrPromoteNodeMap_ok_witness:
  "\<exists>c'. removeOrPromoteNodeMapLocked (hashKey ''abc'' sampleTree) 1 sampleTree = Inr c' \<and> indexed c' = {#}"
  using removeOrPromoteNodeMap_ok [OF sampleTree_index, of 1] by (auto simp: sampleTree_indexed)

end
