(* ===== verification/Spec2Isabelle.thy ===== *)
theory Spec2Isabelle
  imports Prefix ShardedClaims RadixSharded ArenaHeal ArenaIndexClaims
begin

text \<open>
  A verification of \<^verbatim>\<open>google/go-lru\<close>, a least-recently-used cache in Go that keeps the total weight of its
  entries under a capacity and gives memory back when a pressure probe reads high.

  \<^bold>\<open>The program.\<close> A cache is configured by functional options (\<^verbatim>\<open>options.go\<close>). Three backends implement the
  interface of \<^verbatim>\<open>cache.go\<close>: a Go map with an intrusive list (\<^verbatim>\<open>map_lru.go\<close>), a radix tree (\<^verbatim>\<open>radix_lru.go\<close>) and a
  radix tree in an arena (\<^verbatim>\<open>arena_radix.go\<close>, \<^verbatim>\<open>arena_radix_lru.go\<close>). Each embeds a \<open>pressureState\<close>
  (\<^verbatim>\<open>pressure.go\<close>), which samples the probe, decides when to compact or to shed, counts everything it does, and
  queues the eviction callbacks that run after the lock is released. A sharded cache (\<^verbatim>\<open>sharded_lru.go\<close>) routes
  keys to several backends that share one pressure coordinator.

  \<^bold>\<open>The theories.\<close>
  \<^item> \<open>Prelude\<close>: the result type \<open>res\<close> (a panic, a nil dereference or divergence on the left), 64-bit words, weights.
  \<^item> \<open>GoFloat\<close>: Go's \<open>float64\<close> with rounding to binary64, since thresholds and targets are computed in it.
  \<^item> \<open>Options\<close>, \<open>OptionsSpec\<close>: the options, \<open>ApplyOptions\<close> and its reconciliation steps; what they guarantee.
  \<^item> \<open>Prefix\<close>: the interned prefixes and the word-wise comparison of \<^verbatim>\<open>pressure.go\<close>.
  \<^item> \<open>Pressure\<close>, \<open>Sampling\<close>, \<open>Telemetry\<close>: the pressure state, its decisions, the sampling protocol, and what it
    keeps of the counters. \<open>EvictQueue\<close>: the callback queue and the locale of what a mutation relies on.
  \<^item> \<open>EntryList\<close>: the intrusive list on an explicit heap of entries; locale \<open>recency_list\<close>.
  \<^item> \<open>Stats\<close>: snapshots.
  \<^item> \<open>MapCache\<close>: all of \<^verbatim>\<open>map_lru.go\<close>, one definition per method and loop. \<open>MapInv\<close>: the invariant \<open>map_inv\<close>
    and its form in the middle of a call, \<open>mid\<close>, in which the size may lag behind the weights.
    \<open>MapReclaim\<close>, \<open>MapSpec\<close>: what each internal step does to it. \<open>MapOps\<close>, \<open>MapLookup\<close>, \<open>MapIter\<close>, \<open>MapPrefix\<close>,
    \<open>MapReplace\<close>: the operations, each against the abstract view \<open>lru\<close>, the list of (key, weight, value)
    from the most to the least recently used.
  \<^item> \<open>Engine\<close>: the locale \<open>lru_engine\<close>, what a client of any backend relies on. \<open>MapTrace\<close>: its interpretation on the
    map backend, and the states reachable by any sequence of calls.
  \<^item> \<open>Sharded\<close>: all of \<^verbatim>\<open>sharded_lru.go\<close> over a record of engine operations, Go's interface \<open>shardEngine\<close>.
    \<open>ShardIndex\<close>: the arithmetic of routing and of shares. \<open>ShardedSpec\<close>: the locale \<open>shard_engine\<close>, which extends
    \<open>lru_engine\<close>, and every sharded operation under it. \<open>ShardStats\<close>: sums of counters. \<open>ShardedMap\<close>: the
    interpretation on the map backend, construction, reachable states. \<open>ShardedClaims\<close>: what callers rely on.
  \<^item> \<open>RadixTree\<close>, \<open>RadixCache\<close>: all of \<^verbatim>\<open>radix_lru.go\<close>. The nodes of the tree are records in a heap, with parent, child and
    sibling pointers, and are at the same time the links of the recency list.
    \<open>RadixForest\<close>, \<open>RadixHeap\<close>: the tree a heap holds as a datatype, a context with a hole for the place where it
    changes, and what lookup, linking and unlinking do. \<open>RadixOps\<close>, \<open>RadixInsert\<close>: the invariant \<open>tree_inv\<close>, compression,
    insertion with splitting. \<open>RadixShadow\<close>: the books and the list of a radix cache are those of a map cache
    (\<open>shadow\<close>), so \<open>mid\<close> and the lemmas of the map backend carry over; \<open>bound\<close> ties the tree to the list.
    \<open>RadixLoops\<close>, \<open>RadixReclaim\<close>: eviction and shedding simulate those of the map backend. \<open>RadixCheck\<close>: the
    run-time checks. \<open>RadixLookup\<close>, \<open>RadixPut\<close>, \<open>RadixReplace\<close>, \<open>RadixIter\<close>: the operations against the abstract view
    \<open>rlru\<close>. \<open>RadixSweep\<close>, \<open>RadixPrefix\<close>: sweeping a subtree, and \<open>DeletePrefix\<close>. \<open>RadixTrace\<close>: construction, the
    interpretation of \<open>lru_engine\<close>, reachable states. \<open>RadixSharded\<close>: \<open>NewRadixCache\<close>, and the interpretation of
    \<open>shard_engine\<close>, by which the lemmas about sharded caches hold for radix shards.
  \<^item> \<open>ArenaNode\<close>, \<open>ArenaPrefix\<close>: the node store of \<^verbatim>\<open>arena_radix.go\<close> with its packed word, and the byte arena that
    holds the edge labels, with the allocator of its ranges. \<open>ArenaSpans\<close>: the released spans, by counting the owners
    of each byte. \<open>ArenaLabels\<close>, \<open>ArenaRebuild\<close>, \<open>ArenaStore\<close>: the invariant \<open>prefixInv\<close> that no byte has two owners,
    the labels as strings, compaction, and storing a label. \<open>ArenaSplit\<close>, \<open>ArenaMerge\<close>: splitting and merging
    labels, branch by branch. \<open>ArenaClaims\<close>: the properties of the store.
  \<^item> \<open>ArenaKey\<close>: the key of a node, by each route of the code that reads, hashes or compares it. \<open>ArenaTree\<close>: free list,
    child lists and trie walk on the node slice, read as a heap of the pointer-based tree (\<open>absHeap\<close>).
    \<open>ArenaList\<close>: its recency list refines a list of indices. \<open>ArenaNames\<close>: the keys of the nodes of a forest.
    \<open>ArenaSlots\<close>: the open-addressed table of hash slots, growth and deletion. \<open>ArenaTreeClaims\<close>: the properties.
  \<^item> \<open>ArenaIndex\<close>: the index of keys above that table, with its collision peers and the lookups. \<open>ArenaProbe\<close>: one lemma
    about every probe loop. \<open>ArenaIndexInv\<close>: the invariant \<open>indexInv\<close> and what the loops find. \<open>ArenaPeers\<close>, \<open>ArenaPromote\<close>:
    entering and leaving the index, as changes of the multiset \<open>indexed\<close>. \<open>ArenaLookup\<close>: lookups, by counting and by
    the walk. \<open>ArenaHeal\<close>: rebuilding the index from the nodes, and compacting it. \<open>ArenaIndexClaims\<close>: the properties.
  \<^item> this theory: properties of the shared helpers.

  \<^bold>\<open>State and effects.\<close> Structs are records, the entries live in a heap indexed by addresses (the intrusive list
  aliases them), machine integers are 64-bit words, Go's \<open>int\<close> is \<open>int\<close>. An operation takes the state and returns
  the new one with its results and the callbacks it makes, in order. A call of the probe is a read of \<open>probe\<close> at
  a sequence number; the order in which Go ranges over a map is the argument \<open>rng\<close>, any permutation of the keys.

  \<^bold>\<open>What is shown.\<close> For every operation of the map and radix backends: it returns (no panic, no nil dereference, every loop
  ends), it keeps the invariant, and its effect on the list of entries, its results and its callbacks are those of
  an abstract LRU list, on every branch, errors included. Loops of the code are \<open>partial_function (option)\<close>,
  so that not returning would be the value \<open>None\<close>, and no fuel is chosen anywhere: termination is part of each
  theorem. The run-time checks of the code never fail in a reachable state. The sharded cache inherits this from
  the laws of its engine, adds that keys are never in two shards, that capacity is partitioned exactly, and that
  aggregated statistics are truthful: every field is that of \<open>shardTotals\<close>, the sum over the shards or the coordinator's.
  What a hot round of pressure evicts is given exactly, by \<open>shedPlan\<close>: entries from the oldest on, and none once the round's
  targets are met. A sample is published as \<open>publishedCoord\<close> says, the whole coordinator. In the arena the names of nodes
  may include the empty key, which the root bears.

  \<^bold>\<open>Assumptions in theorems.\<close> Fewer than \<open>2 ^ 64 - 1\<close> insertions (a counter of the code would wrap), finite ordered
  thresholds (what \<open>ApplyOptions\<close> yields), \<open>float64\<close> values that are \<open>float64\<close> values, and a shard function that
  answers in range where the theorem needs it.

  \<^bold>\<open>Not modelled.\<close> Goroutines: every operation runs alone, so lock retries, callbacks handed over to another
  goroutine, and the detection of probes and callbacks that re-enter the cache (stack dumps, profile labels,
  goroutine ids in \<^verbatim>\<open>pressure.go\<close>) have no counterpart. \<open>insertNode\<close>, \<open>compressPathUpwards\<close>, moving
  the nodes when they are compacted, and the cache operations of the arena backend, and with them \<open>New\<close> of \<^verbatim>\<open>cache.go\<close>; the sharded cache is proved for the map and radix backends. The benchmark checker under \<^verbatim>\<open>cmd/\<close> and the OpenTelemetry
  exporter.
\<close>

subsection \<open>Helpers the caches rest on\<close>

lemma target_between:
  assumes "0 < a" "a < 1"
  shows "computeTargetSize m (Fin a) \<le> m \<and> (m \<noteq> 0 \<longrightarrow> computeTargetSize m (Fin a) \<noteq> 0)"
proof -
  let ?m = "of_nat (unat m) :: rat"
  let ?x = "round_pos (round_pos ?m * a)"
  have nn: "0 \<le> round_pos ?m * a" using assms by simp
  have "round_pos ?m * a \<le> round_pos ?m" using assms by (simp add: mult_left_le)
  then have x: "?x \<le> round_pos ?m" using round_pos_mono [of "round_pos ?m * a" "round_pos ?m"] round_pos_idem by simp
  have "round_pos ?m \<le> max_float64" using round_pos_u64_le [of m] by (simp add: max_float64_def)
  then have f: "fmul (float_of_u64 m) (Fin a) = Fin ?x"
    unfolding float_of_u64_Fin fmul.simps using x nn by (intro round64_finite) auto
  show ?thesis
  proof (cases "round_pos ?m \<le> ?x \<or> fge (Fin ?x) (float_of_u64 (- 1))")
    case True
    then have "computeTargetSize m (Fin a) = m"
      unfolding computeTargetSize_def f using assms by (auto simp: float_of_u64_Fin Let_def)
    then show ?thesis by simp
  next
    case False
    have "?x \<le> ?m"
    proof (rule ccontr)
      assume "\<not> ?x \<le> ?m"
      then have "round_pos ?m \<le> round_pos ?x" by (intro round_pos_mono) simp
      then show False using False round_pos_idem by simp
    qed
    then have le: "\<lfloor>?x\<rfloor> \<le> int (unat m)" by (simp add: floor_le_iff del: of_nat_unat)
    have "0 \<le> \<lfloor>?x\<rfloor>" by simp
    moreover have "\<lfloor>?x\<rfloor> < 2 ^ 64" using le unat_lt_u64 [of m]
      by (metis of_nat_less_iff of_nat_numeral of_nat_power order_le_less_trans)
    ultimately have "unat (word_of_int \<lfloor>?x\<rfloor> :: u64) = nat \<lfloor>?x\<rfloor>" by (rule unat_word_of_int_u64)
    then have "(word_of_int \<lfloor>?x\<rfloor> :: u64) \<le> m" using le by (simp only: word_le_nat_alt nat_le_iff)
    moreover have "computeTargetSize m (Fin a) = (if (word_of_int \<lfloor>?x\<rfloor> :: u64) = 0 \<and> 0 < m then 1 else word_of_int \<lfloor>?x\<rfloor>)"
      unfolding computeTargetSize_def f using assms False by (auto simp: float_of_u64_Fin Let_def)
    moreover have "1 \<le> m" if "0 < m" using that by (simp add: word_le_nat_alt Suc_le_eq word_less_nat_alt)
    ultimately show ?thesis by (auto simp: word_neq_0_conv)
  qed
qed

text \<open>
  The shedding target computed in floating point never exceeds the capacity, also where the conversion
  of a capacity beyond \<open>2 ^ 53\<close> rounds it up, and with a positive retention ratio it is never zero for a
  cache that can hold something.
\<close>
theorem computeTargetSize_bounds:
  assumes "r \<noteq> NaN"
  shows "computeTargetSize m r \<le> m \<and> (flt (Fin 0) r \<longrightarrow> m \<noteq> 0 \<longrightarrow> computeTargetSize m r \<noteq> 0)"
proof (cases "fle r (Fin 0) \<or> fge r (Fin 1)")
  case True
  then show ?thesis by (cases r) (auto simp: computeTargetSize_def fle_def fge_def)
next
  case False
  then obtain a where "r = Fin a" "0 < a" "a < 1" using assms by (cases r) (auto simp: fge_def fle_def)
  then show ?thesis using target_between by blast
qed

theorem computeTargetSize_bounds_witness: "computeTargetSize 10 (Fin (1 / 2)) \<le> 10 \<and> computeTargetSize 10 (Fin (1 / 2)) \<noteq> 0"
  using computeTargetSize_bounds [of "Fin (1 / 2)" 10] by simp

text \<open>
  The interning of short prefixes is invisible: whichever table, digit parser or copy \<open>clonePrefix\<close> and
  \<open>concatPrefix\<close> take, the results are the string itself and the concatenation.
\<close>
theorem prefix_interning_exact: "clonePrefix s = s \<and> concatPrefix a b = a @ b"
  by (simp add: clonePrefix_id concatPrefix_append)

text \<open>
  C23. The eight-bytes-at-a-time comparison computes the length of the longest common prefix, as comparing
  one byte after the other does.
\<close>
theorem longestCommonPrefix_exact: "longestCommonPrefix a b = common_prefix_length a b"
  by (rule longestCommonPrefix_reference)

text \<open>
  C21. Every event put into a new callback queue is delivered exactly once and in order, through the two inline
  slots and the overflow slice alike: per event the value callback first, then the entry callback.
\<close>
theorem evictQueue_in_order:
  fixes evs :: "(string \<times> ('v :: zero) \<times> EvictionReason) list"
  shows "evictQueue_invoke onVal onEntry (fold (\<lambda>(k, v, r). enqueue k v r) evs (newEvictQueue b)) = deliveries onVal onEntry evs"
  using evq.deliver_in_order [of onVal onEntry evs b] unfolding evq.enq_all_def .

text \<open>
  C22. The doubly linked list on the heap refines a list of addresses: pushing, moving to the front and
  removing have the effect they have on that list, the back is its last element, and no entry's key,
  value or weight changes.
\<close>
theorem entryList_refines:
  assumes "dll s as"
  shows "(e \<notin> set as \<longrightarrow> dll (PushFront e s) (e # as))
    \<and> (e \<in> set as \<longrightarrow> dll (MoveToFront e s) (e # remove1 e as) \<and> dll (Remove e s) (remove1 e as))
    \<and> entryList_Back (snd s) = (if as = [] then None else Some (List.last as)) \<and> entryList_Len (snd s) = int (length as)
    \<and> payload (fst (MoveToFront e s) a) = payload (fst s a) \<and> payload (fst (PushFront e s) a) = payload (fst s a)
    \<and> payload (fst (Remove e s) a) = payload (fst s a)"
  using elist.repr_push [OF assms] elist.move_repr [OF assms] elist.remove_repr [OF assms] elist.repr_back [OF assms]
  by (simp add: dll_Len [OF assms])

theorem entryList_refines_witness:
  "dll (PushFront 1 (\<lambda>_. zeroEntry :: nat entry, emptyList)) [1]"
  using entryList_refines [of "(\<lambda>_. zeroEntry :: nat entry, emptyList)" "[]" 1] by (simp add: dll_def emptyList_def)

text \<open>
  C20. A goroutine that samples gets the reading it asked for: the slow path of \<open>lockWithPressure\<close> invokes
  the probe once, marks the sample valid and returns the sanitized value; it does not retry. It publishes that
  value: the coordinator is left with it as the last and as the cached reading, both under the new sequence
  number and the current epoch, with the recovery epochs advanced exactly where the value lies below a
  threshold and with no refresh pending, and (unless the publication counter wraps) readers of the cache
  accept it. Nothing else of the coordinator changes, and sequence numbers stay ordered.
\<close>
theorem lockWithPressure_fresh:
  fixes env :: samplingEnv and p :: "('v, 'm) pressureState_scheme"
  assumes "seq_ok p" "pressureInvokeSeq (coord p) \<noteq> - 1" "PressureFunc (options p) \<noteq> None" "\<not> isSamplingGoroutine p"
  shows "\<exists>p'. lockWithPressureSlow env p = (p', ownReclaimEpoch p', sanitizePressureValue (options p) (probe env (pressureInvokeSeq (coord p) + 1)))
    \<and> hasValidSample p' \<and> sampledPressureSeq p' = pressureInvokeSeq (coord p) + 1 \<and> seq_ok p'
    \<and> coord p' = publishedCoord (options p) (pressureInvokeSeq (coord p) + 1)
          (sanitizePressureValue (options p) (probe env (pressureInvokeSeq (coord p) + 1))) (coord p)
    \<and> pressureInitialized (coord p') \<and> \<not> pressureNeedsRefresh (coord p')
    \<and> cachedPressure (coord p') = sanitizePressureValue (options p) (probe env (pressureInvokeSeq (coord p) + 1))
    \<and> lastSampledPressure (coord p') = cachedPressure (coord p')
    \<and> pressureInvokeSeq (coord p') = pressureInvokeSeq (coord p) + 1
    \<and> (cachedPublishSeq (coord p) \<noteq> - 1 \<longrightarrow> cachedPublishSeq (coord p) \<noteq> - 2 \<longrightarrow>
        readValidCachedSampleWithPubSeq (coord p') (reclaimEpoch (coord p')) = Some (cachedPressure (coord p'),
          belowTier1Epoch (coord p'), belowTier2Epoch (coord p'), sampledPressureSeq p', cachedPublishSeq (coord p')))"
proof -
  obtain p' where p': "lockWithPressureSlow env p = (p', ownReclaimEpoch p',
      sanitizePressureValue (options p) (probe env (pressureInvokeSeq (coord p) + 1)))" "hasValidSample p'"
    "sampledPressureSeq p' = pressureInvokeSeq (coord p) + 1"
    "coord p' = publishedCoord (options p) (pressureInvokeSeq (coord p) + 1)
          (sanitizePressureValue (options p) (probe env (pressureInvokeSeq (coord p) + 1))) (coord p)" "seq_ok p'"
    using lockWithPressureSlow_fresh [OF assms] by blast
  then show ?thesis
    by (intro exI [of _ p']) (simp add: publishedCoord_read publishedCoord_published)
qed

theorem lockWithPressure_fresh_witness:
  "\<exists>p' e x. lockWithPressureSlow sampleEnv (newPressureState sampleOpts) = (p', e, x) \<and> hasValidSample p' \<and> sampledPressureSeq p' = 1
    \<and> pressureInitialized (coord p') \<and> cachedPressure (coord p') = Fin 0"
proof -
  have "PressureFunc sampleOpts \<noteq> None" unfolding sampleOpts_def ApplyOptions_def Let_def by (rule normalizeCallbacks_set)
  then show ?thesis
    using lockWithPressure_fresh [of "newPressureState sampleOpts" sampleEnv]
    by (auto simp: newPressureState_def zeroCoord_def seq_ok_def isSamplingGoroutine_def sampleEnv_def sanitizePressureValue_def)
qed

end
